(* ===== verification/Prelude.thy ===== *)
theory Prelude
  imports Main "HOL-Library.Word" "HOL-Library.More_List"
begin

text \<open>
  Shared vocabulary of the development: Rust's machine integers and results, the
  linear searches the kernel's tables are built on (\<^verbatim>\<open>iter().position\<close>,
  \<^verbatim>\<open>iter().find\<close>, \<^verbatim>\<open>iter_mut()\<close> with an early return, \<^verbatim>\<open>Vec::remove\<close>,
  \<^verbatim>\<open>Vec::retain\<close>), and the generic facts about them that the components use.
\<close>

unbundle bit_operations_syntax

section \<open>Rust types\<close>

text \<open>
  \<^verbatim>\<open>usize\<close> values that index or count entries of a table are \<open>nat\<close> (they are bounded by
  the length of a vector held in memory); identifiers, hashes, bit masks, addresses and
  free-running counters keep their width. A \<^verbatim>\<open>&str\<close> or \<^verbatim>\<open>String\<close> is the list of its
  UTF-8 bytes, each byte a \<open>char\<close>. \<^verbatim>\<open>Result<T, &'static str>\<close> is a sum whose left
  value is the error message.
\<close>

type_synonym u8 = "8 word"
type_synonym u16 = "16 word"
type_synonym u32 = "32 word"
type_synonym u64 = "64 word"
type_synonym i64 = "64 word"
type_synonym usize = nat
type_synonym str = string
type_synonym 'a result = "string + 'a"

abbreviation Ok :: "'a \<Rightarrow> 'a result" where "Ok \<equiv> Inr"
abbreviation Err :: "string \<Rightarrow> 'a result" where "Err \<equiv> Inl"

definition as_bytes :: "str \<Rightarrow> u8 list" where
  "as_bytes s = map of_char s"

definition from_bytes :: "u8 list \<Rightarrow> str" where
  "from_bytes bs = map (\<lambda>b. char_of (unat b)) bs"

definition is_ascii :: "str \<Rightarrow> bool" where
  "is_ascii s = list_all (\<lambda>c. of_char c < (128 :: u8)) s"

section \<open>Collections of facts\<close>

named_theorems table_simps \<open>searches and updates of the kernel's tables\<close>
named_theorems step_defs \<open>definitions of the operations, unfolded by the branch lemmas\<close>

section \<open>Linear searches\<close>

fun position :: "('a \<Rightarrow> bool) \<Rightarrow> 'a list \<Rightarrow> usize option" where
  "position P [] = None"
| "position P (x # xs) = (if P x then Some 0 else map_option Suc (position P xs))"

definition remove_at :: "usize \<Rightarrow> 'a list \<Rightarrow> 'a list" where
  "remove_at i xs = take i xs @ drop (Suc i) xs"

definition insert_at :: "usize \<Rightarrow> 'a \<Rightarrow> 'a list \<Rightarrow> 'a list" where
  "insert_at i x xs = take i xs @ x # drop i xs"

text \<open>The loop \<^verbatim>\<open>for e in xs.iter_mut() { if P(e) { *e = f(e); return } }\<close>.\<close>

fun update_first :: "('a \<Rightarrow> bool) \<Rightarrow> ('a \<Rightarrow> 'a) \<Rightarrow> 'a list \<Rightarrow> 'a list" where
  "update_first P f [] = []"
| "update_first P f (x # xs) = (if P x then f x # xs else x # update_first P f xs)"

subsection \<open>Facts about the searches\<close>

lemma position_None [table_simps]: "position P xs = None \<longleftrightarrow> (\<forall>x \<in> set xs. \<not> P x)"
  by (induction xs) auto

lemma position_Some:
  "position P xs = Some i \<longleftrightarrow> i < length xs \<and> P (xs ! i) \<and> (\<forall>j < i. \<not> P (xs ! j))"
proof (induction xs arbitrary: i)
  case Nil
  then show ?case by simp
next
  case (Cons x xs)
  show ?case
  proof (cases i)
    case 0
    then show ?thesis by auto
  next
    case (Suc k)
    then show ?thesis
      by (auto simp: Cons.IH less_Suc_eq_0_disj nth_Cons split: nat.split)
  qed
qed

lemma position_SomeD:
  assumes "position P xs = Some i"
  shows "i < length xs" and "P (xs ! i)" and "j < i \<Longrightarrow> \<not> P (xs ! j)"
  using assms by (auto simp: position_Some)

lemma position_exists: "x \<in> set xs \<Longrightarrow> P x \<Longrightarrow> \<exists>i. position P xs = Some i"
  using position_None [of P xs] by (cases "position P xs") auto

lemma position_find: "find P xs = map_option (\<lambda>i. xs ! i) (position P xs)"
  by (induction xs) (auto simp: option.map_comp comp_def)

lemma find_Some_in: "find P xs = Some x \<Longrightarrow> x \<in> set xs \<and> P x"
  by (auto simp: find_Some_iff)

lemma list_ex_find: "list_ex P xs \<longleftrightarrow> find P xs \<noteq> None"
  by (auto simp: list_ex_iff find_None_iff)

lemma find_append: "find P (xs @ ys) = (case find P xs of Some x \<Rightarrow> Some x | None \<Rightarrow> find P ys)"
  by (induction xs) auto

lemma find_shift: "find P (map Suc xs) = map_option Suc (find (\<lambda>i. P (Suc i)) xs)"
  by (induction xs) auto

lemma find_position: "find (\<lambda>i. P (xs ! i)) [0..<length xs] = position P xs"
proof (induction xs)
  case Nil
  then show ?case by simp
next
  case (Cons x xs)
  then show ?case
    by (simp add: upt_conv_Cons map_Suc_upt [symmetric] find_shift del: upt_Suc)
qed

lemma update_first_position:
  "update_first P f xs =
     (case position P xs of None \<Rightarrow> xs | Some i \<Rightarrow> xs[i := f (xs ! i)])"
  by (induction xs) (auto split: option.splits)

lemma length_update_first [simp]: "length (update_first P f xs) = length xs"
  by (induction xs) auto

lemma update_first_none [simp]: "\<forall>x \<in> set xs. \<not> P x \<Longrightarrow> update_first P f xs = xs"
  by (induction xs) auto

lemma update_first_mem:
  "y \<in> set (update_first P f xs) \<Longrightarrow> y \<in> set xs \<or> (\<exists>x \<in> set xs. P x \<and> y = f x)"
  by (induction xs) (auto split: if_splits)

lemma map_update_first:
  assumes "\<And>x. P x \<Longrightarrow> g (f x) = g x"
  shows "map g (update_first P f xs) = map g xs"
  using assms by (induction xs) auto

lemma list_all_update_first:
  assumes "list_all Q xs" and "\<And>x. Q x \<Longrightarrow> P x \<Longrightarrow> Q (f x)"
  shows "list_all Q (update_first P f xs)"
  using assms(1) by (induction xs) (auto simp: assms(2))

lemma length_insert_at [simp]: "i \<le> length xs \<Longrightarrow> length (insert_at i x xs) = Suc (length xs)"
  by (simp add: insert_at_def)

lemma set_insert_at [simp]: "set (insert_at i x xs) = insert x (set xs)"
  unfolding insert_at_def
  by (metis append_take_drop_id list.set(2) set_append Un_insert_right)

lemma length_remove_at [simp]: "i < length xs \<Longrightarrow> length (remove_at i xs) = length xs - 1"
  by (simp add: remove_at_def)

lemma set_remove_at: "set (remove_at i xs) \<subseteq> set xs"
  unfolding remove_at_def using set_take_subset set_drop_subset by fastforce

lemma map_remove_at: "map f (remove_at i xs) = remove_at i (map f xs)"
  by (simp add: remove_at_def take_map drop_map)

lemma distinct_remove_at: "distinct xs \<Longrightarrow> distinct (remove_at i xs)"
  by (simp add: remove_at_def set_take_disj_set_drop_if_distinct)

lemma list_all_list_update: "list_all P xs \<Longrightarrow> P x \<Longrightarrow> list_all P (xs[i := x])"
  by (auto simp: list_all_iff dest: set_update_subset_insert [THEN subsetD])

section \<open>Runs\<close>

text \<open>A sequence of operations on a component: the answers, and the state it leaves.\<close>

fun run_ops :: "('s \<Rightarrow> 'op \<Rightarrow> 'out \<times> 's) \<Rightarrow> 's \<Rightarrow> 'op list \<Rightarrow> 'out list \<times> 's" where
  "run_ops step s [] = ([], s)"
| "run_ops step s (op # ops) =
     (let (out, s') = step s op; (outs, s'') = run_ops step s' ops in (out # outs, s''))"

section \<open>Slot tables\<close>

text \<open>
  Fixed arrays of slots whose first free entry is taken (file descriptors, channels, pipes,
  shared-memory regions).
\<close>

definition alloc_slot :: "('s \<Rightarrow> bool) \<Rightarrow> 's \<Rightarrow> 's list \<Rightarrow> (usize \<times> 's list) option" where
  "alloc_slot is_free s xs = map_option (\<lambda>i. (i, xs[i := s])) (position is_free xs)"

lemma alloc_slot_Some:
  assumes "alloc_slot is_free s xs = Some (i, ys)"
  shows "i < length xs" and "is_free (xs ! i)" and "ys = xs[i := s]"
    and "\<And>j. j < i \<Longrightarrow> \<not> is_free (xs ! j)"
  using assms by (auto simp: alloc_slot_def position_Some)

lemma alloc_slot_None: "alloc_slot is_free s xs = None \<longleftrightarrow> (\<forall>x \<in> set xs. \<not> is_free x)"
  by (simp add: alloc_slot_def position_None)

text \<open>
  A slot of a fixed array is read with \<open>nth_default\<close>, whose default (a free slot) is never
  used on a table of the array's length: the functions check the index first.
\<close>

lemma nth_default_in [simp]: "i < length xs \<Longrightarrow> nth_default d xs i = xs ! i"
  by (simp add: nth_default_def)

lemma nth_default_update:
  "nth_default d (xs[i := x]) j = (if i = j \<and> i < length xs then x else nth_default d xs j)"
  by (auto simp: nth_default_def nth_list_update)

section \<open>Bytes\<close>

lemma as_bytes_append [simp]: "as_bytes (s @ t) = as_bytes s @ as_bytes t"
  by (simp add: as_bytes_def)

lemma as_bytes_Nil [simp]: "as_bytes [] = []"
  by (simp add: as_bytes_def)

lemma as_bytes_Cons [simp]: "as_bytes (c # s) = of_char c # as_bytes s"
  by (simp add: as_bytes_def)

lemma length_as_bytes [simp]: "length (as_bytes s) = length s"
  by (simp add: as_bytes_def)

lemma unat_of_char [simp]: "unat (of_char c :: u8) = of_char c"
proof -
  have "(of_char c :: u8) = of_nat (of_char c)" by (rule of_nat_of_char [symmetric])
  moreover have "of_char c < (256 :: nat)" using of_char_of [of "of_char c :: nat"] by (metis char_of_char mod_less_divisor zero_less_numeral)
  ultimately show ?thesis by (simp add: unat_of_nat)
qed

lemma from_bytes_as_bytes [simp]: "from_bytes (as_bytes s) = s"
  by (simp add: from_bytes_def as_bytes_def comp_def)

lemma as_bytes_from_bytes [simp]: "as_bytes (from_bytes bs) = bs"
proof -
  have "of_char (char_of (unat b)) = b" for b :: u8
  proof -
    have "(of_char (char_of (unat b)) :: u8) = of_nat (of_char (char_of (unat b)))"
      by (rule of_nat_of_char [symmetric])
    also have "\<dots> = of_nat (unat b mod 256)" by (simp only: of_char_of)
    also have "\<dots> = b" using unsigned_less [of b, where 'a = nat] by simp
    finally show ?thesis .
  qed
  then show ?thesis by (simp add: from_bytes_def as_bytes_def comp_def)
qed

lemma bit_u8_beyond: "8 \<le> n \<Longrightarrow> \<not> bit (b :: u8) n"
  using bit_imp_le_length [of b n] by auto

end
