(* ===== verification/Fifo.thy ===== *)
theory Fifo
  imports Prelude
begin

text \<open>
  The byte queues of the kernel: the interface \<open>bounded_fifo\<close> that the IPC channels
  (\<^verbatim>\<open>ipc.rs\<close>) and the pipes (\<^verbatim>\<open>pipefs.rs\<close>) both implement, what a client of the
  interface can rely on, and the index arithmetic of the ring buffers that implement it.
\<close>

section \<open>Sequences of queue operations\<close>

datatype 'a fifo_op = Put 'a | Get

text \<open>
  A run of operations: the items the queue accepted, the items it delivered, and the
  queue it leaves.
\<close>

fun fifo_run :: "('q \<Rightarrow> 'a \<Rightarrow> bool \<times> 'q) \<Rightarrow> ('q \<Rightarrow> 'a option \<times> 'q) \<Rightarrow> 'q \<Rightarrow> 'a fifo_op list
    \<Rightarrow> 'a list \<times> 'a list \<times> 'q" where
  "fifo_run put get q [] = ([], [], q)"
| "fifo_run put get q (Put x # ops) =
     (let (ok, q1) = put q x; (ins, outs, q2) = fifo_run put get q1 ops
      in (if ok then x # ins else ins, outs, q2))"
| "fifo_run put get q (Get # ops) =
     (let (r, q1) = get q; (ins, outs, q2) = fifo_run put get q1 ops
      in (ins, case r of None \<Rightarrow> outs | Some x \<Rightarrow> x # outs, q2))"

section \<open>The interface\<close>

locale bounded_fifo =
  fixes cap :: nat
    and invar :: "'q \<Rightarrow> bool"
    and contents :: "'q \<Rightarrow> 'a list"
    and put :: "'q \<Rightarrow> 'a \<Rightarrow> bool \<times> 'q"
    and get :: "'q \<Rightarrow> 'a option \<times> 'q"
  assumes length_contents: "invar q \<Longrightarrow> length (contents q) \<le> cap"
    and put_full: "invar q \<Longrightarrow> length (contents q) = cap \<Longrightarrow> put q x = (False, q)"
    and fst_put: "invar q \<Longrightarrow> length (contents q) < cap \<Longrightarrow> fst (put q x)"
    and contents_put:
      "invar q \<Longrightarrow> length (contents q) < cap \<Longrightarrow> contents (snd (put q x)) = contents q @ [x]"
    and invar_put: "invar q \<Longrightarrow> invar (snd (put q x))"
    and get_empty: "invar q \<Longrightarrow> contents q = [] \<Longrightarrow> get q = (None, q)"
    and fst_get: "invar q \<Longrightarrow> contents q \<noteq> [] \<Longrightarrow> fst (get q) = Some (hd (contents q))"
    and contents_get: "invar q \<Longrightarrow> contents (snd (get q)) = tl (contents q)"
    and invar_get: "invar q \<Longrightarrow> invar (snd (get q))"
begin

text \<open>First in, first out, under any interleaving of both ends.\<close>

lemma run_fifo:
  assumes "invar q" and "fifo_run put get q ops = (ins, outs, q')"
  shows "invar q' \<and> contents q @ ins = outs @ contents q'"
  using assms
proof (induction ops arbitrary: q ins outs q')
  case Nil
  then show ?case by simp
next
  case (Cons op ops)
  show ?case
  proof (cases op)
    case (Put x)
    obtain ok q1 where p: "put q x = (ok, q1)" by fastforce
    obtain ins1 outs1 q2 where r: "fifo_run put get q1 ops = (ins1, outs1, q2)"
      using prod_cases3 by blast
    have q1: "invar q1" using invar_put [OF Cons.prems(1), of x] p by simp
    have c: "contents q @ (if ok then [x] else []) = contents q1"
    proof (cases "length (contents q) < cap")
      case True
      with p Cons.prems(1) show ?thesis using fst_put [of q x] contents_put [of q x] by simp
    next
      case False
      with length_contents [OF Cons.prems(1)] have "length (contents q) = cap" by simp
      from put_full [OF Cons.prems(1) this, of x] p show ?thesis by simp
    qed
    have res: "ins = (if ok then x # ins1 else ins1)" "outs = outs1" "q' = q2"
      using Cons.prems(2) Put p r by auto
    from Cons.IH [OF q1 r] have "invar q2" and "contents q1 @ ins1 = outs1 @ contents q2" by auto
    with res show ?thesis by (cases ok) (simp_all flip: c)
  next
    case Get
    obtain v q1 where g: "get q = (v, q1)" by fastforce
    obtain ins1 outs1 q2 where r: "fifo_run put get q1 ops = (ins1, outs1, q2)"
      using prod_cases3 by blast
    have q1: "invar q1" using invar_get [OF Cons.prems(1)] g by simp
    have t: "contents q1 = tl (contents q)" using contents_get [OF Cons.prems(1)] g by simp
    have c: "contents q = (case v of None \<Rightarrow> [] | Some x \<Rightarrow> [x]) @ contents q1"
    proof (cases "contents q")
      case Nil
      with get_empty [OF Cons.prems(1)] g show ?thesis by simp
    next
      case (Cons y ys)
      then show ?thesis using fst_get [OF Cons.prems(1)] t g Cons.prems(1) by simp
    qed
    have res: "ins = ins1" "q' = q2" "outs = (case v of None \<Rightarrow> outs1 | Some x \<Rightarrow> x # outs1)"
      using Cons.prems(2) Get g r by auto
    from Cons.IH [OF q1 r] have "invar q2" and "contents q1 @ ins1 = outs1 @ contents q2" by auto
    with c res show ?thesis by (cases v) simp_all
  qed
qed

end

section \<open>Ring buffers\<close>

text \<open>The \<open>n\<close> items of a ring buffer that start at index \<open>rp\<close>.\<close>

definition ring_contents :: "'a list \<Rightarrow> nat \<Rightarrow> nat \<Rightarrow> 'a list" where
  "ring_contents buf rp n = map (\<lambda>i. buf ! ((rp + i) mod length buf)) [0..<n]"

definition ring_ok :: "nat \<Rightarrow> 'a list \<Rightarrow> nat \<Rightarrow> nat \<Rightarrow> nat \<Rightarrow> bool" where
  "ring_ok cap buf rp wp n \<longleftrightarrow>
     0 < cap \<and> length buf = cap \<and> rp < cap \<and> n \<le> cap \<and> wp = (rp + n) mod cap"

lemma length_ring_contents [simp]: "length (ring_contents buf rp n) = n"
  by (simp add: ring_contents_def)

lemma ring_contents_0 [simp]: "ring_contents buf rp 0 = []"
  by (simp add: ring_contents_def)

lemma mod_add_neq:
  assumes "i < n" and "n < (k::nat)"
  shows "(a + i) mod k \<noteq> (a + n) mod k"
proof
  assume "(a + i) mod k = (a + n) mod k"
  then have "k dvd n - i"
    using assms(1) mod_eq_dvd_iff_nat [of "a + i" "a + n" k] by simp
  with assms show False using nat_dvd_not_less [of "n - i" k] by simp
qed

lemma ring_write:
  assumes "ring_ok cap buf rp wp n" and "n < cap"
  shows "ring_contents (buf[wp := x]) rp (Suc n) = ring_contents buf rp n @ [x]"
    and "ring_ok cap (buf[wp := x]) rp ((wp + 1) mod cap) (Suc n)"
proof -
  have "buf[wp := x] ! ((rp + i) mod cap) = buf ! ((rp + i) mod cap)" if "i < n" for i
    using that assms mod_add_neq [of i n cap rp] by (auto simp: ring_ok_def)
  with assms show "ring_contents (buf[wp := x]) rp (Suc n) = ring_contents buf rp n @ [x]"
    by (auto simp: ring_contents_def ring_ok_def)
  from assms show "ring_ok cap (buf[wp := x]) rp ((wp + 1) mod cap) (Suc n)"
    by (simp add: ring_ok_def mod_Suc_eq)
qed

lemma ring_read:
  assumes "ring_ok cap buf rp wp (Suc n)"
  shows "ring_contents buf rp (Suc n) = buf ! rp # ring_contents buf ((rp + 1) mod cap) n"
    and "ring_ok cap buf ((rp + 1) mod cap) wp n"
proof -
  have "(rp + Suc i) mod cap = ((rp + 1) mod cap + i) mod cap" for i
    by (simp add: mod_simps)
  with assms show "ring_contents buf rp (Suc n) = buf ! rp # ring_contents buf ((rp + 1) mod cap) n"
    by (simp add: ring_contents_def ring_ok_def upt_conv_Cons map_Suc_upt [symmetric] comp_def
        del: upt_Suc)
  from assms show "ring_ok cap buf ((rp + 1) mod cap) wp n"
    by (simp add: ring_ok_def mod_simps)
qed

end
