(* ===== verification/Ipc.thy ===== *)
theory Ipc
  imports Fifo
begin

text \<open>
  Bounded byte channels between tasks (\<^verbatim>\<open>src/ipc.rs\<close>): the ring buffer \<^verbatim>\<open>Channel\<close>, the
  global table \<^verbatim>\<open>CHANNELS\<close> and the public functions on it. The table is the state that
  every function takes and returns. Each channel implements the interface
  \<open>bounded_fifo\<close>, and the table as a whole refines a map from channel identifiers to
  lists of at most \<open>CHANNEL_BUF_SIZE\<close> bytes.
\<close>

section \<open>Channels\<close>

definition MAX_CHANNELS :: usize where "MAX_CHANNELS = 4"
definition CHANNEL_BUF_SIZE :: usize where "CHANNEL_BUF_SIZE = 64"

record channel =
  ch_buf :: "u8 list"
  ch_read_pos :: usize
  ch_write_pos :: usize
  ch_count :: usize

datatype channel_slot = ChFree | ChActive channel

type_synonym channels = "channel_slot list"

definition CHANNELS_init :: channels where
  "CHANNELS_init = replicate MAX_CHANNELS ChFree"

definition channel_new :: channel where
  "channel_new = \<lparr>ch_buf = replicate CHANNEL_BUF_SIZE 0, ch_read_pos = 0, ch_write_pos = 0, ch_count = 0\<rparr>"

definition channel_send :: "channel \<Rightarrow> u8 \<Rightarrow> bool \<times> channel" where
  "channel_send c byte =
     (if ch_count c \<ge> CHANNEL_BUF_SIZE then (False, c)
      else (True, c\<lparr>ch_buf := (ch_buf c)[ch_write_pos c := byte],
                    ch_write_pos := (ch_write_pos c + 1) mod CHANNEL_BUF_SIZE,
                    ch_count := ch_count c + 1\<rparr>))"

definition channel_recv :: "channel \<Rightarrow> u8 option \<times> channel" where
  "channel_recv c =
     (if ch_count c = 0 then (None, c)
      else (Some (ch_buf c ! ch_read_pos c),
            c\<lparr>ch_read_pos := (ch_read_pos c + 1) mod CHANNEL_BUF_SIZE,
              ch_count := ch_count c - 1\<rparr>))"

definition channel_len :: "channel \<Rightarrow> usize" where
  "channel_len c = ch_count c"

section \<open>The channel table\<close>

definition is_ch_free :: "channel_slot \<Rightarrow> bool" where
  "is_ch_free s = (case s of ChFree \<Rightarrow> True | ChActive _ \<Rightarrow> False)"

definition ipc_create :: "channels \<Rightarrow> usize option \<times> channels" where
  "ipc_create chs =
     (case alloc_slot is_ch_free (ChActive channel_new) chs of
        Some (i, chs') \<Rightarrow> (Some i, chs')
      | None \<Rightarrow> (None, chs))"

definition ipc_destroy :: "channels \<Rightarrow> usize \<Rightarrow> channels" where
  "ipc_destroy chs cid = (if cid < MAX_CHANNELS then chs[cid := ChFree] else chs)"

definition ipc_send :: "channels \<Rightarrow> usize \<Rightarrow> u8 \<Rightarrow> bool \<times> channels" where
  "ipc_send chs cid byte =
     (if cid \<ge> MAX_CHANNELS then (False, chs)
      else case nth_default ChFree chs cid of
        ChActive ch \<Rightarrow> (let (ok, ch') = channel_send ch byte in (ok, chs[cid := ChActive ch']))
      | ChFree \<Rightarrow> (False, chs))"

definition ipc_recv :: "channels \<Rightarrow> usize \<Rightarrow> u8 option \<times> channels" where
  "ipc_recv chs cid =
     (if cid \<ge> MAX_CHANNELS then (None, chs)
      else case nth_default ChFree chs cid of
        ChActive ch \<Rightarrow> (let (r, ch') = channel_recv ch in (r, chs[cid := ChActive ch']))
      | ChFree \<Rightarrow> (None, chs))"

text \<open>The loop of \<^verbatim>\<open>send_str\<close> over the remaining bytes, counting what was sent.\<close>

fun ipc_send_bytes :: "channels \<Rightarrow> usize \<Rightarrow> u8 list \<Rightarrow> usize \<times> channels" where
  "ipc_send_bytes chs cid [] = (0, chs)"
| "ipc_send_bytes chs cid (b # bs) =
     (let (ok, chs') = ipc_send chs cid b
      in if ok then (let (n, chs'') = ipc_send_bytes chs' cid bs in (Suc n, chs''))
         else (0, chs'))"

definition ipc_send_str :: "channels \<Rightarrow> usize \<Rightarrow> str \<Rightarrow> usize \<times> channels" where
  "ipc_send_str chs cid s = ipc_send_bytes chs cid (as_bytes s)"

text \<open>
  \<^verbatim>\<open>result.push(byte as char)\<close>: the byte is read as a Latin-1 code point and the string
  grows by that code point's UTF-8 encoding, one byte below 128 and two from 128 on.
\<close>

definition push_latin1 :: "u8 \<Rightarrow> str" where
  "push_latin1 b =
     (if b < 128 then from_bytes [b]
      else from_bytes [0xC0 OR drop_bit 6 b, 0x80 OR (b AND 0x3F)])"

definition ipc_pending :: "channels \<Rightarrow> usize \<Rightarrow> usize" where
  "ipc_pending chs cid =
     (case nth_default ChFree chs cid of ChFree \<Rightarrow> 0 | ChActive ch \<Rightarrow> channel_len ch)"

text \<open>The loop of \<^verbatim>\<open>recv_all\<close>: every round takes one byte off the channel.\<close>

function ipc_recv_all :: "channels \<Rightarrow> usize \<Rightarrow> str \<times> channels" where
  "ipc_recv_all chs cid =
     (case ipc_recv chs cid of
        (None, chs') \<Rightarrow> ([], chs')
      | (Some b, chs') \<Rightarrow> (let (s, chs'') = ipc_recv_all chs' cid in (push_latin1 b @ s, chs'')))"
  by pat_completeness auto

definition ipc_list :: "channels \<Rightarrow> (usize \<times> usize) list" where
  "ipc_list chs =
     concat (map (\<lambda>(i, slot). case slot of ChActive ch \<Rightarrow> [(i, channel_len ch)] | ChFree \<Rightarrow> [])
       (enumerate 0 chs))"

lemma ipc_recv_decreases:
  assumes r: "ipc_recv chs cid = (Some b, chs')"
  shows "ipc_pending chs' cid < ipc_pending chs cid"
proof -
  from r obtain ch where "nth_default ChFree chs cid = ChActive ch" and "cid < MAX_CHANNELS"
    by (auto simp: ipc_recv_def split: if_splits channel_slot.splits)
  moreover from this have "cid < length chs" by (auto simp: nth_default_def split: if_splits)
  ultimately show ?thesis using r
    by (auto simp: ipc_recv_def channel_recv_def ipc_pending_def channel_len_def
        nth_default_update split: if_splits)
qed

termination ipc_recv_all
  by (relation "measure (\<lambda>(chs, cid). ipc_pending chs cid)") (auto dest: ipc_recv_decreases [OF sym])

declare ipc_recv_all.simps [simp del]

section \<open>Each channel is a bounded queue\<close>

definition channel_ok :: "channel \<Rightarrow> bool" where
  "channel_ok c = ring_ok CHANNEL_BUF_SIZE (ch_buf c) (ch_read_pos c) (ch_write_pos c) (ch_count c)"

definition channel_contents :: "channel \<Rightarrow> u8 list" where
  "channel_contents c = ring_contents (ch_buf c) (ch_read_pos c) (ch_count c)"

lemma channel_new_ok [simp]: "channel_ok channel_new"
  and channel_new_contents [simp]: "channel_contents channel_new = []"
  by (simp_all add: channel_ok_def channel_new_def ring_ok_def channel_contents_def CHANNEL_BUF_SIZE_def)

lemma channel_send_full: "ch_count c \<ge> CHANNEL_BUF_SIZE \<Longrightarrow> channel_send c b = (False, c)"
  by (simp add: channel_send_def)

lemma channel_send_room:
  assumes "channel_ok c" and "ch_count c < CHANNEL_BUF_SIZE"
  shows "fst (channel_send c b)"
    and "channel_ok (snd (channel_send c b))"
    and "channel_contents (snd (channel_send c b)) = channel_contents c @ [b]"
  using assms ring_write [of CHANNEL_BUF_SIZE "ch_buf c" "ch_read_pos c" "ch_write_pos c" "ch_count c" b]
  by (simp_all add: channel_send_def channel_ok_def channel_contents_def)

lemma channel_recv_some:
  assumes "channel_ok c" and "ch_count c \<noteq> 0"
  shows "fst (channel_recv c) = Some (hd (channel_contents c))"
    and "channel_ok (snd (channel_recv c))"
    and "channel_contents (snd (channel_recv c)) = tl (channel_contents c)"
  using assms ring_read [of CHANNEL_BUF_SIZE "ch_buf c" "ch_read_pos c" "ch_write_pos c" "ch_count c - 1"]
  by (simp_all add: channel_recv_def channel_ok_def channel_contents_def)

lemma length_channel_contents [simp]: "length (channel_contents c) = ch_count c"
  by (simp add: channel_contents_def)

lemma channel_contents_Nil: "channel_contents c = [] \<longleftrightarrow> ch_count c = 0"
  by (metis length_0_conv length_channel_contents)

interpretation chan: bounded_fifo CHANNEL_BUF_SIZE channel_ok channel_contents channel_send channel_recv
proof
  fix c b
  assume ok: "channel_ok c"
  then show "length (channel_contents c) \<le> CHANNEL_BUF_SIZE"
    by (simp add: channel_ok_def ring_ok_def)
  show "channel_send c b = (False, c)" if "length (channel_contents c) = CHANNEL_BUF_SIZE"
    using that by (simp add: channel_send_full)
  show "fst (channel_send c b)" "channel_contents (snd (channel_send c b)) = channel_contents c @ [b]"
    if "length (channel_contents c) < CHANNEL_BUF_SIZE"
    using that ok channel_send_room by simp_all
  show "channel_ok (snd (channel_send c b))"
    using ok channel_send_room channel_send_full by (cases "ch_count c < CHANNEL_BUF_SIZE") simp_all
  show "channel_recv c = (None, c)" if "channel_contents c = []"
    using that by (simp add: channel_recv_def channel_contents_Nil)
  show "fst (channel_recv c) = Some (hd (channel_contents c))" if "channel_contents c \<noteq> []"
    using that ok channel_recv_some by (simp add: channel_contents_Nil)
  show "channel_contents (snd (channel_recv c)) = tl (channel_contents c)"
  proof (cases "ch_count c = 0")
    case True
    then have "channel_contents c = []" by (simp add: channel_contents_Nil)
    with True show ?thesis by (simp add: channel_recv_def)
  next
    case False
    with ok show ?thesis by (rule channel_recv_some)
  qed
  show "channel_ok (snd (channel_recv c))"
    using ok channel_recv_some by (cases "ch_count c = 0") (simp_all add: channel_recv_def)
qed

section \<open>The table refines a map of bounded lists\<close>

type_synonym chan_map = "usize \<rightharpoonup> u8 list"

definition ipc_abs :: "channels \<Rightarrow> chan_map" where
  "ipc_abs chs cid =
     (case nth_default ChFree chs cid of ChFree \<Rightarrow> None | ChActive ch \<Rightarrow> Some (channel_contents ch))"

definition slot_ok :: "channel_slot \<Rightarrow> bool" where
  "slot_ok s = (case s of ChFree \<Rightarrow> True | ChActive ch \<Rightarrow> channel_ok ch)"

definition ipc_ok :: "channels \<Rightarrow> bool" where
  "ipc_ok chs \<longleftrightarrow> length chs = MAX_CHANNELS \<and> list_all slot_ok chs"

datatype ipc_op = IpcCreate | IpcDestroy usize | IpcSend usize u8 | IpcRecv usize

datatype ipc_out = OutId "usize option" | OutUnit | OutBool bool | OutByte "u8 option"

fun ipc_step :: "channels \<Rightarrow> ipc_op \<Rightarrow> ipc_out \<times> channels" where
  "ipc_step chs IpcCreate = apfst OutId (ipc_create chs)"
| "ipc_step chs (IpcDestroy cid) = (OutUnit, ipc_destroy chs cid)"
| "ipc_step chs (IpcSend cid b) = apfst OutBool (ipc_send chs cid b)"
| "ipc_step chs (IpcRecv cid) = apfst OutByte (ipc_recv chs cid)"

fun chan_spec :: "chan_map \<Rightarrow> ipc_op \<Rightarrow> ipc_out \<times> chan_map" where
  "chan_spec m IpcCreate =
     (case find (\<lambda>i. m i = None) [0..<MAX_CHANNELS] of
        None \<Rightarrow> (OutId None, m)
      | Some i \<Rightarrow> (OutId (Some i), m(i \<mapsto> [])))"
| "chan_spec m (IpcDestroy cid) = (OutUnit, if cid < MAX_CHANNELS then m(cid := None) else m)"
| "chan_spec m (IpcSend cid b) =
     (case m cid of
        None \<Rightarrow> (OutBool False, m)
      | Some q \<Rightarrow> if length q < CHANNEL_BUF_SIZE then (OutBool True, m(cid \<mapsto> q @ [b]))
                  else (OutBool False, m))"
| "chan_spec m (IpcRecv cid) =
     (case m cid of
        None \<Rightarrow> (OutByte None, m)
      | Some [] \<Rightarrow> (OutByte None, m)
      | Some (b # q) \<Rightarrow> (OutByte (Some b), m(cid \<mapsto> q)))"

lemma ipc_ok_slot:
  assumes "ipc_ok chs" and "nth_default ChFree chs cid = ChActive ch"
  shows "cid < MAX_CHANNELS" and "cid < length chs" and "channel_ok ch" and "chs ! cid = ChActive ch"
  using assms
  by (auto simp: ipc_ok_def nth_default_def slot_ok_def list_all_length split: if_splits)

lemma ipc_ok_update: "ipc_ok chs \<Longrightarrow> slot_ok s \<Longrightarrow> ipc_ok (chs[cid := s])"
  by (simp add: ipc_ok_def list_all_list_update)

lemma ipc_abs_update:
  "cid < length chs \<Longrightarrow> ipc_abs (chs[cid := s]) =
     (ipc_abs chs)(cid := (case s of ChFree \<Rightarrow> None | ChActive ch \<Rightarrow> Some (channel_contents ch)))"
  by (auto simp: ipc_abs_def nth_default_update)

lemma ipc_abs_None:
  "cid < length chs \<Longrightarrow> ipc_abs chs cid = None \<longleftrightarrow> is_ch_free (chs ! cid)"
  by (simp add: ipc_abs_def is_ch_free_def split: channel_slot.splits)

lemma position_ipc_abs:
  assumes "ipc_ok chs"
  shows "position is_ch_free chs = find (\<lambda>i. ipc_abs chs i = None) [0..<MAX_CHANNELS]"
proof -
  have len: "length chs = MAX_CHANNELS" using assms by (simp add: ipc_ok_def)
  have "find (\<lambda>i. ipc_abs chs i = None) [0..<MAX_CHANNELS]
      = find (\<lambda>i. is_ch_free (chs ! i)) [0..<length chs]"
    using len by (intro find_cong) (auto simp: ipc_abs_None)
  also have "\<dots> = position is_ch_free chs"
    by (rule find_position)
  finally show ?thesis by simp
qed

lemma ipc_step_refines:
  assumes ok: "ipc_ok chs"
  shows "ipc_ok (snd (ipc_step chs op)) \<and>
    fst (ipc_step chs op) = fst (chan_spec (ipc_abs chs) op) \<and>
    ipc_abs (snd (ipc_step chs op)) = snd (chan_spec (ipc_abs chs) op)"
proof (cases op)
  case IpcCreate
  have len: "length chs = MAX_CHANNELS" using ok by (simp add: ipc_ok_def)
  show ?thesis
    using ok position_ipc_abs [OF ok] position_SomeD(1) [of is_ch_free chs] IpcCreate
    by (auto simp: ipc_create_def alloc_slot_def ipc_ok_update ipc_abs_update slot_ok_def
        split: option.splits)
next
  case (IpcDestroy cid)
  then show ?thesis using ok
    by (simp add: ipc_destroy_def ipc_ok_update slot_ok_def ipc_abs_update ipc_ok_def [of chs])
next
  case (IpcSend cid b)
  show ?thesis
  proof (cases "nth_default ChFree chs cid")
    case ChFree
    with IpcSend ok show ?thesis by (simp add: ipc_send_def ipc_abs_def)
  next
    case (ChActive ch)
    note c = ipc_ok_slot [OF ok ChActive]
    show ?thesis
      using IpcSend ok ChActive c chan.put_full [OF c(3), of b] chan.length_contents [OF c(3)]
        channel_send_room [OF c(3), of b]
      by (cases "ch_count ch < CHANNEL_BUF_SIZE")
        (auto simp: ipc_send_def ipc_abs_update ipc_ok_update slot_ok_def ipc_abs_def [of chs]
          split: prod.splits)
  qed
next
  case (IpcRecv cid)
  show ?thesis
  proof (cases "nth_default ChFree chs cid")
    case ChFree
    with IpcRecv ok show ?thesis by (simp add: ipc_recv_def ipc_abs_def)
  next
    case (ChActive ch)
    note c = ipc_ok_slot [OF ok ChActive]
    show ?thesis
      using IpcRecv ok ChActive c chan.get_empty [OF c(3)] channel_recv_some [OF c(3)]
        chan.fst_get [OF c(3)] chan.contents_get [OF c(3)] chan.invar_get [OF c(3)]
      by (cases "channel_contents ch")
        (auto simp: ipc_recv_def ipc_abs_update ipc_ok_update slot_ok_def ipc_abs_def [of chs]
          split: prod.splits)
  qed
qed

lemma CHANNELS_init_ok: "ipc_ok CHANNELS_init" and CHANNELS_init_abs: "ipc_abs CHANNELS_init = Map.empty"
  by (auto simp: CHANNELS_init_def ipc_ok_def list_all_length slot_ok_def ipc_abs_def nth_default_def)

lemma ipc_run_refines:
  "ipc_ok chs \<Longrightarrow> fst (run_ops ipc_step chs ops) = fst (run_ops chan_spec (ipc_abs chs) ops) \<and>
     ipc_abs (snd (run_ops ipc_step chs ops)) = snd (run_ops chan_spec (ipc_abs chs) ops)"
proof (induction ops arbitrary: chs)
  case Nil
  then show ?case by simp
next
  case (Cons op ops)
  from ipc_step_refines [OF Cons.prems, of op] Cons.IH show ?case
    by (auto simp: Let_def split: prod.splits) (metis fst_conv snd_conv)+
qed

section \<open>Strings\<close>

lemma ipc_send_spec:
  assumes "ipc_ok chs" and "ipc_abs chs cid = Some q"
  shows "ipc_ok (snd (ipc_send chs cid b))"
    and "fst (ipc_send chs cid b) \<longleftrightarrow> length q < CHANNEL_BUF_SIZE"
    and "ipc_abs (snd (ipc_send chs cid b)) =
      (if length q < CHANNEL_BUF_SIZE then (ipc_abs chs)(cid \<mapsto> q @ [b]) else ipc_abs chs)"
  using ipc_step_refines [OF assms(1), of "IpcSend cid b"] assms(2)
  by (cases "ipc_send chs cid b"; auto split: if_splits)+

lemma ipc_recv_spec:
  assumes "ipc_ok chs" and "ipc_abs chs cid = Some q"
  shows "ipc_ok (snd (ipc_recv chs cid))"
    and "fst (ipc_recv chs cid) = (case q of [] \<Rightarrow> None | b # _ \<Rightarrow> Some b)"
    and "ipc_abs (snd (ipc_recv chs cid)) = (ipc_abs chs)(cid \<mapsto> tl q)"
  using ipc_step_refines [OF assms(1), of "IpcRecv cid"] assms(2)
  by (cases "ipc_recv chs cid"; auto split: list.splits)+

lemma ipc_send_bytes_spec:
  assumes "ipc_ok chs" and "ipc_abs chs cid = Some q"
  defines "n \<equiv> \<lambda>bs. min (length bs) (CHANNEL_BUF_SIZE - length q)"
  shows "ipc_ok (snd (ipc_send_bytes chs cid bs)) \<and>
    fst (ipc_send_bytes chs cid bs) = n bs \<and>
    ipc_abs (snd (ipc_send_bytes chs cid bs)) = (ipc_abs chs)(cid \<mapsto> q @ take (n bs) bs)"
  using assms(1,2) unfolding n_def
proof (induction bs arbitrary: chs q)
  case Nil
  then show ?case by (simp add: fun_upd_idem)
next
  case (Cons b bs)
  note s = ipc_send_spec [OF Cons.prems, of b]
  obtain ok chs' where r: "ipc_send chs cid b = (ok, chs')" by fastforce
  show ?case
  proof (cases "length q < CHANNEL_BUF_SIZE")
    case True
    with s r have "ok" "ipc_ok chs'" "ipc_abs chs' = (ipc_abs chs)(cid \<mapsto> q @ [b])" by simp_all
    moreover from this Cons.IH [of chs' "q @ [b]"] True
    have "ipc_ok (snd (ipc_send_bytes chs' cid bs))"
      and "fst (ipc_send_bytes chs' cid bs) = min (length bs) (CHANNEL_BUF_SIZE - Suc (length q))"
      and "ipc_abs (snd (ipc_send_bytes chs' cid bs)) = (ipc_abs chs)
        (cid \<mapsto> q @ b # take (min (length bs) (CHANNEL_BUF_SIZE - Suc (length q))) bs)"
      by (simp_all add: fun_eq_iff)
    moreover have "CHANNEL_BUF_SIZE - length q = Suc (CHANNEL_BUF_SIZE - Suc (length q))"
      using True by simp
    ultimately show ?thesis using r
      by (cases "ipc_send_bytes chs' cid bs") (simp add: fun_eq_iff)
  next
    case False
    with s r Cons.prems show ?thesis by (simp add: fun_upd_idem)
  qed
qed

lemma ipc_recv_all_spec:
  assumes "ipc_ok chs" and "ipc_abs chs cid = Some q"
  shows "ipc_ok (snd (ipc_recv_all chs cid)) \<and>
    fst (ipc_recv_all chs cid) = concat (map push_latin1 q) \<and>
    ipc_abs (snd (ipc_recv_all chs cid)) = (ipc_abs chs)(cid \<mapsto> [])"
  using assms
proof (induction q arbitrary: chs)
  case Nil
  with ipc_recv_spec [OF Nil.prems] show ?case
    by (subst (1 2 3) ipc_recv_all.simps) (auto split: prod.splits option.splits)
next
  case (Cons b q)
  obtain r chs' where r: "ipc_recv chs cid = (r, chs')" by fastforce
  with ipc_recv_spec [OF Cons.prems] have "r = Some b" "ipc_ok chs'" "ipc_abs chs' = (ipc_abs chs)(cid \<mapsto> q)"
    by simp_all
  with Cons.IH [of chs'] r show ?case
    by (subst (1 2 3) ipc_recv_all.simps) (auto split: prod.splits)
qed

lemma concat_push_latin1_ascii: "is_ascii s \<Longrightarrow> concat (map push_latin1 (as_bytes s)) = s"
  by (induction s) (auto simp: is_ascii_def push_latin1_def from_bytes_def)

text \<open>
  C17. From boot, any sequence of channel operations (create, destroy, send, receive)
  answers exactly as a map from channel numbers to byte lists bounded by 64 would: a
  create takes the lowest free number, a send appends or reports full, a receive takes
  the oldest byte.
\<close>

theorem ipc_refines_bounded_queues:
  "fst (run_ops ipc_step CHANNELS_init ops) = fst (run_ops chan_spec Map.empty ops)"
  using ipc_run_refines [OF CHANNELS_init_ok, of ops] by (simp add: CHANNELS_init_abs)

text \<open>
  An ASCII string of at most 64 bytes written with \<^verbatim>\<open>send_str\<close> to an empty channel is
  accepted whole, and \<^verbatim>\<open>recv_all\<close> returns that string and leaves the channel empty.
\<close>

lemma ipc_string_roundtrip:
  assumes "ipc_ok chs" and "ipc_abs chs cid = Some []"
    and "length s \<le> CHANNEL_BUF_SIZE" and "is_ascii s"
  shows "fst (ipc_send_str chs cid s) = length s \<and>
    fst (ipc_recv_all (snd (ipc_send_str chs cid s)) cid) = s \<and>
    ipc_abs (snd (ipc_recv_all (snd (ipc_send_str chs cid s)) cid)) = ipc_abs chs"
proof -
  note w = ipc_send_bytes_spec [OF assms(1,2), of "as_bytes s"]
  let ?chs = "snd (ipc_send_str chs cid s)"
  from w assms(3) have n: "fst (ipc_send_str chs cid s) = length s"
    by (simp add: ipc_send_str_def)
  from w assms(3) have a: "ipc_ok ?chs" "ipc_abs ?chs = (ipc_abs chs)(cid \<mapsto> as_bytes s)"
    by (simp_all add: ipc_send_str_def)
  then have r: "fst (ipc_recv_all ?chs cid) = concat (map push_latin1 (as_bytes s))"
    "ipc_abs (snd (ipc_recv_all ?chs cid)) = (ipc_abs ?chs)(cid \<mapsto> [])"
    using ipc_recv_all_spec [of ?chs cid "as_bytes s"] by simp_all
  with n a(2) assms(2,4) show ?thesis
    by (simp add: concat_push_latin1_ascii fun_upd_idem)
qed

lemma ipc_string_roundtrip_instance:
  "fst (ipc_recv_all (snd (ipc_send_str (snd (ipc_create CHANNELS_init)) 0 ''hello'')) 0) = ''hello''"
proof -
  let ?chs = "snd (ipc_create CHANNELS_init)"
  have "ipc_ok ?chs" by code_simp
  moreover have "ipc_abs ?chs 0 = Some []" by code_simp
  moreover have "length ''hello'' \<le> CHANNEL_BUF_SIZE" by code_simp
  moreover have "is_ascii ''hello''" by code_simp
  ultimately show ?thesis using ipc_string_roundtrip [of ?chs 0 "''hello''"] by simp
qed

end
