(* ===== verification/Rust_Str.thy ===== *)
theory Rust_Str
  imports Prelude
begin

text \<open>
  The parts of Rust's string library that the kernel uses: splitting and trimming,
  decimal formatting, FNV-1a hashing loops and the UTF-8 validation behind
  \<^verbatim>\<open>core::str::from_utf8\<close> and \<^verbatim>\<open>String::from_utf8_lossy\<close>.
\<close>

section \<open>Splitting and trimming\<close>

fun split_on :: "char \<Rightarrow> str \<Rightarrow> str list" where
  "split_on c [] = [[]]"
| "split_on c (x # xs) =
     (if x = c then [] # split_on c xs
      else case split_on c xs of [] \<Rightarrow> [[x]] | w # ws \<Rightarrow> (x # w) # ws)"

definition trim_start_matches :: "char \<Rightarrow> str \<Rightarrow> str" where
  "trim_start_matches c s = dropWhile (\<lambda>x. x = c) s"

definition rsplit_once :: "char \<Rightarrow> str \<Rightarrow> (str \<times> str) option" where
  "rsplit_once c s =
     (if c \<in> set s
      then Some (rev (tl (dropWhile (\<lambda>x. x \<noteq> c) (rev s))), rev (takeWhile (\<lambda>x. x \<noteq> c) (rev s)))
      else None)"

section \<open>Formatting\<close>

definition digit_char :: "nat \<Rightarrow> char" where
  "digit_char d = char_of (48 + d)"

fun show_nat :: "nat \<Rightarrow> str" where
  "show_nat n = (if n < 10 then [digit_char n] else show_nat (n div 10) @ [digit_char (n mod 10)])"

declare show_nat.simps [simp del]

definition pad_left :: "char \<Rightarrow> nat \<Rightarrow> str \<Rightarrow> str" where
  "pad_left c w s = replicate (w - length s) c @ s"

definition pad_right :: "nat \<Rightarrow> str \<Rightarrow> str" where
  "pad_right w s = s @ replicate (w - length s) CHR '' ''"

definition show_u64 :: "u64 \<Rightarrow> str" where
  "show_u64 w = show_nat (unat w)"

definition newline :: char where "newline = CHR 0x0A"

section \<open>FNV-1a\<close>

text \<open>The loop of \<^verbatim>\<open>fnv_hash\<close>, \<^verbatim>\<open>hash_password\<close> and \<^verbatim>\<open>fnv1a_64\<close>: one xor and one wrapping
  multiplication by the 64-bit FNV prime per byte.\<close>

definition FNV_OFFSET :: u64 where "FNV_OFFSET = 0xcbf29ce484222325"
definition FNV_PRIME :: u64 where "FNV_PRIME = 0x00000100000001B3"

definition fnv1a :: "u8 list \<Rightarrow> u64" where
  "fnv1a bs = foldl (\<lambda>hash byte. (hash XOR ucast byte) * FNV_PRIME) FNV_OFFSET bs"

section \<open>UTF-8\<close>

definition utf8_cont :: "u8 \<Rightarrow> bool" where
  "utf8_cont b \<longleftrightarrow> 0x80 \<le> b \<and> b \<le> 0xBF"

text \<open>
  The second byte of a multi-byte sequence, as the standard restricts it for the first
  byte: no overlong forms, no surrogates, nothing above U+10FFFF.
\<close>

definition utf8_second_ok :: "u8 \<Rightarrow> u8 \<Rightarrow> bool" where
  "utf8_second_ok b0 b1 \<longleftrightarrow>
     (if b0 = 0xE0 then 0xA0 \<le> b1 \<and> b1 \<le> 0xBF
      else if b0 = 0xED then 0x80 \<le> b1 \<and> b1 \<le> 0x9F
      else if b0 = 0xF0 then 0x90 \<le> b1 \<and> b1 \<le> 0xBF
      else if b0 = 0xF4 then 0x80 \<le> b1 \<and> b1 \<le> 0x8F
      else utf8_cont b1)"

text \<open>
  One step of the decoder on a nonempty input: whether it starts with a well-formed
  sequence, and how many bytes that sequence, or the ill-formed prefix, takes.
\<close>

definition utf8_next :: "u8 \<Rightarrow> u8 list \<Rightarrow> bool \<times> nat" where
  "utf8_next b0 rest =
     (if b0 < 0x80 then (True, 1)
      else if 0xC2 \<le> b0 \<and> b0 \<le> 0xDF then
        (case rest of b1 # _ \<Rightarrow> if utf8_cont b1 then (True, 2) else (False, 1) | [] \<Rightarrow> (False, 1))
      else if 0xE0 \<le> b0 \<and> b0 \<le> 0xEF then
        (case rest of
           b1 # rest1 \<Rightarrow>
             if \<not> utf8_second_ok b0 b1 then (False, 1)
             else (case rest1 of b2 # _ \<Rightarrow> if utf8_cont b2 then (True, 3) else (False, 2) | [] \<Rightarrow> (False, 2))
         | [] \<Rightarrow> (False, 1))
      else if 0xF0 \<le> b0 \<and> b0 \<le> 0xF4 then
        (case rest of
           b1 # rest1 \<Rightarrow>
             if \<not> utf8_second_ok b0 b1 then (False, 1)
             else (case rest1 of
                     b2 # rest2 \<Rightarrow>
                       if \<not> utf8_cont b2 then (False, 2)
                       else (case rest2 of b3 # _ \<Rightarrow> if utf8_cont b3 then (True, 4) else (False, 3)
                             | [] \<Rightarrow> (False, 3))
                   | [] \<Rightarrow> (False, 2))
         | [] \<Rightarrow> (False, 1))
      else (False, 1))"

lemma utf8_next_pos: "0 < snd (utf8_next b0 rest)"
  by (simp add: utf8_next_def split: list.split)

function utf8_valid :: "u8 list \<Rightarrow> bool" where
  "utf8_valid [] = True"
| "utf8_valid (b # rest) =
     (let (ok, n) = utf8_next b rest in ok \<and> utf8_valid (drop n (b # rest)))"
  by pat_completeness auto
termination
proof (relation "measure length", goal_cases)
  case (2 b rest p ok n)
  then have "0 < n" using utf8_next_pos [of b rest] by (metis snd_conv)
  then show ?case by simp
qed simp

function from_utf8_lossy_bytes :: "u8 list \<Rightarrow> u8 list" where
  "from_utf8_lossy_bytes [] = []"
| "from_utf8_lossy_bytes (b # rest) =
     (let (ok, n) = utf8_next b rest
      in (if ok then take n (b # rest) else [0xEF, 0xBF, 0xBD]) @ from_utf8_lossy_bytes (drop n (b # rest)))"
  by pat_completeness auto
termination
proof (relation "measure length", goal_cases)
  case (2 b rest p ok n)
  then have "0 < n" using utf8_next_pos [of b rest] by (metis snd_conv)
  then show ?case by simp
qed simp

declare utf8_valid.simps(2) [simp del] and from_utf8_lossy_bytes.simps(2) [simp del]

definition from_utf8_lossy :: "u8 list \<Rightarrow> str" where
  "from_utf8_lossy bs = from_bytes (from_utf8_lossy_bytes bs)"

text \<open>\<^verbatim>\<open>core::str::from_utf8\<close>: the same bytes as a string, or an error.\<close>

definition from_utf8 :: "u8 list \<Rightarrow> str option" where
  "from_utf8 bs = (if utf8_valid bs then Some (from_bytes bs) else None)"

lemma from_utf8_lossy_valid: "utf8_valid bs \<Longrightarrow> from_utf8_lossy_bytes bs = bs"
proof (induction bs rule: from_utf8_lossy_bytes.induct)
  case 1
  then show ?case by simp
next
  case (2 b rest)
  obtain ok n where "utf8_next b rest = (ok, n)" by fastforce
  with 2 show ?case
    by (auto simp: utf8_valid.simps(2) from_utf8_lossy_bytes.simps(2))
qed

lemma from_utf8_lossy_str [simp]: "utf8_valid (as_bytes s) \<Longrightarrow> from_utf8_lossy (as_bytes s) = s"
  by (simp add: from_utf8_lossy_def from_utf8_lossy_valid)

lemma ascii_utf8_valid: "is_ascii s \<Longrightarrow> utf8_valid (as_bytes s)"
  by (induction s) (auto simp: is_ascii_def utf8_valid.simps(2) utf8_next_def)

section \<open>Facts about splitting\<close>

lemma split_on_neq_Nil [simp]: "split_on c s \<noteq> []"
  by (cases s) (auto split: list.split)

lemma split_on_no_sep: "c \<notin> set s \<Longrightarrow> split_on c s = [s]"
  by (induction s) auto

lemma split_on_append: "split_on c (s @ c # t) = split_on c s @ split_on c t"
  by (induction s) (auto split: list.split)

lemma split_on_sep_free: "w \<in> set (split_on c s) \<Longrightarrow> c \<notin> set w"
proof (induction s arbitrary: w)
  case Nil
  then show ?case by simp
next
  case (Cons x s)
  then show ?case by (cases "split_on c s") (auto split: if_splits)
qed

lemma rsplit_once_Some:
  assumes "rsplit_once c s = Some (p, f)"
  shows "s = p @ c # f" and "c \<notin> set f"
proof -
  from assms have c: "c \<in> set (rev s)" by (auto simp: rsplit_once_def split: if_splits)
  then obtain ys where d: "dropWhile (\<lambda>x. x \<noteq> c) (rev s) = c # ys"
    by (metis (mono_tags, lifting) dropWhile_eq_Nil_conv hd_dropWhile list.collapse)
  then have "rev s = takeWhile (\<lambda>x. x \<noteq> c) (rev s) @ c # ys"
    by (metis takeWhile_dropWhile_id)
  then have "s = rev ys @ c # rev (takeWhile (\<lambda>x. x \<noteq> c) (rev s))"
    by (metis append.assoc append_Cons append_Nil rev.simps(2) rev_append rev_rev_ident)
  moreover have "p = rev ys" "f = rev (takeWhile (\<lambda>x. x \<noteq> c) (rev s))"
    using assms d by (auto simp: rsplit_once_def split: if_splits)
  ultimately show "s = p @ c # f" by simp
  show "c \<notin> set f" using \<open>f = _\<close> by (auto dest: set_takeWhileD)
qed

end
