(* ===== verification/Security.thy ===== *)
theory Security
  imports Rust_Str
begin

text \<open>
  Users, groups and file permissions (\<^verbatim>\<open>src/security.rs\<close>): the user database
  \<^verbatim>\<open>USER_DB\<close> and the permission side table \<^verbatim>\<open>PERM_TABLE\<close> are the two fields of the
  state. \<^verbatim>\<open>chmod\<close> and \<^verbatim>\<open>chown\<close>, which also ask the file system, are in the theory
  \<open>Access\<close>.
\<close>

section \<open>Data\<close>

definition MAX_USERS :: usize where "MAX_USERS = 64"
definition MAX_GROUPS :: usize where "MAX_GROUPS = 64"

record permission =
  perm_bits :: u16
  perm_owner_uid :: u32
  perm_owner_gid :: u32

definition READ :: u16 where "READ = 4"
definition WRITE :: u16 where "WRITE = 2"
definition EXEC :: u16 where "EXEC = 1"

definition permission_new :: "u16 \<Rightarrow> u32 \<Rightarrow> u32 \<Rightarrow> permission" where
  "permission_new mode uid gid = \<lparr>perm_bits = mode AND 0x1FF, perm_owner_uid = uid, perm_owner_gid = gid\<rparr>"

definition default_dir :: permission where "default_dir = permission_new 0x1ED 0 0"
definition default_file :: permission where "default_file = permission_new 0x1A4 0 0"

definition perm_owner :: "permission \<Rightarrow> u16" where
  "perm_owner p = drop_bit 6 (perm_bits p) AND 7"
definition perm_group :: "permission \<Rightarrow> u16" where
  "perm_group p = drop_bit 3 (perm_bits p) AND 7"
definition perm_other :: "permission \<Rightarrow> u16" where
  "perm_other p = perm_bits p AND 7"

definition perm_display :: "permission \<Rightarrow> str" where
  "perm_display p =
     concat (map (\<lambda>shift. let t = drop_bit (shift * 3) (perm_bits p) AND 7 in
         [if t AND 4 \<noteq> 0 then CHR ''r'' else CHR ''-'',
          if t AND 2 \<noteq> 0 then CHR ''w'' else CHR ''-'',
          if t AND 1 \<noteq> 0 then CHR ''x'' else CHR ''-'']) [2, 1, 0])"

record user =
  usr_uid :: u32
  usr_name :: str
  usr_password_hash :: u64
  usr_groups :: "u32 list"

record group =
  grp_gid :: u32
  grp_name :: str
  grp_members :: "u32 list"

record user_db =
  db_users :: "user list"
  db_groups :: "group list"
  db_current_uid :: u32

record security =
  sec_db :: "user_db option"
  sec_perms :: "(str \<times> permission) list"

section \<open>Operations\<close>

definition security_boot :: security where
  "security_boot = \<lparr>sec_db = None, sec_perms = []\<rparr>"

definition hash_password :: "str \<Rightarrow> u64" where
  "hash_password password = fnv1a (as_bytes password)"

definition default_db :: user_db where
  "default_db = \<lparr>
     db_users = [
       \<lparr>usr_uid = 0, usr_name = ''root'', usr_password_hash = hash_password [], usr_groups = [0]\<rparr>,
       \<lparr>usr_uid = 1, usr_name = ''system'', usr_password_hash = hash_password [], usr_groups = [1]\<rparr>,
       \<lparr>usr_uid = 1000, usr_name = ''user'', usr_password_hash = hash_password [], usr_groups = [1000]\<rparr>],
     db_groups = [
       \<lparr>grp_gid = 0, grp_name = ''root'', grp_members = [0]\<rparr>,
       \<lparr>grp_gid = 1, grp_name = ''system'', grp_members = [1]\<rparr>,
       \<lparr>grp_gid = 1000, grp_name = ''users'', grp_members = [1000]\<rparr>],
     db_current_uid = 0\<rparr>"

definition security_init :: "security \<Rightarrow> security" where
  "security_init st = st\<lparr>sec_db := Some default_db\<rparr>"

definition authenticate :: "security \<Rightarrow> str \<Rightarrow> u64 \<Rightarrow> bool" where
  "authenticate st username pw_hash =
     (case sec_db st of
        Some db \<Rightarrow> list_ex (\<lambda>u. usr_name u = username \<and> usr_password_hash u = pw_hash) (db_users db)
      | None \<Rightarrow> False)"

definition check_permission :: "security \<Rightarrow> u32 \<Rightarrow> permission \<Rightarrow> u16 \<Rightarrow> bool" where
  "check_permission st uid perms access =
     (if uid = 0 then True
      else if uid = perm_owner_uid perms then perm_owner perms AND access = access
      else case sec_db st of
        None \<Rightarrow> perm_other perms AND access = access
      | Some db \<Rightarrow>
          (case find (\<lambda>u. usr_uid u = uid) (db_users db) of
             None \<Rightarrow> perm_other perms AND access = access
           | Some u \<Rightarrow> if perm_owner_gid perms \<in> set (usr_groups u)
                       then perm_group perms AND access = access
                       else perm_other perms AND access = access))"

text \<open>\<^verbatim>\<open>for &gid in &group_vec\<close>: join the first group of that identifier, unless already in it.\<close>

definition join_group :: "u32 \<Rightarrow> u32 \<Rightarrow> group list \<Rightarrow> group list" where
  "join_group uid gid gs =
     update_first (\<lambda>g. grp_gid g = gid)
       (\<lambda>g. if uid \<in> set (grp_members g) then g else g\<lparr>grp_members := grp_members g @ [uid]\<rparr>) gs"

definition add_user :: "security \<Rightarrow> u32 \<Rightarrow> str \<Rightarrow> str \<Rightarrow> u32 list \<Rightarrow> unit result \<times> security" where
  "add_user st uid name password groups =
     (case sec_db st of
        None \<Rightarrow> (Err ''security: not initialised'', st)
      | Some db \<Rightarrow>
          if length (db_users db) \<ge> MAX_USERS then (Err ''security: max users reached'', st)
          else if list_ex (\<lambda>u. usr_name u = name \<or> usr_uid u = uid) (db_users db)
          then (Err ''security: user already exists'', st)
          else (Ok (), st\<lparr>sec_db := Some (db\<lparr>
                 db_groups := fold (join_group uid) groups (db_groups db),
                 db_users := db_users db @
                   [\<lparr>usr_uid = uid, usr_name = name, usr_password_hash = hash_password password,
                     usr_groups = groups\<rparr>]\<rparr>)\<rparr>))"

definition remove_user :: "security \<Rightarrow> u32 \<Rightarrow> unit result \<times> security" where
  "remove_user st uid =
     (if uid = 0 then (Err ''security: cannot remove root'', st)
      else case sec_db st of
        None \<Rightarrow> (Err ''security: not initialised'', st)
      | Some db \<Rightarrow>
          (case position (\<lambda>u. usr_uid u = uid) (db_users db) of
             None \<Rightarrow> (Err ''security: user not found'', st)
           | Some idx \<Rightarrow>
               (Ok (), st\<lparr>sec_db := Some (db\<lparr>
                  db_groups := map (\<lambda>g. g\<lparr>grp_members := filter (\<lambda>m. m \<noteq> uid) (grp_members g)\<rparr>)
                                 (db_groups db),
                  db_users := remove_at idx (db_users db)\<rparr>)\<rparr>)))"

definition add_group :: "security \<Rightarrow> u32 \<Rightarrow> str \<Rightarrow> unit result \<times> security" where
  "add_group st gid name =
     (case sec_db st of
        None \<Rightarrow> (Err ''security: not initialised'', st)
      | Some db \<Rightarrow>
          if length (db_groups db) \<ge> MAX_GROUPS then (Err ''security: max groups reached'', st)
          else if list_ex (\<lambda>g. grp_name g = name \<or> grp_gid g = gid) (db_groups db)
          then (Err ''security: group already exists'', st)
          else (Ok (), st\<lparr>sec_db := Some (db\<lparr>db_groups := db_groups db @
                 [\<lparr>grp_gid = gid, grp_name = name, grp_members = []\<rparr>]\<rparr>)\<rparr>))"

definition get_permission :: "security \<Rightarrow> str \<Rightarrow> permission" where
  "get_permission st path =
     (case find (\<lambda>e. fst e = path) (sec_perms st) of Some e \<Rightarrow> snd e | None \<Rightarrow> default_file)"

definition current_uid :: "security \<Rightarrow> u32" where
  "current_uid st = (case sec_db st of Some db \<Rightarrow> db_current_uid db | None \<Rightarrow> 0)"

definition whoami :: "security \<Rightarrow> str" where
  "whoami st =
     (case sec_db st of
        Some db \<Rightarrow>
          (case find (\<lambda>u. usr_uid u = db_current_uid db) (db_users db) of
             Some u \<Rightarrow> usr_name u | None \<Rightarrow> ''unknown'')
      | None \<Rightarrow> ''root'')"

definition su :: "security \<Rightarrow> str \<Rightarrow> str option \<Rightarrow> unit result \<times> security" where
  "su st username password =
     (case sec_db st of
        None \<Rightarrow> (Err ''security: not initialised'', st)
      | Some db \<Rightarrow>
          (case find (\<lambda>u. usr_name u = username) (db_users db) of
             None \<Rightarrow> (Err ''security: user not found'', st)
           | Some target \<Rightarrow>
               let switched = st\<lparr>sec_db := Some (db\<lparr>db_current_uid := usr_uid target\<rparr>)\<rparr> in
               if db_current_uid db \<noteq> 0 then
                 (case password of
                    None \<Rightarrow> (Err ''security: password required'', st)
                  | Some pw \<Rightarrow>
                      if usr_password_hash target \<noteq> hash_password pw
                      then (Err ''security: authentication failed'', st)
                      else (Ok (), switched))
               else (Ok (), switched)))"

definition list_users :: "security \<Rightarrow> (u32 \<times> str) list" where
  "list_users st =
     (case sec_db st of Some db \<Rightarrow> map (\<lambda>u. (usr_uid u, usr_name u)) (db_users db) | None \<Rightarrow> [])"

definition list_groups :: "security \<Rightarrow> (u32 \<times> str) list" where
  "list_groups st =
     (case sec_db st of Some db \<Rightarrow> map (\<lambda>g. (grp_gid g, grp_name g)) (db_groups db) | None \<Rightarrow> [])"

definition can_read :: "security \<Rightarrow> str \<Rightarrow> bool" where
  "can_read st path = check_permission st (current_uid st) (get_permission st path) READ"
definition can_write :: "security \<Rightarrow> str \<Rightarrow> bool" where
  "can_write st path = check_permission st (current_uid st) (get_permission st path) WRITE"
definition can_exec :: "security \<Rightarrow> str \<Rightarrow> bool" where
  "can_exec st path = check_permission st (current_uid st) (get_permission st path) EXEC"

definition gname_or :: "user_db \<Rightarrow> u32 \<Rightarrow> str" where
  "gname_or db gid =
     (case find (\<lambda>g. grp_gid g = gid) (db_groups db) of Some g \<Rightarrow> grp_name g | None \<Rightarrow> ''?'')"

fun join_comma :: "str list \<Rightarrow> str" where
  "join_comma [] = []"
| "join_comma [s] = s"
| "join_comma (s # ss) = s @ '','' @ join_comma ss"

definition id_info :: "security \<Rightarrow> str option \<Rightarrow> str result" where
  "id_info st username =
     (case sec_db st of
        None \<Rightarrow> Err ''security: not initialised''
      | Some db \<Rightarrow>
          (case (case username of
                   Some name \<Rightarrow> find (\<lambda>u. usr_name u = name) (db_users db)
                 | None \<Rightarrow> find (\<lambda>u. usr_uid u = db_current_uid db) (db_users db)) of
             None \<Rightarrow> Err ''security: user not found''
           | Some u \<Rightarrow>
               let entry = (\<lambda>gid. show_nat (unat gid) @ ''('' @ gname_or db gid @ '')'') in
               Ok (''uid='' @ show_nat (unat (usr_uid u)) @ ''('' @ usr_name u @ '')'' @
                   (case usr_groups u of [] \<Rightarrow> [] | gid # _ \<Rightarrow> '' gid='' @ entry gid) @
                   '' groups='' @ join_comma (map entry (usr_groups u)))))"

definition passwd :: "security \<Rightarrow> str \<Rightarrow> str option \<Rightarrow> str \<Rightarrow> unit result \<times> security" where
  "passwd st username old_password new_password =
     (case sec_db st of
        None \<Rightarrow> (Err ''security: not initialised'', st)
      | Some db \<Rightarrow>
          (case find (\<lambda>u. usr_name u = username) (db_users db) of
             None \<Rightarrow> (Err ''security: user not found'', st)
           | Some u \<Rightarrow>
               let changed = st\<lparr>sec_db := Some (db\<lparr>db_users :=
                     update_first (\<lambda>u. usr_name u = username)
                       (\<lambda>u. u\<lparr>usr_password_hash := hash_password new_password\<rparr>) (db_users db)\<rparr>)\<rparr> in
               if db_current_uid db \<noteq> 0 then
                 if db_current_uid db \<noteq> usr_uid u
                 then (Err (''security: only root can change other users'' @ CHR 0x27 # '' passwords''), st)
                 else (case old_password of
                         None \<Rightarrow> (Err ''security: old password required'', st)
                       | Some old \<Rightarrow>
                           if usr_password_hash u \<noteq> hash_password old
                           then (Err ''security: old password incorrect'', st)
                           else (Ok (), changed))
               else (Ok (), changed)))"

definition set_current_uid :: "security \<Rightarrow> u32 \<Rightarrow> unit result \<times> security" where
  "set_current_uid st uid =
     (case sec_db st of
        None \<Rightarrow> (Err ''security: not initialised'', st)
      | Some db \<Rightarrow>
          if db_current_uid db \<noteq> 0 \<and> db_current_uid db \<noteq> uid
          then (Err ''security: permission denied'', st)
          else if \<not> list_ex (\<lambda>u. usr_uid u = uid) (db_users db)
          then (Err ''security: user not found'', st)
          else (Ok (), st\<lparr>sec_db := Some (db\<lparr>db_current_uid := uid\<rparr>)\<rparr>))"

definition uid_by_name :: "security \<Rightarrow> str \<Rightarrow> u32 option" where
  "uid_by_name st name =
     Option.bind (sec_db st) (\<lambda>db. map_option usr_uid (find (\<lambda>u. usr_name u = name) (db_users db)))"
definition name_by_uid :: "security \<Rightarrow> u32 \<Rightarrow> str option" where
  "name_by_uid st uid =
     Option.bind (sec_db st) (\<lambda>db. map_option usr_name (find (\<lambda>u. usr_uid u = uid) (db_users db)))"
definition group_name :: "security \<Rightarrow> u32 \<Rightarrow> str option" where
  "group_name st gid =
     Option.bind (sec_db st) (\<lambda>db. map_option grp_name (find (\<lambda>g. grp_gid g = gid) (db_groups db)))"

definition current_gid :: "security \<Rightarrow> u32" where
  "current_gid st =
     (case sec_db st of
        None \<Rightarrow> 0
      | Some db \<Rightarrow>
          (case find (\<lambda>u. usr_uid u = db_current_uid db) (db_users db) of
             Some u \<Rightarrow> (case usr_groups u of [] \<Rightarrow> 0 | gid # _ \<Rightarrow> gid)
           | None \<Rightarrow> 0))"

definition format_perm_ls :: "security \<Rightarrow> str \<Rightarrow> bool \<Rightarrow> str" where
  "format_perm_ls st path is_dir =
     (let perm = get_permission st path in
      (if is_dir then ''d'' else ''-'') @ perm_display perm @ '' '' @
      (case name_by_uid st (perm_owner_uid perm) of
         Some n \<Rightarrow> n | None \<Rightarrow> show_nat (unat (perm_owner_uid perm))) @ '' '' @
      (case group_name st (perm_owner_gid perm) of
         Some n \<Rightarrow> n | None \<Rightarrow> show_nat (unat (perm_owner_gid perm))))"

text \<open>The callback of \<^verbatim>\<open>sudo\<close> is a state transformer.\<close>

definition sudo :: "security \<Rightarrow> str option \<Rightarrow> (security \<Rightarrow> security) \<Rightarrow> unit result \<times> security" where
  "sudo st password f =
     (let original_uid = current_uid st in
      if original_uid = 0 then (Ok (), f st)
      else case password of
        None \<Rightarrow> (Err ''security: password required for sudo'', st)
      | Some pw \<Rightarrow>
          (case sec_db st of
             None \<Rightarrow> (Err ''security: not initialised'', st)
           | Some db \<Rightarrow>
               (case find (\<lambda>u. usr_uid u = 0) (db_users db) of
                  None \<Rightarrow> (Err ''security: root user not found'', st)
                | Some root \<Rightarrow>
                    if usr_password_hash root \<noteq> hash_password pw
                    then (Err ''security: sudo authentication failed'', st)
                    else
                      let st1 = f (st\<lparr>sec_db := Some (db\<lparr>db_current_uid := 0\<rparr>)\<rparr>) in
                      (Ok (), case sec_db st1 of
                         Some db1 \<Rightarrow> st1\<lparr>sec_db := Some (db1\<lparr>db_current_uid := original_uid\<rparr>)\<rparr>
                       | None \<Rightarrow> st1))))"

section \<open>Runs\<close>

text \<open>
  The operations that change the database, as the calls of a run; the callback of \<^verbatim>\<open>sudo\<close>
  is a sequence of such calls.
\<close>

datatype sec_op =
    AddUser u32 str str "u32 list"
  | RemoveUser u32
  | AddGroup u32 str
  | Su str "str option"
  | Passwd str "str option" str
  | SetCurrentUid u32
  | Sudo "str option" "sec_op list"

primrec sec_step :: "sec_op \<Rightarrow> security \<Rightarrow> unit result \<times> security" where
  "sec_step (AddUser uid name pw gs) = (\<lambda>st. add_user st uid name pw gs)"
| "sec_step (RemoveUser uid) = (\<lambda>st. remove_user st uid)"
| "sec_step (AddGroup gid name) = (\<lambda>st. add_group st gid name)"
| "sec_step (Su name pw) = (\<lambda>st. su st name pw)"
| "sec_step (Passwd name old new) = (\<lambda>st. passwd st name old new)"
| "sec_step (SetCurrentUid uid) = (\<lambda>st. set_current_uid st uid)"
| "sec_step (Sudo pw ops) = (\<lambda>st. sudo st pw (fold (\<lambda>f s. snd (f s)) (map sec_step ops)))"

definition sec_run :: "sec_op list \<Rightarrow> security \<Rightarrow> security" where
  "sec_run ops st = fold (\<lambda>op s. snd (sec_step op s)) ops st"

section \<open>The database invariant\<close>

text \<open>Every member a group lists is a user that lists the group.\<close>

definition member_ok :: "user list \<Rightarrow> group \<Rightarrow> bool" where
  "member_ok us g \<longleftrightarrow>
     (\<forall>m \<in> set (grp_members g). \<exists>u \<in> set us. usr_uid u = m \<and> grp_gid g \<in> set (usr_groups u))"

definition db_ok :: "user_db \<Rightarrow> bool" where
  "db_ok db \<longleftrightarrow>
     length (db_users db) \<le> MAX_USERS \<and> length (db_groups db) \<le> MAX_GROUPS \<and>
     distinct (map usr_uid (db_users db)) \<and> distinct (map usr_name (db_users db)) \<and>
     distinct (map grp_gid (db_groups db)) \<and> distinct (map grp_name (db_groups db)) \<and>
     (\<exists>u \<in> set (db_users db). usr_uid u = 0 \<and> usr_name u = ''root'') \<and>
     list_all (\<lambda>g. distinct (grp_members g) \<and> member_ok (db_users db) g) (db_groups db)"

definition security_ok :: "security \<Rightarrow> bool" where
  "security_ok st \<longleftrightarrow> (\<exists>db. sec_db st = Some db \<and> db_ok db)"

lemma security_okI: "db_ok db \<Longrightarrow> security_ok (st\<lparr>sec_db := Some db\<rparr>)"
  by (simp add: security_ok_def)

lemma db_ok_current_uid [simp]: "db_ok (db\<lparr>db_current_uid := uid\<rparr>) = db_ok db"
  by (simp add: db_ok_def)

lemma security_init_ok: "security_ok (security_init st)"
  by (simp add: security_init_def security_ok_def db_ok_def default_db_def member_ok_def
      MAX_USERS_def MAX_GROUPS_def)

subsection \<open>Joining and leaving groups\<close>

lemma join_group_names [simp]:
  "map grp_gid (join_group uid gid gs) = map grp_gid gs"
  "map grp_name (join_group uid gid gs) = map grp_name gs"
  "length (join_group uid gid gs) = length gs"
  by (simp_all add: join_group_def map_update_first)

lemma join_groups_names [simp]:
  "map grp_gid (fold (join_group uid) gids gs) = map grp_gid gs"
  "map grp_name (fold (join_group uid) gids gs) = map grp_name gs"
  "length (fold (join_group uid) gids gs) = length gs"
  by (induction gids arbitrary: gs) auto

lemma join_groups_all:
  assumes "list_all Q gs"
    and "\<And>g gid. gid \<in> set gids \<Longrightarrow> Q g \<Longrightarrow> grp_gid g = gid \<Longrightarrow> uid \<notin> set (grp_members g) \<Longrightarrow>
           Q (g\<lparr>grp_members := grp_members g @ [uid]\<rparr>)"
  shows "list_all Q (fold (join_group uid) gids gs)"
  using assms
proof (induction gids arbitrary: gs)
  case (Cons gid gids)
  have "list_all Q (join_group uid gid gs)"
    unfolding join_group_def by (rule list_all_update_first) (use Cons.prems in auto)
  then have "list_all Q (fold (join_group uid) gids (join_group uid gid gs))"
    by (rule Cons.IH) (use Cons.prems(2) in auto)
  then show ?case by simp
qed simp

lemma add_user_db_ok:
  assumes "db_ok db" and "length (db_users db) < MAX_USERS"
    and "\<not> list_ex (\<lambda>u. usr_name u = name \<or> usr_uid u = uid) (db_users db)"
  shows "db_ok (db\<lparr>db_groups := fold (join_group uid) gids (db_groups db),
                  db_users := db_users db @ [\<lparr>usr_uid = uid, usr_name = name,
                     usr_password_hash = h, usr_groups = gids\<rparr>]\<rparr>)"
proof -
  let ?new = "\<lparr>usr_uid = uid, usr_name = name, usr_password_hash = h, usr_groups = gids\<rparr>"
  let ?us = "db_users db @ [?new]"
  have "list_all (\<lambda>g. distinct (grp_members g) \<and> member_ok ?us g)
          (fold (join_group uid) gids (db_groups db))"
  proof (rule join_groups_all)
    show "list_all (\<lambda>g. distinct (grp_members g) \<and> member_ok ?us g) (db_groups db)"
      using assms(1) by (auto simp: db_ok_def list_all_iff member_ok_def)
  qed (auto simp: member_ok_def)
  then show ?thesis using assms by (auto simp: db_ok_def list_ex_iff)
qed

lemma remove_user_db_ok:
  assumes ok: "db_ok db" and idx: "position (\<lambda>u. usr_uid u = uid) (db_users db) = Some idx"
    and "uid \<noteq> 0"
  shows "db_ok (db\<lparr>db_groups := map (\<lambda>g. g\<lparr>grp_members := filter (\<lambda>m. m \<noteq> uid) (grp_members g)\<rparr>)
                                 (db_groups db),
                  db_users := remove_at idx (db_users db)\<rparr>)"
proof -
  have i: "idx < length (db_users db)" "usr_uid (db_users db ! idx) = uid"
    using idx by (auto dest: position_SomeD)
  have stays: "u \<in> set (remove_at idx (db_users db))"
    if "u \<in> set (db_users db)" and "usr_uid u \<noteq> uid" for u
  proof -
    have "db_users db = take idx (db_users db) @ db_users db ! idx # drop (Suc idx) (db_users db)"
      using i by (simp add: id_take_nth_drop)
    then have "u \<in> insert (db_users db ! idx) (set (remove_at idx (db_users db)))"
      using that(1) unfolding remove_at_def
      by (metis Un_insert_right list.set(2) set_append)
    then show ?thesis using i that(2) by auto
  qed
  have "list_all (\<lambda>g. distinct (grp_members g) \<and> member_ok (remove_at idx (db_users db)) g)
         (map (\<lambda>g. g\<lparr>grp_members := filter (\<lambda>m. m \<noteq> uid) (grp_members g)\<rparr>) (db_groups db))"
    using ok stays by (fastforce simp: db_ok_def list_all_iff member_ok_def)
  moreover have "\<exists>u \<in> set (remove_at idx (db_users db)). usr_uid u = 0 \<and> usr_name u = ''root''"
    using ok stays assms(3) by (auto simp: db_ok_def)
  ultimately show ?thesis
    using ok i by (auto simp: db_ok_def map_remove_at distinct_remove_at comp_def)
qed

lemma passwd_db_ok:
  assumes "db_ok db"
  shows "db_ok (db\<lparr>db_users := update_first P (\<lambda>u. u\<lparr>usr_password_hash := h\<rparr>) (db_users db)\<rparr>)"
proof -
  let ?us = "update_first P (\<lambda>u. u\<lparr>usr_password_hash := h\<rparr>) (db_users db)"
  have maps: "map (\<lambda>u. (usr_uid u, usr_name u, usr_groups u)) ?us
      = map (\<lambda>u. (usr_uid u, usr_name u, usr_groups u)) (db_users db)"
    by (simp add: map_update_first)
  have "\<exists>v \<in> set ?us. usr_uid v = usr_uid u \<and> usr_name v = usr_name u \<and> usr_groups v = usr_groups u"
    if "u \<in> set (db_users db)" for u
  proof -
    have "(usr_uid u, usr_name u, usr_groups u) \<in> set (map (\<lambda>u. (usr_uid u, usr_name u, usr_groups u)) ?us)"
      unfolding maps using that by auto
    then show ?thesis by auto
  qed
  then show ?thesis
    using assms by (fastforce simp: db_ok_def map_update_first list_all_iff member_ok_def)
qed

subsection \<open>Every call preserves the invariant\<close>

lemmas sec_ops [step_defs] = add_user_def remove_user_def add_group_def su_def passwd_def
  set_current_uid_def

lemma add_user_ok: "security_ok st \<Longrightarrow> security_ok (snd (add_user st uid name pw gs))"
  by (auto simp: add_user_def security_ok_def not_le intro!: add_user_db_ok)

lemma remove_user_ok: "security_ok st \<Longrightarrow> security_ok (snd (remove_user st uid))"
  by (auto simp: remove_user_def security_ok_def intro: remove_user_db_ok split: option.splits)

lemma add_group_ok: "security_ok st \<Longrightarrow> security_ok (snd (add_group st gid name))"
  by (auto simp: add_group_def security_ok_def db_ok_def list_ex_iff member_ok_def)

lemma su_ok: "security_ok st \<Longrightarrow> security_ok (snd (su st name pw))"
  by (auto simp: su_def security_ok_def Let_def split: option.splits)

lemma passwd_ok: "security_ok st \<Longrightarrow> security_ok (snd (passwd st name old new))"
  by (auto simp: passwd_def security_ok_def Let_def intro: passwd_db_ok split: option.splits)

lemma set_current_uid_ok: "security_ok st \<Longrightarrow> security_ok (snd (set_current_uid st uid))"
  by (auto simp: set_current_uid_def security_ok_def)

lemma sudo_ok:
  assumes "security_ok st" and "\<And>s. security_ok s \<Longrightarrow> security_ok (f s)"
  shows "security_ok (snd (sudo st pw f))"
proof (cases "current_uid st = 0")
  case True
  then show ?thesis by (simp add: sudo_def assms)
next
  case False
  obtain db where db: "sec_db st = Some db" "db_ok db" using assms(1) by (auto simp: security_ok_def)
  let ?st1 = "f (st\<lparr>sec_db := Some (db\<lparr>db_current_uid := 0\<rparr>)\<rparr>)"
  have "security_ok ?st1" by (rule assms(2)) (simp add: security_okI db)
  then show ?thesis using False db assms(1)
    by (auto simp: sudo_def Let_def security_ok_def split: option.splits)
qed

lemmas sec_ops_ok = add_user_ok remove_user_ok add_group_ok su_ok passwd_ok set_current_uid_ok

lemma fold_security_ok:
  assumes "\<And>f s. f \<in> set fs \<Longrightarrow> security_ok s \<Longrightarrow> security_ok (snd (f s))" and "security_ok s"
  shows "security_ok (fold (\<lambda>f s. snd (f s)) fs s)"
  using assms by (induction fs arbitrary: s) auto

lemma sec_step_ok: "security_ok st \<Longrightarrow> security_ok (snd (sec_step op st))"
proof (induction op arbitrary: st)
  case (Sudo pw ops)
  have "security_ok (fold (\<lambda>f s. snd (f s)) (map sec_step ops) s)" if "security_ok s" for s
    using that Sudo.IH by (intro fold_security_ok) auto
  then show ?case using Sudo.prems by (simp add: sudo_ok)
qed (simp_all add: sec_ops_ok)

text \<open>
  From the initial database, no sequence of account operations, nested \<^verbatim>\<open>sudo\<close>
  callbacks included, breaks the database: at most 64 users and 64 groups, no two users or
  groups with one identifier or one name, root still present, and every group member is an
  existing user that lists the group.
\<close>

lemma security_run_ok: "security_ok (sec_run ops (security_init security_boot))"
proof -
  have "security_ok (sec_run ops st)" if "security_ok st" for st
    using that by (induction ops arbitrary: st) (auto simp: sec_run_def sec_step_ok)
  then show ?thesis by (simp add: security_init_ok)
qed

section \<open>No escalation\<close>

lemma sudo_current_uid:
  assumes "current_uid st \<noteq> 0" and "sec_db (f s) \<noteq> None" and
    "s = st\<lparr>sec_db := map_option (\<lambda>db. db\<lparr>db_current_uid := 0\<rparr>) (sec_db st)\<rparr>"
  shows "current_uid (snd (sudo st pw f)) = current_uid st"
  using assms by (auto simp: sudo_def current_uid_def Let_def split: option.splits)

lemma fold_initialised:
  assumes "\<And>f s. f \<in> set fs \<Longrightarrow> sec_db s \<noteq> None \<Longrightarrow> sec_db (snd (f s)) \<noteq> None" and "sec_db s \<noteq> None"
  shows "sec_db (fold (\<lambda>f s. snd (f s)) fs s) \<noteq> None"
  using assms
proof (induction fs arbitrary: s)
  case (Cons f fs)
  have "sec_db (snd (f s)) \<noteq> None" by (rule Cons.prems) (simp_all add: Cons.prems)
  then show ?case using Cons.IH Cons.prems(1) by simp
qed simp

lemma sudo_initialised:
  assumes "sec_db st \<noteq> None" and "\<And>s. sec_db s \<noteq> None \<Longrightarrow> sec_db (f s) \<noteq> None"
  shows "sec_db (snd (sudo st pw f)) \<noteq> None"
proof -
  obtain db where db: "sec_db st = Some db" using assms(1) by auto
  have "sec_db (f (st\<lparr>sec_db := Some (db\<lparr>db_current_uid := 0\<rparr>)\<rparr>)) \<noteq> None" "sec_db (f st) \<noteq> None"
    by (rule assms(2), simp add: db)+
  then show ?thesis by (auto simp: sudo_def Let_def db split: option.splits)
qed

lemma sec_step_initialised: "sec_db st \<noteq> None \<Longrightarrow> sec_db (snd (sec_step op st)) \<noteq> None"
proof (induction op arbitrary: st)
  case (Sudo pw ops)
  show ?case unfolding sec_step.simps
    by (intro sudo_initialised fold_initialised) (use Sudo in auto)
qed (auto simp: sec_ops Let_def split: option.splits)

lemma su_authenticates:
  assumes "current_uid st \<noteq> 0" and "current_uid (snd (su st name pw)) \<noteq> current_uid st"
  shows "\<exists>p. pw = Some p \<and> authenticate st name (hash_password p) \<and>
           uid_by_name st name = Some (current_uid (snd (su st name pw)))"
proof -
  obtain db where db: "sec_db st = Some db" using assms(1) by (auto simp: current_uid_def split: option.splits)
  then obtain u where u: "find (\<lambda>u. usr_name u = name) (db_users db) = Some u"
    using assms(2) by (auto simp: su_def split: option.splits)
  then have "u \<in> set (db_users db)" "usr_name u = name" by (auto simp: find_Some_iff)
  moreover obtain p where "pw = Some p" "usr_password_hash u = hash_password p"
    using assms db u by (auto simp: su_def current_uid_def Let_def split: option.splits if_splits)
  ultimately show ?thesis using db u assms
    by (auto simp: su_def current_uid_def authenticate_def uid_by_name_def list_ex_iff)
qed

text \<open>
  C5. A call made by an ordinary user leaves the active user unchanged, whatever a \<^verbatim>\<open>sudo\<close>
  callback does, except \<^verbatim>\<open>su\<close> with a password whose hash is the stored one of the account
  switched to.
\<close>

theorem no_escalation:
  assumes "current_uid st \<noteq> 0" and "current_uid (snd (sec_step op st)) \<noteq> current_uid st"
  shows "\<exists>name pw. op = Su name (Some pw) \<and> authenticate st name (hash_password pw) \<and>
           uid_by_name st name = Some (current_uid (snd (sec_step op st)))"
proof (cases op)
  case (Su name pw)
  then show ?thesis using su_authenticates assms by simp
next
  case (Sudo pw ops)
  have "sec_db st \<noteq> None" using assms(1) by (auto simp: current_uid_def split: option.splits)
  then have "current_uid (snd (sec_step op st)) = current_uid st"
    unfolding Sudo sec_step.simps
    by (intro sudo_current_uid [OF assms(1) _ refl] fold_initialised)
       (use sec_step_initialised in auto)
  then show ?thesis using assms(2) by simp
qed (use assms in \<open>auto simp: sec_ops current_uid_def Let_def split: option.splits if_splits\<close>)

theorem no_escalation_witness:
  "\<exists>name pw. Su ''root'' (Some []) = Su name (Some pw) \<and>
     authenticate (sec_run [Su ''user'' None] (security_init security_boot)) name (hash_password pw) \<and>
     uid_by_name (sec_run [Su ''user'' None] (security_init security_boot)) name =
       Some (current_uid (snd (sec_step (Su ''root'' (Some []))
         (sec_run [Su ''user'' None] (security_init security_boot)))))"
  by (rule no_escalation) code_simp+

section \<open>Permission bits\<close>

text \<open>The class of the caller: owner (2), group (1) or other (0).\<close>

definition perm_class :: "security \<Rightarrow> u32 \<Rightarrow> permission \<Rightarrow> nat" where
  "perm_class st uid p =
     (if uid = perm_owner_uid p then 2
      else if \<exists>db u. sec_db st = Some db \<and> find (\<lambda>u. usr_uid u = uid) (db_users db) = Some u \<and>
                perm_owner_gid p \<in> set (usr_groups u) then 1 else 0)"

lemma mask3_subset:
  "(drop_bit k (b :: u16) AND 7) AND acc = acc \<longleftrightarrow> (\<forall>n. bit acc n \<longrightarrow> n < 3 \<and> bit b (k + n))"
  (is "?l \<longleftrightarrow> ?r")
proof -
  have seven: "(7 :: u16) = mask 3" by (simp add: mask_eq_exp_minus_1)
  have bits: "bit ((drop_bit k b AND 7) AND acc) n \<longleftrightarrow> bit b (k + n) \<and> n < 3 \<and> bit acc n" for n
    unfolding seven by (auto simp: bit_and_iff bit_mask_iff bit_drop_bit_eq)
  show ?thesis
  proof
    assume ?l
    then have "bit acc n \<longleftrightarrow> bit b (k + n) \<and> n < 3 \<and> bit acc n" for n using bits [of n] by simp
    then show ?r by blast
  next
    assume ?r
    then show ?l by (intro bit_eqI) (auto simp: bits)
  qed
qed

text \<open>
  Root passes every check; any other caller passes exactly when each requested right is
  one of the three (read, write, execute) and its bit is set in the triple of the caller's
  class, and only in that triple: an owner is not helped by the group or the other bits.
\<close>

lemma check_permission_spec:
  "check_permission st uid p access \<longleftrightarrow>
     uid = 0 \<or> (\<forall>n. bit access n \<longrightarrow> n < 3 \<and> bit (perm_bits p) (3 * perm_class st uid p + n))"
  using mask3_subset [of 0 "perm_bits p"]
  by (auto simp: check_permission_def perm_class_def perm_owner_def perm_group_def perm_other_def
      mask3_subset split: option.splits)

lemma check_permission_spec_instance:
  "check_permission security_boot 1000 default_file READ \<longleftrightarrow>
     (1000 :: u32) = 0 \<or> (\<forall>n. bit READ n \<longrightarrow> n < 3 \<and>
        bit (perm_bits default_file) (3 * perm_class security_boot 1000 default_file + n))"
  by (rule check_permission_spec)

end
