(* ===== verification/Vfs.thy ===== *)
theory Vfs
  imports Security
begin

text \<open>
  The in-memory file system (\<^verbatim>\<open>src/vfs.rs\<close>): the inode vector and the path cache of
  \<^verbatim>\<open>Filesystem\<close>, its methods, and the public functions, which also consult the
  permissions of \<open>Security\<close> and print to the serial port. The state of the public functions
  is the file system, the security state and the lines printed so far.
\<close>

section \<open>Data\<close>

definition MAX_INODES :: usize where "MAX_INODES = 64"
definition MAX_FILE_SIZE :: usize where "MAX_FILE_SIZE = 4096"
definition MAX_PATH_CACHE :: usize where "MAX_PATH_CACHE = 256"

datatype node_type =
    Directory
  | RegularFile
  | DevNull
  | DevSerial
  | ProcUptime
  | ProcMeminfo
  | ProcTasks
  | ProcVersion
  | ProcCpuinfo
  | ProcModules
  | ProcSelf

record inode =
  in_name :: str
  in_type :: node_type
  in_parent :: usize
  in_data :: "u8 list"
  in_owner_uid :: u32
  in_owner_gid :: u32

record filesystem =
  fs_inodes :: "inode list"
  fs_cache :: "(u64 \<times> usize) list"

text \<open>
  What the dynamic \<^verbatim>\<open>/proc\<close> files print: the answers of \<^verbatim>\<open>timer\<close>, \<^verbatim>\<open>allocator\<close>,
  \<^verbatim>\<open>task\<close>, \<^verbatim>\<open>smp\<close> and \<^verbatim>\<open>module\<close> at the time of the read.
\<close>

record proc_env =
  pe_hms :: "nat \<times> nat \<times> nat"
  pe_ticks :: u64
  pe_heap :: "usize \<times> usize \<times> usize"
  pe_tasks :: "(usize \<times> str \<times> str) list"
  pe_brand :: str
  pe_cores :: u8
  pe_has_apic :: bool
  pe_has_sse :: bool
  pe_modules :: "(str \<times> str \<times> bool) list"
  pe_pid :: usize

record vfs_state =
  vs_fs :: "filesystem option"
  vs_sec :: security
  vs_serial :: "str list"

section \<open>Methods of the file system\<close>

definition fnv_hash :: "str \<Rightarrow> u64" where
  "fnv_hash path = fnv1a (as_bytes path)"

definition system_node :: "str \<Rightarrow> node_type \<Rightarrow> usize \<Rightarrow> inode" where
  "system_node name t parent = \<lparr>in_name = name, in_type = t, in_parent = parent, in_data = [],
     in_owner_uid = 0, in_owner_gid = 0\<rparr>"

definition initial_inodes :: "inode list" where
  "initial_inodes = [
     system_node [] Directory 0,
     system_node ''dev'' Directory 0,
     system_node ''null'' DevNull 1,
     system_node ''serial'' DevSerial 1,
     system_node ''proc'' Directory 0,
     system_node ''uptime'' ProcUptime 4,
     system_node ''meminfo'' ProcMeminfo 4,
     system_node ''tasks'' ProcTasks 4,
     system_node ''version'' ProcVersion 4,
     system_node ''cpuinfo'' ProcCpuinfo 4,
     system_node ''modules'' ProcModules 4,
     system_node ''self'' ProcSelf 4,
     system_node ''etc'' Directory 0,
     system_node ''tmp'' Directory 0]"

text \<open>
  The walk of \<^verbatim>\<open>build_path\<close> towards the root. It stops within as many steps as there are
  inodes when parents precede their children (\<open>path_parts_fuel\<close> below).
\<close>

fun path_parts :: "inode list \<Rightarrow> nat \<Rightarrow> usize \<Rightarrow> str list" where
  "path_parts inodes 0 cur = []"
| "path_parts inodes (Suc fuel) cur =
     (if cur = 0 then []
      else in_name (inodes ! cur) # path_parts inodes fuel (in_parent (inodes ! cur)))"

definition build_path :: "inode list \<Rightarrow> usize \<Rightarrow> str" where
  "build_path inodes idx =
     (if idx = 0 then ''/''
      else concat (map (\<lambda>p. CHR ''/'' # p) (rev (path_parts inodes (length inodes) idx))))"

definition cache_insert :: "filesystem \<Rightarrow> str \<Rightarrow> usize \<Rightarrow> filesystem" where
  "cache_insert fs path idx =
     (let hash = fnv_hash path in
      if (hash, idx) \<in> set (fs_cache fs) then fs
      else fs\<lparr>fs_cache := (if length (fs_cache fs) \<ge> MAX_PATH_CACHE then remove_at 0 (fs_cache fs)
                           else fs_cache fs) @ [(hash, idx)]\<rparr>)"

definition cache_remove :: "filesystem \<Rightarrow> usize \<Rightarrow> filesystem" where
  "cache_remove fs idx = fs\<lparr>fs_cache := filter (\<lambda>e. snd e \<noteq> idx) (fs_cache fs)\<rparr>"

definition populate_initial_cache :: "filesystem \<Rightarrow> filesystem" where
  "populate_initial_cache fs =
     foldl (\<lambda>fs idx.
         let hash = fnv_hash (build_path (fs_inodes fs) idx) in
         if length (fs_cache fs) < MAX_PATH_CACHE
         then fs\<lparr>fs_cache := fs_cache fs @ [(hash, idx)]\<rparr> else fs)
       fs [0..<length (fs_inodes fs)]"

definition filesystem_new :: filesystem where
  "filesystem_new = populate_initial_cache \<lparr>fs_inodes = initial_inodes, fs_cache = []\<rparr>"

definition is_child :: "inode list \<Rightarrow> usize \<Rightarrow> str \<Rightarrow> usize \<Rightarrow> bool" where
  "is_child inodes parent name i \<longleftrightarrow>
     i \<noteq> 0 \<and> in_parent (inodes ! i) = parent \<and> in_name (inodes ! i) = name"

definition find_child :: "inode list \<Rightarrow> usize \<Rightarrow> str \<Rightarrow> usize option" where
  "find_child inodes parent name = find (is_child inodes parent name) [0..<length inodes]"

fun walk :: "inode list \<Rightarrow> usize \<Rightarrow> str list \<Rightarrow> usize option" where
  "walk inodes current [] = Some current"
| "walk inodes current (component # rest) =
     (if component = [] then walk inodes current rest
      else case find_child inodes current component of
        Some i \<Rightarrow> walk inodes i rest
      | None \<Rightarrow> None)"

definition resolve_uncached :: "filesystem \<Rightarrow> str \<Rightarrow> usize option" where
  "resolve_uncached fs path =
     (if path = ''/'' then Some 0
      else walk (fs_inodes fs) 0 (split_on CHR ''/'' (trim_start_matches CHR ''/'' path)))"

fun cache_hit :: "filesystem \<Rightarrow> str \<Rightarrow> u64 \<Rightarrow> (u64 \<times> usize) list \<Rightarrow> usize option" where
  "cache_hit fs path hash [] = None"
| "cache_hit fs path hash ((h, idx) # entries) =
     (if h = hash \<and> idx < length (fs_inodes fs) \<and> resolve_uncached fs path = Some idx
      then Some idx
      else cache_hit fs path hash entries)"

definition resolve :: "filesystem \<Rightarrow> str \<Rightarrow> usize option" where
  "resolve fs path =
     (case cache_hit fs path (fnv_hash path) (fs_cache fs) of
        Some idx \<Rightarrow> Some idx
      | None \<Rightarrow> resolve_uncached fs path)"

definition list_dir :: "filesystem \<Rightarrow> usize \<Rightarrow> inode list" where
  "list_dir fs dir_idx =
     map (\<lambda>i. fs_inodes fs ! i)
       (filter (\<lambda>i. i \<noteq> 0 \<and> in_parent (fs_inodes fs ! i) = dir_idx) [0..<length (fs_inodes fs)])"

definition nl :: str where "nl = [CHR 0x0A]"

definition read_file :: "proc_env \<Rightarrow> filesystem \<Rightarrow> usize \<Rightarrow> str" where
  "read_file env fs idx =
     (let node = fs_inodes fs ! idx; dec = show_nat in
      case in_type node of
        RegularFile \<Rightarrow> from_utf8_lossy (in_data node)
      | DevNull \<Rightarrow> []
      | DevSerial \<Rightarrow> ''(serial device)'' @ nl
      | ProcUptime \<Rightarrow>
          (let (h, m, s) = pe_hms env; two = (\<lambda>n. pad_left CHR ''0'' 2 (show_nat n)) in
           two h @ '':'' @ two m @ '':'' @ two s @ '' ('' @ dec (unat (pe_ticks env)) @ '' ticks)'' @ nl)
      | ProcMeminfo \<Rightarrow>
          (let (total, used, free) = pe_heap env in
           ''Heap total:  '' @ dec total @ '' bytes'' @ nl @
           ''Heap used:   '' @ dec used @ '' bytes'' @ nl @
           ''Heap free:   '' @ dec free @ '' bytes'' @ nl)
      | ProcTasks \<Rightarrow>
          ''PID  STATE     NAME'' @ nl @
          concat (map (\<lambda>(pid, state, name).
             pad_left CHR '' '' 3 (dec pid) @ ''  '' @ state @ ''  '' @ name @ nl) (pe_tasks env))
      | ProcVersion \<Rightarrow> ''MerlionOS v2.0.0 (x86_64)'' @ nl @ ''Born for AI. Built by AI.'' @ nl
      | ProcCpuinfo \<Rightarrow>
          ''CPU:    '' @ pe_brand env @ nl @ ''Cores:  '' @ dec (unat (pe_cores env)) @ nl @
          ''APIC:   '' @ (if pe_has_apic env then ''yes'' else ''no'') @ nl @
          ''SSE:    '' @ (if pe_has_sse env then ''yes'' else ''no'') @ nl
      | ProcModules \<Rightarrow>
          concat (map (\<lambda>(name, version, loaded).
             name @ '' '' @ version @ '' '' @ (if loaded then ''loaded'' else ''unloaded'') @ nl)
             (pe_modules env))
      | ProcSelf \<Rightarrow> ''pid: '' @ dec (pe_pid env) @ nl
      | Directory \<Rightarrow> ''(directory)'' @ nl)"

text \<open>The lines a write prints on the serial port are returned with the result.\<close>

definition write_file :: "filesystem \<Rightarrow> usize \<Rightarrow> u8 list \<Rightarrow> unit result \<times> filesystem \<times> str list" where
  "write_file fs idx data =
     (case in_type (fs_inodes fs ! idx) of
        RegularFile \<Rightarrow>
          if length data > MAX_FILE_SIZE then (Err ''file too large'', fs, [])
          else (Ok (), fs\<lparr>fs_inodes := (fs_inodes fs)[idx := (fs_inodes fs ! idx)\<lparr>in_data := data\<rparr>]\<rparr>, [])
      | DevNull \<Rightarrow> (Ok (), fs, [])
      | DevSerial \<Rightarrow> (Ok (), fs, case from_utf8 data of Some s \<Rightarrow> [s] | None \<Rightarrow> [])
      | _ \<Rightarrow> (Err ''cannot write to this file'', fs, []))"

definition new_node :: "security \<Rightarrow> str \<Rightarrow> node_type \<Rightarrow> usize \<Rightarrow> inode" where
  "new_node sec name t parent = \<lparr>in_name = name, in_type = t, in_parent = parent, in_data = [],
     in_owner_uid = current_uid sec, in_owner_gid = current_gid sec\<rparr>"

definition create_file :: "security \<Rightarrow> filesystem \<Rightarrow> usize \<Rightarrow> str \<Rightarrow> usize result \<times> filesystem" where
  "create_file sec fs parent name =
     (if in_type (fs_inodes fs ! parent) \<noteq> Directory then (Err ''parent is not a directory'', fs)
      else if length (fs_inodes fs) \<ge> MAX_INODES then (Err ''filesystem full'', fs)
      else case find_child (fs_inodes fs) parent name of
        Some i \<Rightarrow> (Ok i, fs)
      | None \<Rightarrow>
          let idx = length (fs_inodes fs);
              fs1 = fs\<lparr>fs_inodes := fs_inodes fs @ [new_node sec name RegularFile parent]\<rparr>
          in (Ok idx, cache_insert fs1 (build_path (fs_inodes fs1) idx) idx))"

definition delete_file :: "filesystem \<Rightarrow> usize \<Rightarrow> unit result \<times> filesystem" where
  "delete_file fs idx =
     (if idx = 0 \<or> idx \<ge> length (fs_inodes fs) then (Err ''invalid inode'', fs)
      else if in_type (fs_inodes fs ! idx) \<noteq> RegularFile then (Err ''can only delete regular files'', fs)
      else let fs1 = cache_remove fs idx in
        (Ok (), fs1\<lparr>fs_inodes := (fs_inodes fs1)[idx := (fs_inodes fs1 ! idx)
           \<lparr>in_data := [], in_name := ''(deleted)'', in_type := DevNull\<rparr>]\<rparr>))"

section \<open>Public functions\<close>

definition vfs_init :: "vfs_state \<Rightarrow> vfs_state" where
  "vfs_init st = st\<lparr>vs_fs := Some filesystem_new\<rparr>"

definition with_dir :: "vfs_state \<Rightarrow> str \<Rightarrow> (filesystem \<Rightarrow> usize \<Rightarrow> 'a) \<Rightarrow> 'a result" where
  "with_dir st path f =
     (case vs_fs st of
        None \<Rightarrow> Err ''VFS not initialized''
      | Some fs \<Rightarrow>
          (case resolve fs path of
             None \<Rightarrow> Err ''path not found''
           | Some idx \<Rightarrow>
               if in_type (fs_inodes fs ! idx) \<noteq> Directory then Err ''not a directory''
               else Ok (f fs idx)))"

definition type_char :: "node_type \<Rightarrow> char" where
  "type_char t = (case t of Directory \<Rightarrow> CHR ''d'' | RegularFile \<Rightarrow> CHR ''-'' | _ \<Rightarrow> CHR ''c'')"

definition ls :: "vfs_state \<Rightarrow> str \<Rightarrow> (str \<times> char) list result" where
  "ls st path =
     with_dir st path (\<lambda>fs idx. map (\<lambda>n. (in_name n, type_char (in_type n))) (list_dir fs idx))"

definition ls_long :: "vfs_state \<Rightarrow> str \<Rightarrow> str list result" where
  "ls_long st path =
     with_dir st path (\<lambda>fs idx. map (\<lambda>n.
         let full_path = (if path = ''/'' then ''/'' @ in_name n else path @ ''/'' @ in_name n)
         in format_perm_ls (vs_sec st) full_path (in_type n = Directory) @ '' '' @ in_name n)
       (list_dir fs idx))"

definition audit :: "str \<Rightarrow> vfs_state \<Rightarrow> str \<Rightarrow> vfs_state" where
  "audit what st path = st\<lparr>vs_serial := vs_serial st @
     [''[audit] '' @ what @ '' denied: uid='' @ show_nat (unat (current_uid (vs_sec st))) @
      '' path='' @ path]\<rparr>"

definition cat :: "proc_env \<Rightarrow> vfs_state \<Rightarrow> str \<Rightarrow> str result \<times> vfs_state" where
  "cat env st path =
     (if \<not> can_read (vs_sec st) path then (Err ''permission denied'', audit ''read'' st path)
      else case vs_fs st of
        None \<Rightarrow> (Err ''VFS not initialized'', st)
      | Some fs \<Rightarrow>
          (case resolve fs path of
             None \<Rightarrow> (Err ''file not found'', st)
           | Some idx \<Rightarrow>
               if in_type (fs_inodes fs ! idx) = Directory then (Err ''is a directory'', st)
               else (Ok (read_file env fs idx), st)))"

definition split_parent :: "str \<Rightarrow> (str \<times> str) option" where
  "split_parent path =
     map_option (\<lambda>(parent, name). (if parent = [] then ''/'' else parent, name))
       (rsplit_once CHR ''/'' path)"

text \<open>The inode a write goes to: the one the path names, or a new one in the parent directory.\<close>

definition write_target :: "security \<Rightarrow> filesystem \<Rightarrow> str \<Rightarrow> usize result \<times> filesystem" where
  "write_target sec fs path =
     (case resolve fs path of
        Some idx \<Rightarrow> (Ok idx, fs)
      | None \<Rightarrow>
          (case split_parent path of
             None \<Rightarrow> (Err ''invalid path'', fs)
           | Some (parent_path, filename) \<Rightarrow>
               (case resolve fs parent_path of
                  None \<Rightarrow> (Err ''parent directory not found'', fs)
                | Some parent_idx \<Rightarrow> create_file sec fs parent_idx filename)))"

definition vfs_write :: "vfs_state \<Rightarrow> str \<Rightarrow> str \<Rightarrow> unit result \<times> vfs_state" where
  "vfs_write st path data =
     (if \<not> can_write (vs_sec st) path then (Err ''permission denied'', audit ''write'' st path)
      else case vs_fs st of
        None \<Rightarrow> (Err ''VFS not initialized'', st)
      | Some fs \<Rightarrow>
          (case write_target (vs_sec st) fs path of
             (Inl e, fs1) \<Rightarrow> (Err e, st\<lparr>vs_fs := Some fs1\<rparr>)
           | (Inr idx, fs1) \<Rightarrow>
               let (r, fs2, out) = write_file fs1 idx (as_bytes data)
               in (r, st\<lparr>vs_fs := Some fs2, vs_serial := vs_serial st @ out\<rparr>)))"

definition rm :: "vfs_state \<Rightarrow> str \<Rightarrow> unit result \<times> vfs_state" where
  "rm st path =
     (if \<not> can_write (vs_sec st) path then (Err ''permission denied'', audit ''delete'' st path)
      else case vs_fs st of
        None \<Rightarrow> (Err ''VFS not initialized'', st)
      | Some fs \<Rightarrow>
          (case resolve fs path of
             None \<Rightarrow> (Err ''file not found'', st)
           | Some idx \<Rightarrow> let (r, fs1) = delete_file fs idx in (r, st\<lparr>vs_fs := Some fs1\<rparr>)))"

definition vfs_exists :: "vfs_state \<Rightarrow> str \<Rightarrow> bool" where
  "vfs_exists st path = (Option.bind (vs_fs st) (\<lambda>fs. resolve fs path) \<noteq> None)"

definition mkdir :: "vfs_state \<Rightarrow> str \<Rightarrow> unit result \<times> vfs_state" where
  "mkdir st path =
     (case split_parent path of
        None \<Rightarrow> (Err ''invalid path'', st)
      | Some (parent_path, dirname) \<Rightarrow>
          if \<not> can_write (vs_sec st) parent_path then (Err ''permission denied'', st)
          else (case vs_fs st of
            None \<Rightarrow> (Err ''VFS not initialized'', st)
          | Some fs \<Rightarrow>
              (case resolve fs parent_path of
                 None \<Rightarrow> (Err ''parent not found'', st)
               | Some parent_idx \<Rightarrow>
                   if in_type (fs_inodes fs ! parent_idx) \<noteq> Directory
                   then (Err ''parent is not a directory'', st)
                   else if length (fs_inodes fs) \<ge> MAX_INODES then (Err ''filesystem full'', st)
                   else if find_child (fs_inodes fs) parent_idx dirname \<noteq> None
                   then (Err ''directory already exists'', st)
                   else (Ok (), st\<lparr>vs_fs := Some (fs\<lparr>fs_inodes := fs_inodes fs @
                          [new_node (vs_sec st) dirname Directory parent_idx]\<rparr>)\<rparr>))))"

section \<open>Path resolution\<close>

lemma cache_hit_sound: "cache_hit fs path h es = Some i \<Longrightarrow> resolve_uncached fs path = Some i"
  by (induction es) (auto split: if_splits)

text \<open>
  The path cache never changes the answer: a cached entry is used only when the search
  from the root confirms it, so a hash collision or a stale entry is harmless.
\<close>

lemma resolve_uncached_eq: "resolve fs path = resolve_uncached fs path"
  by (auto simp: resolve_def dest: cache_hit_sound split: option.splits)

subsection \<open>Components\<close>

text \<open>The nonempty components of a path decide what it names.\<close>

definition comps :: "str \<Rightarrow> str list" where
  "comps path = filter (\<lambda>c. c \<noteq> []) (split_on CHR ''/'' path)"

lemma walk_filter: "walk inodes cur (filter (\<lambda>c. c \<noteq> []) cs) = walk inodes cur cs"
  by (induction cs arbitrary: cur) (auto split: option.splits)

lemma comps_trim: "comps (trim_start_matches CHR ''/'' path) = comps path"
  by (induction path) (auto simp: trim_start_matches_def comps_def)

lemma comps_append: "comps (p @ CHR ''/'' # f) = comps p @ comps f"
  by (simp add: comps_def split_on_append)

lemma comps_name: "CHR ''/'' \<notin> set f \<Longrightarrow> comps f = (if f = [] then [] else [f])"
  by (simp add: comps_def split_on_no_sep)

lemma comps_nonempty: "[] \<notin> set (comps path)"
  by (simp add: comps_def)

lemma resolve_uncached_walk: "resolve_uncached fs path = walk (fs_inodes fs) 0 (comps path)"
proof (cases "path = ''/''")
  case False
  have "walk (fs_inodes fs) 0 (split_on CHR ''/'' (trim_start_matches CHR ''/'' path)) =
      walk (fs_inodes fs) 0 (comps (trim_start_matches CHR ''/'' path))"
    by (simp add: comps_def walk_filter)
  then show ?thesis using False by (simp add: resolve_uncached_def comps_trim)
qed (simp add: resolve_uncached_def comps_def)

lemma resolve_walk: "resolve fs path = walk (fs_inodes fs) 0 (comps path)"
  by (auto simp: resolve_def resolve_uncached_walk [symmetric] dest: cache_hit_sound split: option.splits)

lemma split_parent_comps:
  assumes "split_parent path = Some (parent, name)"
  shows "comps path = comps parent @ (if name = [] then [] else [name])"
proof -
  obtain p where p: "rsplit_once CHR ''/'' path = Some (p, name)" "parent = (if p = [] then ''/'' else p)"
    using assms by (auto simp: split_parent_def)
  have "comps parent = comps p" using p(2) by (auto simp: comps_def)
  then show ?thesis
    using rsplit_once_Some [OF p(1)] by (simp add: comps_append comps_name)
qed

subsection \<open>Searching and updating the inode vector\<close>

lemma find_upt: "find P [0..<n] = Some i \<longleftrightarrow> i < n \<and> P i \<and> (\<forall>j < i. \<not> P j)"
  by (auto simp: find_Some_iff)

lemma find_upt_None: "find P [0..<n] = None \<longleftrightarrow> (\<forall>j < n. \<not> P j)"
  by (auto simp: find_None_iff)

lemma find_child_Some:
  "find_child xs p n = Some i \<longleftrightarrow>
     i < length xs \<and> is_child xs p n i \<and> (\<forall>j < i. \<not> is_child xs p n j)"
  by (simp add: find_child_def find_upt)

lemma find_child_None: "find_child xs p n = None \<longleftrightarrow> (\<forall>j < length xs. \<not> is_child xs p n j)"
  by (simp add: find_child_def find_upt_None)

lemma find_child_cong:
  assumes "map in_name xs = map in_name ys" and "map in_parent xs = map in_parent ys"
  shows "find_child xs = find_child ys"
proof (intro ext)
  fix p n
  have len: "length xs = length ys" using assms(1) by (rule map_eq_imp_length_eq)
  have "is_child xs p n i = is_child ys p n i" if "i < length ys" for i
    using that assms len unfolding is_child_def by (metis nth_map)
  then show "find_child xs p n = find_child ys p n"
    unfolding find_child_def len by (intro find_cong) auto
qed

lemma walk_cong: "find_child xs = find_child ys \<Longrightarrow> walk xs c cs = walk ys c cs"
  by (induction cs arbitrary: c) (auto split: option.splits)

lemma is_child_append [simp]: "i < length xs \<Longrightarrow> is_child (xs @ [y]) p n i = is_child xs p n i"
  by (simp add: is_child_def nth_append)

lemma find_child_append: "find_child xs p n = Some i \<Longrightarrow> find_child (xs @ [y]) p n = Some i"
  by (auto simp: find_child_Some)

lemma find_child_new:
  assumes "find_child xs p n = None" and "xs \<noteq> []" and "in_parent y = p" and "in_name y = n"
  shows "find_child (xs @ [y]) p n = Some (length xs)"
  using assms by (auto simp: find_child_None find_child_Some is_child_def [of "xs @ [y]" p n "length xs"])

lemma walk_append: "walk xs c cs = Some i \<Longrightarrow> walk (xs @ [y]) c cs = Some i"
  by (induction cs arbitrary: c) (auto simp: find_child_append split: if_splits option.splits)

lemma walk_app: "walk xs c (cs @ ds) = Option.bind (walk xs c cs) (\<lambda>i. walk xs i ds)"
  by (induction cs arbitrary: c) (auto split: option.splits)

lemma walk_bound: "walk xs c cs = Some i \<Longrightarrow> c < length xs \<Longrightarrow> i < length xs"
  by (induction cs arbitrary: c) (auto simp: find_child_Some split: if_splits option.splits)

section \<open>The tree invariant\<close>

definition tree_ok :: "inode list \<Rightarrow> bool" where
  "tree_ok xs \<longleftrightarrow> xs \<noteq> [] \<and> length xs \<le> MAX_INODES \<and> in_type (xs ! 0) = Directory \<and>
     (\<forall>i < length xs. i \<noteq> 0 \<longrightarrow>
        in_parent (xs ! i) < i \<and> in_type (xs ! in_parent (xs ! i)) = Directory)"

text \<open>Two entries of one directory share a name only when both are deleted.\<close>

definition siblings_ok :: "inode list \<Rightarrow> bool" where
  "siblings_ok xs \<longleftrightarrow>
     (\<forall>i j p n. i < j \<and> j < length xs \<and> is_child xs p n i \<and> is_child xs p n j \<longrightarrow> n = ''(deleted)'')"

definition data_ok :: "inode \<Rightarrow> bool" where
  "data_ok n \<longleftrightarrow> length (in_data n) \<le> MAX_FILE_SIZE \<and> (in_type n \<noteq> RegularFile \<longrightarrow> in_data n = [])"

definition cache_ok :: "filesystem \<Rightarrow> bool" where
  "cache_ok fs \<longleftrightarrow> length (fs_cache fs) \<le> MAX_PATH_CACHE \<and>
     list_all (\<lambda>e. snd e < length (fs_inodes fs)) (fs_cache fs)"

definition fs_ok :: "filesystem \<Rightarrow> bool" where
  "fs_ok fs \<longleftrightarrow> tree_ok (fs_inodes fs) \<and> siblings_ok (fs_inodes fs) \<and>
     list_all data_ok (fs_inodes fs) \<and> cache_ok fs"

definition vfs_ok :: "vfs_state \<Rightarrow> bool" where
  "vfs_ok st \<longleftrightarrow> (\<exists>fs. vs_fs st = Some fs \<and> fs_ok fs)"

lemma path_parts_fuel:
  assumes "\<forall>i < length xs. i \<noteq> 0 \<longrightarrow> in_parent (xs ! i) < i" and "cur < length xs" and "cur \<le> fuel"
  shows "path_parts xs fuel cur = path_parts xs cur cur"
  using assms(2, 3)
proof (induction cur arbitrary: fuel rule: less_induct)
  case (less cur)
  show ?case
  proof (cases cur)
    case (Suc k)
    then obtain f where f: "fuel = Suc f" "k \<le> f" using less.prems by (cases fuel) auto
    let ?p = "in_parent (xs ! cur)"
    have p: "?p < cur" using assms(1) less.prems Suc by blast
    then have "path_parts xs f ?p = path_parts xs ?p ?p" "path_parts xs k ?p = path_parts xs ?p ?p"
      using less.IH [of ?p f] less.IH [of ?p k] less.prems Suc f by auto
    then show ?thesis using Suc f by simp
  qed (cases fuel; simp)
qed

lemma tree_ok_append:
  assumes "tree_ok xs" and "in_parent y < length xs" and "in_type (xs ! in_parent y) = Directory"
    and "length xs < MAX_INODES"
  shows "tree_ok (xs @ [y])"
  using assms by (auto simp: tree_ok_def nth_append)

lemma siblings_ok_append:
  assumes "siblings_ok xs" and "find_child xs (in_parent y) (in_name y) = None"
  shows "siblings_ok (xs @ [y])"
  unfolding siblings_ok_def
proof (intro allI impI)
  fix i j p n
  assume a: "i < j \<and> j < length (xs @ [y]) \<and> is_child (xs @ [y]) p n i \<and> is_child (xs @ [y]) p n j"
  show "n = ''(deleted)''"
  proof (cases "j < length xs")
    case True
    then show ?thesis using a assms(1) unfolding siblings_ok_def by (auto intro: less_trans)
  next
    case False
    then have "j = length xs" "i < length xs" using a by auto
    then show ?thesis using a assms(2) by (auto simp: find_child_None is_child_def nth_append)
  qed
qed

lemma cache_insert_inodes [simp]: "fs_inodes (cache_insert fs path idx) = fs_inodes fs"
  by (simp add: cache_insert_def Let_def)

lemma cache_insert_ok: "cache_ok fs \<Longrightarrow> idx < length (fs_inodes fs) \<Longrightarrow> cache_ok (cache_insert fs path idx)"
  using set_remove_at [of 0 "fs_cache fs"]
  by (auto simp: cache_ok_def cache_insert_def Let_def list_all_iff MAX_PATH_CACHE_def remove_at_def)

lemma cache_ok_append: "cache_ok fs \<Longrightarrow> cache_ok (fs\<lparr>fs_inodes := fs_inodes fs @ [y]\<rparr>)"
  by (auto simp: cache_ok_def list_all_iff less_Suc_eq)

lemma fs_ok_append:
  assumes "fs_ok fs" and "in_parent y < length (fs_inodes fs)" and "length (fs_inodes fs) < MAX_INODES"
    and "in_type (fs_inodes fs ! in_parent y) = Directory" and "in_data y = []"
    and "find_child (fs_inodes fs) (in_parent y) (in_name y) = None"
  shows "fs_ok (fs\<lparr>fs_inodes := fs_inodes fs @ [y]\<rparr>)"
  using assms
  by (simp add: fs_ok_def tree_ok_append siblings_ok_append cache_ok_append data_ok_def)

lemma fs_ok_cache_insert: "fs_ok fs \<Longrightarrow> idx < length (fs_inodes fs) \<Longrightarrow> fs_ok (cache_insert fs path idx)"
  by (simp add: fs_ok_def cache_insert_ok)

lemma resolve_bound: "fs_ok fs \<Longrightarrow> resolve fs path = Some idx \<Longrightarrow> idx < length (fs_inodes fs)"
  by (auto simp: resolve_walk fs_ok_def tree_ok_def dest: walk_bound)

lemma is_child_update:
  assumes "in_name y = in_name (xs ! i)" and "in_parent y = in_parent (xs ! i)"
  shows "is_child (xs[i := y]) p n j = is_child xs p n j"
  using assms by (cases "i < length xs") (auto simp: is_child_def nth_list_update list_update_beyond)

lemma update_data_names:
  "map in_name (xs[i := (xs ! i)\<lparr>in_data := d\<rparr>]) = map in_name xs"
  "map in_parent (xs[i := (xs ! i)\<lparr>in_data := d\<rparr>]) = map in_parent xs"
  by (cases "i < length xs"; simp add: map_update list_update_same_conv list_update_beyond)+

lemma tree_ok_update:
  assumes "tree_ok xs" and "in_parent y = in_parent (xs ! i)"
    and "in_type (xs ! i) = Directory \<Longrightarrow> in_type y = Directory"
  shows "tree_ok (xs[i := y])"
proof (cases "i < length xs")
  case True
  then show ?thesis using assms unfolding tree_ok_def by (auto simp: nth_list_update)
qed (use assms in \<open>simp add: list_update_beyond\<close>)

lemma write_file_ok:
  assumes "fs_ok fs" and "write_file fs idx data = (r, fs', out)"
  shows "fs_ok fs'"
proof -
  let ?y = "(fs_inodes fs ! idx)\<lparr>in_data := data\<rparr>"
  have "fs_ok (fs\<lparr>fs_inodes := (fs_inodes fs)[idx := ?y]\<rparr>)"
    if "length data \<le> MAX_FILE_SIZE" "in_type (fs_inodes fs ! idx) = RegularFile"
  proof -
    have "siblings_ok ((fs_inodes fs)[idx := ?y])"
      using assms(1) by (simp add: fs_ok_def siblings_ok_def is_child_update)
    moreover have "tree_ok ((fs_inodes fs)[idx := ?y])"
      using assms(1) by (intro tree_ok_update) (auto simp: fs_ok_def)
    ultimately show ?thesis using assms(1) that
      by (simp add: fs_ok_def list_all_list_update data_ok_def cache_ok_def)
  qed
  then show ?thesis
    using assms by (auto simp: write_file_def split: node_type.splits if_splits)
qed

lemma create_file_ok:
  assumes "fs_ok fs" and "parent < length (fs_inodes fs)" and "create_file sec fs parent name = (r, fs')"
  shows "fs_ok fs' \<and> (\<forall>idx. r = Ok idx \<longrightarrow> idx < length (fs_inodes fs'))"
proof (cases "in_type (fs_inodes fs ! parent) = Directory \<and> length (fs_inodes fs) < MAX_INODES \<and>
    find_child (fs_inodes fs) parent name = None")
  case True
  let ?fs1 = "fs\<lparr>fs_inodes := fs_inodes fs @ [new_node sec name RegularFile parent]\<rparr>"
  have "fs_ok ?fs1"
    using assms True by (intro fs_ok_append) (auto simp: new_node_def)
  then have "fs_ok (cache_insert ?fs1 path (length (fs_inodes fs)))" for path
    by (rule fs_ok_cache_insert) simp
  then show ?thesis using assms True
    by (auto simp: create_file_def Let_def)
next
  case False
  then show ?thesis using assms
    by (auto simp: create_file_def Let_def not_le dest: find_child_Some [THEN iffD1]
        split: if_splits option.splits)
qed

lemma write_target_ok:
  assumes "fs_ok fs" and "write_target sec fs path = (r, fs')"
  shows "fs_ok fs' \<and> (\<forall>idx. r = Ok idx \<longrightarrow> idx < length (fs_inodes fs'))"
proof (cases "resolve fs path")
  case None
  show ?thesis
  proof (cases "\<exists>parent name idx. split_parent path = Some (parent, name) \<and> resolve fs parent = Some idx")
    case True
    then obtain parent name idx
      where "split_parent path = Some (parent, name)" "resolve fs parent = Some idx" by blast
    then show ?thesis
      using create_file_ok [OF assms(1) resolve_bound [OF assms(1)]] assms(2) None
      by (simp add: write_target_def)
  next
    case False
    then show ?thesis using assms None by (auto simp: write_target_def split: option.splits)
  qed
next
  case (Some idx)
  then show ?thesis using assms by (auto simp: write_target_def dest: resolve_bound)
qed

lemma siblings_ok_rename:
  assumes "siblings_ok xs" and "in_parent y = in_parent (xs ! k)" and "in_name y = ''(deleted)''"
  shows "siblings_ok (xs[k := y])"
  unfolding siblings_ok_def
proof (intro allI impI)
  fix i j p n
  assume a: "i < j \<and> j < length (xs[k := y]) \<and> is_child (xs[k := y]) p n i \<and> is_child (xs[k := y]) p n j"
  show "n = ''(deleted)''"
  proof (cases "i = k \<or> j = k")
    case True
    then show ?thesis using a assms(3) by (auto simp: is_child_def)
  next
    case False
    then have "is_child xs p n i" "is_child xs p n j" using a by (auto simp: is_child_def)
    then show ?thesis using a assms(1) by (auto simp: siblings_ok_def)
  qed
qed

lemma siblings_ok_distinct:
  assumes "distinct (map (\<lambda>n. (in_parent n, in_name n)) (tl xs))"
  shows "siblings_ok xs"
  unfolding siblings_ok_def
proof (intro allI impI)
  fix i j p n
  assume a: "i < j \<and> j < length xs \<and> is_child xs p n i \<and> is_child xs p n j"
  then obtain i' j' where ij: "i = Suc i'" "j = Suc j'" by (metis is_child_def not0_implies_Suc)
  have "map (\<lambda>n. (in_parent n, in_name n)) (tl xs) ! i' = map (\<lambda>n. (in_parent n, in_name n)) (tl xs) ! j'"
    using a ij by (auto simp: is_child_def nth_tl)
  then have "i' = j'" using assms a ij by (subst (asm) nth_eq_iff_index_eq) auto
  then show "n = ''(deleted)''" using a ij by simp
qed

lemma delete_file_ok:
  assumes "fs_ok fs" and "delete_file fs idx = (r, fs')"
  shows "fs_ok fs'"
proof -
  let ?xs = "fs_inodes fs"
  let ?y = "(?xs ! idx)\<lparr>in_data := [], in_name := ''(deleted)'', in_type := DevNull\<rparr>"
  have "siblings_ok (?xs[idx := ?y])"
    using assms(1) unfolding fs_ok_def by (intro siblings_ok_rename) auto
  moreover have "cache_ok (cache_remove fs idx\<lparr>fs_inodes := ?xs[idx := ?y]\<rparr>)"
    using assms(1) le_trans [OF length_filter_le [of "\<lambda>e. snd e \<noteq> idx" "fs_cache fs"]]
    by (auto simp: fs_ok_def cache_ok_def cache_remove_def list_all_iff)
  moreover have "tree_ok (?xs[idx := ?y])" if "in_type (?xs ! idx) = RegularFile"
    using assms(1) that by (intro tree_ok_update) (auto simp: fs_ok_def)
  ultimately show ?thesis using assms
    by (auto simp: delete_file_def Let_def fs_ok_def list_all_list_update data_ok_def
        cache_remove_def split: if_splits)
qed

lemma populate_step:
  assumes "cache_ok fs" and "list_all (\<lambda>i. i < length (fs_inodes fs)) is"
  defines "step \<equiv> \<lambda>fs idx.
    let hash = fnv_hash (build_path (fs_inodes fs) idx) in
    if length (fs_cache fs) < MAX_PATH_CACHE
    then fs\<lparr>fs_cache := fs_cache fs @ [(hash, idx)]\<rparr> else fs"
  shows "fs_inodes (foldl step fs is) = fs_inodes fs \<and> cache_ok (foldl step fs is)"
  using assms(1, 2)
proof (induction "is" arbitrary: fs)
  case (Cons i "is")
  have "fs_inodes (step fs i) = fs_inodes fs \<and> cache_ok (step fs i)"
    using Cons.prems by (simp add: step_def cache_ok_def Let_def)
  then show ?case using Cons by simp
qed simp

lemma fs_ok_new: "fs_ok filesystem_new"
proof -
  have "tree_ok initial_inodes"
    by (auto simp: tree_ok_def initial_inodes_def system_node_def MAX_INODES_def less_Suc_eq)
  moreover have "siblings_ok initial_inodes"
    by (rule siblings_ok_distinct) (simp add: initial_inodes_def system_node_def)
  moreover have "list_all data_ok initial_inodes"
    by (simp add: initial_inodes_def system_node_def data_ok_def)
  moreover have "fs_inodes filesystem_new = initial_inodes \<and> cache_ok filesystem_new"
    using populate_step [of "\<lparr>fs_inodes = initial_inodes, fs_cache = []\<rparr>" "[0..<length initial_inodes]"]
    unfolding filesystem_new_def populate_initial_cache_def
    by (simp add: cache_ok_def [of "\<lparr>fs_inodes = _, fs_cache = []\<rparr>"] list_all_iff)
  ultimately show ?thesis by (simp add: fs_ok_def)
qed

subsection \<open>Every call preserves the tree\<close>

datatype vfs_op = Write str str | Rm str | Mkdir str | Cat str

definition vfs_step :: "proc_env \<Rightarrow> vfs_op \<Rightarrow> vfs_state \<Rightarrow> vfs_state" where
  "vfs_step env op st =
     (case op of Write path data \<Rightarrow> snd (vfs_write st path data) | Rm path \<Rightarrow> snd (rm st path)
      | Mkdir path \<Rightarrow> snd (mkdir st path) | Cat path \<Rightarrow> snd (cat env st path))"

lemma audit_fs [simp]: "vs_fs (audit what st path) = vs_fs st" "vs_sec (audit what st path) = vs_sec st"
  by (simp_all add: audit_def)

lemma vfs_ok_audit [simp]: "vfs_ok (audit what st path) = vfs_ok st"
  by (simp add: vfs_ok_def)

lemma vfs_write_ok:
  assumes "vfs_ok st"
  shows "vfs_ok (snd (vfs_write st path data))"
proof -
  obtain fs where fs: "vs_fs st = Some fs" "fs_ok fs" using assms by (auto simp: vfs_ok_def)
  obtain r fs1 where w: "write_target (vs_sec st) fs path = (r, fs1)" by fastforce
  have ok1: "fs_ok fs1" using write_target_ok [OF fs(2) w] by simp
  show ?thesis
  proof (cases r)
    case (Inr idx)
    obtain r2 fs2 out where "write_file fs1 idx (as_bytes data) = (r2, fs2, out)" by (metis prod_cases3)
    then show ?thesis using assms fs w Inr write_file_ok [OF ok1]
      by (auto simp: vfs_write_def vfs_ok_def)
  qed (use assms fs w ok1 in \<open>auto simp: vfs_write_def vfs_ok_def\<close>)
qed

lemma rm_ok: "vfs_ok st \<Longrightarrow> vfs_ok (snd (rm st path))"
  by (auto simp: rm_def vfs_ok_def dest: delete_file_ok split: option.splits prod.splits)

lemma mkdir_ok:
  assumes "vfs_ok st"
  shows "vfs_ok (snd (mkdir st path))"
proof -
  obtain fs where fs: "vs_fs st = Some fs" "fs_ok fs" using assms by (auto simp: vfs_ok_def)
  have "fs_ok (fs\<lparr>fs_inodes := fs_inodes fs @ [new_node (vs_sec st) name Directory idx]\<rparr>)"
    if "resolve fs parent = Some idx" "in_type (fs_inodes fs ! idx) = Directory"
      "length (fs_inodes fs) < MAX_INODES" "find_child (fs_inodes fs) idx name = None" for parent name idx
    using fs(2) that by (intro fs_ok_append) (auto simp: new_node_def resolve_bound)
  then show ?thesis using assms fs
    by (auto simp: mkdir_def vfs_ok_def split: option.splits)
qed

lemma cat_ok: "vfs_ok st \<Longrightarrow> vfs_ok (snd (cat env st path))"
  by (auto simp: cat_def vfs_ok_def split: option.splits)

text \<open>
  C3. Whatever is written, removed, created or read, and whoever does it, the inode vector
  stays a tree rooted at a directory: every other node hangs under a directory that precedes
  it (so walks to the root end), live names are unique within a directory, there are at most
  64 inodes and 4096 bytes per file, only regular files hold data, and the cache stays within
  its 256 entries and points at existing inodes.
\<close>

theorem vfs_run_ok: "vfs_ok (fold (vfs_step env) ops (vfs_init st))"
proof -
  have step: "vfs_ok (vfs_step env op s)" if "vfs_ok s" for op s
    using that vfs_write_ok rm_ok mkdir_ok cat_ok by (cases op) (auto simp: vfs_step_def)
  have "vfs_ok (fold (vfs_step env) ops s)" if "vfs_ok s" for s
    using that step by (induction ops arbitrary: s) auto
  then show ?thesis by (simp add: vfs_init_def vfs_ok_def fs_ok_new)
qed

section \<open>Writing and reading\<close>

text \<open>Paths that resolved keep their inode when a node is added or a file's data changes.\<close>

lemma write_target_resolve:
  assumes "fs_ok fs" and "write_target sec fs path = (Ok idx, fs1)"
  shows "resolve fs1 path = Some idx"
    and "resolve fs path = Some idx \<and> fs1 = fs \<or>
         resolve fs path = None \<and> idx = length (fs_inodes fs) \<and>
         (\<exists>y. fs_inodes fs1 = fs_inodes fs @ [y] \<and> in_type y = RegularFile \<and> in_data y = [])"
proof -
  have "resolve fs1 path = Some idx \<and> (resolve fs path = Some idx \<and> fs1 = fs \<or>
         resolve fs path = None \<and> idx = length (fs_inodes fs) \<and>
         (\<exists>y. fs_inodes fs1 = fs_inodes fs @ [y] \<and> in_type y = RegularFile \<and> in_data y = []))"
  proof (cases "resolve fs path")
    case None
    then obtain parent name p where s: "split_parent path = Some (parent, name)"
        "resolve fs parent = Some p" "create_file sec fs p name = (Ok idx, fs1)"
      using assms(2) by (auto simp: write_target_def split: option.splits)
    have c: "comps path = comps parent @ (if name = [] then [] else [name])"
      by (rule split_parent_comps [OF s(1)])
    have n: "name \<noteq> []" "find_child (fs_inodes fs) p name = None"
      using None s(2) c by (auto simp: resolve_walk walk_app split: if_splits option.splits)
    let ?xs = "fs_inodes fs @ [new_node sec name RegularFile p]"
    have f: "fs_inodes fs1 = ?xs" "idx = length (fs_inodes fs)"
      using s(3) n(2) by (auto simp: create_file_def Let_def split: if_splits)
    have "walk ?xs 0 (comps parent) = Some p"
      using s(2) by (simp add: resolve_walk walk_append)
    moreover have "find_child ?xs p name = Some (length (fs_inodes fs))"
      using n assms(1) by (intro find_child_new) (auto simp: new_node_def fs_ok_def tree_ok_def)
    ultimately show ?thesis using None n f c
      by (simp add: resolve_walk walk_app new_node_def)
  qed (use assms(2) in \<open>auto simp: write_target_def\<close>)
  then show "resolve fs1 path = Some idx"
    and "resolve fs path = Some idx \<and> fs1 = fs \<or>
         resolve fs path = None \<and> idx = length (fs_inodes fs) \<and>
         (\<exists>y. fs_inodes fs1 = fs_inodes fs @ [y] \<and> in_type y = RegularFile \<and> in_data y = [])" by auto
qed

lemma resolve_append:
  "fs_inodes fs1 = fs_inodes fs @ [y] \<Longrightarrow> resolve fs q = Some i \<Longrightarrow> resolve fs1 q = Some i"
  by (simp add: resolve_walk walk_append)

lemma resolve_set_data:
  "resolve (fs\<lparr>fs_inodes := (fs_inodes fs)[i := (fs_inodes fs ! i)\<lparr>in_data := d\<rparr>]\<rparr>) q = resolve fs q"
proof -
  have "find_child ((fs_inodes fs)[i := (fs_inodes fs ! i)\<lparr>in_data := d\<rparr>]) = find_child (fs_inodes fs)"
    by (rule find_child_cong) (rule update_data_names)+
  from walk_cong [OF this] show ?thesis by (simp add: resolve_walk)
qed

text \<open>What a successful write to a regular file, or to a new path, leaves.\<close>

definition set_data :: "filesystem \<Rightarrow> usize \<Rightarrow> u8 list \<Rightarrow> filesystem" where
  "set_data fs i d = fs\<lparr>fs_inodes := (fs_inodes fs)[i := (fs_inodes fs ! i)\<lparr>in_data := d\<rparr>]\<rparr>"

lemma vfs_write_Ok:
  assumes "vs_fs st = Some fs" and "fs_ok fs" and "vfs_write st path data = (Ok (), st')"
    and "case resolve fs path of Some i \<Rightarrow> in_type (fs_inodes fs ! i) = RegularFile | None \<Rightarrow> True"
  obtains idx fs1 where "write_target (vs_sec st) fs path = (Ok idx, fs1)"
    and "st' = st\<lparr>vs_fs := Some (set_data fs1 idx (as_bytes data))\<rparr>"
    and "in_type (fs_inodes fs1 ! idx) = RegularFile" and "idx < length (fs_inodes fs1)"
    and "resolve (set_data fs1 idx (as_bytes data)) path = Some idx"
proof -
  obtain idx fs1 where w: "write_target (vs_sec st) fs path = (Ok idx, fs1)"
    using assms(1, 3) by (auto simp: vfs_write_def split: if_splits prod.splits sum.splits)
  note t = write_target_resolve [OF assms(2) w]
  have reg: "in_type (fs_inodes fs1 ! idx) = RegularFile"
    using t(2) assms(4) by (auto simp: nth_append)
  have "st' = st\<lparr>vs_fs := Some (set_data fs1 idx (as_bytes data))\<rparr>"
    using assms(1, 3) w reg by (auto simp: vfs_write_def write_file_def set_data_def split: if_splits)
  moreover have "resolve (set_data fs1 idx (as_bytes data)) path = Some idx"
    using t(1) unfolding set_data_def by (simp only: resolve_set_data)
  moreover have "idx < length (fs_inodes fs1)" using write_target_ok [OF assms(2) w] by simp
  ultimately show ?thesis using w reg that by blast
qed

lemma cat_after_write:
  assumes "vs_fs st = Some fs" and "fs_ok fs" and "vfs_write st path data = (Ok (), st')"
    and "case resolve fs path of Some i \<Rightarrow> in_type (fs_inodes fs ! i) = RegularFile | None \<Rightarrow> True"
    and "can_read (vs_sec st) path" and "utf8_valid (as_bytes data)"
  shows "cat env st' path = (Ok data, st')"
  using assms(5, 6)
  by (rule_tac vfs_write_Ok [OF assms(1-4)]) (simp add: cat_def read_file_def set_data_def)

lemma write_frame:
  assumes "fs_ok fs" and "write_target sec fs path = (Ok idx, fs1)"
    and "resolve fs q = Some i" and "resolve fs path \<noteq> Some i"
  shows "resolve (set_data fs1 idx d) q = Some i" and "fs_inodes (set_data fs1 idx d) ! i = fs_inodes fs ! i"
proof -
  note t = write_target_resolve [OF assms(1, 2)]
  have "i < length (fs_inodes fs)" using assms(1, 3) by (rule resolve_bound)
  then show "resolve (set_data fs1 idx d) q = Some i"
    and "fs_inodes (set_data fs1 idx d) ! i = fs_inodes fs ! i"
    unfolding set_data_def resolve_set_data using t(2) assms(3, 4) by (auto simp: nth_append resolve_append)
qed


text \<open>A kernel just after \<^verbatim>\<open>security::init\<close> and \<^verbatim>\<open>vfs::init\<close>, root logged in.\<close>

definition boot_state :: vfs_state where
  "boot_state = vfs_init \<lparr>vs_fs = None, vs_sec = security_init security_boot, vs_serial = []\<rparr>"

lemma boot_fs: "vs_fs boot_state = Some filesystem_new"
  by (simp add: boot_state_def vfs_init_def)


section \<open>Removing\<close>

lemma tree_ok_parent:
  assumes "tree_ok xs" and "is_child xs p n i" and "i < length xs"
  shows "in_type (xs ! p) = Directory" and "p < i"
  using assms by (auto simp: tree_ok_def is_child_def)

lemma find_child_deleted:
  assumes "siblings_ok xs" and "idx < length xs" and "n \<noteq> ''(deleted)''"
    and "in_name y = ''(deleted)''" and "in_parent y = in_parent (xs ! idx)"
  shows "find_child (xs[idx := y]) p n =
    (if find_child xs p n = Some idx then None else find_child xs p n)"
proof -
  have c: "is_child (xs[idx := y]) p n i \<longleftrightarrow> i \<noteq> idx \<and> is_child xs p n i" if "i < length xs" for i
    using that assms by (auto simp: is_child_def nth_list_update)
  have u: "\<not> is_child xs p n j" if "is_child xs p n i" "j < length xs" "i < length xs" "i \<noteq> j" for i j
    using assms(1, 3) that unfolding siblings_ok_def by (meson nat_neq_iff)
  show ?thesis
  proof (cases "find_child xs p n")
    case None
    then have "find_child (xs[idx := y]) p n = None"
      unfolding find_child_None using c by auto
    then show ?thesis using None by simp
  next
    case (Some i)
    then have i: "i < length xs" "is_child xs p n i" "\<forall>j < i. \<not> is_child xs p n j"
      by (auto simp: find_child_Some)
    show ?thesis
    proof (cases "i = idx")
      case True
      then have "find_child (xs[idx := y]) p n = None"
        unfolding find_child_None using c u [OF i(2)] i(1) by auto
      then show ?thesis using Some True by simp
    next
      case False
      then have "find_child (xs[idx := y]) p n = Some i"
        unfolding find_child_Some using c i by auto
      then show ?thesis using Some False by simp
    qed
  qed
qed

lemma walk_from_file:
  assumes "tree_ok xs" and "in_type (xs ! idx) \<noteq> Directory" and "[] \<notin> set cs" and "cs \<noteq> []"
  shows "walk xs idx cs = None"
proof -
  have "find_child xs idx n = None" for n
    using assms(1, 2) tree_ok_parent(1) by (auto simp: find_child_None)
  then show ?thesis using assms(3, 4) by (cases cs) auto
qed

lemma walk_deleted:
  assumes "tree_ok xs" and "siblings_ok xs" and "idx < length xs"
    and "in_type (xs ! idx) \<noteq> Directory"
    and "in_name y = ''(deleted)''" and "in_parent y = in_parent (xs ! idx)"
    and "''(deleted)'' \<notin> set cs" and "[] \<notin> set cs" and "c \<noteq> idx"
  shows "walk (xs[idx := y]) c cs = (if walk xs c cs = Some idx then None else walk xs c cs)"
  using assms(7-)
proof (induction cs arbitrary: c)
  case (Cons n cs)
  note f = find_child_deleted [OF assms(2, 3) _ assms(5, 6), of n c]
  show ?case
  proof (cases "find_child xs c n")
    case (Some i)
    show ?thesis
    proof (cases "i = idx")
      case True
      then have "walk xs i cs = None \<or> cs = []" using walk_from_file [OF assms(1, 4)] Cons.prems by auto
      then show ?thesis using Some True f Cons.prems by auto
    next
      case False
      then show ?thesis using Some f Cons by auto
    qed
  qed (use f Cons.prems in auto)
qed auto

text \<open>
  After a successful \<^verbatim>\<open>rm\<close>, exactly the paths that named the removed file stop
  resolving: every path without a component \<^verbatim>\<open>(deleted)\<close> names the inode it named before,
  unless that was the file removed. No data of any other inode changes.
\<close>

lemma rm_removes:
  assumes "vs_fs st = Some fs" and "fs_ok fs" and "rm st path = (Ok (), st')"
  shows "\<exists>fs' idx. vs_fs st' = Some fs' \<and> resolve fs path = Some idx \<and>
    (\<forall>q. ''(deleted)'' \<notin> set (comps q) \<longrightarrow>
       resolve fs' q = (if resolve fs q = Some idx then None else resolve fs q)) \<and>
    (\<forall>i. i \<noteq> idx \<longrightarrow> fs_inodes fs' ! i = fs_inodes fs ! i)"
proof -
  obtain idx fs' where r: "resolve fs path = Some idx" "delete_file fs idx = (Ok (), fs')"
      "vs_fs st' = Some fs'"
    using assms(1, 3) by (auto simp: rm_def split: if_splits option.splits prod.splits)
  let ?y = "(fs_inodes fs ! idx)\<lparr>in_data := [], in_name := ''(deleted)'', in_type := DevNull\<rparr>"
  have d: "idx \<noteq> 0" "idx < length (fs_inodes fs)" "in_type (fs_inodes fs ! idx) = RegularFile"
      "fs_inodes fs' = (fs_inodes fs)[idx := ?y]"
    using r(2) by (auto simp: delete_file_def cache_remove_def Let_def split: if_splits)
  have ok: "tree_ok (fs_inodes fs)" "siblings_ok (fs_inodes fs)" using assms(2) by (auto simp: fs_ok_def)
  have nd: "in_type (fs_inodes fs ! idx) \<noteq> Directory" by (simp add: d(3))
  have "resolve fs' q = (if resolve fs q = Some idx then None else resolve fs q)"
    if "''(deleted)'' \<notin> set (comps q)" for q
    unfolding resolve_walk d(4)
    by (rule walk_deleted [OF ok d(2) nd _ _ that comps_nonempty]) (use d(1) in auto)
  then show ?thesis using r d(4) by auto
qed

definition after_write :: vfs_state where
  "after_write = snd (vfs_write boot_state ''/tmp/a'' ''hello'')"

lemma rm_removes_instance:
  "\<exists>fs' idx. vs_fs (snd (rm after_write ''/tmp/a'')) = Some fs' \<and>
    resolve (the (vs_fs after_write)) ''/tmp/a'' = Some idx \<and>
    (\<forall>q. ''(deleted)'' \<notin> set (comps q) \<longrightarrow>
       resolve fs' q = (if resolve (the (vs_fs after_write)) q = Some idx then None
                        else resolve (the (vs_fs after_write)) q)) \<and>
    (\<forall>i. i \<noteq> idx \<longrightarrow> fs_inodes fs' ! i = fs_inodes (the (vs_fs after_write)) ! i)"
proof (rule rm_removes)
  have "vfs_ok boot_state" by (simp add: vfs_ok_def boot_fs fs_ok_new)
  then have "vfs_ok after_write" unfolding after_write_def by (rule vfs_write_ok)
  then show "vs_fs after_write = Some (the (vs_fs after_write))" "fs_ok (the (vs_fs after_write))"
    by (auto simp: vfs_ok_def)
  show "rm after_write ''/tmp/a'' = (Ok (), snd (rm after_write ''/tmp/a''))"
    by (subst prod.collapse [symmetric], subst prod.inject) code_simp
qed

section \<open>Errors\<close>

text \<open>
  C40. A write that fails changes no file: the file system is untouched, except that a write
  of more than 4096 bytes to a path that did not exist leaves a new empty file behind.
\<close>

theorem vfs_write_error:
  assumes "vs_fs st = Some fs" and "fs_ok fs" and "vfs_write st path data = (Err e, st')"
  shows "vs_fs st' = Some fs \<or>
    e = ''file too large'' \<and> length data > MAX_FILE_SIZE \<and> resolve fs path = None \<and>
    (\<exists>fs' y. vs_fs st' = Some fs' \<and> fs_inodes fs' = fs_inodes fs @ [y] \<and>
       resolve fs' path = Some (length (fs_inodes fs)) \<and> in_type y = RegularFile \<and> in_data y = [])"
proof (cases "can_write (vs_sec st) path")
  case True
  obtain r fs1 where w: "write_target (vs_sec st) fs path = (r, fs1)" by fastforce
  show ?thesis
  proof (cases r)
    case (Inl e')
    then have "fs1 = fs" using w
      by (auto simp: write_target_def create_file_def Let_def split: option.splits if_splits)
    then show ?thesis using assms True w Inl by (auto simp: vfs_write_def)
  next
    case (Inr idx)
    note t = write_target_resolve [OF assms(2) w [unfolded Inr]]
    have f: "vs_fs st' = Some fs1" "in_type (fs_inodes fs1 ! idx) = RegularFile \<Longrightarrow>
        e = ''file too large'' \<and> length data > MAX_FILE_SIZE"
      using assms True w Inr
      by (auto simp: vfs_write_def write_file_def split: node_type.splits if_splits)
    show ?thesis
    proof (cases "fs1 = fs")
      case False
      then obtain y where y: "resolve fs path = None" "idx = length (fs_inodes fs)"
          "fs_inodes fs1 = fs_inodes fs @ [y]" "in_type y = RegularFile" "in_data y = []"
        using t(2) by auto
      then show ?thesis using f t(1) by auto
    qed (use f in simp)
  qed
qed (use assms in \<open>auto simp: vfs_write_def audit_def\<close>)

theorem vfs_write_error_witness:
  "vs_fs (snd (vfs_write boot_state ''/tmp'' ''x'')) = Some filesystem_new \<or>
    ''cannot write to this file'' = ''file too large'' \<and> length ''x'' > MAX_FILE_SIZE \<and>
    resolve filesystem_new ''/tmp'' = None \<and>
    (\<exists>fs' y. vs_fs (snd (vfs_write boot_state ''/tmp'' ''x'')) = Some fs' \<and>
       fs_inodes fs' = fs_inodes filesystem_new @ [y] \<and>
       resolve fs' ''/tmp'' = Some (length (fs_inodes filesystem_new)) \<and>
       in_type y = RegularFile \<and> in_data y = [])"
proof (rule vfs_write_error)
  show "vs_fs boot_state = Some filesystem_new" by (rule boot_fs)
  show "fs_ok filesystem_new" by (rule fs_ok_new)
  show "vfs_write boot_state ''/tmp'' ''x'' =
      (Err ''cannot write to this file'', snd (vfs_write boot_state ''/tmp'' ''x''))"
    by (subst prod.collapse [symmetric], subst prod.inject) code_simp
qed

end
