(* ===== verification/Access.thy ===== *)
theory Access
  imports Vfs
begin

text \<open>
  \<^verbatim>\<open>chmod\<close> and \<^verbatim>\<open>chown\<close> of \<^verbatim>\<open>src/security.rs\<close>, which ask the file system whether the
  path exists before they change the permission side table.
\<close>

section \<open>Operations\<close>

definition chmod :: "vfs_state \<Rightarrow> str \<Rightarrow> u16 \<Rightarrow> unit result \<times> vfs_state" where
  "chmod st path mode =
     (if \<not> vfs_exists st path then (Err ''security: file not found'', st)
      else
        let sec = vs_sec st; uid = current_uid sec in
        case find (\<lambda>e. fst e = path) (sec_perms sec) of
          Some entry \<Rightarrow>
            if uid \<noteq> 0 \<and> uid \<noteq> perm_owner_uid (snd entry) then (Err ''security: permission denied'', st)
            else (Ok (), st\<lparr>vs_sec := sec\<lparr>sec_perms := update_first (\<lambda>e. fst e = path)
                   (\<lambda>e. (fst e, (snd e)\<lparr>perm_bits := mode AND 0x1FF\<rparr>)) (sec_perms sec)\<rparr>\<rparr>)
        | None \<Rightarrow> (Ok (), st\<lparr>vs_sec := sec\<lparr>sec_perms := sec_perms sec @
                     [(path, permission_new mode uid 0)]\<rparr>\<rparr>))"

definition chown :: "vfs_state \<Rightarrow> str \<Rightarrow> u32 \<Rightarrow> u32 \<Rightarrow> unit result \<times> vfs_state" where
  "chown st path new_uid new_gid =
     (if \<not> vfs_exists st path then (Err ''security: file not found'', st)
      else
        let sec = vs_sec st; uid = current_uid sec in
        case find (\<lambda>e. fst e = path) (sec_perms sec) of
          Some entry \<Rightarrow>
            if uid \<noteq> 0 \<and> uid \<noteq> perm_owner_uid (snd entry) then (Err ''security: permission denied'', st)
            else (Ok (), st\<lparr>vs_sec := sec\<lparr>sec_perms := update_first (\<lambda>e. fst e = path)
                   (\<lambda>e. (fst e, (snd e)\<lparr>perm_owner_uid := new_uid, perm_owner_gid := new_gid\<rparr>))
                   (sec_perms sec)\<rparr>\<rparr>)
        | None \<Rightarrow>
            if uid \<noteq> 0 then (Err ''security: permission denied'', st)
            else (Ok (), st\<lparr>vs_sec := sec\<lparr>sec_perms := sec_perms sec @
                   [(path, permission_new 0x1A4 new_uid new_gid)]\<rparr>\<rparr>))"

section \<open>What they change\<close>

lemma find_update_first_key:
  assumes "\<And>e. fst (f e) = fst e"
  shows "find (\<lambda>e. fst e = q) (update_first (\<lambda>e. fst e = path) f es) =
    (if q = path then map_option f (find (\<lambda>e. fst e = q) es) else find (\<lambda>e. fst e = q) es)"
  using assms by (induction es) auto

text \<open>
  Who may change the permissions of a file, on every branch: \<^verbatim>\<open>chmod\<close> succeeds exactly
  when the path exists and the caller is root, owns the file's entry, or the file has no entry
  yet. It then sets the nine mode bits of that path and nothing else; the owner stays the
  entry's, and is the caller when there was no entry. \<^verbatim>\<open>chown\<close> succeeds in the same cases
  except the last, which it refuses to ordinary users.
\<close>

lemma chmod_chown_access:
  assumes "entry = find (\<lambda>e. fst e = path) (sec_perms (vs_sec st))"
    and "uid = current_uid (vs_sec st)"
  shows "(fst (chmod st path mode) = Ok () \<longleftrightarrow>
       vfs_exists st path \<and> (case entry of Some e \<Rightarrow> uid = 0 \<or> uid = perm_owner_uid (snd e) | None \<Rightarrow> True)) \<and>
    (fst (chmod st path mode) = Ok () \<longrightarrow>
       get_permission (vs_sec (snd (chmod st path mode))) path =
         \<lparr>perm_bits = mode AND 0x1FF,
          perm_owner_uid = (case entry of Some e \<Rightarrow> perm_owner_uid (snd e) | None \<Rightarrow> uid),
          perm_owner_gid = (case entry of Some e \<Rightarrow> perm_owner_gid (snd e) | None \<Rightarrow> 0)\<rparr> \<and>
       (\<forall>q. q \<noteq> path \<longrightarrow> get_permission (vs_sec (snd (chmod st path mode))) q = get_permission (vs_sec st) q)) \<and>
    (fst (chown st path u g) = Ok () \<longleftrightarrow>
       vfs_exists st path \<and> (uid = 0 \<or> (\<exists>e. entry = Some e \<and> uid = perm_owner_uid (snd e)))) \<and>
    (fst (chown st path u g) = Ok () \<longrightarrow>
       get_permission (vs_sec (snd (chown st path u g))) path =
         (get_permission (vs_sec st) path)\<lparr>perm_owner_uid := u, perm_owner_gid := g\<rparr>)"
proof (cases "vfs_exists st path")
  case True
  show ?thesis
  proof (cases entry)
    case None
    then show ?thesis using True assms
      by (auto simp: chmod_def chown_def Let_def get_permission_def find_append permission_new_def
          default_file_def split: option.split)
  next
    case (Some e)
    then show ?thesis using True assms
      by (auto simp: chmod_def chown_def Let_def get_permission_def find_update_first_key split: option.split)
  qed
qed (simp add: chmod_def chown_def)

lemma chmod_chown_access_instance:
  "(fst (chmod boot_state ''/tmp'' 0x1FF) = Ok () \<longleftrightarrow>
       vfs_exists boot_state ''/tmp'' \<and>
       (case find (\<lambda>e. fst e = ''/tmp'') (sec_perms (vs_sec boot_state)) of
          Some e \<Rightarrow> current_uid (vs_sec boot_state) = 0 \<or> current_uid (vs_sec boot_state) = perm_owner_uid (snd e)
        | None \<Rightarrow> True))"
  by (rule chmod_chown_access [OF refl refl, of boot_state "''/tmp''" "0x1FF" 0 0, THEN conjunct1])

text \<open>The caller an ordinary user: the file system of \<open>boot_state\<close> with \<^verbatim>\<open>user\<close> logged in.\<close>

definition user_state :: vfs_state where
  "user_state = boot_state\<lparr>vs_sec := snd (su (vs_sec boot_state) ''user'' None)\<rparr>"

text \<open>
  A file no one has called \<^verbatim>\<open>chmod\<close> or \<^verbatim>\<open>chown\<close> on belongs to root and its write is
  denied to an ordinary user; the same user's \<^verbatim>\<open>chmod\<close> of it succeeds, makes the user its
  owner, and the write is then allowed.
\<close>

lemma chmod_takes_ownership:
  "can_write (vs_sec user_state) ''/dev/serial'' = False \<and>
   fst (chmod user_state ''/dev/serial'' 0x1B6) = Ok () \<and>
   get_permission (vs_sec (snd (chmod user_state ''/dev/serial'' 0x1B6))) ''/dev/serial'' =
     permission_new 0x1B6 1000 0 \<and>
   can_write (vs_sec (snd (chmod user_state ''/dev/serial'' 0x1B6))) ''/dev/serial''"
  by code_simp

end
