(* ===== verification/Fd.thy ===== *)
theory Fd
  imports Vfs
begin

text \<open>
  The file descriptor table (\<^verbatim>\<open>src/fd.rs\<close>). Its operations call \<^verbatim>\<open>vfs::cat\<close>,
  \<^verbatim>\<open>vfs::write\<close> and the serial port; what they rely on is the interface
  \<open>file_store\<close>, which \<open>Vfs\<close> implements.
\<close>

section \<open>Data\<close>

definition MAX_FDS :: usize where "MAX_FDS = 32"

datatype fd_kind = VfsFile | Serial | Null

datatype fd_entry = FdFree | FdOpen (fd_path: str) (fd_kind: fd_kind) (fd_offset: usize)

type_synonym fd_table = "fd_entry list"

definition FD_TABLE_init :: fd_table where
  "FD_TABLE_init = replicate MAX_FDS FdFree"

definition is_fd_free :: "fd_entry \<Rightarrow> bool" where
  "is_fd_free e = (case e of FdFree \<Rightarrow> True | FdOpen _ _ _ \<Rightarrow> False)"

section \<open>Operations\<close>

definition fd_kind_of :: "str \<Rightarrow> fd_kind" where
  "fd_kind_of path =
     (if path = ''/dev/null'' then Null else if path = ''/dev/serial'' then Serial else VfsFile)"

definition fd_open :: "fd_table \<Rightarrow> str \<Rightarrow> usize result \<times> fd_table" where
  "fd_open table path =
     (case find (\<lambda>i. is_fd_free (table ! i)) [3..<MAX_FDS] of
        Some i \<Rightarrow> (Ok i, table[i := FdOpen path (fd_kind_of path) 0])
      | None \<Rightarrow> (Err ''too many open files'', table))"

definition fd_close :: "fd_table \<Rightarrow> usize \<Rightarrow> unit result \<times> fd_table" where
  "fd_close table fd =
     (if fd \<ge> MAX_FDS then (Err ''invalid fd'', table)
      else if is_fd_free (table ! fd) then (Err ''fd not open'', table)
      else (Ok (), table[fd := FdFree]))"

text \<open>
  \<^verbatim>\<open>read\<close> returns the number of bytes and the caller's buffer as it leaves it; the calls
  into the store are the first parameter, the store the state they work on.
\<close>

definition fd_read :: "('s \<Rightarrow> str \<Rightarrow> str result \<times> 's) \<Rightarrow> fd_table \<Rightarrow> 's \<Rightarrow> usize \<Rightarrow> u8 list
    \<Rightarrow> (usize result \<times> u8 list) \<times> 's" where
  "fd_read vcat table s fd buf =
     (if fd \<ge> MAX_FDS then ((Err ''invalid fd'', buf), s)
      else case table ! fd of
        FdFree \<Rightarrow> ((Err ''fd not open'', buf), s)
      | FdOpen path kind _ \<Rightarrow>
          (case kind of
             Null \<Rightarrow> ((Ok 0, buf), s)
           | Serial \<Rightarrow> ((Ok 0, buf), s)
           | VfsFile \<Rightarrow>
               (case vcat s path of
                  (Inr content, s1) \<Rightarrow>
                    let bytes = as_bytes content; to_copy = min (length buf) (length bytes)
                    in ((Ok to_copy, take to_copy bytes @ drop to_copy buf), s1)
                | (Inl e, s1) \<Rightarrow> ((Err e, buf), s1))))"

definition fd_write :: "('s \<Rightarrow> str \<Rightarrow> str \<Rightarrow> unit result \<times> 's) \<Rightarrow> ('s \<Rightarrow> str \<Rightarrow> 's)
    \<Rightarrow> fd_table \<Rightarrow> 's \<Rightarrow> usize \<Rightarrow> u8 list \<Rightarrow> usize result \<times> 's" where
  "fd_write vwrite println table s fd data =
     (if fd \<ge> MAX_FDS then (Err ''invalid fd'', s)
      else case table ! fd of
        FdFree \<Rightarrow> (Err ''fd not open'', s)
      | FdOpen path kind _ \<Rightarrow>
          (case kind of
             Null \<Rightarrow> (Ok (length data), s)
           | Serial \<Rightarrow> (Ok (length data), case from_utf8 data of Some t \<Rightarrow> println s t | None \<Rightarrow> s)
           | VfsFile \<Rightarrow>
               (case from_utf8 data of
                  Some t \<Rightarrow>
                    (case vwrite s path t of
                       (Inl e, s1) \<Rightarrow> (Err e, s1)
                     | (Inr _, s1) \<Rightarrow> (Ok (length data), s1))
                | None \<Rightarrow> (Ok (length data), s))))"

definition fd_kind_str :: "fd_kind \<Rightarrow> str" where
  "fd_kind_str kind = (case kind of VfsFile \<Rightarrow> ''file'' | Serial \<Rightarrow> ''serial'' | Null \<Rightarrow> ''null'')"

definition list_open :: "fd_table \<Rightarrow> (usize \<times> str \<times> str) list" where
  "list_open table =
     concat (map (\<lambda>(i, e). case e of FdOpen path kind _ \<Rightarrow> [(i, path, fd_kind_str kind)] | FdFree \<Rightarrow> [])
       (enumerate 0 table))"

definition fd_init :: "fd_table \<Rightarrow> fd_table" where
  "fd_init table =
     (let e = FdOpen ''/dev/serial'' Serial 0 in table[0 := e, 1 := e, 2 := e])"

text \<open>The calls as the kernel makes them.\<close>

definition serial_println :: "vfs_state \<Rightarrow> str \<Rightarrow> vfs_state" where
  "serial_println st t = st\<lparr>vs_serial := vs_serial st @ [t]\<rparr>"

abbreviation sys_read :: "proc_env \<Rightarrow> fd_table \<Rightarrow> vfs_state \<Rightarrow> usize \<Rightarrow> u8 list
    \<Rightarrow> (usize result \<times> u8 list) \<times> vfs_state" where
  "sys_read env \<equiv> fd_read (cat env)"

abbreviation sys_write :: "fd_table \<Rightarrow> vfs_state \<Rightarrow> usize \<Rightarrow> u8 list \<Rightarrow> usize result \<times> vfs_state" where
  "sys_write \<equiv> fd_write vfs_write serial_println"

section \<open>What the table promises\<close>

lemma find_from: "find P [k..<n] = Some i \<longleftrightarrow> k \<le> i \<and> i < n \<and> P i \<and> (\<forall>j. k \<le> j \<and> j < i \<longrightarrow> \<not> P j)"
proof
  assume "find P [k..<n] = Some i"
  then obtain m where m: "m < n - k" "P (k + m)" "i = k + m" "\<forall>j < m. \<not> P (k + j)"
    by (auto simp: find_Some_iff)
  have "\<not> P j" if "k \<le> j" "j < k + m" for j
    using m(4) that by (metis add_diff_inverse_nat add_less_cancel_left not_le)
  then show "k \<le> i \<and> i < n \<and> P i \<and> (\<forall>j. k \<le> j \<and> j < i \<longrightarrow> \<not> P j)" using m by auto
next
  assume a: "k \<le> i \<and> i < n \<and> P i \<and> (\<forall>j. k \<le> j \<and> j < i \<longrightarrow> \<not> P j)"
  then show "find P [k..<n] = Some i"
    unfolding find_Some_iff by (intro exI [of _ "i - k"]) auto
qed

lemma find_from_None: "find P [k..<n] = None \<longleftrightarrow> (\<forall>j. k \<le> j \<and> j < n \<longrightarrow> \<not> P j)"
  by (auto simp: find_None_iff)

lemma is_fd_free_iff: "is_fd_free e \<longleftrightarrow> e = FdFree"
  by (cases e) (auto simp: is_fd_free_def)

lemma fd_open_Ok:
  assumes "length table = MAX_FDS" and "fd_open table path = (Ok fd, table')"
  shows "3 \<le> fd" and "fd < MAX_FDS" and "table ! fd = FdFree"
    and "\<forall>j. 3 \<le> j \<and> j < fd \<longrightarrow> table ! j \<noteq> FdFree"
    and "table' = table[fd := FdOpen path (fd_kind_of path) 0]" and "fd_close table' fd = (Ok (), table)"
proof -
  have f: "find (\<lambda>i. is_fd_free (table ! i)) [3..<MAX_FDS] = Some fd"
      "table' = table[fd := FdOpen path (fd_kind_of path) 0]"
    using assms(2) by (auto simp: fd_open_def split: option.splits)
  then show fd: "3 \<le> fd" "fd < MAX_FDS" "table ! fd = FdFree"
    "\<forall>j. 3 \<le> j \<and> j < fd \<longrightarrow> table ! j \<noteq> FdFree"
    by (auto simp: find_from is_fd_free_iff)
  show "table' = table[fd := FdOpen path (fd_kind_of path) 0]" by (rule f(2))
  show "fd_close table' fd = (Ok (), table)"
    using fd(2, 3) assms(1) f(2) by (simp add: fd_close_def is_fd_free_def list_update_same_conv)
qed

lemma fd_open_Err: "fd_open table path = (Inl e, table') \<Longrightarrow> table' = table"
  by (auto simp: fd_open_def split: option.splits)

text \<open>
  \<^verbatim>\<open>open\<close> returns the lowest free descriptor from 3 up, changes no other entry, and
  fails only when descriptors 3 to 31 are all taken; closing the descriptor gives the table
  back as it was.
\<close>

lemma fd_open_close:
  assumes "length table = MAX_FDS"
  shows "case fd_open table path of
      (Inr fd, table') \<Rightarrow> 3 \<le> fd \<and> fd < MAX_FDS \<and> table ! fd = FdFree \<and>
         (\<forall>j. 3 \<le> j \<and> j < fd \<longrightarrow> table ! j \<noteq> FdFree) \<and>
         table' = table[fd := FdOpen path (fd_kind_of path) 0] \<and> fd_close table' fd = (Ok (), table)
    | (Inl e, table') \<Rightarrow> table' = table \<and> (\<forall>j. 3 \<le> j \<and> j < MAX_FDS \<longrightarrow> table ! j \<noteq> FdFree)"
proof (cases "find (\<lambda>i. is_fd_free (table ! i)) [3..<MAX_FDS]")
  case None
  then have "\<forall>j. 3 \<le> j \<and> j < MAX_FDS \<longrightarrow> table ! j \<noteq> FdFree"
    by (auto simp: find_from_None is_fd_free_iff)
  then show ?thesis using None by (simp add: fd_open_def)
next
  case (Some fd)
  then have "fd_open table path = (Ok fd, table[fd := FdOpen path (fd_kind_of path) 0])"
    by (simp add: fd_open_def)
  from fd_open_Ok [OF assms this] this show ?thesis by simp
qed

lemma fd_open_close_instance:
  "case fd_open (fd_init FD_TABLE_init) ''/tmp/a'' of
      (Inr fd, table') \<Rightarrow> 3 \<le> fd \<and> fd < MAX_FDS \<and> fd_init FD_TABLE_init ! fd = FdFree \<and>
         (\<forall>j. 3 \<le> j \<and> j < fd \<longrightarrow> fd_init FD_TABLE_init ! j \<noteq> FdFree) \<and>
         table' = (fd_init FD_TABLE_init)[fd := FdOpen ''/tmp/a'' (fd_kind_of ''/tmp/a'') 0] \<and>
         fd_close table' fd = (Ok (), fd_init FD_TABLE_init)
    | (Inl e, table') \<Rightarrow> table' = fd_init FD_TABLE_init \<and>
         (\<forall>j. 3 \<le> j \<and> j < MAX_FDS \<longrightarrow> fd_init FD_TABLE_init ! j \<noteq> FdFree)"
  by (rule fd_open_close) code_simp

section \<open>The store below\<close>

text \<open>
  What descriptors rely on: a successful write of a string to a plain file that may be read
  is what the next read returns, reads change nothing, and printing touches no file.
\<close>

locale file_store =
  fixes ok :: "'s \<Rightarrow> bool"
    and plain :: "'s \<Rightarrow> str \<Rightarrow> bool"
    and fread :: "'s \<Rightarrow> str \<Rightarrow> str result \<times> 's"
    and fwrite :: "'s \<Rightarrow> str \<Rightarrow> str \<Rightarrow> unit result \<times> 's"
    and println :: "'s \<Rightarrow> str \<Rightarrow> 's"
  assumes write_keeps: "ok s \<Longrightarrow> ok (snd (fwrite s p t))"
    and write_plain: "ok s \<Longrightarrow> plain s p \<Longrightarrow> fst (fwrite s p t) = Ok () \<Longrightarrow> plain (snd (fwrite s p t)) p"
    and read_write: "ok s \<Longrightarrow> plain s p \<Longrightarrow> fst (fwrite s p t) = Ok () \<Longrightarrow> utf8_valid (as_bytes t) \<Longrightarrow>
      fread (snd (fwrite s p t)) p = (Ok t, snd (fwrite s p t))"
    and println_keeps: "ok s \<Longrightarrow> ok (println s t)"
    and println_read: "plain s p \<Longrightarrow> fread (println s t) p = (fst (fread s p), println s t)"
begin

lemma fd_write_keeps: "ok s \<Longrightarrow> ok (snd (fd_write fwrite println table s fd data))"
proof -
  assume s: "ok s"
  have "ok s1" if "fwrite s p t = (r, s1)" for p t r s1
    using write_keeps [OF s, of p t] that by simp
  then show ?thesis
    using s println_keeps
    by (auto simp: fd_write_def Let_def split: fd_entry.split fd_kind.split option.split sum.split prod.split)
qed

lemma fd_write_Ok:
  assumes "fd < MAX_FDS" and "table ! fd = FdOpen path VfsFile off" and "utf8_valid data"
    and "fd_write fwrite println table s fd data = (Ok n, s1)"
  shows "n = length data" and "fst (fwrite s path (from_bytes data)) = Ok ()"
    and "s1 = snd (fwrite s path (from_bytes data))"
  using assms by (auto simp: fd_write_def from_utf8_def split: prod.splits sum.splits)

lemma read_back:
  assumes "ok s" and "fd < MAX_FDS" and "table ! fd = FdOpen path VfsFile off" and "plain s path"
    and "utf8_valid data" and "fd_write fwrite println table s fd data = (Ok n, s1)"
  shows "fd_read fread table s1 fd buf =
    ((Ok (min (length buf) (length data)),
      take (length buf) data @ drop (length data) buf), s1)"
proof -
  note w = fd_write_Ok [OF assms(2, 3, 5, 6)]
  have "fread s1 path = (Ok (from_bytes data), s1)"
    using read_write [OF assms(1, 4) w(2)] assms(5) w(3) by simp
  then show ?thesis using assms(2, 3) by (auto simp: fd_read_def Let_def min_def)
qed

end

text \<open>The file system is such a store.\<close>

definition plain_file :: "vfs_state \<Rightarrow> str \<Rightarrow> bool" where
  "plain_file st path \<longleftrightarrow> can_read (vs_sec st) path \<and>
     (case vs_fs st of
        None \<Rightarrow> False
      | Some fs \<Rightarrow> (case resolve fs path of
           Some i \<Rightarrow> in_type (fs_inodes fs ! i) = RegularFile | None \<Rightarrow> True))"

lemma vfs_write_sec [simp]: "vs_sec (snd (vfs_write st path data)) = vs_sec st"
  by (auto simp: vfs_write_def audit_def split: option.split sum.split prod.split)

lemma plain_after_write:
  assumes "vfs_ok st" and "plain_file st path" and "fst (vfs_write st path data) = Ok ()"
  shows "plain_file (snd (vfs_write st path data)) path"
proof -
  obtain fs where fs: "vs_fs st = Some fs" "fs_ok fs" using assms(1) by (auto simp: vfs_ok_def)
  have w: "vfs_write st path data = (Ok (), snd (vfs_write st path data))"
    using assms(3) by (metis prod.collapse)
  have reg: "case resolve fs path of Some i \<Rightarrow> in_type (fs_inodes fs ! i) = RegularFile | None \<Rightarrow> True"
    using assms(2) fs by (simp add: plain_file_def)
  show ?thesis
    using assms(2) by (rule_tac vfs_write_Ok [OF fs w reg]) (simp add: plain_file_def set_data_def)
qed

interpretation vfs: file_store vfs_ok plain_file "cat env" vfs_write serial_println for env
proof
  fix s p t
  assume s: "vfs_ok s"
  show "vfs_ok (snd (vfs_write s p t))" using s by (rule vfs_write_ok)
  show "vfs_ok (serial_println s t)" using s by (simp add: vfs_ok_def serial_println_def)
  assume pl: "plain_file s p" and w: "fst (vfs_write s p t) = Ok ()"
  show "plain_file (snd (vfs_write s p t)) p" using s pl w by (rule plain_after_write)
  assume "utf8_valid (as_bytes t)"
  moreover obtain fs where "vs_fs s = Some fs" "fs_ok fs" using s by (auto simp: vfs_ok_def)
  moreover have "vfs_write s p t = (Ok (), snd (vfs_write s p t))" using w by (metis prod.collapse)
  ultimately show "cat env (snd (vfs_write s p t)) p = (Ok t, snd (vfs_write s p t))"
    using pl by (intro cat_after_write) (auto simp: plain_file_def)
next
  fix s p t
  assume "plain_file s p"
  then show "cat env (serial_println s t) p = (fst (cat env s p), serial_println s t)"
    by (auto simp: plain_file_def cat_def serial_println_def split: option.split)
qed

text \<open>
  Bytes written through a descriptor of a readable regular file (or of a path that does
  not exist yet) are what reading that descriptor returns: as many of them as the buffer
  holds, the rest of the buffer untouched. The read starts at the first byte every time: a
  second read of the descriptor returns the same bytes again, since no operation moves the
  descriptor's offset.
\<close>

lemma fd_read_back:
  assumes "vfs_ok st" and "fd < MAX_FDS" and "table ! fd = FdOpen path VfsFile off"
    and "plain_file st path" and "utf8_valid data"
    and "sys_write table st fd data = (Ok n, st1)"
  shows "n = length data \<and>
    sys_read env table st1 fd buf =
      ((Ok (min (length buf) (length data)), take (length buf) data @ drop (length data) buf), st1) \<and>
    fst (sys_read env table (snd (sys_read env table st1 fd buf)) fd buf) =
      fst (sys_read env table st1 fd buf)"
  using vfs.read_back [OF assms, of env buf] vfs.fd_write_Ok(1) [OF assms(2, 3, 5, 6)] by simp

lemma fd_read_back_instance:
  "\<forall>env. length (as_bytes ''hello'') = length (as_bytes ''hello'') \<and>
    sys_read env (snd (fd_open FD_TABLE_init ''/tmp/a''))
      (snd (sys_write (snd (fd_open FD_TABLE_init ''/tmp/a'')) boot_state 3 (as_bytes ''hello'')))
      3 [0, 0, 0] =
      ((Ok (min (length [0, 0, 0 :: u8]) (length (as_bytes ''hello''))),
        take (length [0, 0, 0 :: u8]) (as_bytes ''hello'') @ drop (length (as_bytes ''hello'')) [0, 0, 0]),
       snd (sys_write (snd (fd_open FD_TABLE_init ''/tmp/a'')) boot_state 3 (as_bytes ''hello''))) \<and>
    fst (sys_read env (snd (fd_open FD_TABLE_init ''/tmp/a''))
      (snd (sys_read env (snd (fd_open FD_TABLE_init ''/tmp/a''))
        (snd (sys_write (snd (fd_open FD_TABLE_init ''/tmp/a'')) boot_state 3 (as_bytes ''hello'')))
        3 [0, 0, 0])) 3 [0, 0, 0]) =
    fst (sys_read env (snd (fd_open FD_TABLE_init ''/tmp/a''))
      (snd (sys_write (snd (fd_open FD_TABLE_init ''/tmp/a'')) boot_state 3 (as_bytes ''hello'')))
      3 [0, 0, 0])"
proof (rule allI, rule fd_read_back)
  show "vfs_ok boot_state" by (simp add: vfs_ok_def boot_fs fs_ok_new)
  show "snd (fd_open FD_TABLE_init ''/tmp/a'') ! 3 = FdOpen ''/tmp/a'' VfsFile 0" by code_simp
  show "plain_file boot_state ''/tmp/a''" by code_simp
  show "sys_write (snd (fd_open FD_TABLE_init ''/tmp/a'')) boot_state 3 (as_bytes ''hello'') =
    (Ok (length (as_bytes ''hello'')),
     snd (sys_write (snd (fd_open FD_TABLE_init ''/tmp/a'')) boot_state 3 (as_bytes ''hello'')))"
    by (subst prod.collapse [symmetric], subst prod.inject) code_simp
qed code_simp+

end
