(* ===== verification/Pipefs.thy ===== *)
theory Pipefs
  imports Fifo Fd
begin

text \<open>
  Pipes (\<^verbatim>\<open>src/pipefs.rs\<close>): the ring buffer \<^verbatim>\<open>Pipe\<close>, the table of 16 slots, and the
  public functions, two of which also open descriptors (\<open>Fd\<close>) or write a marker file
  (\<open>Vfs\<close>). Each pipe implements the interface \<open>bounded_fifo\<close>.
\<close>

section \<open>Pipes\<close>

definition PIPE_BUF_SIZE :: usize where "PIPE_BUF_SIZE = 4096"
definition MAX_PIPES :: usize where "MAX_PIPES = 16"

record pipe =
  pp_read_buf :: "u8 list"
  pp_write_pos :: usize
  pp_read_pos :: usize
  pp_count :: usize
  pp_readers :: u8
  pp_writers :: u8
  pp_closed :: bool

definition pipe_new :: pipe where
  "pipe_new = \<lparr>pp_read_buf = replicate PIPE_BUF_SIZE 0, pp_write_pos = 0, pp_read_pos = 0,
     pp_count = 0, pp_readers = 1, pp_writers = 1, pp_closed = False\<rparr>"

definition pipe_available :: "pipe \<Rightarrow> usize" where
  "pipe_available p = pp_count p"

definition pipe_free_space :: "pipe \<Rightarrow> usize" where
  "pipe_free_space p = PIPE_BUF_SIZE - pp_count p"

text \<open>One round of the loop of \<^verbatim>\<open>Pipe::write\<close>, and of \<^verbatim>\<open>Pipe::read\<close>.\<close>

definition pipe_push :: "pipe \<Rightarrow> u8 \<Rightarrow> pipe" where
  "pipe_push p byte = p\<lparr>pp_read_buf := (pp_read_buf p)[pp_write_pos p := byte],
     pp_write_pos := (pp_write_pos p + 1) mod PIPE_BUF_SIZE, pp_count := pp_count p + 1\<rparr>"

definition pipe_pop :: "pipe \<Rightarrow> u8 \<times> pipe" where
  "pipe_pop p = (pp_read_buf p ! pp_read_pos p,
     p\<lparr>pp_read_pos := (pp_read_pos p + 1) mod PIPE_BUF_SIZE, pp_count := pp_count p - 1\<rparr>)"

definition pipe_put_bytes :: "pipe \<Rightarrow> u8 list \<Rightarrow> usize \<times> pipe" where
  "pipe_put_bytes p data =
     (if pp_closed p \<or> pp_readers p = 0 then (0, p)
      else let to_write = min (length data) (pipe_free_space p)
           in (to_write, foldl pipe_push p (take to_write data)))"

fun pipe_pop_n :: "nat \<Rightarrow> pipe \<Rightarrow> u8 list \<times> pipe" where
  "pipe_pop_n 0 p = ([], p)"
| "pipe_pop_n (Suc n) p = (let (b, p1) = pipe_pop p; (bs, p2) = pipe_pop_n n p1 in (b # bs, p2))"

text \<open>The bytes read are the first \<^verbatim>\<open>to_read\<close> of the caller's buffer.\<close>

definition pipe_get_bytes :: "pipe \<Rightarrow> usize \<Rightarrow> u8 list \<times> pipe" where
  "pipe_get_bytes p buf_len = pipe_pop_n (min buf_len (pipe_available p)) p"

definition saturating_dec :: "u8 \<Rightarrow> u8" where
  "saturating_dec n = (if n = 0 then 0 else n - 1)"

definition close_end :: "pipe \<Rightarrow> bool \<Rightarrow> pipe" where
  "close_end p is_write_end =
     (let p1 = (if is_write_end then p\<lparr>pp_writers := saturating_dec (pp_writers p)\<rparr>
                else p\<lparr>pp_readers := saturating_dec (pp_readers p)\<rparr>)
      in if pp_readers p1 = 0 \<and> pp_writers p1 = 0 then p1\<lparr>pp_closed := True\<rparr> else p1)"

section \<open>The pipe table\<close>

datatype pipe_slot = PFree | PActive pipe

type_synonym pipe_slots = "pipe_slot list"

definition pipe_table_new :: pipe_slots where
  "pipe_table_new = replicate MAX_PIPES PFree"

definition is_pipe_free :: "pipe_slot \<Rightarrow> bool" where
  "is_pipe_free s = (case s of PFree \<Rightarrow> True | PActive _ \<Rightarrow> False)"

definition pipe_alloc :: "pipe_slots \<Rightarrow> (usize \<times> pipe_slots) option" where
  "pipe_alloc slots = alloc_slot is_pipe_free (PActive pipe_new) slots"

definition pipe_get_mut :: "pipe_slots \<Rightarrow> usize \<Rightarrow> pipe option" where
  "pipe_get_mut slots pid =
     (if pid \<ge> length slots then None
      else case slots ! pid of PActive p \<Rightarrow> Some p | PFree \<Rightarrow> None)"

definition try_reclaim :: "pipe_slots \<Rightarrow> usize \<Rightarrow> pipe_slots" where
  "try_reclaim slots pid =
     (case pipe_get_mut slots pid of
        Some p \<Rightarrow> if pp_closed p then slots[pid := PFree] else slots
      | None \<Rightarrow> slots)"

text \<open>The state of the module and of the two modules it calls.\<close>

record pipefs =
  pf_table :: "pipe_slots option"
  pf_fds :: fd_table
  pf_vfs :: vfs_state

definition pipefs_init :: "pipefs \<Rightarrow> pipefs" where
  "pipefs_init st = st\<lparr>pf_table := Some pipe_table_new\<rparr>"

definition pipe_read_path :: "usize \<Rightarrow> str" where
  "pipe_read_path pid = ''/dev/pipe/'' @ show_nat pid @ ''/r''"
definition pipe_write_path :: "usize \<Rightarrow> str" where
  "pipe_write_path pid = ''/dev/pipe/'' @ show_nat pid @ ''/w''"

definition create_pipe :: "pipefs \<Rightarrow> (usize \<times> usize) result \<times> pipefs" where
  "create_pipe st =
     (case pf_table st of
        None \<Rightarrow> (Err ''pipefs not initialized'', st)
      | Some slots \<Rightarrow>
          (case pipe_alloc slots of
             None \<Rightarrow> (Err ''too many pipes'', st)
           | Some (pid, slots1) \<Rightarrow>
               let st1 = st\<lparr>pf_table := Some slots1\<rparr> in
               (case fd_open (pf_fds st1) (pipe_read_path pid) of
                  (Inl _, fds) \<Rightarrow> (Err ''cannot allocate read fd'', st1\<lparr>pf_fds := fds\<rparr>)
                | (Inr read_fd, fds) \<Rightarrow>
                    (case fd_open fds (pipe_write_path pid) of
                       (Inl e, fds1) \<Rightarrow> (Err e, st1\<lparr>pf_fds := snd (fd_close fds1 read_fd)\<rparr>)
                     | (Inr write_fd, fds1) \<Rightarrow> (Ok (read_fd, write_fd), st1\<lparr>pf_fds := fds1\<rparr>)))))"

definition pipe_write :: "pipefs \<Rightarrow> usize \<Rightarrow> u8 list \<Rightarrow> usize result \<times> pipefs" where
  "pipe_write st pid data =
     (case pf_table st of
        None \<Rightarrow> (Err ''pipefs not initialized'', st)
      | Some slots \<Rightarrow>
          (case pipe_get_mut slots pid of
             None \<Rightarrow> (Err ''invalid pipe id'', st)
           | Some p \<Rightarrow>
               if pp_readers p = 0 then (Err ''broken pipe: no readers'', st)
               else
                 let (written, p1) = pipe_put_bytes p data;
                     st1 = st\<lparr>pf_table := Some (slots[pid := PActive p1])\<rparr>
                 in if written = 0 \<and> data \<noteq> [] then (Err ''pipe full'', st1) else (Ok written, st1)))"

definition pipe_read :: "pipefs \<Rightarrow> usize \<Rightarrow> usize \<Rightarrow> u8 list result \<times> pipefs" where
  "pipe_read st pid buf_len =
     (case pf_table st of
        None \<Rightarrow> (Err ''pipefs not initialized'', st)
      | Some slots \<Rightarrow>
          (case pipe_get_mut slots pid of
             None \<Rightarrow> (Err ''invalid pipe id'', st)
           | Some p \<Rightarrow>
               let (bs, p1) = pipe_get_bytes p buf_len
               in (Ok bs, st\<lparr>pf_table := Some (slots[pid := PActive p1])\<rparr>)))"

definition close_pipe_end :: "pipefs \<Rightarrow> usize \<Rightarrow> bool \<Rightarrow> pipefs" where
  "close_pipe_end st pid is_write_end =
     (case pf_table st of
        None \<Rightarrow> st
      | Some slots \<Rightarrow>
          let slots1 = (case pipe_get_mut slots pid of
                          Some p \<Rightarrow> slots[pid := PActive (close_end p is_write_end)]
                        | None \<Rightarrow> slots)
          in st\<lparr>pf_table := Some (try_reclaim slots1 pid)\<rparr>)"

definition named_pipe :: "pipefs \<Rightarrow> str \<Rightarrow> usize result \<times> pipefs" where
  "named_pipe st path =
     (case pf_table st of
        None \<Rightarrow> (Err ''pipefs not initialized'', st)
      | Some slots \<Rightarrow>
          (case pipe_alloc slots of
             None \<Rightarrow> (Err ''too many pipes'', st)
           | Some (pid, slots1) \<Rightarrow>
               let marker = ''{fifo:pipe_id='' @ show_nat pid @ ''}'';
                   (r, vfs1) = vfs_write (pf_vfs st) path marker;
                   st1 = st\<lparr>pf_table := Some slots1, pf_vfs := vfs1\<rparr>
               in (case r of Inl e \<Rightarrow> (Err e, st1) | Inr _ \<Rightarrow> (Ok pid, st1))))"

definition pipe_list :: "pipefs \<Rightarrow> (usize \<times> usize \<times> u8 \<times> u8) list" where
  "pipe_list st =
     (case pf_table st of
        None \<Rightarrow> []
      | Some slots \<Rightarrow>
          concat (map (\<lambda>(i, slot).
              case slot of
                PActive p \<Rightarrow> if \<not> pp_closed p
                             then [(i, pipe_available p, pp_readers p, pp_writers p)] else []
              | PFree \<Rightarrow> []) (enumerate 0 slots)))"

section \<open>Each pipe is a bounded queue\<close>

definition pipe_contents :: "pipe \<Rightarrow> u8 list" where
  "pipe_contents p = ring_contents (pp_read_buf p) (pp_read_pos p) (pp_count p)"

definition pipe_ok :: "pipe \<Rightarrow> bool" where
  "pipe_ok p \<longleftrightarrow>
     ring_ok PIPE_BUF_SIZE (pp_read_buf p) (pp_read_pos p) (pp_write_pos p) (pp_count p) \<and>
     (pp_closed p \<longleftrightarrow> pp_readers p = 0 \<and> pp_writers p = 0)"

text \<open>A pipe with a reader, one byte at a time.\<close>

definition pipe_open :: "pipe \<Rightarrow> bool" where
  "pipe_open p \<longleftrightarrow> pipe_ok p \<and> pp_readers p \<noteq> 0"

definition pipe_put1 :: "pipe \<Rightarrow> u8 \<Rightarrow> bool \<times> pipe" where
  "pipe_put1 p b = (let (n, p1) = pipe_put_bytes p [b] in (n = 1, p1))"

definition pipe_get1 :: "pipe \<Rightarrow> u8 option \<times> pipe" where
  "pipe_get1 p = (case pipe_get_bytes p 1 of ([], p1) \<Rightarrow> (None, p1) | (b # _, p1) \<Rightarrow> (Some b, p1))"

lemma PIPE_BUF_SIZE_pos [simp]: "0 < PIPE_BUF_SIZE"
  by (simp add: PIPE_BUF_SIZE_def)

lemma pipe_new_ok [simp]: "pipe_ok pipe_new" "pipe_contents pipe_new = []"
  by (simp_all add: pipe_ok_def pipe_new_def ring_ok_def pipe_contents_def)

lemma length_pipe_contents [simp]: "length (pipe_contents p) = pp_count p"
  by (simp add: pipe_contents_def)

lemma pipe_push_ok:
  assumes "pipe_ok p" and "pp_count p < PIPE_BUF_SIZE"
  shows "pipe_ok (pipe_push p b)" and "pipe_contents (pipe_push p b) = pipe_contents p @ [b]"
    and "pp_readers (pipe_push p b) = pp_readers p" and "pp_closed (pipe_push p b) = pp_closed p"
    and "pp_count (pipe_push p b) = Suc (pp_count p)"
  using assms ring_write [of PIPE_BUF_SIZE "pp_read_buf p" "pp_read_pos p" "pp_write_pos p" "pp_count p" b]
  by (simp_all add: pipe_ok_def pipe_push_def pipe_contents_def)

lemma pipe_pop_ok:
  assumes "pipe_ok p" and "pipe_pop p = (b, p')" and "0 < pp_count p"
  shows "pipe_ok p'" and "pipe_contents p = b # pipe_contents p'"
    and "pp_readers p' = pp_readers p" and "pp_count p' = pp_count p - 1"
proof -
  obtain n where n: "pp_count p = Suc n" using assms(3) gr0_implies_Suc by blast
  show "pipe_ok p'" "pipe_contents p = b # pipe_contents p'"
    "pp_readers p' = pp_readers p" "pp_count p' = pp_count p - 1"
    using assms n ring_read [of PIPE_BUF_SIZE "pp_read_buf p" "pp_read_pos p" "pp_write_pos p" n]
    by (auto simp: pipe_ok_def pipe_pop_def pipe_contents_def)
qed

lemma pipe_pushes:
  assumes "pipe_ok p" and "length bs \<le> PIPE_BUF_SIZE - pp_count p"
  shows "pipe_ok (foldl pipe_push p bs) \<and> pipe_contents (foldl pipe_push p bs) = pipe_contents p @ bs \<and>
    pp_readers (foldl pipe_push p bs) = pp_readers p"
  using assms
proof (induction bs arbitrary: p)
  case (Cons b bs)
  have "pp_count p < PIPE_BUF_SIZE" using Cons.prems by simp
  note p = pipe_push_ok [OF Cons.prems(1) this, of b]
  show ?case using Cons.IH [of "pipe_push p b"] Cons.prems p by simp
qed simp

lemma pipe_pops:
  assumes "pipe_ok p" and "n \<le> pp_count p" and "pipe_pop_n n p = (bs, p')"
  shows "pipe_ok p' \<and> pipe_contents p = bs @ pipe_contents p' \<and> pp_readers p' = pp_readers p \<and>
    length bs = n"
  using assms
proof (induction n arbitrary: p bs p')
  case (Suc n)
  obtain b p1 where b: "pipe_pop p = (b, p1)" by fastforce
  obtain bs1 p2 where r: "pipe_pop_n n p1 = (bs1, p2)" by fastforce
  have "0 < pp_count p" using Suc.prems(2) by simp
  note p1 = pipe_pop_ok [OF Suc.prems(1) b this]
  show ?case using Suc.IH [OF p1(1) _ r] Suc.prems p1 b r by auto
qed simp

lemma pipe_put_bytes_ok:
  assumes "pipe_ok p" and "pipe_put_bytes p data = (n, p')"
  shows "pipe_ok p'" and "pipe_contents p' = pipe_contents p @ take n data"
    and "pp_readers p' = pp_readers p"
    and "n = (if pp_readers p = 0 then 0 else min (length data) (PIPE_BUF_SIZE - pp_count p))"
proof -
  let ?k = "min (length data) (PIPE_BUF_SIZE - pp_count p)"
  have "pp_closed p \<Longrightarrow> pp_readers p = 0" using assms(1) by (simp add: pipe_ok_def)
  then have "pp_readers p = 0 \<and> n = 0 \<and> p' = p \<or>
      pp_readers p \<noteq> 0 \<and> n = ?k \<and> p' = foldl pipe_push p (take ?k data)"
    using assms(2) by (auto simp: pipe_put_bytes_def pipe_free_space_def Let_def split: if_splits)
  then show "pipe_ok p'" and "pipe_contents p' = pipe_contents p @ take n data"
    and "pp_readers p' = pp_readers p"
    and "n = (if pp_readers p = 0 then 0 else min (length data) (PIPE_BUF_SIZE - pp_count p))"
    using pipe_pushes [OF assms(1), of "take ?k data"] assms(1) by auto
qed

lemma pipe_get_bytes_ok:
  assumes "pipe_ok p" and "pipe_get_bytes p n = (bs, p')"
  shows "pipe_ok p'" and "pipe_contents p = bs @ pipe_contents p'" and "pp_readers p' = pp_readers p"
    and "length bs = min n (pp_count p)"
  using pipe_pops [OF assms(1) _ assms(2) [unfolded pipe_get_bytes_def]]
  by (auto simp: pipe_available_def)

lemma pipe_ok_count: "pipe_ok p \<Longrightarrow> pp_count p \<le> PIPE_BUF_SIZE"
  by (simp add: pipe_ok_def ring_ok_def)

interpretation pq: bounded_fifo PIPE_BUF_SIZE pipe_open pipe_contents pipe_put1 pipe_get1
proof
  fix q :: pipe and x :: u8
  assume q: "pipe_open q"
  then have ok: "pipe_ok q" and r: "pp_readers q \<noteq> 0" by (auto simp: pipe_open_def)
  obtain n p1 where w: "pipe_put_bytes q [x] = (n, p1)" by fastforce
  note p1 = pipe_put_bytes_ok [OF ok w]
  obtain bs p2 where g: "pipe_get_bytes q 1 = (bs, p2)" by fastforce
  note p2 = pipe_get_bytes_ok [OF ok g]
  show "length (pipe_contents q) \<le> PIPE_BUF_SIZE" using pipe_ok_count [OF ok] by simp
  show "pipe_put1 q x = (False, q)" if "length (pipe_contents q) = PIPE_BUF_SIZE"
    using that by (auto simp: pipe_put1_def pipe_put_bytes_def pipe_free_space_def)
  show "fst (pipe_put1 q x)" if "length (pipe_contents q) < PIPE_BUF_SIZE"
    using that p1 r w by (simp add: pipe_put1_def)
  show "pipe_contents (snd (pipe_put1 q x)) = pipe_contents q @ [x]"
    if "length (pipe_contents q) < PIPE_BUF_SIZE"
    using that p1 r w by (simp add: pipe_put1_def)
  show "pipe_open (snd (pipe_put1 q x))" using p1 r w by (simp add: pipe_put1_def pipe_open_def)
  show "pipe_get1 q = (None, q)" if "pipe_contents q = []"
  proof -
    have "pp_count q = 0" using that length_pipe_contents [of q] by simp
    then show ?thesis by (simp add: pipe_get1_def pipe_get_bytes_def pipe_available_def)
  qed
  show "fst (pipe_get1 q) = Some (hd (pipe_contents q))" if "pipe_contents q \<noteq> []"
  proof -
    have "0 < length (pipe_contents q)" using that by blast
    then have "pp_count q \<noteq> 0" by simp
    then have "length bs = 1" using p2(4) by simp
    then show ?thesis using p2(2) g by (cases bs) (auto simp: pipe_get1_def)
  qed
  show "pipe_contents (snd (pipe_get1 q)) = tl (pipe_contents q)"
  proof (cases bs)
    case Nil
    then have "pp_count q = 0" using p2(4) by simp
    then have "pipe_contents q = []" by (simp add: pipe_contents_def)
    then show ?thesis using p2(2) g Nil by (simp add: pipe_get1_def)
  next
    case (Cons b bs')
    then have "bs' = []" using p2(4) by (simp add: min_def split: if_splits)
    then show ?thesis using p2(2) g Cons by (simp add: pipe_get1_def)
  qed
  show "pipe_open (snd (pipe_get1 q))"
    using p2 r g by (cases bs) (auto simp: pipe_get1_def pipe_open_def)
qed

section \<open>Runs over the table\<close>

datatype pipe_op = PWrite usize "u8 list" | PRead usize usize | PClose usize bool

text \<open>The bytes pipe \<open>pid\<close> accepted and the bytes it delivered in a run of calls on any pipes.\<close>

fun pipe_run :: "usize \<Rightarrow> pipefs \<Rightarrow> pipe_op list \<Rightarrow> u8 list \<times> u8 list \<times> pipefs" where
  "pipe_run pid st [] = ([], [], st)"
| "pipe_run pid st (PWrite i data # ops) =
     (let (r, st1) = pipe_write st i data; (ins, outs, st2) = pipe_run pid st1 ops
      in ((if i = pid then (case r of Inr n \<Rightarrow> take n data | Inl _ \<Rightarrow> []) else []) @ ins, outs, st2))"
| "pipe_run pid st (PRead i n # ops) =
     (let (r, st1) = pipe_read st i n; (ins, outs, st2) = pipe_run pid st1 ops
      in (ins, (if i = pid then (case r of Inr bs \<Rightarrow> bs | Inl _ \<Rightarrow> []) else []) @ outs, st2))"
| "pipe_run pid st (PClose i w # ops) = pipe_run pid (close_pipe_end st i w) ops"

definition pipe_at :: "pipefs \<Rightarrow> usize \<Rightarrow> pipe option" where
  "pipe_at st pid = Option.bind (pf_table st) (\<lambda>slots. pipe_get_mut slots pid)"

definition pipes_ok :: "pipefs \<Rightarrow> bool" where
  "pipes_ok st \<longleftrightarrow> (\<forall>pid p. pipe_at st pid = Some p \<longrightarrow> pipe_ok p)"

lemma pipe_get_mut_update:
  "pipe_get_mut (slots[i := s]) j =
     (if i = j \<and> i < length slots then (case s of PActive p \<Rightarrow> Some p | PFree \<Rightarrow> None)
      else pipe_get_mut slots j)"
  by (auto simp: pipe_get_mut_def)

lemma pipe_get_mut_bound: "pipe_get_mut slots pid = Some p \<Longrightarrow> pid < length slots"
  by (auto simp: pipe_get_mut_def split: if_splits)

lemma pipe_at_write:
  assumes "pipe_write st i data = (r, st1)" and "pipes_ok st"
  shows "pipe_at st1 j =
    (if i = j then map_option (\<lambda>p. snd (pipe_put_bytes p data)) (pipe_at st i) else pipe_at st j)"
    and "(case r of Inr n \<Rightarrow> take n data | Inl _ \<Rightarrow> []) =
      (case pipe_at st i of Some p \<Rightarrow> take (fst (pipe_put_bytes p data)) data | None \<Rightarrow> [])"
  using assms(1) pipe_put_bytes_ok(4)
  by (auto simp: pipe_write_def pipe_at_def pipe_get_mut_update pipe_put_bytes_def Let_def
      dest: pipe_get_mut_bound split: option.splits if_splits prod.splits)

lemma pipe_at_read:
  assumes "pipe_read st i n = (r, st1)"
  shows "pipe_at st1 j =
    (if i = j then map_option (\<lambda>p. snd (pipe_get_bytes p n)) (pipe_at st i) else pipe_at st j)"
    and "(case r of Inr bs \<Rightarrow> bs | Inl _ \<Rightarrow> []) =
      (case pipe_at st i of Some p \<Rightarrow> fst (pipe_get_bytes p n) | None \<Rightarrow> [])"
  using assms
  by (auto simp: pipe_read_def pipe_at_def pipe_get_mut_update Let_def
      dest: pipe_get_mut_bound split: option.splits if_splits prod.splits)

lemma pipe_at_close:
  "pipe_at (close_pipe_end st i w) j =
     (if i = j then Option.bind (pipe_at st i)
          (\<lambda>p. if pp_closed (close_end p w) then None else Some (close_end p w))
      else pipe_at st j)"
  by (auto simp: close_pipe_end_def try_reclaim_def pipe_at_def pipe_get_mut_update Let_def
      dest: pipe_get_mut_bound split: option.splits)

lemma close_end_ok:
  assumes "pipe_ok p"
  shows "pipe_ok (close_end p w)" and "pipe_contents (close_end p w) = pipe_contents p"
  using assms by (auto simp: close_end_def pipe_ok_def pipe_contents_def saturating_dec_def Let_def)

lemma pipes_ok_steps:
  assumes "pipes_ok st"
  shows "pipes_ok (snd (pipe_write st i data))" "pipes_ok (snd (pipe_read st i n))"
    "pipes_ok (close_pipe_end st i w)"
proof -
  obtain r1 st1 where 1: "pipe_write st i data = (r1, st1)" by fastforce
  obtain r2 st2 where 2: "pipe_read st i n = (r2, st2)" by fastforce
  show "pipes_ok (snd (pipe_write st i data))"
    using assms pipe_put_bytes_ok(1) unfolding pipes_ok_def 1
    by (auto simp: pipe_at_write(1) [OF 1 assms] split: if_splits) (metis prod.collapse)
  show "pipes_ok (snd (pipe_read st i n))"
    using assms pipe_get_bytes_ok(1) unfolding pipes_ok_def 2
    by (auto simp: pipe_at_read(1) [OF 2] split: if_splits) (metis prod.collapse)
  show "pipes_ok (close_pipe_end st i w)"
    using assms close_end_ok(1) unfolding pipes_ok_def
    by (auto simp: pipe_at_close split: if_splits Option.bind_splits)
qed

lemma pipe_run_none:
  "pipe_at st pid = None \<Longrightarrow> pipe_run pid st ops = (ins, outs, st') \<Longrightarrow> pipe_at st' pid = None"
proof (induction pid st ops arbitrary: ins outs rule: pipe_run.induct)
  case (2 pid st i data ops)
  then show ?case
    by (auto simp: pipe_write_def pipe_at_def pipe_get_mut_update Let_def
        split: prod.splits option.splits if_splits)
next
  case (3 pid st i n ops)
  obtain r st1 where w: "pipe_read st i n = (r, st1)" by fastforce
  have "pipe_at st1 pid = None" using pipe_at_read(1) [OF w, of pid] "3.prems"(1) by simp
  then show ?case using "3.IH" [OF w [symmetric] refl] "3.prems"(2) w by (auto split: prod.splits)
next
  case (4 pid st i w ops)
  then show ?case by (simp add: pipe_at_close)
qed simp

text \<open>
  C6. Bytes leave a pipe in the order they entered it, none lost or duplicated, whatever
  calls on this and other pipes come in between: what the pipe held, followed by what it
  accepted, is what it delivered followed by what it still holds, at most 4096 bytes.
\<close>

theorem pipe_run_fifo:
  assumes "pipes_ok st" and "pipe_at st pid = Some p"
    and "pipe_run pid st ops = (ins, outs, st')" and "pipe_at st' pid = Some p'"
  shows "pipe_contents p @ ins = outs @ pipe_contents p' \<and> length (pipe_contents p') \<le> PIPE_BUF_SIZE"
  using assms
proof (induction pid st ops arbitrary: p ins outs rule: pipe_run.induct)
  case (1 pid st)
  then show ?case using pipe_ok_count by (auto simp: pipes_ok_def)
next
  case (2 pid st i data ops)
  obtain r st1 where w: "pipe_write st i data = (r, st1)" by fastforce
  obtain ins1 outs1 where run: "pipe_run pid st1 ops = (ins1, outs1, st')"
    using "2.prems"(3) w by (auto split: prod.splits)
  have ok: "pipes_ok st1" using pipes_ok_steps(1) [OF "2.prems"(1), of i data] w by simp
  have p: "pipe_ok p" using "2.prems"(1, 2) by (auto simp: pipes_ok_def)
  note at = pipe_at_write [OF w "2.prems"(1)]
  obtain p1 where p1: "pipe_at st1 pid = Some p1"
      "pipe_contents p1 = pipe_contents p @ (if i = pid then (case r of Inr n \<Rightarrow> take n data | Inl _ \<Rightarrow> []) else [])"
    using at(1) [of pid] at(2) "2.prems"(2) pipe_put_bytes_ok(2) [OF p surjective_pairing, of data]
    by (cases "i = pid") auto
  show ?case using "2.IH" [OF w [symmetric] refl ok p1(1) run "2.prems"(4)] "2.prems"(3) w run p1(2)
    by auto
next
  case (3 pid st i n ops)
  obtain r st1 where w: "pipe_read st i n = (r, st1)" by fastforce
  obtain ins1 outs1 where run: "pipe_run pid st1 ops = (ins1, outs1, st')"
    using "3.prems"(3) w by (auto split: prod.splits)
  have ok: "pipes_ok st1" using pipes_ok_steps(2) [OF "3.prems"(1), of i n] w by simp
  have p: "pipe_ok p" using "3.prems"(1, 2) by (auto simp: pipes_ok_def)
  note at = pipe_at_read [OF w]
  obtain p1 where p1: "pipe_at st1 pid = Some p1"
      "pipe_contents p = (if i = pid then (case r of Inr bs \<Rightarrow> bs | Inl _ \<Rightarrow> []) else []) @ pipe_contents p1"
    using at(1) [of pid] at(2) "3.prems"(2) pipe_get_bytes_ok(2) [OF p surjective_pairing, of n]
    by (cases "i = pid") auto
  show ?case using "3.IH" [OF w [symmetric] refl ok p1(1) run "3.prems"(4)] "3.prems"(3) w run p1(2)
    by auto
next
  case (4 pid st i w ops)
  have run: "pipe_run pid (close_pipe_end st i w) ops = (ins, outs, st')" using "4.prems"(3) by simp
  have ok: "pipes_ok (close_pipe_end st i w)" by (rule pipes_ok_steps(3)) (rule "4.prems"(1))
  show ?case
  proof (cases "pipe_at (close_pipe_end st i w) pid")
    case None
    then show ?thesis using pipe_run_none [OF _ run] "4.prems"(4) by simp
  next
    case (Some p1)
    then have "pipe_contents p1 = pipe_contents p"
      using "4.prems"(1, 2) close_end_ok(2) by (auto simp: pipe_at_close pipes_ok_def split: if_splits)
    then show ?thesis using "4.IH" [OF ok Some _ "4.prems"(4)] "4.prems"(3) by simp
  qed
qed

definition pipefs_boot :: pipefs where
  "pipefs_boot = pipefs_init \<lparr>pf_table = None, pf_fds = fd_init FD_TABLE_init, pf_vfs = boot_state\<rparr>"

definition pipefs_one :: pipefs where
  "pipefs_one = snd (create_pipe pipefs_boot)"

lemma pipe_alloc_at:
  assumes "pf_table st = Some slots" and "pipe_alloc slots = Some (pid, slots1)"
  shows "pipe_at (st\<lparr>pf_table := Some slots1\<rparr>) j = (if j = pid then Some pipe_new else pipe_at st j)"
    and "pipe_at st pid = None"
proof -
  have a: "pid < length slots" "is_pipe_free (slots ! pid)" "slots1 = slots[pid := PActive pipe_new]"
    using alloc_slot_Some [OF assms(2) [unfolded pipe_alloc_def]] by auto
  show "pipe_at (st\<lparr>pf_table := Some slots1\<rparr>) j = (if j = pid then Some pipe_new else pipe_at st j)"
    using a assms(1) by (simp add: pipe_at_def pipe_get_mut_update)
  show "pipe_at st pid = None"
    using a assms(1) by (auto simp: pipe_at_def pipe_get_mut_def is_pipe_free_def split: pipe_slot.splits)
qed

lemma pipefs_one_at: "pipe_at pipefs_one 0 = Some pipe_new" "pipes_ok pipefs_one"
proof -
  have a: "pipe_alloc pipe_table_new = Some (0, pipe_table_new[0 := PActive pipe_new])"
    by (simp add: pipe_alloc_def alloc_slot_def pipe_table_new_def MAX_PIPES_def is_pipe_free_def
        numeral_eq_Suc)
  have one: "pf_table pipefs_one = Some (pipe_table_new[0 := PActive pipe_new])"
    by (simp add: pipefs_one_def create_pipe_def pipefs_boot_def pipefs_init_def a Let_def
        split: prod.split sum.split)
  have none: "pipe_get_mut pipe_table_new j = None" for j
    by (simp add: pipe_get_mut_def pipe_table_new_def)
  have "0 < length pipe_table_new" by (simp add: pipe_table_new_def MAX_PIPES_def)
  then show "pipe_at pipefs_one 0 = Some pipe_new" "pipes_ok pipefs_one"
    by (auto simp: pipe_at_def one pipe_get_mut_update none pipes_ok_def split: if_splits)
qed

definition sample_run :: "u8 list \<times> u8 list \<times> pipefs" where
  "sample_run = pipe_run 0 pipefs_one [PWrite 0 [1, 2, 3], PWrite 5 [9], PRead 0 2]"

theorem pipe_run_fifo_witness:
  "pipe_contents pipe_new @ fst sample_run =
     fst (snd sample_run) @ pipe_contents (the (pipe_at (snd (snd sample_run)) 0)) \<and>
   length (pipe_contents (the (pipe_at (snd (snd sample_run)) 0))) \<le> PIPE_BUF_SIZE"
proof (rule pipe_run_fifo [OF pipefs_one_at(2, 1)])
  show "pipe_run 0 pipefs_one [PWrite 0 [1, 2, 3], PWrite 5 [9], PRead 0 2] =
    (fst sample_run, fst (snd sample_run), snd (snd sample_run))" by (simp add: sample_run_def)
  obtain r st1 where 1: "pipe_write pipefs_one 0 [1, 2, 3] = (r, st1)" by fastforce
  obtain r2 st2 where 2: "pipe_write st1 5 [9] = (r2, st2)" by fastforce
  obtain r3 st3 where 3: "pipe_read st2 0 2 = (r3, st3)" by fastforce
  have "pipes_ok st1" using pipes_ok_steps(1) [OF pipefs_one_at(2), of 0 "[1, 2, 3]"] 1 by simp
  then have "pipe_at st3 0 \<noteq> None"
    by (simp add: pipe_at_read(1) [OF 3] pipe_at_write(1) [OF 2] pipe_at_write(1) [OF 1] pipefs_one_at)
  then show "pipe_at (snd (snd sample_run)) 0 = Some (the (pipe_at (snd (snd sample_run)) 0))"
    using 1 2 3 by (simp add: sample_run_def)
qed

text \<open>
  The answer of every pipe call, on each branch. A write is refused on a closed or
  unknown pipe, without readers, and on a full pipe; otherwise it takes as many of the first
  bytes as fit. A read takes what is there up to the buffer's size. Closing the last of both
  ends frees the slot, and the next pipe may use it.
\<close>

lemma pipe_call_results:
  assumes "pf_table st = Some slots" and "pipes_ok st"
  shows "fst (pipe_write st pid data) =
      (case pipe_at st pid of
         None \<Rightarrow> Err ''invalid pipe id''
       | Some p \<Rightarrow>
           if pp_readers p = 0 then Err ''broken pipe: no readers''
           else if length (pipe_contents p) = PIPE_BUF_SIZE \<and> data \<noteq> [] then Err ''pipe full''
           else Ok (min (length data) (PIPE_BUF_SIZE - length (pipe_contents p)))) \<and>
    fst (pipe_read st pid n) =
      (case pipe_at st pid of
         None \<Rightarrow> Err ''invalid pipe id''
       | Some p \<Rightarrow> Ok (take n (pipe_contents p))) \<and>
    (\<forall>p. pipe_at st pid = Some p \<and> pp_readers p = 1 \<and> pp_writers p = 1 \<longrightarrow>
       pipe_at (close_pipe_end (close_pipe_end st pid w) pid (\<not> w)) pid = None \<and>
       pipe_at (close_pipe_end st pid True) pid = Some (p\<lparr>pp_writers := 0\<rparr>))"
proof (intro conjI)
  have ok: "pipe_ok p" if "pipe_at st pid = Some p" for p using assms(2) that by (auto simp: pipes_ok_def)
  show "fst (pipe_write st pid data) =
      (case pipe_at st pid of
         None \<Rightarrow> Err ''invalid pipe id''
       | Some p \<Rightarrow>
           if pp_readers p = 0 then Err ''broken pipe: no readers''
           else if length (pipe_contents p) = PIPE_BUF_SIZE \<and> data \<noteq> [] then Err ''pipe full''
           else Ok (min (length data) (PIPE_BUF_SIZE - length (pipe_contents p))))"
  proof (cases "pipe_at st pid")
    case (Some p)
    obtain k p1 where w: "pipe_put_bytes p data = (k, p1)" by fastforce
    show ?thesis
      using Some assms(1) w pipe_put_bytes_ok(4) [OF ok [OF Some] w] pipe_ok_count [OF ok [OF Some]]
      by (auto simp: pipe_write_def pipe_at_def Let_def min_def split: if_splits)
  qed (use assms(1) in \<open>auto simp: pipe_write_def pipe_at_def\<close>)
  show "fst (pipe_read st pid n) =
      (case pipe_at st pid of None \<Rightarrow> Err ''invalid pipe id'' | Some p \<Rightarrow> Ok (take n (pipe_contents p)))"
  proof (cases "pipe_at st pid")
    case (Some p)
    obtain bs p1 where g: "pipe_get_bytes p n = (bs, p1)" by fastforce
    note b = pipe_get_bytes_ok [OF ok [OF Some] g]
    have "take n (pipe_contents p) = bs"
    proof (cases "n \<le> pp_count p")
      case True
      then show ?thesis using b(2, 4) by simp
    next
      case False
      then have "pipe_contents p1 = []"
        using arg_cong [OF b(2), of length] b(4) by (simp add: pipe_contents_def)
      then show ?thesis using b(2, 4) False by simp
    qed
    then show ?thesis using Some assms(1) g by (auto simp: pipe_read_def pipe_at_def)
  qed (use assms(1) in \<open>auto simp: pipe_read_def pipe_at_def\<close>)
  show "\<forall>p. pipe_at st pid = Some p \<and> pp_readers p = 1 \<and> pp_writers p = 1 \<longrightarrow>
       pipe_at (close_pipe_end (close_pipe_end st pid w) pid (\<not> w)) pid = None \<and>
       pipe_at (close_pipe_end st pid True) pid = Some (p\<lparr>pp_writers := 0\<rparr>)"
    using ok by (auto simp: pipe_at_close close_end_def saturating_dec_def pipe_ok_def)
qed

lemma pipe_call_results_instance:
  "fst (pipe_write pipefs_one 0 [7]) =
      (case pipe_at pipefs_one 0 of
         None \<Rightarrow> Err ''invalid pipe id''
       | Some p \<Rightarrow>
           if pp_readers p = 0 then Err ''broken pipe: no readers''
           else if length (pipe_contents p) = PIPE_BUF_SIZE \<and> [7 :: u8] \<noteq> [] then Err ''pipe full''
           else Ok (min (length [7 :: u8]) (PIPE_BUF_SIZE - length (pipe_contents p))))"
proof -
  obtain slots where "pf_table pipefs_one = Some slots"
    using pipefs_one_at(1) by (auto simp: pipe_at_def split: Option.bind_splits)
  from pipe_call_results [OF this pipefs_one_at(2), of 0 "[7]" 0 True, THEN conjunct1]
  show ?thesis .
qed

section \<open>Pipes and descriptors\<close>

text \<open>
  A pipe whose descriptors cannot both be opened stays allocated: \<^verbatim>\<open>create_pipe\<close> fails
  with an empty pipe left in the slot it took and no descriptor for it.
\<close>

lemma create_pipe_leak:
  assumes "pf_table st = Some slots" and "pipe_alloc slots = Some (pid, slots1)"
    and "length (pf_fds st) = MAX_FDS" and "create_pipe st = (Err e, st')"
  shows "pipe_at st pid = None \<and> pipe_at st' pid = Some pipe_new \<and> pf_fds st' = pf_fds st"
proof -
  have "pf_fds st' = pf_fds st \<and> pf_table st' = Some slots1"
  proof (cases "fd_open (pf_fds st) (pipe_read_path pid)")
    case (Pair r fds)
    show ?thesis
    proof (cases r)
      case (Inl e1)
      then show ?thesis using assms Pair fd_open_Err by (auto simp: create_pipe_def Let_def)
    next
      case (Inr fd)
      note o = fd_open_Ok(6) [OF assms(3) Pair [unfolded Inr]]
      obtain r2 fds2 where 2: "fd_open fds (pipe_write_path pid) = (r2, fds2)" by fastforce
      have "r2 = Inl e' \<Longrightarrow> fds2 = fds" for e' using 2 fd_open_Err by blast
      then show ?thesis using assms Pair Inr o 2
        by (cases r2) (auto simp: create_pipe_def Let_def)
    qed
  qed
  then show ?thesis
    using pipe_alloc_at [OF assms(1, 2)] by (auto simp: pipe_at_def)
qed

definition full_fds :: pipefs where
  "full_fds = pipefs_boot\<lparr>pf_fds := replicate MAX_FDS (FdOpen ''/tmp/a'' VfsFile 0)\<rparr>"

lemma create_pipe_leak_instance:
  "pipe_at full_fds 0 = None \<and> pipe_at (snd (create_pipe full_fds)) 0 = Some pipe_new \<and>
   pf_fds (snd (create_pipe full_fds)) = pf_fds full_fds"
proof (rule create_pipe_leak)
  have a: "pipe_alloc pipe_table_new = Some (0, pipe_table_new[0 := PActive pipe_new])"
    by (simp add: pipe_alloc_def alloc_slot_def pipe_table_new_def MAX_PIPES_def is_pipe_free_def
        numeral_eq_Suc)
  then show "pipe_alloc pipe_table_new = Some (0, pipe_table_new[0 := PActive pipe_new])" .
  show "pf_table full_fds = Some pipe_table_new" "length (pf_fds full_fds) = MAX_FDS"
    by (simp_all add: full_fds_def pipefs_boot_def pipefs_init_def)
  have "find (\<lambda>i. is_fd_free (replicate MAX_FDS (FdOpen ''/tmp/a'' VfsFile 0) ! i)) [3..<MAX_FDS] = None"
    by (simp add: find_None_iff is_fd_free_def)
  then show "create_pipe full_fds = (Err ''cannot allocate read fd'', snd (create_pipe full_fds))"
    by (simp add: create_pipe_def full_fds_def pipefs_boot_def pipefs_init_def a fd_open_def Let_def)
qed

text \<open>
  The descriptors \<^verbatim>\<open>create_pipe\<close> returns do not lead to the pipe: \<^verbatim>\<open>fd::write\<close> and
  \<^verbatim>\<open>fd::read\<close> treat them as files, whose paths do not exist.
\<close>

lemma pipe_fds_not_connected:
  "fst (create_pipe pipefs_boot) = Ok (3, 4) \<and>
   fst (sys_write (pf_fds pipefs_one) (pf_vfs pipefs_one) 4 [1]) = Err ''parent directory not found'' \<and>
   fst (fst (sys_read env (pf_fds pipefs_one) (pf_vfs pipefs_one) 3 [0])) = Err ''file not found''"
  by (intro conjI; code_simp)

end
