(* ===== verification/Slab.thy ===== *)
theory Slab
  imports Prelude
begin

text \<open>
  The slab allocator (\<^verbatim>\<open>src/slab.rs\<close>). A cache hands out slots of one page; its list of
  free offsets is the state. The address of the page, which the kernel heap chooses, is an
  argument of \<open>create_cache\<close>; pointers are addresses.
\<close>

section \<open>Caches\<close>

definition SLAB_SIZE :: usize where "SLAB_SIZE = 4096"
definition MAX_CACHES :: usize where "MAX_CACHES = 8"

record slab_cache =
  sc_name :: str
  sc_obj_size :: usize
  sc_allocated :: usize
  sc_freed :: usize
  sc_base :: usize
  sc_free_list :: "usize list"

text \<open>The free list is used as a stack whose top is the head of the list.\<close>

definition slab_new :: "str \<Rightarrow> usize \<Rightarrow> usize \<Rightarrow> slab_cache" where
  "slab_new name obj_size base =
     (let capacity = SLAB_SIZE div obj_size in
      \<lparr>sc_name = name, sc_obj_size = obj_size, sc_allocated = 0, sc_freed = 0, sc_base = base,
       sc_free_list = map (\<lambda>i. i * obj_size) [0..<capacity]\<rparr>)"

definition slab_alloc :: "slab_cache \<Rightarrow> usize option \<times> slab_cache" where
  "slab_alloc c =
     (case sc_free_list c of
        [] \<Rightarrow> (None, c)
      | offset # rest \<Rightarrow>
          (Some (sc_base c + offset), c\<lparr>sc_free_list := rest, sc_allocated := sc_allocated c + 1\<rparr>))"

definition slab_free :: "slab_cache \<Rightarrow> usize \<Rightarrow> bool \<times> slab_cache" where
  "slab_free c addr =
     (if addr < sc_base c \<or> addr \<ge> sc_base c + SLAB_SIZE then (False, c)
      else
        let offset = addr - sc_base c in
        if offset mod sc_obj_size c \<noteq> 0 then (False, c)
        else (True, c\<lparr>sc_free_list := offset # sc_free_list c, sc_freed := sc_freed c + 1\<rparr>))"

text \<open>The subtraction panics (here: no value) when more was freed than allocated.\<close>

definition slab_in_use :: "slab_cache \<Rightarrow> usize option" where
  "slab_in_use c =
     (if sc_freed c \<le> sc_allocated c then Some (sc_allocated c - sc_freed c) else None)"

definition slab_capacity :: "slab_cache \<Rightarrow> usize" where
  "slab_capacity c = SLAB_SIZE div sc_obj_size c"

section \<open>The table of caches\<close>

definition create_cache :: "slab_cache list \<Rightarrow> str \<Rightarrow> usize \<Rightarrow> usize \<Rightarrow> unit result \<times> slab_cache list" where
  "create_cache caches name obj_size base =
     (if length caches \<ge> MAX_CACHES then (Err ''max slab caches reached'', caches)
      else if list_ex (\<lambda>c. sc_name c = name) caches then (Err ''cache already exists'', caches)
      else
        let size = (if obj_size < 8 then 8 else obj_size)
        in (Ok (), caches @ [slab_new name size base]))"

fun cache_alloc :: "slab_cache list \<Rightarrow> str \<Rightarrow> usize option \<times> slab_cache list" where
  "cache_alloc [] name = (None, [])"
| "cache_alloc (c # cs) name =
     (if sc_name c = name then (let (r, c') = slab_alloc c in (r, c' # cs))
      else (let (r, cs') = cache_alloc cs name in (r, c # cs')))"

fun cache_free :: "slab_cache list \<Rightarrow> str \<Rightarrow> usize \<Rightarrow> bool \<times> slab_cache list" where
  "cache_free [] name ptr = (False, [])"
| "cache_free (c # cs) name ptr =
     (if sc_name c = name then (let (r, c') = slab_free c ptr in (r, c' # cs))
      else (let (r, cs') = cache_free cs name ptr in (r, c # cs')))"

definition slab_stats :: "slab_cache list \<Rightarrow> (str \<times> usize \<times> usize \<times> usize option \<times> usize \<times> usize) list" where
  "slab_stats caches =
     map (\<lambda>c. (sc_name c, sc_obj_size c, slab_capacity c, slab_in_use c, sc_allocated c, sc_freed c)) caches"

definition slab_init :: "(str \<Rightarrow> usize) \<Rightarrow> slab_cache list \<Rightarrow> slab_cache list" where
  "slab_init base cs =
     foldl (\<lambda>cs (name, size). snd (create_cache cs name size (base name))) cs
       [(''task'', 256), (''ipc_msg'', 64), (''fd'', 32), (''page_info'', 16)]"

section \<open>Clients of one cache\<close>

text \<open>
  A client that frees only what it holds: the set holds the addresses of its live objects.
\<close>

inductive slab_step :: "slab_cache \<times> usize set \<Rightarrow> slab_cache \<times> usize set \<Rightarrow> bool" where
  step_alloc: "slab_alloc c = (Some ptr, c') \<Longrightarrow> slab_step (c, live) (c', insert ptr live)"
| step_exhausted: "slab_alloc c = (None, c') \<Longrightarrow> slab_step (c, live) (c', live)"
| step_free: "ptr \<in> live \<Longrightarrow> slab_free c ptr = (r, c') \<Longrightarrow> slab_step (c, live) (c', live - {ptr})"

inductive_cases slab_stepE: "slab_step (c, live) s"

definition slab_ok :: "slab_cache \<times> usize set \<Rightarrow> bool" where
  "slab_ok = (\<lambda>(c, live).
     0 < sc_obj_size c \<and> distinct (sc_free_list c) \<and> finite live \<and>
     set (sc_free_list c) \<union> (\<lambda>p. p - sc_base c) ` live = (\<lambda>i. i * sc_obj_size c) ` {..<slab_capacity c} \<and>
     (\<forall>p \<in> live. sc_base c \<le> p \<and> p - sc_base c \<notin> set (sc_free_list c)) \<and>
     sc_allocated c = sc_freed c + card live)"

lemma slab_new_ok: "0 < obj_size \<Longrightarrow> slab_ok (slab_new name obj_size base, {})"
  by (auto simp: slab_ok_def slab_new_def slab_capacity_def Let_def distinct_map inj_on_def
      atLeast0LessThan)

lemma slot_in_page:
  assumes "off \<in> (\<lambda>i. i * sc_obj_size c) ` {..<slab_capacity c}"
  shows "off + sc_obj_size c \<le> SLAB_SIZE" and "off mod sc_obj_size c = 0"
proof -
  obtain i where i: "off = i * sc_obj_size c" "Suc i \<le> slab_capacity c"
    using assms by (metis Suc_leI imageE lessThan_iff)
  have "off + sc_obj_size c = Suc i * sc_obj_size c" using i by simp
  also have "\<dots> \<le> slab_capacity c * sc_obj_size c" using i(2) by (rule mult_le_mono1)
  also have "\<dots> \<le> SLAB_SIZE" by (simp add: slab_capacity_def)
  finally show "off + sc_obj_size c \<le> SLAB_SIZE" .
  show "off mod sc_obj_size c = 0" using i by simp
qed

lemma slab_alloc_ok:
  assumes "slab_ok (c, live)" and "slab_alloc c = (Some ptr, c')"
  shows "slab_ok (c', insert ptr live)" and "ptr \<notin> live" and "sc_base c \<le> ptr"
    and "ptr - sc_base c \<in> (\<lambda>i. i * sc_obj_size c) ` {..<slab_capacity c}"
proof -
  obtain off rest where f: "sc_free_list c = off # rest" "ptr = sc_base c + off"
      "c' = c\<lparr>sc_free_list := rest, sc_allocated := sc_allocated c + 1\<rparr>"
    using assms(2) by (auto simp: slab_alloc_def split: list.splits)
  have d: "off \<notin> set rest" "distinct rest" "ptr \<notin> live" using assms(1) f by (auto simp: slab_ok_def)
  show "ptr \<notin> live" "sc_base c \<le> ptr" using d f by auto
  show "ptr - sc_base c \<in> (\<lambda>i. i * sc_obj_size c) ` {..<slab_capacity c}"
    using assms(1) f by (auto simp: slab_ok_def)
  show "slab_ok (c', insert ptr live)"
    using assms(1) f d by (auto simp: slab_ok_def slab_capacity_def)
qed

lemma slab_free_ok:
  assumes "slab_ok (c, live)" and "ptr \<in> live" and "slab_free c ptr = (r, c')"
  shows "slab_ok (c', live - {ptr})" and "r"
proof -
  let ?off = "ptr - sc_base c"
  have b: "sc_base c \<le> ptr" "?off \<notin> set (sc_free_list c)"
      "?off \<in> (\<lambda>i. i * sc_obj_size c) ` {..<slab_capacity c}"
    using assms(1, 2) by (auto simp: slab_ok_def)
  have "?off + sc_obj_size c \<le> SLAB_SIZE" "?off mod sc_obj_size c = 0" using slot_in_page [OF b(3)] by auto
  moreover have "0 < sc_obj_size c" using assms(1) by (simp add: slab_ok_def)
  ultimately have "ptr < sc_base c + SLAB_SIZE" "?off mod sc_obj_size c = 0" using b(1) by linarith+
  then have f: "r" "c' = c\<lparr>sc_free_list := ?off # sc_free_list c, sc_freed := sc_freed c + 1\<rparr>"
    using assms(3) b(1) by (auto simp: slab_free_def Let_def)
  show r by (rule f(1))
  have inj: "p = ptr" if "p \<in> live" "p - sc_base c = ?off" for p
    using that assms(1) b(1) by (auto simp: slab_ok_def)
  have "card live > 0" using assms(1, 2) by (auto simp: slab_ok_def card_gt_0_iff)
  then show "slab_ok (c', live - {ptr})"
    using assms(1, 2) b f(2) inj by (auto simp: slab_ok_def slab_capacity_def)
qed

lemma slab_step_ok: "slab_step s s' \<Longrightarrow> slab_ok s \<Longrightarrow> slab_ok s'"
  by (induction rule: slab_step.induct)
     (auto intro: slab_alloc_ok(1) slab_free_ok(1) simp: slab_alloc_def split: list.splits)

lemma slab_step_const:
  "slab_step s s' \<Longrightarrow> sc_base (fst s') = sc_base (fst s) \<and> sc_obj_size (fst s') = sc_obj_size (fst s)"
  by (induction rule: slab_step.induct)
     (auto simp: slab_alloc_def slab_free_def Let_def split: list.splits if_splits)

lemma slab_reachable_ok:
  assumes "slab_step\<^sup>*\<^sup>* s s'" and "slab_ok s"
  shows "slab_ok s' \<and> sc_base (fst s') = sc_base (fst s) \<and> sc_obj_size (fst s') = sc_obj_size (fst s)"
  using assms by (induction rule: rtranclp_induct) (auto simp: slab_step_ok slab_step_const)

text \<open>
  Whatever a client that frees only its own objects has done with a cache, the next
  object it gets lies inside the cache's page and overlaps none of the objects it holds, and
  the cache is exhausted only when all \<^verbatim>\<open>4096 / obj_size\<close> slots are held. The usage count is
  exact.
\<close>

lemma slab_no_overlap:
  assumes "0 < sz" and "slab_step\<^sup>*\<^sup>* (slab_new name sz base, {}) (c, live)"
  shows "slab_in_use c = Some (card live) \<and>
    (case slab_alloc c of
       (Some ptr, _) \<Rightarrow> base \<le> ptr \<and> ptr + sz \<le> base + SLAB_SIZE \<and>
         (\<forall>p \<in> live. p + sz \<le> ptr \<or> ptr + sz \<le> p)
     | (None, _) \<Rightarrow> card live = SLAB_SIZE div sz)"
proof -
  have ok: "slab_ok (c, live)" and s: "sc_base c = base" "sc_obj_size c = sz"
    using slab_reachable_ok [OF assms(2) slab_new_ok [OF assms(1)]]
    by (auto simp: slab_new_def Let_def)
  let ?slots = "(\<lambda>i. i * sz) ` {..<slab_capacity c}"
  have live: "p - base \<in> ?slots" "base \<le> p" if "p \<in> live" for p
    using ok that s by (auto simp: slab_ok_def)
  have disj: "p + sz \<le> q \<or> q + sz \<le> p"
    if pq: "p - base \<in> ?slots" "q - base \<in> ?slots" "base \<le> p" "base \<le> q" "p \<noteq> q" for p q
  proof -
    obtain i where i: "p - base = i * sz" using pq(1) by blast
    obtain j where j: "q - base = j * sz" using pq(2) by blast
    have ij: "p = base + i * sz" "q = base + j * sz" using i j pq(3, 4) by linarith+
    then have "i \<noteq> j" using pq(5) by auto
    then consider "Suc i \<le> j" | "Suc j \<le> i" by linarith
    then show ?thesis using ij mult_le_mono1 [of "Suc i" j sz] mult_le_mono1 [of "Suc j" i sz]
      by cases auto
  qed
  show ?thesis
  proof (cases "slab_alloc c")
    case (Pair r c')
    show ?thesis
    proof (cases r)
      case None
      then have "sc_free_list c = []" using Pair by (auto simp: slab_alloc_def split: list.splits)
      then have img: "(\<lambda>p. p - base) ` live = ?slots" using ok s by (auto simp: slab_ok_def)
      have "inj_on (\<lambda>p. p - base) live" by (rule inj_onI) (metis le_add_diff_inverse live(2))
      then have "card live = card ?slots" using img card_image by metis
      also have "\<dots> = slab_capacity c" using assms(1) by (simp add: card_image inj_on_def)
      finally show ?thesis using ok None Pair s by (simp add: slab_in_use_def slab_ok_def slab_capacity_def)
    next
      case (Some ptr)
      note a = slab_alloc_ok [OF ok Pair [unfolded Some], unfolded s]
      have "ptr - base + sz \<le> SLAB_SIZE" using slot_in_page(1) [of _ c, unfolded s] a(4) by blast
      moreover have "\<forall>p \<in> live. p + sz \<le> ptr \<or> ptr + sz \<le> p"
        using a disj live by blast
      ultimately show ?thesis using ok Some Pair a(3) by (simp add: slab_in_use_def slab_ok_def)
    qed
  qed
qed

lemma slab_no_overlap_instance:
  "slab_in_use (snd (slab_alloc (slab_new ''fd'' 32 65536))) = Some (card {65536 :: nat}) \<and>
    (case slab_alloc (snd (slab_alloc (slab_new ''fd'' 32 65536))) of
       (Some ptr, _) \<Rightarrow> 65536 \<le> ptr \<and> ptr + 32 \<le> 65536 + SLAB_SIZE \<and>
         (\<forall>p \<in> {65536}. p + 32 \<le> ptr \<or> ptr + 32 \<le> p)
     | (None, _) \<Rightarrow> card {65536 :: nat} = SLAB_SIZE div 32)"
proof (rule slab_no_overlap)
  have "slab_alloc (slab_new ''fd'' 32 65536) =
      (Some 65536, snd (slab_alloc (slab_new ''fd'' 32 65536)))"
    by (simp add: slab_alloc_def slab_new_def SLAB_SIZE_def upt_conv_Cons Let_def)
  then show "slab_step\<^sup>*\<^sup>* (slab_new ''fd'' 32 65536, {})
      (snd (slab_alloc (slab_new ''fd'' 32 65536)), {65536})"
    using step_alloc by blast
qed simp

text \<open>
  The cache does not notice a pointer freed twice: the second \<^verbatim>\<open>free\<close> also succeeds, the
  next two allocations return that same address, and the usage count is then out of range.
\<close>

lemma slab_double_free:
  assumes "slab_free c ptr = (True, c1)"
  shows "fst (slab_free c1 ptr) \<and>
    fst (slab_alloc (snd (slab_free c1 ptr))) = Some ptr \<and>
    fst (slab_alloc (snd (slab_alloc (snd (slab_free c1 ptr))))) = Some ptr \<and>
    (slab_in_use c = Some 1 \<longrightarrow> slab_in_use (snd (slab_free c1 ptr)) = None)"
  using assms
  by (auto simp: slab_free_def slab_alloc_def slab_in_use_def Let_def split: if_splits)

lemma slab_double_free_instance:
  "fst (slab_free (snd (slab_free (slab_new ''fd'' 32 0) 64)) 64) \<and>
    fst (slab_alloc (snd (slab_free (snd (slab_free (slab_new ''fd'' 32 0) 64)) 64))) = Some 64 \<and>
    fst (slab_alloc (snd (slab_alloc (snd (slab_free (snd (slab_free (slab_new ''fd'' 32 0) 64)) 64))))) =
      Some 64 \<and>
    (slab_in_use (slab_new ''fd'' 32 0) = Some 1 \<longrightarrow>
       slab_in_use (snd (slab_free (snd (slab_free (slab_new ''fd'' 32 0) 64)) 64)) = None)"
  by (rule slab_double_free)
     (simp add: slab_free_def slab_new_def SLAB_SIZE_def Let_def)

end
