(* ===== verification/Memory.thy ===== *)
theory Memory
  imports Prelude
begin

text \<open>
  Physical frames (\<^verbatim>\<open>src/memory.rs\<close>): the boot memory map, the frame allocator that walks
  it, the statistics, and the functions that draw frames for page tables. The \<^verbatim>\<open>x86_64\<close>
  crate's \<^verbatim>\<open>map_to\<close> and \<^verbatim>\<open>unmap\<close> are parameters. Physical addresses are natural numbers;
  \<open>map_ok\<close> says what the boot loader guarantees of its map.
\<close>

section \<open>Data\<close>

datatype region_type =
    Usable | InUse | Reserved | AcpiReclaimable | AcpiNvs | BadMemory | Kernel | KernelStack
  | PageTable | Bootloader | FrameZero | Empty | Package

record region =
  rg_start :: nat
  rg_end :: nat
  rg_type :: region_type

type_synonym memory_map = "region list"

record frame_alloc =
  fa_map :: memory_map
  fa_region :: usize
  fa_offset :: nat

record memory =
  mem_frames :: "frame_alloc option"
  mem_map :: "memory_map option"
  mem_phys_offset :: nat

section \<open>The allocator\<close>

text \<open>The loop of \<^verbatim>\<open>skip_to_usable\<close>: the first usable region from an index on.\<close>

fun skip_from :: "memory_map \<Rightarrow> usize \<Rightarrow> usize" where
  "skip_from [] i = i"
| "skip_from (r # rs) i = (if rg_type r = Usable then i else skip_from rs (Suc i))"

definition skip_to_usable :: "frame_alloc \<Rightarrow> frame_alloc" where
  "skip_to_usable fa = fa\<lparr>fa_region := skip_from (drop (fa_region fa) (fa_map fa)) (fa_region fa)\<rparr>"

definition frame_alloc_init :: "memory_map \<Rightarrow> frame_alloc" where
  "frame_alloc_init m = skip_to_usable \<lparr>fa_map = m, fa_region = 0, fa_offset = 0\<rparr>"

definition containing_address :: "nat \<Rightarrow> nat" where
  "containing_address addr = addr - addr mod 4096"

lemma skip_from_ge: "i \<le> skip_from rs i"
  by (induction rs arbitrary: i) (auto intro: Suc_leD)

function allocate_frame :: "frame_alloc \<Rightarrow> nat option \<times> frame_alloc" where
  "allocate_frame fa =
     (if fa_region fa \<ge> length (fa_map fa) then (None, fa)
      else
        let r = fa_map fa ! fa_region fa; size = rg_end r - rg_start r; addr = rg_start r + fa_offset fa in
        if fa_offset fa < size
        then (Some (containing_address addr), fa\<lparr>fa_offset := fa_offset fa + 4096\<rparr>)
        else allocate_frame (skip_to_usable (fa\<lparr>fa_region := fa_region fa + 1, fa_offset := 0\<rparr>)))"
  by pat_completeness auto
termination
proof (relation "measure (\<lambda>fa. length (fa_map fa) - fa_region fa)", goal_cases)
  case (2 fa r size addr)
  have "Suc (fa_region fa) \<le> skip_from (drop (Suc (fa_region fa)) (fa_map fa)) (Suc (fa_region fa))"
    by (rule skip_from_ge)
  then show ?case using 2 by (auto simp: skip_to_usable_def)
qed simp

declare allocate_frame.simps [simp del]

definition alloc_frame :: "memory \<Rightarrow> nat option \<times> memory" where
  "alloc_frame m =
     (case mem_frames m of
        None \<Rightarrow> (None, m)
      | Some fa \<Rightarrow> let (r, fa') = allocate_frame fa in (r, m\<lparr>mem_frames := Some fa'\<rparr>))"

definition memory_init :: "memory \<Rightarrow> nat \<Rightarrow> memory_map \<Rightarrow> memory" where
  "memory_init m off mm =
     m\<lparr>mem_phys_offset := off, mem_map := Some mm, mem_frames := Some (frame_alloc_init mm)\<rparr>"

definition phys_to_virt :: "memory \<Rightarrow> nat \<Rightarrow> nat" where
  "phys_to_virt m phys = mem_phys_offset m + phys"

section \<open>Statistics\<close>

definition rg_size :: "region \<Rightarrow> nat" where
  "rg_size r = rg_end r - rg_start r"

definition total_usable :: "memory_map \<Rightarrow> nat" where
  "total_usable m = sum_list (map rg_size (filter (\<lambda>r. rg_type r = Usable) m))"

text \<open>The counting loop of \<^verbatim>\<open>stats\<close>, from region \<open>i\<close> on.\<close>

fun count_allocated :: "memory_map \<Rightarrow> usize \<Rightarrow> usize \<Rightarrow> nat \<Rightarrow> nat" where
  "count_allocated [] i region off = 0"
| "count_allocated (r # rs) i region off =
     (if rg_type r \<noteq> Usable then count_allocated rs (Suc i) region off
      else if i < region then rg_size r div 4096 + count_allocated rs (Suc i) region off
      else if i = region then off div 4096
      else count_allocated rs (Suc i) region off)"

definition memory_stats :: "memory \<Rightarrow> nat \<times> nat \<times> usize" where
  "memory_stats m =
     (let (usable, regions) = (case mem_map m of Some mm \<Rightarrow> (total_usable mm, length mm) | None \<Rightarrow> (0, 0));
          allocated = (case mem_frames m of
                         Some fa \<Rightarrow> count_allocated (fa_map fa) 0 (fa_region fa) (fa_offset fa)
                       | None \<Rightarrow> 0)
      in (usable, allocated, regions))"

definition region_kind :: "region_type \<Rightarrow> str option" where
  "region_kind t =
     (case t of
        Usable \<Rightarrow> Some ''usable'' | InUse \<Rightarrow> Some ''in use'' | Reserved \<Rightarrow> Some ''reserved''
      | AcpiReclaimable \<Rightarrow> Some ''ACPI'' | AcpiNvs \<Rightarrow> Some ''ACPI NVS'' | BadMemory \<Rightarrow> Some ''bad''
      | Kernel \<Rightarrow> Some ''kernel'' | KernelStack \<Rightarrow> Some ''kstack'' | PageTable \<Rightarrow> Some ''pagetbl''
      | Bootloader \<Rightarrow> Some ''bootldr'' | FrameZero \<Rightarrow> Some ''frame0'' | Empty \<Rightarrow> None
      | Package \<Rightarrow> Some ''other'')"

definition memory_map_info :: "memory \<Rightarrow> (nat \<times> nat \<times> str \<times> nat) list" where
  "memory_map_info m =
     (case mem_map m of
        None \<Rightarrow> []
      | Some mm \<Rightarrow> concat (map (\<lambda>r. case region_kind (rg_type r) of
            None \<Rightarrow> [] | Some k \<Rightarrow> [(rg_start r, rg_end r, k, rg_size r div 1024)]) mm))"

section \<open>Frames for page tables\<close>

record prealloc =
  pa_frames :: "nat option list"
  pa_next :: usize

function prealloc_frame :: "prealloc \<Rightarrow> nat option \<times> prealloc" where
  "prealloc_frame p =
     (if pa_next p < 3 then
        (case nth_default None (pa_frames p) (pa_next p) of
           Some f \<Rightarrow> (Some f, p\<lparr>pa_next := pa_next p + 1\<rparr>)
         | None \<Rightarrow> prealloc_frame (p\<lparr>pa_next := pa_next p + 1\<rparr>))
      else (None, p))"
  by pat_completeness auto
termination by (relation "measure (\<lambda>p. 3 - pa_next p)") auto

declare prealloc_frame.simps [simp del]

datatype map_result = Mapped | AlreadyMapped | MapFailed

text \<open>
  \<^verbatim>\<open>map_to\<close> and \<^verbatim>\<open>unmap\<close> work on the page tables \<open>'m\<close>; the first may take frames from the
  three set aside for it.
\<close>

definition map_page_global ::
  "('m \<Rightarrow> nat \<Rightarrow> nat \<Rightarrow> u64 \<Rightarrow> prealloc \<Rightarrow> map_result \<times> 'm \<times> prealloc) \<Rightarrow> ('m \<Rightarrow> nat \<Rightarrow> nat option \<times> 'm)
    \<Rightarrow> memory \<Rightarrow> 'm \<Rightarrow> nat \<Rightarrow> u64 \<Rightarrow> nat option \<times> memory \<times> 'm" where
  "map_page_global map_to unmap m pt page flags =
     (case alloc_frame m of
        (None, m1) \<Rightarrow> (None, m1, pt)
      | (Some frame, m1) \<Rightarrow>
          let (extra1, m2) = alloc_frame m1; (extra2, m3) = alloc_frame m2; (extra3, m4) = alloc_frame m3;
              pre = \<lparr>pa_frames = [extra1, extra2, extra3], pa_next = 0\<rparr>
          in (case map_to pt page frame flags pre of
                (Mapped, pt1, _) \<Rightarrow> (Some frame, m4, pt1)
              | (AlreadyMapped, pt1, pre1) \<Rightarrow>
                  (case unmap pt1 page of
                     (Some existing, pt2) \<Rightarrow>
                       (case map_to pt2 page existing flags pre1 of
                          (Mapped, pt3, _) \<Rightarrow> (Some existing, m4, pt3)
                        | (_, pt3, _) \<Rightarrow> (None, m4, pt3))
                   | (None, pt2) \<Rightarrow> (None, m4, pt2))
              | (MapFailed, pt1, _) \<Rightarrow> (None, m4, pt1)))"

definition map_page ::
  "('m \<Rightarrow> memory \<Rightarrow> nat \<Rightarrow> nat \<Rightarrow> u64 \<Rightarrow> map_result \<times> 'm \<times> memory)
    \<Rightarrow> memory \<Rightarrow> 'm \<Rightarrow> nat \<Rightarrow> u64 \<Rightarrow> nat option \<times> memory \<times> 'm" where
  "map_page map_to m pt page flags =
     (case alloc_frame m of
        (None, m1) \<Rightarrow> (None, m1, pt)
      | (Some frame, m1) \<Rightarrow>
          (case map_to pt m1 page frame flags of
             (Mapped, pt1, m2) \<Rightarrow> (Some frame, m2, pt1)
           | (_, pt1, m2) \<Rightarrow> (None, m2, pt1)))"

text \<open>A page table is its 512 entries.\<close>

definition user_pml4 :: "u64 list \<Rightarrow> u64 list" where
  "user_pml4 kernel_pml4 =
     foldl (\<lambda>new i. new[i := nth_default 0 kernel_pml4 i]) (replicate 512 0) [256..<512]"

definition create_user_page_table :: "memory \<Rightarrow> u64 list \<Rightarrow> (nat \<times> u64 list) option \<times> memory" where
  "create_user_page_table m kernel_pml4 =
     (case alloc_frame m of
        (None, m1) \<Rightarrow> (None, m1)
      | (Some f, m1) \<Rightarrow> (Some (f, user_pml4 kernel_pml4), m1))"

section \<open>Frame sources\<close>

text \<open>
  What the users of physical memory rely on: the source holds a fixed sequence of frames and
  hands them out one by one, none twice.
\<close>

fun take_frames :: "('s \<Rightarrow> nat option \<times> 's) \<Rightarrow> nat \<Rightarrow> 's \<Rightarrow> nat option list \<times> 's" where
  "take_frames alloc 0 s = ([], s)"
| "take_frames alloc (Suc n) s =
     (let (r, s1) = alloc s; (rs, s2) = take_frames alloc n s1 in (r # rs, s2))"

locale frame_source =
  fixes alloc :: "'s \<Rightarrow> nat option \<times> 's"
    and rest :: "'s \<Rightarrow> nat list"
  assumes alloc_empty: "rest s = [] \<Longrightarrow> fst (alloc s) = None \<and> rest (snd (alloc s)) = []"
    and alloc_next: "rest s = f # fs \<Longrightarrow> fst (alloc s) = Some f \<and> rest (snd (alloc s)) = fs"
begin

lemma alloc_rest:
  "alloc s = (r, s') \<Longrightarrow> r = (case rest s of [] \<Rightarrow> None | f # _ \<Rightarrow> Some f) \<and> rest s' = tl (rest s)"
  using alloc_empty [of s] alloc_next [of s] by (cases "rest s") auto

lemma take_frames_rest:
  "take_frames alloc n s = (rs, s') \<Longrightarrow>
     rs = map Some (take n (rest s)) @ replicate (n - length (rest s)) None \<and> rest s' = drop n (rest s)"
proof (induction n arbitrary: s rs)
  case (Suc n)
  obtain r s1 where a: "alloc s = (r, s1)" by fastforce
  obtain rs1 where b: "take_frames alloc n s1 = (rs1, s')" "rs = r # rs1"
    using Suc.prems a by (auto split: prod.splits)
  show ?case using Suc.IH [OF b(1)] alloc_rest [OF a] b(2) by (cases "rest s") (auto simp: drop_Suc)
qed simp

lemma take_frames_some:
  assumes "take_frames alloc n s = (rs, s')"
  shows "filter (\<lambda>r. r \<noteq> None) rs = map Some (take n (rest s))"
  using take_frames_rest [OF assms] by (simp add: filter_map comp_def)

end

section \<open>The allocator is a frame source\<close>

function region_frames :: "region \<Rightarrow> nat \<Rightarrow> nat list" where
  "region_frames r off =
     (if off < rg_size r then containing_address (rg_start r + off) # region_frames r (off + 4096) else [])"
  by pat_completeness auto
termination by (relation "measure (\<lambda>(r, off). rg_size r - off)") auto

declare region_frames.simps [simp del]

definition usable_frames :: "memory_map \<Rightarrow> nat list" where
  "usable_frames m = concat (map (\<lambda>r. region_frames r 0) (filter (\<lambda>r. rg_type r = Usable) m))"

definition remaining :: "frame_alloc \<Rightarrow> nat list" where
  "remaining fa =
     (if fa_region fa \<ge> length (fa_map fa) then []
      else region_frames (fa_map fa ! fa_region fa) (fa_offset fa) @
           usable_frames (drop (Suc (fa_region fa)) (fa_map fa)))"

lemma region_frames_end: "rg_size r \<le> off \<Longrightarrow> region_frames r off = []"
  by (simp add: region_frames.simps)

lemma region_frames_next:
  "off < rg_size r \<Longrightarrow>
     region_frames r off = containing_address (rg_start r + off) # region_frames r (off + 4096)"
  by (simp add: region_frames.simps [of r off])

lemma usable_frames_Cons:
  "usable_frames (r # rs) = (if rg_type r = Usable then region_frames r 0 else []) @ usable_frames rs"
  by (simp add: usable_frames_def)

lemma usable_frames_Nil [simp]: "usable_frames [] = []"
  by (simp add: usable_frames_def)

lemma skip_from_frames:
  assumes "i \<le> length m" and "i' = skip_from (drop i m) i"
  shows "usable_frames (drop i m) =
      (if i' < length m then region_frames (m ! i') 0 @ usable_frames (drop (Suc i') m) else [])"
    and "i' < length m \<Longrightarrow> rg_type (m ! i') = Usable" and "i' \<le> length m"
proof -
  have "usable_frames (drop i m) =
      (if i' < length m then region_frames (m ! i') 0 @ usable_frames (drop (Suc i') m) else []) \<and>
      (i' < length m \<longrightarrow> rg_type (m ! i') = Usable) \<and> i' \<le> length m"
    using assms
  proof (induction "length m - i" arbitrary: i i')
    case 0
    then show ?case by simp
  next
    case (Suc n)
    then have d: "drop i m = m ! i # drop (Suc i) m" by (simp add: Cons_nth_drop_Suc)
    show ?case
    proof (cases "rg_type (m ! i) = Usable")
      case True
      then have "i' = i" "i < length m" using Suc.hyps(2) Suc.prems(2) d by auto
      then show ?thesis using True d by (simp add: usable_frames_Cons)
    next
      case False
      have "n = length m - Suc i" "Suc i \<le> length m" "i' = skip_from (drop (Suc i) m) (Suc i)"
        using Suc.hyps(2) Suc.prems(2) d False by auto
      from Suc.hyps(1) [OF this] False d show ?thesis by (simp add: usable_frames_Cons)
    qed
  qed
  then show "usable_frames (drop i m) =
      (if i' < length m then region_frames (m ! i') 0 @ usable_frames (drop (Suc i') m) else [])"
    and "i' < length m \<Longrightarrow> rg_type (m ! i') = Usable" and "i' \<le> length m" by auto
qed

lemma remaining_skip:
  assumes "fa_region fa \<le> length (fa_map fa)" and "fa_offset fa = 0"
  shows "remaining (skip_to_usable fa) = usable_frames (drop (fa_region fa) (fa_map fa))"
  using skip_from_frames(1) [OF assms(1) refl] assms(2)
  by (auto simp: remaining_def skip_to_usable_def)

lemma remaining_init: "remaining (frame_alloc_init m) = usable_frames m"
  by (simp add: frame_alloc_init_def remaining_skip)

lemma allocate_frame_remaining:
  "fst (allocate_frame fa) = (case remaining fa of [] \<Rightarrow> None | f # _ \<Rightarrow> Some f) \<and>
   remaining (snd (allocate_frame fa)) = tl (remaining fa)"
proof (induction fa rule: allocate_frame.induct)
  case (1 fa)
  show ?case
  proof (cases "fa_region fa < length (fa_map fa)")
    case True
    let ?r = "fa_map fa ! fa_region fa"
    let ?next = "skip_to_usable (fa\<lparr>fa_region := fa_region fa + 1, fa_offset := 0\<rparr>)"
    show ?thesis
    proof (cases "fa_offset fa < rg_size ?r")
      case inside: True
      then show ?thesis using True region_frames_next [OF inside]
        by (simp add: allocate_frame.simps [of fa] remaining_def rg_size_def Let_def)
    next
      case False
      have "remaining ?next = remaining fa"
        using True False remaining_skip [of "fa\<lparr>fa_region := fa_region fa + 1, fa_offset := 0\<rparr>"]
        by (simp add: remaining_def region_frames_end)
      moreover have "allocate_frame fa = allocate_frame ?next"
        using True False by (subst allocate_frame.simps) (simp add: rg_size_def Let_def)
      ultimately show ?thesis using 1 True False by (simp add: rg_size_def Let_def)
    qed
  qed (simp add: allocate_frame.simps [of fa] remaining_def)
qed

definition mem_rest :: "memory \<Rightarrow> nat list" where
  "mem_rest m = (case mem_frames m of None \<Rightarrow> [] | Some fa \<Rightarrow> remaining fa)"

interpretation frames: frame_source alloc_frame mem_rest
proof
  fix s f fs
  note a = allocate_frame_remaining
  show "mem_rest s = [] \<Longrightarrow> fst (alloc_frame s) = None \<and> mem_rest (snd (alloc_frame s)) = []"
    using a by (auto simp: mem_rest_def alloc_frame_def split: option.splits prod.splits)
       (metis fst_conv list.simps(4), metis list.sel(2) snd_conv)
  show "mem_rest s = f # fs \<Longrightarrow> fst (alloc_frame s) = Some f \<and> mem_rest (snd (alloc_frame s)) = fs"
    using a by (auto simp: mem_rest_def alloc_frame_def split: option.splits prod.splits)
       (metis fst_conv list.simps(5), metis list.sel(3) snd_conv)
qed

section \<open>What the allocator hands out\<close>

text \<open>
  What the boot loader guarantees of the map: regions are whole frames, and usable regions do
  not overlap.
\<close>

definition map_ok :: "memory_map \<Rightarrow> bool" where
  "map_ok m \<longleftrightarrow>
     list_all (\<lambda>r. rg_start r \<le> rg_end r \<and> 4096 dvd rg_start r \<and> 4096 dvd rg_end r) m \<and>
     sorted_wrt (\<lambda>a b. rg_type a = Usable \<and> rg_type b = Usable \<longrightarrow>
       rg_end a \<le> rg_start b \<or> rg_end b \<le> rg_start a) m"

definition region_ok :: "region \<Rightarrow> bool" where
  "region_ok r \<longleftrightarrow> rg_start r \<le> rg_end r \<and> 4096 dvd rg_start r \<and> 4096 dvd rg_end r"

lemma region_ok_size: "region_ok r \<Longrightarrow> 4096 dvd rg_size r"
  by (simp add: region_ok_def rg_size_def)

lemma dvd_step: "4096 dvd (a :: nat) \<Longrightarrow> 4096 dvd b \<Longrightarrow> a < b \<Longrightarrow> a + 4096 \<le> b"
  by (auto simp: dvd_def)

lemma region_frames_induct [consumes 3, case_names past inside]:
  assumes "region_ok r" and "4096 dvd off" and "off \<le> rg_size r"
    and "P (rg_size r)"
    and "\<And>off. 4096 dvd off \<Longrightarrow> off + 4096 \<le> rg_size r \<Longrightarrow> P (off + 4096) \<Longrightarrow> P off"
  shows "P off"
  using assms(2, 3)
proof (induction "rg_size r - off" arbitrary: off rule: less_induct)
  case less
  show ?case
  proof (cases "off = rg_size r")
    case False
    then have "off + 4096 \<le> rg_size r"
      using less.prems region_ok_size [OF assms(1)] by (intro dvd_step) auto
    then show ?thesis using less assms(5) by simp
  qed (use assms(4) in simp)
qed

lemma aligned_address:
  assumes "region_ok r" and "4096 dvd off"
  shows "containing_address (rg_start r + off) = rg_start r + off" and "4096 dvd rg_start r + off"
  using assms by (auto simp: region_ok_def containing_address_def)

lemma length_region_frames:
  assumes "region_ok r" and "4096 dvd off" and "off \<le> rg_size r"
  shows "off div 4096 + length (region_frames r off) = rg_size r div 4096"
  using assms
proof (induction rule: region_frames_induct)
  case (inside off)
  have "off < rg_size r" using inside.hyps(2) by linarith
  from region_frames_next [OF this]
  have "length (region_frames r off) = Suc (length (region_frames r (off + 4096)))" by (metis length_Cons)
  moreover have "(off + 4096) div 4096 = Suc (off div 4096)" by simp
  ultimately show ?case using inside.IH by linarith
qed (simp add: region_frames_end)

lemma region_frames_from:
  assumes "region_ok r" and "4096 dvd off" and "off \<le> rg_size r"
  shows "distinct (region_frames r off) \<and>
    (\<forall>f \<in> set (region_frames r off). 4096 dvd f \<and> rg_start r + off \<le> f \<and> f + 4096 \<le> rg_end r)"
  using assms
proof (induction rule: region_frames_induct)
  case (inside off)
  moreover have "rg_start r + rg_size r = rg_end r" using assms(1) by (simp add: region_ok_def rg_size_def)
  moreover have "region_frames r off = containing_address (rg_start r + off) # region_frames r (off + 4096)"
    by (rule region_frames_next) (use inside.hyps(2) in linarith)
  ultimately show ?case using aligned_address [OF assms(1) inside.hyps(1)] by auto
qed (simp add: region_frames_end)

lemma region_frames_ok:
  assumes "region_ok r" and "f \<in> set (region_frames r 0)"
  shows "f mod 4096 = 0" and "rg_start r \<le> f" and "f + 4096 \<le> rg_end r"
  using region_frames_from [OF assms(1), of 0] assms(2) by auto

lemma region_frames_distinct: "region_ok r \<Longrightarrow> distinct (region_frames r 0)"
  using region_frames_from [of r 0] by simp

lemma usable_frame_region:
  assumes "f \<in> set (usable_frames m)"
  obtains r where "r \<in> set m" and "rg_type r = Usable" and "f \<in> set (region_frames r 0)"
  using assms by (auto simp: usable_frames_def)

lemma map_ok_Cons:
  assumes "map_ok (r # m)"
  shows "map_ok m" and "region_ok r" and "r' \<in> set m \<Longrightarrow> region_ok r'"
    and "r' \<in> set m \<Longrightarrow> rg_type r = Usable \<Longrightarrow> rg_type r' = Usable \<Longrightarrow>
      rg_end r \<le> rg_start r' \<or> rg_end r' \<le> rg_start r"
  using assms by (auto simp: map_ok_def region_ok_def list_all_iff)

lemma map_ok_region: "map_ok m \<Longrightarrow> r \<in> set m \<Longrightarrow> region_ok r"
  by (auto simp: map_ok_def region_ok_def list_all_iff)

lemma usable_frames_distinct: "map_ok m \<Longrightarrow> distinct (usable_frames m)"
proof (induction m)
  case (Cons r m)
  note m = map_ok_Cons [OF Cons.prems]
  have "f \<notin> set (usable_frames m)" if f: "f \<in> set (region_frames r 0)" "rg_type r = Usable" for f
  proof
    assume "f \<in> set (usable_frames m)"
    then obtain r' where "r' \<in> set m" "rg_type r' = Usable" "f \<in> set (region_frames r' 0)"
      by (rule usable_frame_region)
    then show False
      using m(4) [of r'] f region_frames_ok [OF m(2) f(1)] region_frames_ok [OF m(3), of r' f] by auto
  qed
  then show ?case using Cons.IH m region_frames_distinct [OF m(2)]
    by (auto simp: usable_frames_Cons)
qed simp

lemma usable_frames_length: "map_ok m \<Longrightarrow> 4096 * length (usable_frames m) = total_usable m"
proof (induction m)
  case (Cons r m)
  note m = map_ok_Cons [OF Cons.prems]
  have "length (region_frames r 0) = rg_size r div 4096" using length_region_frames [OF m(2), of 0] by simp
  then have "4096 * length (region_frames r 0) = rg_size r"
    using region_ok_size [OF m(2)] by simp
  then show ?case using Cons.IH [OF m(1)] by (simp add: usable_frames_Cons total_usable_def)
qed (simp add: total_usable_def)

subsection \<open>The statistics are exact\<close>

definition fa_ok :: "memory_map \<Rightarrow> frame_alloc \<Rightarrow> bool" where
  "fa_ok m fa \<longleftrightarrow> fa_map fa = m \<and>
     (fa_region fa < length m \<longrightarrow> rg_type (m ! fa_region fa) = Usable \<and>
        4096 dvd fa_offset fa \<and> fa_offset fa \<le> rg_size (m ! fa_region fa))"

lemma fa_ok_skip:
  assumes "fa_map fa = m" and "fa_region fa \<le> length m" and "fa_offset fa = 0"
  shows "fa_ok m (skip_to_usable fa)"
  using assms skip_from_frames(2) [of "fa_region fa" m]
  by (auto simp: fa_ok_def skip_to_usable_def)

lemma allocate_frame_ok: "map_ok m \<Longrightarrow> fa_ok m fa \<Longrightarrow> fa_ok m (snd (allocate_frame fa))"
proof (induction fa rule: allocate_frame.induct)
  case (1 fa)
  show ?case
  proof (cases "fa_region fa < length m")
    case True
    let ?r = "m ! fa_region fa"
    have map: "fa_map fa = m" using "1.prems" by (simp add: fa_ok_def)
    show ?thesis
    proof (cases "fa_offset fa < rg_size ?r")
      case inside: True
      have "4096 dvd rg_size ?r" "4096 dvd fa_offset fa"
        using "1.prems" True map_ok_region region_ok_size by (auto simp: fa_ok_def)
      then have "fa_offset fa + 4096 \<le> rg_size ?r" using inside by (intro dvd_step)
      then show ?thesis using True inside "1.prems" map
        by (simp add: allocate_frame.simps [of fa] fa_ok_def rg_size_def Let_def)
    next
      case False
      have "fa_ok m (skip_to_usable (fa\<lparr>fa_region := fa_region fa + 1, fa_offset := 0\<rparr>))"
        using True map by (intro fa_ok_skip) auto
      then show ?thesis using 1 True False map
        by (subst allocate_frame.simps) (simp add: rg_size_def Let_def)
    qed
  qed (use "1.prems" in \<open>simp add: allocate_frame.simps [of fa] fa_ok_def\<close>)
qed

lemma count_allocated_rest:
  assumes "\<forall>r \<in> set rs. region_ok r" and "i \<le> region"
    and "region - i < length rs \<Longrightarrow> rg_type (rs ! (region - i)) = Usable \<and> 4096 dvd off \<and>
           off \<le> rg_size (rs ! (region - i))"
  shows "count_allocated rs i region off +
      (if region - i < length rs
       then length (region_frames (rs ! (region - i)) off) + length (usable_frames (drop (Suc (region - i)) rs))
       else 0) = length (usable_frames rs)"
  using assms
proof (induction rs arbitrary: i)
  case (Cons r rs)
  have r: "region_ok r" "length (region_frames r 0) = rg_size r div 4096"
    using Cons.prems(1) length_region_frames [of r 0] by auto
  show ?case
  proof (cases "i = region")
    case True
    then show ?thesis using Cons.prems length_region_frames [OF r(1), of off] r(2)
      by (simp add: usable_frames_Cons)
  next
    case False
    then obtain d where d: "region - i = Suc d" "region - Suc i = d" "i < region"
      using Cons.prems(2) by (metis Suc_diff_Suc le_neq_implies_less)
    then show ?thesis using Cons.IH [of "Suc i"] Cons.prems r(2) by (auto simp: usable_frames_Cons)
  qed
qed simp

lemma count_allocated_ok:
  assumes "map_ok m" and "fa_ok m fa"
  shows "count_allocated m 0 (fa_region fa) (fa_offset fa) + length (remaining fa) = length (usable_frames m)"
  using count_allocated_rest [of m 0 "fa_region fa" "fa_offset fa"] assms map_ok_region [OF assms(1)]
  by (auto simp: fa_ok_def remaining_def)

definition mem_ok :: "memory_map \<Rightarrow> memory \<Rightarrow> bool" where
  "mem_ok mm m \<longleftrightarrow> mem_map m = Some mm \<and> (\<exists>fa. mem_frames m = Some fa \<and> fa_ok mm fa)"

lemma take_frames_mem_ok:
  assumes "map_ok mm"
  shows "mem_ok mm m \<Longrightarrow> take_frames alloc_frame n m = (rs, m') \<Longrightarrow> mem_ok mm m'"
proof (induction n arbitrary: m rs)
  case (Suc n)
  have "mem_ok mm (snd (alloc_frame m))"
    using Suc.prems(1) allocate_frame_ok [OF assms]
    by (auto simp: mem_ok_def alloc_frame_def split: prod.splits) (metis snd_conv)
  then show ?case using Suc by (auto split: prod.splits)
qed simp


definition sample_map :: memory_map where
  "sample_map = [\<lparr>rg_start = 0, rg_end = 4096, rg_type = FrameZero\<rparr>,
     \<lparr>rg_start = 4096, rg_end = 8192, rg_type = Usable\<rparr>,
     \<lparr>rg_start = 8192, rg_end = 16384, rg_type = Kernel\<rparr>,
     \<lparr>rg_start = 16384, rg_end = 24576, rg_type = Usable\<rparr>]"

definition sample_mem :: memory where
  "sample_mem = memory_init \<lparr>mem_frames = None, mem_map = None, mem_phys_offset = 0\<rparr> 0 sample_map"


section \<open>Page tables\<close>

lemma user_pml4_prefix:
  "n \<le> 512 \<Longrightarrow> k \<le> n \<Longrightarrow> j < 512 \<Longrightarrow>
     foldl (\<lambda>new i. new[i := nth_default 0 kpml4 i]) (replicate 512 0) [k..<n] ! j =
       (if k \<le> j \<and> j < n then nth_default 0 kpml4 j else 0)"
proof (induction n)
  case (Suc n)
  have len: "length (foldl (\<lambda>new i. new[i := nth_default 0 kpml4 i]) xs is) = length xs" for xs "is"
    by (induction "is" arbitrary: xs) auto
  show ?case
  proof (cases "k \<le> n")
    case True
    then show ?thesis using Suc len by (auto simp: nth_list_update less_Suc_eq)
  qed (use Suc.prems in \<open>auto simp: le_Suc_eq\<close>)
qed auto

lemma user_pml4_nth:
  "i < 512 \<Longrightarrow> user_pml4 kpml4 ! i = (if 256 \<le> i then nth_default 0 kpml4 i else 0)"
  unfolding user_pml4_def by (subst user_pml4_prefix) simp_all

text \<open>
  A new address space shares exactly the kernel half: entries 256 to 511 of its top-level
  table are the kernel's and all others are empty; it costs the first free frame, and it fails
  only when there is none.
\<close>

lemma user_page_table:
  "(case create_user_page_table m kpml4 of
      (Some (f, pml4), m') \<Rightarrow> mem_rest m = f # mem_rest m' \<and>
        (\<forall>i < 512. pml4 ! i = (if 256 \<le> i then nth_default 0 kpml4 i else 0))
    | (None, m') \<Rightarrow> mem_rest m = [] \<and> mem_rest m' = [])"
proof (cases "alloc_frame m")
  case (Pair r m')
  note a = frames.alloc_rest [OF Pair]
  show ?thesis
  proof (cases "mem_rest m")
    case Nil
    then show ?thesis using a Pair by (simp add: create_user_page_table_def)
  next
    case (Cons f fs)
    then show ?thesis using a Pair user_pml4_nth by (simp add: create_user_page_table_def)
  qed
qed

lemma user_page_table_instance:
  "(case create_user_page_table sample_mem [] of
      (Some (f, pml4), m') \<Rightarrow> mem_rest sample_mem = f # mem_rest m' \<and>
        (\<forall>i < 512. pml4 ! i = (if 256 \<le> i then nth_default 0 [] i else 0))
    | (None, m') \<Rightarrow> mem_rest sample_mem = [] \<and> mem_rest m' = [])"
  by (rule user_page_table)

text \<open>
  A page fault served by \<^verbatim>\<open>map_page_global\<close> always takes four frames off the allocator
  (fewer only when fewer are left), whatever the mapper does with them: frames set aside for
  page tables that exist already, and the new frame when the page was already mapped, are not
  given back.
\<close>

lemma map_page_global_cost:
  "case map_page_global map_to unmap m pt page flags of (r, m', pt') \<Rightarrow>
     mem_rest m' = drop 4 (mem_rest m) \<and> (mem_rest m = [] \<longrightarrow> r = None)"
proof -
  obtain f m1 where 1: "alloc_frame m = (f, m1)" by fastforce
  obtain e1 m2 where 2: "alloc_frame m1 = (e1, m2)" by fastforce
  obtain e2 m3 where 3: "alloc_frame m2 = (e2, m3)" by fastforce
  obtain e3 m4 where 4: "alloc_frame m3 = (e3, m4)" by fastforce
  note r = frames.alloc_rest [OF 1] frames.alloc_rest [OF 2] frames.alloc_rest [OF 3]
    frames.alloc_rest [OF 4]
  have d: "mem_rest m4 = drop 4 (mem_rest m)" using r by (simp add: drop_Suc numeral_eq_Suc)
  show ?thesis
  proof (cases f)
    case None
    then have "mem_rest m = []" using r by (auto split: list.splits)
    then show ?thesis using None 1 r by (simp add: map_page_global_def)
  next
    case (Some fr)
    then have "mem_rest m \<noteq> []" using r by auto
    then show ?thesis using Some 1 2 3 4 d
      by (auto simp: map_page_global_def Let_def split: prod.splits option.splits map_result.splits)
  qed
qed

lemma map_page_global_cost_instance:
  "case map_page_global (\<lambda>pt page frame flags pre. (Mapped, pt, pre)) (\<lambda>pt page. (None, pt)) sample_mem () 7 0 of
     (r, m', pt') \<Rightarrow> mem_rest m' = drop 4 (mem_rest sample_mem) \<and> (mem_rest sample_mem = [] \<longrightarrow> r = None)"
  by (rule map_page_global_cost)

end
