(* ===== verification/Task.thy ===== *)
theory Task
  imports Prelude
begin

text \<open>
  Kernel tasks (\<^verbatim>\<open>src/task.rs\<close>): the table of eight slots, the index of the running task
  and the next PID. Of a task's stack the model keeps what the kernel itself writes: its
  address, the guard bytes and the initial frame. \<^verbatim>\<open>yield_now\<close> takes the stack pointer that
  the context switch saves and returns the one it loads.
\<close>

section \<open>Data\<close>

definition MAX_TASKS :: usize where "MAX_TASKS = 8"
definition TASK_STACK_SIZE :: u64 where "TASK_STACK_SIZE = 4096 * 4"
definition GUARD_SIZE :: usize where "GUARD_SIZE = 64"
definition GUARD_CANARY :: u8 where "GUARD_CANARY = 0xDE"

datatype task_state = Ready | Running | Finished

record stack =
  stk_base :: u64
  stk_guard :: "u8 list"
  stk_frame :: "u64 list"

record task =
  tk_pid :: usize
  tk_name :: str
  tk_state :: task_state
  tk_rsp :: u64
  tk_stack :: "stack option"

type_synonym task_slot = "task option"

record tasks =
  ts_slots :: "task_slot list"
  ts_current :: usize
  ts_next_pid :: usize

section \<open>Operations\<close>

definition tasks_boot :: tasks where
  "tasks_boot = \<lparr>ts_slots = replicate MAX_TASKS None, ts_current = 0, ts_next_pid = 1\<rparr>"

definition task_init :: "tasks \<Rightarrow> tasks" where
  "task_init ts = ts\<lparr>ts_slots := (ts_slots ts)[0 := Some \<lparr>tk_pid = 0, tk_name = ''kernel'',
     tk_state = Running, tk_rsp = 0, tk_stack = None\<rparr>]\<rparr>"

text \<open>
  The new stack: \<open>base\<close> is the address the heap gave it, \<open>entry\<close> and \<open>wrapper\<close> the
  addresses of the task's function and of \<^verbatim>\<open>task_wrapper\<close>.
\<close>

definition new_stack :: "u64 \<Rightarrow> u64 \<Rightarrow> u64 \<Rightarrow> stack" where
  "new_stack base entry wrapper = \<lparr>stk_base = base, stk_guard = replicate GUARD_SIZE GUARD_CANARY,
     stk_frame = [0, 0, entry, 0, 0, 0, wrapper]\<rparr>"

definition slot_reusable :: "task_slot \<Rightarrow> bool" where
  "slot_reusable s = (case s of None \<Rightarrow> True | Some t \<Rightarrow> tk_state t = Finished)"

definition spawn :: "tasks \<Rightarrow> str \<Rightarrow> u64 \<Rightarrow> u64 \<Rightarrow> u64 \<Rightarrow> usize option \<times> tasks" where
  "spawn ts name base entry wrapper =
     (let pid = ts_next_pid ts; ts1 = ts\<lparr>ts_next_pid := pid + 1\<rparr>;
          init_rsp = base + TASK_STACK_SIZE - 56 in
      case position slot_reusable (tl (ts_slots ts1)) of
        Some i \<Rightarrow>
          (Some pid, ts1\<lparr>ts_slots := (ts_slots ts1)[Suc i := Some \<lparr>tk_pid = pid, tk_name = name,
             tk_state = Ready, tk_rsp = init_rsp, tk_stack = Some (new_stack base entry wrapper)\<rparr>]\<rparr>)
      | None \<Rightarrow> (None, ts1))"

definition task_list :: "tasks \<Rightarrow> (usize \<times> str \<times> task_state) list" where
  "task_list ts =
     concat (map (\<lambda>s. case s of Some t \<Rightarrow>
         (if tk_state t \<noteq> Finished then [(tk_pid t, tk_name t, tk_state t)] else []) | None \<Rightarrow> [])
       (ts_slots ts))"

definition live_pid :: "usize \<Rightarrow> task_slot \<Rightarrow> bool" where
  "live_pid pid s = (case s of Some t \<Rightarrow> tk_pid t = pid \<and> tk_state t \<noteq> Finished | None \<Rightarrow> False)"

definition set_state :: "task_state \<Rightarrow> task_slot \<Rightarrow> task_slot" where
  "set_state st s = map_option (\<lambda>t. t\<lparr>tk_state := st\<rparr>) s"

definition task_kill :: "tasks \<Rightarrow> usize \<Rightarrow> unit result \<times> tasks" where
  "task_kill ts target_pid =
     (if target_pid = 0 then (Err ''cannot kill kernel task'', ts)
      else if list_ex (live_pid target_pid) (ts_slots ts)
      then (Ok (), ts\<lparr>ts_slots := update_first (live_pid target_pid) (set_state Finished) (ts_slots ts)\<rparr>)
      else (Err ''task not found'', ts))"

definition is_ready :: "task_slot \<Rightarrow> bool" where
  "is_ready s = (case s of Some t \<Rightarrow> tk_state t = Ready | None \<Rightarrow> False)"

fun search_ready :: "task_slot list \<Rightarrow> nat \<Rightarrow> usize \<Rightarrow> usize \<times> bool" where
  "search_ready slots 0 nxt = (nxt, False)"
| "search_ready slots (Suc n) nxt =
     (if is_ready (nth_default None slots nxt) then (nxt, True)
      else search_ready slots n ((nxt + 1) mod MAX_TASKS))"

definition yield_now :: "tasks \<Rightarrow> u64 \<Rightarrow> u64 option \<times> tasks" where
  "yield_now ts cur_rsp =
     (let current = ts_current ts;
          (nxt, found) = search_ready (ts_slots ts) MAX_TASKS ((current + 1) mod MAX_TASKS) in
      if \<not> found \<or> nxt = current then (None, ts)
      else
        let slots1 = (case nth_default None (ts_slots ts) current of
                        Some t \<Rightarrow> if tk_state t = Running
                                  then (ts_slots ts)[current := Some (t\<lparr>tk_state := Ready\<rparr>)] else ts_slots ts
                      | None \<Rightarrow> ts_slots ts);
            slots2 = slots1[nxt := set_state Running (nth_default None slots1 nxt)]
        in (case (nth_default None slots2 current, nth_default None slots2 nxt) of
              (Some old, Some new) \<Rightarrow>
                (Some (tk_rsp new), ts\<lparr>ts_slots := slots2[current := Some (old\<lparr>tk_rsp := cur_rsp\<rparr>)],
                   ts_current := nxt\<rparr>)
            | _ \<Rightarrow> (None, ts\<lparr>ts_slots := slots2\<rparr>)))"

text \<open>\<^verbatim>\<open>exit\<close> up to the switch away; with nothing else to run, it stays in the \<^verbatim>\<open>hlt\<close> loop.\<close>

definition task_exit :: "tasks \<Rightarrow> u64 \<Rightarrow> u64 option \<times> tasks" where
  "task_exit ts cur_rsp =
     yield_now (ts\<lparr>ts_slots := (ts_slots ts)[ts_current ts :=
       set_state Finished (nth_default None (ts_slots ts) (ts_current ts))]\<rparr>) cur_rsp"

definition current_pid :: "tasks \<Rightarrow> usize" where
  "current_pid ts = (case nth_default None (ts_slots ts) (ts_current ts) of Some t \<Rightarrow> tk_pid t | None \<Rightarrow> 0)"

definition check_stack_guards :: "tasks \<Rightarrow> (usize \<times> str) list" where
  "check_stack_guards ts =
     concat (map (\<lambda>s. case s of
         Some t \<Rightarrow> (case tk_stack t of
             Some stk \<Rightarrow>
               if tk_state t = Finished then []
               else if list_all (\<lambda>b. b = GUARD_CANARY) (stk_guard stk) then []
               else [(tk_pid t, tk_name t)]
           | None \<Rightarrow> [])
       | None \<Rightarrow> []) (ts_slots ts))"

definition timer_tick :: "tasks \<Rightarrow> u64 \<Rightarrow> u64 option \<times> tasks" where
  "timer_tick ts cur_rsp =
     (if list_ex (\<lambda>(i, s). i \<noteq> ts_current ts \<and> is_ready s) (enumerate 0 (ts_slots ts))
      then yield_now ts cur_rsp else (None, ts))"

section \<open>The table invariant\<close>

text \<open>
  The current slot holds the running task (or one that has just finished), and no other task
  is running; PIDs are distinct and below the next one.
\<close>

definition tasks_ok :: "tasks \<Rightarrow> bool" where
  "tasks_ok ts \<longleftrightarrow> length (ts_slots ts) = MAX_TASKS \<and> ts_current ts < MAX_TASKS \<and>
     (\<exists>t. ts_slots ts ! ts_current ts = Some t \<and> tk_state t \<noteq> Ready) \<and>
     (\<forall>i t. i < MAX_TASKS \<and> ts_slots ts ! i = Some t \<longrightarrow>
        tk_pid t < ts_next_pid ts \<and> (i \<noteq> ts_current ts \<longrightarrow> tk_state t \<noteq> Running) \<and>
        (\<forall>j u. j < MAX_TASKS \<and> ts_slots ts ! j = Some u \<and> tk_pid u = tk_pid t \<longrightarrow> j = i))"

lemma tasks_okD:
  assumes "tasks_ok ts"
  shows "length (ts_slots ts) = MAX_TASKS" and "ts_current ts < MAX_TASKS"
    and "\<exists>t. ts_slots ts ! ts_current ts = Some t \<and> tk_state t \<noteq> Ready"
    and "i < MAX_TASKS \<Longrightarrow> ts_slots ts ! i = Some t \<Longrightarrow> tk_pid t < ts_next_pid ts"
    and "i < MAX_TASKS \<Longrightarrow> ts_slots ts ! i = Some t \<Longrightarrow> i \<noteq> ts_current ts \<Longrightarrow> tk_state t \<noteq> Running"
    and "i < MAX_TASKS \<Longrightarrow> ts_slots ts ! i = Some t \<Longrightarrow> j < MAX_TASKS \<Longrightarrow> ts_slots ts ! j = Some u \<Longrightarrow>
      tk_pid u = tk_pid t \<Longrightarrow> j = i"
  using assms unfolding tasks_ok_def by blast+

lemma tasks_ok_change:
  assumes "tasks_ok ts" and "length slots = MAX_TASKS" and "cur < MAX_TASKS"
    and "\<exists>t. slots ! cur = Some t \<and> tk_state t \<noteq> Ready"
    and "\<And>i v. slots ! i = Some v \<Longrightarrow> i < MAX_TASKS \<Longrightarrow>
      \<exists>w. ts_slots ts ! i = Some w \<and> tk_pid v = tk_pid w \<and> (i \<noteq> cur \<longrightarrow> tk_state v \<noteq> Running)"
  shows "tasks_ok (ts\<lparr>ts_slots := slots, ts_current := cur\<rparr>)"
proof -
  have "tk_pid v < ts_next_pid ts \<and> (i \<noteq> cur \<longrightarrow> tk_state v \<noteq> Running) \<and>
      (\<forall>j u. j < MAX_TASKS \<and> slots ! j = Some u \<and> tk_pid u = tk_pid v \<longrightarrow> j = i)"
    if v: "i < MAX_TASKS" "slots ! i = Some v" for i v
  proof -
    obtain w where w: "ts_slots ts ! i = Some w" "tk_pid v = tk_pid w" "i \<noteq> cur \<longrightarrow> tk_state v \<noteq> Running"
      using assms(5) [OF v(2, 1)] by blast
    have "j = i" if j: "j < MAX_TASKS" "slots ! j = Some u" "tk_pid u = tk_pid v" for j u
    proof -
      obtain w' where "ts_slots ts ! j = Some w'" "tk_pid u = tk_pid w'"
        using assms(5) [OF j(2, 1)] by blast
      then show ?thesis using tasks_okD(6) [OF assms(1) v(1) w(1) j(1)] w(2) j(3) by simp
    qed
    then show ?thesis using tasks_okD(4) [OF assms(1) v(1) w(1)] w(2, 3) by auto
  qed
  then have "\<forall>i v. i < MAX_TASKS \<and> slots ! i = Some v \<longrightarrow>
      tk_pid v < ts_next_pid ts \<and> (i \<noteq> cur \<longrightarrow> tk_state v \<noteq> Running) \<and>
      (\<forall>j u. j < MAX_TASKS \<and> slots ! j = Some u \<and> tk_pid u = tk_pid v \<longrightarrow> j = i)" by blast
  then show ?thesis using assms(2-4) unfolding tasks_ok_def by simp
qed

lemma search_ready_found:
  assumes "search_ready slots n nxt = (r, True)" and "nxt < MAX_TASKS"
  shows "\<exists>k < n. r = (nxt + k) mod MAX_TASKS \<and> is_ready (nth_default None slots r) \<and>
    (\<forall>j < k. \<not> is_ready (nth_default None slots ((nxt + j) mod MAX_TASKS)))"
  using assms
proof (induction n arbitrary: nxt)
  case (Suc n)
  show ?case
  proof (cases "is_ready (nth_default None slots nxt)")
    case True
    then show ?thesis using Suc.prems by (intro exI [of _ 0]) auto
  next
    case False
    have "(nxt + 1) mod MAX_TASKS < MAX_TASKS" by (simp add: MAX_TASKS_def)
    then obtain k where k: "k < n" "r = ((nxt + 1) mod MAX_TASKS + k) mod MAX_TASKS"
        "is_ready (nth_default None slots r)"
        "\<forall>j < k. \<not> is_ready (nth_default None slots (((nxt + 1) mod MAX_TASKS + j) mod MAX_TASKS))"
      using Suc.IH [of "(nxt + 1) mod MAX_TASKS"] Suc.prems False by auto
    have e: "((nxt + 1) mod MAX_TASKS + j) mod MAX_TASKS = (nxt + Suc j) mod MAX_TASKS" for j
      by (simp add: mod_simps)
    have "\<not> is_ready (nth_default None slots ((nxt + j) mod MAX_TASKS))" if "j < Suc k" for j
      using that k(4) False Suc.prems(2) unfolding e by (cases j) auto
    then show ?thesis using k(1, 2, 3) unfolding e by blast
  qed
qed simp

lemma search_ready_none:
  "search_ready slots n nxt = (r, False) \<Longrightarrow> nxt < MAX_TASKS \<Longrightarrow>
     k < n \<Longrightarrow> \<not> is_ready (nth_default None slots ((nxt + k) mod MAX_TASKS))"
proof (induction n arbitrary: nxt k)
  case (Suc n)
  have "(nxt + 1) mod MAX_TASKS < MAX_TASKS" by (simp add: MAX_TASKS_def)
  then show ?case using Suc.IH [of "(nxt + 1) mod MAX_TASKS" "k - 1"] Suc.prems
    by (cases k) (auto simp: mod_simps split: if_splits)
qed simp

text \<open>The slots between the current one and another, going round.\<close>

definition ahead :: "usize \<Rightarrow> usize \<Rightarrow> nat" where
  "ahead c i = (if c < i then i - c - 1 else i + 7 - c)"

lemma wrap_slot:
  "c < MAX_TASKS \<Longrightarrow> k < MAX_TASKS \<Longrightarrow>
     (c + 1 + k) mod MAX_TASKS = (if c + 1 + k < MAX_TASKS then c + 1 + k else c + 1 + k - MAX_TASKS)"
  by (simp add: MAX_TASKS_def mod_if)

lemma ahead_less: "c < MAX_TASKS \<Longrightarrow> i < MAX_TASKS \<Longrightarrow> ahead c i < MAX_TASKS"
  by (auto simp: ahead_def MAX_TASKS_def)

lemma ahead_slot:
  assumes "c < MAX_TASKS" and "i < MAX_TASKS"
  shows "(c + 1 + ahead c i) mod MAX_TASKS = i" and "i \<noteq> c \<Longrightarrow> ahead c i < 7"
    and "k < MAX_TASKS \<Longrightarrow> i = (c + 1 + k) mod MAX_TASKS \<Longrightarrow> ahead c i = k"
  using assms wrap_slot [OF assms(1) ahead_less [OF assms]] wrap_slot [OF assms(1), of k]
  by (auto simp: ahead_def MAX_TASKS_def split: if_splits)

lemma ahead_step:
  assumes "c < MAX_TASKS" and "i < MAX_TASKS" and "k < ahead c i"
  shows "ahead ((c + 1 + k) mod MAX_TASKS) i < ahead c i"
proof -
  have k: "k < MAX_TASKS" using assms(3) ahead_less [OF assms(1, 2)] by linarith
  show ?thesis
  proof (cases "c + 1 + k < MAX_TASKS")
    case True
    then have "(c + 1 + k) mod MAX_TASKS = c + 1 + k" by simp
    then show ?thesis using assms(3) True unfolding ahead_def MAX_TASKS_def by (auto split: if_splits)
  next
    case False
    then have "(c + 1 + k) mod MAX_TASKS = c + 1 + k - MAX_TASKS"
      using wrap_slot [OF assms(1) k] by simp
    then show ?thesis using assms False unfolding ahead_def MAX_TASKS_def by (auto split: if_splits)
  qed
qed

definition switch_slots :: "tasks \<Rightarrow> usize \<Rightarrow> u64 \<Rightarrow> task_slot list" where
  "switch_slots ts nxt r =
     (let old = the (ts_slots ts ! ts_current ts); new = the (ts_slots ts ! nxt) in
      (ts_slots ts)[ts_current ts := Some (old\<lparr>tk_state :=
          (if tk_state old = Running then Ready else tk_state old), tk_rsp := r\<rparr>),
        nxt := Some (new\<lparr>tk_state := Running\<rparr>)])"

lemma yield_cases:
  assumes "tasks_ok ts"
  obtains (stay) "yield_now ts r = (None, ts)"
      and "\<And>i. i < MAX_TASKS \<Longrightarrow> \<not> is_ready (ts_slots ts ! i)"
  | (switch) k nxt where "k < 7" and "nxt = (ts_current ts + 1 + k) mod MAX_TASKS"
      and "nxt < MAX_TASKS" and "nxt \<noteq> ts_current ts" and "is_ready (ts_slots ts ! nxt)"
      and "\<And>j. j < k \<Longrightarrow> \<not> is_ready (ts_slots ts ! ((ts_current ts + 1 + j) mod MAX_TASKS))"
      and "yield_now ts r = (Some (tk_rsp (the (ts_slots ts ! nxt))),
             ts\<lparr>ts_slots := switch_slots ts nxt r, ts_current := nxt\<rparr>)"
proof -
  note ok = tasks_okD [OF assms]
  obtain t where t: "ts_slots ts ! ts_current ts = Some t" "tk_state t \<noteq> Ready" using ok(3) by blast
  have in_range: "m mod MAX_TASKS < length (ts_slots ts)" for m using ok(1) by (simp add: MAX_TASKS_def)
  have start: "(ts_current ts + 1) mod MAX_TASKS < MAX_TASKS" by (simp add: MAX_TASKS_def)
  obtain nxt found where s: "search_ready (ts_slots ts) MAX_TASKS ((ts_current ts + 1) mod MAX_TASKS) = (nxt, found)"
    by fastforce
  have e: "((ts_current ts + 1) mod MAX_TASKS + j) mod MAX_TASKS = (ts_current ts + 1 + j) mod MAX_TASKS" for j
    by (simp add: mod_simps)
  show ?thesis
  proof (cases found)
    case False
    then have s': "search_ready (ts_slots ts) MAX_TASKS ((ts_current ts + 1) mod MAX_TASKS) = (nxt, False)"
      using s by simp
    have "\<not> is_ready (ts_slots ts ! i)" if i: "i < MAX_TASKS" for i
    proof -
      have a: "ahead (ts_current ts) i < MAX_TASKS" by (rule ahead_less [OF ok(2) i])
      have "nth_default None (ts_slots ts) i = ts_slots ts ! i" using i ok(1) by simp
      then show ?thesis
        using search_ready_none [OF s' start a] ahead_slot(1) [OF ok(2) i] unfolding e by simp
    qed
    then show ?thesis using stay s False by (simp add: yield_now_def)
  next
    case True
    then have s': "search_ready (ts_slots ts) MAX_TASKS ((ts_current ts + 1) mod MAX_TASKS) = (nxt, True)"
      using s by simp
    obtain k where k: "k < MAX_TASKS" "nxt = (ts_current ts + 1 + k) mod MAX_TASKS"
        "is_ready (nth_default None (ts_slots ts) nxt)"
        "\<forall>j < k. \<not> is_ready (nth_default None (ts_slots ts) ((ts_current ts + 1 + j) mod MAX_TASKS))"
      using search_ready_found [OF s' start] unfolding e by blast
    have nxt: "nxt < MAX_TASKS" using k(2) by (simp add: MAX_TASKS_def)
    have rd: "is_ready (ts_slots ts ! nxt)" using k(3) nxt ok(1) by simp
    have ne: "nxt \<noteq> ts_current ts" using rd t by (auto simp: is_ready_def)
    have k7: "k < 7" using ahead_slot(2) [OF ok(2) nxt ne] ahead_slot(3) [OF ok(2) nxt k(1, 2)] by simp
    obtain u where u: "ts_slots ts ! nxt = Some u" "tk_state u = Ready"
      using rd by (auto simp: is_ready_def split: option.splits)
    have "yield_now ts r = (Some (tk_rsp (the (ts_slots ts ! nxt))),
        ts\<lparr>ts_slots := switch_slots ts nxt r, ts_current := nxt\<rparr>)"
      using s True ne t u nxt ok(1, 2)
      by (auto simp: yield_now_def switch_slots_def set_state_def Let_def nth_default_update list_update_swap)
    moreover have "\<not> is_ready (ts_slots ts ! ((ts_current ts + 1 + j) mod MAX_TASKS))" if "j < k" for j
      using k(4) that in_range by (metis nth_default_in)
    ultimately show ?thesis using switch [OF k7 k(2) nxt ne rd] by blast
  qed
qed

lemma switch_slots_nth:
  assumes "tasks_ok ts" and "nxt < MAX_TASKS" and "nxt \<noteq> ts_current ts" and "is_ready (ts_slots ts ! nxt)"
  shows "length (switch_slots ts nxt r) = MAX_TASKS"
    and "\<exists>u. ts_slots ts ! nxt = Some u \<and> switch_slots ts nxt r ! nxt = Some (u\<lparr>tk_state := Running\<rparr>)"
    and "\<exists>t. ts_slots ts ! ts_current ts = Some t \<and> switch_slots ts nxt r ! ts_current ts =
      Some (t\<lparr>tk_state := (if tk_state t = Running then Ready else tk_state t), tk_rsp := r\<rparr>)"
    and "i \<noteq> nxt \<Longrightarrow> i \<noteq> ts_current ts \<Longrightarrow> switch_slots ts nxt r ! i = ts_slots ts ! i"
  using assms tasks_okD(1, 2, 3) [OF assms(1)]
  by (auto simp: switch_slots_def Let_def is_ready_def split: option.splits)

lemma yield_ok:
  assumes "tasks_ok ts"
  shows "tasks_ok (snd (yield_now ts r))"
proof (cases rule: yield_cases [OF assms, of r])
  case 1
  then show ?thesis using assms by simp
next
  case (2 k nxt)
  note sw = switch_slots_nth [OF assms 2(3, 4, 5), where r = r]
  obtain u where u: "ts_slots ts ! nxt = Some u" "switch_slots ts nxt r ! nxt = Some (u\<lparr>tk_state := Running\<rparr>)"
    using sw(2) by blast
  obtain t where t: "ts_slots ts ! ts_current ts = Some t" "switch_slots ts nxt r ! ts_current ts =
      Some (t\<lparr>tk_state := (if tk_state t = Running then Ready else tk_state t), tk_rsp := r\<rparr>)"
    using sw(3) by blast
  have old: "\<exists>w. ts_slots ts ! i = Some w \<and> tk_pid v = tk_pid w \<and> (i \<noteq> nxt \<longrightarrow> tk_state v \<noteq> Running)"
    if "switch_slots ts nxt r ! i = Some v" "i < MAX_TASKS" for i v
  proof (cases "i = nxt \<or> i = ts_current ts")
    case True
    then show ?thesis using that u t 2(4) by (auto split: if_splits)
  next
    case False
    then show ?thesis using that sw(4) tasks_okD(5) [OF assms] by auto
  qed
  have "tasks_ok (ts\<lparr>ts_slots := switch_slots ts nxt r, ts_current := nxt\<rparr>)"
    using u(2) by (intro tasks_ok_change [OF assms sw(1) 2(3) _ old]) auto
  then show ?thesis using 2(7) by simp
qed

section \<open>Runs of the kernel\<close>

text \<open>
  The running task may spawn, kill any other task, yield, be preempted, and exit when
  another task is ready.
\<close>

inductive task_step :: "tasks \<Rightarrow> tasks \<Rightarrow> bool" where
  "task_step ts (snd (spawn ts name base entry wrapper))"
| "pid \<noteq> current_pid ts \<Longrightarrow> task_step ts (snd (task_kill ts pid))"
| "task_step ts (snd (yield_now ts r))"
| "task_step ts (snd (timer_tick ts r))"
| "i < MAX_TASKS \<Longrightarrow> is_ready (ts_slots ts ! i) \<Longrightarrow> task_step ts (snd (task_exit ts r))"

definition running_ok :: "tasks \<Rightarrow> bool" where
  "running_ok ts \<longleftrightarrow> tasks_ok ts \<and>
     (\<exists>t. ts_slots ts ! ts_current ts = Some t \<and> tk_state t = Running)"

lemma running_ok_init: "running_ok (task_init tasks_boot)"
  by (auto simp: running_ok_def tasks_ok_def task_init_def tasks_boot_def MAX_TASKS_def
      nth_list_update split: if_splits)

lemma tasks_ok_next_pid: "tasks_ok ts \<Longrightarrow> tasks_ok (ts\<lparr>ts_next_pid := ts_next_pid ts + 1\<rparr>)"
  unfolding tasks_ok_def by (auto intro: less_SucI)

lemma spawn_ok:
  assumes "running_ok ts"
  shows "running_ok (snd (spawn ts name base entry wrapper))"
proof (cases "position slot_reusable (tl (ts_slots ts))")
  case None
  then show ?thesis using assms tasks_ok_next_pid by (auto simp: spawn_def running_ok_def)
next
  case (Some i)
  have ok: "tasks_ok ts" using assms by (simp add: running_ok_def)
  obtain t where t: "ts_slots ts ! ts_current ts = Some t" "tk_state t = Running"
    using assms by (auto simp: running_ok_def)
  have i: "Suc i < MAX_TASKS" "slot_reusable (ts_slots ts ! Suc i)"
    using position_SomeD(1, 2) [OF Some] tasks_okD(1) [OF ok] by (auto simp: nth_tl)
  then have ne: "Suc i \<noteq> ts_current ts" using t by (auto simp: slot_reusable_def)
  let ?ts = "snd (spawn ts name base entry wrapper)"
  have sl: "ts_slots ?ts ! j = (if j = Suc i then Some \<lparr>tk_pid = ts_next_pid ts, tk_name = name, tk_state = Ready,
      tk_rsp = base + TASK_STACK_SIZE - 56, tk_stack = Some (new_stack base entry wrapper)\<rparr> else ts_slots ts ! j)"
    for j using Some i tasks_okD(1) [OF ok] by (simp add: spawn_def Let_def)
  have cur: "ts_current ?ts = ts_current ts" "ts_next_pid ?ts = Suc (ts_next_pid ts)"
      "length (ts_slots ?ts) = MAX_TASKS"
    using Some tasks_okD(1) [OF ok] by (auto simp: spawn_def Let_def)
  have "tasks_ok ?ts"
    unfolding tasks_ok_def cur sl using tasks_okD(2, 4, 5, 6) [OF ok] t ne
    by (auto intro: less_SucI) (metis less_irrefl)+
  then show ?thesis using t ne by (simp add: running_ok_def cur sl)
qed

lemma kill_ok:
  assumes "running_ok ts" and "pid \<noteq> current_pid ts"
  shows "running_ok (snd (task_kill ts pid))"
proof (cases "pid \<noteq> 0 \<and> list_ex (live_pid pid) (ts_slots ts)")
  case True
  have ok: "tasks_ok ts" using assms(1) by (simp add: running_ok_def)
  obtain t where t: "ts_slots ts ! ts_current ts = Some t" "tk_state t = Running"
    using assms(1) by (auto simp: running_ok_def)
  obtain i where i: "position (live_pid pid) (ts_slots ts) = Some i"
    using True position_exists unfolding list_ex_iff by metis
  note i' = position_SomeD(1, 2) [OF i]
  let ?slots = "(ts_slots ts)[i := set_state Finished (ts_slots ts ! i)]"
  have k: "snd (task_kill ts pid) = ts\<lparr>ts_slots := ?slots, ts_current := ts_current ts\<rparr>"
    using True i by (simp add: task_kill_def update_first_position)
  have ne: "i \<noteq> ts_current ts"
    using i'(2) t assms(2) i'(1) tasks_okD(1, 2) [OF ok] by (auto simp: live_pid_def current_pid_def)
  then have cur: "?slots ! ts_current ts = Some t" using t by simp
  have "tasks_ok (ts\<lparr>ts_slots := ?slots, ts_current := ts_current ts\<rparr>)"
    using tasks_okD(1, 2, 5) [OF ok] cur t(2) i'(1)
    by (intro tasks_ok_change [OF ok]) (auto simp: nth_list_update set_state_def split: if_splits)
  then show ?thesis using k cur t(2) by (simp add: running_ok_def)
qed (use assms in \<open>auto simp: task_kill_def\<close>)

lemma yield_running:
  assumes "tasks_ok ts"
    and "(\<exists>t. ts_slots ts ! ts_current ts = Some t \<and> tk_state t = Running) \<or>
         (\<exists>i < MAX_TASKS. is_ready (ts_slots ts ! i))"
  shows "running_ok (snd (yield_now ts r))"
proof (cases rule: yield_cases [OF assms(1), of r])
  case 1
  then show ?thesis using assms by (auto simp: running_ok_def)
next
  case (2 k nxt)
  then show ?thesis
    using yield_ok [OF assms(1), of r] switch_slots_nth(2) [OF assms(1) 2(3, 4, 5), of r]
    by (auto simp: running_ok_def)
qed

lemma exit_ok:
  assumes "running_ok ts" and "i < MAX_TASKS" and "is_ready (ts_slots ts ! i)"
  shows "running_ok (snd (task_exit ts r))"
proof -
  have ok: "tasks_ok ts" using assms(1) by (simp add: running_ok_def)
  obtain t where t: "ts_slots ts ! ts_current ts = Some t" "tk_state t = Running"
    using assms(1) by (auto simp: running_ok_def)
  let ?slots = "(ts_slots ts)[ts_current ts := set_state Finished (ts_slots ts ! ts_current ts)]"
  have "tasks_ok (ts\<lparr>ts_slots := ?slots, ts_current := ts_current ts\<rparr>)"
    using tasks_okD(1, 2, 5) [OF ok] t
    by (intro tasks_ok_change [OF ok]) (auto simp: nth_list_update set_state_def split: if_splits)
  moreover have "ts_current ts \<noteq> i" using assms(3) t by (auto simp: is_ready_def)
  ultimately have "running_ok (snd (yield_now (ts\<lparr>ts_slots := ?slots, ts_current := ts_current ts\<rparr>) r))"
    using assms(2, 3) by (intro yield_running) auto
  then show ?thesis using tasks_okD(1, 2) [OF ok] by (simp add: task_exit_def)
qed

lemma timer_tick_ok:
  assumes "running_ok ts"
  shows "running_ok (snd (timer_tick ts r))"
proof -
  have "running_ok (snd (yield_now ts r))" by (rule yield_running) (use assms in \<open>auto simp: running_ok_def\<close>)
  then show ?thesis using assms by (simp add: timer_tick_def)
qed

lemma task_step_ok: "task_step ts ts' \<Longrightarrow> running_ok ts \<Longrightarrow> running_ok ts'"
proof (induction rule: task_step.induct)
  case (3 ts r)
  show ?case by (rule yield_running) (use 3 in \<open>auto simp: running_ok_def\<close>)
qed (simp_all add: spawn_ok kill_ok timer_tick_ok exit_ok)


definition two_tasks :: tasks where
  "two_tasks = snd (yield_now (snd (spawn (task_init tasks_boot) ''a'' 0x10000 1 2)) 77)"


section \<open>Round robin\<close>

definition yields :: "tasks \<Rightarrow> u64 list \<Rightarrow> tasks" where
  "yields ts rs = foldl (\<lambda>s r. snd (yield_now s r)) ts rs"

lemma yields_reach:
  assumes "tasks_ok ts" and "i < MAX_TASKS" and "is_ready (ts_slots ts ! i)"
    and "ahead (ts_current ts) i < length rs"
  shows "\<exists>m \<le> Suc (ahead (ts_current ts) i). ts_current (yields ts (take m rs)) = i"
  using assms
proof (induction "ahead (ts_current ts) i" arbitrary: ts rs rule: less_induct)
  case less
  obtain r rs' where rs: "rs = r # rs'" using less.prems(4) by (cases rs) auto
  show ?case
  proof (cases rule: yield_cases [OF less.prems(1), of r])
    case 1
    then show ?thesis using less.prems(2, 3) by blast
  next
    case (2 k nxt)
    let ?ts = "snd (yield_now ts r)"
    note cur = tasks_okD(2) [OF less.prems(1)]
    have k: "k \<le> ahead (ts_current ts) i"
    proof (rule ccontr)
      assume "\<not> ?thesis"
      then have "\<not> is_ready (ts_slots ts ! ((ts_current ts + 1 + ahead (ts_current ts) i) mod MAX_TASKS))"
        using 2(6) by simp
      then show False using ahead_slot(1) [OF cur less.prems(2)] less.prems(3) by simp
    qed
    have nxt: "ts_current ?ts = nxt" using 2(7) by simp
    show ?thesis
    proof (cases "nxt = i")
      case True
      then show ?thesis using nxt rs by (intro exI [of _ "Suc 0"]) (simp add: yields_def)
    next
      case False
      then have "k \<noteq> ahead (ts_current ts) i" using 2(2) ahead_slot(1) [OF cur less.prems(2)] by metis
      then have "k < ahead (ts_current ts) i" using k by simp
      then have d: "ahead (ts_current ?ts) i < ahead (ts_current ts) i"
        unfolding nxt 2(2) by (rule ahead_step [OF cur less.prems(2)])
      have "i \<noteq> ts_current ts" using less.prems(1, 3) tasks_okD(3) by (force simp: is_ready_def)
      then have "is_ready (ts_slots ?ts ! i)"
        using 2(7) False switch_slots_nth(4) [OF less.prems(1) 2(3, 4, 5), of i r] less.prems(3) by simp
      moreover have "ahead (ts_current ?ts) i < length rs'" using d less.prems(4) rs by simp
      ultimately obtain m where m: "m \<le> Suc (ahead (ts_current ?ts) i)"
          "ts_current (yields ?ts (take m rs')) = i"
        using less.hyps [OF d yield_ok [OF less.prems(1)] less.prems(2)] by blast
      then show ?thesis using d rs by (intro exI [of _ "Suc m"]) (simp add: yields_def)
    qed
  qed
qed



text \<open>
  A context switch saves the stack pointer of the task it leaves and loads the one saved
  for the task it enters, the first ready task after the current one going round; every other
  task's saved pointer stays as it was. Without a ready task nothing changes.
\<close>

lemma context_switch_rsp:
  assumes "tasks_ok ts"
  shows "case yield_now ts r of
      (None, ts') \<Rightarrow> ts' = ts \<and> (\<forall>i < MAX_TASKS. \<not> is_ready (ts_slots ts ! i))
    | (Some rsp, ts') \<Rightarrow>
        (\<exists>k t u. ts_current ts' = (ts_current ts + 1 + k) mod MAX_TASKS \<and>
           (\<forall>j < k. \<not> is_ready (ts_slots ts ! ((ts_current ts + 1 + j) mod MAX_TASKS))) \<and>
           ts_slots ts ! ts_current ts' = Some t \<and> tk_state t = Ready \<and> rsp = tk_rsp t \<and>
           ts_slots ts' ! ts_current ts = Some u \<and> tk_rsp u = r \<and>
           (\<forall>i < MAX_TASKS. i \<noteq> ts_current ts \<longrightarrow>
              map_option tk_rsp (ts_slots ts' ! i) = map_option tk_rsp (ts_slots ts ! i)))"
proof (cases rule: yield_cases [OF assms, of r])
  case 1
  then show ?thesis by simp
next
  case (2 k nxt)
  note sw = switch_slots_nth [OF assms 2(3, 4, 5), where r = r]
  obtain u where u: "ts_slots ts ! nxt = Some u" "switch_slots ts nxt r ! nxt = Some (u\<lparr>tk_state := Running\<rparr>)"
    using sw(2) by blast
  have rd: "tk_state u = Ready" using 2(5) u(1) by (simp add: is_ready_def)
  have others: "map_option tk_rsp (switch_slots ts nxt r ! i) = map_option tk_rsp (ts_slots ts ! i)"
    if "i \<noteq> ts_current ts" for i
    using that sw(4) [of i] u by (cases "i = nxt") auto
  obtain t where t: "switch_slots ts nxt r ! ts_current ts = Some t" "tk_rsp t = r" using sw(3) by force
  have "\<exists>k t u. nxt = (ts_current ts + 1 + k) mod MAX_TASKS \<and>
      (\<forall>j < k. \<not> is_ready (ts_slots ts ! ((ts_current ts + 1 + j) mod MAX_TASKS))) \<and>
      ts_slots ts ! nxt = Some t \<and> tk_state t = Ready \<and> tk_rsp (the (ts_slots ts ! nxt)) = tk_rsp t \<and>
      switch_slots ts nxt r ! ts_current ts = Some u \<and> tk_rsp u = r \<and>
      (\<forall>i < MAX_TASKS. i \<noteq> ts_current ts \<longrightarrow>
         map_option tk_rsp (switch_slots ts nxt r ! i) = map_option tk_rsp (ts_slots ts ! i))"
    using 2(2, 6) u rd t others by (intro exI [of _ k] exI [of _ u] exI [of _ t]) auto
  then show ?thesis using 2(7) by simp
qed

lemma context_switch_rsp_instance:
  "case yield_now two_tasks 5 of
      (None, ts') \<Rightarrow> ts' = two_tasks \<and> (\<forall>i < MAX_TASKS. \<not> is_ready (ts_slots two_tasks ! i))
    | (Some rsp, ts') \<Rightarrow>
        (\<exists>k t u. ts_current ts' = (ts_current two_tasks + 1 + k) mod MAX_TASKS \<and>
           (\<forall>j < k. \<not> is_ready (ts_slots two_tasks ! ((ts_current two_tasks + 1 + j) mod MAX_TASKS))) \<and>
           ts_slots two_tasks ! ts_current ts' = Some t \<and> tk_state t = Ready \<and> rsp = tk_rsp t \<and>
           ts_slots ts' ! ts_current two_tasks = Some u \<and> tk_rsp u = 5 \<and>
           (\<forall>i < MAX_TASKS. i \<noteq> ts_current two_tasks \<longrightarrow>
              map_option tk_rsp (ts_slots ts' ! i) = map_option tk_rsp (ts_slots two_tasks ! i)))"
proof (rule context_switch_rsp)
  show "tasks_ok two_tasks"
    unfolding two_tasks_def using spawn_ok [OF running_ok_init] by (intro yield_ok) (simp add: running_ok_def)
qed

text \<open>
  A task that is killed while it runs gives its slot away: \<^verbatim>\<open>spawn\<close> puts a new task into
  the slot \<^verbatim>\<open>CURRENT\<close> still names, and the next switch overwrites the new task's initial stack
  pointer with the killed task's, so that the new task resumes the killed one.
\<close>

lemma kill_current_spawn:
  "let ts = snd (spawn two_tasks ''b'' 0x20000 1 2);
       ts1 = snd (task_kill ts (current_pid ts));
       ts2 = snd (spawn ts1 ''c'' 0x30000 1 2);
       ts3 = snd (yield_now ts2 0x13F00)
   in current_pid ts = 1 \<and> fst (spawn ts1 ''c'' 0x30000 1 2) = Some 3 \<and> current_pid ts2 = 3 \<and>
      map_option tk_rsp (ts_slots ts2 ! 1) = Some (0x30000 + TASK_STACK_SIZE - 56) \<and>
      map_option tk_pid (ts_slots ts3 ! 1) = Some 3 \<and> map_option tk_rsp (ts_slots ts3 ! 1) = Some 0x13F00"
  by code_simp

end
