(* ===== verification/Scheduler.thy ===== *)
theory Scheduler
  imports Task Btree Rust_Str "HOL-Library.Product_Lexorder"
begin

text \<open>
  The policy scheduler (\<^verbatim>\<open>src/scheduler.rs\<close>): round robin, priority and fair selection over
  the tasks of \<open>Task\<close>, tick accounting, priorities. Tick counters and virtual runtimes are
  natural numbers: at one tick each, a 64-bit counter does not wrap.
\<close>

section \<open>Data\<close>

datatype sched_policy = RoundRobin | PriorityPolicy | Realtime | Fair

type_synonym task_priority = u8

definition DEFAULT :: task_priority where "DEFAULT = 120"

record sched =
  sd_policy :: sched_policy
  sd_priorities :: "(usize, task_priority) btree"
  sd_ticks :: "(usize, nat) btree"
  sd_vruntime :: "(usize, nat) btree"
  sd_rr_cursor :: usize
  sd_context_switches :: nat
  sd_total_ticks :: nat
  sd_idle_ticks :: nat

definition sched_boot :: sched where
  "sched_boot = \<lparr>sd_policy = RoundRobin, sd_priorities = [], sd_ticks = [], sd_vruntime = [],
     sd_rr_cursor = 0, sd_context_switches = 0, sd_total_ticks = 0, sd_idle_ticks = 0\<rparr>"

section \<open>Operations\<close>

text \<open>\<^verbatim>\<open>saturating_add\<close> on \<^verbatim>\<open>i16\<close>, then the clamp to a byte.\<close>

definition adjust :: "task_priority \<Rightarrow> 16 word \<Rightarrow> task_priority" where
  "adjust p delta =
     (let sum = int (unat p) + sint delta; sat = max (- 32768) (min 32767 sum)
      in word_of_int (max 0 (min 255 sat)))"

definition set_policy :: "sched \<Rightarrow> sched_policy \<Rightarrow> sched" where
  "set_policy s policy =
     (let s1 = s\<lparr>sd_policy := policy\<rparr> in if policy = Fair then s1\<lparr>sd_vruntime := []\<rparr> else s1)"

definition set_task_priority :: "sched \<Rightarrow> usize \<Rightarrow> task_priority \<Rightarrow> sched" where
  "set_task_priority s pid p = s\<lparr>sd_priorities := bt_insert pid p (sd_priorities s)\<rparr>"

definition prio_of :: "(usize, task_priority) btree \<Rightarrow> usize \<Rightarrow> task_priority" where
  "prio_of ps pid = (case bt_get ps pid of Some p \<Rightarrow> p | None \<Rightarrow> DEFAULT)"

definition get_task_priority :: "sched \<Rightarrow> usize \<Rightarrow> task_priority" where
  "get_task_priority s pid = prio_of (sd_priorities s) pid"

definition pick_rr :: "usize list \<Rightarrow> usize \<Rightarrow> usize \<times> usize" where
  "pick_rr ready cursor = (let c = (cursor + 1) mod length ready in (ready ! c, c))"

fun list_min :: "('a :: linorder) \<Rightarrow> 'a list \<Rightarrow> 'a" where
  "list_min d [] = d"
| "list_min d [x] = x"
| "list_min d (x # y # ys) = min x (list_min d (y # ys))"

definition pick_priority :: "usize list \<Rightarrow> (usize, task_priority) btree \<Rightarrow> usize \<Rightarrow> usize \<times> usize" where
  "pick_priority ready ps cursor =
     (let best = list_min DEFAULT (map (prio_of ps) ready);
          cands = filter (\<lambda>p. prio_of ps p = best) ready in
      if length cands = 1 then (cands ! 0, cursor)
      else let c = (cursor + 1) mod length cands in (cands ! c, c))"

text \<open>\<^verbatim>\<open>min_by_key\<close>: the first element with the smallest key.\<close>

fun min_by_key :: "('a \<Rightarrow> 'k :: linorder) \<Rightarrow> 'a list \<Rightarrow> 'a option" where
  "min_by_key key [] = None"
| "min_by_key key (x # xs) =
     (case min_by_key key xs of
        None \<Rightarrow> Some x
      | Some y \<Rightarrow> if key y < key x then Some y else Some x)"

definition vrt_of :: "(usize, nat) btree \<Rightarrow> usize \<Rightarrow> nat" where
  "vrt_of vr pid = (case bt_get vr pid of Some v \<Rightarrow> v | None \<Rightarrow> 0)"

definition pick_fair :: "usize list \<Rightarrow> (usize, nat) btree \<Rightarrow> (usize, task_priority) btree
    \<Rightarrow> usize \<times> (usize, nat) btree" where
  "pick_fair ready vruntime ps =
     (let min_vrt = list_min 0 (List.map_filter (bt_get vruntime) ready);
          vr = foldl (\<lambda>m pid. bt_or_insert pid min_vrt m) vruntime ready
      in (case min_by_key (\<lambda>pid. (vrt_of vr pid, unat (prio_of ps pid))) ready of
            Some pid \<Rightarrow> pid | None \<Rightarrow> 0, vr))"

definition ready_pids :: "tasks \<Rightarrow> usize list" where
  "ready_pids ts =
     map fst (filter (\<lambda>(pid, name, st). st = Ready \<or> pid = current_pid ts) (task_list ts))"

definition get_next_task :: "tasks \<Rightarrow> sched \<Rightarrow> usize option \<times> sched" where
  "get_next_task ts s =
     (if task_list ts = [] then (None, s)
      else
        let ready = ready_pids ts in
        if ready = [] then (None, s)
        else
          let (chosen, s1) =
                (case sd_policy s of
                   RoundRobin \<Rightarrow>
                     (let (pid, c) = pick_rr ready (sd_rr_cursor s) in (pid, s\<lparr>sd_rr_cursor := c\<rparr>))
                 | Fair \<Rightarrow>
                     (let (pid, vr) = pick_fair ready (sd_vruntime s) (sd_priorities s)
                      in (pid, s\<lparr>sd_vruntime := vr\<rparr>))
                 | _ \<Rightarrow>
                     (let (pid, c) = pick_priority ready (sd_priorities s) (sd_rr_cursor s)
                      in (pid, s\<lparr>sd_rr_cursor := c\<rparr>)));
              s2 = (if chosen \<noteq> current_pid ts
                    then s1\<lparr>sd_context_switches := sd_context_switches s1 + 1\<rparr> else s1)
          in (Some chosen, s2))"

definition scheduler_tick :: "tasks \<Rightarrow> sched \<Rightarrow> sched" where
  "scheduler_tick ts s =
     (let pid = current_pid ts;
          bump = (\<lambda>m n. bt_insert pid ((case bt_get m pid of Some v \<Rightarrow> v | None \<Rightarrow> 0) + n) m);
          s1 = s\<lparr>sd_total_ticks := sd_total_ticks s + 1, sd_ticks := bump (sd_ticks s) 1\<rparr>;
          s2 = (if pid = 0 then s1\<lparr>sd_idle_ticks := sd_idle_ticks s1 + 1\<rparr> else s1) in
      if sd_policy s2 = Fair
      then s2\<lparr>sd_vruntime := bump (sd_vruntime s2) (unat (prio_of (sd_priorities s2) pid) + 1)\<rparr>
      else s2)"

definition nice :: "sched \<Rightarrow> usize \<Rightarrow> 16 word \<Rightarrow> sched" where
  "nice s pid adjustment =
     s\<lparr>sd_priorities := bt_insert pid (adjust (prio_of (sd_priorities s) pid) adjustment) (sd_priorities s)\<rparr>"

definition renice :: "sched \<Rightarrow> usize \<Rightarrow> u8 \<Rightarrow> sched" where
  "renice s pid new_priority = set_task_priority s pid new_priority"

definition cpu_usage_percent :: "sched \<Rightarrow> usize \<Rightarrow> u8" where
  "cpu_usage_percent s pid =
     (if sd_total_ticks s = 0 then 0
      else of_nat ((case bt_get (sd_ticks s) pid of Some t \<Rightarrow> t | None \<Rightarrow> 0) * 100 div sd_total_ticks s))"

definition policy_name :: "sched_policy \<Rightarrow> str" where
  "policy_name p =
     (case p of RoundRobin \<Rightarrow> ''RoundRobin'' | PriorityPolicy \<Rightarrow> ''Priority''
      | Realtime \<Rightarrow> ''Realtime'' | Fair \<Rightarrow> ''Fair (CFS)'')"

definition percent :: "nat \<Rightarrow> nat \<Rightarrow> nat" where
  "percent n whole = (if whole > 0 then n * 100 div whole else 0)"

definition format_scheduler_stats :: "nat \<Rightarrow> sched \<Rightarrow> str" where
  "format_scheduler_stats uptime s =
     (let dec = show_nat; eol = [CHR 0x0A];
          busy = sd_total_ticks s - sd_idle_ticks s; util = percent busy (sd_total_ticks s) in
      ''Scheduler Policy : '' @ policy_name (sd_policy s) @ eol @
      ''Uptime           : '' @ dec uptime @ '' s'' @ eol @
      ''Context Switches : '' @ dec (sd_context_switches s) @ eol @
      ''Total Ticks      : '' @ dec (sd_total_ticks s) @ eol @
      ''Idle  Ticks      : '' @ dec (sd_idle_ticks s) @ eol @
      ''CPU Utilisation  : '' @ dec util @ ''%'' @ eol @ ''---'' @ eol @
      ''PID   PRIO  TICKS   CPU%  VRUNTIME'' @ eol @
      concat (map (\<lambda>(pid, ticks).
          pad_right 6 (dec pid) @ pad_right 6 (dec (unat (prio_of (sd_priorities s) pid))) @
          pad_right 8 (dec ticks) @ pad_right 6 (dec (percent ticks (sd_total_ticks s))) @
          dec (vrt_of (sd_vruntime s) pid) @ eol) (sd_ticks s)))"

section \<open>Selection\<close>

lemma list_min_le: "x \<in> set xs \<Longrightarrow> list_min d xs \<le> x"
  by (induction d xs rule: list_min.induct) (auto simp: min_le_iff_disj)

lemma list_min_in: "xs \<noteq> [] \<Longrightarrow> list_min d xs \<in> set xs"
  by (induction d xs rule: list_min.induct) (auto simp: min_def)

lemma min_by_key_Some:
  assumes "min_by_key key xs = Some y"
  shows "y \<in> set xs" and "\<And>x. x \<in> set xs \<Longrightarrow> key y \<le> key x"
proof -
  have "y \<in> set xs \<and> (\<forall>x \<in> set xs. key y \<le> key x)"
    using assms
  proof (induction xs arbitrary: y)
    case (Cons x xs)
    show ?case
    proof (cases "min_by_key key xs")
      case None
      then have "xs = []" by (cases xs) (auto split: option.splits if_splits)
      then show ?thesis using Cons.prems by simp
    next
      case (Some z)
      then show ?thesis using Cons by (force split: if_splits)
    qed
  qed simp
  then show "y \<in> set xs" and "\<And>x. x \<in> set xs \<Longrightarrow> key y \<le> key x" by auto
qed

lemma min_by_key_exists: "xs \<noteq> [] \<Longrightarrow> \<exists>y. min_by_key key xs = Some y"
  by (cases xs) (auto split: option.split)

lemma pick_rr_next:
  assumes "ready \<noteq> []" and "pick_rr ready c = (pid, c')"
  shows "pid \<in> set ready \<and> c' = (c + 1) mod length ready \<and> pid = ready ! c'"
  using assms by (auto simp: pick_rr_def Let_def)

lemma pick_priority_min:
  assumes "ready \<noteq> []" and "pick_priority ready ps c = (pid, c')"
  shows "pid \<in> set ready \<and> (\<forall>x \<in> set ready. prio_of ps pid \<le> prio_of ps x)"
proof -
  let ?best = "list_min DEFAULT (map (prio_of ps) ready)"
  let ?cands = "filter (\<lambda>p. prio_of ps p = ?best) ready"
  have "?best \<in> set (map (prio_of ps) ready)" using assms(1) by (intro list_min_in) simp
  then have ne: "0 < length ?cands" by (auto simp: filter_empty_conv)
  have "(c + 1) mod length ?cands < length ?cands" using ne by simp
  then have "?cands ! 0 \<in> set ?cands" "?cands ! ((c + 1) mod length ?cands) \<in> set ?cands"
    using ne nth_mem by blast+
  then have "pid \<in> set ?cands" using assms(2) by (auto simp: pick_priority_def Let_def split: if_splits)
  then show ?thesis by (auto intro: list_min_le)
qed

lemma pick_fair_min:
  assumes "ready \<noteq> []" and "pick_fair ready vr ps = (pid, vr')"
  shows "pid \<in> set ready \<and>
    (\<forall>x \<in> set ready. (vrt_of vr' pid, unat (prio_of ps pid)) \<le> (vrt_of vr' x, unat (prio_of ps x)))"
proof -
  obtain y where y: "min_by_key (\<lambda>pid. (vrt_of vr' pid, unat (prio_of ps pid))) ready = Some y"
    using min_by_key_exists [OF assms(1)] by blast
  then have "y = pid" using assms(2) by (auto simp: pick_fair_def Let_def)
  then show ?thesis using min_by_key_Some [OF y] by blast
qed

text \<open>
  The scheduler picks a task that can run, and the right one for the policy: under the
  priority policies no runnable task is more urgent; under the fair policy none has a smaller
  virtual runtime (with priority as the tie-break), counting those it has just entered at the
  minimum; under round robin the choice is the next of the runnable tasks. It returns none only
  when nothing can run, and it counts a context switch exactly when the choice changes the task.
\<close>

lemma get_next_task_spec:
  assumes "get_next_task ts s = (r, s')"
  shows "case r of
      None \<Rightarrow> ready_pids ts = [] \<and> s' = s
    | Some pid \<Rightarrow> pid \<in> set (ready_pids ts) \<and>
        sd_context_switches s' = sd_context_switches s + (if pid = current_pid ts then 0 else 1) \<and>
        (case sd_policy s of
           RoundRobin \<Rightarrow> sd_rr_cursor s' = (sd_rr_cursor s + 1) mod length (ready_pids ts) \<and>
             pid = ready_pids ts ! sd_rr_cursor s'
         | Fair \<Rightarrow> (\<forall>x \<in> set (ready_pids ts).
             (vrt_of (sd_vruntime s') pid, unat (get_task_priority s pid)) \<le>
             (vrt_of (sd_vruntime s') x, unat (get_task_priority s x)))
         | _ \<Rightarrow> (\<forall>x \<in> set (ready_pids ts). get_task_priority s pid \<le> get_task_priority s x))"
proof (cases "ready_pids ts = []")
  case True
  then show ?thesis using assms by (auto simp: get_next_task_def split: if_splits)
next
  case False
  then have ne: "task_list ts \<noteq> []" by (auto simp: ready_pids_def)
  obtain p1 c1 where 1: "pick_rr (ready_pids ts) (sd_rr_cursor s) = (p1, c1)" by fastforce
  obtain p2 c2 where 2: "pick_priority (ready_pids ts) (sd_priorities s) (sd_rr_cursor s) = (p2, c2)"
    by fastforce
  obtain p3 v3 where 3: "pick_fair (ready_pids ts) (sd_vruntime s) (sd_priorities s) = (p3, v3)"
    by fastforce
  note picks = pick_rr_next [OF False 1] pick_priority_min [OF False 2] pick_fair_min [OF False 3]
  show ?thesis
  proof (cases "sd_policy s")
    case RoundRobin
    have "p1 \<in> set (ready_pids ts)" using picks(1) by blast
    with RoundRobin show ?thesis using assms False ne 1 picks(1)
      by (auto simp: get_next_task_def Let_def simp del: nth_mem)
  next
    case Fair
    then show ?thesis using assms False ne 3 picks(3)
      by (auto simp: get_next_task_def get_task_priority_def Let_def simp del: less_eq_prod_simp)
  qed (use assms False ne 2 picks(2) in \<open>auto simp: get_next_task_def get_task_priority_def Let_def\<close>)
qed

definition sched_fair :: sched where
  "sched_fair = sched_boot\<lparr>sd_policy := Fair\<rparr>"

lemma get_next_task_spec_instance:
  "case fst (get_next_task two_tasks sched_fair) of
      None \<Rightarrow> ready_pids two_tasks = [] \<and> snd (get_next_task two_tasks sched_fair) = sched_fair
    | Some pid \<Rightarrow> pid \<in> set (ready_pids two_tasks) \<and>
        sd_context_switches (snd (get_next_task two_tasks sched_fair)) =
          sd_context_switches sched_fair + (if pid = current_pid two_tasks then 0 else 1) \<and>
        (case sd_policy sched_fair of
           RoundRobin \<Rightarrow> sd_rr_cursor (snd (get_next_task two_tasks sched_fair)) =
               (sd_rr_cursor sched_fair + 1) mod length (ready_pids two_tasks) \<and>
             pid = ready_pids two_tasks ! sd_rr_cursor (snd (get_next_task two_tasks sched_fair))
         | Fair \<Rightarrow> (\<forall>x \<in> set (ready_pids two_tasks).
             (vrt_of (sd_vruntime (snd (get_next_task two_tasks sched_fair))) pid,
              unat (get_task_priority sched_fair pid)) \<le>
             (vrt_of (sd_vruntime (snd (get_next_task two_tasks sched_fair))) x,
              unat (get_task_priority sched_fair x)))
         | _ \<Rightarrow> (\<forall>x \<in> set (ready_pids two_tasks).
             get_task_priority sched_fair pid \<le> get_task_priority sched_fair x))"
  by (rule get_next_task_spec) simp

section \<open>Accounting\<close>

definition sched_ok :: "sched \<Rightarrow> bool" where
  "sched_ok s \<longleftrightarrow> bt_ok (sd_ticks s) \<and> bt_ok (sd_vruntime s) \<and> bt_ok (sd_priorities s) \<and>
     sum_list (map snd (sd_ticks s)) = sd_total_ticks s \<and>
     sd_idle_ticks s = (case bt_get (sd_ticks s) 0 of Some t \<Rightarrow> t | None \<Rightarrow> 0)"

lemma sum_bt_insert:
  "bt_ok m \<Longrightarrow> sum_list (map snd (bt_insert k ((case bt_get m k of Some v \<Rightarrow> v | None \<Rightarrow> 0) + n) m)) =
     sum_list (map snd m) + (n :: nat)"
proof (induction m)
  case (Cons e m)
  obtain k' v' where e: "e = (k', v')" by fastforce
  have m: "bt_ok m" "\<forall>x \<in> set (map fst m). k' < x" using Cons.prems e by (auto simp: bt_ok_def)
  have "k < k' \<Longrightarrow> k \<notin> set (map fst m)" using m(2) by fastforce
  then have none: "k < k' \<Longrightarrow> bt_get m k = None" unfolding bt_get_def by (simp add: map_of_eq_None_iff)
  show ?case using Cons.IH [OF m(1)] none e by (auto simp: bt_get_def)
qed simp

lemma scheduler_tick_ok:
  assumes "sched_ok s"
  shows "sched_ok (scheduler_tick ts s)"
  using assms sum_bt_insert [of "sd_ticks s" "current_pid ts" 1]
  by (auto simp: sched_ok_def scheduler_tick_def Let_def split: option.split)

lemma pick_fair_bt_ok:
  assumes "bt_ok vr"
  shows "bt_ok (snd (pick_fair ready vr ps))"
proof -
  have "bt_ok (foldl (\<lambda>m pid. bt_or_insert pid v m) m xs)" if "bt_ok m" for v :: nat and m and xs :: "nat list"
    using that by (induction xs arbitrary: m) auto
  then show ?thesis using assms by (simp add: pick_fair_def Let_def)
qed

lemma get_next_task_ok:
  assumes "sched_ok s"
  shows "sched_ok (snd (get_next_task ts s))"
proof -
  have "bt_ok vr" if "pick_fair ready (sd_vruntime s) (sd_priorities s) = (pid, vr)" for ready pid vr
    using that pick_fair_bt_ok [of "sd_vruntime s" ready "sd_priorities s"] assms by (simp add: sched_ok_def)
  then show ?thesis using assms
    by (auto simp: get_next_task_def sched_ok_def Let_def split: sched_policy.split prod.split)
qed

text \<open>The operations as the steps of a run.\<close>

inductive sched_step :: "sched \<Rightarrow> sched \<Rightarrow> bool" where
  "sched_step s (scheduler_tick ts s)"
| "sched_step s (snd (get_next_task ts s))"
| "sched_step s (set_policy s p)"
| "sched_step s (set_task_priority s pid prio)"
| "sched_step s (nice s pid delta)"
| "sched_step s (renice s pid prio)"

lemma sched_step_ok: "sched_step s s' \<Longrightarrow> sched_ok s \<Longrightarrow> sched_ok s'"
  by (induction rule: sched_step.induct)
     (simp_all add: scheduler_tick_ok get_next_task_ok,
      simp_all add: sched_ok_def set_policy_def set_task_priority_def nice_def renice_def Let_def)

lemma sum_list_bt_get: "bt_get m k = Some (t :: nat) \<Longrightarrow> t \<le> sum_list (map snd m)"
proof -
  assume "bt_get m k = Some t"
  then have "(k, t) \<in> set m" unfolding bt_get_def by (rule map_of_SomeD)
  then have "t \<in> set (map snd m)" by force
  then show ?thesis by (rule member_le_sum_list) simp
qed

text \<open>
  However the scheduler is used, the per-task ticks add up to the total, the idle ticks
  are those of the kernel task, and a task's share of the processor is reported as a true
  percentage: the conversion to a byte never wraps.
\<close>

lemma cpu_accounting:
  assumes "sched_step\<^sup>*\<^sup>* sched_boot s"
  shows "sum_list (map snd (sd_ticks s)) = sd_total_ticks s \<and>
    sd_idle_ticks s = (case bt_get (sd_ticks s) 0 of Some t \<Rightarrow> t | None \<Rightarrow> 0) \<and>
    cpu_usage_percent s pid \<le> 100 \<and>
    unat (cpu_usage_percent s pid) =
      percent (case bt_get (sd_ticks s) pid of Some t \<Rightarrow> t | None \<Rightarrow> 0) (sd_total_ticks s)"
proof -
  have "sched_ok sched_boot" by (simp add: sched_ok_def sched_boot_def)
  with assms have ok: "sched_ok s" by (induction rule: rtranclp_induct) (auto simp: sched_step_ok)
  let ?t = "case bt_get (sd_ticks s) pid of Some t \<Rightarrow> t | None \<Rightarrow> 0"
  let ?p = "percent ?t (sd_total_ticks s)"
  have "?t \<le> sd_total_ticks s"
    using ok sum_list_bt_get [of "sd_ticks s" pid] by (auto simp: sched_ok_def split: option.split)
  then have "?t * 100 div sd_total_ticks s \<le> 100"
    using div_le_mono [of "?t * 100" "100 * sd_total_ticks s" "sd_total_ticks s"]
    by (cases "sd_total_ticks s = 0") auto
  then have p: "?p \<le> 100" by (simp add: percent_def)
  have c: "cpu_usage_percent s pid = of_nat ?p" by (simp add: cpu_usage_percent_def percent_def)
  have u: "unat (cpu_usage_percent s pid) = ?p" using p unfolding c by (simp add: unat_of_nat)
  then have "cpu_usage_percent s pid \<le> 100" using p by (simp add: word_le_nat_alt)
  then show ?thesis using ok u by (simp add: sched_ok_def)
qed

lemma cpu_accounting_instance:
  "sum_list (map snd (sd_ticks (scheduler_tick two_tasks sched_boot))) =
      sd_total_ticks (scheduler_tick two_tasks sched_boot) \<and>
    sd_idle_ticks (scheduler_tick two_tasks sched_boot) =
      (case bt_get (sd_ticks (scheduler_tick two_tasks sched_boot)) 0 of Some t \<Rightarrow> t | None \<Rightarrow> 0) \<and>
    cpu_usage_percent (scheduler_tick two_tasks sched_boot) 1 \<le> 100 \<and>
    unat (cpu_usage_percent (scheduler_tick two_tasks sched_boot) 1) =
      percent (case bt_get (sd_ticks (scheduler_tick two_tasks sched_boot)) 1 of Some t \<Rightarrow> t | None \<Rightarrow> 0)
        (sd_total_ticks (scheduler_tick two_tasks sched_boot))"
  by (rule cpu_accounting) (auto intro: sched_step.intros)

end
