(* ===== verification/Capability.thy ===== *)
theory Capability
  imports Rust_Str
begin

text \<open>
  Capabilities, system-call filters and the audit log (\<^verbatim>\<open>src/capability.rs\<close>).
\<close>

section \<open>Capabilities\<close>

definition CAP_DAC_OVERRIDE :: u64 where "CAP_DAC_OVERRIDE = 1"
definition CAP_KILL :: u64 where "CAP_KILL = 2"
definition CAP_NET_ADMIN :: u64 where "CAP_NET_ADMIN = 4"
definition CAP_NET_RAW :: u64 where "CAP_NET_RAW = 8"
definition CAP_SYS_ADMIN :: u64 where "CAP_SYS_ADMIN = 0x10"
definition CAP_SYS_BOOT :: u64 where "CAP_SYS_BOOT = 0x20"
definition CAP_SYS_MODULE :: u64 where "CAP_SYS_MODULE = 0x40"
definition CAP_SYS_TIME :: u64 where "CAP_SYS_TIME = 0x80"
definition CAP_SETUID :: u64 where "CAP_SETUID = 0x100"
definition CAP_SETGID :: u64 where "CAP_SETGID = 0x200"
definition CAP_CHOWN :: u64 where "CAP_CHOWN = 0x400"
definition CAP_FOWNER :: u64 where "CAP_FOWNER = 0x800"
definition CAP_NET_BIND :: u64 where "CAP_NET_BIND = 0x1000"
definition CAP_AUDIT :: u64 where "CAP_AUDIT = 0x2000"
definition CAP_ALL :: u64 where "CAP_ALL = 0x3FFF"

definition MAX_PROC_CAPS :: usize where "MAX_PROC_CAPS = 64"

record proc_caps =
  cp_pid :: usize
  cp_effective :: u64
  cp_permitted :: u64
  cp_inheritable :: u64

type_synonym caps_table = "proc_caps list"

definition CAP_NAMES :: "(u64 \<times> str) list" where
  "CAP_NAMES = [(CAP_DAC_OVERRIDE, ''DAC_OVERRIDE''), (CAP_KILL, ''KILL''), (CAP_NET_ADMIN, ''NET_ADMIN''),
     (CAP_NET_RAW, ''NET_RAW''), (CAP_SYS_ADMIN, ''SYS_ADMIN''), (CAP_SYS_BOOT, ''SYS_BOOT''),
     (CAP_SYS_MODULE, ''SYS_MODULE''), (CAP_SYS_TIME, ''SYS_TIME''), (CAP_SETUID, ''SETUID''),
     (CAP_SETGID, ''SETGID''), (CAP_CHOWN, ''CHOWN''), (CAP_FOWNER, ''FOWNER''),
     (CAP_NET_BIND, ''NET_BIND''), (CAP_AUDIT, ''AUDIT'')]"

definition cap_name :: "u64 \<Rightarrow> str" where
  "cap_name cap = (case find (\<lambda>(bit, name). cap = bit) CAP_NAMES of Some (_, name) \<Rightarrow> name | None \<Rightarrow> ''UNKNOWN'')"

definition caps_init :: caps_table where
  "caps_init = [\<lparr>cp_pid = 0, cp_effective = CAP_ALL, cp_permitted = CAP_ALL, cp_inheritable = CAP_ALL\<rparr>]"

text \<open>The shape of \<^verbatim>\<open>set_caps\<close> and \<^verbatim>\<open>grant_cap\<close>: change the process's entry, or add one.\<close>

definition upsert_caps :: "caps_table \<Rightarrow> usize \<Rightarrow> (proc_caps \<Rightarrow> proc_caps) \<Rightarrow> proc_caps \<Rightarrow> caps_table" where
  "upsert_caps table pid f new =
     (if list_ex (\<lambda>e. cp_pid e = pid) table then update_first (\<lambda>e. cp_pid e = pid) f table
      else if length table < MAX_PROC_CAPS then table @ [new] else table)"

definition set_caps :: "caps_table \<Rightarrow> usize \<Rightarrow> u64 \<Rightarrow> u64 \<Rightarrow> u64 \<Rightarrow> caps_table" where
  "set_caps table pid effective permitted inheritable =
     upsert_caps table pid
       (\<lambda>e. e\<lparr>cp_effective := effective AND permitted, cp_permitted := permitted, cp_inheritable := inheritable\<rparr>)
       \<lparr>cp_pid = pid, cp_effective = effective AND permitted, cp_permitted = permitted,
        cp_inheritable = inheritable\<rparr>"

definition get_caps :: "caps_table \<Rightarrow> usize \<Rightarrow> u64 \<times> u64 \<times> u64" where
  "get_caps table pid =
     (case find (\<lambda>e. cp_pid e = pid) table of
        Some e \<Rightarrow> (cp_effective e, cp_permitted e, cp_inheritable e)
      | None \<Rightarrow> (0, 0, 0))"

definition has_cap :: "caps_table \<Rightarrow> usize \<Rightarrow> u64 \<Rightarrow> bool" where
  "has_cap table pid cap =
     (case find (\<lambda>e. cp_pid e = pid) table of Some e \<Rightarrow> cp_effective e AND cap = cap | None \<Rightarrow> False)"

definition grant_cap :: "caps_table \<Rightarrow> usize \<Rightarrow> u64 \<Rightarrow> caps_table" where
  "grant_cap table pid cap =
     upsert_caps table pid
       (\<lambda>e. e\<lparr>cp_effective := cp_effective e OR cap, cp_permitted := cp_permitted e OR cap\<rparr>)
       \<lparr>cp_pid = pid, cp_effective = cap, cp_permitted = cap, cp_inheritable = 0\<rparr>"

definition revoke_cap :: "caps_table \<Rightarrow> usize \<Rightarrow> u64 \<Rightarrow> caps_table" where
  "revoke_cap table pid cap =
     update_first (\<lambda>e. cp_pid e = pid) (\<lambda>e. e\<lparr>cp_effective := cp_effective e AND NOT cap\<rparr>) table"

definition inherit_caps :: "caps_table \<Rightarrow> usize \<Rightarrow> usize \<Rightarrow> caps_table" where
  "inherit_caps table parent_pid child_pid =
     (let inh = (case find (\<lambda>e. cp_pid e = parent_pid) table of Some e \<Rightarrow> cp_inheritable e | None \<Rightarrow> 0)
      in set_caps table child_pid inh inh inh)"

definition drop_caps :: "caps_table \<Rightarrow> usize \<Rightarrow> caps_table" where
  "drop_caps table pid = filter (\<lambda>e. cp_pid e \<noteq> pid) table"

fun join_with :: "str \<Rightarrow> str list \<Rightarrow> str" where
  "join_with sep [] = []"
| "join_with sep [s] = s"
| "join_with sep (s # ss) = s @ sep @ join_with sep ss"

definition list_caps :: "caps_table \<Rightarrow> usize \<Rightarrow> str" where
  "list_caps table pid =
     (let (eff, _, _) = get_caps table pid in
      if eff = 0 then ''(none)''
      else if eff = CAP_ALL then ''ALL''
      else join_with '', '' (map snd (filter (\<lambda>(bit, name). eff AND bit \<noteq> 0) CAP_NAMES)))"

section \<open>System-call filters\<close>

definition MAX_SYSCALLS :: usize where "MAX_SYSCALLS = 64"
definition MAX_FILTERS :: usize where "MAX_FILTERS = 32"

datatype filter_action = Allow | Kill | Log

record syscall_filter =
  sf_pid :: usize
  sf_allowed :: u64
  sf_default :: filter_action

definition seccomp_init :: "syscall_filter list" where
  "seccomp_init = []"

definition seccomp_set :: "syscall_filter list \<Rightarrow> usize \<Rightarrow> u64 \<Rightarrow> filter_action \<Rightarrow> syscall_filter list" where
  "seccomp_set filters pid allowed_mask default_action =
     (if list_ex (\<lambda>f. sf_pid f = pid) filters
      then update_first (\<lambda>f. sf_pid f = pid)
             (\<lambda>f. f\<lparr>sf_allowed := allowed_mask, sf_default := default_action\<rparr>) filters
      else if length filters < MAX_FILTERS
      then filters @ [\<lparr>sf_pid = pid, sf_allowed = allowed_mask, sf_default = default_action\<rparr>]
      else filters)"

definition seccomp_check :: "syscall_filter list \<Rightarrow> usize \<Rightarrow> u64 \<Rightarrow> filter_action" where
  "seccomp_check filters pid syscall_num =
     (case find (\<lambda>f. sf_pid f = pid) filters of
        Some f \<Rightarrow>
          if syscall_num < of_nat MAX_SYSCALLS \<and> sf_allowed f AND push_bit (unat syscall_num) 1 \<noteq> 0
          then Allow else sf_default f
      | None \<Rightarrow> Allow)"

definition seccomp_remove :: "syscall_filter list \<Rightarrow> usize \<Rightarrow> syscall_filter list" where
  "seccomp_remove filters pid = filter (\<lambda>f. sf_pid f \<noteq> pid) filters"

definition seccomp_strict :: "syscall_filter list \<Rightarrow> usize \<Rightarrow> syscall_filter list" where
  "seccomp_strict filters pid = seccomp_set filters pid (1 OR 2 OR 4 OR 8) Kill"

definition action_str :: "filter_action \<Rightarrow> str" where
  "action_str a = (case a of Allow \<Rightarrow> ''allow'' | Kill \<Rightarrow> ''kill'' | Log \<Rightarrow> ''log'')"

definition count_ones :: "u64 \<Rightarrow> nat" where
  "count_ones w = length (filter (\<lambda>i. bit w i) [0..<64])"

definition seccomp_display :: "syscall_filter list \<Rightarrow> usize \<Rightarrow> str" where
  "seccomp_display filters pid =
     (case find (\<lambda>f. sf_pid f = pid) filters of
        Some f \<Rightarrow> ''pid '' @ show_nat pid @ '' seccomp: '' @ show_nat (count_ones (sf_allowed f)) @
          '' syscalls allowed, default='' @ action_str (sf_default f)
      | None \<Rightarrow> ''pid '' @ show_nat pid @ '' seccomp: no filter (all allowed)'')"

section \<open>Audit log\<close>

datatype audit_event =
    PermissionDenied u32 str str
  | AuthSuccess str
  | AuthFailed str
  | UserSwitch u32 u32
  | CapabilityDenied usize str
  | SyscallBlocked usize u64
  | SeccompViolation usize u64

record audit_state =
  au_denied :: nat
  au_auth_fail :: nat
  au_auth_ok :: nat
  au_cap_denied :: nat
  au_seccomp :: nat
  au_log :: "str list"

text \<open>Each message goes to the kernel ring buffer and to the serial port; the log lists it once.\<close>

definition audit_msg :: "audit_event \<Rightarrow> str" where
  "audit_msg ev =
     (case ev of
        PermissionDenied uid path access \<Rightarrow> ''[audit] DENIED uid='' @ show_nat (unat uid) @ '' access='' @ access @
          '' path='' @ path
      | AuthSuccess user \<Rightarrow> ''[audit] AUTH_OK user='' @ user
      | AuthFailed user \<Rightarrow> ''[audit] AUTH_FAIL user='' @ user
      | UserSwitch f t \<Rightarrow> ''[audit] USER_SWITCH from='' @ show_nat (unat f) @ '' to='' @ show_nat (unat t)
      | CapabilityDenied pid cap \<Rightarrow> ''[audit] CAP_DENIED pid='' @ show_nat pid @ '' cap='' @ cap
      | SyscallBlocked pid n \<Rightarrow> ''[audit] SYSCALL_BLOCKED pid='' @ show_nat pid @ '' syscall='' @ show_nat (unat n)
      | SeccompViolation pid n \<Rightarrow>
          ''[audit] SECCOMP_VIOLATION pid='' @ show_nat pid @ '' syscall='' @ show_nat (unat n))"

definition audit_log :: "audit_state \<Rightarrow> audit_event \<Rightarrow> audit_state" where
  "audit_log st ev =
     (let st1 = (case ev of
          PermissionDenied _ _ _ \<Rightarrow> st\<lparr>au_denied := au_denied st + 1\<rparr>
        | AuthSuccess _ \<Rightarrow> st\<lparr>au_auth_ok := au_auth_ok st + 1\<rparr>
        | AuthFailed _ \<Rightarrow> st\<lparr>au_auth_fail := au_auth_fail st + 1\<rparr>
        | UserSwitch _ _ \<Rightarrow> st
        | CapabilityDenied _ _ \<Rightarrow> st\<lparr>au_cap_denied := au_cap_denied st + 1\<rparr>
        | SyscallBlocked _ _ \<Rightarrow> st\<lparr>au_seccomp := au_seccomp st + 1\<rparr>
        | SeccompViolation _ _ \<Rightarrow> st\<lparr>au_seccomp := au_seccomp st + 1\<rparr>)
      in st1\<lparr>au_log := au_log st1 @ [audit_msg ev]\<rparr>)"

definition audit_summary :: "audit_state \<Rightarrow> str" where
  "audit_summary st = ''Audit summary: denied='' @ show_nat (au_denied st) @ '' auth_ok='' @
     show_nat (au_auth_ok st) @ '' auth_fail='' @ show_nat (au_auth_fail st) @ '' cap_denied='' @
     show_nat (au_cap_denied st) @ '' seccomp='' @ show_nat (au_seccomp st)"

section \<open>Capabilities in use\<close>

definition caps_ok :: "caps_table \<Rightarrow> bool" where
  "caps_ok table \<longleftrightarrow> length table \<le> MAX_PROC_CAPS \<and> distinct (map cp_pid table) \<and>
     list_all (\<lambda>e. cp_effective e AND cp_permitted e = cp_effective e) table"

lemma find_update_pid:
  assumes "\<And>e. cp_pid (f e) = cp_pid e"
  shows "find (\<lambda>e. cp_pid e = q) (update_first (\<lambda>e. cp_pid e = pid) f table) =
    (if q = pid then map_option f (find (\<lambda>e. cp_pid e = q) table) else find (\<lambda>e. cp_pid e = q) table)"
  using assms by (induction table) auto

lemma upsert_caps_ok:
  assumes "caps_ok table" and "\<And>e. cp_pid (f e) = cp_pid e" and "cp_pid new = pid"
    and "\<And>e. cp_effective e AND cp_permitted e = cp_effective e \<Longrightarrow>
           cp_effective (f e) AND cp_permitted (f e) = cp_effective (f e)"
    and "cp_effective new AND cp_permitted new = cp_effective new"
  shows "caps_ok (upsert_caps table pid f new)"
  using assms
  by (auto simp: caps_ok_def upsert_caps_def map_update_first list_all_update_first list_ex_iff)

lemma and_subset_or: "(a :: u64) AND b = a \<Longrightarrow> (a OR c) AND (b OR c) = a OR c"
proof (rule bit_eqI)
  fix n
  assume "a AND b = a"
  then have "bit a n \<longrightarrow> bit b n" by (metis bit_and_iff)
  then show "bit ((a OR c) AND (b OR c)) n = bit (a OR c) n" by (auto simp: bit_and_iff bit_or_iff)
qed

lemma and_subset_and: "(a :: u64) AND b = a \<Longrightarrow> (a AND c) AND b = a AND c"
  by (metis and.assoc and.commute)

lemma set_caps_ok: "caps_ok table \<Longrightarrow> caps_ok (set_caps table pid e p i)"
  unfolding set_caps_def by (rule upsert_caps_ok) (auto simp: and.assoc)

lemma grant_cap_ok: "caps_ok table \<Longrightarrow> caps_ok (grant_cap table pid cap)"
  unfolding grant_cap_def by (rule upsert_caps_ok) (auto simp: and_subset_or)

lemma revoke_cap_ok: "caps_ok table \<Longrightarrow> caps_ok (revoke_cap table pid cap)"
  by (auto simp: caps_ok_def revoke_cap_def map_update_first and_subset_and intro!: list_all_update_first)

lemma drop_caps_ok: "caps_ok table \<Longrightarrow> caps_ok (drop_caps table pid)"
  by (auto simp: caps_ok_def drop_caps_def list_all_iff distinct_map_filter intro: le_trans [OF length_filter_le])

lemma set_caps_has: "has_cap (set_caps t pid e p i) pid cap \<Longrightarrow> (e AND p) AND cap = cap"
  by (cases "find (\<lambda>e. cp_pid e = pid) t")
     (auto simp: has_cap_def set_caps_def upsert_caps_def list_ex_find find_update_pid find_append
      split: if_splits)

inductive caps_step :: "caps_table \<Rightarrow> caps_table \<Rightarrow> bool" where
  "caps_step t (set_caps t pid e p i)"
| "caps_step t (grant_cap t pid cap)"
| "caps_step t (revoke_cap t pid cap)"
| "caps_step t (inherit_caps t parent child)"
| "caps_step t (drop_caps t pid)"

lemma caps_step_ok: "caps_step t t' \<Longrightarrow> caps_ok t \<Longrightarrow> caps_ok t'"
  by (induction rule: caps_step.induct)
     (simp_all add: set_caps_ok grant_cap_ok revoke_cap_ok drop_caps_ok inherit_caps_def Let_def)

text \<open>
  In every state the calls can lead to, a process's effective capabilities are among its
  permitted ones, and no process has two entries. After \<^verbatim>\<open>revoke_cap\<close> a process has none of
  the revoked bits and other processes keep theirs; a child that inherits holds nothing its
  parent did not mark inheritable.
\<close>

lemma capabilities_bounded:
  assumes "caps_step\<^sup>*\<^sup>* caps_init t"
  shows "length t \<le> MAX_PROC_CAPS \<and> distinct (map cp_pid t) \<and>
    (\<forall>pid. case get_caps t pid of (e, p, i) \<Rightarrow> e AND p = e) \<and>
    (\<forall>pid cap. fst (get_caps (revoke_cap t pid cap) pid) = fst (get_caps t pid) AND NOT cap) \<and>
    (\<forall>pid cap q. q \<noteq> pid \<longrightarrow> get_caps (revoke_cap t pid cap) q = get_caps t q) \<and>
    (\<forall>parent child cap. has_cap (inherit_caps t parent child) child cap \<longrightarrow>
       snd (snd (get_caps t parent)) AND cap = cap)"
proof -
  have "caps_ok caps_init" by (simp add: caps_ok_def caps_init_def MAX_PROC_CAPS_def)
  with assms have ok: "caps_ok t" by (induction rule: rtranclp_induct) (auto simp: caps_step_ok)
  have "case get_caps t pid of (e, p, i) \<Rightarrow> e AND p = e" for pid
    using ok by (auto simp: caps_ok_def get_caps_def list_all_iff dest!: find_Some_in split: option.split)
  moreover have "fst (get_caps (revoke_cap t pid cap) pid) = fst (get_caps t pid) AND NOT cap" for pid cap
    by (auto simp: get_caps_def revoke_cap_def find_update_pid split: option.split)
  moreover have "get_caps (revoke_cap t pid cap) q = get_caps t q" if "q \<noteq> pid" for pid q cap
    using that by (simp add: get_caps_def revoke_cap_def find_update_pid)
  moreover have "snd (snd (get_caps t parent)) AND cap = cap"
    if "has_cap (inherit_caps t parent child) child cap" for parent child cap
    using set_caps_has [OF that [unfolded inherit_caps_def Let_def]]
    by (auto simp: get_caps_def split: option.splits)
  ultimately show ?thesis using ok by (auto simp: caps_ok_def)
qed

lemma capabilities_bounded_instance:
  "length (grant_cap caps_init 7 CAP_KILL) \<le> MAX_PROC_CAPS \<and>
    distinct (map cp_pid (grant_cap caps_init 7 CAP_KILL)) \<and>
    fst (get_caps (revoke_cap (grant_cap caps_init 7 CAP_KILL) 7 CAP_KILL) 7) = 0"
proof -
  have "caps_step\<^sup>*\<^sup>* caps_init (grant_cap caps_init 7 CAP_KILL)" by (auto intro: caps_step.intros)
  from capabilities_bounded [OF this]
  have "length (grant_cap caps_init 7 CAP_KILL) \<le> MAX_PROC_CAPS"
    and "distinct (map cp_pid (grant_cap caps_init 7 CAP_KILL))"
    and "fst (get_caps (revoke_cap (grant_cap caps_init 7 CAP_KILL) 7 CAP_KILL) 7) =
      fst (get_caps (grant_cap caps_init 7 CAP_KILL) 7) AND NOT CAP_KILL" by blast+
  moreover have "fst (get_caps (grant_cap caps_init 7 CAP_KILL) 7) AND NOT CAP_KILL = 0" by code_simp
  ultimately show ?thesis by simp
qed

section \<open>Filters in use\<close>

lemma find_update_filter:
  assumes "\<And>f. sf_pid (g f) = sf_pid f"
  shows "find (\<lambda>f. sf_pid f = q) (update_first (\<lambda>f. sf_pid f = pid) g fs) =
    (if q = pid then map_option g (find (\<lambda>f. sf_pid f = q) fs) else find (\<lambda>f. sf_pid f = q) fs)"
  using assms by (induction fs) auto

text \<open>
  What a filter does once it is set: a call below 64 whose bit is set is allowed, every
  other call, 64 and above included whatever the mask, gets the default action; other
  processes' filters are unchanged. When 32 other processes have filters already, setting a
  new one has no effect, and the process stays unfiltered: every call is allowed, also in
  strict mode.
\<close>

lemma seccomp_set_check:
  "seccomp_check (seccomp_set fs pid allowed act) pid n =
     (if (\<exists>f \<in> set fs. sf_pid f = pid) \<or> length fs < MAX_FILTERS
      then (if n < 64 \<and> bit allowed (unat n) then Allow else act)
      else Allow) \<and>
   (q \<noteq> pid \<longrightarrow> seccomp_check (seccomp_set fs pid allowed act) q n = seccomp_check fs q n) \<and>
   ((\<forall>f \<in> set fs. sf_pid f \<noteq> pid) \<and> length fs \<ge> MAX_FILTERS \<longrightarrow>
      seccomp_check (seccomp_strict fs pid) pid n = Allow)"
proof -
  have full: "seccomp_check (seccomp_set fs pid allowed' act') pid n =
     (if (\<exists>f \<in> set fs. sf_pid f = pid) \<or> length fs < MAX_FILTERS
      then (if n < 64 \<and> bit allowed' (unat n) then Allow else act')
      else Allow)" for allowed' act'
  proof -
    have ex: "(\<exists>f \<in> set fs. sf_pid f = pid) \<longleftrightarrow> find (\<lambda>f. sf_pid f = pid) fs \<noteq> None"
      by (simp only: list_ex_find [symmetric] list_ex_iff)
    show ?thesis unfolding ex
      by (cases "find (\<lambda>f. sf_pid f = pid) fs")
         (simp_all add: seccomp_check_def seccomp_set_def list_ex_find find_update_filter find_append
          and_exp_eq_0_iff_not_bit MAX_SYSCALLS_def)
  qed
  moreover have "seccomp_check (seccomp_set fs pid allowed act) q n = seccomp_check fs q n" if "q \<noteq> pid"
    using that by (auto simp: seccomp_check_def seccomp_set_def find_update_filter find_append
        split: option.splits)
  ultimately show ?thesis by (auto simp: seccomp_strict_def)
qed

lemma seccomp_set_check_instance:
  "seccomp_check (seccomp_set [] 5 3 Kill) 5 1 = Allow \<and> seccomp_check (seccomp_set [] 5 3 Kill) 5 2 = Kill \<and>
   seccomp_check (seccomp_set [] 5 3 Kill) 6 2 = Allow"
  using seccomp_set_check [of "[]" 5 3 Kill 1 6] seccomp_set_check [of "[]" 5 3 Kill 2 6]
  by (simp add: MAX_FILTERS_def seccomp_check_def bit_iff_odd)

end
