(* ===== verification/Signals.thy ===== *)
theory Signals
  imports Task
begin

text \<open>
  Signals: the simple \<^verbatim>\<open>send_signal\<close> of \<^verbatim>\<open>src/signal.rs\<close> with its per-slot pending masks,
  and the handler tables of \<^verbatim>\<open>src/sighandler.rs\<close>. User handlers are opaque values; running
  one is a parameter of \<^verbatim>\<open>check_pending_signals\<close>.
\<close>

section \<open>Signal numbers\<close>

definition SIGKILL :: u8 where "SIGKILL = 9"
definition SIGTERM :: u8 where "SIGTERM = 15"
definition SIGSTOP :: u8 where "SIGSTOP = 19"
definition SIGCONT :: u8 where "SIGCONT = 18"
definition SIGCHLD :: u8 where "SIGCHLD = 17"
definition SIGINT :: u8 where "SIGINT = 2"
definition SIGUSR1 :: u8 where "SIGUSR1 = 10"
definition SIGUSR2 :: u8 where "SIGUSR2 = 12"

lemmas signal_numbers = SIGKILL_def SIGTERM_def SIGSTOP_def SIGCONT_def SIGCHLD_def SIGINT_def
  SIGUSR1_def SIGUSR2_def

section \<open>Pending masks\<close>

record signals =
  sg_pending :: "u32 list"
  sg_tasks :: tasks

definition signals_boot :: "tasks \<Rightarrow> signals" where
  "signals_boot ts = \<lparr>sg_pending = replicate MAX_TASKS 0, sg_tasks = ts\<rparr>"

definition send_signal :: "signals \<Rightarrow> usize \<Rightarrow> u8 \<Rightarrow> unit result \<times> signals" where
  "send_signal st pid signal =
     (if pid = 0 then (Err ''cannot signal kernel task'', st)
      else
        let tasks = task_list (sg_tasks st) in
        if find (\<lambda>t. fst t = pid) tasks = None then (Err ''task not found'', st)
        else if signal = SIGKILL \<or> signal = SIGTERM then
          (case task_kill (sg_tasks st) pid of
             (Inl e, ts) \<Rightarrow> (Err e, st\<lparr>sg_tasks := ts\<rparr>)
           | (Inr _, ts) \<Rightarrow> (Ok (), st\<lparr>sg_tasks := ts\<rparr>))
        else if signal = SIGSTOP \<or> signal = SIGCONT then
          (Ok (), case position (\<lambda>t. fst t = pid) tasks of
             Some i \<Rightarrow>
               if i < MAX_TASKS
               then st\<lparr>sg_pending := (sg_pending st)[i := (sg_pending st ! i) OR push_bit (unat signal) 1]\<rparr>
               else st
           | None \<Rightarrow> st)
        else (Err ''unknown signal'', st))"

definition signal_name :: "u8 \<Rightarrow> str" where
  "signal_name sig =
     (if sig = SIGKILL then ''SIGKILL'' else if sig = SIGTERM then ''SIGTERM''
      else if sig = SIGSTOP then ''SIGSTOP'' else if sig = SIGCONT then ''SIGCONT'' else ''UNKNOWN'')"

section \<open>Handler tables\<close>

definition MAX_SIGNALS :: usize where "MAX_SIGNALS = 16"
definition MAX_PROCESSES :: usize where "MAX_PROCESSES = 8"
definition SIGNAL_QUEUE_CAP :: usize where "SIGNAL_QUEUE_CAP = 32"

datatype 'h handler = Default | Ignore | Custom 'h

record 'h proc_signals =
  ps_pid :: usize
  ps_handlers :: "'h handler list"
  ps_pending :: "u8 list"
  ps_stopped :: bool

type_synonym 'h sig_table = "'h proc_signals list"

record 'h sig_state =
  ss_table :: "'h sig_table"
  ss_tasks :: tasks

definition free_slot :: "'h proc_signals" where
  "free_slot = \<lparr>ps_pid = 0, ps_handlers = replicate MAX_SIGNALS Default, ps_pending = [], ps_stopped = False\<rparr>"

definition ensure_init :: "'h sig_table \<Rightarrow> 'h sig_table" where
  "ensure_init table = (if table = [] then replicate MAX_PROCESSES free_slot else table)"

definition slot_for :: "'h sig_table \<Rightarrow> usize \<Rightarrow> (usize \<times> 'h sig_table) option" where
  "slot_for table pid =
     (case position (\<lambda>s. ps_pid s = pid) table of
        Some i \<Rightarrow> Some (i, table)
      | None \<Rightarrow>
          (case position (\<lambda>s. ps_pid s = 0) table of
             Some i \<Rightarrow> Some (i, table[i := (table ! i)\<lparr>ps_pid := pid\<rparr>])
           | None \<Rightarrow> None))"

definition bad_signal :: "u8 \<Rightarrow> bool" where
  "bad_signal signal \<longleftrightarrow> signal = 0 \<or> unat signal > MAX_SIGNALS"

definition register_handler :: "'h sig_state \<Rightarrow> usize \<Rightarrow> u8 \<Rightarrow> 'h handler \<Rightarrow> unit result \<times> 'h sig_state" where
  "register_handler st pid signal h =
     (if bad_signal signal then (Err ''signal number out of range'', st)
      else if (signal = SIGKILL \<or> signal = SIGSTOP) \<and> h \<noteq> Default
      then (Err ''cannot override SIGKILL or SIGSTOP'', st)
      else
        let table = ensure_init (ss_table st) in
        case slot_for table pid of
          None \<Rightarrow> (Err ''process signal table full'', st\<lparr>ss_table := table\<rparr>)
        | Some (idx, table1) \<Rightarrow>
            (Ok (), st\<lparr>ss_table := table1[idx := (table1 ! idx)\<lparr>ps_handlers :=
               (ps_handlers (table1 ! idx))[unat (signal - 1) := h]\<rparr>]\<rparr>))"

definition deliver_signal :: "'h sig_state \<Rightarrow> usize \<Rightarrow> u8 \<Rightarrow> unit result \<times> 'h sig_state" where
  "deliver_signal st pid signal =
     (if bad_signal signal then (Err ''signal number out of range'', st)
      else
        let table = ensure_init (ss_table st); st0 = st\<lparr>ss_table := table\<rparr> in
        if signal = SIGKILL then (Ok (), st0\<lparr>ss_tasks := snd (task_kill (ss_tasks st0) pid)\<rparr>)
        else case slot_for table pid of
          None \<Rightarrow> (Err ''process signal table full'', st0)
        | Some (idx, table1) \<Rightarrow>
            let s = table1 ! idx;
                s1 = (if signal = SIGSTOP then s\<lparr>ps_stopped := True\<rparr>
                      else if signal = SIGCONT then s\<lparr>ps_stopped := False\<rparr>
                      else if length (ps_pending s) < SIGNAL_QUEUE_CAP
                      then s\<lparr>ps_pending := ps_pending s @ [signal]\<rparr> else s)
            in (Ok (), st0\<lparr>ss_table := table1[idx := s1]\<rparr>))"

definition sigaction :: "'h sig_state \<Rightarrow> u8 \<Rightarrow> 'h handler \<Rightarrow> unit result \<times> 'h sig_state" where
  "sigaction st signal h = register_handler st (current_pid (ss_tasks st)) signal h"

definition dispatch_default :: "'h sig_state \<Rightarrow> usize \<Rightarrow> u8 \<Rightarrow> 'h sig_state" where
  "dispatch_default st pid signal =
     (if signal = SIGCHLD then st
      else st\<lparr>ss_tasks := snd (task_kill (ss_tasks st) pid)\<rparr>)"

definition dispatch_one :: "('h \<Rightarrow> u8 \<Rightarrow> 'h sig_state \<Rightarrow> 'h sig_state) \<Rightarrow> 'h handler list \<Rightarrow> usize
    \<Rightarrow> 'h sig_state \<Rightarrow> u8 \<Rightarrow> 'h sig_state" where
  "dispatch_one run handlers pid st sig =
     (if bad_signal sig then st
      else case handlers ! unat (sig - 1) of
        Custom f \<Rightarrow> run f sig st
      | Ignore \<Rightarrow> st
      | Default \<Rightarrow> dispatch_default st pid sig)"

definition check_pending_signals :: "('h \<Rightarrow> u8 \<Rightarrow> 'h sig_state \<Rightarrow> 'h sig_state) \<Rightarrow> 'h sig_state \<Rightarrow> usize
    \<Rightarrow> 'h sig_state" where
  "check_pending_signals run st pid =
     (let table = ensure_init (ss_table st); st0 = st\<lparr>ss_table := table\<rparr> in
      case position (\<lambda>s. ps_pid s = pid) table of
        None \<Rightarrow> st0
      | Some idx \<Rightarrow>
          if ps_stopped (table ! idx) then st0
          else
            let pending = ps_pending (table ! idx); handlers = ps_handlers (table ! idx);
                st1 = st0\<lparr>ss_table := table[idx := (table ! idx)\<lparr>ps_pending := []\<rparr>]\<rparr>
            in foldl (dispatch_one run handlers pid) st1 pending)"

definition sig_cleanup :: "'h sig_state \<Rightarrow> usize \<Rightarrow> 'h sig_state" where
  "sig_cleanup st pid =
     st\<lparr>ss_table := update_first (\<lambda>s. ps_pid s = pid) (\<lambda>s. free_slot) (ensure_init (ss_table st))\<rparr>"

section \<open>The handler table\<close>

definition proc_signals_ok :: "'h proc_signals \<Rightarrow> bool" where
  "proc_signals_ok s \<longleftrightarrow> length (ps_handlers s) = MAX_SIGNALS \<and> length (ps_pending s) \<le> SIGNAL_QUEUE_CAP \<and>
     list_all (\<lambda>sig. \<not> bad_signal sig \<and> sig \<noteq> SIGKILL) (ps_pending s) \<and>
     ps_handlers s ! (unat SIGKILL - 1) = Default \<and> \<not> ps_stopped s"

definition sig_ok :: "'h sig_state \<Rightarrow> bool" where
  "sig_ok st \<longleftrightarrow> list_all proc_signals_ok (ss_table st) \<and>
     (ss_table st = [] \<or> length (ss_table st) = MAX_PROCESSES)"

lemma free_slot_ok: "proc_signals_ok free_slot"
  by (simp add: proc_signals_ok_def free_slot_def MAX_SIGNALS_def SIGKILL_def)

lemma ensure_init_ok:
  assumes "sig_ok st"
  shows "list_all proc_signals_ok (ensure_init (ss_table st)) \<and> length (ensure_init (ss_table st)) = MAX_PROCESSES"
  using assms free_slot_ok by (auto simp: sig_ok_def ensure_init_def list_all_iff)

lemma slot_for_ok:
  assumes "list_all proc_signals_ok table" and "slot_for table pid = Some (idx, table1)"
  shows "list_all proc_signals_ok table1" and "length table1 = length table" and "idx < length table1"
    and "proc_signals_ok (table1 ! idx)"
proof -
  have bump: "proc_signals_ok (s\<lparr>ps_pid := pid\<rparr>) = proc_signals_ok s" for s :: "'a proc_signals"
    by (simp add: proc_signals_ok_def)
  have c: "idx < length table" "table1 = table \<or> table1 = table[idx := (table ! idx)\<lparr>ps_pid := pid\<rparr>]"
    using assms(2) by (auto simp: slot_for_def dest: position_SomeD(1) split: option.splits)
  have p: "proc_signals_ok (table ! idx)" using assms(1) c(1) by (simp add: list_all_length)
  show all: "list_all proc_signals_ok table1"
    using c(2) assms(1) bump p by (auto intro: list_all_list_update)
  show len: "length table1 = length table" and "idx < length table1" using c by auto
  then show "proc_signals_ok (table1 ! idx)" using all by (simp add: list_all_length)
qed

lemma sig_ok_update:
  assumes "list_all proc_signals_ok table" and "length table = MAX_PROCESSES" and "proc_signals_ok s"
  shows "sig_ok (st\<lparr>ss_table := table[idx := s]\<rparr>)"
  using assms by (simp add: sig_ok_def list_all_list_update)

lemma sig_ok_tasks [simp]: "sig_ok (st\<lparr>ss_tasks := ts\<rparr>) = sig_ok st"
  by (simp add: sig_ok_def)

text \<open>No number above 16 is a signal, so the stop signals are refused.\<close>

lemma stop_signals_bad: "bad_signal SIGSTOP" "bad_signal SIGCONT" "bad_signal SIGCHLD"
  by (simp_all add: bad_signal_def signal_numbers MAX_SIGNALS_def)

lemma bad_index: "\<not> bad_signal signal \<Longrightarrow> signal \<noteq> SIGKILL \<Longrightarrow> unat (signal - 1) \<noteq> unat SIGKILL - 1"
proof -
  assume a: "\<not> bad_signal signal" "signal \<noteq> SIGKILL"
  have "unat (signal - 1) = unat signal - 1"
    using a(1) by (intro unat_minus_one) (simp add: bad_signal_def)
  moreover have "unat signal \<noteq> unat SIGKILL" using a(2) unsigned_word_eqI [of signal SIGKILL, where 'a = nat] by blast
  moreover have "unat signal \<noteq> 0" using a(1) by (simp add: bad_signal_def unat_eq_zero)
  ultimately show ?thesis by (simp add: SIGKILL_def)
qed

lemma register_handler_ok:
  assumes "sig_ok st"
  shows "sig_ok (snd (register_handler st pid signal h))"
proof (cases "bad_signal signal \<or> ((signal = SIGKILL \<or> signal = SIGSTOP) \<and> h \<noteq> Default)")
  case False
  note init = ensure_init_ok [OF assms]
  show ?thesis
  proof (cases "slot_for (ensure_init (ss_table st)) pid")
    case None
    then show ?thesis using False init by (auto simp: register_handler_def sig_ok_def Let_def)
  next
    case (Some r)
    obtain idx table1 where r: "r = (idx, table1)" by fastforce
    note s = slot_for_ok [OF conjunct1 [OF init] Some [unfolded r]]
    have "(ps_handlers (table1 ! idx))[unat (signal - 1) := h] ! (unat SIGKILL - 1) = Default"
      using False s(4) bad_index [of signal]
      by (cases "signal = SIGKILL") (auto simp: proc_signals_ok_def nth_list_update SIGKILL_def MAX_SIGNALS_def)
    then have "proc_signals_ok ((table1 ! idx)\<lparr>ps_handlers := (ps_handlers (table1 ! idx))[unat (signal - 1) := h]\<rparr>)"
      using s(4) by (simp add: proc_signals_ok_def)
    then have "sig_ok (st\<lparr>ss_table := table1[idx := (table1 ! idx)\<lparr>ps_handlers :=
        (ps_handlers (table1 ! idx))[unat (signal - 1) := h]\<rparr>]\<rparr>)"
      using s(1, 2) init by (intro sig_ok_update) auto
    then show ?thesis using False Some r by (auto simp: register_handler_def Let_def)
  qed
qed (use assms in \<open>auto simp: register_handler_def\<close>)

lemma deliver_signal_ok:
  assumes "sig_ok st"
  shows "sig_ok (snd (deliver_signal st pid signal))"
proof (cases "bad_signal signal")
  case False
  note init = ensure_init_ok [OF assms]
  then have ok0: "sig_ok (st\<lparr>ss_table := ensure_init (ss_table st)\<rparr>)" by (simp add: sig_ok_def)
  show ?thesis
  proof (cases "signal = SIGKILL")
    case True
    then show ?thesis using False ok0 by (simp add: deliver_signal_def Let_def)
  next
    case nk: False
    have ns: "signal \<noteq> SIGSTOP" "signal \<noteq> SIGCONT" using False stop_signals_bad by auto
    show ?thesis
    proof (cases "slot_for (ensure_init (ss_table st)) pid")
      case None
      then show ?thesis using False nk ok0 by (simp add: deliver_signal_def Let_def)
    next
      case (Some r)
      obtain idx table1 where r: "r = (idx, table1)" by fastforce
      note s = slot_for_ok [OF conjunct1 [OF init] Some [unfolded r]]
      have "proc_signals_ok (if length (ps_pending (table1 ! idx)) < SIGNAL_QUEUE_CAP
          then (table1 ! idx)\<lparr>ps_pending := ps_pending (table1 ! idx) @ [signal]\<rparr> else table1 ! idx)"
        using s(4) False nk by (simp add: proc_signals_ok_def)
      then have "sig_ok (st\<lparr>ss_table := table1[idx :=
          if length (ps_pending (table1 ! idx)) < SIGNAL_QUEUE_CAP
          then (table1 ! idx)\<lparr>ps_pending := ps_pending (table1 ! idx) @ [signal]\<rparr> else table1 ! idx]\<rparr>)"
        using s(1, 2) init by (intro sig_ok_update) auto
      then show ?thesis using False nk ns Some r by (simp add: deliver_signal_def Let_def)
    qed
  qed
qed (use assms in \<open>simp add: deliver_signal_def\<close>)

lemma dispatch_ok:
  assumes "\<And>f sig s. sig_ok s \<Longrightarrow> sig_ok (run f sig s)"
  shows "sig_ok st \<Longrightarrow> sig_ok (foldl (dispatch_one run handlers pid) st pending)"
proof (induction pending arbitrary: st)
  case (Cons sig pending)
  have "sig_ok (dispatch_one run handlers pid st sig)"
    using Cons.prems assms by (auto simp: dispatch_one_def dispatch_default_def split: handler.split)
  then show ?case using Cons.IH by simp
qed simp

lemma check_pending_ok:
  assumes "sig_ok st" and "\<And>f sig s. sig_ok s \<Longrightarrow> sig_ok (run f sig s)"
  shows "sig_ok (check_pending_signals run st pid)"
proof -
  let ?table = "ensure_init (ss_table st)"
  note init = ensure_init_ok [OF assms(1)]
  have ok0: "sig_ok (st\<lparr>ss_table := ?table\<rparr>)" using init by (simp add: sig_ok_def)
  have "sig_ok (st\<lparr>ss_table := ?table[idx := (?table ! idx)\<lparr>ps_pending := []\<rparr>]\<rparr>)" if "idx < length ?table" for idx
  proof (rule sig_ok_update)
    show "proc_signals_ok ((?table ! idx)\<lparr>ps_pending := []\<rparr>)"
      using init that by (auto simp: list_all_length proc_signals_ok_def)
  qed (use init in auto)
  then show ?thesis using ok0 dispatch_ok [OF assms(2)]
    by (auto simp: check_pending_signals_def Let_def dest: position_SomeD split: option.split)
qed

lemma cleanup_ok: "sig_ok st \<Longrightarrow> sig_ok (sig_cleanup st pid)"
  using ensure_init_ok [of st] free_slot_ok
  by (auto simp: sig_ok_def sig_cleanup_def intro: list_all_update_first)

text \<open>The calls, for handlers that use the same interface.\<close>

inductive sig_step :: "('h \<Rightarrow> u8 \<Rightarrow> 'h sig_state \<Rightarrow> 'h sig_state) \<Rightarrow> 'h sig_state \<Rightarrow> 'h sig_state \<Rightarrow> bool"
  for run where
  "sig_step run st (snd (register_handler st pid signal h))"
| "sig_step run st (snd (sigaction st signal h))"
| "sig_step run st (snd (deliver_signal st pid signal))"
| "sig_step run st (check_pending_signals run st pid)"
| "sig_step run st (sig_cleanup st pid)"

lemma sig_step_ok:
  "sig_step run st st' \<Longrightarrow> (\<And>f sig s. sig_ok s \<Longrightarrow> sig_ok (run f sig s)) \<Longrightarrow> sig_ok st \<Longrightarrow> sig_ok st'"
  by (induction rule: sig_step.induct)
     (auto simp: sigaction_def register_handler_ok deliver_signal_ok check_pending_ok cleanup_ok)

text \<open>
  Starting from the empty table, with handlers that themselves only use these calls, no
  process ever catches \<^verbatim>\<open>SIGKILL\<close> and no queue exceeds 32 signals; but no process is ever
  stopped either: the numbers of \<^verbatim>\<open>SIGSTOP\<close>, \<^verbatim>\<open>SIGCONT\<close> and \<^verbatim>\<open>SIGCHLD\<close> exceed the 16 the
  tables have, and delivering or handling them is an error.
\<close>

lemma signal_table_safe:
  assumes "(sig_step run)\<^sup>*\<^sup>* \<lparr>ss_table = [], ss_tasks = ts\<rparr> st"
    and "\<And>f sig s. sig_ok s \<Longrightarrow> sig_ok (run f sig s)"
  shows "(\<forall>s \<in> set (ss_table st). ps_handlers s ! 8 = Default \<and> length (ps_pending s) \<le> SIGNAL_QUEUE_CAP \<and>
      \<not> ps_stopped s) \<and>
    (\<forall>sig \<in> {SIGSTOP, SIGCONT, SIGCHLD}. \<forall>pid h.
      deliver_signal st pid sig = (Err ''signal number out of range'', st) \<and>
      register_handler st pid sig h = (Err ''signal number out of range'', st))"
proof -
  have "sig_ok \<lparr>ss_table = [], ss_tasks = ts\<rparr>" by (simp add: sig_ok_def)
  with assms(1) have "sig_ok st" by (induction rule: rtranclp_induct) (auto simp: sig_step_ok [OF _ assms(2)])
  then have "\<forall>s \<in> set (ss_table st). proc_signals_ok s" by (simp add: sig_ok_def list_all_iff)
  moreover have "unat SIGKILL - 1 = 8" by (simp add: SIGKILL_def)
  ultimately have "\<forall>s \<in> set (ss_table st). ps_handlers s ! 8 = Default \<and>
      length (ps_pending s) \<le> SIGNAL_QUEUE_CAP \<and> \<not> ps_stopped s"
    by (simp add: proc_signals_ok_def)
  then show ?thesis using stop_signals_bad by (auto simp: deliver_signal_def register_handler_def)
qed

definition sig_after_int :: "unit sig_state" where
  "sig_after_int = snd (deliver_signal \<lparr>ss_table = [], ss_tasks = two_tasks\<rparr> 1 SIGINT)"

lemma signal_table_safe_instance:
  "deliver_signal sig_after_int 1 SIGSTOP = (Err ''signal number out of range'', sig_after_int) \<and>
   map (\<lambda>s. ps_handlers s ! 8) (ss_table sig_after_int) = replicate 8 Default"
proof -
  have "(sig_step (\<lambda>f sig s. s))\<^sup>*\<^sup>* \<lparr>ss_table = [], ss_tasks = two_tasks\<rparr> sig_after_int"
    by (auto simp: sig_after_int_def intro: sig_step.intros)
  from signal_table_safe [OF this]
  have "deliver_signal sig_after_int 1 SIGSTOP = (Err ''signal number out of range'', sig_after_int)"
    and h: "\<forall>s \<in> set (ss_table sig_after_int). ps_handlers s ! 8 = Default" by simp_all
  moreover have "length (ss_table sig_after_int) = 8" by code_simp
  moreover have "map (\<lambda>s. ps_handlers s ! 8) (ss_table sig_after_int) = replicate (length (ss_table sig_after_int)) Default"
    using h by (simp add: list_eq_iff_nth_eq)
  ultimately show ?thesis by simp
qed

text \<open>
  A handler registered for the kernel task (PID 0) lands in a free slot, since free slots
  are marked with PID 0: the next process to get that slot has it as its own handler.
\<close>

lemma kernel_handler_leaks:
  "let st0 = \<lparr>ss_table = [], ss_tasks = two_tasks\<rparr>;
       st1 = snd (register_handler st0 0 SIGINT (Custom (7 :: nat)));
       st2 = snd (deliver_signal st1 5 SIGINT)
   in map_option (\<lambda>s. (ps_handlers s ! 1, ps_pending s)) (find (\<lambda>s. ps_pid s = 5) (ss_table st2)) =
        Some (Custom 7, [SIGINT])"
  by code_simp

section \<open>The flag of a stopped task\<close>

text \<open>
  \<^verbatim>\<open>send_signal\<close> sets the stop flag at the position of the task in the list of unfinished
  tasks, not at its slot: after the task of slot 1 has finished, stopping the task of slot 2
  flags slot 1.
\<close>

lemma stop_flag_wrong_slot:
  "let ts = snd (spawn two_tasks ''b'' 0x20000 1 2);
       ts1 = snd (task_kill ts 1);
       st = snd (send_signal (signals_boot ts1) 2 SIGSTOP)
   in map_option tk_pid (ts_slots ts1 ! 2) = Some 2 \<and> sg_pending st ! 2 = 0 \<and>
      sg_pending st ! 1 = push_bit 19 1"
  by code_simp

end
