(* ===== verification/Pqueue.thy ===== *)
theory Pqueue
  imports Prelude "HOL-Library.Multiset" "HOL-Library.Product_Lexorder"
begin

text \<open>
  The binary heap and the timer queue (\<^verbatim>\<open>src/pqueue.rs\<close>). The heap is the vector of the
  code, indexed the same way; an \<^verbatim>\<open>i64\<close> priority is its signed value. The queue implements
  the interface \<open>min_queue\<close>, from which the order of \<^verbatim>\<open>drain\<close> follows.
\<close>

section \<open>The heap\<close>

record 'a heap_entry =
  he_item :: 'a
  he_priority :: int
  he_order :: nat

record 'a pqueue =
  pq_heap :: "'a heap_entry list"
  pq_next_order :: nat

definition is_higher_priority :: "'a heap_entry \<Rightarrow> 'a heap_entry \<Rightarrow> bool" where
  "is_higher_priority e f \<longleftrightarrow>
     (if he_priority e \<noteq> he_priority f then he_priority e < he_priority f else he_order e < he_order f)"

definition pq_new :: "'a pqueue" where
  "pq_new = \<lparr>pq_heap = [], pq_next_order = 0\<rparr>"

definition pq_len :: "'a pqueue \<Rightarrow> usize" where "pq_len q = length (pq_heap q)"
definition pq_is_empty :: "'a pqueue \<Rightarrow> bool" where "pq_is_empty q \<longleftrightarrow> pq_heap q = []"

definition swap :: "'b list \<Rightarrow> usize \<Rightarrow> usize \<Rightarrow> 'b list" where
  "swap xs i j = xs[i := xs ! j, j := xs ! i]"

function sift_up :: "'a heap_entry list \<Rightarrow> usize \<Rightarrow> 'a heap_entry list" where
  "sift_up h index =
     (if index > 0 then
        let parent = (index - 1) div 2 in
        if is_higher_priority (h ! index) (h ! parent)
        then sift_up (swap h index parent) parent else h
      else h)"
  by pat_completeness auto
termination by (relation "measure snd") auto

definition smallest_child :: "'a heap_entry list \<Rightarrow> usize \<Rightarrow> usize" where
  "smallest_child h index =
     (let left = 2 * index + 1; right = 2 * index + 2;
          s1 = (if left < length h \<and> is_higher_priority (h ! left) (h ! index) then left else index)
      in if right < length h \<and> is_higher_priority (h ! right) (h ! s1) then right else s1)"

lemma smallest_child_cases:
  "smallest_child h k \<in> {k, 2 * k + 1, 2 * k + 2} \<and> (smallest_child h k \<noteq> k \<longrightarrow> smallest_child h k < length h)"
  by (auto simp: smallest_child_def Let_def)

lemma length_swap [simp]: "length (swap xs i j) = length xs"
  by (simp add: swap_def)

function sift_down :: "'a heap_entry list \<Rightarrow> usize \<Rightarrow> 'a heap_entry list" where
  "sift_down h index =
     (let smallest = smallest_child h index in
      if smallest = index then h else sift_down (swap h index smallest) smallest)"
  by pat_completeness auto
termination
proof (relation "measure (\<lambda>(h, k). length h - k)", goal_cases)
  case (2 h index x)
  then show ?case using smallest_child_cases [of h index] by auto
qed simp

declare sift_up.simps [simp del] and sift_down.simps [simp del]

section \<open>Queue operations\<close>

definition pq_push :: "'a pqueue \<Rightarrow> 'a \<Rightarrow> int \<Rightarrow> 'a pqueue" where
  "pq_push q item priority =
     (let h = pq_heap q @ [\<lparr>he_item = item, he_priority = priority, he_order = pq_next_order q\<rparr>]
      in \<lparr>pq_heap = sift_up h (length h - 1), pq_next_order = pq_next_order q + 1\<rparr>)"

text \<open>\<^verbatim>\<open>pop\<close>, with the whole entry it takes out.\<close>

definition pop_entry :: "'a pqueue \<Rightarrow> 'a heap_entry option \<times> 'a pqueue" where
  "pop_entry q =
     (if pq_heap q = [] then (None, q)
      else
        let lst = length (pq_heap q) - 1; h1 = swap (pq_heap q) 0 lst; entry = last h1; h2 = butlast h1
        in (Some entry, q\<lparr>pq_heap := (if h2 \<noteq> [] then sift_down h2 0 else h2)\<rparr>))"

definition pq_pop :: "'a pqueue \<Rightarrow> 'a option \<times> 'a pqueue" where
  "pq_pop q = (let (e, q1) = pop_entry q in (map_option he_item e, q1))"

definition pq_peek :: "'a pqueue \<Rightarrow> 'a option" where
  "pq_peek q = (case pq_heap q of [] \<Rightarrow> None | e # _ \<Rightarrow> Some (he_item e))"

definition update_priority :: "'a pqueue \<Rightarrow> usize \<Rightarrow> int \<Rightarrow> bool \<times> 'a pqueue" where
  "update_priority q index new_priority =
     (if index \<ge> length (pq_heap q) then (False, q)
      else
        let old = he_priority (pq_heap q ! index);
            h = (pq_heap q)[index := (pq_heap q ! index)\<lparr>he_priority := new_priority\<rparr>]
        in (True, q\<lparr>pq_heap := (if new_priority < old then sift_up h index
                                else if new_priority > old then sift_down h index else h)\<rparr>))"

definition pq_remove :: "'a pqueue \<Rightarrow> usize \<Rightarrow> 'a option \<times> 'a pqueue" where
  "pq_remove q index =
     (if index \<ge> length (pq_heap q) then (None, q)
      else
        let lst = length (pq_heap q) - 1 in
        if index = lst then (Some (he_item (last (pq_heap q))), q\<lparr>pq_heap := butlast (pq_heap q)\<rparr>)
        else
          let h1 = swap (pq_heap q) index lst; entry = last h1; h2 = butlast h1
          in (Some (he_item entry), q\<lparr>pq_heap := sift_down (sift_up h2 index) index\<rparr>))"

lemma length_sift_up [simp]: "length (sift_up h k) = length h"
  by (induction h k rule: sift_up.induct) (subst sift_up.simps, simp add: Let_def)

lemma length_sift_down [simp]: "length (sift_down h k) = length h"
  by (induction h k rule: sift_down.induct) (subst sift_down.simps, simp add: Let_def)

lemma pop_shrinks: "pq_pop q = (Some item, q') \<Longrightarrow> length (pq_heap q') < length (pq_heap q)"
  by (auto simp: pq_pop_def pop_entry_def Let_def split: if_splits)

function pq_drain :: "'a pqueue \<Rightarrow> 'a list \<times> 'a pqueue" where
  "pq_drain q =
     (case pq_pop q of
        (Some item, q1) \<Rightarrow> (let (items, q2) = pq_drain q1 in (item # items, q2))
      | (None, q1) \<Rightarrow> ([], q1))"
  by pat_completeness auto
termination
  by (relation "measure (\<lambda>q. length (pq_heap q))")
     (auto dest: pop_shrinks [OF sym])

declare pq_drain.simps [simp del]

section \<open>Timers\<close>

record timer_queue =
  tq_entries :: "u64 pqueue"
  tq_current_tick :: u64

definition timer_new :: timer_queue where
  "timer_new = \<lparr>tq_entries = pq_new, tq_current_tick = 0\<rparr>"

definition set_tick :: "timer_queue \<Rightarrow> u64 \<Rightarrow> timer_queue" where
  "set_tick t tick = t\<lparr>tq_current_tick := tick\<rparr>"

definition saturating_add :: "u64 \<Rightarrow> u64 \<Rightarrow> u64" where
  "saturating_add a b = (if a + b < a then - 1 else a + b)"

text \<open>\<^verbatim>\<open>deadline as i64\<close> reads the 64 bits as a signed number.\<close>

definition timer_schedule :: "timer_queue \<Rightarrow> u64 \<Rightarrow> u64 \<Rightarrow> timer_queue" where
  "timer_schedule t ticks_from_now callback_id =
     (let deadline = saturating_add (tq_current_tick t) ticks_from_now
      in t\<lparr>tq_entries := pq_push (tq_entries t) callback_id (sint deadline)\<rparr>)"

function poll_loop :: "u64 pqueue \<Rightarrow> int \<Rightarrow> u64 list \<times> u64 pqueue" where
  "poll_loop q now =
     (case pq_heap q of
        [] \<Rightarrow> ([], q)
      | e # _ \<Rightarrow>
          if he_priority e \<le> now then
            (case pq_pop q of
               (Some cid, q1) \<Rightarrow> (let (ids, q2) = poll_loop q1 now in (cid # ids, q2))
             | (None, q1) \<Rightarrow> ([], q1))
          else ([], q))"
  by pat_completeness auto
termination
  by (relation "measure (\<lambda>(q, now). length (pq_heap q))")
     (auto dest: pop_shrinks [OF sym])

declare poll_loop.simps [simp del]

definition poll_expired :: "timer_queue \<Rightarrow> u64 \<Rightarrow> u64 list \<times> timer_queue" where
  "poll_expired t now =
     (let (ids, q) = poll_loop (tq_entries t) (sint now)
      in (ids, t\<lparr>tq_current_tick := now, tq_entries := q\<rparr>))"

definition timer_pending :: "timer_queue \<Rightarrow> usize" where
  "timer_pending t = pq_len (tq_entries t)"

definition timer_drain :: "timer_queue \<Rightarrow> u64 list \<times> timer_queue" where
  "timer_drain t = (let (ids, q) = pq_drain (tq_entries t) in (ids, t\<lparr>tq_entries := q\<rparr>))"

section \<open>Heap order\<close>

definition hkey :: "'a heap_entry \<Rightarrow> int \<times> nat" where
  "hkey e = (he_priority e, he_order e)"

lemma higher_key: "is_higher_priority e f \<longleftrightarrow> hkey e < hkey f"
  by (auto simp: is_higher_priority_def hkey_def)

definition hp :: "nat \<Rightarrow> nat" where "hp i = (i - 1) div 2"

definition heap_ok :: "'a heap_entry list \<Rightarrow> bool" where
  "heap_ok h \<longleftrightarrow> (\<forall>i. 0 < i \<and> i < length h \<longrightarrow> hkey (h ! hp i) \<le> hkey (h ! i))"

text \<open>Order everywhere except between \<open>k\<close> and its parent, or between \<open>k\<close> and its children.\<close>

definition up_ok :: "'a heap_entry list \<Rightarrow> nat \<Rightarrow> bool" where
  "up_ok h k \<longleftrightarrow> (\<forall>i. 0 < i \<and> i < length h \<longrightarrow>
     (i \<noteq> k \<longrightarrow> hkey (h ! hp i) \<le> hkey (h ! i)) \<and> (hp i = k \<and> 0 < k \<longrightarrow> hkey (h ! hp k) \<le> hkey (h ! i)))"

definition down_ok :: "'a heap_entry list \<Rightarrow> nat \<Rightarrow> bool" where
  "down_ok h k \<longleftrightarrow> (\<forall>i. 0 < i \<and> i < length h \<longrightarrow>
     (hp i \<noteq> k \<longrightarrow> hkey (h ! hp i) \<le> hkey (h ! i)) \<and> (hp i = k \<and> 0 < k \<longrightarrow> hkey (h ! hp k) \<le> hkey (h ! i)))"

lemma hp_less: "0 < i \<Longrightarrow> hp i < i"
  unfolding hp_def by linarith

lemma hp_child: "0 < i \<Longrightarrow> hp i = k \<longleftrightarrow> i = 2 * k + 1 \<or> i = 2 * k + 2"
  unfolding hp_def by linarith

lemma nth_swap: "i < length xs \<Longrightarrow> j < length xs \<Longrightarrow> n < length xs \<Longrightarrow>
    swap xs i j ! n = (if n = j then xs ! i else if n = i then xs ! j else xs ! n)"
  by (auto simp: swap_def nth_list_update)

lemma mset_swap_entries [simp]: "i < length xs \<Longrightarrow> j < length xs \<Longrightarrow> mset (swap xs i j) = mset xs"
  unfolding swap_def by (rule mset_swap)

lemma sift_up_ok: "k < length h \<Longrightarrow> up_ok h k \<Longrightarrow> heap_ok (sift_up h k) \<and> mset (sift_up h k) = mset h"
proof (induction h k rule: sift_up.induct)
  case (1 h k)
  note up = "1.prems"(2) [unfolded up_ok_def, rule_format]
  show ?case
  proof (cases "0 < k \<and> hkey (h ! k) < hkey (h ! hp k)")
    case True
    define p where "p = hp k"
    have p: "p < k" "p < length h" using True hp_less [of k] "1.prems"(1) p_def by auto
    let ?h = "swap h k p"
    note nth = nth_swap [OF "1.prems"(1) p(2)]
    have "up_ok ?h p"
      unfolding up_ok_def
    proof (intro allI impI conjI)
      fix i
      assume i: "0 < i \<and> i < length ?h"
      have l: "hp i < length h" "hp p < length h" "i < length h" using i p hp_less [of i] by (auto simp: hp_def)
      {
        assume "i \<noteq> p"
        consider "i = k" | "hp i = k" | "i \<noteq> k" "hp i = p" | "i \<noteq> k" "hp i \<noteq> k" "hp i \<noteq> p" by blast
        then show "hkey (?h ! hp i) \<le> hkey (?h ! i)"
        proof cases
          case 1
          then show ?thesis using nth True p p_def \<open>i \<noteq> p\<close> l by auto
        next
          case 2
          then have "i \<noteq> k" using hp_less [of i] i by auto
          then show ?thesis using nth [OF l(1)] nth [OF l(3)] 2 up [of i] i True p_def \<open>i \<noteq> p\<close> p by auto
        next
          case 3
          then show ?thesis using nth [OF l(1)] nth [OF l(3)] up [of i] i True p_def \<open>i \<noteq> p\<close> p
            by (auto intro: order_trans less_imp_le)
        next
          case 4
          then show ?thesis using nth [OF l(1)] nth [OF l(3)] up [of i] i \<open>i \<noteq> p\<close> by auto
        qed
      }
      assume c: "hp i = p \<and> 0 < p"
      have hpp: "hp p \<noteq> p" "hp p \<noteq> k" using hp_less [of p] c p by auto
      have gp: "hkey (h ! hp p) \<le> hkey (h ! p)" using up [of p] c p by auto
      show "hkey (?h ! hp p) \<le> hkey (?h ! i)"
      proof (cases "i = k")
        case True
        then show ?thesis using nth [OF l(2)] nth [OF l(3)] hpp gp p by simp
      next
        case False
        then have "hkey (h ! p) \<le> hkey (h ! i)" "i \<noteq> p" using up [of i] i c hp_less [of i] by auto
        then show ?thesis using nth [OF l(2)] nth [OF l(3)] hpp gp False by auto
      qed
    qed
    then have "heap_ok (sift_up ?h p) \<and> mset (sift_up ?h p) = mset ?h"
      using 1 True p by (simp add: higher_key p_def hp_def)
    moreover have "sift_up h k = sift_up ?h p"
      using True by (subst sift_up.simps) (simp add: higher_key p_def hp_def Let_def)
    ultimately show ?thesis using p "1.prems"(1) by simp
  next
    case False
    then have "sift_up h k = h" by (subst sift_up.simps) (auto simp: higher_key hp_def Let_def)
    moreover have "heap_ok h" unfolding heap_ok_def using up False by (metis linorder_not_le)
    ultimately show ?thesis by simp
  qed
qed

lemma smallest_child_min:
  assumes "0 < i" and "i < length h" and "hp i = k"
  shows "hkey (h ! smallest_child h k) \<le> hkey (h ! i)"
  using assms(1, 2) assms(3) [unfolded hp_child [OF assms(1)]]
  by (auto simp: smallest_child_def higher_key Let_def not_less)

lemma smallest_child_less:
  "smallest_child h k \<noteq> k \<Longrightarrow> hkey (h ! smallest_child h k) < hkey (h ! k)"
  by (auto simp: smallest_child_def higher_key Let_def split: if_splits)

lemma sift_down_ok: "k < length h \<Longrightarrow> down_ok h k \<Longrightarrow> heap_ok (sift_down h k) \<and> mset (sift_down h k) = mset h"
proof (induction h k rule: sift_down.induct)
  case (1 h k)
  note down = "1.prems"(2) [unfolded down_ok_def, rule_format]
  define s where "s = smallest_child h k"
  show ?case
  proof (cases "s = k")
    case True
    have "heap_ok h"
      unfolding heap_ok_def
    proof (intro allI impI)
      fix i
      assume i: "0 < i \<and> i < length h"
      show "hkey (h ! hp i) \<le> hkey (h ! i)"
        using down [of i] smallest_child_min [of i h k] i True s_def by (cases "hp i = k") auto
    qed
    then show ?thesis using True s_def by (simp add: sift_down.simps [of h k])
  next
    case False
    have s: "s < length h" "0 < s" "hp s = k" "hkey (h ! s) < hkey (h ! k)" "k < s"
      using smallest_child_cases [of h k] False smallest_child_less [of h k] hp_child [of s k] s_def by auto
    let ?h = "swap h k s"
    note nth = nth_swap [OF "1.prems"(1) s(1)]
    have "down_ok ?h s"
      unfolding down_ok_def
    proof (intro allI impI conjI)
      fix i
      assume i: "0 < i \<and> i < length ?h"
      have l: "hp i < length h" "i < length h" "hp i < i" using i hp_less [of i] by auto
      {
        assume ne: "hp i \<noteq> s"
        consider "i = s" | "i = k" | "i \<noteq> s" "hp i = k" | "i \<noteq> s" "i \<noteq> k" "hp i \<noteq> k" by blast
        then show "hkey (?h ! hp i) \<le> hkey (?h ! i)"
        proof cases
          case 1
          then show ?thesis using nth [OF l(1)] nth [OF l(2)] s by auto
        next
          case 2
          then have "hkey (h ! hp k) \<le> hkey (h ! s)" using down [of s] s i by auto
          then show ?thesis using nth [OF l(1)] nth [OF l(2)] 2 s ne l by auto
        next
          case 3
          then show ?thesis using nth [OF l(1)] nth [OF l(2)] s smallest_child_min [of i h k] i l s_def by auto
        next
          case 4
          then show ?thesis using nth [OF l(1)] nth [OF l(2)] ne down [of i] i by auto
        qed
      }
      assume c: "hp i = s \<and> 0 < s"
      then have "hkey (h ! s) \<le> hkey (h ! i)" using down [of i] i s by auto
      then show "hkey (?h ! hp s) \<le> hkey (?h ! i)"
        using nth [OF "1.prems"(1)] nth [OF l(2)] s c l by auto
    qed
    then have "heap_ok (sift_down ?h s) \<and> mset (sift_down ?h s) = mset ?h"
      using "1.IH" [OF s_def] False s(1) by simp
    moreover have "sift_down h k = sift_down ?h s"
      using False s_def by (simp add: sift_down.simps [of h k] Let_def)
    ultimately show ?thesis using s(1) "1.prems"(1) by simp
  qed
qed

lemma heap_root:
  assumes "heap_ok h" and "i < length h"
  shows "hkey (h ! 0) \<le> hkey (h ! i)"
  using assms(2)
proof (induction i rule: less_induct)
  case (less i)
  show ?case
  proof (cases "i = 0")
    case False
    then have "hp i < i" "hkey (h ! hp i) \<le> hkey (h ! i)" using less.prems assms(1) hp_less by (auto simp: heap_ok_def)
    then show ?thesis using less.IH [of "hp i"] less.prems by (auto intro: order_trans)
  qed simp
qed


section \<open>Every operation keeps the heap\<close>

definition pq_ok :: "'a pqueue \<Rightarrow> bool" where
  "pq_ok q \<longleftrightarrow> heap_ok (pq_heap q) \<and> distinct (map he_order (pq_heap q)) \<and>
     (\<forall>e \<in> set (pq_heap q). he_order e < pq_next_order q)"

lemma heap_ok_butlast: "heap_ok h \<Longrightarrow> heap_ok (butlast h)"
  unfolding heap_ok_def
proof (intro allI impI)
  fix i
  assume h: "\<forall>i. 0 < i \<and> i < length h \<longrightarrow> hkey (h ! hp i) \<le> hkey (h ! i)" and i: "0 < i \<and> i < length (butlast h)"
  then show "hkey (butlast h ! hp i) \<le> hkey (butlast h ! i)"
    using hp_less [of i] by (simp add: nth_butlast)
qed

lemma heap_ok_down: "heap_ok h \<Longrightarrow> k < length h \<Longrightarrow> down_ok h k"
  unfolding heap_ok_def down_ok_def by (blast intro: order_trans)

lemma heap_grand: "heap_ok h \<Longrightarrow> 0 < i \<Longrightarrow> i < length h \<Longrightarrow> 0 < hp i \<Longrightarrow> hkey (h ! hp (hp i)) \<le> hkey (h ! i)"
  using hp_less [of i] unfolding heap_ok_def by (meson less_trans order_trans)

text \<open>Replacing one entry leaves one place to repair, above it or below it.\<close>

lemma replace_up:
  assumes "heap_ok h" and "k < length h" and "hkey e \<le> hkey (h ! k)"
  shows "up_ok (h[k := e]) k"
  unfolding up_ok_def
proof (intro allI impI conjI)
  fix i
  assume i: "0 < i \<and> i < length (h[k := e])"
  have le: "hkey (h ! hp i) \<le> hkey (h ! i)" using assms(1) i by (simp add: heap_ok_def)
  show "hkey (h[k := e] ! hp i) \<le> hkey (h[k := e] ! i)" if "i \<noteq> k"
    using le that assms(2, 3) by (cases "hp i = k") auto
  show "hkey (h[k := e] ! hp k) \<le> hkey (h[k := e] ! i)" if "hp i = k \<and> 0 < k"
    using heap_grand [OF assms(1), of i] that i hp_less [of k] hp_less [of i] by auto
qed

lemma replace_down:
  assumes "heap_ok h" and "k < length h" and "0 < k \<Longrightarrow> hkey (h ! hp k) \<le> hkey e"
  shows "down_ok (h[k := e]) k"
  unfolding down_ok_def
proof (intro allI impI conjI)
  fix i
  assume i: "0 < i \<and> i < length (h[k := e])"
  have le: "hkey (h ! hp i) \<le> hkey (h ! i)" using assms(1) i by (simp add: heap_ok_def)
  show "hkey (h[k := e] ! hp i) \<le> hkey (h[k := e] ! i)" if "hp i \<noteq> k"
    using le that assms(2, 3) i by (cases "i = k") auto
  show "hkey (h[k := e] ! hp k) \<le> hkey (h[k := e] ! i)" if "hp i = k \<and> 0 < k"
    using heap_grand [OF assms(1), of i] that i hp_less [of k] hp_less [of i] by auto
qed

lemma append_up: "heap_ok h \<Longrightarrow> up_ok (h @ [e]) (length h)"
  unfolding up_ok_def
proof (intro allI impI conjI)
  fix i
  assume h: "heap_ok h" and i: "0 < i \<and> i < length (h @ [e])"
  show "hkey ((h @ [e]) ! hp i) \<le> hkey ((h @ [e]) ! i)" if "i \<noteq> length h"
    using h i that hp_less [of i] by (simp add: heap_ok_def nth_append)
  show "hkey ((h @ [e]) ! hp (length h)) \<le> hkey ((h @ [e]) ! i)" if "hp i = length h \<and> 0 < length h"
    using i that hp_less [of i] by simp
qed

lemma take_out:
  assumes "k < length h - 1"
  shows "butlast (swap h k (length h - 1)) = (butlast h)[k := last h]"
    and "last (swap h k (length h - 1)) = h ! k"
proof -
  obtain ys y where h: "h = ys @ [y]" using assms by (cases h rule: rev_cases) auto
  then show "butlast (swap h k (length h - 1)) = (butlast h)[k := last h]"
    and "last (swap h k (length h - 1)) = h ! k"
    using assms by (simp_all add: swap_def list_update_append nth_append)
qed

lemma mset_take_out:
  assumes "k < length h - 1"
  shows "mset ((butlast h)[k := last h]) = mset h - {#h ! k#}"
proof -
  obtain ys y where h: "h = ys @ [y]" using assms by (cases h rule: rev_cases) auto
  then have "ys ! k \<in># mset ys" using assms by simp
  then show ?thesis using h assms by (simp add: mset_update nth_append)
qed

lemma mset_same: "mset h = mset h' \<Longrightarrow> heap_ok h' \<Longrightarrow> distinct (map he_order h) \<Longrightarrow>
    \<forall>e \<in> set h. he_order e < n \<Longrightarrow> pq_ok \<lparr>pq_heap = h', pq_next_order = n\<rparr>"
  unfolding pq_ok_def using mset_eq_setD [of h h'] mset_eq_imp_distinct_iff [of "map he_order h" "map he_order h'"]
  by auto

text \<open>What \<^verbatim>\<open>sift_up(index); sift_down(index)\<close> do after any replacement at \<^verbatim>\<open>index\<close>.\<close>

lemma repair:
  assumes "heap_ok h" and "k < length h"
  shows "heap_ok (sift_down (sift_up (h[k := e]) k) k) \<and>
    mset (sift_down (sift_up (h[k := e]) k) k) = mset (h[k := e])"
proof (cases "0 < k \<and> hkey e < hkey (h ! hp k)")
  case True
  then have "hkey e \<le> hkey (h ! k)" using assms by (auto simp: heap_ok_def intro: order_trans less_imp_le)
  from sift_up_ok [OF _ replace_up [OF assms this]] assms(2)
  have "heap_ok (sift_up (h[k := e]) k) \<and> mset (sift_up (h[k := e]) k) = mset (h[k := e])" by simp
  then show ?thesis using sift_down_ok [OF _ heap_ok_down] assms(2) by (metis length_list_update length_sift_up)
next
  case False
  then have "sift_up (h[k := e]) k = h[k := e]"
    using hp_less [of k] assms(2) by (subst sift_up.simps) (auto simp: higher_key Let_def hp_def)
  moreover have "down_ok (h[k := e]) k" using False by (intro replace_down [OF assms]) (simp add: not_less)
  ultimately show ?thesis using sift_down_ok [of k "h[k := e]"] assms(2) by simp
qed

lemma push_ok:
  assumes "pq_ok q"
  shows "pq_ok (pq_push q x p)"
    and "mset (pq_heap (pq_push q x p)) =
      mset (pq_heap q) + {#\<lparr>he_item = x, he_priority = p, he_order = pq_next_order q\<rparr>#}"
proof -
  let ?e = "\<lparr>he_item = x, he_priority = p, he_order = pq_next_order q\<rparr>"
  let ?h = "pq_heap q @ [?e]"
  have s: "heap_ok (sift_up ?h (length (pq_heap q))) \<and> mset (sift_up ?h (length (pq_heap q))) = mset ?h"
    using sift_up_ok [OF _ append_up, of "pq_heap q" ?e] assms by (simp add: pq_ok_def)
  then show "mset (pq_heap (pq_push q x p)) = mset (pq_heap q) + {#?e#}"
    by (simp add: pq_push_def Let_def)
  have "pq_ok \<lparr>pq_heap = sift_up ?h (length (pq_heap q)), pq_next_order = pq_next_order q + 1\<rparr>"
    using s assms by (intro mset_same [of ?h]) (auto simp: pq_ok_def)
  then show "pq_ok (pq_push q x p)" by (simp add: pq_push_def Let_def)
qed

lemma pq_ok_submset:
  assumes "pq_ok q" and "heap_ok h" and "mset h = mset (pq_heap q) - {#e#}"
  shows "pq_ok (q\<lparr>pq_heap := h\<rparr>)"
proof -
  have "mset (pq_heap q) = mset (e # h) \<or> mset (pq_heap q) = mset h"
    using assms(3) by (cases "e \<in># mset (pq_heap q)") (auto simp: diff_single_trivial)
  then show ?thesis
  proof
    assume m: "mset (pq_heap q) = mset (e # h)"
    have "distinct (map he_order (e # h))"
      using assms(1) m mset_eq_imp_distinct_iff [of "map he_order (pq_heap q)" "map he_order (e # h)"]
      by (simp add: pq_ok_def)
    then show ?thesis using assms(1, 2) mset_eq_setD [OF m] by (simp add: pq_ok_def)
  next
    assume m: "mset (pq_heap q) = mset h"
    have "distinct (map he_order h)"
      using assms(1) m mset_eq_imp_distinct_iff [of "map he_order (pq_heap q)" "map he_order h"]
      by (simp add: pq_ok_def)
    then show ?thesis using assms(1, 2) mset_eq_setD [OF m] by (simp add: pq_ok_def)
  qed
qed


lemma pop_entry_ok:
  assumes "pq_ok q" and "pq_heap q \<noteq> []"
  obtains q' where "pop_entry q = (Some (pq_heap q ! 0), q')" and "pq_ok q'"
    and "mset (pq_heap q') = mset (pq_heap q) - {#pq_heap q ! 0#}"
proof (cases "length (pq_heap q) = 1")
  case True
  then obtain e where h: "pq_heap q = [e]" by (auto simp: length_Suc_conv)
  have "pop_entry q = (Some (pq_heap q ! 0), q\<lparr>pq_heap := []\<rparr>)"
    using h by (simp add: pop_entry_def swap_def)
  then show ?thesis using that assms(1) h by (simp add: pq_ok_def heap_ok_def)
next
  case False
  let ?h = "pq_heap q" let ?g = "(butlast ?h)[0 := last ?h]"
  have k: "0 < length ?h - 1" using False assms(2) by (cases ?h) auto
  have b: "butlast ?h \<noteq> []" using k by (metis length_butlast length_greater_0_conv)
  have "down_ok ?g 0"
    using assms(1) k by (intro replace_down heap_ok_butlast) (auto simp: pq_ok_def)
  then have s: "heap_ok (sift_down ?g 0) \<and> mset (sift_down ?g 0) = mset ?h - {#?h ! 0#}"
    using sift_down_ok [of 0 ?g] k mset_take_out [OF k] by simp
  have "pop_entry q = (Some (?h ! 0), q\<lparr>pq_heap := sift_down ?g 0\<rparr>)"
    using assms(2) b take_out [OF k] by (simp add: pop_entry_def Let_def)
  then show ?thesis using that s pq_ok_submset [OF assms(1)] by simp
qed

lemma update_priority_ok:
  assumes "pq_ok q" and "i < length (pq_heap q)"
  obtains q' where "update_priority q i p = (True, q')" and "pq_ok q'"
    and "mset (pq_heap q') = mset ((pq_heap q)[i := (pq_heap q ! i)\<lparr>he_priority := p\<rparr>])"
proof -
  let ?h = "pq_heap q" let ?e = "(?h ! i)\<lparr>he_priority := p\<rparr>" let ?g = "?h[i := ?e]"
  let ?r = "if p < he_priority (?h ! i) then sift_up ?g i else if p > he_priority (?h ! i) then sift_down ?g i else ?g"
  have h: "heap_ok ?h" using assms(1) by (simp add: pq_ok_def)
  have hk: "p > he_priority (?h ! i) \<Longrightarrow> 0 < i \<Longrightarrow> hkey (?h ! hp i) \<le> hkey ?e"
    using h assms(2) by (fastforce simp: heap_ok_def hkey_def intro: order_trans)
  consider "p < he_priority (?h ! i)" | "p > he_priority (?h ! i)" | "p = he_priority (?h ! i)" by linarith
  then have r: "heap_ok ?r \<and> mset ?r = mset ?g"
  proof cases
    case 1
    then show ?thesis using sift_up_ok [OF _ replace_up [OF h assms(2), of ?e]] assms(2) by (simp add: hkey_def)
  next
    case 2
    then show ?thesis using sift_down_ok [OF _ replace_down [OF h assms(2) hk]] assms(2) by simp
  next
    case 3
    then have "?g = ?h" by simp
    then show ?thesis using h 3 by simp
  qed
  have o: "map he_order ?g = map he_order ?h" using assms(2) by (intro nth_equalityI) (auto simp: nth_list_update)
  have "pq_ok \<lparr>pq_heap = ?r, pq_next_order = pq_next_order q\<rparr>"
  proof (intro mset_same [of ?g])
    show "\<forall>e \<in> set ?g. he_order e < pq_next_order q"
    proof
      fix e
      assume "e \<in> set ?g"
      then have "he_order e \<in> set (map he_order ?g)" by auto
      then have "he_order e \<in> he_order ` set ?h" unfolding o by simp
      then show "he_order e < pq_next_order q" using assms(1) by (auto simp: pq_ok_def)
    qed
  qed (use assms(1) o r in \<open>simp_all add: pq_ok_def\<close>)
  moreover have "update_priority q i p = (True, q\<lparr>pq_heap := ?r\<rparr>)"
    using assms(2) by (simp add: update_priority_def Let_def)
  ultimately show ?thesis using that [of "q\<lparr>pq_heap := ?r\<rparr>"] r by (simp add: pq_ok_def)
qed

lemma pq_remove_ok:
  assumes "pq_ok q" and "i < length (pq_heap q)"
  obtains q' where "pq_remove q i = (Some (he_item (pq_heap q ! i)), q')" and "pq_ok q'"
    and "mset (pq_heap q') = mset (pq_heap q) - {#pq_heap q ! i#}"
proof (cases "i = length (pq_heap q) - 1")
  case True
  let ?h = "pq_heap q"
  have ne: "?h \<noteq> []" using assms(2) by auto
  then have l: "?h ! i = last ?h" using True by (simp add: last_conv_nth)
  have "mset ?h = mset (butlast ?h @ [last ?h])" using ne by simp
  then have m: "mset (butlast ?h) = mset ?h - {#?h ! i#}" using l by simp
  have "pq_ok (q\<lparr>pq_heap := butlast ?h\<rparr>)"
    using pq_ok_submset [OF assms(1) heap_ok_butlast m] assms(1) by (simp add: pq_ok_def)
  then show ?thesis using that m l True assms(2) by (simp add: pq_remove_def)
next
  case False
  let ?h = "pq_heap q" let ?g = "(butlast ?h)[i := last ?h]"
  have k: "i < length ?h - 1" using False assms(2) by linarith
  have r: "heap_ok (sift_down (sift_up ?g i) i) \<and> mset (sift_down (sift_up ?g i) i) = mset ?h - {#?h ! i#}"
    using repair [OF heap_ok_butlast, of ?h i "last ?h"] assms(1) k mset_take_out [OF k] by (simp add: pq_ok_def)
  have "pq_remove q i = (Some (he_item (?h ! i)), q\<lparr>pq_heap := sift_down (sift_up ?g i) i\<rparr>)"
    using k take_out [OF k] by (simp add: pq_remove_def Let_def)
  then show ?thesis using that r pq_ok_submset [OF assms(1)] by simp
qed


section \<open>The interface of a minimum queue\<close>

text \<open>
  A client of the queue needs only that \<^verbatim>\<open>pop\<close> takes out a least entry. A loop that pops while
  the least entry satisfies \<open>P\<close> (all of them for \<^verbatim>\<open>drain\<close>, the expired ones for
  \<^verbatim>\<open>poll_expired\<close>) then yields exactly the entries that satisfy \<open>P\<close>, in order.
\<close>

locale min_queue =
  fixes invar :: "'q \<Rightarrow> bool" and elems :: "'q \<Rightarrow> 'e multiset"
    and key :: "'e \<Rightarrow> 'k :: linorder" and pop :: "'q \<Rightarrow> 'e option \<times> 'q"
  assumes pop_empty: "\<lbrakk>invar q; elems q = {#}\<rbrakk> \<Longrightarrow> pop q = (None, q)"
    and pop_least: "\<lbrakk>invar q; elems q \<noteq> {#}\<rbrakk> \<Longrightarrow> \<exists>e q'. pop q = (Some e, q') \<and> e \<in># elems q \<and>
      (\<forall>f \<in># elems q. key e \<le> key f) \<and> elems q' = elems q - {#e#} \<and> invar q'"
begin

lemma loop_takes:
  assumes "invar q"
    and loop: "\<And>q. loop q = (case pop q of
        (Some e, q1) \<Rightarrow> if P e then (let (es, q2) = loop q1 in (e # es, q2)) else ([], q)
      | (None, q1) \<Rightarrow> ([], q1))"
    and down: "\<And>e f. P f \<Longrightarrow> key e \<le> key f \<Longrightarrow> P e"
  shows "\<exists>es q'. loop q = (es, q') \<and> mset es = filter_mset P (elems q) \<and> sorted (map key es) \<and>
    elems q' = filter_mset (\<lambda>e. \<not> P e) (elems q) \<and> invar q'"
  using assms(1)
proof (induction "size (elems q)" arbitrary: q)
  case 0
  then have "loop q = ([], q)" using loop [of q] pop_empty by simp
  then show ?case using 0 by simp
next
  case (Suc n)
  then have "elems q \<noteq> {#}" by auto
  then obtain e q1 where p: "pop q = (Some e, q1)" "e \<in># elems q" "\<forall>f \<in># elems q. key e \<le> key f"
    "elems q1 = elems q - {#e#}" "invar q1" using pop_least Suc.prems by blast
  have els: "elems q = add_mset e (elems q1)" using p by simp
  show ?case
  proof (cases "P e")
    case True
    have "n = size (elems q1)" using Suc.hyps(2) els by simp
    from Suc.hyps(1) [OF this p(5)] obtain es q2 where ih: "loop q1 = (es, q2)" "mset es = filter_mset P (elems q1)"
      "sorted (map key es)" "elems q2 = filter_mset (\<lambda>e. \<not> P e) (elems q1)" "invar q2" by blast
    have "loop q = (e # es, q2)" using loop [of q] p(1) True ih(1) by simp
    moreover have "set_mset (mset es) \<subseteq> set_mset (elems q)" unfolding ih(2) els by auto
    then have "sorted (map key (e # es))" using p(3) ih(3) by auto
    ultimately show ?thesis using els True ih by simp
  next
    case False
    then have no: "\<forall>f \<in># elems q. \<not> P f" using p(3) down by blast
    have "loop q = ([], q)" using loop [of q] p(1) False by simp
    moreover have "filter_mset P (elems q) = {#}" "filter_mset (\<lambda>e. \<not> P e) (elems q) = elems q"
      using no by (simp_all add: filter_mset_eq_conv)
    ultimately show ?thesis using Suc.prems by simp
  qed
qed

end

interpretation heap: min_queue pq_ok "\<lambda>q. mset (pq_heap q)" hkey pop_entry
proof
  fix q :: "'a pqueue"
  assume q: "pq_ok q"
  show "pop_entry q = (None, q)" if "mset (pq_heap q) = {#}" using that by (simp add: pop_entry_def)
  show "\<exists>e q'. pop_entry q = (Some e, q') \<and> e \<in># mset (pq_heap q) \<and> (\<forall>f \<in># mset (pq_heap q). hkey e \<le> hkey f) \<and>
      mset (pq_heap q') = mset (pq_heap q) - {#e#} \<and> pq_ok q'" if "mset (pq_heap q) \<noteq> {#}"
  proof -
    have ne: "pq_heap q \<noteq> []" using that by simp
    have "\<forall>f \<in># mset (pq_heap q). hkey (pq_heap q ! 0) \<le> hkey f"
      using q heap_root [of "pq_heap q"] by (auto simp: pq_ok_def in_set_conv_nth)
    then show ?thesis using pop_entry_ok [OF q ne] ne by (metis length_greater_0_conv nth_mem set_mset_mset)
  qed
qed

text \<open>The two loops of the source as instances of the loop of the interface.\<close>

function take_while_least :: "('a heap_entry \<Rightarrow> bool) \<Rightarrow> 'a pqueue \<Rightarrow> 'a heap_entry list \<times> 'a pqueue" where
  "take_while_least P q =
     (case pop_entry q of
        (Some e, q1) \<Rightarrow> if P e then (let (es, q2) = take_while_least P q1 in (e # es, q2)) else ([], q)
      | (None, q1) \<Rightarrow> ([], q1))"
  by pat_completeness auto
termination
  by (relation "measure (\<lambda>(P, q). length (pq_heap q))")
     (auto simp: pop_entry_def Let_def split: if_splits)

declare take_while_least.simps [simp del]

lemma drain_loop: "pq_drain q = (let (es, q') = take_while_least (\<lambda>_. True) q in (map he_item es, q'))"
proof (induction q rule: pq_drain.induct)
  case (1 q)
  then show ?case
    by (subst pq_drain.simps, subst take_while_least.simps)
       (auto simp: pq_pop_def split: prod.splits option.splits)
qed

lemma root_popped: "pq_heap q = e # h \<Longrightarrow> fst (pop_entry q) = Some e"
  by (cases h rule: rev_cases) (auto simp: pop_entry_def Let_def swap_def nth_append list_update_append split: nat.split)

lemma poll_loop_eq: "poll_loop q now = (let (es, q') = take_while_least (\<lambda>e. he_priority e \<le> now) q in (map he_item es, q'))"
proof (induction q now rule: poll_loop.induct)
  case (1 q now)
  show ?case
  proof (cases "pq_heap q")
    case Nil
    then show ?thesis by (subst poll_loop.simps, subst take_while_least.simps) (simp add: pop_entry_def)
  next
    case (Cons e h)
    obtain q1 where p: "pop_entry q = (Some e, q1)" using root_popped [OF Cons] by (cases "pop_entry q") auto
    then have pp: "pq_pop q = (Some (he_item e), q1)" by (simp add: pq_pop_def)
    show ?thesis
      using Cons p pp "1.IH" [OF Cons _ pp [symmetric]]
      by (subst poll_loop.simps, subst take_while_least.simps) (auto split: prod.splits)
  qed
qed


section \<open>Stable order\<close>

lemma sorted_lex:
  assumes "sorted (map f xs)" and "\<And>k. sorted (map g (filter (\<lambda>x. f x = k) xs))"
  shows "sorted (map (\<lambda>x. (f x, g x)) xs)"
  using assms
proof (induction xs)
  case (Cons x xs)
  have "sorted (map g (filter (\<lambda>y. f y = k) xs))" for k
    using Cons.prems(2) [of k] by (auto split: if_splits)
  moreover have "\<forall>y \<in> set xs. f y = f x \<longrightarrow> g x \<le> g y"
    using Cons.prems(2) [of "f x"] by auto
  ultimately show ?case using Cons by (auto simp: less_le)
qed simp

lemma sort_key_map: "sort_key f (map g xs) = map g (sort_key (\<lambda>x. f (g x)) xs)"
proof (induction xs)
  case (Cons x xs)
  have "insort_key f (g x) (map g ys) = map g (insort_key (\<lambda>x. f (g x)) x ys)" for ys
    by (induction ys) auto
  then show ?case using Cons by simp
qed simp

lemma sort_key_shift:
  fixes f g :: "'a \<Rightarrow> int"
  assumes "\<And>x. f x = k + g x"
  shows "sort_key f xs = sort_key g xs"
proof (induction xs)
  case (Cons x xs)
  have "insort_key f x ys = insort_key g x ys" for ys by (induction ys) (simp_all add: assms)
  then show ?case using Cons by simp
qed simp

definition pushes :: "('a \<times> int) list \<Rightarrow> 'a pqueue \<Rightarrow> 'a pqueue" where
  "pushes xs q = fold (\<lambda>(x, p) q. pq_push q x p) xs q"

definition entry_of :: "nat \<times> 'a \<times> int \<Rightarrow> 'a heap_entry" where
  "entry_of = (\<lambda>(i, x, p). \<lparr>he_item = x, he_priority = p, he_order = i\<rparr>)"

lemma pushes_entries:
  assumes "pq_ok q"
  shows "pq_ok (pushes xs q) \<and>
    mset (pq_heap (pushes xs q)) = mset (pq_heap q) + mset (map entry_of (enumerate (pq_next_order q) xs))"
  using assms
proof (induction xs arbitrary: q)
  case (Cons xp xs)
  obtain x p where xp: "xp = (x, p)" by force
  have n: "pq_next_order (pq_push q x p) = Suc (pq_next_order q)" by (simp add: pq_push_def Let_def)
  show ?case
    using Cons.IH [OF push_ok(1) [OF Cons.prems]] push_ok(2) [OF Cons.prems] n
    by (simp add: xp pushes_def entry_of_def)
qed (simp add: pushes_def)

lemma pq_new_ok: "pq_ok pq_new"
  by (simp add: pq_ok_def pq_new_def heap_ok_def)

definition by_priority :: "('a \<times> int) list \<Rightarrow> 'a heap_entry list" where
  "by_priority xs = map entry_of (sort_key (\<lambda>e. snd (snd e)) (enumerate 0 xs))"

lemma by_priority_sorted: "sorted (map hkey (by_priority xs))"
proof -
  let ?s = "sort_key (\<lambda>e. snd (snd e)) (enumerate 0 xs)"
  have s: "sorted (map (\<lambda>e. snd (snd e)) ?s)" by (rule sorted_sort_key)
  have "sorted (map fst (filter (\<lambda>e. snd (snd e) = k) ?s))" for k
  proof -
    have "filter (\<lambda>e. snd (snd e) = k) ?s = filter (\<lambda>e. snd (snd e) = k) (enumerate 0 xs)"
      by (rule sort_key_stable)
    moreover have "sorted (map fst (filter Q (enumerate 0 xs)))" for Q :: "nat \<times> 'a \<times> int \<Rightarrow> bool"
      by (rule sorted_filter) simp
    ultimately show ?thesis by simp
  qed
  from sorted_lex [OF s this] show ?thesis
    by (simp add: by_priority_def hkey_def entry_of_def comp_def case_prod_beta)
qed

lemma by_priority_items: "map (\<lambda>e. (he_item e, he_priority e)) (by_priority xs) = sort_key snd xs"
proof -
  have "sort_key snd xs = sort_key snd (map snd (enumerate 0 xs))" by simp
  then show ?thesis
    by (simp only: sort_key_map) (simp add: by_priority_def entry_of_def comp_def case_prod_beta)
qed

lemma filter_items: "map he_item (filter (\<lambda>e. Q (he_priority e)) (by_priority xs)) = map fst (filter (\<lambda>(x, p). Q p) (sort_key snd xs))"
  unfolding by_priority_items [symmetric] by (simp add: filter_map comp_def)

lemma taken_from_pushes:
  assumes "\<And>p p'. Q p' \<Longrightarrow> p \<le> p' \<Longrightarrow> Q p"
  obtains q' where "take_while_least (\<lambda>e. Q (he_priority e)) (pushes xs pq_new) =
      (filter (\<lambda>e. Q (he_priority e)) (by_priority xs), q')"
    and "pq_ok q'" and "length (pq_heap q') = length (filter (\<lambda>(x, p). \<not> Q p) xs)"
proof -
  let ?P = "\<lambda>e :: 'a heap_entry. Q (he_priority e)"
  have q: "pq_ok (pushes xs pq_new)" and m: "mset (pq_heap (pushes xs pq_new)) = mset (map entry_of (enumerate 0 xs))"
    using pushes_entries [OF pq_new_ok, of xs] by (simp_all add: pq_new_def)
  have down: "\<And>e f :: 'a heap_entry. ?P f \<Longrightarrow> hkey e \<le> hkey f \<Longrightarrow> ?P e"
    using assms by (fastforce simp: hkey_def)
  obtain es q' where t: "take_while_least ?P (pushes xs pq_new) = (es, q')" "sorted (map hkey es)" "pq_ok q'"
    "mset es = filter_mset ?P (mset (pq_heap (pushes xs pq_new)))"
    "mset (pq_heap q') = filter_mset (\<lambda>e. \<not> ?P e) (mset (pq_heap (pushes xs pq_new)))"
    using heap.loop_takes [OF q take_while_least.simps, of ?P] down by blast
  have bp: "mset (by_priority xs) = mset (map entry_of (enumerate 0 xs))" by (simp add: by_priority_def)
  have "mset es = mset (filter ?P (by_priority xs))" using t(4) m bp by (metis mset_filter)
  moreover have "inj_on hkey (set (map entry_of (enumerate 0 xs)))"
    by (auto simp: inj_on_def hkey_def entry_of_def in_set_enumerate_eq)
  then have "inj_on hkey (set es)"
    using t(4) m by (metis (no_types, lifting) filter_is_subset inj_on_subset mset_filter set_mset_mset)
  moreover have "sorted (map hkey (filter ?P (by_priority xs)))" by (intro sorted_filter by_priority_sorted)
  ultimately have "es = filter ?P (by_priority xs)"
    using t(2) by (metis sort_key_inj_key_eq)
  moreover have "size (mset (pq_heap q')) = length (filter (\<lambda>(x, p). \<not> Q p) xs)"
  proof -
    have "size (mset (pq_heap q')) = length (filter (\<lambda>e. \<not> ?P e) (map entry_of (enumerate 0 xs)))"
      unfolding t(5) m by (metis mset_filter size_mset)
    also have "\<dots> = length (filter (\<lambda>(x, p). \<not> Q p) (map snd (enumerate 0 xs)))"
      by (simp add: filter_map comp_def entry_of_def case_prod_beta del: map_snd_enumerate)
    finally show ?thesis by simp
  qed
  ultimately show ?thesis using that t(1, 3) by simp
qed


section \<open>Properties\<close>

datatype 'a pq_op = Push 'a int | Pop | Update usize int | Remove usize | Drain

fun pq_step :: "'a pq_op \<Rightarrow> 'a pqueue \<Rightarrow> 'a pqueue" where
  "pq_step (Push x p) q = pq_push q x p"
| "pq_step Pop q = snd (pq_pop q)"
| "pq_step (Update i p) q = snd (update_priority q i p)"
| "pq_step (Remove i) q = snd (pq_remove q i)"
| "pq_step Drain q = snd (pq_drain q)"

lemma pop_entry_snd_ok: "pq_ok q \<Longrightarrow> pq_ok (snd (pop_entry q))"
  by (cases "pq_heap q = []") (auto simp: pop_entry_def elim: pop_entry_ok)

lemma pq_step_ok: "pq_ok q \<Longrightarrow> pq_ok (pq_step op q)"
proof (induction op q rule: pq_step.induct)
  case (2 q)
  then show ?case using pop_entry_snd_ok [of q] by (simp add: pq_pop_def case_prod_beta)
next
  case (3 i p q)
  then show ?case
    by (cases "i < length (pq_heap q)") (auto simp: update_priority_def elim: update_priority_ok [of q i p])
next
  case (4 i q)
  then show ?case
    by (cases "i < length (pq_heap q)") (auto simp: pq_remove_def elim: pq_remove_ok [of q i])
next
  case (5 q)
  then show ?case using heap.loop_takes [OF _ take_while_least.simps, of q "\<lambda>_. True"] by (auto simp: drain_loop)
qed (simp add: push_ok)

lemma pq_run_ok: "pq_ok (fold pq_step ops pq_new)"
proof -
  have "pq_ok q \<Longrightarrow> pq_ok (fold pq_step ops q)" for q
    by (induction ops arbitrary: q) (simp_all add: pq_step_ok)
  from this [OF pq_new_ok] show ?thesis .
qed

text \<open>
  After any sequence of pushes, pops, priority changes, removals and drains the queue is
  empty exactly when \<^verbatim>\<open>pop\<close> returns nothing; otherwise \<^verbatim>\<open>peek\<close> and \<^verbatim>\<open>pop\<close> give the item of
  an entry no other entry precedes (lower priority value first, then earlier insertion), and
  \<^verbatim>\<open>pop\<close> removes that entry and no other.
\<close>

lemma pop_takes_least:
  "let q = fold pq_step ops pq_new in
   (pq_heap q = [] \<longrightarrow> pq_pop q = (None, q) \<and> pq_peek q = None) \<and>
   (pq_heap q \<noteq> [] \<longrightarrow> (\<exists>e q'. pq_pop q = (Some (he_item e), q') \<and> pq_peek q = Some (he_item e) \<and>
      e \<in> set (pq_heap q) \<and> (\<forall>f \<in> set (pq_heap q). f = e \<or> is_higher_priority e f) \<and>
      mset (pq_heap q') = mset (pq_heap q) - {#e#}))"
proof -
  define q where "q = fold pq_step ops pq_new"
  have ok: "pq_ok q" unfolding q_def by (rule pq_run_ok)
  have "\<exists>e q'. pq_pop q = (Some (he_item e), q') \<and> pq_peek q = Some (he_item e) \<and>
      e \<in> set (pq_heap q) \<and> (\<forall>f \<in> set (pq_heap q). f = e \<or> is_higher_priority e f) \<and>
      mset (pq_heap q') = mset (pq_heap q) - {#e#}" if ne: "pq_heap q \<noteq> []"
  proof -
    let ?e = "pq_heap q ! 0"
    obtain q' where p: "pop_entry q = (Some ?e, q')" "mset (pq_heap q') = mset (pq_heap q) - {#?e#}"
      using pop_entry_ok [OF ok ne] by blast
    have e: "?e \<in> set (pq_heap q)" using ne by simp
    have "f = ?e \<or> is_higher_priority ?e f" if f: "f \<in> set (pq_heap q)" for f
    proof (cases "f = ?e")
      case False
      have "he_order f \<noteq> he_order ?e" using False f e ok by (auto simp: pq_ok_def distinct_map dest: inj_onD)
      then show ?thesis using f ok heap_root [of "pq_heap q"]
        by (auto simp: higher_key hkey_def pq_ok_def in_set_conv_nth less_le)
    qed simp
    moreover have "pq_peek q = Some (he_item ?e)" using ne by (cases "pq_heap q") (simp_all add: pq_peek_def)
    ultimately show ?thesis using p e by (auto simp: pq_pop_def)
  qed
  moreover have "pq_pop q = (None, q) \<and> pq_peek q = None" if "pq_heap q = []"
    using that by (simp add: pq_pop_def pop_entry_def pq_peek_def)
  ultimately show ?thesis unfolding q_def [symmetric] Let_def by blast
qed

lemma pop_takes_least_instance:
  "fst (pq_pop (fold pq_step [Push CHR ''a'' 5, Push CHR ''b'' 3, Update 0 9] pq_new)) = Some CHR ''a''"
proof -
  let ?q = "fold pq_step [Push CHR ''a'' 5, Push CHR ''b'' 3, Update 0 9] pq_new"
  have q: "pq_heap ?q = [\<lparr>he_item = CHR ''a'', he_priority = 5, he_order = 0\<rparr>,
      \<lparr>he_item = CHR ''b'', he_priority = 9, he_order = 1\<rparr>]"
    by (simp add: pq_push_def pq_new_def update_priority_def sift_up.simps sift_down.simps smallest_child_def
        is_higher_priority_def swap_def)
  then have "pq_heap ?q \<noteq> []" by simp
  with pop_takes_least [of "[Push CHR ''a'' 5, Push CHR ''b'' 3, Update 0 9]"]
  show ?thesis unfolding Let_def q by (auto simp: is_higher_priority_def)
qed

text \<open>
  C19. Draining a queue built by any pushes yields the items sorted by priority, those of equal
  priority in the order they were pushed, and leaves the queue empty.
\<close>

theorem drain_stable_sort:
  "fst (pq_drain (pushes xs pq_new)) = map fst (sort_key snd xs) \<and>
   pq_heap (snd (pq_drain (pushes xs pq_new))) = []"
proof -
  obtain q' where "take_while_least (\<lambda>_. True) (pushes xs pq_new) = (by_priority xs, q')" "length (pq_heap q') = 0"
    using taken_from_pushes [of "\<lambda>_. True" xs] by (auto simp: case_prod_beta)
  then show ?thesis using filter_items [of "\<lambda>_. True" xs] by (simp add: drain_loop)
qed


subsection \<open>Timers\<close>

definition schedules :: "(u64 \<times> u64) list \<Rightarrow> timer_queue \<Rightarrow> timer_queue" where
  "schedules ts t = fold (\<lambda>(d, c) t. timer_schedule t d c) ts t"

lemma sint_small:
  fixes x :: u64
  assumes "uint x < 2 ^ 63"
  shows "sint x = uint x"
proof -
  have "- (2 ^ 63) \<le> uint x" using uint_ge_0 [of x] by (rule order_trans [rotated]) simp
  then show ?thesis unfolding sint_uint using assms by (intro signed_take_bit_int_eq_self) simp_all
qed

lemma sint_deadline:
  fixes a b :: u64
  assumes "uint a + uint b < 2 ^ 63"
  shows "sint (saturating_add a b) = uint a + uint b"
proof -
  have u: "uint (a + b) = uint a + uint b" using assms by (simp add: uint_word_ariths)
  then have "\<not> a + b < a" by (simp add: word_less_def)
  then have "saturating_add a b = a + b" by (simp add: saturating_add_def)
  moreover have "sint (a + b) = uint (a + b)" using assms u by (intro sint_small) simp
  ultimately show ?thesis using u by simp
qed

lemma schedules_pushes:
  assumes "\<forall>(d, c) \<in> set ts. uint (tq_current_tick t) + uint d < 2 ^ 63"
  shows "schedules ts t = t\<lparr>tq_entries := pushes (map (\<lambda>(d, c). (c, uint (tq_current_tick t) + uint d)) ts) (tq_entries t)\<rparr>"
  using assms
proof (induction ts arbitrary: t)
  case (Cons x ts)
  obtain d c where x: "x = (d, c)" by force
  have "timer_schedule t d c = t\<lparr>tq_entries := pq_push (tq_entries t) c (uint (tq_current_tick t) + uint d)\<rparr>"
    using Cons.prems x sint_deadline [of "tq_current_tick t" d] by (simp add: timer_schedule_def)
  then show ?case using Cons by (simp add: schedules_def pushes_def x)
qed (simp add: schedules_def pushes_def)

text \<open>
  Timers: with the clock at \<open>tick\<close> and deadlines below \<open>2\<^sup>6\<^sup>3\<close>, \<^verbatim>\<open>poll_expired(now)\<close>
  returns exactly the callbacks whose deadline has passed, earliest deadline first and in order
  of scheduling where deadlines agree, and the timers that remain are those not yet due.
\<close>

lemma poll_expired_due:
  assumes "\<forall>(d, c) \<in> set ts. uint tick + uint d < 2 ^ 63" and "uint now < 2 ^ 63"
  shows "let (ids, t') = poll_expired (schedules ts (set_tick timer_new tick)) now in
     ids = map snd (filter (\<lambda>(d, c). uint tick + uint d \<le> uint now) (sort_key (\<lambda>(d, c). uint d) ts)) \<and>
     timer_pending t' = length (filter (\<lambda>(d, c). uint now < uint tick + uint d) ts) \<and>
     tq_current_tick t' = now"
proof -
  let ?f = "\<lambda>(d, c). (c, uint tick + uint d)" let ?xs = "map ?f ts" let ?P = "\<lambda>p. p \<le> uint now"
  have n: "sint now = uint now" using assms(2) by (rule sint_small)
  have q: "tq_entries (schedules ts (set_tick timer_new tick)) = pushes ?xs pq_new"
    using schedules_pushes [of ts "set_tick timer_new tick"] assms(1) by (simp add: set_tick_def timer_new_def)
  obtain q' where t: "take_while_least (\<lambda>e. ?P (he_priority e)) (pushes ?xs pq_new) =
      (filter (\<lambda>e. ?P (he_priority e)) (by_priority ?xs), q')"
    "length (pq_heap q') = length (filter (\<lambda>(x, p). \<not> ?P p) ?xs)"
    using taken_from_pushes [of ?P ?xs] by (auto intro: order_trans)
  have "sort_key snd ?xs = map ?f (sort_key (\<lambda>x. snd (?f x)) ts)" by (rule sort_key_map)
  also have "sort_key (\<lambda>x. snd (?f x)) ts = sort_key (\<lambda>(d, c). uint d) ts"
    by (rule sort_key_shift) auto
  finally have k: "sort_key snd ?xs = map ?f (sort_key (\<lambda>(d, c). uint d) ts)" .
  have "poll_loop (pushes ?xs pq_new) (sint now) =
      (map snd (filter (\<lambda>(d, c). uint tick + uint d \<le> uint now) (sort_key (\<lambda>(d, c). uint d) ts)), q')"
    using t(1) filter_items [of ?P ?xs] unfolding n k
    by (simp add: poll_loop_eq filter_map comp_def case_prod_unfold)
  moreover have "length (pq_heap q') = length (filter (\<lambda>(d, c). uint now < uint tick + uint d) ts)"
    using t(2) by (simp add: filter_map comp_def case_prod_unfold not_le)
  ultimately show ?thesis using q by (simp add: poll_expired_def timer_pending_def pq_len_def)
qed

lemma poll_expired_due_instance:
  "fst (poll_expired (schedules [(30, 1), (10, 2), (20, 3), (10, 4)] (set_tick timer_new 5)) 25) = [2, 4, 3]"
proof -
  let ?ts = "[(30, 1), (10, 2), (20, 3), (10, 4)] :: (u64 \<times> u64) list"
  have h: "\<forall>(d, c) \<in> set ?ts. uint (5 :: u64) + uint d < 2 ^ 63" "uint (25 :: u64) < 2 ^ 63" by simp_all
  show ?thesis using poll_expired_due [OF h] by (simp add: case_prod_beta)
qed

text \<open>A deadline of \<open>2\<^sup>6\<^sup>3\<close> or more is a negative priority: the timer fires at once.\<close>

lemma far_timer_fires_now:
  "fst (poll_expired (timer_schedule timer_new (2 ^ 63) c) 0) = [c]"
  by (simp add: poll_expired_def timer_schedule_def timer_new_def pq_new_def pq_push_def saturating_add_def
      sift_up.simps poll_loop.simps pq_pop_def pop_entry_def swap_def)

end
