(* ===== verification/Firewall.thy ===== *)
theory Firewall
  imports Rust_Str "HOL-Library.Multiset"
begin

text \<open>
  The packet firewall (\<^verbatim>\<open>src/firewall.rs\<close>): a rule table kept in order of priority, the global
  table behind its lock and the packet counters. The table refines a specification in which
  rules are simply appended and a packet is decided by a stable sort.
\<close>

section \<open>Rules\<close>

definition MAX_RULES :: usize where "MAX_RULES = 256"

datatype action = Allow | Deny | Log
datatype direction = In | Out | Both
datatype protocol = Tcp | Udp | Icmp | Any

text \<open>\<^verbatim>\<open>[u8; 4]\<close> is a 4-tuple of bytes.\<close>

type_synonym ip4 = "u8 \<times> u8 \<times> u8 \<times> u8"

record firewall_rule =
  fr_id :: u32
  fr_action :: action
  fr_direction :: direction
  fr_protocol :: "protocol option"
  fr_src_ip :: "ip4 option"
  fr_dst_ip :: "ip4 option"
  fr_src_port :: "u16 option"
  fr_dst_port :: "u16 option"
  fr_priority :: u8

text \<open>The arguments a packet is checked with, in the order of the parameters.\<close>

record packet =
  pk_dir :: direction
  pk_proto :: protocol
  pk_src_ip :: ip4
  pk_src_port :: u16
  pk_dst_ip :: ip4
  pk_dst_port :: u16

definition is_some_and :: "('a \<Rightarrow> bool) \<Rightarrow> 'a option \<Rightarrow> bool" where
  "is_some_and P x = (case x of None \<Rightarrow> False | Some a \<Rightarrow> P a)"

definition fr_matches :: "firewall_rule \<Rightarrow> packet \<Rightarrow> bool" where
  "fr_matches r p =
     (if fr_direction r \<noteq> Both \<and> fr_direction r \<noteq> pk_dir p then False
      else if is_some_and (\<lambda>q. q \<noteq> Any \<and> q \<noteq> pk_proto p) (fr_protocol r) then False
      else if is_some_and (\<lambda>ip. ip \<noteq> pk_src_ip p) (fr_src_ip r) then False
      else if is_some_and (\<lambda>ip. ip \<noteq> pk_dst_ip p) (fr_dst_ip r) then False
      else if is_some_and (\<lambda>q. q \<noteq> pk_src_port p) (fr_src_port r) then False
      else if is_some_and (\<lambda>q. q \<noteq> pk_dst_port p) (fr_dst_port r) then False
      else True)"

section \<open>Counters\<close>

record packet_stats =
  ps_allowed :: u64
  ps_denied :: u64
  ps_logged :: u64

definition stats_new :: packet_stats where
  "stats_new = \<lparr>ps_allowed = 0, ps_denied = 0, ps_logged = 0\<rparr>"

definition stats_record :: "packet_stats \<Rightarrow> action \<Rightarrow> packet_stats" where
  "stats_record s a =
     (case a of
        Allow \<Rightarrow> s\<lparr>ps_allowed := ps_allowed s + 1\<rparr>
      | Deny \<Rightarrow> s\<lparr>ps_denied := ps_denied s + 1\<rparr>
      | Log \<Rightarrow> s\<lparr>ps_logged := ps_logged s + 1\<rparr>)"

definition snapshot :: "packet_stats \<Rightarrow> u64 \<times> u64 \<times> u64" where
  "snapshot s = (ps_allowed s, ps_denied s, ps_logged s)"

section \<open>The rule table\<close>

record rule_table =
  rt_rules :: "firewall_rule list"
  rt_default_policy :: action
  rt_next_id :: u32

definition table_new :: "action \<Rightarrow> rule_table" where
  "table_new policy = \<lparr>rt_rules = [], rt_default_policy = policy, rt_next_id = 1\<rparr>"

definition table_add_rule :: "rule_table \<Rightarrow> firewall_rule \<Rightarrow> u32 option \<times> rule_table" where
  "table_add_rule t rule0 =
     (if length (rt_rules t) \<ge> MAX_RULES then (None, t)
      else
        let new_id = rt_next_id t; rule = rule0\<lparr>fr_id := new_id\<rparr>;
            pos = (case position (\<lambda>r. fr_priority r > fr_priority rule) (rt_rules t) of
                     Some i \<Rightarrow> i | None \<Rightarrow> length (rt_rules t))
        in (Some new_id, t\<lparr>rt_next_id := rt_next_id t + 1, rt_rules := insert_at pos rule (rt_rules t)\<rparr>))"

definition table_remove_rule :: "rule_table \<Rightarrow> u32 \<Rightarrow> bool \<times> rule_table" where
  "table_remove_rule t n =
     (case position (\<lambda>r. fr_id r = n) (rt_rules t) of
        Some pos \<Rightarrow> (True, t\<lparr>rt_rules := remove_at pos (rt_rules t)\<rparr>)
      | None \<Rightarrow> (False, t))"

definition list_rules :: "rule_table \<Rightarrow> firewall_rule list" where
  "list_rules t = rt_rules t"

definition table_check_packet :: "rule_table \<Rightarrow> packet \<Rightarrow> action" where
  "table_check_packet t p =
     (case find (\<lambda>r. fr_matches r p) (rt_rules t) of
        Some rule \<Rightarrow> fr_action rule | None \<Rightarrow> rt_default_policy t)"

definition action_debug :: "action \<Rightarrow> str" where
  "action_debug a = (case a of Allow \<Rightarrow> ''Allow'' | Deny \<Rightarrow> ''Deny'' | Log \<Rightarrow> ''Log'')"

definition fmt_ip :: "ip4 option \<Rightarrow> str" where
  "fmt_ip ip = (case ip of
     Some (a, b, c, d) \<Rightarrow> show_nat (unat a) @ ''.'' @ show_nat (unat b) @ ''.'' @ show_nat (unat c) @ ''.'' @ show_nat (unat d)
   | None \<Rightarrow> ''*'')"

definition fmt_port :: "u16 option \<Rightarrow> str" where
  "fmt_port p = (case p of Some v \<Rightarrow> show_nat (unat v) | None \<Rightarrow> ''*'')"

definition format_rule :: "firewall_rule \<Rightarrow> str" where
  "format_rule r =
     (let proto = (case fr_protocol r of Some Tcp \<Rightarrow> ''TCP   '' | Some Udp \<Rightarrow> ''UDP   '' | Some Icmp \<Rightarrow> ''ICMP  ''
                   | Some Any \<Rightarrow> ''ANY   '' | None \<Rightarrow> ''*     '');
          dir = (case fr_direction r of In \<Rightarrow> ''IN   '' | Out \<Rightarrow> ''OUT  '' | Both \<Rightarrow> ''BOTH '');
          act = (case fr_action r of Allow \<Rightarrow> ''ALLOW  '' | Deny \<Rightarrow> ''DENY   '' | Log \<Rightarrow> ''LOG    '')
      in pad_right 4 (show_nat (unat (fr_id r))) @ '' '' @ pad_right 4 (show_nat (unat (fr_priority r))) @ '' '' @
         act @ '' '' @ dir @ '' '' @ proto @ '' '' @
         pad_right 16 (fmt_ip (fr_src_ip r)) @ '' '' @ pad_right 6 (fmt_port (fr_src_port r)) @ '' '' @
         pad_right 16 (fmt_ip (fr_dst_ip r)) @ '' '' @ fmt_port (fr_dst_port r) @ [CHR 0x0A])"

definition table_format_rules :: "rule_table \<Rightarrow> str" where
  "table_format_rules t =
     (if rt_rules t = [] then ''(no rules -- default policy: '' @ action_debug (rt_default_policy t) @ '')'' @ [CHR 0x0A]
      else ''ID   PRI  ACTION  DIR   PROTO  SRC_IP           SPORT  DST_IP           DPORT'' @ [CHR 0x0A] @
           ''---- ---- ------- ----- ------ ---------------- ------ ---------------- -----'' @ [CHR 0x0A] @
           concat (map format_rule (rt_rules t)) @
           ''Default policy: '' @ action_debug (rt_default_policy t) @ [CHR 0x0A])"

section \<open>The global firewall\<close>

record firewall =
  FIREWALL :: "rule_table option"
  STATS :: packet_stats

definition firewall_boot :: firewall where
  "firewall_boot = \<lparr>FIREWALL = None, STATS = stats_new\<rparr>"

definition firewall_init :: "firewall \<Rightarrow> action \<Rightarrow> firewall" where
  "firewall_init f policy = f\<lparr>FIREWALL := Some (table_new policy)\<rparr>"

definition add_rule :: "firewall \<Rightarrow> firewall_rule \<Rightarrow> u32 option \<times> firewall" where
  "add_rule f rule =
     (case FIREWALL f of
        None \<Rightarrow> (None, f)
      | Some t \<Rightarrow> (let (n, t1) = table_add_rule t rule in (n, f\<lparr>FIREWALL := Some t1\<rparr>)))"

definition remove_rule :: "firewall \<Rightarrow> u32 \<Rightarrow> bool \<times> firewall" where
  "remove_rule f n =
     (case FIREWALL f of
        None \<Rightarrow> (False, f)
      | Some t \<Rightarrow> (let (b, t1) = table_remove_rule t n in (b, f\<lparr>FIREWALL := Some t1\<rparr>)))"

definition check_packet :: "firewall \<Rightarrow> packet \<Rightarrow> action \<times> firewall" where
  "check_packet f p =
     (let a = (case FIREWALL f of Some t \<Rightarrow> table_check_packet t p | None \<Rightarrow> Deny)
      in (a, f\<lparr>STATS := stats_record (STATS f) a\<rparr>))"

definition packet_stats_of :: "firewall \<Rightarrow> u64 \<times> u64 \<times> u64" where
  "packet_stats_of f = snapshot (STATS f)"

definition format_rules :: "firewall \<Rightarrow> str" where
  "format_rules f =
     (case FIREWALL f of
        Some t \<Rightarrow> table_format_rules t
      | None \<Rightarrow> ''(firewall not initialised)'' @ [CHR 0x0A])"

section \<open>Specification\<close>

text \<open>
  The specification keeps the rules in the order they were added. A packet gets the verdict of
  the first rule that matches after a stable sort by priority, the default policy if there is
  none, and \<^verbatim>\<open>Deny\<close> before \<^verbatim>\<open>init\<close>.
\<close>

type_synonym fw_spec = "(action \<times> u32 \<times> firewall_rule list) option \<times> packet_stats"

datatype fw_op = Init action | AddRule firewall_rule | RemoveRule u32 | Check packet | Stats

datatype fw_out = Done | RuleId "u32 option" | Removed bool | Verdict action | Counters "u64 \<times> u64 \<times> u64"

fun fw_step :: "firewall \<Rightarrow> fw_op \<Rightarrow> fw_out \<times> firewall" where
  "fw_step f (Init p) = (Done, firewall_init f p)"
| "fw_step f (AddRule r) = map_prod RuleId (\<lambda>f. f) (add_rule f r)"
| "fw_step f (RemoveRule n) = map_prod Removed (\<lambda>f. f) (remove_rule f n)"
| "fw_step f (Check p) = map_prod Verdict (\<lambda>f. f) (check_packet f p)"
| "fw_step f Stats = (Counters (packet_stats_of f), f)"

definition decide :: "firewall_rule list \<Rightarrow> packet \<Rightarrow> action \<Rightarrow> action" where
  "decide rs p policy =
     (case filter (\<lambda>r. fr_matches r p) (sort_key fr_priority rs) of r # _ \<Rightarrow> fr_action r | [] \<Rightarrow> policy)"

fun fw_spec_step :: "fw_spec \<Rightarrow> fw_op \<Rightarrow> fw_out \<times> fw_spec" where
  "fw_spec_step (_, st) (Init p) = (Done, (Some (p, 1, []), st))"
| "fw_spec_step (None, st) (AddRule r) = (RuleId None, (None, st))"
| "fw_spec_step (Some (p, n, rs), st) (AddRule r) =
     (if length rs < MAX_RULES then (RuleId (Some n), (Some (p, n + 1, rs @ [r\<lparr>fr_id := n\<rparr>]), st))
      else (RuleId None, (Some (p, n, rs), st)))"
| "fw_spec_step (None, st) (RemoveRule n) = (Removed False, (None, st))"
| "fw_spec_step (Some (p, n, rs), st) (RemoveRule k) =
     (Removed (k \<in> fr_id ` set rs), (Some (p, n, filter (\<lambda>r. fr_id r \<noteq> k) rs), st))"
| "fw_spec_step (None, st) (Check p) = (Verdict Deny, (None, stats_record st Deny))"
| "fw_spec_step (Some (pol, n, rs), st) (Check p) =
     (Verdict (decide rs p pol), (Some (pol, n, rs), stats_record st (decide rs p pol)))"
| "fw_spec_step (s, st) Stats = (Counters (snapshot st), (s, st))"

section \<open>Refinement\<close>

lemma position_split:
  assumes "sorted (map f xs)"
  obtains "position (\<lambda>y. f y > k) xs = None" and "\<forall>y \<in> set xs. f y \<le> k"
  | i where "position (\<lambda>y. f y > k) xs = Some i" and "i < length xs"
      and "\<forall>y \<in> set (take i xs). f y \<le> k" and "\<forall>y \<in> set (drop i xs). k < f y"
proof (cases "position (\<lambda>y. f y > k) xs")
  case None
  then show ?thesis using that(1) by (auto simp: position_None not_less)
next
  case (Some i)
  have "f (xs ! i) \<le> f y" if y: "y \<in> set (drop i xs)" for y
  proof -
    obtain j where "j < length xs - i" "y = xs ! (i + j)" using y by (auto simp: in_set_conv_nth)
    then show ?thesis using assms by (simp add: sorted_iff_nth_mono)
  qed
  moreover have "\<forall>y \<in> set (take i xs). f y \<le> k"
    using position_SomeD [OF Some] by (auto simp: in_set_conv_nth not_less)
  ultimately show ?thesis using that(2) [OF Some] position_SomeD [OF Some] by (meson less_le_trans)
qed

text \<open>Inserting before the first larger key is the step of a stable insertion sort.\<close>

lemma stable_insert:
  fixes f :: "'a \<Rightarrow> 'k :: linorder" and xs :: "'a list" and x :: 'a
  defines "pos \<equiv> (case position (\<lambda>y. f y > f x) (sort_key f xs) of Some i \<Rightarrow> i | None \<Rightarrow> length (sort_key f xs))"
  shows "sort_key f (xs @ [x]) = insert_at pos x (sort_key f xs)"
proof -
  let ?s = "sort_key f xs"
  have td: "(\<forall>y \<in> set (take pos ?s). f y \<le> f x) \<and> (\<forall>y \<in> set (drop pos ?s). f x < f y)"
    by (rule position_split [of f ?s "f x"]) (simp_all add: pos_def)
  note t = conjunct1 [OF td] and d = conjunct2 [OF td]
  have "filter (\<lambda>y. f k = f y) (insert_at pos x ?s) = filter (\<lambda>y. f k = f y) (xs @ [x])" for k
  proof -
    have "filter (\<lambda>y. f k = f y) ?s = filter (\<lambda>y. f k = f y) xs"
      using sort_key_stable [of f "f k" xs] by (simp add: eq_commute)
    then have s: "filter (\<lambda>y. f k = f y) (take pos ?s) @ filter (\<lambda>y. f k = f y) (drop pos ?s) = filter (\<lambda>y. f k = f y) xs"
      by (metis append_take_drop_id filter_append)
    have "filter (\<lambda>y. f k = f y) (drop pos ?s) = []" if "f k = f x" using d that by (auto simp: filter_empty_conv)
    then show ?thesis using s by (auto simp: insert_at_def)
  qed
  moreover have "mset (insert_at pos x ?s) = mset (xs @ [x])"
    by (simp add: insert_at_def) (metis append_take_drop_id mset_append mset_sort)
  moreover have "sorted (map f (insert_at pos x ?s))"
  proof -
    have "sorted (map f (take pos ?s))" "sorted (map f (drop pos ?s))"
      by (simp_all add: take_map [symmetric] drop_map [symmetric] sorted_wrt_take sorted_wrt_drop)
    then show ?thesis using t d by (fastforce simp: insert_at_def sorted_append)
  qed
  ultimately show ?thesis by (intro properties_for_sort_key) auto
qed


definition table_ok :: "nat \<Rightarrow> rule_table \<Rightarrow> firewall_rule list \<Rightarrow> bool" where
  "table_ok n t rs \<longleftrightarrow> rt_rules t = sort_key fr_priority rs \<and> distinct (map fr_id rs) \<and>
     (\<forall>r \<in> set rs. fr_id r < rt_next_id t) \<and> unat (rt_next_id t) \<le> n + 1"

lemma table_new_ok: "table_ok n (table_new p) []"
  by (simp add: table_ok_def table_new_def)

lemma table_ok_mono: "table_ok n t rs \<Longrightarrow> n \<le> m \<Longrightarrow> table_ok m t rs"
  by (auto simp: table_ok_def)

lemma table_add_ok:
  assumes t: "table_ok n t rs" and n: "n + 2 < 2 ^ 32"
  shows "table_add_rule t r =
      (if length rs < MAX_RULES
       then (Some (rt_next_id t), t\<lparr>rt_next_id := rt_next_id t + 1,
           rt_rules := sort_key fr_priority (rs @ [r\<lparr>fr_id := rt_next_id t\<rparr>])\<rparr>)
       else (None, t))"
    and "table_ok (n + 1) (t\<lparr>rt_next_id := rt_next_id t + 1,
           rt_rules := sort_key fr_priority (rs @ [r\<lparr>fr_id := rt_next_id t\<rparr>])\<rparr>) (rs @ [r\<lparr>fr_id := rt_next_id t\<rparr>])"
proof -
  show "table_add_rule t r =
      (if length rs < MAX_RULES
       then (Some (rt_next_id t), t\<lparr>rt_next_id := rt_next_id t + 1,
           rt_rules := sort_key fr_priority (rs @ [r\<lparr>fr_id := rt_next_id t\<rparr>])\<rparr>)
       else (None, t))"
    using t stable_insert [of fr_priority rs "r\<lparr>fr_id := rt_next_id t\<rparr>"]
    by (cases "length rs < MAX_RULES") (simp_all add: table_add_rule_def table_ok_def Let_def cong: option.case_cong)
  have "unat (rt_next_id t + 1) = unat (rt_next_id t) + 1"
    using t n by (simp add: table_ok_def unat_word_ariths)
  then have "rt_next_id t < rt_next_id t + 1" "unat (rt_next_id t + 1) \<le> n + 2"
    using t by (simp_all add: word_less_nat_alt table_ok_def)
  then show "table_ok (n + 1) (t\<lparr>rt_next_id := rt_next_id t + 1,
           rt_rules := sort_key fr_priority (rs @ [r\<lparr>fr_id := rt_next_id t\<rparr>])\<rparr>) (rs @ [r\<lparr>fr_id := rt_next_id t\<rparr>])"
    using t by (auto simp: table_ok_def)
qed

lemma remove_unique:
  assumes "position (\<lambda>r. g r = k) xs = Some i" and "distinct (map g xs)"
  shows "remove_at i xs = filter (\<lambda>r. g r \<noteq> k) xs"
  using assms
proof (induction xs arbitrary: i)
  case (Cons x xs)
  show ?case
  proof (cases "g x = k")
    case True
    then have "filter (\<lambda>r. g r \<noteq> k) xs = xs" using Cons.prems(2) by (intro filter_True ballI) (force simp: image_iff)
    then show ?thesis using True Cons.prems(1) by (simp add: remove_at_def)
  next
    case False
    then obtain j where "position (\<lambda>r. g r = k) xs = Some j" "i = Suc j" using Cons.prems(1) by auto
    then show ?thesis using Cons.IH [of j] Cons.prems(2) False by (simp add: remove_at_def)
  qed
qed simp

lemma table_remove_ok:
  assumes t: "table_ok n t rs"
  shows "table_remove_rule t k = (k \<in> fr_id ` set rs, t\<lparr>rt_rules := sort_key fr_priority (filter (\<lambda>r. fr_id r \<noteq> k) rs)\<rparr>)"
    and "table_ok n (t\<lparr>rt_rules := sort_key fr_priority (filter (\<lambda>r. fr_id r \<noteq> k) rs)\<rparr>) (filter (\<lambda>r. fr_id r \<noteq> k) rs)"
proof -
  have s: "rt_rules t = sort_key fr_priority rs" and d: "distinct (map fr_id rs)" using t by (simp_all add: table_ok_def)
  have ds: "distinct (map fr_id (sort_key fr_priority rs))"
    using d by (simp add: distinct_map)
  show "table_remove_rule t k = (k \<in> fr_id ` set rs, t\<lparr>rt_rules := sort_key fr_priority (filter (\<lambda>r. fr_id r \<noteq> k) rs)\<rparr>)"
  proof (cases "position (\<lambda>r. fr_id r = k) (rt_rules t)")
    case None
    then have no: "\<forall>r \<in> set rs. fr_id r \<noteq> k" using s by (simp add: position_None)
    then have "filter (\<lambda>r. fr_id r \<noteq> k) rs = rs" by simp
    moreover have "k \<notin> fr_id ` set rs" using no by auto
    ultimately show ?thesis using None s by (simp add: table_remove_rule_def)
  next
    case (Some i)
    have "k \<in> fr_id ` set rs" using position_SomeD [OF Some] s by (metis image_eqI nth_mem set_sort)
    then show ?thesis using Some remove_unique [OF Some] ds s by (simp add: table_remove_rule_def filter_sort)
  qed
  show "table_ok n (t\<lparr>rt_rules := sort_key fr_priority (filter (\<lambda>r. fr_id r \<noteq> k) rs)\<rparr>) (filter (\<lambda>r. fr_id r \<noteq> k) rs)"
    using t by (auto simp: table_ok_def distinct_map_filter)
qed

lemma table_check_decide: "table_ok n t rs \<Longrightarrow> table_check_packet t p = decide rs p (rt_default_policy t)"
proof -
  have "find P xs = (case filter P xs of [] \<Rightarrow> None | x # _ \<Rightarrow> Some x)" for P and xs :: "firewall_rule list"
    by (induction xs) auto
  then show "table_ok n t rs \<Longrightarrow> ?thesis"
    by (simp add: table_check_packet_def decide_def table_ok_def split: list.split)
qed


fun fw_rel :: "nat \<Rightarrow> firewall \<Rightarrow> fw_spec \<Rightarrow> bool" where
  "fw_rel n f (None, st) \<longleftrightarrow> FIREWALL f = None \<and> STATS f = st"
| "fw_rel n f (Some (p, k, rs), st) \<longleftrightarrow> STATS f = st \<and>
     (\<exists>t. FIREWALL f = Some t \<and> table_ok n t rs \<and> rt_default_policy t = p \<and> rt_next_id t = k)"

lemma fw_simulation:
  assumes "fw_rel n f s" and "n + 2 < 2 ^ 32"
  shows "fst (fw_step f op) = fst (fw_spec_step s op) \<and> fw_rel (n + 1) (snd (fw_step f op)) (snd (fw_spec_step s op))"
proof (cases "fst s")
  case None
  then obtain st where s: "s = (None, st)" by (cases s) auto
  then show ?thesis using assms(1) table_new_ok
    by (cases op) (auto simp: firewall_init_def add_rule_def remove_rule_def check_packet_def packet_stats_of_def table_new_def)
next
  case (Some x)
  then obtain p k rs st where s: "s = (Some (p, k, rs), st)" by (cases s; cases x) auto
  then obtain t where f: "FIREWALL f = Some t" "STATS f = st" "table_ok n t rs" "rt_default_policy t = p" "rt_next_id t = k"
    using assms(1) by auto
  note m = table_ok_mono [OF f(3), of "n + 1"]
  show ?thesis
  proof (cases op)
    case (Init q)
    then show ?thesis using f s table_new_ok [of "n + 1" q] by (simp add: firewall_init_def) (simp add: table_new_def)
  next
    case (AddRule r)
    then show ?thesis using f s m table_add_ok [OF f(3) assms(2), of r] by (auto simp: add_rule_def)
  next
    case (RemoveRule q)
    then show ?thesis
      using f s table_remove_ok [OF f(3), of q] table_ok_mono [OF table_remove_ok(2) [OF f(3)], of "n + 1"]
      by (auto simp: remove_rule_def)
  next
    case (Check q)
    then show ?thesis using f s m table_check_decide [OF f(3), of q] by (auto simp: check_packet_def Let_def)
  next
    case Stats
    then show ?thesis using f s m by (auto simp: packet_stats_of_def)
  qed
qed

lemma fw_run:
  "fw_rel n f s \<Longrightarrow> n + length ops + 1 < 2 ^ 32 \<Longrightarrow>
   fst (run_ops fw_step f ops) = fst (run_ops fw_spec_step s ops)"
proof (induction ops arbitrary: n f s)
  case (Cons op ops)
  from fw_simulation [OF Cons.prems(1), of op] Cons.prems(2)
  have o: "fst (fw_step f op) = fst (fw_spec_step s op)"
    and r: "fw_rel (n + 1) (snd (fw_step f op)) (snd (fw_spec_step s op))" by simp_all
  from Cons.IH [OF r] Cons.prems(2) o show ?case by (simp add: case_prod_beta)
qed simp

text \<open>
  C16. The firewall implements first match by priority: for any sequence of fewer than
  \<open>2\<^sup>3\<^sup>2 - 1\<close> calls, the ids handed out, the results of removals, the verdicts and the counters are
  those of a table that only appends rules and decides a packet by the first match of a stable
  sort by priority, denying every packet before \<^verbatim>\<open>init\<close>.
\<close>

theorem firewall_first_match:
  assumes "length ops < 2 ^ 32 - 1"
  shows "fst (run_ops fw_step firewall_boot ops) = fst (run_ops fw_spec_step (None, stats_new) ops)"
proof (rule fw_run)
  show "fw_rel 0 firewall_boot (None, stats_new)" by (simp add: firewall_boot_def)
  show "0 + length ops + 1 < 2 ^ 32" using assms by linarith
qed

definition sample_rule :: firewall_rule where
  "sample_rule = \<lparr>fr_id = 0, fr_action = Allow, fr_direction = In, fr_protocol = Some Tcp, fr_src_ip = None,
     fr_dst_ip = None, fr_src_port = None, fr_dst_port = Some 80, fr_priority = 20\<rparr>"

definition sample_packet :: packet where
  "sample_packet = \<lparr>pk_dir = In, pk_proto = Tcp, pk_src_ip = (10, 0, 0, 1), pk_src_port = 5000,
     pk_dst_ip = (10, 0, 0, 2), pk_dst_port = 80\<rparr>"

theorem firewall_first_match_witness:
  "fst (run_ops fw_step firewall_boot
      [Check sample_packet, Init Deny, AddRule sample_rule, Check sample_packet,
       AddRule (sample_rule\<lparr>fr_action := Log, fr_priority := 10\<rparr>), Check sample_packet, RemoveRule 2,
       Check sample_packet, Stats]) =
   [Verdict Deny, Done, RuleId (Some 1), Verdict Allow, RuleId (Some 2), Verdict Log, Removed True,
    Verdict Allow, Counters (2, 1, 1)]"
proof -
  let ?ops = "[Check sample_packet, Init Deny, AddRule sample_rule, Check sample_packet,
       AddRule (sample_rule\<lparr>fr_action := Log, fr_priority := 10\<rparr>), Check sample_packet, RemoveRule 2,
       Check sample_packet, Stats]"
  have "length ?ops < 2 ^ 32 - 1" by simp
  from firewall_first_match [OF this] show ?thesis
    by (simp add: decide_def fr_matches_def is_some_and_def sample_rule_def sample_packet_def MAX_RULES_def
        stats_record_def snapshot_def stats_new_def)
qed

end
