(* ===== verification/Ratelimit.thy ===== *)
theory Ratelimit
  imports Rust_Str
begin

text \<open>
  Rate limiting (\<^verbatim>\<open>src/ratelimit.rs\<close>): token buckets, named buckets, the bandwidth limiter and
  the per-address connection limiter. Token counts are the values of the \<^verbatim>\<open>u64\<close> fields as
  natural numbers, with saturation and wrap-around written out; \<^verbatim>\<open>timer::ticks()\<close> is read once
  by each operation and is an argument here.
\<close>

section \<open>Token bucket\<close>

definition PIT_FREQUENCY_HZ :: nat where "PIT_FREQUENCY_HZ = 100"

record token_bucket =
  tb_capacity :: nat
  tb_tokens :: nat
  tb_refill_rate_per_tick :: nat
  tb_last_refill_tick :: nat

definition bucket_new :: "nat \<Rightarrow> nat \<Rightarrow> nat \<Rightarrow> token_bucket" where
  "bucket_new now capacity rate_per_sec =
     (let r = rate_per_sec div PIT_FREQUENCY_HZ
      in \<lparr>tb_capacity = capacity, tb_tokens = capacity,
          tb_refill_rate_per_tick = (if r = 0 \<and> rate_per_sec > 0 then 1 else r), tb_last_refill_tick = now\<rparr>)"

definition saturating_mul :: "nat \<Rightarrow> nat \<Rightarrow> nat" where
  "saturating_mul a b = min (a * b) (2 ^ 64 - 1)"

definition refill :: "nat \<Rightarrow> token_bucket \<Rightarrow> token_bucket" where
  "refill now b =
     (if now \<le> tb_last_refill_tick b then b
      else
        let elapsed = now - tb_last_refill_tick b; add = saturating_mul elapsed (tb_refill_rate_per_tick b)
        in b\<lparr>tb_tokens := min ((tb_tokens b + add) mod 2 ^ 64) (tb_capacity b), tb_last_refill_tick := now\<rparr>)"

definition try_consume :: "nat \<Rightarrow> token_bucket \<Rightarrow> nat \<Rightarrow> bool \<times> token_bucket" where
  "try_consume now b n =
     (let b1 = refill now b in
      if tb_tokens b1 \<ge> n then (True, b1\<lparr>tb_tokens := tb_tokens b1 - n\<rparr>) else (False, b1))"

definition available :: "nat \<Rightarrow> token_bucket \<Rightarrow> nat \<times> token_bucket" where
  "available now b = (let b1 = refill now b in (tb_tokens b1, b1))"

section \<open>Named buckets\<close>

type_synonym rate_limiter = "(str \<times> token_bucket) list"

definition rl_create_limiter :: "nat \<Rightarrow> rate_limiter \<Rightarrow> str \<Rightarrow> nat \<Rightarrow> nat \<Rightarrow> rate_limiter" where
  "rl_create_limiter now rl name capacity rate =
     filter (\<lambda>(n, _). n \<noteq> name) rl @ [(name, bucket_new now capacity rate)]"

fun rl_check :: "nat \<Rightarrow> rate_limiter \<Rightarrow> str \<Rightarrow> nat \<Rightarrow> bool \<times> rate_limiter" where
  "rl_check now [] name tokens = (False, [])"
| "rl_check now ((n, b) # rl) name tokens =
     (if n = name then (let (ok, b1) = try_consume now b tokens in (ok, (n, b1) # rl))
      else (let (ok, rl1) = rl_check now rl name tokens in (ok, (n, b) # rl1)))"

definition rl_remove :: "rate_limiter \<Rightarrow> str \<Rightarrow> bool \<times> rate_limiter" where
  "rl_remove rl name =
     (let rl1 = filter (\<lambda>(n, _). n \<noteq> name) rl in (length rl1 < length rl, rl1))"

definition rl_count :: "rate_limiter \<Rightarrow> usize" where
  "rl_count rl = length rl"

section \<open>Bandwidth\<close>

record bandwidth_limiter =
  bw_bucket :: token_bucket
  bw_total_passed :: nat
  bw_total_denied :: nat

definition bandwidth_new :: "nat \<Rightarrow> nat \<Rightarrow> nat \<Rightarrow> bandwidth_limiter" where
  "bandwidth_new now bytes_per_sec burst =
     \<lparr>bw_bucket = bucket_new now burst bytes_per_sec, bw_total_passed = 0, bw_total_denied = 0\<rparr>"

definition try_send :: "nat \<Rightarrow> bandwidth_limiter \<Rightarrow> nat \<Rightarrow> bool \<times> bandwidth_limiter" where
  "try_send now w bytes =
     (let (ok, b) = try_consume now (bw_bucket w) bytes; w1 = w\<lparr>bw_bucket := b\<rparr>
      in if ok then (True, w1\<lparr>bw_total_passed := (bw_total_passed w1 + bytes) mod 2 ^ 64\<rparr>)
         else (False, w1\<lparr>bw_total_denied := (bw_total_denied w1 + bytes) mod 2 ^ 64\<rparr>))"

section \<open>Connections\<close>

type_synonym ipv4 = "u8 \<times> u8 \<times> u8 \<times> u8"

record connection_limiter =
  cl_max_per_ip :: nat
  cl_active :: "(ipv4 \<times> nat) list"

definition connections_new :: "nat \<Rightarrow> connection_limiter" where
  "connections_new m = \<lparr>cl_max_per_ip = m, cl_active = []\<rparr>"

definition try_connect :: "connection_limiter \<Rightarrow> ipv4 \<Rightarrow> bool \<times> connection_limiter" where
  "try_connect c ip =
     (case find (\<lambda>(addr, _). addr = ip) (cl_active c) of
        Some (_, count) \<Rightarrow>
          if count \<ge> cl_max_per_ip c then (False, c)
          else (True, c\<lparr>cl_active := update_first (\<lambda>(addr, _). addr = ip) (\<lambda>(addr, k). (addr, k + 1)) (cl_active c)\<rparr>)
      | None \<Rightarrow> (True, c\<lparr>cl_active := cl_active c @ [(ip, 1)]\<rparr>))"

definition disconnect :: "connection_limiter \<Rightarrow> ipv4 \<Rightarrow> connection_limiter" where
  "disconnect c ip =
     c\<lparr>cl_active := update_first (\<lambda>(addr, k). addr = ip \<and> k > 0) (\<lambda>(addr, k). (addr, k - 1)) (cl_active c)\<rparr>"

definition connections_from :: "connection_limiter \<Rightarrow> ipv4 \<Rightarrow> nat" where
  "connections_from c ip = (case find (\<lambda>(a, _). a = ip) (cl_active c) of Some (_, k) \<Rightarrow> k | None \<Rightarrow> 0)"

definition total_active :: "connection_limiter \<Rightarrow> nat" where
  "total_active c = sum_list (map snd (cl_active c)) mod 2 ^ 32"

definition gc :: "connection_limiter \<Rightarrow> connection_limiter" where
  "gc c = c\<lparr>cl_active := filter (\<lambda>(_, k). k > 0) (cl_active c)\<rparr>"

section \<open>The global limiter\<close>

type_synonym rate_state = "rate_limiter option"

definition ratelimit_init :: "rate_state \<Rightarrow> rate_state" where
  "ratelimit_init s = Some []"

definition create_limiter :: "nat \<Rightarrow> rate_state \<Rightarrow> str \<Rightarrow> nat \<Rightarrow> nat \<Rightarrow> rate_state" where
  "create_limiter now s name capacity rate = map_option (\<lambda>rl. rl_create_limiter now rl name capacity rate) s"

definition ratelimit_check :: "nat \<Rightarrow> rate_state \<Rightarrow> str \<Rightarrow> nat \<Rightarrow> bool \<times> rate_state" where
  "ratelimit_check now s name tokens =
     (case s of None \<Rightarrow> (False, None)
      | Some rl \<Rightarrow> (let (ok, rl1) = rl_check now rl name tokens in (ok, Some rl1)))"

definition format_status :: "nat \<Rightarrow> rate_state \<Rightarrow> str \<times> rate_state" where
  "format_status now s =
     (case s of
        None \<Rightarrow> (''(rate limiter not initialised)'' @ [CHR 0x0A], None)
      | Some rl \<Rightarrow>
          if rl = [] then (''(no rate limit buckets configured)'' @ [CHR 0x0A], s)
          else
            let rl1 = map (\<lambda>(n, b). (n, refill now b)) rl in
            (''NAME                 CAPACITY    TOKENS      RATE/TICK'' @ [CHR 0x0A] @
             ''-------------------- ----------- ----------- -----------'' @ [CHR 0x0A] @
             concat (map (\<lambda>(n, b). pad_right 20 n @ '' '' @ pad_right 11 (show_nat (tb_capacity b)) @ '' '' @
               pad_right 11 (show_nat (tb_tokens b)) @ '' '' @ show_nat (tb_refill_rate_per_tick b) @ [CHR 0x0A]) rl1),
             Some rl1))"

section \<open>The bucket's bound\<close>

lemma refill_bound:
  "tb_tokens (refill now b) + tb_refill_rate_per_tick b * tb_last_refill_tick b \<le>
   tb_tokens b + tb_refill_rate_per_tick b * tb_last_refill_tick (refill now b) \<and>
   tb_last_refill_tick (refill now b) = max now (tb_last_refill_tick b) \<and>
   tb_refill_rate_per_tick (refill now b) = tb_refill_rate_per_tick b \<and> tb_capacity (refill now b) = tb_capacity b \<and>
   (tb_tokens b \<le> tb_capacity b \<longrightarrow> tb_tokens (refill now b) \<le> tb_capacity b)"
proof (cases "now \<le> tb_last_refill_tick b")
  case True
  then show ?thesis by (simp add: refill_def)
next
  case False
  let ?r = "tb_refill_rate_per_tick b" and ?l = "tb_last_refill_tick b"
  have "min ((tb_tokens b + saturating_mul (now - ?l) ?r) mod 2 ^ 64) (tb_capacity b) \<le> tb_tokens b + saturating_mul (now - ?l) ?r"
    by (meson min.coboundedI1 mod_less_eq_dividend)
  also have "\<dots> \<le> tb_tokens b + (now - ?l) * ?r" unfolding saturating_mul_def by linarith
  finally have "min ((tb_tokens b + saturating_mul (now - ?l) ?r) mod 2 ^ 64) (tb_capacity b) + ?r * ?l \<le>
      tb_tokens b + ((now - ?l) * ?r + ?r * ?l)" by linarith
  also have "(now - ?l) * ?r + ?r * ?l = ?r * now" using False by (simp add: algebra_simps flip: add_mult_distrib2)
  finally show ?thesis using False by (simp add: refill_def Let_def)
qed

definition bucket_step :: "token_bucket \<Rightarrow> nat \<times> nat \<Rightarrow> nat \<times> token_bucket" where
  "bucket_step b x = (let (ok, b1) = try_consume (fst x) b (snd x) in (if ok then snd x else 0, b1))"

lemma bucket_step_bound:
  assumes "bucket_step b x = (k, b1)" and "tb_tokens b \<le> tb_capacity b"
  shows "k + tb_tokens b1 + tb_refill_rate_per_tick b * tb_last_refill_tick b \<le>
      tb_tokens b + tb_refill_rate_per_tick b * tb_last_refill_tick b1"
    and "tb_last_refill_tick b1 = max (fst x) (tb_last_refill_tick b)"
    and "tb_refill_rate_per_tick b1 = tb_refill_rate_per_tick b" and "tb_capacity b1 = tb_capacity b"
    and "tb_tokens b1 \<le> tb_capacity b"
  using assms refill_bound [of "fst x" b]
  by (auto simp: bucket_step_def try_consume_def Let_def split: if_splits)

lemma bucket_run_bound:
  assumes "tb_tokens b \<le> tb_capacity b" and "run_ops bucket_step b ops = (ks, b')"
  shows "sum_list ks + tb_tokens b' + tb_refill_rate_per_tick b * tb_last_refill_tick b \<le>
      tb_tokens b + tb_refill_rate_per_tick b * tb_last_refill_tick b' \<and>
    tb_last_refill_tick b' = fold max (map fst ops) (tb_last_refill_tick b) \<and> tb_tokens b' \<le> tb_capacity b"
  using assms
proof (induction ops arbitrary: b ks)
  case (Cons x ops)
  obtain k b1 where st: "bucket_step b x = (k, b1)" by (cases "bucket_step b x")
  obtain ks1 where run: "run_ops bucket_step b1 ops = (ks1, b')" "ks = k # ks1"
    using Cons.prems(2) st by (cases "run_ops bucket_step b1 ops") auto
  note b = bucket_step_bound [OF st Cons.prems(1)]
  have "tb_tokens b1 \<le> tb_capacity b1" using b by simp
  from conjunct1 [OF Cons.IH [OF this run(1)]] b(1)
  have "sum_list ks + tb_tokens b' + tb_refill_rate_per_tick b * tb_last_refill_tick b \<le>
      tb_tokens b + tb_refill_rate_per_tick b * tb_last_refill_tick b'" unfolding b(3) run(2) by simp
  then show ?case using Cons.IH [OF \<open>tb_tokens b1 \<le> tb_capacity b1\<close> run(1)] b by simp
qed simp

lemma bucket_run_rate: "tb_refill_rate_per_tick (snd (run_ops bucket_step b ops)) = tb_refill_rate_per_tick b"
proof (induction ops arbitrary: b)
  case (Cons x ops)
  have "tb_refill_rate_per_tick (snd (bucket_step b x)) = tb_refill_rate_per_tick b"
    using refill_bound [of "fst x" b] by (simp add: bucket_step_def try_consume_def Let_def)
  then show ?case using Cons by (simp add: case_prod_beta)
qed simp

section \<open>The connection table\<close>

lemma find_assoc: "find (\<lambda>(a, _). a = ip) xs = map_option (\<lambda>k. (ip, k)) (map_of xs ip)"
  by (induction xs) auto

lemma map_of_update_first:
  "map_of (update_first (\<lambda>(a, _). a = ip) (\<lambda>(a, k). (a, g k)) xs) = (map_of xs)(ip := map_option g (map_of xs ip))"
  by (induction xs) (auto simp: fun_eq_iff)

lemma map_of_decrement:
  "distinct (map fst xs) \<Longrightarrow>
   map_of (update_first (\<lambda>(a, k). a = ip \<and> k > 0) (\<lambda>(a, k :: nat). (a, k - 1)) xs) =
   (map_of xs)(ip := map_option (\<lambda>k. k - 1) (map_of xs ip))"
proof (induction xs)
  case (Cons x xs)
  obtain a k where x: "x = (a, k)" by force
  show ?case
  proof (cases "a = ip \<and> k > 0")
    case False
    have "map_of xs ip = None" if "a = ip" using Cons.prems x that by (simp add: map_of_eq_None_iff)
    then show ?thesis using Cons x False by (auto simp: fun_eq_iff)
  qed (auto simp: x fun_eq_iff)
qed (simp add: fun_eq_iff)

definition cnt :: "(ipv4 \<times> nat) list \<Rightarrow> ipv4 \<Rightarrow> nat" where
  "cnt xs ip = (case map_of xs ip of Some k \<Rightarrow> k | None \<Rightarrow> 0)"

lemma cnt_new: "map_of xs ip = None \<Longrightarrow> cnt (xs @ [(ip, 1)]) = (cnt xs)(ip := cnt xs ip + 1)"
  by (auto simp: cnt_def fun_eq_iff map_add_def split: option.splits)

lemma cnt_increment:
  "map_of xs ip = Some k \<Longrightarrow>
   cnt (update_first (\<lambda>(a, _). a = ip) (\<lambda>(a, k). (a, k + 1)) xs) = (cnt xs)(ip := k + 1)"
  unfolding cnt_def fun_eq_iff map_of_update_first by simp

lemma cnt_decrement:
  "distinct (map fst xs) \<Longrightarrow>
   cnt (update_first (\<lambda>(a, k). a = ip \<and> k > 0) (\<lambda>(a, k). (a, k - 1)) xs) = (cnt xs)(ip := cnt xs ip - 1)"
  unfolding cnt_def fun_eq_iff map_of_decrement by (simp split: option.split)

lemma cnt_gc: "distinct (map fst xs) \<Longrightarrow> cnt (filter (\<lambda>(_, k). k > 0) xs) ip = cnt xs ip"
proof (induction xs)
  case (Cons x xs)
  obtain a k where x: "x = (a, k)" by (cases x)
  have "map_of xs a = None" using Cons.prems x by (simp add: map_of_eq_None_iff)
  then show ?case using Cons x by (auto simp: cnt_def)
qed simp

definition cl_rel :: "nat \<Rightarrow> connection_limiter \<Rightarrow> (ipv4 \<Rightarrow> nat) \<Rightarrow> bool" where
  "cl_rel m c f \<longleftrightarrow> cl_max_per_ip c = m \<and> distinct (map fst (cl_active c)) \<and> f = cnt (cl_active c)"

datatype cl_op = Connect ipv4 | Disconnect ipv4 | Gc

fun cl_step :: "connection_limiter \<Rightarrow> cl_op \<Rightarrow> bool \<times> connection_limiter" where
  "cl_step c (Connect ip) = try_connect c ip"
| "cl_step c (Disconnect ip) = (True, disconnect c ip)"
| "cl_step c Gc = (True, gc c)"

fun cl_spec :: "nat \<Rightarrow> (ipv4 \<Rightarrow> nat) \<Rightarrow> cl_op \<Rightarrow> bool \<times> (ipv4 \<Rightarrow> nat)" where
  "cl_spec m f (Connect ip) = (if f ip < m then (True, f(ip := f ip + 1)) else (False, f))"
| "cl_spec m f (Disconnect ip) = (True, f(ip := f ip - 1))"
| "cl_spec m f Gc = (True, f)"

lemma map_fst_update_first:
  "(\<And>a k. fst (g (a, k)) = a) \<Longrightarrow> map fst (update_first P g xs) = map fst xs"
  by (rule map_update_first) auto

lemma cl_simulation:
  assumes r: "cl_rel m c f" and m: "0 < m"
  shows "fst (cl_step c op) = fst (cl_spec m f op) \<and> cl_rel m (snd (cl_step c op)) (snd (cl_spec m f op))"
proof -
  let ?xs = "cl_active c"
  have f: "f = cnt ?xs" and d: "distinct (map fst ?xs)" and mx: "cl_max_per_ip c = m" using r by (simp_all add: cl_rel_def)
  show ?thesis
  proof (cases op)
    case (Connect ip)
    show ?thesis
    proof (cases "map_of ?xs ip")
      case None
      moreover from this have "cnt ?xs ip = 0" by (simp add: cnt_def)
      moreover have "ip \<notin> fst ` set ?xs" using None by (simp add: map_of_eq_None_iff)
      ultimately show ?thesis using cnt_new [OF None] Connect f d m mx
        by (simp add: cl_rel_def try_connect_def find_assoc)
    next
      case (Some k)
      moreover from this have "cnt ?xs ip = k" by (simp add: cnt_def)
      ultimately show ?thesis using cnt_increment [OF Some] Connect f d m mx
        by (simp add: cl_rel_def try_connect_def find_assoc map_fst_update_first case_prod_beta)
    qed
  next
    case (Disconnect ip)
    then show ?thesis using cnt_decrement [OF d, of ip] f d mx
      by (simp add: cl_rel_def disconnect_def map_fst_update_first case_prod_beta)
  next
    case Gc
    then show ?thesis using cnt_gc [OF d] f d mx by (auto simp: cl_rel_def gc_def distinct_map_filter)
  qed
qed

lemma cl_run:
  assumes "0 < m" and "cl_rel m c f"
  shows "fst (run_ops cl_step c ops) = fst (run_ops (cl_spec m) f ops) \<and>
    cl_rel m (snd (run_ops cl_step c ops)) (snd (run_ops (cl_spec m) f ops))"
  using assms(2)
proof (induction ops arbitrary: c f)
  case (Cons op ops)
  from cl_simulation [OF Cons.prems assms(1), of op] Cons.IH show ?case by (simp add: case_prod_beta)
qed simp

lemma cl_spec_bound: "(\<forall>ip. f ip \<le> m) \<Longrightarrow> (\<forall>ip. snd (run_ops (cl_spec m) f ops) ip \<le> m)"
proof (induction ops arbitrary: f)
  case (Cons op ops)
  have f: "f x \<le> m" "f x - 1 \<le> m" for x using Cons.prems le_trans [OF diff_le_self] by blast+
  have "snd (cl_spec m f op) ip \<le> m" for ip using f by (cases op) (auto simp del: One_nat_def)
  then show ?case using Cons.IH by (simp add: case_prod_beta)
qed simp

lemma cl_rel_count: "cl_rel m c f \<Longrightarrow> connections_from c ip = f ip"
  by (auto simp: cl_rel_def connections_from_def find_assoc cnt_def split: option.split)

section \<open>Properties\<close>

text \<open>
  C39. A token bucket never lets through more than its burst plus its rate: whatever amounts are
  requested at whatever ticks, the tokens granted sum to at most the capacity plus the refill
  rate times the time since creation, and the stock never exceeds the capacity.
\<close>

theorem bucket_rate_bound:
  "let (granted, b) = run_ops bucket_step (bucket_new t0 capacity rate) ops in
   sum_list granted \<le> capacity + tb_refill_rate_per_tick b * (tb_last_refill_tick b - t0) \<and>
   tb_tokens b \<le> capacity \<and> tb_last_refill_tick b = fold max (map fst ops) t0"
proof -
  let ?b = "bucket_new t0 capacity rate" let ?r = "tb_refill_rate_per_tick ?b"
  obtain ks b where run: "run_ops bucket_step ?b ops = (ks, b)" by (cases "run_ops bucket_step ?b ops")
  have n: "tb_tokens ?b = capacity" "tb_capacity ?b = capacity" "tb_last_refill_tick ?b = t0"
    by (simp_all add: bucket_new_def Let_def)
  have "fold max ts t \<ge> t" for ts and t :: nat
    by (induction ts arbitrary: t) (auto intro: le_trans max.cobounded2)
  then have t: "t0 \<le> tb_last_refill_tick b" using bucket_run_bound [OF _ run] n by simp
  have "sum_list ks + tb_tokens b + ?r * t0 \<le> capacity + ?r * tb_last_refill_tick b"
    using bucket_run_bound [OF _ run] unfolding n by blast
  then have "sum_list ks \<le> capacity + ?r * (tb_last_refill_tick b - t0)" using t unfolding diff_mult_distrib2 by linarith
  moreover have "tb_refill_rate_per_tick b = ?r"
    using bucket_run_rate [of ?b ops] run by simp
  ultimately show ?thesis using run bucket_run_bound [OF _ run] n by simp
qed

text \<open>
  The connection limiter counts per address: with a limit above zero, every sequence of
  connects, disconnects and clean-ups gives the answers of a table of counters in which a
  connect succeeds exactly below the limit, and \<^verbatim>\<open>connections_from\<close> reads that counter, which
  never exceeds the limit.
\<close>

lemma connection_limit:
  assumes "0 < m"
  shows "let (oks, c) = run_ops cl_step (connections_new m) ops; (oks', f) = run_ops (cl_spec m) (\<lambda>_. 0) ops in
    oks = oks' \<and> (\<forall>ip. connections_from c ip = f ip \<and> connections_from c ip \<le> m)"
proof -
  have "cl_rel m (connections_new m) (\<lambda>_. 0)" by (auto simp: cl_rel_def connections_new_def cnt_def)
  note run = cl_run [OF assms this, of ops]
  have "connections_from (snd (run_ops cl_step (connections_new m) ops)) ip = snd (run_ops (cl_spec m) (\<lambda>_. 0) ops) ip" for ip
    using run cl_rel_count by blast
  then show ?thesis using run cl_spec_bound [of "\<lambda>_. 0" m ops] by (simp only: case_prod_beta Let_def) simp
qed

lemma connection_limit_instance:
  "fst (run_ops cl_step (connections_new 2)
     [Connect (10, 0, 0, 1), Connect (10, 0, 0, 1), Connect (10, 0, 0, 1), Connect (10, 0, 0, 2),
      Disconnect (10, 0, 0, 1), Gc, Connect (10, 0, 0, 1)]) = [True, True, False, True, True, True, True]"
proof -
  have "0 < (2 :: nat)" by simp
  from connection_limit [OF this, of "[Connect (10, 0, 0, 1), Connect (10, 0, 0, 1), Connect (10, 0, 0, 1),
      Connect (10, 0, 0, 2), Disconnect (10, 0, 0, 1), Gc, Connect (10, 0, 0, 1)]"]
  show ?thesis by (simp add: case_prod_beta)
qed

text \<open>A limit of zero still admits the first connection of every address.\<close>

lemma zero_limit_admits: "fst (try_connect (connections_new 0) ip)"
  by (simp add: try_connect_def connections_new_def)

text \<open>A rate below the tick frequency is rounded up to one token per tick.\<close>

lemma low_rate_rounded_up:
  "0 < rate \<Longrightarrow> rate < 100 \<Longrightarrow> tb_refill_rate_per_tick (bucket_new t0 capacity rate) * PIT_FREQUENCY_HZ = 100"
  by (simp add: bucket_new_def PIT_FREQUENCY_HZ_def)

end
