(* ===== verification/Locks.thy ===== *)
theory Locks
  imports Prelude "HOL-Library.Sublist"
begin

text \<open>
  The spinlock and the ticket lock (\<^verbatim>\<open>src/locks.rs\<close>), executed by any number of threads. A
  thread is its program counter inside \<^verbatim>\<open>lock()\<close> and \<^verbatim>\<open>unlock()\<close>; each atomic operation of
  the code is one step, and a schedule names the thread that takes the next step, so a
  statement about every schedule is a statement about every interleaving. The client calls
  \<^verbatim>\<open>unlock\<close> only while it holds the lock, and calls \<^verbatim>\<open>lock\<close> only while it does not.
\<close>

datatype event = Take | Enter | Leave | Internal

section \<open>Spinlock\<close>

record spinlock =
  sl_locked :: bool
  sl_name :: str
  sl_acquires :: u64
  sl_spins :: u64

definition spinlock_new :: "str \<Rightarrow> spinlock" where
  "spinlock_new name = \<lparr>sl_locked = False, sl_name = name, sl_acquires = 0, sl_spins = 0\<rparr>"

text \<open>
  \<open>SSpin n\<close> is the loop with \<^verbatim>\<open>spin_count = n\<close>; \<open>SAcq\<close> and \<open>SCount\<close> are before the two
  statistics updates; \<open>SCrit\<close> is the critical section.
\<close>

datatype sl_pc = SIdle | SSpin u64 | SAcq u64 | SCount u64 | SCrit

text \<open>
  One atomic step of \<^verbatim>\<open>lock\<close> or \<^verbatim>\<open>unlock\<close>. \<open>spurious\<close> says that \<^verbatim>\<open>compare_exchange_weak\<close> fails
  although the comparison succeeds, as it may.
\<close>

fun spinlock_lock :: "bool \<Rightarrow> spinlock \<Rightarrow> sl_pc \<Rightarrow> event \<times> spinlock \<times> sl_pc" where
  "spinlock_lock spurious l SIdle = (Take, l, SSpin 0)"
| "spinlock_lock spurious l (SSpin n) =
     (if sl_locked l \<or> spurious then (Internal, l, SSpin (n + 1))
      else (Enter, l\<lparr>sl_locked := True\<rparr>, SAcq n))"
| "spinlock_lock spurious l (SAcq n) = (Internal, l\<lparr>sl_acquires := sl_acquires l + 1\<rparr>, SCount n)"
| "spinlock_lock spurious l (SCount n) = (Internal, l\<lparr>sl_spins := sl_spins l + n\<rparr>, SCrit)"
| "spinlock_lock spurious l SCrit = (Internal, l, SCrit)"

definition spinlock_unlock :: "spinlock \<Rightarrow> spinlock" where
  "spinlock_unlock l = l\<lparr>sl_locked := False\<rparr>"

fun sl_step :: "spinlock \<times> sl_pc list \<Rightarrow> nat \<times> bool \<Rightarrow> (nat \<times> event) \<times> spinlock \<times> sl_pc list" where
  "sl_step (l, pcs) (i, spurious) =
     (if i < length pcs then
        if pcs ! i = SCrit then ((i, Leave), spinlock_unlock l, pcs[i := SIdle])
        else let (ev, l1, pc) = spinlock_lock spurious l (pcs ! i) in ((i, ev), l1, pcs[i := pc])
      else ((i, Internal), l, pcs))"

section \<open>Ticket lock\<close>

record ticket_lock =
  tk_next_ticket :: u64
  tk_now_serving :: u64
  tk_name :: str
  tk_acquires :: u64
  tk_spins :: u64

definition ticket_new :: "str \<Rightarrow> ticket_lock" where
  "ticket_new name = \<lparr>tk_next_ticket = 0, tk_now_serving = 0, tk_name = name, tk_acquires = 0, tk_spins = 0\<rparr>"

datatype tk_pc = TIdle | TSpin u64 u64 | TAcq u64 u64 | TCount u64 u64 | TCrit u64

fun ticket_lock_lock :: "ticket_lock \<Rightarrow> tk_pc \<Rightarrow> event \<times> ticket_lock \<times> tk_pc" where
  "ticket_lock_lock l TIdle = (Take, l\<lparr>tk_next_ticket := tk_next_ticket l + 1\<rparr>, TSpin (tk_next_ticket l) 0)"
| "ticket_lock_lock l (TSpin t n) =
     (if tk_now_serving l \<noteq> t then (Internal, l, TSpin t (n + 1)) else (Enter, l, TAcq t n))"
| "ticket_lock_lock l (TAcq t n) = (Internal, l\<lparr>tk_acquires := tk_acquires l + 1\<rparr>, TCount t n)"
| "ticket_lock_lock l (TCount t n) = (Internal, l\<lparr>tk_spins := tk_spins l + n\<rparr>, TCrit t)"
| "ticket_lock_lock l (TCrit t) = (Internal, l, TCrit t)"

definition ticket_unlock :: "ticket_lock \<Rightarrow> ticket_lock" where
  "ticket_unlock l = l\<lparr>tk_now_serving := tk_now_serving l + 1\<rparr>"

fun in_crit :: "tk_pc \<Rightarrow> bool" where
  "in_crit (TCrit t) = True"
| "in_crit _ = False"

fun tk_step :: "ticket_lock \<times> tk_pc list \<Rightarrow> nat \<Rightarrow> (nat \<times> event) \<times> ticket_lock \<times> tk_pc list" where
  "tk_step (l, pcs) i =
     (if i < length pcs then
        if in_crit (pcs ! i) then ((i, Leave), ticket_unlock l, pcs[i := TIdle])
        else let (ev, l1, pc) = ticket_lock_lock l (pcs ! i) in ((i, ev), l1, pcs[i := pc])
      else ((i, Internal), l, pcs))"

section \<open>The interface of a lock\<close>

text \<open>
  What a client relies on: an invariant that every step keeps, under which at most one thread
  holds the lock, and when a thread waits while nobody holds it some thread can take it.
\<close>

locale mutex =
  fixes step :: "'s \<Rightarrow> 'l \<Rightarrow> 'o \<times> 's" and invar :: "'s \<Rightarrow> bool"
    and holds :: "'s \<Rightarrow> nat \<Rightarrow> bool" and waits :: "'s \<Rightarrow> nat \<Rightarrow> bool"
  assumes step_invar: "invar s \<Longrightarrow> invar (snd (step s l))"
    and exclusive: "\<lbrakk>invar s; holds s i; holds s j\<rbrakk> \<Longrightarrow> i = j"
    and available: "\<lbrakk>invar s; waits s i; \<forall>j. \<not> holds s j\<rbrakk> \<Longrightarrow> \<exists>l j. holds (snd (step s l)) j"
begin

lemma run_invar: "invar s \<Longrightarrow> invar (snd (run_ops step s ls))"
proof (induction ls arbitrary: s)
  case (Cons l ls)
  then show ?case using step_invar [of s l] by (simp add: case_prod_beta)
qed simp

lemma run_exclusive: "invar s \<Longrightarrow> holds (snd (run_ops step s ls)) i \<Longrightarrow> holds (snd (run_ops step s ls)) j \<Longrightarrow> i = j"
  using exclusive run_invar by blast

lemma no_deadlock:
  "invar s \<Longrightarrow> waits (snd (run_ops step s ls)) i \<Longrightarrow>
   \<exists>l j. holds (snd (run_ops step s ls)) j \<or> holds (snd (step (snd (run_ops step s ls)) l)) j"
  using available run_invar by blast

end

section \<open>Spinlock: mutual exclusion\<close>

fun sl_holding :: "sl_pc \<Rightarrow> bool" where
  "sl_holding SIdle = False"
| "sl_holding (SSpin n) = False"
| "sl_holding _ = True"

definition sl_holds :: "spinlock \<times> sl_pc list \<Rightarrow> nat \<Rightarrow> bool" where
  "sl_holds s i \<longleftrightarrow> i < length (snd s) \<and> sl_holding (snd s ! i)"

definition sl_waits :: "spinlock \<times> sl_pc list \<Rightarrow> nat \<Rightarrow> bool" where
  "sl_waits s i \<longleftrightarrow> i < length (snd s) \<and> (\<exists>n. snd s ! i = SSpin n)"

definition sl_ok :: "spinlock \<times> sl_pc list \<Rightarrow> bool" where
  "sl_ok s \<longleftrightarrow> (\<forall>i j. sl_holds s i \<and> sl_holds s j \<longrightarrow> i = j) \<and> (sl_locked (fst s) \<longleftrightarrow> (\<exists>i. sl_holds s i))"

lemma sl_ok_update:
  assumes "sl_ok (l, pcs)" and "i < length pcs"
    and "sl_holding pc = sl_holding (pcs ! i) \<and> sl_locked l' = sl_locked l \<or>
      sl_holding pc \<and> \<not> sl_locked l \<and> sl_locked l' \<or>
      sl_holding (pcs ! i) \<and> \<not> sl_holding pc \<and> \<not> sl_locked l'"
  shows "sl_ok (l', pcs[i := pc])"
proof -
  have u: "sl_holds (l', pcs[i := pc]) j \<longleftrightarrow> (if i = j then sl_holding pc else sl_holds (l, pcs) j)" for j
    using assms(2) by (auto simp: sl_holds_def nth_list_update)
  have i: "sl_holds (l, pcs) i \<longleftrightarrow> sl_holding (pcs ! i)" using assms(2) by (simp add: sl_holds_def)
  from assms(3) show ?thesis
  proof (elim disjE)
    assume "sl_holding pc = sl_holding (pcs ! i) \<and> sl_locked l' = sl_locked l"
    then have "sl_holds (l', pcs[i := pc]) = sl_holds (l, pcs)" using u i by (intro ext) auto
    then show ?thesis using assms(1) \<open>_ \<and> _\<close> by (simp add: sl_ok_def)
  next
    assume "sl_holding pc \<and> \<not> sl_locked l \<and> sl_locked l'"
    then show ?thesis using assms(1) unfolding sl_ok_def u by auto
  next
    assume "sl_holding (pcs ! i) \<and> \<not> sl_holding pc \<and> \<not> sl_locked l'"
    then show ?thesis using assms(1) i unfolding sl_ok_def u by auto
  qed
qed

lemma sl_step_ok: "sl_ok s \<Longrightarrow> sl_ok (snd (sl_step s x))"
proof (cases s; cases x)
  fix l pcs i b
  assume ok: "sl_ok s" and s: "s = (l, pcs)" and x: "x = (i, b)"
  note u = sl_ok_update [OF ok [unfolded s]]
  show "sl_ok (snd (sl_step s x))"
  proof (cases "i < length pcs")
    case True
    then show ?thesis
      using ok by (cases "pcs ! i") (auto simp: s x spinlock_unlock_def intro!: u)
  qed (use ok s x in simp)
qed

interpretation spin: mutex sl_step sl_ok sl_holds sl_waits
proof
  fix s l
  show "sl_ok s \<Longrightarrow> sl_ok (snd (sl_step s l))" by (rule sl_step_ok)
next
  fix s i j
  show "sl_ok s \<Longrightarrow> sl_holds s i \<Longrightarrow> sl_holds s j \<Longrightarrow> i = j" by (auto simp: sl_ok_def)
next
  fix s i
  assume ok: "sl_ok s" and w: "sl_waits s i" and free: "\<forall>j. \<not> sl_holds s j"
  obtain l pcs where s: "s = (l, pcs)" by (cases s)
  have "sl_holds (snd (sl_step s (i, False))) i"
    using w ok free by (auto simp: s sl_waits_def sl_ok_def sl_holds_def)
  then show "\<exists>l j. sl_holds (snd (sl_step s l)) j" by blast
qed

section \<open>Ticket lock: a queue\<close>

fun tk_holding :: "tk_pc \<Rightarrow> bool" where
  "tk_holding TIdle = False"
| "tk_holding (TSpin t n) = False"
| "tk_holding _ = True"

fun tk_ticket :: "tk_pc \<Rightarrow> u64" where
  "tk_ticket TIdle = 0"
| "tk_ticket (TSpin t n) = t"
| "tk_ticket (TAcq t n) = t"
| "tk_ticket (TCount t n) = t"
| "tk_ticket (TCrit t) = t"

text \<open>
  \<open>tk_rel q\<close>: the threads that have a ticket are those of the queue \<open>q\<close>, with consecutive
  tickets from \<^verbatim>\<open>now_serving\<close> on, and only the first may have entered.
\<close>

definition tk_rel :: "nat list \<Rightarrow> ticket_lock \<times> tk_pc list \<Rightarrow> bool" where
  "tk_rel q s \<longleftrightarrow> (case s of (l, pcs) \<Rightarrow> length pcs < 2 ^ 64 \<and> distinct q \<and>
     set q = {i. i < length pcs \<and> pcs ! i \<noteq> TIdle} \<and>
     tk_next_ticket l = tk_now_serving l + of_nat (length q) \<and>
     (\<forall>k < length q. tk_ticket (pcs ! (q ! k)) = tk_now_serving l + of_nat k) \<and>
     (\<forall>k < length q. 0 < k \<longrightarrow> \<not> tk_holding (pcs ! (q ! k))))"

definition tk_holds :: "ticket_lock \<times> tk_pc list \<Rightarrow> nat \<Rightarrow> bool" where
  "tk_holds s i \<longleftrightarrow> i < length (snd s) \<and> tk_holding (snd s ! i)"

definition tk_waits :: "ticket_lock \<times> tk_pc list \<Rightarrow> nat \<Rightarrow> bool" where
  "tk_waits s i \<longleftrightarrow> i < length (snd s) \<and> (\<exists>t n. snd s ! i = TSpin t n)"

text \<open>The threads of the queue that have not entered.\<close>

definition waiting :: "nat list \<Rightarrow> ticket_lock \<times> tk_pc list \<Rightarrow> nat list" where
  "waiting q s = (if q \<noteq> [] \<and> tk_holding (snd s ! hd q) then tl q else q)"

lemma tk_rel_short: "tk_rel q (l, pcs) \<Longrightarrow> length q < 2 ^ 64"
proof -
  assume r: "tk_rel q (l, pcs)"
  then have "distinct q" by (simp add: tk_rel_def)
  from distinct_card [OF this] have "length q = card (set q)" by simp
  also have "\<dots> \<le> length pcs" using r card_mono [of "{..<length pcs}" "set q"] by (auto simp: tk_rel_def)
  finally show ?thesis using r by (simp add: tk_rel_def)
qed

lemma of_nat_offset: "n < 2 ^ 64 \<Longrightarrow> x + of_nat n = (x :: u64) \<longleftrightarrow> n = 0"
  by (auto simp: word_of_nat_eq_0_iff dest: dvd_imp_le)

text \<open>Whoever holds the lock, or sees its own ticket served, is the head of the queue.\<close>

lemma tk_head:
  assumes r: "tk_rel q (l, pcs)" and i: "i < length pcs" "pcs ! i \<noteq> TIdle"
    and h: "tk_holding (pcs ! i) \<or> tk_ticket (pcs ! i) = tk_now_serving l"
  shows "q = i # tl q \<and> tk_ticket (pcs ! i) = tk_now_serving l"
proof -
  have "i \<in> set q" using r i by (simp add: tk_rel_def)
  then obtain k where k: "k < length q" "q ! k = i" by (auto simp: in_set_conv_nth)
  have "k < 2 ^ 64" using k tk_rel_short [OF r] by simp
  have "k = 0"
  proof (rule ccontr)
    assume "k \<noteq> 0"
    then have "tk_ticket (pcs ! i) = tk_now_serving l" "tk_ticket (pcs ! i) = tk_now_serving l + of_nat k"
      using r h k by (auto simp: tk_rel_def)
    then show False using of_nat_offset [OF \<open>k < 2 ^ 64\<close>] \<open>k \<noteq> 0\<close> by metis
  qed
  then show ?thesis using r k by (cases q) (auto simp: tk_rel_def)
qed

text \<open>A thread of the queue changes its program counter and keeps its ticket.\<close>

lemma tk_rel_same:
  assumes r: "tk_rel q (l, pcs)" and i: "i < length pcs" "pcs ! i \<noteq> TIdle" and pc: "pc \<noteq> TIdle"
    and t: "tk_ticket pc = tk_ticket (pcs ! i)"
    and l: "tk_now_serving l' = tk_now_serving l" "tk_next_ticket l' = tk_next_ticket l"
    and h: "tk_holding pc \<Longrightarrow> q = i # tl q"
  shows "tk_rel q (l', pcs[i := pc])"
proof -
  have "{j. j < length (pcs[i := pc]) \<and> pcs[i := pc] ! j \<noteq> TIdle} = {j. j < length pcs \<and> pcs ! j \<noteq> TIdle}"
    using i pc by (auto simp: nth_list_update)
  moreover have "\<not> tk_holding (pcs[i := pc] ! (q ! k))" if k: "k < length q" "0 < k" for k
  proof (cases "q ! k = i")
    case True
    have "\<not> tk_holding pc"
    proof
      assume "tk_holding pc"
      then have "q ! 0 = i" using h by (metis nth_Cons_0)
      then show False using True k r nth_eq_iff_index_eq [of q k 0] by (cases q) (simp_all add: tk_rel_def)
    qed
    then show ?thesis using True i by simp
  qed (use r k in \<open>auto simp: tk_rel_def\<close>)
  ultimately show ?thesis using r t l i by (auto simp: tk_rel_def nth_list_update)
qed


lemma tk_rel_take:
  assumes r: "tk_rel q (l, pcs)" and i: "i < length pcs" "pcs ! i = TIdle"
  shows "tk_rel (q @ [i]) (l\<lparr>tk_next_ticket := tk_next_ticket l + 1\<rparr>, pcs[i := TSpin (tk_next_ticket l) 0])"
proof -
  have s: "set q = {j. j < length pcs \<and> pcs ! j \<noteq> TIdle}" using r by (simp add: tk_rel_def)
  then have n: "i \<notin> set q" using i by simp
  then have ne: "q ! k \<noteq> i" if "k < length q" for k using that by (metis nth_mem)
  have "set (q @ [i]) = {j. j < length (pcs[i := TSpin (tk_next_ticket l) 0]) \<and> pcs[i := TSpin (tk_next_ticket l) 0] ! j \<noteq> TIdle}"
    using i by (auto simp: s nth_list_update)
  then show ?thesis using r n ne i by (auto simp: tk_rel_def nth_append less_Suc_eq nth_list_update)
qed

lemma tk_rel_unlock:
  assumes r: "tk_rel q (l, pcs)" and i: "i < length pcs" and q: "q = i # p"
  shows "tk_rel p (l\<lparr>tk_now_serving := tk_now_serving l + 1\<rparr>, pcs[i := TIdle])"
proof -
  have s: "set q = {j. j < length pcs \<and> pcs ! j \<noteq> TIdle}" and d: "distinct q" using r by (simp_all add: tk_rel_def)
  have ne: "i \<noteq> p ! k" if "k < length p" for k using d q that by auto
  have "set p = {j. j < length (pcs[i := TIdle]) \<and> pcs[i := TIdle] ! j \<noteq> TIdle}"
  proof -
    have "set p = set q - {i}" using d q by auto
    then show ?thesis using i by (auto simp: s nth_list_update)
  qed
  moreover have "tk_ticket (pcs ! (p ! k)) = tk_now_serving l + 1 + of_nat k \<and> \<not> tk_holding (pcs ! (p ! k))"
    if k: "k < length p" for k
  proof -
    have "Suc k < length q" "q ! Suc k = p ! k" using k q by simp_all
    then have "tk_ticket (pcs ! (p ! k)) = tk_now_serving l + of_nat (Suc k)" "\<not> tk_holding (pcs ! (p ! k))"
      using r by (fastforce simp: tk_rel_def)+
    then show ?thesis by (simp add: algebra_simps)
  qed
  ultimately show ?thesis using r d q ne by (auto simp: tk_rel_def algebra_simps)
qed

definition taken :: "(nat \<times> event) list \<Rightarrow> nat list" where
  "taken evs = map fst (filter (\<lambda>e. snd e = Take) evs)"

definition entered :: "(nat \<times> event) list \<Rightarrow> nat list" where
  "entered evs = map fst (filter (\<lambda>e. snd e = Enter) evs)"

lemma tk_step_rel:
  assumes r: "tk_rel q s"
  shows "\<exists>q'. tk_rel q' (snd (tk_step s i)) \<and>
    waiting q s @ taken [fst (tk_step s i)] = entered [fst (tk_step s i)] @ waiting q' (snd (tk_step s i))"
proof -
  obtain l pcs where s: "s = (l, pcs)" by (cases s)
  note r' = r [unfolded s]
  note e = taken_def entered_def waiting_def
  show ?thesis
  proof (cases "i < length pcs")
    case True
    note same = tk_rel_same [OF r' True]
    show ?thesis
    proof (cases "pcs ! i")
      case TIdle
      have "\<forall>j \<in> set q. j \<noteq> i" using r' TIdle by (auto simp: tk_rel_def)
      then have "waiting (q @ [i]) (snd (tk_step s i)) = waiting q s @ [i]"
        using TIdle True s by (cases q) (auto simp: waiting_def)
      then show ?thesis using tk_rel_take [OF r' True TIdle] TIdle True
        by (intro exI [of _ "q @ [i]"]) (simp add: s taken_def entered_def)
    next
      case (TSpin t n)
      show ?thesis
      proof (cases "tk_now_serving l = t")
        case eq: True
        obtain p where q: "q = i # p" using tk_head [OF r' True] TSpin eq by force
        have "tk_rel q (l, pcs[i := TAcq t n])" using TSpin q by (intro same) simp_all
        then show ?thesis using TSpin True eq by (intro exI [of _ q]) (simp add: s e q)
      next
        case False
        have "tk_rel q (l, pcs[i := TSpin t (n + 1)])" using TSpin by (intro same) simp_all
        then show ?thesis using TSpin True False by (intro exI [of _ q]) (auto simp: s e nth_list_update)
      qed
    next
      case (TAcq t n)
      obtain p where q: "q = i # p" using tk_head [OF r' True] TAcq by force
      have "tk_rel q (l\<lparr>tk_acquires := tk_acquires l + 1\<rparr>, pcs[i := TCount t n])" using TAcq q by (intro same) simp_all
      then show ?thesis using TAcq True by (intro exI [of _ q]) (simp add: s e q)
    next
      case (TCount t n)
      obtain p where q: "q = i # p" using tk_head [OF r' True] TCount by force
      have "tk_rel q (l\<lparr>tk_spins := tk_spins l + n\<rparr>, pcs[i := TCrit t])" using TCount q by (intro same) simp_all
      then show ?thesis using TCount True by (intro exI [of _ q]) (simp add: s e q)
    next
      case (TCrit t)
      obtain p where q: "q = i # p" using tk_head [OF r' True] TCrit by force
      have "\<not> tk_holding (pcs ! j) \<and> j \<noteq> i" if "p = j # ps" for j ps
        using r' q that by (auto simp: tk_rel_def dest: spec [of _ 1])
      then have "waiting p (l\<lparr>tk_now_serving := tk_now_serving l + 1\<rparr>, pcs[i := TIdle]) = p"
        by (cases p) (simp_all add: waiting_def nth_list_update)
      moreover have w: "waiting (i # p) (l, pcs) = p" using TCrit by (simp add: waiting_def)
      ultimately show ?thesis using tk_rel_unlock [OF r' True q] TCrit True
        by (intro exI [of _ p]) (simp add: s taken_def entered_def ticket_unlock_def w q)
    qed
  qed (use r s in \<open>auto simp: e\<close>)
qed


definition tk_ok :: "ticket_lock \<times> tk_pc list \<Rightarrow> bool" where
  "tk_ok s \<longleftrightarrow> (\<exists>q. tk_rel q s)"

interpretation ticket: mutex tk_step tk_ok tk_holds tk_waits
proof
  fix s i
  show "tk_ok s \<Longrightarrow> tk_ok (snd (tk_step s i))" unfolding tk_ok_def using tk_step_rel by blast
next
  fix s :: "ticket_lock \<times> tk_pc list" and i j
  assume "tk_ok s" and h: "tk_holds s i" "tk_holds s j"
  then obtain q l pcs where r: "tk_rel q (l, pcs)" and s: "s = (l, pcs)" by (cases s) (auto simp: tk_ok_def)
  have "q = k # tl q" if "tk_holds s k" for k using that tk_head [OF r, of k] by (cases "pcs ! k") (simp_all add: s tk_holds_def)
  from this [OF h(1)] this [OF h(2)]
  show "i = j" by (metis list.sel(1))
next
  fix s :: "ticket_lock \<times> tk_pc list" and i
  assume "tk_ok s" and w: "tk_waits s i" and free: "\<forall>j. \<not> tk_holds s j"
  then obtain q l pcs where r: "tk_rel q (l, pcs)" and s: "s = (l, pcs)" by (cases s) (auto simp: tk_ok_def)
  have "i \<in> set q" using r w by (auto simp: tk_rel_def tk_waits_def s)
  then obtain h p where q: "q = h # p" by (cases q) auto
  have h: "h < length pcs" "pcs ! h \<noteq> TIdle" "tk_ticket (pcs ! h) = tk_now_serving l"
    using r q by (auto simp: tk_rel_def dest: spec [of _ 0])
  have "\<not> tk_holding (pcs ! h)" using free h(1) by (simp add: s tk_holds_def)
  then have "tk_holds (snd (tk_step s h)) h" using h by (cases "pcs ! h") (simp_all add: s tk_holds_def)
  then show "\<exists>l j. tk_holds (snd (tk_step s l)) j" by blast
qed

lemma tk_run_fifo:
  assumes "tk_rel q s"
  shows "\<exists>q'. tk_rel q' (snd (run_ops tk_step s ls)) \<and>
    waiting q s @ taken (fst (run_ops tk_step s ls)) =
    entered (fst (run_ops tk_step s ls)) @ waiting q' (snd (run_ops tk_step s ls))"
  using assms
proof (induction ls arbitrary: q s)
  case Nil
  then show ?case by (auto simp: taken_def entered_def)
next
  case (Cons i ls)
  obtain ev s1 where st: "tk_step s i = (ev, s1)" by (cases "tk_step s i")
  obtain q1 where q1: "tk_rel q1 s1" "waiting q s @ taken [ev] = entered [ev] @ waiting q1 s1"
    using tk_step_rel [OF Cons.prems, of i] st by auto
  obtain evs s2 where run: "run_ops tk_step s1 ls = (evs, s2)" by (cases "run_ops tk_step s1 ls")
  obtain q2 where q2: "tk_rel q2 s2" "waiting q1 s1 @ taken evs = entered evs @ waiting q2 s2"
    using Cons.IH [OF q1(1)] run by auto
  have "taken (ev # evs) = taken [ev] @ taken evs" "entered (ev # evs) = entered [ev] @ entered evs"
    by (simp_all add: taken_def entered_def)
  then have "waiting q s @ taken (ev # evs) = entered (ev # evs) @ waiting q2 s2"
    using q1(2) q2(2) by (metis append.assoc)
  then show ?case using q2(1) st run by auto
qed

lemma sl_start: "sl_ok (spinlock_new name, replicate n SIdle)"
  by (auto simp: sl_ok_def sl_holds_def spinlock_new_def)

lemma tk_start: "n < 2 ^ 64 \<Longrightarrow> tk_rel [] (ticket_new name, replicate n TIdle)"
  by (auto simp: tk_rel_def ticket_new_def)

section \<open>Properties\<close>

text \<open>
  C15. Ticket lock: in every interleaving of fewer than \<open>2\<^sup>6\<^sup>4\<close> threads at most one thread
  holds the lock, threads enter in the order in which they took their tickets, and a waiting
  thread never finds everyone stuck: somebody holds the lock or can take it in one step. The
  64-bit tickets may wrap.
\<close>

theorem ticket_lock_correct:
  assumes "n < 2 ^ 64"
  shows "let (evs, s) = run_ops tk_step (ticket_new name, replicate n TIdle) schedule in
     (\<forall>i j. tk_holds s i \<longrightarrow> tk_holds s j \<longrightarrow> i = j) \<and>
     prefix (entered evs) (taken evs) \<and>
     (\<forall>i. tk_waits s i \<longrightarrow> (\<exists>l j. tk_holds s j \<or> tk_holds (snd (tk_step s l)) j))"
proof -
  let ?s0 = "(ticket_new name, replicate n TIdle)"
  have ok: "tk_ok ?s0" using tk_start [OF assms] by (auto simp: tk_ok_def)
  have "waiting [] ?s0 = []" by (simp add: waiting_def)
  then have "prefix (entered (fst (run_ops tk_step ?s0 schedule))) (taken (fst (run_ops tk_step ?s0 schedule)))"
    using tk_run_fifo [OF tk_start [OF assms], of name schedule] by (auto simp: prefix_def)
  then show ?thesis
    using ticket.run_exclusive [OF ok, of schedule] ticket.no_deadlock [OF ok, of schedule]
    unfolding case_prod_beta Let_def by blast
qed

theorem ticket_lock_correct_witness:
  "let (evs, s) = run_ops tk_step (ticket_new ''t'', replicate 2 TIdle) [1, 0, 0, 1, 1, 1, 1, 0, 1] in
   tk_holds s 0 \<and> \<not> tk_holds s 1 \<and> prefix (entered evs) (taken evs) \<and> entered evs = [1, 0]"
proof -
  have "2 < (2 :: nat) ^ 64" by simp
  from ticket_lock_correct [OF this, of "''t''" "[1, 0, 0, 1, 1, 1, 1, 0, 1]"] show ?thesis
    by (simp add: case_prod_beta ticket_new_def numeral_2_eq_2 entered_def tk_holds_def ticket_unlock_def)
qed

text \<open>
  Spinlock: in every interleaving, spurious failures of the compare-exchange included, at
  most one thread holds the lock, the flag is set exactly while a thread holds it, and a
  waiting thread finds it held or can take it in one step.
\<close>

lemma spinlock_correct:
  "let s = snd (run_ops sl_step (spinlock_new name, replicate n SIdle) schedule) in
     (\<forall>i j. sl_holds s i \<longrightarrow> sl_holds s j \<longrightarrow> i = j) \<and> (sl_locked (fst s) \<longleftrightarrow> (\<exists>i. sl_holds s i)) \<and>
     (\<forall>i. sl_waits s i \<longrightarrow> (\<exists>l j. sl_holds s j \<or> sl_holds (snd (sl_step s l)) j))"
  using spin.run_exclusive [OF sl_start, of name n schedule] spin.run_invar [OF sl_start, of name n schedule]
    spin.no_deadlock [OF sl_start, of name n schedule]
  unfolding Let_def sl_ok_def by blast

lemma spinlock_correct_instance:
  "let s = snd (run_ops sl_step (spinlock_new ''s'', replicate 2 SIdle) [(0, False), (1, False), (0, True), (1, False), (0, False)]) in
   sl_holds s 1 \<and> \<not> sl_holds s 0 \<and> sl_locked (fst s)"
proof -
  let ?s = "snd (run_ops sl_step (spinlock_new ''s'', replicate 2 SIdle) [(0, False), (1, False), (0, True), (1, False), (0, False)])"
  have h: "sl_holds ?s 1" by (simp add: spinlock_new_def numeral_2_eq_2 sl_holds_def)
  then show ?thesis
    using spinlock_correct [of "''s''" 2 "[(0, False), (1, False), (0, True), (1, False), (0, False)]"]
    unfolding Let_def by (metis zero_neq_one)
qed

end
