(* ===== verification/Shmem.thy ===== *)
theory Shmem
  imports Memory
begin

text \<open>
  Shared memory (\<^verbatim>\<open>src/shmem.rs\<close>): the table of regions and the helpers that copy data in and out
  through the mapping of physical memory. Physical memory is a function from addresses to bytes;
  frames come from the allocator of \<open>Memory\<close>.
\<close>

section \<open>Data\<close>

definition MAX_REGIONS :: usize where "MAX_REGIONS = 16"
definition SHMEM_VIRT_BASE :: nat where "SHMEM_VIRT_BASE = 0x600000000000"
definition MAX_REGION_SIZE :: usize where "MAX_REGION_SIZE = 64 * 1024"
definition PAGE_SIZE :: usize where "PAGE_SIZE = 4096"

record shared_region =
  sr_id :: usize
  sr_name :: str
  sr_size :: usize
  sr_phys_frame :: nat
  sr_ref_count :: usize
  sr_owner_pid :: usize
  sr_attached :: "usize list"

datatype shm_slot = SFree | SActive shared_region

record shmem =
  sh_slots :: "shm_slot list"
  sh_next_id :: usize

definition shmem_new :: shmem where
  "shmem_new = \<lparr>sh_slots = replicate MAX_REGIONS SFree, sh_next_id = 0\<rparr>"

definition round_up :: "usize \<Rightarrow> usize" where
  "round_up bytes = unat ((of_nat (bytes + PAGE_SIZE - 1) :: u64) AND NOT (of_nat (PAGE_SIZE - 1)))"

definition virt_addr_for :: "usize \<Rightarrow> nat" where
  "virt_addr_for index = SHMEM_VIRT_BASE + index * MAX_REGION_SIZE"

section \<open>Regions\<close>

definition is_slot_free :: "shm_slot \<Rightarrow> bool" where
  "is_slot_free s = (case s of SFree \<Rightarrow> True | SActive _ \<Rightarrow> False)"

definition has_id :: "usize \<Rightarrow> shm_slot \<Rightarrow> bool" where
  "has_id n s = (case s of SFree \<Rightarrow> False | SActive r \<Rightarrow> sr_id r = n)"

text \<open>The frames after the first: each must be there, or the call gives up.\<close>

fun extra_frames :: "nat \<Rightarrow> memory \<Rightarrow> bool \<times> memory" where
  "extra_frames 0 m = (True, m)"
| "extra_frames (Suc n) m =
     (case alloc_frame m of (None, m1) \<Rightarrow> (False, m1) | (Some _, m1) \<Rightarrow> extra_frames n m1)"

definition create_shmem :: "memory \<Rightarrow> shmem \<Rightarrow> str \<Rightarrow> usize \<Rightarrow> usize \<Rightarrow> usize option \<times> memory \<times> shmem" where
  "create_shmem m t name bytes owner_pid =
     (if bytes = 0 \<or> bytes > MAX_REGION_SIZE then (None, m, t)
      else
        let aligned = round_up bytes; pages_needed = aligned div PAGE_SIZE in
        (case alloc_frame m of
           (None, m1) \<Rightarrow> (None, m1, t)
         | (Some first_frame, m1) \<Rightarrow>
             (case extra_frames (pages_needed - 1) m1 of
                (False, m2) \<Rightarrow> (None, m2, t)
              | (True, m2) \<Rightarrow>
                  (case position is_slot_free (sh_slots t) of
                     Some idx \<Rightarrow>
                       (Some (sh_next_id t), m2,
                        t\<lparr>sh_next_id := sh_next_id t + 1,
                          sh_slots := (sh_slots t)[idx := SActive \<lparr>sr_id = sh_next_id t, sr_name = name,
                            sr_size = aligned, sr_phys_frame = first_frame, sr_ref_count = 0,
                            sr_owner_pid = owner_pid, sr_attached = []\<rparr>]\<rparr>)
                   | None \<Rightarrow> (None, m2, t)))))"

definition attach_shmem :: "shmem \<Rightarrow> usize \<Rightarrow> usize \<Rightarrow> nat option \<times> shmem" where
  "attach_shmem t n pid =
     (case position (has_id n) (sh_slots t) of
        None \<Rightarrow> (None, t)
      | Some i \<Rightarrow>
          (case sh_slots t ! i of
             SFree \<Rightarrow> (None, t)
           | SActive r \<Rightarrow>
               if pid \<in> set (sr_attached r) then (Some (virt_addr_for i), t)
               else (Some (virt_addr_for i),
                     t\<lparr>sh_slots := (sh_slots t)[i := SActive (r\<lparr>sr_attached := sr_attached r @ [pid],
                         sr_ref_count := sr_ref_count r + 1\<rparr>)]\<rparr>)))"

definition detach_shmem :: "shmem \<Rightarrow> usize \<Rightarrow> usize \<Rightarrow> bool \<times> shmem" where
  "detach_shmem t n pid =
     (case position (has_id n) (sh_slots t) of
        None \<Rightarrow> (False, t)
      | Some i \<Rightarrow>
          (case sh_slots t ! i of
             SFree \<Rightarrow> (False, t)
           | SActive r \<Rightarrow>
               (case position (\<lambda>p. p = pid) (sr_attached r) of
                  None \<Rightarrow> (False, t)
                | Some pos \<Rightarrow>
                    let r1 = r\<lparr>sr_attached := remove_at pos (sr_attached r), sr_ref_count := sr_ref_count r - 1\<rparr>
                    in (True, t\<lparr>sh_slots := (sh_slots t)[i := (if sr_ref_count r1 = 0 then SFree else SActive r1)]\<rparr>))))"

definition destroy_shmem :: "shmem \<Rightarrow> usize \<Rightarrow> bool \<times> shmem" where
  "destroy_shmem t n =
     (case position (has_id n) (sh_slots t) of
        None \<Rightarrow> (False, t)
      | Some i \<Rightarrow> (True, t\<lparr>sh_slots := (sh_slots t)[i := SFree]\<rparr>))"

definition list_shmem :: "shmem \<Rightarrow> (usize \<times> str \<times> usize \<times> usize \<times> usize) list" where
  "list_shmem t =
     concat (map (\<lambda>s. case s of SFree \<Rightarrow> []
       | SActive r \<Rightarrow> [(sr_id r, sr_name r, sr_size r, sr_ref_count r, sr_owner_pid r)]) (sh_slots t))"

section \<open>Copying\<close>

text \<open>
  The kernel sees all of physical memory at \<^verbatim>\<open>phys_mem_offset\<close>: memory is a function from its
  addresses to bytes, and \<^verbatim>\<open>copy_nonoverlapping\<close> moves bytes between it and a vector.
\<close>

type_synonym vmem = "nat \<Rightarrow> u8"

definition copy_to :: "vmem \<Rightarrow> nat \<Rightarrow> u8 list \<Rightarrow> vmem" where
  "copy_to mem virt data = (\<lambda>a. if virt \<le> a \<and> a < virt + length data then data ! (a - virt) else mem a)"

definition copy_from :: "vmem \<Rightarrow> nat \<Rightarrow> usize \<Rightarrow> u8 list" where
  "copy_from mem virt n = map (\<lambda>i. mem (virt + i)) [0..<n]"

definition find_region :: "shmem \<Rightarrow> usize \<Rightarrow> shared_region option" where
  "find_region t n =
     (case find (has_id n) (sh_slots t) of Some (SActive r) \<Rightarrow> Some r | _ \<Rightarrow> None)"

definition shmem_write :: "memory \<Rightarrow> shmem \<Rightarrow> vmem \<Rightarrow> usize \<Rightarrow> usize \<Rightarrow> u8 list \<Rightarrow> usize \<times> vmem" where
  "shmem_write m t mem n off data =
     (case find_region t n of
        None \<Rightarrow> (0, mem)
      | Some r \<Rightarrow>
          if off \<ge> sr_size r then (0, mem)
          else
            let max_len = sr_size r - off; len = min (length data) max_len;
                virt = mem_phys_offset m + sr_phys_frame r + off
            in (len, copy_to mem virt (take len data)))"

definition shmem_read :: "memory \<Rightarrow> shmem \<Rightarrow> vmem \<Rightarrow> usize \<Rightarrow> usize \<Rightarrow> usize \<Rightarrow> u8 list" where
  "shmem_read m t mem n off len =
     (case find_region t n of
        None \<Rightarrow> []
      | Some r \<Rightarrow>
          if off \<ge> sr_size r then []
          else
            let max_len = sr_size r - off; actual = min len max_len;
                virt = mem_phys_offset m + sr_phys_frame r + off
            in copy_from mem virt actual)"

section \<open>The table\<close>

text \<open>
  The invariant over the frames that are left: reference counts are the numbers of attached
  processes, identifiers are distinct and smaller than the next one, regions are whole pages of
  usable memory that lie below every frame still to be handed out, and do not overlap.
\<close>

fun consecutive :: "nat list \<Rightarrow> bool" where
  "consecutive [] = True"
| "consecutive [f] = True"
| "consecutive (f # g # fs) = (g = f + PAGE_SIZE \<and> consecutive (g # fs))"

definition region_pages :: "shared_region \<Rightarrow> nat list" where
  "region_pages r = map (\<lambda>k. sr_phys_frame r + k * PAGE_SIZE) [0..<sr_size r div PAGE_SIZE]"

definition shm_region_ok :: "memory_map \<Rightarrow> memory \<Rightarrow> usize \<Rightarrow> shared_region \<Rightarrow> bool" where
  "shm_region_ok mm m next_id r \<longleftrightarrow>
     sr_ref_count r = length (sr_attached r) \<and> distinct (sr_attached r) \<and> sr_id r < next_id \<and>
     0 < sr_size r \<and> sr_size r \<le> MAX_REGION_SIZE \<and> sr_size r mod PAGE_SIZE = 0 \<and>
     set (region_pages r) \<subseteq> set (usable_frames mm) \<and>
     list_all (\<lambda>f. sr_phys_frame r + sr_size r \<le> f) (mem_rest m)"

definition apart :: "shared_region \<Rightarrow> shared_region \<Rightarrow> bool" where
  "apart r s \<longleftrightarrow> sr_id r \<noteq> sr_id s \<and>
     (sr_phys_frame r + sr_size r \<le> sr_phys_frame s \<or> sr_phys_frame s + sr_size s \<le> sr_phys_frame r)"

definition shm_ok :: "memory_map \<Rightarrow> memory \<Rightarrow> shmem \<Rightarrow> bool" where
  "shm_ok mm m t \<longleftrightarrow>
     length (sh_slots t) = MAX_REGIONS \<and> consecutive (mem_rest m) \<and>
     set (mem_rest m) \<subseteq> set (usable_frames mm) \<and>
     (\<forall>i r. i < length (sh_slots t) \<longrightarrow> sh_slots t ! i = SActive r \<longrightarrow> shm_region_ok mm m (sh_next_id t) r) \<and>
     (\<forall>i j r s. i < length (sh_slots t) \<longrightarrow> j < length (sh_slots t) \<longrightarrow> i \<noteq> j \<longrightarrow>
        sh_slots t ! i = SActive r \<longrightarrow> sh_slots t ! j = SActive s \<longrightarrow> apart r s)"

datatype shm_op =
    Create str usize usize
  | Attach usize usize
  | Detach usize usize
  | Destroy usize
  | OtherFrame
  | WriteTo usize usize "u8 list"

text \<open>One call of the interface, or a frame that another part of the kernel takes.\<close>

fun shm_step :: "memory \<times> shmem \<times> vmem \<Rightarrow> shm_op \<Rightarrow> nat option \<times> (memory \<times> shmem \<times> vmem)" where
  "shm_step (m, t, mem) (Create name bytes pid) =
     (let (r, m', t') = create_shmem m t name bytes pid in (r, (m', t', mem)))"
| "shm_step (m, t, mem) (Attach n pid) = (let (r, t') = attach_shmem t n pid in (r, (m, t', mem)))"
| "shm_step (m, t, mem) (Detach n pid) = (let (r, t') = detach_shmem t n pid in (None, (m, t', mem)))"
| "shm_step (m, t, mem) (Destroy n) = (let (r, t') = destroy_shmem t n in (None, (m, t', mem)))"
| "shm_step (m, t, mem) OtherFrame = (let (r, m') = alloc_frame m in (r, (m', t, mem)))"
| "shm_step (m, t, mem) (WriteTo n off data) =
     (let (k, mem') = shmem_write m t mem n off data in (Some k, (m, t, mem')))"

lemma consecutive_tl: "consecutive fs \<Longrightarrow> consecutive (tl fs)"
  by (cases fs rule: consecutive.cases) auto

lemma consecutive_drop: "consecutive fs \<Longrightarrow> consecutive (drop n fs)"
  by (induction n arbitrary: fs) (auto simp: drop_Suc consecutive_tl)

lemma consecutive_nth: "consecutive fs \<Longrightarrow> i < length fs \<Longrightarrow> fs ! i = hd fs + i * PAGE_SIZE"
proof (induction fs arbitrary: i rule: consecutive.induct)
  case (3 f g fs)
  then show ?case by (cases i) (auto simp: algebra_simps)
qed auto

lemma round_up_eq:
  assumes "bytes \<le> MAX_REGION_SIZE"
  shows "round_up bytes = (bytes + 4095) div 4096 * 4096"
proof -
  have m: "(of_nat (PAGE_SIZE - 1) :: u64) = mask 12" by (simp add: PAGE_SIZE_def mask_eq_exp_minus_1)
  have w: "(w AND NOT (mask 12)) = push_bit 12 (drop_bit 12 w)" for w :: u64
    by (rule bit_word_eqI) (auto simp: bit_simps)
  have "round_up bytes = unat (push_bit 12 (drop_bit 12 (of_nat (bytes + PAGE_SIZE - 1) :: u64)))"
    unfolding round_up_def m w ..
  also have "bytes + PAGE_SIZE - 1 = bytes + 4095" by (simp add: PAGE_SIZE_def)
  finally have r: "round_up bytes = unat (push_bit 12 (drop_bit 12 (of_nat (bytes + 4095) :: u64)))" .
  have u: "unat (of_nat (bytes + 4095) :: u64) = bytes + 4095"
    using assms by (simp only: unat_of_nat take_bit_nat_eq_self) (simp add: MAX_REGION_SIZE_def take_bit_nat_eq_self)
  have d: "unat (drop_bit 12 (of_nat (bytes + 4095) :: u64)) = (bytes + 4095) div 4096"
    unfolding unsigned_drop_bit_eq u using assms
    by (simp add: MAX_REGION_SIZE_def drop_bit_eq_div take_bit_nat_eq_self)
  have "(bytes + 4095) div 4096 * 4096 < 2 ^ 64" using assms by (simp add: MAX_REGION_SIZE_def)
  then show ?thesis
    unfolding r unsigned_push_bit_eq d by (simp add: push_bit_eq_mult take_bit_nat_eq_self)
qed

lemma extra_frames_rest:
  "extra_frames n m = (ok, m') \<Longrightarrow>
     (ok \<longrightarrow> n \<le> length (mem_rest m)) \<and> (\<exists>k. mem_rest m' = drop k (mem_rest m) \<and> (ok \<longrightarrow> k = n))"
proof (induction n arbitrary: m)
  case (Suc n)
  obtain r m1 where a: "alloc_frame m = (r, m1)" by fastforce
  have rest: "r = (case mem_rest m of [] \<Rightarrow> None | f # _ \<Rightarrow> Some f)" "mem_rest m1 = tl (mem_rest m)"
    using frames.alloc_rest [OF a] by auto
  show ?case
  proof (cases r)
    case None
    then show ?thesis using Suc.prems a rest by (auto split: list.splits intro: exI [of _ 0])
  next
    case (Some f)
    then have e: "extra_frames n m1 = (ok, m')" using Suc.prems a by simp
    obtain fs where fs: "mem_rest m = f # fs" using rest(1) Some by (auto split: list.splits)
    obtain k where k: "mem_rest m' = drop k fs" "ok \<longrightarrow> k = n" "ok \<longrightarrow> n \<le> length fs"
      using Suc.IH [OF e] rest(2) fs by auto
    then show ?thesis using fs by (intro conjI exI [of _ "Suc k"]) auto
  qed
qed simp

lemma mem_rest_alloc: "alloc_frame m = (r, m') \<Longrightarrow> mem_rest m' = tl (mem_rest m)"
  using frames.alloc_rest by blast

text \<open>Taking frames away keeps the invariant.\<close>

lemma shm_ok_fewer:
  assumes "shm_ok mm m t" and "mem_rest m' = drop k (mem_rest m)"
  shows "shm_ok mm m' t"
  using assms set_drop_subset [of k "mem_rest m"] consecutive_drop [of "mem_rest m" k]
  by (auto simp: shm_ok_def shm_region_ok_def list_all_iff dest: in_set_dropD)

lemma shm_ok_tl: "shm_ok mm m t \<Longrightarrow> mem_rest m' = tl (mem_rest m) \<Longrightarrow> shm_ok mm m' t"
  using shm_ok_fewer [where k = 1] by (simp add: drop_Suc)

text \<open>Updating one slot: to a free slot, or to a region with the same frames and identity.\<close>

lemma nth_freed: "j < length xs \<Longrightarrow> xs[i := SFree] ! j = SActive r \<longleftrightarrow> j \<noteq> i \<and> xs ! j = SActive r"
  by (cases "i = j") auto

lemma shm_ok_free:
  assumes "shm_ok mm m t"
  shows "shm_ok mm m (t\<lparr>sh_slots := (sh_slots t)[i := SFree]\<rparr>)"
  using assms unfolding shm_ok_def by (auto simp: nth_freed)

lemma shm_ok_same:
  assumes ok: "shm_ok mm m t" and i: "i < length (sh_slots t)" "sh_slots t ! i = SActive r"
    and same: "sr_id r' = sr_id r" "sr_phys_frame r' = sr_phys_frame r" "sr_size r' = sr_size r"
    and cnt: "sr_ref_count r' = length (sr_attached r')" "distinct (sr_attached r')"
  shows "shm_ok mm m (t\<lparr>sh_slots := (sh_slots t)[i := SActive r']\<rparr>)"
proof -
  have "shm_region_ok mm m (sh_next_id t) r" using ok i unfolding shm_ok_def by blast
  then have r': "shm_region_ok mm m (sh_next_id t) r'"
    using same cnt by (simp add: shm_region_ok_def region_pages_def)
  have ap: "apart r' s = apart r s" "apart s r' = apart s r" for s using same by (simp_all add: apart_def)
  show ?thesis using ok i r' unfolding shm_ok_def by (auto simp: nth_list_update ap)
qed

text \<open>A new region on the frames that come next.\<close>

lemma new_region_pages:
  assumes "consecutive (f # fs)" and "n \<le> length fs"
  shows "map (\<lambda>k. f + k * PAGE_SIZE) [0..<Suc n] = take (Suc n) (f # fs)"
  using consecutive_nth [OF assms(1)] assms(2) by (intro nth_equalityI) (auto simp del: upt_Suc take_Suc_Cons)

lemma new_region_below:
  assumes "consecutive (f # fs)" and "g \<in> set (drop n fs)"
  shows "f + Suc n * PAGE_SIZE \<le> g"
proof -
  obtain i where i: "n \<le> i" "i < length fs" "g = fs ! i"
    using assms(2) by (auto simp: in_set_conv_nth) (metis add.commute le_add1 less_diff_conv)
  have "g = f + Suc i * PAGE_SIZE" using consecutive_nth [OF assms(1), of "Suc i"] i by simp
  then show ?thesis using i(1) by simp
qed

lemma shm_ok_create:
  assumes ok: "shm_ok mm m t" and rest: "mem_rest m = f # fs" "mem_rest m' = drop n fs" "n \<le> length fs"
    and slot: "i < length (sh_slots t)" "sh_slots t ! i = SFree"
    and r: "sr_id r = sh_next_id t" "sr_phys_frame r = f" "sr_size r = Suc n * PAGE_SIZE"
      "sr_ref_count r = 0" "sr_attached r = []" "sr_size r \<le> MAX_REGION_SIZE"
  shows "shm_ok mm m' (t\<lparr>sh_next_id := sh_next_id t + 1, sh_slots := (sh_slots t)[i := SActive r]\<rparr>)"
proof -
  have c: "consecutive (f # fs)" using ok rest(1) by (simp add: shm_ok_def)
  have ok': "shm_ok mm m' t" using shm_ok_fewer [OF ok, of m' "Suc n"] rest by simp
  have below: "list_all (\<lambda>g. f + Suc n * PAGE_SIZE \<le> g) (mem_rest m')"
    using new_region_below [OF c] rest(2) by (auto simp: list_all_iff)
  have pages: "set (region_pages r) \<subseteq> set (usable_frames mm)"
  proof -
    have "region_pages r = take (Suc n) (f # fs)"
      unfolding region_pages_def r(2,3) using new_region_pages [OF c rest(3)] by (simp add: PAGE_SIZE_def)
    then have "set (region_pages r) \<subseteq> set (f # fs)" by (metis set_take_subset)
    then show ?thesis using ok rest(1) by (auto simp: shm_ok_def)
  qed
  have new: "shm_region_ok mm m' (sh_next_id t + 1) r"
    using pages below r by (simp add: shm_region_ok_def PAGE_SIZE_def)
  have old: "shm_region_ok mm m' (sh_next_id t + 1) s" and ap: "apart r s" "apart s r"
    if "j < length (sh_slots t)" "sh_slots t ! j = SActive s" for j s
  proof -
    have "shm_region_ok mm m (sh_next_id t) s" "shm_region_ok mm m' (sh_next_id t) s"
      using ok ok' that unfolding shm_ok_def by blast+
    then show "shm_region_ok mm m' (sh_next_id t + 1) s" "apart r s" "apart s r"
      using rest(1) r by (auto simp: shm_region_ok_def apart_def)
  qed
  show ?thesis
    unfolding shm_ok_def using ok' slot new old ap
    by (auto simp: shm_ok_def nth_list_update)
qed

section \<open>Every call keeps the invariant\<close>

lemma has_id_slot: "has_id n s \<Longrightarrow> \<exists>r. s = SActive r \<and> sr_id r = n"
  by (auto simp: has_id_def split: shm_slot.splits)

lemma shm_ok_boot:
  assumes "consecutive (usable_frames mm)"
  shows "shm_ok mm (memory_init m0 off mm) shmem_new"
  using assms by (simp add: shm_ok_def shmem_new_def mem_rest_def memory_init_def remaining_init)

lemma create_shmem_ok:
  assumes ok: "shm_ok mm m t" and c: "create_shmem m t name bytes pid = (res, m', t')"
  shows "shm_ok mm m' t'"
proof (cases "bytes = 0 \<or> bytes > MAX_REGION_SIZE")
  case True
  then show ?thesis using ok c by (simp add: create_shmem_def split: if_splits)
next
  case False
  let ?n = "round_up bytes div PAGE_SIZE - 1"
  have up: "round_up bytes = Suc ?n * PAGE_SIZE" "round_up bytes \<le> MAX_REGION_SIZE"
    using False round_up_eq [of bytes] by (auto simp: PAGE_SIZE_def MAX_REGION_SIZE_def)
  obtain fr m1 where a: "alloc_frame m = (fr, m1)" by fastforce
  have ok1: "shm_ok mm m1 t" using shm_ok_tl [OF ok mem_rest_alloc [OF a]] .
  show ?thesis
  proof (cases fr)
    case None
    then show ?thesis using c a False ok1 by (auto simp: create_shmem_def Let_def)
  next
    case (Some f)
    obtain good m2 where e: "extra_frames ?n m1 = (good, m2)" by fastforce
    obtain k where k: "mem_rest m2 = drop k (mem_rest m1)" "good \<longrightarrow> k = ?n \<and> ?n \<le> length (mem_rest m1)"
      using extra_frames_rest [OF e] by auto
    have ok2: "shm_ok mm m2 t" using shm_ok_fewer [OF ok1 k(1)] .
    obtain fs where fs: "mem_rest m = f # fs" "mem_rest m1 = fs"
      using frames.alloc_rest [OF a] Some by (auto split: list.splits)
    show ?thesis
    proof (cases "good \<and> position is_slot_free (sh_slots t) \<noteq> None")
      case True
      then obtain i where i: "position is_slot_free (sh_slots t) = Some i" by auto
      have slot: "i < length (sh_slots t)" "sh_slots t ! i = SFree"
        using position_SomeD [OF i] by (auto simp: is_slot_free_def split: shm_slot.splits)
      show ?thesis
        using c a Some e True i False up k fs
          shm_ok_create [OF ok fs(1), of m2 ?n i
            "\<lparr>sr_id = sh_next_id t, sr_name = name, sr_size = round_up bytes, sr_phys_frame = f, sr_ref_count = 0,
              sr_owner_pid = pid, sr_attached = []\<rparr>"] slot
        by (auto simp: create_shmem_def Let_def)
    next
      case False
      then show ?thesis using c a Some e ok2 \<open>\<not> (bytes = 0 \<or> bytes > MAX_REGION_SIZE)\<close>
        by (auto simp: create_shmem_def Let_def split: option.splits bool.splits)
    qed
  qed
qed

text \<open>Creation succeeds when there are a slot and enough frames.\<close>

lemma extra_frames_enough: "n \<le> length (mem_rest m) \<Longrightarrow> fst (extra_frames n m)"
proof (induction n arbitrary: m)
  case (Suc n)
  obtain r m1 where a: "alloc_frame m = (r, m1)" by fastforce
  obtain f where "r = Some f" "mem_rest m1 = tl (mem_rest m)"
    using frames.alloc_rest [OF a] Suc.prems by (cases "mem_rest m") auto
  then show ?case using a Suc.IH [of m1] Suc.prems by simp
qed simp

lemma create_shmem_succeeds:
  assumes "0 < bytes" and "bytes \<le> MAX_REGION_SIZE" and "mem_rest m = f # fs"
    and "n = round_up bytes div PAGE_SIZE - 1" and "n \<le> length fs"
    and "position is_slot_free (sh_slots t) = Some i"
  shows "\<exists>m'. mem_rest m' = drop n fs \<and> create_shmem m t name bytes pid =
    (Some (sh_next_id t), m', t\<lparr>sh_next_id := sh_next_id t + 1, sh_slots := (sh_slots t)[i :=
       SActive \<lparr>sr_id = sh_next_id t, sr_name = name, sr_size = round_up bytes, sr_phys_frame = f,
         sr_ref_count = 0, sr_owner_pid = pid, sr_attached = []\<rparr>]\<rparr>)"
proof -
  obtain r m1 where a: "alloc_frame m = (r, m1)" by fastforce
  have r: "r = Some f" "mem_rest m1 = fs" using frames.alloc_rest [OF a] assms(3) by auto
  obtain m2 where e: "extra_frames n m1 = (True, m2)"
    using extra_frames_enough [of n m1] assms(5) r(2) by (metis (full_types) prod.collapse)
  have "mem_rest m2 = drop n fs" using extra_frames_rest [OF e] r(2) by auto
  then show ?thesis using assms a r e by (intro exI [of _ m2]) (simp add: create_shmem_def Let_def)
qed

lemma attach_shmem_ok:
  assumes ok: "shm_ok mm m t" and a: "attach_shmem t n pid = (res, t')"
  shows "shm_ok mm m t'"
proof (cases "position (has_id n) (sh_slots t)")
  case None
  then show ?thesis using ok a by (simp add: attach_shmem_def)
next
  case (Some i)
  obtain r where r: "sh_slots t ! i = SActive r" "i < length (sh_slots t)"
    using position_SomeD [OF Some] has_id_slot by blast
  then have "shm_region_ok mm m (sh_next_id t) r" using ok by (auto simp: shm_ok_def)
  then show ?thesis
    using a Some r ok
      shm_ok_same [OF ok r(2,1), of "r\<lparr>sr_attached := sr_attached r @ [pid], sr_ref_count := sr_ref_count r + 1\<rparr>"]
    by (auto simp: attach_shmem_def shm_region_ok_def split: if_splits)
qed

lemma distinct_position_remove:
  "position (\<lambda>p. p = x) xs = Some i \<Longrightarrow> length (remove_at i xs) = length xs - 1 \<and> (distinct xs \<longrightarrow> distinct (remove_at i xs))"
  using position_SomeD [of "\<lambda>p. p = x" xs i] by (auto simp: distinct_remove_at)

lemma detach_shmem_ok:
  assumes ok: "shm_ok mm m t" and d: "detach_shmem t n pid = (res, t')"
  shows "shm_ok mm m t'"
proof (cases "position (has_id n) (sh_slots t)")
  case None
  then show ?thesis using ok d by (simp add: detach_shmem_def)
next
  case (Some i)
  obtain r where r: "sh_slots t ! i = SActive r" "i < length (sh_slots t)"
    using position_SomeD [OF Some] has_id_slot by blast
  then have rok: "shm_region_ok mm m (sh_next_id t) r" using ok by (auto simp: shm_ok_def)
  show ?thesis
  proof (cases "position (\<lambda>p. p = pid) (sr_attached r)")
    case None
    then show ?thesis using d Some r ok by (simp add: detach_shmem_def)
  next
    case (Some pos)
    let ?r = "r\<lparr>sr_attached := remove_at pos (sr_attached r), sr_ref_count := sr_ref_count r - 1\<rparr>"
    have "shm_ok mm m (t\<lparr>sh_slots := (sh_slots t)[i := SActive ?r]\<rparr>)"
      using shm_ok_same [OF ok r(2,1), of ?r] rok distinct_position_remove [OF Some]
      by (simp add: shm_region_ok_def)
    then show ?thesis
      using d \<open>position (has_id n) (sh_slots t) = Some i\<close> r Some shm_ok_free [OF ok, of i]
      by (auto simp: detach_shmem_def Let_def split: if_splits)
  qed
qed

lemma destroy_shmem_ok: "shm_ok mm m t \<Longrightarrow> destroy_shmem t n = (res, t') \<Longrightarrow> shm_ok mm m t'"
  by (auto simp: destroy_shmem_def shm_ok_free split: option.splits)

lemma shm_step_ok:
  assumes "shm_ok mm m t" and "shm_step (m, t, mem) op = (out, (m', t', mem'))"
  shows "shm_ok mm m' t'"
proof (cases op)
  case OtherFrame
  then show ?thesis using assms shm_ok_tl [OF assms(1)] mem_rest_alloc by (auto split: prod.splits)
qed (use assms in \<open>auto split: prod.splits dest: create_shmem_ok attach_shmem_ok detach_shmem_ok destroy_shmem_ok\<close>)

lemma shm_run_ok:
  "shm_ok mm m t \<Longrightarrow> run_ops shm_step (m, t, mem) ops = (outs, (m', t', mem')) \<Longrightarrow> shm_ok mm m' t'"
proof (induction ops arbitrary: m t mem outs)
  case (Cons op ops)
  obtain out m1 t1 mem1 where s: "shm_step (m, t, mem) op = (out, (m1, t1, mem1))" by (metis prod_cases3 prod.exhaust)
  obtain outs1 where r: "run_ops shm_step (m1, t1, mem1) ops = (outs1, (m', t', mem'))"
    using Cons.prems(2) s by (auto split: prod.splits)
  show ?case using Cons.IH [OF shm_step_ok [OF Cons.prems(1) s] r] .
qed simp

section \<open>Isolation\<close>

lemma copy_from_copy_to: "copy_from (copy_to mem v data) v (length data) = data"
  by (rule nth_equalityI) (auto simp: copy_from_def copy_to_def)

lemma copy_from_apart: "w + n \<le> v \<or> v + length data \<le> w \<Longrightarrow> copy_from (copy_to mem v data) w n = copy_from mem w n"
  unfolding copy_from_def copy_to_def by (intro map_cong refl) auto

lemma find_region_Some:
  assumes "find_region t a = Some r"
  shows "\<exists>i < length (sh_slots t). sh_slots t ! i = SActive r \<and> sr_id r = a"
proof -
  obtain s where "find (has_id a) (sh_slots t) = Some s" "s = SActive r"
    using assms by (auto simp: find_region_def split: option.splits shm_slot.splits)
  then have "SActive r \<in> set (sh_slots t)" "has_id a (SActive r)" using find_Some_in by fastforce+
  then show ?thesis by (auto simp: in_set_conv_nth has_id_def)
qed

lemma find_region_ok: "shm_ok mm m t \<Longrightarrow> find_region t a = Some r \<Longrightarrow> shm_region_ok mm m (sh_next_id t) r"
  using find_region_Some [of t a r] by (auto simp: shm_ok_def)

lemma find_region_apart:
  assumes "shm_ok mm m t" and "find_region t a = Some r" and "find_region t b = Some s" and "a \<noteq> b"
  shows "apart r s"
  using assms find_region_Some [OF assms(2)] find_region_Some [OF assms(3)]
  unfolding shm_ok_def by (metis shm_slot.inject)

lemma shmem_write_read:
  assumes ok: "shm_ok mm m t" and w: "shmem_write m t mem a off data = (n, mem')"
  shows "n = (case find_region t a of None \<Rightarrow> 0 | Some r \<Rightarrow> min (length data) (sr_size r - off))"
    and "shmem_read m t mem' a off n = take n data"
    and "b \<noteq> a \<Longrightarrow> shmem_read m t mem' b off' len = shmem_read m t mem b off' len"
proof -
  show "n = (case find_region t a of None \<Rightarrow> 0 | Some r \<Rightarrow> min (length data) (sr_size r - off))"
    using w by (auto simp: shmem_write_def Let_def split: option.splits if_splits)
  show "shmem_read m t mem' a off n = take n data"
    using w copy_from_copy_to [of mem _ "take n data"]
    by (auto simp: shmem_write_def shmem_read_def Let_def split: option.splits if_splits)
  show "shmem_read m t mem' b off' len = shmem_read m t mem b off' len" if "b \<noteq> a"
  proof (cases "find_region t a = None \<or> find_region t b = None")
    case True
    then show ?thesis using w by (auto simp: shmem_write_def shmem_read_def split: option.splits)
  next
    case False
    then obtain r s where f: "find_region t a = Some r" "find_region t b = Some s" by auto
    have "apart r s" using find_region_apart [OF ok f] that by simp
    then show ?thesis
      using w f by (auto simp: shmem_write_def shmem_read_def Let_def apart_def copy_from_apart split: if_splits)
  qed
qed

text \<open>
  C33. Shared regions are isolated: when the usable memory is one block of frames, then after any
  calls of the interface, in any order and mixed with frame allocations of other parts of the
  kernel, every region counts its attached processes, lies in usable memory only and holds an
  identifier no other region has; a write to a region stores as many bytes as fit, reading them
  gives them back, and no byte of another region changes.
\<close>

theorem shmem_isolated:
  assumes "consecutive (usable_frames mm)"
    and "run_ops shm_step (memory_init m0 base mm, shmem_new, mem0) ops = (outs, (m, t, mem))"
    and "shmem_write m t mem a off data = (n, mem')"
  shows "(\<forall>b r. find_region t b = Some r \<longrightarrow> sr_ref_count r = length (sr_attached r) \<and>
            distinct (sr_attached r) \<and> set (region_pages r) \<subseteq> set (usable_frames mm)) \<and>
    n = (case find_region t a of None \<Rightarrow> 0 | Some r \<Rightarrow> min (length data) (sr_size r - off)) \<and>
    shmem_read m t mem' a off n = take n data \<and>
    (\<forall>b off' len. b \<noteq> a \<longrightarrow> shmem_read m t mem' b off' len = shmem_read m t mem b off' len)"
proof -
  have ok: "shm_ok mm m t" using shm_run_ok [OF shm_ok_boot [OF assms(1)] assms(2)] .
  show ?thesis
    using shmem_write_read [OF ok assms(3)] find_region_ok [OF ok]
    by (simp add: shm_region_ok_def)
qed

definition block_map :: memory_map where
  "block_map = [\<lparr>rg_start = 0, rg_end = 4096, rg_type = FrameZero\<rparr>,
     \<lparr>rg_start = 4096, rg_end = 32768, rg_type = Usable\<rparr>]"

definition block_boot :: memory where
  "block_boot = memory_init \<lparr>mem_frames = None, mem_map = None, mem_phys_offset = 0\<rparr> 65536 block_map"

lemma block_frames: "usable_frames block_map = [4096, 8192, 12288, 16384, 20480, 24576, 28672]"
  by (simp add: usable_frames_def block_map_def region_frames.simps rg_size_def containing_address_def)

lemma shmem_new_slots: "shmem_new = \<lparr>sh_slots = SFree # SFree # replicate 14 SFree, sh_next_id = 0\<rparr>"
proof -
  have "replicate 16 SFree = SFree # SFree # replicate 14 SFree" by (simp add: numeral_eq_Suc)
  then show ?thesis by (simp add: shmem_new_def MAX_REGIONS_def)
qed

theorem shmem_isolated_witness:
  "\<exists>outs m t mem mem'.
     run_ops shm_step (block_boot, shmem_new, \<lambda>_. 0) [Create ''a'' 5000 1, Create ''b'' 100 2] = (outs, (m, t, mem)) \<and>
     shmem_write m t mem 0 4095 [1, 2, 3] = (3, mem') \<and> shmem_read m t mem' 0 4095 3 = [1, 2, 3] \<and>
     shmem_read m t mem' 1 0 9 = shmem_read m t mem 1 0 9"
proof -
  have up: "round_up 5000 = 8192" "round_up 100 = 4096" by (simp_all add: round_up_eq MAX_REGION_SIZE_def)
  have rest: "mem_rest block_boot = 4096 # 8192 # [12288, 16384, 20480, 24576, 28672]"
    using block_frames by (simp add: block_boot_def mem_rest_def memory_init_def remaining_init)
  define t1 where "t1 = \<lparr>sh_slots = SActive \<lparr>sr_id = 0, sr_name = ''a'', sr_size = 8192, sr_phys_frame = 4096,
    sr_ref_count = 0, sr_owner_pid = 1, sr_attached = []\<rparr> # SFree # replicate 14 SFree, sh_next_id = 1\<rparr>"
  obtain m1 where m1: "mem_rest m1 = [12288, 16384, 20480, 24576, 28672]"
      "create_shmem block_boot shmem_new ''a'' 5000 1 = (Some 0, m1, t1)"
    using create_shmem_succeeds [of 5000 block_boot 4096 _ 1 shmem_new 0 "''a''" 1] rest up
    by (auto simp: MAX_REGION_SIZE_def PAGE_SIZE_def shmem_new_slots is_slot_free_def t1_def)
  define t2 where "t2 = t1\<lparr>sh_next_id := 2, sh_slots := (sh_slots t1)[1 := SActive \<lparr>sr_id = 1, sr_name = ''b'',
    sr_size = 4096, sr_phys_frame = 12288, sr_ref_count = 0, sr_owner_pid = 2, sr_attached = []\<rparr>]\<rparr>"
  obtain m2 where m2: "create_shmem m1 t1 ''b'' 100 2 = (Some 1, m2, t2)"
    using create_shmem_succeeds [of 100 m1 12288 _ 0 t1 1 "''b''" 2] m1 up
    by (auto simp: MAX_REGION_SIZE_def PAGE_SIZE_def t1_def t2_def is_slot_free_def)
  have run: "run_ops shm_step (block_boot, shmem_new, \<lambda>_. 0) [Create ''a'' 5000 1, Create ''b'' 100 2] =
      ([Some 0, Some 1], (m2, t2, \<lambda>_. 0))" using m1 m2 by simp
  have f: "find_region t2 0 = Some \<lparr>sr_id = 0, sr_name = ''a'', sr_size = 8192, sr_phys_frame = 4096,
    sr_ref_count = 0, sr_owner_pid = 1, sr_attached = []\<rparr>" by (simp add: find_region_def t2_def t1_def has_id_def)
  have "consecutive (usable_frames block_map)" by (simp add: block_frames PAGE_SIZE_def)
  from shmem_isolated [OF this run [unfolded block_boot_def] surjective_pairing, of 0 4095 "[1, 2, 3]"] f
  have "fst (shmem_write m2 t2 (\<lambda>_. 0) 0 4095 [1, 2, 3]) = 3 \<and>
      shmem_read m2 t2 (snd (shmem_write m2 t2 (\<lambda>_. 0) 0 4095 [1, 2, 3])) 0 4095 3 = [1, 2, 3] \<and>
      shmem_read m2 t2 (snd (shmem_write m2 t2 (\<lambda>_. 0) 0 4095 [1, 2, 3])) 1 0 9 = shmem_read m2 t2 (\<lambda>_. 0) 1 0 9"
    by (auto simp: numeral_3_eq_3)
  then show ?thesis using run by (metis prod.collapse)
qed

text \<open>
  The hypothesis on the memory map is needed: the frames after the first are taken from the
  allocator but not recorded, and the region is used as if they followed the first. On a map with
  a hole, a region of two pages covers a frame of the kernel.
\<close>

lemma shmem_covers_kernel:
  "\<exists>m t r. create_shmem sample_mem shmem_new ''a'' 8192 1 = (Some 0, m, t) \<and> find_region t 0 = Some r \<and>
     8192 \<in> set (region_pages r) \<and> \<lparr>rg_start = 8192, rg_end = 16384, rg_type = Kernel\<rparr> \<in> set sample_map \<and>
     8192 \<notin> set (usable_frames sample_map)"
proof -
  have up: "round_up 8192 = 8192" by (simp add: round_up_eq MAX_REGION_SIZE_def)
  have fr: "usable_frames sample_map = [4096, 16384, 20480]"
    by (simp add: usable_frames_def sample_map_def region_frames.simps rg_size_def containing_address_def)
  then have "mem_rest sample_mem = [4096, 16384, 20480]"
    by (simp add: sample_mem_def mem_rest_def memory_init_def remaining_init)
  then obtain m where "create_shmem sample_mem shmem_new ''a'' 8192 1 =
      (Some 0, m, \<lparr>sh_slots = SActive \<lparr>sr_id = 0, sr_name = ''a'', sr_size = 8192, sr_phys_frame = 4096,
    sr_ref_count = 0, sr_owner_pid = 1, sr_attached = []\<rparr> # SFree # replicate 14 SFree, sh_next_id = 1\<rparr>)"
    using create_shmem_succeeds [of 8192 sample_mem 4096 _ 1 shmem_new 0 "''a''" 1] up
    by (auto simp: MAX_REGION_SIZE_def PAGE_SIZE_def shmem_new_slots is_slot_free_def)
  then show ?thesis
    using fr by (simp add: find_region_def has_id_def region_pages_def PAGE_SIZE_def sample_map_def upt_conv_Cons)
qed

end
