(* ===== verification/Cow.thy ===== *)
theory Cow
  imports Shmem Btree Rust_Str
begin

text \<open>
  Copy on write (\<^verbatim>\<open>src/cow.rs\<close>): the reference counts of shared frames and the page fault that
  gives a writer its own copy. The page-table walker of the \<^verbatim>\<open>x86_64\<close> crate is a parameter, as
  in \<open>Memory\<close>: \<^verbatim>\<open>translate_page\<close>, \<^verbatim>\<open>unmap\<close> and \<^verbatim>\<open>map_to\<close> on page tables of any type.
\<close>

section \<open>Reference counts\<close>

record cow_tracker =
  ref_counts :: "(u64, u32) btree"

definition cow_new :: cow_tracker where
  "cow_new = \<lparr>ref_counts = []\<rparr>"

definition page_aligned :: "u64 \<Rightarrow> u64" where
  "page_aligned a = a AND NOT 0xFFF"

text \<open>The increment of \<^verbatim>\<open>share_frame\<close> is a checked addition: \<open>None\<close> is its overflow.\<close>

definition share_frame :: "cow_tracker \<Rightarrow> u64 \<Rightarrow> cow_tracker option" where
  "share_frame c frame_addr =
     (let aligned = page_aligned frame_addr;
          m = bt_or_insert aligned 1 (ref_counts c)
      in case bt_get m aligned of
           None \<Rightarrow> None
         | Some count \<Rightarrow> if count = - 1 then None else Some (c\<lparr>ref_counts := bt_insert aligned (count + 1) m\<rparr>))"

definition is_shared :: "cow_tracker \<Rightarrow> u64 \<Rightarrow> bool" where
  "is_shared c frame_addr =
     (case bt_get (ref_counts c) (page_aligned frame_addr) of None \<Rightarrow> False | Some n \<Rightarrow> n > 1)"

definition unshare_frame :: "cow_tracker \<Rightarrow> u64 \<Rightarrow> bool \<times> cow_tracker" where
  "unshare_frame c frame_addr =
     (let aligned = page_aligned frame_addr
      in case bt_get (ref_counts c) aligned of
           None \<Rightarrow> (False, c)
         | Some count \<Rightarrow>
             let count = (if count = 0 then 0 else count - 1)
             in if count \<le> 1 then (True, c\<lparr>ref_counts := bt_remove aligned (ref_counts c)\<rparr>)
                else (False, c\<lparr>ref_counts := bt_insert aligned count (ref_counts c)\<rparr>))"

definition shared_count :: "cow_tracker \<Rightarrow> usize" where
  "shared_count c = length (ref_counts c)"

definition total_refs :: "cow_tracker \<Rightarrow> u64" where
  "total_refs c = sum_list (map (\<lambda>e. ucast (snd e)) (ref_counts c))"

section \<open>The page fault\<close>

record cow =
  cow_frames :: cow_tracker
  cow_faults :: u64
  cow_copies :: u64

definition USER_RW :: u64 where "USER_RW = 1 OR 2 OR 4"

definition handle_cow_fault ::
  "('m \<Rightarrow> nat \<Rightarrow> nat option) \<Rightarrow> ('m \<Rightarrow> nat \<Rightarrow> nat option \<times> 'm)
    \<Rightarrow> ('m \<Rightarrow> nat \<Rightarrow> nat \<Rightarrow> u64 \<Rightarrow> prealloc \<Rightarrow> map_result \<times> 'm \<times> prealloc)
    \<Rightarrow> cow \<Rightarrow> memory \<Rightarrow> 'm \<Rightarrow> vmem \<Rightarrow> u64 \<Rightarrow> nat option \<times> cow \<times> memory \<times> 'm \<times> vmem" where
  "handle_cow_fault translate_page unmap map_to c m pt mem fault_addr =
     (let c = c\<lparr>cow_faults := cow_faults c + 1\<rparr>;
          page = unat (page_aligned fault_addr)
      in case translate_page pt page of
           None \<Rightarrow> (None, c, m, pt, mem)
         | Some old_phys \<Rightarrow>
             if \<not> is_shared (cow_frames c) (of_nat old_phys) then (None, c, m, pt, mem)
             else
               (case alloc_frame m of
                  (None, m1) \<Rightarrow> (None, c, m1, pt, mem)
                | (Some new_phys, m1) \<Rightarrow>
                    let mem1 = copy_to mem (phys_to_virt m1 new_phys) (copy_from mem (phys_to_virt m1 old_phys) 4096);
                        (_, pt1) = unmap pt page;
                        (extra1, m2) = alloc_frame m1; (extra2, m3) = alloc_frame m2; (extra3, m4) = alloc_frame m3;
                        (_, pt2, _) = map_to pt1 page new_phys USER_RW \<lparr>pa_frames = [extra1, extra2, extra3], pa_next = 0\<rparr>;
                        (_, tracker) = unshare_frame (cow_frames c) (of_nat old_phys)
                    in (Some new_phys, c\<lparr>cow_frames := tracker, cow_copies := cow_copies c + 1\<rparr>, m4, pt2, mem1)))"

definition cow_info :: "cow \<Rightarrow> str" where
  "cow_info c =
     ''Copy-on-Write Page Tracker'' @ [newline] @
     ''Shared frames:  '' @ show_nat (shared_count (cow_frames c)) @ [newline] @
     ''Total refs:     '' @ show_u64 (total_refs (cow_frames c)) @ [newline] @
     ''CoW faults:     '' @ show_u64 (cow_faults c) @ [newline] @
     ''Pages copied:   '' @ show_u64 (cow_copies c) @ [newline]"

section \<open>What the counts mean\<close>

text \<open>
  The specification: every frame has a number of owners, one unless it was shared. The tracker
  stores the counts of the frames with more than one.
\<close>

definition owners :: "cow_tracker \<Rightarrow> u64 \<Rightarrow> nat" where
  "owners c a = (case bt_get (ref_counts c) (page_aligned a) of None \<Rightarrow> 1 | Some n \<Rightarrow> unat n)"

definition cow_ok :: "cow_tracker \<Rightarrow> bool" where
  "cow_ok c \<longleftrightarrow> bt_ok (ref_counts c) \<and>
     (\<forall>k n. bt_get (ref_counts c) k = Some n \<longrightarrow> n > 1 \<and> page_aligned k = k)"

lemma page_aligned_idem [simp]: "page_aligned (page_aligned a) = page_aligned a"
  by (simp add: page_aligned_def and.assoc)

lemma cow_ok_get: "cow_ok c \<Longrightarrow> bt_get (ref_counts c) k = Some n \<Longrightarrow> n > 1 \<and> page_aligned k = k"
  by (simp add: cow_ok_def)

lemma u32_gt_one: "(n :: u32) > 1 \<longleftrightarrow> unat n > 1"
  by (simp add: word_less_nat_alt)

lemma cow_ok_new [simp]: "cow_ok cow_new"
  by (simp add: cow_ok_def cow_new_def)

lemma is_shared_owners: "is_shared c a \<longleftrightarrow> owners c a > 1"
  by (simp add: is_shared_def owners_def u32_gt_one split: option.splits)

lemma share_frame_spec:
  assumes ok: "cow_ok c" and room: "owners c a < 2 ^ 32 - 1"
  shows "\<exists>c'. share_frame c a = Some c' \<and> cow_ok c' \<and>
    (\<forall>b. owners c' b = (if page_aligned b = page_aligned a then owners c a + 1 else owners c b))"
proof -
  let ?k = "page_aligned a"
  define n where "n = (case bt_get (ref_counts c) ?k of Some x \<Rightarrow> x | None \<Rightarrow> 1)"
  have n: "unat n = owners c a" by (simp add: n_def owners_def split: option.splits)
  have bt: "bt_ok (ref_counts c)" using ok by (simp add: cow_ok_def)
  have n1: "n \<noteq> - 1" using n room by (auto simp: unsigned_minus_1_eq_mask mask_eq_exp_minus_1)
  have un: "unat (n + 1) = owners c a + 1"
    using n room by (simp add: unat_word_ariths)
  let ?c = "c\<lparr>ref_counts := bt_insert ?k (n + 1) (bt_or_insert ?k 1 (ref_counts c))\<rparr>"
  have s: "share_frame c a = Some ?c"
    using n1 bt by (simp add: share_frame_def n_def Let_def)
  have "1 \<le> owners c a" using cow_ok_get [OF ok, of "page_aligned a"]
    by (cases "bt_get (ref_counts c) (page_aligned a)") (auto simp: owners_def u32_gt_one)
  then have "n + 1 > 1" using un by (simp add: u32_gt_one)
  then have "cow_ok ?c" using ok by (simp add: cow_ok_def)
  then show ?thesis using s un bt by (auto simp: owners_def)
qed

lemma unshare_frame_spec:
  assumes ok: "cow_ok c" and u: "unshare_frame c a = (final, c')"
  shows "cow_ok c'" and "final \<longleftrightarrow> owners c a = 2"
    and "owners c' b = (if page_aligned b = page_aligned a then max 1 (owners c a - 1) else owners c b)"
proof -
  have bt: "bt_ok (ref_counts c)" using ok by (simp add: cow_ok_def)
  have "cow_ok c' \<and> (final \<longleftrightarrow> owners c a = 2) \<and>
    owners c' b = (if page_aligned b = page_aligned a then max 1 (owners c a - 1) else owners c b)"
  proof (cases "bt_get (ref_counts c) (page_aligned a)")
    case None
    then show ?thesis using u ok by (auto simp: unshare_frame_def owners_def Let_def)
  next
    case (Some n)
    have n: "n > 1" using cow_ok_get [OF ok Some] by simp
    have d: "unat (n - 1) = unat n - 1" using n by (simp add: u32_gt_one unat_sub_if')
    have z: "n \<noteq> 0" "n - 1 \<le> 1 \<longleftrightarrow> unat n = 2"
      using n d by (auto simp: u32_gt_one word_le_nat_alt)
    show ?thesis
      using u ok Some n d z bt
      by (auto simp: unshare_frame_def owners_def Let_def cow_ok_def u32_gt_one word_le_nat_alt split: if_splits)
  qed
  then show "cow_ok c'" and "final \<longleftrightarrow> owners c a = 2"
    and "owners c' b = (if page_aligned b = page_aligned a then max 1 (owners c a - 1) else owners c b)" by auto
qed

section \<open>The copy\<close>

text \<open>
  What the page-table walker promises: \<^verbatim>\<open>unmap\<close> removes a mapping, and \<^verbatim>\<open>map_to\<close> of an unmapped
  page succeeds when it has the frames for the tables it may need; both leave every other page.
\<close>

definition sound_mapper ::
  "('m \<Rightarrow> nat \<Rightarrow> nat option) \<Rightarrow> ('m \<Rightarrow> nat \<Rightarrow> nat option \<times> 'm)
    \<Rightarrow> ('m \<Rightarrow> nat \<Rightarrow> nat \<Rightarrow> u64 \<Rightarrow> prealloc \<Rightarrow> map_result \<times> 'm \<times> prealloc) \<Rightarrow> bool" where
  "sound_mapper translate_page unmap map_to \<longleftrightarrow>
     (\<forall>pt page f. translate_page pt page = Some f \<longrightarrow>
        fst (unmap pt page) = Some f \<and>
        (\<forall>q. translate_page (snd (unmap pt page)) q = (if q = page then None else translate_page pt q))) \<and>
     (\<forall>pt page f flags e1 e2 e3.
        translate_page pt page = None \<longrightarrow>
        (\<exists>pt' pre'. map_to pt page f flags \<lparr>pa_frames = [Some e1, Some e2, Some e3], pa_next = 0\<rparr> = (Mapped, pt', pre') \<and>
           (\<forall>q. translate_page pt' q = (if q = page then Some f else translate_page pt q))))"

lemma sound_unmap:
  assumes "sound_mapper translate_page unmap map_to" and "translate_page pt page = Some f"
  shows "translate_page (snd (unmap pt page)) q = (if q = page then None else translate_page pt q)"
  using assms unfolding sound_mapper_def by blast

lemma sound_map:
  assumes "sound_mapper translate_page unmap map_to" and "translate_page pt page = None"
  shows "translate_page (fst (snd (map_to pt page f flags \<lparr>pa_frames = [Some e1, Some e2, Some e3], pa_next = 0\<rparr>))) q =
    (if q = page then Some f else translate_page pt q)"
proof -
  obtain pt' pre' where "map_to pt page f flags \<lparr>pa_frames = [Some e1, Some e2, Some e3], pa_next = 0\<rparr> = (Mapped, pt', pre')"
    "\<forall>q. translate_page pt' q = (if q = page then Some f else translate_page pt q)"
    using assms unfolding sound_mapper_def by blast
  then show ?thesis by simp
qed

lemma copy_to_nth: "copy_to mem v data a = (if v \<le> a \<and> a < v + length data then data ! (a - v) else mem a)"
  by (simp add: copy_to_def)

lemma alloc_next: "mem_rest m = f # fs \<Longrightarrow> \<exists>m'. alloc_frame m = (Some f, m') \<and> mem_rest m' = fs \<and> mem_phys_offset m' = mem_phys_offset m"
  using frames.alloc_next [of m f fs]
  by (cases "alloc_frame m") (auto simp: alloc_frame_def split: option.splits prod.splits)

text \<open>
  A write to a shared page gets its own copy: the fault maps the page to a fresh frame with
  the old contents, changes no other mapping and no other byte, and takes one owner off the old
  frame, so that the processes that still map it see what they saw before; a fault on a page that
  is not mapped or not shared changes nothing but the fault counter.
\<close>

lemma cow_fault_isolates:
  assumes mapper: "sound_mapper translate_page unmap map_to" and ok: "cow_ok (cow_frames c)"
    and rest: "mem_rest m = new # e1 # e2 # e3 # fs"
    and h: "handle_cow_fault translate_page unmap map_to c m pt mem addr = (res, c', m', pt', mem')"
    and page: "page = unat (page_aligned addr)"
  shows "case translate_page pt page of
      Some old \<Rightarrow>
        if owners (cow_frames c) (of_nat old) > 1
        then res = Some new \<and> mem_rest m' = fs \<and>
          (\<forall>q. translate_page pt' q = (if q = page then Some new else translate_page pt q)) \<and>
          copy_from mem' (phys_to_virt m new) 4096 = copy_from mem (phys_to_virt m old) 4096 \<and>
          (\<forall>a. a \<notin> {phys_to_virt m new..<phys_to_virt m new + 4096} \<longrightarrow> mem' a = mem a) \<and>
          (\<forall>a. owners (cow_frames c') a =
             (if page_aligned a = page_aligned (of_nat old) then owners (cow_frames c) a - 1 else owners (cow_frames c) a))
        else res = None \<and> (c', m', pt', mem') = (c\<lparr>cow_faults := cow_faults c + 1\<rparr>, m, pt, mem)
    | None \<Rightarrow> res = None \<and> (c', m', pt', mem') = (c\<lparr>cow_faults := cow_faults c + 1\<rparr>, m, pt, mem)"
proof (cases "\<exists>old. translate_page pt page = Some old \<and> owners (cow_frames c) (of_nat old) > 1")
  case False
  then show ?thesis using h page
    by (auto simp: handle_cow_fault_def Let_def is_shared_owners split: option.splits if_splits)
next
  case True
  then obtain old where old: "translate_page pt page = Some old" "owners (cow_frames c) (of_nat old) > 1" by blast
  obtain m1 where m1: "alloc_frame m = (Some new, m1)" "mem_rest m1 = e1 # e2 # e3 # fs" "mem_phys_offset m1 = mem_phys_offset m"
    using alloc_next [OF rest] by blast
  obtain m2 where m2: "alloc_frame m1 = (Some e1, m2)" "mem_rest m2 = e2 # e3 # fs" using alloc_next [OF m1(2)] by blast
  obtain m3 where m3: "alloc_frame m2 = (Some e2, m3)" "mem_rest m3 = e3 # fs" using alloc_next [OF m2(2)] by blast
  obtain m4 where m4: "alloc_frame m3 = (Some e3, m4)" "mem_rest m4 = fs" using alloc_next [OF m3(2)] by blast
  obtain final tr where u: "unshare_frame (cow_frames c) (of_nat old) = (final, tr)" by fastforce
  define pt1 where "pt1 = snd (unmap pt page)"
  have p1: "translate_page pt1 q = (if q = page then None else translate_page pt q)" for q
    unfolding pt1_def by (rule sound_unmap [OF mapper old(1)])
  let ?pre = "\<lparr>pa_frames = [Some e1, Some e2, Some e3], pa_next = 0\<rparr>"
  let ?mem = "copy_to mem (phys_to_virt m new) (copy_from mem (phys_to_virt m old) 4096)"
  have v: "phys_to_virt m1 = phys_to_virt m" using m1(3) by (auto simp: phys_to_virt_def)
  have eq: "res = Some new" "m' = m4" "pt' = fst (snd (map_to pt1 page new USER_RW ?pre))" "mem' = ?mem"
      "cow_frames c' = tr"
    using h page old m1(1) m2(1) m3(1) m4(1) u v
    by (auto simp: handle_cow_fault_def Let_def is_shared_owners pt1_def split: prod.splits)
  have "\<forall>q. translate_page pt' q = (if q = page then Some new else translate_page pt q)"
    unfolding eq(3) using sound_map [OF mapper, of pt1 page] p1 by simp
  moreover have "copy_from mem' (phys_to_virt m new) 4096 = copy_from mem (phys_to_virt m old) 4096"
    unfolding eq(4) using copy_from_copy_to [of mem "phys_to_virt m new" "copy_from mem (phys_to_virt m old) 4096"]
    by (simp add: copy_from_def)
  moreover have "\<forall>a. a \<notin> {phys_to_virt m new..<phys_to_virt m new + 4096} \<longrightarrow> mem' a = mem a"
    unfolding eq(4) by (simp add: copy_to_nth copy_from_def)
  moreover have "\<forall>a. owners (cow_frames c') a =
      (if page_aligned a = page_aligned (of_nat old) then owners (cow_frames c) a - 1 else owners (cow_frames c) a)"
    unfolding eq(5) using unshare_frame_spec(3) [OF ok u] old(2) by (auto simp: owners_def)
  ultimately show ?thesis using old eq m4 by simp
qed

definition sample_cow :: cow where
  "sample_cow = \<lparr>cow_frames = \<lparr>ref_counts = [(0x100000, 2)]\<rparr>, cow_faults = 0, cow_copies = 0\<rparr>"

lemma cow_fault_isolates_instance:
  "\<exists>c' m' pt' mem'.
     handle_cow_fault (\<lambda>pt. pt) (\<lambda>pt p. (pt p, pt(p := None))) (\<lambda>pt p f flags pre. (Mapped, pt(p := Some f), pre))
       sample_cow block_boot [0x7000 \<mapsto> 0x100000, 0x8000 \<mapsto> 0x100000] of_nat 0x7123 = (Some 4096, c', m', pt', mem') \<and>
     pt' 0x7000 = Some 4096 \<and> pt' 0x8000 = Some 0x100000 \<and>
     copy_from mem' (phys_to_virt block_boot 4096) 4096 = copy_from of_nat (phys_to_virt block_boot 0x100000) 4096 \<and>
     owners (cow_frames c') 0x100000 = 1"
proof -
  let ?tr = "\<lambda>pt :: nat \<Rightarrow> nat option. pt"
  let ?un = "\<lambda>(pt :: nat \<Rightarrow> nat option) p. (pt p, pt(p := None))"
  let ?mp = "\<lambda>(pt :: nat \<Rightarrow> nat option) p f (flags :: u64) (pre :: prealloc). (Mapped, pt(p := Some f), pre)"
  let ?pt = "[0x7000 \<mapsto> 0x100000, 0x8000 \<mapsto> 0x100000 :: nat]"
  have mapper: "sound_mapper ?tr ?un ?mp" by (auto simp: sound_mapper_def)
  have al: "page_aligned 0x100000 = 0x100000" "unat (page_aligned 0x7123) = 0x7000"
    by (simp_all add: page_aligned_def)
  have ok: "cow_ok (cow_frames sample_cow)"
    by (simp add: sample_cow_def cow_ok_def bt_get_def al bt_ok_def)
  have rest: "mem_rest block_boot = [4096, 8192, 12288, 16384, 20480, 24576, 28672]"
    using block_frames by (simp add: block_boot_def mem_rest_def memory_init_def remaining_init)
  have o: "owners (cow_frames sample_cow) 0x100000 = 2" by (simp add: owners_def sample_cow_def al bt_get_def)
  obtain res c' m' pt' mem' where h: "handle_cow_fault ?tr ?un ?mp sample_cow block_boot ?pt of_nat 0x7123 =
      (res, c', m', pt', mem')" using prod_cases5 by blast
  from cow_fault_isolates [OF mapper ok rest h refl] show ?thesis
    unfolding al h using o al by auto
qed

text \<open>
  The result of \<^verbatim>\<open>map_to\<close> is not looked at: when it fails (no frame left for a page table), the
  page has lost its mapping and the fault is still reported as handled.
\<close>

lemma cow_fault_loses_page:
  assumes "sound_mapper translate_page unmap map_to" and "mem_rest m = [new]"
    and "page = unat (page_aligned addr)" and "translate_page pt page = Some old"
    and "is_shared (cow_frames c) (of_nat old)"
    and fail: "\<And>pt pre. pa_frames pre = [None, None, None] \<Longrightarrow> \<exists>pre'. map_to pt page new USER_RW pre = (MapFailed, pt, pre')"
    and h: "handle_cow_fault translate_page unmap map_to c m pt mem addr = (res, c', m', pt', mem')"
  shows "res = Some new \<and> translate_page pt' page = None"
proof -
  obtain m1 where m1: "alloc_frame m = (Some new, m1)" "mem_rest m1 = []" using alloc_next [OF assms(2)] by blast
  obtain m2 where m2: "alloc_frame m1 = (None, m2)" "mem_rest m2 = []" using frames.alloc_empty [OF m1(2)] by (cases "alloc_frame m1") auto
  obtain m3 where m3: "alloc_frame m2 = (None, m3)" "mem_rest m3 = []" using frames.alloc_empty [OF m2(2)] by (cases "alloc_frame m2") auto
  obtain m4 where m4: "alloc_frame m3 = (None, m4)" using frames.alloc_empty [OF m3(2)] by (cases "alloc_frame m3") auto
  obtain pre' where f: "map_to (snd (unmap pt page)) page new USER_RW \<lparr>pa_frames = [None, None, None], pa_next = 0\<rparr> =
      (MapFailed, snd (unmap pt page), pre')" using fail by fastforce
  have "res = Some new \<and> pt' = snd (unmap pt page)"
    using h assms(3-5) m1(1) m2(1) m3(1) m4 f
    by (auto simp: handle_cow_fault_def Let_def split: prod.splits)
  then show ?thesis using sound_unmap [OF assms(1,4), of page] by simp
qed

end
