(* ===== verification/Proc_mgr.thy ===== *)
theory Proc_mgr
  imports Memory Fd Btree
begin

text \<open>
  The process manager (\<^verbatim>\<open>src/proc_mgr.rs\<close>): processes, fork with copy-on-write page tables, wait,
  kill and resource limits. Its state is the process table and the PID counter, together with
  the parts of the kernel it calls: the frame allocator (\<open>Memory\<close>), the page tables in physical
  memory, each the 512 entries at the address of its root, and the file descriptors (\<open>Fd\<close>).
\<close>

section \<open>Data\<close>

definition PM_MAX_PROCESSES :: usize where "PM_MAX_PROCESSES = 128"
definition DEFAULT_MAX_MEMORY :: usize where "DEFAULT_MAX_MEMORY = 64 * 1024 * 1024"
definition DEFAULT_MAX_FDS :: usize where "DEFAULT_MAX_FDS = 256"
definition COW_FLAG :: u64 where "COW_FLAG = push_bit 9 1"

type_synonym i32 = "32 word"

datatype process_state = PReady | PRunning | PWaiting | Zombie i32 | Dead

record memory_region =
  mr_base :: u64
  mr_len :: usize
  mr_cow :: bool
  mr_label :: str

record resource_limits =
  max_memory :: usize
  max_fds :: usize

definition default_limits :: resource_limits where
  "default_limits = \<lparr>max_memory = DEFAULT_MAX_MEMORY, max_fds = DEFAULT_MAX_FDS\<rparr>"

record process =
  pr_pid :: u32
  pr_ppid :: u32
  pr_state :: process_state
  pr_root :: nat
  pr_open_fds :: "usize list"
  pr_regions :: "memory_region list"
  pr_limits :: resource_limits
  pr_name :: str

definition total_memory :: "process \<Rightarrow> usize" where
  "total_memory p = sum_list (map mr_len (pr_regions p))"

definition fd_count :: "process \<Rightarrow> usize" where
  "fd_count p = length (pr_open_fds p)"

type_synonym process_table = "(u32, process) btree"

definition table_insert :: "process_table \<Rightarrow> process \<Rightarrow> process_table result" where
  "table_insert t p =
     (if length t \<ge> PM_MAX_PROCESSES then Err ''process table full''
      else if bt_get t (pr_pid p) \<noteq> None then Err ''duplicate PID''
      else Ok (bt_insert (pr_pid p) p t))"

text \<open>\<^verbatim>\<open>get_mut(pid)\<close> with an update of the process, when there is one.\<close>

definition table_update :: "process_table \<Rightarrow> u32 \<Rightarrow> (process \<Rightarrow> process) \<Rightarrow> process_table" where
  "table_update t pid f = map (\<lambda>(k, p). if k = pid then (k, f p) else (k, p)) t"

record proc_mgr =
  pm_map :: process_table
  pm_next_pid :: u32
  pm_memory :: memory
  pm_tables :: "nat \<Rightarrow> u64 list"
  pm_fds :: fd_table

definition alloc_pid :: "proc_mgr \<Rightarrow> u32 \<times> proc_mgr" where
  "alloc_pid s = (pm_next_pid s, s\<lparr>pm_next_pid := pm_next_pid s + 1\<rparr>)"

section \<open>Creation\<close>

definition kernel_process :: process where
  "kernel_process = \<lparr>pr_pid = 0, pr_ppid = 0, pr_state = PRunning, pr_root = 0, pr_open_fds = [],
     pr_regions = [], pr_limits = default_limits, pr_name = ''kernel''\<rparr>"

text \<open>\<open>None\<close> is the panic of \<^verbatim>\<open>expect\<close>.\<close>

definition proc_init :: "proc_mgr \<Rightarrow> proc_mgr option" where
  "proc_init s =
     (case table_insert (pm_map s) kernel_process of
        Inr t \<Rightarrow> Some (s\<lparr>pm_map := t\<rparr>)
      | Inl _ \<Rightarrow> None)"

definition create_process :: "proc_mgr \<Rightarrow> u32 \<Rightarrow> nat \<Rightarrow> memory_region list \<Rightarrow> str \<Rightarrow> u32 result \<times> proc_mgr" where
  "create_process s ppid root regions name =
     (let (pid, s1) = alloc_pid s;
          p = \<lparr>pr_pid = pid, pr_ppid = ppid, pr_state = PReady, pr_root = root, pr_open_fds = [],
                pr_regions = regions, pr_limits = default_limits, pr_name = name\<rparr>
      in case table_insert (pm_map s1) p of
           Inl e \<Rightarrow> (Err e, s1)
         | Inr t \<Rightarrow> (Ok pid, s1\<lparr>pm_map := t\<rparr>))"

section \<open>Fork\<close>

definition cow_entry :: "u64 \<Rightarrow> u64" where
  "cow_entry entry = (if entry AND 1 \<noteq> 0 then (entry AND NOT (push_bit 1 1)) OR COW_FLAG else entry)"

definition mark_user_half :: "u64 list \<Rightarrow> u64 list" where
  "mark_user_half tbl = map cow_entry (take 256 tbl) @ drop 256 tbl"

definition clone_page_table_cow :: "proc_mgr \<Rightarrow> nat \<Rightarrow> nat result \<times> proc_mgr" where
  "clone_page_table_cow s src_root =
     (case alloc_frame (pm_memory s) of
        (None, m) \<Rightarrow> (Err ''out of frames for child PML4'', s\<lparr>pm_memory := m\<rparr>)
      | (Some child_root, m) \<Rightarrow>
          (Ok child_root,
           s\<lparr>pm_memory := m, pm_tables := (pm_tables s)(child_root := mark_user_half (pm_tables s src_root))\<rparr>))"

definition mark_page_table_cow :: "proc_mgr \<Rightarrow> nat \<Rightarrow> proc_mgr" where
  "mark_page_table_cow s root =
     (if root = 0 then s else s\<lparr>pm_tables := (pm_tables s)(root := mark_user_half (pm_tables s root))\<rparr>)"

definition cow_region :: "memory_region \<Rightarrow> memory_region" where
  "cow_region r = r\<lparr>mr_cow := True\<rparr>"

definition fork :: "proc_mgr \<Rightarrow> u32 \<Rightarrow> u32 result \<times> proc_mgr" where
  "fork s parent_pid =
     (case bt_get (pm_map s) parent_pid of
        None \<Rightarrow> (Err ''parent not found'', s)
      | Some parent \<Rightarrow>
          let (child_pid, s1) = alloc_pid s
          in (case clone_page_table_cow s1 (pr_root parent) of
                (Inl e, s2) \<Rightarrow> (Err e, s2)
              | (Inr child_root, s2) \<Rightarrow>
                  let child = \<lparr>pr_pid = child_pid, pr_ppid = parent_pid, pr_state = PReady, pr_root = child_root,
                        pr_open_fds = pr_open_fds parent, pr_regions = map cow_region (pr_regions parent),
                        pr_limits = pr_limits parent, pr_name = pr_name parent @ ''.child''\<rparr>;
                      s3 = s2\<lparr>pm_map := table_update (pm_map s2) parent_pid
                                (\<lambda>p. p\<lparr>pr_regions := map cow_region (pr_regions p)\<rparr>)\<rparr>;
                      s4 = mark_page_table_cow s3 (pr_root parent)
                  in (case table_insert (pm_map s4) child of
                        Inl e \<Rightarrow> (Err e, s4)
                      | Inr t \<Rightarrow> (Ok child_pid, s4\<lparr>pm_map := t\<rparr>))))"

section \<open>Wait\<close>

definition is_zombie :: "process \<Rightarrow> bool" where
  "is_zombie p = (case pr_state p of Zombie _ \<Rightarrow> True | _ \<Rightarrow> False)"

definition exit_code :: "process \<Rightarrow> i32" where
  "exit_code p = (case pr_state p of Zombie c \<Rightarrow> c | _ \<Rightarrow> 0)"

text \<open>
  One round of the loop in \<^verbatim>\<open>wait\<close>: \<open>Some\<close> when the call returns, \<open>None\<close> when it yields. The loop
  takes what the other tasks do during each yield as a list; \<open>None\<close> is a call still waiting when
  the list ends.
\<close>

definition wait_poll :: "proc_mgr \<Rightarrow> u32 \<Rightarrow> (u32 \<times> i32) result option \<times> proc_mgr" where
  "wait_poll s parent_pid =
     (case find (\<lambda>p. pr_ppid p = parent_pid \<and> is_zombie p) (map snd (pm_map s)) of
        Some z \<Rightarrow> (Some (Ok (pr_pid z, exit_code z)), s\<lparr>pm_map := bt_remove (pr_pid z) (pm_map s)\<rparr>)
      | None \<Rightarrow>
          if \<not> list_ex (\<lambda>p. pr_ppid p = parent_pid) (map snd (pm_map s)) then (Some (Err ''no children''), s)
          else (None, s\<lparr>pm_map := table_update (pm_map s) parent_pid (\<lambda>p. p\<lparr>pr_state := PWaiting\<rparr>)\<rparr>))"

fun wait :: "(proc_mgr \<Rightarrow> proc_mgr) list \<Rightarrow> proc_mgr \<Rightarrow> u32 \<Rightarrow> (u32 \<times> i32) result option \<times> proc_mgr" where
  "wait [] s parent_pid = wait_poll s parent_pid"
| "wait (others # rest) s parent_pid =
     (case wait_poll s parent_pid of
        (Some r, s1) \<Rightarrow> (Some r, s1)
      | (None, s1) \<Rightarrow> wait rest (others s1) parent_pid)"

section \<open>Identity and limits\<close>

definition getpid :: "proc_mgr \<Rightarrow> u32 \<Rightarrow> u32 result" where
  "getpid s pid = (case bt_get (pm_map s) pid of Some p \<Rightarrow> Ok (pr_pid p) | None \<Rightarrow> Err ''process not found'')"

definition getppid :: "proc_mgr \<Rightarrow> u32 \<Rightarrow> u32 result" where
  "getppid s pid = (case bt_get (pm_map s) pid of Some p \<Rightarrow> Ok (pr_ppid p) | None \<Rightarrow> Err ''process not found'')"

definition set_limits :: "proc_mgr \<Rightarrow> u32 \<Rightarrow> resource_limits \<Rightarrow> unit result \<times> proc_mgr" where
  "set_limits s pid limits =
     (case bt_get (pm_map s) pid of
        None \<Rightarrow> (Err ''process not found'', s)
      | Some _ \<Rightarrow> (Ok (), s\<lparr>pm_map := table_update (pm_map s) pid (\<lambda>p. p\<lparr>pr_limits := limits\<rparr>)\<rparr>))"

definition check_memory_limit :: "proc_mgr \<Rightarrow> u32 \<Rightarrow> usize \<Rightarrow> unit result" where
  "check_memory_limit s pid extra_bytes =
     (case bt_get (pm_map s) pid of
        None \<Rightarrow> Err ''process not found''
      | Some p \<Rightarrow> if total_memory p + extra_bytes > max_memory (pr_limits p) then Err ''memory limit exceeded'' else Ok ())"

definition check_fd_limit :: "proc_mgr \<Rightarrow> u32 \<Rightarrow> unit result" where
  "check_fd_limit s pid =
     (case bt_get (pm_map s) pid of
        None \<Rightarrow> Err ''process not found''
      | Some p \<Rightarrow> if fd_count p \<ge> max_fds (pr_limits p) then Err ''fd limit exceeded'' else Ok ())"

section \<open>Kill\<close>

definition close_all :: "fd_table \<Rightarrow> usize list \<Rightarrow> fd_table" where
  "close_all fds = foldl (\<lambda>t fd. snd (fd_close t fd)) fds"

definition kill_process :: "proc_mgr \<Rightarrow> u32 \<Rightarrow> i32 \<Rightarrow> unit result \<times> proc_mgr" where
  "kill_process s pid code =
     (if pid = 0 then (Err ''cannot kill kernel process'', s)
      else case bt_get (pm_map s) pid of
             None \<Rightarrow> (Err ''process not found'', s)
           | Some p \<Rightarrow>
               let t1 = table_update (pm_map s) pid
                     (\<lambda>p. p\<lparr>pr_open_fds := [], pr_regions := [], pr_state := Zombie code\<rparr>);
                   fds1 = close_all (pm_fds s) (pr_open_fds p);
                   orphans = map pr_pid (filter (\<lambda>q. pr_ppid q = pid \<and> pr_pid q \<noteq> pid) (map snd t1));
                   t2 = foldl (\<lambda>t oid. table_update t oid (\<lambda>q. q\<lparr>pr_ppid := 0\<rparr>)) t1 orphans;
                   t3 = table_update t2 (pr_ppid p)
                     (\<lambda>q. if pr_state q = PWaiting then q\<lparr>pr_state := PReady\<rparr> else q)
               in (Ok (), s\<lparr>pm_map := t3, pm_fds := fds1\<rparr>))"

section \<open>Listing\<close>

record process_info =
  pi_pid :: u32
  pi_ppid :: u32
  pi_state :: process_state
  pi_name :: str
  pi_memory_bytes :: usize
  pi_fd_count :: usize
  pi_region_count :: usize
  pi_max_memory :: usize
  pi_max_fds :: usize

definition list_processes :: "proc_mgr \<Rightarrow> process_info list" where
  "list_processes s = map (\<lambda>p. \<lparr>pi_pid = pr_pid p, pi_ppid = pr_ppid p, pi_state = pr_state p, pi_name = pr_name p,
     pi_memory_bytes = total_memory p, pi_fd_count = fd_count p, pi_region_count = length (pr_regions p),
     pi_max_memory = max_memory (pr_limits p), pi_max_fds = max_fds (pr_limits p)\<rparr>) (map snd (pm_map s))"

definition state_str :: "process_state \<Rightarrow> str" where
  "state_str st =
     (case st of PReady \<Rightarrow> ''ready  '' | PRunning \<Rightarrow> ''running'' | PWaiting \<Rightarrow> ''waiting''
      | Zombie _ \<Rightarrow> ''zombie '' | Dead \<Rightarrow> ''dead   '')"

definition format_process_line :: "process_info \<Rightarrow> str" where
  "format_process_line p =
     pad_left CHR '' '' 5 (show_nat (unat (pi_pid p))) @ ''  '' @ pad_left CHR '' '' 4 (show_nat (unat (pi_ppid p))) @ ''  '' @
     state_str (pi_state p) @ ''  '' @ pad_left CHR '' '' 8 (show_nat (pi_memory_bytes p div 1024)) @ ''  '' @
     pad_left CHR '' '' 3 (show_nat (pi_fd_count p)) @ ''  '' @ pad_left CHR '' '' 7 (show_nat (pi_region_count p)) @ ''  '' @
     pi_name p @ [newline]"

definition format_process_list :: "proc_mgr \<Rightarrow> str" where
  "format_process_list s =
     ''  PID  PPID  STATE       MEM(KiB)  FDs  REGIONS  NAME'' @ [newline] @
     concat (map format_process_line (list_processes s))"

section \<open>The table\<close>

lemma bt_get_update [simp]:
  "bt_get (table_update t k f) j = (if j = k then map_option f (bt_get t j) else bt_get t j)"
  by (induction t) (auto simp: bt_get_def table_update_def)

lemma table_update_keys [simp]: "map fst (table_update t k f) = map fst t"
  by (induction t) (auto simp: table_update_def)

lemma bt_ok_update [simp]: "bt_ok (table_update t k f) = bt_ok t"
  by (simp add: bt_ok_def)

lemma length_update_table [simp]: "length (table_update t k f) = length t"
  by (simp add: table_update_def)

lemma length_bt_insert: "length (bt_insert k v m) \<le> Suc (length m)"
  by (induction k v m rule: bt_insert.induct) auto

lemma length_bt_remove: "length (bt_remove k m) \<le> length m"
  by (simp add: bt_remove_def)

lemma update_all_get:
  assumes "\<And>x. f (f x) = f x"
  shows "bt_get (foldl (\<lambda>t k. table_update t k f) t ks) j =
    (if j \<in> set ks then map_option f (bt_get t j) else bt_get t j)"
  using assms by (induction ks arbitrary: t) (auto simp: option.map_comp comp_def)

lemma update_all_ok [simp]:
  "bt_ok (foldl (\<lambda>t k. table_update t k f) t ks) = bt_ok t"
  "length (foldl (\<lambda>t k. table_update t k f) t ks) = length t"
  by (induction ks arbitrary: t) auto

lemma table_insert_Ok:
  assumes "table_insert t p = Ok t'"
  shows "t' = bt_insert (pr_pid p) p t" and "length t < PM_MAX_PROCESSES" and "bt_get t (pr_pid p) = None"
  using assms by (auto simp: table_insert_def split: if_splits)

section \<open>The process tree\<close>

definition alive :: "proc_mgr \<Rightarrow> u32 \<Rightarrow> bool" where
  "alive s pid = (case bt_get (pm_map s) pid of Some p \<Rightarrow> \<not> is_zombie p | None \<Rightarrow> False)"

text \<open>
  After \<open>n\<close> allocations of a PID: the table is keyed by PIDs below the counter, the kernel is in
  it, every process has a living parent with a smaller PID, and what exited holds nothing.
\<close>

definition proc_ok :: "proc_mgr \<Rightarrow> u32 \<Rightarrow> process \<Rightarrow> bool" where
  "proc_ok s k p \<longleftrightarrow>
     pr_pid p = k \<and> k < pm_next_pid s \<and> alive s (pr_ppid p) \<and> (k \<noteq> 0 \<longrightarrow> pr_ppid p < k) \<and>
     (is_zombie p \<longrightarrow> pr_open_fds p = [] \<and> pr_regions p = [])"

definition procs_ok :: "nat \<Rightarrow> proc_mgr \<Rightarrow> bool" where
  "procs_ok n s \<longleftrightarrow>
     bt_ok (pm_map s) \<and> length (pm_map s) \<le> PM_MAX_PROCESSES \<and> unat (pm_next_pid s) = Suc n \<and>
     alive s 0 \<and> (\<forall>p. bt_get (pm_map s) 0 = Some p \<longrightarrow> pr_ppid p = 0) \<and>
     (\<forall>k p. bt_get (pm_map s) k = Some p \<longrightarrow> proc_ok s k p)"

lemma procs_okD:
  assumes "procs_ok n s" and "bt_get (pm_map s) k = Some p"
  shows "proc_ok s k p"
  using assms by (simp add: procs_ok_def)

lemma next_pid_step:
  assumes "unat (w :: u32) = Suc n" and "n < 2 ^ 32 - 2"
  shows "unat (w + 1) = Suc (Suc n)" and "w < w + 1"
  using assms by (simp_all add: unat_word_ariths word_less_nat_alt)

text \<open>
  Changes that keep every process in place: the parent may only become the kernel, and only the
  process named may become a zombie.
\<close>

lemma procs_ok_insert:
  assumes ok: "procs_ok n s" and n: "n < 2 ^ 32 - 2" and parent: "alive s (pr_ppid p)"
    and pid: "pr_pid p = pm_next_pid s" and z: "\<not> is_zombie p"
    and ins: "table_insert (pm_map s) p = Ok t"
    and s': "pm_map s' = t" "pm_next_pid s' = pm_next_pid s + 1"
  shows "procs_ok (Suc n) s'"
proof -
  have bt: "bt_ok (pm_map s)" and nx: "unat (pm_next_pid s) = Suc n" using ok by (auto simp: procs_ok_def)
  have get: "bt_get (pm_map s') k = (if k = pr_pid p then Some p else bt_get (pm_map s) k)" for k
    using table_insert_Ok(1) [OF ins] bt s' by simp
  have al: "alive s' k" if "alive s k" for k
    using that get z by (auto simp: alive_def)
  obtain q where "bt_get (pm_map s) (pr_ppid p) = Some q" using parent by (auto simp: alive_def split: option.splits)
  then have lt: "pr_ppid p < pr_pid p" using procs_okD [OF ok] pid by (simp add: proc_ok_def)
  have new: "proc_ok s' (pr_pid p) p"
    using al [OF parent] lt next_pid_step [OF nx n] pid s' z by (simp add: proc_ok_def)
  have old: "proc_ok s' k q" if "bt_get (pm_map s) k = Some q" for k q
    using procs_okD [OF ok that] al next_pid_step(2) [OF nx n] s' by (auto simp: proc_ok_def)
  have nz: "pm_next_pid s \<noteq> 0" using nx by auto
  show ?thesis
    unfolding procs_ok_def
    using ok new old get al bt nz pid next_pid_step [OF nx n] s' table_insert_Ok [OF ins]
      length_bt_insert [of "pr_pid p" p "pm_map s"]
    by (auto simp: procs_ok_def)
qed

lemma procs_ok_alloc:
  assumes ok: "procs_ok n s" and n: "n < 2 ^ 32 - 2"
    and s': "pm_map s' = pm_map s" "pm_next_pid s' = pm_next_pid s + 1"
  shows "procs_ok (Suc n) s'"
proof -
  have nx: "unat (pm_next_pid s) = Suc n" using ok by (auto simp: procs_ok_def)
  have al: "alive s' = alive s" using s' by (auto simp: alive_def)
  have "proc_ok s' k p" if "bt_get (pm_map s) k = Some p" for k p
    using procs_okD [OF ok that] next_pid_step(2) [OF nx n] s' by (auto simp: proc_ok_def al)
  then show ?thesis using ok s' al next_pid_step [OF nx n] by (simp add: procs_ok_def)
qed

lemma procs_ok_view:
  assumes ok: "procs_ok n s" and get: "\<And>k. bt_get (pm_map s') k = map_option (g k) (bt_get (pm_map s) k)"
    and same: "bt_ok (pm_map s')" "length (pm_map s') = length (pm_map s)" "pm_next_pid s' = pm_next_pid s"
    and g: "\<And>k p. bt_get (pm_map s) k = Some p \<Longrightarrow> pr_pid (g k p) = pr_pid p \<and>
        (pr_ppid (g k p) = pr_ppid p \<or> pr_ppid (g k p) = 0) \<and> alive s' (pr_ppid (g k p)) \<and>
        (is_zombie (g k p) \<longrightarrow> pr_open_fds (g k p) = [] \<and> pr_regions (g k p) = [])"
    and root: "alive s' 0"
  shows "procs_ok n s'"
proof -
  have "proc_ok s' k (g k p)" if "bt_get (pm_map s) k = Some p" for k p
    using procs_okD [OF ok that] g [OF that] same(3) word_gt_0 [of k] by (auto simp: proc_ok_def)
  moreover have "pr_ppid (g 0 p) = 0" if "bt_get (pm_map s) 0 = Some p" for p
    using g [OF that] ok that by (auto simp: procs_ok_def)
  ultimately show ?thesis using ok get same root by (auto simp: procs_ok_def)
qed

text \<open>Updating one process without touching its identity or killing it.\<close>

lemma procs_ok_update:
  assumes ok: "procs_ok n s"
    and f: "\<And>p. pr_pid (f p) = pr_pid p \<and> pr_ppid (f p) = pr_ppid p \<and> (is_zombie (f p) \<longrightarrow> is_zombie p) \<and>
        (is_zombie (f p) \<and> pr_open_fds p = [] \<and> pr_regions p = [] \<longrightarrow> pr_open_fds (f p) = [] \<and> pr_regions (f p) = [])"
    and s': "pm_map s' = table_update (pm_map s) pid f" "pm_next_pid s' = pm_next_pid s"
  shows "procs_ok n s'" and "alive s k \<Longrightarrow> alive s' k"
proof -
  have al: "alive s k \<Longrightarrow> alive s' k" for k
    using f by (auto simp: alive_def s' split: option.splits)
  then show "alive s k \<Longrightarrow> alive s' k" .
  show "procs_ok n s'"
  proof (rule procs_ok_view [OF ok, where g = "\<lambda>k p. if k = pid then f p else p"])
    show "bt_get (pm_map s') k = map_option (\<lambda>p. if k = pid then f p else p) (bt_get (pm_map s) k)" for k
      by (cases "bt_get (pm_map s) k") (auto simp: s')
  qed (use ok f al in \<open>auto simp: s' procs_ok_def proc_ok_def\<close>)
qed

lemma create_process_ok:
  assumes "procs_ok n s" and "n < 2 ^ 32 - 2" and "alive s ppid"
  shows "procs_ok (Suc n) (snd (create_process s ppid root regions name))"
proof (cases "table_insert (pm_map s) \<lparr>pr_pid = pm_next_pid s, pr_ppid = ppid, pr_state = PReady, pr_root = root,
    pr_open_fds = [], pr_regions = regions, pr_limits = default_limits, pr_name = name\<rparr>")
  case (Inl e)
  then show ?thesis using procs_ok_alloc [OF assms(1,2)] by (simp add: create_process_def alloc_pid_def)
next
  case (Inr t)
  then show ?thesis using procs_ok_insert [OF assms(1,2) _ _ _ Inr] assms(3)
    by (simp add: create_process_def alloc_pid_def is_zombie_def)
qed

lemma clone_keeps:
  assumes "clone_page_table_cow s root = (r, s')"
  shows "pm_map s' = pm_map s" and "pm_next_pid s' = pm_next_pid s"
  using assms by (auto simp: clone_page_table_cow_def split: prod.splits option.splits)

lemma mark_keeps: "pm_map (mark_page_table_cow s root) = pm_map s" "pm_next_pid (mark_page_table_cow s root) = pm_next_pid s"
  by (simp_all add: mark_page_table_cow_def)

lemma fork_ok:
  assumes ok: "procs_ok n s" and n: "n < 2 ^ 32 - 2" and al: "alive s pid"
  shows "procs_ok (Suc n) (snd (fork s pid))"
proof -
  obtain parent where parent: "bt_get (pm_map s) pid = Some parent"
    using al by (auto simp: alive_def split: option.splits)
  let ?s1 = "s\<lparr>pm_next_pid := pm_next_pid s + 1\<rparr>"
  obtain r s2 where c: "clone_page_table_cow ?s1 (pr_root parent) = (r, s2)" by fastforce
  note keep = clone_keeps [OF c, simplified]
  show ?thesis
  proof (cases r)
    case (Inl e)
    then show ?thesis using procs_ok_alloc [OF ok n, of s2] keep parent c by (simp add: fork_def alloc_pid_def)
  next
    case (Inr child_root)
    let ?f = "\<lambda>p. p\<lparr>pr_regions := map cow_region (pr_regions p)\<rparr>"
    let ?t = "table_update (pm_map s) pid ?f"
    let ?s4 = "mark_page_table_cow (s2\<lparr>pm_map := table_update (pm_map s2) pid ?f\<rparr>) (pr_root parent)"
    let ?child = "\<lparr>pr_pid = pm_next_pid s, pr_ppid = pid, pr_state = PReady, pr_root = child_root,
      pr_open_fds = pr_open_fds parent, pr_regions = map cow_region (pr_regions parent),
      pr_limits = pr_limits parent, pr_name = pr_name parent @ ''.child''\<rparr>"
    define u where "u = s\<lparr>pm_map := ?t\<rparr>"
    have u: "procs_ok n u" "alive u pid"
      using procs_ok_update [OF ok, of ?f u pid] al by (auto simp: u_def is_zombie_def)
    have u4: "pm_map ?s4 = pm_map u" "pm_next_pid ?s4 = pm_next_pid u + 1"
      using keep by (simp_all add: mark_keeps u_def)
    have fork: "fork s pid = (case table_insert (pm_map ?s4) ?child of
        Inl e \<Rightarrow> (Err e, ?s4) | Inr t \<Rightarrow> (Ok (pm_next_pid s), ?s4\<lparr>pm_map := t\<rparr>))"
      using parent c Inr by (simp add: fork_def alloc_pid_def Let_def)
    show ?thesis
    proof (cases "table_insert (pm_map ?s4) ?child")
      case (Inl e)
      then show ?thesis using procs_ok_alloc [OF u(1) n u4] fork by simp
    next
      case (Inr t)
      then show ?thesis
        using procs_ok_insert [OF u(1) n, of ?child t "?s4\<lparr>pm_map := t\<rparr>"] u u4 fork
        by (simp add: u_def is_zombie_def)
    qed
  qed
qed

subsection \<open>Exit\<close>

lemma get_in_values: "bt_get t k = Some p \<Longrightarrow> p \<in> set (map snd t)"
  by (auto simp: bt_get_def dest: map_of_SomeD intro: rev_image_eqI)

lemma values_get:
  assumes "procs_ok n s" and "p \<in> set (map snd (pm_map s))"
  shows "bt_get (pm_map s) (pr_pid p) = Some p"
proof -
  obtain k where "(k, p) \<in> set (pm_map s)" using assms(2) by auto
  then have k: "bt_get (pm_map s) k = Some p" using assms(1) by (simp add: bt_get_Some_iff procs_ok_def)
  then show ?thesis using procs_okD [OF assms(1) k] by (simp add: proc_ok_def)
qed

definition exited :: "i32 \<Rightarrow> process \<Rightarrow> process" where
  "exited code p = p\<lparr>pr_open_fds := [], pr_regions := [], pr_state := Zombie code\<rparr>"

definition reparent :: "u32 \<Rightarrow> process \<Rightarrow> process" where
  "reparent pid q = (if pr_ppid q = pid then q\<lparr>pr_ppid := 0\<rparr> else q)"

definition wake :: "process \<Rightarrow> process" where
  "wake q = (if pr_state q = PWaiting then q\<lparr>pr_state := PReady\<rparr> else q)"

definition killed :: "u32 \<Rightarrow> u32 \<Rightarrow> i32 \<Rightarrow> u32 \<Rightarrow> process \<Rightarrow> process" where
  "killed pid ppid code j q =
     (if j = pid then exited code q else if j = ppid then wake (reparent pid q) else reparent pid q)"

lemma is_zombie_upd:
  "is_zombie (exited c p)" "is_zombie (reparent k p) = is_zombie p" "is_zombie (wake p) = is_zombie p"
  by (auto simp: is_zombie_def exited_def reparent_def wake_def)

lemma killed_simps [simp]:
  "pr_pid (killed pid ppid code j q) = pr_pid q"
  "pr_ppid (killed pid ppid code j q) = (if j \<noteq> pid \<and> pr_ppid q = pid then 0 else pr_ppid q)"
  "is_zombie (killed pid ppid code j q) \<longleftrightarrow> j = pid \<or> is_zombie q"
  "pr_open_fds (killed pid ppid code j q) = (if j = pid then [] else pr_open_fds q)"
  "pr_regions (killed pid ppid code j q) = (if j = pid then [] else pr_regions q)"
  by (auto simp: killed_def is_zombie_upd) (auto simp: exited_def reparent_def wake_def)

lemma killed_other:
  "k \<noteq> pid \<Longrightarrow> killed pid ppid code k = (\<lambda>q. if k = ppid then wake (reparent pid q) else reparent pid q)"
  by (auto simp: killed_def)

text \<open>What a kill does to the table, process by process.\<close>

lemma kill_process_get:
  assumes ok: "procs_ok n s" and pid: "pid \<noteq> 0" "bt_get (pm_map s) pid = Some p"
    and k: "kill_process s pid code = (r, s')"
  shows "bt_get (pm_map s') j =
      map_option (killed pid (pr_ppid p) code j) (bt_get (pm_map s) j)"
    and "r = Ok ()" and "bt_ok (pm_map s')" and "length (pm_map s') = length (pm_map s)"
    and "pm_next_pid s' = pm_next_pid s" and "pm_fds s' = close_all (pm_fds s) (pr_open_fds p)"
proof -
  define t1 where "t1 = table_update (pm_map s) pid (exited code)"
  define os where "os = map pr_pid (filter (\<lambda>q. pr_ppid q = pid \<and> pr_pid q \<noteq> pid) (map snd t1))"
  define t2 where "t2 = foldl (\<lambda>t oid. table_update t oid (\<lambda>q. q\<lparr>pr_ppid := 0\<rparr>)) t1 os"
  have kill: "r = Ok ()" "s' = s\<lparr>pm_map := table_update t2 (pr_ppid p) wake, pm_fds := close_all (pm_fds s) (pr_open_fds p)\<rparr>"
    using k pid
    by (auto simp: kill_process_def Let_def t1_def t2_def os_def exited_def [abs_def] wake_def [abs_def])
  then show "r = Ok ()" "pm_next_pid s' = pm_next_pid s" "pm_fds s' = close_all (pm_fds s) (pr_open_fds p)" by simp_all
  have bt1: "bt_ok t1" using ok by (simp add: procs_ok_def t1_def)
  then show "bt_ok (pm_map s')" "length (pm_map s') = length (pm_map s)"
    using kill by (simp_all add: t2_def) (simp add: t1_def)
  have lt: "pr_ppid p \<noteq> pid" using procs_okD [OF ok pid(2)] pid by (auto simp: proc_ok_def)
  have t2: "bt_get t2 i = (if i \<in> set os then map_option (\<lambda>q. q\<lparr>pr_ppid := 0\<rparr>) (bt_get t1 i) else bt_get t1 i)" for i
    unfolding t2_def by (rule update_all_get) simp
  have pid_of: "pr_pid q = i" if "bt_get (pm_map s) i = Some q" for i q
    using procs_okD [OF ok that] by (simp add: proc_ok_def)
  have os_sub: "\<exists>q. bt_get (pm_map s) j = Some q \<and> pr_ppid q = pid \<and> j \<noteq> pid" if j: "j \<in> set os"
  proof -
    obtain q' where q': "q' \<in> set (map snd t1)" "pr_ppid q' = pid" "pr_pid q' \<noteq> pid" "j = pr_pid q'"
      using j by (auto simp: os_def)
    obtain i where "(i, q') \<in> set t1" using q'(1) by auto
    then have "bt_get t1 i = Some q'" using bt1 by (simp only: bt_get_Some_iff)
    then obtain q where q: "bt_get (pm_map s) i = Some q" "q' = (if i = pid then exited code q else q)"
      by (auto simp: t1_def split: if_splits)
    then show ?thesis using pid_of [OF q(1)] q' by (auto simp: exited_def split: if_splits)
  qed
  have os_sup: "j \<in> set os" if q: "bt_get (pm_map s) j = Some q" "pr_ppid q = pid" "j \<noteq> pid" for q
  proof -
    have "q \<in> set (map snd t1)" using q by (intro get_in_values [of _ j]) (simp add: t1_def)
    then show ?thesis using q pid_of [OF q(1)] by (force simp: os_def)
  qed
  show "bt_get (pm_map s') j = map_option (killed pid (pr_ppid p) code j) (bt_get (pm_map s) j)"
  proof (cases "bt_get (pm_map s) j")
    case None
    then have "bt_get t2 j = None" using pid by (auto simp: t2 t1_def)
    then show ?thesis using None by (auto simp: kill)
  next
    case (Some q)
    have "j \<in> set os \<longleftrightarrow> pr_ppid q = pid \<and> j \<noteq> pid" using os_sub os_sup Some by auto
    then have "bt_get t2 j = Some (if j = pid then exited code q else reparent pid q)"
      using Some by (auto simp: t2 t1_def reparent_def)
    then show ?thesis using Some lt by (auto simp: kill killed_def)
  qed
qed

lemma kill_process_error:
  assumes "pid = 0 \<or> bt_get (pm_map s) pid = None"
  shows "snd (kill_process s pid code) = s" and "isl (fst (kill_process s pid code))"
  using assms by (auto simp: kill_process_def)

lemma kill_process_ok:
  assumes ok: "procs_ok n s"
  shows "procs_ok n (snd (kill_process s pid code))"
proof (cases "pid = 0 \<or> bt_get (pm_map s) pid = None")
  case True
  then show ?thesis using kill_process_error [OF True] ok by simp
next
  case False
  then obtain p where p: "pid \<noteq> 0" "bt_get (pm_map s) pid = Some p" by auto
  obtain r s' where k: "kill_process s pid code = (r, s')" by fastforce
  note get = kill_process_get [OF ok p k]
  have al: "alive s' j \<longleftrightarrow> alive s j \<and> j \<noteq> pid" for j
    unfolding alive_def get(1) by (auto split: option.splits)
  show ?thesis
    unfolding k snd_conv
  proof (rule procs_ok_view [OF ok get(1) get(3,4,5)])
    show "alive s' 0" using ok p(1) al by (auto simp: procs_ok_def)
    fix j q assume q: "bt_get (pm_map s) j = Some q"
    have "alive s 0" using ok by (simp add: procs_ok_def)
    then show "pr_pid (killed pid (pr_ppid p) code j q) = pr_pid q \<and>
      (pr_ppid (killed pid (pr_ppid p) code j q) = pr_ppid q \<or> pr_ppid (killed pid (pr_ppid p) code j q) = 0) \<and>
      alive s' (pr_ppid (killed pid (pr_ppid p) code j q)) \<and>
      (is_zombie (killed pid (pr_ppid p) code j q) \<longrightarrow>
        pr_open_fds (killed pid (pr_ppid p) code j q) = [] \<and> pr_regions (killed pid (pr_ppid p) code j q) = [])"
      using procs_okD [OF ok q] p(1) by (auto simp: al proc_ok_def)
  qed
qed

subsection \<open>Wait\<close>

lemma wait_poll_cases:
  assumes ok: "procs_ok n s" and w: "wait_poll s pid = (r, s')"
  obtains (reaped) z where "bt_get (pm_map s) (pr_pid z) = Some z" "pr_ppid z = pid" "is_zombie z"
      "r = Some (Ok (pr_pid z, exit_code z))" "s' = s\<lparr>pm_map := bt_remove (pr_pid z) (pm_map s)\<rparr>"
  | (none) "\<And>k p. bt_get (pm_map s) k = Some p \<Longrightarrow> pr_ppid p \<noteq> pid" "r = Some (Err ''no children'')" "s' = s"
  | (blocked) k c where "bt_get (pm_map s) k = Some c" "pr_ppid c = pid" "r = None"
      "\<And>k p. bt_get (pm_map s) k = Some p \<Longrightarrow> pr_ppid p = pid \<Longrightarrow> \<not> is_zombie p"
      "s' = s\<lparr>pm_map := table_update (pm_map s) pid (\<lambda>p. p\<lparr>pr_state := PWaiting\<rparr>)\<rparr>"
proof (cases "find (\<lambda>p. pr_ppid p = pid \<and> is_zombie p) (map snd (pm_map s))")
  case (Some z)
  then have "z \<in> set (map snd (pm_map s))" "pr_ppid z = pid" "is_zombie z" using find_Some_in [OF Some] by auto
  then show ?thesis using reaped values_get [OF ok] w Some by (auto simp: wait_poll_def)
next
  case None
  have nz: "\<not> is_zombie p" if "bt_get (pm_map s) k = Some p" "pr_ppid p = pid" for k p
    using None that get_in_values [OF that(1)] by (auto simp: find_None_iff)
  show ?thesis
  proof (cases "list_ex (\<lambda>p. pr_ppid p = pid) (map snd (pm_map s))")
    case True
    then obtain c where "c \<in> set (map snd (pm_map s))" "pr_ppid c = pid" by (auto simp: list_ex_iff)
    then show ?thesis using blocked values_get [OF ok] nz w None True by (auto simp: wait_poll_def)
  next
    case False
    then have "pr_ppid p \<noteq> pid" if "bt_get (pm_map s) k = Some p" for k p
      using get_in_values [OF that] by (auto simp: list_ex_iff)
    then show ?thesis using none w None False by (auto simp: wait_poll_def)
  qed
qed

lemma wait_poll_ok:
  assumes ok: "procs_ok n s"
  shows "procs_ok n (snd (wait_poll s pid))"
proof -
  obtain r s' where w: "wait_poll s pid = (r, s')" by fastforce
  show ?thesis
    using ok w
  proof (cases rule: wait_poll_cases)
    case (reaped z)
    have al: "alive s' k \<longleftrightarrow> alive s k" for k
      using reaped by (auto simp: alive_def)
    have nz: "pr_pid z \<noteq> 0" using reaped ok by (auto simp: procs_ok_def alive_def)
    have "pm_next_pid s' = pm_next_pid s" using reaped(5) by simp
    then have "proc_ok s' k p" if "bt_get (pm_map s) k = Some p" for k p
      using procs_okD [OF ok that] by (simp add: proc_ok_def al)
    then show ?thesis
      using w reaped ok nz al length_bt_remove [of "pr_pid z" "pm_map s"] by (simp add: procs_ok_def)
  next
    case none
    then show ?thesis using w ok by simp
  next
    case (blocked k c)
    then show ?thesis
      using w procs_ok_update(1) [OF ok, of "\<lambda>p. p\<lparr>pr_state := PWaiting\<rparr>" s' pid] by (simp add: is_zombie_def)
  qed
qed

lemma set_limits_ok: "procs_ok n s \<Longrightarrow> procs_ok n (snd (set_limits s pid limits))"
  using procs_ok_update(1) [of n s "\<lambda>p. p\<lparr>pr_limits := limits\<rparr>" _ pid]
  by (auto simp: set_limits_def is_zombie_def split: option.splits)

subsection \<open>Reachable states\<close>

text \<open>
  The states after boot, with the number of PIDs taken. New processes are created and forked by
  living parents; descriptors and frames may change freely in between.
\<close>

inductive proc_reach :: "nat \<Rightarrow> proc_mgr \<Rightarrow> bool" where
  boot: "pm_map s = [] \<Longrightarrow> pm_next_pid s = 1 \<Longrightarrow> proc_init s = Some s' \<Longrightarrow> proc_reach 0 s'"
| create: "proc_reach n s \<Longrightarrow> alive s ppid \<Longrightarrow> proc_reach (Suc n) (snd (create_process s ppid root regions name))"
| fork: "proc_reach n s \<Longrightarrow> alive s pid \<Longrightarrow> proc_reach (Suc n) (snd (fork s pid))"
| kill: "proc_reach n s \<Longrightarrow> proc_reach n (snd (kill_process s pid code))"
| wait: "proc_reach n s \<Longrightarrow> proc_reach n (snd (wait_poll s pid))"
| limits: "proc_reach n s \<Longrightarrow> proc_reach n (snd (set_limits s pid l))"
| others: "proc_reach n s \<Longrightarrow> proc_reach n (s\<lparr>pm_memory := m, pm_tables := tbl, pm_fds := fds\<rparr>)"

lemma proc_reach_ok: "proc_reach n s \<Longrightarrow> n < 2 ^ 32 - 1 \<Longrightarrow> procs_ok n s"
proof (induction rule: proc_reach.induct)
  case (boot s s')
  then have "pm_map s' = [(0, kernel_process)] \<and> pm_next_pid s' = 1"
    by (auto simp: proc_init_def table_insert_def PM_MAX_PROCESSES_def kernel_process_def)
  then show ?case
    by (simp add: procs_ok_def proc_ok_def alive_def bt_get_def bt_ok_def kernel_process_def is_zombie_def PM_MAX_PROCESSES_def)
next
  case (others n s m tbl fds)
  then show ?case by (simp add: procs_ok_def proc_ok_def alive_def)
qed (simp_all add: create_process_ok fork_ok kill_process_ok wait_poll_ok set_limits_ok)

text \<open>
  The processes form a tree under the kernel: in every state reached from boot by creating,
  forking, killing, waiting and changing limits, as long as the PID counter has not wrapped and
  only living processes are parents, the table has at most 128 entries under their own PIDs, all
  given out before, the kernel is alive, every process has a living parent whose PID is smaller
  than its own (the kernel is its own), and a process that exited holds no descriptors or memory.
\<close>

lemma process_tree:
  assumes "proc_reach n s" and "n < 2 ^ 32 - 1"
  shows "length (pm_map s) \<le> 128 \<and> alive s 0 \<and>
    (\<forall>k p. bt_get (pm_map s) k = Some p \<longrightarrow>
       pr_pid p = k \<and> k < pm_next_pid s \<and> alive s (pr_ppid p) \<and> (if k = 0 then pr_ppid p = 0 else pr_ppid p < k) \<and>
       (is_zombie p \<longrightarrow> pr_open_fds p = [] \<and> pr_regions p = []))"
  using proc_reach_ok [OF assms] by (auto simp: procs_ok_def proc_ok_def PM_MAX_PROCESSES_def)

definition boot_procs :: proc_mgr where
  "boot_procs = \<lparr>pm_map = [(0, kernel_process)], pm_next_pid = 1, pm_memory = sample_mem,
     pm_tables = (\<lambda>_. replicate 512 7), pm_fds = FD_TABLE_init\<rparr>"

definition sh_process :: process where
  "sh_process = \<lparr>pr_pid = 1, pr_ppid = 0, pr_state = PReady, pr_root = 0x100000, pr_open_fds = [],
     pr_regions = [], pr_limits = default_limits, pr_name = ''sh''\<rparr>"

definition sample_procs :: proc_mgr where
  "sample_procs = boot_procs\<lparr>pm_map := [(0, kernel_process), (1, sh_process)], pm_next_pid := 2\<rparr>"

lemma sample_create: "create_process boot_procs 0 0x100000 [] ''sh'' = (Ok 1, sample_procs)"
  by (simp add: create_process_def alloc_pid_def table_insert_def boot_procs_def sample_procs_def sh_process_def
      PM_MAX_PROCESSES_def bt_get_def)

lemma sample_reach: "proc_reach 1 sample_procs"
proof -
  have "proc_reach 0 boot_procs"
    by (rule proc_reach.boot [where s = "boot_procs\<lparr>pm_map := []\<rparr>"])
      (simp_all add: boot_procs_def proc_init_def table_insert_def PM_MAX_PROCESSES_def kernel_process_def)
  moreover have "alive boot_procs 0"
    by (simp add: alive_def boot_procs_def bt_get_def kernel_process_def is_zombie_def)
  ultimately show ?thesis
    using proc_reach.create [where s = boot_procs and n = 0 and ppid = 0 and root = "0x100000" and regions = "[]" and name = "''sh''"]
      sample_create by simp
qed

lemma sample_get:
  "bt_get (pm_map sample_procs) k = (if k = 0 then Some kernel_process else if k = 1 then Some sh_process else None)"
  by (simp add: sample_procs_def bt_get_def)

lemma process_tree_instance:
  "length (pm_map sample_procs) \<le> 128 \<and> alive sample_procs 0 \<and> bt_get (pm_map sample_procs) 1 = Some sh_process \<and>
   1 < pm_next_pid sample_procs \<and> alive sample_procs (pr_ppid sh_process) \<and> pr_ppid sh_process < 1"
proof -
  have g: "bt_get (pm_map sample_procs) 1 = Some sh_process" by (simp add: sample_get)
  have "(1 :: nat) < 2 ^ 32 - 1" by simp
  from process_tree [OF sample_reach this]
  have "length (pm_map sample_procs) \<le> 128 \<and> alive sample_procs 0 \<and>
      (\<forall>k p. bt_get (pm_map sample_procs) k = Some p \<longrightarrow> k < pm_next_pid sample_procs \<and> alive sample_procs (pr_ppid p) \<and>
         (k \<noteq> 0 \<longrightarrow> pr_ppid p < k))" by auto
  then show ?thesis using g by (metis one_neq_zero)
qed

section \<open>Fork\<close>

lemma bit_cow_entry:
  "bit (cow_entry e) b = (if bit e 0 \<and> b = 1 then False else if bit e 0 \<and> b = 9 then True else bit e b)"
proof -
  have one: "e AND 1 \<noteq> 0 \<longleftrightarrow> bit e 0" by (simp add: and_one_eq bit_0 odd_iff_mod_2_eq_one)
  have len: "bit e b \<Longrightarrow> b < 64" using bit_imp_le_length [of e b] by simp
  have "bit ((e AND NOT (push_bit 1 1)) OR push_bit 9 1) b \<longleftrightarrow> b = 9 \<or> bit e b \<and> b \<noteq> 1"
    unfolding bit_or_iff bit_and_iff bit_not_iff bit_push_bit_iff bit_1_iff using len by auto
  then show ?thesis using one unfolding cow_entry_def COW_FLAG_def by (cases "bit e 0") auto
qed

lemma nth_mark_user_half:
  "length tbl = 512 \<Longrightarrow> i < 512 \<Longrightarrow> mark_user_half tbl ! i = (if i < 256 then cow_entry (tbl ! i) else tbl ! i)"
  by (simp add: mark_user_half_def nth_append)

lemma next_pid_fresh: "procs_ok n s \<Longrightarrow> bt_get (pm_map s) (pm_next_pid s) = None"
  using procs_okD [of n s "pm_next_pid s"] by (cases "bt_get (pm_map s) (pm_next_pid s)") (auto simp: proc_ok_def)

definition forked :: "u32 \<Rightarrow> nat \<Rightarrow> process \<Rightarrow> process" where
  "forked child root p = \<lparr>pr_pid = child, pr_ppid = pr_pid p, pr_state = PReady, pr_root = root,
     pr_open_fds = pr_open_fds p, pr_regions = map cow_region (pr_regions p), pr_limits = pr_limits p,
     pr_name = pr_name p @ ''.child''\<rparr>"

lemma fork_eq:
  assumes ok: "procs_ok n s" and p: "bt_get (pm_map s) pid = Some p"
    and rest: "mem_rest (pm_memory s) = f # fs" and room: "length (pm_map s) < PM_MAX_PROCESSES"
  shows "fst (fork s pid) = Ok (pm_next_pid s)"
    and "bt_get (pm_map (snd (fork s pid))) k =
      (if k = pm_next_pid s then Some (forked k f p)
       else if k = pid then Some (p\<lparr>pr_regions := map cow_region (pr_regions p)\<rparr>) else bt_get (pm_map s) k)"
    and "pm_tables (snd (fork s pid)) r =
      (if r = pr_root p \<and> r \<noteq> 0 then mark_user_half (((pm_tables s)(f := mark_user_half (pm_tables s r))) r)
       else if r = f then mark_user_half (pm_tables s (pr_root p)) else pm_tables s r)"
    and "mem_rest (pm_memory (snd (fork s pid))) = fs" and "pm_fds (snd (fork s pid)) = pm_fds s"
proof -
  obtain m where m: "alloc_frame (pm_memory s) = (Some f, m)" "mem_rest m = fs"
    using frames.alloc_next [OF rest] by (cases "alloc_frame (pm_memory s)") auto
  have pid: "pr_pid p = pid" using procs_okD [OF ok p] by (simp add: proc_ok_def)
  have fresh: "bt_get (pm_map s) (pm_next_pid s) = None" by (rule next_pid_fresh [OF ok])
  then have ne: "pid \<noteq> pm_next_pid s" using p by auto
  let ?t = "table_update (pm_map s) pid (\<lambda>p. p\<lparr>pr_regions := map cow_region (pr_regions p)\<rparr>)"
  have ins: "table_insert ?t (forked (pm_next_pid s) f p) = Ok (bt_insert (pm_next_pid s) (forked (pm_next_pid s) f p) ?t)"
    using room fresh ne by (simp add: table_insert_def forked_def)
  have bt: "bt_ok ?t" using ok by (simp add: procs_ok_def)
  let ?s4 = "mark_page_table_cow (s\<lparr>pm_next_pid := pm_next_pid s + 1, pm_memory := m,
      pm_tables := (pm_tables s)(f := mark_user_half (pm_tables s (pr_root p))), pm_map := ?t\<rparr>) (pr_root p)"
  have fork: "fork s pid = (Ok (pm_next_pid s), ?s4\<lparr>pm_map := bt_insert (pm_next_pid s) (forked (pm_next_pid s) f p) ?t\<rparr>)"
    using p m ins pid
    by (simp add: fork_def alloc_pid_def clone_page_table_cow_def Let_def mark_keeps forked_def)
  show "fst (fork s pid) = Ok (pm_next_pid s)" by (simp add: fork)
  show "bt_get (pm_map (snd (fork s pid))) k =
      (if k = pm_next_pid s then Some (forked k f p)
       else if k = pid then Some (p\<lparr>pr_regions := map cow_region (pr_regions p)\<rparr>) else bt_get (pm_map s) k)"
    using bt p by (simp add: fork)
  show "pm_tables (snd (fork s pid)) r =
      (if r = pr_root p \<and> r \<noteq> 0 then mark_user_half (((pm_tables s)(f := mark_user_half (pm_tables s r))) r)
       else if r = f then mark_user_half (pm_tables s (pr_root p)) else pm_tables s r)"
    by (auto simp: fork mark_page_table_cow_def)
  show "mem_rest (pm_memory (snd (fork s pid))) = fs" "pm_fds (snd (fork s pid)) = pm_fds s"
    using m(2) by (simp_all add: fork mark_page_table_cow_def)
qed

text \<open>
  Fork copies a process: the call fails exactly when the parent does not exist, no frame is
  left or the table is full; otherwise the child gets the next PID, which no process has, the
  descriptors, limits and regions of its parent, and a page table in a fresh frame. In both page
  tables the user half is as the parent's was, except that the entries in use have lost the write
  permission and carry the copy-on-write mark; the kernel half is the same, and no other process
  or page table changes.
\<close>

lemma fork_cow:
  assumes reach: "proc_reach n s" "n < 2 ^ 32 - 1" and p: "bt_get (pm_map s) pid = Some p"
    and tbl: "length (pm_tables s (pr_root p)) = 512" "pr_root p \<noteq> 0"
    and rest: "mem_rest (pm_memory s) = f # fs" "f \<noteq> pr_root p" and room: "length (pm_map s) < 128"
    and fork: "fork s pid = (r, s')"
  shows "r = Ok (pm_next_pid s) \<and> bt_get (pm_map s) (pm_next_pid s) = None \<and>
    (\<forall>k. bt_get (pm_map s') k =
      (if k = pm_next_pid s then Some (forked k f p)
       else if k = pid then Some (p\<lparr>pr_regions := map cow_region (pr_regions p)\<rparr>) else bt_get (pm_map s) k)) \<and>
    (\<forall>i < 512. \<forall>b. let e = pm_tables s (pr_root p) ! i in
       bit (pm_tables s' f ! i) b =
         (if i < 256 \<and> bit e 0 \<and> b = 1 then False else if i < 256 \<and> bit e 0 \<and> b = 9 then True else bit e b) \<and>
       pm_tables s' (pr_root p) ! i = pm_tables s' f ! i) \<and>
    (\<forall>q. q \<noteq> f \<and> q \<noteq> pr_root p \<longrightarrow> pm_tables s' q = pm_tables s q)"
proof -
  have ok: "procs_ok n s" by (rule proc_reach_ok [OF reach])
  note eq = fork_eq [OF ok p rest(1), unfolded fork fst_conv snd_conv PM_MAX_PROCESSES_def, OF room]
  show ?thesis
    unfolding eq(1) eq(2) using eq(3) next_pid_fresh [OF ok] tbl rest(2)
    by (auto simp: nth_mark_user_half bit_cow_entry Let_def)
qed

lemma sample_rest: "mem_rest (pm_memory sample_procs) = [4096, 16384, 20480]"
proof -
  have "usable_frames sample_map = [4096, 16384, 20480]"
    by (simp add: usable_frames_def sample_map_def region_frames.simps rg_size_def containing_address_def)
  then show ?thesis
    by (simp add: sample_procs_def boot_procs_def sample_mem_def mem_rest_def memory_init_def remaining_init)
qed

lemma fork_cow_instance:
  "fst (fork sample_procs 1) = Ok 2 \<and>
   bt_get (pm_map (snd (fork sample_procs 1))) 2 = Some (forked 2 4096 sh_process) \<and>
   bit (pm_tables (snd (fork sample_procs 1)) 4096 ! 0) 9 = True \<and>
   bit (pm_tables (snd (fork sample_procs 1)) 4096 ! 0) 1 = False"
proof -
  have t: "pm_tables sample_procs r = replicate 512 7" for r by (simp add: sample_procs_def boot_procs_def)
  have p: "bt_get (pm_map sample_procs) 1 = Some sh_process" by (simp add: sample_get)
  have nx: "pm_next_pid sample_procs = 2" "length (pm_map sample_procs) = 2" by (simp_all add: sample_procs_def)
  have b: "bit (7 :: u64) 0" by simp
  obtain r s' where f: "fork sample_procs 1 = (r, s')" by fastforce
  have root: "pr_root sh_process = 0x100000" by (simp add: sh_process_def)
  from fork_cow [OF sample_reach _ p _ _ sample_rest _ _ f] nx t root
  have "r = Ok 2 \<and> bt_get (pm_map s') 2 = Some (forked 2 4096 sh_process) \<and>
      (\<forall>b. bit (pm_tables s' 4096 ! 0) b = (if b = 1 then False else if b = 9 then True else bit (7 :: u64) b))"
    by (auto simp: b)
  then show ?thesis by (simp add: f)
qed

text \<open>
  The child inherits the numbers of its parent's descriptors in the one table of the kernel, and
  nothing counts the references: when the child is killed, the parent's descriptors are closed.
\<close>

lemma child_exit_closes_parent_fds:
  assumes ok: "procs_ok n s" and n: "n < 2 ^ 32 - 2" and p: "bt_get (pm_map s) pid = Some p" "\<not> is_zombie p"
    and rest: "mem_rest (pm_memory s) = f # fs" and room: "length (pm_map s) < PM_MAX_PROCESSES"
    and k: "kill_process (snd (fork s pid)) (pm_next_pid s) code = (r, s')"
  shows "pm_fds s' = close_all (pm_fds s) (pr_open_fds p)"
    and "map_option pr_open_fds (bt_get (pm_map s') pid) = Some (pr_open_fds p)"
proof -
  note f = fork_eq [OF ok p(1) rest room]
  have ok1: "procs_ok (Suc n) (snd (fork s pid))" using fork_ok [OF ok n] p by (simp add: alive_def)
  have nz: "pm_next_pid s \<noteq> 0" using ok by (auto simp: procs_ok_def)
  have ne: "pid \<noteq> pm_next_pid s" using next_pid_fresh [OF ok] p(1) by auto
  note g = kill_process_get [OF ok1 nz _ k, unfolded f(2), simplified]
  show "pm_fds s' = close_all (pm_fds s) (pr_open_fds p)" using g(6) f(5) by (simp add: forked_def)
  show "map_option pr_open_fds (bt_get (pm_map s') pid) = Some (pr_open_fds p)"
    using g(1) [where j = pid] ne by (simp add: forked_def)
qed

section \<open>Exit and wait\<close>

text \<open>
  A child that exits is reaped once, with its exit code: killing a process turns it into a
  zombie and closes its descriptors, wakes a waiting parent and gives its children to the kernel;
  the parent's next wait returns exactly that child and code and removes it, and nothing else in
  the table changes.
\<close>

lemma kill_then_wait:
  assumes reach: "proc_reach n s" "n < 2 ^ 32 - 1" and p: "pid \<noteq> 0" "bt_get (pm_map s) pid = Some p"
    and others: "\<forall>k q. bt_get (pm_map s) k = Some q \<and> (pr_ppid q = pr_ppid p \<or> pr_ppid q = pid) \<longrightarrow> \<not> is_zombie q"
    and kill: "kill_process s pid code = (r, s1)" and wait: "wait_poll s1 (pr_ppid p) = (w, s2)"
  shows "r = Ok () \<and> w = Some (Ok (pid, code)) \<and> pm_fds s2 = close_all (pm_fds s) (pr_open_fds p) \<and>
    (\<forall>k. bt_get (pm_map s2) k =
       (if k = pid then None
        else map_option (\<lambda>q. if k = pr_ppid p then wake (reparent pid q) else reparent pid q) (bt_get (pm_map s) k)))"
proof -
  have ok: "procs_ok n s" by (rule proc_reach_ok [OF reach])
  have ok1: "procs_ok n s1" using kill_process_ok [OF ok, of pid code] kill by simp
  note get = kill_process_get [OF ok p kill]
  have lt: "pr_ppid p \<noteq> pid" using procs_okD [OF ok p(2)] p by (auto simp: proc_ok_def)
  have z: "bt_get (pm_map s1) pid = Some (exited code p)" using get(1) [of pid] p by (simp add: killed_def)
  have only: "pr_pid q = pid" if zb: "bt_get (pm_map s1) (pr_pid q) = Some q" "pr_ppid q = pr_ppid p" "is_zombie q" for q
  proof (rule ccontr)
    assume ne: "pr_pid q \<noteq> pid"
    define k where "k = pr_pid q"
    have "map_option (killed pid (pr_ppid p) code k) (bt_get (pm_map s) k) = Some q" using zb(1) get(1) [of k] by (simp add: k_def)
    then obtain z where zq: "bt_get (pm_map s) k = Some z" "killed pid (pr_ppid p) code k z = q" by auto
    have "k \<noteq> pid" using ne by (simp add: k_def)
    then have "is_zombie z" "pr_ppid z = pr_ppid p \<or> pr_ppid z = pid"
      using zb(2,3) unfolding zq(2) [symmetric] by (auto split: if_splits)
    then show False using others zq(1) by blast
  qed
  show ?thesis
    using ok1 wait
  proof (cases rule: wait_poll_cases)
    case (reaped q)
    have "pr_pid q = pid" using only reaped by blast
    then have "q = exited code p" using reaped z by simp
    then show ?thesis
      using reaped get \<open>pr_pid q = pid\<close>
      by (auto simp: exit_code_def exited_def killed_other)
  next
    case none
    then show ?thesis using none(1) [OF z] by (simp add: exited_def)
  next
    case (blocked k c)
    then show ?thesis using blocked(4) [OF z] by (simp add: exited_def is_zombie_def)
  qed
qed

text \<open>The loop returns as soon as a child has exited when it looks.\<close>

lemma wait_returns:
  assumes "\<exists>z \<in> set (map snd (pm_map (foldl (\<lambda>s others. others (snd (wait_poll s pid))) s es))). pr_ppid z = pid \<and> is_zombie z"
  shows "fst (wait (es @ es') s pid) \<noteq> None"
  using assms
proof (induction es arbitrary: s)
  case Nil
  then have "find (\<lambda>p. pr_ppid p = pid \<and> is_zombie p) (map snd (pm_map s)) \<noteq> None" by (auto simp: find_None_iff)
  then have "fst (wait_poll s pid) \<noteq> None" by (auto simp: wait_poll_def)
  then show ?case by (cases es') (auto split: prod.splits option.splits)
next
  case (Cons e es)
  obtain r s1 where w: "wait_poll s pid = (r, s1)" by fastforce
  then show ?case using Cons.IH [of "e s1"] Cons.prems by (cases r) simp_all
qed

lemma kill_then_wait_instance:
  "fst (kill_process sample_procs 1 7) = Ok () \<and>
   fst (wait_poll (snd (kill_process sample_procs 1 7)) 0) = Some (Ok (1, 7)) \<and>
   bt_get (pm_map (snd (wait_poll (snd (kill_process sample_procs 1 7)) 0))) 1 = None"
proof -
  have z: "\<forall>k q. bt_get (pm_map sample_procs) k = Some q \<and> (pr_ppid q = pr_ppid sh_process \<or> pr_ppid q = 1) \<longrightarrow> \<not> is_zombie q"
    by (simp add: sample_get kernel_process_def sh_process_def is_zombie_def)
  have p: "bt_get (pm_map sample_procs) 1 = Some sh_process" by (simp add: sample_get)
  from kill_then_wait [OF sample_reach _ _ p z surjective_pairing surjective_pairing, of 7]
  show ?thesis by (simp add: sh_process_def)
qed

text \<open>
  The kernel is its own parent, so \<^verbatim>\<open>wait(0)\<close> never finds that it has no children: without one
  that exited it waits for ever.
\<close>

lemma wait_kernel_never_empty:
  assumes "procs_ok n s"
  shows "fst (wait_poll s 0) \<noteq> Some (Err ''no children'')"
proof -
  obtain p where p: "bt_get (pm_map s) 0 = Some p" "pr_ppid p = 0"
    using assms by (auto simp: procs_ok_def alive_def split: option.splits)
  obtain r s' where w: "wait_poll s 0 = (r, s')" by fastforce
  have "r \<noteq> Some (Err ''no children'')"
    using assms w p by (cases rule: wait_poll_cases) auto
  then show ?thesis by (simp add: w)
qed

text \<open>
  \<^verbatim>\<open>fork\<close> does not look at the state of the parent: a process that has exited can be forked, and
  when it is reaped its child is left with a parent that does not exist.
\<close>

lemma zombie_fork_orphans:
  "\<exists>s1 s2 s3. kill_process sample_procs 1 0 = (Ok (), s1) \<and> fork s1 1 = (Ok 2, s2) \<and>
     wait_poll s2 0 = (Some (Ok (1, 0)), s3) \<and> map_option pr_ppid (bt_get (pm_map s3) 2) = Some 1 \<and>
     bt_get (pm_map s3) 1 = None"
proof -
  let ?s1 = "sample_procs\<lparr>pm_map := [(0, kernel_process), (1, exited 0 sh_process)]\<rparr>"
  have k: "kill_process sample_procs 1 0 = (Ok (), ?s1)"
    by (simp add: kill_process_def bt_get_def Let_def close_all_def sample_procs_def boot_procs_def table_update_def
        exited_def sh_process_def kernel_process_def)
  obtain m where m: "alloc_frame (pm_memory sample_procs) = (Some 4096, m)"
    using frames.alloc_next [of "pm_memory sample_procs" 4096] sample_rest by (cases "alloc_frame (pm_memory sample_procs)") auto
  let ?child = "forked 2 4096 (exited 0 sh_process)"
  obtain s2 where f: "fork ?s1 1 = (Ok 2, s2)"
      "pm_map s2 = [(0, kernel_process), (1, exited 0 sh_process), (2, ?child)]"
    using m by (auto simp: fork_def alloc_pid_def clone_page_table_cow_def mark_page_table_cow_def Let_def bt_get_def
        table_update_def table_insert_def PM_MAX_PROCESSES_def sample_procs_def exited_def sh_process_def forked_def)
  have w: "wait_poll s2 0 = (Some (Ok (1, 0)), s2\<lparr>pm_map := [(0, kernel_process), (2, ?child)]\<rparr>)"
    by (simp add: wait_poll_def f(2) kernel_process_def exited_def sh_process_def is_zombie_def exit_code_def bt_remove_def forked_def)
  show ?thesis using k f(1) w by (auto simp: bt_get_def forked_def exited_def sh_process_def)
qed

end
