(* ===== verification/Compress.thy ===== *)
theory Compress
  imports Prelude
begin

text \<open>
  The LZ77 compressor of \<^verbatim>\<open>compress.rs\<close>: the sliding-window search, the tokeniser, the
  binary token format (blocks of eight tokens behind a flags byte) and the two top-level
  functions. Positions are \<open>nat\<close>, token fields keep their 16 bits. A panic (the subtraction
  in \<^verbatim>\<open>encode_tokens\<close>, an index out of range in \<^verbatim>\<open>decompress\<close>) is the value \<open>None\<close>.
\<close>

section \<open>Constants and tokens\<close>

definition WINDOW_SIZE :: usize where "WINDOW_SIZE = 4096"
definition MIN_MATCH_LEN :: usize where "MIN_MATCH_LEN = 3"
definition MAX_MATCH_LEN :: usize where "MAX_MATCH_LEN = 258"

lemmas lz_consts = WINDOW_SIZE_def MIN_MATCH_LEN_def MAX_MATCH_LEN_def

datatype Token = Literal u8 | Match (offset: u16) (match_length: u16)

section \<open>Tokenising\<close>

text \<open>The inner loop of the search: how far the bytes at \<open>candidate\<close> and \<open>pos\<close> agree.\<close>

function match_run :: "u8 list \<Rightarrow> usize \<Rightarrow> usize \<Rightarrow> usize \<Rightarrow> usize \<Rightarrow> usize" where
  "match_run data candidate pos max_len len =
     (if len < max_len \<and> data ! (candidate + len) = data ! (pos + len)
      then match_run data candidate pos max_len (len + 1) else len)"
  by pat_completeness auto
termination by (relation "measure (\<lambda>(data, candidate, pos, max_len, len). max_len - len)") auto

declare match_run.simps [simp del]

function search_window :: "u8 list \<Rightarrow> usize \<Rightarrow> usize \<Rightarrow> usize \<Rightarrow> u16 \<Rightarrow> u16 \<Rightarrow> u16 \<times> u16" where
  "search_window data pos max_len candidate best_offset best_length =
     (if candidate < pos then
        (let len = match_run data candidate pos max_len 0
         in if len \<ge> MIN_MATCH_LEN \<and> of_nat len > best_length
            then (if len = max_len then (of_nat (pos - candidate), of_nat len)
                  else search_window data pos max_len (candidate + 1) (of_nat (pos - candidate)) (of_nat len))
            else search_window data pos max_len (candidate + 1) best_offset best_length)
      else (best_offset, best_length))"
  by pat_completeness auto
termination by (relation "measure (\<lambda>(data, pos, max_len, candidate, bo, bl). pos - candidate)") auto

declare search_window.simps [simp del]

definition find_longest_match :: "u8 list \<Rightarrow> usize \<Rightarrow> u16 \<times> u16" where
  "find_longest_match data pos =
     (let window_start = (if pos \<ge> WINDOW_SIZE then pos - WINDOW_SIZE else 0);
          remaining = length data - pos;
          max_len = (if remaining < MAX_MATCH_LEN then remaining else MAX_MATCH_LEN)
      in search_window data pos max_len window_start 0 0)"

text \<open>
  The loop of \<^verbatim>\<open>tokenise\<close> from a position on. It terminates because a match is taken only
  when it is at least three bytes long.
\<close>

function tokenise_from :: "u8 list \<Rightarrow> usize \<Rightarrow> Token list" where
  "tokenise_from data pos =
     (if pos < length data then
        (let (off, len) = find_longest_match data pos
         in if len \<ge> of_nat MIN_MATCH_LEN
            then Match off len # tokenise_from data (pos + unat len)
            else Literal (data ! pos) # tokenise_from data (pos + 1))
      else [])"
  by pat_completeness auto
termination
  by (relation "measure (\<lambda>(data, pos). length data - pos)")
     (auto simp: MIN_MATCH_LEN_def word_le_nat_alt)

declare tokenise_from.simps [simp del]

definition tokenise :: "u8 list \<Rightarrow> Token list" where
  "tokenise data = tokenise_from data 0"

section \<open>The binary format\<close>

fun is_match :: "Token \<Rightarrow> bool" where
  "is_match (Literal b) = False"
| "is_match (Match off len) = True"

definition block_flags :: "Token list \<Rightarrow> u8" where
  "block_flags block =
     foldl (\<lambda>flags bit. if is_match (block ! bit) then flags OR push_bit bit 1 else flags)
       0 [0..<length block]"

fun emit_token :: "Token \<Rightarrow> u8 list option" where
  "emit_token (Literal b) = Some [b]"
| "emit_token (Match off len) =
     (if len < of_nat MIN_MATCH_LEN then None
      else Some [ucast off, ucast (drop_bit 8 off), ucast (len - of_nat MIN_MATCH_LEN)])"

fun emit_payload :: "Token list \<Rightarrow> u8 list option" where
  "emit_payload [] = Some []"
| "emit_payload (t # ts) =
     (case emit_token t of
        None \<Rightarrow> None
      | Some p \<Rightarrow> map_option (\<lambda>ps. p @ ps) (emit_payload ts))"

function encode_tokens :: "Token list \<Rightarrow> u8 list option" where
  "encode_tokens tokens =
     (if tokens = [] then Some []
      else case emit_payload (take 8 tokens) of
             None \<Rightarrow> None
           | Some p \<Rightarrow> map_option (\<lambda>out. block_flags (take 8 tokens) # p @ out) (encode_tokens (drop 8 tokens)))"
  by pat_completeness auto
termination by (relation "measure length") auto

declare encode_tokens.simps [simp del]

text \<open>
  One block of \<^verbatim>\<open>decode_tokens\<close>: the loop over the bits of the flags byte, with its two
  ways out early.
\<close>

fun decode_block :: "u8 list \<Rightarrow> u8 \<Rightarrow> nat list \<Rightarrow> usize \<Rightarrow> usize \<times> Token list" where
  "decode_block data flags [] pos = (pos, [])"
| "decode_block data flags (i # bits) pos =
     (if pos \<ge> length data then (pos, [])
      else if flags AND push_bit i 1 \<noteq> 0 then
        (if pos + 2 \<ge> length data then (pos, [])
         else let off = ucast (data ! pos) OR push_bit 8 (ucast (data ! (pos + 1)));
                  len = ucast (data ! (pos + 2)) + of_nat MIN_MATCH_LEN;
                  (pos', ts) = decode_block data flags bits (pos + 3)
              in (pos', Match off len # ts))
      else let (pos', ts) = decode_block data flags bits (pos + 1)
           in (pos', Literal (data ! pos) # ts))"

lemma decode_block_pos: "pos \<le> fst (decode_block data flags bits pos)"
proof (induction bits arbitrary: pos)
  case (Cons i bits)
  have "pos \<le> fst (decode_block data flags bits (pos + k))" for k
    using Cons.IH [of "pos + k"] by simp
  from this [of 1] this [of 3] show ?case by (simp add: case_prod_unfold Let_def)
qed simp

function decode_from :: "u8 list \<Rightarrow> usize \<Rightarrow> Token list" where
  "decode_from data pos =
     (if pos < length data then
        (let (pos', ts) = decode_block data (data ! pos) [0..<8] (pos + 1)
         in ts @ decode_from data pos')
      else [])"
  by pat_completeness auto
termination
proof (relation "measure (\<lambda>(data, pos). length data - pos)", goal_cases)
  case (2 data pos p pos' ts)
  then have "Suc pos \<le> pos'" by (metis decode_block_pos fst_conv Suc_eq_plus1)
  with 2 show ?case by auto
qed simp

declare decode_from.simps [simp del]

definition decode_tokens :: "u8 list \<Rightarrow> Token list" where
  "decode_tokens data = decode_from data 0"

section \<open>Compressing and decompressing\<close>

definition compress :: "u8 list \<Rightarrow> u8 list option" where
  "compress data = encode_tokens (tokenise data)"

definition usize_wrapping_sub :: "usize \<Rightarrow> usize \<Rightarrow> usize" where
  "usize_wrapping_sub a b = (if b \<le> a then a - b else 2 ^ 64 + a - b)"

text \<open>The byte-by-byte copy of a back-reference; a read past the end of the output panics.\<close>

fun copy_bytes :: "usize \<Rightarrow> nat list \<Rightarrow> u8 list \<Rightarrow> u8 list option" where
  "copy_bytes start [] out = Some out"
| "copy_bytes start (i # is) out =
     (if start + i < length out then copy_bytes start is (out @ [out ! (start + i)]) else None)"

fun replay :: "Token list \<Rightarrow> u8 list \<Rightarrow> u8 list option" where
  "replay [] out = Some out"
| "replay (Literal b # ts) out = replay ts (out @ [b])"
| "replay (Match off len # ts) out =
     (case copy_bytes (usize_wrapping_sub (length out) (unat off)) [0..<unat len] out of
        None \<Rightarrow> None
      | Some out' \<Rightarrow> replay ts out')"

definition decompress :: "u8 list \<Rightarrow> u8 list option" where
  "decompress data = replay (decode_tokens data) []"

section \<open>The search finds the longest match of the window\<close>

text \<open>Where two positions agree for \<open>len\<close> bytes.\<close>

definition agrees :: "u8 list \<Rightarrow> usize \<Rightarrow> usize \<Rightarrow> usize \<Rightarrow> bool" where
  "agrees data candidate pos len \<longleftrightarrow> (\<forall>i < len. data ! (candidate + i) = data ! (pos + i))"

lemma match_run_spec:
  assumes "len \<le> max_len" "agrees data c pos len"
  shows "match_run data c pos max_len len \<le> max_len
    \<and> agrees data c pos (match_run data c pos max_len len)
    \<and> (\<forall>l \<le> max_len. agrees data c pos l \<longrightarrow> l \<le> match_run data c pos max_len len)"
  using assms
proof (induction data c pos max_len len rule: match_run.induct)
  case (1 data c pos max_len len)
  show ?case
  proof (cases "len < max_len \<and> data ! (c + len) = data ! (pos + len)")
    case True
    then have "agrees data c pos (len + 1)"
      using 1(3) by (auto simp: agrees_def less_Suc_eq)
    then show ?thesis using True 1 by (subst (1 2 3) match_run.simps) simp
  next
    case False
    then have "l \<le> len" if "l \<le> max_len" "agrees data c pos l" for l
      using that by (metis agrees_def leI order_less_le_trans)
    moreover have "match_run data c pos max_len len = len"
      using False by (subst match_run.simps) auto
    ultimately show ?thesis using 1(2, 3) by simp
  qed
qed

lemma match_run_0:
  shows "match_run data c pos max_len 0 \<le> max_len"
    and "agrees data c pos (match_run data c pos max_len 0)"
    and "l \<le> max_len \<Longrightarrow> agrees data c pos l \<Longrightarrow> l \<le> match_run data c pos max_len 0"
  using match_run_spec [of 0 max_len data c pos] by (auto simp: agrees_def)

text \<open>A result of the search: nothing, or a real match inside the window.\<close>

definition match_ok :: "u8 list \<Rightarrow> usize \<Rightarrow> usize \<Rightarrow> u16 \<times> u16 \<Rightarrow> bool" where
  "match_ok data pos max_len m \<longleftrightarrow>
     (case m of (off, len) \<Rightarrow>
        off = 0 \<and> len = 0
        \<or> 0 < unat off \<and> unat off \<le> pos \<and> unat off \<le> WINDOW_SIZE
          \<and> MIN_MATCH_LEN \<le> unat len \<and> unat len \<le> max_len
          \<and> agrees data (pos - unat off) pos (unat len))"

lemma unat_u16 [simp]: "n \<le> 4096 \<Longrightarrow> unat (of_nat n :: u16) = n"
  by (simp add: unat_of_nat)

lemma new_match_ok:
  assumes "c < pos" "pos - c \<le> WINDOW_SIZE" "max_len \<le> MAX_MATCH_LEN"
    and "MIN_MATCH_LEN \<le> match_run data c pos max_len 0"
  shows "match_ok data pos max_len (of_nat (pos - c), of_nat (match_run data c pos max_len 0))"
proof -
  obtain d where d: "pos = c + d" "0 < d" "d \<le> 4096"
    using assms by (metis WINDOW_SIZE_def add_diff_inverse_nat less_imp_le not_less zero_less_diff)
  with assms match_run_0(1, 2) [of data c pos max_len] show ?thesis
    by (simp add: match_ok_def lz_consts)
qed

lemma search_window_ok:
  assumes "pos - c \<le> WINDOW_SIZE" "max_len \<le> MAX_MATCH_LEN" "match_ok data pos max_len (bo, bl)"
  shows "match_ok data pos max_len (search_window data pos max_len c bo bl)"
  using assms
proof (induction data pos max_len c bo bl rule: search_window.induct)
  case (1 data pos max_len c bo bl)
  show ?case
    using 1 new_match_ok [of c pos max_len data]
    by (subst search_window.simps) (auto simp: Let_def)
qed

lemma search_window_longest:
  assumes "max_len \<le> MAX_MATCH_LEN"
    and "\<And>c' l. w \<le> c' \<Longrightarrow> c' < c \<Longrightarrow> MIN_MATCH_LEN \<le> l \<Longrightarrow> l \<le> max_len
           \<Longrightarrow> agrees data c' pos l \<Longrightarrow> l \<le> unat bl"
    and "w \<le> c'" "c' < pos" "MIN_MATCH_LEN \<le> l" "l \<le> max_len" "agrees data c' pos l"
  shows "l \<le> unat (snd (search_window data pos max_len c bo bl))"
  using assms
proof (induction data pos max_len c bo bl rule: search_window.induct)
  case (1 data pos max_len c bo bl)
  define r where "r = match_run data c pos max_len 0"
  have r: "r \<le> max_len" "unat (of_nat r :: u16) = r"
    using match_run_0(1) [of data c pos max_len] "1.prems"(1) by (auto simp: r_def lz_consts)
  have rmax: "m \<le> r" if "m \<le> max_len" "agrees data c pos m" for m
    using match_run_0(3) that unfolding r_def .
  consider "\<not> c < pos" | "c < pos" "MIN_MATCH_LEN \<le> r" "of_nat r > bl" "r = max_len"
    | "c < pos" "MIN_MATCH_LEN \<le> r" "of_nat r > bl" "r \<noteq> max_len"
    | "c < pos" "\<not> (MIN_MATCH_LEN \<le> r \<and> of_nat r > bl)" by blast
  then show ?case
  proof cases
    case 1
    with "1.prems" show ?thesis by (subst search_window.simps) auto
  next
    case 2
    with r "1.prems"(6) show ?thesis by (subst search_window.simps) (simp add: r_def)
  next
    case 3
    have bl: "unat bl < r" using 3(3) r(2) by (metis word_less_nat_alt)
    have "l \<le> unat (snd (search_window data pos max_len (c + 1) (of_nat (pos - c)) (of_nat r)))"
    proof (rule "1.IH"(1) [OF 3(1) r_def _ _ "1.prems"(1) _ "1.prems"(3-7)])
      fix d m
      assume d: "w \<le> d" "d < c + 1" "MIN_MATCH_LEN \<le> m" "m \<le> max_len" "agrees data d pos m"
      then show "m \<le> unat (of_nat r :: u16)"
        using "1.prems"(2) [of d m] rmax bl r(2) by (cases "d = c") auto
    qed (use 3 in auto)
    with 3 show ?thesis by (subst search_window.simps) (simp add: r_def)
  next
    case 4
    have bl: "r \<le> unat bl" if "MIN_MATCH_LEN \<le> r"
      using 4(2) r(2) that by (metis word_less_nat_alt not_le)
    have "l \<le> unat (snd (search_window data pos max_len (c + 1) bo bl))"
    proof (rule "1.IH"(2) [OF 4(1) r_def _ "1.prems"(1) _ "1.prems"(3-7)])
      fix d m
      assume d: "w \<le> d" "d < c + 1" "MIN_MATCH_LEN \<le> m" "m \<le> max_len" "agrees data d pos m"
      then show "m \<le> unat bl"
        using "1.prems"(2) [of d m] rmax [of m] bl by (cases "d = c") auto
    qed (use 4 in auto)
    with 4 show ?thesis by (subst search_window.simps) (auto simp: r_def Let_def)
  qed
qed

lemma find_longest_match_ok:
  "match_ok data pos (length data - pos) (find_longest_match data pos)"
  "unat (snd (find_longest_match data pos)) \<le> MAX_MATCH_LEN"
proof -
  let ?m = "min (length data - pos) MAX_MATCH_LEN"
  have fm: "find_longest_match data pos =
      search_window data pos ?m (if pos \<ge> WINDOW_SIZE then pos - WINDOW_SIZE else 0) 0 0"
    by (simp add: find_longest_match_def min_def Let_def)
  have "match_ok data pos ?m (find_longest_match data pos)"
    unfolding fm by (rule search_window_ok) (auto simp: match_ok_def)
  then show "match_ok data pos (length data - pos) (find_longest_match data pos)"
    "unat (snd (find_longest_match data pos)) \<le> MAX_MATCH_LEN"
    by (auto simp: match_ok_def)
qed

lemma find_longest_match_longest:
  assumes "c < pos" "pos \<le> c + WINDOW_SIZE" "MIN_MATCH_LEN \<le> l" "l \<le> MAX_MATCH_LEN"
    and "pos + l \<le> length data" "agrees data c pos l"
  shows "l \<le> unat (snd (find_longest_match data pos))"
  unfolding find_longest_match_def Let_def
  by (rule search_window_longest [where w = "pos - WINDOW_SIZE" and c' = c])
     (use assms in \<open>auto split: if_splits\<close>)

section \<open>The format reads back what it writes\<close>

definition token_ok :: "Token \<Rightarrow> bool" where
  "token_ok t \<longleftrightarrow>
     (case t of Literal b \<Rightarrow> True
      | Match off len \<Rightarrow> MIN_MATCH_LEN \<le> unat len \<and> unat len \<le> MAX_MATCH_LEN)"

fun payload_len :: "Token \<Rightarrow> nat" where
  "payload_len (Literal b) = 1"
| "payload_len (Match off len) = 3"

lemma u16_bytes: "ucast (ucast w :: u8) OR push_bit 8 (ucast (ucast (drop_bit 8 w) :: u8)) = (w :: u16)"
  by (rule bit_word_eqI) (auto simp: bit_simps not_less)

lemma u16_len_byte:
  assumes "3 \<le> unat len" "unat len \<le> 258"
  shows "ucast (ucast (len - 3) :: u8) + 3 = (len :: u16)"
proof -
  have "unat (len - 3) = unat len - 3"
    using assms by (simp add: unat_sub word_le_nat_alt)
  then have "unat (len - 3) < 256" using assms by simp
  then have "ucast (ucast (len - 3) :: u8) = len - 3"
    by (simp add: word_unat_eq_iff unsigned_ucast_eq take_bit_eq_mod unat_mod)
  then show ?thesis by simp
qed

lemma block_flags_upto:
  "k \<le> length block \<Longrightarrow>
   bit (foldl (\<lambda>flags bit. if is_match (block ! bit) then flags OR push_bit bit 1 else flags)
       (0 :: u8) [0..<k]) i \<longleftrightarrow> i < 8 \<and> i < k \<and> is_match (block ! i)"
  by (induction k) (auto simp: bit_simps less_Suc_eq)

lemma bit_block_flags: "bit (block_flags block) i \<longleftrightarrow> i < 8 \<and> i < length block \<and> is_match (block ! i)"
  by (simp add: block_flags_def block_flags_upto)

lemma flag_test: "i < 8 \<Longrightarrow> flags AND push_bit i 1 \<noteq> (0 :: u8) \<longleftrightarrow> bit flags i"
  by (metis and_exp_eq_0_iff_not_bit mult_1 push_bit_eq_mult)

lemma emit_payload_length: "emit_payload ts = Some p \<Longrightarrow> length p = sum_list (map payload_len ts)"
proof (induction ts arbitrary: p)
  case (Cons t ts)
  then show ?case by (cases t) (auto split: if_splits)
qed simp

lemma emit_payload_total: "list_all token_ok ts \<Longrightarrow> \<exists>p. emit_payload ts = Some p"
proof (induction ts)
  case (Cons t ts)
  then show ?case
    by (cases t) (auto simp: token_ok_def lz_consts word_less_nat_alt)
qed simp

lemma drop_cons_nth: "drop pos data = x # xs \<Longrightarrow> pos < length data \<and> data ! pos = x \<and> drop (Suc pos) data = xs"
  by (cases "pos < length data") (auto simp: Cons_nth_drop_Suc [symmetric])

lemma decode_block_payload:
  assumes "emit_payload ts = Some p" "drop pos data = p @ rest"
    and "\<And>i. i < length ts \<Longrightarrow> bit flags (b + i) \<longleftrightarrow> is_match (ts ! i)"
    and "list_all token_ok ts" "b + length ts \<le> 8" "b + length ts = 8 \<or> rest = []"
  shows "decode_block data flags [b..<8] pos = (pos + length p, ts)"
  using assms
proof (induction ts arbitrary: p pos b)
  case Nil
  then have "b = 8 \<or> pos \<ge> length data" by auto
  then show ?case using Nil by (cases "b < 8") (auto simp: upt_conv_Cons)
next
  case (Cons t ts)
  have b: "b < 8" "[b..<8] = b # [Suc b..<8]" using Cons.prems(5) by (auto simp: upt_conv_Cons)
  have flag: "flags AND push_bit b 1 \<noteq> 0 \<longleftrightarrow> is_match t"
    using Cons.prems(3) [of 0] flag_test [OF b(1)] by simp
  have flags: "bit flags (Suc b + i) \<longleftrightarrow> is_match (ts ! i)" if "i < length ts" for i
    using Cons.prems(3) [of "Suc i"] that by simp
  note IH = Cons.IH [where b = "Suc b", OF _ _ flags]
  show ?case
  proof (cases t)
    case (Literal x)
    then obtain q where q: "emit_payload ts = Some q" "p = x # q" using Cons.prems(1) by auto
    have d: "pos < length data" "data ! pos = x" "drop (Suc pos) data = q @ rest"
      using drop_cons_nth [of pos data x "q @ rest"] Cons.prems(2) q by auto
    show ?thesis
      using IH [OF q(1) d(3)] Cons.prems d q flag Literal by (simp add: b(2))
  next
    case (Match off len)
    have len: "3 \<le> unat len" "unat len \<le> 258"
      using Cons.prems(4) Match by (auto simp: token_ok_def lz_consts)
    then obtain q where q: "emit_payload ts = Some q"
        "p = ucast off # ucast (drop_bit 8 off) # ucast (len - 3) # q"
      using Cons.prems(1) Match by (auto simp: lz_consts split: if_splits)
    note d1 = drop_cons_nth [OF Cons.prems(2) [unfolded q(2) append_Cons]]
    note d2 = drop_cons_nth [OF d1 [THEN conjunct2, THEN conjunct2]]
    note d3 = drop_cons_nth [OF d2 [THEN conjunct2, THEN conjunct2]]
    have "decode_block data flags [Suc b..<8] (pos + 3) = (pos + 3 + length q, ts)"
      by (rule IH [OF q(1)]) (use d3 Cons.prems in \<open>auto simp: eval_nat_numeral\<close>)
    then show ?thesis
      using d1 d2 d3 flag Match q(2) u16_bytes [of off] u16_len_byte [OF len]
      by (simp add: b(2) MIN_MATCH_LEN_def)
  qed
qed

lemma encode_Nil: "encode_tokens [] = Some []"
  by (subst encode_tokens.simps) simp

lemma decode_encode_from:
  assumes "encode_tokens ts = Some bs" "list_all token_ok ts" "drop pos data = bs"
  shows "decode_from data pos = ts"
  using assms
proof (induction ts arbitrary: bs pos rule: encode_tokens.induct)
  case (1 ts)
  show ?case
  proof (cases "ts = []")
    case True
    then have "bs = []" using 1(2) by (simp add: encode_Nil)
    with 1(4) True show ?thesis by (subst decode_from.simps) simp
  next
    case False
    obtain p out where p: "emit_payload (take 8 ts) = Some p" "encode_tokens (drop 8 ts) = Some out"
        "bs = block_flags (take 8 ts) # p @ out"
      using 1(2) False by (subst (asm) encode_tokens.simps) (auto split: option.splits)
    have d: "pos < length data" "data ! pos = block_flags (take 8 ts)" "drop (Suc pos) data = p @ out"
      using drop_cons_nth [OF 1(4) [unfolded p(3)]] by simp_all
    have ok: "list_all token_ok (take 8 ts)" "list_all token_ok (drop 8 ts)"
      using 1(3) by (auto simp: list_all_iff dest: in_set_takeD in_set_dropD)
    have out: "length (take 8 ts) = 8 \<or> out = []"
      using p(2) by (cases "8 \<le> length ts") (auto simp: encode_Nil)
    have "decode_block data (data ! pos) [0..<8] (Suc pos) = (Suc pos + length p, take 8 ts)"
      by (rule decode_block_payload [OF p(1) d(3)]) (use ok out d(2) in \<open>auto simp: bit_block_flags\<close>)
    moreover have "drop (Suc pos + length p) data = out"
      using arg_cong [OF d(3), of "drop (length p)"] by (simp add: add.commute)
    then have "decode_from data (Suc pos + length p) = drop 8 ts"
      using "1.IH" [OF False p(1, 2) ok(2)] by simp
    ultimately show ?thesis
      using d(1) by (subst decode_from.simps) simp
  qed
qed

section \<open>Compression loses nothing\<close>

lemma copy_bytes_data:
  assumes "start + l \<le> length data" "start < pos" "pos + l \<le> length data"
    and "agrees data start pos l" "k \<le> l"
  shows "copy_bytes start [k..<l] (take (pos + k) data) = Some (take (pos + l) data)"
  using assms(5)
proof (induction "l - k" arbitrary: k)
  case 0
  then show ?case by simp
next
  case (Suc n)
  then have k: "k < l" by simp
  have "take (pos + k) data ! (start + k) = data ! (pos + k)"
    using assms k by (simp add: agrees_def)
  then have "take (pos + k) data @ [take (pos + k) data ! (start + k)] = take (pos + Suc k) data"
    using assms(3) k by (simp add: take_Suc_conv_app_nth)
  moreover have "start + k < length (take (pos + k) data)" using assms k by simp
  moreover have "copy_bytes start [Suc k..<l] (take (pos + Suc k) data) = Some (take (pos + l) data)"
    by (rule Suc.hyps(1)) (use Suc.hyps(2) k in auto)
  ultimately show ?case using k by (simp add: upt_conv_Cons del: append_take_drop_id)
qed

lemma tokenise_from_Match:
  assumes "find_longest_match data pos = (off, len)" "len \<ge> of_nat MIN_MATCH_LEN"
  shows "0 < unat off" "unat off \<le> pos" "3 \<le> unat len" "unat len \<le> 258" "pos \<le> length data \<Longrightarrow> pos + unat len \<le> length data"
    and "agrees data (pos - unat off) pos (unat len)"
  using find_longest_match_ok [of data pos] assms
  by (auto simp: match_ok_def lz_consts word_le_nat_alt)

lemma tokenise_from_ok: "list_all token_ok (tokenise_from data pos)"
proof (induction data pos rule: tokenise_from.induct)
  case (1 data pos)
  obtain off len where m: "find_longest_match data pos = (off, len)" by fastforce
  have token: "token_ok (Match off len)" if "len \<ge> of_nat MIN_MATCH_LEN"
    using tokenise_from_Match(3, 4) [OF m that] by (simp add: token_ok_def lz_consts)
  show ?case
    using 1 m token by (subst tokenise_from.simps) (auto simp: token_ok_def [of "Literal _"])
qed

lemma replay_tokenise: "pos \<le> length data \<Longrightarrow> replay (tokenise_from data pos) (take pos data) = Some data"
proof (induction data pos rule: tokenise_from.induct)
  case (1 data pos)
  obtain off len where m: "find_longest_match data pos = (off, len)" by fastforce
  consider "\<not> pos < length data" | "pos < length data" "len \<ge> of_nat MIN_MATCH_LEN"
    | "pos < length data" "\<not> len \<ge> of_nat MIN_MATCH_LEN" by blast
  then show ?case
  proof cases
    case 1
    with "1.prems" show ?thesis by (subst tokenise_from.simps) simp
  next
    case 2
    note ok = tokenise_from_Match [OF m 2(2)]
    have bound: "pos + unat len \<le> length data" using ok(5) "1.prems" by simp
    have "copy_bytes (pos - unat off) [0..<unat len] (take pos data) = Some (take (pos + unat len) data)"
      using copy_bytes_data [of "pos - unat off" "unat len" data pos 0] ok bound by simp
    then show ?thesis
      using "1.IH"(1) [OF 2(1) m [symmetric] refl 2(2) bound] ok(2) 2 m "1.prems"
      by (subst tokenise_from.simps) (simp add: usize_wrapping_sub_def)
  next
    case 3
    then show ?thesis
      using "1.IH"(2) [OF 3(1) m [symmetric] refl 3(2)] m
      by (subst tokenise_from.simps) (simp add: take_Suc_conv_app_nth)
  qed
qed

lemma encode_tokens_total:
  assumes "list_all token_ok ts"
  shows "\<exists>bs. encode_tokens ts = Some bs
    \<and> length bs = (length ts + 7) div 8 + sum_list (map payload_len ts)"
  using assms
proof (induction ts rule: encode_tokens.induct)
  case (1 ts)
  show ?case
  proof (cases "ts = []")
    case True
    then show ?thesis by (simp add: encode_Nil)
  next
    case False
    have ok: "list_all token_ok (take 8 ts)" "list_all token_ok (drop 8 ts)"
      using 1(2) by (auto simp: list_all_iff dest: in_set_takeD in_set_dropD)
    obtain p where p: "emit_payload (take 8 ts) = Some p" using emit_payload_total ok(1) by blast
    with "1.IH" [OF False p ok(2)] obtain out where out: "encode_tokens (drop 8 ts) = Some out"
      "length out = (length (drop 8 ts) + 7) div 8 + sum_list (map payload_len (drop 8 ts))" by blast
    have "sum_list (map payload_len (take 8 ts)) + sum_list (map payload_len (drop 8 ts))
        = sum_list (map payload_len ts)"
      by (metis append_take_drop_id map_append sum_list_append)
    moreover have "1 + (length ts - 8 + 7) div 8 = (length ts + 7) div 8"
      using False by (cases "length ts \<le> 8") (auto simp: Suc_le_eq neq_Nil_conv)
    ultimately show ?thesis
      using False p out emit_payload_length [OF p] by (subst encode_tokens.simps) simp
  qed
qed

lemma tokenise_from_size:
  "pos \<le> length data \<Longrightarrow>
   length (tokenise_from data pos) \<le> length data - pos
   \<and> sum_list (map payload_len (tokenise_from data pos)) \<le> length data - pos"
proof (induction data pos rule: tokenise_from.induct)
  case (1 data pos)
  obtain off len where m: "find_longest_match data pos = (off, len)" by fastforce
  show ?case
  proof (cases "pos < length data \<and> len \<ge> of_nat MIN_MATCH_LEN")
    case True
    note ok = tokenise_from_Match [OF m]
    have bound: "pos + unat len \<le> length data" using ok(5) True "1.prems" by simp
    then show ?thesis
      using "1.IH"(1) [OF _ m [symmetric] refl _ bound] True m ok(3)
      by (subst (1 2) tokenise_from.simps) auto
  next
    case False
    then show ?thesis
      using "1.IH"(2) [OF _ m [symmetric] refl] m
      by (subst (1 2) tokenise_from.simps) auto
  qed
qed

text \<open>
  C20. Compressing never panics and loses nothing: every byte string is compressed to a stream
  that \<^verbatim>\<open>decompress\<close> expands, without an index out of range, to the very same bytes. The
  stream is at most one flags byte per eight input bytes longer than the input.
\<close>

theorem compress_roundtrip:
  "\<exists>c. compress data = Some c \<and> decompress c = Some data
     \<and> length c \<le> length data + (length data + 7) div 8"
proof -
  let ?ts = "tokenise_from data 0"
  obtain c where c: "encode_tokens ?ts = Some c"
      "length c = (length ?ts + 7) div 8 + sum_list (map payload_len ?ts)"
    using encode_tokens_total [OF tokenise_from_ok] by blast
  have "length c \<le> length data + (length data + 7) div 8"
    using tokenise_from_size [of 0 data] c(2)
      div_le_mono [of "length ?ts + 7" "length data + 7" 8] by simp
  moreover have "decompress c = Some data"
    using decode_encode_from [OF c(1) tokenise_from_ok, of 0 c] replay_tokenise [of 0 data]
    by (simp add: decompress_def decode_tokens_def)
  ultimately show ?thesis using c(1) by (auto simp: compress_def tokenise_def)
qed

end
