(* ===== verification/Encoding.thy ===== *)
theory Encoding
  imports Rust_Str
begin

text \<open>
  The codecs and checksums of \<^verbatim>\<open>encoding.rs\<close>: base64, hexadecimal and percent encoding with
  their decoders' errors, the table-driven CRC-32 and the 64-bit FNV-1a hash.
\<close>

section \<open>Decoding results\<close>

datatype DecodeError = InvalidByte u8 | InvalidLength | InvalidPercentEncoding | InvalidUtf8

type_synonym 'a decode_result = "DecodeError + 'a"

text \<open>\<^verbatim>\<open>slice::chunks\<close>, for a positive size.\<close>

function chunks :: "usize \<Rightarrow> 'a list \<Rightarrow> 'a list list" where
  "chunks n xs = (if xs = [] \<or> n = 0 then [] else take n xs # chunks n (drop n xs))"
  by pat_completeness auto
termination by (relation "measure (length \<circ> snd)") auto

declare chunks.simps [simp del]

text \<open>A loop over chunks whose body may return early with an error.\<close>

fun try_concat :: "('a \<Rightarrow> 'e + 'b list) \<Rightarrow> 'a list \<Rightarrow> 'e + 'b list" where
  "try_concat f [] = Inr []"
| "try_concat f (x # xs) =
     (case f x of
        Inl e \<Rightarrow> Inl e
      | Inr y \<Rightarrow> (case try_concat f xs of Inl e \<Rightarrow> Inl e | Inr ys \<Rightarrow> Inr (y @ ys)))"

section \<open>Base64\<close>

definition B64_CHARS :: str where
  "B64_CHARS = ''ABCDEFGHIJKLMNOPQRSTUVWXYZabcdefghijklmnopqrstuvwxyz0123456789+/''"

definition b64_decode_char :: "u8 \<Rightarrow> u8 decode_result" where
  "b64_decode_char c =
     (if 65 \<le> c \<and> c \<le> 90 then Inr (c - 65)
      else if 97 \<le> c \<and> c \<le> 122 then Inr (c - 97 + 26)
      else if 48 \<le> c \<and> c \<le> 57 then Inr (c - 48 + 52)
      else if c = 43 then Inr 62
      else if c = 47 then Inr 63
      else Inl (InvalidByte c))"

definition b64_char :: "u32 \<Rightarrow> char" where
  "b64_char v = B64_CHARS ! unat (v AND 0x3F)"

definition b64_encode_chunk :: "u8 list \<Rightarrow> str" where
  "b64_encode_chunk chunk =
     (let b0 = ucast (chunk ! 0);
          b1 = (if length chunk > 1 then ucast (chunk ! 1) else 0);
          b2 = (if length chunk > 2 then ucast (chunk ! 2) else 0);
          triple = push_bit 16 b0 OR push_bit 8 b1 OR b2
      in [b64_char (drop_bit 18 triple), b64_char (drop_bit 12 triple),
          if length chunk > 1 then b64_char (drop_bit 6 triple) else CHR ''='',
          if length chunk > 2 then b64_char triple else CHR ''=''])"

definition base64_encode :: "u8 list \<Rightarrow> str" where
  "base64_encode data = concat (map b64_encode_chunk (chunks 3 data))"

definition b64_decode_chunk :: "u8 list \<Rightarrow> u8 list decode_result" where
  "b64_decode_chunk chunk =
     (let pad = (if chunk ! 2 = 61 then 1 else 0) + (if chunk ! 3 = 61 then 1 else 0 :: nat)
      in case b64_decode_char (chunk ! 0) of Inl e \<Rightarrow> Inl e | Inr v0 \<Rightarrow>
        (case b64_decode_char (chunk ! 1) of Inl e \<Rightarrow> Inl e | Inr v1 \<Rightarrow>
        (case if chunk ! 2 \<noteq> 61 then b64_decode_char (chunk ! 2) else Inr 0 of Inl e \<Rightarrow> Inl e | Inr v2 \<Rightarrow>
        (case if chunk ! 3 \<noteq> 61 then b64_decode_char (chunk ! 3) else Inr 0 of Inl e \<Rightarrow> Inl e | Inr v3 \<Rightarrow>
          (let triple = push_bit 18 (ucast v0) OR push_bit 12 (ucast v1) OR push_bit 6 (ucast v2) OR ucast v3 :: u32
           in Inr ([ucast (drop_bit 16 triple)]
                   @ (if pad < 2 then [ucast (drop_bit 8 triple)] else [])
                   @ (if pad = 0 then [ucast triple] else [])))))))"

definition base64_decode :: "str \<Rightarrow> u8 list decode_result" where
  "base64_decode s =
     (let input = as_bytes s
      in if input = [] then Inr []
         else if length input mod 4 \<noteq> 0 then Inl InvalidLength
         else try_concat b64_decode_chunk (chunks 4 input))"

section \<open>Hexadecimal\<close>

definition HEX_LOWER :: str where
  "HEX_LOWER = ''0123456789abcdef''"

definition hex_encode :: "u8 list \<Rightarrow> str" where
  "hex_encode data =
     concat (map (\<lambda>b. [HEX_LOWER ! unat (drop_bit 4 b), HEX_LOWER ! unat (b AND 0x0F)]) data)"

definition hex_val :: "u8 \<Rightarrow> u8 decode_result" where
  "hex_val c =
     (if 48 \<le> c \<and> c \<le> 57 then Inr (c - 48)
      else if 97 \<le> c \<and> c \<le> 102 then Inr (c - 97 + 10)
      else if 65 \<le> c \<and> c \<le> 70 then Inr (c - 65 + 10)
      else Inl (InvalidByte c))"

definition hex_pair :: "u8 \<Rightarrow> u8 \<Rightarrow> u8 decode_result" where
  "hex_pair h l =
     (case hex_val h of Inl e \<Rightarrow> Inl e | Inr hi \<Rightarrow>
        (case hex_val l of Inl e \<Rightarrow> Inl e | Inr lo \<Rightarrow> Inr (push_bit 4 hi OR lo)))"

definition hex_decode :: "str \<Rightarrow> u8 list decode_result" where
  "hex_decode s =
     (let bytes = as_bytes s
      in if length bytes mod 2 \<noteq> 0 then Inl InvalidLength
         else try_concat (\<lambda>pair. map_sum (\<lambda>e. e) (\<lambda>b. [b]) (hex_pair (pair ! 0) (pair ! 1))) (chunks 2 bytes))"

section \<open>Percent encoding\<close>

definition is_url_unreserved :: "u8 \<Rightarrow> bool" where
  "is_url_unreserved b \<longleftrightarrow>
     48 \<le> b \<and> b \<le> 57 \<or> 65 \<le> b \<and> b \<le> 90 \<or> 97 \<le> b \<and> b \<le> 122
     \<or> b = 45 \<or> b = 95 \<or> b = 46 \<or> b = 126"

definition to_ascii_uppercase :: "char \<Rightarrow> char" where
  "to_ascii_uppercase c =
     (let n = of_char c :: nat in if 97 \<le> n \<and> n \<le> 122 then char_of (n - 32) else c)"

definition url_encode_byte :: "u8 \<Rightarrow> str" where
  "url_encode_byte b =
     (if is_url_unreserved b then [char_of (unat b)]
      else [CHR ''%'', to_ascii_uppercase (HEX_LOWER ! unat (drop_bit 4 b)),
            to_ascii_uppercase (HEX_LOWER ! unat (b AND 0x0F))])"

definition url_encode :: "str \<Rightarrow> str" where
  "url_encode s = concat (map url_encode_byte (as_bytes s))"

text \<open>The loop of \<^verbatim>\<open>url_decode\<close> from a position on, as the bytes still to be read.\<close>

fun url_decode_bytes :: "u8 list \<Rightarrow> u8 list decode_result" where
  "url_decode_bytes [] = Inr []"
| "url_decode_bytes (b # rest) =
     (if b = 37 then
        (case rest of
           h # l # rest' \<Rightarrow>
             (case hex_val h of Inl _ \<Rightarrow> Inl InvalidPercentEncoding | Inr hi \<Rightarrow>
               (case hex_val l of Inl _ \<Rightarrow> Inl InvalidPercentEncoding | Inr lo \<Rightarrow>
                 map_sum (\<lambda>e. e) (\<lambda>out. (push_bit 4 hi OR lo) # out) (url_decode_bytes rest')))
         | _ \<Rightarrow> Inl InvalidPercentEncoding)
      else if b = 43 then map_sum (\<lambda>e. e) (\<lambda>out. 32 # out) (url_decode_bytes rest)
      else map_sum (\<lambda>e. e) (\<lambda>out. b # out) (url_decode_bytes rest))"

definition url_decode :: "str \<Rightarrow> str decode_result" where
  "url_decode s =
     (case url_decode_bytes (as_bytes s) of
        Inl e \<Rightarrow> Inl e
      | Inr out \<Rightarrow> (case from_utf8 out of None \<Rightarrow> Inl InvalidUtf8 | Some t \<Rightarrow> Inr t))"

section \<open>Checksums\<close>

definition crc_shift :: "u32 \<Rightarrow> u32" where
  "crc_shift crc = (if crc AND 1 \<noteq> 0 then drop_bit 1 crc XOR 0xEDB88320 else drop_bit 1 crc)"

definition CRC32_TABLE :: "u32 list" where
  "CRC32_TABLE = map (\<lambda>i. (crc_shift ^^ 8) (of_nat i)) [0..<256]"

definition crc32 :: "u8 list \<Rightarrow> u32" where
  "crc32 data =
     foldl (\<lambda>crc byte. drop_bit 8 crc XOR CRC32_TABLE ! unat ((crc XOR ucast byte) AND 0xFF))
       0xFFFFFFFF data XOR 0xFFFFFFFF"

definition FNV1A_64_OFFSET :: u64 where "FNV1A_64_OFFSET = 0xcbf29ce484222325"
definition FNV1A_64_PRIME :: u64 where "FNV1A_64_PRIME = 0x00000100000001B3"

definition fnv1a_64 :: "u8 list \<Rightarrow> u64" where
  "fnv1a_64 data = foldl (\<lambda>hash byte. (hash XOR ucast byte) * FNV1A_64_PRIME) FNV1A_64_OFFSET data"

section \<open>Reading back hexadecimal\<close>

lemma chunks_append [simp]:
  "0 < n \<Longrightarrow> length c = n \<Longrightarrow> chunks n (c @ xs) = c # chunks n xs"
  by (subst chunks.simps) auto

lemma chunks_Nil [simp]: "chunks n [] = []"
  by (subst chunks.simps) simp

lemma hex_digit_val:
  "n < 16 \<Longrightarrow> hex_val (of_char (HEX_LOWER ! n)) = Inr (of_nat n)"
  "n < 16 \<Longrightarrow> hex_val (of_char (to_ascii_uppercase (HEX_LOWER ! n))) = Inr (of_nat n)"
proof -
  have "list_all (\<lambda>n. hex_val (of_char (HEX_LOWER ! n)) = Inr (of_nat n)
      \<and> hex_val (of_char (to_ascii_uppercase (HEX_LOWER ! n))) = Inr (of_nat n)) [0..<16]"
    by code_simp
  then show "n < 16 \<Longrightarrow> hex_val (of_char (HEX_LOWER ! n)) = Inr (of_nat n)"
    "n < 16 \<Longrightarrow> hex_val (of_char (to_ascii_uppercase (HEX_LOWER ! n))) = Inr (of_nat n)"
    by (auto simp: list_all_iff)
qed

lemma nibbles:
  "unat (drop_bit 4 b) < 16" "unat (b AND 0x0F) < 16"
  "push_bit 4 (drop_bit 4 b) OR (b AND 0x0F) = (b :: u8)"
proof -
  have m: "(0x0F :: u8) = mask 4" by (simp add: mask_eq_exp_minus_1)
  show "unat (drop_bit 4 b) < 16"
    using unsigned_less [of b, where 'a = nat] by (simp add: drop_bit_eq_div unat_div)
  show "unat (b AND 0x0F) < 16"
    using word_and_le1 [of b "0x0F"] by (simp add: word_le_nat_alt)
  show "push_bit 4 (drop_bit 4 b) OR (b AND 0x0F) = b"
    unfolding m by (rule bit_word_eqI) (auto simp: bit_simps)
qed

lemma try_concat_hex:
  "try_concat (\<lambda>pair. map_sum (\<lambda>e. e) (\<lambda>b. [b]) (hex_pair (pair ! 0) (pair ! 1)))
     (chunks 2 (as_bytes (hex_encode data))) = Inr data"
proof (induction data)
  case Nil
  then show ?case by (simp add: hex_encode_def)
next
  case (Cons b data)
  have "as_bytes (hex_encode (b # data)) =
      [of_char (HEX_LOWER ! unat (drop_bit 4 b)), of_char (HEX_LOWER ! unat (b AND 0x0F))]
      @ as_bytes (hex_encode data)"
    by (simp add: hex_encode_def)
  then show ?case using Cons nibbles [of b] by (simp add: hex_pair_def hex_digit_val del: append_Cons)
qed

lemma hex_encode_length: "length (hex_encode data) = 2 * length data"
  by (induction data) (auto simp: hex_encode_def)

text \<open>The error of \<^verbatim>\<open>hex_decode\<close> names the input's first byte that is no hex digit.\<close>

lemma chunks_pairs: "chunks 2 (x # y # xs) = [x, y] # chunks 2 xs"
  using chunks_append [of 2 "[x, y]" xs] by simp

lemma hex_val_error: "hex_val c = Inl e \<Longrightarrow> e = InvalidByte c"
  by (auto simp: hex_val_def split: if_splits)

lemma try_concat_hex_cases:
  assumes "even (length bs)"
  shows "try_concat (\<lambda>pair. map_sum (\<lambda>e. e) (\<lambda>b. [b]) (hex_pair (pair ! 0) (pair ! 1))) (chunks 2 bs) =
    (case find (\<lambda>b. isl (hex_val b)) bs of
       Some c \<Rightarrow> Inl (InvalidByte c)
     | None \<Rightarrow> Inr (map (\<lambda>p. push_bit 4 (projr (hex_val (p ! 0))) OR projr (hex_val (p ! 1))) (chunks 2 bs)))"
  using assms
proof (induction bs rule: induct_list012)
  case (3 x y bs)
  then show ?case
    by (auto simp: chunks_pairs hex_pair_def split: sum.splits option.splits dest: hex_val_error)
qed auto

section \<open>Reading back base64\<close>

lemma b64_digit:
  assumes "n < 64"
  shows "b64_decode_char (of_char (B64_CHARS ! n)) = Inr (of_nat n)"
    and "(of_char (B64_CHARS ! n) :: u8) \<noteq> 61"
proof -
  have "list_all (\<lambda>n. b64_decode_char (of_char (B64_CHARS ! n)) = Inr (of_nat n)
      \<and> (of_char (B64_CHARS ! n) :: u8) \<noteq> 61) [0..<64]"
    by code_simp
  with assms show "b64_decode_char (of_char (B64_CHARS ! n)) = Inr (of_nat n)"
    "(of_char (B64_CHARS ! n) :: u8) \<noteq> 61"
    by (auto simp: list_all_iff)
qed

lemma mask6: "(0x3F :: u32) = mask 6"
  by (simp add: mask_eq_exp_minus_1)

lemma b64_char_decode:
  "b64_decode_char (of_char (b64_char v)) = Inr (ucast (v AND 0x3F))"
  "(of_char (b64_char v) :: u8) \<noteq> 61"
proof -
  have "unat (v AND 0x3F) < 64"
    using word_and_le1 [of v "0x3F"] by (simp add: word_le_nat_alt)
  from b64_digit [OF this]
  show "b64_decode_char (of_char (b64_char v)) = Inr (ucast (v AND 0x3F))"
    "(of_char (b64_char v) :: u8) \<noteq> 61"
    by (simp_all add: b64_char_def unsigned_ucast_eq)
qed

definition sextet :: "nat \<Rightarrow> u32 \<Rightarrow> u32" where
  "sextet k t = ucast (ucast (drop_bit k t AND 0x3F) :: u8)"

lemma bit_sextet: "bit (sextet k t) i \<longleftrightarrow> i < 6 \<and> bit t (k + i)"
  unfolding sextet_def mask6 by (auto simp: bit_simps)

lemma sextets:
  "push_bit 18 (sextet 18 t) OR push_bit 12 (sextet 12 t) OR push_bit 6 (sextet 6 t) OR sextet 0 t
     = take_bit 24 t"
proof (rule bit_word_eqI)
  fix n :: nat
  assume "n < LENGTH(32)"
  consider "n < 6" | "6 \<le> n" "n < 12" | "12 \<le> n" "n < 18" | "18 \<le> n" by linarith
  then show "bit (push_bit 18 (sextet 18 t) OR push_bit 12 (sextet 12 t) OR push_bit 6 (sextet 6 t) OR sextet 0 t) n
      = bit (take_bit 24 t) n"
    by cases (use \<open>n < LENGTH(32)\<close> in \<open>auto simp: bit_sextet bit_simps\<close>)
qed

lemma sextets_padded:
  "take_bit 6 t = 0 \<Longrightarrow> sextet 0 t = 0"
  "take_bit 12 t = 0 \<Longrightarrow> sextet 6 t = 0 \<and> sextet 0 t = 0"
  by (auto simp: bit_eq_iff bit_sextet bit_simps)

definition b64_triple :: "u8 \<Rightarrow> u8 \<Rightarrow> u8 \<Rightarrow> u32" where
  "b64_triple a b c = push_bit 16 (ucast a) OR push_bit 8 (ucast b) OR ucast c"

lemma b64_triple_bytes:
  "ucast (drop_bit 16 (take_bit 24 (b64_triple a b c))) = a"
  "ucast (drop_bit 8 (take_bit 24 (b64_triple a b c))) = b"
  "ucast (take_bit 24 (b64_triple a b c)) = c"
  by (auto simp: b64_triple_def bit_simps bit_u8_beyond intro!: bit_word_eqI)

lemma b64_triple_low: "take_bit 6 (b64_triple a b 0) = 0" "take_bit 12 (b64_triple a 0 0) = 0"
  by (auto simp: b64_triple_def bit_simps bit_u8_beyond intro!: bit_word_eqI)

lemma b64_chunk_roundtrip:
  "b64_decode_chunk (as_bytes (b64_encode_chunk [a])) = Inr [a]"
  "b64_decode_chunk (as_bytes (b64_encode_chunk [a, b])) = Inr [a, b]"
  "b64_decode_chunk (as_bytes (b64_encode_chunk [a, b, c])) = Inr [a, b, c]"
proof -
  let ?t1 = "b64_triple a 0 0" and ?t2 = "b64_triple a b 0" and ?t3 = "b64_triple a b c"
  have e: "b64_encode_chunk [a] = [b64_char (drop_bit 18 ?t1), b64_char (drop_bit 12 ?t1), CHR ''='', CHR ''='']"
    "b64_encode_chunk [a, b] =
       [b64_char (drop_bit 18 ?t2), b64_char (drop_bit 12 ?t2), b64_char (drop_bit 6 ?t2), CHR ''='']"
    "b64_encode_chunk [a, b, c] =
       [b64_char (drop_bit 18 ?t3), b64_char (drop_bit 12 ?t3), b64_char (drop_bit 6 ?t3), b64_char (drop_bit 0 ?t3)]"
    by (simp_all add: b64_encode_chunk_def b64_triple_def Let_def)
  note low = sextets_padded(2) [OF b64_triple_low(2), of a] sextets_padded(1) [OF b64_triple_low(1), of a b]
  show "b64_decode_chunk (as_bytes (b64_encode_chunk [a])) = Inr [a]"
    using sextets [of ?t1] low(1) b64_triple_bytes(1) [of a 0 0]
    by (simp add: e b64_decode_chunk_def b64_char_decode sextet_def [symmetric] Let_def)
  show "b64_decode_chunk (as_bytes (b64_encode_chunk [a, b])) = Inr [a, b]"
    using sextets [of ?t2] low(2) b64_triple_bytes(1, 2) [of a b 0]
    by (simp add: e b64_decode_chunk_def b64_char_decode sextet_def [symmetric] Let_def)
  show "b64_decode_chunk (as_bytes (b64_encode_chunk [a, b, c])) = Inr [a, b, c]"
    using sextets [of ?t3] b64_triple_bytes [of a b c]
    by (simp add: e b64_decode_chunk_def b64_char_decode sextet_def [symmetric] Let_def del: drop_bit_0)
qed

lemma chunks_short: "xs \<noteq> [] \<Longrightarrow> length xs \<le> n \<Longrightarrow> chunks n xs = [xs]"
  by (subst chunks.simps) (cases xs; auto)

lemma length_b64_encode_chunk [simp]: "length (b64_encode_chunk c) = 4"
  by (simp add: b64_encode_chunk_def Let_def)

lemma base64_length: "length (concat (map b64_encode_chunk cs)) = 4 * length cs"
  by (induction cs) auto

lemma chunks_as_bytes_b64:
  "chunks 4 (as_bytes (b64_encode_chunk c @ s)) = as_bytes (b64_encode_chunk c) # chunks 4 (as_bytes s)"
  by simp

lemma chunks_one_b64: "chunks 4 (as_bytes (b64_encode_chunk c)) = [as_bytes (b64_encode_chunk c)]"
  using chunks_as_bytes_b64 [of c "[]"] by simp

lemma base64_chunks:
  "try_concat b64_decode_chunk (chunks 4 (as_bytes (concat (map b64_encode_chunk (chunks 3 data))))) = Inr data"
proof (induction "3 :: nat" data rule: chunks.induct)
  case (1 data)
  consider "data = []" | a where "data = [a]" | a b where "data = [a, b]"
    | a b c rest where "data = [a, b, c] @ rest"
    by (metis append_Cons append_Nil list.exhaust)
  then show ?case
  proof cases
    case (4 a b c rest)
    then have "try_concat b64_decode_chunk (chunks 4 (as_bytes (concat (map b64_encode_chunk (chunks 3 rest))))) = Inr rest"
      using 1 by simp
    moreover have "chunks 3 data = [a, b, c] # chunks 3 rest"
      unfolding 4 by (rule chunks_append) auto
    ultimately show ?thesis
      using 4 by (simp only: list.map concat.simps chunks_as_bytes_b64 try_concat.simps b64_chunk_roundtrip) simp
  qed (simp_all add: b64_chunk_roundtrip chunks_short chunks_one_b64)
qed

section \<open>Reading back percent encoding\<close>

lemma url_decode_encode_byte:
  "url_decode_bytes (as_bytes (url_encode_byte b) @ bs)
     = map_sum (\<lambda>e. e) (\<lambda>out. b # out) (url_decode_bytes bs)"
proof (cases "is_url_unreserved b")
  case True
  then have "b \<noteq> 37" "b \<noteq> 43" by (auto simp: is_url_unreserved_def)
  then show ?thesis using True as_bytes_from_bytes [of "[b]"]
    by (simp add: url_encode_byte_def from_bytes_def)
next
  case False
  then show ?thesis using nibbles [of b] by (simp add: url_encode_byte_def hex_digit_val)
qed

lemma url_decode_encode_bytes: "url_decode_bytes (as_bytes (concat (map url_encode_byte bs))) = Inr bs"
  by (induction bs) (simp_all add: url_decode_encode_byte)

section \<open>The codecs are inverse to each other\<close>

text \<open>
  Each decoder gives back exactly what its encoder was given: base64 for every byte
  string (whatever its length modulo three), hexadecimal for every byte string, and percent
  encoding for every string.
\<close>

lemma codecs_roundtrip:
  "base64_decode (base64_encode data) = Inr data
   \<and> hex_decode (hex_encode data) = Inr data
   \<and> url_decode (url_encode s) = (if utf8_valid (as_bytes s) then Inr s else Inl InvalidUtf8)"
proof (intro conjI)
  have "length (as_bytes (base64_encode data)) = 4 * length (chunks 3 data)"
    by (simp add: base64_encode_def base64_length)
  moreover have "data \<noteq> [] \<Longrightarrow> chunks 3 data \<noteq> []" by (subst chunks.simps) simp
  ultimately show "base64_decode (base64_encode data) = Inr data"
    using base64_chunks [of data]
    by (cases "data = []") (auto simp: base64_decode_def base64_encode_def Let_def)
  show "hex_decode (hex_encode data) = Inr data"
    using try_concat_hex [of data] by (simp add: hex_decode_def hex_encode_length Let_def)
  show "url_decode (url_encode s) = (if utf8_valid (as_bytes s) then Inr s else Inl InvalidUtf8)"
    by (simp add: url_decode_def url_encode_def url_decode_encode_bytes from_utf8_def)
qed

section \<open>CRC-32\<close>

text \<open>The reference: the shift register fed one bit at a time, low bit first.\<close>

definition crc_feed_bit :: "u32 \<Rightarrow> bool \<Rightarrow> u32" where
  "crc_feed_bit crc b =
     (if bit crc 0 \<noteq> b then drop_bit 1 crc XOR 0xEDB88320 else drop_bit 1 crc)"

definition crc32_serial :: "u8 list \<Rightarrow> u32" where
  "crc32_serial data =
     NOT (foldl crc_feed_bit (NOT 0) (concat (map (\<lambda>byte. map (bit byte) [0..<8]) data)))"

lemma crc_shift_bit: "crc_shift a = drop_bit 1 a XOR (if bit a 0 then 0xEDB88320 else 0)"
  by (simp add: crc_shift_def and_one_eq mod_2_eq_odd bit_0)

lemma crc_shift_xor: "crc_shift (a XOR b) = crc_shift a XOR crc_shift b"
  by (simp add: crc_shift_bit bit_xor_iff ac_simps)

lemma crc_shift_pow_xor: "(crc_shift ^^ n) (a XOR b) = (crc_shift ^^ n) a XOR (crc_shift ^^ n) b"
  by (induction n) (simp_all add: crc_shift_xor)

lemma crc_shift_high: "take_bit n a = 0 \<Longrightarrow> (crc_shift ^^ n) a = drop_bit n a"
proof (induction n)
  case (Suc n)
  have low: "take_bit n a = 0" "\<not> bit a n"
    using arg_cong [OF Suc.prems, of "take_bit n"] arg_cong [OF Suc.prems, of "\<lambda>w. bit w n"]
    by (simp_all add: bit_take_bit_iff)
  then have "\<not> bit (drop_bit n a) 0" by (simp add: bit_drop_bit_eq)
  then show ?case using Suc.IH [OF low(1)] by (simp add: crc_shift_bit)
qed simp

lemma crc_feed_bit_shift: "crc_feed_bit crc b = crc_shift (crc XOR of_bool b)"
  by (simp add: crc_feed_bit_def crc_shift_bit bit_xor_iff bit_of_bool_iff)

lemma crc_feed_bits:
  "n \<le> 8 \<Longrightarrow>
   foldl crc_feed_bit crc (map (bit byte) [0..<n]) = (crc_shift ^^ n) (crc XOR take_bit n (ucast (byte :: u8)))"
proof (induction n)
  case (Suc n)
  let ?w = "ucast byte :: u32" and ?top = "push_bit n (of_bool (bit byte n)) :: u32"
  have split: "take_bit (Suc n) ?w = take_bit n ?w XOR ?top"
    using Suc.prems by (intro bit_word_eqI) (auto simp: bit_simps less_Suc_eq)
  have "drop_bit n ?top = of_bool (bit byte n)"
    using Suc.prems by (intro bit_word_eqI) (auto simp: bit_simps)
  then have "(crc_shift ^^ n) ?top = of_bool (bit byte n)"
    by (subst crc_shift_high) (simp_all add: take_bit_push_bit)
  then have "(crc_shift ^^ n) (crc XOR take_bit n ?w) XOR of_bool (bit byte n)
      = (crc_shift ^^ n) (crc XOR take_bit (Suc n) ?w)"
    unfolding split by (simp add: crc_shift_pow_xor xor.assoc)
  with Suc show ?case by (simp add: crc_feed_bit_shift)
qed simp

lemma crc_shift_8: "(crc_shift ^^ 8) x = drop_bit 8 x XOR (crc_shift ^^ 8) (x AND 0xFF)"
proof -
  let ?high = "push_bit 8 (drop_bit 8 x)"
  have m: "(0xFF :: u32) = mask 8" by (simp add: mask_eq_exp_minus_1)
  have "x = ?high XOR (x AND 0xFF)"
    unfolding m by (rule bit_word_eqI) (auto simp: bit_simps)
  then have "(crc_shift ^^ 8) x = (crc_shift ^^ 8) ?high XOR (crc_shift ^^ 8) (x AND 0xFF)"
    by (metis crc_shift_pow_xor)
  moreover have "drop_bit 8 ?high = drop_bit 8 x"
    by (rule bit_word_eqI) (auto simp: bit_simps dest: bit_imp_le_length)
  ultimately show ?thesis by (simp add: crc_shift_high take_bit_push_bit)
qed

lemma crc_table_step:
  "drop_bit 8 crc XOR CRC32_TABLE ! unat ((crc XOR ucast byte) AND 0xFF)
     = foldl crc_feed_bit crc (map (bit (byte :: u8)) [0..<8])"
proof -
  let ?x = "crc XOR ucast byte"
  have "unat (?x AND 0xFF) < 256"
    using word_and_le1 [of ?x "0xFF"] by (simp add: word_le_nat_alt)
  then have table: "CRC32_TABLE ! unat (?x AND 0xFF) = (crc_shift ^^ 8) (?x AND 0xFF)"
    by (simp add: CRC32_TABLE_def)
  moreover have "drop_bit 8 ?x = drop_bit 8 crc"
    by (rule bit_word_eqI) (auto simp: bit_simps bit_u8_beyond)
  moreover have "take_bit 8 (ucast byte) = (ucast byte :: u32)"
    by (rule bit_word_eqI) (auto simp: bit_simps dest: bit_imp_le_length)
  ultimately show ?thesis using crc_shift_8 [of ?x] by (simp only: crc_feed_bits order.refl)
qed

text \<open>
  The table-driven checksum is the CRC-32 of the standard: it equals the bit-serial shift
  register with the reflected polynomial, all ones in and the complement out, for every input.
\<close>

lemma crc32_serial_eq: "crc32 data = crc32_serial data"
proof -
  have "foldl (\<lambda>crc byte. drop_bit 8 crc XOR CRC32_TABLE ! unat ((crc XOR ucast byte) AND 0xFF)) crc data
      = foldl crc_feed_bit crc (concat (map (\<lambda>byte. map (bit byte) [0..<8]) data))" for crc
    unfolding crc_table_step by (induction data arbitrary: crc) simp_all
  moreover have "(0xFFFFFFFF :: u32) = NOT 0" by simp
  moreover have "x XOR NOT 0 = NOT x" for x :: u32 by (rule bit_word_eqI) (auto simp: bit_simps)
  ultimately show ?thesis unfolding crc32_def crc32_serial_def by presburger
qed

text \<open>The check value of the standard.\<close>

lemma crc32_serial_check: "crc32_serial (as_bytes ''123456789'') = 0xCBF43926"
  by code_simp

lemma fnv1a_64_eq: "fnv1a_64 data = fnv1a data"
  by (simp add: fnv1a_64_def fnv1a_def FNV1A_64_OFFSET_def FNV1A_64_PRIME_def FNV_OFFSET_def FNV_PRIME_def)

text \<open>
  The decoders reject exactly the malformed inputs, with the error that says why: a
  hexadecimal string of odd length is an invalid length, otherwise the first byte that is not a
  hex digit is reported, and any other string decodes.
\<close>

lemma hex_decode_errors:
  "hex_decode s =
     (if odd (length s) then Inl InvalidLength
      else case find (\<lambda>b. isl (hex_val b)) (as_bytes s) of
             Some c \<Rightarrow> Inl (InvalidByte c)
           | None \<Rightarrow> Inr (map (\<lambda>p. push_bit 4 (projr (hex_val (p ! 0))) OR projr (hex_val (p ! 1)))
                          (chunks 2 (as_bytes s))))"
proof (cases "even (length s)")
  case True
  then show ?thesis using try_concat_hex_cases [of "as_bytes s"] by (simp add: hex_decode_def Let_def)
next
  case False
  then show ?thesis by (simp add: hex_decode_def Let_def odd_iff_mod_2_eq_one)
qed

end
