(* ===== verification/Le_Bytes.thy ===== *)
theory Le_Bytes
  imports Prelude
begin

text \<open>
  Byte buffers: the little-endian encodings \<^verbatim>\<open>to_le_bytes\<close> and \<^verbatim>\<open>from_le_bytes\<close> of the fixed
  width integers, and range reads and \<^verbatim>\<open>copy_from_slice\<close> writes of a buffer.
\<close>

section \<open>Little-endian integers\<close>

definition u16_to_le :: "u16 \<Rightarrow> u8 list" where
  "u16_to_le w = [ucast w, ucast (drop_bit 8 w)]"

definition u16_from_le :: "u8 \<Rightarrow> u8 \<Rightarrow> u16" where
  "u16_from_le b0 b1 = ucast b0 OR push_bit 8 (ucast b1)"

definition u32_to_le :: "u32 \<Rightarrow> u8 list" where
  "u32_to_le w = [ucast w, ucast (drop_bit 8 w), ucast (drop_bit 16 w), ucast (drop_bit 24 w)]"

definition u32_from_le :: "u8 \<Rightarrow> u8 \<Rightarrow> u8 \<Rightarrow> u8 \<Rightarrow> u32" where
  "u32_from_le b0 b1 b2 b3 =
     ucast b0 OR push_bit 8 (ucast b1) OR push_bit 16 (ucast b2) OR push_bit 24 (ucast b3)"

lemma u16_le_roundtrip [simp]: "u16_from_le (ucast w) (ucast (drop_bit 8 w)) = w"
  unfolding u16_from_le_def by (rule bit_word_eqI) (auto simp: bit_simps not_less)

lemma u32_le_roundtrip [simp]:
  "u32_from_le (ucast w) (ucast (drop_bit 8 w)) (ucast (drop_bit 16 w)) (ucast (drop_bit 24 w)) = w"
proof (rule bit_word_eqI)
  fix n :: nat
  assume n: "n < LENGTH(32)"
  consider "n < 8" | "8 \<le> n" "n < 16" | "16 \<le> n" "n < 24" | "24 \<le> n" by linarith
  then show "bit (u32_from_le (ucast w) (ucast (drop_bit 8 w)) (ucast (drop_bit 16 w)) (ucast (drop_bit 24 w))) n
      = bit w n"
    by cases (use n in \<open>auto simp: u32_from_le_def bit_simps\<close>)
qed

lemma u16_le_inverse: "u16_to_le (u16_from_le b0 b1) = [b0, b1]"
  by (auto simp: u16_to_le_def u16_from_le_def bit_simps bit_u8_beyond intro!: bit_word_eqI)

lemma length_u16_to_le [simp]: "length (u16_to_le w) = 2"
  by (simp add: u16_to_le_def)

lemma length_u32_to_le [simp]: "length (u32_to_le w) = 4"
  by (simp add: u32_to_le_def)

section \<open>Ranges of a buffer\<close>

definition slice :: "usize \<Rightarrow> usize \<Rightarrow> 'a list \<Rightarrow> 'a list" where
  "slice a n xs = take n (drop a xs)"

text \<open>\<^verbatim>\<open>buf[a..a + src.len()].copy_from_slice(src)\<close>, within the buffer.\<close>

definition splice :: "usize \<Rightarrow> 'a list \<Rightarrow> 'a list \<Rightarrow> 'a list" where
  "splice a src buf = take a buf @ src @ drop (a + length src) buf"

lemma length_splice [simp]: "a + length src \<le> length buf \<Longrightarrow> length (splice a src buf) = length buf"
  by (simp add: splice_def)

lemma nth_splice:
  assumes "a + length src \<le> length buf" "i < length buf"
  shows "splice a src buf ! i = (if a \<le> i \<and> i < a + length src then src ! (i - a) else buf ! i)"
  using assms by (auto simp: splice_def nth_append min_def)

lemma length_slice [simp]: "a + n \<le> length xs \<Longrightarrow> length (slice a n xs) = n"
  by (simp add: slice_def)

lemma nth_slice: "i < n \<Longrightarrow> a + n \<le> length xs \<Longrightarrow> slice a n xs ! i = xs ! (a + i)"
  by (simp add: slice_def)

lemma slice_eqI:
  assumes "a + n \<le> length xs" "length ys = n" "\<And>i. i < n \<Longrightarrow> xs ! (a + i) = ys ! i"
  shows "slice a n xs = ys"
  using assms by (intro nth_equalityI) (auto simp: nth_slice)

lemma slice_splice_same [simp]: "a + length src \<le> length buf \<Longrightarrow> slice a (length src) (splice a src buf) = src"
  by (rule slice_eqI) (auto simp: nth_splice)

lemma slice_splice_other:
  assumes "a + length src \<le> length buf" "b + n \<le> length buf" "b + n \<le> a \<or> a + length src \<le> b"
  shows "slice b n (splice a src buf) = slice b n buf"
  using assms by (intro slice_eqI) (auto simp: nth_splice nth_slice)

lemma splice_splice_same:
  "length src = length src' \<Longrightarrow> a + length src \<le> length buf \<Longrightarrow>
   splice a src (splice a src' buf) = splice a src buf"
  by (rule nth_equalityI) (auto simp: nth_splice)

end
