(* ===== verification/Fat.thy ===== *)
theory Fat
  imports Rust_Str Le_Bytes
begin

text \<open>
  The MF16 file system of \<^verbatim>\<open>fat.rs\<close>, on the bytes of a disk: block 0 holds the magic number,
  blocks 1 to 3 a table of 16-bit links, blocks 4 to 7 a directory of 64 entries of 32 bytes,
  and cluster \<open>c\<close> of the data area is block \<open>8 + c\<close>. A read or write past the end of the disk,
  which panics, is the value \<open>None\<close>.
\<close>

section \<open>Layout\<close>

definition FAT_MAGIC :: "u8 list" where "FAT_MAGIC = as_bytes ''MF16''"
definition FAT_START :: usize where "FAT_START = 1"
definition FAT_BLOCKS :: usize where "FAT_BLOCKS = 3"
definition DIR_START :: usize where "DIR_START = 4"
definition DATA_START :: usize where "DATA_START = 8"
definition MAX_FILES :: usize where "MAX_FILES = 64"
definition ENTRY_SIZE :: usize where "ENTRY_SIZE = 32"
definition CLUSTER_SIZE :: usize where "CLUSTER_SIZE = 512"
definition FAT_FREE :: u16 where "FAT_FREE = 0x0000"
definition FAT_EOF :: u16 where "FAT_EOF = 0xFFFF"

lemmas fat_consts = FAT_START_def FAT_BLOCKS_def DIR_START_def DATA_START_def MAX_FILES_def
  ENTRY_SIZE_def CLUSTER_SIZE_def FAT_FREE_def FAT_EOF_def

type_synonym disk = "u8 list"

definition dir_off :: "nat \<Rightarrow> usize" where
  "dir_off i = DIR_START * CLUSTER_SIZE + i * ENTRY_SIZE"

definition data_off :: "u16 \<Rightarrow> usize" where
  "data_off cluster = (DATA_START + unat cluster) * CLUSTER_SIZE"

definition byte_at :: "disk \<Rightarrow> usize \<Rightarrow> u8 option" where
  "byte_at disk i = (if i < length disk then Some (disk ! i) else None)"

definition range_at :: "disk \<Rightarrow> usize \<Rightarrow> usize \<Rightarrow> u8 list option" where
  "range_at disk a n = (if a + n \<le> length disk then Some (slice a n disk) else None)"

section \<open>Links\<close>

definition read_fat :: "disk \<Rightarrow> u16 \<Rightarrow> u16" where
  "read_fat disk cluster =
     (let fat_off = FAT_START * CLUSTER_SIZE + unat cluster * 2
      in if fat_off + 2 > length disk then FAT_EOF
         else u16_from_le (disk ! fat_off) (disk ! (fat_off + 1)))"

definition write_fat :: "disk \<Rightarrow> u16 \<Rightarrow> u16 \<Rightarrow> disk" where
  "write_fat disk cluster value =
     (let fat_off = FAT_START * CLUSTER_SIZE + unat cluster * 2
      in if fat_off + 2 \<le> length disk then splice fat_off (u16_to_le value) disk else disk)"

section \<open>Formatting and listing\<close>

definition fat_format :: "disk \<Rightarrow> unit result \<times> disk" where
  "fat_format disk =
     (if length disk < DATA_START * CLUSTER_SIZE + CLUSTER_SIZE then (Err ''disk too small'', disk)
      else (Ok (), splice 0 FAT_MAGIC (replicate (length disk) 0)))"

record FileInfo =
  fi_name :: str
  fi_size :: u32

fun list_entries :: "disk \<Rightarrow> nat list \<Rightarrow> FileInfo list option" where
  "list_entries disk [] = Some []"
| "list_entries disk (i # is) =
     (let off = dir_off i
      in if off + ENTRY_SIZE > length disk then Some []
         else if disk ! (off + 17) = 1 then
           (case range_at disk off (unat (disk ! (off + 16))) of
              None \<Rightarrow> None
            | Some bs \<Rightarrow>
                (let name = (case from_utf8 bs of Some s \<Rightarrow> s | None \<Rightarrow> ''?'');
                     size = u32_from_le (disk ! (off + 20)) (disk ! (off + 21)) (disk ! (off + 22)) (disk ! (off + 23))
                 in map_option (\<lambda>fs. \<lparr>fi_name = name, fi_size = size\<rparr> # fs) (list_entries disk is)))
         else list_entries disk is)"

definition fat_list_files :: "disk \<Rightarrow> FileInfo list option" where
  "fat_list_files disk =
     (case range_at disk 0 4 of
        None \<Rightarrow> None
      | Some m \<Rightarrow> if m \<noteq> FAT_MAGIC then Some [] else list_entries disk [0..<MAX_FILES])"

section \<open>Reading\<close>

text \<open>
  The search both \<^verbatim>\<open>read_file\<close> and \<^verbatim>\<open>delete_file\<close> run over the directory: the first active
  entry of that name, if any.
\<close>

fun find_entry :: "disk \<Rightarrow> str \<Rightarrow> nat list \<Rightarrow> nat option option" where
  "find_entry disk name [] = Some None"
| "find_entry disk name (i # is) =
     (let off = dir_off i
      in case byte_at disk (off + 17) of
           None \<Rightarrow> None
         | Some flags \<Rightarrow>
             if flags \<noteq> 1 then find_entry disk name is
             else (case range_at disk off (unat (disk ! (off + 16))) of
                     None \<Rightarrow> None
                   | Some bs \<Rightarrow>
                       (let entry_name = (case from_utf8 bs of Some s \<Rightarrow> s | None \<Rightarrow> [])
                        in if entry_name \<noteq> name then find_entry disk name is else Some (Some i))))"

function read_chain :: "disk \<Rightarrow> u16 \<Rightarrow> usize \<Rightarrow> u8 list" where
  "read_chain disk cluster remaining =
     (if cluster \<noteq> FAT_EOF \<and> remaining > 0 then
        (let off = data_off cluster; to_read = min remaining CLUSTER_SIZE
         in (if off + to_read \<le> length disk then slice off to_read disk else [])
            @ read_chain disk (read_fat disk cluster) (remaining - to_read))
      else [])"
  by pat_completeness auto
termination
  by (relation "measure (\<lambda>(disk, cluster, remaining). remaining)") (auto simp: CLUSTER_SIZE_def)

declare read_chain.simps [simp del]

definition entry_start :: "disk \<Rightarrow> nat \<Rightarrow> u16" where
  "entry_start disk i = u16_from_le (disk ! (dir_off i + 18)) (disk ! (dir_off i + 19))"

definition entry_size :: "disk \<Rightarrow> nat \<Rightarrow> u32" where
  "entry_size disk i =
     u32_from_le (disk ! (dir_off i + 20)) (disk ! (dir_off i + 21)) (disk ! (dir_off i + 22)) (disk ! (dir_off i + 23))"

definition fat_read_file :: "disk \<Rightarrow> str \<Rightarrow> u8 list option option" where
  "fat_read_file disk name =
     (case range_at disk 0 4 of
        None \<Rightarrow> None
      | Some m \<Rightarrow>
          if m \<noteq> FAT_MAGIC then Some None
          else (case find_entry disk name [0..<MAX_FILES] of
                  None \<Rightarrow> None
                | Some None \<Rightarrow> Some None
                | Some (Some i) \<Rightarrow>
                    if dir_off i + 24 \<le> length disk
                    then Some (Some (read_chain disk (entry_start disk i) (unat (entry_size disk i))))
                    else None))"

section \<open>Deleting\<close>

text \<open>
  The loop that frees a chain. It ends on every disk, also one whose links form a cycle: each
  round either frees a link that was in use or reads a link that stops it.
\<close>

definition used_links :: "disk \<Rightarrow> nat" where
  "used_links disk = card {c. read_fat disk c \<noteq> FAT_FREE}"

lemma read_write_fat:
  "read_fat (write_fat disk c v) c' =
     (if c' = c \<and> FAT_START * CLUSTER_SIZE + unat c * 2 + 2 \<le> length disk then v else read_fat disk c')"
proof (cases "FAT_START * CLUSTER_SIZE + unat c * 2 + 2 \<le> length disk")
  case True
  have "unat c \<noteq> unat c' \<Longrightarrow> unat c < unat c' \<or> unat c' < unat c" by linarith
  then show ?thesis using True
    by (auto simp: read_fat_def write_fat_def Let_def nth_splice u16_to_le_def nth_Cons' word_unat_eq_iff)
next
  case False
  then show ?thesis by (simp add: read_fat_def write_fat_def Let_def)
qed

lemma used_links_free:
  assumes "read_fat disk c \<noteq> FAT_FREE" "FAT_START * CLUSTER_SIZE + unat c * 2 + 2 \<le> length disk"
  shows "used_links (write_fat disk c FAT_FREE) < used_links disk"
  unfolding used_links_def using assms by (intro psubset_card_mono) (auto simp: read_write_fat)

function free_chain :: "disk \<Rightarrow> u16 \<Rightarrow> disk" where
  "free_chain disk cluster =
     (if cluster \<noteq> FAT_EOF \<and> cluster \<noteq> FAT_FREE
      then free_chain (write_fat disk cluster FAT_FREE) (read_fat disk cluster) else disk)"
  by pat_completeness auto
termination
proof (relation "measures [\<lambda>(disk, c). used_links disk, \<lambda>(disk, c). if c = FAT_EOF \<or> c = FAT_FREE then 0 else 1]",
    goal_cases)
  case (2 disk c)
  show ?case
  proof (cases "FAT_START * CLUSTER_SIZE + unat c * 2 + 2 \<le> length disk")
    case True
    then show ?thesis
      using 2 used_links_free [of disk c]
      by (cases "read_fat disk c = FAT_FREE") (auto simp: used_links_def read_write_fat intro!: disjI2 arg_cong [where f = card])
  next
    case False
    then have "write_fat disk c FAT_FREE = disk" "read_fat disk c = FAT_EOF"
      by (simp_all add: write_fat_def read_fat_def Let_def)
    then show ?thesis using 2 by simp
  qed
qed simp

declare free_chain.simps [simp del]

definition fat_delete_file :: "disk \<Rightarrow> str \<Rightarrow> (unit result \<times> disk) option" where
  "fat_delete_file disk name =
     (case range_at disk 0 4 of
        None \<Rightarrow> None
      | Some m \<Rightarrow>
          if m \<noteq> FAT_MAGIC then Some (Err ''not formatted'', disk)
          else (case find_entry disk name [0..<MAX_FILES] of
                  None \<Rightarrow> None
                | Some None \<Rightarrow> Some (Err ''file not found'', disk)
                | Some (Some i) \<Rightarrow>
                    if dir_off i + 20 \<le> length disk
                    then Some (Ok (), (free_chain disk (entry_start disk i))[dir_off i + 17 := 0])
                    else None))"

section \<open>Writing\<close>

text \<open>The loop that collects free clusters until enough are found.\<close>

fun alloc_clusters :: "disk \<Rightarrow> usize \<Rightarrow> u16 list \<Rightarrow> u16 list \<Rightarrow> u16 list" where
  "alloc_clusters disk needed [] allocated = allocated"
| "alloc_clusters disk needed (c # cs) allocated =
     (if read_fat disk c = FAT_FREE then
        (let allocated = allocated @ [c]
         in if length allocated = needed then allocated else alloc_clusters disk needed cs allocated)
      else alloc_clusters disk needed cs allocated)"

definition link_clusters :: "disk \<Rightarrow> u16 list \<Rightarrow> disk" where
  "link_clusters disk allocated =
     foldl (\<lambda>d i. write_fat d (allocated ! i)
              (if i + 1 < length allocated then allocated ! (i + 1) else FAT_EOF))
       disk [0..<length allocated]"

fun write_clusters :: "disk \<Rightarrow> u8 list \<Rightarrow> u16 list \<Rightarrow> usize \<Rightarrow> disk option" where
  "write_clusters disk contents [] written = Some disk"
| "write_clusters disk contents (c # cs) written =
     (let to_write = min (length contents - written) CLUSTER_SIZE
      in if data_off c + to_write \<le> length disk
         then write_clusters (splice (data_off c) (slice written to_write contents) disk) contents cs (written + to_write)
         else None)"

definition fill_entry :: "disk \<Rightarrow> nat \<Rightarrow> str \<Rightarrow> u16 \<Rightarrow> u32 \<Rightarrow> disk" where
  "fill_entry disk i name start fsize =
     (let off = dir_off i;
          d1 = splice off (as_bytes name) disk;
          d2 = d1[off + 16 := of_nat (length name)];
          d3 = d2[off + 17 := 1];
          d4 = splice (off + 18) (u16_to_le start) d3
      in splice (off + 20) (u32_to_le fsize) d4)"

fun add_entry :: "disk \<Rightarrow> str \<Rightarrow> u16 \<Rightarrow> u32 \<Rightarrow> nat list \<Rightarrow> (unit result \<times> disk) option" where
  "add_entry disk name start fsize [] = Some (Err ''directory full'', disk)"
| "add_entry disk name start fsize (i # is) =
     (case byte_at disk (dir_off i + 17) of
        None \<Rightarrow> None
      | Some flags \<Rightarrow>
          if flags = 0 then
            (if dir_off i + 24 \<le> length disk then Some (Ok (), fill_entry disk i name start fsize) else None)
          else add_entry disk name start fsize is)"

definition fat_write_file :: "disk \<Rightarrow> str \<Rightarrow> u8 list \<Rightarrow> (unit result \<times> disk) option" where
  "fat_write_file disk name contents =
     (case range_at disk 0 4 of
        None \<Rightarrow> None
      | Some m \<Rightarrow>
          if m \<noteq> FAT_MAGIC then Some (Err ''not formatted as MF16'', disk)
          else if length name > 16 then Some (Err ''filename too long'', disk)
          else (case fat_delete_file disk name of
                  None \<Rightarrow> None
                | Some (_, disk) \<Rightarrow>
                    (let needed = (length contents + CLUSTER_SIZE - 1) div CLUSTER_SIZE
                     in if needed = 0 then Some (Err ''empty file'', disk)
                        else let max_clusters = FAT_BLOCKS * CLUSTER_SIZE div 2;
                                 allocated = alloc_clusters disk needed (map of_nat [0..<max_clusters]) []
                             in if length allocated < needed then Some (Err ''disk full'', disk)
                                else (case write_clusters (link_clusters disk allocated) contents allocated 0 of
                                        None \<Rightarrow> None
                                      | Some disk \<Rightarrow>
                                          add_entry disk name (allocated ! 0) (of_nat (length contents)) [0..<MAX_FILES]))))"

section \<open>Regions of the disk\<close>

text \<open>
  The parts of the disk a proof looks at: the directory entry \<open>i\<close>, the data of cluster \<open>c\<close>, the
  link of cluster \<open>c\<close>. They do not overlap.
\<close>

definition entry_bytes :: "disk \<Rightarrow> nat \<Rightarrow> u8 list" where
  "entry_bytes disk i = slice (dir_off i) 32 disk"

definition cluster_data :: "disk \<Rightarrow> u16 \<Rightarrow> u8 list" where
  "cluster_data disk c = slice (data_off c) 512 disk"

definition disk_ok :: "disk \<Rightarrow> bool" where
  "disk_ok disk \<longleftrightarrow> 4608 \<le> length disk \<and> 512 dvd length disk \<and> slice 0 4 disk = FAT_MAGIC"

definition num_clusters :: "disk \<Rightarrow> nat" where
  "num_clusters disk = min 768 (length disk div 512 - 8)"

lemma dir_off_eq: "dir_off i = 2048 + 32 * i"
  by (simp add: dir_off_def fat_consts)

lemma data_off_eq: "data_off c = 4096 + 512 * unat c"
  by (simp add: data_off_def fat_consts)

lemma cluster_in_disk:
  assumes "disk_ok disk" "unat c < num_clusters disk"
  shows "data_off c + 512 \<le> length disk"
proof -
  obtain k where "length disk = 512 * k" using assms(1) by (auto simp: disk_ok_def)
  moreover from this assms have "unat c + 9 \<le> k" by (auto simp: num_clusters_def)
  ultimately show ?thesis by (simp add: data_off_eq)
qed

lemma length_write_fat [simp]: "length (write_fat disk c v) = length disk"
  by (simp add: write_fat_def Let_def)

lemma write_fat_regions:
  assumes "4608 \<le> length disk" "unat c < 768"
  shows "slice 0 4 (write_fat disk c v) = slice 0 4 disk"
    and "i < 64 \<Longrightarrow> entry_bytes (write_fat disk c v) i = entry_bytes disk i"
    and "data_off c' + 512 \<le> length disk \<Longrightarrow> cluster_data (write_fat disk c v) c' = cluster_data disk c'"
  using assms
  by (simp_all add: write_fat_def Let_def entry_bytes_def cluster_data_def fat_consts slice_splice_other
      dir_off_eq data_off_eq)

lemma read_fat_other:
  assumes "\<And>j. 512 \<le> j \<Longrightarrow> j < 2048 \<Longrightarrow> d ! j = disk ! j" "length d = length disk" "unat c < 768"
  shows "read_fat d c = read_fat disk c"
  using assms by (simp add: read_fat_def fat_consts Let_def)

lemma write_data_regions:
  assumes "4608 \<le> length disk" "data_off c + length bs \<le> length disk" "length bs \<le> 512"
  shows "slice 0 4 (splice (data_off c) bs disk) = slice 0 4 disk"
    and "i < 64 \<Longrightarrow> entry_bytes (splice (data_off c) bs disk) i = entry_bytes disk i"
    and "unat c' < 768 \<Longrightarrow> read_fat (splice (data_off c) bs disk) c' = read_fat disk c'"
    and "c' \<noteq> c \<Longrightarrow> data_off c' + 512 \<le> length disk
       \<Longrightarrow> cluster_data (splice (data_off c) bs disk) c' = cluster_data disk c'"
proof -
  show "slice 0 4 (splice (data_off c) bs disk) = slice 0 4 disk"
    "i < 64 \<Longrightarrow> entry_bytes (splice (data_off c) bs disk) i = entry_bytes disk i"
    using assms by (simp_all add: entry_bytes_def slice_splice_other dir_off_eq data_off_eq)
  show "unat c' < 768 \<Longrightarrow> read_fat (splice (data_off c) bs disk) c' = read_fat disk c'"
    using assms by (intro read_fat_other) (auto simp: nth_splice data_off_eq)
  assume "c' \<noteq> c" "data_off c' + 512 \<le> length disk"
  moreover from this have "unat c' < unat c \<or> unat c < unat c'" by (simp add: word_unat_eq_iff) linarith
  ultimately show "cluster_data (splice (data_off c) bs disk) c' = cluster_data disk c'"
    unfolding cluster_data_def using assms by (intro slice_splice_other) (auto simp: data_off_eq)
qed

section \<open>Directory entries\<close>

definition entry_flags :: "disk \<Rightarrow> nat \<Rightarrow> u8" where
  "entry_flags disk i = disk ! (dir_off i + 17)"

definition entry_name_len :: "disk \<Rightarrow> nat \<Rightarrow> nat" where
  "entry_name_len disk i = unat (disk ! (dir_off i + 16))"

definition entry_name_bytes :: "disk \<Rightarrow> nat \<Rightarrow> u8 list" where
  "entry_name_bytes disk i = slice (dir_off i) (entry_name_len disk i) disk"

lemma entry_nth:
  assumes "4608 \<le> length disk" "i < 64" "k < 32"
  shows "disk ! (dir_off i + k) = entry_bytes disk i ! k"
  using assms by (simp add: entry_bytes_def nth_slice dir_off_eq)

lemma entry_cong:
  assumes "4608 \<le> length disk" "length d = length disk" "i < 64" "entry_bytes d i = entry_bytes disk i"
  shows "entry_flags d i = entry_flags disk i" "entry_start d i = entry_start disk i"
    "entry_size d i = entry_size disk i" "entry_name_len d i = entry_name_len disk i"
    "entry_name_len disk i \<le> 16 \<Longrightarrow> entry_name_bytes d i = entry_name_bytes disk i"
proof -
  have nth: "d ! (dir_off i + k) = disk ! (dir_off i + k)" if "k < 32" for k
    using entry_nth [of d i k] entry_nth [of disk i k] assms that by simp
  show "entry_flags d i = entry_flags disk i" "entry_start d i = entry_start disk i"
    "entry_size d i = entry_size disk i" "entry_name_len d i = entry_name_len disk i"
    by (simp_all add: entry_flags_def entry_start_def entry_size_def entry_name_len_def nth)
  then show "entry_name_len disk i \<le> 16 \<Longrightarrow> entry_name_bytes d i = entry_name_bytes disk i"
    using assms(1-3) by (auto simp: entry_name_bytes_def nth [unfolded dir_off_eq] nth_slice dir_off_eq intro!: slice_eqI)
qed

text \<open>A chain of links, from a cluster to the end mark.\<close>

fun linked :: "disk \<Rightarrow> u16 \<Rightarrow> u16 list \<Rightarrow> bool" where
  "linked disk c [] \<longleftrightarrow> c = FAT_EOF"
| "linked disk c (x # xs) \<longleftrightarrow> c = x \<and> linked disk (read_fat disk x) xs"

definition entry_ok :: "disk \<Rightarrow> nat \<Rightarrow> u16 list \<Rightarrow> bool" where
  "entry_ok disk i cs \<longleftrightarrow>
     entry_name_len disk i \<le> 16 \<and> utf8_valid (entry_name_bytes disk i)
     \<and> 0 < unat (entry_size disk i) \<and> length cs = (unat (entry_size disk i) + 511) div 512
     \<and> linked disk (entry_start disk i) cs \<and> distinct cs
     \<and> (\<forall>c \<in> set cs. unat c < num_clusters disk) \<and> 0 \<notin> set (tl cs)"

abbreviation active :: "disk \<Rightarrow> nat \<Rightarrow> bool" where
  "active disk i \<equiv> entry_flags disk i = 1"

text \<open>
  The invariant of a disk, for the chains \<open>ch i\<close> of its entries: every active entry has a chain
  as long as its size asks for, inside the data area, and no two active entries share a cluster
  or a name.
\<close>

definition fs_inv :: "disk \<Rightarrow> (nat \<Rightarrow> u16 list) \<Rightarrow> bool" where
  "fs_inv disk ch \<longleftrightarrow>
     disk_ok disk
     \<and> (\<forall>i < 64. entry_flags disk i = 0 \<or> active disk i)
     \<and> (\<forall>i < 64. active disk i \<longrightarrow> entry_ok disk i (ch i))
     \<and> (\<forall>i < 64. \<forall>j < 64. active disk i \<and> active disk j \<and> i \<noteq> j \<longrightarrow>
          set (ch i) \<inter> set (ch j) = {} \<and> entry_name_bytes disk i \<noteq> entry_name_bytes disk j)"

definition mf16_ok :: "disk \<Rightarrow> bool" where
  "mf16_ok disk \<longleftrightarrow> (\<exists>ch. fs_inv disk ch)"

lemma fs_invD:
  assumes "fs_inv disk ch" "i < 64"
  shows "disk_ok disk" "4608 \<le> length disk" "entry_flags disk i = 0 \<or> active disk i"
    "active disk i \<Longrightarrow> entry_ok disk i (ch i)"
    "active disk i \<Longrightarrow> j < 64 \<Longrightarrow> active disk j \<Longrightarrow> i \<noteq> j \<Longrightarrow> set (ch i) \<inter> set (ch j) = {}"
    "active disk i \<Longrightarrow> j < 64 \<Longrightarrow> active disk j \<Longrightarrow> i \<noteq> j \<Longrightarrow> entry_name_bytes disk i \<noteq> entry_name_bytes disk j"
  using assms unfolding fs_inv_def disk_ok_def by blast+

lemma unat_768: "unat (of_nat n :: u16) = n" if "n < 768"
  using that by (simp add: unat_of_nat)

lemma num_clusters_le: "num_clusters disk \<le> 768"
  by (simp add: num_clusters_def)

lemma of_nat_768: "of_nat n \<noteq> (0 :: u16)" if "0 < n" "n < 768"
  using unat_768 [OF that(2)] that(1) by (metis less_irrefl unsigned_0)

lemma entry_ok_clusters: "entry_ok disk i cs \<Longrightarrow> \<forall>c \<in> set cs. unat c < 768"
  using num_clusters_le [of disk] by (auto simp: entry_ok_def)

lemma cluster_not_eof: "unat c < 768 \<Longrightarrow> c \<noteq> FAT_EOF"
  by (auto simp: FAT_EOF_def)

section \<open>Reading a chain\<close>

lemma read_chain_linked:
  assumes "disk_ok disk" "linked disk c cs" "\<forall>x \<in> set cs. unat x < num_clusters disk"
    and "n \<le> 512 * length cs"
  shows "read_chain disk c n = take n (concat (map (cluster_data disk) cs))"
  using assms(2-4)
proof (induction cs arbitrary: c n)
  case Nil
  then show ?case by (subst read_chain.simps) simp
next
  case (Cons x cs)
  have x: "c = x" "unat x < num_clusters disk" "data_off x + 512 \<le> length disk"
    using Cons.prems cluster_in_disk [OF assms(1)] by auto
  then have "x \<noteq> FAT_EOF" using cluster_not_eof num_clusters_le [of disk] by simp
  have len: "length (cluster_data disk x) = 512" using x(3) by (simp add: cluster_data_def)
  have IH: "read_chain disk (read_fat disk x) (n - 512) = take (n - 512) (concat (map (cluster_data disk) cs))"
    using Cons by auto
  show ?case
  proof (cases "n \<le> 512")
    case True
    then have "read_chain disk (read_fat disk x) 0 = []" by (subst read_chain.simps) simp
    then show ?thesis
      using True x \<open>x \<noteq> FAT_EOF\<close> len
      by (subst read_chain.simps) (auto simp: CLUSTER_SIZE_def min_def cluster_data_def slice_def)
  next
    case False
    then show ?thesis
      using x \<open>x \<noteq> FAT_EOF\<close> len IH
      by (subst read_chain.simps) (simp add: CLUSTER_SIZE_def min_def Let_def cluster_data_def [symmetric])
  qed
qed

lemma find_entry_spec:
  assumes "fs_inv disk ch" "set is \<subseteq> {..<64}"
  shows "find_entry disk name is =
    Some (find (\<lambda>i. active disk i \<and> entry_name_bytes disk i = as_bytes name) is)"
  using assms(2)
proof (induction "is")
  case (Cons i "is")
  then have i: "i < 64" by simp
  note D = fs_invD [OF assms(1) i]
  have len: "dir_off i + 32 \<le> length disk" using D(2) i by (simp add: dir_off_eq)
  show ?case
  proof (cases "active disk i")
    case True
    then have ok: "entry_name_len disk i \<le> 16" "utf8_valid (entry_name_bytes disk i)"
      using D(4) by (auto simp: entry_ok_def)
    then have "range_at disk (dir_off i) (unat (disk ! (dir_off i + 16))) = Some (entry_name_bytes disk i)"
      using len by (simp add: range_at_def entry_name_bytes_def entry_name_len_def)
    moreover have "from_bytes bs = name \<longleftrightarrow> bs = as_bytes name" for bs
      by (metis as_bytes_from_bytes from_bytes_as_bytes)
    ultimately show ?thesis
      using Cons True ok(2) len by (simp add: byte_at_def entry_flags_def from_utf8_def)
  next
    case False
    then show ?thesis using Cons len by (simp add: byte_at_def entry_flags_def)
  qed
qed simp

definition named :: "disk \<Rightarrow> str \<Rightarrow> nat option" where
  "named disk name = find (\<lambda>i. active disk i \<and> entry_name_bytes disk i = as_bytes name) [0..<64]"

definition file_data :: "disk \<Rightarrow> nat \<Rightarrow> u16 list \<Rightarrow> u8 list" where
  "file_data disk i cs = take (unat (entry_size disk i)) (concat (map (cluster_data disk) cs))"

lemma named_Some:
  assumes "fs_inv disk ch"
  shows "named disk name = Some i \<longleftrightarrow> i < 64 \<and> active disk i \<and> entry_name_bytes disk i = as_bytes name"
proof
  assume "named disk name = Some i"
  then show "i < 64 \<and> active disk i \<and> entry_name_bytes disk i = as_bytes name"
    using find_Some_in [of _ "[0..<64]"] by (auto simp: named_def)
next
  assume i: "i < 64 \<and> active disk i \<and> entry_name_bytes disk i = as_bytes name"
  then obtain j where j: "named disk name = Some j"
    by (metis (mono_tags, lifting) named_def find_None_iff not_None_eq atLeastLessThan_iff set_upt zero_le)
  then have "j < 64 \<and> active disk j \<and> entry_name_bytes disk j = as_bytes name"
    using find_Some_in [of _ "[0..<64]"] by (auto simp: named_def)
  then show "named disk name = Some i" using i j fs_invD(6) [OF assms, of i j] by auto
qed

lemma named_None: "named disk name = None \<longleftrightarrow> (\<forall>i < 64. active disk i \<longrightarrow> entry_name_bytes disk i \<noteq> as_bytes name)"
  by (auto simp: named_def find_None_iff)

lemma fat_read_file_spec:
  assumes "fs_inv disk ch"
  shows "fat_read_file disk name = Some (map_option (\<lambda>i. file_data disk i (ch i)) (named disk name))"
proof -
  have ok: "disk_ok disk" using assms by (simp add: fs_inv_def)
  then have "range_at disk 0 4 = Some FAT_MAGIC" by (simp add: range_at_def disk_ok_def)
  moreover have "find_entry disk name [0..<MAX_FILES] = Some (named disk name)"
    using find_entry_spec [OF assms, of "[0..<64]" name]
    by (simp add: named_def MAX_FILES_def lessThan_atLeast0)
  moreover have "dir_off i + 24 \<le> length disk
      \<and> read_chain disk (entry_start disk i) (unat (entry_size disk i)) = file_data disk i (ch i)"
    if "named disk name = Some i" for i
  proof -
    from that have i: "i < 64" "active disk i" using named_Some [OF assms] by auto
    then have "entry_ok disk i (ch i)" using fs_invD(4) assms by blast
    then show ?thesis
      using read_chain_linked [OF ok] i ok
      by (auto simp: file_data_def entry_ok_def dir_off_eq disk_ok_def)
  qed
  ultimately show ?thesis by (auto simp: fat_read_file_def split: option.split)
qed

section \<open>Freeing a chain\<close>

lemma linked_cong:
  assumes "\<And>x. x \<in> set cs \<Longrightarrow> read_fat d x = read_fat disk x"
  shows "linked d c cs = linked disk c cs"
  using assms by (induction cs arbitrary: c) auto

lemma linked_used:
  assumes "linked disk c cs" "0 \<notin> set (tl cs)" "x \<in> set cs"
  shows "read_fat disk x \<noteq> FAT_FREE"
  using assms
proof (induction cs arbitrary: c)
  case (Cons y cs)
  show ?case
  proof (cases "x = y")
    case True
    then show ?thesis
      using Cons.prems by (cases cs) (auto simp: FAT_FREE_def FAT_EOF_def)
  next
    case False
    then show ?thesis using Cons by (cases cs) auto
  qed
qed simp

lemma free_chain_regions:
  assumes "linked disk c cs" "0 \<notin> set (tl cs)" "distinct cs" "\<forall>x \<in> set cs. unat x < 768"
    and "4608 \<le> length disk"
  shows "length (free_chain disk c) = length disk
    \<and> slice 0 4 (free_chain disk c) = slice 0 4 disk
    \<and> (\<forall>i < 64. entry_bytes (free_chain disk c) i = entry_bytes disk i)
    \<and> (\<forall>x. data_off x + 512 \<le> length disk \<longrightarrow> cluster_data (free_chain disk c) x = cluster_data disk x)
    \<and> (\<forall>x. read_fat (free_chain disk c) x = (if c \<noteq> FAT_FREE \<and> x \<in> set cs then FAT_FREE else read_fat disk x))"
  using assms
proof (induction cs arbitrary: c disk)
  case Nil
  then show ?case by (subst (1 2 3 4 5) free_chain.simps) simp
next
  case (Cons x cs)
  show ?case
  proof (cases "c = FAT_FREE")
    case True
    then show ?thesis by (subst (1 2 3 4 5) free_chain.simps) simp
  next
    case False
    let ?d = "write_fat disk x FAT_FREE"
    have x: "c = x" "unat x < 768" "x \<noteq> FAT_EOF" using Cons.prems cluster_not_eof by auto
    have room: "FAT_START * CLUSTER_SIZE + unat x * 2 + 2 \<le> length disk"
      using x(2) Cons.prems(5) by (simp add: fat_consts)
    have "linked ?d (read_fat disk x) cs = linked disk (read_fat disk x) cs"
      by (rule linked_cong) (use Cons.prems(3) in \<open>auto simp: read_write_fat\<close>)
    then have "linked ?d (read_fat disk x) cs" using Cons.prems(1) by simp
    moreover have "0 \<notin> set (tl cs)" using Cons.prems(2) by (cases cs) auto
    moreover have "read_fat disk x \<noteq> FAT_FREE \<or> cs = []"
      using Cons.prems(1, 2) by (cases cs) (auto simp: FAT_FREE_def)
    ultimately show ?thesis
      using Cons.IH [of ?d "read_fat disk x"] Cons.prems(3-5) room False x write_fat_regions [of disk x]
      by (subst (1 2 3 4 5) free_chain.simps) (auto simp: read_write_fat)
  qed
qed

lemma clear_flag_regions:
  assumes "4608 \<le> length disk" "i < 64"
  shows "slice 0 4 (disk[dir_off i + 17 := b]) = slice 0 4 disk"
    and "j < 64 \<Longrightarrow> j \<noteq> i \<Longrightarrow> entry_bytes (disk[dir_off i + 17 := b]) j = entry_bytes disk j"
    and "data_off c + 512 \<le> length disk \<Longrightarrow> cluster_data (disk[dir_off i + 17 := b]) c = cluster_data disk c"
    and "unat c < 768 \<Longrightarrow> read_fat (disk[dir_off i + 17 := b]) c = read_fat disk c"
    and "entry_flags (disk[dir_off i + 17 := b]) i = b"
proof -
  have nth: "disk[dir_off i + 17 := b] ! k = disk ! k" if "k < dir_off i \<or> dir_off i + 32 \<le> k" for k
    using that by (intro nth_list_update_neq) auto
  have sl: "slice a n (disk[dir_off i + 17 := b]) = slice a n disk"
    if "a + n \<le> length disk" "a + n \<le> dir_off i \<or> dir_off i + 32 \<le> a" for a n
    using that nth by (intro slice_eqI) (auto simp: nth_slice)
  show "slice 0 4 (disk[dir_off i + 17 := b]) = slice 0 4 disk"
    using assms by (intro sl) (auto simp: dir_off_eq)
  show "j < 64 \<Longrightarrow> j \<noteq> i \<Longrightarrow> entry_bytes (disk[dir_off i + 17 := b]) j = entry_bytes disk j"
    unfolding entry_bytes_def using assms by (intro sl) (auto simp: dir_off_eq)
  show "data_off c + 512 \<le> length disk \<Longrightarrow> cluster_data (disk[dir_off i + 17 := b]) c = cluster_data disk c"
    unfolding cluster_data_def using assms by (intro sl) (auto simp: dir_off_eq data_off_eq)
  show "unat c < 768 \<Longrightarrow> read_fat (disk[dir_off i + 17 := b]) c = read_fat disk c"
    using assms nth by (intro read_fat_other) (auto simp: dir_off_eq)
  show "entry_flags (disk[dir_off i + 17 := b]) i = b"
    using assms by (simp add: entry_flags_def dir_off_eq)
qed

section \<open>Preserving the invariant\<close>

text \<open>
  An entry whose bytes, links and clusters a change leaves alone is still in order and keeps
  its contents.
\<close>

lemma entry_frame:
  assumes "entry_ok disk i cs" "disk_ok disk" "i < 64" "length d = length disk"
    and "entry_bytes d i = entry_bytes disk i"
    and "\<And>c. c \<in> set cs \<Longrightarrow> read_fat d c = read_fat disk c"
  shows "entry_ok d i cs"
    and "(\<And>c. c \<in> set cs \<Longrightarrow> cluster_data d c = cluster_data disk c) \<Longrightarrow> file_data d i cs = file_data disk i cs"
proof -
  have len: "4608 \<le> length disk" using assms(2) by (simp add: disk_ok_def)
  note same = entry_cong [OF len assms(4, 3, 5)]
  show "entry_ok d i cs"
    using assms(1, 4, 6) same linked_cong [of cs d disk]
    by (auto simp: entry_ok_def num_clusters_def)
  assume "\<And>c. c \<in> set cs \<Longrightarrow> cluster_data d c = cluster_data disk c"
  then show "file_data d i cs = file_data disk i cs"
    by (simp add: file_data_def same cong: map_cong)
qed

text \<open>
  The general step: outside one entry \<open>k\<close>, the directory and the chains of the active entries
  are untouched; entry \<open>k\<close> is free afterwards, or is in order with a fresh name and chain.
\<close>

lemma fs_inv_step:
  assumes inv: "fs_inv disk ch" and d: "disk_ok d" "length d = length disk" and k: "k < 64"
    and same: "\<And>i. i < 64 \<Longrightarrow> i \<noteq> k \<Longrightarrow> entry_bytes d i = entry_bytes disk i"
    and links: "\<And>i c. i < 64 \<Longrightarrow> i \<noteq> k \<Longrightarrow> active disk i \<Longrightarrow> c \<in> set (ch i) \<Longrightarrow> read_fat d c = read_fat disk c"
    and new: "entry_flags d k = 0 \<or> active d k \<and> entry_ok d k cs
       \<and> (\<forall>i < 64. i \<noteq> k \<and> active disk i \<longrightarrow>
            set (ch i) \<inter> set cs = {} \<and> entry_name_bytes disk i \<noteq> entry_name_bytes d k)"
  shows "fs_inv d (ch(k := cs))"
proof -
  have len: "4608 \<le> length disk" and ok: "disk_ok disk" using inv by (auto simp: fs_inv_def disk_ok_def)
  have flags: "entry_flags d i = entry_flags disk i" if "i < 64" "i \<noteq> k" for i
    using entry_cong(1) [OF len d(2) that(1)] same that by simp
  have name: "entry_name_bytes d i = entry_name_bytes disk i" if "i < 64" "i \<noteq> k" "active disk i" for i
    using entry_cong(5) [OF len d(2) that(1)] same that fs_invD(4) [OF inv that(1)] by (simp add: entry_ok_def)
  have ent: "entry_ok d i (ch i)" if "i < 64" "i \<noteq> k" "active disk i" for i
    using entry_frame(1) [OF fs_invD(4) [OF inv that(1, 3)] ok that(1) d(2)] same links that by simp
  have pair: "set ((ch(k := cs)) i) \<inter> set ((ch(k := cs)) j) = {} \<and> entry_name_bytes d i \<noteq> entry_name_bytes d j"
    if "i < 64" "j < 64" "active d i" "active d j" "i \<noteq> j" for i j
    using that new flags name fs_invD(5, 6) [OF inv that(1) _ that(2) _ that(5)]
    by (cases "i = k"; cases "j = k") (auto simp: Int_commute)
  show ?thesis
    unfolding fs_inv_def
  proof (intro conjI allI impI)
    show "disk_ok d" by (fact d(1))
    show "entry_flags d i = 0 \<or> active d i" if "i < 64" for i
      using new flags that fs_invD(3) [OF inv that] by (cases "i = k") auto
    show "entry_ok d i ((ch(k := cs)) i)" if "i < 64" "active d i" for i
      using that new flags ent by (cases "i = k") auto
  qed (use pair in blast)+
qed

section \<open>Deleting a file\<close>

lemma named_cong:
  assumes "fs_inv disk ch" "fs_inv d ch'" "k < 64" "\<not> active d k \<or> entry_name_bytes d k \<noteq> as_bytes name"
    and "\<not> active disk k \<or> entry_name_bytes disk k \<noteq> as_bytes name"
    and "length d = length disk" "\<And>i. i < 64 \<Longrightarrow> i \<noteq> k \<Longrightarrow> entry_bytes d i = entry_bytes disk i"
  shows "named d name = named disk name"
proof -
  have len: "4608 \<le> length disk" using assms(1) by (simp add: fs_inv_def disk_ok_def)
  have "active d i \<and> entry_name_bytes d i = as_bytes name \<longleftrightarrow> active disk i \<and> entry_name_bytes disk i = as_bytes name"
    if "i < 64" for i
  proof (cases "i = k")
    case False
    note same = entry_cong [OF len assms(6) that assms(7) [OF that False]]
    show ?thesis
      using same(1, 5) fs_invD(4) [OF assms(1) that] by (auto simp: entry_ok_def)
  qed (use assms in auto)
  then show ?thesis unfolding named_def by (intro find_cong) auto
qed

lemma fat_delete_file_spec:
  assumes inv: "fs_inv disk ch"
  obtains (missing) "named disk name = None" "fat_delete_file disk name = Some (Err ''file not found'', disk)"
  | (deleted) i d where "named disk name = Some i" "fat_delete_file disk name = Some (Ok (), d)"
      "fs_inv d ch" "length d = length disk" "named d name = None" "entry_flags d i = 0"
      "\<And>j. j < 64 \<Longrightarrow> j \<noteq> i \<Longrightarrow> entry_bytes d j = entry_bytes disk j"
      "\<And>c. unat c < num_clusters disk \<Longrightarrow> cluster_data d c = cluster_data disk c"
      "\<And>c. unat c < 768 \<Longrightarrow>
         read_fat d c = (if entry_start disk i \<noteq> FAT_FREE \<and> c \<in> set (ch i) then FAT_FREE else read_fat disk c)"
proof -
  have ok: "disk_ok disk" using inv by (simp add: fs_inv_def)
  then have len: "4608 \<le> length disk" by (simp add: disk_ok_def)
  have "range_at disk 0 4 = Some FAT_MAGIC" using ok by (simp add: range_at_def disk_ok_def)
  moreover have "find_entry disk name [0..<MAX_FILES] = Some (named disk name)"
    using find_entry_spec [OF inv, of "[0..<64]" name] by (simp add: named_def MAX_FILES_def lessThan_atLeast0)
  ultimately have del: "fat_delete_file disk name =
      (case named disk name of
         None \<Rightarrow> Some (Err ''file not found'', disk)
       | Some i \<Rightarrow> if dir_off i + 20 \<le> length disk
                   then Some (Ok (), (free_chain disk (entry_start disk i))[dir_off i + 17 := 0]) else None)"
    by (simp add: fat_delete_file_def split: option.split)
  show ?thesis
  proof (cases "named disk name")
    case None
    then show ?thesis using missing del by simp
  next
    case (Some i)
    then have i: "i < 64" "active disk i" "entry_name_bytes disk i = as_bytes name"
      using named_Some [OF inv] by auto
    have ent: "entry_ok disk i (ch i)" using fs_invD(4) [OF inv i(1, 2)] .
    let ?f = "free_chain disk (entry_start disk i)"
    have R: "length ?f = length disk" "slice 0 4 ?f = slice 0 4 disk"
      "\<And>j. j < 64 \<Longrightarrow> entry_bytes ?f j = entry_bytes disk j"
      "\<And>c. data_off c + 512 \<le> length disk \<Longrightarrow> cluster_data ?f c = cluster_data disk c"
      "\<And>c. read_fat ?f c = (if entry_start disk i \<noteq> FAT_FREE \<and> c \<in> set (ch i) then FAT_FREE else read_fat disk c)"
      using free_chain_regions [OF _ _ _ entry_ok_clusters [OF ent] len, of "entry_start disk i"] ent
      by (auto simp: entry_ok_def)
    let ?d = "?f[dir_off i + 17 := 0]"
    have len': "4608 \<le> length ?f" using len R(1) by simp
    note C = clear_flag_regions [OF len' i(1), where b = 0]
    have d: "disk_ok ?d" "length ?d = length disk" using ok R C(1) by (simp_all add: disk_ok_def)
    have ent': "entry_bytes ?d j = entry_bytes disk j" if "j < 64" "j \<noteq> i" for j
      using C(2) [OF that] R(3) that by simp
    have fat': "read_fat ?d c = (if entry_start disk i \<noteq> FAT_FREE \<and> c \<in> set (ch i) then FAT_FREE else read_fat disk c)"
      if "unat c < 768" for c using C(4) [OF that] R(5) by simp
    have "fs_inv ?d (ch(i := ch i))"
    proof (rule fs_inv_step [OF inv d i(1) ent'])
      fix j c
      assume j: "j < 64" "j \<noteq> i" "active disk j" "c \<in> set (ch j)"
      then have "entry_ok disk j (ch j)" "c \<notin> set (ch i)"
        using fs_invD(4, 5) [OF inv j(1)] i by auto
      then show "read_fat ?d c = read_fat disk c"
        using fat' [of c] j num_clusters_le [of disk] by (auto simp: entry_ok_def)
    qed (use C(5) in auto)
    then have inv': "fs_inv ?d ch" by simp
    show ?thesis
    proof (rule deleted [OF Some _ inv' d(2) _ C(5) ent' _ fat'])
      show "fat_delete_file disk name = Some (Ok (), ?d)"
        using del Some i(1) len by (simp add: dir_off_eq)
      show "named ?d name = None"
      proof (rule ccontr)
        assume "named ?d name \<noteq> None"
        then obtain j where j: "j < 64" "active ?d j" "entry_name_bytes ?d j = as_bytes name"
          using named_Some [OF inv'] by auto
        then have "j \<noteq> i" using C(5) by auto
        note same = entry_cong [OF len d(2) j(1) ent' [OF j(1) this]]
        have "active disk j" using j(2) same(1) by simp
        then have "entry_name_bytes disk j = as_bytes name"
          using same(5) j(3) fs_invD(4) [OF inv j(1)] by (auto simp: entry_ok_def)
        then show False using fs_invD(6) [OF inv j(1) \<open>active disk j\<close> i(1, 2) \<open>j \<noteq> i\<close>] i(3) by simp
      qed
      show "cluster_data ?d c = cluster_data disk c" if "unat c < num_clusters disk" for c
        using C(3) [of c] R(1, 4) cluster_in_disk [OF ok that] by simp
    qed
  qed
qed

section \<open>Writing a file\<close>

lemma alloc_clusters_take:
  assumes "length acc < needed"
  shows "alloc_clusters disk needed cs acc = acc @ take (needed - length acc) (filter (\<lambda>c. read_fat disk c = FAT_FREE) cs)"
  using assms
proof (induction cs arbitrary: acc)
  case (Cons c cs)
  then have n: "needed - length acc = Suc (needed - Suc (length acc))" by simp
  show ?case
    using Cons.IH [of "acc @ [c]"] Cons.IH [of acc] Cons.prems by (auto simp: Let_def n)
qed simp

lemma write_links_upto:
  assumes "distinct cs" "\<forall>c \<in> set cs. unat c < 768" "4608 \<le> length disk" "k \<le> length cs"
    and "d = foldl (\<lambda>d i. write_fat d (cs ! i) (f i)) disk [0..<k]"
  shows "length d = length disk \<and> slice 0 4 d = slice 0 4 disk
    \<and> (\<forall>i < 64. entry_bytes d i = entry_bytes disk i)
    \<and> (\<forall>c. data_off c + 512 \<le> length disk \<longrightarrow> cluster_data d c = cluster_data disk c)
    \<and> (\<forall>c. c \<notin> set (take k cs) \<longrightarrow> read_fat d c = read_fat disk c)
    \<and> (\<forall>i < k. read_fat d (cs ! i) = f i)"
  using assms(4, 5)
proof (induction k arbitrary: d)
  case (Suc k)
  define e where "e = foldl (\<lambda>d i. write_fat d (cs ! i) (f i)) disk [0..<k]"
  have d: "d = write_fat e (cs ! k) (f k)" using Suc.prems(2) by (simp add: e_def)
  have k: "k < length cs" "unat (cs ! k) < 768" using Suc.prems assms(2) by auto
  note IH = Suc.IH [OF _ e_def]
  have room: "FAT_START * CLUSTER_SIZE + unat (cs ! k) * 2 + 2 \<le> length e" "4608 \<le> length e"
    using k assms(3) IH by (simp_all add: fat_consts)
  have neq: "cs ! i \<noteq> cs ! k" if "i < k" for i using that k assms(1) by (simp add: nth_eq_iff_index_eq)
  have "\<forall>i < Suc k. read_fat d (cs ! i) = f i"
    using IH k neq room(1) by (auto simp: d read_write_fat less_Suc_eq)
  moreover have "\<forall>c. c \<notin> set (take (Suc k) cs) \<longrightarrow> read_fat d c = read_fat disk c"
    using IH k by (auto simp: d read_write_fat take_Suc_conv_app_nth)
  ultimately show ?case
    using IH k write_fat_regions [OF room(2) k(2), where v = "f k"] by (auto simp: d)
qed simp

lemma linked_nth:
  assumes "\<And>i. i < length cs \<Longrightarrow> read_fat d (cs ! i) = (if i + 1 < length cs then cs ! (i + 1) else FAT_EOF)"
    and "k < length cs"
  shows "linked d (cs ! k) (drop k cs)"
  using assms(2)
proof (induction "length cs - k" arbitrary: k)
  case (Suc n)
  then have k: "drop k cs = cs ! k # drop (Suc k) cs" by (simp add: Cons_nth_drop_Suc)
  show ?case
  proof (cases "Suc k < length cs")
    case True
    then have "linked d (cs ! Suc k) (drop (Suc k) cs)" using Suc by simp
    then show ?thesis using k True assms(1) [OF Suc.prems] by simp
  next
    case False
    then show ?thesis using k assms(1) [OF Suc.prems] by simp
  qed
qed simp

lemma write_clusters_spec:
  assumes "disk_ok disk" "distinct cs" "\<forall>c \<in> set cs. unat c < num_clusters disk"
    and "written \<le> length contents" "length contents - written \<le> 512 * length cs"
  obtains d where "write_clusters disk contents cs written = Some d" "length d = length disk" "disk_ok d"
    "\<And>i. i < 64 \<Longrightarrow> entry_bytes d i = entry_bytes disk i"
    "\<And>c. unat c < 768 \<Longrightarrow> read_fat d c = read_fat disk c"
    "\<And>c. c \<notin> set cs \<Longrightarrow> unat c < num_clusters disk \<Longrightarrow> cluster_data d c = cluster_data disk c"
    "take (length contents - written) (concat (map (cluster_data d) cs)) = drop written contents"
  using assms
proof (induction cs arbitrary: disk written thesis)
  case Nil
  then show ?case by (intro Nil.prems(1) [of disk]) auto
next
  case (Cons c cs)
  define n where "n = min (length contents - written) 512"
  define bs where "bs = slice written n contents"
  define e where "e = splice (data_off c) bs disk"
  have c: "unat c < num_clusters disk" "c \<notin> set cs" "data_off c + 512 \<le> length disk"
    using Cons.prems cluster_in_disk by auto
  have bs: "length bs = n" "n \<le> 512" using Cons.prems(5) by (auto simp: bs_def n_def)
  have len: "4608 \<le> length disk" using Cons.prems(2) by (simp add: disk_ok_def)
  have fits: "data_off c + length bs \<le> length disk" using c bs by simp
  note W = write_data_regions [OF len fits, unfolded e_def [symmetric]]
  have e: "length e = length disk" "disk_ok e" "num_clusters e = num_clusters disk"
    using fits W(1) bs Cons.prems(2) by (simp_all add: e_def disk_ok_def num_clusters_def)
  have "written + n \<le> length contents" "length contents - (written + n) \<le> 512 * length cs"
    using Cons.prems(5, 6) by (auto simp: n_def)
  then obtain d where d: "write_clusters e contents cs (written + n) = Some d" "length d = length e" "disk_ok d"
    "\<And>i. i < 64 \<Longrightarrow> entry_bytes d i = entry_bytes e i"
    "\<And>c. unat c < 768 \<Longrightarrow> read_fat d c = read_fat e c"
    "\<And>c. c \<notin> set cs \<Longrightarrow> unat c < num_clusters e \<Longrightarrow> cluster_data d c = cluster_data e c"
    "take (length contents - (written + n)) (concat (map (cluster_data d) cs)) = drop (written + n) contents"
    using Cons.IH [of e "written + n"] Cons.prems e by auto
  have dc: "cluster_data d c = cluster_data e c" "length (cluster_data d c) = 512"
    using d(2, 6) c e by (auto simp: cluster_data_def)
  have "take n (cluster_data e c) = bs"
    using slice_splice_same [OF fits] bs by (simp add: e_def cluster_data_def slice_def min_def)
  then have "take (length contents - written) (concat (map (cluster_data d) (c # cs))) = drop written contents"
  proof (cases "length contents - written \<le> 512")
    case True
    then have "n = length contents - written" by (simp add: n_def)
    then show ?thesis
      using dc \<open>take n (cluster_data e c) = bs\<close> True by (simp add: bs_def slice_def)
  next
    case False
    then have n: "n = 512" by (simp add: n_def)
    have "bs @ drop (written + n) contents = drop written contents"
      by (simp add: bs_def slice_def) (metis add.commute append_take_drop_id drop_drop)
    then show ?thesis
      using dc d(7) n False \<open>take n (cluster_data e c) = bs\<close> by simp
  qed
  moreover have "write_clusters disk contents (c # cs) written = Some d"
    using d(1) fits bs by (simp add: Let_def CLUSTER_SIZE_def n_def [symmetric] e_def bs_def)
  ultimately show ?case
    using d e c W bs num_clusters_le [of disk] cluster_in_disk [OF Cons.prems(2)]
    by (intro Cons.prems(1) [of d]) auto
qed

lemma fill_entry_regions:
  assumes "4608 \<le> length disk" "k < 64" "length name \<le> 16" "d = fill_entry disk k name start fsize"
  shows "length d = length disk" "slice 0 4 d = slice 0 4 disk"
    and "\<And>i. i < 64 \<Longrightarrow> i \<noteq> k \<Longrightarrow> entry_bytes d i = entry_bytes disk i"
    and "\<And>c. data_off c + 512 \<le> length disk \<Longrightarrow> cluster_data d c = cluster_data disk c"
    and "\<And>c. unat c < 768 \<Longrightarrow> read_fat d c = read_fat disk c"
    and "active d k" "entry_name_len d k = length name" "entry_name_bytes d k = as_bytes name"
    and "entry_start d k = start" "entry_size d k = fsize"
proof -
  let ?o = "dir_off k"
  have room: "?o + 32 \<le> length disk" using assms(1, 2) by (simp add: dir_off_eq)
  have d: "d = splice (?o + 20) (u32_to_le fsize) (splice (?o + 18) (u16_to_le start)
      ((splice ?o (as_bytes name) disk)[?o + 16 := of_nat (length name), ?o + 17 := 1]))"
    by (simp add: assms(4) fill_entry_def Let_def)
  show len: "length d = length disk" using room assms(3) by (simp add: d)
  have nth: "d ! j = disk ! j" if "j < length disk" "j < ?o \<or> ?o + 32 \<le> j" for j
    using that room assms(3) by (auto simp: d nth_splice nth_list_update)
  have sl: "slice a n d = slice a n disk"
    if "a + n \<le> length disk" "a + n \<le> ?o \<or> ?o + 32 \<le> a" for a n
    using that nth len by (intro slice_eqI) (auto simp: nth_slice)
  show "slice 0 4 d = slice 0 4 disk" using assms(1) by (intro sl) (auto simp: dir_off_eq)
  show "entry_bytes d i = entry_bytes disk i" if "i < 64" "i \<noteq> k" for i
    unfolding entry_bytes_def using that assms(1) by (intro sl) (auto simp: dir_off_eq)
  show "cluster_data d c = cluster_data disk c" if "data_off c + 512 \<le> length disk" for c
    unfolding cluster_data_def using that assms(2) by (intro sl) (auto simp: dir_off_eq data_off_eq)
  show "read_fat d c = read_fat disk c" if "unat c < 768" for c
    using nth len assms(1) that by (intro read_fat_other) (auto simp: dir_off_eq)
  have n16: "d ! (?o + 16) = of_nat (length name)" "d ! (?o + 17) = 1"
    using room assms(3) by (simp_all add: d nth_splice)
  then show "active d k" by (simp add: entry_flags_def)
  show nl: "entry_name_len d k = length name"
    using n16 assms(3) by (simp add: entry_name_len_def unat_of_nat)
  have "d ! (?o + j) = as_bytes name ! j" if "j < length name" for j
    using that room assms(3) by (simp add: d nth_splice nth_list_update)
  then show "entry_name_bytes d k = as_bytes name"
    using room assms(3) len by (auto simp: entry_name_bytes_def nl intro!: slice_eqI)
  have "d ! (?o + 18 + j) = u16_to_le start ! j" if "j < 2" for j
    using that room assms(3) by (simp add: d nth_splice)
  from this [of 0] this [of 1] show "entry_start d k = start"
    by (simp add: entry_start_def u16_to_le_def add.commute)
  have "d ! (?o + 20 + j) = u32_to_le fsize ! j" if "j < 4" for j
    using that room assms(3) by (simp add: d nth_splice)
  from this [of 0] this [of 1] this [of 2] this [of 3] show "entry_size d k = fsize"
    by (simp add: entry_size_def u32_to_le_def add.commute)
qed

lemma add_entry_first:
  assumes "4608 \<le> length disk" "set is \<subseteq> {..<64}"
  shows "add_entry disk name start fsize is =
    (case find (\<lambda>i. entry_flags disk i = 0) is of
       None \<Rightarrow> Some (Err ''directory full'', disk)
     | Some i \<Rightarrow> Some (Ok (), fill_entry disk i name start fsize))"
  using assms(2)
proof (induction "is")
  case (Cons i "is")
  then have "dir_off i + 32 \<le> length disk" using assms(1) by (simp add: dir_off_eq)
  then show ?case using Cons by (simp add: byte_at_def entry_flags_def)
qed simp

text \<open>The clusters a write takes: the first free ones.\<close>

definition free_clusters :: "disk \<Rightarrow> u16 list" where
  "free_clusters disk = filter (\<lambda>c. read_fat disk c = FAT_FREE) (map of_nat [0..<num_clusters disk])"

lemma allocated_spec:
  assumes "0 < needed" "needed \<le> length (free_clusters disk)"
  defines "cs \<equiv> alloc_clusters disk needed (map of_nat [0..<768]) []"
  shows "length cs = needed" "distinct cs" "0 \<notin> set (tl cs)"
    "\<And>c. c \<in> set cs \<Longrightarrow> unat c < num_clusters disk \<and> read_fat disk c = FAT_FREE"
proof -
  have "[0..<768] = [0..<num_clusters disk] @ [num_clusters disk..<768]"
    using num_clusters_le [of disk] by (metis le_add_diff_inverse upt_add_eq_append zero_le)
  then have "cs = take needed (free_clusters disk)"
    using alloc_clusters_take [of "[]" needed disk "map of_nat [0..<768]"] assms(1, 2)
    by (simp add: cs_def free_clusters_def)
  moreover have inj: "inj_on (of_nat :: nat \<Rightarrow> u16) {0..<768}"
    by (rule inj_on_inverseI [of _ unat]) (simp add: unat_768)
  then have "distinct (free_clusters disk)"
    using num_clusters_le [of disk]
    by (auto simp: free_clusters_def distinct_map intro!: distinct_filter inj_on_subset [OF inj])
  moreover have "c \<in> set (free_clusters disk) \<Longrightarrow> unat c < num_clusters disk \<and> read_fat disk c = FAT_FREE" for c
    using num_clusters_le [of disk] by (auto simp: free_clusters_def unat_768)
  moreover have "0 \<notin> set (tl (free_clusters disk))"
  proof (cases "num_clusters disk")
    case (Suc n)
    then have "(0 :: u16) \<notin> set (map of_nat [1..<num_clusters disk])"
      using num_clusters_le [of disk] of_nat_768 by (fastforce simp del: upt_Suc)
    moreover have "set (tl xs) \<subseteq> set xs" for xs :: "u16 list" by (cases xs) auto
    ultimately show ?thesis using Suc
      by (fastforce simp: free_clusters_def upt_conv_Cons simp del: upt_Suc split: if_splits)
  qed (simp add: free_clusters_def)
  ultimately show "length cs = needed" "distinct cs" "0 \<notin> set (tl cs)"
    "\<And>c. c \<in> set cs \<Longrightarrow> unat c < num_clusters disk \<and> read_fat disk c = FAT_FREE"
    using assms(1, 2) by (auto simp: tl_take dest: in_set_takeD)
qed

lemma free_not_in_chain:
  assumes "fs_inv disk ch" "i < 64" "active disk i" "read_fat disk c = FAT_FREE"
  shows "c \<notin> set (ch i)"
  using fs_invD(4) [OF assms(1-3)] linked_used assms(4) by (auto simp: entry_ok_def)

lemma named_new:
  assumes "fs_inv disk ch" "fs_inv d ch'" "k < 64" "\<not> active disk k" "entry_name_bytes d k \<noteq> as_bytes n"
    and "length d = length disk" "\<And>i. i < 64 \<Longrightarrow> i \<noteq> k \<Longrightarrow> entry_bytes d i = entry_bytes disk i"
    and "\<And>i c. i < 64 \<Longrightarrow> active disk i \<Longrightarrow> c \<in> set (ch i) \<Longrightarrow> cluster_data d c = cluster_data disk c"
    and "\<And>i c. i < 64 \<Longrightarrow> active disk i \<Longrightarrow> c \<in> set (ch i) \<Longrightarrow> read_fat d c = read_fat disk c"
    and "\<And>i. i \<noteq> k \<Longrightarrow> ch' i = ch i"
  shows "fat_read_file d n = fat_read_file disk n"
proof -
  have "named d n = named disk n"
    using assms by (intro named_cong [OF assms(1-3)]) auto
  moreover have "file_data d i (ch' i) = file_data disk i (ch i)" if "named disk n = Some i" for i
  proof -
    have i: "i < 64" "active disk i" using that named_Some [OF assms(1)] by auto
    then have "i \<noteq> k" using assms(4) by auto
    then show ?thesis
      using entry_frame(2) [OF fs_invD(4) [OF assms(1) i] fs_invD(1) [OF assms(1) i(1)] i(1) assms(6)]
        assms(7-10) i by simp
  qed
  ultimately show ?thesis
    by (cases "named disk n") (auto simp: fat_read_file_spec [OF assms(1)] fat_read_file_spec [OF assms(2)])
qed

lemma write_fresh:
  assumes inv: "fs_inv disk ch" and fresh: "named disk name = None"
    and name: "utf8_valid (as_bytes name)" "length name \<le> 16"
    and n: "0 < length contents" "n = (length contents + 511) div 512" "n \<le> length (free_clusters disk)"
    and slot: "\<exists>i < 64. entry_flags disk i = 0"
    and cs: "cs = alloc_clusters disk n (map of_nat [0..<768]) []"
  obtains e d ch' where "write_clusters (link_clusters disk cs) contents cs 0 = Some e"
    "add_entry e name (cs ! 0) (of_nat (length contents)) [0..<64] = Some (Ok (), d)"
    "fs_inv d ch'" "fat_read_file d name = Some (Some contents)" "length d = length disk"
    "\<And>m. m \<noteq> name \<Longrightarrow> fat_read_file d m = fat_read_file disk m"
proof -
  have ok: "disk_ok disk" "4608 \<le> length disk" using inv by (auto simp: fs_inv_def disk_ok_def)
  have "0 < n" unfolding n(2) div_greater_zero_iff using n(1) by linarith
  note A = allocated_spec [OF this n(3), folded cs]
  have cs768: "\<forall>c \<in> set cs. unat c < 768" using A(4) num_clusters_le [of disk] by fastforce
  have big: "length contents \<le> 512 * n" "n \<le> 768" "length contents < 2 ^ 32"
  proof -
    show le: "length contents \<le> 512 * n" using n(2) by simp
    have "length (free_clusters disk) \<le> num_clusters disk"
      using length_filter_le [of _ "map of_nat [0..<num_clusters disk]"] by (simp add: free_clusters_def)
    then show "n \<le> 768" using n(3) num_clusters_le [of disk] by simp
    then show "length contents < 2 ^ 32" using le by simp
  qed
  define l where "l = link_clusters disk cs"
  have L: "length l = length disk" "slice 0 4 l = slice 0 4 disk"
    "\<And>i. i < 64 \<Longrightarrow> entry_bytes l i = entry_bytes disk i"
    "\<And>c. data_off c + 512 \<le> length disk \<Longrightarrow> cluster_data l c = cluster_data disk c"
    "\<And>c. c \<notin> set cs \<Longrightarrow> read_fat l c = read_fat disk c"
    "\<And>i. i < length cs \<Longrightarrow> read_fat l (cs ! i) = (if i + 1 < length cs then cs ! (i + 1) else FAT_EOF)"
    using write_links_upto [OF A(2) cs768 ok(2), of "length cs" l] by (auto simp: l_def link_clusters_def)
  have l: "disk_ok l" "num_clusters l = num_clusters disk"
    using ok L(1, 2) by (simp_all add: disk_ok_def num_clusters_def)
  obtain e where e: "write_clusters l contents cs 0 = Some e" "length e = length l" "disk_ok e"
    "\<And>i. i < 64 \<Longrightarrow> entry_bytes e i = entry_bytes l i"
    "\<And>c. unat c < 768 \<Longrightarrow> read_fat e c = read_fat l c"
    "\<And>c. c \<notin> set cs \<Longrightarrow> unat c < num_clusters l \<Longrightarrow> cluster_data e c = cluster_data l c"
    "take (length contents - 0) (concat (map (cluster_data e) cs)) = drop 0 contents"
    using write_clusters_spec [OF l(1) A(2), of 0 contents] A(1, 4) big(1) l(2) by auto
  have elen: "length e = length disk" "4608 \<le> length e" using e(2) L(1) ok(2) by simp_all
  have flags_e: "entry_flags e i = entry_flags disk i" if "i < 64" for i
    using entry_cong(1) [OF ok(2) elen(1) that] e(4) L(3) that by simp
  obtain k where k: "find (\<lambda>i. entry_flags e i = 0) [0..<64] = Some k" "k < 64" "entry_flags disk k = 0"
  proof -
    obtain i where "i < 64" "entry_flags e i = 0" using slot flags_e by auto
    then obtain k where k: "find (\<lambda>i. entry_flags e i = 0) [0..<64] = Some k"
      by (cases "find (\<lambda>i. entry_flags e i = 0) [0..<64]") (auto simp: find_None_iff)
    then show thesis using that find_Some_in [OF k] flags_e by auto
  qed
  define d where "d = fill_entry e k name (cs ! 0) (of_nat (length contents))"
  note F = fill_entry_regions [OF elen(2) k(2) name(2) d_def]
  have dlen: "length d = length disk" using F(1) elen(1) by simp
  have d_ok: "disk_ok d" using e(3) F(1, 2) by (simp add: disk_ok_def)
  have fat: "read_fat d c = read_fat l c" if "unat c < 768" for c using F(5) e(5) that by simp
  have data: "cluster_data d c = cluster_data e c" if "unat c < num_clusters disk" for c
    using F(4) [of c] cluster_in_disk [OF ok(1) that] elen(1) by simp
  have ent: "entry_bytes d i = entry_bytes disk i" if "i < 64" "i \<noteq> k" for i
    using F(3) e(4) L(3) that by simp
  have sz: "unat (entry_size d k) = length contents"
    using F(10) big(3) by (simp add: unat_of_nat)
  have "cs \<noteq> []" using A(1) \<open>0 < n\<close> by auto
  have linked: "linked d (cs ! 0) cs"
    using linked_nth [of cs d 0] L(6) fat cs768 \<open>cs \<noteq> []\<close> by simp
  have ent_k: "entry_ok d k cs"
    unfolding entry_ok_def using F(7-9) name linked A n(1, 2) sz dlen
    by (auto simp: num_clusters_def)
  have chain: "c \<notin> set cs \<and> unat c < num_clusters disk" if "i < 64" "active disk i" "c \<in> set (ch i)" for i c
    using free_not_in_chain [OF inv that(1, 2)] A(4) fs_invD(4) [OF inv that(1, 2)] that(3)
    by (auto simp: entry_ok_def)
  have links: "read_fat d c = read_fat disk c" if "i < 64" "active disk i" "c \<in> set (ch i)" for i c
    using chain [OF that] fat [of c] L(5) [of c] num_clusters_le [of disk] by simp
  have inv': "fs_inv d (ch(k := cs))"
  proof (rule fs_inv_step [OF inv d_ok dlen k(2) ent])
    show "entry_flags d k = 0 \<or> active d k \<and> entry_ok d k cs
      \<and> (\<forall>i<64. i \<noteq> k \<and> active disk i \<longrightarrow>
            set (ch i) \<inter> set cs = {} \<and> entry_name_bytes disk i \<noteq> entry_name_bytes d k)"
      using F(6, 8) ent_k chain fresh by (auto simp: named_None)
  qed (use links in auto)
  have "named d name = Some k" using named_Some [OF inv'] k(2) F(6, 8) by simp
  moreover have "file_data d k cs = contents"
    using e(7) data A(4) by (simp add: file_data_def sz cong: map_cong)
  ultimately have read: "fat_read_file d name = Some (Some contents)"
    by (simp add: fat_read_file_spec [OF inv'])
  have others: "fat_read_file d m = fat_read_file disk m" if "m \<noteq> name" for m
  proof (rule named_new [OF inv inv' k(2)])
    show "entry_name_bytes d k \<noteq> as_bytes m" using that F(8) by (metis from_bytes_as_bytes)
    show "cluster_data d c = cluster_data disk c" if "i < 64" "active disk i" "c \<in> set (ch i)" for i c
      using chain [OF that] data e(6) l(2) L(4) cluster_in_disk [OF ok(1)] by simp
  qed (use k ent dlen links in auto)
  have "add_entry e name (cs ! 0) (of_nat (length contents)) [0..<64] = Some (Ok (), d)"
    using add_entry_first [OF elen(2), of "[0..<64]"] k(1) by (simp add: d_def lessThan_atLeast0)
  then show thesis using that e(1) inv' read others dlen unfolding l_def by blast
qed

lemma length_filter_mono:
  "(\<And>x. x \<in> set xs \<Longrightarrow> P x \<Longrightarrow> Q x) \<Longrightarrow> length (filter P xs) \<le> length (filter Q xs)"
  by (induction xs) auto

lemma delete_result:
  assumes inv: "fs_inv disk ch"
  obtains r d where "fat_delete_file disk name = Some (r, d)" "fs_inv d ch" "named d name = None"
    "length d = length disk" "length (free_clusters disk) \<le> length (free_clusters d)"
    "named disk name \<noteq> None \<or> (\<exists>i < 64. entry_flags disk i = 0) \<Longrightarrow> \<exists>i < 64. entry_flags d i = 0"
    "\<And>m. m \<noteq> name \<Longrightarrow> fat_read_file d m = fat_read_file disk m"
proof (cases rule: fat_delete_file_spec [OF inv, of name])
  case 1
  then show ?thesis using that inv by blast
next
  case (2 i d)
  have i: "i < 64" "active disk i" "entry_name_bytes disk i = as_bytes name"
    using 2(1) named_Some [OF inv] by auto
  have nc: "num_clusters d = num_clusters disk" using 2(4) by (simp add: num_clusters_def)
  have len: "4608 \<le> length disk" using inv by (simp add: fs_inv_def disk_ok_def)
  have chain: "c \<notin> set (ch i) \<and> unat c < num_clusters disk" if "j < 64" "j \<noteq> i" "active disk j" "c \<in> set (ch j)" for j c
    using fs_invD(4, 5) [OF inv that(1, 3)] that i by (auto simp: entry_ok_def)
  have "length (free_clusters disk) \<le> length (free_clusters d)"
  proof -
    have "read_fat d c = FAT_FREE" if "read_fat disk c = FAT_FREE" "unat c < num_clusters disk" for c
      using 2(9) [of c] that num_clusters_le [of disk] by simp
    then show ?thesis
      unfolding free_clusters_def nc using num_clusters_le [of disk]
      by (intro length_filter_mono) (auto simp: unat_768)
  qed
  moreover have "fat_read_file d m = fat_read_file disk m" if "m \<noteq> name" for m
  proof -
    have neq: "as_bytes m \<noteq> as_bytes name" using that by (metis from_bytes_as_bytes)
    have named: "named d m = named disk m"
      using 2(4, 6, 7) i neq by (intro named_cong [OF inv 2(3) i(1)]) auto
    have "file_data d j (ch j) = file_data disk j (ch j)" if j: "named disk m = Some j" for j
    proof -
      have j': "j < 64" "active disk j" "j \<noteq> i" using j named_Some [OF inv] i neq by auto
      have "read_fat d c = read_fat disk c \<and> cluster_data d c = cluster_data disk c" if "c \<in> set (ch j)" for c
        using chain [OF j'(1, 3, 2) that] 2(8, 9) [of c] num_clusters_le [of disk] by simp
      then show ?thesis
        using entry_frame(2) [OF fs_invD(4) [OF inv j'(1, 2)] fs_invD(1) [OF inv j'(1)] j'(1) 2(4) 2(7) [OF j'(1, 3)]]
        by simp
    qed
    then show ?thesis
      by (cases "named disk m") (simp_all add: fat_read_file_spec [OF inv] fat_read_file_spec [OF 2(3)] named)
  qed
  ultimately show ?thesis using that 2 i(1) by blast
qed

section \<open>Correctness\<close>

lemma fat_write_read_aux:
  assumes "mf16_ok disk" "utf8_valid (as_bytes name)" "length name \<le> 16" "contents \<noteq> []"
    and "(length contents + 511) div 512 \<le> length (free_clusters disk)"
    and "fat_read_file disk name \<noteq> Some None \<or> (\<exists>i < 64. entry_flags disk i = 0)"
  shows "\<exists>d. fat_write_file disk name contents = Some (Ok (), d) \<and> mf16_ok d \<and> length d = length disk
    \<and> (\<forall>m. fat_read_file d m = (if m = name then Some (Some contents) else fat_read_file disk m))"
proof -
  obtain ch where inv: "fs_inv disk ch" using assms(1) by (auto simp: mf16_ok_def)
  obtain r d where d: "fat_delete_file disk name = Some (r, d)" "fs_inv d ch" "named d name = None"
    "length d = length disk" "length (free_clusters disk) \<le> length (free_clusters d)"
    "named disk name \<noteq> None \<or> (\<exists>i < 64. entry_flags disk i = 0) \<Longrightarrow> \<exists>i < 64. entry_flags d i = 0"
    "\<And>m. m \<noteq> name \<Longrightarrow> fat_read_file d m = fat_read_file disk m"
    using delete_result [OF inv] by blast
  define n where "n = (length contents + 511) div 512"
  define cs where "cs = alloc_clusters d n (map of_nat [0..<768]) []"
  have slot: "\<exists>i < 64. entry_flags d i = 0"
    using d(6) assms(6) fat_read_file_spec [OF inv, of name] by auto
  have n: "0 < length contents" "n \<le> length (free_clusters d)"
    using assms(4, 5) d(5) by (auto simp: n_def)
  obtain e f ch' where w: "write_clusters (link_clusters d cs) contents cs 0 = Some e"
    "add_entry e name (cs ! 0) (of_nat (length contents)) [0..<64] = Some (Ok (), f)"
    "fs_inv f ch'" "fat_read_file f name = Some (Some contents)" "length f = length d"
    "\<And>m. m \<noteq> name \<Longrightarrow> fat_read_file f m = fat_read_file d m"
    using write_fresh [OF d(2, 3) assms(2, 3) n(1) n_def n(2) slot cs_def] by metis
  have "0 < n" unfolding n_def div_greater_zero_iff using n(1) by linarith
  then have len: "length cs = n" using allocated_spec(1) [OF _ n(2)] by (simp add: cs_def)
  have magic: "range_at disk 0 4 = Some FAT_MAGIC"
    using inv by (simp add: fs_inv_def disk_ok_def range_at_def)
  have cst: "(length contents + CLUSTER_SIZE - 1) div CLUSTER_SIZE = n" "FAT_BLOCKS * CLUSTER_SIZE div 2 = 768"
    "MAX_FILES = 64"
    by (simp_all add: fat_consts n_def add.commute)
  have "fat_write_file disk name contents = Some (Ok (), f)"
    unfolding fat_write_file_def cst
    using magic d(1) assms(3) w(1, 2) len \<open>0 < n\<close> by (simp add: cs_def [symmetric] Let_def)
  then show ?thesis using w d(4, 7) by (auto simp: mf16_ok_def)
qed

text \<open>
  C21. A file that is written is read back, byte for byte, and every other file keeps its
  contents: on a disk in order, writing a nonempty file under a valid name of at most sixteen
  bytes succeeds whenever enough clusters of the data area and a directory slot are free (the
  slot of a file of that name counts as free), it leaves the disk in order, and reads after it
  answer the new contents for that name and what they answered before for any other.
\<close>

theorem fat_write_read:
  assumes "mf16_ok disk" "utf8_valid (as_bytes name)" "length name \<le> 16" "contents \<noteq> []"
    and "(length contents + 511) div 512 \<le> length (free_clusters disk)"
    and "fat_read_file disk name \<noteq> Some None \<or> (\<exists>i < 64. entry_flags disk i = 0)"
  shows "\<exists>d. fat_write_file disk name contents = Some (Ok (), d) \<and> mf16_ok d \<and> length d = length disk
    \<and> (\<forall>m. fat_read_file d m = (if m = name then Some (Some contents) else fat_read_file disk m))"
  by (rule fat_write_read_aux [OF assms])

lemma fat_format_ok:
  assumes "4608 \<le> length disk" "512 dvd length disk"
  defines "d \<equiv> snd (fat_format disk)"
  shows "fst (fat_format disk) = Ok ()" "fs_inv d ch" "fat_read_file d name = Some None"
    "free_clusters d = map of_nat [0..<num_clusters disk]" "i < 64 \<Longrightarrow> entry_flags d i = 0"
    "length d = length disk"
proof -
  have m: "length FAT_MAGIC = 4" by (simp add: FAT_MAGIC_def)
  have d: "d = splice 0 FAT_MAGIC (replicate (length disk) 0)" "fst (fat_format disk) = Ok ()"
    using assms(1) by (simp_all add: d_def fat_format_def fat_consts)
  show "fst (fat_format disk) = Ok ()" by (fact d(2))
  show len: "length d = length disk" using assms(1) m by (simp add: d)
  have nth: "d ! j = 0" if "4 \<le> j" "j < length disk" for j
    using that m by (simp add: d nth_splice)
  have flags: "entry_flags d i = 0" if "i < 64" for i
    using nth assms(1) that by (simp add: entry_flags_def dir_off_eq)
  then show "i < 64 \<Longrightarrow> entry_flags d i = 0" .
  have "slice 0 4 d = FAT_MAGIC"
    using slice_splice_same [of 0 FAT_MAGIC "replicate (length disk) 0"] assms(1) m by (simp add: d)
  then have ok: "disk_ok d" using assms(1, 2) len by (simp add: disk_ok_def)
  show inv: "fs_inv d ch" using ok flags by (simp add: fs_inv_def)
  show "fat_read_file d name = Some None"
    using flags by (simp add: fat_read_file_spec [OF inv] named_None)
  have "read_fat d (of_nat c) = FAT_FREE" if "c < num_clusters disk" for c
    using that nth len assms(1) num_clusters_le [of disk]
    by (simp add: read_fat_def fat_consts unat_768 u16_from_le_def Let_def)
  then show "free_clusters d = map of_nat [0..<num_clusters disk]"
    using len by (simp add: free_clusters_def num_clusters_def filter_map comp_def)
qed

theorem fat_write_read_witness:
  "\<exists>d. fat_write_file (snd (fat_format (replicate 8192 0))) ''notes'' [1, 2, 3] = Some (Ok (), d)
     \<and> mf16_ok d \<and> fat_read_file d ''notes'' = Some (Some [1, 2, 3])"
proof -
  note F = fat_format_ok [of "replicate 8192 0"]
  have "mf16_ok (snd (fat_format (replicate 8192 0)))" using F(2) by (auto simp: mf16_ok_def)
  moreover have "length (free_clusters (snd (fat_format (replicate 8192 0)))) = 8"
    using F(4) by (simp add: num_clusters_def)
  moreover have "utf8_valid (as_bytes ''notes'')" by (rule ascii_utf8_valid) (simp add: is_ascii_def)
  moreover have "\<exists>i < 64. entry_flags (snd (fat_format (replicate 8192 0))) i = 0"
    using F(5) by (intro exI [of _ 0]) simp
  ultimately show ?thesis
    using fat_write_read [of "snd (fat_format (replicate 8192 0))" "''notes''" "[1, 2, 3]"] by auto
qed

text \<open>
  Deleting a file removes it and nothing else: on a disk in order the call reports whether
  there was a file of that name, the disk stays in order, the name is not found any more, and
  every other file keeps its contents. The call ends on every disk, in order or not.
\<close>

lemma fat_delete_correct:
  assumes "mf16_ok disk"
  shows "\<exists>r d. fat_delete_file disk name = Some (r, d) \<and> mf16_ok d
    \<and> (r = Ok () \<longleftrightarrow> fat_read_file disk name \<noteq> Some None)
    \<and> (\<forall>m. fat_read_file d m = (if m = name then Some None else fat_read_file disk m))"
proof -
  obtain ch where inv: "fs_inv disk ch" using assms by (auto simp: mf16_ok_def)
  obtain r d where d: "fat_delete_file disk name = Some (r, d)" "fs_inv d ch" "named d name = None"
    "\<And>m. m \<noteq> name \<Longrightarrow> fat_read_file d m = fat_read_file disk m"
    using delete_result [OF inv] by metis
  have "r = Ok () \<longleftrightarrow> fat_read_file disk name \<noteq> Some None"
    using d(1) fat_read_file_spec [OF inv, of name]
    by (cases rule: fat_delete_file_spec [OF inv, of name]) auto
  moreover have "fat_read_file d name = Some None" by (simp add: fat_read_file_spec [OF d(2)] d(3))
  ultimately show ?thesis using d by (auto simp: mf16_ok_def)
qed

lemma fat_delete_correct_instance:
  "\<exists>d. fat_delete_file (snd (fat_format (replicate 8192 0))) ''notes'' = Some (Err ''file not found'', d)
     \<and> mf16_ok d"
proof -
  let ?f = "snd (fat_format (replicate 8192 0))"
  note F = fat_format_ok [of "replicate 8192 0"]
  have "mf16_ok ?f" using F(2) by (auto simp: mf16_ok_def)
  from fat_delete_correct [OF this, of "''notes''"] obtain r d
    where d: "fat_delete_file ?f ''notes'' = Some (r, d)" "mf16_ok d" "r \<noteq> Ok ()"
    using F(3) by auto
  then have "r = Err ''file not found''"
    using fat_delete_file_spec [OF F(2) [of "\<lambda>_. []"], of "''notes''"] by force
  with d show ?thesis by auto
qed

section \<open>Where the file system falls short\<close>

text \<open>
  Cluster 0 is a data cluster, but link value 0 also means free: the loop that frees a chain
  stops at once on a file that starts at cluster 0, so the clusters of the first file of a disk
  are never given back.
\<close>

lemma first_file_leaks:
  assumes "fs_inv disk ch" "named disk name = Some i" "entry_start disk i = 0" "c \<in> set (ch i)"
    and "fat_delete_file disk name = Some (Ok (), d)"
  shows "read_fat d c = read_fat disk c \<and> read_fat d c \<noteq> FAT_FREE"
proof -
  have i: "i < 64" "active disk i" using assms(2) named_Some [OF assms(1)] by auto
  note E = fs_invD(4) [OF assms(1) i]
  have "unat c < 768" using entry_ok_clusters [OF E] assms(4) by blast
  then have "read_fat d c = read_fat disk c"
    using assms(2, 3, 5) by (cases rule: fat_delete_file_spec [OF assms(1), of name]) (auto simp: FAT_FREE_def)
  moreover have "read_fat disk c \<noteq> FAT_FREE"
    using linked_used E assms(4) by (auto simp: entry_ok_def)
  ultimately show ?thesis by simp
qed

text \<open>
  The table has 768 links but a disk may hold fewer clusters: a write that needs more clusters
  than the disk has, and not more than the table has, indexes past the end of the disk.
\<close>

lemma write_clusters_past_end:
  assumes "c \<in> set cs" "length disk \<le> data_off c" "512 * (length cs - 1) < length contents - written"
  shows "write_clusters disk contents cs written = None"
  using assms
proof (induction cs arbitrary: disk written)
  case (Cons x cs)
  let ?n = "min (length contents - written) CLUSTER_SIZE"
  have n: "0 < ?n" using Cons.prems(3) by (simp add: CLUSTER_SIZE_def)
  show ?case
  proof (cases "data_off x + ?n \<le> length disk")
    case True
    then have "x \<noteq> c" using Cons.prems(2) n by auto
    then have c: "c \<in> set cs" using Cons.prems(1) by simp
    then have "1 \<le> length cs" by (cases cs) auto
    then have full: "?n = 512" "512 * (length cs - 1) < length contents - (written + 512)"
      using Cons.prems(3) by (auto simp: CLUSTER_SIZE_def)
    have "length (splice (data_off x) (slice written ?n contents) disk) = length disk"
      using True by (simp add: slice_def)
    then show ?thesis
      using Cons.IH [OF c _ full(2)] Cons.prems(2) True full(1) by (simp add: Let_def)
  next
    case False
    then show ?thesis by (simp add: Let_def)
  qed
qed simp

lemma disk_full_panics:
  "fat_write_file (snd (fat_format (replicate 131072 0))) ''big'' (replicate (249 * 512) b) = None"
proof -
  let ?f = "snd (fat_format (replicate 131072 0))"
  note F = fat_format_ok [of "replicate 131072 0"]
  have inv: "fs_inv ?f (\<lambda>_. [])" using F(2) by simp
  have len: "length ?f = 131072" using F(6) by simp
  have del: "fat_delete_file ?f ''big'' = Some (Err ''file not found'', ?f)"
    using fat_read_file_spec [OF inv, of "''big''"] F(3) [of "''big''"]
    by (cases rule: fat_delete_file_spec [OF inv, of "''big''"]) auto
  define cs where "cs = alloc_clusters ?f 249 (map of_nat [0..<768]) []"
  have free: "read_fat ?f (of_nat c) = FAT_FREE" if "c < 768" for c
  proof -
    have "?f ! j = 0" if "4 \<le> j" "j < 131072" for j
      using that by (simp add: fat_format_def fat_consts FAT_MAGIC_def nth_splice)
    then show ?thesis using that len by (simp add: read_fat_def fat_consts unat_768 u16_from_le_def Let_def)
  qed
  then have "filter (\<lambda>c. read_fat ?f c = FAT_FREE) (map of_nat [0..<768]) = map of_nat [0..<768]"
    by (intro filter_True) auto
  then have cs: "cs = map of_nat [0..<249]"
    using alloc_clusters_take [of "[]" 249 ?f "map of_nat [0..<768]"] by (simp add: cs_def take_map)
  then have "(248 :: u16) \<in> set cs" by (auto simp: image_iff intro!: bexI [of _ 248])
  moreover have "length (link_clusters ?f cs) = 131072"
    using write_links_upto [of cs ?f "length cs"] len
    by (simp add: cs link_clusters_def distinct_map inj_on_def unat_768 word_unat_eq_iff)
  ultimately have "write_clusters (link_clusters ?f cs) (replicate (249 * 512) b) cs 0 = None"
    by (intro write_clusters_past_end [of 248]) (simp_all add: data_off_eq cs)
  moreover have "range_at ?f 0 4 = Some FAT_MAGIC"
    using inv by (simp add: fs_inv_def disk_ok_def range_at_def)
  moreover have cst: "(length (replicate (249 * 512) b) + CLUSTER_SIZE - 1) div CLUSTER_SIZE = 249"
      "FAT_BLOCKS * CLUSTER_SIZE div 2 = 768"
    by (simp_all add: fat_consts)
  ultimately show ?thesis
    unfolding fat_write_file_def cst using del cs by (simp add: cs_def [symmetric] Let_def)
qed

end
