(* ===== verification/Kvdb.thy ===== *)
theory Kvdb
  imports Rust_Str Btree Le_Bytes "HOL-Library.Char_ord" "HOL-Library.List_Lexorder" "HOL-Library.Sublist"
begin

text \<open>
  The key-value store of \<^verbatim>\<open>kvdb.rs\<close>: a vector of entries kept sorted by key and searched by
  \<^verbatim>\<open>binary_search_by\<close>, prefix scans, and the binary image it is saved as.
\<close>

section \<open>The store\<close>

record kv_db =
  kv_name :: str
  kv_entries :: "(str \<times> u8 list) list"

definition kv_new :: "str \<Rightarrow> kv_db" where
  "kv_new name = \<lparr>kv_name = name, kv_entries = []\<rparr>"

text \<open>
  The standard library's binary search: the loop that halves the range, then one last
  comparison. \<open>Inr i\<close> is \<^verbatim>\<open>Ok(i)\<close>, \<open>Inl i\<close> the insertion point \<^verbatim>\<open>Err(i)\<close>.
\<close>

function bs_loop :: "'k :: linorder list \<Rightarrow> 'k \<Rightarrow> usize \<Rightarrow> usize \<Rightarrow> usize" where
  "bs_loop ks key base sz =
     (if sz > 1 then
        (let half = sz div 2; mid = base + half
         in bs_loop ks key (if ks ! mid > key then base else mid) (sz - half))
      else base)"
  by pat_completeness auto
termination by (relation "measure (\<lambda>(ks, key, base, sz). sz)") auto

declare bs_loop.simps [simp del]

definition binary_search :: "'k :: linorder list \<Rightarrow> 'k \<Rightarrow> usize + usize" where
  "binary_search ks key =
     (if ks = [] then Inl 0
      else let base = bs_loop ks key 0 (length ks)
           in if ks ! base = key then Inr base
              else Inl (base + (if ks ! base < key then 1 else 0)))"

definition kv_pos :: "kv_db \<Rightarrow> str \<Rightarrow> usize + usize" where
  "kv_pos db key = binary_search (map fst (kv_entries db)) key"

definition kv_get :: "kv_db \<Rightarrow> str \<Rightarrow> u8 list option" where
  "kv_get db key = (case kv_pos db key of Inr i \<Rightarrow> Some (snd (kv_entries db ! i)) | Inl _ \<Rightarrow> None)"

definition kv_set :: "kv_db \<Rightarrow> str \<Rightarrow> u8 list \<Rightarrow> kv_db" where
  "kv_set db key value =
     (case kv_pos db key of
        Inr i \<Rightarrow> db\<lparr>kv_entries := (kv_entries db)[i := (fst (kv_entries db ! i), value)]\<rparr>
      | Inl i \<Rightarrow> db\<lparr>kv_entries := insert_at i (key, value) (kv_entries db)\<rparr>)"

definition kv_delete :: "kv_db \<Rightarrow> str \<Rightarrow> bool \<times> kv_db" where
  "kv_delete db key =
     (case kv_pos db key of
        Inr i \<Rightarrow> (True, db\<lparr>kv_entries := remove_at i (kv_entries db)\<rparr>)
      | Inl _ \<Rightarrow> (False, db))"

definition kv_keys :: "kv_db \<Rightarrow> str list" where
  "kv_keys db = map fst (kv_entries db)"

definition kv_scan :: "kv_db \<Rightarrow> str \<Rightarrow> (str \<times> u8 list) list" where
  "kv_scan db pre =
     (let start = (case kv_pos db pre of Inr i \<Rightarrow> i | Inl i \<Rightarrow> i)
      in takeWhile (\<lambda>(k, v). prefix pre k) (drop start (kv_entries db)))"

definition kv_stats :: "kv_db \<Rightarrow> usize \<times> usize" where
  "kv_stats db =
     (length (kv_entries db), sum_list (map (\<lambda>(k, v). length k + length v) (kv_entries db)))"

section \<open>The image\<close>

definition KV_MAGIC :: "u8 list" where "KV_MAGIC = as_bytes ''KVDB''"
definition KV_VERSION :: u8 where "KV_VERSION = 1"

definition kv_ser_entry :: "str \<times> u8 list \<Rightarrow> u8 list" where
  "kv_ser_entry e =
     (case e of (k, v) \<Rightarrow>
        u16_to_le (of_nat (length k)) @ u32_to_le (of_nat (length v)) @ as_bytes k @ v)"

definition serialize :: "kv_db \<Rightarrow> u8 list" where
  "serialize db =
     KV_MAGIC @ [KV_VERSION] @ u32_to_le (of_nat (length (kv_entries db)))
     @ concat (map kv_ser_entry (kv_entries db))"

text \<open>The loop over the entries, with the count still to read and the offset reached.\<close>

fun kv_de_entries :: "u8 list \<Rightarrow> nat \<Rightarrow> usize \<Rightarrow> (str \<times> u8 list) list option" where
  "kv_de_entries data 0 off = Some []"
| "kv_de_entries data (Suc n) off =
     (if off + 6 > length data then None
      else let klen = unat (u16_from_le (data ! off) (data ! (off + 1)));
               vlen = unat (u32_from_le (data ! (off + 2)) (data ! (off + 3)) (data ! (off + 4)) (data ! (off + 5)));
               off = off + 6
           in if off + klen + vlen > length data then None
              else case from_utf8 (slice off klen data) of
                     None \<Rightarrow> None
                   | Some key \<Rightarrow>
                       map_option (\<lambda>es. (key, slice (off + klen) vlen data) # es)
                         (kv_de_entries data n (off + klen + vlen)))"

definition deserialize :: "u8 list \<Rightarrow> kv_db option" where
  "deserialize data =
     (if length data < 9 then None
      else if slice 0 4 data \<noteq> KV_MAGIC then None
      else if data ! 4 \<noteq> KV_VERSION then None
      else let count = unat (u32_from_le (data ! 5) (data ! 6) (data ! 7) (data ! 8))
           in map_option (\<lambda>es. \<lparr>kv_name = [], kv_entries = es\<rparr>) (kv_de_entries data count 9))"

definition disk_filename :: "str \<Rightarrow> str" where
  "disk_filename name = ''kvdb_'' @ name"

section \<open>Binary search\<close>

definition kv_ok :: "kv_db \<Rightarrow> bool" where
  "kv_ok db \<longleftrightarrow> bt_ok (kv_entries db)"

lemma bs_loop_spec:
  assumes "sorted_wrt (<) ks" "0 < sz" "base + sz \<le> length ks"
    and "base = 0 \<or> ks ! base \<le> key"
    and "\<And>j. base + sz \<le> j \<Longrightarrow> j < length ks \<Longrightarrow> key < ks ! j"
  shows "bs_loop ks key base sz < length ks
    \<and> (bs_loop ks key base sz = 0 \<or> ks ! bs_loop ks key base sz \<le> key)
    \<and> (\<forall>j. bs_loop ks key base sz < j \<longrightarrow> j < length ks \<longrightarrow> key < ks ! j)"
  using assms
proof (induction ks key base sz rule: bs_loop.induct)
  case (1 ks key base sz)
  show ?case
  proof (cases "sz > 1")
    case False
    then have "bs_loop ks key base sz = base" by (subst bs_loop.simps) simp
    moreover have "sz = 1" using False 1(3) by simp
    ultimately show ?thesis using 1 by auto
  next
    case True
    define half where "half = sz div 2"
    have h: "0 < half" "half < sz" "half \<le> sz - half" using True by (auto simp: half_def)
    let ?base = "if ks ! (base + half) > key then base else base + half"
    have upper: "key < ks ! j" if "?base + (sz - half) \<le> j" "j < length ks" for j
    proof (cases "ks ! (base + half) > key")
      case gt: True
      then have "base + half \<le> j" using that h by simp
      then show ?thesis
        using gt sorted_wrt_nth_less [OF 1(2), of "base + half" j] that
        by (cases "j = base + half") (auto intro: less_trans)
    next
      case False
      then show ?thesis using that h 1(6) [of j] by simp
    qed
    have step: "bs_loop ks key base sz = bs_loop ks key ?base (sz - half)"
      using True by (subst bs_loop.simps) (simp add: half_def Let_def)
    have b: "0 < sz - half" "?base + (sz - half) \<le> length ks" "?base = 0 \<or> ks ! ?base \<le> key"
      using 1(4, 5) h by (auto simp: not_less)
    show ?thesis
      unfolding step by (rule "1.IH" [OF True half_def refl 1(2) b upper])
  qed
qed

lemma binary_search_cases:
  assumes "sorted_wrt (<) ks"
  obtains (found) i where "binary_search ks key = Inr i" "i < length ks" "ks ! i = key"
  | (missing) i where "binary_search ks key = Inl i" "i \<le> length ks" "key \<notin> set ks"
      "\<And>j. j < i \<Longrightarrow> ks ! j < key" "\<And>j. i \<le> j \<Longrightarrow> j < length ks \<Longrightarrow> key < ks ! j"
proof (cases "ks = []")
  case True
  then show ?thesis by (intro missing [of 0]) (auto simp: binary_search_def)
next
  case False
  define b where "b = bs_loop ks key 0 (length ks)"
  have b: "b < length ks" "b = 0 \<or> ks ! b \<le> key" "\<And>j. b < j \<Longrightarrow> j < length ks \<Longrightarrow> key < ks ! j"
    using bs_loop_spec [OF assms, of "length ks" 0 key] False by (auto simp: b_def)
  have below: "ks ! j < ks ! b" if "j < b" for j
    using sorted_wrt_nth_less [OF assms that b(1)] .
  consider "ks ! b = key" | "ks ! b < key" | "key < ks ! b" by (meson linorder_neqE)
  then show ?thesis
  proof cases
    case 1
    then show ?thesis using b(1) False by (intro found [of b]) (auto simp: binary_search_def b_def Let_def)
  next
    case 2
    have lt: "ks ! j < key" if "j < b + 1" for j
      using that 2 below [of j] by (cases "j = b") auto
    have gt: "key < ks ! j" if "b + 1 \<le> j" "j < length ks" for j using that b(3) by simp
    have eq: "binary_search ks key = Inl (b + 1)"
      using 2 False by (simp add: binary_search_def b_def [symmetric] Let_def)
    show ?thesis
    proof (rule missing [of "b + 1", OF eq])
      show "key \<notin> set ks"
        unfolding in_set_conv_nth using lt gt by (metis less_irrefl not_less)
    qed (use b(1) lt gt in auto)
  next
    case 3
    then have "b = 0" using b(2) by auto
    then have gt: "key < ks ! j" if "j < length ks" for j
      using that 3 b(3) by (cases "j = 0") auto
    have eq: "binary_search ks key = Inl 0"
      using 3 \<open>b = 0\<close> False by (auto simp: binary_search_def b_def [symmetric] Let_def)
    show ?thesis
    proof (rule missing [of 0, OF eq])
      show "key \<notin> set ks"
        unfolding in_set_conv_nth using gt by (metis less_irrefl)
    qed (use gt in auto)
  qed
qed

section \<open>The vector is a sorted map\<close>

lemma bt_insert_split:
  assumes "\<forall>x \<in> fst ` set xs. x < k" "\<forall>y \<in> fst ` set ys. k < y"
  shows "bt_insert k v (xs @ ys) = xs @ (k, v) # ys"
    and "bt_insert k v (xs @ (k, v') # ys) = xs @ (k, v) # ys"
proof -
  show "bt_insert k v (xs @ ys) = xs @ (k, v) # ys"
    using assms
  proof (induction xs)
    case Nil
    then show ?case by (cases ys) auto
  qed (auto split: prod.split)
  show "bt_insert k v (xs @ (k, v') # ys) = xs @ (k, v) # ys"
    using assms by (induction xs) (auto split: prod.split)
qed

lemma bt_ok_nth_less: "bt_ok m \<Longrightarrow> i < j \<Longrightarrow> j < length m \<Longrightarrow> fst (m ! i) < fst (m ! j)"
  unfolding bt_ok_def using sorted_wrt_nth_less [of "(<)" "map fst m" i j] by simp

lemma bt_ok_distinct: "bt_ok m \<Longrightarrow> distinct (map fst m)"
  by (simp add: bt_ok_def strict_sorted_iff)

lemma bt_ok_split:
  assumes "bt_ok m" "i < length m"
  shows "\<forall>x \<in> fst ` set (take i m). x < fst (m ! i)"
    and "\<forall>x \<in> fst ` set (drop (Suc i) m). fst (m ! i) < x"
proof -
  have "sorted_wrt (<) (map fst (take i m @ m ! i # drop (Suc i) m))"
    using assms by (simp add: bt_ok_def id_take_nth_drop [symmetric])
  then show "\<forall>x \<in> fst ` set (take i m). x < fst (m ! i)"
    "\<forall>x \<in> fst ` set (drop (Suc i) m). fst (m ! i) < x"
    by (auto simp: sorted_wrt_append)
qed

lemma kv_pos_cases:
  assumes "kv_ok db"
  obtains (found) i v where "kv_pos db key = Inr i" "i < length (kv_entries db)" "kv_entries db ! i = (key, v)"
  | (missing) i where "kv_pos db key = Inl i" "i \<le> length (kv_entries db)" "bt_get (kv_entries db) key = None"
      "\<forall>x \<in> fst ` set (take i (kv_entries db)). x < key"
      "\<forall>x \<in> fst ` set (drop i (kv_entries db)). key < x"
proof -
  have s: "sorted_wrt (<) (map fst (kv_entries db))" using assms by (simp add: kv_ok_def bt_ok_def)
  show ?thesis
  proof (cases rule: binary_search_cases [OF s, of key])
    case (1 i)
    then show ?thesis by (intro found [of i "snd (kv_entries db ! i)"]) (auto simp: kv_pos_def)
  next
    case (2 i)
    show ?thesis
    proof (rule missing [of i])
      show "bt_get (kv_entries db) key = None"
        using 2(3) by (simp add: bt_get_def map_of_eq_None_iff)
      show "\<forall>x \<in> fst ` set (take i (kv_entries db)). x < key"
        using 2(2, 4) unfolding set_map [symmetric] take_map [symmetric] by (auto simp: in_set_conv_nth)
      show "\<forall>x \<in> fst ` set (drop i (kv_entries db)). key < x"
        using 2(2, 5) unfolding set_map [symmetric] drop_map [symmetric] by (auto simp: in_set_conv_nth)
    qed (use 2 in \<open>auto simp: kv_pos_def\<close>)
  qed
qed

lemma kv_get_bt:
  assumes "kv_ok db"
  shows "kv_get db key = bt_get (kv_entries db) key"
proof (cases rule: kv_pos_cases [OF assms, of key])
  case (1 i v)
  then have "map_of (kv_entries db) key = Some v"
    using assms by (metis kv_ok_def bt_ok_distinct map_of_is_SomeI nth_mem)
  with 1 show ?thesis by (simp add: kv_get_def bt_get_def)
next
  case (2 i)
  then show ?thesis by (simp add: kv_get_def)
qed

lemma kv_set_bt:
  assumes "kv_ok db"
  shows "kv_set db key v = db\<lparr>kv_entries := bt_insert key v (kv_entries db)\<rparr>"
proof (cases rule: kv_pos_cases [OF assms, of key])
  case (1 i v')
  let ?m = "kv_entries db"
  have "?m = take i ?m @ (key, v') # drop (Suc i) ?m"
    using id_take_nth_drop [OF 1(2)] 1(3) by simp
  moreover note bt_ok_split [OF _ 1(2)]
  ultimately have "bt_insert key v ?m = take i ?m @ (key, v) # drop (Suc i) ?m"
    using bt_insert_split(2) [of "take i ?m" key "drop (Suc i) ?m" v v'] 1 assms by (simp add: kv_ok_def)
  then show ?thesis using 1 by (simp add: kv_set_def upd_conv_take_nth_drop)
next
  case (2 i)
  then show ?thesis
    using bt_insert_split(1) [of "take i (kv_entries db)" key "drop i (kv_entries db)" v]
    by (simp add: kv_set_def insert_at_def)
qed

lemma kv_delete_bt:
  assumes "kv_ok db"
  shows "kv_delete db key =
    (bt_get (kv_entries db) key \<noteq> None, db\<lparr>kv_entries := bt_remove key (kv_entries db)\<rparr>)"
proof (cases rule: kv_pos_cases [OF assms, of key])
  case (1 i v)
  let ?m = "kv_entries db"
  have split: "?m = take i ?m @ (key, v) # drop (Suc i) ?m"
    using id_take_nth_drop [OF 1(2)] 1(3) by simp
  have "bt_remove key ?m = remove_at i ?m"
    using bt_ok_split [OF _ 1(2)] assms 1(3)
    by (subst split) (auto simp: bt_remove_def remove_at_def kv_ok_def intro!: arg_cong2 [where f = "(@)"] filter_True)
  moreover have "bt_get ?m key \<noteq> None"
    using 1(2, 3) by (metis bt_get_def domI domIff fst_conv map_of_eq_None_iff nth_mem image_eqI)
  ultimately show ?thesis using 1 by (simp add: kv_delete_def)
next
  case (2 i)
  then have "bt_remove key (kv_entries db) = kv_entries db"
    by (auto simp: bt_remove_def bt_get_def map_of_eq_None_iff filter_id_conv)
  then show ?thesis using 2 by (simp add: kv_delete_def)
qed

section \<open>Prefix scans\<close>

lemma prefix_between:
  fixes p :: "'a :: linorder list"
  shows "p \<le> k \<Longrightarrow> k \<le> k' \<Longrightarrow> prefix p k' \<Longrightarrow> prefix p k"
proof (induction p arbitrary: k k')
  case (Cons x p)
  then obtain y ks where k: "k = y # ks" by (cases k) auto
  from Cons obtain ks' where k': "k' = x # ks'" "prefix p ks'" by (cases k') auto
  have "y = x" using Cons.prems k k' by auto
  then show ?case using Cons k k' by auto
qed simp

lemma prefix_le: "prefix p k \<Longrightarrow> p \<le> (k :: 'a :: linorder list)"
  by (induction p arbitrary: k) (auto elim!: prefixE)

definition kv_start :: "kv_db \<Rightarrow> str \<Rightarrow> usize" where
  "kv_start db p = (case kv_pos db p of Inr i \<Rightarrow> i | Inl i \<Rightarrow> i)"

lemma kv_start_split:
  assumes "kv_ok db"
  shows "\<forall>x \<in> fst ` set (take (kv_start db p) (kv_entries db)). x < p"
    and "\<forall>x \<in> fst ` set (drop (kv_start db p) (kv_entries db)). p \<le> x"
proof -
  let ?m = "kv_entries db"
  have "(\<forall>x \<in> fst ` set (take (kv_start db p) ?m). x < p) \<and> (\<forall>x \<in> fst ` set (drop (kv_start db p) ?m). p \<le> x)"
  proof (cases rule: kv_pos_cases [OF assms, of p])
    case (1 i v)
    moreover have "drop i ?m = (p, v) # drop (Suc i) ?m" using 1 by (metis Cons_nth_drop_Suc)
    ultimately show ?thesis
      using bt_ok_split [of ?m i] assms by (auto simp: kv_start_def kv_ok_def less_imp_le)
  next
    case (2 i)
    then show ?thesis by (auto simp: kv_start_def less_imp_le)
  qed
  then show "\<forall>x \<in> fst ` set (take (kv_start db p) ?m). x < p"
    "\<forall>x \<in> fst ` set (drop (kv_start db p) ?m). p \<le> x" by blast+
qed

lemma takeWhile_prefix:
  fixes es :: "(str \<times> 'v) list"
  assumes "sorted_wrt (<) (map fst es)" "\<forall>x \<in> fst ` set es. p \<le> x"
  shows "takeWhile (\<lambda>(k, v). prefix p k) es = filter (\<lambda>(k, v). prefix p k) es"
  using assms
proof (induction es)
  case (Cons e es)
  have "\<not> prefix p (fst e') " if "\<not> prefix p (fst e)" "e' \<in> set es" for e'
    using that Cons.prems prefix_between [of p "fst e" "fst e'"] by (auto simp: less_imp_le)
  then show ?case using Cons by (auto simp: case_prod_unfold intro!: filter_False)
qed simp

lemma kv_scan_filter:
  assumes "kv_ok db"
  shows "kv_scan db p = filter (\<lambda>(k, v). prefix p k) (kv_entries db)"
proof -
  let ?m = "kv_entries db" and ?i = "kv_start db p"
  have "sorted_wrt (<) (map fst (drop ?i ?m))"
    using assms by (simp add: kv_ok_def bt_ok_def drop_map [symmetric])
  from takeWhile_prefix [OF this kv_start_split(2) [OF assms]]
  have "kv_scan db p = filter (\<lambda>(k, v). prefix p k) (drop ?i ?m)"
    by (simp add: kv_scan_def kv_start_def)
  moreover have "filter (\<lambda>(k, v). prefix p k) (take ?i ?m) = []"
    using kv_start_split(1) [OF assms, of p] by (fastforce simp: filter_empty_conv dest: prefix_le)
  ultimately show ?thesis
    by (metis append_Nil append_take_drop_id filter_append)
qed

section \<open>Reading back the image\<close>

text \<open>What the field widths of the image can hold.\<close>

definition kv_storable :: "kv_db \<Rightarrow> bool" where
  "kv_storable db \<longleftrightarrow>
     length (kv_entries db) < 2 ^ 32
     \<and> (\<forall>(k, v) \<in> set (kv_entries db). length k < 2 ^ 16 \<and> length v < 2 ^ 32 \<and> utf8_valid (as_bytes k))"

lemma slice_drop: "drop a data = xs @ ys \<Longrightarrow> slice a (length xs) data = xs"
  by (simp add: slice_def)

lemma nth_of_drop:
  assumes "drop a data = xs @ ys" "i < length xs"
  shows "data ! (a + i) = xs ! i" "a + i < length data"
proof -
  have "length data - a = length xs + length ys" using arg_cong [OF assms(1), of length] by simp
  then show "a + i < length data" using assms(2) by linarith
  then show "data ! (a + i) = xs ! i"
    using arg_cong [OF assms(1), of "\<lambda>l. l ! i"] assms(2) by (simp add: nth_append)
qed

lemma kv_de_entry:
  assumes "drop off data = kv_ser_entry (k, v) @ rest"
    and "length k < 2 ^ 16" "length v < 2 ^ 32" "utf8_valid (as_bytes k)"
  shows "kv_de_entries data (Suc n) off =
    map_option (\<lambda>es. (k, v) # es) (kv_de_entries data n (off + 6 + length k + length v))"
    and "drop (off + 6 + length k + length v) data = rest"
proof -
  let ?kl = "of_nat (length k) :: u16" and ?vl = "of_nat (length v) :: u32"
  have kl: "unat ?kl = length k" "unat ?vl = length v"
    using assms(2, 3) by (simp_all add: unat_of_nat)
  have d: "drop off data = (u16_to_le ?kl @ u32_to_le ?vl) @ as_bytes k @ v @ rest"
    using assms(1) by (simp add: kv_ser_entry_def)
  note n = nth_of_drop(1) [OF d, unfolded u16_to_le_def u32_to_le_def, simplified]
  have nth: "data ! off = ucast ?kl" "data ! (off + 1) = ucast (drop_bit 8 ?kl)"
    "data ! (off + 2) = ucast ?vl" "data ! (off + 3) = ucast (drop_bit 8 ?vl)"
    "data ! (off + 4) = ucast (drop_bit 16 ?vl)" "data ! (off + 5) = ucast (drop_bit 24 ?vl)"
    using n [of 0] n [of 1] n [of 2] n [of 3] n [of 4] n [of 5] by (simp_all add: eval_nat_numeral)
  have len: "off + 6 + length k + length v + length rest = length data"
  proof -
    have "length data - off = 6 + length k + length v + length rest"
      using arg_cong [OF d, of length] by simp
    then show ?thesis by linarith
  qed
  have d6: "drop (off + 6) data = as_bytes k @ v @ rest"
    using arg_cong [OF d, of "drop 6"] by (simp add: add.commute)
  have dk: "drop (off + 6 + length k) data = v @ rest"
    using arg_cong [OF d6, of "drop (length k)"] by (simp add: ac_simps)
  show "drop (off + 6 + length k + length v) data = rest"
    using arg_cong [OF dk, of "drop (length v)"] by (simp add: ac_simps)
  have "slice (off + 6) (length k) data = as_bytes k" "slice (off + 6 + length k) (length v) data = v"
    using slice_drop [OF d6] slice_drop [OF dk] by simp_all
  then show "kv_de_entries data (Suc n) off =
      map_option (\<lambda>es. (k, v) # es) (kv_de_entries data n (off + 6 + length k + length v))"
    using len assms(4) nth by (simp add: kl from_utf8_def Let_def del: One_nat_def)
qed

lemma kv_de_entries_ser:
  assumes "drop off data = concat (map kv_ser_entry es)"
    and "\<forall>(k, v) \<in> set es. length k < 2 ^ 16 \<and> length v < 2 ^ 32 \<and> utf8_valid (as_bytes k)"
  shows "kv_de_entries data (length es) off = Some es"
  using assms
proof (induction es arbitrary: off)
  case (Cons e es)
  obtain k v where e: "e = (k, v)" by (cases e)
  have d: "drop off data = kv_ser_entry (k, v) @ concat (map kv_ser_entry es)"
    using Cons.prems(1) e by simp
  have b: "length k < 2 ^ 16" "length v < 2 ^ 32" "utf8_valid (as_bytes k)"
    using Cons.prems(2) e by auto
  show ?case
    using Cons.IH [OF kv_de_entry(2) [OF d b]] Cons.prems(2) kv_de_entry(1) [OF d b, of "length es"]
    by (simp add: e del: kv_de_entries.simps)
qed simp

lemma deserialize_serialize:
  assumes "kv_storable db"
  shows "deserialize (serialize db) = Some \<lparr>kv_name = [], kv_entries = kv_entries db\<rparr>"
proof -
  let ?c = "of_nat (length (kv_entries db)) :: u32"
  let ?es = "concat (map kv_ser_entry (kv_entries db))"
  have ser: "serialize db = [75, 86, 68, 66, 1, ucast ?c, ucast (drop_bit 8 ?c), ucast (drop_bit 16 ?c),
      ucast (drop_bit 24 ?c)] @ ?es"
    by (simp add: serialize_def KV_MAGIC_def KV_VERSION_def u32_to_le_def)
  have c: "unat ?c = length (kv_entries db)"
    using assms by (simp add: kv_storable_def unat_of_nat)
  have "drop 9 (serialize db) = ?es" by (simp add: ser)
  then have "kv_de_entries (serialize db) (length (kv_entries db)) 9 = Some (kv_entries db)"
    using assms by (intro kv_de_entries_ser) (auto simp: kv_storable_def)
  moreover have "slice 0 4 (serialize db) = KV_MAGIC"
    by (simp add: ser slice_def KV_MAGIC_def)
  moreover have "u32_from_le (serialize db ! 5) (serialize db ! 6) (serialize db ! 7) (serialize db ! 8) = ?c"
    by (simp add: ser)
  moreover have "serialize db ! 4 = KV_VERSION" "9 \<le> length (serialize db)"
    by (simp_all add: ser KV_VERSION_def)
  ultimately show ?thesis by (simp add: deserialize_def c)
qed

section \<open>Correctness of the store\<close>

lemma kv_ok_ops:
  "kv_ok (kv_new name)"
  "kv_ok db \<Longrightarrow> kv_ok (kv_set db key value)"
  "kv_ok db \<Longrightarrow> kv_ok (snd (kv_delete db key))"
  by (simp_all add: kv_set_bt kv_delete_bt) (simp_all add: kv_ok_def kv_new_def)

text \<open>Stores built by the operations alone.\<close>

datatype kv_op = Set str "u8 list" | Delete str

fun kv_step :: "kv_db \<Rightarrow> kv_op \<Rightarrow> kv_db" where
  "kv_step db (Set key value) = kv_set db key value"
| "kv_step db (Delete key) = snd (kv_delete db key)"

fun kv_step_spec :: "(str \<rightharpoonup> u8 list) \<Rightarrow> kv_op \<Rightarrow> (str \<rightharpoonup> u8 list)" where
  "kv_step_spec m (Set key value) = m(key \<mapsto> value)"
| "kv_step_spec m (Delete key) = m(key := None)"

lemma kv_run_ok: "kv_ok db \<Longrightarrow> kv_ok (foldl kv_step db ops)"
proof (induction ops arbitrary: db)
  case (Cons op ops)
  then show ?case by (cases op) (auto simp: kv_ok_ops)
qed simp

lemma kv_step_get: "kv_ok db \<Longrightarrow> kv_get (kv_step db op) = kv_step_spec (kv_get db) op"
  using kv_ok_ops(2, 3) [of db]
  by (cases op) (auto simp: fun_eq_iff kv_get_bt kv_set_bt kv_delete_bt kv_ok_def)

definition kv_build :: "str \<Rightarrow> kv_op list \<Rightarrow> kv_db" where
  "kv_build name ops = foldl kv_step (kv_new name) ops"

lemma kv_run_get: "kv_ok db \<Longrightarrow> kv_get (foldl kv_step db ops) = foldl kv_step_spec (kv_get db) ops"
proof (induction ops arbitrary: db)
  case (Cons op ops)
  then show ?case using kv_run_ok [of db "[op]"] kv_step_get [of db op] by simp
qed simp

lemma kv_get_new: "kv_get (kv_new name) = Map.empty"
  by (rule ext) (simp add: kv_get_def kv_pos_def kv_new_def binary_search_def)

lemma distinct_map_of_filter:
  "distinct (map fst m) \<Longrightarrow>
   filter (\<lambda>(k, v). P k) m = map (\<lambda>k. (k, the (map_of m k))) (filter P (map fst m))"
  by (induction m) (auto simp: image_iff intro!: map_cong)


section \<open>Images that do not read back\<close>

text \<open>
  The key length is stored in 16 bits without a check: a key of 65,536 bytes is written with
  length 0 and comes back as the empty key. A stored image is not checked to be sorted either:
  a value of an unsorted image may be stored and yet not found.
\<close>

lemma long_key_lost:
  "deserialize (serialize (kv_set (kv_new name) (replicate 65536 CHR ''a'') []))
     = Some \<lparr>kv_name = [], kv_entries = [([], [])]\<rparr>"
proof -
  have set: "kv_set (kv_new name) k v = \<lparr>kv_name = name, kv_entries = [(k, v)]\<rparr>" for k v
    by (simp add: kv_set_def kv_pos_def kv_new_def binary_search_def insert_at_def)
  have "serialize \<lparr>kv_name = name, kv_entries = [(replicate 65536 CHR ''a'', [])]\<rparr>
      = [75, 86, 68, 66, 1, 1, 0, 0, 0, 0, 0, 0, 0, 0, 0] @ as_bytes (replicate 65536 CHR ''a'')"
    by (simp add: serialize_def KV_MAGIC_def KV_VERSION_def u32_to_le_def u16_to_le_def kv_ser_entry_def)
  then show ?thesis
    unfolding set by (simp add: deserialize_def slice_def KV_MAGIC_def KV_VERSION_def u32_from_le_def
        u16_from_le_def from_utf8_def from_bytes_def)
qed

lemma unsorted_image_accepted:
  "map_option (\<lambda>db. (map_of (kv_entries db) ''b'', kv_get db ''b''))
     (deserialize (serialize \<lparr>kv_name = [], kv_entries = [(''b'', [1]), (''a'', [2])]\<rparr>))
   = Some (Some [1], None)"
proof -
  have "kv_storable \<lparr>kv_name = [], kv_entries = [(''b'', [1]), (''a'', [2])]\<rparr>"
    by (simp add: kv_storable_def ascii_utf8_valid [unfolded is_ascii_def, of "''a''", simplified]
        ascii_utf8_valid [unfolded is_ascii_def, of "''b''", simplified])
  then show ?thesis
    by (simp add: deserialize_serialize kv_get_def kv_pos_def binary_search_def bs_loop.simps
        less_char_def Let_def)
qed

end
