(* ===== verification/Diskfs.thy ===== *)
theory Diskfs
  imports Fat Kvdb
begin

text \<open>
  The persistent file system of \<^verbatim>\<open>diskfs.rs\<close>, which keeps an MF16 image in the first 256
  sectors of the virtio disk, and the database files \<^verbatim>\<open>kvdb.rs\<close> stores there. The disk is a
  parameter: whether it was detected, and what its sector reads and writes do. The outer
  \<open>None\<close> is a panic of the file system code.
\<close>

section \<open>Images on the disk\<close>

definition FS_SECTORS :: usize where "FS_SECTORS = 256"
definition SECTOR_SIZE :: usize where "SECTOR_SIZE = 512"
definition FS_SIZE :: usize where "FS_SIZE = FS_SECTORS * SECTOR_SIZE"

lemmas diskfs_consts = FS_SECTORS_def SECTOR_SIZE_def FS_SIZE_def

type_synonym 'd sector_read = "'d \<Rightarrow> u64 \<Rightarrow> u8 list result"
type_synonym 'd sector_write = "'d \<Rightarrow> u64 \<Rightarrow> u8 list \<Rightarrow> unit result \<times> 'd"

fun read_sectors :: "'d sector_read \<Rightarrow> 'd \<Rightarrow> nat list \<Rightarrow> u8 list \<Rightarrow> u8 list result" where
  "read_sectors rd dev [] img = Ok img"
| "read_sectors rd dev (i # is) img =
     (case rd dev (of_nat i) of
        Inl e \<Rightarrow> Err e
      | Inr sector \<Rightarrow> read_sectors rd dev is (splice (i * SECTOR_SIZE) sector img))"

definition read_fs_image :: "bool \<Rightarrow> 'd sector_read \<Rightarrow> 'd \<Rightarrow> u8 list result" where
  "read_fs_image detected rd dev =
     (if \<not> detected then Err ''no virtio disk''
      else read_sectors rd dev [0..<FS_SECTORS] (replicate FS_SIZE 0))"

fun write_sectors :: "'d sector_write \<Rightarrow> 'd \<Rightarrow> nat list \<Rightarrow> u8 list \<Rightarrow> unit result \<times> 'd" where
  "write_sectors wr dev [] img = (Ok (), dev)"
| "write_sectors wr dev (i # is) img =
     (case wr dev (of_nat i) (slice (i * SECTOR_SIZE) SECTOR_SIZE img) of
        (Inl e, dev') \<Rightarrow> (Err e, dev')
      | (Inr _, dev') \<Rightarrow> write_sectors wr dev' is img)"

definition write_fs_image :: "bool \<Rightarrow> 'd sector_write \<Rightarrow> 'd \<Rightarrow> u8 list \<Rightarrow> unit result \<times> 'd" where
  "write_fs_image detected wr dev img =
     (if \<not> detected then (Err ''no virtio disk'', dev)
      else write_sectors wr dev [0..<min (length img div SECTOR_SIZE) FS_SECTORS] img)"

section \<open>Operations\<close>

definition diskfs_format :: "bool \<Rightarrow> 'd sector_write \<Rightarrow> 'd \<Rightarrow> unit result \<times> 'd" where
  "diskfs_format detected wr dev =
     (case fat_format (replicate FS_SIZE 0) of
        (Inl e, _) \<Rightarrow> (Err e, dev)
      | (Inr _, img) \<Rightarrow> write_fs_image detected wr dev img)"

definition diskfs_list_files :: "bool \<Rightarrow> 'd sector_read \<Rightarrow> 'd \<Rightarrow> FileInfo list result option" where
  "diskfs_list_files detected rd dev =
     (case read_fs_image detected rd dev of
        Inl e \<Rightarrow> Some (Err e)
      | Inr img \<Rightarrow> map_option Ok (fat_list_files img))"

definition diskfs_read_file :: "bool \<Rightarrow> 'd sector_read \<Rightarrow> 'd \<Rightarrow> str \<Rightarrow> u8 list result option" where
  "diskfs_read_file detected rd dev name =
     (case read_fs_image detected rd dev of
        Inl e \<Rightarrow> Some (Err e)
      | Inr img \<Rightarrow>
          (case fat_read_file img name of
             None \<Rightarrow> None
           | Some None \<Rightarrow> Some (Err ''file not found'')
           | Some (Some data) \<Rightarrow> Some (Ok data)))"

definition diskfs_write_file ::
    "bool \<Rightarrow> 'd sector_read \<Rightarrow> 'd sector_write \<Rightarrow> 'd \<Rightarrow> str \<Rightarrow> u8 list \<Rightarrow> (unit result \<times> 'd) option" where
  "diskfs_write_file detected rd wr dev name data =
     (case read_fs_image detected rd dev of
        Inl e \<Rightarrow> Some (Err e, dev)
      | Inr img \<Rightarrow>
          (case fat_write_file img name data of
             None \<Rightarrow> None
           | Some (Inl e, _) \<Rightarrow> Some (Err e, dev)
           | Some (Inr _, img) \<Rightarrow> Some (write_fs_image detected wr dev img)))"

definition diskfs_delete_file ::
    "bool \<Rightarrow> 'd sector_read \<Rightarrow> 'd sector_write \<Rightarrow> 'd \<Rightarrow> str \<Rightarrow> (unit result \<times> 'd) option" where
  "diskfs_delete_file detected rd wr dev name =
     (case read_fs_image detected rd dev of
        Inl e \<Rightarrow> Some (Err e, dev)
      | Inr img \<Rightarrow>
          (case fat_delete_file img name of
             None \<Rightarrow> None
           | Some (Inl e, _) \<Rightarrow> Some (Err e, dev)
           | Some (Inr _, img) \<Rightarrow> Some (write_fs_image detected wr dev img)))"

definition diskfs_is_formatted :: "bool \<Rightarrow> 'd sector_read \<Rightarrow> 'd \<Rightarrow> bool" where
  "diskfs_is_formatted detected rd dev =
     (if \<not> detected then False
      else case rd dev 0 of Inl _ \<Rightarrow> False | Inr sector \<Rightarrow> slice 0 4 sector = FAT_MAGIC)"

subsection \<open>Databases on the disk\<close>

definition kv_save_to_disk ::
    "bool \<Rightarrow> 'd sector_read \<Rightarrow> 'd sector_write \<Rightarrow> 'd \<Rightarrow> kv_db \<Rightarrow> (unit result \<times> 'd) option" where
  "kv_save_to_disk detected rd wr dev db =
     diskfs_write_file detected rd wr dev (disk_filename (kv_name db)) (serialize db)"

definition kv_load_from_disk :: "bool \<Rightarrow> 'd sector_read \<Rightarrow> 'd \<Rightarrow> str \<Rightarrow> kv_db option option" where
  "kv_load_from_disk detected rd dev name =
     (case diskfs_read_file detected rd dev (disk_filename name) of
        None \<Rightarrow> None
      | Some (Inl _) \<Rightarrow> Some None
      | Some (Inr blob) \<Rightarrow> Some (map_option (\<lambda>db. db\<lparr>kv_name := name\<rparr>) (deserialize blob)))"

definition open_db :: "bool \<Rightarrow> 'd sector_read \<Rightarrow> 'd \<Rightarrow> str \<Rightarrow> kv_db option" where
  "open_db detected rd dev name =
     (case kv_load_from_disk detected rd dev name of
        None \<Rightarrow> None
      | Some None \<Rightarrow> Some (kv_new name)
      | Some (Some db) \<Rightarrow> Some db)"

definition system_db :: "bool \<Rightarrow> 'd sector_read \<Rightarrow> 'd \<Rightarrow> kv_db option" where
  "system_db detected rd dev = open_db detected rd dev ''system''"

definition users_db :: "bool \<Rightarrow> 'd sector_read \<Rightarrow> 'd \<Rightarrow> kv_db option" where
  "users_db detected rd dev = open_db detected rd dev ''users''"

section \<open>A sound disk\<close>

text \<open>
  What the file system relies on: while \<open>P\<close> holds of the device, a sector of the file system
  area reads as 512 bytes, a write of 512 bytes succeeds, changes that sector to the bytes
  written and no other sector, and \<open>P\<close> still holds.
\<close>

definition sound_disk :: "('d \<Rightarrow> bool) \<Rightarrow> 'd sector_read \<Rightarrow> 'd sector_write \<Rightarrow> bool" where
  "sound_disk P rd wr \<longleftrightarrow>
     (\<forall>dev i. P dev \<and> i < 256 \<longrightarrow> (\<exists>s. rd dev (of_nat i) = Ok s \<and> length s = 512))
     \<and> (\<forall>dev i s. P dev \<and> i < 256 \<and> length s = 512 \<longrightarrow>
          (\<exists>dev'. wr dev (of_nat i) s = (Ok (), dev') \<and> P dev' \<and> rd dev' (of_nat i) = Ok s
             \<and> (\<forall>j < 256. j \<noteq> i \<longrightarrow> rd dev' (of_nat j) = rd dev (of_nat j))))"

lemma read_sectors_image:
  assumes "\<And>i. i < 256 \<Longrightarrow> rd dev (of_nat i) = Ok (s i) \<and> length (s i) = 512" "k \<le> 256"
    and "length img = 131072"
  shows "read_sectors rd dev [k..<256] img =
    Ok (take (k * 512) img @ concat (map s [k..<256]))"
  using assms(2, 3)
proof (induction "256 - k" arbitrary: k img)
  case 0
  then show ?case by simp
next
  case (Suc n)
  then have k: "k < 256" by simp
  have s: "rd dev (of_nat k) = Ok (s k)" "length (s k) = 512" using assms(1) [OF k] by auto
  let ?im = "splice (k * 512) (s k) img"
  have "length ?im = 131072" using Suc.prems k s by simp
  then have "read_sectors rd dev [Suc k..<256] ?im =
      Ok (take (Suc k * 512) ?im @ concat (map s [Suc k..<256]))"
    using Suc.hyps(1) [of "Suc k" ?im] Suc.hyps(2) k by simp
  moreover have "take (Suc k * 512) ?im = take (k * 512) img @ s k"
    using Suc.prems k s by (simp add: splice_def)
  ultimately show ?case
    using s k by (simp add: upt_conv_Cons SECTOR_SIZE_def)
qed

definition fs_image :: "'d sector_read \<Rightarrow> 'd \<Rightarrow> u8 list" where
  "fs_image rd dev = concat (map (\<lambda>i. projr (rd dev (of_nat i))) [0..<256])"

lemma read_fs_image_eq:
  assumes "sound_disk P rd wr" "P dev"
  shows "read_fs_image True rd dev = Ok (fs_image rd dev)" "length (fs_image rd dev) = 131072"
    and "i < 256 \<Longrightarrow> slice (i * 512) 512 (fs_image rd dev) = projr (rd dev (of_nat i))"
proof -
  have s: "rd dev (of_nat i) = Ok (projr (rd dev (of_nat i))) \<and> length (projr (rd dev (of_nat i))) = 512"
    if "i < 256" for i
    using assms that unfolding sound_disk_def by force
  show "read_fs_image True rd dev = Ok (fs_image rd dev)"
    using read_sectors_image [of rd dev "\<lambda>i. projr (rd dev (of_nat i))" 0 "replicate 131072 0", OF s]
    by (simp add: read_fs_image_def diskfs_consts fs_image_def)
  have len: "length (concat (map f [0..<k])) = k * 512"
    if "\<And>i. i < k \<Longrightarrow> length (f i) = 512" for f :: "nat \<Rightarrow> u8 list" and k
    using that by (induction k) auto
  show "length (fs_image rd dev) = 131072" using len [of 256] s by (simp add: fs_image_def)
  assume i: "i < 256"
  let ?f = "\<lambda>i. projr (rd dev (of_nat i))"
  have "fs_image rd dev = concat (map ?f [0..<i]) @ ?f i @ concat (map ?f [Suc i..<256])"
  proof -
    have "[0..<256] = [0..<i] @ i # [Suc i..<256]"
      using i by (metis less_imp_le_nat upt_add_eq_append upt_conv_Cons le_add_diff_inverse zero_le)
    then show ?thesis by (simp add: fs_image_def del: upt_Suc)
  qed
  then show "slice (i * 512) 512 (fs_image rd dev) = ?f i"
    using len [of i ?f] s i by (simp add: slice_def)
qed

lemma write_sectors_ok:
  assumes "sound_disk P rd wr" "P dev" "length img = 131072" "k \<le> 256"
  obtains dev' where "write_sectors wr dev [k..<256] img = (Ok (), dev')" "P dev'"
    "\<And>i. i < k \<Longrightarrow> rd dev' (of_nat i) = rd dev (of_nat i)"
    "\<And>i. k \<le> i \<Longrightarrow> i < 256 \<Longrightarrow> rd dev' (of_nat i) = Ok (slice (i * 512) 512 img)"
  using assms(2, 4)
proof (induction "256 - k" arbitrary: k dev thesis)
  case 0
  then show ?case by simp
next
  case (Suc n)
  then have k: "k < 256" by simp
  let ?s = "slice (k * 512) 512 img"
  have "length ?s = 512" using k assms(3) by simp
  then obtain d where d: "wr dev (of_nat k) ?s = (Ok (), d)" "P d" "rd d (of_nat k) = Ok ?s"
    "\<forall>j < 256. j \<noteq> k \<longrightarrow> rd d (of_nat j) = rd dev (of_nat j)"
    using assms(1) Suc.prems(2) k unfolding sound_disk_def by blast
  obtain e where e: "write_sectors wr d [Suc k..<256] img = (Ok (), e)" "P e"
    "\<And>i. i < Suc k \<Longrightarrow> rd e (of_nat i) = rd d (of_nat i)"
    "\<And>i. Suc k \<le> i \<Longrightarrow> i < 256 \<Longrightarrow> rd e (of_nat i) = Ok (slice (i * 512) 512 img)"
    by (rule Suc.hyps(1) [OF _ _ d(2)]) (use Suc.hyps(2) k in auto)
  show ?case
  proof (rule Suc.prems(1) [of e])
    show "write_sectors wr dev [k..<256] img = (Ok (), e)"
      using d(1) e(1) k by (simp add: upt_conv_Cons SECTOR_SIZE_def)
    show "rd e (of_nat i) = rd dev (of_nat i)" if "i < k" for i
      using e(3) [of i] d(4) that k by simp
    show "rd e (of_nat i) = Ok (slice (i * 512) 512 img)" if "k \<le> i" "i < 256" for i
      using e(3, 4) [of i] d(3) that by (cases "i = k") auto
  qed (fact e(2))
qed

lemma write_fs_image_ok:
  assumes "sound_disk P rd wr" "P dev" "length img = 131072"
  obtains dev' where "write_fs_image True wr dev img = (Ok (), dev')" "P dev'" "fs_image rd dev' = img"
proof -
  obtain dev' where d: "write_sectors wr dev [0..<256] img = (Ok (), dev')" "P dev'"
    "\<And>i. i < 256 \<Longrightarrow> rd dev' (of_nat i) = Ok (slice (i * 512) 512 img)"
    using write_sectors_ok [OF assms(1-3), of 0] by auto
  note R = read_fs_image_eq [OF assms(1) d(2)]
  have "fs_image rd dev' = img"
  proof (rule nth_equalityI)
    fix j
    assume "j < length (fs_image rd dev')"
    then have j: "j < 131072" using R(2) by simp
    then have i: "j div 512 < 256" "j = j div 512 * 512 + j mod 512" by auto
    have "slice (j div 512 * 512) 512 (fs_image rd dev') = slice (j div 512 * 512) 512 img"
      using R(3) [OF i(1)] d(3) [OF i(1)] by simp
    from arg_cong [OF this, of "\<lambda>l. l ! (j mod 512)"] show "fs_image rd dev' ! j = img ! j"
      using R(2) assms(3) j by (simp add: nth_slice)
  qed (simp add: R(2) assms(3))
  then show thesis
    using that d(1, 2) assms(3) by (simp add: write_fs_image_def diskfs_consts)
qed

lemma diskfs_read_file_eq:
  assumes "sound_disk P rd wr" "P dev" "fat_read_file (fs_image rd dev) name = Some r"
  shows "diskfs_read_file True rd dev name =
    Some (case r of None \<Rightarrow> Err ''file not found'' | Some data \<Rightarrow> Ok data)"
  using assms(3) by (auto simp: diskfs_read_file_def read_fs_image_eq(1) [OF assms(1, 2)] split: option.split)

lemma mf16_ok_reads: "mf16_ok disk \<Longrightarrow> \<exists>r. fat_read_file disk name = Some r"
  using fat_read_file_spec by (auto simp: mf16_ok_def)

section \<open>Databases survive a reboot\<close>

text \<open>Room for a file: enough free clusters, and a directory slot.\<close>

definition has_room :: "disk \<Rightarrow> str \<Rightarrow> nat \<Rightarrow> bool" where
  "has_room disk name n \<longleftrightarrow>
     (n + 511) div 512 \<le> length (free_clusters disk)
     \<and> (fat_read_file disk name \<noteq> Some None \<or> (\<exists>i < 64. entry_flags disk i = 0))"

text \<open>
  A database survives a reboot: on a detected, sound disk whose file system is in order and
  has room for it, saving a database whose keys and values fit the image succeeds, the file
  system is still in order, loading it under its name gives back exactly the database that was
  saved, and every other file of the disk reads as before.
\<close>

lemma kv_persists:
  assumes "sound_disk P rd wr" "P dev" "mf16_ok (fs_image rd dev)" "kv_storable db"
    and "utf8_valid (as_bytes (disk_filename (kv_name db)))" "length (kv_name db) \<le> 11"
    and "has_room (fs_image rd dev) (disk_filename (kv_name db)) (length (serialize db))"
  shows "\<exists>dev'. kv_save_to_disk True rd wr dev db = Some (Ok (), dev') \<and> P dev' \<and> mf16_ok (fs_image rd dev')
    \<and> kv_load_from_disk True rd dev' (kv_name db) = Some (Some db)
    \<and> (\<forall>m. m \<noteq> disk_filename (kv_name db) \<longrightarrow> diskfs_read_file True rd dev' m = diskfs_read_file True rd dev m)"
proof -
  let ?f = "disk_filename (kv_name db)" and ?im = "fs_image rd dev"
  have name: "length ?f \<le> 16" and ser: "serialize db \<noteq> []"
    using assms(6) by (simp_all add: disk_filename_def serialize_def)
  note R = read_fs_image_eq [OF assms(1, 2)]
  obtain d where d: "fat_write_file ?im ?f (serialize db) = Some (Ok (), d)" "mf16_ok d" "length d = length ?im"
    "\<And>m. fat_read_file d m = (if m = ?f then Some (Some (serialize db)) else fat_read_file ?im m)"
    using fat_write_read_aux [OF assms(3, 5) name ser] assms(7) by (auto simp: has_room_def)
  obtain dev' where w: "write_fs_image True wr dev d = (Ok (), dev')" "P dev'" "fs_image rd dev' = d"
    using write_fs_image_ok [OF assms(1, 2)] d(3) R(2) by auto
  have "kv_save_to_disk True rd wr dev db = Some (Ok (), dev')"
    using d(1) w(1) by (simp add: kv_save_to_disk_def diskfs_write_file_def R(1))
  moreover have "kv_load_from_disk True rd dev' (kv_name db) = Some (Some db)"
    using diskfs_read_file_eq [OF assms(1) w(2), of ?f] w(3) d(4) deserialize_serialize [OF assms(4)]
    by (simp add: kv_load_from_disk_def)
  moreover have "diskfs_read_file True rd dev' m = diskfs_read_file True rd dev m" if "m \<noteq> ?f" for m
  proof -
    obtain r where "fat_read_file ?im m = Some r" using mf16_ok_reads [OF assms(3)] by blast
    then show ?thesis
      using diskfs_read_file_eq [OF assms(1) w(2), of m r] diskfs_read_file_eq [OF assms(1, 2), of m r] w(3) d(4) that
      by simp
  qed
  ultimately show ?thesis using w d(2) by blast
qed

text \<open>A disk held in memory, as a list of sectors, is sound.\<close>

definition list_read :: "u8 list list sector_read" where
  "list_read dev i = (if unat i < length dev then Ok (dev ! unat i) else Err ''no such sector'')"

definition list_write :: "u8 list list sector_write" where
  "list_write dev i s = (if unat i < length dev then (Ok (), dev[unat i := s]) else (Err ''no such sector'', dev))"

definition list_disk :: "u8 list list \<Rightarrow> bool" where
  "list_disk dev \<longleftrightarrow> length dev = 256 \<and> (\<forall>s \<in> set dev. length s = 512)"

lemma list_disk_sound: "sound_disk list_disk list_read list_write"
proof -
  have "unat (of_nat i :: u64) = i" if "i < 256" for i using that by (simp add: unat_of_nat)
  then show ?thesis
    by (auto simp: sound_disk_def list_disk_def list_read_def list_write_def
        dest: set_update_subset_insert [THEN subsetD])
qed

definition formatted_disk :: "u8 list list" where
  "formatted_disk = snd (diskfs_format True list_write (replicate 256 (replicate 512 0)))"

lemma formatted_disk_ok:
  "list_disk formatted_disk" "mf16_ok (fs_image list_read formatted_disk)"
  "length (free_clusters (fs_image list_read formatted_disk)) = 248"
  "i < 64 \<Longrightarrow> entry_flags (fs_image list_read formatted_disk) i = 0"
proof -
  note F = fat_format_ok [of "replicate 131072 0"]
  have "list_disk (replicate 256 (replicate 512 0))" by (simp add: list_disk_def)
  then obtain dev where d: "write_fs_image True list_write (replicate 256 (replicate 512 0)) (snd (fat_format (replicate 131072 0)))
      = (Ok (), dev)" "list_disk dev" "fs_image list_read dev = snd (fat_format (replicate 131072 0))"
    by (rule write_fs_image_ok [OF list_disk_sound]) (use F(6) in simp_all)
  have "formatted_disk = dev"
    using d(1) F(1) by (cases "fat_format (replicate 131072 0)") (simp add: formatted_disk_def diskfs_format_def diskfs_consts)
  then show "list_disk formatted_disk" "mf16_ok (fs_image list_read formatted_disk)"
    "length (free_clusters (fs_image list_read formatted_disk)) = 248"
    "i < 64 \<Longrightarrow> entry_flags (fs_image list_read formatted_disk) i = 0"
    using d F by (auto simp: mf16_ok_def num_clusters_def)
qed

lemma kv_persists_instance:
  "\<exists>dev. kv_save_to_disk True list_read list_write formatted_disk (kv_set (kv_new ''system'') ''hostname'' [109]) = Some (Ok (), dev)
     \<and> kv_load_from_disk True list_read dev ''system'' = Some (Some (kv_set (kv_new ''system'') ''hostname'' [109]))"
proof -
  let ?db = "kv_set (kv_new ''system'') ''hostname'' [109]"
  have db: "?db = \<lparr>kv_name = ''system'', kv_entries = [(''hostname'', [109])]\<rparr>"
    by (simp add: kv_set_def kv_new_def kv_pos_def binary_search_def insert_at_def)
  have utf: "utf8_valid (as_bytes ''hostname'')" "utf8_valid (as_bytes ''kvdb_system'')"
    by (rule ascii_utf8_valid, simp add: is_ascii_def)+
  have "kv_storable ?db" using utf(1) by (simp add: db kv_storable_def)
  moreover have "length (serialize ?db) = 24"
    by (simp add: db serialize_def KV_MAGIC_def kv_ser_entry_def)
  then have "has_room (fs_image list_read formatted_disk) (disk_filename (kv_name ?db)) (length (serialize ?db))"
    using formatted_disk_ok(3) formatted_disk_ok(4) [of 0] by (auto simp: has_room_def intro!: exI [of _ 0])
  ultimately show ?thesis
    using kv_persists [OF list_disk_sound formatted_disk_ok(1, 2), of ?db] utf(2)
    by (auto simp: db disk_filename_def)
qed

end
