(* ===== verification/Rust_Parse.thy ===== *)
theory Rust_Parse
  imports Rust_Str
begin

text \<open>
  Parsing in Rust's standard library, as the kernel's command and filter parsers use it:
  \<^verbatim>\<open>split_whitespace\<close> (Unicode white space, on the UTF-8 bytes) and \<^verbatim>\<open>str::parse\<close> of unsigned
  integers.
\<close>

section \<open>White space\<close>

text \<open>The length of the white-space character a string starts with, 0 if it starts with none.\<close>

definition ws_len :: "str \<Rightarrow> nat" where
  "ws_len s =
     (case map of_char s :: nat list of
        [] \<Rightarrow> 0
      | a # bs \<Rightarrow>
          if 9 \<le> a \<and> a \<le> 13 \<or> a = 32 then 1
          else (case bs of
                  [] \<Rightarrow> 0
                | b # cs \<Rightarrow>
                    if a = 0xC2 \<and> (b = 0x85 \<or> b = 0xA0) then 2
                    else (case cs of
                            [] \<Rightarrow> 0
                          | c # _ \<Rightarrow>
                              if a = 0xE1 \<and> b = 0x9A \<and> c = 0x80
                                \<or> a = 0xE2 \<and> b = 0x80 \<and> (0x80 \<le> c \<and> c \<le> 0x8A \<or> c = 0xA8 \<or> c = 0xA9 \<or> c = 0xAF)
                                \<or> a = 0xE2 \<and> b = 0x81 \<and> c = 0x9F
                                \<or> a = 0xE3 \<and> b = 0x80 \<and> c = 0x80
                              then 3 else 0)))"

text \<open>The words, with the word being read as an accumulator.\<close>

function split_ws :: "str \<Rightarrow> str \<Rightarrow> str list" where
  "split_ws [] word = (if word = [] then [] else [word])"
| "split_ws (c # s) word =
     (if ws_len (c # s) = 0 then split_ws s (word @ [c])
      else (if word = [] then [] else [word]) @ split_ws (drop (ws_len (c # s)) (c # s)) [])"
  by pat_completeness auto
termination by (relation "measure (\<lambda>(s, word). length s)") auto

definition split_whitespace :: "str \<Rightarrow> str list" where
  "split_whitespace s = split_ws s []"

section \<open>Unsigned integers\<close>

definition digit_val :: "char \<Rightarrow> nat option" where
  "digit_val c = (let n = of_char c :: nat in if 48 \<le> n \<and> n \<le> 57 then Some (n - 48) else None)"

fun parse_digits :: "nat \<Rightarrow> str \<Rightarrow> nat option" where
  "parse_digits acc [] = Some acc"
| "parse_digits acc (c # s) = (case digit_val c of None \<Rightarrow> None | Some d \<Rightarrow> parse_digits (acc * 10 + d) s)"

text \<open>\<^verbatim>\<open>parse::<uN>\<close>: an optional plus sign, at least one digit, a value below the bound.\<close>

definition parse_uint :: "nat \<Rightarrow> str \<Rightarrow> nat option" where
  "parse_uint bound s =
     (let ds = (case s of c # s' \<Rightarrow> if c = CHR ''+'' then s' else s | [] \<Rightarrow> [])
      in if ds = [] then None
         else case parse_digits 0 ds of None \<Rightarrow> None | Some n \<Rightarrow> if n < bound then Some n else None)"

lemma digit_val_char [simp]: "d < 10 \<Longrightarrow> digit_val (digit_char d) = Some d"
  by (simp add: digit_val_def digit_char_def)

lemma parse_digits_append: "parse_digits acc (s @ t) = (case parse_digits acc s of None \<Rightarrow> None | Some n \<Rightarrow> parse_digits n t)"
  by (induction s arbitrary: acc) (auto split: option.split)

lemma parse_digits_show: "parse_digits 0 (show_nat n) = Some n"
  by (induction n rule: show_nat.induct) (subst show_nat.simps, simp add: parse_digits_append)

lemma show_nat_head: "\<exists>d s. show_nat n = digit_char d # s \<and> d < 10"
proof (induction n rule: show_nat.induct)
  case (1 n)
  then show ?case by (cases "n < 10") (subst show_nat.simps, force)+
qed

lemma digit_char_not_plus: "d < 10 \<Longrightarrow> digit_char d \<noteq> CHR ''+''"
  by (metis digit_val_char option.distinct(1) digit_val_def[of "CHR ''+''", simplified])

text \<open>Parsing reads back what formatting printed.\<close>

lemma parse_show_nat [simp]: "n < bound \<Longrightarrow> parse_uint bound (show_nat n) = Some n"
proof -
  assume n: "n < bound"
  obtain d s where d: "show_nat n = digit_char d # s" "d < 10" using show_nat_head by blast
  then show ?thesis
    using n digit_char_not_plus [OF d(2)] parse_digits_show [of n] by (simp add: parse_uint_def)
qed

end
