(* ===== verification/Be_Bytes.thy ===== *)
theory Be_Bytes
  imports Prelude
begin

text \<open>Network byte order: the big-endian encodings \<^verbatim>\<open>to_be_bytes\<close> and \<^verbatim>\<open>from_be_bytes\<close>.\<close>

definition u16_to_be :: "u16 \<Rightarrow> u8 list" where
  "u16_to_be w = [ucast (drop_bit 8 w), ucast w]"

definition u16_from_be :: "u8 \<Rightarrow> u8 \<Rightarrow> u16" where
  "u16_from_be b0 b1 = push_bit 8 (ucast b0) OR ucast b1"

definition u32_to_be :: "u32 \<Rightarrow> u8 list" where
  "u32_to_be w = [ucast (drop_bit 24 w), ucast (drop_bit 16 w), ucast (drop_bit 8 w), ucast w]"

definition u32_from_be :: "u8 \<Rightarrow> u8 \<Rightarrow> u8 \<Rightarrow> u8 \<Rightarrow> u32" where
  "u32_from_be b0 b1 b2 b3 =
     push_bit 24 (ucast b0) OR push_bit 16 (ucast b1) OR push_bit 8 (ucast b2) OR ucast b3"

lemma u16_be_roundtrip [simp]: "u16_from_be (ucast (drop_bit 8 w)) (ucast w) = w"
  unfolding u16_from_be_def by (rule bit_word_eqI) (auto simp: bit_simps not_less)

lemma u32_be_roundtrip [simp]:
  "u32_from_be (ucast (drop_bit 24 w)) (ucast (drop_bit 16 w)) (ucast (drop_bit 8 w)) (ucast w) = w"
proof (rule bit_word_eqI)
  fix n :: nat
  assume n: "n < LENGTH(32)"
  consider "n < 8" | "8 \<le> n" "n < 16" | "16 \<le> n" "n < 24" | "24 \<le> n" by linarith
  then show "bit (u32_from_be (ucast (drop_bit 24 w)) (ucast (drop_bit 16 w)) (ucast (drop_bit 8 w)) (ucast w)) n
      = bit w n"
    by cases (use n in \<open>auto simp: u32_from_be_def bit_simps\<close>)
qed

lemma length_be [simp]: "length (u16_to_be w) = 2" "length (u32_to_be d) = 4"
  by (simp_all add: u16_to_be_def u32_to_be_def)

lemma unat_u16_from_be: "unat (u16_from_be b0 b1) = 256 * unat b0 + unat b1"
proof -
  have lt: "unat b0 < 256" "unat b1 < 256"
    using unsigned_less [of b0, where 'a = nat] unsigned_less [of b1, where 'a = nat] by simp_all
  have "push_bit 8 (ucast b0) + (ucast b1 :: u16) = u16_from_be b0 b1"
    unfolding u16_from_be_def by (rule disjunctive_add) (auto simp: bit_simps bit_u8_beyond)
  then have eq: "u16_from_be b0 b1 = of_nat (256 * unat b0 + unat b1)"
    by (simp add: push_bit_eq_mult mult.commute)
  have "256 * unat b0 + unat b1 < 2 ^ LENGTH(16)" using lt by simp
  then show ?thesis unfolding eq unat_of_nat by (rule mod_less)
qed

lemma unat_u16_bytes: "256 * unat (ucast (drop_bit 8 w) :: u8) + unat (ucast w :: u8) = unat (w :: u16)"
  using unat_u16_from_be [of "ucast (drop_bit 8 w)" "ucast w"] by simp

end
