(* ===== verification/Bpf.thy ===== *)
theory Bpf
  imports Rust_Parse Be_Bytes
begin

text \<open>
  The classic packet-filter machine of \<^verbatim>\<open>bpf.rs\<close>: instructions, the validation in
  \<^verbatim>\<open>BpfVm::new\<close>, the interpreter, the compiler for filter expressions and the programs attached
  to interfaces. An addition that overflows (only \<^verbatim>\<open>x + insn.k\<close> is not a wrapping one), which
  panics in builds with overflow checks, is the outcome \<open>Panic\<close>.
\<close>

section \<open>Opcodes\<close>

definition BPF_LD :: u16 where "BPF_LD = 0x00"
definition BPF_LDX :: u16 where "BPF_LDX = 0x01"
definition BPF_ST :: u16 where "BPF_ST = 0x02"
definition BPF_STX :: u16 where "BPF_STX = 0x03"
definition BPF_ALU :: u16 where "BPF_ALU = 0x04"
definition BPF_JMP :: u16 where "BPF_JMP = 0x05"
definition BPF_RET :: u16 where "BPF_RET = 0x06"
definition BPF_MISC :: u16 where "BPF_MISC = 0x07"

definition BPF_W :: u16 where "BPF_W = 0x00"
definition BPF_H :: u16 where "BPF_H = 0x08"
definition BPF_B :: u16 where "BPF_B = 0x10"

definition BPF_IMM :: u16 where "BPF_IMM = 0x00"
definition BPF_ABS :: u16 where "BPF_ABS = 0x20"
definition BPF_IND :: u16 where "BPF_IND = 0x40"
definition BPF_MEM :: u16 where "BPF_MEM = 0x60"
definition BPF_LEN :: u16 where "BPF_LEN = 0x80"

definition BPF_ADD :: u16 where "BPF_ADD = 0x00"
definition BPF_SUB :: u16 where "BPF_SUB = 0x10"
definition BPF_MUL :: u16 where "BPF_MUL = 0x20"
definition BPF_DIV :: u16 where "BPF_DIV = 0x30"
definition BPF_OR :: u16 where "BPF_OR = 0x40"
definition BPF_AND :: u16 where "BPF_AND = 0x50"
definition BPF_LSH :: u16 where "BPF_LSH = 0x60"
definition BPF_RSH :: u16 where "BPF_RSH = 0x70"
definition BPF_NEG :: u16 where "BPF_NEG = 0x80"
definition BPF_MOD :: u16 where "BPF_MOD = 0x90"
definition BPF_XOR :: u16 where "BPF_XOR = 0xa0"

definition BPF_JA :: u16 where "BPF_JA = 0x00"
definition BPF_JEQ :: u16 where "BPF_JEQ = 0x10"
definition BPF_JGT :: u16 where "BPF_JGT = 0x20"
definition BPF_JGE :: u16 where "BPF_JGE = 0x30"
definition BPF_JSET :: u16 where "BPF_JSET = 0x40"

definition BPF_K :: u16 where "BPF_K = 0x00"
definition BPF_X :: u16 where "BPF_X = 0x08"
definition BPF_TAX :: u16 where "BPF_TAX = 0x00"
definition BPF_TXA :: u16 where "BPF_TXA = 0x80"

definition BPF_MEMWORDS :: usize where "BPF_MEMWORDS = 16"
definition MAX_INSNS :: usize where "MAX_INSNS = 4096"

lemmas bpf_class = BPF_LD_def BPF_LDX_def BPF_ST_def BPF_STX_def BPF_ALU_def BPF_JMP_def BPF_RET_def BPF_MISC_def
lemmas bpf_modes = BPF_W_def BPF_H_def BPF_B_def BPF_IMM_def BPF_ABS_def BPF_IND_def BPF_MEM_def BPF_LEN_def
lemmas bpf_jumps = BPF_JA_def BPF_JEQ_def BPF_JGT_def BPF_JGE_def BPF_JSET_def BPF_K_def BPF_X_def

record BpfInsn =
  opcode :: u16
  jt :: u8
  jf :: u8
  bpf_k :: u32

definition insn :: "u16 \<Rightarrow> u8 \<Rightarrow> u8 \<Rightarrow> u32 \<Rightarrow> BpfInsn" where
  "insn op t f k = \<lparr>opcode = op, jt = t, jf = f, bpf_k = k\<rparr>"

type_synonym bpf_program = "BpfInsn list"
type_synonym pkt_bytes = "u8 list"

section \<open>Validation\<close>

text \<open>The checks on the instruction at index \<open>i\<close> of a program of \<open>n\<close> instructions.\<close>

definition check_insn :: "nat \<Rightarrow> nat \<Rightarrow> BpfInsn \<Rightarrow> unit result" where
  "check_insn n i ins =
     (let class = opcode ins AND 0x07; op = opcode ins AND 0xf0
      in if class = BPF_JMP \<and> op = BPF_JA \<and> i + 1 + unat (bpf_k ins) \<ge> n
         then Err ''jump target out of bounds''
         else if class = BPF_JMP \<and> op \<noteq> BPF_JA \<and> (i + 1 + unat (jt ins) \<ge> n \<or> i + 1 + unat (jf ins) \<ge> n)
         then Err ''conditional jump target out of bounds''
         else if (class = BPF_ST \<or> class = BPF_STX) \<and> unat (bpf_k ins) \<ge> BPF_MEMWORDS
         then Err ''memory index out of bounds''
         else if class = BPF_ALU \<and> (op = BPF_DIV \<or> op = BPF_MOD) \<and> opcode ins AND BPF_X = 0 \<and> bpf_k ins = 0
         then Err ''division by zero in constant''
         else Ok ())"

fun check_insns :: "nat \<Rightarrow> nat \<Rightarrow> bpf_program \<Rightarrow> unit result" where
  "check_insns n i [] = Ok ()"
| "check_insns n i (ins # rest) =
     (case check_insn n i ins of Inl e \<Rightarrow> Err e | Inr _ \<Rightarrow> check_insns n (i + 1) rest)"

text \<open>\<^verbatim>\<open>BpfVm::new\<close>: the machine is the program, its scratch memory is cleared by every run.\<close>

definition bpf_new :: "bpf_program \<Rightarrow> bpf_program result" where
  "bpf_new program =
     (if program = [] then Err ''empty program''
      else if length program > MAX_INSNS then Err ''program too long''
      else case check_insns (length program) 0 program of
             Inl e \<Rightarrow> Err e
           | Inr _ \<Rightarrow>
               if opcode (last program) AND 0x07 \<noteq> BPF_RET then Err ''program does not end with RET''
               else Ok program)"

section \<open>Execution\<close>

definition load_packet :: "pkt_bytes \<Rightarrow> usize \<Rightarrow> u16 \<Rightarrow> u32" where
  "load_packet pkt off sz =
     (if sz = BPF_W then
        (if off + 4 > length pkt then 0
         else u32_from_be (pkt ! off) (pkt ! (off + 1)) (pkt ! (off + 2)) (pkt ! (off + 3)))
      else if sz = BPF_H then
        (if off + 2 > length pkt then 0 else ucast (u16_from_be (pkt ! off) (pkt ! (off + 1))))
      else if sz = BPF_B then (if off \<ge> length pkt then 0 else ucast (pkt ! off))
      else 0)"

record bpf_state =
  reg_a :: u32
  reg_x :: u32
  reg_pc :: usize
  reg_mem :: "u32 list"

datatype step_result = Next bpf_state | Return u32 | Panic

text \<open>The value of \<^verbatim>\<open>mem[idx]\<close> behind its guard: the register keeps its value otherwise.\<close>

definition mem_get :: "bpf_state \<Rightarrow> u32 \<Rightarrow> u32 \<Rightarrow> u32" where
  "mem_get st k old = (if unat k < BPF_MEMWORDS then reg_mem st ! unat k else old)"

definition mem_set :: "bpf_state \<Rightarrow> u32 \<Rightarrow> u32 \<Rightarrow> bpf_state" where
  "mem_set st k v = (if unat k < BPF_MEMWORDS then st\<lparr>reg_mem := (reg_mem st)[unat k := v]\<rparr> else st)"

definition advance :: "nat \<Rightarrow> bpf_state \<Rightarrow> step_result" where
  "advance skip st = Next (st\<lparr>reg_pc := reg_pc st + skip + 1\<rparr>)"

definition exec_ld :: "pkt_bytes \<Rightarrow> BpfInsn \<Rightarrow> bpf_state \<Rightarrow> step_result" where
  "exec_ld packet ins st =
     (let sz = opcode ins AND 0x18; mode = opcode ins AND 0xe0; k = bpf_k ins
      in if mode = BPF_IMM then advance 0 (st\<lparr>reg_a := k\<rparr>)
         else if mode = BPF_ABS then advance 0 (st\<lparr>reg_a := load_packet packet (unat k) sz\<rparr>)
         else if mode = BPF_IND then
           (if unat (reg_x st) + unat k \<ge> 2 ^ 32 then Panic
            else advance 0 (st\<lparr>reg_a := load_packet packet (unat (reg_x st + k)) sz\<rparr>))
         else if mode = BPF_MEM then advance 0 (st\<lparr>reg_a := mem_get st k (reg_a st)\<rparr>)
         else if mode = BPF_LEN then advance 0 (st\<lparr>reg_a := of_nat (length packet)\<rparr>)
         else Return 0)"

definition exec_ldx :: "pkt_bytes \<Rightarrow> BpfInsn \<Rightarrow> bpf_state \<Rightarrow> step_result" where
  "exec_ldx packet ins st =
     (let mode = opcode ins AND 0xe0; k = bpf_k ins
      in if mode = BPF_IMM then advance 0 (st\<lparr>reg_x := k\<rparr>)
         else if mode = BPF_MEM then advance 0 (st\<lparr>reg_x := mem_get st k (reg_x st)\<rparr>)
         else if mode = BPF_LEN then advance 0 (st\<lparr>reg_x := of_nat (length packet)\<rparr>)
         else Return 0)"

definition operand :: "BpfInsn \<Rightarrow> bpf_state \<Rightarrow> u32" where
  "operand ins st = (if opcode ins AND 0x08 = BPF_X then reg_x st else bpf_k ins)"

definition exec_alu :: "BpfInsn \<Rightarrow> bpf_state \<Rightarrow> step_result" where
  "exec_alu ins st =
     (let op = opcode ins AND 0xf0; v = operand ins st; a = reg_a st
      in if op = BPF_ADD then advance 0 (st\<lparr>reg_a := a + v\<rparr>)
         else if op = BPF_SUB then advance 0 (st\<lparr>reg_a := a - v\<rparr>)
         else if op = BPF_MUL then advance 0 (st\<lparr>reg_a := a * v\<rparr>)
         else if op = BPF_DIV then (if v = 0 then Return 0 else advance 0 (st\<lparr>reg_a := a div v\<rparr>))
         else if op = BPF_MOD then (if v = 0 then Return 0 else advance 0 (st\<lparr>reg_a := a mod v\<rparr>))
         else if op = BPF_AND then advance 0 (st\<lparr>reg_a := a AND v\<rparr>)
         else if op = BPF_OR then advance 0 (st\<lparr>reg_a := a OR v\<rparr>)
         else if op = BPF_XOR then advance 0 (st\<lparr>reg_a := a XOR v\<rparr>)
         else if op = BPF_LSH then advance 0 (st\<lparr>reg_a := push_bit (unat v mod 32) a\<rparr>)
         else if op = BPF_RSH then advance 0 (st\<lparr>reg_a := drop_bit (unat v mod 32) a\<rparr>)
         else if op = BPF_NEG then advance 0 (st\<lparr>reg_a := NOT a + 1\<rparr>)
         else Return 0)"

definition exec_jmp :: "BpfInsn \<Rightarrow> bpf_state \<Rightarrow> step_result" where
  "exec_jmp ins st =
     (let op = opcode ins AND 0xf0; a = reg_a st
      in if op = BPF_JA then advance (unat (bpf_k ins)) st
         else let v = operand ins st;
                  cond = (if op = BPF_JEQ then a = v
                          else if op = BPF_JGT then a > v
                          else if op = BPF_JGE then a \<ge> v
                          else if op = BPF_JSET then a AND v \<noteq> 0
                          else False)
              in if cond then advance (unat (jt ins)) st else advance (unat (jf ins)) st)"

definition exec_misc :: "BpfInsn \<Rightarrow> bpf_state \<Rightarrow> step_result" where
  "exec_misc ins st =
     (let op = opcode ins AND 0xf0
      in if op = BPF_TAX then advance 0 (st\<lparr>reg_x := reg_a st\<rparr>)
         else if op = BPF_TXA then advance 0 (st\<lparr>reg_a := reg_x st\<rparr>)
         else Return 0)"

definition bpf_exec :: "pkt_bytes \<Rightarrow> BpfInsn \<Rightarrow> bpf_state \<Rightarrow> step_result" where
  "bpf_exec packet ins st =
     (let class = opcode ins AND 0x07
      in if class = BPF_LD then exec_ld packet ins st
         else if class = BPF_LDX then exec_ldx packet ins st
         else if class = BPF_ST then advance 0 (mem_set st (bpf_k ins) (reg_a st))
         else if class = BPF_STX then advance 0 (mem_set st (bpf_k ins) (reg_x st))
         else if class = BPF_ALU then exec_alu ins st
         else if class = BPF_JMP then exec_jmp ins st
         else if class = BPF_RET then
           Return (if opcode ins AND 0x18 = BPF_K then bpf_k ins else reg_a st)
         else if class = BPF_MISC then exec_misc ins st
         else Return 0)"

text \<open>
  The loop of \<^verbatim>\<open>run\<close>: \<open>None\<close> is a panic. It terminates for every program, since every
  instruction moves the program counter forward.
\<close>

lemma reg_pc_mem_set [simp]: "reg_pc (mem_set st k v) = reg_pc st"
  by (simp add: mem_set_def)

lemma bpf_exec_cases:
  assumes "bpf_exec packet ins st = Next st'"
  obtains (seq) "opcode ins AND 0x07 \<noteq> BPF_JMP" "opcode ins AND 0x07 \<noteq> BPF_RET" "reg_pc st' = reg_pc st + 1"
  | (jump) "opcode ins AND 0x07 = BPF_JMP" "opcode ins AND 0xf0 = BPF_JA"
      "reg_pc st' = reg_pc st + 1 + unat (bpf_k ins)"
  | (branch) skip where "opcode ins AND 0x07 = BPF_JMP" "opcode ins AND 0xf0 \<noteq> BPF_JA"
      "skip = unat (jt ins) \<or> skip = unat (jf ins)" "reg_pc st' = reg_pc st + 1 + skip"
proof (cases "opcode ins AND 0x07 = BPF_JMP")
  case True
  then have "exec_jmp ins st = Next st'"
    using assms by (simp add: bpf_exec_def Let_def bpf_class)
  then show ?thesis
    using True jump branch by (auto simp: exec_jmp_def advance_def Let_def split: if_splits)
next
  case False
  have "exec_ld packet ins st = Next st' \<Longrightarrow> reg_pc st' = reg_pc st + 1"
    by (auto simp: exec_ld_def advance_def Let_def split: if_splits)
  moreover have "exec_ldx packet ins st = Next st' \<Longrightarrow> reg_pc st' = reg_pc st + 1"
    by (auto simp: exec_ldx_def advance_def Let_def split: if_splits)
  moreover have "exec_alu ins st = Next st' \<Longrightarrow> reg_pc st' = reg_pc st + 1"
    by (auto simp: exec_alu_def advance_def Let_def split: if_splits)
  moreover have "exec_misc ins st = Next st' \<Longrightarrow> reg_pc st' = reg_pc st + 1"
    by (auto simp: exec_misc_def advance_def Let_def split: if_splits)
  moreover have "advance 0 (mem_set st k v) = Next st' \<Longrightarrow> reg_pc st' = reg_pc st + 1" for k v
    by (auto simp: advance_def)
  ultimately have "opcode ins AND 0x07 \<noteq> BPF_RET \<and> reg_pc st' = reg_pc st + 1"
    using assms False by (auto simp: bpf_exec_def Let_def bpf_class split: if_splits)
  then show ?thesis using False seq by blast
qed

lemma bpf_exec_forward: "bpf_exec packet ins st = Next st' \<Longrightarrow> reg_pc st < reg_pc st'"
  by (erule bpf_exec_cases) auto

function bpf_loop :: "bpf_program \<Rightarrow> pkt_bytes \<Rightarrow> bpf_state \<Rightarrow> u32 option" where
  "bpf_loop program packet st =
     (if reg_pc st < length program then
        (case bpf_exec packet (program ! reg_pc st) st of
           Next st' \<Rightarrow> bpf_loop program packet st'
         | Return v \<Rightarrow> Some v
         | Panic \<Rightarrow> None)
      else Some 0)"
  by pat_completeness auto
termination
  by (relation "measure (\<lambda>(program, packet, st). length program - reg_pc st)")
     (auto dest: bpf_exec_forward intro: diff_less_mono2)

declare bpf_loop.simps [simp del]

definition bpf_start :: bpf_state where
  "bpf_start = \<lparr>reg_a = 0, reg_x = 0, reg_pc = 0, reg_mem = replicate BPF_MEMWORDS 0\<rparr>"

definition bpf_run :: "bpf_program \<Rightarrow> pkt_bytes \<Rightarrow> u32 option" where
  "bpf_run program packet = bpf_loop program packet bpf_start"

section \<open>Filter expressions\<close>

fun parse_octets :: "str list \<Rightarrow> u8 list option" where
  "parse_octets [] = Some []"
| "parse_octets (p # ps) =
     (case parse_uint 256 p of
        None \<Rightarrow> None
      | Some n \<Rightarrow> map_option (\<lambda>os. of_nat n # os) (parse_octets ps))"

definition parse_ipv4 :: "str \<Rightarrow> u8 list result" where
  "parse_ipv4 s =
     (let parts = split_on CHR ''.'' s
      in if length parts \<noteq> 4 then Err ''invalid IPv4 address''
         else case parse_octets parts of None \<Rightarrow> Err ''invalid IPv4 octet'' | Some ip \<Rightarrow> Ok ip)"

definition bpf_accept :: BpfInsn where "bpf_accept = insn (BPF_RET OR BPF_K) 0 0 0xFFFFFFFF"
definition bpf_reject :: BpfInsn where "bpf_reject = insn (BPF_RET OR BPF_K) 0 0 0"

definition load_abs :: "u16 \<Rightarrow> u32 \<Rightarrow> BpfInsn" where
  "load_abs sz off = insn (BPF_LD OR sz OR BPF_ABS) 0 0 off"

definition jump_eq :: "u8 \<Rightarrow> u8 \<Rightarrow> u32 \<Rightarrow> BpfInsn" where
  "jump_eq t f k = insn (BPF_JMP OR BPF_JEQ OR BPF_K) t f k"

definition compile_filter :: "str \<Rightarrow> bpf_program result" where
  "compile_filter expr =
     (case split_whitespace expr of
        [] \<Rightarrow> Err ''empty filter expression''
      | [w] \<Rightarrow>
          if w = ''tcp'' then Ok [load_abs BPF_B 23, jump_eq 0 1 6, bpf_accept, bpf_reject]
          else if w = ''udp'' then Ok [load_abs BPF_B 23, jump_eq 0 1 17, bpf_accept, bpf_reject]
          else if w = ''icmp'' then Ok [load_abs BPF_B 23, jump_eq 0 1 1, bpf_accept, bpf_reject]
          else Err ''unsupported filter expression''
      | [w, arg] \<Rightarrow>
          if w = ''port'' then
            (case parse_uint (2 ^ 32) arg of
               None \<Rightarrow> Err ''invalid port number''
             | Some port \<Rightarrow>
                 Ok [load_abs BPF_H 34, jump_eq 2 0 (of_nat port),
                     load_abs BPF_H 36, jump_eq 0 1 (of_nat port), bpf_accept, bpf_reject])
          else if w = ''host'' then
            (case parse_ipv4 arg of
               Inl e \<Rightarrow> Err e
             | Inr ip \<Rightarrow>
                 (let ip_u32 = u32_from_be (ip ! 0) (ip ! 1) (ip ! 2) (ip ! 3)
                  in Ok [load_abs BPF_W 26, jump_eq 2 0 ip_u32,
                         load_abs BPF_W 30, jump_eq 0 1 ip_u32, bpf_accept, bpf_reject]))
          else Err ''unsupported filter expression''
      | [w, w', arg] \<Rightarrow>
          if w = ''tcp'' \<and> w' = ''port'' then
            (case parse_uint (2 ^ 32) arg of
               None \<Rightarrow> Err ''invalid port number''
             | Some port \<Rightarrow>
                 Ok [load_abs BPF_B 23, jump_eq 0 5 6,
                     load_abs BPF_H 34, jump_eq 2 0 (of_nat port),
                     load_abs BPF_H 36, jump_eq 0 1 (of_nat port), bpf_accept, bpf_reject])
          else Err ''unsupported filter expression''
      | _ \<Rightarrow> Err ''unsupported filter expression'')"

section \<open>Attachments\<close>

record BpfAttachment =
  att_iface :: str
  att_vm :: bpf_program
  packets_matched :: u64
  packets_total :: u64

record BpfState =
  attachments :: "BpfAttachment list"
  programs_loaded :: u64
  packets_filtered :: u64

definition bpf_init :: "BpfState \<Rightarrow> BpfState" where
  "bpf_init st = st\<lparr>attachments := []\<rparr>"

definition bpf_attach :: "BpfState \<Rightarrow> str \<Rightarrow> bpf_program \<Rightarrow> unit result \<times> BpfState" where
  "bpf_attach st iface program =
     (case bpf_new program of
        Inl e \<Rightarrow> (Err e, st)
      | Inr vm \<Rightarrow>
          (let fresh = \<lparr>att_iface = iface, att_vm = vm, packets_matched = 0, packets_total = 0\<rparr>;
               atts = (case position (\<lambda>a. att_iface a = iface) (attachments st) of
                         Some pos \<Rightarrow> (attachments st)[pos := (attachments st ! pos)
                                       \<lparr>att_vm := vm, packets_matched := 0, packets_total := 0\<rparr>]
                       | None \<Rightarrow> attachments st @ [fresh])
           in (Ok (), st\<lparr>attachments := atts, programs_loaded := programs_loaded st + 1\<rparr>)))"

definition bpf_detach :: "BpfState \<Rightarrow> str \<Rightarrow> bool \<times> BpfState" where
  "bpf_detach st iface =
     (case position (\<lambda>a. att_iface a = iface) (attachments st) of
        Some pos \<Rightarrow> (True, st\<lparr>attachments := remove_at pos (attachments st)\<rparr>)
      | None \<Rightarrow> (False, st))"

definition bpf_filter :: "BpfState \<Rightarrow> str \<Rightarrow> pkt_bytes \<Rightarrow> (u32 \<times> BpfState) option" where
  "bpf_filter st iface packet =
     (case position (\<lambda>a. att_iface a = iface) (attachments st) of
        None \<Rightarrow> Some (of_nat (length packet), st)
      | Some pos \<Rightarrow>
          (let att = attachments st ! pos
           in case bpf_run (att_vm att) packet of
                None \<Rightarrow> None
              | Some verdict \<Rightarrow>
                  (let att' = att\<lparr>packets_total := packets_total att + 1,
                                  packets_matched := packets_matched att + (if verdict > 0 then 1 else 0)\<rparr>
                   in Some (verdict, st\<lparr>attachments := (attachments st)[pos := att'],
                                        packets_filtered := packets_filtered st + 1\<rparr>))))"

definition bpf_info :: "BpfState \<Rightarrow> str" where
  "bpf_info st =
     ''=== Classic BPF Subsystem ==='' @ [newline]
     @ ''Programs loaded (total): '' @ show_u64 (programs_loaded st) @ [newline]
     @ ''Active attachments: '' @ show_nat (length (attachments st)) @ [newline]
     @ ''Packets filtered: '' @ show_u64 (packets_filtered st) @ [newline]
     @ (if attachments st \<noteq> [] then
          [newline] @ ''IFACE      INSNS  MATCHED    TOTAL'' @ [newline]
          @ ''---------- ------ ---------- ----------'' @ [newline]
          @ concat (map (\<lambda>a. pad_right 10 (att_iface a) @ '' '' @ pad_right 6 (show_nat (length (att_vm a))) @ '' ''
                @ pad_right 10 (show_u64 (packets_matched a)) @ '' '' @ show_u64 (packets_total a) @ [newline])
              (attachments st))
        else [])"

definition bpf_stats :: "BpfState \<Rightarrow> str" where
  "bpf_stats st =
     (let total_matched = sum_list (map packets_matched (attachments st));
          total_processed = sum_list (map packets_total (attachments st))
      in ''=== BPF Statistics ==='' @ [newline]
         @ ''Total programs loaded: '' @ show_u64 (programs_loaded st) @ [newline]
         @ ''Total packets filtered: '' @ show_u64 (packets_filtered st) @ [newline]
         @ ''Packets matched: '' @ show_u64 total_matched @ [newline]
         @ ''Packets processed: '' @ show_u64 total_processed @ [newline]
         @ (if total_processed > 0 then
              ''Match rate: '' @ show_u64 (total_matched * 100 div total_processed) @ ''%'' @ [newline]
            else []))"

section \<open>Validated programs are safe\<close>

text \<open>What validation establishes.\<close>

definition bpf_valid :: "bpf_program \<Rightarrow> bool" where
  "bpf_valid p \<longleftrightarrow>
     p \<noteq> [] \<and> length p \<le> MAX_INSNS \<and> (\<forall>i < length p. check_insn (length p) i (p ! i) = Ok ())
     \<and> opcode (last p) AND 0x07 = BPF_RET"

lemma check_insns_nth:
  "check_insns n i p = Ok u \<longleftrightarrow> (\<forall>j < length p. check_insn n (i + j) (p ! j) = Ok ())"
proof (induction p arbitrary: i)
  case (Cons ins p)
  then show ?case
    by (auto simp: less_Suc_eq_0_disj split: sum.split)
qed simp

lemma bpf_new_Ok: "bpf_new p = Ok vm \<longleftrightarrow> vm = p \<and> bpf_valid p"
  using check_insns_nth [of "length p" 0 p]
  by (auto simp: bpf_new_def bpf_valid_def split: sum.splits)

text \<open>The states a run of a program on a packet goes through.\<close>

inductive bpf_reach :: "bpf_program \<Rightarrow> pkt_bytes \<Rightarrow> bpf_state \<Rightarrow> bool" for p pkt where
  start: "bpf_reach p pkt bpf_start"
| step: "bpf_reach p pkt st \<Longrightarrow> reg_pc st < length p \<Longrightarrow> bpf_exec pkt (p ! reg_pc st) st = Next st'
    \<Longrightarrow> bpf_reach p pkt st'"

lemma bpf_exec_mem:
  assumes "bpf_exec packet ins st = Next st'"
  shows "length (reg_mem st') = length (reg_mem st)"
  using assms
  unfolding bpf_exec_def exec_ld_def exec_ldx_def exec_alu_def exec_jmp_def exec_misc_def advance_def
    mem_set_def Let_def
  by (auto split: if_splits)

lemma bpf_exec_in_program:
  assumes "bpf_valid p" "reg_pc st < length p" "bpf_exec pkt (p ! reg_pc st) st = Next st'"
  shows "reg_pc st' < length p"
  using assms(3)
proof (cases rule: bpf_exec_cases)
  case seq
  have "reg_pc st \<noteq> length p - 1"
    using seq(2) assms(1) by (auto simp: bpf_valid_def last_conv_nth)
  then show ?thesis using seq(3) assms(2) by simp
next
  case jump
  have "check_insn (length p) (reg_pc st) (p ! reg_pc st) = Ok ()"
    using assms(1, 2) by (simp add: bpf_valid_def)
  then show ?thesis using jump by (auto simp: check_insn_def Let_def split: if_splits)
next
  case (branch skip)
  have "check_insn (length p) (reg_pc st) (p ! reg_pc st) = Ok ()"
    using assms(1, 2) by (simp add: bpf_valid_def)
  then show ?thesis using branch by (auto simp: check_insn_def Let_def split: if_splits)
qed

lemma bpf_reach_ok:
  assumes "bpf_reach p pkt st" "bpf_valid p"
  shows "reg_pc st < length p" "length (reg_mem st) = BPF_MEMWORDS" "bpf_loop p pkt st = bpf_run p pkt"
proof -
  have "reg_pc st < length p \<and> length (reg_mem st) = BPF_MEMWORDS \<and> bpf_loop p pkt st = bpf_run p pkt"
    using assms
  proof (induction rule: bpf_reach.induct)
    case start
    then show ?case by (auto simp: bpf_start_def bpf_valid_def bpf_run_def)
  next
    case (step st st')
    have "bpf_loop p pkt st = bpf_loop p pkt st'"
      using step.hyps(2, 3) by (subst bpf_loop.simps) simp
    then show ?case
      using step bpf_exec_in_program [OF step.prems step.hyps(2, 3)] bpf_exec_mem [OF step.hyps(3)] by simp
  qed
  then show "reg_pc st < length p" "length (reg_mem st) = BPF_MEMWORDS" "bpf_loop p pkt st = bpf_run p pkt" by auto
qed

text \<open>
  C29. A program that passes validation cannot go wrong: in every state a run reaches, the
  program counter is inside the program and the scratch memory has its sixteen words; a store
  addresses one of them and a division by a constant does not divide by zero; and the
  instruction reached either moves on to another instruction of the program or decides the
  verdict of the whole run, so the run never falls off the end.
\<close>

theorem bpf_validated_safe:
  assumes "bpf_new program = Ok vm" "bpf_reach vm packet st"
  defines "ins \<equiv> vm ! reg_pc st"
  shows "reg_pc st < length vm \<and> length (reg_mem st) = BPF_MEMWORDS
    \<and> (opcode ins AND 0x07 \<in> {BPF_ST, BPF_STX} \<longrightarrow> unat (bpf_k ins) < length (reg_mem st))
    \<and> (opcode ins AND 0x07 = BPF_ALU \<and> opcode ins AND 0xf0 \<in> {BPF_DIV, BPF_MOD} \<and> opcode ins AND BPF_X = 0
         \<longrightarrow> bpf_k ins \<noteq> 0)
    \<and> (case bpf_exec packet ins st of
         Next st' \<Rightarrow> reg_pc st' < length vm
       | Return v \<Rightarrow> bpf_run program packet = Some v
       | Panic \<Rightarrow> bpf_run program packet = None)"
proof -
  have vm: "vm = program" "bpf_valid vm" using assms(1) by (auto simp: bpf_new_Ok)
  note R = bpf_reach_ok [OF assms(2) vm(2)]
  have "check_insn (length vm) (reg_pc st) ins = Ok ()"
    using vm(2) R(1) by (simp add: bpf_valid_def ins_def)
  then have "opcode ins AND 0x07 \<in> {BPF_ST, BPF_STX} \<longrightarrow> unat (bpf_k ins) < length (reg_mem st)"
    "opcode ins AND 0x07 = BPF_ALU \<and> opcode ins AND 0xf0 \<in> {BPF_DIV, BPF_MOD} \<and> opcode ins AND BPF_X = 0
       \<longrightarrow> bpf_k ins \<noteq> 0"
    using R(2) by (auto simp: check_insn_def Let_def split: if_splits)
  moreover have "bpf_loop vm packet st = bpf_run program packet" using R(3) vm(1) by simp
  then have "case bpf_exec packet ins st of
         Next st' \<Rightarrow> reg_pc st' < length vm
       | Return v \<Rightarrow> bpf_run program packet = Some v
       | Panic \<Rightarrow> bpf_run program packet = None"
    using R(1) bpf_exec_in_program [OF vm(2) R(1), of packet]
    by (subst (asm) bpf_loop.simps) (auto simp: ins_def split: step_result.splits)
  ultimately show ?thesis using R(1, 2) by blast
qed

definition tcp_program :: bpf_program where
  "tcp_program = [load_abs BPF_B 23, jump_eq 0 1 6, bpf_accept, bpf_reject]"

lemmas tcp_program_defs = tcp_program_def load_abs_def jump_eq_def bpf_accept_def bpf_reject_def insn_def
  bpf_class bpf_modes bpf_jumps

lemma tcp_program_new: "bpf_new tcp_program = Ok tcp_program"
  by (simp add: tcp_program_defs bpf_new_def check_insn_def MAX_INSNS_def BPF_DIV_def BPF_MOD_def Let_def)

theorem bpf_validated_safe_witness:
  "\<exists>st. bpf_reach tcp_program [] st \<and> reg_pc st = 1 \<and> reg_pc st < length tcp_program
     \<and> length (reg_mem st) = BPF_MEMWORDS"
proof -
  obtain st where st: "bpf_exec [] (tcp_program ! 0) bpf_start = Next st" "reg_pc st = 1"
    by (simp add: tcp_program_defs bpf_exec_def exec_ld_def advance_def bpf_start_def Let_def)
  have "bpf_reach tcp_program [] st"
    using bpf_reach.step [OF bpf_reach.start, of tcp_program "[]" st] st(1)
    by (simp add: bpf_start_def tcp_program_def)
  with bpf_validated_safe [OF tcp_program_new this] st(2) show ?thesis by blast
qed

section \<open>Execution is bounded\<close>

text \<open>The interpreter with a budget of instructions: \<open>None\<close> when the budget is used up.\<close>

fun bpf_fuel :: "nat \<Rightarrow> bpf_program \<Rightarrow> pkt_bytes \<Rightarrow> bpf_state \<Rightarrow> u32 option option" where
  "bpf_fuel 0 program packet st = None"
| "bpf_fuel (Suc n) program packet st =
     (if reg_pc st < length program then
        (case bpf_exec packet (program ! reg_pc st) st of
           Next st' \<Rightarrow> bpf_fuel n program packet st'
         | Return v \<Rightarrow> Some (Some v)
         | Panic \<Rightarrow> Some None)
      else Some (Some 0))"

lemma bpf_fuel_enough:
  assumes "bpf_valid p" "reg_pc st < length p" "length p - reg_pc st \<le> n"
  shows "bpf_fuel n p pkt st = Some (bpf_loop p pkt st)"
  using assms(2, 3)
proof (induction n arbitrary: st)
  case (Suc n)
  have "bpf_fuel n p pkt st' = Some (bpf_loop p pkt st')" if st': "bpf_exec pkt (p ! reg_pc st) st = Next st'" for st'
    using Suc.IH [of st'] Suc.prems bpf_exec_in_program [OF assms(1) Suc.prems(1) st'] bpf_exec_forward [OF st']
    by simp
  then show ?case
    using Suc.prems(1) by (subst bpf_loop.simps) (auto split: step_result.split)
qed simp



section \<open>The compiler is correct\<close>

text \<open>
  The reference: which packets an expression selects, from the fields of an Ethernet frame with
  an IPv4 header of twenty bytes. A field beyond the end of the packet reads as zero.
\<close>

definition field_byte :: "pkt_bytes \<Rightarrow> nat \<Rightarrow> nat" where
  "field_byte pkt off = (if off < length pkt then unat (pkt ! off) else 0)"

definition field_port :: "pkt_bytes \<Rightarrow> nat \<Rightarrow> nat" where
  "field_port pkt off = (if off + 2 \<le> length pkt then 256 * unat (pkt ! off) + unat (pkt ! (off + 1)) else 0)"

definition field_addr :: "pkt_bytes \<Rightarrow> nat \<Rightarrow> u8 list" where
  "field_addr pkt off =
     (if off + 4 \<le> length pkt then [pkt ! off, pkt ! (off + 1), pkt ! (off + 2), pkt ! (off + 3)] else [0, 0, 0, 0])"

definition has_port :: "pkt_bytes \<Rightarrow> nat \<Rightarrow> bool" where
  "has_port pkt port \<longleftrightarrow> field_port pkt 34 = port \<or> field_port pkt 36 = port"

definition selects :: "str list \<Rightarrow> pkt_bytes \<Rightarrow> bool" where
  "selects ws pkt =
     (case ws of
        [w] \<Rightarrow> w = ''tcp'' \<and> field_byte pkt 23 = 6 \<or> w = ''udp'' \<and> field_byte pkt 23 = 17
             \<or> w = ''icmp'' \<and> field_byte pkt 23 = 1
      | [w, arg] \<Rightarrow>
          w = ''port'' \<and> parse_uint (2 ^ 32) arg \<noteq> None \<and> has_port pkt (the (parse_uint (2 ^ 32) arg))
          \<or> w = ''host'' \<and> parse_ipv4 arg \<in> {Ok (field_addr pkt 26), Ok (field_addr pkt 30)}
      | [w, w', arg] \<Rightarrow>
          w = ''tcp'' \<and> w' = ''port'' \<and> field_byte pkt 23 = 6
          \<and> parse_uint (2 ^ 32) arg \<noteq> None \<and> has_port pkt (the (parse_uint (2 ^ 32) arg))
      | _ \<Rightarrow> False)"

lemma loop_load:
  assumes "reg_pc st < length p" "p ! reg_pc st = load_abs sz off" "sz \<in> {BPF_W, BPF_H, BPF_B}"
  shows "bpf_loop p pkt st =
    bpf_loop p pkt (st\<lparr>reg_a := load_packet pkt (unat off) sz, reg_pc := reg_pc st + 1\<rparr>)"
proof -
  have "bpf_exec pkt (load_abs sz off) st =
      Next (st\<lparr>reg_a := load_packet pkt (unat off) sz, reg_pc := reg_pc st + 1\<rparr>)"
    using assms(3)
    by (auto simp: bpf_exec_def exec_ld_def load_abs_def insn_def bpf_class bpf_modes advance_def Let_def)
  then show ?thesis using assms by (subst bpf_loop.simps) simp
qed

lemma loop_jump:
  assumes "reg_pc st < length p" "p ! reg_pc st = jump_eq t f k"
  shows "bpf_loop p pkt st =
    bpf_loop p pkt (st\<lparr>reg_pc := reg_pc st + (if reg_a st = k then unat t else unat f) + 1\<rparr>)"
proof -
  have "bpf_exec pkt (jump_eq t f k) st =
      Next (st\<lparr>reg_pc := reg_pc st + (if reg_a st = k then unat t else unat f) + 1\<rparr>)"
    by (simp add: bpf_exec_def exec_jmp_def jump_eq_def insn_def bpf_class bpf_jumps advance_def operand_def Let_def)
  then show ?thesis using assms by (subst bpf_loop.simps) simp
qed

lemma loop_ret:
  "reg_pc st < length p \<Longrightarrow> p ! reg_pc st = bpf_accept \<Longrightarrow> bpf_loop p pkt st = Some 0xFFFFFFFF"
  "reg_pc st < length p \<Longrightarrow> p ! reg_pc st = bpf_reject \<Longrightarrow> bpf_loop p pkt st = Some 0"
  by (subst bpf_loop.simps, simp add: bpf_exec_def bpf_accept_def bpf_reject_def insn_def bpf_class bpf_jumps Let_def)+

lemma run_one_field:
  assumes "p = [load_abs sz off, jump_eq 0 1 k, bpf_accept, bpf_reject]" "sz \<in> {BPF_W, BPF_H, BPF_B}"
  shows "bpf_run p pkt = Some (if load_packet pkt (unat off) sz = k then 0xFFFFFFFF else 0)"
  unfolding bpf_run_def using assms
  by (simp add: loop_load loop_jump loop_ret bpf_start_def)

lemma run_two_fields:
  assumes "p = [load_abs sz off, jump_eq 2 0 k, load_abs sz off', jump_eq 0 1 k, bpf_accept, bpf_reject]"
    and "sz \<in> {BPF_W, BPF_H, BPF_B}"
  shows "bpf_run p pkt =
    Some (if load_packet pkt (unat off) sz = k \<or> load_packet pkt (unat off') sz = k then 0xFFFFFFFF else 0)"
  unfolding bpf_run_def using assms
  by (simp add: loop_load loop_jump loop_ret bpf_start_def)

lemma run_guarded_fields:
  assumes "p = [load_abs BPF_B 23, jump_eq 0 5 6, load_abs sz off, jump_eq 2 0 k,
      load_abs sz off', jump_eq 0 1 k, bpf_accept, bpf_reject]"
    and "sz \<in> {BPF_W, BPF_H, BPF_B}"
  shows "bpf_run p pkt =
    Some (if load_packet pkt 23 BPF_B = 6
             \<and> (load_packet pkt (unat off) sz = k \<or> load_packet pkt (unat off') sz = k)
          then 0xFFFFFFFF else 0)"
  unfolding bpf_run_def using assms
  by (simp add: loop_load loop_jump loop_ret bpf_start_def)

lemma load_byte: "load_packet pkt off BPF_B = of_nat (field_byte pkt off)"
  by (simp add: load_packet_def field_byte_def bpf_modes)

lemma load_port: "load_packet pkt off BPF_H = of_nat (field_port pkt off)"
  by (simp add: load_packet_def field_port_def bpf_modes unat_u16_from_be [symmetric])

lemma u32_from_be_bytes:
  "ucast (drop_bit 24 (u32_from_be a b c d)) = a" "ucast (drop_bit 16 (u32_from_be a b c d)) = b"
  "ucast (drop_bit 8 (u32_from_be a b c d)) = c" "ucast (u32_from_be a b c d) = d"
  by (auto simp: u32_from_be_def bit_simps bit_u8_beyond intro!: bit_word_eqI)

lemma u32_from_be_eq: "u32_from_be a b c d = u32_from_be a' b' c' d' \<longleftrightarrow> [a, b, c, d] = [a', b', c', d']"
  using u32_from_be_bytes [of a b c d] u32_from_be_bytes [of a' b' c' d'] by auto

lemma load_addr:
  assumes "length ip = 4"
  shows "load_packet pkt off BPF_W = u32_from_be (ip ! 0) (ip ! 1) (ip ! 2) (ip ! 3) \<longleftrightarrow> field_addr pkt off = ip"
proof -
  have ip: "ip = [ip ! 0, ip ! 1, ip ! 2, ip ! 3]"
    using assms by (intro nth_equalityI) (auto simp: less_Suc_eq numeral_eq_Suc)
  have "load_packet pkt off BPF_W =
      u32_from_be (field_addr pkt off ! 0) (field_addr pkt off ! 1) (field_addr pkt off ! 2) (field_addr pkt off ! 3)"
    by (auto simp: load_packet_def field_addr_def bpf_modes u32_from_be_def)
  moreover have "field_addr pkt off =
      [field_addr pkt off ! 0, field_addr pkt off ! 1, field_addr pkt off ! 2, field_addr pkt off ! 3]"
    by (simp add: field_addr_def)
  ultimately show ?thesis using ip by (metis u32_from_be_eq)
qed

lemma length_parse_octets: "parse_octets ps = Some ip \<Longrightarrow> length ip = length ps"
  by (induction ps arbitrary: ip) (auto split: option.splits)

lemma parse_ipv4_length: "parse_ipv4 s = Ok ip \<Longrightarrow> length ip = 4"
  by (auto simp: parse_ipv4_def Let_def dest!: length_parse_octets split: if_splits option.splits)

lemma field_bounds: "field_byte pkt off < 2 ^ 32" "field_port pkt off < 2 ^ 32"
proof -
  have b: "unat b < 256" for b :: u8 using unsigned_less [of b, where 'a = nat] by simp
  from b [of "pkt ! off"] show "field_byte pkt off < 2 ^ 32" by (simp add: field_byte_def)
  from b [of "pkt ! off"] b [of "pkt ! (off + 1)"] show "field_port pkt off < 2 ^ 32"
    by (simp add: field_port_def)
qed

lemma of_nat_u32_eq: "m < 2 ^ 32 \<Longrightarrow> n < 2 ^ 32 \<Longrightarrow> (of_nat m :: u32) = of_nat n \<longleftrightarrow> m = n"
  by (auto dest!: arg_cong [where f = unat] simp: unat_of_nat)

lemma has_port_load:
  "n < 2 ^ 32 \<Longrightarrow>
   load_packet pkt 34 BPF_H = of_nat n \<or> load_packet pkt 36 BPF_H = of_nat n \<longleftrightarrow> has_port pkt n"
  unfolding load_port has_port_def by (simp only: of_nat_u32_eq field_bounds)

lemma byte_load:
  "n < 2 ^ 32 \<Longrightarrow> load_packet pkt 23 BPF_B = of_nat n \<longleftrightarrow> field_byte pkt 23 = n"
  unfolding load_byte by (simp only: of_nat_u32_eq field_bounds)

lemma parse_uint_bound: "parse_uint bound s = Some n \<Longrightarrow> n < bound"
  by (auto simp: parse_uint_def Let_def split: if_splits option.splits)

lemma check_compiled:
  "sz \<in> {BPF_W, BPF_H, BPF_B} \<Longrightarrow> check_insn n i (load_abs sz off) = Ok ()"
  "i + 1 + unat t < n \<Longrightarrow> i + 1 + unat f < n \<Longrightarrow> check_insn n i (jump_eq t f k) = Ok ()"
  "check_insn n i bpf_accept = Ok ()" "check_insn n i bpf_reject = Ok ()" "opcode bpf_reject AND 0x07 = BPF_RET"
  by (auto simp: check_insn_def load_abs_def jump_eq_def bpf_accept_def bpf_reject_def
      insn_def bpf_class bpf_modes bpf_jumps Let_def)

lemma compiled_valid:
  assumes "sz \<in> {BPF_W, BPF_H, BPF_B}"
  shows "bpf_new [load_abs sz off, jump_eq 0 1 k, bpf_accept, bpf_reject]
      = Ok [load_abs sz off, jump_eq 0 1 k, bpf_accept, bpf_reject]"
    and "bpf_new [load_abs sz off, jump_eq 2 0 k, load_abs sz off', jump_eq 0 1 k, bpf_accept, bpf_reject]
      = Ok [load_abs sz off, jump_eq 2 0 k, load_abs sz off', jump_eq 0 1 k, bpf_accept, bpf_reject]"
    and "bpf_new [load_abs BPF_B 23, jump_eq 0 5 6, load_abs sz off, jump_eq 2 0 k, load_abs sz off', jump_eq 0 1 k,
        bpf_accept, bpf_reject]
      = Ok [load_abs BPF_B 23, jump_eq 0 5 6, load_abs sz off, jump_eq 2 0 k, load_abs sz off', jump_eq 0 1 k,
        bpf_accept, bpf_reject]"
  using assms by (simp_all add: bpf_new_def MAX_INSNS_def check_compiled)

text \<open>
  The filter compiler is correct: a program it produces passes validation, never panics, and
  accepts a packet exactly when the expression selects it by the fields of the frame.
\<close>

lemma compile_filter_correct:
  assumes "compile_filter expr = Ok program"
  shows "bpf_new program = Ok program
    \<and> bpf_run program packet = Some (if selects (split_whitespace expr) packet then 0xFFFFFFFF else 0)"
proof -
  let ?ws = "split_whitespace expr"
  have W: "BPF_W \<in> {BPF_W, BPF_H, BPF_B}" "BPF_H \<in> {BPF_W, BPF_H, BPF_B}" "BPF_B \<in> {BPF_W, BPF_H, BPF_B}" by auto
  consider (one) w where "?ws = [w]" | (two) w arg where "?ws = [w, arg]" | (three) w w' arg where "?ws = [w, w', arg]"
    using assms by (auto simp: compile_filter_def split: list.splits)
  then show ?thesis
  proof cases
    case (one w)
    have "bpf_new program = Ok program \<and> bpf_run program packet = Some (if field_byte packet 23 = n then 0xFFFFFFFF else 0)"
      if "program = [load_abs BPF_B 23, jump_eq 0 1 (of_nat n), bpf_accept, bpf_reject]" "n < 2 ^ 32" for n
      using that run_one_field [OF that(1) W(3), of packet] byte_load [OF that(2), of packet] compiled_valid(1) [OF W(3)]
      by simp
    note run = this
    consider (tcp) "w = ''tcp''" "program = [load_abs BPF_B 23, jump_eq 0 1 (of_nat 6), bpf_accept, bpf_reject]"
      | (udp) "w = ''udp''" "program = [load_abs BPF_B 23, jump_eq 0 1 (of_nat 17), bpf_accept, bpf_reject]"
      | (icmp) "w = ''icmp''" "program = [load_abs BPF_B 23, jump_eq 0 1 (of_nat 1), bpf_accept, bpf_reject]"
      using assms one by (simp add: compile_filter_def split: if_splits)
    then show ?thesis
    proof cases
      case tcp
      then show ?thesis using run [OF tcp(2)] one by (simp add: selects_def)
    next
      case udp
      then show ?thesis using run [OF udp(2)] one by (simp add: selects_def)
    next
      case icmp
      then show ?thesis using run [OF icmp(2)] one by (simp add: selects_def)
    qed
  next
    case (two w arg)
    show ?thesis
    proof (cases "w = ''port''")
      case True
      then obtain n where n: "parse_uint (2 ^ 32) arg = Some n"
        "program = [load_abs BPF_H 34, jump_eq 2 0 (of_nat n), load_abs BPF_H 36, jump_eq 0 1 (of_nat n), bpf_accept, bpf_reject]"
        using assms two by (auto simp: compile_filter_def split: option.splits)
      then show ?thesis
        using True two run_two_fields [OF n(2) W(2), of packet] has_port_load [OF parse_uint_bound [OF n(1)], of packet]
          compiled_valid(2) [OF W(2)]
        by (simp add: selects_def)
    next
      case False
      then have host: "w = ''host''" using assms two by (auto simp: compile_filter_def split: if_splits)
      then obtain ip where ip: "parse_ipv4 arg = Ok ip"
        "program = [load_abs BPF_W 26, jump_eq 2 0 (u32_from_be (ip ! 0) (ip ! 1) (ip ! 2) (ip ! 3)),
           load_abs BPF_W 30, jump_eq 0 1 (u32_from_be (ip ! 0) (ip ! 1) (ip ! 2) (ip ! 3)), bpf_accept, bpf_reject]"
        using assms two by (auto simp: compile_filter_def Let_def split: sum.splits)
      show ?thesis
        using host two ip(1) run_two_fields [OF ip(2) W(1), of packet] compiled_valid(2) [OF W(1)]
          load_addr [OF parse_ipv4_length [OF ip(1)], of packet] ip(2)
        by (auto simp: selects_def)
    qed
  next
    case (three w w' arg)
    then obtain n where n: "w = ''tcp''" "w' = ''port''" "parse_uint (2 ^ 32) arg = Some n"
      "program = [load_abs BPF_B 23, jump_eq 0 5 6, load_abs BPF_H 34, jump_eq 2 0 (of_nat n),
         load_abs BPF_H 36, jump_eq 0 1 (of_nat n), bpf_accept, bpf_reject]"
      using assms by (auto simp: compile_filter_def split: if_splits option.splits)
    then show ?thesis
      using three run_guarded_fields [OF n(4) W(2), of packet] compiled_valid(3) [OF W(2)]
        has_port_load [OF parse_uint_bound [OF n(3)], of packet] byte_load [of 6 packet]
      by (simp add: selects_def)
  qed
qed

lemma compile_filter_correct_instance:
  "compile_filter ''tcp'' = Ok tcp_program
   \<and> bpf_run tcp_program (replicate 23 0 @ [17]) = Some 0
   \<and> bpf_run tcp_program (replicate 23 0 @ [6]) = Some 0xFFFFFFFF"
proof -
  have ws: "split_whitespace ''tcp'' = [''tcp'']"
    by (simp add: split_whitespace_def ws_len_def)
  then have "compile_filter ''tcp'' = Ok tcp_program"
    by (simp add: compile_filter_def tcp_program_def)
  from compile_filter_correct [OF this, of "replicate 23 0 @ [17]"]
    compile_filter_correct [OF this, of "replicate 23 0 @ [6]"] this show ?thesis
    by (simp add: ws selects_def field_byte_def nth_append)
qed

section \<open>Attached programs\<close>

text \<open>
  Every attached program has passed validation and an interface has one program: the invariant
  that lets \<^verbatim>\<open>bpf_filter\<close> run what it finds.
\<close>

definition attachments_ok :: "BpfState \<Rightarrow> bool" where
  "attachments_ok st \<longleftrightarrow>
     distinct (map att_iface (attachments st)) \<and> (\<forall>a \<in> set (attachments st). bpf_valid (att_vm a))"

lemma distinct_map_update:
  "distinct (map f xs) \<Longrightarrow> i < length xs \<Longrightarrow> f x = f (xs ! i) \<Longrightarrow> distinct (map f (xs[i := x]))"
  by (metis list_update_id map_update)

lemma attachments_ok_update:
  assumes "attachments_ok st" "i < length (attachments st)" "att_iface a = att_iface (attachments st ! i)"
    and "bpf_valid (att_vm a)" "attachments st' = (attachments st)[i := a]"
  shows "attachments_ok st'"
  using assms distinct_map_update [of att_iface "attachments st" i a]
  by (auto simp: attachments_ok_def dest: set_update_subset_insert [THEN subsetD])

lemma bpf_calls_ok:
  assumes "attachments_ok st"
  shows "attachments_ok (snd (bpf_attach st iface program))"
    and "attachments_ok (snd (bpf_detach st iface))"
    and "bpf_filter st iface packet = Some (verdict, st') \<Longrightarrow> attachments_ok st'"
proof -
  let ?pos = "position (\<lambda>a. att_iface a = iface) (attachments st)"
  have pos: "i < length (attachments st) \<and> att_iface (attachments st ! i) = iface" if "?pos = Some i" for i
    using position_SomeD [OF that] by simp
  have none: "iface \<notin> set (map att_iface (attachments st))" if "?pos = None"
    using that by (auto simp: position_None)
  show "attachments_ok (snd (bpf_attach st iface program))"
  proof (cases "bpf_new program")
    case (Inr vm)
    then have vm: "bpf_valid vm" by (auto simp: bpf_new_Ok)
    show ?thesis
    proof (cases ?pos)
      case None
      then show ?thesis using Inr vm none assms by (auto simp: bpf_attach_def attachments_ok_def)
    next
      case (Some i)
      show ?thesis
        by (rule attachments_ok_update [OF assms, of i "(attachments st ! i)\<lparr>att_vm := vm, packets_matched := 0, packets_total := 0\<rparr>"])
           (use Inr vm Some pos in \<open>auto simp: bpf_attach_def\<close>)
    qed
  qed (simp add: bpf_attach_def assms)
  show "attachments_ok (snd (bpf_detach st iface))"
    using assms set_remove_at [of _ "attachments st"]
    by (auto simp: bpf_detach_def attachments_ok_def map_remove_at distinct_remove_at split: option.split)
  assume filt: "bpf_filter st iface packet = Some (verdict, st')"
  show "attachments_ok st'"
  proof (cases ?pos)
    case None
    then show ?thesis using filt assms by (simp add: bpf_filter_def)
  next
    case (Some i)
    then obtain a where "attachments st' = (attachments st)[i := a]" "att_iface a = iface"
      "att_vm a = att_vm (attachments st ! i)"
      using filt pos by (auto simp: bpf_filter_def Let_def split: option.splits)
    then show ?thesis
      using attachments_ok_update [OF assms, of i a st'] pos [OF Some] assms by (auto simp: attachments_ok_def)
  qed
qed

lemma bpf_filter_verdict:
  "bpf_filter st iface packet =
     (case find (\<lambda>a. att_iface a = iface) (attachments st) of
        None \<Rightarrow> Some (of_nat (length packet), st)
      | Some a \<Rightarrow> (case bpf_run (att_vm a) packet of None \<Rightarrow> None | Some v \<Rightarrow> Some (v, snd (the (bpf_filter st iface packet)))))"
  by (auto simp: bpf_filter_def position_find Let_def split: option.split)

section \<open>Overflow in indirect loads\<close>

text \<open>
  The index of an indirect load is computed with a checked addition: a validated program panics
  in builds with overflow checks when the sum of the index register and the constant reaches
  \<open>2 ^ 32\<close>.
\<close>

lemma indirect_load_panics:
  "bpf_new [insn (BPF_LDX OR BPF_IMM) 0 0 0xFFFFFFFF, insn (BPF_LD OR BPF_B OR BPF_IND) 0 0 1, bpf_reject]
     = Ok [insn (BPF_LDX OR BPF_IMM) 0 0 0xFFFFFFFF, insn (BPF_LD OR BPF_B OR BPF_IND) 0 0 1, bpf_reject]"
  "bpf_run [insn (BPF_LDX OR BPF_IMM) 0 0 0xFFFFFFFF, insn (BPF_LD OR BPF_B OR BPF_IND) 0 0 1, bpf_reject] packet = None"
  unfolding bpf_run_def
  by (simp_all add: bpf_new_def check_insn_def insn_def bpf_reject_def bpf_class bpf_modes bpf_jumps MAX_INSNS_def
      bpf_loop.simps bpf_start_def bpf_exec_def exec_ldx_def exec_ld_def advance_def Let_def)

end
