(* ===== verification/Raid.thy ===== *)
theory Raid
  imports Rust_Str Le_Bytes
begin

text \<open>
  Software RAID of \<^verbatim>\<open>raid.rs\<close>: disks with a backing store, the levels 0, 1 and 5, rebuilding
  and the table of arrays. Sector numbers and sizes are \<open>nat\<close>: their products with the sector
  size stay below \<open>2 ^ 64\<close> for every disk that fits in memory.
\<close>

section \<open>Disks\<close>

definition DEFAULT_STRIPE_SECTORS :: nat where "DEFAULT_STRIPE_SECTORS = 128"
definition MAX_DEVICES :: usize where "MAX_DEVICES = 16"
definition MAX_ARRAYS :: usize where "MAX_ARRAYS = 8"

datatype RaidLevel = Raid0 | Raid1 | Raid5

fun level_name :: "RaidLevel \<Rightarrow> str" where
  "level_name Raid0 = ''RAID-0 (Striping)''"
| "level_name Raid1 = ''RAID-1 (Mirroring)''"
| "level_name Raid5 = ''RAID-5 (Parity)''"

definition level_from_str :: "str \<Rightarrow> RaidLevel option" where
  "level_from_str s =
     (if s \<in> {''0'', ''raid0'', ''stripe''} then Some Raid0
      else if s \<in> {''1'', ''raid1'', ''mirror''} then Some Raid1
      else if s \<in> {''5'', ''raid5'', ''parity''} then Some Raid5
      else None)"

fun min_devices :: "RaidLevel \<Rightarrow> usize" where
  "min_devices Raid0 = 2"
| "min_devices Raid1 = 2"
| "min_devices Raid5 = 3"

datatype DiskStatus = DOnline | DDegraded | DFailed | DRebuilding

fun disk_status_name :: "DiskStatus \<Rightarrow> str" where
  "disk_status_name DOnline = ''online''"
| "disk_status_name DDegraded = ''degraded''"
| "disk_status_name DFailed = ''failed''"
| "disk_status_name DRebuilding = ''rebuilding''"

record RaidDisk =
  rd_name :: str
  size_sectors :: nat
  rd_status :: DiskStatus
  rd_data :: "u8 list"

definition raid_disk_new :: "str \<Rightarrow> nat \<Rightarrow> RaidDisk" where
  "raid_disk_new name sectors =
     \<lparr>rd_name = name, size_sectors = sectors, rd_status = DOnline, rd_data = replicate (sectors * 512) 0\<rparr>"

text \<open>\<open>buf\<close> is the caller's buffer: its first 512 bytes, or fewer if it is shorter, are filled.\<close>

definition disk_read_sector :: "RaidDisk \<Rightarrow> nat \<Rightarrow> u8 list \<Rightarrow> u8 list result" where
  "disk_read_sector d lba buf =
     (if rd_status d = DFailed then Err ''disk failed''
      else let offset = lba * 512
           in if offset + 512 > length (rd_data d) then Err ''read beyond disk''
              else let len = min (length buf) 512
                   in Ok (splice 0 (slice offset len (rd_data d)) buf))"

definition disk_write_sector :: "RaidDisk \<Rightarrow> nat \<Rightarrow> u8 list \<Rightarrow> unit result \<times> RaidDisk" where
  "disk_write_sector d lba data =
     (if rd_status d = DFailed then (Err ''disk failed'', d)
      else let offset = lba * 512
           in if offset + 512 > length (rd_data d) then (Err ''write beyond disk'', d)
              else let len = min (length data) 512
                   in (Ok (), d\<lparr>rd_data := splice offset (take len data) (rd_data d)\<rparr>))"

section \<open>Arrays\<close>

datatype ArrayStatus = AActive | ADegraded | AFailed | ARebuilding

fun array_status_name :: "ArrayStatus \<Rightarrow> str" where
  "array_status_name AActive = ''active''"
| "array_status_name ADegraded = ''degraded''"
| "array_status_name AFailed = ''FAILED''"
| "array_status_name ARebuilding = ''rebuilding''"

record RaidArray =
  ra_id :: u32
  ra_level :: RaidLevel
  stripe_sectors :: nat
  ra_disks :: "RaidDisk list"
  ra_status :: ArrayStatus
  rebuild_progress :: u32

definition capacity_sectors :: "RaidArray \<Rightarrow> nat" where
  "capacity_sectors a =
     (if ra_disks a = [] then 0
      else let min_disk = Min (set (map size_sectors (ra_disks a))); n = length (ra_disks a)
           in case ra_level a of
                Raid0 \<Rightarrow> min_disk * n
              | Raid1 \<Rightarrow> min_disk
              | Raid5 \<Rightarrow> if n < 3 then 0 else min_disk * (n - 1))"

definition capacity_kb :: "RaidArray \<Rightarrow> nat" where
  "capacity_kb a = capacity_sectors a * 512 div 1024"

definition update_status :: "RaidArray \<Rightarrow> RaidArray" where
  "update_status a =
     (let failed = length (filter (\<lambda>d. rd_status d = DFailed) (ra_disks a));
          rebuilding = list_ex (\<lambda>d. rd_status d = DRebuilding) (ra_disks a)
      in a\<lparr>ra_status :=
           (if rebuilding then ARebuilding
            else case ra_level a of
                   Raid0 \<Rightarrow> if failed > 0 then AFailed else AActive
                 | Raid1 \<Rightarrow> if failed \<ge> length (ra_disks a) then AFailed
                            else if failed > 0 then ADegraded else AActive
                 | Raid5 \<Rightarrow> if failed > 1 then AFailed
                            else if failed = 1 then ADegraded else AActive)\<rparr>)"

text \<open>Where a logical sector lives: the disk and its sector.\<close>

definition raid0_map :: "RaidArray \<Rightarrow> nat \<Rightarrow> nat \<times> nat" where
  "raid0_map a lba =
     (let n = length (ra_disks a); stripe = lba div stripe_sectors a
      in (stripe mod n, stripe div n * stripe_sectors a + lba mod stripe_sectors a))"

definition read_raid0 :: "RaidArray \<Rightarrow> nat \<Rightarrow> u8 list \<Rightarrow> u8 list result" where
  "read_raid0 a lba buf =
     (let (disk_idx, disk_lba) = raid0_map a lba in disk_read_sector (ra_disks a ! disk_idx) disk_lba buf)"

definition write_disk :: "RaidArray \<Rightarrow> nat \<Rightarrow> nat \<Rightarrow> u8 list \<Rightarrow> unit result \<times> RaidArray" where
  "write_disk a i disk_lba data =
     (case disk_write_sector (ra_disks a ! i) disk_lba data of
        (r, d) \<Rightarrow> (r, a\<lparr>ra_disks := (ra_disks a)[i := d]\<rparr>))"

definition write_raid0 :: "RaidArray \<Rightarrow> nat \<Rightarrow> u8 list \<Rightarrow> unit result \<times> RaidArray" where
  "write_raid0 a lba data =
     (let (disk_idx, disk_lba) = raid0_map a lba in write_disk a disk_idx disk_lba data)"

definition read_raid1 :: "RaidArray \<Rightarrow> nat \<Rightarrow> u8 list \<Rightarrow> u8 list result" where
  "read_raid1 a lba buf =
     (case find (\<lambda>d. rd_status d = DOnline \<or> rd_status d = DDegraded) (ra_disks a) of
        Some d \<Rightarrow> disk_read_sector d lba buf
      | None \<Rightarrow> Err ''all mirrors failed'')"

text \<open>The loop over the mirrors: whether one write succeeded, and the disks.\<close>

fun write_mirrors :: "RaidDisk list \<Rightarrow> nat \<Rightarrow> u8 list \<Rightarrow> bool \<times> RaidDisk list" where
  "write_mirrors [] lba data = (False, [])"
| "write_mirrors (d # ds) lba data =
     (let (success, ds') = write_mirrors ds lba data
      in if rd_status d \<noteq> DFailed
         then (case disk_write_sector d lba data of
                 (Inr _, d') \<Rightarrow> (True, d' # ds')
               | (Inl _, d') \<Rightarrow> (success, d' # ds'))
         else (success, d # ds'))"

definition write_raid1 :: "RaidArray \<Rightarrow> nat \<Rightarrow> u8 list \<Rightarrow> unit result \<times> RaidArray" where
  "write_raid1 a lba data =
     (let (success, disks) = write_mirrors (ra_disks a) lba data
      in (if success then Ok () else Err ''all mirrors failed on write'', a\<lparr>ra_disks := disks\<rparr>))"

text \<open>Data disk, disk sector and parity disk of a logical sector.\<close>

definition raid5_map :: "RaidArray \<Rightarrow> nat \<Rightarrow> nat \<times> nat \<times> nat" where
  "raid5_map a lba =
     (let n = length (ra_disks a);
          data_disks = n - 1;
          stripe = lba div stripe_sectors a;
          stripe_group = stripe div data_disks;
          stripe_in_group = stripe mod data_disks;
          parity_disk = stripe_group mod n;
          phys_disk = (if stripe_in_group \<ge> parity_disk then stripe_in_group + 1 else stripe_in_group)
      in (phys_disk, stripe_group * stripe_sectors a + lba mod stripe_sectors a, parity_disk))"

definition xor_into :: "u8 list \<Rightarrow> u8 list \<Rightarrow> u8 list" where
  "xor_into acc tmp = map2 (XOR) acc tmp"

definition zeros :: "u8 list" where
  "zeros = replicate 512 0"

text \<open>The reconstruction loop, which stops at the first disk that cannot be read.\<close>

fun reconstruct :: "RaidDisk list \<Rightarrow> nat \<Rightarrow> nat \<Rightarrow> nat list \<Rightarrow> u8 list \<Rightarrow> u8 list result" where
  "reconstruct disks skip disk_lba [] acc = Ok acc"
| "reconstruct disks skip disk_lba (i # is) acc =
     (if i = skip then reconstruct disks skip disk_lba is acc
      else case disk_read_sector (disks ! i) disk_lba zeros of
             Inl e \<Rightarrow> Err e
           | Inr tmp \<Rightarrow> reconstruct disks skip disk_lba is (xor_into acc tmp))"

definition read_raid5 :: "RaidArray \<Rightarrow> nat \<Rightarrow> u8 list \<Rightarrow> u8 list result" where
  "read_raid5 a lba buf =
     (let (phys_disk, disk_lba, parity_disk) = raid5_map a lba
      in if rd_status (ra_disks a ! phys_disk) \<noteq> DFailed
         then disk_read_sector (ra_disks a ! phys_disk) disk_lba buf
         else (case reconstruct (ra_disks a) phys_disk disk_lba [0..<length (ra_disks a)] zeros of
                 Inl e \<Rightarrow> Err e
               | Inr block \<Rightarrow> Ok (splice 0 (take (min (length buf) 512) block) buf)))"

text \<open>The parity loops of writing and rebuilding, which take a disk that cannot be read as zeros.\<close>

definition read_or_zeros :: "RaidDisk \<Rightarrow> nat \<Rightarrow> u8 list" where
  "read_or_zeros d lba = (case disk_read_sector d lba zeros of Inr tmp \<Rightarrow> tmp | Inl _ \<Rightarrow> zeros)"

definition parity_of :: "RaidDisk list \<Rightarrow> nat \<Rightarrow> nat \<Rightarrow> u8 list" where
  "parity_of disks skip disk_lba =
     foldl (\<lambda>acc i. if i = skip then acc else xor_into acc (read_or_zeros (disks ! i) disk_lba))
       zeros [0..<length disks]"

definition write_raid5 :: "RaidArray \<Rightarrow> nat \<Rightarrow> u8 list \<Rightarrow> unit result \<times> RaidArray" where
  "write_raid5 a lba data =
     (let (phys_disk, disk_lba, parity_disk) = raid5_map a lba
      in case write_disk a phys_disk disk_lba data of
           (Inl e, a) \<Rightarrow> (Err e, a)
         | (Inr _, a) \<Rightarrow> write_disk a parity_disk disk_lba (parity_of (ra_disks a) parity_disk disk_lba))"

definition array_read_sector :: "RaidArray \<Rightarrow> nat \<Rightarrow> u8 list \<Rightarrow> u8 list result" where
  "array_read_sector a lba buf =
     (case ra_level a of
        Raid0 \<Rightarrow> read_raid0 a lba buf
      | Raid1 \<Rightarrow> read_raid1 a lba buf
      | Raid5 \<Rightarrow> read_raid5 a lba buf)"

definition array_write_sector :: "RaidArray \<Rightarrow> nat \<Rightarrow> u8 list \<Rightarrow> unit result \<times> RaidArray" where
  "array_write_sector a lba data =
     (case ra_level a of
        Raid0 \<Rightarrow> write_raid0 a lba data
      | Raid1 \<Rightarrow> write_raid1 a lba data
      | Raid5 \<Rightarrow> write_raid5 a lba data)"

section \<open>Rebuilding\<close>

text \<open>The copy loops, over the sectors still to do; the first error ends them.\<close>

fun copy_mirror :: "RaidArray \<Rightarrow> nat \<Rightarrow> nat \<Rightarrow> nat list \<Rightarrow> unit result \<times> RaidArray" where
  "copy_mirror a src dst [] = (Ok (), a)"
| "copy_mirror a src dst (lba # lbas) =
     (case disk_read_sector (ra_disks a ! src) lba zeros of
        Inl e \<Rightarrow> (Err e, a)
      | Inr buf \<Rightarrow>
          (case write_disk a dst lba buf of
             (Inl e, a) \<Rightarrow> (Err e, a)
           | (Inr _, a) \<Rightarrow> copy_mirror a src dst lbas))"

fun rebuild_parity :: "RaidArray \<Rightarrow> nat \<Rightarrow> nat list \<Rightarrow> unit result \<times> RaidArray" where
  "rebuild_parity a dst [] = (Ok (), a)"
| "rebuild_parity a dst (lba # lbas) =
     (case write_disk a dst lba (parity_of (ra_disks a) dst lba) of
        (Inl e, a) \<Rightarrow> (Err e, a)
      | (Inr _, a) \<Rightarrow> rebuild_parity a dst lbas)"

definition start_rebuild :: "RaidArray \<Rightarrow> nat \<Rightarrow> nat \<Rightarrow> RaidArray" where
  "start_rebuild a dst sectors =
     a\<lparr>ra_disks := (ra_disks a)[dst := (ra_disks a ! dst)
         \<lparr>rd_status := DRebuilding, rd_data := replicate (sectors * 512) 0\<rparr>]\<rparr>"

definition finish_rebuild :: "RaidArray \<Rightarrow> nat \<Rightarrow> RaidArray" where
  "finish_rebuild a dst =
     update_status (a\<lparr>ra_disks := (ra_disks a)[dst := (ra_disks a ! dst)\<lparr>rd_status := DOnline\<rparr>],
                      rebuild_progress := 100\<rparr>)"

definition array_rebuild :: "RaidArray \<Rightarrow> unit result \<times> RaidArray" where
  "array_rebuild a =
     (case position (\<lambda>d. rd_status d = DFailed) (ra_disks a) of
        None \<Rightarrow> (Err ''no failed disk to rebuild'', a)
      | Some failed_idx \<Rightarrow>
          (case ra_level a of
             Raid0 \<Rightarrow> (Err ''RAID-0 cannot rebuild'', a)
           | Raid1 \<Rightarrow>
               (case position (\<lambda>d. rd_status d = DOnline) (ra_disks a) of
                  None \<Rightarrow> (Err ''no online source disk'', a)
                | Some source_idx \<Rightarrow>
                    (let sectors = size_sectors (ra_disks a ! source_idx)
                     in case copy_mirror (start_rebuild a failed_idx sectors) source_idx failed_idx [0..<sectors] of
                          (Inl e, a) \<Rightarrow> (Err e, a)
                        | (Inr _, a) \<Rightarrow> (Ok (), finish_rebuild a failed_idx)))
           | Raid5 \<Rightarrow>
               (let sectors = size_sectors (ra_disks a ! failed_idx)
                in case rebuild_parity (start_rebuild a failed_idx sectors) failed_idx [0..<sectors] of
                     (Inl e, a) \<Rightarrow> (Err e, a)
                   | (Inr _, a) \<Rightarrow> (Ok (), finish_rebuild a failed_idx))))"

section \<open>The table of arrays\<close>

record raid =
  arrays :: "RaidArray list"
  next_array_id :: u32
  total_reads :: u64
  total_writes :: u64
  total_rebuilds :: u64

definition create_array :: "raid \<Rightarrow> RaidLevel \<Rightarrow> (str \<times> nat) list \<Rightarrow> u32 result \<times> raid" where
  "create_array st level device_specs =
     (if length device_specs < min_devices level then (Err ''not enough devices for this RAID level'', st)
      else if length device_specs > MAX_DEVICES then (Err ''too many devices'', st)
      else if length (arrays st) \<ge> MAX_ARRAYS then (Err ''maximum number of arrays reached'', st)
      else let i = next_array_id st;
               disks = map (\<lambda>(name, size_kb). raid_disk_new name (size_kb * 2)) device_specs;
               a = \<lparr>ra_id = i, ra_level = level, stripe_sectors = DEFAULT_STRIPE_SECTORS, ra_disks = disks,
                    ra_status = AActive, rebuild_progress = 0\<rparr>
           in (Ok i, st\<lparr>arrays := arrays st @ [update_status a], next_array_id := i + 1\<rparr>))"

text \<open>The pattern of the calls on one array: look it up, run an operation on it, put it back.\<close>

definition with_array :: "raid \<Rightarrow> u32 \<Rightarrow> (RaidArray \<Rightarrow> 'r result \<times> RaidArray) \<Rightarrow> 'r result \<times> raid" where
  "with_array st array_id f =
     (case position (\<lambda>a. ra_id a = array_id) (arrays st) of
        None \<Rightarrow> (Err ''array not found'', st)
      | Some i \<Rightarrow> (case f (arrays st ! i) of (r, a) \<Rightarrow> (r, st\<lparr>arrays := (arrays st)[i := a]\<rparr>)))"

definition add_device :: "raid \<Rightarrow> u32 \<Rightarrow> str \<Rightarrow> nat \<Rightarrow> unit result \<times> raid" where
  "add_device st array_id name size_kb =
     with_array st array_id (\<lambda>a.
       if length (ra_disks a) \<ge> MAX_DEVICES then (Err ''too many devices'', a)
       else (Ok (), update_status (a\<lparr>ra_disks := ra_disks a @ [raid_disk_new name (size_kb * 2)]\<rparr>)))"

definition fail_device :: "RaidArray \<Rightarrow> str \<Rightarrow> unit result \<times> RaidArray" where
  "fail_device a device_name =
     (case position (\<lambda>d. rd_name d = device_name) (ra_disks a) of
        None \<Rightarrow> (Err ''device not found in array'', a)
      | Some i \<Rightarrow>
          (Ok (), update_status (a\<lparr>ra_disks := (ra_disks a)[i := (ra_disks a ! i)\<lparr>rd_status := DFailed\<rparr>]\<rparr>)))"

definition remove_device :: "raid \<Rightarrow> u32 \<Rightarrow> str \<Rightarrow> unit result \<times> raid" where
  "remove_device st array_id device_name = with_array st array_id (\<lambda>a. fail_device a device_name)"

definition destroy_array :: "raid \<Rightarrow> u32 \<Rightarrow> unit result \<times> raid" where
  "destroy_array st array_id =
     (case position (\<lambda>a. ra_id a = array_id) (arrays st) of
        None \<Rightarrow> (Err ''array not found'', st)
      | Some i \<Rightarrow> (Ok (), st\<lparr>arrays := remove_at i (arrays st)\<rparr>))"

definition raid_read :: "raid \<Rightarrow> u32 \<Rightarrow> nat \<Rightarrow> u8 list \<Rightarrow> u8 list result \<times> raid" where
  "raid_read st array_id lba buf =
     (case find (\<lambda>a. ra_id a = array_id) (arrays st) of
        None \<Rightarrow> (Err ''array not found'', st)
      | Some a \<Rightarrow>
          if ra_status a = AFailed then (Err ''array is in FAILED state'', st)
          else (array_read_sector a lba buf, st\<lparr>total_reads := total_reads st + 1\<rparr>))"

definition raid_write :: "raid \<Rightarrow> u32 \<Rightarrow> nat \<Rightarrow> u8 list \<Rightarrow> unit result \<times> raid" where
  "raid_write st array_id lba data =
     (case position (\<lambda>a. ra_id a = array_id) (arrays st) of
        None \<Rightarrow> (Err ''array not found'', st)
      | Some i \<Rightarrow>
          if ra_status (arrays st ! i) = AFailed then (Err ''array is in FAILED state'', st)
          else (case array_write_sector (arrays st ! i) lba data of
                  (r, a) \<Rightarrow> (r, st\<lparr>arrays := (arrays st)[i := a], total_writes := total_writes st + 1\<rparr>)))"

definition raid_rebuild :: "raid \<Rightarrow> u32 \<Rightarrow> unit result \<times> raid" where
  "raid_rebuild st array_id =
     (case with_array st array_id array_rebuild of
        (Inr _, st) \<Rightarrow> (Ok (), st\<lparr>total_rebuilds := total_rebuilds st + 1\<rparr>)
      | (Inl e, st) \<Rightarrow> (Err e, st))"

definition list_arrays :: "raid \<Rightarrow> str" where
  "list_arrays st =
     (if arrays st = [] then ''No RAID arrays configured.''
      else ''RAID Arrays:'' @ [newline]
        @ concat (map (\<lambda>a. ''  md'' @ show_nat (unat (ra_id a)) @ '': '' @ level_name (ra_level a)
              @ '' ['' @ array_status_name (ra_status a) @ ''] '' @ show_nat (length (ra_disks a))
              @ '' disks, '' @ show_nat (capacity_kb a) @ '' KB'' @ [newline]) (arrays st)))"

definition disk_line :: "nat \<times> RaidDisk \<Rightarrow> str" where
  "disk_line x =
     (case x of (i, d) \<Rightarrow>
        ''  ['' @ show_nat i @ ''] '' @ rd_name d @ '' - '' @ show_nat (size_sectors d) @ '' sectors (''
        @ show_nat (size_sectors d * 512 div 1024) @ '' KB) ['' @ disk_status_name (rd_status d) @ '']'' @ [newline])"

definition array_info :: "raid \<Rightarrow> u32 \<Rightarrow> str" where
  "array_info st array_id =
     (case find (\<lambda>a. ra_id a = array_id) (arrays st) of
        Some a \<Rightarrow>
          ''RAID Array md'' @ show_nat (unat (ra_id a)) @ '':'' @ [newline]
          @ ''Level:           '' @ level_name (ra_level a) @ [newline]
          @ ''Status:          '' @ array_status_name (ra_status a) @ [newline]
          @ ''Stripe Size:     '' @ show_nat (stripe_sectors a) @ '' sectors ('' @ show_nat (stripe_sectors a * 512 div 1024) @ '' KB)'' @ [newline]
          @ ''Capacity:        '' @ show_nat (capacity_sectors a) @ '' sectors ('' @ show_nat (capacity_kb a) @ '' KB)'' @ [newline]
          @ ''Rebuild:         '' @ show_nat (unat (rebuild_progress a)) @ ''%'' @ [newline]
          @ ''Disks:           '' @ show_nat (length (ra_disks a)) @ [newline]
          @ concat (map disk_line (enumerate 0 (ra_disks a)))
      | None \<Rightarrow> ''Array md'' @ show_nat (unat array_id) @ '' not found'')"

definition raid_stats :: "raid \<Rightarrow> str" where
  "raid_stats st =
     ''RAID Statistics:'' @ [newline] @ ''Arrays:          '' @ show_nat (length (arrays st)) @ [newline]
     @ ''Total reads:     '' @ show_u64 (total_reads st) @ [newline]
     @ ''Total writes:    '' @ show_u64 (total_writes st) @ [newline]
     @ ''Total rebuilds:  '' @ show_u64 (total_rebuilds st)"

section \<open>Exclusive or of the disks\<close>

definition xor_bytes :: "(nat \<Rightarrow> u8) \<Rightarrow> nat list \<Rightarrow> u8" where
  "xor_bytes f is = foldr (\<lambda>i acc. f i XOR acc) is 0"

lemma xor_bytes_simps [simp]: "xor_bytes f [] = 0" "xor_bytes f (i # is) = f i XOR xor_bytes f is"
  by (simp_all add: xor_bytes_def)

lemma xor_bytes_cong: "(\<And>i. i \<in> set is \<Longrightarrow> f i = g i) \<Longrightarrow> xor_bytes f is = xor_bytes g is"
  by (induction "is") auto

lemma xor_bytes_split:
  assumes "distinct is" "k \<in> set is"
  shows "xor_bytes f is = f k XOR xor_bytes f (filter (\<lambda>i. i \<noteq> k) is)"
  using assms
proof (induction "is")
  case (Cons i "is")
  show ?case
  proof (cases "i = k")
    case True
    then have "filter (\<lambda>j. j \<noteq> k) is = is" using Cons.prems by (auto simp: filter_id_conv)
    then show ?thesis using True by simp
  next
    case False
    then show ?thesis using Cons by (simp add: xor.left_commute)
  qed
qed simp

lemma xor_0_eq: "(a :: u8) XOR b = 0 \<Longrightarrow> a = b"
  by (auto simp: bit_eq_iff bit_xor_iff)

text \<open>Byte \<open>j\<close> of sector \<open>l\<close> of a disk, and disks whose sectors can be read.\<close>

definition disk_byte :: "RaidDisk \<Rightarrow> nat \<Rightarrow> nat \<Rightarrow> u8" where
  "disk_byte d l j = rd_data d ! (l * 512 + j)"

definition disk_sector :: "RaidDisk \<Rightarrow> nat \<Rightarrow> u8 list" where
  "disk_sector d l = slice (l * 512) 512 (rd_data d)"

definition readable :: "nat \<Rightarrow> RaidDisk \<Rightarrow> bool" where
  "readable S d \<longleftrightarrow> rd_status d \<noteq> DFailed \<and> length (rd_data d) = S * 512"

lemma sector_bound: "l < S \<Longrightarrow> l * 512 + 512 \<le> S * (512 :: nat)"
  by (metis Suc_leI mult_Suc mult_le_mono1 add.commute)

lemma disk_read_readable:
  assumes "readable S d" "l < S" "length buf = 512"
  shows "disk_read_sector d l buf = Ok (disk_sector d l)"
proof -
  have "splice 0 (slice (l * 512) 512 (rd_data d)) buf = slice (l * 512) 512 (rd_data d)"
    using assms sector_bound [OF assms(2)] by (simp add: splice_def readable_def)
  then show ?thesis
    using assms sector_bound [OF assms(2)] by (simp add: disk_read_sector_def disk_sector_def readable_def Let_def)
qed

lemma disk_sector_facts:
  assumes "length (rd_data d) = S * 512" "l < S"
  shows "length (disk_sector d l) = 512" "j < 512 \<Longrightarrow> disk_sector d l ! j = disk_byte d l j"
  using assms sector_bound [OF assms(2)] by (auto simp: disk_sector_def disk_byte_def nth_slice)

lemma disk_write_readable:
  assumes "readable S d" "l < S" "length data = 512"
  shows "disk_write_sector d l data = (Ok (), d\<lparr>rd_data := splice (l * 512) data (rd_data d)\<rparr>)"
    and "j < 512 \<Longrightarrow> disk_byte (d\<lparr>rd_data := splice (l * 512) data (rd_data d)\<rparr>) l j = data ! j"
    and "m < S \<Longrightarrow> m \<noteq> l \<Longrightarrow> j < 512 \<Longrightarrow>
           disk_byte (d\<lparr>rd_data := splice (l * 512) data (rd_data d)\<rparr>) m j = disk_byte d m j"
    and "readable S (d\<lparr>rd_data := splice (l * 512) data (rd_data d)\<rparr>)"
proof -
  note b = sector_bound [OF assms(2)]
  show "disk_write_sector d l data = (Ok (), d\<lparr>rd_data := splice (l * 512) data (rd_data d)\<rparr>)"
    "readable S (d\<lparr>rd_data := splice (l * 512) data (rd_data d)\<rparr>)"
    using assms b by (simp_all add: disk_write_sector_def readable_def Let_def)
  show "j < 512 \<Longrightarrow> disk_byte (d\<lparr>rd_data := splice (l * 512) data (rd_data d)\<rparr>) l j = data ! j"
    using assms b by (simp add: disk_byte_def readable_def nth_splice)
  assume "m < S" "m \<noteq> l" "j < 512"
  moreover from this have "m < l \<or> l < m" by linarith
  then have "m * 512 + j < l * 512 \<or> l * 512 + 512 \<le> m * 512 + j"
    using \<open>j < 512\<close> sector_bound [of m l] sector_bound [of l m] by auto
  ultimately show "disk_byte (d\<lparr>rd_data := splice (l * 512) data (rd_data d)\<rparr>) m j = disk_byte d m j"
    using assms b sector_bound [of m S] by (auto simp: disk_byte_def readable_def nth_splice)
qed

lemma nth_xor_into: "length acc = 512 \<Longrightarrow> length tmp = 512 \<Longrightarrow> j < 512 \<Longrightarrow> xor_into acc tmp ! j = acc ! j XOR tmp ! j"
  by (simp add: xor_into_def)

lemma length_xor_into [simp]: "length acc = 512 \<Longrightarrow> length tmp = 512 \<Longrightarrow> length (xor_into acc tmp) = 512"
  by (simp add: xor_into_def)

lemma xor_fold:
  assumes "length acc = 512" "\<And>i. i \<in> set is \<Longrightarrow> i \<noteq> skip \<Longrightarrow> length (f i) = 512"
  shows "length (foldl (\<lambda>acc i. if i = skip then acc else xor_into acc (f i)) acc is) = 512
    \<and> (\<forall>j < 512. foldl (\<lambda>acc i. if i = skip then acc else xor_into acc (f i)) acc is ! j
         = acc ! j XOR xor_bytes (\<lambda>i. f i ! j) (filter (\<lambda>i. i \<noteq> skip) is))"
  using assms
proof (induction "is" arbitrary: acc)
  case (Cons i "is")
  then show ?case by (auto simp: nth_xor_into xor.assoc)
qed simp

lemma parity_of_facts:
  assumes "\<And>i. i < length disks \<Longrightarrow> i \<noteq> skip \<Longrightarrow> length (read_or_zeros (disks ! i) l) = 512"
  shows "length (parity_of disks skip l) = 512"
    and "j < 512 \<Longrightarrow> parity_of disks skip l ! j
      = xor_bytes (\<lambda>i. read_or_zeros (disks ! i) l ! j) (filter (\<lambda>i. i \<noteq> skip) [0..<length disks])"
  using xor_fold [of zeros "[0..<length disks]" skip "\<lambda>i. read_or_zeros (disks ! i) l"] assms
  by (auto simp: parity_of_def zeros_def)

lemma read_or_zeros_readable:
  "readable S d \<Longrightarrow> l < S \<Longrightarrow> read_or_zeros d l = disk_sector d l"
  by (simp add: read_or_zeros_def disk_read_readable zeros_def)

lemma reconstruct_foldl:
  assumes "\<And>i. i \<in> set is \<Longrightarrow> i \<noteq> skip \<Longrightarrow> readable S (disks ! i)" "l < S"
  shows "reconstruct disks skip l is acc =
    Ok (foldl (\<lambda>acc i. if i = skip then acc else xor_into acc (read_or_zeros (disks ! i) l)) acc is)"
  using assms(1)
proof (induction "is" arbitrary: acc)
  case (Cons i "is")
  show ?case
  proof (cases "i = skip")
    case False
    then have "readable S (disks ! i)" using Cons.prems by simp
    then show ?thesis
      using Cons False assms(2) by (simp add: disk_read_readable [of S] read_or_zeros_readable [of S] zeros_def)
  qed (use Cons in simp)
qed simp

lemma reconstruct_parity:
  assumes "\<And>i. i < length disks \<Longrightarrow> i \<noteq> skip \<Longrightarrow> readable S (disks ! i)" "l < S"
  shows "reconstruct disks skip l [0..<length disks] zeros = Ok (parity_of disks skip l)"
  unfolding parity_of_def using assms by (intro reconstruct_foldl) auto

section \<open>Level 5\<close>

text \<open>
  A healthy level-5 array of disks of \<open>S\<close> sectors: all online, and every row of sectors has even
  parity.
\<close>

definition parity_ok :: "nat \<Rightarrow> RaidDisk list \<Rightarrow> bool" where
  "parity_ok S disks \<longleftrightarrow>
     (\<forall>l < S. \<forall>j < 512. xor_bytes (\<lambda>i. disk_byte (disks ! i) l j) [0..<length disks] = 0)"

definition raid5_ok :: "nat \<Rightarrow> RaidArray \<Rightarrow> bool" where
  "raid5_ok S a \<longleftrightarrow>
     ra_level a = Raid5 \<and> 3 \<le> length (ra_disks a) \<and> 0 < stripe_sectors a
     \<and> (\<forall>d \<in> set (ra_disks a). rd_status d = DOnline \<and> size_sectors d = S \<and> length (rd_data d) = S * 512)
     \<and> parity_ok S (ra_disks a)"

definition fail_disk :: "nat \<Rightarrow> RaidArray \<Rightarrow> RaidArray" where
  "fail_disk k a = update_status (a\<lparr>ra_disks := (ra_disks a)[k := (ra_disks a ! k)\<lparr>rd_status := DFailed\<rparr>]\<rparr>)"

definition raid5_stores :: "RaidArray \<Rightarrow> nat \<Rightarrow> nat \<Rightarrow> bool" where
  "raid5_stores a S lba \<longleftrightarrow> fst (snd (raid5_map a lba)) < S"

lemma raid5_map_facts:
  assumes "3 \<le> length (ra_disks a)" "raid5_map a lba = (p, l, q)"
  shows "p < length (ra_disks a)" "q < length (ra_disks a)" "p \<noteq> q"
proof -
  let ?n = "length (ra_disks a)"
  define g where "g = lba div stripe_sectors a div (?n - 1)"
  define k where "k = lba div stripe_sectors a mod (?n - 1)"
  have k: "k < ?n - 1" unfolding k_def using assms(1) by (intro mod_less_divisor) simp
  have pq: "p = (if k \<ge> g mod ?n then k + 1 else k)" "q = g mod ?n"
    using assms(2) by (auto simp: raid5_map_def Let_def g_def k_def)
  show "p < ?n" "p \<noteq> q" using pq k by auto
  show "q < ?n" unfolding pq(2) using assms(1) by (intro mod_less_divisor) linarith
qed

text \<open>The row determines the parity disk.\<close>

lemma raid5_map_parity:
  assumes "0 < stripe_sectors a" "raid5_map a lba = (p, l, q)"
  shows "q = l div stripe_sectors a mod length (ra_disks a)"
proof -
  let ?s = "stripe_sectors a" and ?n = "length (ra_disks a)"
  define g where "g = lba div ?s div (?n - 1)"
  have "l = g * ?s + lba mod ?s" "q = g mod ?n"
    using assms(2) by (auto simp: raid5_map_def Let_def g_def)
  then show ?thesis using assms(1) by simp
qed

lemma raid5_map_inj:
  assumes "3 \<le> length (ra_disks a)" "0 < stripe_sectors a"
    and "raid5_map a lba = (p, l, q)" "raid5_map a lba' = (p, l, q')"
  shows "lba = lba'"
proof -
  let ?s = "stripe_sectors a" and ?n = "length (ra_disks a)" and ?m = "length (ra_disks a) - 1"
  have inv: "x = (let g = l div ?s; k = (if p > g mod ?n then p - 1 else p) in (g * ?m + k) * ?s + l mod ?s)"
    if "raid5_map a x = (p, l, r)" for x r
  proof -
    define g where "g = x div ?s div ?m"
    define k where "k = x div ?s mod ?m"
    have l: "l = g * ?s + x mod ?s" and p: "p = (if k \<ge> g mod ?n then k + 1 else k)"
      using that by (auto simp: raid5_map_def Let_def g_def k_def)
    have "l div ?s = g" "l mod ?s = x mod ?s" using l assms(2) by simp_all
    moreover have "(if p > g mod ?n then p - 1 else p) = k" using p by auto
    moreover have "g * ?m + k = x div ?s" unfolding g_def k_def by (rule div_mult_mod_eq)
    then have "x = (g * ?m + k) * ?s + x mod ?s" by (simp only: div_mult_mod_eq)
    ultimately show ?thesis by (simp add: Let_def)
  qed
  from inv [OF assms(3)] inv [OF assms(4)] show ?thesis by simp
qed

lemma raid5_readable:
  assumes "raid5_ok S a" "i < length (ra_disks a)"
  shows "readable S (ra_disks a ! i)" "rd_status (ra_disks a ! i) = DOnline" "length (rd_data (ra_disks a ! i)) = S * 512"
    "size_sectors (ra_disks a ! i) = S"
  using assms by (auto simp: raid5_ok_def readable_def)

text \<open>Any one disk is the exclusive or of the others.\<close>

lemma raid5_parity_of:
  assumes "raid5_ok S a" "k < length (ra_disks a)" "l < S"
    and "length disks = length (ra_disks a)" "\<And>i. i < length disks \<Longrightarrow> i \<noteq> k \<Longrightarrow> disks ! i = ra_disks a ! i"
  shows "parity_of disks k l = disk_sector (ra_disks a ! k) l"
proof (rule nth_equalityI)
  let ?d = "ra_disks a"
  have rz: "read_or_zeros (disks ! i) l = disk_sector (?d ! i) l" if "i < length disks" "i \<noteq> k" for i
    using that assms(3-5) raid5_readable(1) [OF assms(1), of i] by (simp add: read_or_zeros_readable [of S])
  have len: "length (disk_sector (?d ! i) l) = 512" if "i < length ?d" for i
    using disk_sector_facts(1) [OF raid5_readable(3) [OF assms(1) that] assms(3)] .
  note P = parity_of_facts [of disks k l]
  show "length (parity_of disks k l) = length (disk_sector (?d ! k) l)"
    using P(1) rz len assms(2, 4) by simp
  fix j
  assume "j < length (parity_of disks k l)"
  then have j: "j < 512" using P(1) rz len assms(4) by simp
  have "parity_of disks k l ! j = xor_bytes (\<lambda>i. disk_byte (?d ! i) l j) (filter (\<lambda>i. i \<noteq> k) [0..<length ?d])"
  proof -
    have "xor_bytes (\<lambda>i. read_or_zeros (disks ! i) l ! j) (filter (\<lambda>i. i \<noteq> k) [0..<length disks])
        = xor_bytes (\<lambda>i. disk_byte (?d ! i) l j) (filter (\<lambda>i. i \<noteq> k) [0..<length disks])"
      using rz assms(4) disk_sector_facts(2) [OF raid5_readable(3) [OF assms(1)] assms(3) j]
      by (intro xor_bytes_cong) auto
    then show ?thesis using P(2) [OF _ j] rz len assms(4) by simp
  qed
  moreover have "disk_byte (?d ! k) l j XOR xor_bytes (\<lambda>i. disk_byte (?d ! i) l j) (filter (\<lambda>i. i \<noteq> k) [0..<length ?d]) = 0"
    using xor_bytes_split [of "[0..<length ?d]" k "\<lambda>i. disk_byte (?d ! i) l j"] assms(1-3) j
    by (simp add: raid5_ok_def parity_ok_def)
  then have "disk_byte (?d ! k) l j = xor_bytes (\<lambda>i. disk_byte (?d ! i) l j) (filter (\<lambda>i. i \<noteq> k) [0..<length ?d])"
    by (rule xor_0_eq)
  ultimately show "parity_of disks k l ! j = disk_sector (?d ! k) l ! j"
    using disk_sector_facts(2) [OF raid5_readable(3) [OF assms(1, 2)] assms(3) j] by simp
qed

lemma raid5_map_same: "length (ra_disks b) = length (ra_disks a) \<Longrightarrow> stripe_sectors b = stripe_sectors a
   \<Longrightarrow> raid5_map b lba = raid5_map a lba"
  by (simp add: raid5_map_def)

lemma fail_disk_fields:
  "ra_disks (fail_disk k a) = (ra_disks a)[k := (ra_disks a ! k)\<lparr>rd_status := DFailed\<rparr>]"
  "stripe_sectors (fail_disk k a) = stripe_sectors a" "ra_level (fail_disk k a) = ra_level a"
  by (simp_all add: fail_disk_def update_status_def Let_def)

text \<open>Reading: from the disk itself, or reconstructed when that disk has failed.\<close>

lemma raid5_read:
  assumes "raid5_ok S a" "raid5_map a lba = (p, l, q)" "l < S"
  shows "array_read_sector a lba zeros = Ok (disk_sector (ra_disks a ! p) l)"
    and "k < length (ra_disks a) \<Longrightarrow>
      array_read_sector (fail_disk k a) lba zeros = Ok (disk_sector (ra_disks a ! p) l)"
proof -
  have n: "3 \<le> length (ra_disks a)" "ra_level a = Raid5" using assms(1) by (auto simp: raid5_ok_def)
  note M = raid5_map_facts [OF n(1) assms(2)]
  have p: "readable S (ra_disks a ! p)" "rd_status (ra_disks a ! p) = DOnline" using raid5_readable [OF assms(1) M(1)] by auto
  have z: "length zeros = 512" by (simp add: zeros_def)
  show "array_read_sector a lba zeros = Ok (disk_sector (ra_disks a ! p) l)"
    using p n assms(2, 3) disk_read_readable [OF p(1) assms(3) z]
    by (simp add: array_read_sector_def read_raid5_def)
  assume k: "k < length (ra_disks a)"
  let ?b = "fail_disk k a"
  have map: "raid5_map ?b lba = (p, l, q)"
    using assms(2) raid5_map_same [of ?b a] by (simp add: fail_disk_fields)
  show "array_read_sector ?b lba zeros = Ok (disk_sector (ra_disks a ! p) l)"
  proof (cases "k = p")
    case False
    then have "ra_disks ?b ! p = ra_disks a ! p" by (simp add: fail_disk_fields)
    then show ?thesis
      using map n p disk_read_readable [OF p(1) assms(3) z]
      by (simp add: array_read_sector_def read_raid5_def fail_disk_fields)
  next
    case True
    have "reconstruct (ra_disks ?b) p l [0..<length (ra_disks ?b)] zeros = Ok (parity_of (ra_disks ?b) p l)"
      using raid5_readable(1) [OF assms(1)] assms(3) True
      by (intro reconstruct_parity [of _ _ S]) (auto simp: fail_disk_fields)
    moreover have "parity_of (ra_disks ?b) p l = disk_sector (ra_disks a ! p) l"
      using True by (intro raid5_parity_of [OF assms(1) M(1) assms(3)]) (auto simp: fail_disk_fields)
    moreover have "length (disk_sector (ra_disks a ! p) l) = 512"
      using disk_sector_facts(1) [OF raid5_readable(3) [OF assms(1) M(1)] assms(3)] .
    ultimately show ?thesis
      using map n True M(1) z
      by (simp add: array_read_sector_def read_raid5_def fail_disk_fields splice_def)
  qed
qed

definition set_sector :: "nat \<Rightarrow> nat \<Rightarrow> u8 list \<Rightarrow> RaidDisk list \<Rightarrow> RaidDisk list" where
  "set_sector k l data disks = disks[k := (disks ! k)\<lparr>rd_data := splice (l * 512) data (rd_data (disks ! k))\<rparr>]"

lemma disk_byte_set_sector:
  assumes "\<And>i. i < length disks \<Longrightarrow> readable S (disks ! i)" "k < length disks" "i < length disks" "l < S" "m < S" "j < 512"
    and "length data = 512"
  shows "disk_byte (set_sector k l data disks ! i) m j = (if i = k \<and> m = l then data ! j else disk_byte (disks ! i) m j)"
  using disk_write_readable(2, 3) [OF assms(1) [OF assms(2)] assms(4, 7)] assms
  by (cases "i = k"; cases "m = l") (auto simp: set_sector_def)

lemma set_sector_fields [simp]:
  "length (set_sector k l data disks) = length disks"
  "i < length disks \<Longrightarrow> rd_status (set_sector k l data disks ! i) = rd_status (disks ! i)"
  "i < length disks \<Longrightarrow> size_sectors (set_sector k l data disks ! i) = size_sectors (disks ! i)"
  by (auto simp: set_sector_def) (cases "i = k"; simp)+

lemma readable_set_sector:
  assumes "\<And>i. i < length disks \<Longrightarrow> readable S (disks ! i)" "k < length disks" "i < length disks" "l < S" "length data = 512"
  shows "readable S (set_sector k l data disks ! i)"
  using disk_write_readable(4) [OF assms(1) [OF assms(2)] assms(4, 5)] assms by (auto simp: set_sector_def nth_list_update)

lemma write_disk_set_sector:
  assumes "readable S (ra_disks a ! k)" "l < S" "length data = 512"
  shows "write_disk a k l data = (Ok (), a\<lparr>ra_disks := set_sector k l data (ra_disks a)\<rparr>)"
  using disk_write_readable(1) [OF assms] by (simp add: write_disk_def set_sector_def)

lemma raid5_write:
  assumes "raid5_ok S a" "raid5_map a lba = (p, l, q)" "l < S" "length data = 512"
  obtains a' where "array_write_sector a lba data = (Ok (), a')" "raid5_ok S a'"
    "length (ra_disks a') = length (ra_disks a)" "stripe_sectors a' = stripe_sectors a"
    "disk_sector (ra_disks a' ! p) l = data"
    "\<And>i m. i < length (ra_disks a) \<Longrightarrow> m < S \<Longrightarrow> (i, m) \<noteq> (p, l) \<Longrightarrow> (i, m) \<noteq> (q, l)
       \<Longrightarrow> disk_sector (ra_disks a' ! i) m = disk_sector (ra_disks a ! i) m"
proof -
  have n: "3 \<le> length (ra_disks a)" "ra_level a = Raid5" using assms(1) by (auto simp: raid5_ok_def)
  note M = raid5_map_facts [OF n(1) assms(2)]
  let ?d = "ra_disks a"
  define d1 where "d1 = set_sector p l data ?d"
  define P where "P = parity_of d1 q l"
  define d2 where "d2 = set_sector q l P d1"
  have r: "readable S (?d ! i)" if "i < length ?d" for i using raid5_readable(1) [OF assms(1) that] .
  have len1: "length d1 = length ?d" by (simp add: d1_def set_sector_def)
  have r1: "readable S (d1 ! i)" if "i < length d1" for i
    using readable_set_sector [OF r M(1) _ assms(3, 4)] that by (simp add: d1_def set_sector_def)
  have rz: "read_or_zeros (d1 ! i) l = disk_sector (d1 ! i) l" "length (disk_sector (d1 ! i) l) = 512" if "i < length d1" for i
    using read_or_zeros_readable [OF r1 [OF that] assms(3)] disk_sector_facts(1) [OF _ assms(3)] r1 [OF that]
    by (auto simp: readable_def)
  have P: "length P = 512" "\<And>j. j < 512 \<Longrightarrow>
      P ! j = xor_bytes (\<lambda>i. disk_byte (d1 ! i) l j) (filter (\<lambda>i. i \<noteq> q) [0..<length d1])"
  proof -
    show "length P = 512" unfolding P_def using rz by (intro parity_of_facts(1)) simp
    fix j :: nat
    assume j: "j < 512"
    have "P ! j = xor_bytes (\<lambda>i. read_or_zeros (d1 ! i) l ! j) (filter (\<lambda>i. i \<noteq> q) [0..<length d1])"
      unfolding P_def using rz j by (intro parity_of_facts(2)) simp_all
    also have "\<dots> = xor_bytes (\<lambda>i. disk_byte (d1 ! i) l j) (filter (\<lambda>i. i \<noteq> q) [0..<length d1])"
      using rz(1) disk_sector_facts(2) [OF _ assms(3) j] r1
      by (intro xor_bytes_cong) (auto simp: readable_def)
    finally show "P ! j = \<dots>" .
  qed
  have len2: "length d2 = length ?d" by (simp add: d2_def set_sector_def len1)
  have q1: "q < length d1" using M(2) len1 by simp
  have r2: "readable S (d2 ! i)" if "i < length d2" for i
    using readable_set_sector [OF r1 q1 _ assms(3) P(1)] that len1 len2 by (simp add: d2_def)
  have b1: "disk_byte (d1 ! i) m j = (if i = p \<and> m = l then data ! j else disk_byte (?d ! i) m j)"
    if "i < length ?d" "m < S" "j < 512" for i m j
    using disk_byte_set_sector [OF r M(1) that(1) assms(3) that(2, 3) assms(4)] by (simp add: d1_def)
  have byte: "disk_byte (d2 ! i) m j = (if i = q \<and> m = l then P ! j else if i = p \<and> m = l then data ! j else disk_byte (?d ! i) m j)"
    if "i < length ?d" "m < S" "j < 512" for i m j
    using disk_byte_set_sector [OF r1 q1 _ assms(3) that(2, 3) P(1), of i] len1 b1 [OF that] that(1)
    by (auto simp: d2_def [symmetric])
  have par: "parity_ok S d2"
    unfolding parity_ok_def
  proof (intro allI impI)
    fix m j :: nat
    assume mj: "m < S" "j < 512"
    show "xor_bytes (\<lambda>i. disk_byte (d2 ! i) m j) [0..<length d2] = 0"
    proof (cases "m = l")
      case True
      have "xor_bytes (\<lambda>i. disk_byte (d2 ! i) l j) (filter (\<lambda>i. i \<noteq> q) [0..<length d2])
          = xor_bytes (\<lambda>i. disk_byte (d1 ! i) l j) (filter (\<lambda>i. i \<noteq> q) [0..<length d2])"
        using byte b1 mj len2 True by (intro xor_bytes_cong) auto
      moreover have "disk_byte (d2 ! q) l j = P ! j" using byte M(2) mj True by simp
      ultimately show ?thesis
        using xor_bytes_split [of "[0..<length d2]" q "\<lambda>i. disk_byte (d2 ! i) l j"] P(2) [OF mj(2)] M(2) len1 len2 True
        by simp
    next
      case False
      have "xor_bytes (\<lambda>i. disk_byte (d2 ! i) m j) [0..<length d2] = xor_bytes (\<lambda>i. disk_byte (?d ! i) m j) [0..<length ?d]"
        unfolding len2 using byte mj False by (intro xor_bytes_cong) auto
      then show ?thesis using assms(1) mj by (simp add: raid5_ok_def parity_ok_def)
    qed
  qed
  have st: "rd_status (d2 ! i) = DOnline \<and> size_sectors (d2 ! i) = S \<and> length (rd_data (d2 ! i)) = S * 512" if "i < length ?d" for i
    using raid5_readable(2, 4) [OF assms(1) that] r2 [of i] len1 len2 that
    by (simp add: d2_def d1_def readable_def)
  let ?a = "a\<lparr>ra_disks := d2\<rparr>"
  show thesis
  proof (rule that [of ?a])
    show "array_write_sector a lba data = (Ok (), ?a)"
      using n(2) assms(2) write_disk_set_sector [OF r [OF M(1)] assms(3, 4)]
        write_disk_set_sector [of S "a\<lparr>ra_disks := d1\<rparr>" q, OF _ assms(3) P(1)] r1 [OF q1]
      by (simp add: array_write_sector_def write_raid5_def d1_def [symmetric] P_def [symmetric] d2_def)
    show "raid5_ok S ?a"
      using assms(1) par st len2 by (auto simp: raid5_ok_def in_set_conv_nth)
    have sec: "disk_sector (d2 ! i) m = ys"
      if "i < length ?d" "m < S" "length ys = 512" "\<And>j. j < 512 \<Longrightarrow> disk_byte (d2 ! i) m j = ys ! j" for i m ys
      using that disk_sector_facts [of "d2 ! i" S m] st by (intro nth_equalityI) auto
    show "disk_sector (ra_disks ?a ! p) l = data"
      using sec [OF M(1) assms(3, 4)] byte M assms(3) by simp
    show "disk_sector (ra_disks ?a ! i) m = disk_sector (?d ! i) m"
      if "i < length ?d" "m < S" "(i, m) \<noteq> (p, l)" "(i, m) \<noteq> (q, l)" for i m
    proof -
      note D = disk_sector_facts [OF raid5_readable(3) [OF assms(1) that(1)] that(2)]
      have "disk_sector (d2 ! i) m = disk_sector (?d ! i) m"
        by (rule sec [OF that(1, 2) D(1)]) (use byte [OF that(1, 2)] that D(2) in auto)
      then show ?thesis by simp
    qed
  qed (simp_all add: len2)
qed


text \<open>A fresh array is healthy, whatever the sizes, as long as they agree.\<close>

definition fresh_array :: "RaidLevel \<Rightarrow> nat \<Rightarrow> nat \<Rightarrow> RaidArray" where
  "fresh_array level n size_kb =
     last (arrays (snd (create_array \<lparr>arrays = [], next_array_id = 1, total_reads = 0, total_writes = 0, total_rebuilds = 0\<rparr>
       level (replicate n (''sd'', size_kb)))))"

lemma fresh_raid5_ok:
  assumes "3 \<le> n" "n \<le> 16"
  shows "raid5_ok (size_kb * 2) (fresh_array Raid5 n size_kb)"
    "stripe_sectors (fresh_array Raid5 n size_kb) = 128" "length (ra_disks (fresh_array Raid5 n size_kb)) = n"
proof -
  have disks: "ra_disks (fresh_array Raid5 n size_kb) = replicate n (raid_disk_new ''sd'' (size_kb * 2))"
    "ra_level (fresh_array Raid5 n size_kb) = Raid5"
    and s: "stripe_sectors (fresh_array Raid5 n size_kb) = 128"
    using assms by (simp_all add: fresh_array_def create_array_def MAX_DEVICES_def MAX_ARRAYS_def update_status_def
        DEFAULT_STRIPE_SECTORS_def Let_def)
  have "xor_bytes (\<lambda>i. 0) is = 0" for "is" by (induction "is") auto
  moreover have "disk_byte (replicate n (raid_disk_new ''sd'' (size_kb * 2)) ! i) l j = 0"
    if "l < size_kb * 2" "j < 512" "i < n" for i l j
    using that sector_bound [OF that(1)] by (simp add: disk_byte_def raid_disk_new_def)
  ultimately have "xor_bytes (\<lambda>i. disk_byte (replicate n (raid_disk_new ''sd'' (size_kb * 2)) ! i) l j) [0..<n] = 0"
    if "l < size_kb * 2" "j < 512" for l j
    using that by (subst xor_bytes_cong [where g = "\<lambda>_. 0"]) auto
  then show "raid5_ok (size_kb * 2) (fresh_array Raid5 n size_kb)"
    using assms disks s by (auto simp: raid5_ok_def parity_ok_def raid_disk_new_def)
  show "stripe_sectors (fresh_array Raid5 n size_kb) = 128" by (fact s)
  show "length (ra_disks (fresh_array Raid5 n size_kb)) = n" by (simp add: disks)
qed


section \<open>Rebuilding level 5\<close>

lemma rebuild_parity_ok:
  assumes "raid5_ok S a" "k < length (ra_disks a)" "m \<le> S"
    and "length (ra_disks b) = length (ra_disks a)" "\<And>i. i < length (ra_disks a) \<Longrightarrow> i \<noteq> k \<Longrightarrow> ra_disks b ! i = ra_disks a ! i"
    and "readable S (ra_disks b ! k)"
    and "\<And>l j. l < m \<Longrightarrow> j < 512 \<Longrightarrow> disk_byte (ra_disks b ! k) l j = disk_byte (ra_disks a ! k) l j"
  shows "\<exists>d. rebuild_parity b k [m..<S] = (Ok (), b\<lparr>ra_disks := (ra_disks b)[k := (ra_disks b ! k)\<lparr>rd_data := d\<rparr>]\<rparr>)
    \<and> length d = S * 512 \<and> (\<forall>l < S. \<forall>j < 512. d ! (l * 512 + j) = disk_byte (ra_disks a ! k) l j)"
  using assms(3-7)
proof (induction "S - m" arbitrary: m b)
  case 0
  then have "m = S" by simp
  have "rebuild_parity b k [m..<S] = (Ok (), b\<lparr>ra_disks := (ra_disks b)[k := (ra_disks b ! k)\<lparr>rd_data := rd_data (ra_disks b ! k)\<rparr>]\<rparr>)"
    using \<open>m = S\<close> by simp
  then show ?case using 0 \<open>m = S\<close> by (intro exI [of _ "rd_data (ra_disks b ! k)"]) (auto simp: readable_def disk_byte_def)
next
  case (Suc n)
  then have m: "m < S" by simp
  let ?p = "disk_sector (ra_disks a ! k) m"
  have par: "parity_of (ra_disks b) k m = ?p"
    using Suc.prems(2, 3) by (intro raid5_parity_of [OF assms(1, 2) m]) auto
  have len: "length ?p = 512" using disk_sector_facts(1) [OF raid5_readable(3) [OF assms(1, 2)] m] .
  let ?c = "b\<lparr>ra_disks := set_sector k m ?p (ra_disks b)\<rparr>"
  have w: "write_disk b k m ?p = (Ok (), ?c)" using write_disk_set_sector [OF Suc.prems(4) m len] .
  have kb: "k < length (ra_disks b)" using Suc.prems(2) assms(2) by simp
  note W = disk_write_readable [OF Suc.prems(4) m len]
  have ck: "ra_disks ?c ! k = (ra_disks b ! k)\<lparr>rd_data := splice (m * 512) ?p (rd_data (ra_disks b ! k))\<rparr>"
    using kb by (simp add: set_sector_def)
  have "disk_byte (ra_disks ?c ! k) l j = disk_byte (ra_disks a ! k) l j" if "l < Suc m" "j < 512" for l j
    using that W(2, 3) m Suc.prems(5) disk_sector_facts(2) [OF raid5_readable(3) [OF assms(1, 2)] m]
    unfolding ck by (cases "l = m") auto
  note bytes = this
  have "readable S (ra_disks ?c ! k)" unfolding ck by (fact W(4))
  moreover have "ra_disks ?c ! i = ra_disks a ! i" if "i < length (ra_disks a)" "i \<noteq> k" for i
    using Suc.prems(3) that by (simp add: set_sector_def)
  moreover have "n = S - Suc m" "Suc m \<le> S" using Suc.hyps(2) m by auto
  moreover have "length (ra_disks ?c) = length (ra_disks a)" using Suc.prems(2) by simp
  ultimately obtain d where d: "rebuild_parity ?c k [Suc m..<S] =
      (Ok (), ?c\<lparr>ra_disks := (ra_disks ?c)[k := (ra_disks ?c ! k)\<lparr>rd_data := d\<rparr>]\<rparr>)"
    "length d = S * 512" "\<forall>l < S. \<forall>j < 512. d ! (l * 512 + j) = disk_byte (ra_disks a ! k) l j"
    using Suc.hyps(1) [of "Suc m" ?c] bytes by blast
  have "rebuild_parity b k [m..<S] = rebuild_parity ?c k [Suc m..<S]"
    using w par m by (simp add: upt_conv_Cons)
  moreover have "?c\<lparr>ra_disks := (ra_disks ?c)[k := (ra_disks ?c ! k)\<lparr>rd_data := d\<rparr>]\<rparr>
      = b\<lparr>ra_disks := (ra_disks b)[k := (ra_disks b ! k)\<lparr>rd_data := d\<rparr>]\<rparr>"
    using ck by (simp add: set_sector_def)
  ultimately show ?case using d by (metis (no_types, lifting))
qed

text \<open>
  Rebuilding restores exactly what was lost: in a healthy level-5 array, failing any disk
  and rebuilding gives back the disks as they were, bit for bit, and an active array.
\<close>

lemma raid5_rebuild_restores:
  assumes "raid5_ok S a" "k < length (ra_disks a)"
  shows "\<exists>a'. array_rebuild (fail_disk k a) = (Ok (), a') \<and> ra_disks a' = ra_disks a \<and> ra_status a' = AActive
    \<and> raid5_ok S a'"
proof -
  let ?f = "fail_disk k a" and ?d = "ra_disks a"
  have level: "ra_level ?f = Raid5" using assms(1) by (simp add: fail_disk_fields raid5_ok_def)
  have on: "rd_status (?d ! i) = DOnline" if "i < length ?d" for i using raid5_readable(2) [OF assms(1) that] .
  have pos: "position (\<lambda>d. rd_status d = DFailed) (ra_disks ?f) = Some k"
    using assms(2) on by (auto simp: position_Some fail_disk_fields nth_list_update)
  let ?b = "start_rebuild ?f k S"
  have sz: "size_sectors (ra_disks ?f ! k) = S"
    using raid5_readable(4) [OF assms] assms(2) by (simp add: fail_disk_fields)
  have b: "length (ra_disks ?b) = length ?d" "\<And>i. i < length ?d \<Longrightarrow> i \<noteq> k \<Longrightarrow> ra_disks ?b ! i = ?d ! i"
    "readable S (ra_disks ?b ! k)" "ra_disks ?b = ?d[k := ra_disks ?b ! k]"
    using assms(2) by (auto simp: start_rebuild_def fail_disk_fields readable_def)
  obtain d where d: "rebuild_parity ?b k [0..<S] = (Ok (), ?b\<lparr>ra_disks := (ra_disks ?b)[k := (ra_disks ?b ! k)\<lparr>rd_data := d\<rparr>]\<rparr>)"
    "length d = S * 512" "\<forall>l < S. \<forall>j < 512. d ! (l * 512 + j) = disk_byte (?d ! k) l j"
    using rebuild_parity_ok [OF assms, of 0 ?b] b(1-3) by auto
  have same: "d = rd_data (?d ! k)"
  proof (rule nth_equalityI)
    show "length d = length (rd_data (?d ! k))" using d(2) raid5_readable(3) [OF assms] by simp
    fix j
    assume "j < length d"
    then have "j div 512 < S" "j mod 512 < 512" using d(2) by (auto simp: less_mult_imp_div_less)
    then show "d ! j = rd_data (?d ! k) ! j"
      using d(3) by (metis disk_byte_def div_mult_mod_eq)
  qed
  let ?a' = "finish_rebuild (?b\<lparr>ra_disks := (ra_disks ?b)[k := (ra_disks ?b ! k)\<lparr>rd_data := d\<rparr>]\<rparr>) k"
  have "array_rebuild ?f = (Ok (), ?a')"
    using pos level d(1) sz by (simp add: array_rebuild_def)
  moreover have keep: "(?d ! k)\<lparr>rd_status := DOnline\<rparr> = ?d ! k"
    using on [OF assms(2)] by (cases "?d ! k") simp
  have disks: "ra_disks ?a' = ?d"
    using assms(2) same keep
    by (simp add: finish_rebuild_def update_status_def start_rebuild_def fail_disk_fields Let_def)
  moreover have "ra_status ?a' = AActive"
  proof -
    have "filter (\<lambda>d. rd_status d = DFailed) ?d = []" "\<not> list_ex (\<lambda>d. rd_status d = DRebuilding) ?d"
      using assms(1) by (auto simp: raid5_ok_def filter_empty_conv list_ex_iff)
    moreover have "ra_level ?a' = Raid5"
      using level by (simp add: finish_rebuild_def update_status_def start_rebuild_def Let_def)
    ultimately show ?thesis
      using disks by (simp add: finish_rebuild_def update_status_def Let_def)
  qed
  moreover have "raid5_ok S ?a'"
    using assms(1) disks
    by (simp add: raid5_ok_def finish_rebuild_def update_status_def start_rebuild_def fail_disk_fields Let_def)
  ultimately show ?thesis by blast
qed

lemma raid5_rebuild_restores_instance:
  "\<exists>a'. array_rebuild (fail_disk 2 (fresh_array Raid5 4 64)) = (Ok (), a')
     \<and> ra_disks a' = ra_disks (fresh_array Raid5 4 64)"
  using raid5_rebuild_restores [OF fresh_raid5_ok(1), of 4 2 64] fresh_raid5_ok(3) [of 4 64] by auto

section \<open>Levels 0 and 1\<close>

lemma raid0_map_inj:
  assumes "0 < length (ra_disks a)" "0 < stripe_sectors a" "raid0_map a lba = raid0_map a lba'"
  shows "lba = lba'"
proof -
  let ?s = "stripe_sectors a" and ?n = "length (ra_disks a)"
  have inv: "x = (snd (raid0_map a x) div ?s * ?n + fst (raid0_map a x)) * ?s + snd (raid0_map a x) mod ?s" for x
    using assms(2) by (simp add: raid0_map_def Let_def)
  from inv [of lba] inv [of lba'] assms(3) show ?thesis by simp
qed

definition disks_online :: "nat \<Rightarrow> RaidArray \<Rightarrow> bool" where
  "disks_online S a \<longleftrightarrow> ra_disks a \<noteq> [] \<and> 0 < stripe_sectors a \<and> (\<forall>d \<in> set (ra_disks a). rd_status d = DOnline \<and> length (rd_data d) = S * 512)"

lemma raid0_write_read:
  assumes "disks_online S a" "ra_level a = Raid0" "snd (raid0_map a lba) < S" "snd (raid0_map a lba') < S" "length data = 512"
  shows "\<exists>a'. array_write_sector a lba data = (Ok (), a') \<and> disks_online S a'
    \<and> array_read_sector a' lba' zeros = (if lba' = lba then Ok data else array_read_sector a lba' zeros)"
proof -
  let ?d = "ra_disks a"
  obtain p l where m: "raid0_map a lba = (p, l)" by fastforce
  obtain p' l' where m': "raid0_map a lba' = (p', l')" by fastforce
  have n: "0 < length ?d" "0 < stripe_sectors a" using assms(1) by (auto simp: disks_online_def)
  then have p: "p < length ?d" "p' < length ?d" using m m' by (auto simp: raid0_map_def Let_def)
  have l: "l < S" "l' < S" using assms(3, 4) m m' by auto
  have r: "readable S (?d ! i)" if "i < length ?d" for i using assms(1) that by (auto simp: disks_online_def readable_def)
  let ?a = "a\<lparr>ra_disks := set_sector p l data ?d\<rparr>"
  have w: "array_write_sector a lba data = (Ok (), ?a)"
    using write_disk_set_sector [OF r [OF p(1)] l(1) assms(5)] m assms(2)
    by (simp add: array_write_sector_def write_raid0_def)
  have r': "readable S (ra_disks ?a ! i)" if "i < length ?d" for i
    using readable_set_sector [OF r p(1) that l(1) assms(5)] by simp
  have z: "length zeros = 512" by (simp add: zeros_def)
  have read: "array_read_sector a lba' zeros = Ok (disk_sector (?d ! p') l')"
    "array_read_sector ?a lba' zeros = Ok (disk_sector (ra_disks ?a ! p') l')"
    using m' assms(2) disk_read_readable [OF r [OF p(2)] l(2) z] disk_read_readable [OF r' [OF p(2)] l(2) z]
    by (simp_all add: array_read_sector_def read_raid0_def raid0_map_def)
  have eq: "lba' = lba \<longleftrightarrow> p' = p \<and> l' = l" using raid0_map_inj [OF n, of lba' lba] m m' by auto
  have "disk_sector (ra_disks ?a ! p') l' = (if lba' = lba then data else disk_sector (?d ! p') l')"
  proof (rule nth_equalityI)
    fix j
    assume "j < length (disk_sector (ra_disks ?a ! p') l')"
    then have j: "j < 512" using disk_sector_facts(1) [of "ra_disks ?a ! p'" S l'] r' [OF p(2)] l(2) by (simp add: readable_def)
    show "disk_sector (ra_disks ?a ! p') l' ! j = (if lba' = lba then data else disk_sector (?d ! p') l') ! j"
      using disk_sector_facts(2) [of "ra_disks ?a ! p'" S l' j] disk_sector_facts(2) [of "?d ! p'" S l' j]
        disk_byte_set_sector [OF r p(1, 2) l j assms(5)] r [OF p(2)] r' [OF p(2)] l(2) j eq
      by (auto simp: readable_def)
  qed (use disk_sector_facts(1) [OF _ l(2)] r [OF p(2)] r' [OF p(2)] assms(5) in \<open>auto simp: readable_def\<close>)
  moreover have "disks_online S ?a"
  proof -
    have "rd_status (ra_disks ?a ! i) = DOnline \<and> length (rd_data (ra_disks ?a ! i)) = S * 512" if "i < length ?d" for i
      using assms(1) r' [OF that] that by (auto simp: disks_online_def readable_def)
    moreover have "set_sector p l data ?d \<noteq> []" using n(1) by (simp add: set_sector_def)
    ultimately show ?thesis using n(2) by (auto simp: disks_online_def in_set_conv_nth)
  qed
  ultimately show ?thesis using w read by auto
qed

text \<open>
  Level 1: every online disk gets the write, and a read is served by the first disk still
  online, so the sector survives as long as one disk does.
\<close>

lemma write_mirrors_readable:
  assumes "\<forall>d \<in> set ds. readable S d" "lba < S" "length data = 512"
  shows "write_mirrors ds lba data =
    (ds \<noteq> [], map (\<lambda>d. d\<lparr>rd_data := splice (lba * 512) data (rd_data d)\<rparr>) ds)"
  using assms(1)
proof (induction ds)
  case (Cons d ds)
  then show ?case
    using disk_write_readable(1) [of S d, OF _ assms(2, 3)] by (auto simp: readable_def)
qed simp

lemma set_update_memI_cases: "e \<in> set (xs[k := x]) \<Longrightarrow> e = x \<or> e \<in> set xs"
  using set_update_subset_insert [of xs k x] by blast

lemma raid1_write_read:
  assumes "disks_online S a" "ra_level a = Raid1" "lba < S" "length data = 512"
    and "k < length (ra_disks a)" "2 \<le> length (ra_disks a)"
  shows "\<exists>a'. array_write_sector a lba data = (Ok (), a')
    \<and> array_read_sector a' lba zeros = Ok data \<and> array_read_sector (fail_disk k a') lba zeros = Ok data"
proof -
  let ?w = "\<lambda>d. d\<lparr>rd_data := splice (lba * 512) data (rd_data d)\<rparr>" and ?d = "ra_disks a"
  have on: "readable S d \<and> rd_status d = DOnline" if "d \<in> set ?d" for d
    using assms(1) that by (auto simp: disks_online_def readable_def)
  let ?a = "a\<lparr>ra_disks := map ?w ?d\<rparr>"
  have w: "array_write_sector a lba data = (Ok (), ?a)"
    using write_mirrors_readable [of ?d S lba data] on assms(1-4)
    by (auto simp: array_write_sector_def write_raid1_def disks_online_def)
  have z: "length zeros = 512" by (simp add: zeros_def)
  have sec: "disk_read_sector (?w d) lba zeros = Ok data" if "d \<in> set ?d" for d
  proof -
    note W = disk_write_readable [of S d, OF _ assms(3, 4)]
    have r: "readable S (?w d)" using W(4) on that by blast
    have "disk_sector (?w d) lba = data"
      using disk_sector_facts [of "?w d" S lba] W(2) on [OF that] r assms(3, 4)
      by (intro nth_equalityI) (auto simp: readable_def)
    then show ?thesis using disk_read_readable [OF r assms(3) z] by simp
  qed
  have first: "array_read_sector b lba zeros = Ok data"
    if b: "ra_level b = Raid1" "i < length (ra_disks b)" "rd_status (ra_disks b ! i) = DOnline"
      "\<And>e. e \<in> set (ra_disks b) \<Longrightarrow> rd_status e \<noteq> DFailed \<Longrightarrow> e \<in> ?w ` set ?d" for b i
  proof -
    let ?P = "\<lambda>d. rd_status d = DOnline \<or> rd_status d = DDegraded"
    have "ra_disks b ! i \<in> set (ra_disks b)" using b(2) by simp
    then have "find ?P (ra_disks b) \<noteq> None" using b(3) by (auto simp: find_None_iff)
    then obtain e where e: "find ?P (ra_disks b) = Some e" by auto
    have "e \<in> set (ra_disks b)" "?P e" using find_Some_in [OF e] by simp_all
    then have "e \<in> ?w ` set ?d" using b(4) by auto
    then show ?thesis using e sec b(1) by (auto simp: array_read_sector_def read_raid1_def)
  qed
  have "array_read_sector ?a lba zeros = Ok data"
    using assms(2, 5) on by (intro first [of _ k]) auto
  moreover obtain i where i: "i < length ?d" "i \<noteq> k" using assms(5, 6) by (cases k) (auto intro: that [of 0] that [of 1])
  have "array_read_sector (fail_disk k ?a) lba zeros = Ok data"
  proof (rule first [of _ i])
    show "rd_status (ra_disks (fail_disk k ?a) ! i) = DOnline" using i on by (simp add: fail_disk_fields)
    show "e \<in> ?w ` set ?d" if "e \<in> set (ra_disks (fail_disk k ?a))" "rd_status e \<noteq> DFailed" for e
      using that set_update_memI_cases [of e "map ?w ?d" k] by (force simp: fail_disk_fields)
  qed (use assms(2) i in \<open>simp_all add: fail_disk_fields\<close>)
  ultimately show ?thesis using w by blast
qed

section \<open>Writing to a degraded array\<close>

text \<open>
  A write to a degraded level-5 array recomputes the parity with the failed disk taken as zeros.
  The contents of that disk in the row were in the parity only: they are lost, and read as
  zeros from then on.
\<close>

lemma degraded_write_loses_row:
  assumes "raid5_ok S a" "raid5_map a lba = (p, l, q)" "raid5_map a lba' = (k, l, q')" "k \<noteq> p" "l < S" "length data = 512"
  shows "\<exists>b. array_write_sector (fail_disk k a) lba data = (Ok (), b) \<and> array_read_sector b lba' zeros = Ok zeros"
proof -
  let ?f = "fail_disk k a"
  let ?d = "ra_disks ?f"
  have n: "3 \<le> length (ra_disks a)" "0 < stripe_sectors a" "ra_level a = Raid5" using assms(1) by (auto simp: raid5_ok_def)
  note M = raid5_map_facts [OF n(1) assms(2)] and M' = raid5_map_facts [OF n(1) assms(3)]
  have qq: "q' = q" using raid5_map_parity [OF n(2) assms(2)] raid5_map_parity [OF n(2) assms(3)] by simp
  have kq: "k \<noteq> q" using M'(3) qq by simp
  have len: "length ?d = length (ra_disks a)" by (simp add: fail_disk_fields)
  have rd: "readable S (?d ! i)" if "i < length ?d" "i \<noteq> k" for i
    using raid5_readable(1) [OF assms(1)] that by (simp add: fail_disk_fields)
  have failed: "rd_status (?d ! k) = DFailed" using M'(1) by (simp add: fail_disk_fields)
  define d1 where "d1 = set_sector p l data ?d"
  define P where "P = parity_of d1 q l"
  define d2 where "d2 = set_sector q l P d1"
  have pd: "p < length ?d" "q < length ?d" "k < length ?d" using M M' len by simp_all
  have r1: "readable S (d1 ! i)" if "i < length ?d" "i \<noteq> k" for i
    using disk_write_readable(4) [OF rd [OF pd(1)] assms(5, 6)] rd that assms(4) pd(1)
    by (auto simp: d1_def set_sector_def nth_list_update)
  have k1: "d1 ! k = ?d ! k" using assms(4) by (simp add: d1_def set_sector_def)
  have zk: "read_or_zeros (d1 ! k) l = zeros" using failed k1 by (simp add: read_or_zeros_def disk_read_sector_def)
  have rz: "read_or_zeros (d1 ! i) l = (if i = k then zeros else disk_sector (d1 ! i) l)"
    "length (read_or_zeros (d1 ! i) l) = 512" if "i < length ?d" for i
    using read_or_zeros_readable [OF r1 [OF that] assms(5)] zk disk_sector_facts(1) [OF _ assms(5)] r1 [OF that]
    by (cases "i = k"; simp add: readable_def zeros_def)+
  have len1: "length d1 = length ?d" by (simp add: d1_def)
  have P: "length P = 512" unfolding P_def using rz(2) len1 by (intro parity_of_facts(1)) simp
  have w1: "write_disk ?f p l data = (Ok (), ?f\<lparr>ra_disks := d1\<rparr>)"
    using write_disk_set_sector [OF rd [OF pd(1)] assms(5, 6)] assms(4) by (simp add: d1_def)
  have w2: "write_disk (?f\<lparr>ra_disks := d1\<rparr>) q l P = (Ok (), ?f\<lparr>ra_disks := d2\<rparr>)"
    using write_disk_set_sector [of S "?f\<lparr>ra_disks := d1\<rparr>" q, OF _ assms(5) P] r1 [OF pd(2)] kq by (simp add: d2_def)
  have map: "raid5_map ?f x = raid5_map a x" "raid5_map (?f\<lparr>ra_disks := d2\<rparr>) x = raid5_map a x" for x
    using raid5_map_same [of ?f a x] raid5_map_same [of "?f\<lparr>ra_disks := d2\<rparr>" a x] len len1
    by (simp_all add: fail_disk_fields d2_def)
  let ?b = "?f\<lparr>ra_disks := d2\<rparr>"
  have wr: "array_write_sector ?f lba data = (Ok (), ?b)"
    using w1 w2 map(1) assms(2) n(3)
    by (simp add: array_write_sector_def write_raid5_def fail_disk_fields P_def [symmetric])
  have r2: "readable S (d2 ! i)" if "i < length d2" "i \<noteq> k" for i
    using disk_write_readable(4) [OF r1 [OF pd(2)] assms(5) P] r1 that kq pd(2) len1
    by (auto simp: d2_def set_sector_def nth_list_update)
  have byte2: "disk_byte (d2 ! i) l j = (if i = q then P ! j else disk_byte (d1 ! i) l j)" if "i < length ?d" "j < 512" for i j
    using disk_write_readable(2) [OF r1 [OF pd(2)] assms(5) P that(2)] kq pd(2) len1 that
    by (auto simp: d2_def set_sector_def)
  have "parity_of d2 k l = zeros"
  proof (rule nth_equalityI)
    have rz2: "read_or_zeros (d2 ! i) l = disk_sector (d2 ! i) l" "length (disk_sector (d2 ! i) l) = 512"
      if "i < length d2" "i \<noteq> k" for i
      using read_or_zeros_readable [OF r2 [OF that] assms(5)] disk_sector_facts(1) [OF _ assms(5)] r2 [OF that]
      by (auto simp: readable_def)
    have pl: "length (parity_of d2 k l) = 512" using rz2 by (intro parity_of_facts(1)) simp
    then show "length (parity_of d2 k l) = length zeros" by (simp add: zeros_def)
    fix j
    assume "j < length (parity_of d2 k l)"
    then have j: "j < 512" using pl by simp
    let ?B = "\<lambda>i. disk_byte (d1 ! i) l j"
    let ?is = "[0..<length ?d]"
    have len2: "length d2 = length ?d" by (simp add: d2_def len1)
    have "parity_of d2 k l ! j = xor_bytes (\<lambda>i. disk_byte (d2 ! i) l j) (filter (\<lambda>i. i \<noteq> k) ?is)"
    proof -
      have "parity_of d2 k l ! j = xor_bytes (\<lambda>i. read_or_zeros (d2 ! i) l ! j) (filter (\<lambda>i. i \<noteq> k) [0..<length d2])"
        using rz2 j by (intro parity_of_facts(2)) simp_all
      also have "\<dots> = xor_bytes (\<lambda>i. disk_byte (d2 ! i) l j) (filter (\<lambda>i. i \<noteq> k) [0..<length d2])"
        using rz2(1) disk_sector_facts(2) [OF _ assms(5) j] r2 by (intro xor_bytes_cong) (auto simp: readable_def)
      finally show ?thesis by (simp add: len2)
    qed
    also have "\<dots> = P ! j XOR xor_bytes (\<lambda>i. disk_byte (d2 ! i) l j) (filter (\<lambda>i. i \<noteq> q) (filter (\<lambda>i. i \<noteq> k) ?is))"
      using xor_bytes_split [of "filter (\<lambda>i. i \<noteq> k) ?is" q] kq pd(2) byte2 [OF pd(2) j] by simp
    also have "xor_bytes (\<lambda>i. disk_byte (d2 ! i) l j) (filter (\<lambda>i. i \<noteq> q) (filter (\<lambda>i. i \<noteq> k) ?is))
        = xor_bytes ?B (filter (\<lambda>i. i \<noteq> q) (filter (\<lambda>i. i \<noteq> k) ?is))"
      using byte2 [OF _ j] by (intro xor_bytes_cong) auto
    also have "P ! j = xor_bytes ?B (filter (\<lambda>i. i \<noteq> q) (filter (\<lambda>i. i \<noteq> k) ?is))"
    proof -
      have "P ! j = xor_bytes (\<lambda>i. read_or_zeros (d1 ! i) l ! j) (filter (\<lambda>i. i \<noteq> q) ?is)"
        unfolding P_def len1 [symmetric] using rz(2) j len1 by (intro parity_of_facts(2)) simp_all
      also have "\<dots> = read_or_zeros (d1 ! k) l ! j XOR
          xor_bytes (\<lambda>i. read_or_zeros (d1 ! i) l ! j) (filter (\<lambda>i. i \<noteq> k) (filter (\<lambda>i. i \<noteq> q) ?is))"
        using kq pd(3) by (intro xor_bytes_split) auto
      also have "xor_bytes (\<lambda>i. read_or_zeros (d1 ! i) l ! j) (filter (\<lambda>i. i \<noteq> k) (filter (\<lambda>i. i \<noteq> q) ?is))
          = xor_bytes ?B (filter (\<lambda>i. i \<noteq> k) (filter (\<lambda>i. i \<noteq> q) ?is))"
        using rz(1) disk_sector_facts(2) [OF _ assms(5) j] r1 by (intro xor_bytes_cong) (auto simp: readable_def)
      finally show ?thesis using zk j by (simp add: zeros_def conj_commute)
    qed
    finally show "parity_of d2 k l ! j = zeros ! j" using j by (simp add: zeros_def)
  qed
  moreover have "reconstruct d2 k l [0..<length d2] zeros = Ok (parity_of d2 k l)"
    using r2 assms(5) by (intro reconstruct_parity) auto
  moreover have "rd_status (d2 ! k) = DFailed" using failed k1 kq by (simp add: d2_def set_sector_def)
  ultimately have "array_read_sector ?b lba' zeros = Ok zeros"
    using map(2) assms(3) n(3)
    by (simp add: array_read_sector_def read_raid5_def fail_disk_fields splice_def zeros_def)
  then show ?thesis using wr by blast
qed

end
