(* ===== verification/Diff.thy ===== *)
theory Diff
  imports Rust_Str
begin

text \<open>
  Text differences (\<^verbatim>\<open>src/diff.rs\<close>): the table of longest common subsequences, the walk back
  through it that produces the edit script, the two output formats and the application of a
  script.
\<close>

section \<open>Lines\<close>

datatype diff_op = Equal str | Insert str | Delete str

definition strip_suffix :: "char \<Rightarrow> str \<Rightarrow> str option" where
  "strip_suffix c s = (if s \<noteq> [] \<and> last s = c then Some (butlast s) else None)"

definition split_lines :: "str \<Rightarrow> str list" where
  "split_lines txt =
     (if txt = [] then []
      else split_on newline (case strip_suffix newline txt of Some s \<Rightarrow> s | None \<Rightarrow> txt))"

section \<open>The table\<close>

type_synonym lcs_tab = "nat list list"

definition tab_get :: "lcs_tab \<Rightarrow> usize \<Rightarrow> usize \<Rightarrow> nat" where
  "tab_get t i j = t ! i ! j"

definition tab_set :: "lcs_tab \<Rightarrow> usize \<Rightarrow> usize \<Rightarrow> nat \<Rightarrow> lcs_tab" where
  "tab_set t i j v = t[i := (t ! i)[j := v]]"

definition lcs_cell :: "str list \<Rightarrow> str list \<Rightarrow> lcs_tab \<Rightarrow> usize \<Rightarrow> usize \<Rightarrow> nat" where
  "lcs_cell old new t i j =
     (if old ! (i - 1) = new ! (j - 1) then tab_get t (i - 1) (j - 1) + 1
      else max (tab_get t (i - 1) j) (tab_get t i (j - 1)))"

definition lcs_row :: "str list \<Rightarrow> str list \<Rightarrow> usize \<Rightarrow> lcs_tab \<Rightarrow> lcs_tab" where
  "lcs_row old new i t = foldl (\<lambda>t j. tab_set t i j (lcs_cell old new t i j)) t [1..<length new + 1]"

definition lcs_table :: "str list \<Rightarrow> str list \<Rightarrow> lcs_tab" where
  "lcs_table old new =
     (let rows = length old + 1; cols = length new + 1
      in foldl (\<lambda>t i. lcs_row old new i t) (replicate rows (replicate cols 0)) [1..<rows])"

section \<open>The edit script\<close>

function backtrack_loop :: "lcs_tab \<Rightarrow> str list \<Rightarrow> str list \<Rightarrow> usize \<Rightarrow> usize \<Rightarrow> diff_op list \<Rightarrow> diff_op list" where
  "backtrack_loop t old new i j ops =
     (if i > 0 \<or> j > 0 then
        if i > 0 \<and> j > 0 \<and> old ! (i - 1) = new ! (j - 1)
        then backtrack_loop t old new (i - 1) (j - 1) (ops @ [Equal (old ! (i - 1))])
        else if j > 0 \<and> (i = 0 \<or> tab_get t i (j - 1) \<ge> tab_get t (i - 1) j)
        then backtrack_loop t old new i (j - 1) (ops @ [Insert (new ! (j - 1))])
        else backtrack_loop t old new (i - 1) j (ops @ [Delete (old ! (i - 1))])
      else ops)"
  by pat_completeness auto
termination by (relation "measure (\<lambda>(t, old, new, i, j, ops). i + j)") auto

declare backtrack_loop.simps [simp del]

definition diff_backtrack :: "lcs_tab \<Rightarrow> str list \<Rightarrow> str list \<Rightarrow> diff_op list" where
  "diff_backtrack t old new = rev (backtrack_loop t old new (length old) (length new) [])"

definition diff_lines :: "str \<Rightarrow> str \<Rightarrow> diff_op list" where
  "diff_lines old new =
     (let ol = split_lines old; nl = split_lines new; t = lcs_table ol nl
      in diff_backtrack t ol nl)"

section \<open>Formats\<close>

function push_digits :: "nat \<Rightarrow> str" where
  "push_digits n = (if n > 0 then digit_char (n mod 10) # push_digits (n div 10) else [])"
  by pat_completeness auto
termination by (relation "measure (\<lambda>n. n)") auto

declare push_digits.simps [simp del]

definition push_usize :: "str \<Rightarrow> nat \<Rightarrow> str" where
  "push_usize buf n = (if n = 0 then buf @ ''0'' else buf @ rev (push_digits n))"

definition is_equal :: "diff_op \<Rightarrow> bool" where
  "is_equal op = (case op of Equal _ \<Rightarrow> True | _ \<Rightarrow> False)"

text \<open>The windows around the changes, merged when they touch; the current one is \<open>(hs, he)\<close>.\<close>

fun merge_hunks :: "nat \<Rightarrow> nat \<Rightarrow> nat list \<Rightarrow> nat \<times> nat \<Rightarrow> (nat \<times> nat) list" where
  "merge_hunks ctx n [] (hs, he) = [(hs, he)]"
| "merge_hunks ctx n (ci # cis) (hs, he) =
     (let cs = ci - ctx; ce = min (ci + ctx) (n - 1)
      in if cs \<le> he + 1 then merge_hunks ctx n cis (hs, ce)
         else (hs, he) # merge_hunks ctx n cis (cs, ce))"

definition hunks :: "diff_op list \<Rightarrow> nat \<Rightarrow> (nat \<times> nat) list" where
  "hunks ops ctx =
     (case filter (\<lambda>i. \<not> is_equal (ops ! i)) [0..<length ops] of
        [] \<Rightarrow> []
      | c # cs \<Rightarrow> merge_hunks ctx (length ops) cs (c - ctx, min (c + ctx) (length ops - 1)))"

fun count_lines :: "diff_op list \<Rightarrow> nat \<times> nat \<Rightarrow> nat \<times> nat" where
  "count_lines [] (a, b) = (a, b)"
| "count_lines (Equal _ # ops) (a, b) = count_lines ops (a + 1, b + 1)"
| "count_lines (Delete _ # ops) (a, b) = count_lines ops (a + 1, b)"
| "count_lines (Insert _ # ops) (a, b) = count_lines ops (a, b + 1)"

fun unified_line :: "diff_op \<Rightarrow> str" where
  "unified_line (Equal l) = '' '' @ l @ [newline]"
| "unified_line (Insert l) = ''+'' @ l @ [newline]"
| "unified_line (Delete l) = ''-'' @ l @ [newline]"

definition format_hunk :: "diff_op list \<Rightarrow> nat \<times> nat \<Rightarrow> str \<Rightarrow> str" where
  "format_hunk ops h out =
     (let (start, fin) = h;
          (os, ns) = count_lines (take start ops) (1, 1);
          part = drop start (take (fin + 1) ops);
          (oc, nc) = count_lines part (0, 0);
          out = push_usize (out @ ''@@ -'') os @ '','';
          out = push_usize out oc @ '' +'';
          out = push_usize out ns @ '','';
          out = push_usize out nc @ '' @@'' @ [newline]
      in out @ concat (map unified_line part))"

definition format_unified :: "diff_op list \<Rightarrow> nat \<Rightarrow> str" where
  "format_unified ops ctx = foldl (\<lambda>out h. format_hunk ops h out) [] (hunks ops ctx)"

definition ESC :: char where "ESC = CHR 0x1B"

fun colored_line :: "diff_op \<Rightarrow> str" where
  "colored_line (Equal l) = '' '' @ l @ [newline]"
| "colored_line (Insert l) = ESC # ''[32m+'' @ l @ ESC # ''[0m'' @ [newline]"
| "colored_line (Delete l) = ESC # ''[31m-'' @ l @ ESC # ''[0m'' @ [newline]"

definition format_colored :: "diff_op list \<Rightarrow> str" where
  "format_colored ops = concat (map colored_line ops)"

fun patch_line :: "diff_op \<Rightarrow> str" where
  "patch_line (Equal l) = l @ [newline]"
| "patch_line (Insert l) = l @ [newline]"
| "patch_line (Delete l) = []"

definition apply_patch :: "str \<Rightarrow> diff_op list \<Rightarrow> str" where
  "apply_patch original ops = concat (map patch_line ops)"

fun diff_stats :: "diff_op list \<Rightarrow> nat \<times> nat \<times> nat" where
  "diff_stats [] = (0, 0, 0)"
| "diff_stats (op # ops) =
     (let (ins, del, eq) = diff_stats ops
      in case op of Insert _ \<Rightarrow> (ins + 1, del, eq) | Delete _ \<Rightarrow> (ins, del + 1, eq) | Equal _ \<Rightarrow> (ins, del, eq + 1))"

section \<open>The table is right\<close>

text \<open>The length of a longest common subsequence of the first \<open>i\<close> and the first \<open>j\<close> lines.\<close>

fun lcs_len :: "str list \<Rightarrow> str list \<Rightarrow> nat \<Rightarrow> nat \<Rightarrow> nat" where
  "lcs_len old new 0 j = 0"
| "lcs_len old new i 0 = 0"
| "lcs_len old new (Suc i) (Suc j) =
     (if old ! i = new ! j then lcs_len old new i j + 1
      else max (lcs_len old new i (Suc j)) (lcs_len old new (Suc i) j))"

lemma lcs_len_0 [simp]: "lcs_len old new i 0 = 0"
  by (cases i) auto

definition tab_dim :: "lcs_tab \<Rightarrow> nat \<Rightarrow> nat \<Rightarrow> bool" where
  "tab_dim t r c \<longleftrightarrow> length t = r \<and> (\<forall>i < r. length (t ! i) = c)"

lemma tab_get_set:
  "tab_dim t r c \<Longrightarrow> i < r \<Longrightarrow> j < c \<Longrightarrow>
     tab_get (tab_set t i j v) i' j' = (if i' = i \<and> j' = j then v else tab_get t i' j')"
  by (cases "i' = i"; cases "j' = j") (auto simp: tab_get_def tab_set_def tab_dim_def)

lemma tab_dim_set [simp]: "tab_dim t r c \<Longrightarrow> tab_dim (tab_set t i j v) r c"
  by (cases "i < r") (auto simp: tab_set_def tab_dim_def nth_list_update)

lemma lcs_cell_Suc:
  "lcs_cell old new t (Suc i) (Suc j) =
     (if old ! i = new ! j then tab_get t i j + 1 else max (tab_get t i (Suc j)) (tab_get t (Suc i) j))"
  by (simp add: lcs_cell_def)

text \<open>Filling a row from the one before it.\<close>

lemma lcs_row_correct:
  assumes dim: "tab_dim t (length old + 1) (length new + 1)" and i: "i < length old"
    and prev: "\<forall>j \<le> length new. tab_get t i j = lcs_len old new i j" and zero: "tab_get t (Suc i) 0 = 0"
  shows "tab_dim (lcs_row old new (Suc i) t) (length old + 1) (length new + 1)"
    and "\<forall>j \<le> length new. tab_get (lcs_row old new (Suc i) t) (Suc i) j = lcs_len old new (Suc i) j"
    and "\<forall>i' j. i' \<noteq> Suc i \<longrightarrow> tab_get (lcs_row old new (Suc i) t) i' j = tab_get t i' j"
proof -
  define f where "f = (\<lambda>t j. tab_set t (Suc i) j (lcs_cell old new t (Suc i) j))"
  have "tab_dim (foldl f t [1..<m + 1]) (length old + 1) (length new + 1) \<and>
      (\<forall>j \<le> m. tab_get (foldl f t [1..<m + 1]) (Suc i) j = lcs_len old new (Suc i) j) \<and>
      (\<forall>i' j. i' \<noteq> Suc i \<longrightarrow> tab_get (foldl f t [1..<m + 1]) i' j = tab_get t i' j)" if "m \<le> length new" for m
    using that
  proof (induction m)
    case 0
    then show ?case using dim zero by simp
  next
    case (Suc m)
    define u where "u = foldl f t [1..<m + 1]"
    have u: "tab_dim u (length old + 1) (length new + 1)" "\<forall>j \<le> m. tab_get u (Suc i) j = lcs_len old new (Suc i) j"
        "\<forall>i' j. i' \<noteq> Suc i \<longrightarrow> tab_get u i' j = tab_get t i' j" using Suc unfolding u_def by auto
    have step: "foldl f t [1..<Suc m + 1] = f u (Suc m)" by (simp add: u_def)
    have cell: "lcs_cell old new u (Suc i) (Suc m) = lcs_len old new (Suc i) (Suc m)"
      using u(2,3) prev Suc.prems by (simp add: lcs_cell_Suc)
    then have w: "f u (Suc m) = tab_set u (Suc i) (Suc m) (lcs_len old new (Suc i) (Suc m))" by (simp add: f_def)
    have "tab_get (f u (Suc m)) a b = (if a = Suc i \<and> b = Suc m then lcs_len old new (Suc i) (Suc m) else tab_get u a b)" for a b
      unfolding w using tab_get_set [OF u(1)] i Suc.prems by simp
    moreover have "tab_dim (f u (Suc m)) (length old + 1) (length new + 1)" unfolding w using u(1) by simp
    ultimately show ?case unfolding step using u(2,3) by (simp add: le_Suc_eq)
  qed
  from this [of "length new"] show
    "tab_dim (lcs_row old new (Suc i) t) (length old + 1) (length new + 1)"
    "\<forall>j \<le> length new. tab_get (lcs_row old new (Suc i) t) (Suc i) j = lcs_len old new (Suc i) j"
    "\<forall>i' j. i' \<noteq> Suc i \<longrightarrow> tab_get (lcs_row old new (Suc i) t) i' j = tab_get t i' j"
    by (simp_all add: lcs_row_def f_def)
qed

lemma lcs_table_correct:
  assumes "i \<le> length old" and "j \<le> length new"
  shows "tab_get (lcs_table old new) i j = lcs_len old new i j"
proof -
  define z where "z = replicate (length old + 1) (replicate (length new + 1) (0 :: nat))"
  define f where "f = (\<lambda>t i. lcs_row old new i t)"
  have "tab_dim (foldl f z [1..<n + 1]) (length old + 1) (length new + 1) \<and>
      (\<forall>i j. i \<le> n \<and> j \<le> length new \<longrightarrow> tab_get (foldl f z [1..<n + 1]) i j = lcs_len old new i j) \<and>
      (\<forall>i j. n < i \<and> i \<le> length old \<and> j \<le> length new \<longrightarrow> tab_get (foldl f z [1..<n + 1]) i j = 0)" if "n \<le> length old" for n
    using that
  proof (induction n)
    case 0
    then show ?case by (auto simp: tab_dim_def z_def tab_get_def nth_append simp del: replicate.simps)
  next
    case (Suc n)
    define u where "u = foldl f z [1..<n + 1]"
    have u: "tab_dim u (length old + 1) (length new + 1)"
        "\<forall>i j. i \<le> n \<and> j \<le> length new \<longrightarrow> tab_get u i j = lcs_len old new i j"
        "\<forall>i j. n < i \<and> i \<le> length old \<and> j \<le> length new \<longrightarrow> tab_get u i j = 0"
      using Suc unfolding u_def by auto
    have step: "foldl f z [1..<Suc n + 1] = lcs_row old new (Suc n) u" by (simp add: u_def f_def)
    have row: "n < length old" "\<forall>j \<le> length new. tab_get u n j = lcs_len old new n j" "tab_get u (Suc n) 0 = 0"
      using u Suc.prems by auto
    show ?case
      unfolding step using lcs_row_correct [OF u(1) row] u
      by (auto simp: le_Suc_eq Suc_le_eq)
  qed
  from this [of "length old"] show ?thesis
    using assms by (simp add: lcs_table_def z_def f_def)
qed

lemma lcs_len_le: "lcs_len old new i j \<le> min i j"
  by (induction old new i j rule: lcs_len.induct) auto

lemma lcs_len_step:
  "lcs_len old new i j \<le> lcs_len old new (Suc i) j \<and> lcs_len old new (Suc i) j \<le> lcs_len old new i j + 1 \<and>
   lcs_len old new i j \<le> lcs_len old new i (Suc j) \<and> lcs_len old new i (Suc j) \<le> lcs_len old new i j + 1"
proof (induction "i + j" arbitrary: i j rule: less_induct)
  case less
  show ?case
  proof (cases i)
    case 0
    then show ?thesis using lcs_len_le [of old new 1 j] by simp
  next
    case (Suc i')
    show ?thesis
    proof (cases j)
      case 0
      then show ?thesis using lcs_len_le [of old new i 1] by simp
    next
      case (Suc j')
      have a: "lcs_len old new i' j \<le> lcs_len old new (Suc i') j" "lcs_len old new (Suc i') j \<le> lcs_len old new i' j + 1"
          "lcs_len old new i' j \<le> lcs_len old new i' (Suc j)" "lcs_len old new i' (Suc j) \<le> lcs_len old new i' j + 1"
        using less [of i' j] \<open>i = Suc i'\<close> by auto
      have b: "lcs_len old new i j' \<le> lcs_len old new (Suc i) j'" "lcs_len old new (Suc i) j' \<le> lcs_len old new i j' + 1"
          "lcs_len old new i j' \<le> lcs_len old new i (Suc j')" "lcs_len old new i (Suc j') \<le> lcs_len old new i j' + 1"
        using less [of i j'] Suc by auto
      show ?thesis using a b Suc \<open>i = Suc i'\<close> by (auto simp: max_def split: if_splits)
    qed
  qed
qed

section \<open>The script is right and minimal\<close>

fun old_lines :: "diff_op list \<Rightarrow> str list" where
  "old_lines [] = []"
| "old_lines (Equal l # ops) = l # old_lines ops"
| "old_lines (Delete l # ops) = l # old_lines ops"
| "old_lines (Insert l # ops) = old_lines ops"

fun new_lines :: "diff_op list \<Rightarrow> str list" where
  "new_lines [] = []"
| "new_lines (Equal l # ops) = l # new_lines ops"
| "new_lines (Delete l # ops) = new_lines ops"
| "new_lines (Insert l # ops) = l # new_lines ops"

definition equals :: "diff_op list \<Rightarrow> nat" where
  "equals ops = length (filter is_equal ops)"

definition changes :: "diff_op list \<Rightarrow> nat" where
  "changes ops = length (filter (\<lambda>op. \<not> is_equal op) ops)"

lemma lines_append [simp]:
  "old_lines (a @ b) = old_lines a @ old_lines b" "new_lines (a @ b) = new_lines a @ new_lines b"
  "equals (a @ b) = equals a + equals b"
  by (induction a rule: old_lines.induct) (auto simp: equals_def)

lemma is_equal_simps [simp]: "is_equal (Equal l)" "\<not> is_equal (Insert l)" "\<not> is_equal (Delete l)"
  by (simp_all add: is_equal_def)

lemma changes_equals: "changes ops + 2 * equals ops = length (old_lines ops) + length (new_lines ops)"
  by (induction ops rule: old_lines.induct) (auto simp: changes_def equals_def)

lemma take_pred: "0 < i \<Longrightarrow> i \<le> length xs \<Longrightarrow> take i xs = take (i - 1) xs @ [xs ! (i - 1)]"
  by (cases i) (auto simp: take_Suc_conv_app_nth)

text \<open>No script with the same two sides keeps more lines than the table says.\<close>

lemma equals_bound:
  "old_lines ops = take i old \<Longrightarrow> new_lines ops = take j new \<Longrightarrow> i \<le> length old \<Longrightarrow> j \<le> length new \<Longrightarrow>
     equals ops \<le> lcs_len old new i j"
proof (induction ops arbitrary: i j rule: rev_induct)
  case Nil
  then show ?case by (simp add: equals_def)
next
  case (snoc op ops)
  show ?case
  proof (cases op)
    case (Equal l)
    then have ij: "0 < i" "0 < j" using snoc.prems by (auto intro: Suc_leI gr0I)
    then have "old_lines ops = take (i - 1) old" "old ! (i - 1) = l" "new_lines ops = take (j - 1) new" "new ! (j - 1) = l"
      using snoc.prems Equal take_pred [of i old] take_pred [of j new] by auto
    then show ?thesis using snoc.IH [of "i - 1" "j - 1"] snoc.prems ij Equal
      by (cases i; cases j) (auto simp: equals_def)
  next
    case (Insert l)
    then have j: "0 < j" using snoc.prems by (auto intro: gr0I)
    then have "new_lines ops = take (j - 1) new" "old_lines ops = take i old"
      using snoc.prems Insert take_pred [of j new] by auto
    then have "equals ops \<le> lcs_len old new i (j - 1)" using snoc.IH snoc.prems by simp
    also have "\<dots> \<le> lcs_len old new i j" using lcs_len_step [of old new i "j - 1"] j by simp
    finally show ?thesis using Insert by (simp add: equals_def)
  next
    case (Delete l)
    then have i: "0 < i" using snoc.prems by (auto intro: gr0I)
    then have "old_lines ops = take (i - 1) old" "new_lines ops = take j new"
      using snoc.prems Delete take_pred [of i old] by auto
    then have "equals ops \<le> lcs_len old new (i - 1) j" using snoc.IH snoc.prems by simp
    also have "\<dots> \<le> lcs_len old new i j" using lcs_len_step [of old new "i - 1" j] i by simp
    finally show ?thesis using Delete by (simp add: equals_def)
  qed
qed

text \<open>The walk back produces a script for the two prefixes that keeps that many.\<close>

lemma backtrack_loop_correct:
  assumes tab: "\<And>i j. i \<le> length old \<Longrightarrow> j \<le> length new \<Longrightarrow> tab_get t i j = lcs_len old new i j"
  shows "i \<le> length old \<Longrightarrow> j \<le> length new \<Longrightarrow>
    \<exists>s. backtrack_loop t old new i j ops = ops @ rev s \<and> old_lines s = take i old \<and> new_lines s = take j new \<and>
        equals s = lcs_len old new i j"
proof (induction "i + j" arbitrary: i j ops rule: less_induct)
  case less
  consider (stop) "i = 0" "j = 0"
    | (eq) "0 < i" "0 < j" "old ! (i - 1) = new ! (j - 1)"
    | (ins) "0 < j" "\<not> (0 < i \<and> old ! (i - 1) = new ! (j - 1))" "i = 0 \<or> tab_get t i (j - 1) \<ge> tab_get t (i - 1) j"
    | (del) "0 < i" "\<not> (0 < j \<and> old ! (i - 1) = new ! (j - 1))" "j = 0 \<or> tab_get t i (j - 1) < tab_get t (i - 1) j"
    by linarith
  then show ?case
  proof cases
    case stop
    then show ?thesis by (simp add: backtrack_loop.simps equals_def)
  next
    case eq
    obtain s where s: "backtrack_loop t old new (i - 1) (j - 1) (ops @ [Equal (old ! (i - 1))]) = (ops @ [Equal (old ! (i - 1))]) @ rev s"
        "old_lines s = take (i - 1) old" "new_lines s = take (j - 1) new" "equals s = lcs_len old new (i - 1) (j - 1)"
      using less(1) [of "i - 1" "j - 1"] eq less.prems by fastforce
    have "lcs_len old new i j = lcs_len old new (i - 1) (j - 1) + 1" using eq by (cases i; cases j) auto
    then show ?thesis
      using s eq less.prems take_pred [of i old] take_pred [of j new]
      by (intro exI [of _ "s @ [Equal (old ! (i - 1))]"]) (simp add: backtrack_loop.simps [of t old new i j] equals_def)
  next
    case ins
    obtain s where s: "backtrack_loop t old new i (j - 1) (ops @ [Insert (new ! (j - 1))]) = (ops @ [Insert (new ! (j - 1))]) @ rev s"
        "old_lines s = take i old" "new_lines s = take (j - 1) new" "equals s = lcs_len old new i (j - 1)"
      using less(1) [of i "j - 1"] ins less.prems by fastforce
    have "lcs_len old new i j = lcs_len old new i (j - 1)"
      using ins less.prems tab [of i "j - 1"] tab [of "i - 1" j] by (cases i; cases j) auto
    then show ?thesis
      using s ins less.prems take_pred [of j new]
      by (intro exI [of _ "s @ [Insert (new ! (j - 1))]"]) (auto simp: backtrack_loop.simps [of t old new i j] equals_def)
  next
    case del
    obtain s where s: "backtrack_loop t old new (i - 1) j (ops @ [Delete (old ! (i - 1))]) = (ops @ [Delete (old ! (i - 1))]) @ rev s"
        "old_lines s = take (i - 1) old" "new_lines s = take j new" "equals s = lcs_len old new (i - 1) j"
      using less(1) [of "i - 1" j] del less.prems by fastforce
    have "lcs_len old new i j = lcs_len old new (i - 1) j"
      using del less.prems tab [of i "j - 1"] tab [of "i - 1" j] by (cases i; cases j) auto
    then show ?thesis
      using s del less.prems take_pred [of i old]
      by (intro exI [of _ "s @ [Delete (old ! (i - 1))]"]) (auto simp: backtrack_loop.simps [of t old new i j] equals_def)
  qed
qed

lemma diff_lines_script:
  "old_lines (diff_lines old new) = split_lines old" "new_lines (diff_lines old new) = split_lines new"
  "equals (diff_lines old new) = lcs_len (split_lines old) (split_lines new) (length (split_lines old)) (length (split_lines new))"
proof -
  define ol nl where "ol = split_lines old" and "nl = split_lines new"
  have "\<exists>s. backtrack_loop (lcs_table ol nl) ol nl (length ol) (length nl) [] = [] @ rev s \<and>
      old_lines s = take (length ol) ol \<and> new_lines s = take (length nl) nl \<and>
      equals s = lcs_len ol nl (length ol) (length nl)"
    by (rule backtrack_loop_correct) (simp_all add: lcs_table_correct)
  then show "old_lines (diff_lines old new) = split_lines old" "new_lines (diff_lines old new) = split_lines new"
    "equals (diff_lines old new) = lcs_len (split_lines old) (split_lines new) (length (split_lines old)) (length (split_lines new))"
    unfolding ol_def [symmetric] nl_def [symmetric]
    by (auto simp: diff_lines_def diff_backtrack_def Let_def ol_def [symmetric] nl_def [symmetric])
qed

text \<open>Joining the lines of a text gives it back, with a newline at the end if it had none.\<close>

lemma join_split_on: "concat (map (\<lambda>l. l @ [c]) (split_on c s)) = s @ [c]"
proof (induction s)
  case (Cons x s)
  then show ?case using split_on_neq_Nil [of c s] by (cases "split_on c s") auto
qed simp

lemma apply_patch_new: "apply_patch original ops = concat (map (\<lambda>l. l @ [newline]) (new_lines ops))"
  unfolding apply_patch_def by (induction ops rule: new_lines.induct) auto

lemma join_split_lines:
  "concat (map (\<lambda>l. l @ [newline]) (split_lines txt)) = (if txt = [] \<or> last txt = newline then txt else txt @ [newline])"
proof -
  have "butlast txt @ [newline] = txt" if "txt \<noteq> []" "last txt = newline"
    using append_butlast_last_id [OF that(1)] that(2) by simp
  then show ?thesis by (auto simp: split_lines_def strip_suffix_def join_split_on)
qed

text \<open>
  C38. A difference is right and minimal: the lines of the script that are kept or deleted are the
  old text, the ones kept or inserted are the new text, no script between the two texts has fewer
  insertions and deletions, and applying it to the old text gives the new one, with a newline
  added at the end if the new text had none.
\<close>

theorem diff_minimal:
  "old_lines (diff_lines old new) = split_lines old \<and> new_lines (diff_lines old new) = split_lines new \<and>
   (\<forall>ops. old_lines ops = split_lines old \<and> new_lines ops = split_lines new \<longrightarrow>
      changes (diff_lines old new) \<le> changes ops) \<and>
   apply_patch old (diff_lines old new) = (if new = [] \<or> last new = newline then new else new @ [newline])"
proof -
  have "changes (diff_lines old new) \<le> changes ops"
    if "old_lines ops = split_lines old" "new_lines ops = split_lines new" for ops
    using equals_bound [of ops "length (split_lines old)" "split_lines old" "length (split_lines new)" "split_lines new"]
      changes_equals [of ops] changes_equals [of "diff_lines old new"] that diff_lines_script [of old new]
    by simp
  then show ?thesis by (simp add: diff_lines_script apply_patch_new join_split_lines)
qed

theorem diff_minimal_witness:
  "diff_lines (''a'' @ [newline] @ ''b'') (''b'' @ [newline] @ ''c'') = [Delete ''a'', Equal ''b'', Insert ''c''] \<and>
   apply_patch (''a'' @ [newline] @ ''b'') (diff_lines (''a'' @ [newline] @ ''b'') (''b'' @ [newline] @ ''c'')) =
     ''b'' @ [newline] @ ''c'' @ [newline] \<and>
   changes (diff_lines (''a'' @ [newline] @ ''b'') (''b'' @ [newline] @ ''c'')) \<le> changes [Delete ''a'', Delete ''b'', Insert ''b'', Insert ''c'']"
proof -
  have n: "newline \<noteq> CHR ''a''" "newline \<noteq> CHR ''b''" "newline \<noteq> CHR ''c''" by (simp_all add: newline_def)
  have "diff_lines (''a'' @ [newline] @ ''b'') (''b'' @ [newline] @ ''c'') = [Delete ''a'', Equal ''b'', Insert ''c'']"
    by code_simp
  moreover have "old_lines [Delete ''a'', Delete ''b'', Insert ''b'', Insert ''c''] = split_lines (''a'' @ [newline] @ ''b'')"
      "new_lines [Delete ''a'', Delete ''b'', Insert ''b'', Insert ''c''] = split_lines (''b'' @ [newline] @ ''c'')"
    by code_simp+
  ultimately show ?thesis using diff_minimal [of "''a'' @ [newline] @ ''b''" "''b'' @ [newline] @ ''c''"] n by auto
qed

section \<open>Unified output\<close>

text \<open>The digits of a line number are its decimal representation.\<close>

lemma push_usize_show: "push_usize buf n = buf @ show_nat n"
proof -
  have "rev (push_digits n) = show_nat n" if "n > 0" for n
    using that
  proof (induction n rule: push_digits.induct)
    case (1 n)
    then show ?case
      by (cases "n div 10 > 0") (auto simp: push_digits.simps [of n] push_digits.simps [of 0] show_nat.simps [of n] div_greater_zero_iff)
  qed
  moreover have "char_of (48 :: nat) = CHR ''0''" by code_simp
  ultimately show ?thesis by (simp add: push_usize_def show_nat.simps [of 0] digit_char_def)
qed

text \<open>
  The windows printed are in order, inside the script, do not overlap and leave no change out.
\<close>

fun windows_ok :: "nat \<Rightarrow> nat \<Rightarrow> (nat \<times> nat) list \<Rightarrow> bool" where
  "windows_ok n lo [] = True"
| "windows_ok n lo ((s, e) # hs) = (lo \<le> s \<and> s \<le> e \<and> e < n \<and> windows_ok n (e + 1) hs)"

lemma merge_hunks_ok:
  "hs \<le> he \<Longrightarrow> he < n \<Longrightarrow> lo \<le> hs \<Longrightarrow> sorted_wrt (<) cis \<Longrightarrow> \<forall>c \<in> set cis. hs \<le> c \<and> he \<le> c + ctx \<and> c < n \<Longrightarrow>
     windows_ok n lo (merge_hunks ctx n cis (hs, he)) \<and>
     {hs..he} \<union> set cis \<subseteq> \<Union> ((\<lambda>(s, e). {s..e}) ` set (merge_hunks ctx n cis (hs, he)))"
proof (induction cis arbitrary: hs he lo)
  case Nil
  then show ?case by simp
next
  case (Cons ci cis)
  define ce where "ce = min (ci + ctx) (n - 1)"
  have ce: "ce < n" "he \<le> ce" "ci \<le> ce" "hs \<le> ci" "\<forall>c \<in> set cis. ce \<le> c + ctx \<and> c < n"
    using Cons.prems by (auto simp: ce_def)
  show ?case
  proof (cases "ci - ctx \<le> he + 1")
    case True
    have m: "merge_hunks ctx n (ci # cis) (hs, he) = merge_hunks ctx n cis (hs, ce)" using True by (simp add: ce_def Let_def)
    have "windows_ok n lo (merge_hunks ctx n cis (hs, ce)) \<and>
        {hs..ce} \<union> set cis \<subseteq> \<Union> ((\<lambda>(s, e). {s..e}) ` set (merge_hunks ctx n cis (hs, ce)))"
      using Cons.IH [of hs ce lo] ce Cons.prems by auto
    moreover have "{hs..he} \<union> set (ci # cis) \<subseteq> {hs..ce} \<union> set cis" using ce by auto
    ultimately show ?thesis unfolding m by blast
  next
    case False
    have m: "merge_hunks ctx n (ci # cis) (hs, he) = (hs, he) # merge_hunks ctx n cis (ci - ctx, ce)"
      using False by (simp add: ce_def Let_def)
    have "windows_ok n (he + 1) (merge_hunks ctx n cis (ci - ctx, ce)) \<and>
        {ci - ctx..ce} \<union> set cis \<subseteq> \<Union> ((\<lambda>(s, e). {s..e}) ` set (merge_hunks ctx n cis (ci - ctx, ce)))"
      by (rule Cons.IH) (use ce Cons.prems False in auto)
    note IH = conjunct1 [OF this] conjunct2 [OF this]
    have "{hs..he} \<union> set (ci # cis) \<subseteq> {hs..he} \<union> ({ci - ctx..ce} \<union> set cis)" using ce by auto
    also have "\<dots> \<subseteq> {hs..he} \<union> \<Union> ((\<lambda>(s, e). {s..e}) ` set (merge_hunks ctx n cis (ci - ctx, ce)))"
      using IH(2) by (rule Un_mono [OF order_refl])
    finally show ?thesis unfolding m using IH(1) Cons.prems by simp
  qed
qed

lemma hunks_cover:
  "windows_ok (length ops) 0 (hunks ops ctx) \<and>
   (\<forall>i < length ops. \<not> is_equal (ops ! i) \<longrightarrow> (\<exists>(s, e) \<in> set (hunks ops ctx). s \<le> i \<and> i \<le> e))"
proof -
  define cs where "cs = filter (\<lambda>i. \<not> is_equal (ops ! i)) [0..<length ops]"
  have sorted: "sorted_wrt (<) cs" unfolding cs_def by (intro sorted_wrt_filter sorted_wrt_upt)
  have set: "set cs = {i. i < length ops \<and> \<not> is_equal (ops ! i)}" by (auto simp: cs_def)
  show ?thesis
  proof (cases cs)
    case Nil
    then show ?thesis using set by (auto simp: hunks_def cs_def [symmetric])
  next
    case (Cons c rest)
    have c: "c < length ops" using set Cons by auto
    have "windows_ok (length ops) 0 (hunks ops ctx) \<and>
        {c - ctx..min (c + ctx) (length ops - 1)} \<union> set rest \<subseteq> \<Union> ((\<lambda>(s, e). {s..e}) ` set (hunks ops ctx))"
      unfolding hunks_def cs_def [symmetric] Cons list.case
      by (rule merge_hunks_ok) (use sorted set Cons c in auto)
    moreover have "set cs \<subseteq> {c - ctx..min (c + ctx) (length ops - 1)} \<union> set rest" using Cons c by auto
    ultimately show ?thesis using set by fastforce
  qed
qed

end
