(* ===== verification/Tar.thy ===== *)
theory Tar
  imports Le_Bytes Rust_Str
begin

text \<open>
  Tar archives (\<^verbatim>\<open>src/tar.rs\<close>): reading and writing the UStar format, 512-byte headers with octal
  ASCII fields followed by the contents padded to whole blocks.
\<close>

section \<open>Data\<close>

definition BLOCK_SIZE :: usize where "BLOCK_SIZE = 512"

record tar_header =
  th_name :: "u8 list"
  th_mode :: "u8 list"
  th_uid :: "u8 list"
  th_gid :: "u8 list"
  th_size :: "u8 list"
  th_mtime :: "u8 list"
  th_checksum :: "u8 list"
  th_typeflag :: u8
  th_linkname :: "u8 list"
  th_magic :: "u8 list"
  th_version :: "u8 list"
  th_uname :: "u8 list"
  th_gname :: "u8 list"
  th_devmajor :: "u8 list"
  th_devminor :: "u8 list"
  th_prefix :: "u8 list"
  th_pad :: "u8 list"

text \<open>The header read as a structure: its fields lie one after the other.\<close>

definition read_header :: "u8 list \<Rightarrow> tar_header" where
  "read_header hdr =
     \<lparr>th_name = slice 0 100 hdr, th_mode = slice 100 8 hdr, th_uid = slice 108 8 hdr, th_gid = slice 116 8 hdr,
      th_size = slice 124 12 hdr, th_mtime = slice 136 12 hdr, th_checksum = slice 148 8 hdr,
      th_typeflag = hdr ! 156, th_linkname = slice 157 100 hdr, th_magic = slice 257 6 hdr,
      th_version = slice 263 2 hdr, th_uname = slice 265 32 hdr, th_gname = slice 297 32 hdr,
      th_devmajor = slice 329 8 hdr, th_devminor = slice 337 8 hdr, th_prefix = slice 345 155 hdr,
      th_pad = slice 500 12 hdr\<rparr>"

record tar_entry =
  te_header :: tar_header
  te_data :: "u8 list"

datatype tar_entry_type = File | Directory | Symlink | Other u8

section \<open>Reading\<close>

fun octal_loop :: "u8 list \<Rightarrow> nat \<Rightarrow> nat" where
  "octal_loop [] v = v"
| "octal_loop (b # bs) v =
     (if b = 0 \<or> b = 0x20 then v
      else if 0x30 \<le> b \<and> b \<le> 0x37 then octal_loop bs (v * 8 + unat (b - 0x30))
      else octal_loop bs v)"

definition parse_octal :: "u8 list \<Rightarrow> nat" where
  "parse_octal field = octal_loop field 0"

definition name_from_field :: "u8 list \<Rightarrow> str" where
  "name_from_field field =
     (let len = (case position (\<lambda>b. b = 0) field of Some i \<Rightarrow> i | None \<Rightarrow> length field)
      in from_utf8_lossy (take len field))"

definition classify :: "u8 \<Rightarrow> tar_entry_type" where
  "classify typeflag =
     (if typeflag = 0 \<or> typeflag = 0x30 then File
      else if typeflag = 0x35 then Directory
      else if typeflag = 0x32 then Symlink
      else Other typeflag)"

function parse_from :: "u8 list \<Rightarrow> usize \<Rightarrow> tar_entry list" where
  "parse_from data off =
     (if off + BLOCK_SIZE \<le> length data then
        let hdr = slice off BLOCK_SIZE data
        in if list_all (\<lambda>b. b = 0) hdr then []
           else
             let header = read_header hdr;
                 file_size = parse_octal (th_size header);
                 data_start = off + BLOCK_SIZE;
                 data_end = data_start + file_size;
                 file_data = (if data_end \<le> length data then slice data_start file_size data
                              else slice data_start (min (length data) data_end - data_start) data);
                 blocks = (file_size + BLOCK_SIZE - 1) div BLOCK_SIZE
             in \<lparr>te_header = header, te_data = file_data\<rparr> # parse_from data (data_start + blocks * BLOCK_SIZE)
      else [])"
  by pat_completeness auto
termination by (relation "measure (\<lambda>(data, off). length data - off)") (auto simp: BLOCK_SIZE_def Let_def)

declare parse_from.simps [simp del]

definition parse_tar :: "u8 list \<Rightarrow> tar_entry list" where
  "parse_tar data = parse_from data 0"

section \<open>Writing\<close>

text \<open>The digits of \<^verbatim>\<open>write_octal\<close>, from the last to the first; \<open>acc\<close> is what lies behind them.\<close>

fun octal_digits :: "nat \<Rightarrow> nat \<Rightarrow> u8 list \<Rightarrow> u8 list" where
  "octal_digits 0 v acc = acc"
| "octal_digits (Suc n) v acc = octal_digits n (drop_bit 3 v) ((0x30 + of_nat (v AND 7)) # acc)"

definition write_octal :: "nat \<Rightarrow> nat \<Rightarrow> u8 list" where
  "write_octal len v = octal_digits (len - 1) v [0]"

definition compute_checksum :: "u8 list \<Rightarrow> nat" where
  "compute_checksum header =
     sum_list (map (\<lambda>i. if 148 \<le> i \<and> i < 156 then 0x20 else unat (header ! i)) [0..<length header])"

definition tar_fields :: "str \<Rightarrow> u8 list \<Rightarrow> u8 list" where
  "tar_fields name contents =
     (let nb = as_bytes name;
          hdr = splice 0 (take (min (length nb) 100) nb) (replicate BLOCK_SIZE 0);
          hdr = splice 100 (write_octal 8 420) hdr;
          hdr = splice 108 (write_octal 8 0) hdr;
          hdr = splice 116 (write_octal 8 0) hdr;
          hdr = splice 124 (write_octal 12 (length contents)) hdr;
          hdr = splice 136 (write_octal 12 0) hdr;
          hdr = hdr[156 := 0x30];
          hdr = splice 257 (as_bytes ''ustar'' @ [0]) hdr;
          hdr = splice 263 (as_bytes ''00'') hdr
      in splice 148 (replicate 8 0x20) hdr)"

definition tar_block :: "str \<Rightarrow> u8 list \<Rightarrow> u8 list" where
  "tar_block name contents =
     (let hdr = tar_fields name contents;
          hdr = splice 148 (write_octal 7 (compute_checksum hdr)) hdr
      in hdr[155 := 0x20])"

definition tar_padding :: "u8 list \<Rightarrow> u8 list" where
  "tar_padding contents =
     (let rem = length contents mod BLOCK_SIZE in if rem \<noteq> 0 then replicate (BLOCK_SIZE - rem) 0 else [])"

definition create_tar :: "(str \<times> u8 list) list \<Rightarrow> u8 list" where
  "create_tar entries =
     foldl (\<lambda>archive (name, contents). archive @ tar_block name contents @ contents @ tar_padding contents) [] entries
       @ replicate (BLOCK_SIZE * 2) 0"

section \<open>Listing and extraction\<close>

definition list_tar :: "u8 list \<Rightarrow> (str \<times> nat \<times> tar_entry_type) list" where
  "list_tar data =
     map (\<lambda>e. (name_from_field (th_name (te_header e)), parse_octal (th_size (te_header e)),
               classify (th_typeflag (te_header e)))) (parse_tar data)"

definition extract_file :: "u8 list \<Rightarrow> str \<Rightarrow> u8 list option" where
  "extract_file archive name =
     map_option te_data (find (\<lambda>e. name_from_field (th_name (te_header e)) = name) (parse_tar archive))"

section \<open>Octal fields\<close>

lemma length_octal_digits: "length (octal_digits n v acc) = n + length acc"
  by (induction n v acc rule: octal_digits.induct) auto

lemma length_write_octal [simp]: "0 < len \<Longrightarrow> length (write_octal len v) = len"
  by (simp add: write_octal_def length_octal_digits)

lemma octal_digit:
  fixes v :: nat
  defines "b \<equiv> (0x30 + of_nat (v AND 7) :: u8)"
  shows "b \<noteq> 0" "b \<noteq> 0x20" "0x30 \<le> b" "b \<le> 0x37" "unat (b - 0x30) = v mod 8"
proof -
  have v: "v AND 7 = v mod 8" using take_bit_eq_mask [of 3 v] by (simp add: mask_eq_exp_minus_1 take_bit_eq_mod)
  have "v mod 8 < 8" by simp
  then obtain k where k: "k = v mod 8" "k < 8" by simp
  have b: "unat b = 48 + k" using k by (simp add: b_def v unat_word_ariths unat_of_nat take_bit_nat_eq_self)
  show "b \<noteq> 0" "b \<noteq> 0x20" using b by auto
  show "0x30 \<le> b" "b \<le> 0x37" using b k by (simp_all add: word_le_nat_alt)
  show "unat (b - 0x30) = v mod 8" using k by (simp add: b_def v unat_of_nat take_bit_nat_eq_self)
qed

lemma octal_loop_digits:
  "octal_loop (octal_digits n v acc) w = octal_loop acc (w * 8 ^ n + v mod 8 ^ n)"
proof (induction n arbitrary: v acc w)
  case (Suc n)
  have "(w * 8 ^ n + drop_bit 3 v mod 8 ^ n) * 8 + v mod 8 = w * 8 ^ Suc n + v mod 8 ^ Suc n"
    by (simp add: drop_bit_eq_div mod_mult2_eq [of v 8 "8 ^ n"] algebra_simps)
  moreover have "octal_loop (octal_digits (Suc n) v acc) w = octal_loop acc ((w * 8 ^ n + drop_bit 3 v mod 8 ^ n) * 8 + v mod 8)"
    using octal_digit [of v] by (simp add: Suc)
  ultimately show ?case by (simp only:)
qed simp

lemma parse_write_octal: "0 < len \<Longrightarrow> v < 8 ^ (len - 1) \<Longrightarrow> parse_octal (write_octal len v) = v"
  by (simp add: parse_octal_def write_octal_def octal_loop_digits)

lemma octal_stops: "octal_loop (octal_digits n v [0] @ rest) w = octal_loop (octal_digits n v [0]) w"
proof -
  have "octal_digits n v (acc @ rest) = octal_digits n v acc @ rest" for acc
    by (induction n v acc rule: octal_digits.induct) auto
  from this [of "[0]"] show ?thesis using octal_loop_digits [of n v "0 # rest" w] octal_loop_digits [of n v "[0]" w] by simp
qed

section \<open>Headers\<close>

lemma slice_update_other: "i < b \<or> b + n \<le> i \<Longrightarrow> slice b n (xs[i := v]) = slice b n xs"
  by (auto simp: slice_def drop_update_swap)

lemma slice_whole: "slice 0 (length xs) (xs @ ys) = xs"
  by (simp add: slice_def)

lemma length_tar_fields [simp]: "length (tar_fields name contents) = 512"
  by (simp add: tar_fields_def Let_def BLOCK_SIZE_def)

lemma length_tar_block [simp]: "length (tar_block name contents) = 512"
  by (simp add: tar_block_def Let_def)

lemma tar_fields_name:
  assumes "length name \<le> 100"
  shows "slice 0 100 (tar_fields name contents) = as_bytes name @ replicate (100 - length name) 0"
proof -
  have "slice 0 100 (splice 0 (as_bytes name) (replicate 512 0)) = as_bytes name @ replicate (100 - length name) 0"
    using assms by (auto simp: slice_def splice_def)
  then show ?thesis
    using assms by (simp add: tar_fields_def Let_def BLOCK_SIZE_def slice_splice_other slice_update_other)
qed

lemma tar_fields_size: "slice 124 12 (tar_fields name contents) = write_octal 12 (length contents)"
proof -
  have "slice 124 12 (splice 124 (write_octal 12 v) buf) = write_octal 12 v" if "length buf = 512" for v and buf :: "u8 list"
    using slice_splice_same [of 124 "write_octal 12 v" buf] that by simp
  then show ?thesis
    by (simp add: tar_fields_def Let_def BLOCK_SIZE_def slice_splice_other slice_update_other)
qed

lemma tar_fields_type: "tar_fields name contents ! 156 = 0x30"
  by (simp add: tar_fields_def Let_def BLOCK_SIZE_def nth_splice)

lemma tar_block_fields:
  "slice 0 100 (tar_block name contents) = slice 0 100 (tar_fields name contents)"
  "slice 124 12 (tar_block name contents) = slice 124 12 (tar_fields name contents)"
  "tar_block name contents ! 156 = 0x30"
  by (simp_all add: tar_block_def Let_def slice_splice_other slice_update_other nth_splice tar_fields_type)

lemma tar_block_outside:
  "i < 512 \<Longrightarrow> i < 148 \<or> 156 \<le> i \<Longrightarrow> tar_block name contents ! i = tar_fields name contents ! i"
  by (auto simp: tar_block_def Let_def nth_splice nth_list_update)

lemma checksum_block: "compute_checksum (tar_block name contents) = compute_checksum (tar_fields name contents)"
  unfolding compute_checksum_def by (intro arg_cong [where f = sum_list] map_cong) (auto simp: tar_block_outside)

lemma checksum_bound: "length header = 512 \<Longrightarrow> compute_checksum header < 8 ^ 6"
proof -
  assume l: "length header = 512"
  have "compute_checksum header \<le> sum_list (map (\<lambda>_. 255) [0..<length header])"
    unfolding compute_checksum_def
  proof (rule sum_list_mono)
    fix i
    show "(if 148 \<le> i \<and> i < 156 then 0x20 else unat (header ! i)) \<le> 255"
      using unsigned_less [of "header ! i", where 'a = nat] by simp
  qed
  then show ?thesis using l by (simp add: sum_list_triv)
qed

text \<open>The checksum field holds the sum that the standard asks for.\<close>

lemma tar_block_checksum:
  "parse_octal (th_checksum (read_header (tar_block name contents))) = compute_checksum (tar_block name contents)"
proof -
  let ?ck = "compute_checksum (tar_fields name contents)"
  have "slice 148 8 (tar_block name contents) = write_octal 7 ?ck @ [0x20]"
    by (rule slice_eqI) (auto simp: tar_block_def Let_def nth_splice nth_list_update nth_append)
  then have "parse_octal (th_checksum (read_header (tar_block name contents))) = parse_octal (write_octal 7 ?ck)"
    by (simp add: read_header_def parse_octal_def write_octal_def octal_stops)
  then show ?thesis using parse_write_octal [of 7 ?ck] checksum_bound [of "tar_fields name contents"]
    by (simp add: checksum_block)
qed

section \<open>Round trip\<close>

definition tar_storable :: "str \<times> u8 list \<Rightarrow> bool" where
  "tar_storable e \<longleftrightarrow> length (fst e) \<le> 100 \<and> 0 \<notin> set (as_bytes (fst e)) \<and> utf8_valid (as_bytes (fst e)) \<and>
     length (snd e) < 8 ^ 11"

definition tar_entry_bytes :: "str \<times> u8 list \<Rightarrow> u8 list" where
  "tar_entry_bytes e = tar_block (fst e) (snd e) @ snd e @ tar_padding (snd e)"

lemma create_tar_concat: "create_tar es = concat (map tar_entry_bytes es) @ replicate 1024 0"
proof -
  have "foldl (\<lambda>archive (name, contents). archive @ tar_block name contents @ contents @ tar_padding contents) a es =
      a @ concat (map tar_entry_bytes es)" for a
    by (induction es arbitrary: a) (auto simp: tar_entry_bytes_def)
  then show ?thesis by (simp add: create_tar_def BLOCK_SIZE_def)
qed

lemma position_zero:
  "0 \<notin> set (xs :: u8 list) \<Longrightarrow> position (\<lambda>b. b = 0) (xs @ replicate k 0) = (if k = 0 then None else Some (length xs))"
  by (induction xs) (cases k; auto)+

lemma name_field:
  assumes "0 \<notin> set (as_bytes name)" and "utf8_valid (as_bytes name)"
  shows "name_from_field (as_bytes name @ replicate k 0) = name"
  using position_zero [OF assms(1), of k] assms(2) by (simp add: name_from_field_def)

lemma read_tar_block:
  assumes "tar_storable (name, contents)"
  shows "name_from_field (th_name (read_header (tar_block name contents))) = name"
    and "parse_octal (th_size (read_header (tar_block name contents))) = length contents"
    and "classify (th_typeflag (read_header (tar_block name contents))) = File"
  using assms parse_write_octal [of 12 "length contents"]
  by (simp_all add: read_header_def tar_block_fields tar_fields_name tar_fields_size name_field classify_def tar_storable_def)

lemma padded_length: "length contents + length (tar_padding contents) = (length contents + 511) div 512 * 512"
proof -
  define q r where "q = length contents div 512" and "r = length contents mod 512"
  have n: "length contents = q * 512 + r" "r < 512" by (simp_all add: q_def r_def)
  have "(length contents + 511) div 512 = q + (r + 511) div 512" unfolding n(1) by (simp add: add.assoc)
  moreover have "(r + 511) div 512 = (if r = 0 then 0 else 1)" using n(2) by auto
  ultimately show ?thesis using n by (simp add: tar_padding_def BLOCK_SIZE_def r_def [symmetric])
qed

lemma slice_at: "slice (length pre) (length blk) (pre @ blk @ rest) = blk"
  by (simp add: slice_def)

text \<open>Reading at the start of an entry.\<close>

lemma parse_from_entry:
  assumes "tar_storable (name, contents)"
  shows "parse_from (pre @ tar_entry_bytes (name, contents) @ rest) (length pre) =
    \<lparr>te_header = read_header (tar_block name contents), te_data = contents\<rparr> #
      parse_from (pre @ tar_entry_bytes (name, contents) @ rest) (length (pre @ tar_entry_bytes (name, contents)))"
proof -
  let ?data = "pre @ tar_entry_bytes (name, contents) @ rest"
  have hdr: "slice (length pre) 512 ?data = tar_block name contents"
    using slice_at [of pre "tar_block name contents" "contents @ tar_padding contents @ rest"] by (simp add: tar_entry_bytes_def)
  have body: "slice (length pre + 512) (length contents) ?data = contents"
    using slice_at [of "pre @ tar_block name contents" contents "tar_padding contents @ rest"] by (simp add: tar_entry_bytes_def)
  have nz: "\<not> list_all (\<lambda>b. b = 0) (tar_block name contents)"
  proof -
    have "tar_block name contents ! 156 \<in> set (tar_block name contents)" by (rule nth_mem) simp
    then have "0x30 \<in> set (tar_block name contents)" unfolding tar_block_fields(3) .
    moreover have "(0x30 :: u8) \<noteq> 0" by simp
    ultimately show ?thesis unfolding list_all_iff by blast
  qed
  have next_off: "length pre + 512 + (length contents + 511) div 512 * 512 = length (pre @ tar_entry_bytes (name, contents))"
    using padded_length [of contents] by (simp add: tar_entry_bytes_def)
  have len: "length pre + 512 + length contents \<le> length ?data" by (simp add: tar_entry_bytes_def)
  have "parse_from ?data (length pre) =
      \<lparr>te_header = read_header (tar_block name contents), te_data = contents\<rparr> #
        parse_from ?data (length pre + 512 + (length contents + 511) div 512 * 512)"
    using hdr body nz len read_tar_block(2) [OF assms]
    by (subst parse_from.simps) (simp add: BLOCK_SIZE_def Let_def add.commute)
  then show ?thesis unfolding next_off .
qed

lemma parse_from_entries:
  assumes "list_all tar_storable es"
  shows "parse_from (pre @ concat (map tar_entry_bytes es) @ replicate 1024 0) (length pre) =
    map (\<lambda>(name, contents). \<lparr>te_header = read_header (tar_block name contents), te_data = contents\<rparr>) es"
  using assms
proof (induction es arbitrary: pre)
  case Nil
  have "slice (length pre) 512 (pre @ replicate 1024 0) = replicate 512 (0 :: u8)" by (simp add: slice_def)
  then show ?case by (subst parse_from.simps) (simp add: BLOCK_SIZE_def list_all_iff)
next
  case (Cons e es)
  obtain name contents where e: "e = (name, contents)" by fastforce
  show ?case
    using parse_from_entry [of name contents pre "concat (map tar_entry_bytes es) @ replicate 1024 0"] Cons.prems
      Cons.IH [of "pre @ tar_entry_bytes e"] by (simp add: e)
qed

lemma parse_create_tar:
  assumes "list_all tar_storable es"
  shows "parse_tar (create_tar es) =
    map (\<lambda>(name, contents). \<lparr>te_header = read_header (tar_block name contents), te_data = contents\<rparr>) es"
  using parse_from_entries [OF assms, of "[]"] by (simp add: parse_tar_def create_tar_concat)

text \<open>
  What is archived comes out: for names of at most 100 bytes without a zero byte and contents
  of less than 8 GiB, reading an archive that was written gives every entry back in order, with
  its name, its size and its contents; extracting a name gives the contents of the first entry
  with that name, and nothing when there is none; and every header carries the checksum that the
  format asks for.
\<close>

lemma tar_roundtrip:
  assumes "list_all tar_storable es"
  shows "map (\<lambda>e. (name_from_field (th_name (te_header e)), te_data e)) (parse_tar (create_tar es)) = es \<and>
    list_tar (create_tar es) = map (\<lambda>(name, contents). (name, length contents, File)) es \<and>
    extract_file (create_tar es) name = map_of es name \<and>
    list_all (\<lambda>(name, contents). parse_octal (th_checksum (read_header (tar_block name contents))) =
       compute_checksum (tar_block name contents)) es"
proof -
  have st: "tar_storable e" if "e \<in> set es" for e using assms that by (simp add: list_all_iff)
  have find: "map_option te_data (find (\<lambda>e. name_from_field (th_name (te_header e)) = name)
      (map (\<lambda>(name, contents). \<lparr>te_header = read_header (tar_block name contents), te_data = contents\<rparr>) xs)) = map_of xs name"
    if "list_all tar_storable xs" for xs
    using that by (induction xs) (auto simp: read_tar_block(1))
  show ?thesis
    unfolding list_tar_def extract_file_def parse_create_tar [OF assms] find [OF assms]
    using st by (auto simp: list_all_iff read_tar_block tar_block_checksum intro!: map_idI)
qed

lemma tar_roundtrip_instance:
  "map (\<lambda>e. (name_from_field (th_name (te_header e)), te_data e)) (parse_tar (create_tar [(''a'', [1, 2, 3]), (''b'', [])])) =
     [(''a'', [1, 2, 3]), (''b'', [])] \<and>
   extract_file (create_tar [(''a'', [1, 2, 3]), (''b'', [])]) ''a'' = Some [1, 2, 3]"
proof -
  have "utf8_valid (as_bytes ''a'')" "utf8_valid (as_bytes ''b'')" by code_simp+
  then have "list_all tar_storable [(''a'', [1, 2, 3]), (''b'', [])]" by (simp add: tar_storable_def)
  from tar_roundtrip [OF this, of "''a''"] show ?thesis by simp
qed

text \<open>A longer name is cut off: the entry is not found under its own name.\<close>

lemma long_name_lost:
  assumes "length name > 100" and "is_ascii name" and "0 \<notin> set (as_bytes name)" and "length contents < 8 ^ 11"
  shows "extract_file (create_tar [(name, contents)]) name = None"
proof -
  have "tar_block name contents = tar_block (take 100 name) contents"
    using assms(1) by (simp add: tar_block_def tar_fields_def Let_def as_bytes_def take_map)
  moreover have "utf8_valid (as_bytes (take 100 name))"
    using assms(2) by (intro ascii_utf8_valid) (auto simp: is_ascii_def list_all_iff dest: in_set_takeD)
  then have "tar_storable (take 100 name, contents)"
    using assms by (auto simp: tar_storable_def as_bytes_def dest: in_set_takeD)
  moreover have "create_tar [(name, contents)] = create_tar [(take 100 name, contents)]"
    using calculation(1) by (simp add: create_tar_concat tar_entry_bytes_def)
  moreover have "take 100 name \<noteq> name"
  proof
    assume "take 100 name = name"
    then have "length name \<le> 100" by (metis length_take min.cobounded2)
    then show False using assms(1) by simp
  qed
  ultimately show ?thesis
    by (simp add: extract_file_def parse_create_tar read_tar_block(1))
qed

end
