(* ===== verification/Regex.thy ===== *)
theory Regex
  imports Rust_Str
begin

text \<open>
  The regular expressions of the shell (\<^verbatim>\<open>src/regex.rs\<close>): the parser of patterns and the
  backtracking matcher. Text is matched by Unicode scalar values, 32-bit words as in Rust.
\<close>

section \<open>Characters of a string\<close>

definition utf8_code :: "u8 list \<Rightarrow> u32" where
  "utf8_code bs =
     (case bs of
        [b0] \<Rightarrow> ucast b0
      | [b0, b1] \<Rightarrow> ucast (b0 AND 0x1F) * 64 + ucast (b1 AND 0x3F)
      | [b0, b1, b2] \<Rightarrow> ucast (b0 AND 0x0F) * 4096 + ucast (b1 AND 0x3F) * 64 + ucast (b2 AND 0x3F)
      | [b0, b1, b2, b3] \<Rightarrow>
          ucast (b0 AND 0x07) * 262144 + ucast (b1 AND 0x3F) * 4096 + ucast (b2 AND 0x3F) * 64 + ucast (b3 AND 0x3F)
      | _ \<Rightarrow> 0)"

function char_indices_from :: "nat \<Rightarrow> u8 list \<Rightarrow> (nat \<times> u32) list" where
  "char_indices_from off [] = []"
| "char_indices_from off (b # rest) =
     (let n = snd (utf8_next b rest)
      in (off, utf8_code (take n (b # rest))) # char_indices_from (off + n) (drop n (b # rest)))"
  by pat_completeness auto
termination
proof (relation "measure (\<lambda>(off, bs). length bs)", goal_cases)
  case (2 off b rest n)
  then show ?case using utf8_next_pos [of b rest] by simp
qed simp

definition char_indices :: "str \<Rightarrow> (nat \<times> u32) list" where
  "char_indices s = char_indices_from 0 (as_bytes s)"

definition chars :: "str \<Rightarrow> u32 list" where
  "chars s = map snd (char_indices s)"

section \<open>Patterns\<close>

datatype class_item = Single u32 | Range u32 u32

datatype shorthand_kind = Digit | Word | Space

datatype node =
    Literal u32
  | AnyChar
  | Class "class_item list" bool
  | Shorthand shorthand_kind
  | Alternation "node list" "node list"

datatype quantifier = One | ZeroOrMore | OneOrMore | ZeroOrOne

datatype piece = Piece (pc_node: node) (pc_quantifier: quantifier)

record regex =
  re_pieces :: "piece list"
  re_anchor_start :: bool
  re_anchor_end :: bool

abbreviation chr_code :: "char \<Rightarrow> u32" where "chr_code c \<equiv> of_char c"

section \<open>Parsing\<close>

text \<open>The loop of \<^verbatim>\<open>parse_class\<close>, up to the closing bracket or the end.\<close>

function class_items :: "u32 list \<Rightarrow> usize \<Rightarrow> class_item list \<Rightarrow> class_item list \<times> usize" where
  "class_items cs pos items =
     (if pos < length cs \<and> cs ! pos \<noteq> chr_code CHR '']'' then
        let ch = cs ! pos; pos = pos + 1
        in if pos + 1 < length cs \<and> cs ! pos = chr_code CHR ''-'' \<and> cs ! (pos + 1) \<noteq> chr_code CHR '']''
           then class_items cs (pos + 2) (items @ [Range ch (cs ! (pos + 1))])
           else class_items cs pos (items @ [Single ch])
      else (items, pos))"
  by pat_completeness auto
termination by (relation "measure (\<lambda>(cs, pos, items). length cs - pos)") (auto simp: Let_def)

declare class_items.simps [simp del]

definition parse_class :: "u32 list \<Rightarrow> usize \<Rightarrow> ((class_item list \<times> bool) \<times> usize) result" where
  "parse_class cs pos =
     (let negated = (pos < length cs \<and> cs ! pos = chr_code CHR ''^'');
          pos = (if negated then pos + 1 else pos);
          (items, pos) = class_items cs pos []
      in if pos \<ge> length cs then Err ''unterminated character class''
         else Ok ((items, negated), pos + 1))"

definition parse_escape :: "u32 list \<Rightarrow> usize \<Rightarrow> (node \<times> usize) result" where
  "parse_escape cs pos =
     (if pos \<ge> length cs then Err ''trailing backslash''
      else
        let ch = cs ! pos; pos = pos + 1
        in if ch = chr_code CHR ''d'' then Ok (Shorthand Digit, pos)
           else if ch = chr_code CHR ''w'' then Ok (Shorthand Word, pos)
           else if ch = chr_code CHR ''s'' then Ok (Shorthand Space, pos)
           else Ok (Literal ch, pos))"

definition parse_atom :: "u32 list \<Rightarrow> usize \<Rightarrow> (node \<times> usize) result" where
  "parse_atom cs pos =
     (let ch = cs ! pos; pos = pos + 1
      in if ch = chr_code CHR ''.'' then Ok (AnyChar, pos)
         else if ch = chr_code CHR 0x5C then parse_escape cs pos
         else if ch = chr_code CHR ''['' then
           (case parse_class cs pos of
              Inl e \<Rightarrow> Err e
            | Inr ((items, negated), pos) \<Rightarrow> Ok (Class items negated, pos))
         else Ok (Literal ch, pos))"

definition parse_quantifier :: "u32 list \<Rightarrow> usize \<Rightarrow> usize \<Rightarrow> quantifier \<times> usize" where
  "parse_quantifier cs pos fin =
     (if pos < fin then
        if cs ! pos = chr_code CHR ''*'' then (ZeroOrMore, pos + 1)
        else if cs ! pos = chr_code CHR ''+'' then (OneOrMore, pos + 1)
        else if cs ! pos = chr_code CHR ''?'' then (ZeroOrOne, pos + 1)
        else (One, pos)
      else (One, pos))"

lemma class_items_pos: "pos \<le> snd (class_items cs pos items)"
proof (induction cs pos items rule: class_items.induct)
  case (1 cs pos items)
  then show ?case by (subst class_items.simps) (force simp: Let_def)
qed

lemma parse_atom_pos:
  assumes "parse_atom cs pos = Ok (node, pos')"
  shows "pos < pos'"
  using assms class_items_pos [of "Suc pos" cs "[]"] class_items_pos [of "Suc (Suc pos)" cs "[]"]
  by (auto simp: parse_atom_def parse_escape_def parse_class_def Let_def split: if_splits sum.splits prod.splits)

lemma parse_quantifier_pos: "pos \<le> snd (parse_quantifier cs pos fin)"
  by (simp add: parse_quantifier_def)

function parse_concat :: "u32 list \<Rightarrow> usize \<Rightarrow> usize \<Rightarrow> piece list \<Rightarrow> (piece list \<times> usize) result" where
  "parse_concat cs pos fin pieces =
     (if pos < fin \<and> cs ! pos \<noteq> chr_code CHR ''|'' then
        (case parse_atom cs pos of
           Inl e \<Rightarrow> Err e
         | Inr (node, pos1) \<Rightarrow>
             let (quantifier, pos2) = parse_quantifier cs pos1 fin
             in parse_concat cs pos2 fin (pieces @ [Piece node quantifier]))
      else Ok (pieces, pos))"
  by pat_completeness auto
termination
proof (relation "measure (\<lambda>(cs, pos, fin, pieces). fin - pos)", goal_cases)
  case (2 cs pos fin pieces x node pos1 q quantifier pos2)
  then have "pos < pos1" using parse_atom_pos by metis
  moreover have "pos1 \<le> pos2" using parse_quantifier_pos [of pos1 cs fin] 2 by (metis snd_conv)
  moreover have "pos < fin" using 2 by simp
  ultimately have "fin - pos2 < fin - pos" by linarith
  then show ?case by simp
qed simp

declare parse_concat.simps [simp del]

lemma parse_concat_pos:
  "parse_concat cs pos fin pieces = Ok (pieces', pos') \<Longrightarrow> pos \<le> pos'"
proof (induction cs pos fin pieces rule: parse_concat.induct)
  case (1 cs pos fin pieces)
  show ?case
  proof (cases "pos < fin \<and> cs ! pos \<noteq> chr_code CHR ''|''")
    case True
    obtain node pos1 where atom: "parse_atom cs pos = Ok (node, pos1)"
      using "1.prems" True by (auto simp: parse_concat.simps [of cs pos] split: sum.splits)
    obtain q pos2 where q: "parse_quantifier cs pos1 fin = (q, pos2)" by fastforce
    have "parse_concat cs pos2 fin (pieces @ [Piece node q]) = Ok (pieces', pos')"
      using "1.prems" True atom q by (simp add: parse_concat.simps [of cs pos])
    then have "pos2 \<le> pos'" using "1.IH" [OF True atom refl q [symmetric] refl] by simp
    moreover have "pos1 \<le> pos2" using parse_quantifier_pos [of pos1 cs fin] q by simp
    ultimately show ?thesis using parse_atom_pos [OF atom] by simp
  next
    case False
    then show ?thesis using "1.prems" by (subst (asm) parse_concat.simps) (simp split: if_splits)
  qed
qed

function alternatives :: "u32 list \<Rightarrow> usize \<Rightarrow> usize \<Rightarrow> piece list \<Rightarrow> (piece list \<times> usize) result" where
  "alternatives cs pos fin left =
     (if pos < fin \<and> cs ! pos = chr_code CHR ''|'' then
        (case parse_concat cs (pos + 1) fin [] of
           Inl e \<Rightarrow> Err e
         | Inr (right, pos1) \<Rightarrow>
             alternatives cs pos1 fin [Piece (Alternation (map pc_node left) (map pc_node right)) One])
      else Ok (left, pos))"
  by pat_completeness auto
termination
proof (relation "measure (\<lambda>(cs, pos, fin, left). fin - pos)", goal_cases)
  case (2 cs pos fin left x right pos1)
  then have "parse_concat cs (pos + 1) fin [] = Ok (right, pos1)" by simp
  from parse_concat_pos [OF this] show ?case using 2 by auto
qed simp

declare alternatives.simps [simp del]

definition parse_sequence :: "u32 list \<Rightarrow> usize \<Rightarrow> usize \<Rightarrow> (piece list \<times> usize) result" where
  "parse_sequence cs pos fin =
     (case parse_concat cs pos fin [] of
        Inl e \<Rightarrow> Err e
      | Inr (left, pos) \<Rightarrow> alternatives cs pos fin left)"

definition parse_pattern :: "str \<Rightarrow> (piece list \<times> bool \<times> bool) result" where
  "parse_pattern pattern =
     (let cs = chars pattern; n = length cs;
          anchor_start = (0 < n \<and> cs ! 0 = chr_code CHR ''^'');
          pos = (if anchor_start then 1 else 0);
          anchor_end = (cs \<noteq> [] \<and> cs ! (n - 1) = chr_code CHR ''$'' \<and>
            (n < 2 \<or> cs ! (n - 2) \<noteq> chr_code CHR 0x5C));
          fin = (if anchor_end then n - 1 else n)
      in case parse_sequence cs pos fin of
           Inl e \<Rightarrow> Err e
         | Inr (pieces, pos) \<Rightarrow> Ok (pieces, anchor_start, anchor_end))"

definition compile :: "str \<Rightarrow> regex result" where
  "compile pattern =
     (case parse_pattern pattern of
        Inl e \<Rightarrow> Err e
      | Inr (pieces, anchor_start, anchor_end) \<Rightarrow>
          Ok \<lparr>re_pieces = pieces, re_anchor_start = anchor_start, re_anchor_end = anchor_end\<rparr>)"

section \<open>Matching\<close>

definition code_between :: "char \<Rightarrow> char \<Rightarrow> u32 \<Rightarrow> bool" where
  "code_between lo hi ch \<longleftrightarrow> chr_code lo \<le> ch \<and> ch \<le> chr_code hi"

fun item_matches :: "u32 \<Rightarrow> class_item \<Rightarrow> bool" where
  "item_matches ch (Single c) = (ch = c)"
| "item_matches ch (Range lo hi) = (ch \<ge> lo \<and> ch \<le> hi)"

fun node_matches :: "node \<Rightarrow> u32 \<Rightarrow> bool" where
  "node_matches (Literal c) ch = (ch = c)"
| "node_matches AnyChar ch = (ch \<noteq> chr_code newline)"
| "node_matches (Class items negated) ch =
     (let found = list_ex (item_matches ch) items in if negated then \<not> found else found)"
| "node_matches (Shorthand Digit) ch = code_between CHR ''0'' CHR ''9'' ch"
| "node_matches (Shorthand Word) ch =
     (code_between CHR ''a'' CHR ''z'' ch \<or> code_between CHR ''A'' CHR ''Z'' ch \<or>
      code_between CHR ''0'' CHR ''9'' ch \<or> ch = chr_code CHR ''_'')"
| "node_matches (Shorthand Space) ch = (ch = 32 \<or> ch = 9 \<or> ch = 10 \<or> ch = 13)"
| "node_matches (Alternation l r) ch = False"

fun first_some :: "('a \<Rightarrow> 'b option) \<Rightarrow> 'a list \<Rightarrow> 'b option" where
  "first_some f [] = None"
| "first_some f (x # xs) = (case f x of Some y \<Rightarrow> Some y | None \<Rightarrow> first_some f xs)"

lemma first_some_cong [fundef_cong]:
  "xs = ys \<Longrightarrow> (\<And>x. x \<in> set ys \<Longrightarrow> f x = g x) \<Longrightarrow> first_some f xs = first_some g ys"
  by (induction ys arbitrary: xs) (auto split: option.splits)

lemma first_some_Some:
  "first_some f xs = Some y \<Longrightarrow> \<exists>us x vs. xs = us @ x # vs \<and> f x = Some y \<and> (\<forall>u \<in> set us. f u = None)"
proof (induction xs)
  case (Cons a xs)
  show ?case
  proof (cases "f a")
    case None
    then obtain us x vs where "xs = us @ x # vs \<and> f x = Some y \<and> (\<forall>u \<in> set us. f u = None)"
      using Cons by auto
    then show ?thesis using None by (intro exI [of _ "a # us"]) auto
  next
    case (Some b)
    then show ?thesis using Cons.prems by (intro exI [of _ "[]"]) auto
  qed
qed simp

lemma first_some_None: "first_some f xs = None \<longleftrightarrow> (\<forall>x \<in> set xs. f x = None)"
  by (induction xs) (auto split: option.splits)

lemma first_some_append: "first_some f (xs @ ys) = (case first_some f xs of Some y \<Rightarrow> Some y | None \<Rightarrow> first_some f ys)"
  by (induction xs) (auto split: option.splits)

lemma first_some_upt:
  "first_some f [0..<n] = Some y \<Longrightarrow> \<exists>k<n. f k = Some y \<and> (\<forall>u<k. f u = None)"
proof (induction n)
  case (Suc n)
  show ?case
  proof (cases "first_some f [0..<n]")
    case None
    then have "\<forall>u<n. f u = None" by (simp add: first_some_None)
    then show ?thesis using Suc.prems None by (auto simp: first_some_append split: option.splits)
  next
    case (Some z)
    then show ?thesis using Suc by (auto simp: first_some_append intro: less_SucI)
  qed
qed simp

lemma first_some_SomeD: "first_some f xs = Some y \<Longrightarrow> \<exists>x \<in> set xs. f x = Some y"
  by (induction xs) (auto split: option.splits)

text \<open>How many characters from \<open>ti\<close> on the node accepts.\<close>

definition match_count :: "node \<Rightarrow> u32 list \<Rightarrow> usize \<Rightarrow> nat" where
  "match_count n text ti = length (takeWhile (node_matches n) (drop ti text))"

fun node_weight :: "node \<Rightarrow> nat" where
  "node_weight (Alternation l r) = Suc (sum_list (map node_weight l) + sum_list (map node_weight r))"
| "node_weight _ = 1"

abbreviation pieces_weight :: "piece list \<Rightarrow> nat" where
  "pieces_weight ps \<equiv> sum_list (map (node_weight \<circ> pc_node) ps)"

definition arm :: "node list \<Rightarrow> piece list" where
  "arm ns = map (\<lambda>n. Piece n One) ns"

lemma arm_weight [simp]: "pieces_weight (arm ns) = sum_list (map node_weight ns)"
  by (simp add: arm_def comp_def)

lemma node_weight_pos: "0 < node_weight n"
  by (cases n) auto

function backtrack :: "piece list \<Rightarrow> u32 list \<Rightarrow> usize \<Rightarrow> usize option" where
  "backtrack [] tx ti = Some ti"
| "backtrack (Piece n q # ps) tx ti =
     (case n of
        Alternation left right \<Rightarrow>
          first_some (\<lambda>ns. case backtrack (arm ns) tx ti of
              Some after \<Rightarrow> backtrack ps tx after
            | None \<Rightarrow> None) [left, right]
      | _ \<Rightarrow>
          (case q of
             One \<Rightarrow> if ti < length tx \<and> node_matches n (tx ! ti) then backtrack ps tx (ti + 1) else None
           | ZeroOrOne \<Rightarrow>
               (case if ti < length tx \<and> node_matches n (tx ! ti) then backtrack ps tx (ti + 1) else None of
                  Some fin \<Rightarrow> Some fin
                | None \<Rightarrow> backtrack ps tx ti)
           | ZeroOrMore \<Rightarrow> first_some (\<lambda>c. backtrack ps tx (ti + c)) (rev [0..<match_count n tx ti + 1])
           | OneOrMore \<Rightarrow> first_some (\<lambda>c. backtrack ps tx (ti + c)) (rev [1..<match_count n tx ti + 1])))"
  by pat_completeness auto
termination
  by (relation "measure (\<lambda>(ps, tx, ti). pieces_weight ps)") (auto simp: node_weight_pos)

declare backtrack.simps(2) [simp del]

definition try_match_at :: "regex \<Rightarrow> u32 list \<Rightarrow> usize \<Rightarrow> usize option" where
  "try_match_at re tx start =
     (case backtrack (re_pieces re) tx start of
        None \<Rightarrow> None
      | Some res \<Rightarrow> if re_anchor_end re \<and> res \<noteq> length tx then None else Some res)"

text \<open>The byte offset of the character at an index, or the length of the text.\<close>

definition byte_off :: "str \<Rightarrow> usize \<Rightarrow> usize" where
  "byte_off tx ci =
     (let offs = map fst (char_indices tx)
      in if ci < length (chars tx) then offs ! ci else length tx)"

definition find_re :: "regex \<Rightarrow> str \<Rightarrow> (usize \<times> usize) option" where
  "find_re re tx =
     (let cs = chars tx
      in if re_anchor_start re
         then map_option (\<lambda>end_ci. (0, byte_off tx end_ci)) (try_match_at re cs 0)
         else first_some (\<lambda>sci. map_option (\<lambda>eci. (byte_off tx sci, byte_off tx eci)) (try_match_at re cs sci))
                [0..<length cs + 1])"

definition is_match_re :: "regex \<Rightarrow> str \<Rightarrow> bool" where
  "is_match_re re tx \<longleftrightarrow> find_re re tx \<noteq> None"

function find_all_from :: "regex \<Rightarrow> str \<Rightarrow> u32 list \<Rightarrow> usize \<Rightarrow> (usize \<times> usize) list" where
  "find_all_from re tx cs ci =
     (if ci \<le> length cs then
        if re_anchor_start re \<and> ci \<noteq> 0 then []
        else
          (case try_match_at re cs ci of
             Some eci \<Rightarrow> (byte_off tx ci, byte_off tx eci) # find_all_from re tx cs (if eci > ci then eci else ci + 1)
           | None \<Rightarrow> find_all_from re tx cs (ci + 1))
      else [])"
  by pat_completeness auto
termination by (relation "measure (\<lambda>(re, tx, cs, ci). Suc (length cs) - ci)") auto

declare find_all_from.simps [simp del]

definition find_all :: "regex \<Rightarrow> str \<Rightarrow> (usize \<times> usize) list" where
  "find_all re tx = find_all_from re tx (chars tx) 0"

section \<open>What a pattern means\<close>

text \<open>The words of a node and of a sequence of pieces, as in the theory of regular languages.\<close>

definition conc :: "u32 list set \<Rightarrow> u32 list set \<Rightarrow> u32 list set" where
  "conc A B = {u @ v | u v. u \<in> A \<and> v \<in> B}"

fun concs :: "u32 list set list \<Rightarrow> u32 list set" where
  "concs [] = {[]}"
| "concs (A # As) = conc A (concs As)"

inductive_set star :: "u32 list set \<Rightarrow> u32 list set" for A where
  star_Nil: "[] \<in> star A"
| star_step: "u \<in> A \<Longrightarrow> v \<in> star A \<Longrightarrow> u @ v \<in> star A"

fun node_words :: "node \<Rightarrow> u32 list set" where
  "node_words (Alternation l r) = concs (map node_words l) \<union> concs (map node_words r)"
| "node_words n = {[c] | c. node_matches n c}"

fun piece_words :: "piece \<Rightarrow> u32 list set" where
  "piece_words (Piece n One) = node_words n"
| "piece_words (Piece n ZeroOrMore) = star (node_words n)"
| "piece_words (Piece n OneOrMore) = conc (node_words n) (star (node_words n))"
| "piece_words (Piece n ZeroOrOne) = insert [] (node_words n)"

definition words :: "piece list \<Rightarrow> u32 list set" where
  "words ps = concs (map piece_words ps)"

definition substring :: "u32 list \<Rightarrow> nat \<Rightarrow> nat \<Rightarrow> u32 list" where
  "substring xs i j = take (j - i) (drop i xs)"

fun is_alternation :: "node \<Rightarrow> bool" where
  "is_alternation (Alternation l r) = True"
| "is_alternation _ = False"

text \<open>Patterns that the parser produces: characters with quantifiers, or one alternation whose
  arms are characters or again an alternation.\<close>

fun alt_ok :: "node list \<Rightarrow> bool" where
  "alt_ok [Alternation l r] = (alt_ok l \<and> alt_ok r)"
| "alt_ok ns = (\<not> list_ex is_alternation ns)"

definition parsed :: "piece list \<Rightarrow> bool" where
  "parsed ps \<longleftrightarrow> alt_ok (map pc_node ps) \<and> (\<forall>p \<in> set ps. is_alternation (pc_node p) \<longrightarrow> pc_quantifier p = One)"

subsection \<open>Parsed patterns\<close>

lemma alt_ok_simple: "\<not> list_ex is_alternation ns \<Longrightarrow> alt_ok ns"
  by (induction ns rule: alt_ok.induct) auto

lemma parse_atom_simple: "parse_atom cs pos = Ok (node, pos') \<Longrightarrow> \<not> is_alternation node"
  by (auto simp: parse_atom_def parse_escape_def Let_def split: if_splits sum.splits prod.splits)

lemma parse_concat_simple:
  "\<lbrakk>parse_concat cs pos fin pieces = Ok (pieces', pos'); \<not> list_ex is_alternation (map pc_node pieces)\<rbrakk> \<Longrightarrow>
    \<not> list_ex is_alternation (map pc_node pieces')"
proof (induction cs pos fin pieces rule: parse_concat.induct)
  case (1 cs pos fin pieces)
  show ?case
  proof (cases "pos < fin \<and> cs ! pos \<noteq> chr_code CHR ''|''")
    case True
    obtain node pos1 where atom: "parse_atom cs pos = Ok (node, pos1)"
      using "1.prems" True by (auto simp: parse_concat.simps [of cs pos] split: sum.splits)
    obtain q pos2 where q: "parse_quantifier cs pos1 fin = (q, pos2)" by fastforce
    show ?thesis
      using "1.IH" [OF True atom refl q [symmetric] refl] "1.prems" True atom q parse_atom_simple [OF atom]
      by (simp add: parse_concat.simps [of cs pos])
  next
    case False
    then show ?thesis using "1.prems" by (subst (asm) parse_concat.simps) (simp split: if_splits)
  qed
qed

lemma simple_parsed: "\<not> list_ex is_alternation (map pc_node ps) \<Longrightarrow> parsed ps"
  by (auto simp: parsed_def alt_ok_simple list_ex_iff)

lemma alternatives_parsed:
  "\<lbrakk>alternatives cs pos fin left = Ok (ps, pos'); parsed left\<rbrakk> \<Longrightarrow> parsed ps"
proof (induction cs pos fin left rule: alternatives.induct)
  case (1 cs pos fin left)
  show ?case
  proof (cases "pos < fin \<and> cs ! pos = chr_code CHR ''|''")
    case True
    obtain right pos1 where r: "parse_concat cs (pos + 1) fin [] = Ok (right, pos1)"
      using "1.prems" True by (auto simp: alternatives.simps [of cs pos] split: sum.splits)
    have "alt_ok (map pc_node right)" using parse_concat_simple [OF r] by (simp add: alt_ok_simple)
    then show ?thesis
      using "1.IH" [OF True r refl] "1.prems" True r by (simp add: alternatives.simps [of cs pos] parsed_def)
  next
    case False
    then show ?thesis using "1.prems" by (subst (asm) alternatives.simps) (simp split: if_splits)
  qed
qed

lemma compile_parsed:
  assumes "compile pattern = Ok re"
  shows "parsed (re_pieces re)"
proof -
  obtain cs pos fin ps pos' where "parse_sequence cs pos fin = Ok (ps, pos')" and re: "re_pieces re = ps"
    using assms by (auto simp: compile_def parse_pattern_def Let_def split: sum.splits)
  then obtain left pos1 where "parse_concat cs pos fin [] = Ok (left, pos1)" "alternatives cs pos1 fin left = Ok (ps, pos')"
    by (auto simp: parse_sequence_def split: sum.splits)
  then show ?thesis using parse_concat_simple alternatives_parsed simple_parsed re by fastforce
qed

subsection \<open>Characters with a quantifier\<close>

fun quantity_ok :: "quantifier \<Rightarrow> nat \<Rightarrow> bool" where
  "quantity_ok One c = (c = 1)"
| "quantity_ok ZeroOrMore c = True"
| "quantity_ok OneOrMore c = (1 \<le> c)"
| "quantity_ok ZeroOrOne c = (c \<le> 1)"

definition quantities :: "node \<Rightarrow> quantifier \<Rightarrow> u32 list \<Rightarrow> nat \<Rightarrow> nat list" where
  "quantities n q tx ti =
     (let m = match_count n tx ti
      in case q of
           One \<Rightarrow> if 0 < m then [1] else []
         | ZeroOrOne \<Rightarrow> if 0 < m then [1, 0] else [0]
         | ZeroOrMore \<Rightarrow> rev [0..<m + 1]
         | OneOrMore \<Rightarrow> rev [1..<m + 1])"

lemma simple_words: "\<not> is_alternation n \<Longrightarrow> node_words n = {[c] | c. node_matches n c}"
  by (cases n) auto

lemma star_letters: "star {[c] | c. P c} = {w. list_all P w}"
proof (intro equalityI subsetI)
  fix w assume "w \<in> star {[c] | c. P c}"
  then show "w \<in> {w. list_all P w}" by induction auto
next
  fix w assume "w \<in> {w. list_all P w}"
  then have "list_all P w" by simp
  then show "w \<in> star {[c] | c. P c}"
  proof (induction w)
    case (Cons a w)
    then have "[a] @ w \<in> star {[c] | c. P c}" by (intro star_step) auto
    then show ?case by simp
  qed (simp add: star_Nil)
qed

lemma simple_piece_words:
  assumes "\<not> is_alternation n"
  shows "piece_words (Piece n q) = {w. quantity_ok q (length w) \<and> list_all (node_matches n) w}"
proof (cases q)
  case OneOrMore
  have "w \<in> conc {[c] | c. node_matches n c} {w. list_all (node_matches n) w} \<longleftrightarrow>
      quantity_ok OneOrMore (length w) \<and> list_all (node_matches n) w" for w
    by (cases w) (auto simp: conc_def intro: exI [of _ "[hd w]"] exI [of _ "tl w"])
  then show ?thesis using OneOrMore by (auto simp: simple_words [OF assms] star_letters)
qed (auto simp: simple_words [OF assms] star_letters length_Suc_conv le_Suc_eq)

lemma match_count_pos: "0 < match_count n tx ti \<longleftrightarrow> ti < length tx \<and> node_matches n (tx ! ti)"
proof (cases "ti < length tx")
  case True
  then have "drop ti tx = tx ! ti # drop (Suc ti) tx" by (rule Cons_nth_drop_Suc [symmetric])
  then show ?thesis using True by (simp add: match_count_def)
qed (simp add: match_count_def)

lemma match_count_iff:
  assumes "ti + c \<le> length tx"
  shows "c \<le> match_count n tx ti \<longleftrightarrow> list_all (node_matches n) (substring tx ti (ti + c))"
proof
  assume "c \<le> match_count n tx ti"
  then have "take c (drop ti tx) = take c (takeWhile (node_matches n) (drop ti tx))"
    by (metis match_count_def takeWhile_eq_take take_take min.absorb1)
  then show "list_all (node_matches n) (substring tx ti (ti + c))"
    by (auto simp: substring_def list_all_iff dest: in_set_takeD set_takeWhileD)
next
  assume all: "list_all (node_matches n) (substring tx ti (ti + c))"
  have "takeWhile (node_matches n) (drop ti tx) =
      take c (drop ti tx) @ takeWhile (node_matches n) (drop c (drop ti tx))"
    using takeWhile_append2 [of "take c (drop ti tx)" "node_matches n" "drop c (drop ti tx)"] all
    unfolding append_take_drop_id by (auto simp: substring_def list_all_iff)
  then show "c \<le> match_count n tx ti" using assms unfolding match_count_def by simp
qed

lemma match_count_le: "ti \<le> length tx \<Longrightarrow> ti + match_count n tx ti \<le> length tx"
  using length_takeWhile_le [of "node_matches n" "drop ti tx"] by (simp add: match_count_def)

lemma set_quantities:
  "c \<in> set (quantities n q tx ti) \<longleftrightarrow> c \<le> match_count n tx ti \<and> quantity_ok q c"
  by (cases q) (auto simp: quantities_def Let_def)

lemma backtrack_simple:
  "\<not> is_alternation n \<Longrightarrow>
    backtrack (Piece n q # ps) tx ti = first_some (\<lambda>c. backtrack ps tx (ti + c)) (quantities n q tx ti)"
  by (cases n; cases q)
    (simp_all add: backtrack.simps(2) quantities_def match_count_pos del: upt_Suc split: option.splits)

lemma backtrack_alternation:
  "backtrack (Piece (Alternation l r) q # ps) tx ti =
    first_some (\<lambda>ns. Option.bind (backtrack (arm ns) tx ti) (backtrack ps tx)) [l, r]"
  by (auto simp: backtrack.simps(2) split: option.splits)

subsection \<open>Soundness and completeness of backtracking\<close>

lemma substring_append:
  "\<lbrakk>i \<le> j; j \<le> k; k \<le> length xs\<rbrakk> \<Longrightarrow> substring xs i k = substring xs i j @ substring xs j k"
  using take_add [of "j - i" "k - j" "drop i xs"] by (simp add: substring_def)

lemma length_substring [simp]: "\<lbrakk>i \<le> j; j \<le> length xs\<rbrakk> \<Longrightarrow> length (substring xs i j) = j - i"
  by (simp add: substring_def)

lemma substring_split:
  assumes "substring xs i k = u @ v" and "i \<le> k" and "k \<le> length xs"
  shows "u = substring xs i (i + length u) \<and> v = substring xs (i + length u) k \<and> i + length u \<le> k"
proof -
  have len: "length u + length v = k - i" using arg_cong [OF assms(1), of length] assms(2,3) by simp
  then have "i + length u \<le> k" using assms(2) by linarith
  moreover have "substring xs i k = substring xs i (i + length u) @ substring xs (i + length u) k"
    using substring_append [of i "i + length u" k xs] assms calculation by simp
  ultimately show ?thesis using assms by simp
qed

lemma words_Nil [simp]: "words [] = {[]}" and words_Cons: "words (p # ps) = conc (piece_words p) (words ps)"
  by (simp_all add: words_def)

lemma words_arm: "words (arm ns) = concs (map node_words ns)"
  by (simp add: words_def arm_def comp_def)

lemma node_words_piece: "node_words n \<subseteq> piece_words (Piece n q)"
proof (cases q)
  case OneOrMore
  then show ?thesis by (auto simp: conc_def intro: exI [of _ "[]"] star_Nil)
next
  case ZeroOrMore
  have "w \<in> star (node_words n)" if "w \<in> node_words n" for w
    using star_step [OF that star_Nil] by simp
  then show ?thesis using ZeroOrMore by auto
qed auto

lemma backtrack_sound:
  "\<lbrakk>backtrack ps tx ti = Some j; ti \<le> length tx\<rbrakk> \<Longrightarrow>
    ti \<le> j \<and> j \<le> length tx \<and> substring tx ti j \<in> words ps"
proof (induction "pieces_weight ps" arbitrary: ps ti j rule: less_induct)
  case less
  show ?case
  proof (cases ps)
    case Nil
    then show ?thesis using less.prems by (simp add: substring_def)
  next
    case (Cons p qs)
    obtain n q where p: "p = Piece n q" by (cases p)
    have w: "pieces_weight qs < pieces_weight ps" using Cons node_weight_pos [of "pc_node p"] by simp
    show ?thesis
    proof (cases "is_alternation n")
      case True
      then obtain l r where n: "n = Alternation l r" by (cases n) auto
      obtain ns mid where ns: "ns = l \<or> ns = r" and mid: "backtrack (arm ns) tx ti = Some mid"
        and rest: "backtrack qs tx mid = Some j"
        using less.prems(1) by (auto simp: Cons p n backtrack_alternation bind_eq_Some_conv split: option.splits)
      have "pieces_weight (arm ns) < pieces_weight ps" using ns by (auto simp: Cons p n)
      from less.hyps [OF this mid less.prems(2)] have 1: "ti \<le> mid" "mid \<le> length tx" "substring tx ti mid \<in> words (arm ns)" by auto
      from less.hyps [OF w rest 1(2)] have 2: "mid \<le> j" "j \<le> length tx" "substring tx mid j \<in> words qs" by auto
      have "substring tx ti mid \<in> piece_words p"
        using 1(3) ns node_words_piece [of n q] by (auto simp: n p words_arm)
      then show ?thesis using 1 2 substring_append [of ti mid j tx] by (auto simp: Cons words_Cons conc_def)
    next
      case False
      obtain c where c: "c \<in> set (quantities n q tx ti)" and rest: "backtrack qs tx (ti + c) = Some j"
        using less.prems(1) first_some_SomeD [of "\<lambda>c. backtrack qs tx (ti + c)" "quantities n q tx ti" j]
        by (auto simp: Cons p backtrack_simple [OF False])
      have le: "ti + c \<le> length tx"
        using c match_count_le [OF less.prems(2), of n] by (auto simp: set_quantities)
      from less.hyps [OF w rest le] have 2: "ti + c \<le> j" "j \<le> length tx" "substring tx (ti + c) j \<in> words qs" by auto
      have "substring tx ti (ti + c) \<in> piece_words p"
        using c match_count_iff [OF le] le by (simp add: p simple_piece_words [OF False] set_quantities)
      then show ?thesis using 2 substring_append [of ti "ti + c" j tx] by (auto simp: Cons words_Cons conc_def)
    qed
  qed
qed

lemma alt_ok_Cons:
  "alt_ok (n # ns) \<longleftrightarrow>
    (case n of Alternation l r \<Rightarrow> ns = [] \<and> alt_ok l \<and> alt_ok r | _ \<Rightarrow> \<not> list_ex is_alternation ns)"
  by (cases ns; cases n) auto

lemma parsed_arm: "alt_ok ns \<Longrightarrow> parsed (arm ns)"
  by (auto simp: parsed_def arm_def comp_def)

lemma parsed_simple_tl:
  "\<lbrakk>parsed (Piece n q # ps); \<not> is_alternation n\<rbrakk> \<Longrightarrow> parsed ps"
  by (intro simple_parsed) (cases n; auto simp: parsed_def alt_ok_Cons)

lemma backtrack_complete:
  "\<lbrakk>parsed ps; substring tx ti j \<in> words ps; ti \<le> j; j \<le> length tx\<rbrakk> \<Longrightarrow> backtrack ps tx ti \<noteq> None"
proof (induction "pieces_weight ps" arbitrary: ps ti rule: less_induct)
  case less
  show ?case
  proof (cases ps)
    case Nil
    then show ?thesis by simp
  next
    case (Cons p qs)
    obtain n q where p: "p = Piece n q" by (cases p)
    have w: "pieces_weight qs < pieces_weight ps" using Cons node_weight_pos [of "pc_node p"] by simp
    show ?thesis
    proof (cases "is_alternation n")
      case True
      then obtain l r where n: "n = Alternation l r" by (cases n) auto
      have ok: "qs = []" "alt_ok l" "alt_ok r" "q = One"
        using less.prems(1) by (auto simp: Cons p n parsed_def alt_ok_Cons)
      obtain ns where ns: "ns = l \<or> ns = r" and sub: "substring tx ti j \<in> words (arm ns)"
        using less.prems(2) by (auto simp: Cons p n ok words_Cons conc_def words_arm)
      have "pieces_weight (arm ns) < pieces_weight ps" using ns by (auto simp: Cons p n)
      from less.hyps [OF this _ sub less.prems(3,4)] have "backtrack (arm ns) tx ti \<noteq> None"
        using ns ok(2,3) by (auto intro: parsed_arm)
      then show ?thesis using ns by (auto simp: Cons p n backtrack_alternation ok split: option.splits)
    next
      case False
      obtain u v where uv: "substring tx ti j = u @ v" "u \<in> piece_words p" "v \<in> words qs"
        using less.prems(2) by (auto simp: Cons words_Cons conc_def)
      note sp = substring_split [OF uv(1) less.prems(3,4)]
      have "parsed qs" using less.prems(1) parsed_simple_tl False by (auto simp: Cons p)
      then have "backtrack qs tx (ti + length u) \<noteq> None"
        using less.hyps [OF w, of "ti + length u"] uv(3) sp less.prems(4) by simp
      moreover have "length u \<in> set (quantities n q tx ti)"
        using uv(2) sp less.prems(4) match_count_iff [of ti "length u" tx n]
        by (simp add: set_quantities p simple_piece_words [OF False])
      ultimately show ?thesis by (auto simp: Cons p backtrack_simple [OF False] first_some_None)
    qed
  qed
qed

subsection \<open>Offsets\<close>

lemma utf8_next_le: "snd (utf8_next b rest) \<le> length (b # rest)"
  by (simp add: utf8_next_def split: list.split)

lemma char_indices_sorted:
  "sorted_wrt (<) (map fst (char_indices_from off bs)) \<and> (\<forall>i \<in> set (map fst (char_indices_from off bs)). off \<le> i \<and> i < off + length bs)"
proof (induction off bs rule: char_indices_from.induct)
  case (2 off b rest)
  define n where "n = snd (utf8_next b rest)"
  have n: "0 < n" "n \<le> length (b # rest)" using utf8_next_pos [of b rest] utf8_next_le [of b rest] by (simp_all add: n_def)
  have IH: "sorted_wrt (<) (map fst (char_indices_from (off + n) (drop n (b # rest)))) \<and>
      (\<forall>i \<in> set (map fst (char_indices_from (off + n) (drop n (b # rest)))). off + n \<le> i \<and> i < off + n + length (drop n (b # rest)))"
    using "2" [OF n_def] by blast
  have eq: "map fst (char_indices_from off (b # rest)) = off # map fst (char_indices_from (off + n) (drop n (b # rest)))"
    by (simp add: n_def Let_def)
  show ?case
    unfolding eq using IH n by fastforce
qed simp

lemma byte_off_less:
  assumes "i < j" and "j \<le> length (chars tx)"
  shows "byte_off tx i < byte_off tx j"
proof (cases "j < length (chars tx)")
  case True
  then show ?thesis
    using assms char_indices_sorted [of 0 "as_bytes tx"] sorted_wrt_nth_less [of "(<)" "map fst (char_indices tx)" i j]
    by (simp add: byte_off_def chars_def char_indices_def)
next
  case False
  have "map fst (char_indices tx) ! i \<in> set (map fst (char_indices tx))"
    using assms by (intro nth_mem) (simp add: chars_def)
  then show ?thesis
    using assms False char_indices_sorted [of 0 "as_bytes tx"]
    by (simp add: byte_off_def chars_def char_indices_def as_bytes_def)
qed

lemma byte_off_le: "\<lbrakk>i \<le> j; j \<le> length (chars tx)\<rbrakk> \<Longrightarrow> byte_off tx i \<le> byte_off tx j"
  using byte_off_less [of i j tx] by (cases "i = j") auto

lemma byte_off_0 [simp]: "byte_off tx 0 = 0"
  by (cases tx) (auto simp: byte_off_def chars_def char_indices_def as_bytes_def Let_def)

subsection \<open>Searching\<close>

text \<open>A match of a compiled pattern: a piece of the text that is a word of the pattern and
  respects the anchors.\<close>

definition matches_at :: "regex \<Rightarrow> str \<Rightarrow> nat \<Rightarrow> nat \<Rightarrow> bool" where
  "matches_at re tx i j \<longleftrightarrow>
     i \<le> j \<and> j \<le> length (chars tx) \<and> substring (chars tx) i j \<in> words (re_pieces re) \<and>
     (re_anchor_start re \<longrightarrow> i = 0) \<and> (re_anchor_end re \<longrightarrow> j = length (chars tx))"

definition match_span :: "regex \<Rightarrow> str \<Rightarrow> nat \<times> nat \<Rightarrow> bool" where
  "match_span re tx m \<longleftrightarrow> (\<exists>i j. matches_at re tx i j \<and> m = (byte_off tx i, byte_off tx j))"

lemma try_match_sound:
  assumes "try_match_at re (chars tx) i = Some j" and "i \<le> length (chars tx)" and "re_anchor_start re \<longrightarrow> i = 0"
  shows "matches_at re tx i j"
  using assms backtrack_sound [of "re_pieces re" "chars tx" i j]
  by (auto simp: matches_at_def try_match_at_def split: option.splits if_splits)

lemma try_match_complete:
  assumes "parsed (re_pieces re)" and "\<not> re_anchor_end re" and "matches_at re tx i j"
  shows "try_match_at re (chars tx) i \<noteq> None"
  using assms backtrack_complete [of "re_pieces re" "chars tx" i j]
  by (auto simp: matches_at_def try_match_at_def split: option.splits)

lemma find_all_from_spans:
  "ci \<le> Suc (length (chars tx)) \<Longrightarrow>
    (\<forall>m \<in> set (find_all_from re tx (chars tx) ci). match_span re tx m \<and> (ci \<le> length (chars tx) \<and> byte_off tx ci \<le> fst m)) \<and>
    sorted_wrt (\<lambda>a b. fst a < fst b \<and> snd a \<le> fst b) (find_all_from re tx (chars tx) ci)"
proof (induction re tx "chars tx" ci rule: find_all_from.induct)
  case (1 re tx ci)
  show ?case
  proof (cases "ci \<le> length (chars tx) \<and> \<not> (re_anchor_start re \<and> ci \<noteq> 0)")
    case True
    show ?thesis
    proof (cases "try_match_at re (chars tx) ci")
      case None
      have "find_all_from re tx (chars tx) ci = find_all_from re tx (chars tx) (ci + 1)"
        using True None by (subst find_all_from.simps) auto
      moreover have "(\<forall>m \<in> set (find_all_from re tx (chars tx) (ci + 1)). match_span re tx m \<and> (ci + 1 \<le> length (chars tx) \<and> byte_off tx (ci + 1) \<le> fst m)) \<and>
          sorted_wrt (\<lambda>a b. fst a < fst b \<and> snd a \<le> fst b) (find_all_from re tx (chars tx) (ci + 1))"
        by (rule "1.hyps"(1)) (use True None in auto)
      moreover have "byte_off tx ci \<le> byte_off tx (ci + 1)" if "ci + 1 \<le> length (chars tx)"
        using byte_off_le [of ci "ci + 1" tx] that by simp
      ultimately show ?thesis using True by (metis le_trans)
    next
      case (Some j)
      then have m: "matches_at re tx ci j" using try_match_sound [of re tx ci j] True by blast
      define nx where "nx = (if j > ci then j else ci + 1)"
      have nx: "ci < nx" "j \<le> nx" "nx \<le> Suc (length (chars tx))"
        using m by (auto simp: nx_def matches_at_def)
      have eq: "find_all_from re tx (chars tx) ci = (byte_off tx ci, byte_off tx j) # find_all_from re tx (chars tx) nx"
        using True Some by (subst find_all_from.simps) (auto simp: nx_def)
      have IH: "(\<forall>m \<in> set (find_all_from re tx (chars tx) nx). match_span re tx m \<and> (nx \<le> length (chars tx) \<and> byte_off tx nx \<le> fst m)) \<and>
          sorted_wrt (\<lambda>a b. fst a < fst b \<and> snd a \<le> fst b) (find_all_from re tx (chars tx) nx)"
        unfolding nx_def by (rule "1.hyps"(2)) (use True Some nx in \<open>auto simp: nx_def\<close>)
      have "byte_off tx ci < byte_off tx nx \<and> byte_off tx j \<le> byte_off tx nx" if "nx \<le> length (chars tx)"
        using byte_off_less [of ci nx tx] byte_off_le [of j nx tx] nx that by simp
      then have "byte_off tx ci < fst m \<and> byte_off tx j \<le> fst m" if "m \<in> set (find_all_from re tx (chars tx) nx)" for m
        using IH that by (meson le_trans less_le_trans)
      moreover have "match_span re tx (byte_off tx ci, byte_off tx j)" using m by (auto simp: match_span_def)
      ultimately show ?thesis unfolding eq using IH True by (simp add: less_imp_le)
    qed
  next
    case False
    then show ?thesis by (subst (1 2) find_all_from.simps) auto
  qed
qed

lemma find_all_from_hd:
  "\<not> re_anchor_start re \<Longrightarrow>
    (case find_all_from re tx cs ci of [] \<Rightarrow> None | m # _ \<Rightarrow> Some m) =
    first_some (\<lambda>sci. map_option (\<lambda>eci. (byte_off tx sci, byte_off tx eci)) (try_match_at re cs sci)) [ci..<length cs + 1]"
proof (induction re tx cs ci rule: find_all_from.induct)
  case (1 re tx cs ci)
  show ?case
  proof (cases "ci \<le> length cs")
    case True
    have "[ci..<length cs + 1] = ci # [Suc ci..<length cs + 1]" using True by (simp add: upt_conv_Cons)
    then show ?thesis using 1 True
      by (subst find_all_from.simps) (auto simp del: upt_Suc split: option.splits)
  next
    case False
    then show ?thesis by (subst find_all_from.simps) simp
  qed
qed

lemma find_is_hd: "find_re re tx = (case find_all re tx of [] \<Rightarrow> None | m # _ \<Rightarrow> Some m)"
proof (cases "re_anchor_start re")
  case True
  then have "find_all_from re tx (chars tx) (Suc n) = []" for n
    by (subst find_all_from.simps) simp
  then have "find_all re tx = (case try_match_at re (chars tx) 0 of None \<Rightarrow> [] | Some j \<Rightarrow> [(0, byte_off tx j)])"
    using True unfolding find_all_def
    by (subst find_all_from.simps) (auto simp: gr0_conv_Suc split: option.splits)
  then show ?thesis using True by (simp add: find_re_def split: option.splits)
next
  case False
  then show ?thesis using find_all_from_hd [OF False, of tx "chars tx" 0] by (simp add: find_re_def find_all_def Let_def)
qed

section \<open>The engine is correct\<close>


definition sample_re :: regex where
  "sample_re = \<lparr>re_pieces = [Piece (Literal 97) OneOrMore, Piece (Shorthand Digit) One], re_anchor_start = False, re_anchor_end = False\<rparr>"


text \<open>What the engine does not do: quantifiers inside an alternation are dropped, an end anchor
  is only checked against the first way to match, and a dollar after an escaped backslash is a
  character.\<close>

lemma alternation_drops_quantifier:
  "map_option (\<lambda>re. is_match_re re ''aab'') (case compile ''^a+b|c'' of Inr re \<Rightarrow> Some re | Inl _ \<Rightarrow> None) = Some False"
  by code_simp

lemma end_anchor_incomplete:
  "map_option (\<lambda>re. is_match_re re ''ab'') (case compile ''^a|ab$'' of Inr re \<Rightarrow> Some re | Inl _ \<Rightarrow> None) = Some False"
  by code_simp

lemma escaped_backslash_dollar:
  "map_option (\<lambda>re. is_match_re re [CHR 0x5C]) (case compile [CHR 0x5C, CHR 0x5C, CHR ''$''] of Inr re \<Rightarrow> Some re | Inl _ \<Rightarrow> None) = Some False"
  by code_simp

end
