(* ===== verification/Json.thy ===== *)
theory Json
  imports Rust_Str Rust_Parse
begin

text \<open>
  The JSON parser and serialiser (\<^verbatim>\<open>src/json.rs\<close>). A position in the input is represented by the
  bytes from it on. An \<^verbatim>\<open>i64\<close> is an integer, with the range written out where the code checks it;
  an unchecked overflow is the error \<open>JPanic\<close>.
\<close>

section \<open>Values\<close>

datatype json =
    JNull
  | JBool bool
  | JNumber int
  | JFloat int
  | JString str
  | JArray "json list"
  | JObject "(str \<times> json) list"

definition FLOAT_SCALE :: int where "FLOAT_SCALE = 1000000"

definition I64_MAX :: int where "I64_MAX = 9223372036854775807"
definition I64_MIN :: int where "I64_MIN = -9223372036854775808"

datatype json_error = JErr str | JPanic

type_synonym 'a jresult = "json_error + 'a"

abbreviation JFail :: "str \<Rightarrow> 'a jresult" where "JFail e \<equiv> Inl (JErr e)"

definition jget :: "json \<Rightarrow> str \<Rightarrow> json option" where
  "jget obj key =
     (case obj of JObject pairs \<Rightarrow> map_option snd (find (\<lambda>(k, v). k = key) pairs) | _ \<Rightarrow> None)"

definition get_str :: "json \<Rightarrow> str \<Rightarrow> str option" where
  "get_str obj key = (case jget obj key of Some (JString s) \<Rightarrow> Some s | _ \<Rightarrow> None)"

definition get_i64 :: "json \<Rightarrow> str \<Rightarrow> int option" where
  "get_i64 obj key = (case jget obj key of Some (JNumber n) \<Rightarrow> Some n | _ \<Rightarrow> None)"

definition get_bool :: "json \<Rightarrow> str \<Rightarrow> bool option" where
  "get_bool obj key = (case jget obj key of Some (JBool b) \<Rightarrow> Some b | _ \<Rightarrow> None)"

section \<open>The parser\<close>

definition quote :: char where "quote = CHR 0x22"
definition backslash :: char where "backslash = CHR 0x5C"

definition is_ws :: "char \<Rightarrow> bool" where
  "is_ws c \<longleftrightarrow> c \<in> {CHR '' '', CHR 0x09, CHR 0x0A, CHR 0x0D}"

definition skip_ws :: "str \<Rightarrow> str" where
  "skip_ws b = dropWhile is_ws b"

definition expect :: "str \<Rightarrow> char \<Rightarrow> str jresult" where
  "expect b ch = (case b of c # r \<Rightarrow> if c = ch then Inr r else JFail ''unexpected character'' | [] \<Rightarrow> JFail ''unexpected character'')"

subsection \<open>Strings\<close>

text \<open>The bytes of a character below 65536 in UTF-8 (\<^verbatim>\<open>String::push\<close>).\<close>

definition char_utf8 :: "nat \<Rightarrow> str" where
  "char_utf8 n =
     (if n < 0x80 then [char_of n]
      else if n < 0x800 then [char_of (0xC0 + n div 64), char_of (0x80 + n mod 64)]
      else [char_of (0xE0 + n div 4096), char_of (0x80 + n div 64 mod 64), char_of (0x80 + n mod 64)])"

definition hex_value :: "char \<Rightarrow> nat option" where
  "hex_value c =
     (let n = of_char c :: nat
      in if 48 \<le> n \<and> n \<le> 57 then Some (n - 48)
         else if 97 \<le> n \<and> n \<le> 102 then Some (n - 87)
         else if 65 \<le> n \<and> n \<le> 70 then Some (n - 55)
         else None)"

fun hex_digits :: "nat \<Rightarrow> str \<Rightarrow> nat option" where
  "hex_digits acc [] = Some acc"
| "hex_digits acc (c # s) = (case hex_value c of None \<Rightarrow> None | Some d \<Rightarrow> hex_digits (acc * 16 + d) s)"

text \<open>\<^verbatim>\<open>u16::from_str_radix(hex, 16)\<close> on four bytes: an optional plus sign, then digits.\<close>

definition u16_from_hex :: "str \<Rightarrow> nat option" where
  "u16_from_hex s = (case s of c # r \<Rightarrow> if c = CHR ''+'' then (if r = [] then None else hex_digits 0 r) else hex_digits 0 s | [] \<Rightarrow> None)"

definition is_surrogate :: "nat \<Rightarrow> bool" where
  "is_surrogate n \<longleftrightarrow> 0xD800 \<le> n \<and> n \<le> 0xDFFF"

definition simple_escape :: "char \<Rightarrow> char option" where
  "simple_escape e =
     (if e = quote then Some quote
      else if e = backslash then Some backslash
      else if e = CHR ''/'' then Some CHR ''/''
      else if e = CHR ''b'' then Some (CHR 0x08)
      else if e = CHR ''f'' then Some (CHR 0x0C)
      else if e = CHR ''n'' then Some (CHR 0x0A)
      else if e = CHR ''r'' then Some (CHR 0x0D)
      else if e = CHR ''t'' then Some (CHR 0x09)
      else None)"

function string_loop :: "str \<Rightarrow> str \<Rightarrow> (str \<times> str) jresult" where
  "string_loop [] s = JFail ''unterminated string''"
| "string_loop (c # b) s =
     (if c = quote then Inr (s, b)
      else if c = backslash then
        (case b of
           [] \<Rightarrow> JFail ''unexpected end of escape''
         | e # b1 \<Rightarrow>
             (case simple_escape e of
                Some x \<Rightarrow> string_loop b1 (s @ [x])
              | None \<Rightarrow>
                  if e = CHR ''u'' then
                    if length b1 < 4 then JFail ''incomplete unicode escape''
                    else if \<not> utf8_valid (as_bytes (take 4 b1)) then JFail ''invalid unicode escape''
                    else (case u16_from_hex (take 4 b1) of
                            None \<Rightarrow> JFail ''invalid unicode hex''
                          | Some cp \<Rightarrow>
                              if is_surrogate cp then JFail ''invalid code point''
                              else string_loop (drop 4 b1) (s @ char_utf8 cp))
                  else JFail ''invalid escape character''))
      else string_loop b (s @ char_utf8 (of_char c)))"
  by pat_completeness auto
termination by (relation "measure (\<lambda>(b, s). length b)") auto

definition parse_string_raw :: "str \<Rightarrow> (str \<times> str) jresult" where
  "parse_string_raw b = (case expect b quote of Inl e \<Rightarrow> Inl e | Inr r \<Rightarrow> string_loop r [])"

definition parse_string :: "str \<Rightarrow> (json \<times> str) jresult" where
  "parse_string b = (case parse_string_raw b of Inl e \<Rightarrow> Inl e | Inr (s, r) \<Rightarrow> Inr (JString s, r))"

subsection \<open>Numbers\<close>

fun int_loop :: "str \<Rightarrow> int \<Rightarrow> (int \<times> str) jresult" where
  "int_loop [] n = Inr (n, [])"
| "int_loop (c # b) n =
     (case digit_val c of
        None \<Rightarrow> Inr (n, c # b)
      | Some d \<Rightarrow> if n * 10 + int d > I64_MAX then JFail ''number overflow'' else int_loop b (n * 10 + int d))"

fun frac_loop :: "str \<Rightarrow> int \<Rightarrow> nat \<Rightarrow> (int \<times> nat \<times> str) jresult" where
  "frac_loop [] n fd = Inr (n, fd, [])"
| "frac_loop (c # b) n fd =
     (case digit_val c of
        None \<Rightarrow> Inr (n, fd, c # b)
      | Some d \<Rightarrow> if n * 10 + int d > I64_MAX then Inl JPanic else frac_loop b (n * 10 + int d) (fd + 1))"

definition skip_digits :: "str \<Rightarrow> str" where
  "skip_digits b = dropWhile (\<lambda>c. digit_val c \<noteq> None) b"

definition skip_exp :: "str \<Rightarrow> str" where
  "skip_exp b =
     (case b of
        c # r \<Rightarrow>
          if c = CHR ''e'' \<or> c = CHR ''E'' then
            skip_digits (case r of d # r1 \<Rightarrow> if d = CHR ''+'' \<or> d = CHR ''-'' then r1 else r | [] \<Rightarrow> [])
          else b
      | [] \<Rightarrow> [])"

definition scale_frac :: "int \<Rightarrow> nat \<Rightarrow> int" where
  "scale_frac frac fd = (if fd \<le> 6 then frac * 10 ^ (6 - fd) else frac div 10 ^ (fd - 6))"

definition parse_number :: "str \<Rightarrow> (json \<times> str) jresult" where
  "parse_number b =
     (let neg = (b \<noteq> [] \<and> hd b = CHR ''-''); b = (if neg then tl b else b)
      in if b = [] \<or> digit_val (hd b) = None then JFail ''expected digit''
         else
           case int_loop b 0 of
             Inl e \<Rightarrow> Inl e
           | Inr (int_part, r) \<Rightarrow>
               if r \<noteq> [] \<and> hd r = CHR ''.'' then
                 (case frac_loop (tl r) 0 0 of
                    Inl e \<Rightarrow> Inl e
                  | Inr (frac, fd, r) \<Rightarrow>
                      if int_part * FLOAT_SCALE > I64_MAX then JFail ''number overflow''
                      else
                        let scaled = int_part * FLOAT_SCALE + scale_frac frac fd
                        in if scaled > I64_MAX then JFail ''number overflow''
                           else Inr (JFloat (if neg then - scaled else scaled), skip_exp r))
               else Inr (JNumber (if neg then - int_part else int_part), skip_exp r))"

definition parse_bool :: "str \<Rightarrow> (json \<times> str) jresult" where
  "parse_bool b =
     (if take 4 b = ''true'' then Inr (JBool True, drop 4 b)
      else if take 5 b = ''false'' then Inr (JBool False, drop 5 b)
      else JFail ''expected boolean'')"

definition parse_null :: "str \<Rightarrow> (json \<times> str) jresult" where
  "parse_null b = (if take 4 b = ''null'' then Inr (JNull, drop 4 b) else JFail (''expected '' @ [CHR 0x27] @ ''null'' @ [CHR 0x27]))"

subsection \<open>How much the parsers consume\<close>

lemma length_skip_ws: "length (skip_ws b) \<le> length b"
  by (simp add: skip_ws_def length_dropWhile_le)

lemma expect_length: "expect b ch = Inr r \<Longrightarrow> length r < length b"
  by (auto simp: expect_def split: list.splits if_splits)

lemma string_loop_length: "string_loop b s = Inr (t, r) \<Longrightarrow> length r < length b"
proof (induction b s rule: string_loop.induct)
  case (2 c b s)
  show ?case
  proof (cases "c = quote \<or> c \<noteq> backslash")
    case True
    then show ?thesis using 2 by (auto split: if_splits)
  next
    case False
    then obtain e b1 where b: "b = e # b1" using "2.prems" by (cases b) auto
    show ?thesis
    proof (cases "simple_escape e")
      case (Some x)
      then show ?thesis using 2 False b by fastforce
    next
      case None
      then obtain cp where "string_loop (drop 4 b1) (s @ char_utf8 cp) = Inr (t, r)" "u16_from_hex (take 4 b1) = Some cp"
          "e = CHR ''u''" "\<not> length b1 < 4" "utf8_valid (as_bytes (take 4 b1))" "\<not> is_surrogate cp"
        using "2.prems" False b by (auto split: if_splits option.splits)
      then have "length r < length (drop 4 b1)" using "2.IH"(1) [OF _ _ b None] False by auto
      then show ?thesis using b by simp
    qed
  qed
qed simp

lemma parse_string_raw_length: "parse_string_raw b = Inr (t, r) \<Longrightarrow> length r < length b"
  by (auto simp: parse_string_raw_def dest!: expect_length string_loop_length split: sum.splits)

lemma int_loop_length: "int_loop b n = Inr (m, r) \<Longrightarrow> length r \<le> length b"
  by (induction b n rule: int_loop.induct) (auto split: option.splits if_splits)

lemma frac_loop_length: "frac_loop b n fd = Inr (m, k, r) \<Longrightarrow> length r \<le> length b"
  by (induction b n fd rule: frac_loop.induct) (auto split: option.splits if_splits)

lemma skip_exp_length: "length (skip_exp b) \<le> length b"
proof (cases b)
  case (Cons c r)
  define x where "x = (case r of d # r1 \<Rightarrow> if d = CHR ''+'' \<or> d = CHR ''-'' then r1 else r | [] \<Rightarrow> [])"
  have "length (skip_digits x) \<le> length x" by (simp add: skip_digits_def length_dropWhile_le)
  also have "length x \<le> length r" by (simp add: x_def split: list.split)
  finally show ?thesis by (simp add: skip_exp_def Cons x_def [symmetric])
qed (simp add: skip_exp_def)

lemma int_loop_digit: "\<lbrakk>int_loop b n = Inr (m, r); b \<noteq> []; digit_val (hd b) \<noteq> None\<rbrakk> \<Longrightarrow> length r < length b"
  by (cases b) (auto dest: int_loop_length split: option.splits if_splits)

lemma parse_number_length: "parse_number b = Inr (v, r) \<Longrightarrow> length r < length b"
proof -
  assume p: "parse_number b = Inr (v, r)"
  define b' where "b' = (if b \<noteq> [] \<and> hd b = CHR ''-'' then tl b else b)"
  have b': "length b' \<le> length b" by (simp add: b'_def)
  obtain n r1 where i: "int_loop b' 0 = Inr (n, r1)" "b' \<noteq> []" "digit_val (hd b') \<noteq> None"
    and r: "length r \<le> length r1"
  proof (cases "b' = [] \<or> digit_val (hd b') = None")
    case True
    then show ?thesis using p by (simp add: parse_number_def b'_def [symmetric])
  next
    case False
    obtain n r1 where i: "int_loop b' 0 = Inr (n, r1)"
      using p False by (auto simp: parse_number_def b'_def [symmetric] Let_def split: sum.splits)
    have "length r \<le> length r1"
    proof (cases "r1 \<noteq> [] \<and> hd r1 = CHR ''.''")
      case True
      then obtain frac fd r2 where "frac_loop (tl r1) 0 0 = Inr (frac, fd, r2)" "r = skip_exp r2"
        using p False i by (auto simp: parse_number_def b'_def [symmetric] Let_def split: sum.splits if_splits)
      then show ?thesis using frac_loop_length [of "tl r1" 0 0 frac fd r2] skip_exp_length [of r2] by simp
    next
      case no: False
      then have "r = skip_exp r1" using p False i by (auto simp: parse_number_def b'_def [symmetric] Let_def)
      then show ?thesis by (simp add: skip_exp_length)
    qed
    then show ?thesis using i False that by blast
  qed
  then show ?thesis using int_loop_digit [OF i] b' by simp
qed

lemma parse_bool_length: "parse_bool b = Inr (v, r) \<Longrightarrow> length r < length b"
  by (cases b) (auto simp: parse_bool_def split: if_splits)

lemma parse_null_length: "parse_null b = Inr (v, r) \<Longrightarrow> length r < length b"
  by (cases b) (auto simp: parse_null_def split: if_splits)

subsection \<open>Values, arrays and objects\<close>

fun parse_measure :: "(str + str) + (str \<times> (str \<times> json) list) + str + str \<times> json list \<Rightarrow> nat" where
  "parse_measure (Inl (Inl b)) = 3 * length b + 2"
| "parse_measure (Inl (Inr b)) = 3 * length b + 1"
| "parse_measure (Inr (Inl (i, ps))) = 3 * length i + 3"
| "parse_measure (Inr (Inr (Inl b))) = 3 * length b + 1"
| "parse_measure (Inr (Inr (Inr (i, es)))) = 3 * length i + 3"

function parse_value :: "str \<Rightarrow> (json \<times> str) jresult"
  and parse_object :: "str \<Rightarrow> (json \<times> str) jresult"
  and object_loop :: "str \<Rightarrow> (str \<times> json) list \<Rightarrow> (json \<times> str) jresult"
  and parse_array :: "str \<Rightarrow> (json \<times> str) jresult"
  and array_loop :: "str \<Rightarrow> json list \<Rightarrow> (json \<times> str) jresult" where
  "parse_value b =
     (case b of
        [] \<Rightarrow> JFail ''unexpected end of input''
      | c # _ \<Rightarrow>
          if c = quote then parse_string b
          else if c = CHR ''{'' then parse_object b
          else if c = CHR ''['' then parse_array b
          else if c = CHR ''t'' \<or> c = CHR ''f'' then parse_bool b
          else if c = CHR ''n'' then parse_null b
          else if c = CHR ''-'' \<or> digit_val c \<noteq> None then parse_number b
          else JFail ''unexpected character'')"
| "parse_object b =
     (case expect b CHR ''{'' of
        Inl e \<Rightarrow> Inl e
      | Inr r \<Rightarrow>
          let i = skip_ws r
          in if i \<noteq> [] \<and> hd i = CHR ''}'' then Inr (JObject [], tl i) else object_loop i [])"
| "object_loop i pairs =
     (case parse_string_raw (skip_ws i) of
        Inl e \<Rightarrow> Inl e
      | Inr (key, nx) \<Rightarrow>
          (case expect (skip_ws nx) CHR '':'' of
             Inl e \<Rightarrow> Inl e
           | Inr j \<Rightarrow>
               (case parse_value (skip_ws j) of
                  Inl e \<Rightarrow> Inl e
                | Inr (val, nx) \<Rightarrow>
                    let i = skip_ws nx; pairs = pairs @ [(key, val)]
                    in if i \<noteq> [] \<and> hd i = CHR '','' then object_loop (tl i) pairs
                       else (case expect i CHR ''}'' of Inl e \<Rightarrow> Inl e | Inr r \<Rightarrow> Inr (JObject pairs, r)))))"
| "parse_array b =
     (case expect b CHR ''['' of
        Inl e \<Rightarrow> Inl e
      | Inr r \<Rightarrow>
          let i = skip_ws r
          in if i \<noteq> [] \<and> hd i = CHR '']'' then Inr (JArray [], tl i) else array_loop i [])"
| "array_loop i elems =
     (case parse_value (skip_ws i) of
        Inl e \<Rightarrow> Inl e
      | Inr (val, nx) \<Rightarrow>
          let i = skip_ws nx; elems = elems @ [val]
          in if i \<noteq> [] \<and> hd i = CHR '','' then array_loop (tl i) elems
             else (case expect i CHR '']'' of Inl e \<Rightarrow> Inl e | Inr r \<Rightarrow> Inr (JArray elems, r)))"
  by pat_completeness auto

lemma parse_length:
  "parse_value_parse_object_object_loop_parse_array_array_loop_dom (Inl (Inl b1)) \<Longrightarrow>
    parse_value b1 = Inr (v1, r1) \<Longrightarrow> length r1 < length b1"
  "parse_value_parse_object_object_loop_parse_array_array_loop_dom (Inl (Inr b2)) \<Longrightarrow>
    parse_object b2 = Inr (v2, r2) \<Longrightarrow> length r2 < length b2"
  "parse_value_parse_object_object_loop_parse_array_array_loop_dom (Inr (Inl (i3, ps))) \<Longrightarrow>
    object_loop i3 ps = Inr (v3, r3) \<Longrightarrow> length r3 < length i3"
  "parse_value_parse_object_object_loop_parse_array_array_loop_dom (Inr (Inr (Inl b4))) \<Longrightarrow>
    parse_array b4 = Inr (v4, r4) \<Longrightarrow> length r4 < length b4"
  "parse_value_parse_object_object_loop_parse_array_array_loop_dom (Inr (Inr (Inr (i5, es)))) \<Longrightarrow>
    array_loop i5 es = Inr (v5, r5) \<Longrightarrow> length r5 < length i5"
proof (induction b1 and b2 and i3 ps and b4 and i5 es arbitrary: v1 r1 and v2 r2 and v3 r3 and v4 r4 and v5 r5
    rule: parse_value_parse_object_object_loop_parse_array_array_loop.pinduct)
  case (1 b)
  note eq = "1.prems" [unfolded parse_value.psimps [OF "1.hyps"]]
  show ?case
    using eq "1.IH" parse_number_length [of b v1 r1] parse_bool_length [of b v1 r1] parse_null_length [of b v1 r1]
    by (auto simp: parse_string_def dest!: parse_string_raw_length split: list.splits if_splits sum.splits)
next
  case (2 b)
  note eq = "2.prems" [unfolded parse_object.psimps [OF "2.hyps"]]
  obtain r where r: "expect b CHR ''{'' = Inr r" using eq by (auto split: sum.splits)
  have "length r2 \<le> length (skip_ws r)"
  proof (cases "skip_ws r \<noteq> [] \<and> hd (skip_ws r) = CHR ''}''")
    case True
    then show ?thesis using eq r by auto
  next
    case False
    then have "object_loop (skip_ws r) [] = Inr (v2, r2)" using eq r by auto
    then show ?thesis using "2.IH" [OF r refl False] by fastforce
  qed
  then show ?case using expect_length [OF r] length_skip_ws [of r] by simp
next
  case (3 i pairs)
  note eq = "3.prems" [unfolded object_loop.psimps [OF "3.hyps"]]
  obtain key nx where k: "parse_string_raw (skip_ws i) = Inr (key, nx)" using eq by (auto split: sum.splits)
  obtain j where j: "expect (skip_ws nx) CHR '':'' = Inr j" using eq k by (auto split: sum.splits)
  obtain val nx2 where v: "parse_value (skip_ws j) = Inr (val, nx2)" using eq k j by (auto split: sum.splits)
  have "length nx2 < length (skip_ws j)" using "3.IH"(1) [OF k refl j v] .
  moreover have "length r3 \<le> length (skip_ws nx2)"
  proof (cases "skip_ws nx2 \<noteq> [] \<and> hd (skip_ws nx2) = CHR '',''")
    case True
    then have "object_loop (tl (skip_ws nx2)) (pairs @ [(key, val)]) = Inr (v3, r3)" using eq k j v by auto
    then show ?thesis using "3.IH"(2) [OF k refl j v refl refl refl True] by fastforce
  next
    case False
    then show ?thesis using eq k j v by (auto split: sum.splits dest!: expect_length)
  qed
  ultimately show ?case
    using parse_string_raw_length [OF k] expect_length [OF j] length_skip_ws [of i] length_skip_ws [of nx]
      length_skip_ws [of j] length_skip_ws [of nx2] by linarith
next
  case (4 b)
  note eq = "4.prems" [unfolded parse_array.psimps [OF "4.hyps"]]
  obtain r where r: "expect b CHR ''['' = Inr r" using eq by (auto split: sum.splits)
  have "length r4 \<le> length (skip_ws r)"
  proof (cases "skip_ws r \<noteq> [] \<and> hd (skip_ws r) = CHR '']''")
    case True
    then show ?thesis using eq r by auto
  next
    case False
    then have "array_loop (skip_ws r) [] = Inr (v4, r4)" using eq r by auto
    then show ?thesis using "4.IH" [OF r refl False] by fastforce
  qed
  then show ?case using expect_length [OF r] length_skip_ws [of r] by simp
next
  case (5 i elems)
  note eq = "5.prems" [unfolded array_loop.psimps [OF "5.hyps"]]
  obtain val nx where v: "parse_value (skip_ws i) = Inr (val, nx)" using eq by (auto split: sum.splits)
  have "length nx < length (skip_ws i)" using "5.IH"(1) [OF v] .
  moreover have "length r5 \<le> length (skip_ws nx)"
  proof (cases "skip_ws nx \<noteq> [] \<and> hd (skip_ws nx) = CHR '',''")
    case True
    then have "array_loop (tl (skip_ws nx)) (elems @ [val]) = Inr (v5, r5)" using eq v by auto
    then show ?thesis using "5.IH"(2) [OF v refl refl refl True] by fastforce
  next
    case False
    then show ?thesis using eq v by (auto split: sum.splits dest!: expect_length)
  qed
  ultimately show ?case using length_skip_ws [of i] length_skip_ws [of nx] by linarith
qed

termination parse_value
proof (relation "measure parse_measure", goal_cases)
  case (4 b r x)
  then show ?case using expect_length [OF 4(1)] length_skip_ws [of r] by simp
next
  case (5 i ps a key nx j)
  then show ?case
    using parse_string_raw_length [of "skip_ws i" key nx] expect_length [of "skip_ws nx" "CHR '':''" j]
      length_skip_ws [of i] length_skip_ws [of nx] length_skip_ws [of j] by simp
next
  case (6 i ps a key nx j bb val nx2 x xa)
  then have "length nx2 < length (skip_ws j)" using parse_length(1) by metis
  then show ?case
    using 6 parse_string_raw_length [of "skip_ws i" key nx] expect_length [of "skip_ws nx" "CHR '':''" j]
      length_skip_ws [of i] length_skip_ws [of nx] length_skip_ws [of j] length_skip_ws [of nx2] by simp
next
  case (7 b r x)
  then show ?case using expect_length [OF 7(1)] length_skip_ws [of r] by simp
next
  case (8 i es)
  then show ?case using length_skip_ws [of i] by simp
next
  case (9 i es bb val nx x xa)
  then have "length nx < length (skip_ws i)" using parse_length(1) by metis
  then show ?case using 9 length_skip_ws [of i] length_skip_ws [of nx] by simp
qed auto

declare parse_value.simps [simp del] parse_object.simps [simp del] object_loop.simps [simp del]
  parse_array.simps [simp del] array_loop.simps [simp del]

definition json_parse :: "str \<Rightarrow> json jresult" where
  "json_parse input =
     (case parse_value (skip_ws input) of
        Inl e \<Rightarrow> Inl e
      | Inr (v, r) \<Rightarrow> if skip_ws r \<noteq> [] then JFail ''trailing characters'' else Inr v)"

section \<open>The serialiser\<close>

definition write_indent :: "nat option \<Rightarrow> nat \<Rightarrow> str" where
  "write_indent ind depth = (case ind of Some n \<Rightarrow> replicate (depth * n) CHR '' '' | None \<Rightarrow> [])"

definition write_nl :: "nat option \<Rightarrow> str" where
  "write_nl ind = (if ind \<noteq> None then [newline] else [])"

definition hex_char :: "nat \<Rightarrow> char" where
  "hex_char d = (if d < 10 then digit_char d else char_of (87 + d))"

definition escape_char :: "char \<Rightarrow> str" where
  "escape_char c =
     (if c = quote then [backslash, quote]
      else if c = backslash then [backslash, backslash]
      else if c = CHR 0x0A then [backslash, CHR ''n'']
      else if c = CHR 0x0D then [backslash, CHR ''r'']
      else if c = CHR 0x09 then [backslash, CHR ''t'']
      else if c = CHR 0x08 then [backslash, CHR ''b'']
      else if c = CHR 0x0C then [backslash, CHR ''f'']
      else if of_char c < (32 :: nat) then
        [backslash] @ ''u00'' @ [hex_char (of_char c div 16), hex_char (of_char c mod 16)]
      else [c])"

definition write_escaped :: "str \<Rightarrow> str" where
  "write_escaped s = [quote] @ concat (map escape_char s) @ [quote]"

definition write_i64 :: "int \<Rightarrow> str" where
  "write_i64 n = (if n = 0 then ''0'' else if n < 0 then ''-'' @ show_nat (nat (- n)) else show_nat (nat n))"

definition trim_zeros :: "str \<Rightarrow> str" where
  "trim_zeros s = rev (dropWhile (\<lambda>c. c = CHR ''0'') (rev s))"

text \<open>The negation of the smallest \<^verbatim>\<open>i64\<close> overflows.\<close>

definition write_float :: "int \<Rightarrow> str option" where
  "write_float scaled =
     (if scaled = I64_MIN then None
      else
        let a = (if scaled < 0 then - scaled else scaled);
            trimmed = trim_zeros (pad_left CHR ''0'' 6 (show_nat (nat (a mod FLOAT_SCALE))))
        in Some ((if scaled < 0 then ''-'' else []) @ write_i64 (a div FLOAT_SCALE) @ ''.'' @
             (if trimmed = [] then ''0'' else trimmed)))"

fun write_items :: "nat option \<Rightarrow> nat \<Rightarrow> str list \<Rightarrow> str" where
  "write_items ind depth [] = []"
| "write_items ind depth (t # ts) =
     write_indent ind (depth + 1) @ t @ (if ts = [] then [] else '','') @ write_nl ind @ write_items ind depth ts"

function write_value :: "nat option \<Rightarrow> nat \<Rightarrow> json \<Rightarrow> str option" where
  "write_value ind depth JNull = Some ''null''"
| "write_value ind depth (JBool b) = Some (if b then ''true'' else ''false'')"
| "write_value ind depth (JNumber n) = Some (write_i64 n)"
| "write_value ind depth (JFloat f) = write_float f"
| "write_value ind depth (JString s) = Some (write_escaped s)"
| "write_value ind depth (JArray es) =
     (if es = [] then Some ''[]''
      else map_option (\<lambda>ts. ''['' @ write_nl ind @ write_items ind depth ts @ write_indent ind depth @ '']'')
             (those (map (write_value ind (depth + 1)) es)))"
| "write_value ind depth (JObject ps) =
     (if ps = [] then Some ''{}''
      else map_option (\<lambda>ts. ''{'' @ write_nl ind @ write_items ind depth ts @ write_indent ind depth @ ''}'')
             (those (map (\<lambda>(k, v). map_option (\<lambda>t. write_escaped k @ '':'' @ (if ind \<noteq> None then '' '' else []) @ t)
                (write_value ind (depth + 1) v)) ps)))"
  by pat_completeness auto
termination
proof (relation "measure (\<lambda>(ind, depth, v). size v)", goal_cases)
  case (2 ind depth es e)
  then show ?case by (simp add: less_Suc_eq_le size_list_estimation')
next
  case (3 ind depth ps p k v)
  then have "size v \<le> size_list (size_prod (\<lambda>_. 0) size) ps"
    by (intro size_list_estimation' [of p]) auto
  then show ?case by simp
qed auto

definition stringify :: "json \<Rightarrow> str option" where
  "stringify v = write_value None 0 v"

definition stringify_pretty :: "json \<Rightarrow> nat \<Rightarrow> str option" where
  "stringify_pretty v indent = write_value (Some indent) 0 v"

section \<open>Parsing what was written\<close>

subsection \<open>Strings\<close>

lemma of_char_ascii: "is_ascii [c] \<Longrightarrow> of_char c < (128 :: nat)"
  by (simp add: is_ascii_def word_less_nat_alt)

lemma char_utf8_ascii: "is_ascii [c] \<Longrightarrow> char_utf8 (of_char c) = [c]"
  using of_char_ascii [of c] by (simp add: char_utf8_def)

lemma hex_value_char: "d < 16 \<Longrightarrow> hex_value (hex_char d) = Some d"
  by (auto simp: hex_value_def hex_char_def digit_char_def)

lemma hex_char_ascii: "d < 16 \<Longrightarrow> of_char (hex_char d) < (128 :: u8)"
  by (auto simp: hex_char_def digit_char_def word_less_nat_alt)

lemma hex_value_0: "hex_value CHR ''0'' = Some 0"
  by (simp add: hex_value_def)

lemma escape_control:
  assumes "of_char c < (32 :: nat)"
  shows "u16_from_hex ([CHR ''0'', CHR ''0''] @ [hex_char (of_char c div 16), hex_char (of_char c mod 16)]) = Some (of_char c)"
  using assms by (simp add: u16_from_hex_def hex_value_char hex_value_0)

lemma escape_loop:
  assumes "is_ascii [c]"
  shows "string_loop (escape_char c @ b) s = string_loop b (s @ [c])"
proof (cases "c \<in> {quote, backslash, CHR 0x0A, CHR 0x0D, CHR 0x09, CHR 0x08, CHR 0x0C}")
  case True
  then show ?thesis by (auto simp: escape_char_def simple_escape_def quote_def backslash_def)
next
  case False
  show ?thesis
  proof (cases "of_char c < (32 :: nat)")
    case True
    let ?h = "[hex_char (of_char c div 16), hex_char (of_char c mod 16)]"
    have e: "escape_char c = [backslash, CHR ''u'', CHR ''0'', CHR ''0''] @ ?h"
      using False True by (simp add: escape_char_def)
    have "utf8_valid (as_bytes ([CHR ''0'', CHR ''0''] @ ?h))"
      using True by (intro ascii_utf8_valid) (simp add: is_ascii_def hex_char_ascii)
    moreover have "\<not> is_surrogate (of_char c)" using True by (simp add: is_surrogate_def)
    moreover have "backslash \<noteq> quote" "simple_escape CHR ''u'' = None" by (simp_all add: quote_def backslash_def simple_escape_def)
    ultimately show ?thesis
      using escape_control [OF True] char_utf8_ascii [OF assms] unfolding e by simp
  next
    case no: False
    then show ?thesis using False char_utf8_ascii [OF assms] by (simp add: escape_char_def)
  qed
qed

lemma string_loop_written:
  "is_ascii t \<Longrightarrow> string_loop (concat (map escape_char t) @ quote # rest) s = Inr (s @ t, rest)"
proof (induction t arbitrary: s)
  case (Cons c t)
  then have "is_ascii [c]" "is_ascii t" by (simp_all add: is_ascii_def)
  then show ?case using Cons.IH [of "s @ [c]"] escape_loop [of c "concat (map escape_char t) @ quote # rest" s] by simp
qed simp

lemma parse_string_written: "is_ascii t \<Longrightarrow> parse_string_raw (write_escaped t @ rest) = Inr (t, rest)"
  by (simp add: parse_string_raw_def write_escaped_def expect_def string_loop_written)

subsection \<open>Numbers\<close>

definition sep_ok :: "str \<Rightarrow> bool" where
  "sep_ok r \<longleftrightarrow> r = [] \<or> digit_val (hd r) = None \<and> hd r \<notin> {CHR ''.'', CHR ''e'', CHR ''E''}"

lemma parse_digits_ge: "parse_digits m ds = Some k \<Longrightarrow> m \<le> k"
proof (induction ds arbitrary: m)
  case (Cons c ds)
  then obtain d where "parse_digits (m * 10 + d) ds = Some k" by (auto split: option.splits)
  then show ?case using Cons.IH [of "m * 10 + d"] by simp
qed simp

lemma int_loop_digits:
  "\<lbrakk>parse_digits m ds = Some k; int k \<le> I64_MAX\<rbrakk> \<Longrightarrow> int_loop (ds @ r) (int m) = int_loop r (int k)"
proof (induction ds arbitrary: m)
  case (Cons c ds)
  then obtain d where d: "digit_val c = Some d" "parse_digits (m * 10 + d) ds = Some k" by (auto split: option.splits)
  have "int (m * 10 + d) \<le> I64_MAX" using parse_digits_ge [OF d(2)] Cons.prems(2) by linarith
  then show ?case using Cons.IH [OF d(2) Cons.prems(2)] d(1) by (simp add: algebra_simps)
qed simp

lemma frac_loop_digits:
  "\<lbrakk>parse_digits m ds = Some k; int k \<le> I64_MAX\<rbrakk> \<Longrightarrow> frac_loop (ds @ r) (int m) fd = frac_loop r (int k) (fd + length ds)"
proof (induction ds arbitrary: m fd)
  case (Cons c ds)
  then obtain d where d: "digit_val c = Some d" "parse_digits (m * 10 + d) ds = Some k" by (auto split: option.splits)
  have "int (m * 10 + d) \<le> I64_MAX" using parse_digits_ge [OF d(2)] Cons.prems(2) by linarith
  then show ?case using Cons.IH [OF d(2) Cons.prems(2), of "fd + 1"] d(1) by (simp add: algebra_simps)
qed simp

lemma int_loop_stop: "r = [] \<or> digit_val (hd r) = None \<Longrightarrow> int_loop r n = Inr (n, r)"
  by (cases r) auto

lemma frac_loop_stop: "r = [] \<or> digit_val (hd r) = None \<Longrightarrow> frac_loop r n fd = Inr (n, fd, r)"
  by (cases r) auto

lemma show_nat_digit: "show_nat n \<noteq> []" "digit_val (hd (show_nat n)) \<noteq> None" "hd (show_nat n) \<noteq> CHR ''-''"
proof -
  obtain d s where d: "show_nat n = digit_char d # s" "d < 10" using show_nat_head by blast
  show "show_nat n \<noteq> []" "digit_val (hd (show_nat n)) \<noteq> None" using d by simp_all
  have "digit_val CHR ''-'' = None" by (simp add: digit_val_def)
  then show "hd (show_nat n) \<noteq> CHR ''-''" using d by (metis digit_val_char list.sel(1) option.distinct(1))
qed

lemma write_i64_nat: "0 \<le> n \<Longrightarrow> write_i64 n = show_nat (nat n)"
proof -
  have "show_nat 0 = ''0''" by code_simp
  then show "0 \<le> n \<Longrightarrow> write_i64 n = show_nat (nat n)" by (auto simp: write_i64_def)
qed

lemma skip_exp_sep: "sep_ok r \<Longrightarrow> skip_exp r = r"
  by (cases r) (auto simp: sep_ok_def skip_exp_def)

text \<open>After an optional minus sign the parser reads the digits of a natural number.\<close>

lemma parse_number_sign:
  assumes "int n \<le> I64_MAX" and "r = [] \<or> digit_val (hd r) = None"
  shows "parse_number ((if neg then ''-'' else []) @ show_nat n @ r) =
    (if r \<noteq> [] \<and> hd r = CHR ''.'' then
       (case frac_loop (tl r) 0 0 of
          Inl e \<Rightarrow> Inl e
        | Inr (frac, fd, r) \<Rightarrow>
            if int n * FLOAT_SCALE > I64_MAX then JFail ''number overflow''
            else
              let scaled = int n * FLOAT_SCALE + scale_frac frac fd
              in if scaled > I64_MAX then JFail ''number overflow''
                 else Inr (JFloat (if neg then - scaled else scaled), skip_exp r))
     else Inr (JNumber (if neg then - int n else int n), skip_exp r))"
proof -
  have i: "int_loop (show_nat n @ r) 0 = Inr (int n, r)"
    using int_loop_digits [OF parse_digits_show assms(1), of r] int_loop_stop [OF assms(2)] by simp
  obtain d where "digit_val (hd (show_nat n)) = Some d" using show_nat_digit(2) [of n] by auto
  then show ?thesis
    using i show_nat_digit(1,3) [of n] by (cases neg) (auto simp: parse_number_def Let_def split: sum.split)
qed

lemma parse_number_written:
  assumes "I64_MIN < n" and "n \<le> I64_MAX" and "sep_ok r"
  shows "parse_number (write_i64 n @ r) = Inr (JNumber n, r)"
proof -
  have "write_i64 n = (if n < 0 then ''-'' else []) @ show_nat (nat \<bar>n\<bar>)"
    using write_i64_nat [of n] by (auto simp: write_i64_def)
  moreover have "int (nat \<bar>n\<bar>) \<le> I64_MAX" using assms by (simp add: I64_MIN_def I64_MAX_def)
  ultimately show ?thesis
    using parse_number_sign [of "nat \<bar>n\<bar>" r "n < 0"] assms(3) skip_exp_sep [OF assms(3)] by (auto simp: sep_ok_def)
qed

lemma parse_digits_replicate:
  "parse_digits m (ds @ replicate k CHR ''0'') = map_option (\<lambda>q. q * 10 ^ k) (parse_digits m ds)"
proof -
  have "digit_val CHR ''0'' = Some 0" by (simp add: digit_val_def)
  then have "parse_digits q (replicate k CHR ''0'') = Some (q * 10 ^ k)" for q
    by (induction k arbitrary: q) (simp_all add: algebra_simps)
  then show ?thesis by (simp add: parse_digits_append split: option.split)
qed

lemma trim_zeros_split: "\<exists>k. s = trim_zeros s @ replicate k CHR ''0''"
proof -
  have "rev s = takeWhile (\<lambda>c. c = CHR ''0'') (rev s) @ dropWhile (\<lambda>c. c = CHR ''0'') (rev s)" by simp
  then have "s = trim_zeros s @ rev (takeWhile (\<lambda>c. c = CHR ''0'') (rev s))"
    by (metis rev_append rev_rev_ident trim_zeros_def)
  moreover have "takeWhile (\<lambda>c. c = CHR ''0'') (rev s) = replicate (length (takeWhile (\<lambda>c. c = CHR ''0'') (rev s))) CHR ''0''"
    by (rule replicate_eqI) (auto dest: set_takeWhileD)
  ultimately show ?thesis by (metis rev_replicate)
qed

lemma length_show_nat: "n < 10 ^ k \<Longrightarrow> 0 < k \<Longrightarrow> length (show_nat n) \<le> k"
proof (induction k arbitrary: n)
  case (Suc k)
  show ?case
  proof (cases "n < 10")
    case True
    then show ?thesis by (subst show_nat.simps) simp
  next
    case False
    then have "0 < k" using Suc.prems by (cases k) auto
    moreover have "n div 10 < 10 ^ k" using Suc.prems(1) by (simp add: less_mult_imp_div_less mult.commute)
    ultimately show ?thesis using Suc.IH [of "n div 10"] False by (subst show_nat.simps) simp
  qed
qed simp

lemma parse_float_written:
  assumes "write_float f = Some t" and "I64_MIN < f" and "f \<le> I64_MAX" and "sep_ok r"
  shows "parse_number (t @ r) = Inr (JFloat f, r)"
proof -
  define a where "a = \<bar>f\<bar>"
  define n where "n = nat (a div FLOAT_SCALE)"
  define m where "m = nat (a mod FLOAT_SCALE)"
  have m: "m < 10 ^ 6" by (simp add: m_def FLOAT_SCALE_def)
  have "0 \<le> a div FLOAT_SCALE" by (simp add: a_def FLOAT_SCALE_def pos_imp_zdiv_nonneg_iff)
  then have a: "a = int n * FLOAT_SCALE + int m" "a \<le> I64_MAX" "0 \<le> a"
    using assms(2,3) by (simp_all add: a_def n_def m_def FLOAT_SCALE_def I64_MIN_def I64_MAX_def)
  have n: "int n \<le> I64_MAX" "int n * FLOAT_SCALE \<le> I64_MAX"
    using a by (simp_all add: FLOAT_SCALE_def)
  define padded where "padded = pad_left CHR ''0'' 6 (show_nat m)"
  have pl: "length padded = 6" using length_show_nat [OF m] by (simp add: padded_def pad_left_def)
  have pd: "parse_digits 0 padded = Some m"
  proof -
    have "parse_digits 0 (replicate j CHR ''0'') = Some 0" for j using parse_digits_replicate [of 0 "[]" j] by simp
    then show ?thesis using parse_digits_show [of m] by (simp add: padded_def pad_left_def parse_digits_append)
  qed
  define trimmed where "trimmed = trim_zeros padded"
  obtain k where k: "padded = trimmed @ replicate k CHR ''0''" using trim_zeros_split trimmed_def by blast
  obtain q where q: "parse_digits 0 trimmed = Some q" "m = q * 10 ^ k"
    using pd unfolding k parse_digits_replicate by auto
  have lk: "length trimmed + k = 6" using pl arg_cong [OF k, of length] by simp
  define ft where "ft = (if trimmed = [] then ''0'' else trimmed)"
  have qm: "q \<le> m" using q(2) by simp
  have frac: "\<exists>fr fd. frac_loop (ft @ r) 0 0 = Inr (fr, fd, r) \<and> scale_frac fr fd = int m"
  proof (cases "trimmed = []")
    case True
    then have "q = 0" using q(1) by simp
    moreover have "digit_val CHR ''0'' = Some 0" by (simp add: digit_val_def)
    ultimately show ?thesis
      using True frac_loop_stop [of r 0 1] assms(4) q(2)
      by (intro exI [of _ 0] exI [of _ 1]) (auto simp: ft_def sep_ok_def scale_frac_def I64_MAX_def)
  next
    case False
    have "int q \<le> I64_MAX" using qm m by (simp add: I64_MAX_def)
    from frac_loop_digits [OF q(1) this, of r 0] have "frac_loop (trimmed @ r) 0 0 = Inr (int q, length trimmed, r)"
      using frac_loop_stop [of r "int q" "length trimmed"] assms(4) by (auto simp: sep_ok_def)
    moreover have "scale_frac (int q) (length trimmed) = int m"
    proof -
      have "k = 6 - length trimmed" "length trimmed \<le> 6" using lk by simp_all
      then show ?thesis using q(2) by (simp add: scale_frac_def)
    qed
    ultimately show ?thesis using False by (auto simp: ft_def)
  qed
  then obtain fr fd where fr: "frac_loop (ft @ r) 0 0 = Inr (fr, fd, r)" "scale_frac fr fd = int m" by blast
  have "t = (if f < 0 then ''-'' else []) @ show_nat n @ ''.'' @ ft"
    using assms(1) write_i64_nat [of "a div FLOAT_SCALE"] a(3)
    by (auto simp: write_float_def Let_def a_def n_def ft_def trimmed_def padded_def m_def FLOAT_SCALE_def split: if_splits)
  then have t: "t @ r = (if f < 0 then ''-'' else []) @ show_nat n @ (CHR ''.'' # ft @ r)" by simp
  have "digit_val CHR ''.'' = None" by (simp add: digit_val_def)
  then show ?thesis
    using parse_number_sign [OF n(1), of "CHR ''.'' # ft @ r" "f < 0"] fr n(2) a skip_exp_sep [OF assms(4)]
    unfolding t by (auto simp: a_def Let_def)
qed

subsection \<open>Structures\<close>

fun json_ok :: "json \<Rightarrow> bool" where
  "json_ok JNull = True"
| "json_ok (JBool b) = True"
| "json_ok (JNumber n) = (I64_MIN < n \<and> n \<le> I64_MAX)"
| "json_ok (JFloat f) = (I64_MIN < f \<and> f \<le> I64_MAX)"
| "json_ok (JString s) = is_ascii s"
| "json_ok (JArray es) = list_all json_ok es"
| "json_ok (JObject ps) = list_all (\<lambda>(k, v). is_ascii k \<and> json_ok v) ps"

lemma skip_ws_idem [simp]: "skip_ws (skip_ws b) = skip_ws b"
  by (simp add: skip_ws_def)

lemma skip_ws_start: "b \<noteq> [] \<Longrightarrow> \<not> is_ws (hd b) \<Longrightarrow> skip_ws b = b"
  by (cases b) (auto simp: skip_ws_def)

lemma skip_ws_blank:
  "skip_ws (write_nl ind @ b) = skip_ws b" "skip_ws (write_indent ind depth @ b) = skip_ws b" "skip_ws (CHR '' '' # b) = skip_ws b"
proof -
  have "skip_ws (replicate k CHR '' '' @ b) = skip_ws b" for k by (induction k) (simp_all add: skip_ws_def is_ws_def)
  then show "skip_ws (write_indent ind depth @ b) = skip_ws b" by (simp add: write_indent_def split: option.split)
qed (simp_all add: skip_ws_def write_nl_def is_ws_def newline_def)

lemma array_loop_skip: "array_loop (skip_ws i) es = array_loop i es"
  by (subst (1 2) array_loop.simps) simp

lemma object_loop_skip: "object_loop (skip_ws i) es = object_loop i es"
  by (subst (1 2) object_loop.simps) simp

lemma sep_ok_structural: "c \<in> {CHR '','', CHR '']'', CHR ''}'', CHR '' '', newline} \<Longrightarrow> sep_ok (c # r)"
  by (auto simp: sep_ok_def digit_val_def newline_def)

text \<open>A text that the parser reads as the value \<open>v\<close>, whatever follows.\<close>

definition reads_as :: "str \<Rightarrow> json \<Rightarrow> bool" where
  "reads_as t v \<longleftrightarrow> t \<noteq> [] \<and> \<not> is_ws (hd t) \<and> hd t \<noteq> CHR '']'' \<and> (\<forall>r. sep_ok r \<longrightarrow> parse_value (t @ r) = Inr (v, r))"

lemma reads_as_skip: "reads_as t v \<Longrightarrow> skip_ws (t @ r) = t @ r"
  by (rule skip_ws_start) (auto simp: reads_as_def)

lemma closing_sep: "sep_ok (write_nl ind @ write_indent ind depth @ c # r)" if "c \<in> {CHR '']'', CHR ''}''}"
proof (cases ind)
  case None
  then show ?thesis using that by (auto simp: write_nl_def write_indent_def intro!: sep_ok_structural)
next
  case (Some n)
  then show ?thesis by (simp add: write_nl_def sep_ok_structural)
qed

lemma not_ws [simp]: "\<not> is_ws CHR '']''" "\<not> is_ws CHR ''}''" "\<not> is_ws CHR '',''" "\<not> is_ws CHR '':''" "\<not> is_ws quote"
  by (simp_all add: is_ws_def quote_def)

lemma skip_ws_stop [simp]: "\<not> is_ws c \<Longrightarrow> skip_ws (c # b) = c # b"
  by (simp add: skip_ws_def)

lemma array_loop_written:
  "\<lbrakk>list_all2 reads_as ts es; ts \<noteq> []\<rbrakk> \<Longrightarrow>
    array_loop (write_items ind depth ts @ write_indent ind depth @ CHR '']'' # r) acc = Inr (JArray (acc @ es), r)"
proof (induction ts arbitrary: es acc)
  case (Cons t ts)
  then obtain e es' where es: "es = e # es'" "reads_as t e" "list_all2 reads_as ts es'"
    by (auto simp: list_all2_Cons1)
  show ?case
  proof (cases "ts = []")
    case True
    have "parse_value (t @ write_nl ind @ write_indent ind depth @ CHR '']'' # r) =
        Inr (e, write_nl ind @ write_indent ind depth @ CHR '']'' # r)"
      using es(2) closing_sep by (simp add: reads_as_def)
    then show ?thesis
      using True es reads_as_skip [OF es(2)] by (subst array_loop.simps) (simp add: skip_ws_blank expect_def)
  next
    case False
    let ?rest = "write_nl ind @ write_items ind depth ts @ write_indent ind depth @ CHR '']'' # r"
    have "parse_value (t @ CHR '','' # ?rest) = Inr (e, CHR '','' # ?rest)"
      using es(2) sep_ok_structural by (simp add: reads_as_def)
    moreover have "array_loop ?rest (acc @ [e]) = Inr (JArray (acc @ [e] @ es'), r)"
      using Cons.IH [OF es(3) False, of "acc @ [e]"] array_loop_skip [of ?rest] array_loop_skip [of "write_items ind depth ts @ write_indent ind depth @ CHR '']'' # r"]
      by (simp add: skip_ws_blank)
    ultimately show ?thesis
      using False es reads_as_skip [OF es(2)] by (subst array_loop.simps) (simp add: skip_ws_blank)
  qed
qed simp

definition pair_text :: "nat option \<Rightarrow> str \<Rightarrow> str \<Rightarrow> str" where
  "pair_text ind k t = write_escaped k @ '':'' @ (if ind \<noteq> None then '' '' else []) @ t"

definition reads_pair :: "nat option \<Rightarrow> str \<Rightarrow> str \<times> json \<Rightarrow> bool" where
  "reads_pair ind p kv \<longleftrightarrow> (\<exists>t. p = pair_text ind (fst kv) t \<and> is_ascii (fst kv) \<and> reads_as t (snd kv))"

lemma object_step:
  assumes "reads_pair ind p (k, v)" and "sep_ok r"
  shows "object_loop (write_indent ind d @ p @ r) acc =
    (if skip_ws r \<noteq> [] \<and> hd (skip_ws r) = CHR '','' then object_loop (tl (skip_ws r)) (acc @ [(k, v)])
     else (case expect (skip_ws r) CHR ''}'' of Inl e \<Rightarrow> Inl e | Inr r \<Rightarrow> Inr (JObject (acc @ [(k, v)]), r)))"
proof -
  obtain t where p: "p = pair_text ind k t" "is_ascii k" "reads_as t v" using assms(1) by (auto simp: reads_pair_def)
  let ?after = "(if ind \<noteq> None then '' '' else []) @ t @ r"
  have "skip_ws (write_indent ind d @ p @ r) = write_escaped k @ CHR '':'' # ?after"
    by (simp add: skip_ws_blank p(1) pair_text_def write_escaped_def)
  moreover have "skip_ws ?after = t @ r" using reads_as_skip [OF p(3), of r] by (simp add: skip_ws_blank)
  moreover have "parse_value (t @ r) = Inr (v, r)" using p(3) assms(2) by (simp add: reads_as_def)
  ultimately show ?thesis
    using parse_string_written [OF p(2), of "CHR '':'' # ?after"]
    by (subst object_loop.simps) (simp add: expect_def Let_def)
qed

lemma object_loop_written:
  "\<lbrakk>list_all2 (reads_pair ind) ts ps; ts \<noteq> []\<rbrakk> \<Longrightarrow>
    object_loop (write_items ind depth ts @ write_indent ind depth @ CHR ''}'' # r) acc = Inr (JObject (acc @ ps), r)"
proof (induction ts arbitrary: ps acc)
  case (Cons t ts)
  then obtain k v ps' where ps: "ps = (k, v) # ps'" "reads_pair ind t (k, v)" "list_all2 (reads_pair ind) ts ps'"
    by (auto simp: list_all2_Cons1)
  show ?case
  proof (cases "ts = []")
    case True
    have "sep_ok (write_nl ind @ write_indent ind depth @ CHR ''}'' # r)" by (simp add: closing_sep)
    from object_step [OF ps(2) this, of "depth + 1" acc] show ?thesis
      using True ps by (simp add: skip_ws_blank expect_def)
  next
    case False
    let ?rest = "write_nl ind @ write_items ind depth ts @ write_indent ind depth @ CHR ''}'' # r"
    have "object_loop ?rest (acc @ [(k, v)]) = Inr (JObject (acc @ [(k, v)] @ ps'), r)"
      using Cons.IH [OF ps(3) False, of "acc @ [(k, v)]"] object_loop_skip [of ?rest]
        object_loop_skip [of "write_items ind depth ts @ write_indent ind depth @ CHR ''}'' # r"]
      by (simp add: skip_ws_blank)
    then show ?thesis
      using object_step [OF ps(2), of "CHR '','' # ?rest" "depth + 1" acc] False ps by (simp add: sep_ok_structural)
  qed
qed simp

lemma those_map_ex: "(\<And>x. x \<in> set xs \<Longrightarrow> f x \<noteq> None) \<Longrightarrow> those (map f xs) \<noteq> None"
proof (induction xs)
  case (Cons a xs)
  then obtain y ys where "f a = Some y" "those (map f xs) = Some ys" by fastforce
  then show ?case by simp
qed simp

lemma those_all2: "\<lbrakk>those (map f xs) = Some ys; \<And>x y. x \<in> set xs \<Longrightarrow> f x = Some y \<Longrightarrow> R y x\<rbrakk> \<Longrightarrow> list_all2 R ys xs"
  by (induction xs arbitrary: ys) (auto split: option.splits)

lemma parse_object_start:
  assumes "skip_ws b = c # x" and "c \<noteq> CHR ''}''"
  shows "parse_value (CHR ''{'' # b) = object_loop b []"
  using assms object_loop_skip [of b "[]"]
  by (subst parse_value.simps, subst parse_object.simps) (simp add: expect_def quote_def)

lemma parse_array_start:
  assumes "skip_ws b = c # x" and "c \<noteq> CHR '']''"
  shows "parse_value (CHR ''['' # b) = array_loop b []"
  using assms array_loop_skip [of b "[]"]
  by (subst parse_value.simps, subst parse_array.simps) (simp add: expect_def quote_def)

lemma number_reads:
  assumes "\<And>r. sep_ok r \<Longrightarrow> parse_number (t @ r) = Inr (v, r)"
    and "t \<noteq> []" and "hd t = CHR ''-'' \<or> digit_val (hd t) \<noteq> None"
  shows "reads_as t v"
proof -
  obtain c t' where t: "t = c # t'" using assms(2) by (cases t) auto
  have c: "c \<notin> {quote, CHR ''{'', CHR ''['', CHR ''t'', CHR ''f'', CHR ''n'', CHR '']''} \<and> \<not> is_ws c"
    using assms(3) t by (auto simp: digit_val_def quote_def is_ws_def split: if_splits)
  have "parse_value (t @ r) = parse_number (t @ r)" for r
    using c assms(3) by (subst parse_value.simps) (auto simp: t)
  then show ?thesis using assms(1) c t by (simp add: reads_as_def)
qed

lemma written_reads:
  "\<lbrakk>write_value ind depth v = Some t; json_ok v\<rbrakk> \<Longrightarrow> reads_as t v"
proof (induction ind depth v arbitrary: t rule: write_value.induct)
  case (1 ind depth)
  then show ?case by (auto simp: reads_as_def is_ws_def parse_value.simps parse_null_def quote_def)
next
  case (2 ind depth b)
  then show ?case by (auto simp: reads_as_def is_ws_def parse_value.simps parse_bool_def quote_def split: if_splits)
next
  case (3 ind depth n)
  have "t \<noteq> []" "hd t = CHR ''-'' \<or> digit_val (hd t) \<noteq> None"
    using "3.prems" show_nat_digit [of "nat n"] write_i64_nat [of n] by (cases "0 \<le> n"; force simp: write_i64_def)+
  then show ?case using "3.prems" parse_number_written by (intro number_reads) auto
next
  case (4 ind depth f)
  have "write_i64 (a div FLOAT_SCALE) \<noteq> [] \<and> digit_val (hd (write_i64 (a div FLOAT_SCALE))) \<noteq> None" if "0 \<le> a" for a
    using write_i64_nat [of "a div FLOAT_SCALE"] show_nat_digit that by (simp add: FLOAT_SCALE_def pos_imp_zdiv_nonneg_iff)
  then have "t \<noteq> []" "hd t = CHR ''-'' \<or> digit_val (hd t) \<noteq> None"
    using "4.prems" by (auto simp: write_float_def Let_def split: if_splits)
  then show ?case using "4.prems" parse_float_written by (intro number_reads) auto
next
  case (5 ind depth s)
  have "parse_value (t @ r) = parse_string (t @ r)" for r
    using "5.prems" by (subst parse_value.simps) (auto simp: write_escaped_def)
  then show ?case
    using "5.prems" parse_string_written [of s] by (auto simp: reads_as_def parse_string_def write_escaped_def quote_def is_ws_def)
next
  case (6 ind depth es)
  show ?case
  proof (cases "es = []")
    case True
    then have "t = ''[]''" using "6.prems" by simp
    then show ?thesis using True
      by (auto simp: reads_as_def is_ws_def parse_value.simps parse_array.simps expect_def quote_def skip_ws_def)
  next
    case False
    then obtain ts where ts: "those (map (write_value ind (depth + 1)) es) = Some ts"
        "t = ''['' @ write_nl ind @ write_items ind depth ts @ write_indent ind depth @ '']''"
      using "6.prems" by auto
    have all: "list_all2 reads_as ts es"
      using those_all2 [OF ts(1), of reads_as] "6.IH" [OF False] "6.prems"(2) by (auto simp: list_all_iff)
    then obtain t1 ts' where t1: "ts = t1 # ts'" using False by (cases ts) auto
    have r1: "reads_as t1 (hd es)" using all t1 by (auto simp: list_all2_Cons1)
    have "parse_value (t @ r) = Inr (JArray es, r)" for r
    proof -
      let ?b = "write_nl ind @ write_items ind depth ts @ write_indent ind depth @ CHR '']'' # r"
      have "\<exists>x. skip_ws ?b = t1 @ x" using reads_as_skip [OF r1] by (simp add: skip_ws_blank t1)
      then obtain c x where "skip_ws ?b = c # x" "c \<noteq> CHR '']''"
        using r1 by (cases t1) (auto simp: reads_as_def)
      from parse_array_start [OF this] show ?thesis
        using array_loop_written [OF all, of ind depth r "[]"] t1 array_loop_skip [of ?b]
          array_loop_skip [of "write_items ind depth ts @ write_indent ind depth @ CHR '']'' # r"]
        by (simp add: ts(2) skip_ws_blank)
    qed
    then show ?thesis by (auto simp: reads_as_def ts(2) is_ws_def)
  qed
next
  case (7 ind depth ps)
  show ?case
  proof (cases "ps = []")
    case True
    then have "t = ''{}''" using "7.prems" by simp
    then show ?thesis using True
      by (auto simp: reads_as_def is_ws_def parse_value.simps parse_object.simps expect_def quote_def skip_ws_def)
  next
    case False
    then obtain ts where ts: "those (map (\<lambda>(k, v). map_option (pair_text ind k) (write_value ind (depth + 1) v)) ps) = Some ts"
        "t = ''{'' @ write_nl ind @ write_items ind depth ts @ write_indent ind depth @ ''}''"
      using "7.prems" by (auto simp: pair_text_def [abs_def])
    have all: "list_all2 (reads_pair ind) ts ps"
    proof (rule those_all2 [OF ts(1)])
      fix kv p assume kv: "kv \<in> set ps" "(case kv of (k, v) \<Rightarrow> map_option (pair_text ind k) (write_value ind (depth + 1) v)) = Some p"
      obtain k v where e: "kv = (k, v)" by fastforce
      then have ok: "is_ascii k" "json_ok v" using kv(1) "7.prems"(2) by (auto simp: list_all_iff)
      obtain u where u: "write_value ind (depth + 1) v = Some u" "p = pair_text ind k u" using kv(2) e by auto
      have "reads_as u v" using "7.IH" [OF False kv(1) e [symmetric] u(1) ok(2)] .
      then show "reads_pair ind p kv" using e u(2) ok(1) by (auto simp: reads_pair_def)
    qed
    then obtain t1 ts' where t1: "ts = t1 # ts'" using False by (cases ts) auto
    obtain k u where k: "t1 = pair_text ind k u" using all t1 by (auto simp: list_all2_Cons1 reads_pair_def)
    have "parse_value (t @ r) = Inr (JObject ps, r)" for r
    proof -
      let ?b = "write_nl ind @ write_items ind depth ts @ write_indent ind depth @ CHR ''}'' # r"
      obtain x where "skip_ws ?b = quote # x" by (auto simp: skip_ws_blank t1 k pair_text_def write_escaped_def)
      from parse_object_start [OF this] show ?thesis
        using object_loop_written [OF all, of depth r "[]"] t1 object_loop_skip [of ?b]
          object_loop_skip [of "write_items ind depth ts @ write_indent ind depth @ CHR ''}'' # r"]
        by (simp add: ts(2) skip_ws_blank quote_def)
    qed
    then show ?thesis by (auto simp: reads_as_def ts(2) is_ws_def)
  qed
qed

lemma written_parses:
  assumes "json_ok v"
  shows "\<exists>t. write_value ind depth v = Some t \<and> json_parse t = Inr v"
proof -
  have ex: "json_ok v \<Longrightarrow> \<exists>t. write_value ind depth v = Some t" for ind depth v
  proof (induction ind depth v rule: write_value.induct)
    case (6 ind depth es)
    have "those (map (write_value ind (depth + 1)) es) \<noteq> None"
    proof (cases "es = []")
      case False
      have "write_value ind (depth + 1) e \<noteq> None" if "e \<in> set es" for e
        using "6.IH" [OF False that] "6.prems" that by (auto simp: list_all_iff)
      then show ?thesis by (rule those_map_ex)
    qed simp
    then show ?case by auto
  next
    case (7 ind depth ps)
    let ?f = "\<lambda>(k, v). map_option (\<lambda>t. write_escaped k @ '':'' @ (if ind \<noteq> None then '' '' else []) @ t)
        (write_value ind (depth + 1) v)"
    have "those (map ?f ps) \<noteq> None"
    proof (cases "ps = []")
      case False
      have "?f p \<noteq> None" if p: "p \<in> set ps" for p
      proof -
        obtain k v where e: "p = (k, v)" by fastforce
        then have "json_ok v" using p "7.prems" by (auto simp: list_all_iff)
        then show ?thesis using "7.IH" [OF False p e [symmetric]] e by auto
      qed
      then show ?thesis by (rule those_map_ex)
    qed simp
    then show ?case by auto
  qed (auto simp: write_float_def I64_MIN_def Let_def)
  obtain t where t: "write_value ind depth v = Some t" using ex [OF assms] by blast
  have r: "reads_as t v" by (rule written_reads [OF t assms])
  have "parse_value (skip_ws t) = Inr (v, [])"
    using r reads_as_skip [OF r, of "[]"] by (auto simp: reads_as_def sep_ok_def dest: spec [of _ "[]"])
  then have "json_parse t = Inr v" by (simp add: json_parse_def skip_ws_def)
  then show ?thesis using t by blast
qed


definition sample_json :: json where
  "sample_json = JObject [(''a'', JArray [JNumber (-12), JFloat 1000000, JNull]), (''b'' @ [CHR 0x01], JBool True)]"


text \<open>What does not survive: bytes above 127 are read one by one, the smallest number is written
  but not read, an exponent is skipped, and a long fraction overflows.\<close>

lemma non_ascii_mangled:
  "map_option json_parse (stringify (JString [CHR 0xC3, CHR 0xA9])) =
    Some (Inr (JString [CHR 0xC3, CHR 0x83, CHR 0xC2, CHR 0xA9]))"
  by code_simp

lemma min_number_rejected:
  "stringify (JNumber I64_MIN) = Some ''-9223372036854775808'' \<and>
   json_parse ''-9223372036854775808'' = JFail ''number overflow''"
proof
  have "char_of (48 :: nat) = CHR ''0''" "char_of (50 :: nat) = CHR ''2''" "char_of (51 :: nat) = CHR ''3''"
    "char_of (52 :: nat) = CHR ''4''" "char_of (53 :: nat) = CHR ''5''" "char_of (54 :: nat) = CHR ''6''"
    "char_of (55 :: nat) = CHR ''7''" "char_of (56 :: nat) = CHR ''8''" "char_of (57 :: nat) = CHR ''9''" by code_simp+
  then show "stringify (JNumber I64_MIN) = Some ''-9223372036854775808''"
    by (simp add: stringify_def write_i64_def I64_MIN_def show_nat.simps digit_char_def)
  show "json_parse ''-9223372036854775808'' = JFail ''number overflow''" by code_simp
qed

lemma exponent_ignored: "json_parse ''1e3'' = Inr (JNumber 1)"
  by code_simp

lemma long_fraction_panics: "json_parse ''0.12345678901234567890'' = Inl JPanic"
  by code_simp

end
