(* ===== verification/Id_Table.thy ===== *)
theory Id_Table
  imports Prelude
begin

text \<open>
  Tables of numbered objects: a vector of structures and the next number, the shape of every
  table of \<^verbatim>\<open>src/ipc_ext.rs\<close> (\<^verbatim>\<open>UnixSocketTable\<close>, \<^verbatim>\<open>MqTable\<close>, \<^verbatim>\<open>SemTable\<close>, \<^verbatim>\<open>ShmTable\<close>,
  \<^verbatim>\<open>EventFdTable\<close>, \<^verbatim>\<open>SignalFdTable\<close>, \<^verbatim>\<open>TimerFdTable\<close>, \<^verbatim>\<open>EpollTable\<close>, \<^verbatim>\<open>NamespaceTable\<close>). The operations
  are the code fragments these tables share; the argument \<open>ident\<close> reads the field \<^verbatim>\<open>id\<close>.
\<close>

record 'a id_table =
  it_items :: "'a list"
  it_next :: usize

definition it_new :: "'a id_table" where
  "it_new = \<lparr>it_items = [], it_next = 1\<rparr>"

text \<open>Checking the capacity, taking the next number and pushing the object made for it.\<close>

definition it_push :: "usize \<Rightarrow> (usize \<Rightarrow> 'a) \<Rightarrow> 'a id_table \<Rightarrow> usize option \<times> 'a id_table" where
  "it_push limit mk t =
     (if length (it_items t) \<ge> limit then (None, t)
      else
        let n = it_next t
        in (Some n, \<lparr>it_items = it_items t @ [mk n], it_next = n + 1\<rparr>))"

text \<open>\<^verbatim>\<open>iter().find(|x| x.id == id)\<close> and the loops that stop at the object with that number.\<close>

definition it_find :: "('a \<Rightarrow> usize) \<Rightarrow> usize \<Rightarrow> 'a id_table \<Rightarrow> 'a option" where
  "it_find ident n t = find (\<lambda>x. ident x = n) (it_items t)"

definition it_modify :: "('a \<Rightarrow> usize) \<Rightarrow> usize \<Rightarrow> ('a \<Rightarrow> 'a) \<Rightarrow> 'a id_table \<Rightarrow> 'a id_table" where
  "it_modify ident n f t = t\<lparr>it_items := update_first (\<lambda>x. ident x = n) f (it_items t)\<rparr>"

definition it_remove :: "('a \<Rightarrow> bool) \<Rightarrow> 'a id_table \<Rightarrow> bool \<times> 'a id_table" where
  "it_remove P t =
     (case position P (it_items t) of
        Some pos \<Rightarrow> (True, t\<lparr>it_items := remove_at pos (it_items t)\<rparr>)
      | None \<Rightarrow> (False, t))"

section \<open>Numbers are unique\<close>

definition ids_ok :: "('a \<Rightarrow> usize) \<Rightarrow> 'a id_table \<Rightarrow> bool" where
  "ids_ok ident t \<longleftrightarrow> distinct (map ident (it_items t)) \<and> (\<forall>x \<in> set (it_items t). ident x < it_next t)"

lemma ids_ok_new [simp]: "ids_ok ident it_new"
  by (simp add: ids_ok_def it_new_def)

lemma it_find_new [simp]: "it_find ident n it_new = None"
  by (simp add: it_find_def it_new_def)

lemma it_findD: "it_find ident n t = Some x \<Longrightarrow> x \<in> set (it_items t) \<and> ident x = n"
  by (auto simp: it_find_def dest: find_Some_in)

lemma it_find_iff:
  assumes "ids_ok ident t"
  shows "it_find ident n t = Some x \<longleftrightarrow> x \<in> set (it_items t) \<and> ident x = n"
proof
  assume x: "x \<in> set (it_items t) \<and> ident x = n"
  then obtain y where y: "it_find ident n t = Some y"
    by (cases "it_find ident n t") (auto simp: it_find_def find_None_iff)
  have "inj_on ident (set (it_items t))" using assms by (simp add: ids_ok_def distinct_map)
  then have "y = x" using it_findD [OF y] x by (auto dest: inj_onD)
  then show "it_find ident n t = Some x" using y by simp
qed (rule it_findD)

lemma it_find_less: "\<lbrakk>ids_ok ident t; it_find ident n t = Some x\<rbrakk> \<Longrightarrow> n < it_next t"
  by (auto simp: ids_ok_def dest: it_findD)

lemma it_find_push:
  assumes "ids_ok ident t" and "ident x = it_next t"
  shows "it_find ident n \<lparr>it_items = it_items t @ [x], it_next = m\<rparr> =
    (if n = it_next t then Some x else it_find ident n t)"
proof -
  have "it_find ident (it_next t) t = None"
    using it_find_less [OF assms(1)] by (metis less_irrefl not_Some_eq)
  then show ?thesis using assms(2) by (auto simp: it_find_def find_append split: option.splits)
qed

lemma ids_ok_push:
  "\<lbrakk>ids_ok ident t; ident x = it_next t\<rbrakk> \<Longrightarrow> ids_ok ident \<lparr>it_items = it_items t @ [x], it_next = it_next t + 1\<rparr>"
  by (fastforce simp: ids_ok_def)

lemma it_find_modify:
  assumes "\<And>x. ident (f x) = ident x"
  shows "it_find ident m (it_modify ident n f t) =
    (if m = n then map_option f (it_find ident n t) else it_find ident m t)"
proof -
  have "find (\<lambda>x. ident x = m) (update_first (\<lambda>x. ident x = n) f xs) =
      (if m = n then map_option f (find (\<lambda>x. ident x = n) xs) else find (\<lambda>x. ident x = m) xs)" for xs
    by (induction xs) (auto simp: assms)
  then show ?thesis by (simp add: it_find_def it_modify_def)
qed

lemma it_modify_simps [simp]:
  "it_next (it_modify ident n f t) = it_next t" "length (it_items (it_modify ident n f t)) = length (it_items t)"
  by (simp_all add: it_modify_def)

lemma ids_ok_modify:
  assumes "ids_ok ident t" and "\<And>x. ident (f x) = ident x"
  shows "ids_ok ident (it_modify ident n f t)"
  using assms by (auto simp: ids_ok_def it_modify_def map_update_first dest!: update_first_mem)

lemma it_modify_all:
  "\<lbrakk>\<forall>x \<in> set (it_items t). G x; \<And>x. G x \<Longrightarrow> it_find ident n t = Some x \<Longrightarrow> G (f x)\<rbrakk> \<Longrightarrow>
    \<forall>x \<in> set (it_items (it_modify ident n f t)). G x"
proof -
  assume all: "\<forall>x \<in> set (it_items t). G x" and step: "\<And>x. G x \<Longrightarrow> it_find ident n t = Some x \<Longrightarrow> G (f x)"
  show ?thesis
  proof (cases "it_find ident n t")
    case None
    then have "it_modify ident n f t = t" by (simp add: it_find_def find_None_iff it_modify_def)
    then show ?thesis using all by simp
  next
    case (Some a)
    have "set (update_first (\<lambda>x. ident x = n) f xs) \<subseteq> insert (f a) (set xs)"
      if "find (\<lambda>x. ident x = n) xs = Some a" for xs
      using that by (induction xs) (auto split: if_splits)
    then show ?thesis using all step Some it_findD [OF Some] by (fastforce simp: it_modify_def it_find_def)
  qed
qed

lemma it_removeE:
  assumes "it_remove P t = (True, t')"
  obtains pos where "position P (it_items t) = Some pos" and "t' = t\<lparr>it_items := remove_at pos (it_items t)\<rparr>"
  using assms by (auto simp: it_remove_def split: option.splits)

lemma it_remove_ok:
  assumes "ids_ok ident t"
  shows "ids_ok ident (snd (it_remove P t))" and "set (it_items (snd (it_remove P t))) \<subseteq> set (it_items t)"
    and "length (it_items (snd (it_remove P t))) \<le> length (it_items t)" and "it_next (snd (it_remove P t)) = it_next t"
proof -
  have "set (it_items (snd (it_remove P t))) \<subseteq> set (it_items t) \<and> it_next (snd (it_remove P t)) = it_next t \<and>
      distinct (map ident (it_items (snd (it_remove P t)))) \<and> length (it_items (snd (it_remove P t))) \<le> length (it_items t)"
    using assms set_remove_at
    by (fastforce simp: it_remove_def ids_ok_def map_remove_at distinct_remove_at position_Some split: option.splits)
  then show "ids_ok ident (snd (it_remove P t))" "set (it_items (snd (it_remove P t))) \<subseteq> set (it_items t)"
    "length (it_items (snd (it_remove P t))) \<le> length (it_items t)" "it_next (snd (it_remove P t)) = it_next t"
    using assms by (auto simp: ids_ok_def)
qed

lemma it_find_remove:
  assumes "ids_ok ident t"
  shows "it_find ident m (snd (it_remove (\<lambda>x. ident x = n) t)) = (if m = n then None else it_find ident m t)"
    and "fst (it_remove (\<lambda>x. ident x = n) t) \<longleftrightarrow> it_find ident n t \<noteq> None"
proof -
  have *: "find (\<lambda>x. ident x = m) (remove_at pos xs) = (if m = n then None else find (\<lambda>x. ident x = m) xs)"
    if "position (\<lambda>x. ident x = n) xs = Some pos" "distinct (map ident xs)" for pos xs
    using that
  proof (induction xs arbitrary: pos)
    case (Cons x xs)
    show ?case
    proof (cases "ident x = n")
      case True
      then have "n \<notin> ident ` set xs" using Cons.prems(2) by auto
      then have "find (\<lambda>y. ident y = n) xs = None" by (auto simp: find_None_iff)
      then show ?thesis using True Cons.prems by (auto simp: remove_at_def)
    next
      case False
      then obtain p where "pos = Suc p" "position (\<lambda>x. ident x = n) xs = Some p" using Cons.prems by auto
      then show ?thesis using Cons False by (auto simp: remove_at_def)
    qed
  qed simp
  show "it_find ident m (snd (it_remove (\<lambda>x. ident x = n) t)) = (if m = n then None else it_find ident m t)"
  proof (cases "position (\<lambda>x. ident x = n) (it_items t)")
    case None
    then show ?thesis
      using position_None [of "\<lambda>x. ident x = n" "it_items t"] by (auto simp: it_remove_def it_find_def find_None_iff)
  next
    case (Some pos)
    then show ?thesis using * [OF Some] assms by (simp add: it_remove_def it_find_def ids_ok_def)
  qed
  show "fst (it_remove (\<lambda>x. ident x = n) t) \<longleftrightarrow> it_find ident n t \<noteq> None"
    by (auto simp: it_remove_def it_find_def position_find split: option.splits)
qed

section \<open>Kinds of objects\<close>

text \<open>
  One kind of object of the kernel: how its number is read, how many there may be, and the
  invariant of each. The table invariant is kept by creating, changing and removing objects, and
  a number once given out names the same object until it is removed, and nothing afterwards.
\<close>

locale id_objects =
  fixes ident :: "'a \<Rightarrow> usize" and limit :: usize and good :: "'a \<Rightarrow> bool"
  assumes limit_pos: "0 < limit"
begin

definition objects_ok :: "'a id_table \<Rightarrow> bool" where
  "objects_ok t \<longleftrightarrow> ids_ok ident t \<and> length (it_items t) \<le> limit \<and> (\<forall>x \<in> set (it_items t). good x)"

lemma objects_ok_new: "objects_ok it_new"
  by (simp add: objects_ok_def) (simp add: it_new_def)

lemma objects_ok_ids: "objects_ok t \<Longrightarrow> ids_ok ident t"
  by (simp add: objects_ok_def)

lemma objects_ok_good: "\<lbrakk>objects_ok t; it_find ident n t = Some x\<rbrakk> \<Longrightarrow> good x"
  by (auto simp: objects_ok_def dest: it_findD)

lemma objects_ok_push:
  assumes "objects_ok t" and "\<And>n. ident (mk n) = n" and "\<And>n. good (mk n)"
  shows "objects_ok (snd (it_push limit mk t))"
  using assms ids_ok_push [of ident t "mk (it_next t)"] by (auto simp: it_push_def objects_ok_def Let_def)

lemma objects_ok_modify:
  assumes "objects_ok t" and "\<And>x. ident (f x) = ident x" and "\<And>x. good x \<Longrightarrow> it_find ident n t = Some x \<Longrightarrow> good (f x)"
  shows "objects_ok (it_modify ident n f t)"
  using assms ids_ok_modify [of ident t f n] it_modify_all [of t good ident n f] by (simp add: objects_ok_def)

lemma objects_ok_remove:
  assumes "objects_ok t"
  shows "objects_ok (snd (it_remove P t))"
  using assms it_remove_ok [of ident t P] by (auto simp: objects_ok_def)

lemma push_fresh:
  assumes "objects_ok t" and "it_push limit mk t = (Some n, t')" and "\<And>n. ident (mk n) = n"
  shows "it_find ident n t = None \<and>
    it_find ident m t' = (if m = n then Some (mk n) else it_find ident m t)"
  using assms it_find_push [of ident t "mk (it_next t)" m] it_find_less [of ident t "it_next t"]
  by (auto simp: it_push_def objects_ok_def Let_def split: if_splits intro: ccontr)

lemma push_succeeds: "length (it_items t) < limit \<Longrightarrow> fst (it_push limit mk t) = Some (it_next t)"
  by (simp add: it_push_def Let_def)

end

end
