(* ===== verification/Ipc_ext.thy ===== *)
theory Ipc_ext
  imports Id_Table Rust_Str
begin

text \<open>
  The extended IPC of the kernel (\<^verbatim>\<open>src/ipc_ext.rs\<close>): Unix domain sockets, message queues,
  semaphores, shared memory segments, event, signal and timer descriptors, epoll sets and
  namespaces. Each table is an \<open>id_table\<close>; the functions of the tables come first, then the
  public functions on the whole state. A checked addition or shift that overflows is \<open>None\<close>.
\<close>

definition MAX_UNIX_SOCKETS :: usize where "MAX_UNIX_SOCKETS = 64"
definition MAX_MESSAGE_QUEUES :: usize where "MAX_MESSAGE_QUEUES = 32"
definition MAX_MESSAGES_PER_QUEUE :: usize where "MAX_MESSAGES_PER_QUEUE = 128"
definition MAX_MESSAGE_SIZE :: usize where "MAX_MESSAGE_SIZE = 4096"
definition MAX_SEMAPHORES :: usize where "MAX_SEMAPHORES = 64"
definition MAX_SHM_SEGMENTS :: usize where "MAX_SHM_SEGMENTS = 32"
definition MAX_EVENTFDS :: usize where "MAX_EVENTFDS = 64"
definition MAX_SIGNALFDS :: usize where "MAX_SIGNALFDS = 32"
definition MAX_TIMERFDS :: usize where "MAX_TIMERFDS = 32"
definition MAX_EPOLLS :: usize where "MAX_EPOLLS = 32"
definition MAX_EPOLL_FDS :: usize where "MAX_EPOLL_FDS = 64"
definition MAX_IPC_NAMESPACES :: usize where "MAX_IPC_NAMESPACES = 16"

lemmas limit_defs = MAX_UNIX_SOCKETS_def MAX_MESSAGE_QUEUES_def MAX_MESSAGES_PER_QUEUE_def
  MAX_SEMAPHORES_def MAX_SHM_SEGMENTS_def MAX_EVENTFDS_def MAX_SIGNALFDS_def MAX_TIMERFDS_def
  MAX_EPOLLS_def MAX_EPOLL_FDS_def MAX_IPC_NAMESPACES_def

section \<open>Unix domain sockets\<close>

datatype socket_state = SCreated | SBound | SListening | SConnected | SClosed

record unix_socket =
  us_id :: usize
  us_address :: str
  us_state :: socket_state
  us_pid :: usize
  us_peer :: "usize option"
  us_recv :: "u8 list list"
  us_backlog :: "usize list"
  us_max_backlog :: usize
  us_namespace :: usize

type_synonym unix_socket_table = "unix_socket id_table"

definition new_socket :: "usize \<Rightarrow> usize \<Rightarrow> usize \<Rightarrow> unix_socket" where
  "new_socket pid ns n =
     \<lparr>us_id = n, us_address = [], us_state = SCreated, us_pid = pid, us_peer = None, us_recv = [],
      us_backlog = [], us_max_backlog = 16, us_namespace = ns\<rparr>"

definition us_create :: "unix_socket_table \<Rightarrow> usize \<Rightarrow> usize \<Rightarrow> usize option \<times> unix_socket_table" where
  "us_create t pid ns = it_push MAX_UNIX_SOCKETS (new_socket pid ns) t"

definition us_find :: "unix_socket_table \<Rightarrow> usize \<Rightarrow> unix_socket option" where
  "us_find t n = it_find us_id n t"

definition us_modify :: "usize \<Rightarrow> (unix_socket \<Rightarrow> unix_socket) \<Rightarrow> unix_socket_table \<Rightarrow> unix_socket_table" where
  "us_modify n f t = it_modify us_id n f t"

definition us_find_by_addr :: "unix_socket_table \<Rightarrow> str \<Rightarrow> usize \<Rightarrow> usize option" where
  "us_find_by_addr t addr ns =
     map_option us_id
       (find (\<lambda>s. us_address s = addr \<and> us_namespace s = ns \<and> (us_state s = SBound \<or> us_state s = SListening))
          (it_items t))"

definition us_remove :: "unix_socket_table \<Rightarrow> usize \<Rightarrow> bool \<times> unix_socket_table" where
  "us_remove t n = it_remove (\<lambda>s. us_id s = n) t"

section \<open>Message queues\<close>

record mq_message =
  mm_data :: "u8 list"
  mm_priority :: u32

record message_queue =
  mq_id :: usize
  mq_name :: str
  mq_messages :: "mq_message list"
  mq_max_messages :: usize
  mq_max_msg_size :: usize
  mq_namespace :: usize
  mq_total_sent :: u64
  mq_total_received :: u64

type_synonym mq_table = "message_queue id_table"

definition new_queue :: "str \<Rightarrow> usize \<Rightarrow> usize \<Rightarrow> message_queue" where
  "new_queue name ns n =
     \<lparr>mq_id = n, mq_name = name, mq_messages = [], mq_max_messages = MAX_MESSAGES_PER_QUEUE,
      mq_max_msg_size = MAX_MESSAGE_SIZE, mq_namespace = ns, mq_total_sent = 0, mq_total_received = 0\<rparr>"

definition mqt_open :: "mq_table \<Rightarrow> str \<Rightarrow> usize \<Rightarrow> usize option \<times> mq_table" where
  "mqt_open t name ns =
     (case find (\<lambda>q. mq_name q = name \<and> mq_namespace q = ns) (it_items t) of
        Some q \<Rightarrow> (Some (mq_id q), t)
      | None \<Rightarrow> it_push MAX_MESSAGE_QUEUES (new_queue name ns) t)"

definition mq_insert :: "u8 list \<Rightarrow> u32 \<Rightarrow> mq_message list \<Rightarrow> mq_message list" where
  "mq_insert data priority ms =
     (let msg = \<lparr>mm_data = data, mm_priority = priority\<rparr>;
          pos = (case position (\<lambda>m. mm_priority m < priority) ms of Some i \<Rightarrow> i | None \<Rightarrow> length ms)
      in insert_at pos msg ms)"

definition mqt_send :: "mq_table \<Rightarrow> usize \<Rightarrow> u8 list \<Rightarrow> u32 \<Rightarrow> bool \<times> mq_table" where
  "mqt_send t n data priority =
     (case it_find mq_id n t of
        None \<Rightarrow> (False, t)
      | Some q \<Rightarrow>
          if length (mq_messages q) \<ge> mq_max_messages q then (False, t)
          else if length data > mq_max_msg_size q then (False, t)
          else (True, it_modify mq_id n
                 (\<lambda>q. q\<lparr>mq_messages := mq_insert data priority (mq_messages q), mq_total_sent := mq_total_sent q + 1\<rparr>) t))"

definition mqt_receive :: "mq_table \<Rightarrow> usize \<Rightarrow> (u8 list \<times> u32) option \<times> mq_table" where
  "mqt_receive t n =
     (case it_find mq_id n t of
        None \<Rightarrow> (None, t)
      | Some q \<Rightarrow>
          (case mq_messages q of
             [] \<Rightarrow> (None, t)
           | m # ms \<Rightarrow>
               (Some (mm_data m, mm_priority m),
                it_modify mq_id n (\<lambda>q. q\<lparr>mq_messages := ms, mq_total_received := mq_total_received q + 1\<rparr>) t)))"

definition mqt_close :: "mq_table \<Rightarrow> usize \<Rightarrow> bool \<times> mq_table" where
  "mqt_close t n = it_remove (\<lambda>q. mq_id q = n) t"

section \<open>Semaphores\<close>

text \<open>The value is an \<^verbatim>\<open>i32\<close>.\<close>

definition I32_MAX :: int where "I32_MAX = 2147483647"

record semaphore =
  sm_id :: usize
  sm_name :: str
  sm_value :: int
  sm_max_value :: int
  sm_waiters :: usize
  sm_namespace :: usize
  sm_total_waits :: u64
  sm_total_posts :: u64

type_synonym sem_table = "semaphore id_table"

definition new_semaphore :: "str \<Rightarrow> int \<Rightarrow> usize \<Rightarrow> usize \<Rightarrow> semaphore" where
  "new_semaphore name v ns n =
     \<lparr>sm_id = n, sm_name = name, sm_value = v, sm_max_value = I32_MAX, sm_waiters = 0,
      sm_namespace = ns, sm_total_waits = 0, sm_total_posts = 0\<rparr>"

definition semt_init :: "sem_table \<Rightarrow> str \<Rightarrow> int \<Rightarrow> usize \<Rightarrow> usize option \<times> sem_table" where
  "semt_init t name v ns =
     (case find (\<lambda>s. sm_name s = name \<and> sm_namespace s = ns) (it_items t) of
        Some s \<Rightarrow> (Some (sm_id s), t)
      | None \<Rightarrow> it_push MAX_SEMAPHORES (new_semaphore name v ns) t)"

definition sem_take :: "semaphore \<Rightarrow> semaphore" where
  "sem_take s = s\<lparr>sm_value := sm_value s - 1, sm_total_waits := sm_total_waits s + 1\<rparr>"

definition semt_wait :: "sem_table \<Rightarrow> usize \<Rightarrow> bool \<times> sem_table" where
  "semt_wait t n =
     (case it_find sm_id n t of
        None \<Rightarrow> (False, t)
      | Some s \<Rightarrow>
          if sm_value s > 0 then (True, it_modify sm_id n sem_take t)
          else (False, it_modify sm_id n (\<lambda>s. s\<lparr>sm_waiters := sm_waiters s + 1\<rparr>) t))"

definition semt_trywait :: "sem_table \<Rightarrow> usize \<Rightarrow> bool \<times> sem_table" where
  "semt_trywait t n =
     (case it_find sm_id n t of
        None \<Rightarrow> (False, t)
      | Some s \<Rightarrow> if sm_value s > 0 then (True, it_modify sm_id n sem_take t) else (False, t))"

definition sem_give :: "semaphore \<Rightarrow> semaphore" where
  "sem_give s = s\<lparr>sm_value := sm_value s + 1, sm_total_posts := sm_total_posts s + 1, sm_waiters := sm_waiters s - 1\<rparr>"

definition semt_post :: "sem_table \<Rightarrow> usize \<Rightarrow> (bool \<times> sem_table) option" where
  "semt_post t n =
     (case it_find sm_id n t of
        None \<Rightarrow> Some (False, t)
      | Some s \<Rightarrow> if sm_value s = I32_MAX then None else Some (True, it_modify sm_id n sem_give t))"

definition semt_destroy :: "sem_table \<Rightarrow> usize \<Rightarrow> bool \<times> sem_table" where
  "semt_destroy t n = it_remove (\<lambda>s. sm_id s = n) t"

section \<open>Shared memory segments\<close>

record shm_segment =
  sg_id :: usize
  sg_name :: str
  sg_size :: usize
  sg_data :: "u8 list"
  sg_attached :: "usize list"
  sg_namespace :: usize

type_synonym shm_table = "shm_segment id_table"

definition new_segment :: "str \<Rightarrow> usize \<Rightarrow> usize \<Rightarrow> usize \<Rightarrow> shm_segment" where
  "new_segment name sz ns n =
     \<lparr>sg_id = n, sg_name = name, sg_size = sz, sg_data = replicate sz 0, sg_attached = [], sg_namespace = ns\<rparr>"

definition shmt_open :: "shm_table \<Rightarrow> str \<Rightarrow> usize \<Rightarrow> usize \<Rightarrow> usize option \<times> shm_table" where
  "shmt_open t name sz ns =
     (case find (\<lambda>g. sg_name g = name \<and> sg_namespace g = ns) (it_items t) of
        Some g \<Rightarrow> (Some (sg_id g), t)
      | None \<Rightarrow>
          if length (it_items t) \<ge> MAX_SHM_SEGMENTS then (None, t)
          else if sz = 0 then (None, t)
          else it_push MAX_SHM_SEGMENTS (new_segment name sz ns) t)"

definition shmt_unlink :: "shm_table \<Rightarrow> str \<Rightarrow> usize \<Rightarrow> bool \<times> shm_table" where
  "shmt_unlink t name ns = it_remove (\<lambda>g. sg_name g = name \<and> sg_namespace g = ns) t"

text \<open>\<^verbatim>\<open>if !pids.contains(&pid) { pids.push(pid) }\<close>, and removing the first occurrence.\<close>

definition add_once :: "usize \<Rightarrow> usize list \<Rightarrow> usize list" where
  "add_once pid pids = (if pid \<in> set pids then pids else pids @ [pid])"

definition remove_pid :: "usize \<Rightarrow> usize list \<Rightarrow> usize list option" where
  "remove_pid pid pids = map_option (\<lambda>pos. remove_at pos pids) (position (\<lambda>p. p = pid) pids)"

definition shmt_attach :: "shm_table \<Rightarrow> usize \<Rightarrow> usize \<Rightarrow> bool \<times> shm_table" where
  "shmt_attach t n pid =
     (case it_find sg_id n t of
        None \<Rightarrow> (False, t)
      | Some g \<Rightarrow> (True, it_modify sg_id n (\<lambda>g. g\<lparr>sg_attached := add_once pid (sg_attached g)\<rparr>) t))"

definition shmt_detach :: "shm_table \<Rightarrow> usize \<Rightarrow> usize \<Rightarrow> bool \<times> shm_table" where
  "shmt_detach t n pid =
     (case it_find sg_id n t of
        None \<Rightarrow> (False, t)
      | Some g \<Rightarrow>
          (case remove_pid pid (sg_attached g) of
             Some pids \<Rightarrow> (True, it_modify sg_id n (\<lambda>g. g\<lparr>sg_attached := pids\<rparr>) t)
           | None \<Rightarrow> (False, t)))"

section \<open>Event descriptors\<close>

record event_fd =
  ev_id :: usize
  ev_counter :: u64
  ev_pid :: usize
  ev_semaphore_mode :: bool

type_synonym eventfd_table = "event_fd id_table"

definition saturating_add_u64 :: "u64 \<Rightarrow> u64 \<Rightarrow> u64" where
  "saturating_add_u64 a b = (if unat a + unat b < 2 ^ 64 then a + b else -1)"

definition evt_create :: "eventfd_table \<Rightarrow> usize \<Rightarrow> u64 \<Rightarrow> bool \<Rightarrow> usize option \<times> eventfd_table" where
  "evt_create t pid init_val semaphore_mode =
     it_push MAX_EVENTFDS (\<lambda>n. \<lparr>ev_id = n, ev_counter = init_val, ev_pid = pid, ev_semaphore_mode = semaphore_mode\<rparr>) t"

definition evt_write :: "eventfd_table \<Rightarrow> usize \<Rightarrow> u64 \<Rightarrow> bool \<times> eventfd_table" where
  "evt_write t n v =
     (case it_find ev_id n t of
        None \<Rightarrow> (False, t)
      | Some e \<Rightarrow> (True, it_modify ev_id n (\<lambda>e. e\<lparr>ev_counter := saturating_add_u64 (ev_counter e) v\<rparr>) t))"

definition evt_read :: "eventfd_table \<Rightarrow> usize \<Rightarrow> u64 option \<times> eventfd_table" where
  "evt_read t n =
     (case it_find ev_id n t of
        None \<Rightarrow> (None, t)
      | Some e \<Rightarrow>
          if ev_counter e = 0 then (None, t)
          else if ev_semaphore_mode e
          then (Some 1, it_modify ev_id n (\<lambda>e. e\<lparr>ev_counter := ev_counter e - 1\<rparr>) t)
          else (Some (ev_counter e), it_modify ev_id n (\<lambda>e. e\<lparr>ev_counter := 0\<rparr>) t))"

definition evt_close :: "eventfd_table \<Rightarrow> usize \<Rightarrow> bool \<times> eventfd_table" where
  "evt_close t n = it_remove (\<lambda>e. ev_id e = n) t"

section \<open>Signal descriptors\<close>

record signal_fd =
  sf_id :: usize
  sf_pid :: usize
  sf_mask :: u64
  sf_pending :: "u32 list"

type_synonym signalfd_table = "signal_fd id_table"

definition sft_create :: "signalfd_table \<Rightarrow> usize \<Rightarrow> u64 \<Rightarrow> usize option \<times> signalfd_table" where
  "sft_create t pid signal_mask =
     it_push MAX_SIGNALFDS (\<lambda>n. \<lparr>sf_id = n, sf_pid = pid, sf_mask = signal_mask, sf_pending = []\<rparr>) t"

definition sf_watches :: "u32 \<Rightarrow> signal_fd \<Rightarrow> bool" where
  "sf_watches signal fd \<longleftrightarrow> sf_mask fd AND push_bit (unat signal) 1 \<noteq> 0"

text \<open>The shift of a 64-bit one by 64 or more is an overflow; it is only reached for a
  descriptor of the process.\<close>

definition sft_deliver :: "signalfd_table \<Rightarrow> usize \<Rightarrow> u32 \<Rightarrow> (bool \<times> signalfd_table) option" where
  "sft_deliver t pid signal =
     (if list_ex (\<lambda>fd. sf_pid fd = pid) (it_items t) \<and> signal \<ge> 64 then None
      else
        Some (list_ex (\<lambda>fd. sf_pid fd = pid \<and> sf_watches signal fd) (it_items t),
          t\<lparr>it_items := map (\<lambda>fd. if sf_pid fd = pid \<and> sf_watches signal fd
             then fd\<lparr>sf_pending := sf_pending fd @ [signal]\<rparr> else fd) (it_items t)\<rparr>))"

definition sft_read :: "signalfd_table \<Rightarrow> usize \<Rightarrow> u32 option \<times> signalfd_table" where
  "sft_read t n =
     (case find (\<lambda>fd. sf_id fd = n \<and> sf_pending fd \<noteq> []) (it_items t) of
        None \<Rightarrow> (None, t)
      | Some fd \<Rightarrow>
          (Some (hd (sf_pending fd)),
           t\<lparr>it_items := update_first (\<lambda>fd. sf_id fd = n \<and> sf_pending fd \<noteq> [])
               (\<lambda>fd. fd\<lparr>sf_pending := tl (sf_pending fd)\<rparr>) (it_items t)\<rparr>))"

definition sft_close :: "signalfd_table \<Rightarrow> usize \<Rightarrow> bool \<times> signalfd_table" where
  "sft_close t n = it_remove (\<lambda>fd. sf_id fd = n) t"

section \<open>Timer descriptors\<close>

record timer_fd =
  tf_id :: usize
  tf_pid :: usize
  tf_interval :: u64
  tf_next_expiry :: u64
  tf_expirations :: u64
  tf_armed :: bool

type_synonym timerfd_table = "timer_fd id_table"

definition checked_add_u64 :: "u64 \<Rightarrow> u64 \<Rightarrow> u64 option" where
  "checked_add_u64 a b = (if unat a + unat b < 2 ^ 64 then Some (a + b) else None)"

definition tft_create :: "timerfd_table \<Rightarrow> usize \<Rightarrow> usize option \<times> timerfd_table" where
  "tft_create t pid =
     it_push MAX_TIMERFDS (\<lambda>n. \<lparr>tf_id = n, tf_pid = pid, tf_interval = 0, tf_next_expiry = 0,
        tf_expirations = 0, tf_armed = False\<rparr>) t"

definition tft_arm :: "timerfd_table \<Rightarrow> usize \<Rightarrow> u64 \<Rightarrow> u64 \<Rightarrow> u64 \<Rightarrow> (bool \<times> timerfd_table) option" where
  "tft_arm t n initial_ticks interval_ticks now =
     (case it_find tf_id n t of
        None \<Rightarrow> Some (False, t)
      | Some fd \<Rightarrow>
          map_option (\<lambda>next_expiry.
            (True, it_modify tf_id n (\<lambda>fd. fd\<lparr>tf_next_expiry := next_expiry, tf_interval := interval_ticks,
               tf_expirations := 0, tf_armed := True\<rparr>) t))
            (checked_add_u64 now initial_ticks))"

definition tf_tick :: "u64 \<Rightarrow> timer_fd \<Rightarrow> timer_fd option" where
  "tf_tick now fd =
     (if tf_armed fd \<and> now \<ge> tf_next_expiry fd then
        let fd = fd\<lparr>tf_expirations := tf_expirations fd + 1\<rparr>
        in if tf_interval fd > 0
           then map_option (\<lambda>next_expiry. fd\<lparr>tf_next_expiry := next_expiry\<rparr>) (checked_add_u64 now (tf_interval fd))
           else Some (fd\<lparr>tf_armed := False\<rparr>)
      else Some fd)"

definition tft_tick :: "timerfd_table \<Rightarrow> u64 \<Rightarrow> timerfd_table option" where
  "tft_tick t now = map_option (\<lambda>fds. t\<lparr>it_items := fds\<rparr>) (those (map (tf_tick now) (it_items t)))"

definition tft_read :: "timerfd_table \<Rightarrow> usize \<Rightarrow> u64 option \<times> timerfd_table" where
  "tft_read t n =
     (case find (\<lambda>fd. tf_id fd = n \<and> tf_expirations fd > 0) (it_items t) of
        None \<Rightarrow> (None, t)
      | Some fd \<Rightarrow>
          (Some (tf_expirations fd),
           t\<lparr>it_items := update_first (\<lambda>fd. tf_id fd = n \<and> tf_expirations fd > 0)
               (\<lambda>fd. fd\<lparr>tf_expirations := 0\<rparr>) (it_items t)\<rparr>))"

definition tft_close :: "timerfd_table \<Rightarrow> usize \<Rightarrow> bool \<times> timerfd_table" where
  "tft_close t n = it_remove (\<lambda>fd. tf_id fd = n) t"

section \<open>Epoll sets\<close>

datatype epoll_event = EIn | EOut | EErr | EHup

record epoll_entry =
  ee_fd :: usize
  ee_events :: "epoll_event list"

record epoll_instance =
  ei_id :: usize
  ei_pid :: usize
  ei_entries :: "epoll_entry list"

type_synonym epoll_table = "epoll_instance id_table"

definition ept_create :: "epoll_table \<Rightarrow> usize \<Rightarrow> usize option \<times> epoll_table" where
  "ept_create t pid = it_push MAX_EPOLLS (\<lambda>n. \<lparr>ei_id = n, ei_pid = pid, ei_entries = []\<rparr>) t"

definition ept_add_fd :: "epoll_table \<Rightarrow> usize \<Rightarrow> usize \<Rightarrow> epoll_event list \<Rightarrow> bool \<times> epoll_table" where
  "ept_add_fd t n fd events =
     (case it_find ei_id n t of
        None \<Rightarrow> (False, t)
      | Some e \<Rightarrow>
          if length (ei_entries e) \<ge> MAX_EPOLL_FDS then (False, t)
          else if list_ex (\<lambda>x. ee_fd x = fd) (ei_entries e) then (False, t)
          else (True, it_modify ei_id n (\<lambda>e. e\<lparr>ei_entries := ei_entries e @ [\<lparr>ee_fd = fd, ee_events = events\<rparr>]\<rparr>) t))"

definition ept_remove_fd :: "epoll_table \<Rightarrow> usize \<Rightarrow> usize \<Rightarrow> bool \<times> epoll_table" where
  "ept_remove_fd t n fd =
     (case it_find ei_id n t of
        None \<Rightarrow> (False, t)
      | Some e \<Rightarrow>
          (case position (\<lambda>x. ee_fd x = fd) (ei_entries e) of
             Some pos \<Rightarrow> (True, it_modify ei_id n (\<lambda>e. e\<lparr>ei_entries := remove_at pos (ei_entries e)\<rparr>) t)
           | None \<Rightarrow> (False, t)))"

definition ept_wait :: "epoll_table \<Rightarrow> usize \<Rightarrow> (usize \<times> epoll_event) list" where
  "ept_wait t n =
     (case it_find ei_id n t of
        None \<Rightarrow> []
      | Some e \<Rightarrow> List.map_filter (\<lambda>x. case ee_events x of evt # _ \<Rightarrow> Some (ee_fd x, evt) | [] \<Rightarrow> None) (ei_entries e))"

definition ept_close :: "epoll_table \<Rightarrow> usize \<Rightarrow> bool \<times> epoll_table" where
  "ept_close t n = it_remove (\<lambda>e. ei_id e = n) t"

section \<open>Namespaces\<close>

record ipc_namespace =
  in_id :: usize
  in_name :: str
  in_pids :: "usize list"

type_synonym namespace_table = "ipc_namespace id_table"

definition nst_create :: "namespace_table \<Rightarrow> str \<Rightarrow> usize option \<times> namespace_table" where
  "nst_create t name = it_push MAX_IPC_NAMESPACES (\<lambda>n. \<lparr>in_id = n, in_name = name, in_pids = []\<rparr>) t"

definition nst_add_pid :: "namespace_table \<Rightarrow> usize \<Rightarrow> usize \<Rightarrow> bool \<times> namespace_table" where
  "nst_add_pid t n pid =
     (case it_find in_id n t of
        None \<Rightarrow> (False, t)
      | Some s \<Rightarrow> (True, it_modify in_id n (\<lambda>s. s\<lparr>in_pids := add_once pid (in_pids s)\<rparr>) t))"

definition nst_remove_pid :: "namespace_table \<Rightarrow> usize \<Rightarrow> usize \<Rightarrow> bool \<times> namespace_table" where
  "nst_remove_pid t n pid =
     (case it_find in_id n t of
        None \<Rightarrow> (False, t)
      | Some s \<Rightarrow>
          (case remove_pid pid (in_pids s) of
             Some pids \<Rightarrow> (True, it_modify in_id n (\<lambda>s. s\<lparr>in_pids := pids\<rparr>) t)
           | None \<Rightarrow> (False, t)))"

definition nst_destroy :: "namespace_table \<Rightarrow> usize \<Rightarrow> bool \<times> namespace_table" where
  "nst_destroy t n = it_remove (\<lambda>s. in_id s = n) t"

section \<open>The public functions\<close>

record ipc_ext =
  ix_sockets :: unix_socket_table
  ix_queues :: mq_table
  ix_sems :: sem_table
  ix_shm :: shm_table
  ix_events :: eventfd_table
  ix_signals :: signalfd_table
  ix_timers :: timerfd_table
  ix_epolls :: epoll_table
  ix_namespaces :: namespace_table
  ix_sent :: u64
  ix_recv :: u64
  ix_sem_ops :: u64
  ix_socket_ops :: u64
  ix_initialized :: bool

definition ipc_ext_boot :: ipc_ext where
  "ipc_ext_boot =
     \<lparr>ix_sockets = it_new, ix_queues = it_new, ix_sems = it_new, ix_shm = it_new, ix_events = it_new,
      ix_signals = it_new, ix_timers = it_new, ix_epolls = it_new, ix_namespaces = it_new,
      ix_sent = 0, ix_recv = 0, ix_sem_ops = 0, ix_socket_ops = 0, ix_initialized = False\<rparr>"

subsection \<open>Sockets\<close>

definition count_socket_op :: "ipc_ext \<Rightarrow> ipc_ext" where
  "count_socket_op s = s\<lparr>ix_socket_ops := ix_socket_ops s + 1\<rparr>"

definition socket_create :: "ipc_ext \<Rightarrow> usize \<Rightarrow> usize option \<times> ipc_ext" where
  "socket_create s pid =
     (let (res, t) = us_create (ix_sockets s) pid 0;
          s = s\<lparr>ix_sockets := t\<rparr>
      in (res, if res \<noteq> None then count_socket_op s else s))"

definition socket_bind :: "ipc_ext \<Rightarrow> usize \<Rightarrow> str \<Rightarrow> bool \<times> ipc_ext" where
  "socket_bind s n address =
     (case us_find (ix_sockets s) n of
        Some sock \<Rightarrow>
          if us_state sock \<noteq> SCreated then (False, s)
          else (True, s\<lparr>ix_sockets := us_modify n (\<lambda>k. k\<lparr>us_address := address, us_state := SBound\<rparr>) (ix_sockets s)\<rparr>)
      | None \<Rightarrow> (False, s))"

definition socket_listen :: "ipc_ext \<Rightarrow> usize \<Rightarrow> usize \<Rightarrow> bool \<times> ipc_ext" where
  "socket_listen s n backlog =
     (case us_find (ix_sockets s) n of
        Some sock \<Rightarrow>
          if us_state sock \<noteq> SBound then (False, s)
          else (True, s\<lparr>ix_sockets := us_modify n (\<lambda>k. k\<lparr>us_state := SListening, us_max_backlog := backlog\<rparr>) (ix_sockets s)\<rparr>)
      | None \<Rightarrow> (False, s))"

definition connect_to :: "usize \<Rightarrow> unix_socket \<Rightarrow> unix_socket" where
  "connect_to peer k = k\<lparr>us_state := SConnected, us_peer := Some peer\<rparr>"

definition socket_accept :: "ipc_ext \<Rightarrow> usize \<Rightarrow> usize option \<times> ipc_ext" where
  "socket_accept s n =
     (case us_find (ix_sockets s) n of
        None \<Rightarrow> (None, s)
      | Some sock \<Rightarrow>
          if us_state sock \<noteq> SListening then (None, s)
          else
            (case us_backlog sock of
              [] \<Rightarrow> (None, s)
            | client_id # rest \<Rightarrow>
                let t = us_modify n (\<lambda>k. k\<lparr>us_backlog := rest\<rparr>) (ix_sockets s)
                in (case us_create t (us_pid sock) (us_namespace sock) of
                      (None, t) \<Rightarrow> (None, s\<lparr>ix_sockets := t\<rparr>)
                    | (Some server_id, t) \<Rightarrow>
                        let t = us_modify server_id (connect_to client_id) t;
                            t = us_modify client_id (connect_to server_id) t
                        in (Some server_id, count_socket_op (s\<lparr>ix_sockets := t\<rparr>)))))"

definition socket_connect :: "ipc_ext \<Rightarrow> usize \<Rightarrow> str \<Rightarrow> bool \<times> ipc_ext" where
  "socket_connect s n address =
     (case us_find (ix_sockets s) n of
        None \<Rightarrow> (False, s)
      | Some sock \<Rightarrow>
          (case us_find_by_addr (ix_sockets s) address (us_namespace sock) of
             None \<Rightarrow> (False, s)
           | Some listener_id \<Rightarrow>
               (case us_find (ix_sockets s) listener_id of
                  Some listener \<Rightarrow>
                    if us_state listener \<noteq> SListening then (False, s)
                    else if length (us_backlog listener) \<ge> us_max_backlog listener then (False, s)
                    else (True, count_socket_op (s\<lparr>ix_sockets :=
                           us_modify listener_id (\<lambda>k. k\<lparr>us_backlog := us_backlog k @ [n]\<rparr>) (ix_sockets s)\<rparr>))
                | None \<Rightarrow> (True, count_socket_op s))))"

definition socket_send :: "ipc_ext \<Rightarrow> usize \<Rightarrow> u8 list \<Rightarrow> bool \<times> ipc_ext" where
  "socket_send s n data =
     (case us_find (ix_sockets s) n of
        None \<Rightarrow> (False, s)
      | Some sock \<Rightarrow>
          if us_state sock \<noteq> SConnected then (False, s)
          else
            (case us_peer sock of
              None \<Rightarrow> (False, s)
            | Some peer_id \<Rightarrow>
                (case us_find (ix_sockets s) peer_id of
                   Some peer \<Rightarrow>
                     (True, s\<lparr>ix_sockets := us_modify peer_id (\<lambda>k. k\<lparr>us_recv := us_recv k @ [data]\<rparr>) (ix_sockets s),
                              ix_sent := ix_sent s + 1\<rparr>)
                 | None \<Rightarrow> (False, s))))"

definition socket_recv :: "ipc_ext \<Rightarrow> usize \<Rightarrow> u8 list option \<times> ipc_ext" where
  "socket_recv s n =
     (case us_find (ix_sockets s) n of
        None \<Rightarrow> (None, s)
      | Some sock \<Rightarrow>
          if us_state sock \<noteq> SConnected then (None, s)
          else
            (case us_recv sock of
              [] \<Rightarrow> (None, s)
            | m # ms \<Rightarrow>
                (Some m, s\<lparr>ix_sockets := us_modify n (\<lambda>k. k\<lparr>us_recv := ms\<rparr>) (ix_sockets s),
                           ix_recv := ix_recv s + 1\<rparr>)))"

definition socket_close :: "ipc_ext \<Rightarrow> usize \<Rightarrow> bool \<times> ipc_ext" where
  "socket_close s n = (let (ok, t) = us_remove (ix_sockets s) n in (ok, s\<lparr>ix_sockets := t\<rparr>))"

subsection \<open>Queues and semaphores\<close>

definition mq_open :: "ipc_ext \<Rightarrow> str \<Rightarrow> usize option \<times> ipc_ext" where
  "mq_open s name = (let (res, t) = mqt_open (ix_queues s) name 0 in (res, s\<lparr>ix_queues := t\<rparr>))"

definition mq_send :: "ipc_ext \<Rightarrow> usize \<Rightarrow> u8 list \<Rightarrow> u32 \<Rightarrow> bool \<times> ipc_ext" where
  "mq_send s n data priority =
     (let (ok, t) = mqt_send (ix_queues s) n data priority;
          s = s\<lparr>ix_queues := t\<rparr>
      in (ok, if ok then s\<lparr>ix_sent := ix_sent s + 1\<rparr> else s))"

definition mq_receive :: "ipc_ext \<Rightarrow> usize \<Rightarrow> (u8 list \<times> u32) option \<times> ipc_ext" where
  "mq_receive s n =
     (let (res, t) = mqt_receive (ix_queues s) n;
          s = s\<lparr>ix_queues := t\<rparr>
      in (res, if res \<noteq> None then s\<lparr>ix_recv := ix_recv s + 1\<rparr> else s))"

definition mq_close :: "ipc_ext \<Rightarrow> usize \<Rightarrow> bool \<times> ipc_ext" where
  "mq_close s n = (let (ok, t) = mqt_close (ix_queues s) n in (ok, s\<lparr>ix_queues := t\<rparr>))"

definition sem_init :: "ipc_ext \<Rightarrow> str \<Rightarrow> 32 word \<Rightarrow> usize option \<times> ipc_ext" where
  "sem_init s name v = (let (res, t) = semt_init (ix_sems s) name (sint v) 0 in (res, s\<lparr>ix_sems := t\<rparr>))"

definition count_sem_op :: "bool \<Rightarrow> ipc_ext \<Rightarrow> ipc_ext" where
  "count_sem_op ok s = (if ok then s\<lparr>ix_sem_ops := ix_sem_ops s + 1\<rparr> else s)"

definition sem_wait :: "ipc_ext \<Rightarrow> usize \<Rightarrow> bool \<times> ipc_ext" where
  "sem_wait s n = (let (ok, t) = semt_wait (ix_sems s) n in (ok, count_sem_op ok (s\<lparr>ix_sems := t\<rparr>)))"

definition sem_trywait :: "ipc_ext \<Rightarrow> usize \<Rightarrow> bool \<times> ipc_ext" where
  "sem_trywait s n = (let (ok, t) = semt_trywait (ix_sems s) n in (ok, count_sem_op ok (s\<lparr>ix_sems := t\<rparr>)))"

definition sem_post :: "ipc_ext \<Rightarrow> usize \<Rightarrow> (bool \<times> ipc_ext) option" where
  "sem_post s n = map_option (\<lambda>(ok, t). (ok, count_sem_op ok (s\<lparr>ix_sems := t\<rparr>))) (semt_post (ix_sems s) n)"

definition sem_destroy :: "ipc_ext \<Rightarrow> usize \<Rightarrow> bool \<times> ipc_ext" where
  "sem_destroy s n = (let (ok, t) = semt_destroy (ix_sems s) n in (ok, s\<lparr>ix_sems := t\<rparr>))"

subsection \<open>Memory and descriptors\<close>

definition shm_open :: "ipc_ext \<Rightarrow> str \<Rightarrow> usize \<Rightarrow> usize option \<times> ipc_ext" where
  "shm_open s name sz = (let (res, t) = shmt_open (ix_shm s) name sz 0 in (res, s\<lparr>ix_shm := t\<rparr>))"

definition shm_unlink :: "ipc_ext \<Rightarrow> str \<Rightarrow> bool \<times> ipc_ext" where
  "shm_unlink s name = (let (ok, t) = shmt_unlink (ix_shm s) name 0 in (ok, s\<lparr>ix_shm := t\<rparr>))"

definition shm_attach :: "ipc_ext \<Rightarrow> usize \<Rightarrow> usize \<Rightarrow> bool \<times> ipc_ext" where
  "shm_attach s n pid = (let (ok, t) = shmt_attach (ix_shm s) n pid in (ok, s\<lparr>ix_shm := t\<rparr>))"

definition shm_detach :: "ipc_ext \<Rightarrow> usize \<Rightarrow> usize \<Rightarrow> bool \<times> ipc_ext" where
  "shm_detach s n pid = (let (ok, t) = shmt_detach (ix_shm s) n pid in (ok, s\<lparr>ix_shm := t\<rparr>))"

definition eventfd_create :: "ipc_ext \<Rightarrow> usize \<Rightarrow> u64 \<Rightarrow> bool \<Rightarrow> usize option \<times> ipc_ext" where
  "eventfd_create s pid init_val mode = (let (res, t) = evt_create (ix_events s) pid init_val mode in (res, s\<lparr>ix_events := t\<rparr>))"

definition eventfd_write :: "ipc_ext \<Rightarrow> usize \<Rightarrow> u64 \<Rightarrow> bool \<times> ipc_ext" where
  "eventfd_write s n v = (let (ok, t) = evt_write (ix_events s) n v in (ok, s\<lparr>ix_events := t\<rparr>))"

definition eventfd_read :: "ipc_ext \<Rightarrow> usize \<Rightarrow> u64 option \<times> ipc_ext" where
  "eventfd_read s n = (let (res, t) = evt_read (ix_events s) n in (res, s\<lparr>ix_events := t\<rparr>))"

definition eventfd_close :: "ipc_ext \<Rightarrow> usize \<Rightarrow> bool \<times> ipc_ext" where
  "eventfd_close s n = (let (ok, t) = evt_close (ix_events s) n in (ok, s\<lparr>ix_events := t\<rparr>))"

definition signalfd_create :: "ipc_ext \<Rightarrow> usize \<Rightarrow> u64 \<Rightarrow> usize option \<times> ipc_ext" where
  "signalfd_create s pid signal_mask = (let (res, t) = sft_create (ix_signals s) pid signal_mask in (res, s\<lparr>ix_signals := t\<rparr>))"

definition signalfd_deliver :: "ipc_ext \<Rightarrow> usize \<Rightarrow> u32 \<Rightarrow> (bool \<times> ipc_ext) option" where
  "signalfd_deliver s pid signal =
     map_option (\<lambda>(ok, t). (ok, s\<lparr>ix_signals := t\<rparr>)) (sft_deliver (ix_signals s) pid signal)"

definition signalfd_read :: "ipc_ext \<Rightarrow> usize \<Rightarrow> u32 option \<times> ipc_ext" where
  "signalfd_read s n = (let (res, t) = sft_read (ix_signals s) n in (res, s\<lparr>ix_signals := t\<rparr>))"

definition signalfd_close :: "ipc_ext \<Rightarrow> usize \<Rightarrow> bool \<times> ipc_ext" where
  "signalfd_close s n = (let (ok, t) = sft_close (ix_signals s) n in (ok, s\<lparr>ix_signals := t\<rparr>))"

definition timerfd_create :: "ipc_ext \<Rightarrow> usize \<Rightarrow> usize option \<times> ipc_ext" where
  "timerfd_create s pid = (let (res, t) = tft_create (ix_timers s) pid in (res, s\<lparr>ix_timers := t\<rparr>))"

definition timerfd_arm :: "ipc_ext \<Rightarrow> usize \<Rightarrow> u64 \<Rightarrow> u64 \<Rightarrow> u64 \<Rightarrow> (bool \<times> ipc_ext) option" where
  "timerfd_arm s n initial_ticks interval_ticks now =
     map_option (\<lambda>(ok, t). (ok, s\<lparr>ix_timers := t\<rparr>)) (tft_arm (ix_timers s) n initial_ticks interval_ticks now)"

definition timerfd_tick :: "ipc_ext \<Rightarrow> u64 \<Rightarrow> ipc_ext option" where
  "timerfd_tick s now = map_option (\<lambda>t. s\<lparr>ix_timers := t\<rparr>) (tft_tick (ix_timers s) now)"

definition timerfd_read :: "ipc_ext \<Rightarrow> usize \<Rightarrow> u64 option \<times> ipc_ext" where
  "timerfd_read s n = (let (res, t) = tft_read (ix_timers s) n in (res, s\<lparr>ix_timers := t\<rparr>))"

definition timerfd_close :: "ipc_ext \<Rightarrow> usize \<Rightarrow> bool \<times> ipc_ext" where
  "timerfd_close s n = (let (ok, t) = tft_close (ix_timers s) n in (ok, s\<lparr>ix_timers := t\<rparr>))"

definition epoll_create :: "ipc_ext \<Rightarrow> usize \<Rightarrow> usize option \<times> ipc_ext" where
  "epoll_create s pid = (let (res, t) = ept_create (ix_epolls s) pid in (res, s\<lparr>ix_epolls := t\<rparr>))"

definition epoll_add :: "ipc_ext \<Rightarrow> usize \<Rightarrow> usize \<Rightarrow> epoll_event list \<Rightarrow> bool \<times> ipc_ext" where
  "epoll_add s n fd events = (let (ok, t) = ept_add_fd (ix_epolls s) n fd events in (ok, s\<lparr>ix_epolls := t\<rparr>))"

definition epoll_remove :: "ipc_ext \<Rightarrow> usize \<Rightarrow> usize \<Rightarrow> bool \<times> ipc_ext" where
  "epoll_remove s n fd = (let (ok, t) = ept_remove_fd (ix_epolls s) n fd in (ok, s\<lparr>ix_epolls := t\<rparr>))"

definition epoll_wait :: "ipc_ext \<Rightarrow> usize \<Rightarrow> (usize \<times> epoll_event) list" where
  "epoll_wait s n = ept_wait (ix_epolls s) n"

definition epoll_close :: "ipc_ext \<Rightarrow> usize \<Rightarrow> bool \<times> ipc_ext" where
  "epoll_close s n = (let (ok, t) = ept_close (ix_epolls s) n in (ok, s\<lparr>ix_epolls := t\<rparr>))"

definition namespace_create :: "ipc_ext \<Rightarrow> str \<Rightarrow> usize option \<times> ipc_ext" where
  "namespace_create s name = (let (res, t) = nst_create (ix_namespaces s) name in (res, s\<lparr>ix_namespaces := t\<rparr>))"

definition namespace_add_pid :: "ipc_ext \<Rightarrow> usize \<Rightarrow> usize \<Rightarrow> bool \<times> ipc_ext" where
  "namespace_add_pid s n pid = (let (ok, t) = nst_add_pid (ix_namespaces s) n pid in (ok, s\<lparr>ix_namespaces := t\<rparr>))"

definition namespace_remove_pid :: "ipc_ext \<Rightarrow> usize \<Rightarrow> usize \<Rightarrow> bool \<times> ipc_ext" where
  "namespace_remove_pid s n pid = (let (ok, t) = nst_remove_pid (ix_namespaces s) n pid in (ok, s\<lparr>ix_namespaces := t\<rparr>))"

definition namespace_destroy :: "ipc_ext \<Rightarrow> usize \<Rightarrow> bool \<times> ipc_ext" where
  "namespace_destroy s n = (let (ok, t) = nst_destroy (ix_namespaces s) n in (ok, s\<lparr>ix_namespaces := t\<rparr>))"

definition ipc_ext_init :: "ipc_ext \<Rightarrow> ipc_ext" where
  "ipc_ext_init s = s\<lparr>ix_initialized := True\<rparr>"

subsection \<open>Reports\<close>

definition show_int :: "int \<Rightarrow> str" where
  "show_int i = (if i < 0 then ''-'' @ show_nat (nat (- i)) else show_nat (nat i))"

definition mq_line :: "message_queue \<Rightarrow> str" where
  "mq_line q =
     ''mq '' @ [CHR 0x27] @ mq_name q @ [CHR 0x27] @ '': '' @ show_nat (length (mq_messages q)) @
     '' pending, sent='' @ show_u64 (mq_total_sent q) @ '', recv='' @ show_u64 (mq_total_received q) @ [newline]"

definition sem_line :: "semaphore \<Rightarrow> str" where
  "sem_line s =
     ''sem '' @ [CHR 0x27] @ sm_name s @ [CHR 0x27] @ '': val='' @ show_int (sm_value s) @
     '', waiters='' @ show_nat (sm_waiters s) @ '', waits='' @ show_u64 (sm_total_waits s) @
     '', posts='' @ show_u64 (sm_total_posts s) @ [newline]"

definition mq_list_info :: "ipc_ext \<Rightarrow> str" where
  "mq_list_info s =
     (if it_items (ix_queues s) = [] then ''(no message queues)''
      else concat (map mq_line (it_items (ix_queues s))))"

definition sem_list_info :: "ipc_ext \<Rightarrow> str" where
  "sem_list_info s =
     (if it_items (ix_sems s) = [] then ''(no semaphores)''
      else concat (map sem_line (it_items (ix_sems s))))"

definition ipc_ext_info :: "ipc_ext \<Rightarrow> str" where
  "ipc_ext_info s =
     ''=== Extended IPC Status ==='' @ [newline] @
     ''Unix sockets: '' @ show_nat (length (it_items (ix_sockets s))) @ [newline] @
     ''Message queues: '' @ show_nat (length (it_items (ix_queues s))) @ [newline] @
     concat (map (\<lambda>q. ''  '' @ mq_line q) (it_items (ix_queues s))) @
     ''Semaphores: '' @ show_nat (length (it_items (ix_sems s))) @ [newline] @
     concat (map (\<lambda>m. ''  '' @ sem_line m) (it_items (ix_sems s))) @
     ''Shared memory segments: '' @ show_nat (length (it_items (ix_shm s))) @ [newline] @
     ''Event FDs: '' @ show_nat (length (it_items (ix_events s))) @ [newline] @
     ''Signal FDs: '' @ show_nat (length (it_items (ix_signals s))) @ [newline] @
     ''Timer FDs: '' @ show_nat (length (it_items (ix_timers s))) @ [newline] @
     ''Epoll instances: '' @ show_nat (length (it_items (ix_epolls s))) @ [newline] @
     ''IPC namespaces: '' @ show_nat (length (it_items (ix_namespaces s))) @ [newline] @
     ''Total messages sent: '' @ show_u64 (ix_sent s) @ [newline] @
     ''Total messages received: '' @ show_u64 (ix_recv s) @ [newline] @
     ''Total semaphore ops: '' @ show_u64 (ix_sem_ops s) @ [newline] @
     ''Total socket ops: '' @ show_u64 (ix_socket_ops s) @ [newline]"

section \<open>Histories\<close>

datatype us_op =
    SocketCreate usize | SocketBind usize str | SocketListen usize usize | SocketAccept usize
  | SocketConnect usize str | SocketSend usize "u8 list" | SocketRecv usize | SocketClose usize

datatype mq_op = MqOpen str | MqSend usize "u8 list" u32 | MqReceive usize | MqClose usize

datatype sem_op = SemInit str "32 word" | SemWait usize | SemTrywait usize | SemPost usize | SemDestroy usize

datatype seg_op = ShmOpen str usize | ShmUnlink str | ShmAttach usize usize | ShmDetach usize usize

datatype ev_op =
    EventfdCreate usize u64 bool | EventfdWrite usize u64 | EventfdRead usize | EventfdClose usize
  | SignalfdCreate usize u64 | SignalfdDeliver usize u32 | SignalfdRead usize | SignalfdClose usize

datatype tf_op = TimerfdCreate usize | TimerfdArm usize u64 u64 u64 | TimerfdTick u64 | TimerfdRead usize | TimerfdClose usize

datatype ep_op =
    EpollCreate usize | EpollAdd usize usize "epoll_event list" | EpollRemove usize usize | EpollClose usize
  | NamespaceCreate str | NamespaceAddPid usize usize | NamespaceRemovePid usize usize | NamespaceDestroy usize

datatype ix_op = UsOp us_op | MqOp mq_op | SemOp sem_op | ShmOp seg_op | EvOp ev_op | TfOp tf_op | EpOp ep_op

datatype ix_out =
    Flag bool | Handle "usize option" | Bytes "u8 list option" | Message "(u8 list \<times> u32) option"
  | Ticks "u64 option" | Signo "u32 option" | Done

fun us_step :: "ipc_ext \<Rightarrow> us_op \<Rightarrow> ix_out \<times> ipc_ext" where
  "us_step s (SocketCreate pid) = apfst Handle (socket_create s pid)"
| "us_step s (SocketBind n a) = apfst Flag (socket_bind s n a)"
| "us_step s (SocketListen n b) = apfst Flag (socket_listen s n b)"
| "us_step s (SocketAccept n) = apfst Handle (socket_accept s n)"
| "us_step s (SocketConnect n a) = apfst Flag (socket_connect s n a)"
| "us_step s (SocketSend n d) = apfst Flag (socket_send s n d)"
| "us_step s (SocketRecv n) = apfst Bytes (socket_recv s n)"
| "us_step s (SocketClose n) = apfst Flag (socket_close s n)"

fun mq_step :: "ipc_ext \<Rightarrow> mq_op \<Rightarrow> ix_out \<times> ipc_ext" where
  "mq_step s (MqOpen name) = apfst Handle (mq_open s name)"
| "mq_step s (MqSend n d p) = apfst Flag (mq_send s n d p)"
| "mq_step s (MqReceive n) = apfst Message (mq_receive s n)"
| "mq_step s (MqClose n) = apfst Flag (mq_close s n)"

fun sem_step :: "ipc_ext \<Rightarrow> sem_op \<Rightarrow> (ix_out \<times> ipc_ext) option" where
  "sem_step s (SemInit name v) = Some (apfst Handle (sem_init s name v))"
| "sem_step s (SemWait n) = Some (apfst Flag (sem_wait s n))"
| "sem_step s (SemTrywait n) = Some (apfst Flag (sem_trywait s n))"
| "sem_step s (SemPost n) = map_option (apfst Flag) (sem_post s n)"
| "sem_step s (SemDestroy n) = Some (apfst Flag (sem_destroy s n))"

fun shm_api_step :: "ipc_ext \<Rightarrow> seg_op \<Rightarrow> ix_out \<times> ipc_ext" where
  "shm_api_step s (ShmOpen name sz) = apfst Handle (shm_open s name sz)"
| "shm_api_step s (ShmUnlink name) = apfst Flag (shm_unlink s name)"
| "shm_api_step s (ShmAttach n pid) = apfst Flag (shm_attach s n pid)"
| "shm_api_step s (ShmDetach n pid) = apfst Flag (shm_detach s n pid)"

fun ev_step :: "ipc_ext \<Rightarrow> ev_op \<Rightarrow> (ix_out \<times> ipc_ext) option" where
  "ev_step s (EventfdCreate pid v m) = Some (apfst Handle (eventfd_create s pid v m))"
| "ev_step s (EventfdWrite n v) = Some (apfst Flag (eventfd_write s n v))"
| "ev_step s (EventfdRead n) = Some (apfst Ticks (eventfd_read s n))"
| "ev_step s (EventfdClose n) = Some (apfst Flag (eventfd_close s n))"
| "ev_step s (SignalfdCreate pid m) = Some (apfst Handle (signalfd_create s pid m))"
| "ev_step s (SignalfdDeliver pid g) = map_option (apfst Flag) (signalfd_deliver s pid g)"
| "ev_step s (SignalfdRead n) = Some (apfst Signo (signalfd_read s n))"
| "ev_step s (SignalfdClose n) = Some (apfst Flag (signalfd_close s n))"

fun tf_step :: "ipc_ext \<Rightarrow> tf_op \<Rightarrow> (ix_out \<times> ipc_ext) option" where
  "tf_step s (TimerfdCreate pid) = Some (apfst Handle (timerfd_create s pid))"
| "tf_step s (TimerfdArm n i j now) = map_option (apfst Flag) (timerfd_arm s n i j now)"
| "tf_step s (TimerfdTick now) = map_option (Pair Done) (timerfd_tick s now)"
| "tf_step s (TimerfdRead n) = Some (apfst Ticks (timerfd_read s n))"
| "tf_step s (TimerfdClose n) = Some (apfst Flag (timerfd_close s n))"

fun ep_step :: "ipc_ext \<Rightarrow> ep_op \<Rightarrow> ix_out \<times> ipc_ext" where
  "ep_step s (EpollCreate pid) = apfst Handle (epoll_create s pid)"
| "ep_step s (EpollAdd n fd es) = apfst Flag (epoll_add s n fd es)"
| "ep_step s (EpollRemove n fd) = apfst Flag (epoll_remove s n fd)"
| "ep_step s (EpollClose n) = apfst Flag (epoll_close s n)"
| "ep_step s (NamespaceCreate name) = apfst Handle (namespace_create s name)"
| "ep_step s (NamespaceAddPid n pid) = apfst Flag (namespace_add_pid s n pid)"
| "ep_step s (NamespaceRemovePid n pid) = apfst Flag (namespace_remove_pid s n pid)"
| "ep_step s (NamespaceDestroy n) = apfst Flag (namespace_destroy s n)"

fun ix_step :: "ipc_ext \<Rightarrow> ix_op \<Rightarrow> (ix_out \<times> ipc_ext) option" where
  "ix_step s (UsOp op) = Some (us_step s op)"
| "ix_step s (MqOp op) = Some (mq_step s op)"
| "ix_step s (SemOp op) = sem_step s op"
| "ix_step s (ShmOp op) = Some (shm_api_step s op)"
| "ix_step s (EvOp op) = ev_step s op"
| "ix_step s (TfOp op) = tf_step s op"
| "ix_step s (EpOp op) = Some (ep_step s op)"

text \<open>A history without a panic: the operations with their answers.\<close>

inductive ix_run :: "ipc_ext \<Rightarrow> (ix_op \<times> ix_out) list \<Rightarrow> ipc_ext \<Rightarrow> bool" where
  run_Nil: "ix_run s [] s"
| run_Cons: "ix_step s op = Some (out, s1) \<Longrightarrow> ix_run s1 h s2 \<Longrightarrow> ix_run s ((op, out) # h) s2"

inductive_cases ix_run_NilE: "ix_run s [] s'"
inductive_cases ix_run_ConsE: "ix_run s (e # h) s'"

end
