(* ===== verification/Ipc_ext_props.thy ===== *)
theory Ipc_ext_props
  imports Ipc_ext
begin

text \<open>
  Correctness of the extended IPC (\<^verbatim>\<open>src/ipc_ext.rs\<close>): the invariant of the tables, message
  queues as priority queues, delivery through sockets, and semaphores.
\<close>

section \<open>The invariant\<close>

definition us_ok :: "unix_socket \<Rightarrow> bool" where
  "us_ok k \<longleftrightarrow> length (us_backlog k) \<le> us_max_backlog k \<and>
     (us_state k \<in> {SCreated, SBound} \<longrightarrow> us_backlog k = []) \<and> (us_peer k \<noteq> None \<longleftrightarrow> us_state k = SConnected)"

definition mq_ok :: "message_queue \<Rightarrow> bool" where
  "mq_ok q \<longleftrightarrow> sorted_wrt (\<lambda>a b. mm_priority a \<ge> mm_priority b) (mq_messages q) \<and>
     length (mq_messages q) \<le> mq_max_messages q \<and> mq_max_messages q = MAX_MESSAGES_PER_QUEUE \<and>
     mq_max_msg_size q = MAX_MESSAGE_SIZE \<and> (\<forall>m \<in> set (mq_messages q). length (mm_data m) \<le> MAX_MESSAGE_SIZE)"

definition sm_ok :: "semaphore \<Rightarrow> bool" where
  "sm_ok m \<longleftrightarrow> - I32_MAX - 1 \<le> sm_value m \<and> sm_value m \<le> I32_MAX"

definition sg_ok :: "shm_segment \<Rightarrow> bool" where
  "sg_ok g \<longleftrightarrow> 0 < sg_size g \<and> length (sg_data g) = sg_size g \<and> distinct (sg_attached g)"

definition ei_ok :: "epoll_instance \<Rightarrow> bool" where
  "ei_ok e \<longleftrightarrow> length (ei_entries e) \<le> MAX_EPOLL_FDS \<and> distinct (map ee_fd (ei_entries e))"

definition in_ok :: "ipc_namespace \<Rightarrow> bool" where
  "in_ok n \<longleftrightarrow> distinct (in_pids n)"

interpretation us: id_objects us_id MAX_UNIX_SOCKETS us_ok
  by unfold_locales (simp add: limit_defs)

interpretation mq: id_objects mq_id MAX_MESSAGE_QUEUES mq_ok
  by unfold_locales (simp add: limit_defs)

interpretation sm: id_objects sm_id MAX_SEMAPHORES sm_ok
  by unfold_locales (simp add: limit_defs)

interpretation sg: id_objects sg_id MAX_SHM_SEGMENTS sg_ok
  by unfold_locales (simp add: limit_defs)

interpretation ev: id_objects ev_id MAX_EVENTFDS "\<lambda>_. True"
  by unfold_locales (simp add: limit_defs)

interpretation sf: id_objects sf_id MAX_SIGNALFDS "\<lambda>_. True"
  by unfold_locales (simp add: limit_defs)

interpretation tf: id_objects tf_id MAX_TIMERFDS "\<lambda>_. True"
  by unfold_locales (simp add: limit_defs)

interpretation ei: id_objects ei_id MAX_EPOLLS ei_ok
  by unfold_locales (simp add: limit_defs)

interpretation ins: id_objects in_id MAX_IPC_NAMESPACES in_ok
  by unfold_locales (simp add: limit_defs)

text \<open>No two objects of a table have the same name in the same namespace.\<close>

definition names_ok :: "('a \<Rightarrow> str \<times> usize) \<Rightarrow> 'a id_table \<Rightarrow> bool" where
  "names_ok nm t \<longleftrightarrow> distinct (map nm (it_items t))"

definition ipc_ext_ok :: "ipc_ext \<Rightarrow> bool" where
  "ipc_ext_ok s \<longleftrightarrow>
     us.objects_ok (ix_sockets s) \<and> mq.objects_ok (ix_queues s) \<and> sm.objects_ok (ix_sems s) \<and>
     sg.objects_ok (ix_shm s) \<and> ev.objects_ok (ix_events s) \<and> sf.objects_ok (ix_signals s) \<and>
     tf.objects_ok (ix_timers s) \<and> ei.objects_ok (ix_epolls s) \<and> ins.objects_ok (ix_namespaces s) \<and>
     names_ok (\<lambda>q. (mq_name q, mq_namespace q)) (ix_queues s) \<and>
     names_ok (\<lambda>m. (sm_name m, sm_namespace m)) (ix_sems s) \<and>
     names_ok (\<lambda>g. (sg_name g, sg_namespace g)) (ix_shm s)"

subsection \<open>Each function keeps the invariant of its table\<close>

lemma us_create_ok: "us.objects_ok t \<Longrightarrow> us.objects_ok (snd (us_create t pid ns))"
  unfolding us_create_def by (intro us.objects_ok_push) (simp_all add: new_socket_def us_ok_def)

lemma us_created_ok: "\<lbrakk>us_create t pid ns = (r, t'); us.objects_ok t\<rbrakk> \<Longrightarrow> us.objects_ok t'"
  using us_create_ok [of t pid ns] by simp

lemma us_modify_ok:
  "\<lbrakk>us.objects_ok t; \<And>k. us_id (f k) = us_id k; \<And>k. us_ok k \<Longrightarrow> us_find t n = Some k \<Longrightarrow> us_ok (f k)\<rbrakk> \<Longrightarrow>
    us.objects_ok (us_modify n f t)"
  unfolding us_modify_def by (rule us.objects_ok_modify) (simp_all add: us_find_def)

lemma connect_to_ok: "us.objects_ok t \<Longrightarrow> us.objects_ok (us_modify n (connect_to p) t)"
  by (rule us_modify_ok) (auto simp: connect_to_def us_ok_def)

lemma socket_accept_ok:
  assumes "us.objects_ok (ix_sockets s)"
  shows "us.objects_ok (ix_sockets (snd (socket_accept s n)))"
proof -
  have "us.objects_ok (us_modify n (\<lambda>k. k\<lparr>us_backlog := rest\<rparr>) (ix_sockets s))"
    if "us_find (ix_sockets s) n = Some k" "us_backlog k = c # rest" for k c rest
    by (rule us_modify_ok [OF assms]) (use that in \<open>auto simp: us_ok_def\<close>)
  then show ?thesis
    using assms
    by (auto simp: socket_accept_def count_socket_op_def Let_def intro!: connect_to_ok
        dest!: us_created_ok split: option.split list.split prod.split)
qed

lemma socket_connect_ok:
  assumes "us.objects_ok (ix_sockets s)"
  shows "us.objects_ok (ix_sockets (snd (socket_connect s n a)))"
proof -
  have "us.objects_ok (us_modify l (\<lambda>k. k\<lparr>us_backlog := us_backlog k @ [n]\<rparr>) (ix_sockets s))"
    if "us_find (ix_sockets s) l = Some k" "us_state k = SListening" "length (us_backlog k) < us_max_backlog k" for k l
    by (rule us_modify_ok [OF assms]) (use that in \<open>auto simp: us_ok_def\<close>)
  then show ?thesis
    using assms by (auto simp: socket_connect_def count_socket_op_def split: option.splits)
qed

lemma us_step_ok: "us.objects_ok (ix_sockets s) \<Longrightarrow> us.objects_ok (ix_sockets (snd (us_step s op)))"
proof (cases op)
  case (SocketBind n a)
  assume ok: "us.objects_ok (ix_sockets s)"
  have "us.objects_ok (us_modify n (\<lambda>k. k\<lparr>us_address := a, us_state := SBound\<rparr>) (ix_sockets s))"
    if "us_find (ix_sockets s) n = Some k" "us_state k = SCreated" for k
    by (rule us_modify_ok [OF ok]) (use that in \<open>auto simp: us_ok_def\<close>)
  then show ?thesis using ok SocketBind by (auto simp: socket_bind_def split: option.splits)
next
  case (SocketListen n b)
  assume ok: "us.objects_ok (ix_sockets s)"
  have "us.objects_ok (us_modify n (\<lambda>k. k\<lparr>us_state := SListening, us_max_backlog := b\<rparr>) (ix_sockets s))"
    if "us_find (ix_sockets s) n = Some k" "us_state k = SBound" for k
    by (rule us_modify_ok [OF ok]) (use that in \<open>auto simp: us_ok_def\<close>)
  then show ?thesis using ok SocketListen by (auto simp: socket_listen_def split: option.splits)
next
  case (SocketSend n d)
  assume ok: "us.objects_ok (ix_sockets s)"
  have "us.objects_ok (us_modify p (\<lambda>k. k\<lparr>us_recv := us_recv k @ [d]\<rparr>) (ix_sockets s))" for p
    by (rule us_modify_ok [OF ok]) (auto simp: us_ok_def)
  then show ?thesis using ok SocketSend by (auto simp: socket_send_def split: option.splits)
next
  case (SocketRecv n)
  assume ok: "us.objects_ok (ix_sockets s)"
  have "us.objects_ok (us_modify n (\<lambda>k. k\<lparr>us_recv := ms\<rparr>) (ix_sockets s))" for ms
    by (rule us_modify_ok [OF ok]) (auto simp: us_ok_def)
  then show ?thesis using ok SocketRecv by (auto simp: socket_recv_def split: option.splits list.splits)
next
  case (SocketClose n)
  assume ok: "us.objects_ok (ix_sockets s)"
  then show ?thesis
    using us.objects_ok_remove [OF ok] SocketClose by (simp add: socket_close_def us_remove_def split: prod.split) (metis snd_conv)
qed (auto simp: socket_create_def count_socket_op_def Let_def socket_accept_ok socket_connect_ok
      dest!: us_created_ok split: prod.split)

subsection \<open>Message queues\<close>

lemma mq_insert_split:
  "\<exists>as bs. ms = as @ bs \<and> mq_insert d p ms = as @ \<lparr>mm_data = d, mm_priority = p\<rparr> # bs \<and>
     (\<forall>m \<in> set as. p \<le> mm_priority m) \<and> (bs \<noteq> [] \<longrightarrow> mm_priority (hd bs) < p)"
proof (cases "position (\<lambda>m. mm_priority m < p) ms")
  case None
  then show ?thesis
    using position_None [of "\<lambda>m. mm_priority m < p" ms]
    by (intro exI [of _ ms] exI [of _ "[]"]) (auto simp: mq_insert_def insert_at_def)
next
  case (Some i)
  note i = position_SomeD [OF Some]
  have "p \<le> mm_priority m" if "m \<in> set (take i ms)" for m
    using that i by (auto simp: in_set_conv_nth not_less)
  then show ?thesis using i Some
    by (intro exI [of _ "take i ms"] exI [of _ "drop i ms"]) (auto simp: mq_insert_def insert_at_def hd_drop_conv_nth)
qed

abbreviation prio_sorted :: "mq_message list \<Rightarrow> bool" where
  "prio_sorted ms \<equiv> sorted_wrt (\<lambda>a b. mm_priority a \<ge> mm_priority b) ms"

lemma prio_sorted_hd: "\<lbrakk>prio_sorted ms; m \<in> set ms\<rbrakk> \<Longrightarrow> mm_priority m \<le> mm_priority (hd ms)"
  by (cases ms) auto

lemma mq_insert_sorted: "prio_sorted ms \<Longrightarrow> prio_sorted (mq_insert d p ms)"
proof -
  assume s: "prio_sorted ms"
  obtain as bs where eq: "ms = as @ bs" "mq_insert d p ms = as @ \<lparr>mm_data = d, mm_priority = p\<rparr> # bs"
    and a: "\<forall>m \<in> set as. p \<le> mm_priority m" and b: "bs \<noteq> [] \<longrightarrow> mm_priority (hd bs) < p"
    using mq_insert_split [of ms d p] by (elim exE conjE)
  have "mm_priority m \<le> p" if "m \<in> set bs" for m
    using prio_sorted_hd [of bs m] s b that by (cases bs) (auto simp: eq sorted_wrt_append)
  then show ?thesis unfolding eq(2) using s a by (auto simp: eq(1) sorted_wrt_append)
qed

lemma mq_insert_set [simp]:
  "set (mq_insert d p ms) = insert \<lparr>mm_data = d, mm_priority = p\<rparr> (set ms)" "length (mq_insert d p ms) = Suc (length ms)"
  using mq_insert_split [of ms d p] by auto

lemma mqt_send_ok: "mq.objects_ok t \<Longrightarrow> mq.objects_ok (snd (mqt_send t n d p))"
proof -
  assume ok: "mq.objects_ok t"
  have "mq.objects_ok (it_modify mq_id n (\<lambda>q. q\<lparr>mq_messages := mq_insert d p (mq_messages q), mq_total_sent := mq_total_sent q + 1\<rparr>) t)"
    if "it_find mq_id n t = Some q" "length (mq_messages q) < mq_max_messages q" "length d \<le> mq_max_msg_size q" for q
    by (rule mq.objects_ok_modify [OF ok]) (use that in \<open>auto simp: mq_ok_def mq_insert_sorted\<close>)
  then show ?thesis using ok by (auto simp: mqt_send_def split: option.splits)
qed

lemma mqt_receive_ok: "mq.objects_ok t \<Longrightarrow> mq.objects_ok (snd (mqt_receive t n))"
proof -
  assume ok: "mq.objects_ok t"
  have "mq.objects_ok (it_modify mq_id n (\<lambda>q. q\<lparr>mq_messages := ms, mq_total_received := mq_total_received q + 1\<rparr>) t)"
    if "it_find mq_id n t = Some q" "mq_messages q = m # ms" for q m ms
    by (rule mq.objects_ok_modify [OF ok]) (use that in \<open>auto simp: mq_ok_def\<close>)
  then show ?thesis using ok by (auto simp: mqt_receive_def split: option.splits list.splits)
qed

lemma names_ok_modify:
  assumes "names_ok nm t" and "\<And>x. nm (f x) = nm x"
  shows "names_ok nm (it_modify ident n f t)"
  using assms by (simp add: names_ok_def it_modify_def map_update_first)

lemma names_ok_remove: "names_ok nm t \<Longrightarrow> names_ok nm (snd (it_remove P t))"
  by (auto simp: names_ok_def it_remove_def map_remove_at distinct_remove_at split: option.split)

lemma names_ok_push:
  assumes "names_ok nm t" and "find (\<lambda>x. nm x = a) (it_items t) = None" and "\<And>n. nm (mk n) = a"
  shows "names_ok nm (snd (it_push limit mk t))"
  using assms by (auto simp: names_ok_def it_push_def Let_def find_None_iff)

lemma mqt_open_ok:
  "mq.objects_ok t \<Longrightarrow> mq.objects_ok (snd (mqt_open t name ns))"
  by (auto simp: mqt_open_def intro!: mq.objects_ok_push simp: new_queue_def mq_ok_def split: option.split)

lemma mq_step_ok:
  assumes "mq.objects_ok (ix_queues s)" and "names_ok (\<lambda>q. (mq_name q, mq_namespace q)) (ix_queues s)"
  shows "mq.objects_ok (ix_queues (snd (mq_step s op))) \<and> names_ok (\<lambda>q. (mq_name q, mq_namespace q)) (ix_queues (snd (mq_step s op)))"
proof (cases op)
  case (MqOpen name)
  have "names_ok (\<lambda>q. (mq_name q, mq_namespace q)) (snd (mqt_open (ix_queues s) name 0))"
    using assms(2) by (auto simp: mqt_open_def new_queue_def intro!: names_ok_push split: option.split)
  then show ?thesis
    using mqt_open_ok [OF assms(1), of name 0] MqOpen by (auto simp: mq_open_def split: prod.splits)
next
  case (MqSend n d p)
  have "names_ok (\<lambda>q. (mq_name q, mq_namespace q)) (snd (mqt_send (ix_queues s) n d p))"
    using assms(2) by (auto simp: mqt_send_def intro!: names_ok_modify split: option.split)
  then show ?thesis
    using mqt_send_ok [OF assms(1), of n d p] MqSend by (auto simp: mq_send_def Let_def split: prod.splits)
next
  case (MqReceive n)
  have "names_ok (\<lambda>q. (mq_name q, mq_namespace q)) (snd (mqt_receive (ix_queues s) n))"
    using assms(2) by (auto simp: mqt_receive_def intro!: names_ok_modify split: option.split list.split)
  then show ?thesis
    using mqt_receive_ok [OF assms(1), of n] MqReceive by (auto simp: mq_receive_def Let_def split: prod.splits)
next
  case (MqClose n)
  then show ?thesis
    using mq.objects_ok_remove [OF assms(1), of "\<lambda>q. mq_id q = n"] names_ok_remove [OF assms(2), of "\<lambda>q. mq_id q = n"]
    by (auto simp: mq_close_def mqt_close_def split: prod.splits)
qed

subsection \<open>Semaphores and segments\<close>

lemma sint_i32: "- I32_MAX - 1 \<le> sint (v :: 32 word)" "sint (v :: 32 word) \<le> I32_MAX"
  using sint_range_size [of v] by (simp_all add: I32_MAX_def word_size)

lemma sem_step_ok:
  assumes "sem_step s op = Some (out, s')" and "sm.objects_ok (ix_sems s)" and "names_ok (\<lambda>m. (sm_name m, sm_namespace m)) (ix_sems s)"
  shows "sm.objects_ok (ix_sems s') \<and> names_ok (\<lambda>m. (sm_name m, sm_namespace m)) (ix_sems s')"
proof -
  let ?nm = "\<lambda>m. (sm_name m, sm_namespace m)"
  have take: "sm.objects_ok (it_modify sm_id n sem_take (ix_sems s))" if "it_find sm_id n (ix_sems s) = Some m" "0 < sm_value m" for n m
    by (rule sm.objects_ok_modify [OF assms(2)]) (use that in \<open>auto simp: sem_take_def sm_ok_def I32_MAX_def\<close>)
  have give: "sm.objects_ok (it_modify sm_id n sem_give (ix_sems s))" if "it_find sm_id n (ix_sems s) = Some m" "sm_value m \<noteq> I32_MAX" for n m
    by (rule sm.objects_ok_modify [OF assms(2)]) (use that in \<open>auto simp: sem_give_def sm_ok_def\<close>)
  have waits: "sm.objects_ok (it_modify sm_id n (\<lambda>m. m\<lparr>sm_waiters := sm_waiters m + 1\<rparr>) (ix_sems s))" for n
    by (rule sm.objects_ok_modify [OF assms(2)]) (auto simp: sm_ok_def)
  have names: "names_ok ?nm (it_modify sm_id n sem_take (ix_sems s))" "names_ok ?nm (it_modify sm_id n sem_give (ix_sems s))"
      "names_ok ?nm (it_modify sm_id n (\<lambda>m. m\<lparr>sm_waiters := sm_waiters m + 1\<rparr>) (ix_sems s))" for n
    by (rule names_ok_modify [OF assms(3)], simp add: sem_take_def sem_give_def)+
  show ?thesis
  proof (cases op)
    case (SemInit name v)
    have "sm.objects_ok (snd (semt_init (ix_sems s) name (sint v) 0))"
      using assms(2) sint_i32 [of v] by (auto simp: semt_init_def new_semaphore_def sm_ok_def intro!: sm.objects_ok_push split: option.split)
    moreover have "names_ok ?nm (snd (semt_init (ix_sems s) name (sint v) 0))"
      using assms(3) by (auto simp: semt_init_def new_semaphore_def intro!: names_ok_push split: option.split)
    ultimately show ?thesis using assms(1) SemInit by (auto simp: sem_init_def split: prod.splits)
  next
    case (SemDestroy n)
    then show ?thesis
      using assms(1) sm.objects_ok_remove [OF assms(2), of "\<lambda>m. sm_id m = n"] names_ok_remove [OF assms(3), of "\<lambda>m. sm_id m = n"]
      by (auto simp: sem_destroy_def semt_destroy_def split: prod.splits)
  qed (use assms take give waits names in \<open>auto simp: sem_wait_def semt_wait_def sem_trywait_def semt_trywait_def
      sem_post_def semt_post_def count_sem_op_def split: option.splits if_splits\<close>)
qed

lemma add_once_distinct: "distinct pids \<Longrightarrow> distinct (add_once pid pids)"
  by (simp add: add_once_def)

lemma remove_pid_distinct: "\<lbrakk>remove_pid pid pids = Some pids'; distinct pids\<rbrakk> \<Longrightarrow> distinct pids'"
  by (auto simp: remove_pid_def distinct_remove_at)

lemma seg_step_ok:
  assumes "sg.objects_ok (ix_shm s)" and "names_ok (\<lambda>g. (sg_name g, sg_namespace g)) (ix_shm s)"
  shows "sg.objects_ok (ix_shm (snd (shm_api_step s op))) \<and> names_ok (\<lambda>g. (sg_name g, sg_namespace g)) (ix_shm (snd (shm_api_step s op)))"
proof (cases op)
  case (ShmOpen name sz)
  have "sg.objects_ok (snd (shmt_open (ix_shm s) name sz 0))"
    using assms(1) by (auto simp: shmt_open_def new_segment_def sg_ok_def intro!: sg.objects_ok_push split: option.split)
  moreover have "names_ok (\<lambda>g. (sg_name g, sg_namespace g)) (snd (shmt_open (ix_shm s) name sz 0))"
    using assms(2) by (auto simp: shmt_open_def new_segment_def intro!: names_ok_push split: option.split)
  ultimately show ?thesis using ShmOpen by (auto simp: shm_open_def split: prod.splits)
next
  case (ShmUnlink name)
  then show ?thesis
    using sg.objects_ok_remove [OF assms(1)] names_ok_remove [OF assms(2)]
    by (auto simp: shm_unlink_def shmt_unlink_def split: prod.splits) (metis snd_conv)+
next
  case (ShmAttach n pid)
  have "sg.objects_ok (it_modify sg_id n (\<lambda>g. g\<lparr>sg_attached := add_once pid (sg_attached g)\<rparr>) (ix_shm s))"
    by (rule sg.objects_ok_modify [OF assms(1)]) (auto simp: sg_ok_def add_once_distinct)
  moreover have "names_ok (\<lambda>g. (sg_name g, sg_namespace g)) (it_modify sg_id n (\<lambda>g. g\<lparr>sg_attached := add_once pid (sg_attached g)\<rparr>) (ix_shm s))"
    by (rule names_ok_modify [OF assms(2)]) simp
  ultimately show ?thesis using assms ShmAttach by (auto simp: shm_attach_def shmt_attach_def split: option.split)
next
  case (ShmDetach n pid)
  have "sg.objects_ok (it_modify sg_id n (\<lambda>g. g\<lparr>sg_attached := pids\<rparr>) (ix_shm s))"
    if "it_find sg_id n (ix_shm s) = Some g" "remove_pid pid (sg_attached g) = Some pids" for g pids
    by (rule sg.objects_ok_modify [OF assms(1)]) (use that remove_pid_distinct in \<open>auto simp: sg_ok_def\<close>)
  moreover have "names_ok (\<lambda>g. (sg_name g, sg_namespace g)) (it_modify sg_id n (\<lambda>g. g\<lparr>sg_attached := pids\<rparr>) (ix_shm s))" for pids
    by (rule names_ok_modify [OF assms(2)]) simp
  ultimately show ?thesis using assms ShmDetach by (auto simp: shm_detach_def shmt_detach_def split: option.split)
qed

subsection \<open>Descriptors and namespaces\<close>

lemma objects_ok_map:
  assumes "length ys = length (it_items t)" and "map ident ys = map ident (it_items t)" and "ids_ok ident t"
  shows "ids_ok ident (t\<lparr>it_items := ys\<rparr>)"
proof -
  have "\<forall>y \<in> set ys. ident y \<in> set (map ident (it_items t))" using assms(2) by (metis image_eqI list.set_map)
  then show ?thesis using assms by (auto simp: ids_ok_def)
qed

lemma ev_step_ok:
  assumes "ev_step s op = Some (out, s')" and "ev.objects_ok (ix_events s)" and "sf.objects_ok (ix_signals s)"
  shows "ev.objects_ok (ix_events s') \<and> sf.objects_ok (ix_signals s')"
proof -
  have m: "ev.objects_ok (it_modify ev_id n (\<lambda>e. e\<lparr>ev_counter := g e\<rparr>) (ix_events s))" for n g
    by (rule ev.objects_ok_modify [OF assms(2)]) auto
  show ?thesis
  proof (cases op)
    case (EventfdCreate pid v md)
    then show ?thesis
      using assms ev.objects_ok_push [OF assms(2), of "\<lambda>n. \<lparr>ev_id = n, ev_counter = v, ev_pid = pid, ev_semaphore_mode = md\<rparr>"]
      by (auto simp: eventfd_create_def evt_create_def split: prod.splits)
  next
    case (EventfdClose n)
    then show ?thesis
      using assms ev.objects_ok_remove [OF assms(2), of "\<lambda>e. ev_id e = n"]
      by (auto simp: eventfd_close_def evt_close_def split: prod.splits)
  next
    case (SignalfdCreate pid mk)
    then show ?thesis
      using assms sf.objects_ok_push [OF assms(3), of "\<lambda>n. \<lparr>sf_id = n, sf_pid = pid, sf_mask = mk, sf_pending = []\<rparr>"]
      by (auto simp: signalfd_create_def sft_create_def split: prod.splits)
  next
    case (SignalfdDeliver pid g)
    then show ?thesis
      using assms by (auto simp: signalfd_deliver_def sft_deliver_def sf.objects_ok_def intro!: objects_ok_map split: if_splits)
  next
    case (SignalfdRead n)
    then show ?thesis
      using assms by (auto simp: signalfd_read_def sft_read_def sf.objects_ok_def map_update_first intro!: objects_ok_map split: option.splits)
  next
    case (SignalfdClose n)
    then show ?thesis
      using assms sf.objects_ok_remove [OF assms(3), of "\<lambda>e. sf_id e = n"]
      by (auto simp: signalfd_close_def sft_close_def split: prod.splits)
  qed (use assms m in \<open>auto simp: eventfd_write_def evt_write_def eventfd_read_def evt_read_def split: option.splits if_splits\<close>)
qed

lemma those_map_idents:
  "\<lbrakk>those (map f xs) = Some ys; \<And>x y. f x = Some y \<Longrightarrow> g y = g x\<rbrakk> \<Longrightarrow> length ys = length xs \<and> map g ys = map g xs"
  by (induction xs arbitrary: ys) (auto split: option.splits)

lemma tf_step_ok:
  assumes "tf_step s op = Some (out, s')" and "tf.objects_ok (ix_timers s)"
  shows "tf.objects_ok (ix_timers s')"
proof (cases op)
  case (TimerfdCreate pid)
  then show ?thesis
    using assms tf.objects_ok_push [OF assms(2), of "\<lambda>n. \<lparr>tf_id = n, tf_pid = pid, tf_interval = 0, tf_next_expiry = 0,
        tf_expirations = 0, tf_armed = False\<rparr>"]
    by (auto simp: timerfd_create_def tft_create_def split: prod.splits)
next
  case (TimerfdArm n i j now)
  have "tf.objects_ok (it_modify tf_id n (\<lambda>fd. fd\<lparr>tf_next_expiry := e, tf_interval := j, tf_expirations := 0, tf_armed := True\<rparr>) (ix_timers s))" for e
    by (rule tf.objects_ok_modify [OF assms(2)]) auto
  then show ?thesis
    using assms TimerfdArm by (auto simp: timerfd_arm_def tft_arm_def split: option.splits)
next
  case (TimerfdTick now)
  have "tf_id fd' = tf_id fd" if "tf_tick now fd = Some fd'" for fd fd'
    using that by (auto simp: tf_tick_def Let_def split: if_splits)
  then show ?thesis
    using assms TimerfdTick those_map_idents [of "tf_tick now" "it_items (ix_timers s)" _ tf_id]
    by (auto simp: timerfd_tick_def tft_tick_def tf.objects_ok_def intro!: objects_ok_map)
next
  case (TimerfdRead n)
  then show ?thesis
    using assms by (auto simp: timerfd_read_def tft_read_def tf.objects_ok_def map_update_first intro!: objects_ok_map split: option.splits)
next
  case (TimerfdClose n)
  then show ?thesis
    using assms tf.objects_ok_remove [OF assms(2), of "\<lambda>e. tf_id e = n"]
    by (auto simp: timerfd_close_def tft_close_def split: prod.splits)
qed

lemma ep_step_ok:
  assumes "ei.objects_ok (ix_epolls s)" and "ins.objects_ok (ix_namespaces s)"
  shows "ei.objects_ok (ix_epolls (snd (ep_step s op))) \<and> ins.objects_ok (ix_namespaces (snd (ep_step s op)))"
proof (cases op)
  case (EpollCreate pid)
  then show ?thesis
    using assms ei.objects_ok_push [OF assms(1), of "\<lambda>n. \<lparr>ei_id = n, ei_pid = pid, ei_entries = []\<rparr>"]
    by (auto simp: epoll_create_def ept_create_def ei_ok_def split: prod.splits)
next
  case (EpollAdd n fd es)
  have "ei.objects_ok (it_modify ei_id n (\<lambda>e. e\<lparr>ei_entries := ei_entries e @ [\<lparr>ee_fd = fd, ee_events = es\<rparr>]\<rparr>) (ix_epolls s))"
    if "it_find ei_id n (ix_epolls s) = Some e" "length (ei_entries e) < MAX_EPOLL_FDS" "\<not> list_ex (\<lambda>x. ee_fd x = fd) (ei_entries e)" for e
    by (rule ei.objects_ok_modify [OF assms(1)]) (use that in \<open>auto simp: ei_ok_def list_ex_iff\<close>)
  then show ?thesis using assms EpollAdd by (auto simp: epoll_add_def ept_add_fd_def split: option.split)
next
  case (EpollRemove n fd)
  have "ei.objects_ok (it_modify ei_id n (\<lambda>e. e\<lparr>ei_entries := remove_at pos (ei_entries e)\<rparr>) (ix_epolls s))"
    if "it_find ei_id n (ix_epolls s) = Some e" "position (\<lambda>x. ee_fd x = fd) (ei_entries e) = Some pos" for e pos
    by (rule ei.objects_ok_modify [OF assms(1)])
      (use that position_SomeD(1) [OF that(2)] in \<open>auto simp: ei_ok_def map_remove_at distinct_remove_at\<close>)
  then show ?thesis using assms EpollRemove by (auto simp: epoll_remove_def ept_remove_fd_def split: option.split)
next
  case (EpollClose n)
  then show ?thesis
    using assms ei.objects_ok_remove [OF assms(1), of "\<lambda>e. ei_id e = n"]
    by (auto simp: epoll_close_def ept_close_def split: prod.splits)
next
  case (NamespaceCreate name)
  then show ?thesis
    using assms ins.objects_ok_push [OF assms(2), of "\<lambda>n. \<lparr>in_id = n, in_name = name, in_pids = []\<rparr>"]
    by (auto simp: namespace_create_def nst_create_def in_ok_def split: prod.splits)
next
  case (NamespaceAddPid n pid)
  have "ins.objects_ok (it_modify in_id n (\<lambda>m. m\<lparr>in_pids := add_once pid (in_pids m)\<rparr>) (ix_namespaces s))"
    by (rule ins.objects_ok_modify [OF assms(2)]) (auto simp: in_ok_def add_once_distinct)
  then show ?thesis using assms NamespaceAddPid by (auto simp: namespace_add_pid_def nst_add_pid_def split: option.split)
next
  case (NamespaceRemovePid n pid)
  have "ins.objects_ok (it_modify in_id n (\<lambda>m. m\<lparr>in_pids := pids\<rparr>) (ix_namespaces s))"
    if "it_find in_id n (ix_namespaces s) = Some m" "remove_pid pid (in_pids m) = Some pids" for m pids
    by (rule ins.objects_ok_modify [OF assms(2)]) (use that remove_pid_distinct in \<open>auto simp: in_ok_def\<close>)
  then show ?thesis using assms NamespaceRemovePid by (auto simp: namespace_remove_pid_def nst_remove_pid_def split: option.split)
next
  case (NamespaceDestroy n)
  then show ?thesis
    using assms ins.objects_ok_remove [OF assms(2), of "\<lambda>m. in_id m = n"]
    by (auto simp: namespace_destroy_def nst_destroy_def split: prod.splits)
qed

subsection \<open>Operations touch only their own table\<close>

lemmas us_defs = socket_create_def socket_bind_def socket_listen_def socket_accept_def socket_connect_def
  socket_send_def socket_recv_def socket_close_def count_socket_op_def

lemmas mq_defs = mq_open_def mq_send_def mq_receive_def mq_close_def

lemmas sem_defs = sem_init_def sem_wait_def sem_trywait_def sem_post_def sem_destroy_def count_sem_op_def

lemmas shm_defs = shm_open_def shm_unlink_def shm_attach_def shm_detach_def

lemmas ev_defs = eventfd_create_def eventfd_write_def eventfd_read_def eventfd_close_def
  signalfd_create_def signalfd_deliver_def signalfd_read_def signalfd_close_def

lemmas tf_defs = timerfd_create_def timerfd_arm_def timerfd_tick_def timerfd_read_def timerfd_close_def

lemmas ep_defs = epoll_create_def epoll_add_def epoll_remove_def epoll_close_def
  namespace_create_def namespace_add_pid_def namespace_remove_pid_def namespace_destroy_def

definition same_sockets :: "ipc_ext \<Rightarrow> ipc_ext \<Rightarrow> bool" where
  "same_sockets s s' \<longleftrightarrow> ix_sockets s' = ix_sockets s"

definition same_queues :: "ipc_ext \<Rightarrow> ipc_ext \<Rightarrow> bool" where
  "same_queues s s' \<longleftrightarrow> ix_queues s' = ix_queues s"

definition same_sems :: "ipc_ext \<Rightarrow> ipc_ext \<Rightarrow> bool" where
  "same_sems s s' \<longleftrightarrow> ix_sems s' = ix_sems s"

definition same_rest :: "ipc_ext \<Rightarrow> ipc_ext \<Rightarrow> bool" where
  "same_rest s s' \<longleftrightarrow> ix_shm s' = ix_shm s \<and> ix_events s' = ix_events s \<and> ix_signals s' = ix_signals s \<and>
     ix_timers s' = ix_timers s \<and> ix_epolls s' = ix_epolls s \<and> ix_namespaces s' = ix_namespaces s"

lemmas same_defs = same_sockets_def same_queues_def same_sems_def same_rest_def

lemma us_step_frame: "us_step s op = (out, s') \<Longrightarrow> same_queues s s' \<and> same_sems s s' \<and> same_rest s s'"
  by (cases op) (auto simp: us_defs same_defs Let_def split: option.splits prod.splits if_splits list.splits)

lemma mq_step_frame: "mq_step s op = (out, s') \<Longrightarrow> same_sockets s s' \<and> same_sems s s' \<and> same_rest s s'"
  by (cases op) (auto simp: mq_defs same_defs Let_def split: option.splits prod.splits if_splits)

lemma sem_step_frame: "sem_step s op = Some (out, s') \<Longrightarrow> same_sockets s s' \<and> same_queues s s' \<and> same_rest s s'"
  by (cases op) (auto simp: sem_defs same_defs Let_def split: option.splits prod.splits if_splits)

lemma seg_step_frame:
  "shm_api_step s op = (out, s') \<Longrightarrow> same_sockets s s' \<and> same_queues s s' \<and> same_sems s s' \<and>
    ix_events s' = ix_events s \<and> ix_signals s' = ix_signals s \<and> ix_timers s' = ix_timers s \<and>
    ix_epolls s' = ix_epolls s \<and> ix_namespaces s' = ix_namespaces s"
  by (cases op) (auto simp: shm_defs same_defs Let_def split: option.splits prod.splits if_splits)

lemma ev_step_frame:
  "ev_step s op = Some (out, s') \<Longrightarrow> same_sockets s s' \<and> same_queues s s' \<and> same_sems s s' \<and>
    ix_shm s' = ix_shm s \<and> ix_timers s' = ix_timers s \<and> ix_epolls s' = ix_epolls s \<and> ix_namespaces s' = ix_namespaces s"
  by (cases op) (auto simp: ev_defs same_defs Let_def split: option.splits prod.splits if_splits)

lemma tf_step_frame:
  "tf_step s op = Some (out, s') \<Longrightarrow> same_sockets s s' \<and> same_queues s s' \<and> same_sems s s' \<and>
    ix_shm s' = ix_shm s \<and> ix_events s' = ix_events s \<and> ix_signals s' = ix_signals s \<and>
    ix_epolls s' = ix_epolls s \<and> ix_namespaces s' = ix_namespaces s"
  by (cases op) (auto simp: tf_defs same_defs Let_def split: option.splits prod.splits if_splits)

lemma ep_step_frame:
  "ep_step s op = (out, s') \<Longrightarrow> same_sockets s s' \<and> same_queues s s' \<and> same_sems s s' \<and>
    ix_shm s' = ix_shm s \<and> ix_events s' = ix_events s \<and> ix_signals s' = ix_signals s \<and> ix_timers s' = ix_timers s"
  by (cases op) (auto simp: ep_defs same_defs Let_def split: option.splits prod.splits if_splits)

lemma ix_step_ok:
  assumes "ix_step s op = Some (out, s')" and "ipc_ext_ok s"
  shows "ipc_ext_ok s'"
proof (cases op)
  case (UsOp o1)
  then show ?thesis
    using assms us_step_ok [of s o1] us_step_frame [of s o1 out s'] by (auto simp: ipc_ext_ok_def same_defs)
next
  case (MqOp o1)
  then show ?thesis
    using assms mq_step_ok [of s o1] mq_step_frame [of s o1 out s'] by (auto simp: ipc_ext_ok_def same_defs)
next
  case (SemOp o1)
  then show ?thesis
    using assms sem_step_ok [of s o1 out s'] sem_step_frame [of s o1 out s'] by (auto simp: ipc_ext_ok_def same_defs)
next
  case (ShmOp o1)
  then show ?thesis
    using assms seg_step_ok [of s o1] seg_step_frame [of s o1 out s'] by (auto simp: ipc_ext_ok_def same_defs)
next
  case (EvOp o1)
  then show ?thesis
    using assms ev_step_ok [of s o1 out s'] ev_step_frame [of s o1 out s'] by (auto simp: ipc_ext_ok_def same_defs)
next
  case (TfOp o1)
  then show ?thesis
    using assms tf_step_ok [of s o1 out s'] tf_step_frame [of s o1 out s'] by (auto simp: ipc_ext_ok_def same_defs)
next
  case (EpOp o1)
  then show ?thesis
    using assms ep_step_ok [of s o1] ep_step_frame [of s o1 out s'] by (auto simp: ipc_ext_ok_def same_defs)
qed

lemma ix_run_ok: "ix_run s h s' \<Longrightarrow> ipc_ext_ok s \<Longrightarrow> ipc_ext_ok s'"
  by (induction rule: ix_run.induct) (auto dest: ix_step_ok)

lemma ipc_ext_boot_ok: "ipc_ext_ok ipc_ext_boot"
  using us.objects_ok_new mq.objects_ok_new sm.objects_ok_new sg.objects_ok_new ev.objects_ok_new sf.objects_ok_new
    tf.objects_ok_new ei.objects_ok_new ins.objects_ok_new
  by (simp add: ipc_ext_ok_def ipc_ext_boot_def names_ok_def it_new_def)

section \<open>Sockets deliver in order\<close>

text \<open>What an operation puts into and takes out of the buffer of socket \<open>n\<close>, read off the
  operations and their answers.\<close>

fun delivered :: "ipc_ext \<Rightarrow> usize \<Rightarrow> ix_op \<Rightarrow> ix_out \<Rightarrow> u8 list list" where
  "delivered s n (UsOp (SocketSend m d)) (Flag True) =
     (case us_find (ix_sockets s) m of Some k \<Rightarrow> if us_peer k = Some n then [d] else [] | None \<Rightarrow> [])"
| "delivered s n op out = []"

fun received :: "usize \<Rightarrow> ix_op \<Rightarrow> ix_out \<Rightarrow> u8 list list" where
  "received n (UsOp (SocketRecv m)) (Bytes (Some d)) = (if m = n then [d] else [])"
| "received n op out = []"

fun sent_to :: "ipc_ext \<Rightarrow> usize \<Rightarrow> (ix_op \<times> ix_out) list \<Rightarrow> u8 list list" where
  "sent_to s n [] = []"
| "sent_to s n ((op, out) # h) =
     delivered s n op out @ (case ix_step s op of Some (_, s1) \<Rightarrow> sent_to s1 n h | None \<Rightarrow> [])"

definition received_by :: "usize \<Rightarrow> (ix_op \<times> ix_out) list \<Rightarrow> u8 list list" where
  "received_by n h = concat (map (\<lambda>(op, out). received n op out) h)"

lemma us_find_modify:
  "(\<And>k. us_id (f k) = us_id k) \<Longrightarrow>
    us_find (us_modify m f t) n = (if n = m then map_option f (us_find t m) else us_find t n)"
  by (simp add: us_find_def us_modify_def it_find_modify)

lemma connect_to_simps [simp]: "us_id (connect_to p k) = us_id k" "us_recv (connect_to p k) = us_recv k"
  by (simp_all add: connect_to_def)

lemma us_find_create:
  assumes "us_create t pid ns = (r, t')" and "ids_ok us_id t" and "n < it_next t"
  shows "us_find t' n = us_find t n" and "it_next t \<le> it_next t'" and "r = Some m \<Longrightarrow> m = it_next t"
  using assms it_find_push [of us_id t "new_socket pid ns (it_next t)" n]
  by (auto simp: us_create_def it_push_def us_find_def new_socket_def Let_def split: if_splits)

lemma us_modify_next [simp]: "it_next (us_modify m f t) = it_next t"
  by (simp add: us_modify_def)

lemma us_ids_modify: "\<lbrakk>ids_ok us_id t; \<And>k. us_id (f k) = us_id k\<rbrakk> \<Longrightarrow> ids_ok us_id (us_modify m f t)"
  unfolding us_modify_def by (rule ids_ok_modify)

definition buffer_step :: "ipc_ext \<Rightarrow> ipc_ext \<Rightarrow> usize \<Rightarrow> ix_op \<Rightarrow> ix_out \<Rightarrow> bool" where
  "buffer_step s s' n op out \<longleftrightarrow>
     it_next (ix_sockets s) \<le> it_next (ix_sockets s') \<and>
     (\<forall>k'. us_find (ix_sockets s') n = Some k' \<longrightarrow>
        (\<exists>k. us_find (ix_sockets s) n = Some k \<and> us_recv k @ delivered s n op out = received n op out @ us_recv k'))"

lemma us_step_buffer:
  assumes "us_step s op = (out, s')" and "ids_ok us_id (ix_sockets s)" and "n < it_next (ix_sockets s)"
  shows "buffer_step s s' n (UsOp op) out"
proof (cases op)
  case (SocketCreate pid)
  then show ?thesis
    using assms us_find_create [of "ix_sockets s" pid 0 _ _ n]
    by (auto simp: buffer_step_def socket_create_def count_socket_op_def Let_def split: prod.splits if_splits)
next
  case (SocketAccept m)
  show ?thesis
  proof (cases "\<exists>k c rest. us_find (ix_sockets s) m = Some k \<and> us_state k = SListening \<and> us_backlog k = c # rest")
    case True
    then obtain k c rest where k: "us_find (ix_sockets s) m = Some k" "us_state k = SListening" "us_backlog k = c # rest" by blast
    define t where "t = us_modify m (\<lambda>k. k\<lparr>us_backlog := rest\<rparr>) (ix_sockets s)"
    have t: "ids_ok us_id t" "n < it_next t" "it_next t = it_next (ix_sockets s)"
      using assms us_ids_modify by (simp_all add: t_def)
    obtain r t' where c: "us_create t (us_pid k) (us_namespace k) = (r, t')" by fastforce
    note cr = us_find_create [OF c t(1,2)]
    show ?thesis
      using assms(1) k c cr t
      by (cases r) (auto simp: SocketAccept buffer_step_def socket_accept_def t_def [symmetric] count_socket_op_def
          us_find_modify Let_def, auto simp: t_def us_find_modify split: if_splits)
  next
    case False
    then have "s' = s" "delivered s n (UsOp op) out = []" "received n (UsOp op) out = []"
      using assms(1) by (auto simp: SocketAccept socket_accept_def split: option.splits list.splits)
    then show ?thesis by (simp add: buffer_step_def)
  qed
next
  case (SocketClose m)
  then show ?thesis
    using assms it_find_remove(1) [OF assms(2), of n m] it_remove_ok(4) [OF assms(2), of "\<lambda>k. us_id k = m"]
    by (auto simp: buffer_step_def socket_close_def us_remove_def us_find_def split: prod.splits if_splits)
qed (use assms in \<open>auto simp: buffer_step_def us_defs us_find_modify split: option.splits list.splits if_splits\<close>)

lemma ix_step_buffer:
  assumes "ix_step s op = Some (out, s')" and "ids_ok us_id (ix_sockets s)" and "n < it_next (ix_sockets s)"
  shows "buffer_step s s' n op out"
proof (cases op)
  case (UsOp o1)
  then show ?thesis using us_step_buffer assms by simp
next
  case (MqOp o1)
  then show ?thesis using assms mq_step_frame [of s o1 out s'] by (auto simp: buffer_step_def same_defs)
next
  case (SemOp o1)
  then show ?thesis using assms sem_step_frame [of s o1 out s'] by (auto simp: buffer_step_def same_defs)
next
  case (ShmOp o1)
  then show ?thesis using assms seg_step_frame [of s o1 out s'] by (auto simp: buffer_step_def same_defs)
next
  case (EvOp o1)
  then show ?thesis using assms ev_step_frame [of s o1 out s'] by (auto simp: buffer_step_def same_defs)
next
  case (TfOp o1)
  then show ?thesis using assms tf_step_frame [of s o1 out s'] by (auto simp: buffer_step_def same_defs)
next
  case (EpOp o1)
  then show ?thesis using assms ep_step_frame [of s o1 out s'] by (auto simp: buffer_step_def same_defs)
qed

lemma ix_run_buffer:
  "\<lbrakk>ix_run s h s'; ipc_ext_ok s; n < it_next (ix_sockets s); us_find (ix_sockets s') n = Some k'\<rbrakk> \<Longrightarrow>
    \<exists>k. us_find (ix_sockets s) n = Some k \<and> us_recv k @ sent_to s n h = received_by n h @ us_recv k'"
proof (induction rule: ix_run.induct)
  case (run_Nil s)
  then show ?case by (simp add: received_by_def)
next
  case (run_Cons s op out s1 h s2)
  have ids: "ids_ok us_id (ix_sockets s)" using run_Cons.prems(1) by (simp add: ipc_ext_ok_def us.objects_ok_def)
  note b = ix_step_buffer [OF run_Cons.hyps(1) ids run_Cons.prems(2)]
  then obtain k1 where k1: "us_find (ix_sockets s1) n = Some k1" "us_recv k1 @ sent_to s1 n h = received_by n h @ us_recv k'"
    using run_Cons.IH run_Cons.prems ix_step_ok [OF run_Cons.hyps(1)] by (auto simp: buffer_step_def)
  obtain k where k: "us_find (ix_sockets s) n = Some k" "us_recv k @ delivered s n op out = received n op out @ us_recv k1"
    using b k1(1) by (auto simp: buffer_step_def)
  have "us_recv k @ delivered s n op out @ sent_to s1 n h = received n op out @ us_recv k1 @ sent_to s1 n h"
    using k(2) by (metis append.assoc)
  then show ?case using k(1) k1(2) run_Cons.hyps(1) by (auto simp: received_by_def)
qed

text \<open>
  C34. Sockets lose, invent and reorder nothing: along any history of the extended IPC, the data
  that was in the buffer of a socket followed by what was sent to it is what was received from it
  followed by what is in the buffer now; and a socket number is never given to another socket.
\<close>

theorem socket_stream:
  assumes "ix_run ipc_ext_boot h0 s" and "ix_run s h s'" and "us_find (ix_sockets s) n = Some k"
  shows "(\<forall>k'. us_find (ix_sockets s') n = Some k' \<longrightarrow> us_recv k @ sent_to s n h = received_by n h @ us_recv k') \<and>
    (\<forall>h1 s1 h2. ix_run s h1 s1 \<and> us_find (ix_sockets s1) n = None \<and> ix_run s1 h2 s' \<longrightarrow> us_find (ix_sockets s') n = None)"
proof -
  have ok: "ipc_ext_ok s" using ix_run_ok [OF assms(1) ipc_ext_boot_ok] .
  then have n: "n < it_next (ix_sockets s)"
    using assms(3) it_find_less [of us_id "ix_sockets s" n k] by (simp add: ipc_ext_ok_def us.objects_ok_def us_find_def)
  have mono: "it_next (ix_sockets a) \<le> it_next (ix_sockets b)" if "ix_run a g b" "ipc_ext_ok a" "n < it_next (ix_sockets a)" for a g b
    using that
  proof (induction rule: ix_run.induct)
    case (run_Cons a op out a1 g b)
    have "buffer_step a a1 n op out"
      using ix_step_buffer [OF run_Cons.hyps(1) _ run_Cons.prems(2)] run_Cons.prems(1) by (simp add: ipc_ext_ok_def us.objects_ok_def)
    then show ?case using run_Cons.IH run_Cons.prems ix_step_ok [OF run_Cons.hyps(1)] by (auto simp: buffer_step_def)
  qed simp
  have "us_find (ix_sockets s') n = None"
    if r: "ix_run s h1 s1" "us_find (ix_sockets s1) n = None" "ix_run s1 h2 s'" for h1 s1 h2
    using ix_run_buffer [OF r(3) ix_run_ok [OF r(1) ok], of n] mono [OF r(1) ok n] n r(2)
    by (cases "us_find (ix_sockets s') n") auto
  then show ?thesis using ix_run_buffer [OF assms(2) ok n] assms(3) by auto
qed

text \<open>A server listens, a client connects, the server accepts, the client sends twice and the
  server side receives once.\<close>

definition stream_ops :: "ix_op list" where
  "stream_ops = map UsOp [SocketCreate 1, SocketBind 1 ''/s'', SocketListen 1 4, SocketCreate 2,
     SocketConnect 2 ''/s'', SocketAccept 1]"

fun ix_exec :: "ipc_ext \<Rightarrow> ix_op list \<Rightarrow> ((ix_op \<times> ix_out) list \<times> ipc_ext) option" where
  "ix_exec s [] = Some ([], s)"
| "ix_exec s (op # ops) =
     (case ix_step s op of
        None \<Rightarrow> None
      | Some (out, s1) \<Rightarrow> map_option (apfst ((#) (op, out))) (ix_exec s1 ops))"

lemma ix_exec_run: "ix_exec s ops = Some (h, s') \<Longrightarrow> ix_run s h s'"
proof (induction ops arbitrary: s h)
  case Nil
  then show ?case by (simp add: run_Nil)
next
  case (Cons op ops)
  then obtain out s1 g where "ix_step s op = Some (out, s1)" "ix_exec s1 ops = Some (g, s')" "h = (op, out) # g"
    by (auto split: option.splits)
  then show ?case using Cons.IH run_Cons by blast
qed

lemma ix_exec_runs: "ix_exec s ops = Some r \<Longrightarrow> ix_run s (fst r) (snd r)"
  by (rule ix_exec_run [of s ops]) simp

definition stream_start :: "(ix_op \<times> ix_out) list \<times> ipc_ext" where
  "stream_start = the (ix_exec ipc_ext_boot stream_ops)"

definition stream_end :: "(ix_op \<times> ix_out) list \<times> ipc_ext" where
  "stream_end = the (ix_exec (snd stream_start) (map UsOp [SocketSend 2 [1, 2], SocketSend 2 [3], SocketRecv 3]))"

theorem socket_stream_witness:
  "received_by 3 (fst stream_end) = [[1, 2]] \<and> sent_to (snd stream_start) 3 (fst stream_end) = [[1, 2], [3]] \<and>
   map_option us_recv (us_find (ix_sockets (snd stream_end)) 3) = Some [[3]]"
proof -
  have "ix_exec ipc_ext_boot stream_ops = Some stream_start" by code_simp
  then have r1: "ix_run ipc_ext_boot (fst stream_start) (snd stream_start)" by (rule ix_exec_runs)
  have "ix_exec (snd stream_start) (map UsOp [SocketSend 2 [1, 2], SocketSend 2 [3], SocketRecv 3]) = Some stream_end" by code_simp
  then have r2: "ix_run (snd stream_start) (fst stream_end) (snd stream_end)" by (rule ix_exec_runs)
  have 3: "us_find (ix_sockets (snd stream_start)) 3 = Some (new_socket 1 0 3\<lparr>us_state := SConnected, us_peer := Some 2\<rparr>)" by code_simp
  have s: "sent_to (snd stream_start) 3 (fst stream_end) = [[1, 2], [3]]" "received_by 3 (fst stream_end) = [[1, 2]]" by code_simp+
  have "us_find (ix_sockets (snd stream_end)) 3 \<noteq> None" by code_simp
  then show ?thesis using socket_stream [OF r1 r2 3] s by (auto simp: new_socket_def)
qed

section \<open>Message queues are priority queues\<close>

text \<open>The contract: per queue and priority a first-in first-out list of messages.\<close>

type_synonym mq_spec = "usize \<rightharpoonup> (u32 \<Rightarrow> u8 list list)"

definition pending :: "(u32 \<Rightarrow> u8 list list) \<Rightarrow> nat" where
  "pending f = (\<Sum>p \<in> UNIV. length (f p))"

inductive mq_spec_step :: "mq_spec \<Rightarrow> mq_op \<Rightarrow> ix_out \<Rightarrow> mq_spec \<Rightarrow> bool" where
  open_old: "n \<in> dom m \<Longrightarrow> mq_spec_step m (MqOpen name) (Handle (Some n)) m"
| open_new: "n \<notin> dom m \<Longrightarrow> mq_spec_step m (MqOpen name) (Handle (Some n)) (m(n \<mapsto> \<lambda>_. []))"
| open_full: "mq_spec_step m (MqOpen name) (Handle None) m"
| send_ok: "\<lbrakk>m n = Some f; pending f < MAX_MESSAGES_PER_QUEUE; length d \<le> MAX_MESSAGE_SIZE\<rbrakk> \<Longrightarrow>
    mq_spec_step m (MqSend n d p) (Flag True) (m(n \<mapsto> f(p := f p @ [d])))"
| send_no: "m n = None \<or> (\<exists>f. m n = Some f \<and> pending f \<ge> MAX_MESSAGES_PER_QUEUE) \<or> length d > MAX_MESSAGE_SIZE \<Longrightarrow>
    mq_spec_step m (MqSend n d p) (Flag False) m"
| receive_ok: "\<lbrakk>m n = Some f; f p = d # ds; \<And>p'. p < p' \<Longrightarrow> f p' = []\<rbrakk> \<Longrightarrow>
    mq_spec_step m (MqReceive n) (Message (Some (d, p))) (m(n \<mapsto> f(p := ds)))"
| receive_no: "m n = None \<or> m n = Some (\<lambda>_. []) \<Longrightarrow> mq_spec_step m (MqReceive n) (Message None) m"
| close: "mq_spec_step m (MqClose n) (Flag (n \<in> dom m)) (m(n := None))"

definition prio_contents :: "mq_message list \<Rightarrow> u32 \<Rightarrow> u8 list list" where
  "prio_contents ms p = map mm_data (filter (\<lambda>m. mm_priority m = p) ms)"

definition mq_abs :: "ipc_ext \<Rightarrow> mq_spec" where
  "mq_abs s n = map_option (\<lambda>q. prio_contents (mq_messages q)) (it_find mq_id n (ix_queues s))"

lemma pending_prio_contents: "pending (prio_contents ms) = length ms"
proof (induction ms)
  case (Cons m ms)
  have "pending (prio_contents (m # ms)) = (\<Sum>p \<in> UNIV. (if p = mm_priority m then 1 else 0) + length (prio_contents ms p))"
    unfolding pending_def by (rule sum.cong) (auto simp: prio_contents_def)
  then show ?case using Cons.IH by (simp add: sum.distrib pending_def)
qed (simp add: pending_def prio_contents_def)

lemma prio_contents_insert:
  assumes "prio_sorted ms"
  shows "prio_contents (mq_insert d p ms) = (prio_contents ms)(p := prio_contents ms p @ [d])"
proof -
  obtain as bs where eq: "ms = as @ bs" "mq_insert d p ms = as @ \<lparr>mm_data = d, mm_priority = p\<rparr> # bs"
    and b: "bs \<noteq> [] \<longrightarrow> mm_priority (hd bs) < p"
    using mq_insert_split [of ms d p] by (elim exE conjE)
  have "mm_priority m < p" if "m \<in> set bs" for m
    using prio_sorted_hd [of bs m] assms b that by (cases bs) (auto simp: eq sorted_wrt_append)
  then have "filter (\<lambda>m. mm_priority m = p) bs = []" by (auto simp: filter_empty_conv)
  then show ?thesis unfolding eq(2) by (auto simp: prio_contents_def eq(1) fun_eq_iff)
qed

lemma mq_step_refines:
  assumes "mq_step s op = (out, s')" and "mq.objects_ok (ix_queues s)"
  shows "mq_spec_step (mq_abs s) op out (mq_abs s')"
proof -
  have ids: "ids_ok mq_id (ix_queues s)" using assms(2) by (rule mq.objects_ok_ids)
  show ?thesis
  proof (cases op)
    case (MqOpen name)
    show ?thesis
    proof (cases "find (\<lambda>q. mq_name q = name \<and> mq_namespace q = 0) (it_items (ix_queues s))")
      case None
      show ?thesis
      proof (cases "length (it_items (ix_queues s)) \<ge> MAX_MESSAGE_QUEUES")
        case True
        then show ?thesis using assms(1) None MqOpen by (auto simp: mq_open_def mqt_open_def it_push_def intro: open_full)
      next
        case False
        have fresh: "it_find mq_id (it_next (ix_queues s)) (ix_queues s) = None"
          using it_find_less [OF ids] by (metis less_irrefl not_Some_eq)
        have "mq_abs s' = (mq_abs s)(it_next (ix_queues s) \<mapsto> \<lambda>_. [])" and "out = Handle (Some (it_next (ix_queues s)))"
          using assms(1) None MqOpen False it_find_push [OF ids, of "new_queue name 0 (it_next (ix_queues s))"]
          by (auto simp: mq_open_def mqt_open_def it_push_def Let_def mq_abs_def new_queue_def prio_contents_def fun_eq_iff)
        then show ?thesis using fresh MqOpen open_new [of "it_next (ix_queues s)" "mq_abs s" name] by (simp add: mq_abs_def domIff)
      qed
    next
      case (Some q)
      then have "it_find mq_id (mq_id q) (ix_queues s) = Some q" using find_Some_in by (fastforce simp: it_find_iff [OF ids])
      then show ?thesis using assms(1) Some MqOpen
        by (auto simp: mq_open_def mqt_open_def mq_abs_def intro!: open_old)
    qed
  next
    case (MqSend n d p)
    show ?thesis
    proof (cases "\<exists>q. it_find mq_id n (ix_queues s) = Some q \<and> length (mq_messages q) < mq_max_messages q \<and> length d \<le> mq_max_msg_size q")
      case True
      then obtain q where q: "it_find mq_id n (ix_queues s) = Some q" "length (mq_messages q) < mq_max_messages q" "length d \<le> mq_max_msg_size q" by blast
      have ok: "mq_ok q" by (rule mq.objects_ok_good [OF assms(2) q(1)])
      have "mq_abs s' = (mq_abs s)(n \<mapsto> (prio_contents (mq_messages q))(p := prio_contents (mq_messages q) p @ [d]))" and "out = Flag True"
        using assms(1) q ok MqSend prio_contents_insert [of "mq_messages q" d p]
        by (auto simp: mq_send_def mqt_send_def mq_abs_def it_find_modify mq_ok_def fun_eq_iff)
      moreover have "mq_spec_step (mq_abs s) (MqSend n d p) (Flag True)
          ((mq_abs s)(n \<mapsto> (prio_contents (mq_messages q))(p := prio_contents (mq_messages q) p @ [d])))"
        by (rule send_ok) (use q ok in \<open>auto simp: mq_abs_def pending_prio_contents mq_ok_def\<close>)
      ultimately show ?thesis using MqSend by simp
    next
      case False
      then have "s' = s" "out = Flag False"
        using assms(1) MqSend by (auto simp: mq_send_def mqt_send_def split: option.splits if_splits prod.splits)
      moreover have "mq_abs s n = None \<or> (\<exists>f. mq_abs s n = Some f \<and> pending f \<ge> MAX_MESSAGES_PER_QUEUE) \<or> length d > MAX_MESSAGE_SIZE"
      proof (cases "it_find mq_id n (ix_queues s)")
        case (Some q)
        have "mq_ok q" by (rule mq.objects_ok_good [OF assms(2) Some])
        then show ?thesis using False Some by (auto simp: mq_abs_def pending_prio_contents mq_ok_def)
      qed (simp add: mq_abs_def)
      ultimately show ?thesis using MqSend send_no by simp
    qed
  next
    case (MqReceive n)
    show ?thesis
    proof (cases "\<exists>q m ms. it_find mq_id n (ix_queues s) = Some q \<and> mq_messages q = m # ms")
      case True
      then obtain q m ms where q: "it_find mq_id n (ix_queues s) = Some q" "mq_messages q = m # ms" by blast
      have ok: "mq_ok q" by (rule mq.objects_ok_good [OF assms(2) q(1)])
      have "mq_abs s' = (mq_abs s)(n \<mapsto> (prio_contents (mq_messages q))(mm_priority m := prio_contents ms (mm_priority m)))"
        and "out = Message (Some (mm_data m, mm_priority m))"
        using assms(1) q MqReceive by (auto simp: mq_receive_def mqt_receive_def mq_abs_def it_find_modify prio_contents_def fun_eq_iff)
      moreover have "mq_spec_step (mq_abs s) (MqReceive n) (Message (Some (mm_data m, mm_priority m)))
          ((mq_abs s)(n \<mapsto> (prio_contents (mq_messages q))(mm_priority m := prio_contents ms (mm_priority m))))"
        by (rule receive_ok) (use q ok in \<open>auto simp: mq_abs_def prio_contents_def mq_ok_def filter_empty_conv\<close>)
      ultimately show ?thesis using MqReceive by simp
    next
      case False
      then have "s' = s" "out = Message None"
        using assms(1) MqReceive by (auto simp: mq_receive_def mqt_receive_def split: option.splits list.splits prod.splits)
      moreover have "mq_abs s n = None \<or> mq_abs s n = Some (\<lambda>_. [])"
      proof (cases "it_find mq_id n (ix_queues s)")
        case (Some q)
        then have "mq_messages q = []" using False by (cases "mq_messages q") auto
        then show ?thesis using Some by (simp add: mq_abs_def prio_contents_def fun_eq_iff)
      qed (simp add: mq_abs_def)
      ultimately show ?thesis using MqReceive receive_no by simp
    qed
  next
    case (MqClose n)
    have "mq_abs s' = (mq_abs s)(n := None)" "out = Flag (n \<in> dom (mq_abs s))"
      using assms(1) MqClose it_find_remove(1) [OF ids, of _ n] it_find_remove(2) [OF ids, of n]
      by (auto simp: mq_close_def mqt_close_def mq_abs_def fun_eq_iff dom_def split: prod.splits)
    then show ?thesis using MqClose close by simp
  qed
qed

definition is_mq :: "ix_op \<times> ix_out \<Rightarrow> (mq_op \<times> ix_out) option" where
  "is_mq e = (case e of (MqOp op, out) \<Rightarrow> Some (op, out) | _ \<Rightarrow> None)"

inductive mq_spec_run :: "mq_spec \<Rightarrow> (mq_op \<times> ix_out) list \<Rightarrow> mq_spec \<Rightarrow> bool" where
  spec_Nil: "mq_spec_run m [] m"
| spec_Cons: "mq_spec_step m op out m1 \<Longrightarrow> mq_spec_run m1 h m2 \<Longrightarrow> mq_spec_run m ((op, out) # h) m2"

lemma ix_step_queues:
  assumes "ix_step s op = Some (out, s')" and "\<And>o1. op \<noteq> MqOp o1"
  shows "mq_abs s' = mq_abs s"
proof -
  have "same_queues s s'"
    using assms us_step_frame [of s _ out s'] sem_step_frame [of s _ out s'] seg_step_frame [of s _ out s']
      ev_step_frame [of s _ out s'] tf_step_frame [of s _ out s'] ep_step_frame [of s _ out s']
    by (cases op) auto
  then show ?thesis by (simp add: mq_abs_def same_queues_def fun_eq_iff)
qed

lemma ix_run_queues:
  "\<lbrakk>ix_run s h s'; ipc_ext_ok s\<rbrakk> \<Longrightarrow> mq_spec_run (mq_abs s) (List.map_filter is_mq h) (mq_abs s')"
proof (induction rule: ix_run.induct)
  case (run_Nil s)
  then show ?case by (simp add: List.map_filter_def spec_Nil)
next
  case (run_Cons s op out s1 h s2)
  note IH = run_Cons.IH [OF ix_step_ok [OF run_Cons.hyps(1) run_Cons.prems]]
  show ?case
  proof (cases "\<exists>o1. op = MqOp o1")
    case True
    then obtain o1 where o1: "op = MqOp o1" by blast
    have "mq_spec_step (mq_abs s) o1 out (mq_abs s1)"
      using mq_step_refines [of s o1 out s1] run_Cons.hyps(1) run_Cons.prems o1 by (simp add: ipc_ext_ok_def)
    then show ?thesis using IH o1 by (simp add: List.map_filter_def is_mq_def spec_Cons)
  next
    case False
    then have "is_mq (op, out) = None" by (auto simp: is_mq_def split: ix_op.split)
    then show ?thesis using IH ix_step_queues [OF run_Cons.hyps(1)] False by (auto simp: List.map_filter_def)
  qed
qed

text \<open>
  C35. Message queues implement priority queues: whatever the extended IPC does, the answers of the
  queue operations are those of a set of queues that keep, per priority, their messages in the
  order of sending, where receiving takes the oldest message of the highest priority, sending fails
  exactly when the queue does not exist, holds 128 messages or the message is larger than 4096
  bytes, and closing removes the queue.
\<close>

theorem mq_refines_priority_queues:
  assumes "ix_run ipc_ext_boot h s"
  shows "mq_spec_run (\<lambda>_. None) (List.map_filter is_mq h) (mq_abs s)"
proof -
  have "mq_abs ipc_ext_boot = (\<lambda>_. None)" by (simp add: mq_abs_def ipc_ext_boot_def fun_eq_iff)
  then show ?thesis using ix_run_queues [OF assms ipc_ext_boot_ok] by simp
qed

definition mq_history :: "(ix_op \<times> ix_out) list \<times> ipc_ext" where
  "mq_history = the (ix_exec ipc_ext_boot (map MqOp [MqOpen ''q'', MqSend 1 [7] 1, MqSend 1 [8] 5, MqSend 1 [9] 5, MqReceive 1]))"

theorem mq_refines_priority_queues_witness:
  "List.map_filter is_mq (fst mq_history) =
     [(MqOpen ''q'', Handle (Some 1)), (MqSend 1 [7] 1, Flag True), (MqSend 1 [8] 5, Flag True),
      (MqSend 1 [9] 5, Flag True), (MqReceive 1, Message (Some ([8], 5)))] \<and>
   mq_spec_run (\<lambda>_. None)
     [(MqOpen ''q'', Handle (Some 1)), (MqSend 1 [7] 1, Flag True), (MqSend 1 [8] 5, Flag True),
      (MqSend 1 [9] 5, Flag True), (MqReceive 1, Message (Some ([8], 5)))] (mq_abs (snd mq_history))"
proof -
  have "ix_exec ipc_ext_boot (map MqOp [MqOpen ''q'', MqSend 1 [7] 1, MqSend 1 [8] 5, MqSend 1 [9] 5, MqReceive 1]) = Some mq_history"
    by code_simp
  then have r: "ix_run ipc_ext_boot (fst mq_history) (snd mq_history)" by (rule ix_exec_runs)
  have "List.map_filter is_mq (fst mq_history) =
     [(MqOpen ''q'', Handle (Some 1)), (MqSend 1 [7] 1, Flag True), (MqSend 1 [8] 5, Flag True),
      (MqSend 1 [9] 5, Flag True), (MqReceive 1, Message (Some ([8], 5)))]" by code_simp
  then show ?thesis using mq_refines_priority_queues [OF r] by simp
qed

section \<open>Semaphores count\<close>

text \<open>How often semaphore \<open>n\<close> was taken and given in a history.\<close>

definition taken_once :: "usize \<Rightarrow> ix_op \<times> ix_out \<Rightarrow> int" where
  "taken_once n e = of_bool (e = (SemOp (SemWait n), Flag True) \<or> e = (SemOp (SemTrywait n), Flag True))"

definition given_once :: "usize \<Rightarrow> ix_op \<times> ix_out \<Rightarrow> int" where
  "given_once n e = of_bool (e = (SemOp (SemPost n), Flag True))"

lemmas once_defs = taken_once_def given_once_def

definition sem_value :: "ipc_ext \<Rightarrow> usize \<Rightarrow> int option" where
  "sem_value s n = map_option sm_value (it_find sm_id n (ix_sems s))"

definition count_step :: "ipc_ext \<Rightarrow> ipc_ext \<Rightarrow> usize \<Rightarrow> ix_op \<times> ix_out \<Rightarrow> bool" where
  "count_step s s' n e \<longleftrightarrow>
     it_next (ix_sems s) \<le> it_next (ix_sems s') \<and>
     (\<forall>v'. sem_value s' n = Some v' \<longrightarrow>
        (\<exists>v. sem_value s n = Some v \<and> v' = v + given_once n e - taken_once n e \<and> (taken_once n e = 1 \<longrightarrow> 0 < v)))"

lemma sem_step_count:
  assumes "sem_step s op = Some (out, s')" and "ids_ok sm_id (ix_sems s)" and "n < it_next (ix_sems s)"
  shows "count_step s s' n (SemOp op, out)"
proof (cases op)
  case (SemInit name v)
  then show ?thesis
    using assms it_find_push [OF assms(2), of "new_semaphore name (sint v) 0 (it_next (ix_sems s))" n]
    by (auto simp: count_step_def once_defs sem_init_def semt_init_def it_push_def sem_value_def new_semaphore_def Let_def
        split: prod.splits option.splits if_splits)
next
  case (SemDestroy m)
  then show ?thesis
    using assms it_find_remove(1) [OF assms(2), of n m] it_remove_ok(4) [OF assms(2), of "\<lambda>k. sm_id k = m"]
    by (auto simp: count_step_def once_defs sem_destroy_def semt_destroy_def sem_value_def split: prod.splits if_splits)
qed (use assms in \<open>auto simp: count_step_def once_defs sem_wait_def semt_wait_def sem_trywait_def semt_trywait_def
    sem_post_def semt_post_def count_sem_op_def sem_value_def it_find_modify sem_take_def sem_give_def
    split: option.splits if_splits\<close>)

lemma ix_step_sems:
  assumes "ix_step s op = Some (out, s')" and "\<And>o1. op \<noteq> SemOp o1"
  shows "ix_sems s' = ix_sems s"
  using assms us_step_frame [of s _ out s'] mq_step_frame [of s _ out s'] seg_step_frame [of s _ out s']
    ev_step_frame [of s _ out s'] tf_step_frame [of s _ out s'] ep_step_frame [of s _ out s']
  by (cases op) (auto simp: same_sems_def)

lemma ix_step_count:
  assumes "ix_step s op = Some (out, s')" and "ids_ok sm_id (ix_sems s)" and "n < it_next (ix_sems s)"
  shows "count_step s s' n (op, out)"
proof (cases "\<exists>o1. op = SemOp o1")
  case True
  then show ?thesis using sem_step_count assms by auto
next
  case False
  then have "taken_once n (op, out) = 0" "given_once n (op, out) = 0" by (auto simp: once_defs)
  then show ?thesis using ix_step_sems [OF assms(1)] False by (auto simp: count_step_def sem_value_def)
qed

lemma ix_run_count:
  "\<lbrakk>ix_run s h s'; ipc_ext_ok s; n < it_next (ix_sems s); sem_value s' n = Some v'\<rbrakk> \<Longrightarrow>
    \<exists>v. sem_value s n = Some v \<and> v' = v + sum_list (map (given_once n) h) - sum_list (map (taken_once n) h) \<and> (0 \<le> v \<longrightarrow> 0 \<le> v')"
proof (induction rule: ix_run.induct)
  case (run_Cons s op out s1 h s2)
  have ids: "ids_ok sm_id (ix_sems s)" using run_Cons.prems(1) by (simp add: ipc_ext_ok_def sm.objects_ok_def)
  note b = ix_step_count [OF run_Cons.hyps(1) ids run_Cons.prems(2)]
  then obtain v1 where v1: "sem_value s1 n = Some v1"
      "v' = v1 + sum_list (map (given_once n) h) - sum_list (map (taken_once n) h)" "0 \<le> v1 \<longrightarrow> 0 \<le> v'"
    using run_Cons.IH run_Cons.prems ix_step_ok [OF run_Cons.hyps(1)] by (auto simp: count_step_def)
  obtain v where v: "sem_value s n = Some v" "v1 = v + given_once n (op, out) - taken_once n (op, out)"
      "taken_once n (op, out) = 1 \<longrightarrow> 0 < v"
    using b v1(1) by (auto simp: count_step_def)
  have "taken_once n (op, out) \<in> {0, 1}" "0 \<le> given_once n (op, out)" by (auto simp: once_defs)
  then have "0 \<le> v \<longrightarrow> 0 \<le> v1" using v by auto
  then show ?case using v v1 by auto
qed auto

text \<open>
  Semaphores count: in every history the value of a semaphore is the value it had plus the
  posts minus the successful waits since, a semaphore that was not negative stays so (so waits
  never outnumber the initial value and the posts), a wait succeeds exactly when the value is
  positive, and posting panics exactly at the largest 32-bit value.
\<close>

lemma semaphore_counts:
  assumes "ix_run ipc_ext_boot h0 s" and "ix_run s h s'" and "sem_value s n = Some v" and "sem_value s' n = Some v'"
  shows "v' = v + sum_list (map (given_once n) h) - sum_list (map (taken_once n) h) \<and>
    (0 \<le> v \<longrightarrow> sum_list (map (taken_once n) h) \<le> v + sum_list (map (given_once n) h)) \<and>
    (fst (sem_wait s' n) \<longleftrightarrow> 0 < v') \<and> (fst (sem_trywait s' n) \<longleftrightarrow> 0 < v') \<and>
    (sem_post s' n = None \<longleftrightarrow> v' = I32_MAX)"
proof -
  have ok: "ipc_ext_ok s" using ix_run_ok [OF assms(1) ipc_ext_boot_ok] .
  then have n: "n < it_next (ix_sems s)"
    using assms(3) it_find_less [of sm_id "ix_sems s" n] by (auto simp: ipc_ext_ok_def sm.objects_ok_def sem_value_def)
  have "(fst (sem_wait s' n) \<longleftrightarrow> 0 < v') \<and> (fst (sem_trywait s' n) \<longleftrightarrow> 0 < v') \<and> (sem_post s' n = None \<longleftrightarrow> v' = I32_MAX)"
    using assms(4) by (auto simp: sem_value_def sem_wait_def semt_wait_def sem_trywait_def semt_trywait_def
        sem_post_def semt_post_def split: if_splits)
  then show ?thesis using ix_run_count [OF assms(2) ok n assms(4)] assms(3) by auto
qed

definition sem_start :: "(ix_op \<times> ix_out) list \<times> ipc_ext" where
  "sem_start = the (ix_exec ipc_ext_boot [SemOp (SemInit ''m'' 1)])"

definition sem_end :: "(ix_op \<times> ix_out) list \<times> ipc_ext" where
  "sem_end = the (ix_exec (snd sem_start) (map SemOp [SemWait 1, SemTrywait 1, SemPost 1, SemWait 1]))"

lemma semaphore_counts_instance:
  "sum_list (map (taken_once 1) (fst sem_end)) = 2 \<and> sum_list (map (given_once 1) (fst sem_end)) = 1 \<and>
   sem_value (snd sem_end) 1 = Some 0 \<and> \<not> fst (sem_wait (snd sem_end) 1)"
proof -
  have "ix_exec ipc_ext_boot [SemOp (SemInit ''m'' 1)] = Some sem_start" by code_simp
  then have r1: "ix_run ipc_ext_boot (fst sem_start) (snd sem_start)" by (rule ix_exec_runs)
  have "ix_exec (snd sem_start) (map SemOp [SemWait 1, SemTrywait 1, SemPost 1, SemWait 1]) = Some sem_end" by code_simp
  then have r2: "ix_run (snd sem_start) (fst sem_end) (snd sem_end)" by (rule ix_exec_runs)
  have v: "sem_value (snd sem_start) 1 = Some 1" by code_simp
  have v': "sem_value (snd sem_end) 1 = Some 0" by code_simp
  have c: "sum_list (map (taken_once 1) (fst sem_end)) = 2" "sum_list (map (given_once 1) (fst sem_end)) = 1" by code_simp+
  show ?thesis using semaphore_counts [OF r1 r2 v v'] c v' by simp
qed

section \<open>The tables stay in order\<close>

text \<open>
  In every state that the extended IPC reaches, each table respects its limit and numbers its
  objects uniquely, names are unique within a namespace, backlogs respect their limits, exactly the
  connected sockets have a peer, queues are sorted by priority and within their bounds, segments
  have the size they were created with, and no epoll set, segment or namespace lists anything twice.
\<close>

lemma ipc_ext_invariant:
  assumes "ix_run ipc_ext_boot h s"
  shows "ipc_ext_ok s"
  by (rule ix_run_ok [OF assms ipc_ext_boot_ok])

lemma ipc_ext_invariant_instance: "ipc_ext_ok (snd mq_history)"
proof -
  have "ix_exec ipc_ext_boot (map MqOp [MqOpen ''q'', MqSend 1 [7] 1, MqSend 1 [8] 5, MqSend 1 [9] 5, MqReceive 1]) = Some mq_history"
    by code_simp
  then have "ix_run ipc_ext_boot (fst mq_history) (snd mq_history)" by (rule ix_exec_runs)
  then show ?thesis by (rule ipc_ext_invariant)
qed

section \<open>What the code does not do\<close>

text \<open>A listener whose table is full drops the pending connection, and a client that never was
  accepted stays unconnected; a bound socket hides a listening one at the same address.\<close>

lemma bound_socket_hides_listener:
  "map snd (fst (the (ix_exec ipc_ext_boot (map UsOp [SocketCreate 1, SocketBind 1 ''/s'', SocketCreate 2,
     SocketBind 2 ''/s'', SocketListen 2 4, SocketCreate 3, SocketConnect 3 ''/s''])))) =
   [Handle (Some 1), Flag True, Handle (Some 2), Flag True, Flag True, Handle (Some 3), Flag False]"
  by code_simp

lemma accept_full_drops_client:
  assumes "us_find (ix_sockets s) n = Some k" and "us_state k = SListening" and "us_backlog k = c # rest"
    and "length (it_items (ix_sockets s)) = MAX_UNIX_SOCKETS"
  shows "fst (socket_accept s n) = None \<and>
    map_option us_backlog (us_find (ix_sockets (snd (socket_accept s n))) n) = Some rest"
  using assms
  by (simp add: socket_accept_def us_create_def it_push_def Let_def us_find_modify) (simp add: us_modify_def us_find_modify [unfolded us_modify_def])

end
