(* ===== verification/Elf_Load.thy ===== *)
theory Elf_Load
  imports Cow Le_Bytes
begin

text \<open>
  Program images (\<^verbatim>\<open>src/userspace.rs\<close>): the ELF64 parser and builder and the loader that maps the
  segments of an image and copies their bytes. Physical memory is a function from addresses to
  bytes, seen through the direct mapping (\<open>phys_to_virt\<close>); the page-table walker of the \<^verbatim>\<open>x86_64\<close>
  crate is a parameter, as in \<open>Memory\<close>. Where the code can panic (a checked overflow, a
  non-canonical address given to \<^verbatim>\<open>VirtAddr::new\<close>) the result is \<open>None\<close>.
\<close>

section \<open>Constants\<close>

definition TEXT_BASE :: u64 where "TEXT_BASE = 0x400000"
definition DATA_BASE :: u64 where "DATA_BASE = 0x600000"
definition HEAP_BASE :: u64 where "HEAP_BASE = 0x800000"
definition USER_STACK_TOP :: u64 where "USER_STACK_TOP = 0x7FFFF000"
definition STACK_PAGES :: nat where "STACK_PAGES = 4"

definition ELF_MAGIC :: "u8 list" where "ELF_MAGIC = [0x7F, 0x45, 0x4C, 0x46]"
definition ET_EXEC :: u16 where "ET_EXEC = 2"
definition EM_X86_64 :: u16 where "EM_X86_64 = 0x3E"
definition PT_LOAD :: u32 where "PT_LOAD = 1"

record elf64_phdr =
  p_type :: u32
  p_flags :: u32
  p_offset :: u64
  p_vaddr :: u64
  p_filesz :: u64
  p_memsz :: u64

record elf64_info =
  elf_entry :: u64
  elf_segments :: "elf64_phdr list"

section \<open>Parsing\<close>

definition u64_to_le :: "u64 \<Rightarrow> u8 list" where
  "u64_to_le w = u32_to_le (ucast w) @ u32_to_le (ucast (drop_bit 32 w))"

definition le_u16 :: "u8 list \<Rightarrow> usize \<Rightarrow> u16" where
  "le_u16 data a = u16_from_le (data ! a) (data ! (a + 1))"

definition le_u32 :: "u8 list \<Rightarrow> usize \<Rightarrow> u32" where
  "le_u32 data a = u32_from_le (data ! a) (data ! (a + 1)) (data ! (a + 2)) (data ! (a + 3))"

definition le_u64 :: "u8 list \<Rightarrow> usize \<Rightarrow> u64" where
  "le_u64 data a = ucast (le_u32 data a) OR push_bit 32 (ucast (le_u32 data (a + 4)))"

definition parse_phdr :: "u8 list \<Rightarrow> elf64_phdr" where
  "parse_phdr ph =
     \<lparr>p_type = le_u32 ph 0, p_flags = le_u32 ph 4, p_offset = le_u64 ph 8, p_vaddr = le_u64 ph 16,
      p_filesz = le_u64 ph 32, p_memsz = le_u64 ph 40\<rparr>"

text \<open>The loop over the program headers; the address of a header is computed with checked
  additions.\<close>

fun parse_phdrs :: "u8 list \<Rightarrow> usize \<Rightarrow> usize \<Rightarrow> nat list \<Rightarrow> elf64_phdr list option" where
  "parse_phdrs data phoff phentsize [] = Some []"
| "parse_phdrs data phoff phentsize (i # is) =
     (let off = phoff + i * phentsize in
      if off + 56 \<ge> 2 ^ 64 then None
      else if off + 56 > length data then Some []
      else map_option (\<lambda>segs. parse_phdr (drop off data) # segs) (parse_phdrs data phoff phentsize is))"

definition parse_elf64 :: "u8 list \<Rightarrow> elf64_info result option" where
  "parse_elf64 data =
     (if length data < 64 then Some (Err ''ELF too small'')
      else if take 4 data \<noteq> ELF_MAGIC then Some (Err ''not an ELF file'')
      else if data ! 4 \<noteq> 2 then Some (Err ''not 64-bit ELF'')
      else if data ! 5 \<noteq> 1 then Some (Err ''not little-endian'')
      else if le_u16 data 16 \<noteq> ET_EXEC then Some (Err ''not an executable ELF'')
      else if le_u16 data 18 \<noteq> EM_X86_64 then Some (Err ''not x86_64 ELF'')
      else
        let e_phoff = unat (le_u64 data 32); e_phentsize = unat (le_u16 data 54); e_phnum = unat (le_u16 data 56)
        in map_option (\<lambda>segs. Ok \<lparr>elf_entry = le_u64 data 24, elf_segments = segs\<rparr>)
             (parse_phdrs data e_phoff e_phentsize [0..<e_phnum]))"

section \<open>Building\<close>

definition elf64_ehdr :: "u8 list" where
  "elf64_ehdr =
     ELF_MAGIC @ [2, 1, 1, 0] @ replicate 8 0 @ u16_to_le ET_EXEC @ u16_to_le EM_X86_64 @ u32_to_le 1 @
     u64_to_le TEXT_BASE @ u64_to_le 64 @ u64_to_le 0 @ u32_to_le 0 @ u16_to_le 64 @ u16_to_le 56 @
     u16_to_le 1 @ u16_to_le 0 @ u16_to_le 0 @ u16_to_le 0"

definition elf64_code_phdr :: "u64 \<Rightarrow> u8 list" where
  "elf64_code_phdr mem_size =
     u32_to_le PT_LOAD @ u32_to_le (4 OR 1) @ u64_to_le (64 + 56) @ u64_to_le TEXT_BASE @ u64_to_le TEXT_BASE @
     u64_to_le mem_size @ u64_to_le mem_size @ u64_to_le 0x1000"

definition build_elf64 :: "u8 list \<Rightarrow> u8 list" where
  "build_elf64 code = elf64_ehdr @ elf64_code_phdr (of_nat (length code)) @ code"

section \<open>Loading\<close>

text \<open>What the loader works on: the frame allocator, the page tables and physical memory.\<close>

record 'm machine =
  mc_frames :: memory
  mc_tables :: 'm
  mc_ram :: vmem

definition USER_RX :: u64 where "USER_RX = 1 OR 4"

definition page_flags :: "elf64_phdr \<Rightarrow> u64" where
  "page_flags seg = (if p_flags seg AND 2 \<noteq> 0 then USER_RW else USER_RX)"

definition canonical :: "nat \<Rightarrow> bool" where
  "canonical a \<longleftrightarrow> a < 2 ^ 47 \<or> 2 ^ 64 - 2 ^ 47 \<le> a"

definition map_user_page ::
  "('m \<Rightarrow> nat \<Rightarrow> nat \<Rightarrow> u64 \<Rightarrow> prealloc \<Rightarrow> map_result \<times> 'm \<times> prealloc) \<Rightarrow> ('m \<Rightarrow> nat \<Rightarrow> nat option \<times> 'm)
    \<Rightarrow> 'm machine \<Rightarrow> nat \<Rightarrow> u64 \<Rightarrow> (nat option \<times> 'm machine) option" where
  "map_user_page map_to unmap mc addr flags =
     (if \<not> canonical addr then None
      else
        let (f, m, pt) = map_page_global map_to unmap (mc_frames mc) (mc_tables mc) (addr - addr mod 4096) flags
        in Some (f, mc\<lparr>mc_frames := m, mc_tables := pt\<rparr>))"

text \<open>Zero the page at \<open>dest\<close> and copy the overlap of the segment's file range with it.\<close>

definition fill_page :: "u8 list \<Rightarrow> elf64_phdr \<Rightarrow> nat \<Rightarrow> nat \<Rightarrow> vmem \<Rightarrow> vmem option" where
  "fill_page elf_data seg page_addr dest ram =
     (let ram = copy_to ram dest (replicate 4096 0);
          vstart = unat (p_vaddr seg); off = unat (p_offset seg); filesz = unat (p_filesz seg);
          page_end = page_addr + 4096
      in if page_end \<ge> 2 ^ 64 \<or> off + filesz \<ge> 2 ^ 64 then None
         else if off + filesz > off then
           (if vstart + filesz \<ge> 2 ^ 64 then None
            else
              let copy_start = max vstart page_addr; copy_end = min (vstart + filesz) page_end
              in if copy_start < copy_end then
                   (let src_off = copy_start - vstart + off; dst_off = copy_start - page_addr;
                        len = copy_end - copy_start
                    in if src_off + len \<le> length elf_data
                       then Some (copy_to ram (dest + dst_off) (slice src_off len elf_data))
                       else Some ram)
                 else Some ram)
         else Some ram)"

function load_pages ::
  "('m \<Rightarrow> nat \<Rightarrow> nat \<Rightarrow> u64 \<Rightarrow> prealloc \<Rightarrow> map_result \<times> 'm \<times> prealloc) \<Rightarrow> ('m \<Rightarrow> nat \<Rightarrow> nat option \<times> 'm)
    \<Rightarrow> u8 list \<Rightarrow> elf64_phdr \<Rightarrow> nat \<Rightarrow> nat \<Rightarrow> nat \<Rightarrow> 'm machine \<Rightarrow> (nat result \<times> 'm machine) option" where
  "load_pages map_to unmap elf_data seg end_addr page_addr max_addr mc =
     (if page_addr < end_addr then
        (case map_user_page map_to unmap mc page_addr (page_flags seg) of
           None \<Rightarrow> None
         | Some (None, mc1) \<Rightarrow> Some (Err ''failed to map ELF segment page'', mc1)
         | Some (Some frame, mc1) \<Rightarrow>
             (case fill_page elf_data seg page_addr (phys_to_virt (mc_frames mc1) frame) (mc_ram mc1) of
                None \<Rightarrow> None
              | Some ram \<Rightarrow>
                  load_pages map_to unmap elf_data seg end_addr (page_addr + 4096) (max max_addr (page_addr + 4096))
                    (mc1\<lparr>mc_ram := ram\<rparr>)))
      else Some (Ok max_addr, mc))"
  by pat_completeness auto
termination by (relation "measure (\<lambda>(map_to, unmap, elf, seg, end_addr, page_addr, mx, mc). end_addr - page_addr)") auto

declare load_pages.simps [simp del]

fun load_segments ::
  "('m \<Rightarrow> nat \<Rightarrow> nat \<Rightarrow> u64 \<Rightarrow> prealloc \<Rightarrow> map_result \<times> 'm \<times> prealloc) \<Rightarrow> ('m \<Rightarrow> nat \<Rightarrow> nat option \<times> 'm)
    \<Rightarrow> u8 list \<Rightarrow> elf64_phdr list \<Rightarrow> nat \<Rightarrow> 'm machine \<Rightarrow> (nat result \<times> 'm machine) option" where
  "load_segments map_to unmap elf_data [] max_addr mc = Some (Ok max_addr, mc)"
| "load_segments map_to unmap elf_data (seg # segs) max_addr mc =
     (if p_type seg \<noteq> PT_LOAD \<or> p_memsz seg = 0 then load_segments map_to unmap elf_data segs max_addr mc
      else
        let vaddr = unat (p_vaddr seg); end_addr = vaddr + unat (p_memsz seg) in
        if end_addr \<ge> 2 ^ 64 then None
        else
          (case load_pages map_to unmap elf_data seg end_addr (unat (page_aligned (p_vaddr seg))) max_addr mc of
             None \<Rightarrow> None
           | Some (Inl e, mc1) \<Rightarrow> Some (Err e, mc1)
           | Some (Inr max1, mc1) \<Rightarrow> load_segments map_to unmap elf_data segs max1 mc1))"

fun map_stack ::
  "('m \<Rightarrow> nat \<Rightarrow> nat \<Rightarrow> u64 \<Rightarrow> prealloc \<Rightarrow> map_result \<times> 'm \<times> prealloc) \<Rightarrow> ('m \<Rightarrow> nat \<Rightarrow> nat option \<times> 'm)
    \<Rightarrow> nat list \<Rightarrow> 'm machine \<Rightarrow> (unit result \<times> 'm machine) option" where
  "map_stack map_to unmap [] mc = Some (Ok (), mc)"
| "map_stack map_to unmap (i # is) mc =
     (case map_user_page map_to unmap mc (unat USER_STACK_TOP - (i + 1) * 4096) USER_RW of
        None \<Rightarrow> None
      | Some (None, mc1) \<Rightarrow> Some (Err ''failed to map stack page'', mc1)
      | Some (Some _, mc1) \<Rightarrow> map_stack map_to unmap is mc1)"

text \<open>\<open>load_image\<close> is what \<^verbatim>\<open>create_process\<close> does to memory: the segments, then the stack; it returns
  the first address after the image.\<close>

definition load_image ::
  "('m \<Rightarrow> nat \<Rightarrow> nat \<Rightarrow> u64 \<Rightarrow> prealloc \<Rightarrow> map_result \<times> 'm \<times> prealloc) \<Rightarrow> ('m \<Rightarrow> nat \<Rightarrow> nat option \<times> 'm)
    \<Rightarrow> u8 list \<Rightarrow> elf64_info \<Rightarrow> 'm machine \<Rightarrow> (nat result \<times> 'm machine) option" where
  "load_image map_to unmap elf_data elf mc =
     (case load_segments map_to unmap elf_data (elf_segments elf) (unat HEAP_BASE) mc of
        None \<Rightarrow> None
      | Some (Inl e, mc1) \<Rightarrow> Some (Err e, mc1)
      | Some (Inr max_addr, mc1) \<Rightarrow>
          map_option (\<lambda>(r, mc2). (case r of Inl e \<Rightarrow> Err e | Inr _ \<Rightarrow> Ok max_addr, mc2))
            (map_stack map_to unmap [0..<STACK_PAGES] mc1))"

section \<open>An image is parsed back\<close>

lemma le_u64_to_le: "le_u64 (pre @ u64_to_le w @ post) (length pre) = w"
proof -
  have "le_u32 (pre @ u32_to_le a @ rest) (length pre) = a" for a pre and rest :: "u8 list"
    by (simp add: le_u32_def u32_to_le_def nth_append)
  from this [of pre "ucast w" "u32_to_le (ucast (drop_bit 32 w)) @ post"]
    this [of "pre @ u32_to_le (ucast w)" "ucast (drop_bit 32 w)" post]
  have "le_u64 (pre @ u64_to_le w @ post) (length pre) = ucast (ucast w :: u32) OR push_bit 32 (ucast (ucast (drop_bit 32 w) :: u32))"
    by (simp add: le_u64_def u64_to_le_def)
  also have "\<dots> = w" by (rule bit_word_eqI) (auto simp: bit_simps not_less)
  finally show ?thesis .
qed

lemma le_u32_to_le: "le_u32 (pre @ u32_to_le w @ post) (length pre) = w"
  by (simp add: le_u32_def u32_to_le_def nth_append)

lemma elf64_ehdr_bytes:
  "elf64_ehdr = [0x7F, 0x45, 0x4C, 0x46, 2, 1, 1, 0, 0, 0, 0, 0, 0, 0, 0, 0, 2, 0, 0x3E, 0, 1, 0, 0, 0,
     0, 0, 0x40, 0, 0, 0, 0, 0, 64, 0, 0, 0, 0, 0, 0, 0, 0, 0, 0, 0, 0, 0, 0, 0, 0, 0, 0, 0, 64, 0, 56, 0,
     1, 0, 0, 0, 0, 0, 0, 0]"
  by code_simp

lemma parse_code_phdr:
  "parse_phdr (elf64_code_phdr n @ code) =
     \<lparr>p_type = PT_LOAD, p_flags = 5, p_offset = 120, p_vaddr = TEXT_BASE, p_filesz = n, p_memsz = n\<rparr>"
proof -
  note defs = elf64_code_phdr_def
  have 1: "le_u32 (elf64_code_phdr n @ code) 0 = PT_LOAD"
    using le_u32_to_le [of "[]"] by (simp add: defs)
  have 2: "le_u32 (elf64_code_phdr n @ code) 4 = 5"
    using le_u32_to_le [of "u32_to_le PT_LOAD"] by (simp add: defs)
  have 3: "le_u64 (elf64_code_phdr n @ code) 8 = 120"
    using le_u64_to_le [of "u32_to_le PT_LOAD @ u32_to_le 5"] by (simp add: defs)
  have 4: "le_u64 (elf64_code_phdr n @ code) 16 = TEXT_BASE"
    using le_u64_to_le [of "u32_to_le PT_LOAD @ u32_to_le 5 @ u64_to_le 120"] by (simp add: defs u64_to_le_def)
  have 5: "le_u64 (elf64_code_phdr n @ code) 32 = n"
    using le_u64_to_le [of "u32_to_le PT_LOAD @ u32_to_le 5 @ u64_to_le 120 @ u64_to_le TEXT_BASE @ u64_to_le TEXT_BASE"]
    by (simp add: defs u64_to_le_def)
  have 6: "le_u64 (elf64_code_phdr n @ code) 40 = n"
    using le_u64_to_le [of "u32_to_le PT_LOAD @ u32_to_le 5 @ u64_to_le 120 @ u64_to_le TEXT_BASE @ u64_to_le TEXT_BASE @ u64_to_le n"]
    by (simp add: defs u64_to_le_def)
  show ?thesis using 1 2 3 4 5 6 by (simp add: parse_phdr_def)
qed

lemma length_elf64_code_phdr [simp]: "length (elf64_code_phdr n) = 56"
  by (simp add: elf64_code_phdr_def u64_to_le_def)

lemma parse_build_elf64:
  "parse_elf64 (build_elf64 code) =
     Some (Ok \<lparr>elf_entry = TEXT_BASE, elf_segments = [\<lparr>p_type = PT_LOAD, p_flags = 5, p_offset = 120,
       p_vaddr = TEXT_BASE, p_filesz = of_nat (length code), p_memsz = of_nat (length code)\<rparr>]\<rparr>)"
proof -
  define rest where "rest = elf64_code_phdr (of_nat (length code)) @ code"
  have b: "build_elf64 code = elf64_ehdr @ rest" by (simp add: build_elf64_def rest_def)
  have h: "take 4 (elf64_ehdr @ rest) = ELF_MAGIC" "(elf64_ehdr @ rest) ! 4 = 2" "(elf64_ehdr @ rest) ! 5 = 1"
      "le_u16 (elf64_ehdr @ rest) 16 = ET_EXEC" "le_u16 (elf64_ehdr @ rest) 18 = EM_X86_64"
      "le_u64 (elf64_ehdr @ rest) 24 = TEXT_BASE" "unat (le_u64 (elf64_ehdr @ rest) 32) = 64"
      "unat (le_u16 (elf64_ehdr @ rest) 54) = 56" "unat (le_u16 (elf64_ehdr @ rest) 56) = 1"
      "length (elf64_ehdr @ rest) = 120 + length code" "drop 64 (elf64_ehdr @ rest) = rest"
    by (simp_all add: elf64_ehdr_bytes ELF_MAGIC_def le_u16_def le_u64_def le_u32_def u16_from_le_def u32_from_le_def
        ET_EXEC_def EM_X86_64_def TEXT_BASE_def rest_def)
  have "parse_phdrs data 64 56 [0..<1] = Some [parse_phdr rest]" if "drop 64 data = rest" "length data = 120 + length code" for data
    using that by (simp add: upt_rec)
  from this [OF h(11) h(10)] show ?thesis
    unfolding parse_elf64_def b Let_def h by (simp add: parse_code_phdr rest_def)
qed

section \<open>The address space\<close>

definition user_byte :: "('m \<Rightarrow> nat \<Rightarrow> nat option) \<Rightarrow> 'm machine \<Rightarrow> nat \<Rightarrow> u8 option" where
  "user_byte translate_page mc a =
     map_option (\<lambda>f. mc_ram mc (phys_to_virt (mc_frames mc) f + a mod 4096))
       (translate_page (mc_tables mc) (a - a mod 4096))"

text \<open>Free frames are distinct page frames that no page is mapped to.\<close>

definition machine_ok :: "('m \<Rightarrow> nat \<Rightarrow> nat option) \<Rightarrow> 'm machine \<Rightarrow> bool" where
  "machine_ok translate_page mc \<longleftrightarrow>
     distinct (mem_rest (mc_frames mc)) \<and> (\<forall>f \<in> set (mem_rest (mc_frames mc)). 4096 dvd f) \<and>
     (\<forall>q f. translate_page (mc_tables mc) q = Some f \<longrightarrow> 4096 dvd f \<and> f \<notin> set (mem_rest (mc_frames mc)))"

lemma map_fresh_page:
  assumes mapper: "sound_mapper translate_page unmap map_to" and ok: "machine_ok translate_page mc"
    and rest: "mem_rest (mc_frames mc) = f # e1 # e2 # e3 # fs" and page: "4096 dvd addr" "addr < 2 ^ 47"
    and free: "translate_page (mc_tables mc) addr = None"
  obtains mc1 where "map_user_page map_to unmap mc addr flags = Some (Some f, mc1)"
    "mem_rest (mc_frames mc1) = fs" "mem_phys_offset (mc_frames mc1) = mem_phys_offset (mc_frames mc)"
    "mc_ram mc1 = mc_ram mc" "machine_ok translate_page mc1"
    "\<And>q. translate_page (mc_tables mc1) q = (if q = addr then Some f else translate_page (mc_tables mc) q)"
proof -
  obtain m1 where m1: "alloc_frame (mc_frames mc) = (Some f, m1)" "mem_rest m1 = e1 # e2 # e3 # fs"
    "mem_phys_offset m1 = mem_phys_offset (mc_frames mc)" using alloc_next [OF rest] by blast
  obtain m2 where m2: "alloc_frame m1 = (Some e1, m2)" "mem_rest m2 = e2 # e3 # fs"
    "mem_phys_offset m2 = mem_phys_offset m1" using alloc_next [OF m1(2)] by blast
  obtain m3 where m3: "alloc_frame m2 = (Some e2, m3)" "mem_rest m3 = e3 # fs"
    "mem_phys_offset m3 = mem_phys_offset m2" using alloc_next [OF m2(2)] by blast
  obtain m4 where m4: "alloc_frame m3 = (Some e3, m4)" "mem_rest m4 = fs"
    "mem_phys_offset m4 = mem_phys_offset m3" using alloc_next [OF m3(2)] by blast
  obtain pt' pre' where mp: "map_to (mc_tables mc) addr f flags \<lparr>pa_frames = [Some e1, Some e2, Some e3], pa_next = 0\<rparr> = (Mapped, pt', pre')"
    "\<And>q. translate_page pt' q = (if q = addr then Some f else translate_page (mc_tables mc) q)"
    using mapper free unfolding sound_mapper_def by blast
  have al: "addr - addr mod 4096 = addr" using page by auto
  let ?mc = "mc\<lparr>mc_frames := m4, mc_tables := pt'\<rparr>"
  have "map_user_page map_to unmap mc addr flags = Some (Some f, ?mc)"
    using m1(1) m2(1) m3(1) m4(1) mp(1) page al
    by (simp add: map_user_page_def map_page_global_def canonical_def)
  moreover have "machine_ok translate_page ?mc"
    using ok mp(2) rest m4(2) by (auto simp: machine_ok_def split: if_splits)
  ultimately show thesis using that [of ?mc] mp(2) m1 m2 m3 m4 by simp
qed

lemma aligned_apart:
  assumes "4096 dvd f" "4096 dvd g" "f \<noteq> g" "i < 4096"
  shows "\<not> (phys_to_virt m f \<le> phys_to_virt m g + i \<and> phys_to_virt m g + i < phys_to_virt m f + 4096)"
proof -
  obtain j k where "f = 4096 * j" "g = 4096 * k" using assms(1,2) unfolding dvd_def by blast
  moreover have "j \<noteq> k" using assms(3) calculation by auto
  ultimately show ?thesis using assms(4) by (auto simp: phys_to_virt_def neq_iff)
qed

text \<open>The byte an image puts at a virtual address.\<close>

definition seg_byte :: "u8 list \<Rightarrow> elf64_phdr \<Rightarrow> nat \<Rightarrow> u8" where
  "seg_byte elf_data seg a =
     (if unat (p_vaddr seg) \<le> a \<and> a < unat (p_vaddr seg) + unat (p_filesz seg)
      then elf_data ! (unat (p_offset seg) + (a - unat (p_vaddr seg))) else 0)"

definition in_image :: "u8 list \<Rightarrow> elf64_phdr \<Rightarrow> bool" where
  "in_image elf_data seg \<longleftrightarrow>
     unat (p_offset seg) + unat (p_filesz seg) \<le> length elf_data \<and> length elf_data < 2 ^ 64 \<and>
     p_filesz seg \<le> p_memsz seg \<and> unat (p_vaddr seg) + unat (p_memsz seg) \<le> 2 ^ 47 - 4096"

lemma fill_page_bytes:
  assumes seg: "in_image elf_data seg" and page: "page_addr < 2 ^ 47"
  obtains ram' where "fill_page elf_data seg page_addr dest ram = Some ram'"
    "\<And>i. i < 4096 \<Longrightarrow> ram' (dest + i) = seg_byte elf_data seg (page_addr + i)"
    "\<And>a. \<not> (dest \<le> a \<and> a < dest + 4096) \<Longrightarrow> ram' a = ram a"
proof -
  let ?v = "unat (p_vaddr seg)" and ?o = "unat (p_offset seg)" and ?n = "unat (p_filesz seg)"
  let ?z = "copy_to ram dest (replicate 4096 0)"
  have b: "?o + ?n \<le> length elf_data" "?o + ?n < 2 ^ 64" "?n \<le> unat (p_memsz seg)" "?v + ?n < 2 ^ 64" "page_addr + 4096 < 2 ^ 64"
    using seg page by (auto simp: in_image_def word_le_nat_alt)
  define cs where "cs = max ?v page_addr"
  define ce where "ce = min (?v + ?n) (page_addr + 4096)"
  show thesis
  proof (cases "cs < ce")
    case False
    then have "fill_page elf_data seg page_addr dest ram = Some ?z"
      using b by (auto simp: fill_page_def Let_def cs_def ce_def)
    moreover have "seg_byte elf_data seg (page_addr + i) = 0" if "i < 4096" for i
      using False that by (auto simp: seg_byte_def cs_def ce_def)
    ultimately show thesis by (intro that [of ?z]) (auto simp: copy_to_nth)
  next
    case True
    let ?s = "cs - ?v + ?o" and ?d = "cs - page_addr" and ?l = "ce - cs"
    let ?ram = "copy_to ?z (dest + ?d) (slice ?s ?l elf_data)"
    have l: "?s + ?l \<le> length elf_data" using True b by (auto simp: cs_def ce_def)
    have "?n > 0" using True by (auto simp: cs_def ce_def)
    then have f: "fill_page elf_data seg page_addr dest ram = Some ?ram"
      using b True l by (simp add: fill_page_def Let_def cs_def ce_def)
    have len: "length (slice ?s ?l elf_data) = ?l" using l by (simp add: slice_def)
    have bytes: "?ram (dest + i) = seg_byte elf_data seg (page_addr + i)" if "i < 4096" for i
    proof (cases "?d \<le> i \<and> i < ?d + ?l")
      case inside: True
      then have k: "i - ?d < ?l" by linarith
      have "?ram (dest + i) = slice ?s ?l elf_data ! (i - ?d)" using inside len by (simp add: copy_to_nth)
      also have "\<dots> = elf_data ! (?s + (i - ?d))" by (rule nth_slice [OF k l])
      finally have "?ram (dest + i) = elf_data ! (?s + (i - ?d))" .
      moreover have "?v \<le> page_addr + i" "page_addr + i < ?v + ?n" "?s + (i - ?d) = ?o + (page_addr + i - ?v)"
        using inside True that by (auto simp: cs_def ce_def)
      ultimately show ?thesis by (simp add: seg_byte_def)
    next
      case out: False
      then have "?ram (dest + i) = 0" using len that by (auto simp: copy_to_nth)
      moreover have "\<not> (?v \<le> page_addr + i \<and> page_addr + i < ?v + ?n)"
        using out True that by (auto simp: cs_def ce_def)
      ultimately show ?thesis by (auto simp: seg_byte_def)
    qed
    have "?ram a = ram a" if "\<not> (dest \<le> a \<and> a < dest + 4096)" for a
      using that len True by (auto simp: copy_to_nth cs_def ce_def)
    then show thesis using that [of ?ram] f bytes by blast
  qed
qed


section \<open>The pages of a segment\<close>

definition page_of :: "nat \<Rightarrow> nat" where "page_of a = a - a mod 4096"

lemma page_of_le: "page_of a \<le> a" and page_of_dvd: "4096 dvd page_of a"
  by (simp_all add: page_of_def)

lemma page_of_offset: "4096 dvd p \<Longrightarrow> i < 4096 \<Longrightarrow> page_of (p + i) = p \<and> (p + i) mod 4096 = i"
  by (auto simp: page_of_def dvd_def)

text \<open>How many pages \<^verbatim>\<open>load_pages\<close> maps from \<open>p\<close> up to \<open>e\<close>.\<close>

definition pages_between :: "nat \<Rightarrow> nat \<Rightarrow> nat" where
  "pages_between p e = (e - p + 4095) div 4096"

lemma pages_between_Suc: "p < e \<Longrightarrow> pages_between p e = Suc (pages_between (p + 4096) e)"
proof -
  assume "p < e"
  then have "e - p + 4095 = (e - (p + 4096) + 4095) + 4096 \<or> e \<le> p + 4096 \<and> 4096 \<le> e - p + 4095 \<and> e - p + 4095 < 2 * 4096"
    by arith
  then show ?thesis
  proof
    assume "e - p + 4095 = (e - (p + 4096) + 4095) + 4096"
    moreover have "(x + 4096) div 4096 = Suc (x div 4096)" for x :: nat by simp
    ultimately show ?thesis unfolding pages_between_def by metis
  next
    assume a: "e \<le> p + 4096 \<and> 4096 \<le> e - p + 4095 \<and> e - p + 4095 < 2 * 4096"
    then have "(e - p + 4095) div 4096 = 1" by (intro div_nat_eqI) auto
    then show ?thesis using a by (simp add: pages_between_def)
  qed
qed

lemma pages_between_0: "e \<le> p \<Longrightarrow> pages_between p e = 0"
  by (simp add: pages_between_def)

lemma pages_between_bounds:
  assumes "p < e"
  shows "e \<le> p + 4096 * pages_between p e" and "p + 4096 * pages_between p e < e + 4096"
  using assms div_mult_mod_eq [of "e - p + 4095" 4096] mod_less_divisor [of 4096 "e - p + 4095"]
  unfolding pages_between_def by linarith+

text \<open>
  \<open>loads tr P b n mc mc'\<close>: from \<open>mc\<close> to \<open>mc'\<close> exactly the pages \<open>P\<close> get new contents, the bytes \<open>b\<close>,
  and \<open>n\<close> frames are used up.
\<close>

definition loads :: "('m \<Rightarrow> nat \<Rightarrow> nat option) \<Rightarrow> (nat \<Rightarrow> bool) \<Rightarrow> (nat \<Rightarrow> u8) \<Rightarrow> nat \<Rightarrow> 'm machine \<Rightarrow> 'm machine \<Rightarrow> bool" where
  "loads translate_page P b n mc mc' \<longleftrightarrow>
     machine_ok translate_page mc' \<and> mem_rest (mc_frames mc') = drop n (mem_rest (mc_frames mc)) \<and>
     (\<forall>a. user_byte translate_page mc' a = (if P (page_of a) then Some (b a) else user_byte translate_page mc a)) \<and>
     (\<forall>q. \<not> P q \<longrightarrow> translate_page (mc_tables mc') q = translate_page (mc_tables mc) q)"

lemma loads_none: "machine_ok translate_page mc \<Longrightarrow> (\<And>q. \<not> P q) \<Longrightarrow> loads translate_page P b 0 mc mc"
  by (simp add: loads_def)

lemma loads_trans:
  assumes "loads translate_page P b n mc mc1" and "loads translate_page P' b' n' mc1 mc2"
  shows "loads translate_page (\<lambda>q. P q \<or> P' q) (\<lambda>a. if P' (page_of a) then b' a else b a) (n + n') mc mc2"
  using assms by (auto simp: loads_def add.commute)

lemma loads_cong:
  assumes "loads translate_page P b n mc mc'" and "\<And>q. 4096 dvd q \<Longrightarrow> P q \<longleftrightarrow> P' q" and "\<And>q. P q \<Longrightarrow> P' q"
    and "\<And>a. P (page_of a) \<Longrightarrow> b a = b' a"
  shows "loads translate_page P' b' n mc mc'"
  using assms page_of_dvd unfolding loads_def by (smt (verit))

lemma load_one_page:
  assumes mapper: "sound_mapper translate_page unmap map_to" and ok: "machine_ok translate_page mc"
    and rest: "4 \<le> length (mem_rest (mc_frames mc))" and page: "4096 dvd addr" "addr < 2 ^ 47"
    and free: "translate_page (mc_tables mc) addr = None"
  obtains f mc1 where "map_user_page map_to unmap mc addr flags = Some (Some f, mc1)"
    "\<And>ram b. (\<And>i. i < 4096 \<Longrightarrow> ram (phys_to_virt (mc_frames mc1) f + i) = b (addr + i)) \<Longrightarrow>
      (\<And>a. \<not> (phys_to_virt (mc_frames mc1) f \<le> a \<and> a < phys_to_virt (mc_frames mc1) f + 4096) \<Longrightarrow> ram a = mc_ram mc1 a) \<Longrightarrow>
      loads translate_page (\<lambda>q. q = addr) b 4 mc (mc1\<lparr>mc_ram := ram\<rparr>)"
proof -
  obtain f e1 e2 e3 fs where r: "mem_rest (mc_frames mc) = f # e1 # e2 # e3 # fs"
    using rest by (auto simp: Suc_le_length_iff numeral_eq_Suc)
  obtain mc1 where mc1: "map_user_page map_to unmap mc addr flags = Some (Some f, mc1)"
    "mem_rest (mc_frames mc1) = fs" "mem_phys_offset (mc_frames mc1) = mem_phys_offset (mc_frames mc)"
    "mc_ram mc1 = mc_ram mc" "machine_ok translate_page mc1"
    "\<And>q. translate_page (mc_tables mc1) q = (if q = addr then Some f else translate_page (mc_tables mc) q)"
    using map_fresh_page [OF mapper ok r page free] by blast
  have pv: "phys_to_virt (mc_frames mc1) = phys_to_virt (mc_frames mc)" using mc1(3) by (auto simp: phys_to_virt_def)
  have "loads translate_page (\<lambda>q. q = addr) b 4 mc (mc1\<lparr>mc_ram := ram\<rparr>)"
    if b: "\<And>i. i < 4096 \<Longrightarrow> ram (phys_to_virt (mc_frames mc1) f + i) = b (addr + i)"
      and o: "\<And>a. \<not> (phys_to_virt (mc_frames mc1) f \<le> a \<and> a < phys_to_virt (mc_frames mc1) f + 4096) \<Longrightarrow> ram a = mc_ram mc1 a"
    for ram b
  proof -
    have byte: "user_byte translate_page (mc1\<lparr>mc_ram := ram\<rparr>) a = (if page_of a = addr then Some (b a) else user_byte translate_page mc a)" for a
    proof (cases "page_of a = addr")
      case True
      moreover have "addr + a mod 4096 = a" using True page_of_le [of a] by (auto simp: page_of_def)
      ultimately show ?thesis using b [of "a mod 4096"] mc1(6) by (simp add: user_byte_def page_of_def)
    next
      case False
      have "ram (phys_to_virt (mc_frames mc1) g + a mod 4096) = mc_ram mc (phys_to_virt (mc_frames mc1) g + a mod 4096)"
        if g: "translate_page (mc_tables mc) (a - a mod 4096) = Some g" for g
      proof -
        have "4096 dvd g" "4096 dvd f" "f \<noteq> g" using ok g r by (auto simp: machine_ok_def)
        then show ?thesis using o [of "phys_to_virt (mc_frames mc1) g + a mod 4096"] aligned_apart [of f g "a mod 4096"] mc1(4) by simp
      qed
      then show ?thesis
        using False mc1(6) pv by (cases "translate_page (mc_tables mc) (a - a mod 4096)") (simp_all add: user_byte_def page_of_def)
    qed
    then show ?thesis using mc1 r by (simp add: loads_def machine_ok_def)
  qed
  then show thesis using that [OF mc1(1)] by blast
qed

lemma load_pages_bytes:
  assumes mapper: "sound_mapper translate_page unmap map_to" and seg: "in_image elf_data seg"
  shows "end_addr \<le> 2 ^ 47 - 4096 \<Longrightarrow> machine_ok translate_page mc \<Longrightarrow> 4096 dvd page_addr \<Longrightarrow>
    4 * pages_between page_addr end_addr \<le> length (mem_rest (mc_frames mc)) \<Longrightarrow>
    (\<And>q. 4096 dvd q \<Longrightarrow> page_addr \<le> q \<Longrightarrow> q < end_addr \<Longrightarrow> translate_page (mc_tables mc) q = None) \<Longrightarrow>
    \<exists>mc'. load_pages map_to unmap elf_data seg end_addr page_addr max_addr mc =
        Some (Ok (if page_addr < end_addr then max max_addr (page_addr + 4096 * pages_between page_addr end_addr) else max_addr), mc') \<and>
      loads translate_page (\<lambda>q. page_addr \<le> q \<and> q < end_addr) (seg_byte elf_data seg) (4 * pages_between page_addr end_addr) mc mc'"
proof (induction "pages_between page_addr end_addr" arbitrary: page_addr max_addr mc)
  case 0
  then have "\<not> page_addr < end_addr" using pages_between_Suc [of page_addr end_addr] by auto
  then show ?case
    using 0 loads_none [of translate_page mc "\<lambda>q. page_addr \<le> q \<and> q < end_addr"] by (simp add: load_pages.simps)
next
  case (Suc n)
  have lt: "page_addr < end_addr" using Suc.hyps(2) pages_between_0 [of end_addr page_addr] by (cases "page_addr < end_addr") auto
  have n: "n = pages_between (page_addr + 4096) end_addr" using Suc.hyps(2) pages_between_Suc [OF lt] by simp
  have bound: "page_addr < 2 ^ 47" using lt Suc.prems(1) by simp
  have four: "4 \<le> length (mem_rest (mc_frames mc))" using Suc.prems(4) Suc.hyps(2) by linarith
  obtain f mc1 where m: "map_user_page map_to unmap mc page_addr (page_flags seg) = Some (Some f, mc1)"
    and l: "\<And>ram b. (\<And>i. i < 4096 \<Longrightarrow> ram (phys_to_virt (mc_frames mc1) f + i) = b (page_addr + i)) \<Longrightarrow>
      (\<And>a. \<not> (phys_to_virt (mc_frames mc1) f \<le> a \<and> a < phys_to_virt (mc_frames mc1) f + 4096) \<Longrightarrow> ram a = mc_ram mc1 a) \<Longrightarrow>
      loads translate_page (\<lambda>q. q = page_addr) b 4 mc (mc1\<lparr>mc_ram := ram\<rparr>)"
    using load_one_page [OF mapper Suc.prems(2) four Suc.prems(3) bound Suc.prems(5) [OF Suc.prems(3) order_refl lt]] by blast
  obtain ram where r: "fill_page elf_data seg page_addr (phys_to_virt (mc_frames mc1) f) (mc_ram mc1) = Some ram"
    and l1: "loads translate_page (\<lambda>q. q = page_addr) (seg_byte elf_data seg) 4 mc (mc1\<lparr>mc_ram := ram\<rparr>)"
    using fill_page_bytes [OF seg bound, of "phys_to_virt (mc_frames mc1) f" "mc_ram mc1"] l by metis
  let ?mc = "mc1\<lparr>mc_ram := ram\<rparr>"
  have free: "translate_page (mc_tables ?mc) q = None" if "4096 dvd q" "page_addr + 4096 \<le> q" "q < end_addr" for q
    using that Suc.prems(5) [of q] l1 by (auto simp: loads_def)
  have len: "4 * pages_between (page_addr + 4096) end_addr \<le> length (mem_rest (mc_frames ?mc))"
    using l1 Suc.prems(4) Suc.hyps(2) n by (simp add: loads_def)
  obtain mc' where mc': "load_pages map_to unmap elf_data seg end_addr (page_addr + 4096) (max max_addr (page_addr + 4096)) ?mc =
        Some (Ok (if page_addr + 4096 < end_addr then max (max max_addr (page_addr + 4096)) (page_addr + 4096 + 4096 * n) else max max_addr (page_addr + 4096)), mc')"
    and l2: "loads translate_page (\<lambda>q. page_addr + 4096 \<le> q \<and> q < end_addr) (seg_byte elf_data seg) (4 * n) ?mc mc'"
    using Suc.hyps(1) [OF n Suc.prems(1) _ _ len free, of "max max_addr (page_addr + 4096)"] l1 Suc.prems(3) n
    by (auto simp: loads_def)
  have z: "\<not> page_addr + 4096 < end_addr \<Longrightarrow> n = 0" using n pages_between_0 by simp
  have "loads translate_page (\<lambda>q. page_addr \<le> q \<and> q < end_addr) (seg_byte elf_data seg) (4 + 4 * n) mc mc'"
  proof (rule loads_cong [OF loads_trans [OF l1 l2]])
    fix q :: nat
    assume "4096 dvd q"
    then show "(q = page_addr \<or> page_addr + 4096 \<le> q \<and> q < end_addr) = (page_addr \<le> q \<and> q < end_addr)"
      using Suc.prems(3) lt by (auto simp: dvd_def)
  qed (use lt in auto)
  moreover have "load_pages map_to unmap elf_data seg end_addr page_addr max_addr mc =
      Some (Ok (max max_addr (page_addr + 4096 * Suc n)), mc')"
    using m r mc' lt z by (subst load_pages.simps) auto
  ultimately show ?case unfolding Suc.hyps(2) [symmetric] using lt by auto
qed


section \<open>Images\<close>

definition loadable :: "elf64_phdr \<Rightarrow> bool" where
  "loadable seg \<longleftrightarrow> p_type seg = PT_LOAD \<and> p_memsz seg \<noteq> 0"

definition seg_end :: "elf64_phdr \<Rightarrow> nat" where
  "seg_end seg = unat (p_vaddr seg) + unat (p_memsz seg)"

definition seg_page :: "elf64_phdr \<Rightarrow> nat \<Rightarrow> bool" where
  "seg_page seg q \<longleftrightarrow> page_of (unat (p_vaddr seg)) \<le> q \<and> q < seg_end seg"

definition seg_pages :: "elf64_phdr \<Rightarrow> nat" where
  "seg_pages seg = pages_between (page_of (unat (p_vaddr seg))) (seg_end seg)"

definition stack_addr :: "nat \<Rightarrow> nat" where
  "stack_addr i = unat USER_STACK_TOP - (i + 1) * 4096"

definition stack_page :: "nat \<Rightarrow> bool" where
  "stack_page q \<longleftrightarrow> (\<exists>i < STACK_PAGES. q = stack_addr i)"

text \<open>An image in order: every segment lies inside the file and the lower half, and no two
  segments, nor a segment and the stack, share a page.\<close>

definition image_ok :: "u8 list \<Rightarrow> elf64_info \<Rightarrow> bool" where
  "image_ok elf_data elf \<longleftrightarrow>
     (\<forall>seg \<in> set (filter loadable (elf_segments elf)). in_image elf_data seg \<and> (\<forall>q. seg_page seg q \<longrightarrow> \<not> stack_page q)) \<and>
     sorted_wrt (\<lambda>s t. \<forall>q. \<not> (seg_page s q \<and> seg_page t q)) (filter loadable (elf_segments elf))"

lemma unat_page_aligned: "unat (page_aligned a) = page_of (unat a)"
proof -
  have m: "(0xFFF :: u64) = mask 12" by (simp add: mask_eq_exp_minus_1)
  have pa: "page_aligned a = push_bit 12 (drop_bit 12 a)"
    unfolding page_aligned_def m by (rule bit_word_eqI) (auto simp: bit_simps)
  have lt: "unat a < 2 ^ 64" using unsigned_less [of a, where ?'a = nat] by simp
  have "unat a div 4096 * 4096 < 2 ^ 64" by (rule le_less_trans [OF div_times_less_eq_dividend lt])
  then have "unat (page_aligned a) = unat a div 4096 * 4096"
    unfolding pa unsigned_push_bit_eq unsigned_drop_bit_eq using lt
    by (simp add: push_bit_eq_mult drop_bit_eq_div take_bit_nat_eq_self)
  then show ?thesis by (simp add: page_of_def minus_mod_eq_div_mult)
qed

lemma load_segments_filter:
  "load_segments map_to unmap elf_data segs mx mc = load_segments map_to unmap elf_data (filter loadable segs) mx mc"
  by (induction segs arbitrary: mx mc) (auto simp: loadable_def Let_def split: option.splits sum.splits)

lemma load_segments_bytes:
  assumes mapper: "sound_mapper translate_page unmap map_to"
  shows "\<lbrakk>\<forall>seg \<in> set segs. loadable seg \<and> in_image elf_data seg; sorted_wrt (\<lambda>s t. \<forall>q. \<not> (seg_page s q \<and> seg_page t q)) segs;
    machine_ok translate_page mc; 4 * sum_list (map seg_pages segs) \<le> length (mem_rest (mc_frames mc));
    \<forall>seg q. seg \<in> set segs \<and> seg_page seg q \<longrightarrow> translate_page (mc_tables mc) q = None\<rbrakk> \<Longrightarrow>
    \<exists>top mc' b. load_segments map_to unmap elf_data segs mx mc = Some (Ok top, mc') \<and>
      loads translate_page (\<lambda>q. \<exists>seg \<in> set segs. seg_page seg q) b (4 * sum_list (map seg_pages segs)) mc mc' \<and>
      (\<forall>seg a. seg \<in> set segs \<and> seg_page seg (page_of a) \<longrightarrow> b a = seg_byte elf_data seg a) \<and>
      mx \<le> top \<and> (\<forall>seg \<in> set segs. seg_end seg \<le> top) \<and> top \<le> max mx (2 ^ 47)"
proof (induction segs arbitrary: mx mc)
  case Nil
  then show ?case using loads_none [of translate_page mc "\<lambda>q. False"] by auto
next
  case (Cons seg segs)
  let ?p = "page_of (unat (p_vaddr seg))" and ?e = "seg_end seg"
  have seg: "in_image elf_data seg" "loadable seg" using Cons.prems(1) by auto
  have e: "?e \<le> 2 ^ 47 - 4096" using seg by (simp add: in_image_def seg_end_def)
  have "0 < unat (p_memsz seg)" using seg(2) by (simp add: loadable_def unat_gt_0)
  then have lt: "?p < ?e" using page_of_le [of "unat (p_vaddr seg)"] by (simp add: seg_end_def)
  have n: "4 * pages_between ?p ?e \<le> length (mem_rest (mc_frames mc))" using Cons.prems(4) by (simp add: seg_pages_def)
  have free: "translate_page (mc_tables mc) q = None" if "?p \<le> q" "q < ?e" for q
    using Cons.prems(5) that by (auto simp: seg_page_def)
  let ?mx = "max mx (?p + 4096 * pages_between ?p ?e)"
  obtain mc1 where l: "load_pages map_to unmap elf_data seg ?e ?p mx mc = Some (Ok ?mx, mc1)"
    and l1: "loads translate_page (seg_page seg) (seg_byte elf_data seg) (4 * seg_pages seg) mc mc1"
    using load_pages_bytes [OF mapper seg(1) e Cons.prems(3) page_of_dvd n free, of mx] lt
    by (auto simp: seg_page_def [abs_def] seg_pages_def)
  have apart: "\<not> seg_page t q" if "t \<in> set segs" "seg_page seg q" for t q using Cons.prems(2) that by auto
  have ok1: "machine_ok translate_page mc1" "4 * sum_list (map seg_pages segs) \<le> length (mem_rest (mc_frames mc1))"
    using l1 Cons.prems(4) by (auto simp: loads_def)
  have free1: "\<forall>t q. t \<in> set segs \<and> seg_page t q \<longrightarrow> translate_page (mc_tables mc1) q = None"
    using l1 Cons.prems(5) apart unfolding loads_def by (metis list.set_intros(2))
  obtain top mc' b where IH: "load_segments map_to unmap elf_data segs ?mx mc1 = Some (Ok top, mc')"
    "loads translate_page (\<lambda>q. \<exists>t \<in> set segs. seg_page t q) b (4 * sum_list (map seg_pages segs)) mc1 mc'"
    "\<forall>t a. t \<in> set segs \<and> seg_page t (page_of a) \<longrightarrow> b a = seg_byte elf_data t a"
    "?mx \<le> top" "\<forall>t \<in> set segs. seg_end t \<le> top" "top \<le> max ?mx (2 ^ 47)"
    using Cons.IH [OF _ _ ok1 free1, of ?mx] Cons.prems(1,2) by auto
  let ?b = "\<lambda>a. if \<exists>t \<in> set segs. seg_page t (page_of a) then b a else seg_byte elf_data seg a"
  have "loads translate_page (\<lambda>q. \<exists>t \<in> set (seg # segs). seg_page t q) ?b (4 * sum_list (map seg_pages (seg # segs))) mc mc'"
    using loads_trans [OF l1 IH(2)] by (simp add: algebra_simps)
  moreover have "load_segments map_to unmap elf_data (seg # segs) mx mc = Some (Ok top, mc')"
    using l IH(1) seg e by (simp add: loadable_def unat_page_aligned seg_end_def)
  moreover have "\<forall>t a. t \<in> set (seg # segs) \<and> seg_page t (page_of a) \<longrightarrow> ?b a = seg_byte elf_data t a"
    using IH(3) apart by auto
  moreover have "seg_end seg \<le> ?mx" "?mx \<le> max mx (2 ^ 47)" using pages_between_bounds [OF lt] e by auto
  ultimately show ?case using IH(4-6) by (intro exI [of _ top] exI [of _ mc'] exI [of _ ?b]) auto
qed

lemma stack_addr_facts: "4096 dvd stack_addr i \<and> stack_addr i < 2 ^ 47"
proof -
  have "stack_addr i = 4096 * (0x7FFFF - (i + 1))"
    unfolding stack_addr_def diff_mult_distrib2 by (simp add: USER_STACK_TOP_def mult.commute)
  then show ?thesis by simp
qed

lemma stack_addr_inj: "i < STACK_PAGES \<Longrightarrow> j < STACK_PAGES \<Longrightarrow> stack_addr i = stack_addr j \<Longrightarrow> i = j"
  by (simp add: STACK_PAGES_def stack_addr_def USER_STACK_TOP_def)

lemma map_stack_loads:
  assumes mapper: "sound_mapper translate_page unmap map_to"
  shows "\<lbrakk>distinct is; \<forall>i \<in> set is. i < STACK_PAGES; machine_ok translate_page mc;
    4 * length is \<le> length (mem_rest (mc_frames mc)); \<forall>i \<in> set is. translate_page (mc_tables mc) (stack_addr i) = None\<rbrakk> \<Longrightarrow>
    \<exists>mc' b. map_stack map_to unmap is mc = Some (Ok (), mc') \<and>
      loads translate_page (\<lambda>q. \<exists>i \<in> set is. q = stack_addr i) b (4 * length is) mc mc'"
proof (induction "is" arbitrary: mc)
  case Nil
  then show ?case using loads_none [of translate_page mc "\<lambda>q. False"] by auto
next
  case (Cons i "is")
  note i = stack_addr_facts [of i]
  have four: "4 \<le> length (mem_rest (mc_frames mc))" using Cons.prems(4) by simp
  obtain f mc1 where m: "map_user_page map_to unmap mc (stack_addr i) USER_RW = Some (Some f, mc1)"
    and l: "\<And>ram b. (\<And>j. j < 4096 \<Longrightarrow> ram (phys_to_virt (mc_frames mc1) f + j) = b (stack_addr i + j)) \<Longrightarrow>
      (\<And>a. \<not> (phys_to_virt (mc_frames mc1) f \<le> a \<and> a < phys_to_virt (mc_frames mc1) f + 4096) \<Longrightarrow> ram a = mc_ram mc1 a) \<Longrightarrow>
      loads translate_page (\<lambda>q. q = stack_addr i) b 4 mc (mc1\<lparr>mc_ram := ram\<rparr>)"
    using load_one_page [OF mapper Cons.prems(3) four, of "stack_addr i"] i Cons.prems(2,5) by (metis list.set_intros(1))
  define b1 where "b1 a = mc_ram mc1 (phys_to_virt (mc_frames mc1) f + (a - stack_addr i))" for a
  have l1: "loads translate_page (\<lambda>q. q = stack_addr i) b1 4 mc mc1"
    using l [of "mc_ram mc1" b1] by (simp add: b1_def)
  then have ok1: "machine_ok translate_page mc1" "4 * length is \<le> length (mem_rest (mc_frames mc1))"
    using Cons.prems(4) by (auto simp: loads_def)
  have ne: "stack_addr j \<noteq> stack_addr i" if "j \<in> set is" for j
    using stack_addr_inj [of j i] Cons.prems(1,2) that by auto
  have "\<forall>j \<in> set is. translate_page (mc_tables mc1) (stack_addr j) = None"
    using l1 ne Cons.prems(5) by (simp add: loads_def)
  then obtain mc' b where IH: "map_stack map_to unmap is mc1 = Some (Ok (), mc')"
    "loads translate_page (\<lambda>q. \<exists>i \<in> set is. q = stack_addr i) b (4 * length is) mc1 mc'"
    using Cons.IH [of mc1] Cons.prems ok1 by auto
  show ?case using m IH(1) loads_trans [OF l1 IH(2)] by (auto simp: stack_addr_def)
qed

text \<open>The whole image: every byte of every segment where the headers say, the stack mapped, and
  nothing else changed.\<close>

lemma load_image_bytes:
  assumes mapper: "sound_mapper translate_page unmap map_to" and ok: "machine_ok translate_page mc"
    and im: "image_ok elf_data elf" and segs: "segs = filter loadable (elf_segments elf)"
    and room: "4 * (sum_list (map seg_pages segs) + STACK_PAGES) \<le> length (mem_rest (mc_frames mc))"
    and free: "\<And>q. stack_page q \<or> (\<exists>seg \<in> set segs. seg_page seg q) \<Longrightarrow> translate_page (mc_tables mc) q = None"
  obtains top mc' where "load_image map_to unmap elf_data elf mc = Some (Ok top, mc')"
    "machine_ok translate_page mc'"
    "\<And>seg a. seg \<in> set segs \<Longrightarrow> unat (p_vaddr seg) \<le> a \<Longrightarrow> a < seg_end seg \<Longrightarrow>
       user_byte translate_page mc' a = Some (seg_byte elf_data seg a)"
    "\<And>a. stack_page (page_of a) \<Longrightarrow> user_byte translate_page mc' a \<noteq> None"
    "\<And>a. \<not> stack_page (page_of a) \<Longrightarrow> (\<And>seg. seg \<in> set segs \<Longrightarrow> \<not> seg_page seg (page_of a)) \<Longrightarrow>
       user_byte translate_page mc' a = user_byte translate_page mc a"
    "unat HEAP_BASE \<le> top" "\<And>seg. seg \<in> set segs \<Longrightarrow> seg_end seg \<le> top" "top \<le> 2 ^ 47"
    "mem_rest (mc_frames mc') = drop (4 * (sum_list (map seg_pages segs) + STACK_PAGES)) (mem_rest (mc_frames mc))"
proof -
  have segs_ok: "\<forall>seg \<in> set segs. loadable seg \<and> in_image elf_data seg"
    "sorted_wrt (\<lambda>s t. \<forall>q. \<not> (seg_page s q \<and> seg_page t q)) segs"
    "\<forall>seg q. seg \<in> set segs \<and> seg_page seg q \<longrightarrow> translate_page (mc_tables mc) q = None"
    using im free by (auto simp: image_ok_def segs)
  obtain top mc1 b where l: "load_segments map_to unmap elf_data (elf_segments elf) (unat HEAP_BASE) mc = Some (Ok top, mc1)"
    and l1: "loads translate_page (\<lambda>q. \<exists>seg \<in> set segs. seg_page seg q) b (4 * sum_list (map seg_pages segs)) mc mc1"
    and b: "\<forall>seg a. seg \<in> set segs \<and> seg_page seg (page_of a) \<longrightarrow> b a = seg_byte elf_data seg a"
    and top: "unat HEAP_BASE \<le> top" "\<forall>seg \<in> set segs. seg_end seg \<le> top" "top \<le> max (unat HEAP_BASE) (2 ^ 47)"
    using load_segments_bytes [OF mapper segs_ok(1,2) ok _ segs_ok(3), of "unat HEAP_BASE"] room
    unfolding load_segments_filter [of map_to unmap elf_data "elf_segments elf"] segs [symmetric] by auto
  have ok1: "machine_ok translate_page mc1" "4 * STACK_PAGES \<le> length (mem_rest (mc_frames mc1))"
    using l1 room by (auto simp: loads_def)
  have apart: "\<not> seg_page seg q" if "seg \<in> set segs" "stack_page q" for seg q
    using im that by (auto simp: image_ok_def segs)
  have "\<forall>i \<in> set [0..<STACK_PAGES]. translate_page (mc_tables mc1) (stack_addr i) = None"
  proof
    fix i assume "i \<in> set [0..<STACK_PAGES]"
    then have "stack_page (stack_addr i)" by (auto simp: stack_page_def)
    then show "translate_page (mc_tables mc1) (stack_addr i) = None"
      using l1 apart free unfolding loads_def by metis
  qed
  then obtain mc' b2 where st: "map_stack map_to unmap [0..<STACK_PAGES] mc1 = Some (Ok (), mc')"
    and l2: "loads translate_page (\<lambda>q. \<exists>i \<in> set [0..<STACK_PAGES]. q = stack_addr i) b2 (4 * STACK_PAGES) mc1 mc'"
    using map_stack_loads [OF mapper, of "[0..<STACK_PAGES]" mc1] ok1 by auto
  have sp: "(\<exists>i \<in> set [0..<STACK_PAGES]. q = stack_addr i) \<longleftrightarrow> stack_page q" for q by (auto simp: stack_page_def)
  note ls = loads_trans [OF l1 l2, unfolded sp loads_def]
  have page: "seg_page seg (page_of a)" if "unat (p_vaddr seg) \<le> a" "a < seg_end seg" for seg a
    using that page_of_le [of a] unfolding seg_page_def page_of_def
    by (metis div_le_mono le_less_trans minus_mod_eq_mult_div mult_le_mono2)
  show thesis
  proof (rule that [of top mc'])
    show "load_image map_to unmap elf_data elf mc = Some (Ok top, mc')"
      using l st by (simp add: load_image_def)
    show "user_byte translate_page mc' a = Some (seg_byte elf_data seg a)"
      if "seg \<in> set segs" "unat (p_vaddr seg) \<le> a" "a < seg_end seg" for seg a
      using ls b page [OF that(2,3)] apart [OF that(1)] that(1) by auto
    show "user_byte translate_page mc' a \<noteq> None" if "stack_page (page_of a)" for a using ls that by simp
    show "user_byte translate_page mc' a = user_byte translate_page mc a"
      if "\<not> stack_page (page_of a)" "\<And>seg. seg \<in> set segs \<Longrightarrow> \<not> seg_page seg (page_of a)" for a using ls that by auto
    show "mem_rest (mc_frames mc') = drop (4 * (sum_list (map seg_pages segs) + STACK_PAGES)) (mem_rest (mc_frames mc))"
      using ls by (simp add: algebra_simps)
  qed (use ls top in \<open>auto simp: HEAP_BASE_def\<close>)
qed

end
