(* ===== verification/Userspace.thy ===== *)
theory Userspace
  imports Elf_Load Fd Task
begin

text \<open>
  User processes (\<^verbatim>\<open>src/userspace.rs\<close>): the process table, the per-process descriptor tables, the
  program loader, \<^verbatim>\<open>brk\<close>, \<^verbatim>\<open>fork\<close>, \<^verbatim>\<open>clone\<close>, \<^verbatim>\<open>exit\<close> and \<^verbatim>\<open>wait\<close>. The programs that \<^verbatim>\<open>src/ulibc.rs\<close> generates
  and the two pages of its C library are parameters. The assembly that enters user mode is not
  modelled; \<open>enter_userspace\<close> gives the registers it loads.
\<close>

section \<open>Data\<close>

definition UP_MAX_PROCESSES :: usize where "UP_MAX_PROCESSES = 16"
definition MAX_PROC_FDS :: usize where "MAX_PROC_FDS = 32"
definition LIBC_BASE :: u64 where "LIBC_BASE = 0x500000"
definition LIBC_DATA :: u64 where "LIBC_DATA = 0x600000"

datatype proc_fd_kind = ProcVfsFile | ProcSerial | ProcNull

record proc_fd_entry =
  fe_path :: str
  fe_offset :: usize
  fe_flags :: u32
  fe_kind :: proc_fd_kind

datatype user_process_state = UpReady | UpRunning | UpWaiting | UpZombie | UpExited

record user_process =
  up_pid :: u32
  up_parent :: u32
  up_name :: str
  up_state :: user_process_state
  up_page_table :: u64
  up_entry :: u64
  up_stack_top :: u64
  up_brk :: u64
  up_exit_code :: "u32 option"
  up_fds :: "proc_fd_entry option list"

definition user_process_new :: "u32 \<Rightarrow> str \<Rightarrow> user_process" where
  "user_process_new pid name =
     \<lparr>up_pid = pid, up_parent = 0, up_name = name, up_state = UpReady, up_page_table = 0, up_entry = TEXT_BASE,
      up_stack_top = USER_STACK_TOP, up_brk = HEAP_BASE, up_exit_code = None,
      up_fds = (replicate MAX_PROC_FDS None)
        [0 := Some \<lparr>fe_path = ''/dev/stdin'', fe_offset = 0, fe_flags = 0, fe_kind = ProcSerial\<rparr>,
         1 := Some \<lparr>fe_path = ''/dev/stdout'', fe_offset = 0, fe_flags = 1, fe_kind = ProcSerial\<rparr>,
         2 := Some \<lparr>fe_path = ''/dev/stderr'', fe_offset = 0, fe_flags = 1, fe_kind = ProcSerial\<rparr>]\<rparr>"

record userspace =
  ut_slots :: "user_process option list"
  ut_next_pid :: u32
  ut_current :: u32
  ut_pending :: u32
  ut_libc_loaded :: bool
  ut_user_exited :: bool
  ut_kernel_cr3 :: u64

definition userspace_boot :: userspace where
  "userspace_boot = \<lparr>ut_slots = replicate UP_MAX_PROCESSES None, ut_next_pid = 1, ut_current = 0, ut_pending = 0,
     ut_libc_loaded = False, ut_user_exited = False, ut_kernel_cr3 = 0\<rparr>"

definition find_slot :: "userspace \<Rightarrow> usize option" where
  "find_slot us = position (\<lambda>s. s = None) (ut_slots us)"

definition slot_has_pid :: "u32 \<Rightarrow> user_process option \<Rightarrow> bool" where
  "slot_has_pid pid s = (case s of None \<Rightarrow> False | Some p \<Rightarrow> up_pid p = pid)"

definition find_by_pid :: "userspace \<Rightarrow> u32 \<Rightarrow> usize option" where
  "find_by_pid us pid = position (slot_has_pid pid) (ut_slots us)"

text \<open>The process in a slot that \<open>find_by_pid\<close> gave, and its update in place.\<close>

definition proc_at :: "userspace \<Rightarrow> usize \<Rightarrow> user_process" where
  "proc_at us slot = the (ut_slots us ! slot)"

definition set_proc :: "usize \<Rightarrow> user_process \<Rightarrow> userspace \<Rightarrow> userspace" where
  "set_proc slot p us = us\<lparr>ut_slots := (ut_slots us)[slot := Some p]\<rparr>"

section \<open>Built-in programs\<close>

definition HELLO_CODE :: "u8 list" where
  "HELLO_CODE =
     [0x48, 0xC7, 0xC0, 0, 0, 0, 0, 0x48, 0x8D, 0x3D, 0x17, 0, 0, 0, 0x48, 0xC7, 0xC6, 0x1F, 0, 0, 0, 0xCD,
      0x80, 0x48, 0xC7, 0xC0, 1, 0, 0, 0, 0x48, 0x31, 0xFF, 0xCD, 0x80, 0xEB, 0xFE, 0x48, 0x65, 0x6C, 0x6C,
      0x6F, 0x20, 0x66, 0x72, 0x6F, 0x6D, 0x20, 0x4D, 0x65, 0x72, 0x6C, 0x69, 0x6F, 0x6E, 0x4F, 0x53, 0x20,
      0x75, 0x73, 0x65, 0x72, 0x73, 0x70, 0x61, 0x63, 0x65, 0x21, 0x0A]"

definition CAT_TEST_CODE :: "u8 list" where
  "CAT_TEST_CODE =
     [0x48, 0xC7, 0xC0, 0, 0, 0, 0, 0x48, 0x8D, 0x3D, 0x17, 0, 0, 0, 0x48, 0xC7, 0xC6, 0x15, 0, 0, 0, 0xCD,
      0x80, 0x48, 0xC7, 0xC0, 1, 0, 0, 0, 0x48, 0x31, 0xFF, 0xCD, 0x80, 0xEB, 0xFE, 0x46, 0x69, 0x6C, 0x65,
      0x20, 0x73, 0x79, 0x73, 0x63, 0x61, 0x6C, 0x6C, 0x73, 0x20, 0x72, 0x65, 0x61, 0x64, 0x79, 0x21, 0x0A]"

definition QFC_TEST_CODE :: "u8 list" where
  "QFC_TEST_CODE =
     [0x48, 0xC7, 0xC0, 0, 0, 0, 0, 0x48, 0x8D, 0x3D, 0x17, 0, 0, 0, 0x48, 0xC7, 0xC6, 0x2A, 0, 0, 0, 0xCD,
      0x80, 0x48, 0xC7, 0xC0, 1, 0, 0, 0, 0x48, 0x31, 0xFF, 0xCD, 0x80, 0xEB, 0xFE, 0x51, 0x46, 0x43, 0x20,
      0x6D, 0x69, 0x6E, 0x65, 0x72, 0x20, 0x72, 0x75, 0x6E, 0x6E, 0x69, 0x6E, 0x67, 0x20, 0x69, 0x6E, 0x20,
      0x4D, 0x65, 0x72, 0x6C, 0x69, 0x6F, 0x6E, 0x4F, 0x53, 0x20, 0x75, 0x73, 0x65, 0x72, 0x73, 0x70, 0x61,
      0x63, 0x65, 0x21, 0x0A]"

definition COUNTER_CODE :: "u8 list" where
  "COUNTER_CODE =
     [0x49, 0xC7, 0xC4, 3, 0, 0, 0, 0x48, 0xC7, 0xC0, 0, 0, 0, 0, 0x48, 0x8D, 0x3D, 0x18, 0, 0, 0, 0x48, 0xC7,
      0xC6, 5, 0, 0, 0, 0xCD, 0x80, 0x48, 0xC7, 0xC0, 2, 0, 0, 0, 0xCD, 0x80, 0x49, 0xFF, 0xCC, 0x75, 0xD5,
      0x48, 0xC7, 0xC0, 1, 0, 0, 0, 0x48, 0x31, 0xFF, 0xCD, 0x80, 0xEB, 0xFE, 0x74, 0x69, 0x63, 0x6B, 0x0A]"

definition GETPID_CODE :: "u8 list" where
  "GETPID_CODE =
     [0x48, 0xC7, 0xC0, 3, 0, 0, 0, 0xCD, 0x80, 0x48, 0xC7, 0xC0, 0, 0, 0, 0, 0x48, 0x8D, 0x3D, 0x12, 0, 0, 0,
      0x48, 0xC7, 0xC6, 0x0C, 0, 0, 0, 0xCD, 0x80, 0x48, 0xC7, 0xC0, 1, 0, 0, 0, 0x48, 0x31, 0xFF, 0xCD, 0x80,
      0xEB, 0xFE, 0x67, 0x65, 0x74, 0x70, 0x69, 0x64, 0x20, 0x6F, 0x6B, 0x21, 0x0A, 0]"

definition SYSCALL_TEST_CODE :: "u8 list" where
  "SYSCALL_TEST_CODE =
     [0x48, 0xC7, 0xC0, 3, 0, 0, 0, 0xCD, 0x80, 4, 0x30, 0x48, 0x8D, 0x0D, 0x42, 0, 0, 0, 0x88, 1, 0x48, 0xC7,
      0xC0, 0, 0, 0, 0, 0x48, 0x8D, 0x3D, 0x2E, 0, 0, 0, 0x48, 0xC7, 0xC6, 4, 0, 0, 0, 0xCD, 0x80, 0x48, 0xC7,
      0xC0, 0, 0, 0, 0, 0x48, 0x8D, 0x3D, 0x1B, 0, 0, 0, 0x48, 0xC7, 0xC6, 2, 0, 0, 0, 0xCD, 0x80, 0x48, 0xC7,
      0xC0, 1, 0, 0, 0, 0x48, 0x31, 0xFF, 0xCD, 0x80, 0xEB, 0xFE, 0x70, 0x69, 0x64, 0x3D, 0x30, 0x0A]"

definition OPEN_TEST_CODE :: "u8 list" where
  "OPEN_TEST_CODE =
     [0x48, 0xC7, 0xC0, 0x64, 0, 0, 0, 0x48, 0x8D, 0x3D, 0x5D, 0, 0, 0, 0x48, 0xC7, 0xC6, 4, 0, 0, 0, 0x48,
      0x31, 0xD2, 0xCD, 0x80, 0x50, 0x48, 0xC7, 0xC0, 0, 0, 0, 0, 0x48, 0x8D, 0x3D, 0x3A, 0, 0, 0, 0x48, 0xC7,
      0xC6, 8, 0, 0, 0, 0xCD, 0x80, 0x58, 4, 0x30, 0x48, 0x8D, 0x0D, 0x33, 0, 0, 0, 0x88, 1, 0x48, 0xC7, 0xC0,
      0, 0, 0, 0, 0x48, 0x8D, 0x3D, 0x23, 0, 0, 0, 0x48, 0xC7, 0xC6, 2, 0, 0, 0, 0xCD, 0x80, 0x48, 0xC7, 0xC0,
      1, 0, 0, 0, 0x48, 0x31, 0xFF, 0xCD, 0x80, 0xEB, 0xFE, 0x66, 0x64, 0x3D, 0x6F, 0x70, 0x65, 0x6E, 0x3A,
      0x2F, 0x74, 0x6D, 0x70, 0x30, 0x0A]"

definition EXEC_TEST_CODE :: "u8 list" where
  "EXEC_TEST_CODE =
     [0x48, 0xC7, 0xC0, 0, 0, 0, 0, 0x48, 0x8D, 0x3D, 0x45, 0, 0, 0, 0x48, 0xC7, 0xC6, 0x1E, 0, 0, 0, 0xCD,
      0x80, 0x48, 0xC7, 0xC0, 0x6F, 0, 0, 0, 0x48, 0x8D, 0x3D, 0x4D, 0, 0, 0, 0x48, 0xC7, 0xC6, 5, 0, 0, 0,
      0xCD, 0x80, 0x48, 0xC7, 0xC0, 0, 0, 0, 0, 0x48, 0x8D, 0x3D, 0x3B, 0, 0, 0, 0x48, 0xC7, 0xC6, 0x0D, 0, 0,
      0, 0xCD, 0x80, 0x48, 0xC7, 0xC0, 1, 0, 0, 0, 0x48, 0x31, 0xFF, 0xCD, 0x80, 0xEB, 0xFE, 0x65, 0x78, 0x65,
      0x63, 0x2D, 0x74, 0x65, 0x73, 0x74, 0x3A, 0x20, 0x72, 0x75, 0x6E, 0x6E, 0x69, 0x6E, 0x67, 0x20, 0x65,
      0x78, 0x65, 0x63, 0x20, 0x68, 0x65, 0x6C, 0x6C, 0x6F, 0x0A, 0, 0x68, 0x65, 0x6C, 0x6C, 0x6F, 0x65, 0x78,
      0x65, 0x63, 0x20, 0x66, 0x61, 0x69, 0x6C, 0x65, 0x64, 0x21, 0x0A]"

text \<open>What \<^verbatim>\<open>load_program_from_vfs\<close> does with the contents of a file: an ELF image is taken as it is,
  anything else that is not empty is wrapped as code.\<close>

definition program_of_bytes :: "u8 list \<Rightarrow> u8 list option" where
  "program_of_bytes bytes =
     (if length bytes \<ge> 4 \<and> take 4 bytes = ELF_MAGIC then Some bytes
      else if bytes \<noteq> [] then Some (build_elf64 bytes) else None)"

fun load_program_from :: "proc_env \<Rightarrow> vfs_state \<Rightarrow> str list \<Rightarrow> u8 list option \<times> vfs_state" where
  "load_program_from env st [] = (None, st)"
| "load_program_from env st (path # paths) =
     (case cat env st path of
        (Inr content, st1) \<Rightarrow>
          (case program_of_bytes (as_bytes content) of
             Some prog \<Rightarrow> (Some prog, st1)
           | None \<Rightarrow> load_program_from env st1 paths)
      | (Inl _, st1) \<Rightarrow> load_program_from env st1 paths)"

definition load_program_from_vfs :: "proc_env \<Rightarrow> vfs_state \<Rightarrow> str \<Rightarrow> u8 list option \<times> vfs_state" where
  "load_program_from_vfs env st name = load_program_from env st [''/bin/'' @ name, ''/'' @ name]"

definition builtin_code :: "str \<Rightarrow> u8 list option" where
  "builtin_code name =
     map_of [(''hello'', HELLO_CODE), (''cat-test'', CAT_TEST_CODE), (''qfc-test'', QFC_TEST_CODE),
       (''counter'', COUNTER_CODE), (''getpid'', GETPID_CODE), (''syscall-test'', SYSCALL_TEST_CODE),
       (''open-test'', OPEN_TEST_CODE), (''exec-test'', EXEC_TEST_CODE)] name"

definition libc_programs :: "str list" where
  "libc_programs =
     [''malloc-test'', ''printf-test'', ''string-test'', ''libc-demo'', ''dynlink-test'',
      ''cat'', ''echo'', ''wc'', ''ls'', ''init'',
      ''ush'', ''fwrite-test'', ''paint'', ''wget-user'', ''pkg-install'',
      ''test-suite'', ''beep'', ''desktop'', ''game'',
      ''gpu-info'', ''gpu-matmul'', ''nn-infer'', ''llm-chat'']"

definition get_builtin_program :: "(str \<Rightarrow> u8 list) \<Rightarrow> proc_env \<Rightarrow> vfs_state \<Rightarrow> str \<Rightarrow> u8 list option \<times> vfs_state" where
  "get_builtin_program gen env st name =
     (case builtin_code name of
        Some c \<Rightarrow> (Some (build_elf64 c), st)
      | None \<Rightarrow>
          if name \<in> set libc_programs then (Some (build_elf64 (gen name)), st)
          else load_program_from_vfs env st name)"

definition list_builtin_programs :: "str list" where
  "list_builtin_programs =
     [''hello'', ''cat-test'', ''qfc-test'', ''counter'', ''getpid'', ''syscall-test'', ''open-test'', ''exec-test'']
     @ libc_programs"

section \<open>Creating a process\<close>

text \<open>One library page: mapped, zeroed, and filled with at most a page of bytes.\<close>

definition load_libc_page ::
  "('m \<Rightarrow> nat \<Rightarrow> nat \<Rightarrow> u64 \<Rightarrow> prealloc \<Rightarrow> map_result \<times> 'm \<times> prealloc) \<Rightarrow> ('m \<Rightarrow> nat \<Rightarrow> nat option \<times> 'm)
    \<Rightarrow> 'm machine \<Rightarrow> u64 \<Rightarrow> u64 \<Rightarrow> u8 list \<Rightarrow> str \<Rightarrow> unit result \<times> 'm machine" where
  "load_libc_page map_to unmap mc addr flags bytes err =
     (case map_page_global map_to unmap (mc_frames mc) (mc_tables mc) (unat addr) flags of
        (None, m, pt) \<Rightarrow> (Err err, mc\<lparr>mc_frames := m, mc_tables := pt\<rparr>)
      | (Some frame, m, pt) \<Rightarrow>
          let dest = phys_to_virt m frame
          in (Ok (), mc\<lparr>mc_frames := m, mc_tables := pt,
               mc_ram := copy_to (copy_to (mc_ram mc) dest (replicate 4096 0)) dest (take 4096 bytes)\<rparr>))"

definition load_libc_pages ::
  "('m \<Rightarrow> nat \<Rightarrow> nat \<Rightarrow> u64 \<Rightarrow> prealloc \<Rightarrow> map_result \<times> 'm \<times> prealloc) \<Rightarrow> ('m \<Rightarrow> nat \<Rightarrow> nat option \<times> 'm)
    \<Rightarrow> u8 list \<times> u8 list \<Rightarrow> 'm machine \<Rightarrow> unit result \<times> 'm machine" where
  "load_libc_pages map_to unmap libc mc =
     (case load_libc_page map_to unmap mc LIBC_BASE USER_RX (fst libc) ''failed to map libc code page'' of
        (Inl e, mc1) \<Rightarrow> (Err e, mc1)
      | (Inr _, mc1) \<Rightarrow> load_libc_page map_to unmap mc1 LIBC_DATA USER_RW (snd libc) ''failed to map libc data page'')"

definition ensure_libc_loaded ::
  "('m \<Rightarrow> nat \<Rightarrow> nat \<Rightarrow> u64 \<Rightarrow> prealloc \<Rightarrow> map_result \<times> 'm \<times> prealloc) \<Rightarrow> ('m \<Rightarrow> nat \<Rightarrow> nat option \<times> 'm)
    \<Rightarrow> u8 list \<times> u8 list \<Rightarrow> userspace \<Rightarrow> 'm machine \<Rightarrow> unit result \<times> userspace \<times> 'm machine" where
  "ensure_libc_loaded map_to unmap libc us mc =
     (if ut_libc_loaded us then (Ok (), us, mc)
      else
        (case load_libc_pages map_to unmap libc mc of
           (Inl e, mc1) \<Rightarrow> (Err e, us, mc1)
         | (Inr _, mc1) \<Rightarrow> (Ok (), us\<lparr>ut_libc_loaded := True\<rparr>, mc1)))"

definition up_create_process ::
  "('m \<Rightarrow> nat \<Rightarrow> nat \<Rightarrow> u64 \<Rightarrow> prealloc \<Rightarrow> map_result \<times> 'm \<times> prealloc) \<Rightarrow> ('m \<Rightarrow> nat \<Rightarrow> nat option \<times> 'm)
    \<Rightarrow> u8 list \<times> u8 list \<Rightarrow> userspace \<Rightarrow> 'm machine \<Rightarrow> str \<Rightarrow> u8 list \<Rightarrow> (u32 result \<times> userspace \<times> 'm machine) option" where
  "up_create_process map_to unmap libc us mc name elf_data =
     (case parse_elf64 elf_data of
        None \<Rightarrow> None
      | Some (Inl e) \<Rightarrow> Some (Err e, us, mc)
      | Some (Inr elf) \<Rightarrow>
          let pid = ut_next_pid us; us = us\<lparr>ut_next_pid := pid + 1\<rparr> in
          (case load_image map_to unmap elf_data elf mc of
             None \<Rightarrow> None
           | Some (Inl e, mc) \<Rightarrow> Some (Err e, us, mc)
           | Some (Inr max_addr, mc) \<Rightarrow>
               let proc = (user_process_new pid name)\<lparr>up_page_table := 0, up_entry := elf_entry elf,
                 up_stack_top := USER_STACK_TOP, up_brk := of_nat max_addr\<rparr> in
               (case find_slot us of
                  None \<Rightarrow> Some (Err ''process table full'', us, mc)
                | Some slot \<Rightarrow>
                    let us = set_proc slot proc us in
                    if name \<in> set libc_programs then
                      (case ensure_libc_loaded map_to unmap libc us mc of
                         (Inl e, us, mc) \<Rightarrow> Some (Err e, us, mc)
                       | (Inr _, us, mc) \<Rightarrow> Some (Ok pid, us, mc))
                    else Some (Ok pid, us, mc))))"

section \<open>The heap\<close>

function brk_pages ::
  "('m \<Rightarrow> nat \<Rightarrow> nat \<Rightarrow> u64 \<Rightarrow> prealloc \<Rightarrow> map_result \<times> 'm \<times> prealloc) \<Rightarrow> ('m \<Rightarrow> nat \<Rightarrow> nat option \<times> 'm)
    \<Rightarrow> nat \<Rightarrow> nat \<Rightarrow> 'm machine \<Rightarrow> bool \<times> 'm machine" where
  "brk_pages map_to unmap new_end addr mc =
     (if addr < new_end then
        (case map_page_global map_to unmap (mc_frames mc) (mc_tables mc) addr USER_RW of
           (None, m, pt) \<Rightarrow> (False, mc\<lparr>mc_frames := m, mc_tables := pt\<rparr>)
         | (Some frame, m, pt) \<Rightarrow>
             brk_pages map_to unmap new_end (addr + 4096)
               (mc\<lparr>mc_frames := m, mc_tables := pt, mc_ram := copy_to (mc_ram mc) (phys_to_virt m frame) (replicate 4096 0)\<rparr>))
      else (True, mc))"
  by pat_completeness auto
termination by (relation "measure (\<lambda>(map_to, unmap, new_end, addr, mc). new_end - addr)") auto

declare brk_pages.simps [simp del]

text \<open>\<^verbatim>\<open>(x + 0xFFF) & !0xFFF\<close>, with the checked addition.\<close>

definition page_up :: "u64 \<Rightarrow> nat option" where
  "page_up x = (if unat x + 0xFFF \<ge> 2 ^ 64 then None else Some (unat (page_aligned (x + 0xFFF))))"

definition handle_brk ::
  "('m \<Rightarrow> nat \<Rightarrow> nat \<Rightarrow> u64 \<Rightarrow> prealloc \<Rightarrow> map_result \<times> 'm \<times> prealloc) \<Rightarrow> ('m \<Rightarrow> nat \<Rightarrow> nat option \<times> 'm)
    \<Rightarrow> userspace \<Rightarrow> 'm machine \<Rightarrow> u32 \<Rightarrow> u64 \<Rightarrow> (u64 \<times> userspace \<times> 'm machine) option" where
  "handle_brk map_to unmap us mc pid new_brk =
     (case find_by_pid us pid of
        None \<Rightarrow> Some (0, us, mc)
      | Some slot \<Rightarrow>
          let proc = proc_at us slot in
          if new_brk = 0 then Some (up_brk proc, us, mc)
          else if new_brk < HEAP_BASE \<or> new_brk \<ge> USER_STACK_TOP - 0x100000 then Some (0, us, mc)
          else
            (case (page_up (up_brk proc), page_up new_brk) of
               (Some old_end, Some new_end) \<Rightarrow>
                 (case (if new_end > old_end then brk_pages map_to unmap new_end old_end mc else (True, mc)) of
                    (False, mc) \<Rightarrow> Some (0, us, mc)
                  | (True, mc) \<Rightarrow> Some (new_brk, set_proc slot (proc\<lparr>up_brk := new_brk\<rparr>) us, mc))
             | _ \<Rightarrow> None))"

section \<open>Descriptors\<close>

definition proc_kind_of :: "str \<Rightarrow> proc_fd_kind" where
  "proc_kind_of path =
     (if path = ''/dev/null'' then ProcNull
      else if path \<in> {''/dev/serial'', ''/dev/stdin'', ''/dev/stdout'', ''/dev/stderr''} then ProcSerial
      else ProcVfsFile)"

definition proc_open :: "userspace \<Rightarrow> u32 \<Rightarrow> str \<Rightarrow> u32 \<Rightarrow> usize result \<times> userspace" where
  "proc_open us pid path flags =
     (case find_by_pid us pid of
        None \<Rightarrow> (Err ''no such process'', us)
      | Some slot \<Rightarrow>
          let proc = proc_at us slot in
          (case find (\<lambda>i. up_fds proc ! i = None) [3..<MAX_PROC_FDS] of
             Some i \<Rightarrow>
               (Ok i, set_proc slot (proc\<lparr>up_fds := (up_fds proc)[i := Some \<lparr>fe_path = path, fe_offset = 0,
                  fe_flags = flags, fe_kind = proc_kind_of path\<rparr>]\<rparr>) us)
           | None \<Rightarrow> (Err ''too many open files'', us)))"

text \<open>\<open>proc_fd\<close>: the entry a call on descriptor \<open>fd\<close> of process \<open>pid\<close> works on.\<close>

definition proc_fd :: "userspace \<Rightarrow> u32 \<Rightarrow> usize \<Rightarrow> proc_fd_entry result" where
  "proc_fd us pid fd =
     (case find_by_pid us pid of
        None \<Rightarrow> Err ''no such process''
      | Some slot \<Rightarrow>
          if fd \<ge> MAX_PROC_FDS then Err ''invalid fd''
          else (case up_fds (proc_at us slot) ! fd of None \<Rightarrow> Err ''fd not open'' | Some e \<Rightarrow> Ok e))"

definition proc_read :: "proc_env \<Rightarrow> userspace \<Rightarrow> vfs_state \<Rightarrow> u32 \<Rightarrow> usize \<Rightarrow> u8 list
    \<Rightarrow> (usize result \<times> u8 list) \<times> vfs_state" where
  "proc_read env us st pid fd buf =
     (case proc_fd us pid fd of
        Inl e \<Rightarrow> ((Err e, buf), st)
      | Inr entry \<Rightarrow>
          (case fe_kind entry of
             ProcNull \<Rightarrow> ((Ok 0, buf), st)
           | ProcSerial \<Rightarrow> ((Ok 0, buf), st)
           | ProcVfsFile \<Rightarrow>
               (case cat env st (fe_path entry) of
                  (Inr content, st1) \<Rightarrow>
                    let bytes = as_bytes content; to_copy = min (length buf) (length bytes)
                    in ((Ok to_copy, take to_copy bytes @ drop to_copy buf), st1)
                | (Inl e, st1) \<Rightarrow> ((Err e, buf), st1))))"

definition proc_write :: "userspace \<Rightarrow> vfs_state \<Rightarrow> u32 \<Rightarrow> usize \<Rightarrow> u8 list \<Rightarrow> usize result \<times> vfs_state" where
  "proc_write us st pid fd data =
     (case proc_fd us pid fd of
        Inl e \<Rightarrow> (Err e, st)
      | Inr entry \<Rightarrow>
          (case fe_kind entry of
             ProcNull \<Rightarrow> (Ok (length data), st)
           | ProcSerial \<Rightarrow> (Ok (length data), case from_utf8 data of Some t \<Rightarrow> serial_println st t | None \<Rightarrow> st)
           | ProcVfsFile \<Rightarrow>
               (case from_utf8 data of
                  Some t \<Rightarrow>
                    (case vfs_write st (fe_path entry) t of
                       (Inl e, st1) \<Rightarrow> (Err e, st1)
                     | (Inr _, st1) \<Rightarrow> (Ok (length data), st1))
                | None \<Rightarrow> (Ok (length data), st))))"

definition proc_close :: "userspace \<Rightarrow> u32 \<Rightarrow> usize \<Rightarrow> unit result \<times> userspace" where
  "proc_close us pid fd =
     (case find_by_pid us pid of
        None \<Rightarrow> (Err ''no such process'', us)
      | Some slot \<Rightarrow>
          let proc = proc_at us slot in
          if fd \<ge> MAX_PROC_FDS then (Err ''invalid fd'', us)
          else if up_fds proc ! fd = None then (Err ''fd not open'', us)
          else (Ok (), set_proc slot (proc\<lparr>up_fds := (up_fds proc)[fd := None]\<rparr>) us))"

definition proc_dup2 :: "userspace \<Rightarrow> u32 \<Rightarrow> usize \<Rightarrow> usize \<Rightarrow> usize result \<times> userspace" where
  "proc_dup2 us pid oldfd newfd =
     (case find_by_pid us pid of
        None \<Rightarrow> (Err ''no such process'', us)
      | Some slot \<Rightarrow>
          let proc = proc_at us slot in
          if oldfd \<ge> MAX_PROC_FDS \<or> newfd \<ge> MAX_PROC_FDS then (Err ''invalid fd'', us)
          else
            (case up_fds proc ! oldfd of
               None \<Rightarrow> (Err ''oldfd not open'', us)
             | Some entry \<Rightarrow> (Ok newfd, set_proc slot (proc\<lparr>up_fds := (up_fds proc)[newfd := Some entry]\<rparr>) us)))"

section \<open>Life cycle\<close>

definition fork_process :: "userspace \<Rightarrow> u32 \<Rightarrow> u32 result \<times> userspace" where
  "fork_process us parent_pid =
     (case find_by_pid us parent_pid of
        None \<Rightarrow> (Err ''parent not found'', us)
      | Some parent_slot \<Rightarrow>
          let child_pid = ut_next_pid us; us = us\<lparr>ut_next_pid := child_pid + 1\<rparr> in
          (case find_slot us of
             None \<Rightarrow> (Err ''process table full'', us)
           | Some child_slot \<Rightarrow>
               let parent = proc_at us parent_slot;
                   child = (user_process_new child_pid (up_name parent))\<lparr>up_parent := parent_pid, up_brk := up_brk parent,
                     up_entry := up_entry parent, up_stack_top := up_stack_top parent, up_state := UpReady,
                     up_page_table := up_page_table parent, up_fds := up_fds parent\<rparr>
               in (Ok child_pid, set_proc child_slot child us)))"

definition is_exited :: "user_process \<Rightarrow> bool" where
  "is_exited p \<longleftrightarrow> up_state p = UpExited \<or> up_state p = UpZombie"

definition exit_code_of :: "user_process \<Rightarrow> u32" where
  "exit_code_of p = (case up_exit_code p of None \<Rightarrow> 0 | Some c \<Rightarrow> c)"

definition waitpid_blocking :: "userspace \<Rightarrow> u32 \<Rightarrow> u32 result" where
  "waitpid_blocking us wait_pid =
     (case find_by_pid us wait_pid of
        None \<Rightarrow> Err ''no such process''
      | Some slot \<Rightarrow>
          let proc = proc_at us slot in
          if is_exited proc then Ok (exit_code_of proc) else Err ''process still running'')"

text \<open>Without a stack pointer the thread gets one below its parent's, by a checked subtraction.\<close>

definition clone_thread :: "userspace \<Rightarrow> u32 \<Rightarrow> u64 \<Rightarrow> (u32 result \<times> userspace) option" where
  "clone_thread us parent_pid stack_ptr =
     (case find_by_pid us parent_pid of
        None \<Rightarrow> Some (Err ''parent not found'', us)
      | Some parent_slot \<Rightarrow>
          let child_pid = ut_next_pid us; us = us\<lparr>ut_next_pid := child_pid + 1\<rparr> in
          (case find_slot us of
             None \<Rightarrow> Some (Err ''process table full'', us)
           | Some child_slot \<Rightarrow>
               let parent = proc_at us parent_slot in
               if stack_ptr = 0 \<and> up_stack_top parent < 0x10000 then None
               else let child = (user_process_new child_pid (up_name parent @ ''-t'' @ show_nat (unat child_pid)))
                     \<lparr>up_parent := parent_pid, up_page_table := up_page_table parent, up_entry := up_entry parent,
                      up_stack_top := (if stack_ptr \<noteq> 0 then stack_ptr else up_stack_top parent - 0x10000),
                      up_brk := up_brk parent, up_state := UpReady, up_fds := up_fds parent\<rparr>
               in Some (Ok child_pid, set_proc child_slot child us)))"

definition up_kill_process :: "userspace \<Rightarrow> u32 \<Rightarrow> unit result \<times> userspace" where
  "up_kill_process us pid =
     (case find_by_pid us pid of
        None \<Rightarrow> (Err ''process not found'', us)
      | Some slot \<Rightarrow> (Ok (), set_proc slot ((proc_at us slot)\<lparr>up_state := UpExited, up_exit_code := Some (- 9)\<rparr>) us))"

definition wait_process :: "userspace \<Rightarrow> u32 \<Rightarrow> u32 option \<times> userspace" where
  "wait_process us pid =
     (case find_by_pid us pid of
        None \<Rightarrow> (None, us)
      | Some slot \<Rightarrow>
          let proc = proc_at us slot in
          if is_exited proc then (Some (exit_code_of proc), us\<lparr>ut_slots := (ut_slots us)[slot := None]\<rparr>) else (None, us))"

definition current_process :: "userspace \<Rightarrow> u32 option" where
  "current_process us = (if ut_current us = 0 then None else Some (ut_current us))"

definition exit_process :: "userspace \<Rightarrow> u32 \<Rightarrow> u32 \<Rightarrow> userspace" where
  "exit_process us pid code =
     (let us = (case find_by_pid us pid of
          None \<Rightarrow> us
        | Some slot \<Rightarrow> set_proc slot ((proc_at us slot)\<lparr>up_state := UpExited, up_exit_code := Some code\<rparr>) us)
      in if ut_current us = pid then us\<lparr>ut_current := 0\<rparr> else us)"

text \<open>\<open>enter_userspace\<close> panics when the process does not exist; otherwise it gives the entry point,
  the stack and the page table that the processor gets. \<open>cr3\<close> is the page table in use.\<close>

definition enter_userspace :: "userspace \<Rightarrow> u64 \<Rightarrow> u32 \<Rightarrow> ((u64 \<times> u64 \<times> u64) \<times> userspace) option" where
  "enter_userspace us cr3 pid =
     (case find_by_pid us pid of
        None \<Rightarrow> None
      | Some slot \<Rightarrow>
          let proc = proc_at us slot;
              us = (set_proc slot (proc\<lparr>up_state := UpRunning\<rparr>) us)\<lparr>ut_current := pid, ut_user_exited := False\<rparr>
          in Some ((up_entry proc, up_stack_top proc, up_page_table proc),
               if up_page_table proc \<noteq> 0 then us\<lparr>ut_kernel_cr3 := cr3\<rparr> else us))"

definition return_to_kernel :: "userspace \<Rightarrow> u64 option \<times> userspace" where
  "return_to_kernel us =
     (let saved = ut_kernel_cr3 us; us = us\<lparr>ut_user_exited := True, ut_current := 0\<rparr>
      in if saved \<noteq> 0 then (Some saved, us\<lparr>ut_kernel_cr3 := 0\<rparr>) else (None, us))"

definition spawn_user_task ::
  "('m \<Rightarrow> nat \<Rightarrow> nat \<Rightarrow> u64 \<Rightarrow> prealloc \<Rightarrow> map_result \<times> 'm \<times> prealloc) \<Rightarrow> ('m \<Rightarrow> nat \<Rightarrow> nat option \<times> 'm)
    \<Rightarrow> (str \<Rightarrow> u8 list) \<Rightarrow> u8 list \<times> u8 list \<Rightarrow> u64 \<times> u64 \<times> u64 \<Rightarrow> proc_env \<Rightarrow> userspace \<times> 'm machine \<times> vfs_state \<times> tasks
    \<Rightarrow> str \<Rightarrow> (u32 result \<times> userspace \<times> 'm machine \<times> vfs_state \<times> tasks) option" where
  "spawn_user_task map_to unmap gen libc frame env = (\<lambda>(us, mc, st, ts) name.
     (case get_builtin_program gen env st name of
        (None, st) \<Rightarrow> Some (Err ''unknown program'', us, mc, st, ts)
      | (Some elf_data, st) \<Rightarrow>
          (case up_create_process map_to unmap libc us mc name elf_data of
             None \<Rightarrow> None
           | Some (Inl e, us, mc) \<Rightarrow> Some (Err e, us, mc, st, ts)
           | Some (Inr pid, us, mc) \<Rightarrow>
               (case ensure_libc_loaded map_to unmap libc us mc of
                  (Inl e, us, mc) \<Rightarrow> Some (Err e, us, mc, st, ts)
                | (Inr _, us, mc) \<Rightarrow>
                    let us = us\<lparr>ut_pending := pid\<rparr>; (base, entry, wrapper) = frame in
                    (case spawn ts ''user_task'' base entry wrapper of
                       (Some _, ts) \<Rightarrow> Some (Ok pid, us, mc, st, ts)
                     | (None, ts) \<Rightarrow> Some (Err ''failed to spawn task'', us, mc, st, ts))))))"

definition user_task_entry :: "userspace \<Rightarrow> u64 \<Rightarrow> ((u64 \<times> u64 \<times> u64) option \<times> userspace) option" where
  "user_task_entry us cr3 =
     (if ut_pending us \<noteq> 0 then map_option (\<lambda>(regs, us). (Some regs, us)) (enter_userspace us cr3 (ut_pending us))
      else Some (None, us))"

definition up_state_str :: "user_process_state \<Rightarrow> str" where
  "up_state_str s = (case s of UpReady \<Rightarrow> ''ready   '' | UpRunning \<Rightarrow> ''running '' | UpWaiting \<Rightarrow> ''waiting ''
     | UpZombie \<Rightarrow> ''zombie  '' | UpExited \<Rightarrow> ''exited  '')"

definition up_list_processes :: "userspace \<Rightarrow> str" where
  "up_list_processes us =
     ''  PID  STATE     NAME'' @ [CHR 0x0A] @
     concat (map (\<lambda>s. case s of None \<Rightarrow> [] | Some p \<Rightarrow>
       ''  '' @ pad_left CHR '' '' 3 (show_nat (unat (up_pid p))) @ ''  '' @ up_state_str (up_state p) @ ''  '' @ up_name p @ [CHR 0x0A])
       (ut_slots us))"

end
