(* ===== verification/Env.thy ===== *)
theory Env
  imports Prelude
begin

text \<open>
  Environment variables and aliases (\<^verbatim>\<open>src/env.rs\<close>): two bounded association lists. The text
  substitution \<^verbatim>\<open>expand\<close>, which reads Unicode character classes, is left out.
\<close>

definition MAX_VARS :: usize where "MAX_VARS = 32"
definition MAX_ALIASES :: usize where "MAX_ALIASES = 16"

record env_store =
  ev_vars :: "(str \<times> str) list"
  ev_aliases :: "(str \<times> str) list"

definition env_new :: env_store where
  "env_new = \<lparr>ev_vars = [], ev_aliases = []\<rparr>"

text \<open>The common part of \<^verbatim>\<open>set\<close> and \<^verbatim>\<open>set_alias\<close>: nothing when full, else update or append.\<close>

definition put_entry :: "usize \<Rightarrow> (str \<times> str) list \<Rightarrow> str \<Rightarrow> str \<Rightarrow> (str \<times> str) list" where
  "put_entry mx es key v =
     (if length es \<ge> mx then es
      else if list_ex (\<lambda>e. fst e = key) es then update_first (\<lambda>e. fst e = key) (\<lambda>e. (key, v)) es
      else es @ [(key, v)])"

definition env_set :: "env_store \<Rightarrow> str \<Rightarrow> str \<Rightarrow> env_store" where
  "env_set ev key v = ev\<lparr>ev_vars := put_entry MAX_VARS (ev_vars ev) key v\<rparr>"

definition env_get :: "env_store \<Rightarrow> str \<Rightarrow> str option" where
  "env_get ev key = map_option snd (find (\<lambda>e. fst e = key) (ev_vars ev))"

definition env_unset :: "env_store \<Rightarrow> str \<Rightarrow> env_store" where
  "env_unset ev key = ev\<lparr>ev_vars := filter (\<lambda>e. fst e \<noteq> key) (ev_vars ev)\<rparr>"

definition env_list :: "env_store \<Rightarrow> (str \<times> str) list" where
  "env_list ev = ev_vars ev"

definition set_alias :: "env_store \<Rightarrow> str \<Rightarrow> str \<Rightarrow> env_store" where
  "set_alias ev name command = ev\<lparr>ev_aliases := put_entry MAX_ALIASES (ev_aliases ev) name command\<rparr>"

definition resolve_alias :: "env_store \<Rightarrow> str \<Rightarrow> str option" where
  "resolve_alias ev name = map_option snd (find (\<lambda>e. fst e = name) (ev_aliases ev))"

definition list_aliases :: "env_store \<Rightarrow> (str \<times> str) list" where
  "list_aliases ev = ev_aliases ev"

definition env_init :: "env_store \<Rightarrow> env_store" where
  "env_init ev = foldl (\<lambda>ev (k, v). env_set ev k v) ev
     [(''HOSTNAME'', ''merlion''), (''OS'', ''MerlionOS''), (''VERSION'', ''0.2.0''), (''ARCH'', ''x86_64''),
      (''SHELL'', ''/bin/msh''), (''HOME'', ''/tmp''), (''PWD'', ''/''), (''PS1'', ''merlion> '')]"

section \<open>The table is a bounded map\<close>

definition entries_ok :: "usize \<Rightarrow> (str \<times> str) list \<Rightarrow> bool" where
  "entries_ok mx es \<longleftrightarrow> length es \<le> mx \<and> distinct (map fst es)"

lemma put_entry_ok: "entries_ok mx es \<Longrightarrow> entries_ok mx (put_entry mx es key v)"
  using map_update_first [of "\<lambda>e. fst e = key" fst "\<lambda>e. (key, v)" es]
  by (force simp: put_entry_def entries_ok_def list_ex_iff)

lemma find_put_entry:
  "find (\<lambda>e. fst e = k) (put_entry mx es key v) =
     (if length es < mx \<and> k = key then Some (key, v) else find (\<lambda>e. fst e = k) es)"
proof -
  have "find (\<lambda>e. fst e = k) (update_first (\<lambda>e. fst e = key) (\<lambda>e. (key, v)) es) =
      (if k = key then Some (key, v) else find (\<lambda>e. fst e = k) es)" if "list_ex (\<lambda>e. fst e = key) es"
    using that by (induction es) auto
  moreover have "find (\<lambda>e. fst e = k) (es @ [(key, v)]) = (if k = key then Some (key, v) else find (\<lambda>e. fst e = k) es)"
    if "\<not> list_ex (\<lambda>e. fst e = key) es"
    using that by (induction es) auto
  ultimately show ?thesis by (auto simp: put_entry_def)
qed

lemma env_set_get:
  "env_get (env_set ev key v) k = (if length (ev_vars ev) < MAX_VARS \<and> k = key then Some v else env_get ev k)"
  by (simp add: env_get_def env_set_def find_put_entry)

lemma env_unset_get: "env_get (env_unset ev key) k = (if k = key then None else env_get ev k)"
proof -
  have "find (\<lambda>e. fst e = k) (filter (\<lambda>e. fst e \<noteq> key) es) = (if k = key then None else find (\<lambda>e. fst e = k) es)" for es :: "(str \<times> str) list"
    by (induction es) auto
  then show ?thesis by (simp add: env_get_def env_unset_def)
qed

text \<open>With 32 variables every later \<^verbatim>\<open>set\<close> is lost, also of a variable that exists.\<close>

lemma full_env_ignores: "length (ev_vars ev) = MAX_VARS \<Longrightarrow> env_set ev key v = ev"
  by (simp add: env_set_def put_entry_def)

end
