(* ===== verification/Syscall.thy ===== *)
theory Syscall
  imports Userspace Pipefs Capability Signals Ipc Env
begin

text \<open>
  System calls (\<^verbatim>\<open>src/syscall.rs\<close>): \<^verbatim>\<open>dispatch\<close> over the state of the modules it calls. A call returns a
  value, or the task gives up the processor for ever (\<^verbatim>\<open>exit\<close>), or it polls and yields and will be
  polled again (\<^verbatim>\<open>recv\<close>, \<^verbatim>\<open>sleep\<close>), or it enters user mode (\<^verbatim>\<open>exec\<close>), or the kernel faults on a pointer
  that is not mapped or an arithmetic check panics. The arms that only forward to modules outside
  this development (graphics, sound, sockets, dynamic linking, the POSIX and Rust shims) and
  \<^verbatim>\<open>printf\<close> are left out: \<open>left_out\<close> lists their numbers, and the model has no outcome there. The log
  messages of the calls and the latency statistics are left out; what a program prints is kept.
\<close>

section \<open>State\<close>

text \<open>The platform: the page-table walker for reads and writes and the two operations of the mapper,
  the programs and library pages that \<^verbatim>\<open>ulibc\<close> generates, what \<^verbatim>\<open>/proc\<close> shows, the stack pointer at
  a task switch and the page table in use.\<close>

record 'm platform =
  pl_read :: "'m \<Rightarrow> nat \<Rightarrow> nat option"
  pl_write :: "'m \<Rightarrow> nat \<Rightarrow> nat option"
  pl_map_to :: "'m \<Rightarrow> nat \<Rightarrow> nat \<Rightarrow> u64 \<Rightarrow> prealloc \<Rightarrow> map_result \<times> 'm \<times> prealloc"
  pl_unmap :: "'m \<Rightarrow> nat \<Rightarrow> nat option \<times> 'm"
  pl_gen :: "str \<Rightarrow> u8 list"
  pl_libc :: "u8 list \<times> u8 list"
  pl_env :: proc_env
  pl_rsp :: u64
  pl_cr3 :: u64

record ('m, 'h) kstate =
  k_sig :: "'h sig_state"
  k_filters :: "syscall_filter list"
  k_audit :: audit_state
  k_caps :: caps_table
  k_pipes :: pipefs
  k_ipc :: channels
  k_user :: userspace
  k_mc :: "'m machine"
  k_env :: env_store
  k_shm :: shmem
  k_mmap_next :: u64
  k_ticks :: u64
  k_screen :: "str list"
  k_retval :: i64

definition k_tasks :: "('m, 'h) kstate \<Rightarrow> tasks" where
  "k_tasks k = ss_tasks (k_sig k)"

definition k_vfs :: "('m, 'h) kstate \<Rightarrow> vfs_state" where
  "k_vfs k = pf_vfs (k_pipes k)"

definition k_fds :: "('m, 'h) kstate \<Rightarrow> fd_table" where
  "k_fds k = pf_fds (k_pipes k)"

definition set_tasks :: "tasks \<Rightarrow> ('m, 'h) kstate \<Rightarrow> ('m, 'h) kstate" where
  "set_tasks ts k = k\<lparr>k_sig := (k_sig k)\<lparr>ss_tasks := ts\<rparr>\<rparr>"

definition set_vfs :: "vfs_state \<Rightarrow> ('m, 'h) kstate \<Rightarrow> ('m, 'h) kstate" where
  "set_vfs st k = k\<lparr>k_pipes := (k_pipes k)\<lparr>pf_vfs := st\<rparr>\<rparr>"

definition set_fds :: "fd_table \<Rightarrow> ('m, 'h) kstate \<Rightarrow> ('m, 'h) kstate" where
  "set_fds fds k = k\<lparr>k_pipes := (k_pipes k)\<lparr>pf_fds := fds\<rparr>\<rparr>"

datatype 's outcome = Returns i64 's | Exits 's | Blocks 's | Enters "u64 \<times> u64 \<times> u64" 's | Faults

definition set_retval :: "i64 \<Rightarrow> ('m, 'h) kstate \<Rightarrow> ('m, 'h) kstate" where
  "set_retval v k = k\<lparr>k_retval := v\<rparr>"

definition ret :: "i64 \<Rightarrow> ('m, 'h) kstate \<Rightarrow> ('m, 'h) kstate outcome" where
  "ret v k = Returns v (set_retval v k)"

text \<open>The end of an arm that leaves the return value alone: \<^verbatim>\<open>dispatch\<close> loads it.\<close>

definition load_retval :: "('m, 'h) kstate \<Rightarrow> ('m, 'h) kstate outcome" where
  "load_retval k = Returns (k_retval k) k"

section \<open>User memory\<close>

definition user_read :: "('m \<Rightarrow> nat \<Rightarrow> nat option) \<Rightarrow> 'm machine \<Rightarrow> nat \<Rightarrow> nat \<Rightarrow> u8 list option" where
  "user_read tr mc a n = those (map (user_byte tr mc) [a..<a + n])"

fun user_write :: "('m \<Rightarrow> nat \<Rightarrow> nat option) \<Rightarrow> 'm machine \<Rightarrow> nat \<Rightarrow> u8 list \<Rightarrow> 'm machine option" where
  "user_write tr mc a [] = Some mc"
| "user_write tr mc a (b # bs) =
     (case tr (mc_tables mc) (a - a mod 4096) of
        None \<Rightarrow> None
      | Some f \<Rightarrow> user_write tr (mc\<lparr>mc_ram := (mc_ram mc)(phys_to_virt (mc_frames mc) f + a mod 4096 := b)\<rparr>) (Suc a) bs)"

text \<open>\<^verbatim>\<open>read_user_str\<close>: the outer option is the fault, the inner one the result.\<close>

definition read_user_str :: "'m platform \<Rightarrow> ('m, 'h) kstate \<Rightarrow> u64 \<Rightarrow> u64 \<Rightarrow> str option option" where
  "read_user_str pl k ptr len =
     (if ptr = 0 \<or> len = 0 \<or> len > 4096 then Some None
      else map_option from_utf8 (user_read (pl_read pl) (k_mc k) (unat ptr) (unat len)))"

definition write_user_buf :: "'m platform \<Rightarrow> ('m, 'h) kstate \<Rightarrow> u64 \<Rightarrow> u8 list \<Rightarrow> u64 \<Rightarrow> (usize \<times> ('m, 'h) kstate) option" where
  "write_user_buf pl k ptr data max_len =
     (let len = min (length data) (unat max_len)
      in map_option (\<lambda>mc. (len, k\<lparr>k_mc := mc\<rparr>)) (user_write (pl_write pl) (k_mc k) (unat ptr) (take len data)))"

text \<open>The shape that most calls on a path share: a bad pointer gives -1.\<close>

definition with_path :: "'m platform \<Rightarrow> ('m, 'h) kstate \<Rightarrow> u64 \<Rightarrow> u64 \<Rightarrow> (str \<Rightarrow> ('m, 'h) kstate outcome) \<Rightarrow> ('m, 'h) kstate outcome" where
  "with_path pl k ptr len f =
     (case read_user_str pl k ptr len of None \<Rightarrow> Faults | Some None \<Rightarrow> ret (- 1) k | Some (Some path) \<Rightarrow> f path)"

definition ret_result :: "('a \<Rightarrow> i64) \<Rightarrow> 'a result \<Rightarrow> ('m, 'h) kstate \<Rightarrow> ('m, 'h) kstate outcome" where
  "ret_result f r k = (case r of Inl _ \<Rightarrow> ret (- 1) k | Inr v \<Rightarrow> ret (f v) k)"

section \<open>Calls 0 to 14\<close>

definition sys_write_text :: "'m platform \<Rightarrow> ('m, 'h) kstate \<Rightarrow> u64 \<Rightarrow> u64 \<Rightarrow> ('m, 'h) kstate outcome" where
  "sys_write_text pl k buf len =
     (if buf = 0 \<or> len > 4096 then Returns 0 k
      else
        (case user_read (pl_read pl) (k_mc k) (unat buf) (unat len) of
           None \<Rightarrow> Faults
         | Some bytes \<Rightarrow>
             (case from_utf8 bytes of
                None \<Rightarrow> ret len k
              | Some s \<Rightarrow>
                  let line = ''[user] '' @ s
                  in ret len ((set_vfs (serial_println (k_vfs k) line) k)\<lparr>k_screen := k_screen k @ [line]\<rparr>))))"

definition sys_exit :: "'m platform \<Rightarrow> ('m, 'h) kstate \<Rightarrow> u64 \<Rightarrow> ('m, 'h) kstate outcome" where
  "sys_exit pl k arg1 =
     (case current_process (k_user k) of
        Some pid \<Rightarrow> Returns 0 (k\<lparr>k_user := snd (return_to_kernel (exit_process (k_user k) pid (ucast arg1)))\<rparr>)
      | None \<Rightarrow> Exits (set_tasks (snd (task_exit (k_tasks k) (pl_rsp pl))) k))"

definition sys_yield :: "'m platform \<Rightarrow> ('m, 'h) kstate \<Rightarrow> ('m, 'h) kstate" where
  "sys_yield pl k = set_tasks (snd (yield_now (k_tasks k) (pl_rsp pl))) k"

text \<open>The deadline of \<^verbatim>\<open>sleep\<close> is computed when the call starts; \<open>sleep_poll\<close> is one turn of its loop.\<close>

definition sleep_target :: "u64 \<Rightarrow> u64 \<Rightarrow> u64 option" where
  "sleep_target now duration = (if unat now + unat duration < 2 ^ 64 then Some (now + duration) else None)"

definition sleep_poll :: "'m platform \<Rightarrow> ('m, 'h) kstate \<Rightarrow> u64 \<Rightarrow> ('m, 'h) kstate outcome" where
  "sleep_poll pl k target = (if k_ticks k < target then Blocks (sys_yield pl k) else load_retval k)"

definition sys_sleep :: "'m platform \<Rightarrow> ('m, 'h) kstate \<Rightarrow> u64 \<Rightarrow> ('m, 'h) kstate outcome" where
  "sys_sleep pl k duration =
     (case sleep_target (k_ticks k) duration of None \<Rightarrow> Faults | Some target \<Rightarrow> sleep_poll pl k target)"

definition sys_recv :: "'m platform \<Rightarrow> ('m, 'h) kstate \<Rightarrow> u64 \<Rightarrow> ('m, 'h) kstate outcome" where
  "sys_recv pl k channel_id =
     (case ipc_recv (k_ipc k) (unat channel_id) of
        (Some _, chs) \<Rightarrow> load_retval (k\<lparr>k_ipc := chs\<rparr>)
      | (None, chs) \<Rightarrow> Blocks (sys_yield pl (k\<lparr>k_ipc := chs\<rparr>)))"

definition sys_setuid :: "('m, 'h) kstate \<Rightarrow> u64 \<Rightarrow> ('m, 'h) kstate" where
  "sys_setuid k arg1 =
     (let pid = current_pid (k_tasks k) in
      if has_cap (k_caps k) pid CAP_SETUID
      then set_vfs ((k_vfs k)\<lparr>vs_sec := snd (set_current_uid (vs_sec (k_vfs k)) (ucast arg1))\<rparr>) k
      else k\<lparr>k_audit := audit_log (k_audit k) (CapabilityDenied pid ''CAP_SETUID'')\<rparr>)"

definition sys_basic :: "'m platform \<Rightarrow> ('m, 'h) kstate \<Rightarrow> u64 \<Rightarrow> u64 \<Rightarrow> u64 \<Rightarrow> ('m, 'h) kstate outcome option" where
  "sys_basic pl k num arg1 arg2 =
     (if num = 0 then Some (sys_write_text pl k arg1 arg2)
      else if num = 1 then Some (sys_exit pl k arg1)
      else if num = 2 then Some (load_retval (sys_yield pl k))
      else if num = 3 then Some (ret (of_nat (current_pid (k_tasks k))) k)
      else if num = 4 then Some (sys_sleep pl k arg1)
      else if num = 5 then Some (load_retval (k\<lparr>k_ipc := snd (ipc_send (k_ipc k) (unat arg1) (ucast arg2))\<rparr>))
      else if num = 6 then Some (sys_recv pl k arg1)
      else if num = 7 then Some (ret (ucast (current_uid (vs_sec (k_vfs k)))) k)
      else if num = 8 then Some (load_retval (sys_setuid k arg1))
      else if num = 9 then Some (ret (ucast (current_gid (vs_sec (k_vfs k)))) k)
      else if num \<in> {10, 11, 12, 13, 14} then Some (load_retval k)
      else None)"

section \<open>Files (100 to 109)\<close>

definition sys_open :: "'m platform \<Rightarrow> ('m, 'h) kstate \<Rightarrow> u64 \<Rightarrow> u64 \<Rightarrow> u64 \<Rightarrow> ('m, 'h) kstate outcome" where
  "sys_open pl k ptr len flags =
     with_path pl k ptr len (\<lambda>path.
       case current_process (k_user k) of
         Some pid \<Rightarrow> (let (r, us) = proc_open (k_user k) pid path (ucast flags) in ret_result of_nat r (k\<lparr>k_user := us\<rparr>))
       | None \<Rightarrow> (let (r, fds) = fd_open (k_fds k) path in ret_result of_nat r (set_fds fds k)))"

definition sys_read_fd :: "'m platform \<Rightarrow> ('m, 'h) kstate \<Rightarrow> u64 \<Rightarrow> u64 \<Rightarrow> u64 \<Rightarrow> ('m, 'h) kstate outcome" where
  "sys_read_fd pl k fd buf_ptr len =
     (if buf_ptr = 0 \<or> len = 0 \<or> len > 4096 then Returns 0 k
      else
        let tmp = replicate (unat len) 0;
            ((r, tmp), st) = (case current_process (k_user k) of
                Some pid \<Rightarrow> proc_read (pl_env pl) (k_user k) (k_vfs k) pid (unat fd) tmp
              | None \<Rightarrow> sys_read (pl_env pl) (k_fds k) (k_vfs k) (unat fd) tmp);
            k = set_vfs st k
        in case r of
             Inl _ \<Rightarrow> ret (- 1) k
           | Inr n \<Rightarrow>
               (case write_user_buf pl k buf_ptr (take n tmp) len of
                  None \<Rightarrow> Faults
                | Some (_, k) \<Rightarrow> ret (of_nat n) k))"

definition sys_close :: "('m, 'h) kstate \<Rightarrow> u64 \<Rightarrow> ('m, 'h) kstate outcome" where
  "sys_close k fd =
     (case current_process (k_user k) of
        Some pid \<Rightarrow> (let (r, us) = proc_close (k_user k) pid (unat fd) in ret_result (\<lambda>_. 0) r (k\<lparr>k_user := us\<rparr>))
      | None \<Rightarrow> (let (r, fds) = fd_close (k_fds k) (unat fd) in ret_result (\<lambda>_. 0) r (set_fds fds k)))"

definition readdir_text :: "(str \<times> char) list \<Rightarrow> str" where
  "readdir_text entries =
     concat (map (\<lambda>(name, kind). name @ [if kind = CHR ''d'' then CHR ''/'' else CHR '' '', CHR 0x0A]) entries)"

definition sys_readdir :: "'m platform \<Rightarrow> ('m, 'h) kstate \<Rightarrow> u64 \<Rightarrow> u64 \<Rightarrow> u64 \<Rightarrow> ('m, 'h) kstate outcome" where
  "sys_readdir pl k ptr len buf =
     with_path pl k ptr len (\<lambda>path.
       case ls (k_vfs k) path of
         Inl _ \<Rightarrow> ret (- 1) k
       | Inr entries \<Rightarrow>
           if buf \<noteq> 0 \<and> entries \<noteq> [] then
             (case write_user_buf pl k buf (as_bytes (readdir_text entries)) 4096 of
                None \<Rightarrow> Faults
              | Some (_, k) \<Rightarrow> ret (of_nat (length entries)) k)
           else ret (of_nat (length entries)) k)"

definition sys_getcwd :: "'m platform \<Rightarrow> ('m, 'h) kstate \<Rightarrow> u64 \<Rightarrow> u64 \<Rightarrow> ('m, 'h) kstate outcome" where
  "sys_getcwd pl k buf_ptr buf_len =
     (let cwd = (case env_get (k_env k) ''PWD'' of None \<Rightarrow> ''/'' | Some d \<Rightarrow> d) in
      if buf_ptr \<noteq> 0 \<and> buf_len > 0 then
        (case write_user_buf pl k buf_ptr (as_bytes cwd) buf_len of
           None \<Rightarrow> Faults
         | Some (n, k) \<Rightarrow> ret (of_nat n) k)
      else ret (- 1) k)"

definition sys_file :: "'m platform \<Rightarrow> ('m, 'h) kstate \<Rightarrow> u64 \<Rightarrow> u64 \<Rightarrow> u64 \<Rightarrow> u64 \<Rightarrow> ('m, 'h) kstate outcome option" where
  "sys_file pl k num arg1 arg2 arg3 =
     (if num = 100 then Some (sys_open pl k arg1 arg2 arg3)
      else if num = 101 then Some (sys_read_fd pl k arg1 arg2 arg3)
      else if num = 102 then Some (sys_close k arg1)
      else if num = 103 then Some (with_path pl k arg1 arg2 (\<lambda>path.
        let (r, st) = cat (pl_env pl) (k_vfs k) path in ret_result (\<lambda>_. 0) r (set_vfs st k)))
      else if num = 104 then Some (load_retval k)
      else if num = 105 then Some (with_path pl k arg1 arg2 (\<lambda>path.
        let (r, st) = mkdir (k_vfs k) path in ret_result (\<lambda>_. 0) r (set_vfs st k)))
      else if num = 106 then Some (with_path pl k arg1 arg2 (\<lambda>path.
        let (r, st) = rm (k_vfs k) path in ret_result (\<lambda>_. 0) r (set_vfs st k)))
      else if num = 107 then Some (sys_readdir pl k arg1 arg2 arg3)
      else if num = 108 then Some (with_path pl k arg1 arg2 (\<lambda>path. ret 0 (k\<lparr>k_env := env_set (k_env k) ''PWD'' path\<rparr>)))
      else if num = 109 then Some (sys_getcwd pl k arg1 arg2)
      else None)"

section \<open>Processes (110 to 115)\<close>

definition sys_fork :: "('m, 'h) kstate \<Rightarrow> ('m, 'h) kstate outcome" where
  "sys_fork k =
     (case current_process (k_user k) of
        None \<Rightarrow> ret (- 1) k
      | Some pid \<Rightarrow> (let (r, us) = fork_process (k_user k) pid in ret_result ucast r (k\<lparr>k_user := us\<rparr>)))"

definition sys_exec :: "'m platform \<Rightarrow> ('m, 'h) kstate \<Rightarrow> u64 \<Rightarrow> u64 \<Rightarrow> ('m, 'h) kstate outcome" where
  "sys_exec pl k ptr len =
     with_path pl k ptr len (\<lambda>path.
       case get_builtin_program (pl_gen pl) (pl_env pl) (k_vfs k) path of
         (None, st) \<Rightarrow> ret (- 1) (set_vfs st k)
       | (Some elf_data, st) \<Rightarrow>
           let k = set_vfs st k in
           (case up_create_process (pl_map_to pl) (pl_unmap pl) (pl_libc pl) (k_user k) (k_mc k) path elf_data of
              None \<Rightarrow> Faults
            | Some (Inl _, us, mc) \<Rightarrow> ret (- 1) (k\<lparr>k_user := us, k_mc := mc\<rparr>)
            | Some (Inr pid, us, mc) \<Rightarrow>
                let us = (case current_process us of None \<Rightarrow> us | Some old_pid \<Rightarrow> exit_process us old_pid 0) in
                (case enter_userspace us (pl_cr3 pl) pid of
                   None \<Rightarrow> Faults
                 | Some (regs, us) \<Rightarrow> Enters regs (k\<lparr>k_user := us, k_mc := mc\<rparr>))))"

definition sys_brk :: "'m platform \<Rightarrow> ('m, 'h) kstate \<Rightarrow> u64 \<Rightarrow> ('m, 'h) kstate outcome" where
  "sys_brk pl k new_brk =
     (case current_process (k_user k) of
        None \<Rightarrow> ret (- 1) k
      | Some pid \<Rightarrow>
          (case handle_brk (pl_map_to pl) (pl_unmap pl) (k_user k) (k_mc k) pid new_brk of
             None \<Rightarrow> Faults
           | Some (r, us, mc) \<Rightarrow> ret r (k\<lparr>k_user := us, k_mc := mc\<rparr>)))"

definition sys_process :: "'m platform \<Rightarrow> ('m, 'h) kstate \<Rightarrow> u64 \<Rightarrow> u64 \<Rightarrow> u64 \<Rightarrow> ('m, 'h) kstate outcome option" where
  "sys_process pl k num arg1 arg2 =
     (if num = 110 then Some (sys_fork k)
      else if num = 111 then Some (sys_exec pl k arg1 arg2)
      else if num = 112 then Some (ret_result scast (waitpid_blocking (k_user k) (ucast arg1)) k)
      else if num = 113 then Some (sys_brk pl k arg1)
      else if num = 114 then Some (ret 0 k)
      else if num = 115 then Some (ret 0 (k\<lparr>k_sig := snd (deliver_signal (k_sig k) (unat arg1) (ucast arg2))\<rparr>))
      else None)"

section \<open>Memory (120 to 122)\<close>

fun mmap_pages :: "'m platform \<Rightarrow> 'm machine \<Rightarrow> nat \<Rightarrow> nat list \<Rightarrow> (bool \<times> 'm machine) option" where
  "mmap_pages pl mc base [] = Some (True, mc)"
| "mmap_pages pl mc base (i # is) =
     (if base + i * 4096 \<ge> 2 ^ 64 then None
      else
        (case map_user_page (pl_map_to pl) (pl_unmap pl) mc (base + i * 4096) USER_RW of
           None \<Rightarrow> None
         | Some (None, mc1) \<Rightarrow> Some (False, mc1)
         | Some (Some _, mc1) \<Rightarrow> mmap_pages pl mc1 base is))"

definition sys_mmap :: "'m platform \<Rightarrow> ('m, 'h) kstate \<Rightarrow> u64 \<Rightarrow> u64 \<Rightarrow> ('m, 'h) kstate outcome" where
  "sys_mmap pl k addr_hint len =
     (if len = 0 \<or> len > 0x10000000 then ret (- 1) k
      else
        let num_pages = (len + 0xFFF) div 4096;
            (base, k) = (if addr_hint \<noteq> 0 \<and> addr_hint AND 0xFFF = 0 then (addr_hint, k)
              else (k_mmap_next k, k\<lparr>k_mmap_next := k_mmap_next k + num_pages * 4096\<rparr>))
        in case mmap_pages pl (k_mc k) (unat base) [0..<unat num_pages] of
             None \<Rightarrow> Faults
           | Some (ok, mc) \<Rightarrow> ret (if ok then base else - 1) (k\<lparr>k_mc := mc\<rparr>))"

definition sys_munmap :: "('m, 'h) kstate \<Rightarrow> u64 \<Rightarrow> ('m, 'h) kstate outcome" where
  "sys_munmap k len = (if unat len + 0xFFF \<ge> 2 ^ 64 then Faults else ret 0 k)"

definition sys_memory :: "'m platform \<Rightarrow> ('m, 'h) kstate \<Rightarrow> u64 \<Rightarrow> u64 \<Rightarrow> u64 \<Rightarrow> ('m, 'h) kstate outcome option" where
  "sys_memory pl k num arg1 arg2 =
     (if num = 120 then Some (sys_mmap pl k arg1 arg2)
      else if num = 121 then Some (sys_munmap k arg2)
      else if num = 122 then Some (ret 0 k)
      else None)"

section \<open>Network stubs, time, pipes, signals and threads\<close>

definition sys_sendto :: "'m platform \<Rightarrow> ('m, 'h) kstate \<Rightarrow> u64 \<Rightarrow> u64 \<Rightarrow> ('m, 'h) kstate outcome" where
  "sys_sendto pl k buf_ptr len =
     (if buf_ptr \<noteq> 0 \<and> len > 0 \<and> len \<le> 4096
      then (case user_read (pl_read pl) (k_mc k) (unat buf_ptr) (unat len) of None \<Rightarrow> Faults | Some _ \<Rightarrow> ret len k)
      else ret (- 1) k)"

definition TIMER_HZ :: u64 where "TIMER_HZ = 100"

definition uptime_secs :: "u64 \<Rightarrow> u64" where
  "uptime_secs now = now div TIMER_HZ"

definition sys_nanosleep :: "'m platform \<Rightarrow> ('m, 'h) kstate \<Rightarrow> u64 \<Rightarrow> ('m, 'h) kstate outcome" where
  "sys_nanosleep pl k ms =
     (if unat ms * 100 \<ge> 2 ^ 64 then Faults
      else
        (case sleep_target (k_ticks k) (max (ms * TIMER_HZ div 1000) 1) of
           None \<Rightarrow> Faults
         | Some target \<Rightarrow> (case sleep_poll pl k target of Returns _ k1 \<Rightarrow> ret 0 k1 | r \<Rightarrow> r)))"

definition sys_clock_gettime :: "'m platform \<Rightarrow> ('m, 'h) kstate \<Rightarrow> u64 \<Rightarrow> ('m, 'h) kstate outcome" where
  "sys_clock_gettime pl k buf_ptr =
     (if buf_ptr \<noteq> 0 then
        (case write_user_buf pl k buf_ptr (u64_to_le (uptime_secs (k_ticks k)) @ u64_to_le (k_ticks k)) 16 of
           None \<Rightarrow> Faults
         | Some (_, k) \<Rightarrow> ret 0 k)
      else ret (- 1) k)"

definition sys_pipe :: "'m platform \<Rightarrow> ('m, 'h) kstate \<Rightarrow> u64 \<Rightarrow> ('m, 'h) kstate outcome" where
  "sys_pipe pl k fds_ptr =
     (if fds_ptr = 0 then ret (- 1) k
      else
        (case create_pipe (k_pipes k) of
           (Inl _, pf) \<Rightarrow> ret (- 1) (k\<lparr>k_pipes := pf\<rparr>)
         | (Inr (read_fd, write_fd), pf) \<Rightarrow>
             (case write_user_buf pl (k\<lparr>k_pipes := pf\<rparr>) fds_ptr (u64_to_le (of_nat read_fd) @ u64_to_le (of_nat write_fd)) 16 of
                None \<Rightarrow> Faults
              | Some (_, k) \<Rightarrow> ret 0 k)))"

definition sys_dup2 :: "('m, 'h) kstate \<Rightarrow> u64 \<Rightarrow> u64 \<Rightarrow> ('m, 'h) kstate outcome" where
  "sys_dup2 k oldfd newfd =
     (case current_process (k_user k) of
        None \<Rightarrow> ret (- 1) k
      | Some pid \<Rightarrow> (let (r, us) = proc_dup2 (k_user k) pid (unat oldfd) (unat newfd) in ret_result of_nat r (k\<lparr>k_user := us\<rparr>)))"

definition sys_sigaction :: "('m, 'h) kstate \<Rightarrow> u64 \<Rightarrow> u64 \<Rightarrow> ('m, 'h) kstate outcome" where
  "sys_sigaction k arg1 handler_type =
     (let h = (if handler_type = 1 then Ignore else Default);
          (r, sg) = register_handler (k_sig k) (current_pid (k_tasks k)) (ucast arg1) h
      in ret_result (\<lambda>_. 0) r (k\<lparr>k_sig := sg\<rparr>))"

definition sys_clone :: "('m, 'h) kstate \<Rightarrow> u64 \<Rightarrow> ('m, 'h) kstate outcome" where
  "sys_clone k stack_ptr =
     (case current_process (k_user k) of
        None \<Rightarrow> ret (- 1) k
      | Some pid \<Rightarrow>
          (case clone_thread (k_user k) pid stack_ptr of
             None \<Rightarrow> Faults
           | Some (r, us) \<Rightarrow> ret_result ucast r (k\<lparr>k_user := us\<rparr>)))"

definition shm_caller :: "('m, 'h) kstate \<Rightarrow> usize" where
  "shm_caller k = (case current_process (k_user k) of None \<Rightarrow> 0 | Some p \<Rightarrow> unat p)"

definition sys_shmget :: "('m, 'h) kstate \<Rightarrow> u64 \<Rightarrow> ('m, 'h) kstate outcome" where
  "sys_shmget k bytes =
     (let (r, m, t) = create_shmem (mc_frames (k_mc k)) (k_shm k) ''user_shm'' (unat bytes) (shm_caller k)
      in ret (case r of None \<Rightarrow> - 1 | Some n \<Rightarrow> of_nat n) (k\<lparr>k_mc := (k_mc k)\<lparr>mc_frames := m\<rparr>, k_shm := t\<rparr>))"

definition sys_shmat :: "('m, 'h) kstate \<Rightarrow> u64 \<Rightarrow> ('m, 'h) kstate outcome" where
  "sys_shmat k shmid =
     (let (r, t) = attach_shmem (k_shm k) (unat shmid) (shm_caller k)
      in ret (case r of None \<Rightarrow> - 1 | Some a \<Rightarrow> of_nat a) (k\<lparr>k_shm := t\<rparr>))"

definition sys_shmdt :: "('m, 'h) kstate \<Rightarrow> u64 \<Rightarrow> ('m, 'h) kstate outcome" where
  "sys_shmdt k shmid = ret 0 (k\<lparr>k_shm := snd (detach_shmem (k_shm k) (unat shmid) (shm_caller k))\<rparr>)"

definition sys_getenv :: "'m platform \<Rightarrow> ('m, 'h) kstate \<Rightarrow> u64 \<Rightarrow> u64 \<Rightarrow> u64 \<Rightarrow> ('m, 'h) kstate outcome" where
  "sys_getenv pl k ptr len buf =
     with_path pl k ptr len (\<lambda>name.
       case env_get (k_env k) name of
         None \<Rightarrow> ret (- 1) k
       | Some v \<Rightarrow>
           if buf \<noteq> 0 then
             (case write_user_buf pl k buf (as_bytes v) 256 of None \<Rightarrow> Faults | Some (_, k) \<Rightarrow> ret (of_nat (length v)) k)
           else ret (of_nat (length v)) k)"

definition sys_misc :: "'m platform \<Rightarrow> ('m, 'h) kstate \<Rightarrow> u64 \<Rightarrow> u64 \<Rightarrow> u64 \<Rightarrow> u64 \<Rightarrow> ('m, 'h) kstate outcome option" where
  "sys_misc pl k num arg1 arg2 arg3 =
     (if num = 130 then Some (ret 10 k)
      else if num = 132 then Some (sys_sendto pl k arg2 arg3)
      else if num = 133 then Some (ret 0 k)
      else if num \<in> {134, 135, 136, 150} then Some (ret (- 1) k)
      else if num = 140 then Some (ret (uptime_secs (k_ticks k)) k)
      else if num = 141 then Some (sys_nanosleep pl k arg1)
      else if num = 142 then Some (sys_clock_gettime pl k arg1)
      else if num = 151 then Some (sys_pipe pl k arg1)
      else if num = 152 then Some (sys_dup2 k arg1 arg2)
      else if num = 180 then Some (sys_sigaction k arg1 arg2)
      else if num = 181 then Some (ret 0 k)
      else if num = 190 then Some (sys_clone k arg2)
      else if num = 191 then Some (sys_shmget k arg2)
      else if num = 192 then Some (sys_shmat k arg1)
      else if num = 193 then Some (sys_shmdt k arg1)
      else if num = 267 then Some (ret arg1 k)
      else if num = 269 then Some (sys_getenv pl k arg1 arg2 arg3)
      else None)"

section \<open>Dispatch\<close>

definition left_out :: "u64 \<Rightarrow> bool" where
  "left_out num \<longleftrightarrow> num = 131 \<or> num = 160 \<or> 170 \<le> num \<and> num \<le> 172 \<or> 194 \<le> num \<and> num \<le> 266 \<or> num = 268 \<or>
     270 \<le> num \<and> num \<le> 299"

definition sys_call ::
  "'m platform \<Rightarrow> ('m, 'h) kstate \<Rightarrow> u64 \<Rightarrow> u64 \<Rightarrow> u64 \<Rightarrow> u64 \<Rightarrow> ('m, 'h) kstate outcome option" where
  "sys_call pl k num arg1 arg2 arg3 =
     (case sys_basic pl k num arg1 arg2 of Some r \<Rightarrow> Some r | None \<Rightarrow>
      (case sys_file pl k num arg1 arg2 arg3 of Some r \<Rightarrow> Some r | None \<Rightarrow>
      (case sys_process pl k num arg1 arg2 of Some r \<Rightarrow> Some r | None \<Rightarrow>
      (case sys_memory pl k num arg1 arg2 of Some r \<Rightarrow> Some r | None \<Rightarrow>
      (case sys_misc pl k num arg1 arg2 arg3 of Some r \<Rightarrow> Some r | None \<Rightarrow>
        if left_out num then None else Some (ret (- 1) k))))))"

definition sys_dispatch ::
  "'m platform \<Rightarrow> ('m, 'h) kstate \<Rightarrow> u64 \<Rightarrow> u64 \<Rightarrow> u64 \<Rightarrow> u64 \<Rightarrow> ('m, 'h) kstate outcome option" where
  "sys_dispatch pl k num arg1 arg2 arg3 =
     (let pid = current_pid (k_tasks k) in
      case seccomp_check (k_filters k) pid num of
        Kill \<Rightarrow>
          (let k = k\<lparr>k_audit := audit_log (k_audit k) (SeccompViolation pid num)\<rparr>
           in Some (Exits (set_tasks (snd (task_exit (k_tasks k) (pl_rsp pl))) k)))
      | _ \<Rightarrow> sys_call pl (set_retval 0 k) num arg1 arg2 arg3)"

end
