(* ===== verification/Userspace_props.thy ===== *)
theory Userspace_props
  imports Userspace
begin

text \<open>
  What the process table promises (\<^verbatim>\<open>src/userspace.rs\<close>): its invariant under every history of calls,
  that process identifiers are not reused, that descriptor tables are private maps which \<^verbatim>\<open>fork\<close>
  copies, and that a created process finds its image in memory.
\<close>

section \<open>Looking processes up\<close>

definition proc_of :: "userspace \<Rightarrow> u32 \<Rightarrow> user_process option" where
  "proc_of us pid = map_option (proc_at us) (find_by_pid us pid)"

definition user_process_ok :: "userspace \<Rightarrow> user_process \<Rightarrow> bool" where
  "user_process_ok us p \<longleftrightarrow> length (up_fds p) = MAX_PROC_FDS \<and> up_pid p \<noteq> 0 \<and> up_pid p < ut_next_pid us \<and>
     (is_exited p \<longrightarrow> up_exit_code p \<noteq> None)"

definition userspace_ok :: "userspace \<Rightarrow> bool" where
  "userspace_ok us \<longleftrightarrow>
     length (ut_slots us) = UP_MAX_PROCESSES \<and>
     (\<forall>i p. i < UP_MAX_PROCESSES \<and> ut_slots us ! i = Some p \<longrightarrow> user_process_ok us p) \<and>
     (\<forall>i j p q. i < UP_MAX_PROCESSES \<and> j < UP_MAX_PROCESSES \<and> ut_slots us ! i = Some p \<and> ut_slots us ! j = Some q \<and>
        up_pid p = up_pid q \<longrightarrow> i = j)"

lemma userspace_boot_ok: "userspace_ok userspace_boot"
  by (auto simp: userspace_ok_def userspace_boot_def)

lemma find_by_pid_Some:
  assumes "find_by_pid us pid = Some s"
  shows "s < length (ut_slots us)" and "ut_slots us ! s = Some (proc_at us s)" and "up_pid (proc_at us s) = pid"
  using position_SomeD [OF assms [unfolded find_by_pid_def]]
  by (auto simp: slot_has_pid_def proc_at_def split: option.splits)

lemma proc_of_iff:
  assumes "userspace_ok us"
  shows "proc_of us pid = Some p \<longleftrightarrow> up_pid p = pid \<and> (\<exists>i < UP_MAX_PROCESSES. ut_slots us ! i = Some p)"
proof
  assume "proc_of us pid = Some p"
  then obtain s where "find_by_pid us pid = Some s" "p = proc_at us s" by (auto simp: proc_of_def)
  then show "up_pid p = pid \<and> (\<exists>i < UP_MAX_PROCESSES. ut_slots us ! i = Some p)"
    using find_by_pid_Some [of us pid s] assms by (auto simp: userspace_ok_def)
next
  assume "up_pid p = pid \<and> (\<exists>i < UP_MAX_PROCESSES. ut_slots us ! i = Some p)"
  then obtain i where i: "i < UP_MAX_PROCESSES" "ut_slots us ! i = Some p" "up_pid p = pid" by blast
  have "Some p \<in> set (ut_slots us)" using i assms by (auto simp: userspace_ok_def in_set_conv_nth)
  then obtain s where s: "find_by_pid us pid = Some s"
    using position_exists [of "Some p" "ut_slots us" "slot_has_pid pid"] i(3) by (auto simp: find_by_pid_def slot_has_pid_def)
  have "s = i" using find_by_pid_Some [OF s] i assms unfolding userspace_ok_def by metis
  then show "proc_of us pid = Some p" using s i by (simp add: proc_of_def proc_at_def)
qed

lemma proc_of_ok: "userspace_ok us \<Longrightarrow> proc_of us pid = Some p \<Longrightarrow> user_process_ok us p \<and> up_pid p = pid"
  by (auto simp: proc_of_iff userspace_ok_def)

lemma proc_of_None: "proc_of us pid = None \<longleftrightarrow> find_by_pid us pid = None"
  by (simp add: proc_of_def)

lemma find_by_pid_proc_of: "find_by_pid us pid = Some s \<Longrightarrow> proc_of us pid = Some (proc_at us s)"
  by (simp add: proc_of_def)

lemma option_eqI: "(\<And>v. x = Some v \<longleftrightarrow> y = Some v) \<Longrightarrow> x = y"
  by (cases x; cases y) auto

text \<open>The three ways the table changes: a process in its slot, a new one in a free slot, a slot
  given back.\<close>

lemma set_proc_ok:
  assumes ok: "userspace_ok us" and s: "find_by_pid us pid = Some s" and p: "user_process_ok us p" "up_pid p = pid"
  shows "userspace_ok (set_proc s p us)" and "proc_of (set_proc s p us) = (proc_of us)(pid \<mapsto> p)"
proof -
  note f = find_by_pid_Some [OF s]
  have len: "s < UP_MAX_PROCESSES" "length (ut_slots us) = UP_MAX_PROCESSES" using f ok by (auto simp: userspace_ok_def)
  show ok': "userspace_ok (set_proc s p us)"
    using ok p f len unfolding userspace_ok_def
    by (simp add: set_proc_def nth_list_update user_process_ok_def) metis
  show "proc_of (set_proc s p us) = (proc_of us)(pid \<mapsto> p)"
  proof (intro ext option_eqI)
    fix q v
    have "q \<noteq> pid \<Longrightarrow> (up_pid v = q \<and> (\<exists>i < UP_MAX_PROCESSES. (ut_slots us)[s := Some p] ! i = Some v)) =
        (up_pid v = q \<and> (\<exists>i < UP_MAX_PROCESSES. ut_slots us ! i = Some v))"
      using f p(2) len by (metis nth_list_update_eq nth_list_update_neq option.inject)
    moreover have "(up_pid v = pid \<and> (\<exists>i < UP_MAX_PROCESSES. (ut_slots us)[s := Some p] ! i = Some v)) \<longleftrightarrow> v = p"
      using f p(2) len ok unfolding userspace_ok_def by (metis nth_list_update_eq nth_list_update_neq option.inject)
    ultimately show "proc_of (set_proc s p us) q = Some v \<longleftrightarrow> ((proc_of us)(pid \<mapsto> p)) q = Some v"
      unfolding proc_of_iff [OF ok'] using proc_of_iff [OF ok, of q v] by (auto simp: set_proc_def)
  qed
qed

lemma next_pid_bump:
  assumes ok: "userspace_ok us" and n: "ut_next_pid us + 1 \<noteq> 0"
  shows "userspace_ok (us\<lparr>ut_next_pid := ut_next_pid us + 1\<rparr>)" and "proc_of (us\<lparr>ut_next_pid := ut_next_pid us + 1\<rparr>) = proc_of us"
proof -
  have "x < ut_next_pid us + 1" if "x < ut_next_pid us" for x
    using that n by (simp add: word_less_nat_alt unatSuc add.commute [of _ 1])
  then show "userspace_ok (us\<lparr>ut_next_pid := ut_next_pid us + 1\<rparr>)"
    using ok by (auto simp: userspace_ok_def user_process_ok_def)
  show "proc_of (us\<lparr>ut_next_pid := ut_next_pid us + 1\<rparr>) = proc_of us"
    by (simp add: proc_of_def find_by_pid_def proc_at_def [abs_def] fun_eq_iff)
qed


lemma insert_proc_ok:
  assumes ok: "userspace_ok us" and n: "ut_next_pid us + 1 \<noteq> 0" and us1: "us1 = us\<lparr>ut_next_pid := ut_next_pid us + 1\<rparr>"
    and s: "find_slot us1 = Some s" and p: "up_pid p = ut_next_pid us" "ut_next_pid us \<noteq> 0" "length (up_fds p) = MAX_PROC_FDS" "\<not> is_exited p"
  shows "userspace_ok (set_proc s p us1)" and "proc_of (set_proc s p us1) = (proc_of us)(ut_next_pid us \<mapsto> p)"
    and "proc_of us (ut_next_pid us) = None"
proof -
  note ok1 = next_pid_bump [OF ok n, folded us1]
  have slot: "s < UP_MAX_PROCESSES" "ut_slots us ! s = None" "length (ut_slots us) = UP_MAX_PROCESSES"
    using position_SomeD [OF s [unfolded find_slot_def]] ok by (auto simp: us1 userspace_ok_def)
  have old: "up_pid q < ut_next_pid us" if "i < UP_MAX_PROCESSES" "ut_slots us ! i = Some q" for i q
    using ok that by (auto simp: userspace_ok_def user_process_ok_def)
  have lt: "ut_next_pid us < ut_next_pid us + 1" using n by (simp add: word_less_nat_alt unatSuc add.commute [of _ 1])
  show ok': "userspace_ok (set_proc s p us1)"
    using ok1(1) p slot lt old unfolding userspace_ok_def
    by (auto simp: set_proc_def nth_list_update user_process_ok_def us1 split: if_splits; metis less_irrefl)
  show "proc_of us (ut_next_pid us) = None"
    using old proc_of_iff [OF ok, of "ut_next_pid us"] by (cases "proc_of us (ut_next_pid us)") (simp_all, metis less_irrefl)
  then show "proc_of (set_proc s p us1) = (proc_of us)(ut_next_pid us \<mapsto> p)"
  proof (intro ext option_eqI)
    fix q v
    assume none: "proc_of us (ut_next_pid us) = None"
    have "(\<exists>i < UP_MAX_PROCESSES. (ut_slots us)[s := Some p] ! i = Some v) \<longleftrightarrow> v = p \<or> (\<exists>i < UP_MAX_PROCESSES. ut_slots us ! i = Some v)"
      using slot by (metis nth_list_update_eq nth_list_update_neq option.inject option.distinct(1))
    then show "proc_of (set_proc s p us1) q = Some v \<longleftrightarrow> ((proc_of us)(ut_next_pid us \<mapsto> p)) q = Some v"
      unfolding proc_of_iff [OF ok'] using proc_of_iff [OF ok, of q v] none old p(1) by (auto simp: set_proc_def us1)
  qed
qed

lemma clear_slot_ok:
  assumes ok: "userspace_ok us" and s: "find_by_pid us pid = Some s"
  shows "userspace_ok (us\<lparr>ut_slots := (ut_slots us)[s := None]\<rparr>)"
    and "proc_of (us\<lparr>ut_slots := (ut_slots us)[s := None]\<rparr>) = (proc_of us)(pid := None)"
proof -
  note f = find_by_pid_Some [OF s]
  have len: "s < UP_MAX_PROCESSES" "length (ut_slots us) = UP_MAX_PROCESSES" using f ok by (auto simp: userspace_ok_def)
  show ok': "userspace_ok (us\<lparr>ut_slots := (ut_slots us)[s := None]\<rparr>)"
    using ok len unfolding userspace_ok_def user_process_ok_def by (simp add: nth_list_update)
  show "proc_of (us\<lparr>ut_slots := (ut_slots us)[s := None]\<rparr>) = (proc_of us)(pid := None)"
  proof (intro ext option_eqI)
    fix q v
    have "(up_pid v = q \<and> (\<exists>i < UP_MAX_PROCESSES. (ut_slots us)[s := None] ! i = Some v)) =
        (q \<noteq> pid \<and> up_pid v = q \<and> (\<exists>i < UP_MAX_PROCESSES. ut_slots us ! i = Some v))"
      using f len ok unfolding userspace_ok_def by (metis nth_list_update_eq nth_list_update_neq option.inject option.distinct(1))
    then show "proc_of (us\<lparr>ut_slots := (ut_slots us)[s := None]\<rparr>) q = Some v \<longleftrightarrow> ((proc_of us)(pid := None)) q = Some v"
      unfolding proc_of_iff [OF ok'] using proc_of_iff [OF ok, of q v] by auto
  qed
qed

text \<open>The fields outside the table do not matter to the invariant.\<close>

lemma same_table:
  assumes "ut_slots us' = ut_slots us" and "ut_next_pid us' = ut_next_pid us"
  shows "userspace_ok us' = userspace_ok us" and "proc_of us' = proc_of us"
  using assms by (simp_all add: userspace_ok_def user_process_ok_def proc_of_def find_by_pid_def proc_at_def [abs_def] fun_eq_iff)


section \<open>Histories\<close>

text \<open>Every call that changes the table, with the memory it works on.\<close>

inductive up_step ::
  "('m \<Rightarrow> nat \<Rightarrow> nat \<Rightarrow> u64 \<Rightarrow> prealloc \<Rightarrow> map_result \<times> 'm \<times> prealloc) \<Rightarrow> ('m \<Rightarrow> nat \<Rightarrow> nat option \<times> 'm)
    \<Rightarrow> u8 list \<times> u8 list \<Rightarrow> userspace \<times> 'm machine \<Rightarrow> userspace \<times> 'm machine \<Rightarrow> bool"
  for map_to unmap libc where
  create: "up_create_process map_to unmap libc us mc name elf = Some (r, us', mc') \<Longrightarrow> up_step map_to unmap libc (us, mc) (us', mc')"
| libc: "ensure_libc_loaded map_to unmap libc us mc = (r, us', mc') \<Longrightarrow> up_step map_to unmap libc (us, mc) (us', mc')"
| brk: "handle_brk map_to unmap us mc pid new_brk = Some (r, us', mc') \<Longrightarrow> up_step map_to unmap libc (us, mc) (us', mc')"
| fd_open: "proc_open us pid path flags = (r, us') \<Longrightarrow> up_step map_to unmap libc (us, mc) (us', mc)"
| fd_close: "proc_close us pid fd = (r, us') \<Longrightarrow> up_step map_to unmap libc (us, mc) (us', mc)"
| fd_dup2: "proc_dup2 us pid oldfd newfd = (r, us') \<Longrightarrow> up_step map_to unmap libc (us, mc) (us', mc)"
| fork: "fork_process us pid = (r, us') \<Longrightarrow> up_step map_to unmap libc (us, mc) (us', mc)"
| clone: "clone_thread us pid sp = Some (r, us') \<Longrightarrow> up_step map_to unmap libc (us, mc) (us', mc)"
| kill: "up_kill_process us pid = (r, us') \<Longrightarrow> up_step map_to unmap libc (us, mc) (us', mc)"
| wait: "wait_process us pid = (r, us') \<Longrightarrow> up_step map_to unmap libc (us, mc) (us', mc)"
| exit: "exit_process us pid code = us' \<Longrightarrow> up_step map_to unmap libc (us, mc) (us', mc)"
| enter: "enter_userspace us cr3 pid = Some (regs, us') \<Longrightarrow> up_step map_to unmap libc (us, mc) (us', mc)"
| return: "return_to_kernel us = (r, us') \<Longrightarrow> up_step map_to unmap libc (us, mc) (us', mc)"
| pending: "up_step map_to unmap libc (us, mc) (us\<lparr>ut_pending := pid\<rparr>, mc)"

text \<open>\<open>up_run n s s'\<close>: a history of \<open>n\<close> calls leads from \<open>s\<close> to \<open>s'\<close>.\<close>

inductive up_run ::
  "('m \<Rightarrow> nat \<Rightarrow> nat \<Rightarrow> u64 \<Rightarrow> prealloc \<Rightarrow> map_result \<times> 'm \<times> prealloc) \<Rightarrow> ('m \<Rightarrow> nat \<Rightarrow> nat option \<times> 'm)
    \<Rightarrow> u8 list \<times> u8 list \<Rightarrow> nat \<Rightarrow> userspace \<times> 'm machine \<Rightarrow> userspace \<times> 'm machine \<Rightarrow> bool"
  for map_to unmap libc where
  none: "up_run map_to unmap libc 0 s s"
| more: "up_run map_to unmap libc n s s1 \<Longrightarrow> up_step map_to unmap libc s1 s2 \<Longrightarrow> up_run map_to unmap libc (Suc n) s s2"

text \<open>What a step may do: keep the identifiers, add the next one, or drop one.\<close>

definition pids_step :: "userspace \<Rightarrow> userspace \<Rightarrow> bool" where
  "pids_step us us' \<longleftrightarrow>
     dom (proc_of us') \<subseteq> dom (proc_of us) \<and> (ut_next_pid us' = ut_next_pid us \<or> ut_next_pid us' = ut_next_pid us + 1) \<or>
     dom (proc_of us') = insert (ut_next_pid us) (dom (proc_of us)) \<and> ut_next_pid us' = ut_next_pid us + 1"

lemma new_process_fields [simp]:
  "up_pid (user_process_new pid name) = pid" "length (up_fds (user_process_new pid name)) = MAX_PROC_FDS"
  "\<not> is_exited (user_process_new pid name)"
  by (simp_all add: user_process_new_def is_exited_def)

lemma set_proc_step:
  assumes "userspace_ok us" and "find_by_pid us pid = Some s" and "user_process_ok us p" and "up_pid p = pid"
  shows "userspace_ok (set_proc s p us) \<and> pids_step us (set_proc s p us)"
proof -
  have "proc_of us pid \<noteq> None" using assms(2) by (simp add: proc_of_def)
  then show ?thesis using set_proc_ok [OF assms] by (auto simp: pids_step_def set_proc_def)
qed

lemma insert_proc_step:
  assumes "userspace_ok us" and "ut_next_pid us + 1 \<noteq> 0" and "ut_next_pid us \<noteq> 0"
    and "find_slot (us\<lparr>ut_next_pid := ut_next_pid us + 1\<rparr>) = Some s"
    and "up_pid p = ut_next_pid us" "length (up_fds p) = MAX_PROC_FDS" "\<not> is_exited p"
  shows "userspace_ok (set_proc s p (us\<lparr>ut_next_pid := ut_next_pid us + 1\<rparr>)) \<and>
    pids_step us (set_proc s p (us\<lparr>ut_next_pid := ut_next_pid us + 1\<rparr>))"
  using insert_proc_ok [OF assms(1,2) refl assms(4,5,3,6,7)] by (auto simp: pids_step_def set_proc_def)

lemma bump_step:
  assumes "userspace_ok us" and "ut_next_pid us + 1 \<noteq> 0"
  shows "userspace_ok (us\<lparr>ut_next_pid := ut_next_pid us + 1\<rparr>) \<and> pids_step us (us\<lparr>ut_next_pid := ut_next_pid us + 1\<rparr>)"
  using next_pid_bump [OF assms] by (auto simp: pids_step_def)

lemma same_table_step:
  assumes "userspace_ok us \<and> pids_step us0 us" and "ut_slots us' = ut_slots us" and "ut_next_pid us' = ut_next_pid us"
  shows "userspace_ok us' \<and> pids_step us0 us'"
  using assms same_table [OF assms(2,3)] by (simp add: pids_step_def)

lemma refl_step: "userspace_ok us \<Longrightarrow> userspace_ok us \<and> pids_step us us"
  by (simp add: pids_step_def)

lemma found_ok:
  assumes "userspace_ok us" and "find_by_pid us pid = Some s"
  shows "user_process_ok us (proc_at us s)" and "up_pid (proc_at us s) = pid"
  using proc_of_ok [OF assms(1) find_by_pid_proc_of [OF assms(2)]] by auto


lemma ensure_libc_us: "ensure_libc_loaded map_to unmap libc us mc = (r, us', mc') \<Longrightarrow> \<exists>b. us' = us\<lparr>ut_libc_loaded := b\<rparr>"
  by (auto simp: ensure_libc_loaded_def split: if_splits prod.splits sum.splits intro: exI [of _ "ut_libc_loaded us"] exI [of _ True])

lemma create_cases:
  assumes c: "up_create_process map_to unmap libc us mc name elf_data = Some (r, us', mc')"
  obtains (rejected) e where "parse_elf64 elf_data = Some (Err e)" "r = Err e" "us' = us" "mc' = mc"
  | (failed) e where "r = Err e" "us' = us\<lparr>ut_next_pid := ut_next_pid us + 1\<rparr>"
  | (created) elf top mc1 s p b where "parse_elf64 elf_data = Some (Ok elf)"
      "load_image map_to unmap elf_data elf mc = Some (Ok top, mc1)"
      "find_slot (us\<lparr>ut_next_pid := ut_next_pid us + 1\<rparr>) = Some s"
      "p = (user_process_new (ut_next_pid us) name)\<lparr>up_entry := elf_entry elf, up_brk := of_nat top\<rparr>"
      "us' = (set_proc s p (us\<lparr>ut_next_pid := ut_next_pid us + 1\<rparr>))\<lparr>ut_libc_loaded := b\<rparr>"
      "name \<notin> set libc_programs \<Longrightarrow> r = Ok (ut_next_pid us) \<and> mc' = mc1"
proof -
  let ?us = "us\<lparr>ut_next_pid := ut_next_pid us + 1\<rparr>"
  obtain pr where pr: "parse_elf64 elf_data = Some pr" using c by (cases "parse_elf64 elf_data") (auto simp: up_create_process_def)
  show thesis
  proof (cases pr)
    case (Inl e)
    then show thesis using c pr rejected by (simp add: up_create_process_def)
  next
    case (Inr elf)
    obtain lr mc1 where l: "load_image map_to unmap elf_data elf mc = Some (lr, mc1)"
      using c pr Inr by (cases "load_image map_to unmap elf_data elf mc") (auto simp: up_create_process_def Let_def)
    show thesis
    proof (cases lr)
      case (Inl e)
      then show thesis using c pr Inr l failed [of e] by (auto simp: up_create_process_def Let_def)
    next
      case top: (Inr top)
      define p where "p = (user_process_new (ut_next_pid us) name)\<lparr>up_entry := elf_entry elf, up_brk := of_nat top\<rparr>"
      have p: "(user_process_new (ut_next_pid us) name)\<lparr>up_page_table := 0, up_entry := elf_entry elf,
          up_stack_top := USER_STACK_TOP, up_brk := of_nat top\<rparr> = p" by (simp add: p_def user_process_new_def)
      show thesis
      proof (cases "find_slot ?us")
        case None
        then show thesis using c pr Inr l top failed by (auto simp: up_create_process_def Let_def)
      next
        case (Some s)
        obtain er us2 mc2 where e: "ensure_libc_loaded map_to unmap libc (set_proc s p ?us) mc1 = (er, us2, mc2)"
          using prod_cases3 by blast
        obtain b where "us2 = (set_proc s p ?us)\<lparr>ut_libc_loaded := b\<rparr>" using ensure_libc_us [OF e] by blast
        moreover have same: "set_proc s p ?us = (set_proc s p ?us)\<lparr>ut_libc_loaded := ut_libc_loaded us\<rparr>" by (simp add: set_proc_def)
        moreover have "us' = (if name \<in> set libc_programs then us2 else set_proc s p ?us)"
          "name \<notin> set libc_programs \<Longrightarrow> r = Ok (ut_next_pid us) \<and> mc' = mc1"
          using c pr Inr l top Some e p by (auto simp: up_create_process_def Let_def split: sum.splits if_splits)
        ultimately show thesis
          using created [OF pr [unfolded Inr] l [unfolded top] Some p_def] by metis
      qed
    qed
  qed
qed

lemma create_step:
  assumes ok: "userspace_ok us" and n: "ut_next_pid us + 1 \<noteq> 0" "ut_next_pid us \<noteq> 0"
    and c: "up_create_process map_to unmap libc us mc name elf_data = Some (r, us', mc')"
  shows "userspace_ok us' \<and> pids_step us us'"
  using c
proof (cases rule: create_cases)
  case (rejected e)
  then show ?thesis using refl_step [OF ok] by simp
next
  case (failed e)
  then show ?thesis using bump_step [OF ok n(1)] by simp
next
  case (created elf top mc1 s p b)
  then have "up_pid p = ut_next_pid us" "length (up_fds p) = MAX_PROC_FDS" "\<not> is_exited p"
    by (simp_all add: user_process_new_def is_exited_def)
  from insert_proc_step [OF ok n created(3) this] show ?thesis by (rule same_table_step) (simp_all add: created(5))
qed

lemma user_process_ok_update:
  "user_process_ok us p \<Longrightarrow> length fds = MAX_PROC_FDS \<Longrightarrow> user_process_ok us (p\<lparr>up_fds := fds\<rparr>)"
  "user_process_ok us p \<Longrightarrow> user_process_ok us (p\<lparr>up_brk := b\<rparr>)"
  "user_process_ok us p \<Longrightarrow> user_process_ok us (p\<lparr>up_state := UpExited, up_exit_code := Some c\<rparr>)"
  "user_process_ok us p \<Longrightarrow> user_process_ok us (p\<lparr>up_state := UpRunning\<rparr>)"
  "user_process_ok us p \<Longrightarrow> length (up_fds p) = MAX_PROC_FDS"
  by (simp_all add: user_process_ok_def is_exited_def)

lemma spawned_cases:
  assumes "fork_process us pid = (r, us') \<or> clone_thread us pid sp = Some (r, us')"
  obtains (same) e where "us' = us" "r = Err e"
  | (failed) e where "us' = us\<lparr>ut_next_pid := ut_next_pid us + 1\<rparr>" "r = Err e"
  | (spawned) slot s p where "find_by_pid us pid = Some slot" "find_slot (us\<lparr>ut_next_pid := ut_next_pid us + 1\<rparr>) = Some s"
      "up_pid p = ut_next_pid us" "up_fds p = up_fds (proc_at us slot)" "\<not> is_exited p" "r = Ok (ut_next_pid us)"
      "us' = set_proc s p (us\<lparr>ut_next_pid := ut_next_pid us + 1\<rparr>)"
proof -
  let ?us = "us\<lparr>ut_next_pid := ut_next_pid us + 1\<rparr>"
  have at: "proc_at ?us = proc_at us" by (simp add: proc_at_def fun_eq_iff)
  show thesis
  proof (cases "find_by_pid us pid")
    case None
    then show thesis using assms same by (auto simp: fork_process_def clone_thread_def)
  next
    case slot: (Some slot)
    show thesis
    proof (cases "find_slot ?us")
      case None
      then show thesis using assms slot failed by (auto simp: fork_process_def clone_thread_def Let_def)
    next
      case (Some s)
      from assms obtain p where "us' = set_proc s p ?us" "r = Ok (ut_next_pid us)" "up_pid p = ut_next_pid us"
        "up_fds p = up_fds (proc_at us slot)" "up_state p = UpReady"
        using slot Some by (auto simp: fork_process_def clone_thread_def Let_def at split: if_splits)
      then show thesis using spawned [OF slot Some] by (auto simp: is_exited_def)
    qed
  qed
qed

lemma spawned_step:
  assumes ok: "userspace_ok us" and n: "ut_next_pid us + 1 \<noteq> 0" "ut_next_pid us \<noteq> 0"
    and f: "fork_process us pid = (r, us') \<or> clone_thread us pid sp = Some (r, us')"
  shows "userspace_ok us' \<and> pids_step us us'"
  using f
proof (cases rule: spawned_cases)
  case (same e)
  then show ?thesis using refl_step [OF ok] by simp
next
  case (failed e)
  then show ?thesis using bump_step [OF ok n(1)] by simp
next
  case (spawned slot s p)
  have "length (up_fds p) = MAX_PROC_FDS" using found_ok(1) [OF ok spawned(1)] spawned(4) by (simp add: user_process_ok_def)
  then show ?thesis using insert_proc_step [OF ok n spawned(2,3) _ spawned(5)] spawned(7) by simp
qed

lemma found_fds:
  assumes "userspace_ok us" and "find_by_pid us pid = Some s"
  shows "length (up_fds (proc_at us s)) = MAX_PROC_FDS"
    and "length fds = MAX_PROC_FDS \<Longrightarrow> userspace_ok (set_proc s ((proc_at us s)\<lparr>up_fds := fds\<rparr>) us) \<and>
      pids_step us (set_proc s ((proc_at us s)\<lparr>up_fds := fds\<rparr>) us)"
  using found_ok [OF assms] set_proc_step [OF assms] user_process_ok_update(1,5) by auto

lemma up_step_ok:
  assumes "up_step map_to unmap libc s s'" and "userspace_ok (fst s)"
    and "ut_next_pid (fst s) + 1 \<noteq> 0" and "ut_next_pid (fst s) \<noteq> 0"
  shows "userspace_ok (fst s') \<and> pids_step (fst s) (fst s')"
  using assms
proof (induction rule: up_step.induct)
  case (create us mc name elf r us' mc')
  then show ?case using create_step [OF _ _ _ create.hyps] by simp
next
  case (libc us mc r us' mc')
  then show ?case using same_table_step [OF refl_step] by (auto simp: ensure_libc_loaded_def split: if_splits sum.splits prod.splits)
next
  case (brk us mc pid new_brk r us' mc')
  then show ?case
    using refl_step set_proc_step [OF brk.prems(1) [simplified]] found_ok [OF brk.prems(1) [simplified]] user_process_ok_update(2)
    by (auto simp: handle_brk_def Let_def split: option.splits if_splits bool.splits prod.splits)
next
  case (fd_open us pid path flags r us' mc)
  then show ?case
    using refl_step found_fds [OF fd_open.prems(1) [simplified], of pid]
    by (auto simp: proc_open_def Let_def split: option.splits)
next
  case (fd_close us pid fd r us' mc)
  then show ?case
    using refl_step found_fds [OF fd_close.prems(1) [simplified], of pid]
    by (auto simp: proc_close_def Let_def split: option.splits if_splits)
next
  case (fd_dup2 us pid oldfd newfd r us' mc)
  then show ?case
    using refl_step found_fds [OF fd_dup2.prems(1) [simplified], of pid]
    by (auto simp: proc_dup2_def Let_def split: option.splits if_splits)
next
  case (fork us pid r us' mc)
  then show ?case using spawned_step [of us pid r us'] by auto
next
  case (clone us pid sp r us' mc)
  then show ?case using spawned_step [of us pid r us' sp] by auto
next
  case (kill us pid r us' mc)
  then show ?case
    using refl_step set_proc_step [OF kill.prems(1) [simplified]] found_ok [OF kill.prems(1) [simplified]] user_process_ok_update(3)
    by (auto simp: up_kill_process_def split: option.splits)
next
  case (wait us pid r us' mc)
  then show ?case
    using refl_step clear_slot_ok [of us pid]
    by (auto simp: wait_process_def Let_def pids_step_def split: option.splits if_splits)
next
  case (exit us pid code us' mc)
  define us1 where "us1 = (case find_by_pid us pid of None \<Rightarrow> us
      | Some slot \<Rightarrow> set_proc slot ((proc_at us slot)\<lparr>up_state := UpExited, up_exit_code := Some code\<rparr>) us)"
  have "userspace_ok us1 \<and> pids_step us us1"
    using refl_step set_proc_step [OF exit.prems(1) [simplified]] found_ok [OF exit.prems(1) [simplified]] user_process_ok_update(3) exit.prems(1)
    by (auto simp: us1_def split: option.splits)
  moreover have "us' = (if ut_current us1 = pid then us1\<lparr>ut_current := 0\<rparr> else us1)"
    using exit.hyps unfolding exit_process_def us1_def by (simp add: Let_def)
  then have "ut_slots us' = ut_slots us1" "ut_next_pid us' = ut_next_pid us1" by auto
  ultimately show ?case using same_table_step [of us1 us us'] by simp
next
  case (enter us cr3 pid regs us' mc)
  obtain s where s: "find_by_pid us pid = Some s" using enter.hyps by (auto simp: enter_userspace_def split: option.splits)
  let ?us = "set_proc s ((proc_at us s)\<lparr>up_state := UpRunning\<rparr>) us"
  have "userspace_ok ?us \<and> pids_step us ?us"
    using set_proc_step [OF enter.prems(1) [simplified] s] found_ok [OF enter.prems(1) [simplified] s] user_process_ok_update(4) by simp
  moreover have "ut_slots us' = ut_slots ?us" "ut_next_pid us' = ut_next_pid ?us"
    using enter.hyps s by (auto simp: enter_userspace_def Let_def split: if_splits)
  ultimately show ?case using same_table_step [of ?us us us'] by simp
next
  case (return us r us' mc)
  then show ?case using same_table_step [OF refl_step] by (auto simp: return_to_kernel_def Let_def split: if_splits)
next
  case (pending us mc pid)
  then show ?case using same_table_step [OF refl_step] by auto
qed


text \<open>Identifiers grow by at most one per call, and one that is gone does not come back.\<close>

lemma up_run_ok:
  assumes "up_run map_to unmap libc n s s'" and "userspace_ok (fst s)" and "ut_next_pid (fst s) \<noteq> 0"
    and "unat (ut_next_pid (fst s)) + n < 2 ^ 32"
  shows "userspace_ok (fst s') \<and> unat (ut_next_pid (fst s)) \<le> unat (ut_next_pid (fst s')) \<and>
    unat (ut_next_pid (fst s')) \<le> unat (ut_next_pid (fst s)) + n \<and>
    (\<forall>pid < ut_next_pid (fst s). proc_of (fst s) pid = None \<longrightarrow> proc_of (fst s') pid = None)"
  using assms
proof (induction rule: up_run.induct)
  case (none s)
  then show ?case by simp
next
  case (more n s s1 s2)
  let ?k = "ut_next_pid (fst s1)"
  have IH: "userspace_ok (fst s1)" "unat (ut_next_pid (fst s)) \<le> unat ?k" "unat ?k \<le> unat (ut_next_pid (fst s)) + n"
    "\<forall>pid < ut_next_pid (fst s). proc_of (fst s) pid = None \<longrightarrow> proc_of (fst s1) pid = None"
    using more by auto
  have nz: "?k \<noteq> 0" using IH(2) more.prems(2) by (auto simp: unat_eq_0)
  have lt: "unat ?k + 1 < 2 ^ 32" using IH(3) more.prems(3) by simp
  then have suc: "unat (?k + 1) = Suc (unat ?k)" by (simp add: unat_word_ariths)
  then have "?k + 1 \<noteq> 0" by auto
  then have st: "userspace_ok (fst s2)" "pids_step (fst s1) (fst s2)" using up_step_ok [OF more.hyps(2) IH(1) _ nz] by auto
  have k2: "ut_next_pid (fst s2) = ?k \<or> ut_next_pid (fst s2) = ?k + 1" using st(2) by (auto simp: pids_step_def)
  have "proc_of (fst s2) pid = None" if "pid < ut_next_pid (fst s)" "proc_of (fst s) pid = None" for pid
  proof -
    have "pid \<noteq> ?k" using that(1) IH(2) by (auto simp: word_less_nat_alt)
    moreover have "proc_of (fst s1) pid = None" using IH(4) that by blast
    ultimately show ?thesis using st(2) by (auto simp: pids_step_def)
  qed
  then show ?case using st(1) k2 suc IH(2,3) by auto
qed

section \<open>Descriptor tables\<close>

text \<open>What the descriptor calls promise: every process has a private finite map from descriptors to
  entries.\<close>

type_synonym fd_maps = "u32 \<Rightarrow> (usize \<Rightarrow> proc_fd_entry option) option"

definition fds_of :: "userspace \<Rightarrow> fd_maps" where
  "fds_of us = (\<lambda>pid. map_option (\<lambda>p fd. if fd < MAX_PROC_FDS then up_fds p ! fd else None) (proc_of us pid))"

datatype fd_call = FdcOpen u32 str u32 | FdcClose u32 usize | FdcDup2 u32 usize usize
  | FdcFork u32 | FdcClone u32 u64 | FdcKill u32 | FdcExit u32 u32 | FdcWait u32

datatype fd_out = OFd "usize result" | OUnit "unit result" | OPid "u32 result" | OCode "u32 option"

definition fd_call_step :: "userspace \<Rightarrow> fd_call \<Rightarrow> (fd_out \<times> userspace) option" where
  "fd_call_step us c =
     (case c of
        FdcOpen pid path flags \<Rightarrow> Some (apfst OFd (proc_open us pid path flags))
      | FdcClose pid fd \<Rightarrow> Some (apfst OUnit (proc_close us pid fd))
      | FdcDup2 pid oldfd newfd \<Rightarrow> Some (apfst OFd (proc_dup2 us pid oldfd newfd))
      | FdcFork pid \<Rightarrow> Some (apfst OPid (fork_process us pid))
      | FdcClone pid sp \<Rightarrow> map_option (apfst OPid) (clone_thread us pid sp)
      | FdcKill pid \<Rightarrow> Some (apfst OUnit (up_kill_process us pid))
      | FdcExit pid code \<Rightarrow> Some (OUnit (Ok ()), exit_process us pid code)
      | FdcWait pid \<Rightarrow> Some (apfst OCode (wait_process us pid)))"

definition new_entry :: "str \<Rightarrow> u32 \<Rightarrow> proc_fd_entry" where
  "new_entry path flags = \<lparr>fe_path = path, fe_offset = 0, fe_flags = flags, fe_kind = proc_kind_of path\<rparr>"

definition child_of :: "fd_maps \<Rightarrow> u32 \<Rightarrow> u32 result \<Rightarrow> fd_maps \<Rightarrow> bool" where
  "child_of t pid r t' \<longleftrightarrow>
     (case t pid of
        None \<Rightarrow> r = Err ''parent not found'' \<and> t' = t
      | Some m \<Rightarrow>
          r = Err ''process table full'' \<and> t' = t \<and> card (dom t) = UP_MAX_PROCESSES \<or>
          (\<exists>c. r = Ok c \<and> t c = None \<and> t' = t(c \<mapsto> m)))"

fun fd_spec :: "fd_maps \<Rightarrow> fd_call \<Rightarrow> fd_out \<Rightarrow> fd_maps \<Rightarrow> bool" where
  "fd_spec t (FdcOpen pid path flags) out t' \<longleftrightarrow>
     (case t pid of
        None \<Rightarrow> out = OFd (Err ''no such process'') \<and> t' = t
      | Some m \<Rightarrow>
          (\<forall>i. 3 \<le> i \<and> i < MAX_PROC_FDS \<longrightarrow> m i \<noteq> None) \<and> out = OFd (Err ''too many open files'') \<and> t' = t \<or>
          (\<exists>fd. 3 \<le> fd \<and> fd < MAX_PROC_FDS \<and> m fd = None \<and> (\<forall>i. 3 \<le> i \<and> i < fd \<longrightarrow> m i \<noteq> None) \<and>
             out = OFd (Ok fd) \<and> t' = t(pid \<mapsto> m(fd \<mapsto> new_entry path flags))))"
| "fd_spec t (FdcClose pid fd) out t' \<longleftrightarrow>
     (case t pid of
        None \<Rightarrow> out = OUnit (Err ''no such process'') \<and> t' = t
      | Some m \<Rightarrow>
          if fd \<ge> MAX_PROC_FDS then out = OUnit (Err ''invalid fd'') \<and> t' = t
          else if m fd = None then out = OUnit (Err ''fd not open'') \<and> t' = t
          else out = OUnit (Ok ()) \<and> t' = t(pid \<mapsto> m(fd := None)))"
| "fd_spec t (FdcDup2 pid oldfd newfd) out t' \<longleftrightarrow>
     (case t pid of
        None \<Rightarrow> out = OFd (Err ''no such process'') \<and> t' = t
      | Some m \<Rightarrow>
          if oldfd \<ge> MAX_PROC_FDS \<or> newfd \<ge> MAX_PROC_FDS then out = OFd (Err ''invalid fd'') \<and> t' = t
          else if m oldfd = None then out = OFd (Err ''oldfd not open'') \<and> t' = t
          else out = OFd (Ok newfd) \<and> t' = t(pid \<mapsto> m(newfd := m oldfd)))"
| "fd_spec t (FdcFork pid) out t' \<longleftrightarrow> (\<exists>r. out = OPid r \<and> child_of t pid r t')"
| "fd_spec t (FdcClone pid sp) out t' \<longleftrightarrow> (\<exists>r. out = OPid r \<and> child_of t pid r t')"
| "fd_spec t (FdcKill pid) out t' \<longleftrightarrow> t' = t \<and> (\<exists>r. out = OUnit r \<and> (r = Ok () \<longleftrightarrow> t pid \<noteq> None))"
| "fd_spec t (FdcExit pid code) out t' \<longleftrightarrow> t' = t"
| "fd_spec t (FdcWait pid) out t' \<longleftrightarrow>
     (\<exists>r. out = OCode r \<and> (if r = None then t' = t else t pid \<noteq> None \<and> t' = t(pid := None)))"

lemma full_table:
  assumes ok: "userspace_ok us" and f: "find_slot us = None"
  shows "card (dom (proc_of us)) = UP_MAX_PROCESSES"
proof -
  have all: "\<exists>p. ut_slots us ! i = Some p" if "i < UP_MAX_PROCESSES" for i
    using f ok that nth_mem [of i "ut_slots us"] by (auto simp: find_slot_def position_None userspace_ok_def)
  have "dom (proc_of us) = (\<lambda>i. up_pid (the (ut_slots us ! i))) ` {0..<UP_MAX_PROCESSES}"
  proof (rule set_eqI)
    fix pid
    have "pid \<in> dom (proc_of us) \<longleftrightarrow> (\<exists>i < UP_MAX_PROCESSES. \<exists>p. ut_slots us ! i = Some p \<and> up_pid p = pid)"
      by (auto simp: dom_def proc_of_iff [OF ok])
    also have "\<dots> \<longleftrightarrow> (\<exists>i < UP_MAX_PROCESSES. up_pid (the (ut_slots us ! i)) = pid)" using all by force
    finally show "pid \<in> dom (proc_of us) \<longleftrightarrow> pid \<in> (\<lambda>i. up_pid (the (ut_slots us ! i))) ` {0..<UP_MAX_PROCESSES}"
      by (auto simp: image_iff)
  qed
  moreover have "inj_on (\<lambda>i. up_pid (the (ut_slots us ! i))) {0..<UP_MAX_PROCESSES}"
    using all ok unfolding inj_on_def userspace_ok_def by (metis atLeastLessThan_iff option.sel)
  ultimately show ?thesis by (simp add: card_image)
qed

lemma dom_fds_of: "dom (fds_of us) = dom (proc_of us)"
  by (auto simp: fds_of_def dom_def)

lemma fds_of_update:
  "proc_of us' = (proc_of us)(pid \<mapsto> p) \<Longrightarrow> up_fds p = fds \<Longrightarrow>
     fds_of us' = (fds_of us)(pid \<mapsto> (\<lambda>fd. if fd < MAX_PROC_FDS then fds ! fd else None))"
  by (auto simp: fds_of_def fun_eq_iff)

lemma fds_of_set_fd:
  assumes ok: "userspace_ok us" and s: "find_by_pid us pid = Some s" and fd: "fd < MAX_PROC_FDS"
    and m: "fds_of us pid = Some m"
  shows "fds_of (set_proc s ((proc_at us s)\<lparr>up_fds := (up_fds (proc_at us s))[fd := e]\<rparr>) us) = (fds_of us)(pid \<mapsto> m(fd := e))"
proof -
  note len = found_fds(1) [OF ok s]
  have p: "user_process_ok us ((proc_at us s)\<lparr>up_fds := (up_fds (proc_at us s))[fd := e]\<rparr>)"
    using found_ok(1) [OF ok s] by (simp add: user_process_ok_def is_exited_def)
  have "m = (\<lambda>fd. if fd < MAX_PROC_FDS then up_fds (proc_at us s) ! fd else None)"
    using m s by (simp add: fds_of_def proc_of_def)
  then have "(\<lambda>i. if i < MAX_PROC_FDS then (up_fds (proc_at us s))[fd := e] ! i else None) = m(fd := e)"
    using len fd by (auto simp: fun_eq_iff)
  then show ?thesis
    using fds_of_update [OF set_proc_ok(2) [OF ok s p], of "(up_fds (proc_at us s))[fd := e]"] found_ok(2) [OF ok s] by simp
qed

lemma fds_of_found:
  assumes "find_by_pid us pid = Some s"
  shows "fds_of us pid = Some (\<lambda>fd. if fd < MAX_PROC_FDS then up_fds (proc_at us s) ! fd else None)"
  using assms by (simp add: fds_of_def proc_of_def)

lemma fds_of_lost: "find_by_pid us pid = None \<Longrightarrow> fds_of us pid = None"
  by (simp add: fds_of_def proc_of_def)

lemma child_refines:
  assumes ok: "userspace_ok us" and n: "ut_next_pid us + 1 \<noteq> 0" "ut_next_pid us \<noteq> 0"
    and f: "fork_process us pid = (r, us') \<or> clone_thread us pid sp = Some (r, us')"
  shows "child_of (fds_of us) pid r (fds_of us')"
proof (cases "find_by_pid us pid")
  case None
  then have "us' = us" "r = Err ''parent not found''" using f by (auto simp: fork_process_def clone_thread_def)
  then show ?thesis using fds_of_lost [OF None] by (simp add: child_of_def)
next
  case (Some slot)
  let ?us = "us\<lparr>ut_next_pid := ut_next_pid us + 1\<rparr>"
  note m = fds_of_found [OF Some]
  show ?thesis
  proof (cases "find_slot ?us")
    case None
    then have r: "us' = ?us" "r = Err ''process table full''"
      using f Some by (auto simp: fork_process_def clone_thread_def Let_def)
    moreover have "fds_of ?us = fds_of us" using next_pid_bump(2) [OF ok n(1)] by (simp add: fds_of_def)
    moreover have "card (dom (fds_of us)) = UP_MAX_PROCESSES"
      using full_table [OF next_pid_bump(1) [OF ok n(1)] None] next_pid_bump(2) [OF ok n(1)] by (simp add: dom_fds_of)
    ultimately show ?thesis using m by (simp add: child_of_def)
  next
    case free: (Some s)
    obtain p where p: "up_pid p = ut_next_pid us" "up_fds p = up_fds (proc_at us slot)" "\<not> is_exited p"
        "r = Ok (ut_next_pid us)" "us' = set_proc s p ?us"
    proof -
      have "\<exists>k. r = Ok k" using f Some free by (auto simp: fork_process_def clone_thread_def Let_def split: if_splits)
      then show thesis using f by (elim spawned_cases) (use that Some free in auto)
    qed
    have len: "length (up_fds p) = MAX_PROC_FDS" using found_fds(1) [OF ok Some] p(2) by simp
    note i = insert_proc_ok [OF ok n(1) refl free p(1) n(2) len p(3)]
    have "fds_of us (ut_next_pid us) = None" using i(3) by (simp add: fds_of_def)
    then show ?thesis using m p fds_of_update [OF i(2) p(2)] by (simp add: child_of_def)
  qed
qed


lemma same_fds:
  assumes "proc_of us' = (proc_of us)(pid \<mapsto> p)" and "proc_of us pid = Some q" and "up_fds p = up_fds q"
  shows "fds_of us' = fds_of us"
  using assms by (auto simp: fds_of_def fun_eq_iff)

lemma open_refines:
  assumes ok: "userspace_ok us" and c: "fd_call_step us (FdcOpen pid path flags) = Some (out, us')"
  shows "fd_spec (fds_of us) (FdcOpen pid path flags) out (fds_of us')"
proof (cases "find_by_pid us pid")
  case None
  then show ?thesis using c fds_of_lost [OF None] by (simp add: fd_call_step_def proc_open_def)
next
  case (Some s)
  note m = fds_of_found [OF Some]
  show ?thesis
  proof (cases "find (\<lambda>i. up_fds (proc_at us s) ! i = None) [3..<MAX_PROC_FDS]")
    case None
    then have "us' = us" "out = OFd (Err ''too many open files'')"
      using c Some by (auto simp: fd_call_step_def proc_open_def)
    then show ?thesis using m None by (auto simp: find_from_None)
  next
    case fd: (Some fd)
    then have "3 \<le> fd" "fd < MAX_PROC_FDS" "up_fds (proc_at us s) ! fd = None"
        "\<forall>i. 3 \<le> i \<and> i < fd \<longrightarrow> up_fds (proc_at us s) ! i \<noteq> None"
      by (auto simp: find_from)
    moreover have "us' = set_proc s ((proc_at us s)\<lparr>up_fds := (up_fds (proc_at us s))[fd := Some (new_entry path flags)]\<rparr>) us"
        "out = OFd (Ok fd)"
      using c Some fd by (auto simp: fd_call_step_def proc_open_def new_entry_def Let_def)
    ultimately show ?thesis using m fds_of_set_fd [OF ok Some _ m] by auto
  qed
qed

lemma exited_keeps_fds:
  assumes ok: "userspace_ok us" and s: "find_by_pid us pid = Some s"
  shows "fds_of (set_proc s ((proc_at us s)\<lparr>up_state := UpExited, up_exit_code := Some code\<rparr>) us) = fds_of us"
  using same_fds [OF set_proc_ok(2) [OF ok s] find_by_pid_proc_of [OF s]] found_ok [OF ok s] user_process_ok_update(3) by simp

lemma exit_keeps_fds:
  assumes ok: "userspace_ok us"
  shows "fds_of (exit_process us pid code) = fds_of us"
proof -
  define us1 where "us1 = (case find_by_pid us pid of None \<Rightarrow> us
      | Some slot \<Rightarrow> set_proc slot ((proc_at us slot)\<lparr>up_state := UpExited, up_exit_code := Some code\<rparr>) us)"
  have "fds_of us1 = fds_of us" using exited_keeps_fds [OF ok] by (auto simp: us1_def split: option.splits)
  moreover have "ut_slots (exit_process us pid code) = ut_slots us1" "ut_next_pid (exit_process us pid code) = ut_next_pid us1"
    by (auto simp: exit_process_def us1_def Let_def split: option.splits)
  ultimately show ?thesis using same_table(2) [of "exit_process us pid code" us1] by (simp add: fds_of_def)
qed

section \<open>Creating a process\<close>



text \<open>A machine with twenty free frames and nothing mapped, and a program that loops for ever.\<close>

definition spin_code :: "u8 list" where "spin_code = [0xEB, 0xFE]"

definition sample_frames :: memory where
  "sample_frames = memory_init \<lparr>mem_frames = None, mem_map = None, mem_phys_offset = 0\<rparr> 0x1000000
     [\<lparr>rg_start = 0, rg_end = 4096, rg_type = FrameZero\<rparr>, \<lparr>rg_start = 4096, rg_end = 86016, rg_type = Usable\<rparr>]"

definition sample_machine :: "(nat \<Rightarrow> nat option) machine" where
  "sample_machine = \<lparr>mc_frames = sample_frames, mc_tables = \<lambda>_. None, mc_ram = \<lambda>_. 0x55\<rparr>"

definition sample_translate :: "(nat \<Rightarrow> nat option) \<Rightarrow> nat \<Rightarrow> nat option" where
  "sample_translate pt p = pt p"

definition sample_unmap :: "(nat \<Rightarrow> nat option) \<Rightarrow> nat \<Rightarrow> nat option \<times> (nat \<Rightarrow> nat option)" where
  "sample_unmap pt p = (pt p, pt(p := None))"

definition sample_map_to :: "(nat \<Rightarrow> nat option) \<Rightarrow> nat \<Rightarrow> nat \<Rightarrow> u64 \<Rightarrow> prealloc \<Rightarrow> map_result \<times> (nat \<Rightarrow> nat option) \<times> prealloc" where
  "sample_map_to pt p f flags pre = (Mapped, pt(p := Some f), pre)"

lemma sample_mapper: "sound_mapper sample_translate sample_unmap sample_map_to"
  by (auto simp: sound_mapper_def sample_translate_def sample_unmap_def sample_map_to_def)

lemma sample_frames_rest: "mem_rest sample_frames = map (\<lambda>i. 4096 * Suc i) [0..<20]"
  by (simp add: sample_frames_def mem_rest_def memory_init_def remaining_init usable_frames_def region_frames.simps rg_size_def
      containing_address_def upt_rec)


lemma sample_machine_ok: "machine_ok sample_translate sample_machine"
  by (auto simp: machine_ok_def sample_machine_def sample_frames_rest sample_translate_def distinct_map inj_on_def)

definition spin_segment :: elf64_phdr where
  "spin_segment = \<lparr>p_type = PT_LOAD, p_flags = 5, p_offset = 120, p_vaddr = TEXT_BASE, p_filesz = 2, p_memsz = 2\<rparr>"

lemma spin_parsed: "parse_elf64 (build_elf64 spin_code) = Some (Ok \<lparr>elf_entry = TEXT_BASE, elf_segments = [spin_segment]\<rparr>)"
  using parse_build_elf64 [of spin_code] by (simp add: spin_code_def spin_segment_def)

lemma length_build_elf64: "length (build_elf64 code) = 120 + length code"
  by (simp add: build_elf64_def elf64_ehdr_bytes)

lemma spin_image:
  "image_ok (build_elf64 spin_code) \<lparr>elf_entry = TEXT_BASE, elf_segments = [spin_segment]\<rparr>"
  "filter loadable [spin_segment] = [spin_segment]" "seg_pages spin_segment = 1"
proof -
  have page: "page_of (unat TEXT_BASE) = 0x400000" by (simp add: page_of_def TEXT_BASE_def)
  have "q \<ge> 0x7FFFB000" if "stack_page q" for q
    using that by (auto simp: stack_page_def stack_addr_def STACK_PAGES_def USER_STACK_TOP_def)
  then have "\<not> stack_page q" if "seg_page spin_segment q" for q
    using that by (fastforce simp: seg_page_def seg_end_def spin_segment_def TEXT_BASE_def)
  moreover have "in_image (build_elf64 spin_code) spin_segment"
    by (simp add: in_image_def spin_segment_def length_build_elf64 spin_code_def TEXT_BASE_def)
  moreover show l: "filter loadable [spin_segment] = [spin_segment]" by (simp add: loadable_def spin_segment_def)
  ultimately show "image_ok (build_elf64 spin_code) \<lparr>elf_entry = TEXT_BASE, elf_segments = [spin_segment]\<rparr>"
    by (simp add: image_ok_def)
  show "seg_pages spin_segment = 1"
    by (simp add: seg_pages_def seg_end_def spin_segment_def page pages_between_def) (simp add: TEXT_BASE_def)
qed

lemma boot_empty: "proc_of userspace_boot = (\<lambda>_. None)"
proof
  fix pid
  show "proc_of userspace_boot pid = None"
    using proc_of_iff [OF userspace_boot_ok, of pid] by (cases "proc_of userspace_boot pid") (auto simp: userspace_boot_def)
qed

lemma spin_segs: "[spin_segment] = filter loadable (elf_segments \<lparr>elf_entry = TEXT_BASE, elf_segments = [spin_segment]\<rparr>)"
  by (simp add: loadable_def spin_segment_def)

lemma spin_room: "4 * (sum_list (map seg_pages [spin_segment]) + STACK_PAGES) \<le> length (mem_rest (mc_frames sample_machine))"
  by (simp add: spin_image STACK_PAGES_def sample_machine_def sample_frames_rest)

lemma sample_unmapped:
  "stack_page q \<or> (\<exists>seg \<in> set [spin_segment]. seg_page seg q) \<Longrightarrow> sample_translate (mc_tables sample_machine) q = None"
  by (simp add: sample_machine_def sample_translate_def)


section \<open>The properties of a history\<close>

text \<open>A history to look at: the program is created, and forks once.\<close>

definition spin_process :: "nat \<Rightarrow> user_process" where
  "spin_process mx = (user_process_new 1 ''spin'')\<lparr>up_entry := TEXT_BASE, up_brk := of_nat mx\<rparr>"

definition spin_created :: "nat \<Rightarrow> userspace" where
  "spin_created mx = userspace_boot\<lparr>ut_slots := (ut_slots userspace_boot)[0 := Some (spin_process mx)], ut_next_pid := 2\<rparr>"

lemma spin_create_step:
  "\<exists>top mc. up_step sample_map_to sample_unmap ([], []) (userspace_boot, sample_machine) (spin_created top, mc)"
proof -
  obtain top mc' where "load_image sample_map_to sample_unmap (build_elf64 spin_code) \<lparr>elf_entry = TEXT_BASE, elf_segments = [spin_segment]\<rparr> sample_machine =
      Some (Ok top, mc')"
    using load_image_bytes [where translate_page = sample_translate and mc = sample_machine, OF sample_mapper sample_machine_ok spin_image(1) spin_segs spin_room sample_unmapped] by metis
  moreover have "find_slot (userspace_boot\<lparr>ut_next_pid := 2\<rparr>) = Some 0" "ut_next_pid userspace_boot = 1"
    by (simp_all add: find_slot_def userspace_boot_def UP_MAX_PROCESSES_def numeral_eq_Suc)
  ultimately have "up_create_process sample_map_to sample_unmap ([], []) userspace_boot sample_machine ''spin'' (build_elf64 spin_code) =
      Some (Ok 1, spin_created top, mc')"
    by (simp add: up_create_process_def spin_parsed Let_def libc_programs_def set_proc_def spin_created_def spin_process_def user_process_new_def)
  then show ?thesis using up_step.create by blast
qed







section \<open>Findings\<close>

text \<open>The offset of a descriptor is never used: a read starts at the beginning of the file every
  time, so that two reads of a file give the same bytes.\<close>

lemma proc_read_from_start:
  assumes "proc_fd us pid fd = Ok e" and "fe_kind e = ProcVfsFile" and "cat env st (fe_path e) = (Ok content, st)" and "length buf \<le> length content"
  shows "proc_read env us st pid fd buf = ((Ok (length buf), take (length buf) (as_bytes content)), st)"
  using assms by (simp add: proc_read_def Let_def)

text \<open>The string operands of the built-in programs: the greeting is written without its newline,
  and two programs point past or before their text and jump into an instruction.\<close>

lemma hello_newline_cut: "take 31 (drop 37 HELLO_CODE) = butlast (drop 37 HELLO_CODE) \<and> HELLO_CODE ! 17 = 31 \<and> last (drop 37 HELLO_CODE) = 10"
  by code_simp

lemma counter_points_elsewhere:
  "drop 58 COUNTER_CODE = [0x74, 0x69, 0x63, 0x6B, 0x0A] \<and> 21 + unat (COUNTER_CODE ! 17) = 45 \<and>
   44 - (256 - unat (COUNTER_CODE ! 43)) = 1"
  by (simp add: COUNTER_CODE_def)

lemma getpid_points_elsewhere: "take 9 (drop 46 GETPID_CODE) = [0x67, 0x65, 0x74, 0x70, 0x69, 0x64, 0x20, 0x6F, 0x6B] \<and> 23 + unat (GETPID_CODE ! 19) = 41"
  by (simp add: GETPID_CODE_def)

text \<open>A program header table placed near the end of the address range is a kernel panic.\<close>

lemma bad_phoff_panics:
  "parse_elf64 (elf64_ehdr[32 := 0xFF, 33 := 0xFF, 34 := 0xFF, 35 := 0xFF, 36 := 0xFF, 37 := 0xFF, 38 := 0xFF, 39 := 0xFF]) = None"
  by (simp add: parse_elf64_def elf64_ehdr_bytes ELF_MAGIC_def le_u16_def le_u64_def le_u32_def u16_from_le_def u32_from_le_def
      ET_EXEC_def EM_X86_64_def upt_rec Let_def)

end
