(* ===== verification/Syscall_props.thy ===== *)
theory Syscall_props
  imports Syscall Userspace_props
begin

text \<open>
  What every system call keeps (\<^verbatim>\<open>src/syscall.rs\<close>). A predicate on the kernel's state that the modules'
  own operations keep is kept by \<^verbatim>\<open>dispatch\<close>: the locale \<open>kernel_pred\<close> states the laws of the operations,
  \<open>kernel_step\<close> adds the calls that change the process table, and its lemmas walk through the arms
  once. The invariant of the whole kernel and the isolation of credentials are interpretations.
\<close>

section \<open>The operations on the process table\<close>

text \<open>What one system call does to the process table. Only \<^verbatim>\<open>exec\<close> makes several calls.\<close>

inductive user_call :: "'m platform \<Rightarrow> userspace \<Rightarrow> userspace \<Rightarrow> bool" for pl where
  uc_open: "user_call pl us (snd (proc_open us pid path flags))"
| uc_close: "user_call pl us (snd (proc_close us pid fd))"
| uc_dup2: "user_call pl us (snd (proc_dup2 us pid oldfd newfd))"
| uc_fork: "user_call pl us (snd (fork_process us pid))"
| uc_clone: "clone_thread us pid sp = Some (r, us') \<Longrightarrow> user_call pl us us'"
| uc_brk: "handle_brk (pl_map_to pl) (pl_unmap pl) us mc pid new_brk = Some (r, us', mc') \<Longrightarrow> user_call pl us us'"
| uc_exit: "user_call pl us (snd (return_to_kernel (exit_process us pid code)))"
| uc_create: "up_create_process (pl_map_to pl) (pl_unmap pl) (pl_libc pl) us mc path elf = Some (r, us', mc') \<Longrightarrow> user_call pl us us'"
| uc_exec: "up_create_process (pl_map_to pl) (pl_unmap pl) (pl_libc pl) us mc path elf = Some (r, us1, mc') \<Longrightarrow>
    us2 = (case current_process us1 of None \<Rightarrow> us1 | Some old_pid \<Rightarrow> exit_process us1 old_pid 0) \<Longrightarrow>
    enter_userspace us2 (pl_cr3 pl) pid = Some (regs, us') \<Longrightarrow> user_call pl us us'"

lemma exit_process_ok:
  assumes "userspace_ok us"
  shows "userspace_ok (exit_process us pid code)" and "ut_next_pid (exit_process us pid code) = ut_next_pid us"
proof -
  show "ut_next_pid (exit_process us pid code) = ut_next_pid us"
    by (auto simp: exit_process_def Let_def set_proc_def split: option.splits)
  show "userspace_ok (exit_process us pid code)"
  proof (cases "find_by_pid us pid")
    case None
    then show ?thesis using assms same_table(1) [of "us\<lparr>ut_current := 0\<rparr>" us] by (simp add: exit_process_def)
  next
    case (Some s)
    let ?us = "set_proc s ((proc_at us s)\<lparr>up_state := UpExited, up_exit_code := Some code\<rparr>) us"
    have "userspace_ok ?us"
      using set_proc_step [OF assms Some] found_ok [OF assms Some] user_process_ok_update(3) by auto
    then show ?thesis using Some same_table(1) [of "?us\<lparr>ut_current := 0\<rparr>" ?us] by (simp add: exit_process_def Let_def)
  qed
qed

lemma enter_userspace_ok:
  assumes "userspace_ok us" and "enter_userspace us cr3 pid = Some (regs, us')"
  shows "userspace_ok us'" and "ut_next_pid us' = ut_next_pid us"
proof -
  obtain s where s: "find_by_pid us pid = Some s" using assms(2) by (auto simp: enter_userspace_def split: option.splits)
  let ?us = "set_proc s ((proc_at us s)\<lparr>up_state := UpRunning\<rparr>) us"
  have ok: "userspace_ok ?us"
    using set_proc_step [OF assms(1) s] found_ok [OF assms(1) s] user_process_ok_update(4) by auto
  have e: "ut_slots us' = ut_slots ?us" "ut_next_pid us' = ut_next_pid ?us"
    using assms(2) s by (auto simp: enter_userspace_def Let_def split: if_splits)
  show "userspace_ok us'" using same_table(1) [OF e] ok by simp
  show "ut_next_pid us' = ut_next_pid us" using e by (simp add: set_proc_def)
qed

lemma user_call_ok:
  assumes "user_call pl us us'" and "userspace_ok us" and "ut_next_pid us + 1 \<noteq> 0" and "ut_next_pid us \<noteq> 0"
  shows "userspace_ok us' \<and> (ut_next_pid us' = ut_next_pid us \<or> ut_next_pid us' = ut_next_pid us + 1)"
proof -
  have step: "?thesis" if "up_step (pl_map_to pl) (pl_unmap pl) (pl_libc pl) (us, mc) (us', mc')" for mc mc'
    using up_step_ok [OF that] assms(2-4) by (auto simp: pids_step_def)
  from assms(1) show ?thesis
  proof cases
    case (uc_open pid path flags)
    then show ?thesis using step up_step.fd_open [of us] by (metis prod.collapse)
  next
    case (uc_close pid fd)
    then show ?thesis using step up_step.fd_close [of us] by (metis prod.collapse)
  next
    case (uc_dup2 pid oldfd newfd)
    then show ?thesis using step up_step.fd_dup2 [of us] by (metis prod.collapse)
  next
    case (uc_fork pid)
    then show ?thesis using step up_step.fork [of us] by (metis prod.collapse)
  next
    case (uc_clone pid sp r)
    then show ?thesis using step [OF up_step.clone] by blast
  next
    case (uc_brk mc pid new_brk r mc')
    then show ?thesis using step [OF up_step.brk] by blast
  next
    case (uc_exit pid code)
    let ?us = "exit_process us pid code"
    have "ut_slots us' = ut_slots ?us" "ut_next_pid us' = ut_next_pid ?us"
      using uc_exit by (auto simp: return_to_kernel_def Let_def)
    from same_table(1) [OF this] this(2) exit_process_ok [OF assms(2), of pid code] show ?thesis by simp
  next
    case (uc_create mc path elf r mc')
    then show ?thesis using step [OF up_step.create] by blast
  next
    case (uc_exec mc path elf r us1 mc' us2 pid regs)
    have 1: "userspace_ok us1" "ut_next_pid us1 = ut_next_pid us \<or> ut_next_pid us1 = ut_next_pid us + 1"
      using create_step [OF assms(2-4) uc_exec(1)] by (auto simp: pids_step_def)
    have 2: "userspace_ok us2" "ut_next_pid us2 = ut_next_pid us1"
      using uc_exec(2) exit_process_ok [OF 1(1)] 1(1) by (auto split: option.splits)
    show ?thesis using enter_userspace_ok [OF 2(1) uc_exec(3)] 1 2 by simp
  qed
qed

section \<open>Frames are only taken\<close>

definition later :: "'m machine \<Rightarrow> 'm machine \<Rightarrow> bool" where
  "later mc mc' \<longleftrightarrow> (\<exists>n. mem_rest (mc_frames mc') = drop n (mem_rest (mc_frames mc)))"

lemma later_refl [simp]: "later mc mc"
  by (auto simp: later_def intro: exI [of _ 0])

lemma later_trans [trans]: "later a b \<Longrightarrow> later b c \<Longrightarrow> later a c"
  by (auto simp: later_def)

lemma later_ram [simp]: "later a (b\<lparr>mc_ram := r\<rparr>) = later a b" "later (a\<lparr>mc_ram := r\<rparr>) b = later a b"
  by (simp_all add: later_def)

lemma later_map_page:
  assumes "map_page_global map_to unmap (mc_frames mc) (mc_tables mc) page flags = (f, m, pt)"
  shows "later mc (mc\<lparr>mc_frames := m, mc_tables := pt\<rparr>)" and "later mc (mc\<lparr>mc_frames := m, mc_tables := pt, mc_ram := r\<rparr>)"
  using map_page_global_cost [where m = "mc_frames mc" and pt = "mc_tables mc" and map_to = map_to and unmap = unmap
      and page = page and flags = flags] assms
  by (auto simp: later_def)

lemma later_user_page: "map_user_page map_to unmap mc addr flags = Some (f, mc1) \<Longrightarrow> later mc mc1"
  by (auto simp: map_user_page_def Let_def dest: later_map_page split: if_splits prod.splits)

lemma later_pages: "load_pages map_to unmap elf_data seg end_addr page_addr mx mc = Some (r, mc') \<Longrightarrow> later mc mc'"
proof (induction map_to unmap elf_data seg end_addr page_addr mx mc rule: load_pages.induct)
  case (1 map_to unmap elf_data seg end_addr page_addr mx mc)
  note l = 1(2) [unfolded load_pages.simps [of map_to unmap elf_data seg end_addr page_addr]]
  show ?case
  proof (cases "page_addr < end_addr")
    case True
    obtain f mc1 where m: "map_user_page map_to unmap mc page_addr (page_flags seg) = Some (f, mc1)"
      using l True by (auto split: option.splits)
    note lt = later_user_page [OF m]
    show ?thesis
    proof (cases f)
      case (Some fr)
      then obtain ram where r: "fill_page elf_data seg page_addr (phys_to_virt (mc_frames mc1) fr) (mc_ram mc1) = Some ram"
        using l True m by (auto split: option.splits)
      then have "load_pages map_to unmap elf_data seg end_addr (page_addr + 4096) (max mx (page_addr + 4096)) (mc1\<lparr>mc_ram := ram\<rparr>) =
          Some (r, mc')" using l True m Some by simp
      from 1(1) [OF True m refl Some r this] show ?thesis using lt later_trans by simp
    qed (use l True m lt in auto)
  qed (use l in auto)
qed

lemma later_segments: "load_segments map_to unmap elf_data segs mx mc = Some (r, mc') \<Longrightarrow> later mc mc'"
proof (induction segs arbitrary: mx mc)
  case (Cons seg segs)
  then show ?case
    by (auto simp: Let_def split: if_splits option.splits prod.splits sum.splits dest!: later_pages Cons.IH intro: later_trans)
qed simp

lemma later_stack: "map_stack map_to unmap is mc = Some (r, mc') \<Longrightarrow> later mc mc'"
proof (induction "is" arbitrary: mc)
  case (Cons i "is")
  then show ?case by (auto split: option.splits prod.splits dest!: later_user_page Cons.IH intro: later_trans)
qed simp

lemma later_image: "load_image map_to unmap elf_data elf mc = Some (r, mc') \<Longrightarrow> later mc mc'"
proof (cases "load_segments map_to unmap elf_data (elf_segments elf) (unat HEAP_BASE) mc")
  case (Some x)
  assume l: "load_image map_to unmap elf_data elf mc = Some (r, mc')"
  obtain sr mc1 where x: "x = (sr, mc1)" by fastforce
  have "later mc1 mc'" using l Some x by (cases sr) (auto simp: load_image_def dest: later_stack)
  then show ?thesis using later_segments Some x later_trans by blast
qed (simp add: load_image_def)

lemma later_libc_page: "load_libc_page map_to unmap mc addr flags bytes err = (r, mc') \<Longrightarrow> later mc mc'"
  by (auto simp: load_libc_page_def Let_def split: prod.splits option.splits dest: later_map_page)

lemma later_libc: "ensure_libc_loaded map_to unmap libc us mc = (r, us', mc') \<Longrightarrow> later mc mc'"
  by (auto simp: ensure_libc_loaded_def load_libc_pages_def split: if_splits prod.splits sum.splits
      dest!: later_libc_page intro: later_trans)

lemma later_create: "up_create_process map_to unmap libc us mc name elf_data = Some (r, us', mc') \<Longrightarrow> later mc mc'"
  by (auto simp: up_create_process_def Let_def split: if_splits option.splits prod.splits sum.splits
      dest!: later_image later_libc intro: later_trans)

lemma later_brk_pages: "brk_pages map_to unmap new_end addr mc = (b, mc') \<Longrightarrow> later mc mc'"
proof (induction map_to unmap new_end addr mc rule: brk_pages.induct)
  case (1 map_to unmap new_end addr mc)
  show ?case
    using 1(2) by (subst (asm) brk_pages.simps)
      (auto split: if_splits prod.splits option.splits dest: later_map_page dest!: 1(1) intro: later_trans)
qed

lemma later_brk: "handle_brk map_to unmap us mc pid new_brk = Some (r, us', mc') \<Longrightarrow> later mc mc'"
  by (auto simp: handle_brk_def Let_def split: option.splits if_splits prod.splits bool.splits dest: later_brk_pages)

lemma later_mmap: "mmap_pages pl mc base is = Some (b, mc') \<Longrightarrow> later mc mc'"
proof (induction "is" arbitrary: mc)
  case (Cons i "is")
  then show ?case by (auto split: if_splits option.splits prod.splits dest!: later_user_page Cons.IH intro: later_trans)
qed simp

lemma later_user_write: "user_write tr mc a bs = Some mc' \<Longrightarrow> later mc mc'"
proof (induction bs arbitrary: mc a)
  case (Cons b bs)
  then show ?case by (auto split: option.splits dest!: Cons.IH)
qed simp

section \<open>Predicates that the modules keep\<close>

definition holds :: "('s \<Rightarrow> bool) \<Rightarrow> 's outcome \<Rightarrow> bool" where
  "holds P out = (case out of Returns _ s \<Rightarrow> P s | Exits s \<Rightarrow> P s | Blocks s \<Rightarrow> P s | Enters _ s \<Rightarrow> P s | Faults \<Rightarrow> True)"

lemma holds_simps [simp]:
  "holds P (Returns v s) = P s" "holds P (Exits s) = P s" "holds P (Blocks s) = P s" "holds P (Enters r s) = P s" "holds P Faults"
  by (simp_all add: holds_def)

lemma k_vfs_simps [simp]:
  "k_vfs (set_vfs st k) = st" "set_vfs (k_vfs k) k = k" "set_vfs st (set_vfs st' k) = set_vfs st k"
  "k_user (set_vfs st k) = k_user k" "k_mc (set_vfs st k) = k_mc k"
  by (simp_all add: k_vfs_def set_vfs_def)

locale kernel_pred =
  fixes P :: "('m, 'h) kstate \<Rightarrow> bool" and pl :: "'m platform"
  assumes retval: "P k \<Longrightarrow> P (k\<lparr>k_retval := v\<rparr>)"
    and mem: "P k \<Longrightarrow> later (k_mc k) mc \<Longrightarrow> P (k\<lparr>k_mc := mc\<rparr>)"
    and mmap_next: "P k \<Longrightarrow> P (k\<lparr>k_mmap_next := n\<rparr>)"
    and screen: "P k \<Longrightarrow> P (k\<lparr>k_screen := s\<rparr>)"
    and audits: "P k \<Longrightarrow> P (k\<lparr>k_audit := audit_log (k_audit k) e\<rparr>)"
    and print: "P k \<Longrightarrow> P (set_vfs (serial_println (k_vfs k) line) k)"
    and vcat: "P k \<Longrightarrow> P (set_vfs (snd (cat (pl_env pl) (k_vfs k) path)) k)"
    and vmkdir: "P k \<Longrightarrow> P (set_vfs (snd (mkdir (k_vfs k) path)) k)"
    and vrm: "P k \<Longrightarrow> P (set_vfs (snd (rm (k_vfs k) path)) k)"
    and chdir: "P k \<Longrightarrow> P (k\<lparr>k_env := env_set (k_env k) key val\<rparr>)"
    and fopen: "P k \<Longrightarrow> P (set_fds (snd (fd_open (k_fds k) path)) k)"
    and fclose: "P k \<Longrightarrow> P (set_fds (snd (fd_close (k_fds k) fd)) k)"
    and new_pipe: "P k \<Longrightarrow> P (k\<lparr>k_pipes := snd (create_pipe (k_pipes k))\<rparr>)"
    and send: "P k \<Longrightarrow> P (k\<lparr>k_ipc := snd (ipc_send (k_ipc k) cid b)\<rparr>)"
    and recv: "P k \<Longrightarrow> P (k\<lparr>k_ipc := snd (ipc_recv (k_ipc k) cid)\<rparr>)"
    and yield_task: "P k \<Longrightarrow> P (set_tasks (snd (yield_now (k_tasks k) rsp)) k)"
    and exit_task: "P k \<Longrightarrow> P (set_tasks (snd (task_exit (k_tasks k) rsp)) k)"
    and signal: "P k \<Longrightarrow> P (k\<lparr>k_sig := snd (deliver_signal (k_sig k) pid sig)\<rparr>)"
    and handler: "P k \<Longrightarrow> P (k\<lparr>k_sig := snd (register_handler (k_sig k) pid sig h)\<rparr>)"
    and shmget: "P k \<Longrightarrow> create_shmem (mc_frames (k_mc k)) (k_shm k) name bytes pid = (r, m, t) \<Longrightarrow>
      P (k\<lparr>k_mc := (k_mc k)\<lparr>mc_frames := m\<rparr>, k_shm := t\<rparr>)"
    and shmat: "P k \<Longrightarrow> P (k\<lparr>k_shm := snd (attach_shmem (k_shm k) shmid pid)\<rparr>)"
    and shmdt: "P k \<Longrightarrow> P (k\<lparr>k_shm := snd (detach_shmem (k_shm k) shmid pid)\<rparr>)"
begin

lemma ret_keeps: "P k \<Longrightarrow> holds P (ret v k)"
  by (simp add: ret_def set_retval_def retval)

lemma load_retval_keeps: "P k \<Longrightarrow> holds P (load_retval k)"
  by (simp add: load_retval_def)

lemma ret_result_keeps: "P k \<Longrightarrow> holds P (ret_result f r k)"
  by (simp add: ret_result_def ret_keeps split: sum.splits)

lemma with_path_keeps: "P k \<Longrightarrow> (\<And>path. holds P (f path)) \<Longrightarrow> holds P (with_path pl k ptr len f)"
  by (simp add: with_path_def ret_keeps split: option.splits)

lemma user_buf_keeps: "P k \<Longrightarrow> write_user_buf pl k ptr data mx = Some (n, k') \<Longrightarrow> P k'"
  by (auto simp: write_user_buf_def Let_def dest!: later_user_write intro: mem)

lemma yield_keeps: "P k \<Longrightarrow> P (sys_yield pl k)"
  by (simp add: sys_yield_def yield_task)

lemma sleep_keeps: "P k \<Longrightarrow> holds P (sleep_poll pl k target)"
  by (simp add: sleep_poll_def yield_keeps load_retval_keeps)

lemma recv_keeps: "P k \<Longrightarrow> holds P (sys_recv pl k cid)"
  using recv [of k "unat cid"]
  by (auto simp: sys_recv_def load_retval_keeps yield_keeps split: prod.splits option.splits)

lemma text_keeps: "P k \<Longrightarrow> holds P (sys_write_text pl k buf len)"
  by (auto simp: sys_write_text_def Let_def split: option.splits intro!: ret_keeps screen print)

lemma program_keeps: "P k \<Longrightarrow> P (set_vfs (snd (load_program_from (pl_env pl) (k_vfs k) paths)) k)"
proof (induction paths arbitrary: k)
  case (Cons path paths)
  from Cons.IH [OF vcat [OF Cons.prems, of path]] vcat [OF Cons.prems, of path] show ?case
    by (auto split: prod.splits sum.splits option.splits)
qed simp

lemma builtin_keeps: "P k \<Longrightarrow> P (set_vfs (snd (get_builtin_program gen (pl_env pl) (k_vfs k) name)) k)"
  using program_keeps by (auto simp: get_builtin_program_def load_program_from_vfs_def simp del: load_program_from.simps split: option.splits)

lemma proc_read_keeps: "P k \<Longrightarrow> P (set_vfs (snd (proc_read (pl_env pl) us (k_vfs k) pid fd buf)) k)"
proof (cases "proc_fd us pid fd")
  case (Inr e)
  assume "P k"
  then show ?thesis using Inr vcat [of k "fe_path e"]
    by (auto simp: proc_read_def Let_def split: proc_fd_kind.splits prod.splits sum.splits)
qed (simp add: proc_read_def)

lemma fd_read_keeps: "P k \<Longrightarrow> P (set_vfs (snd (fd_read (cat (pl_env pl)) fds (k_vfs k) fd buf)) k)"
proof (cases "fds ! fd")
  case (FdOpen path kind off)
  assume "P k"
  then show ?thesis using FdOpen vcat [of k path]
    by (auto simp: fd_read_def Let_def split: fd_kind.splits prod.splits sum.splits)
qed (simp add: fd_read_def)

lemma read_keeps:
  assumes "P k"
  shows "holds P (sys_read_fd pl k fd buf len)"
proof -
  define x where "x = (case current_process (k_user k) of
      Some pid \<Rightarrow> proc_read (pl_env pl) (k_user k) (k_vfs k) pid (unat fd) (replicate (unat len) 0)
    | None \<Rightarrow> fd_read (cat (pl_env pl)) (k_fds k) (k_vfs k) (unat fd) (replicate (unat len) 0))"
  have "P (set_vfs (snd x) k)" using proc_read_keeps [OF assms] fd_read_keeps [OF assms] by (simp add: x_def split: option.splits)
  moreover obtain r tmp st where "x = ((r, tmp), st)" by (metis prod.collapse)
  ultimately show ?thesis using assms
    by (auto simp: sys_read_fd_def Let_def x_def [symmetric] split: option.splits sum.splits dest: user_buf_keeps intro!: ret_keeps)
qed

lemma readdir_keeps: "P k \<Longrightarrow> holds P (sys_readdir pl k ptr len buf)"
  by (auto simp: sys_readdir_def split: sum.splits option.splits dest: user_buf_keeps intro!: with_path_keeps ret_keeps)

lemma file_keeps:
  assumes "P k" and "sys_file pl k num arg1 arg2 arg3 = Some out" and "num \<noteq> 100" and "num \<noteq> 102"
  shows "holds P out"
  using assms vcat [OF assms(1)] vmkdir [OF assms(1)] vrm [OF assms(1)] chdir [OF assms(1)]
  by (auto simp: sys_file_def sys_getcwd_def Let_def split: if_splits option.splits prod.splits dest: user_buf_keeps
      intro!: with_path_keeps ret_result_keeps load_retval_keeps ret_keeps read_keeps readdir_keeps) (metis snd_conv)+

lemma mmap_keeps: "P k \<Longrightarrow> holds P (sys_mmap pl k hint len)"
  by (auto simp: sys_mmap_def Let_def split: option.splits prod.splits dest!: later_mmap intro!: ret_keeps mem mmap_next)

lemma memory_keeps: "P k \<Longrightarrow> sys_memory pl k num arg1 arg2 = Some out \<Longrightarrow> holds P out"
  by (auto simp: sys_memory_def sys_munmap_def split: if_splits intro!: ret_keeps mmap_keeps)

lemma pipe_keeps: "P k \<Longrightarrow> holds P (sys_pipe pl k ptr)"
  using new_pipe [of k]
  by (auto simp: sys_pipe_def split: prod.splits sum.splits option.splits dest: user_buf_keeps intro!: ret_keeps)

lemma nanosleep_keeps: "P k \<Longrightarrow> holds P (sys_nanosleep pl k ms)"
  using sleep_keeps [of k]
  by (auto simp: sys_nanosleep_def split: option.splits outcome.splits intro!: ret_keeps) (metis holds_simps)+

lemma shm_keeps:
  assumes "P k"
  shows "holds P (sys_shmget k n)" "holds P (sys_shmat k n)" "holds P (sys_shmdt k n)"
  using shmget [OF assms] shmat [OF assms] shmdt [OF assms]
  by (auto simp: sys_shmget_def sys_shmat_def sys_shmdt_def Let_def split: prod.splits intro!: ret_keeps) (metis snd_conv)+

lemma misc_keeps:
  assumes "P k" and "sys_misc pl k num arg1 arg2 arg3 = Some out" and "num \<noteq> 152" and "num \<noteq> 190"
  shows "holds P out"
  using assms handler [OF assms(1)]
  by (auto simp: sys_misc_def sys_sendto_def sys_clock_gettime_def sys_sigaction_def sys_getenv_def Let_def
      split: if_splits option.splits prod.splits dest: user_buf_keeps
      intro!: ret_keeps ret_result_keeps with_path_keeps nanosleep_keeps pipe_keeps shm_keeps) (metis snd_conv)+

end

locale kernel_step = pre: kernel_pred P pl + post: kernel_pred Q pl
  for P Q :: "('m, 'h) kstate \<Rightarrow> bool" and pl :: "'m platform" +
  assumes weaken: "P k \<Longrightarrow> Q k"
    and user: "P k \<Longrightarrow> user_call pl (k_user k) us \<Longrightarrow> Q (k\<lparr>k_user := us\<rparr>)"
begin

lemma holds_weaken: "holds P out \<Longrightarrow> holds Q out"
  by (auto simp: holds_def weaken split: outcome.splits)

lemma user_ret: "P k \<Longrightarrow> user_call pl (k_user k) us \<Longrightarrow> holds Q (ret_result f r (k\<lparr>k_user := us\<rparr>))"
  by (rule post.ret_result_keeps) (rule user)

lemma exit_keeps: "P k \<Longrightarrow> holds Q (sys_exit pl k code)"
  using user [OF _ user_call.uc_exit] weaken [OF pre.exit_task] by (simp add: sys_exit_def split: option.splits)

lemma basic_keeps:
  assumes "P k" and "sys_basic pl k num arg1 arg2 = Some out" and "num = 8 \<Longrightarrow> Q (sys_setuid k arg1)"
  shows "holds Q out"
proof (cases "num = 1 \<or> num = 8")
  case True
  then show ?thesis using assms exit_keeps by (auto simp: sys_basic_def intro: post.load_retval_keeps)
next
  case False
  have "holds P (sys_sleep pl k d)" for d using pre.sleep_keeps [OF assms(1)] by (simp add: sys_sleep_def split: option.splits)
  then have "holds P out" using assms False
    by (auto simp: sys_basic_def split: if_splits
        intro!: pre.load_retval_keeps pre.ret_keeps pre.text_keeps pre.yield_keeps pre.send pre.recv_keeps)
  then show ?thesis by (rule holds_weaken)
qed

lemma open_keeps: "P k \<Longrightarrow> holds Q (sys_open pl k ptr len flags)"
  unfolding sys_open_def
proof (rule post.with_path_keeps)
  fix path
  assume k: "P k"
  obtain r fds where f: "fd_open (k_fds k) path = (r, fds)" by fastforce
  have "Q (set_fds fds k)" using weaken [OF pre.fopen [OF k, of path]] f by simp
  moreover have "Q (k\<lparr>k_user := snd (proc_open (k_user k) pid path (ucast flags))\<rparr>)" for pid by (rule user [OF k user_call.uc_open])
  ultimately show "holds Q (case current_process (k_user k) of
         Some pid \<Rightarrow> (let (r, us) = proc_open (k_user k) pid path (ucast flags) in ret_result of_nat r (k\<lparr>k_user := us\<rparr>))
       | None \<Rightarrow> (let (r, fds) = fd_open (k_fds k) path in ret_result of_nat r (set_fds fds k)))"
    using f by (auto simp: case_prod_beta split: option.splits intro!: post.ret_result_keeps)
qed (rule weaken)

lemma close_keeps: "P k \<Longrightarrow> holds Q (sys_close k fd)"
  using weaken [OF pre.fclose] user [OF _ user_call.uc_close]
  by (auto simp: sys_close_def case_prod_beta split: option.splits intro!: post.ret_result_keeps)

lemma file_step:
  assumes "P k" and "sys_file pl k num arg1 arg2 arg3 = Some out"
  shows "holds Q out"
proof (cases "num = 100 \<or> num = 102")
  case True
  then show ?thesis using assms open_keeps close_keeps by (auto simp: sys_file_def)
qed (use pre.file_keeps [OF assms] holds_weaken in blast)

lemma exec_keeps:
  assumes k: "P k"
  shows "holds Q (sys_exec pl k ptr len)"
  unfolding sys_exec_def
proof (rule post.with_path_keeps)
  fix path
  obtain prog st where g: "get_builtin_program (pl_gen pl) (pl_env pl) (k_vfs k) path = (prog, st)" by fastforce
  define k1 where "k1 = set_vfs st k"
  have k1: "P k1" using pre.builtin_keeps [OF k, of "pl_gen pl" path] g by (simp add: k1_def)
  have created: "Q (set_vfs st k\<lparr>k_user := us, k_mc := mc\<rparr>)"
    if "up_create_process (pl_map_to pl) (pl_unmap pl) (pl_libc pl) (k_user k) (k_mc k) path elf = Some (r, us, mc)" for elf r us mc
    using post.mem [OF user [OF k1 user_call.uc_create], of _ _ _ _ us mc mc] that later_create [OF that] by (simp add: k1_def)
  have entered: "Q (set_vfs st k\<lparr>k_user := us, k_mc := mc\<rparr>)"
    if "up_create_process (pl_map_to pl) (pl_unmap pl) (pl_libc pl) (k_user k) (k_mc k) path elf = Some (r, us1, mc)"
      "enter_userspace (case current_process us1 of None \<Rightarrow> us1 | Some old_pid \<Rightarrow> exit_process us1 old_pid 0) (pl_cr3 pl) pid = Some (regs, us)"
    for elf r us1 us mc pid regs
    using post.mem [OF user [OF k1 user_call.uc_exec [OF _ refl that(2)]], of "k_mc k" path elf r mc mc] that(1) later_create [OF that(1)]
    by (simp add: k1_def)
  show "holds Q (case get_builtin_program (pl_gen pl) (pl_env pl) (k_vfs k) path of
         (None, st) \<Rightarrow> ret (- 1) (set_vfs st k)
       | (Some elf_data, st) \<Rightarrow>
           let k = set_vfs st k in
           (case up_create_process (pl_map_to pl) (pl_unmap pl) (pl_libc pl) (k_user k) (k_mc k) path elf_data of
              None \<Rightarrow> Faults
            | Some (Inl _, us, mc) \<Rightarrow> ret (- 1) (k\<lparr>k_user := us, k_mc := mc\<rparr>)
            | Some (Inr pid, us, mc) \<Rightarrow>
                let us = (case current_process us of None \<Rightarrow> us | Some old_pid \<Rightarrow> exit_process us old_pid 0) in
                (case enter_userspace us (pl_cr3 pl) pid of
                   None \<Rightarrow> Faults
                 | Some (regs, us) \<Rightarrow> Enters regs (k\<lparr>k_user := us, k_mc := mc\<rparr>))))"
    using created entered weaken [OF k1 [unfolded k1_def]] unfolding g Let_def
    by (auto split: option.split prod.split sum.split intro!: post.ret_keeps)
qed (rule weaken [OF k])

lemma process_keeps:
  assumes "P k" and "sys_process pl k num arg1 arg2 = Some out"
  shows "holds Q out"
proof -
  have "holds Q (sys_fork k)"
    using user [OF assms(1) user_call.uc_fork] weaken [OF assms(1)]
    by (auto simp: sys_fork_def case_prod_beta split: option.splits intro!: post.ret_result_keeps post.ret_keeps)
  moreover have "Q (k\<lparr>k_user := us, k_mc := mc\<rparr>)"
    if "handle_brk (pl_map_to pl) (pl_unmap pl) (k_user k) (k_mc k) pid b = Some (r, us, mc)" for pid b r us mc
    using post.mem [OF user [OF assms(1) user_call.uc_brk [OF that]], of mc] later_brk [OF that] by simp
  then have "holds Q (sys_brk pl k b)" for b
    using weaken [OF assms(1)] by (auto simp: sys_brk_def split: option.splits intro!: post.ret_keeps)
  ultimately show ?thesis
    using assms(2) exec_keeps [OF assms(1)] weaken [OF assms(1)] weaken [OF pre.signal [OF assms(1)]]
    by (auto simp: sys_process_def split: if_splits intro!: post.ret_keeps post.ret_result_keeps)
qed

lemma misc_step:
  assumes "P k" and "sys_misc pl k num arg1 arg2 arg3 = Some out"
  shows "holds Q out"
proof (cases "num = 152 \<or> num = 190")
  case True
  have "holds Q (sys_dup2 k a b)" for a b
    using user [OF assms(1) user_call.uc_dup2] weaken [OF assms(1)]
    by (auto simp: sys_dup2_def case_prod_beta split: option.splits intro!: post.ret_result_keeps post.ret_keeps)
  moreover have "holds Q (sys_clone k a)" for a
    using user [OF assms(1) user_call.uc_clone] weaken [OF assms(1)]
    by (auto simp: sys_clone_def split: option.splits intro!: post.ret_result_keeps post.ret_keeps)
  ultimately show ?thesis using True assms(2) by (auto simp: sys_misc_def)
qed (use pre.misc_keeps [OF assms] holds_weaken in blast)

lemma call_keeps:
  assumes "P k" and "sys_call pl k num arg1 arg2 arg3 = Some out" and "num = 8 \<Longrightarrow> Q (sys_setuid k arg1)"
  shows "holds Q out"
  using assms(2) basic_keeps [OF assms(1) _ assms(3)] file_step [OF assms(1)] process_keeps [OF assms(1)]
    holds_weaken [OF pre.memory_keeps [OF assms(1)]] misc_step [OF assms(1)] post.ret_keeps [OF weaken [OF assms(1)]]
  by (auto simp: sys_call_def split: option.splits if_splits)

lemma dispatch_keeps:
  assumes "P k" and "sys_dispatch pl k num arg1 arg2 arg3 = Some out" and "num = 8 \<Longrightarrow> Q (sys_setuid (set_retval 0 k) arg1)"
  shows "holds Q out"
proof -
  have 1: "P (set_retval 0 k)" using pre.retval [OF assms(1)] by (simp add: set_retval_def)
  show ?thesis
    using assms(2) call_keeps [OF 1 _ assms(3)] weaken [OF pre.exit_task [OF pre.audits [OF assms(1)]]]
    by (auto simp: sys_dispatch_def Let_def k_tasks_def split: filter_action.splits)
qed

end

section \<open>The invariant of the kernel\<close>

text \<open>\<open>n\<close> bounds the process identifiers given out so far.\<close>

definition kernel_inv :: "memory_map \<Rightarrow> nat \<Rightarrow> ('m, 'h) kstate \<Rightarrow> bool" where
  "kernel_inv mm n k \<longleftrightarrow>
     vfs_ok (k_vfs k) \<and> length (k_fds k) = MAX_FDS \<and> pipes_ok (k_pipes k) \<and> ipc_ok (k_ipc k) \<and>
     sig_ok (k_sig k) \<and> tasks_ok (k_tasks k) \<and> entries_ok MAX_VARS (ev_vars (k_env k)) \<and>
     shm_ok mm (mc_frames (k_mc k)) (k_shm k) \<and>
     (n < 2 ^ 32 \<longrightarrow> userspace_ok (k_user k) \<and> ut_next_pid (k_user k) \<noteq> 0 \<and> unat (ut_next_pid (k_user k)) \<le> n)"

lemmas k_defs = k_vfs_def k_fds_def k_tasks_def set_vfs_def set_fds_def set_tasks_def

lemma finish_ok:
  assumes "tasks_ok ts" and "i < MAX_TASKS" and "ts_slots ts ! i \<noteq> None"
  shows "tasks_ok (ts\<lparr>ts_slots := (ts_slots ts)[i := set_state Finished (ts_slots ts ! i)]\<rparr>)"
proof -
  let ?slots = "(ts_slots ts)[i := set_state Finished (ts_slots ts ! i)]"
  obtain t where t: "ts_slots ts ! ts_current ts = Some t" "tk_state t \<noteq> Ready" using tasks_okD(3) [OF assms(1)] by blast
  have "tasks_ok (ts\<lparr>ts_slots := ?slots, ts_current := ts_current ts\<rparr>)"
    using tasks_okD(1, 2, 5) [OF assms(1)] t assms(2, 3)
    by (intro tasks_ok_change [OF assms(1)]) (auto simp: nth_list_update set_state_def split: if_splits)
  then show ?thesis by simp
qed

lemma kill_tasks_ok:
  assumes "tasks_ok ts"
  shows "tasks_ok (snd (task_kill ts pid))"
proof (cases "pid \<noteq> 0 \<and> list_ex (live_pid pid) (ts_slots ts)")
  case True
  obtain i where i: "position (live_pid pid) (ts_slots ts) = Some i"
    using True position_exists unfolding list_ex_iff by metis
  note i' = position_SomeD(1, 2) [OF i]
  have "tasks_ok (ts\<lparr>ts_slots := (ts_slots ts)[i := set_state Finished (ts_slots ts ! i)]\<rparr>)"
    using i' tasks_okD(1) [OF assms] by (intro finish_ok [OF assms]) (auto simp: live_pid_def split: option.splits)
  then show ?thesis using True i by (simp add: task_kill_def update_first_position)
qed (use assms in \<open>auto simp: task_kill_def\<close>)

lemma exit_tasks_ok:
  assumes "tasks_ok ts"
  shows "tasks_ok (snd (task_exit ts r))"
  unfolding task_exit_def
  using finish_ok [OF assms tasks_okD(2) [OF assms]] tasks_okD(1, 2, 3) [OF assms] by (intro yield_ok) auto

lemma signal_tasks:
  "ss_tasks (snd (deliver_signal st pid sig)) = ss_tasks st \<or> ss_tasks (snd (deliver_signal st pid sig)) = snd (task_kill (ss_tasks st) pid)"
  "ss_tasks (snd (register_handler st pid sig h)) = ss_tasks st"
  by (auto simp: deliver_signal_def register_handler_def Let_def split: option.splits)

lemma fd_table_length:
  "length (snd (fd_open fds path)) = length fds" "length (snd (fd_close fds fd)) = length fds"
  by (auto simp: fd_open_def fd_close_def split: option.splits)

lemma pipes_ok_other [simp]:
  "pipes_ok (st\<lparr>pf_vfs := v\<rparr>) = pipes_ok st" "pipes_ok (st\<lparr>pf_fds := f\<rparr>) = pipes_ok st"
  by (simp_all add: pipes_ok_def pipe_at_def)

lemma create_pipe_ok:
  assumes "pipes_ok st" and "length (pf_fds st) = MAX_FDS"
  shows "pipes_ok (snd (create_pipe st))" and "length (pf_fds (snd (create_pipe st))) = MAX_FDS"
    and "pf_vfs (snd (create_pipe st)) = pf_vfs st"
proof -
  have alloc: "pipes_ok (st\<lparr>pf_table := Some slots1\<rparr>)"
    if "pf_table st = Some slots" "pipe_alloc slots = Some (pid, slots1)" for slots slots1 pid
    using assms(1) that position_SomeD(1)
    by (auto simp: pipes_ok_def pipe_at_def pipe_alloc_def alloc_slot_def pipe_get_mut_update split: option.splits if_splits)
  have len: "length fds1 = length fds" if "fd_open fds path = (r, fds1)" for fds fds1 path r
    using fd_table_length(1) [of fds path] that by simp
  show "pipes_ok (snd (create_pipe st))" "length (pf_fds (snd (create_pipe st))) = MAX_FDS" "pf_vfs (snd (create_pipe st)) = pf_vfs st"
    using alloc assms fd_table_length(2)
    by (auto simp: create_pipe_def Let_def split: option.splits prod.splits sum.splits dest!: len)
qed

lemma kernel_inv_pred: "kernel_pred (kernel_inv mm n) pl"
proof
  fix k :: "('m, 'h) kstate"
  assume k: "kernel_inv mm n k"
  note c = k [unfolded kernel_inv_def]
  show "kernel_inv mm n (k\<lparr>k_retval := v\<rparr>)" for v using k by (simp add: kernel_inv_def k_defs)
  show "kernel_inv mm n (k\<lparr>k_mc := mc\<rparr>)" if "later (k_mc k) mc" for mc
    using k that shm_ok_fewer by (auto simp: kernel_inv_def k_defs later_def)
  show "kernel_inv mm n (k\<lparr>k_mmap_next := v\<rparr>)" for v using k by (simp add: kernel_inv_def k_defs)
  show "kernel_inv mm n (k\<lparr>k_screen := v\<rparr>)" for v using k by (simp add: kernel_inv_def k_defs)
  show "kernel_inv mm n (k\<lparr>k_audit := audit_log (k_audit k) e\<rparr>)" for e using k by (simp add: kernel_inv_def k_defs)
  show "kernel_inv mm n (set_vfs (serial_println (k_vfs k) line) k)" for line
    using k by (simp add: kernel_inv_def k_defs serial_println_def vfs_ok_def)
  show "kernel_inv mm n (set_vfs (snd (cat (pl_env pl) (k_vfs k) path)) k)" for path
    using k cat_ok by (simp add: kernel_inv_def k_defs)
  show "kernel_inv mm n (set_vfs (snd (mkdir (k_vfs k) path)) k)" for path
    using k mkdir_ok by (simp add: kernel_inv_def k_defs)
  show "kernel_inv mm n (set_vfs (snd (rm (k_vfs k) path)) k)" for path
    using k rm_ok by (simp add: kernel_inv_def k_defs)
  show "kernel_inv mm n (k\<lparr>k_env := env_set (k_env k) key val\<rparr>)" for key val
    using k put_entry_ok by (simp add: kernel_inv_def k_defs env_set_def)
  show "kernel_inv mm n (set_fds (snd (fd_open (k_fds k) path)) k)" for path
    using k fd_table_length by (simp add: kernel_inv_def k_defs)
  show "kernel_inv mm n (set_fds (snd (fd_close (k_fds k) fd)) k)" for fd
    using k fd_table_length by (simp add: kernel_inv_def k_defs)
  show "kernel_inv mm n (k\<lparr>k_pipes := snd (create_pipe (k_pipes k))\<rparr>)"
    using k create_pipe_ok [of "k_pipes k"] by (simp add: kernel_inv_def k_defs)
  show "kernel_inv mm n (k\<lparr>k_ipc := snd (ipc_send (k_ipc k) cid b)\<rparr>)" for cid b
    using k ipc_step_refines [of "k_ipc k" "IpcSend cid b"] by (simp add: kernel_inv_def k_defs)
  show "kernel_inv mm n (k\<lparr>k_ipc := snd (ipc_recv (k_ipc k) cid)\<rparr>)" for cid
    using k ipc_step_refines [of "k_ipc k" "IpcRecv cid"] by (simp add: kernel_inv_def k_defs)
  show "kernel_inv mm n (set_tasks (snd (yield_now (k_tasks k) rsp)) k)" for rsp
    using k yield_ok by (simp add: kernel_inv_def k_defs)
  show "kernel_inv mm n (set_tasks (snd (task_exit (k_tasks k) rsp)) k)" for rsp
    using k exit_tasks_ok by (simp add: kernel_inv_def k_defs)
  show "kernel_inv mm n (k\<lparr>k_sig := snd (deliver_signal (k_sig k) pid sig)\<rparr>)" for pid sig
    using k deliver_signal_ok [of "k_sig k" pid sig] signal_tasks(1) [of "k_sig k" pid sig] kill_tasks_ok [of "k_tasks k" pid]
    by (auto simp: kernel_inv_def k_defs)
  show "kernel_inv mm n (k\<lparr>k_sig := snd (register_handler (k_sig k) pid sig h)\<rparr>)" for pid sig h
    using k register_handler_ok [of "k_sig k" pid sig h] signal_tasks(2) [of "k_sig k" pid sig h] by (simp add: kernel_inv_def k_defs)
  show "kernel_inv mm n (k\<lparr>k_mc := (k_mc k)\<lparr>mc_frames := m\<rparr>, k_shm := t\<rparr>)"
    if "create_shmem (mc_frames (k_mc k)) (k_shm k) name bytes pid = (r, m, t)" for name bytes pid r m t
    using k create_shmem_ok [OF _ that] by (simp add: kernel_inv_def k_defs)
  show "kernel_inv mm n (k\<lparr>k_shm := snd (attach_shmem (k_shm k) shmid pid)\<rparr>)" for shmid pid
    using k attach_shmem_ok [OF _ prod.collapse [symmetric]] by (simp add: kernel_inv_def k_defs)
  show "kernel_inv mm n (k\<lparr>k_shm := snd (detach_shmem (k_shm k) shmid pid)\<rparr>)" for shmid pid
    using k detach_shmem_ok [OF _ prod.collapse [symmetric]] by (simp add: kernel_inv_def k_defs)
qed

interpretation inv: kernel_step "kernel_inv mm n" "kernel_inv mm (Suc n)" pl for mm n pl
proof (intro kernel_step.intro kernel_inv_pred kernel_step_axioms.intro)
  fix k :: "('m, 'h) kstate"
  assume k: "kernel_inv mm n k"
  then show "kernel_inv mm (Suc n) k" by (auto simp: kernel_inv_def)
  fix us
  assume u: "user_call pl (k_user k) us"
  show "kernel_inv mm (Suc n) (k\<lparr>k_user := us\<rparr>)"
  proof (cases "Suc n < 2 ^ 32")
    case True
    let ?p = "ut_next_pid (k_user k)"
    have c: "userspace_ok (k_user k)" "?p \<noteq> 0" "unat ?p \<le> n" using k True by (auto simp: kernel_inv_def)
    then have s: "unat (?p + 1) = Suc (unat ?p)" using True by (simp add: unat_word_ariths)
    then have "?p + 1 \<noteq> 0" by auto
    from user_call_ok [OF u c(1) this c(2)] show ?thesis using k c s \<open>?p + 1 \<noteq> 0\<close> by (auto simp: kernel_inv_def k_defs)
  next
    case False
    then show ?thesis using k by (simp add: kernel_inv_def k_defs)
  qed
qed

section \<open>Credentials\<close>

definition cred_is :: "caps_table \<times> syscall_filter list \<times> security \<Rightarrow> ('m, 'h) kstate \<Rightarrow> bool" where
  "cred_is c k \<longleftrightarrow> (k_caps k, k_filters k, vs_sec (k_vfs k)) = c"

lemma vfs_sec [simp]:
  "vs_sec (snd (cat env st path)) = vs_sec st" "vs_sec (snd (mkdir st path)) = vs_sec st" "vs_sec (snd (rm st path)) = vs_sec st"
  "vs_sec (serial_println st line) = vs_sec st"
  by (auto simp: cat_def mkdir_def rm_def serial_println_def audit_def Let_def split: option.splits prod.splits sum.splits if_splits)

lemma create_pipe_vfs [simp]: "pf_vfs (snd (create_pipe st)) = pf_vfs st"
  by (auto simp: create_pipe_def Let_def split: option.splits prod.splits sum.splits)

interpretation cred: kernel_step "cred_is c" "cred_is c" pl for c pl
  by unfold_locales (simp_all add: cred_is_def k_defs)

lemma setuid_cred:
  assumes "current_uid (vs_sec (k_vfs k)) \<noteq> 0 \<or> \<not> has_cap (k_caps k) (current_pid (k_tasks k)) CAP_SETUID" and "cred_is c k"
  shows "cred_is c (sys_setuid k uid)"
proof -
  have "snd (set_current_uid sec v) = sec" if "current_uid sec \<noteq> 0" for sec v
    using that by (auto simp: set_current_uid_def current_uid_def split: option.splits)
  then show ?thesis using assms by (auto simp: sys_setuid_def cred_is_def k_defs Let_def)
qed

section \<open>Runs\<close>

definition outcome_state :: "'s outcome \<Rightarrow> 's option" where
  "outcome_state out = (case out of Returns _ s \<Rightarrow> Some s | Exits s \<Rightarrow> Some s | Blocks s \<Rightarrow> Some s | Enters _ s \<Rightarrow> Some s | Faults \<Rightarrow> None)"

lemma holds_state: "holds P out \<Longrightarrow> outcome_state out = Some k \<Longrightarrow> P k"
  by (auto simp: holds_def outcome_state_def split: outcome.splits)

text \<open>System calls in any order, the timer between them, and the later turns of the calls that poll.\<close>

inductive kernel_run :: "'m platform \<Rightarrow> nat \<Rightarrow> ('m, 'h) kstate \<Rightarrow> ('m, 'h) kstate \<Rightarrow> bool" for pl where
  start: "kernel_run pl 0 k k"
| syscall: "kernel_run pl n k k1 \<Longrightarrow> sys_dispatch pl k1 num arg1 arg2 arg3 = Some out \<Longrightarrow> outcome_state out = Some k2 \<Longrightarrow>
    kernel_run pl (Suc n) k k2"
| tick: "kernel_run pl n k k1 \<Longrightarrow> kernel_run pl n k ((set_tasks (snd (timer_tick (k_tasks k1) rsp)) k1)\<lparr>k_ticks := k_ticks k1 + 1\<rparr>)"
| wake_recv: "kernel_run pl n k k1 \<Longrightarrow> outcome_state (sys_recv pl k1 cid) = Some k2 \<Longrightarrow> kernel_run pl n k k2"
| wake_sleep: "kernel_run pl n k k1 \<Longrightarrow> outcome_state (sleep_poll pl k1 target) = Some k2 \<Longrightarrow> kernel_run pl n k k2"

lemma run_inv:
  assumes "kernel_run pl n k k'" and "kernel_inv mm m k"
  shows "kernel_inv mm (m + n) k'"
  using assms
proof (induction rule: kernel_run.induct)
  case (syscall n k k1 num arg1 arg2 arg3 out k2)
  have IH: "kernel_inv mm (m + n) k1" using syscall by simp
  have "kernel_inv mm (Suc (m + n)) (sys_setuid (set_retval 0 k1) arg1)"
    using inv.weaken [OF IH] by (auto simp: kernel_inv_def sys_setuid_def set_retval_def k_defs Let_def vfs_ok_def)
  from holds_state [OF inv.dispatch_keeps [OF IH syscall.hyps(2) this] syscall.hyps(3)] show ?case by simp
next
  case (tick n k k1 rsp)
  then show ?case using yield_ok [of "k_tasks k1" rsp] by (auto simp: kernel_inv_def k_defs timer_tick_def)
next
  case (wake_recv n k k1 cid k2)
  then show ?case using holds_state [OF inv.pre.recv_keeps] by blast
next
  case (wake_sleep n k k1 target k2)
  then show ?case using holds_state [OF inv.pre.sleep_keeps] by blast
qed simp

lemma run_cred:
  assumes "kernel_run pl n k k'" and "cred_is (caps, filters, sec) k" and "current_uid sec \<noteq> 0 \<or> (\<forall>pid. \<not> has_cap caps pid CAP_SETUID)"
  shows "cred_is (caps, filters, sec) k'"
  using assms
proof (induction rule: kernel_run.induct)
  case (syscall n k k1 num arg1 arg2 arg3 out k2)
  have IH: "cred_is (caps, filters, sec) k1" using syscall by simp
  then have "cred_is (caps, filters, sec) (sys_setuid (set_retval 0 k1) arg1)"
    using setuid_cred [of "set_retval 0 k1"] syscall.prems(2) by (auto simp: cred_is_def set_retval_def k_defs)
  from holds_state [OF cred.dispatch_keeps [OF IH syscall.hyps(2) this] syscall.hyps(3)] show ?case .
next
  case (tick n k k1 rsp)
  then show ?case by (simp add: cred_is_def k_defs)
next
  case (wake_recv n k k1 cid k2)
  then show ?case using holds_state [OF cred.pre.recv_keeps] by blast
next
  case (wake_sleep n k k1 target k2)
  then show ?case using holds_state [OF cred.pre.sleep_keeps] by blast
qed simp

lemma yield_live:
  assumes "tasks_ok ts"
  shows "list_ex (live_pid p) (ts_slots (snd (yield_now ts r))) = list_ex (live_pid p) (ts_slots ts)"
proof (cases rule: yield_cases [OF assms, of r])
  case (2 j nxt)
  note sw = switch_slots_nth [OF assms 2(3, 4, 5), where r = r]
  have "live_pid p (switch_slots ts nxt r ! i) = live_pid p (ts_slots ts ! i)" if "i < MAX_TASKS" for i
    using sw(2, 3) sw(4) [of i] 2(5) by (cases "i = nxt \<or> i = ts_current ts") (auto simp: live_pid_def is_ready_def)
  then show ?thesis using 2(7) sw(1) tasks_okD(1) [OF assms] by (auto simp: list_ex_length)
qed simp

lemma exit_live:
  assumes "tasks_ok ts"
  shows "list_ex (live_pid p) (ts_slots (snd (task_exit ts r))) = (p \<noteq> current_pid ts \<and> list_ex (live_pid p) (ts_slots ts))"
proof -
  note ok = tasks_okD [OF assms]
  obtain t where t: "ts_slots ts ! ts_current ts = Some t" using ok(3) by blast
  then have pid: "current_pid ts = tk_pid t" using ok(1, 2) by (simp add: current_pid_def)
  define ts1 where "ts1 = ts\<lparr>ts_slots := (ts_slots ts)[ts_current ts := set_state Finished (Some t)]\<rparr>"
  have ok1: "tasks_ok ts1" using finish_ok [OF assms ok(2)] t by (simp add: ts1_def)
  have "live_pid p (ts_slots ts1 ! i) = (p \<noteq> tk_pid t \<and> live_pid p (ts_slots ts ! i))" if "i < MAX_TASKS" for i
    using that t ok(1, 2) ok(6) [OF ok(2) t, of i] by (auto simp: ts1_def live_pid_def set_state_def nth_list_update split: option.splits)
  then have "list_ex (live_pid p) (ts_slots ts1) = (p \<noteq> tk_pid t \<and> list_ex (live_pid p) (ts_slots ts))"
    using ok(1) tasks_okD(1) [OF ok1] by (auto simp: list_ex_length)
  moreover have "task_exit ts r = yield_now ts1 r" using t ok(1, 2) by (simp add: task_exit_def ts1_def)
  ultimately show ?thesis using yield_live [OF ok1] pid by simp
qed

section \<open>What the system calls promise\<close>

definition kernel_ok :: "memory_map \<Rightarrow> ('m, 'h) kstate \<Rightarrow> bool" where
  "kernel_ok mm k \<longleftrightarrow>
     vfs_ok (k_vfs k) \<and> length (k_fds k) = MAX_FDS \<and> pipes_ok (k_pipes k) \<and> ipc_ok (k_ipc k) \<and>
     sig_ok (k_sig k) \<and> tasks_ok (k_tasks k) \<and> entries_ok MAX_VARS (ev_vars (k_env k)) \<and>
     shm_ok mm (mc_frames (k_mc k)) (k_shm k) \<and> userspace_ok (k_user k) \<and> ut_next_pid (k_user k) \<noteq> 0"

text \<open>A freshly started kernel on a small machine.\<close>

definition sample_platform :: "(nat \<Rightarrow> nat option) platform" where
  "sample_platform = \<lparr>pl_read = sample_translate, pl_write = sample_translate, pl_map_to = sample_map_to, pl_unmap = sample_unmap,
     pl_gen = (\<lambda>_. []), pl_libc = ([], []),
     pl_env = \<lparr>pe_hms = (0, 0, 0), pe_ticks = 0, pe_heap = (0, 0, 0), pe_tasks = [], pe_brand = ''cpu'', pe_cores = 1,
       pe_has_apic = False, pe_has_sse = False, pe_modules = [], pe_pid = 0\<rparr>, pl_rsp = 0, pl_cr3 = 0\<rparr>"

definition sample_kernel :: "(nat \<Rightarrow> nat option, unit) kstate" where
  "sample_kernel = \<lparr>k_sig = \<lparr>ss_table = [], ss_tasks = task_init tasks_boot\<rparr>, k_filters = seccomp_init,
     k_audit = \<lparr>au_denied = 0, au_auth_fail = 0, au_auth_ok = 0, au_cap_denied = 0, au_seccomp = 0, au_log = []\<rparr>,
     k_caps = caps_init, k_pipes = pipefs_boot, k_ipc = CHANNELS_init, k_user = userspace_boot,
     k_mc = sample_machine\<lparr>mc_frames := block_boot\<rparr>, k_env = env_new, k_shm = shmem_new, k_mmap_next = 0x1000000,
     k_ticks = 0, k_screen = [], k_retval = 0\<rparr>"

lemma sample_kernel_ok: "kernel_ok block_map sample_kernel"
proof -
  have "pipes_ok pipefs_boot"
    by (auto simp: pipes_ok_def pipe_at_def pipefs_boot_def pipefs_init_def pipe_table_new_def pipe_get_mut_def)
  moreover have "vfs_ok (pf_vfs pipefs_boot)" "length (pf_fds pipefs_boot) = MAX_FDS"
    using fs_ok_new by (simp_all add: pipefs_boot_def pipefs_init_def boot_fs vfs_ok_def fd_init_def FD_TABLE_init_def Let_def)
  moreover have "shm_ok block_map block_boot shmem_new"
    unfolding block_boot_def by (rule shm_ok_boot) (simp add: block_frames PAGE_SIZE_def)
  moreover have "tasks_ok (task_init tasks_boot)" using running_ok_init by (simp add: running_ok_def)
  ultimately show ?thesis
    using CHANNELS_init_ok userspace_boot_ok
    by (simp add: kernel_ok_def sample_kernel_def k_defs sig_ok_def entries_ok_def env_new_def userspace_boot_def)
qed





text \<open>
  C12. A system call that the caller's filter forbids does nothing: whatever its number and arguments,
  no module's state changes, the violation is recorded, and the caller, and no other task, is dead
  afterwards.
\<close>

theorem forbidden_call_contained:
  assumes "tasks_ok (k_tasks k)" and "pid = current_pid (k_tasks k)" and "seccomp_check (k_filters k) pid num = Kill"
  shows "\<exists>k'. sys_dispatch pl k num arg1 arg2 arg3 = Some (Exits k') \<and>
     k'\<lparr>k_sig := k_sig k, k_audit := k_audit k\<rparr> = k \<and> ss_table (k_sig k') = ss_table (k_sig k) \<and>
     k_audit k' = audit_log (k_audit k) (SeccompViolation pid num) \<and>
     (\<forall>p. list_ex (live_pid p) (ts_slots (k_tasks k')) = (p \<noteq> pid \<and> list_ex (live_pid p) (ts_slots (k_tasks k))))"
proof -
  define k' where "k' = set_tasks (snd (task_exit (k_tasks k) (pl_rsp pl))) (k\<lparr>k_audit := audit_log (k_audit k) (SeccompViolation pid num)\<rparr>)"
  have "sys_dispatch pl k num arg1 arg2 arg3 = Some (Exits k')"
    using assms(2, 3) by (simp add: sys_dispatch_def k'_def Let_def k_tasks_def)
  moreover have "k_tasks k' = snd (task_exit (k_tasks k) (pl_rsp pl))" by (simp add: k'_def k_defs)
  ultimately show ?thesis using exit_live [OF assms(1)] assms(2) by (intro exI [of _ k']) (simp add: k'_def k_defs)
qed

theorem forbidden_call_contained_witness:
  "\<exists>k'. sys_dispatch sample_platform (sample_kernel\<lparr>k_filters := seccomp_strict [] 0\<rparr>) 111 0 0 0 = Some (Exits k') \<and>
     k_user k' = k_user sample_kernel \<and> \<not> list_ex (live_pid 0) (ts_slots (k_tasks k'))"
proof -
  let ?k = "sample_kernel\<lparr>k_filters := seccomp_strict [] 0\<rparr>"
  have ok: "tasks_ok (k_tasks ?k)" using sample_kernel_ok by (simp add: kernel_ok_def k_defs)
  have pid: "0 = current_pid (k_tasks ?k)"
    by (simp add: k_defs sample_kernel_def current_pid_def task_init_def tasks_boot_def MAX_TASKS_def nth_default_def)
  have "seccomp_check (k_filters ?k) 0 111 = Kill"
    by (simp add: seccomp_check_def seccomp_strict_def seccomp_set_def MAX_FILTERS_def MAX_SYSCALLS_def)
  from forbidden_call_contained [OF ok pid this, of sample_platform 0 0 0]
  obtain k' where k': "sys_dispatch sample_platform ?k 111 0 0 0 = Some (Exits k')" "k'\<lparr>k_sig := k_sig ?k, k_audit := k_audit ?k\<rparr> = ?k"
    "\<not> list_ex (live_pid 0) (ts_slots (k_tasks k'))" by auto
  have "k_user k' = k_user sample_kernel" using arg_cong [OF k'(2), of k_user] by simp
  then show ?thesis using k' by auto
qed

end
