(* ===== verification/Netstack.thy ===== *)
theory Netstack
  imports Be_Bytes Le_Bytes Rust_Parse
begin

text \<open>
  The packet layer: interface state and loopback (\<^verbatim>\<open>net.rs\<close>), the ARP table (\<^verbatim>\<open>netproto.rs\<close>) and the
  Ethernet, ARP, IPv4, UDP and ICMP builders with the receive path (\<^verbatim>\<open>netstack.rs\<close>). The network card
  is a queue of frames that have arrived and a list of frames it has accepted; whether it accepts
  a frame is a parameter \<open>nic\<close>. Log lines are left out. A checked addition that overflows is a panic,
  which is \<open>None\<close>.
\<close>

section \<open>Interface state\<close>

definition ETH_HEADER_LEN :: usize where "ETH_HEADER_LEN = 14"
definition IPV4_HEADER_LEN :: usize where "IPV4_HEADER_LEN = 20"
definition UDP_HEADER_LEN :: usize where "UDP_HEADER_LEN = 8"
definition ICMP_ECHO_ID :: u16 where "ICMP_ECHO_ID = 0x4D4C"
definition ETH_TYPE_ARP :: u16 where "ETH_TYPE_ARP = 0x0806"
definition ETH_TYPE_IP :: u16 where "ETH_TYPE_IP = 0x0800"
definition ARP_TABLE_SIZE :: usize where "ARP_TABLE_SIZE = 16"

type_synonym ip_addr = "u8 \<times> u8 \<times> u8 \<times> u8"
type_synonym mac_addr = "u8 \<times> u8 \<times> u8 \<times> u8 \<times> u8 \<times> u8"

fun ip_bytes :: "ip_addr \<Rightarrow> u8 list" where
  "ip_bytes (a, b, c, d) = [a, b, c, d]"

fun mac_bytes :: "mac_addr \<Rightarrow> u8 list" where
  "mac_bytes (a, b, c, d, e, f) = [a, b, c, d, e, f]"

definition LOOPBACK :: ip_addr where "LOOPBACK = (127, 0, 0, 1)"
definition IP_BROADCAST :: ip_addr where "IP_BROADCAST = (255, 255, 255, 255)"
definition MAC_BROADCAST :: mac_addr where "MAC_BROADCAST = (0xFF, 0xFF, 0xFF, 0xFF, 0xFF, 0xFF)"

record net_packet =
  np_src_ip :: ip_addr
  np_dst_ip :: ip_addr
  np_src_port :: u16
  np_dst_port :: u16
  np_protocol :: str
  np_data :: "u8 list"

record network_state =
  ns_mac :: mac_addr
  ns_ip :: ip_addr
  ns_gateway :: ip_addr
  ns_netmask :: ip_addr
  ns_rx_packets :: u64
  ns_tx_packets :: u64
  ns_rx_bytes :: u64
  ns_tx_bytes :: u64
  ns_loopback :: "net_packet list"

definition network_new :: network_state where
  "network_new = \<lparr>ns_mac = (0x52, 0x54, 0x00, 0x12, 0x34, 0x56), ns_ip = (10, 0, 2, 15), ns_gateway = (10, 0, 2, 2),
     ns_netmask = (255, 255, 255, 0), ns_rx_packets = 0, ns_tx_packets = 0, ns_rx_bytes = 0, ns_tx_bytes = 0, ns_loopback = []\<rparr>"

definition count_tx :: "usize \<Rightarrow> network_state \<Rightarrow> network_state" where
  "count_tx n st = st\<lparr>ns_tx_packets := ns_tx_packets st + 1, ns_tx_bytes := ns_tx_bytes st + of_nat n\<rparr>"

definition count_rx :: "usize \<Rightarrow> network_state \<Rightarrow> network_state" where
  "count_rx n st = st\<lparr>ns_rx_packets := ns_rx_packets st + 1, ns_rx_bytes := ns_rx_bytes st + of_nat n\<rparr>"

definition net_send_udp :: "network_state \<Rightarrow> ip_addr \<Rightarrow> u16 \<Rightarrow> u16 \<Rightarrow> u8 list \<Rightarrow> network_state" where
  "net_send_udp st dst_ip dst_port src_port data =
     (let packet = \<lparr>np_src_ip = ns_ip st, np_dst_ip = dst_ip, np_src_port = src_port, np_dst_port = dst_port,
            np_protocol = ''UDP'', np_data = data\<rparr>;
          st1 = count_tx (length data) st
      in if dst_ip = ns_ip st1 \<or> dst_ip = LOOPBACK
         then (count_rx (length data) st1)\<lparr>ns_loopback := ns_loopback st1 @ [packet]\<rparr> else st1)"

definition net_recv :: "network_state \<Rightarrow> net_packet list \<times> network_state" where
  "net_recv st = (ns_loopback st, st\<lparr>ns_loopback := []\<rparr>)"

definition net_resolve :: "str \<Rightarrow> ip_addr option" where
  "net_resolve hostname =
     (if hostname = ''localhost'' then Some LOOPBACK
      else if hostname = ''gateway'' then Some (10, 0, 2, 2)
      else if hostname = ''self'' then Some (10, 0, 2, 15)
      else case map (parse_uint 256) (split_on CHR ''.'' hostname) of
          [Some a, Some b, Some c, Some d] \<Rightarrow> Some (of_nat a, of_nat b, of_nat c, of_nat d)
        | _ \<Rightarrow> None)"

section \<open>ARP table\<close>

type_synonym arp_table = "(ip_addr \<times> mac_addr) list"

definition arp_insert :: "arp_table \<Rightarrow> ip_addr \<Rightarrow> mac_addr \<Rightarrow> arp_table" where
  "arp_insert table ip mac =
     (if list_ex (\<lambda>e. fst e = ip) table then update_first (\<lambda>e. fst e = ip) (\<lambda>e. (fst e, mac)) table
      else if length table < ARP_TABLE_SIZE then table @ [(ip, mac)] else table)"

definition arp_lookup :: "arp_table \<Rightarrow> ip_addr \<Rightarrow> mac_addr option" where
  "arp_lookup table ip = map_option snd (find (\<lambda>e. fst e = ip) table)"

definition arp_list :: "arp_table \<Rightarrow> (ip_addr \<times> mac_addr) list" where
  "arp_list table = table"

section \<open>Checksum\<close>

text \<open>The sum of the 16-bit words, an odd last byte being the high byte of a word.\<close>

fun sum_words :: "u8 list \<Rightarrow> nat" where
  "sum_words (a # b # bs) = unat (u16_from_be a b) + sum_words bs"
| "sum_words [a] = 256 * unat a"
| "sum_words [] = 0"

lemma carry_less: "s div 65536 \<noteq> 0 \<Longrightarrow> s mod 65536 + s div 65536 < (s :: nat)"
  using div_mult_mod_eq [of s 65536] by linarith

function fold_carry :: "nat \<Rightarrow> nat" where
  "fold_carry s = (if s div 65536 \<noteq> 0 then fold_carry (s mod 65536 + s div 65536) else s)"
  by pat_completeness auto
termination by (relation "measure (\<lambda>s. s)") (auto simp only: in_measure carry_less)

declare fold_carry.simps [simp del]

definition ip_checksum :: "u8 list \<Rightarrow> u16 option" where
  "ip_checksum data =
     (if sum_words data \<ge> 2 ^ 32 then None else Some (NOT (of_nat (fold_carry (sum_words data)))))"

section \<open>Sending\<close>

record netstack =
  st_net :: network_state
  st_arp :: arp_table
  st_tx :: "u8 list list"
  st_rx :: "u8 list list"

definition send_ethernet ::
  "(u8 list list \<Rightarrow> u8 list \<Rightarrow> bool) \<Rightarrow> netstack \<Rightarrow> mac_addr \<Rightarrow> u16 \<Rightarrow> u8 list \<Rightarrow> bool \<times> netstack" where
  "send_ethernet nic st dst_mac ethertype payload =
     (let frame = mac_bytes dst_mac @ mac_bytes (ns_mac (st_net st)) @ u16_to_be ethertype @ payload
      in if nic (st_tx st) frame
         then (True, st\<lparr>st_tx := st_tx st @ [frame], st_net := count_tx (length frame) (st_net st)\<rparr>)
         else (False, st))"

definition send_arp_request ::
  "(u8 list list \<Rightarrow> u8 list \<Rightarrow> bool) \<Rightarrow> netstack \<Rightarrow> ip_addr \<Rightarrow> bool \<times> netstack" where
  "send_arp_request nic st target_ip =
     send_ethernet nic st MAC_BROADCAST ETH_TYPE_ARP
       (u16_to_be 1 @ u16_to_be 0x0800 @ [6, 4] @ u16_to_be 1 @ mac_bytes (ns_mac (st_net st)) @ ip_bytes (ns_ip (st_net st)) @
        replicate 6 0 @ ip_bytes target_ip)"

definition resolve_dst_mac :: "netstack \<Rightarrow> ip_addr \<Rightarrow> mac_addr" where
  "resolve_dst_mac st dst_ip =
     (if dst_ip = IP_BROADCAST then MAC_BROADCAST
      else case arp_lookup (st_arp st) dst_ip of Some mac \<Rightarrow> mac | None \<Rightarrow> MAC_BROADCAST)"

text \<open>The IPv4 header without its checksum.\<close>

definition ipv4_header :: "ip_addr \<Rightarrow> ip_addr \<Rightarrow> u8 \<Rightarrow> usize \<Rightarrow> u8 list" where
  "ipv4_header src_ip dst_ip protocol payload_len =
     [0x45, 0] @ u16_to_be (of_nat (IPV4_HEADER_LEN + payload_len)) @ u16_to_be 1 @ u16_to_be 0x4000 @ [64, protocol] @ [0, 0] @
     ip_bytes src_ip @ ip_bytes dst_ip"

definition send_ipv4 ::
  "(u8 list list \<Rightarrow> u8 list \<Rightarrow> bool) \<Rightarrow> netstack \<Rightarrow> ip_addr \<Rightarrow> u8 \<Rightarrow> u8 list \<Rightarrow> (bool \<times> netstack) option" where
  "send_ipv4 nic st dst_ip protocol payload =
     (let ip_hdr = ipv4_header (ns_ip (st_net st)) dst_ip protocol (length payload)
      in case ip_checksum ip_hdr of
           None \<Rightarrow> None
         | Some cksum \<Rightarrow>
             Some (send_ethernet nic st (resolve_dst_mac st dst_ip) ETH_TYPE_IP (splice 10 (u16_to_be cksum) ip_hdr @ payload)))"

definition pseudo_header :: "ip_addr \<Rightarrow> ip_addr \<Rightarrow> u8 \<Rightarrow> usize \<Rightarrow> u8 list" where
  "pseudo_header src_ip dst_ip protocol len = ip_bytes src_ip @ ip_bytes dst_ip @ [0, protocol] @ u16_to_be (of_nat len)"

definition udp_checksum :: "ip_addr \<Rightarrow> ip_addr \<Rightarrow> u8 list \<Rightarrow> u16 option" where
  "udp_checksum src_ip dst_ip udp_segment =
     map_option (\<lambda>ck. if ck = 0 then 0xFFFF else ck)
       (ip_checksum (pseudo_header src_ip dst_ip 17 (length udp_segment) @ udp_segment))"

definition send_udp ::
  "(u8 list list \<Rightarrow> u8 list \<Rightarrow> bool) \<Rightarrow> netstack \<Rightarrow> ip_addr \<Rightarrow> u16 \<Rightarrow> u16 \<Rightarrow> u8 list \<Rightarrow> (bool \<times> netstack) option" where
  "send_udp nic st dst_ip src_port dst_port data =
     (let udp = u16_to_be src_port @ u16_to_be dst_port @ u16_to_be (of_nat (UDP_HEADER_LEN + length data)) @ u16_to_be 0 @ data
      in case udp_checksum (ns_ip (st_net st)) dst_ip udp of
           None \<Rightarrow> None
         | Some cksum \<Rightarrow> send_ipv4 nic st dst_ip 17 (splice 6 (u16_to_be cksum) udp))"

definition send_icmp_echo ::
  "(u8 list list \<Rightarrow> u8 list \<Rightarrow> bool) \<Rightarrow> netstack \<Rightarrow> ip_addr \<Rightarrow> u16 \<Rightarrow> (bool \<times> netstack) option" where
  "send_icmp_echo nic st dst_ip seq =
     (let icmp = [8, 0] @ u16_to_be 0 @ u16_to_be ICMP_ECHO_ID @ u16_to_be seq @ map of_nat [0..<56]
      in case ip_checksum icmp of
           None \<Rightarrow> None
         | Some cksum \<Rightarrow> send_ipv4 nic st dst_ip 1 (splice 2 (u16_to_be cksum) icmp))"

section \<open>Receiving\<close>

record received_frame =
  rf_src_mac :: "u8 list"
  rf_dst_mac :: "u8 list"
  rf_ethertype :: u16
  rf_payload :: "u8 list"

definition poll_rx :: "netstack \<Rightarrow> received_frame option \<times> netstack" where
  "poll_rx st =
     (case st_rx st of
        [] \<Rightarrow> (None, st)
      | raw # rest \<Rightarrow>
          let st1 = st\<lparr>st_rx := rest\<rparr> in
          if length raw < ETH_HEADER_LEN then (None, st1)
          else (Some \<lparr>rf_src_mac = slice 6 6 raw, rf_dst_mac = slice 0 6 raw, rf_ethertype = u16_from_be (raw ! 12) (raw ! 13),
                  rf_payload = drop ETH_HEADER_LEN raw\<rparr>,
                st1\<lparr>st_net := count_rx (length raw) (st_net st1)\<rparr>))"

section \<open>The checksum is the Internet checksum\<close>

lemma fold_carry_small: "s < 65536 \<Longrightarrow> fold_carry s = s"
  by (subst fold_carry.simps) simp

lemma fold_carry_step: "s div 65536 \<noteq> 0 \<Longrightarrow> fold_carry s = fold_carry (s mod 65536 + s div 65536)"
  by (subst fold_carry.simps) simp

lemma carry_mod: "(s mod 65536 + s div 65536) mod 65535 = s mod (65535 :: nat)"
proof -
  have "s = 65535 * (s div 65536) + (s mod 65536 + s div 65536)" using div_mult_mod_eq [of s 65536] by linarith
  then show ?thesis by (metis mod_mult_self4)
qed

lemma fold_carry_props: "fold_carry s < 65536 \<and> fold_carry s mod 65535 = s mod 65535 \<and> (fold_carry s = 0 \<longleftrightarrow> s = 0)"
proof (induction s rule: fold_carry.induct)
  case (1 s)
  show ?case
  proof (cases "s div 65536 \<noteq> 0")
    case True
    then show ?thesis using 1 [OF True] carry_mod [of s] by (auto simp: fold_carry_step)
  next
    case False
    then have "s < 65536" by (simp add: div_eq_0_iff)
    then show ?thesis by (simp add: fold_carry_small)
  qed
qed

lemma sum_words_append: "even (length xs) \<Longrightarrow> sum_words (xs @ ys) = sum_words xs + sum_words ys"
  by (induction xs rule: sum_words.induct) auto

lemma sum_words_u16 [simp]: "sum_words (u16_to_be w @ ys) = unat w + sum_words ys"
  by (simp add: u16_to_be_def)

lemma sum_words_bound: "sum_words xs \<le> 65535 * ((length xs + 1) div 2)"
proof (induction xs rule: sum_words.induct)
  case (1 a b bs)
  then show ?case using unsigned_less [of "u16_from_be a b", where 'a = nat] by simp
next
  case (2 a)
  then show ?case using unsigned_less [of a, where 'a = nat] by simp
qed simp

lemma unat_max_u16 [simp]: "unat (- 1 :: u16) = 65535"
  by (simp only: unsigned_minus_1_eq_mask) (simp add: mask_eq_exp_minus_1)

lemma unat_not_u16: "unat (NOT w) = 65535 - unat (w :: u16)"
proof -
  have "NOT w = - 1 - w" by (simp add: not_eq_complement)
  then show ?thesis using unat_sub [of w "- 1"] by simp
qed

lemma checksum_zero:
  assumes "sum_words d = t" and "t mod 65535 = 0" and "t \<noteq> 0" and "t < 2 ^ 32"
  shows "ip_checksum d = Some 0"
proof -
  have "fold_carry t mod 65535 = 0" "fold_carry t \<noteq> 0" "fold_carry t < 65536" using fold_carry_props [of t] assms(2, 3) by auto
  moreover then obtain q where "fold_carry t = 65535 * q" by (auto simp: mod_eq_0_iff_dvd elim: dvdE)
  ultimately have "fold_carry t = 65535" by simp
  then show ?thesis using assms(1, 4) by (simp add: ip_checksum_def)
qed

lemma checksum_value:
  assumes "ip_checksum d = Some c" shows "unat c = 65535 - fold_carry (sum_words d)"
  using assms fold_carry_props [of "sum_words d"] by (auto simp: ip_checksum_def unat_not_u16 unat_of_nat split: if_splits)

text \<open>Filling a zeroed field at an even offset with the checksum makes the sum a nonzero multiple of
  \<open>65535\<close>; so does filling it with all ones in place of a checksum of 0.\<close>

lemma checksum_complement:
  assumes "ip_checksum d = Some c" and "c' = c \<or> c = 0 \<and> c' = 0xFFFF"
  shows "(sum_words d + unat c') mod 65535 = 0" and "sum_words d + unat c' \<noteq> 0"
proof -
  let ?s = "sum_words d"
  have fc: "fold_carry ?s < 65536" "?s mod 65535 = fold_carry ?s mod 65535" "fold_carry ?s = 0 \<longleftrightarrow> ?s = 0"
    using fold_carry_props [of ?s] by auto
  have "fold_carry ?s + unat c' = 65535 \<or> fold_carry ?s + unat c' = 2 * 65535"
    using checksum_value [OF assms(1)] assms(2) fc(1) by auto
  then have "(fold_carry ?s + unat c') mod 65535 = 0" by auto
  then show "(?s + unat c') mod 65535 = 0" using fc(2) by (metis mod_add_left_eq)
  show "?s + unat c' \<noteq> 0" using checksum_value [OF assms(1)] assms(2) fc(3) by auto
qed

lemma checksum_verifies:
  assumes "ip_checksum (pre @ u16_to_be 0 @ post) = Some c" and "even (length pre)" and "c' = c \<or> c = 0 \<and> c' = 0xFFFF"
    and "length pre + length post < 100000"
  shows "ip_checksum (pre @ u16_to_be c' @ post) = Some 0"
proof (rule checksum_zero)
  let ?d = "pre @ u16_to_be 0 @ post"
  show "sum_words (pre @ u16_to_be c' @ post) = sum_words ?d + unat c'" using assms(2) by (simp add: sum_words_append)
  show "(sum_words ?d + unat c') mod 65535 = 0" "sum_words ?d + unat c' \<noteq> 0" by (rule checksum_complement [OF assms(1, 3)])+
  have "sum_words ?d \<le> 65535 * ((length ?d + 1) div 2)" by (rule sum_words_bound)
  also have "\<dots> \<le> 65535 * 60000" using assms(4) by simp
  finally have "sum_words ?d \<le> 65535 * 60000" .
  moreover have "unat c' < 65536" using unsigned_less [of c', where 'a = nat] by simp
  ultimately show "sum_words ?d + unat c' < 2 ^ 32" by simp
qed

lemma checksum_defined: "length d < 100000 \<Longrightarrow> \<exists>c. ip_checksum d = Some c"
  using sum_words_bound [of d] by (simp add: ip_checksum_def)

lemma splice_u16: "splice (length pre) (u16_to_be c) (pre @ u16_to_be z @ post) = pre @ u16_to_be c @ post"
  by (simp add: splice_def)

section \<open>What a conforming receiver reads\<close>

text \<open>The receiver of RFC 791 and RFC 768 as a reference: it takes a packet only when the version, the header
  length, the total length and the checksums are right.\<close>

definition ipv4_receive :: "u8 list \<Rightarrow> (ip_addr \<times> ip_addr \<times> u8 \<times> u8 list) option" where
  "ipv4_receive p =
     (if length p \<ge> 20 \<and> p ! 0 = 0x45 \<and> ip_checksum (take 20 p) = Some 0 \<and> unat (u16_from_be (p ! 2) (p ! 3)) = length p
      then Some ((p ! 12, p ! 13, p ! 14, p ! 15), (p ! 16, p ! 17, p ! 18, p ! 19), p ! 9, drop 20 p) else None)"

definition udp_receive :: "ip_addr \<times> ip_addr \<times> u8 \<times> u8 list \<Rightarrow> (u16 \<times> u16 \<times> u8 list) option" where
  "udp_receive = (\<lambda>(src, dst, protocol, seg).
     if protocol = 17 \<and> length seg \<ge> 8 \<and> unat (u16_from_be (seg ! 4) (seg ! 5)) = length seg \<and>
        u16_from_be (seg ! 6) (seg ! 7) \<noteq> 0 \<and> ip_checksum (pseudo_header src dst 17 (length seg) @ seg) = Some 0
     then Some (u16_from_be (seg ! 0) (seg ! 1), u16_from_be (seg ! 2) (seg ! 3), drop 8 seg) else None)"

lemma ipv4_header_split:
  "ipv4_header src dst proto n =
     ([0x45, 0] @ u16_to_be (of_nat (20 + n)) @ u16_to_be 1 @ u16_to_be 0x4000 @ [64, proto]) @ u16_to_be 0 @ (ip_bytes src @ ip_bytes dst)"
  by (simp add: ipv4_header_def IPV4_HEADER_LEN_def u16_to_be_def)

lemma length_ip_bytes [simp]: "length (ip_bytes a) = 4" by (cases a) simp
lemma length_mac_bytes [simp]: "length (mac_bytes m) = 6" by (cases m) simp

lemma unat_of_nat_u16: "n < 65536 \<Longrightarrow> unat (of_nat n :: u16) = n"
  by (simp add: unat_of_nat)

text \<open>What the card is given: one frame, whose payload a conforming receiver takes apart into the
  addresses, the protocol and the payload that were sent.\<close>

lemma send_ipv4_frame:
  assumes len: "length payload \<le> 65515"
  obtains p where "ipv4_receive p = Some (ns_ip (st_net st), dst, proto, payload)"
    and "send_ipv4 nic st dst proto payload = Some (send_ethernet nic st (resolve_dst_mac st dst) ETH_TYPE_IP p)"
    and "length p = 20 + length payload"
proof -
  obtain s0 s1 s2 s3 where src: "ns_ip (st_net st) = (s0, s1, s2, s3)" by (cases "ns_ip (st_net st)")
  obtain d0 d1 d2 d3 where dst: "dst = (d0, d1, d2, d3)" by (cases dst)
  define tl :: u16 where "tl = of_nat (20 + length payload)"
  have tl: "unat tl = 20 + length payload" unfolding tl_def by (rule unat_of_nat_u16) (use len in simp)
  note split = ipv4_header_split [of _ _ _ "length payload", folded tl_def]
  let ?pre = "[0x45, 0] @ u16_to_be tl @ u16_to_be 1 @ u16_to_be 0x4000 @ [64, proto]"
  let ?post = "ip_bytes (ns_ip (st_net st)) @ ip_bytes dst"
  obtain c where c: "ip_checksum (ipv4_header (ns_ip (st_net st)) dst proto (length payload)) = Some c"
    using checksum_defined [of "ipv4_header (ns_ip (st_net st)) dst proto (length payload)"] by (auto simp: split)
  have ok: "ip_checksum (?pre @ u16_to_be c @ ?post) = Some 0"
    using c unfolding split by (rule checksum_verifies) simp_all
  have h: "splice 10 (u16_to_be c) (ipv4_header (ns_ip (st_net st)) dst proto (length payload)) = ?pre @ u16_to_be c @ ?post"
    using splice_u16 [of ?pre c 0 ?post] unfolding split by simp
  let ?p = "(?pre @ u16_to_be c @ ?post) @ payload"
  have tk: "take 20 ?p = ?pre @ u16_to_be c @ ?post" by simp
  have "ipv4_receive ?p = Some (ns_ip (st_net st), dst, proto, payload)"
    unfolding ipv4_receive_def tk ok by (simp add: src dst u16_to_be_def tl)
  then show ?thesis by (rule that) (simp_all add: send_ipv4_def c h)
qed

lemma send_udp_frame:
  assumes len: "length data \<le> 65507"
  obtains p seg where "ipv4_receive p = Some (ns_ip (st_net st), dst, 17, seg)"
    and "udp_receive (ns_ip (st_net st), dst, 17, seg) = Some (sp, dp, data)"
    and "send_udp nic st dst sp dp data = Some (send_ethernet nic st (resolve_dst_mac st dst) ETH_TYPE_IP p)"
    and "length p = 28 + length data"
proof -
  let ?src = "ns_ip (st_net st)"
  define ul :: u16 where "ul = of_nat (8 + length data)"
  have ul: "unat ul = 8 + length data" unfolding ul_def by (rule unat_of_nat_u16) (use len in simp)
  let ?pre = "u16_to_be sp @ u16_to_be dp @ u16_to_be ul"
  let ?ph = "pseudo_header ?src dst 17 (8 + length data)"
  let ?udp = "?pre @ u16_to_be 0 @ data"
  have lph: "length ?ph = 12" by (simp add: pseudo_header_def)
  obtain c where c: "ip_checksum ((?ph @ ?pre) @ u16_to_be 0 @ data) = Some c"
    using checksum_defined [of "(?ph @ ?pre) @ u16_to_be 0 @ data"] lph len by auto
  define c' where "c' = (if c = 0 then 0xFFFF else c)"
  have lu: "length ?udp = 8 + length data" by simp
  have cks: "udp_checksum ?src dst ?udp = Some c'" unfolding udp_checksum_def lu using c by (simp add: c'_def)
  have ok: "ip_checksum ((?ph @ ?pre) @ u16_to_be c' @ data) = Some 0"
    using c by (rule checksum_verifies) (use lph len in \<open>auto simp: c'_def\<close>)
  let ?seg = "?pre @ u16_to_be c' @ data"
  have sp: "splice 6 (u16_to_be c') ?udp = ?seg" using splice_u16 [of ?pre c' 0 data] by simp
  have nz: "c' \<noteq> 0" by (simp add: c'_def)
  obtain p where p: "ipv4_receive p = Some (?src, dst, 17, ?seg)"
      "send_ipv4 nic st dst 17 ?seg = Some (send_ethernet nic st (resolve_dst_mac st dst) ETH_TYPE_IP p)" "length p = 20 + length ?seg"
    by (rule send_ipv4_frame [of ?seg st dst 17 nic]) (use len in simp_all)
  have ls: "length ?seg = 8 + length data" by simp
  have ok': "ip_checksum (?ph @ ?seg) = Some 0" using ok by simp
  have "udp_receive (?src, dst, 17, ?seg) = Some (sp, dp, data)"
    using ok' nz unfolding udp_receive_def prod.case ls by (simp add: u16_to_be_def ul)
  moreover have "send_udp nic st dst sp dp data = send_ipv4 nic st dst 17 ?seg"
    
    using cks sp unfolding send_udp_def UDP_HEADER_LEN_def Let_def ul_def [symmetric] by simp
  ultimately show ?thesis using p by (intro that [of p ?seg]) simp_all
qed

lemma ethernet_received:
  fixes peer :: netstack
  assumes "send_ethernet nic st mac ty p = (True, st')" and "st_rx peer = [List.last (st_tx st')]"
  shows "\<exists>f peer'. poll_rx peer = (Some f, peer') \<and> rf_ethertype f = ty \<and> rf_payload f = p \<and> st_rx peer' = [] \<and>
    rf_src_mac f = mac_bytes (ns_mac (st_net st)) \<and> rf_dst_mac f = mac_bytes mac"
proof -
  let ?h = "mac_bytes mac @ mac_bytes (ns_mac (st_net st))"
  have fr: "List.last (st_tx st') = ?h @ u16_to_be ty @ p" using assms(1) by (auto simp: send_ethernet_def Let_def split: if_splits)
  have "(?h @ u16_to_be ty @ p) ! 12 = u16_to_be ty ! 0" "(?h @ u16_to_be ty @ p) ! 13 = u16_to_be ty ! 1"
    by (simp_all add: nth_append)
  then show ?thesis
    using assms(2) unfolding fr by (simp add: poll_rx_def ETH_HEADER_LEN_def slice_def Let_def u16_to_be_def)
qed


definition netstack_init :: netstack where
  "netstack_init = \<lparr>st_net = network_new, st_arp = [], st_tx = [], st_rx = []\<rparr>"


section \<open>The ARP table\<close>

definition arp_ok :: "arp_table \<Rightarrow> bool" where
  "arp_ok table \<longleftrightarrow> distinct (map fst table) \<and> length table \<le> ARP_TABLE_SIZE"

lemma arp_keys_update [simp]: "map fst (update_first (\<lambda>e. fst e = ip) (\<lambda>e. (fst e, mac)) table) = map fst table"
  by (induction table) auto

lemma length_update_first_arp [simp]: "length (update_first P f table) = length table"
  by (induction table) auto

lemma arp_insert_ok: "arp_ok table \<Longrightarrow> arp_ok (arp_insert table ip mac)"
  by (auto simp: arp_ok_def arp_insert_def list_ex_iff)

lemma find_update_first:
  "find (\<lambda>e. fst e = ip') (update_first (\<lambda>e. fst e = ip) (\<lambda>e. (fst e, mac)) table) =
     (if ip' = ip then map_option (\<lambda>e. (ip, mac)) (find (\<lambda>e. fst e = ip) table) else find (\<lambda>e. fst e = ip') table)"
  by (induction table) auto

lemma arp_lookup_insert:
  assumes "list_ex (\<lambda>e. fst e = ip) table \<or> length table < ARP_TABLE_SIZE"
  shows "arp_lookup (arp_insert table ip mac) ip' = (if ip' = ip then Some mac else arp_lookup table ip')"
proof (cases "list_ex (\<lambda>e. fst e = ip) table")
  case True
  then obtain e where "find (\<lambda>e. fst e = ip) table = Some e" by (metis (mono_tags, lifting) find_None_iff list_ex_iff not_None_eq)
  then show ?thesis using True by (simp add: arp_lookup_def arp_insert_def find_update_first)
next
  case False
  then have "find (\<lambda>e. fst e = ip) table = None" by (auto simp: list_ex_iff find_None_iff)
  then show ?thesis using False assms by (auto simp: arp_lookup_def arp_insert_def find_append split: option.split)
qed

end
