(* ===== verification/Tcp.thy ===== *)
theory Tcp
  imports Netstack "HOL-Library.Monad_Syntax"
begin

text \<open>
  The TCP implementation (\<^verbatim>\<open>tcp_real.rs\<close>): segment builder and parser, the socket table, the three-way handshake,
  data transfer, the closing handshake and the dispatch of received segments. The frames that arrive while
  the code waits for a timer tick are a parameter \<open>arrive\<close>, indexed by the iteration of the waiting loop;
  the tick counter readings are arguments. \<open>None\<close> is the panic of the checksum's checked
  addition, which only a segment of more than 100000 bytes can cause.
\<close>

section \<open>Segments\<close>

definition IP_PROTO_TCP :: u8 where "IP_PROTO_TCP = 6"
definition TCP_HEADER_LEN :: usize where "TCP_HEADER_LEN = 20"
definition MAX_SOCKETS :: usize where "MAX_SOCKETS = 16"
definition DEFAULT_WINDOW :: u16 where "DEFAULT_WINDOW = 8192"
definition MAX_RETRIES :: usize where "MAX_RETRIES = 200"
definition RECV_BUF_CAP :: usize where "RECV_BUF_CAP = 65536"
definition TCP_FIN :: u8 where "TCP_FIN = 0x01"
definition TCP_SYN :: u8 where "TCP_SYN = 0x02"
definition TCP_RST :: u8 where "TCP_RST = 0x04"
definition TCP_PSH :: u8 where "TCP_PSH = 0x08"
definition TCP_ACK :: u8 where "TCP_ACK = 0x10"

lemmas tcp_flags = TCP_FIN_def TCP_SYN_def TCP_RST_def TCP_PSH_def TCP_ACK_def

record tcp_header =
  th_src_port :: u16
  th_dst_port :: u16
  th_seq :: u32
  th_ack :: u32
  th_data_offset_flags :: u16
  th_window :: u16
  th_checksum :: u16
  th_urgent :: u16

definition tcp_checksum :: "ip_addr \<Rightarrow> ip_addr \<Rightarrow> u8 list \<Rightarrow> u16 option" where
  "tcp_checksum src_ip dst_ip tcp_data =
     ip_checksum (ip_bytes src_ip @ ip_bytes dst_ip @ [0, IP_PROTO_TCP] @ u16_to_be (of_nat (length tcp_data)) @ tcp_data)"

definition build_tcp_packet ::
  "ip_addr \<Rightarrow> ip_addr \<Rightarrow> u16 \<Rightarrow> u16 \<Rightarrow> u32 \<Rightarrow> u32 \<Rightarrow> u8 \<Rightarrow> u8 list \<Rightarrow> u8 list option" where
  "build_tcp_packet src_ip dst_ip src_port dst_port seq ack flags payload =
     (let segment = u16_to_be src_port @ u16_to_be dst_port @ u32_to_be seq @ u32_to_be ack @
            [push_bit 4 (of_nat TCP_HEADER_LEN div 4), flags] @ u16_to_be DEFAULT_WINDOW @ u16_to_be 0 @ u16_to_be 0 @ payload
      in map_option (\<lambda>cksum. splice 16 (u16_to_be cksum) segment) (tcp_checksum src_ip dst_ip segment))"

definition parse_tcp_header :: "u8 list \<Rightarrow> tcp_header option" where
  "parse_tcp_header data =
     (if length data < TCP_HEADER_LEN then None
      else Some \<lparr>th_src_port = u16_from_be (data ! 0) (data ! 1), th_dst_port = u16_from_be (data ! 2) (data ! 3),
        th_seq = u32_from_be (data ! 4) (data ! 5) (data ! 6) (data ! 7),
        th_ack = u32_from_be (data ! 8) (data ! 9) (data ! 10) (data ! 11),
        th_data_offset_flags = u16_from_be (data ! 12) (data ! 13), th_window = u16_from_be (data ! 14) (data ! 15),
        th_checksum = u16_from_be (data ! 16) (data ! 17), th_urgent = u16_from_be (data ! 18) (data ! 19)\<rparr>)"

definition header_flags :: "tcp_header \<Rightarrow> u8" where
  "header_flags hdr = ucast (th_data_offset_flags hdr AND 0x3F)"

definition header_data_offset :: "tcp_header \<Rightarrow> usize" where
  "header_data_offset hdr = unat (drop_bit 12 (th_data_offset_flags hdr) AND 0x0F) * 4"

definition segment_payload :: "u8 list \<Rightarrow> u8 list" where
  "segment_payload data =
     (if length data < TCP_HEADER_LEN then []
      else let offset = unat (drop_bit 4 (data ! 12)) * 4 in if offset \<ge> length data then [] else drop offset data)"

section \<open>Sockets\<close>

datatype tcp_state = Closed | Listen | SynSent | SynReceived | Established | FinWait1 | FinWait2 | CloseWait | Closing | LastAck | TimeWait

record tcp_socket =
  tk_state :: tcp_state
  tk_seq_num :: u32
  tk_ack_num :: u32
  tk_local_ip :: ip_addr
  tk_local_port :: u16
  tk_remote_ip :: ip_addr
  tk_remote_port :: u16
  tk_send_buf :: "u8 list"
  tk_recv_buf :: "u8 list"

record tcp =
  tcp_stack :: netstack
  tcp_sockets :: "tcp_socket list"

type_synonym card = "u8 list list \<Rightarrow> u8 list \<Rightarrow> bool"

definition send_segment ::
  "card \<Rightarrow> netstack \<Rightarrow> ip_addr \<Rightarrow> ip_addr \<Rightarrow> u16 \<Rightarrow> u16 \<Rightarrow> u32 \<Rightarrow> u32 \<Rightarrow> u8 \<Rightarrow> u8 list \<Rightarrow> (bool \<times> netstack) option" where
  "send_segment nic ns src_ip dst_ip src_port dst_port seq ack flags payload = do {
     segment \<leftarrow> build_tcp_packet src_ip dst_ip src_port dst_port seq ack flags payload;
     send_ipv4 nic ns dst_ip IP_PROTO_TCP segment
   }"

text \<open>The call every state handler makes with the socket's own addresses and numbers.\<close>

definition sock_send :: "card \<Rightarrow> netstack \<Rightarrow> tcp_socket \<Rightarrow> u8 \<Rightarrow> u8 list \<Rightarrow> (bool \<times> netstack) option" where
  "sock_send nic ns sock flags payload =
     send_segment nic ns (tk_local_ip sock) (tk_remote_ip sock) (tk_local_port sock) (tk_remote_port sock)
       (tk_seq_num sock) (tk_ack_num sock) flags payload"

definition sock_ack :: "card \<Rightarrow> netstack \<Rightarrow> tcp_socket \<Rightarrow> (tcp_socket \<times> netstack) option" where
  "sock_ack nic ns sock = map_option (\<lambda>r. (sock, snd r)) (sock_send nic ns sock TCP_ACK [])"

definition poll_tcp_segment :: "netstack \<Rightarrow> u16 \<Rightarrow> (tcp_header \<times> u8 list \<times> u8 list) option \<times> netstack" where
  "poll_tcp_segment ns local_port =
     (case poll_rx ns of
        (None, ns1) \<Rightarrow> (None, ns1)
      | (Some frame, ns1) \<Rightarrow>
          (let ip_payload = rf_payload frame; ihl = unat (ip_payload ! 0 AND 0x0F) * 4; tcp_data = drop ihl ip_payload
           in (if rf_ethertype frame \<noteq> ETH_TYPE_IP \<or> length ip_payload < 20 \<or> ip_payload ! 9 \<noteq> IP_PROTO_TCP \<or> length ip_payload < ihl
               then None
               else case parse_tcp_header tcp_data of
                   None \<Rightarrow> None
                 | Some hdr \<Rightarrow> if th_dst_port hdr \<noteq> local_port then None else Some (hdr, tcp_data, slice 12 4 ip_payload), ns1)))"

definition generate_isn :: "u64 \<Rightarrow> u32" where
  "generate_isn ticks = ucast (ticks * 2654435761)"

definition alloc_ephemeral_port :: "u64 \<Rightarrow> tcp \<Rightarrow> u16" where
  "alloc_ephemeral_port ticks st = (49152 + ucast ticks + of_nat (length (tcp_sockets st))) OR 1"

definition wait_tick :: "(nat \<Rightarrow> u8 list list) \<Rightarrow> nat \<Rightarrow> netstack \<Rightarrow> netstack" where
  "wait_tick arrive k ns = ns\<lparr>st_rx := st_rx ns @ arrive k\<rparr>"

section \<open>Opening\<close>

text \<open>The wait for the SYN-ACK; the result is the peer's initial sequence number.\<close>

fun await_synack :: "(nat \<Rightarrow> u8 list list) \<Rightarrow> u16 \<Rightarrow> u32 \<Rightarrow> nat \<Rightarrow> nat \<Rightarrow> netstack \<Rightarrow> (str + u32) \<times> netstack" where
  "await_synack arrive src_port isn 0 k ns = (Inl ''connection timed out waiting for SYN-ACK'', ns)"
| "await_synack arrive src_port isn (Suc n) k ns =
     (case poll_tcp_segment ns src_port of
        (None, ns1) \<Rightarrow> await_synack arrive src_port isn n (Suc k) (wait_tick arrive k ns1)
      | (Some (hdr, _, _), ns1) \<Rightarrow>
          let flags = header_flags hdr in
          if flags AND (TCP_SYN OR TCP_ACK) = TCP_SYN OR TCP_ACK \<and> th_ack hdr = isn + 1 then (Inr (th_seq hdr), ns1)
          else if flags AND TCP_RST \<noteq> 0 then (Inl ''connection refused (RST)'', ns1)
          else await_synack arrive src_port isn n (Suc k) (wait_tick arrive k ns1))"

definition tcp_connect ::
  "card \<Rightarrow> (nat \<Rightarrow> u8 list list) \<Rightarrow> u64 \<Rightarrow> u64 \<Rightarrow> tcp \<Rightarrow> ip_addr \<Rightarrow> u16 \<Rightarrow> ((str + usize) \<times> tcp) option" where
  "tcp_connect nic arrive port_ticks isn_ticks st dst_ip dst_port =
     (let src_ip = ns_ip (st_net (tcp_stack st)); src_port = alloc_ephemeral_port port_ticks st; isn = generate_isn isn_ticks in do {
        (ok, ns1) \<leftarrow> send_segment nic (tcp_stack st) src_ip dst_ip src_port dst_port isn 0 TCP_SYN [];
        if \<not> ok then Some (Inl ''failed to send SYN'', st\<lparr>tcp_stack := ns1\<rparr>)
        else case await_synack arrive src_port isn MAX_RETRIES 0 ns1 of
            (Inl e, ns2) \<Rightarrow> Some (Inl e, st\<lparr>tcp_stack := ns2\<rparr>)
          | (Inr peer_isn, ns2) \<Rightarrow>
              (let our_seq = isn + 1; our_ack = peer_isn + 1 in do {
                 (_, ns3) \<leftarrow> send_segment nic ns2 src_ip dst_ip src_port dst_port our_seq our_ack TCP_ACK [];
                 let st3 = st\<lparr>tcp_stack := ns3\<rparr>;
                 if length (tcp_sockets st3) \<ge> MAX_SOCKETS then Some (Inl ''socket table full'', st3)
                 else Some (Inr (length (tcp_sockets st3)),
                   st3\<lparr>tcp_sockets := tcp_sockets st3 @ [\<lparr>tk_state = Established, tk_seq_num = our_seq, tk_ack_num = our_ack,
                     tk_local_ip = src_ip, tk_local_port = src_port, tk_remote_ip = dst_ip, tk_remote_port = dst_port,
                     tk_send_buf = [], tk_recv_buf = []\<rparr>]\<rparr>)
               })
      })"

definition register_established :: "tcp \<Rightarrow> ip_addr \<Rightarrow> u16 \<Rightarrow> ip_addr \<Rightarrow> u16 \<Rightarrow> u32 \<Rightarrow> u32 \<Rightarrow> usize \<times> tcp" where
  "register_established st local_ip local_port remote_ip remote_port seq_num ack_num =
     (length (tcp_sockets st),
      st\<lparr>tcp_sockets := tcp_sockets st @ [\<lparr>tk_state = Established, tk_seq_num = seq_num, tk_ack_num = ack_num,
         tk_local_ip = local_ip, tk_local_port = local_port, tk_remote_ip = remote_ip, tk_remote_port = remote_port,
         tk_send_buf = [], tk_recv_buf = []\<rparr>]\<rparr>)"

section \<open>Transfer\<close>

definition tcp_send :: "card \<Rightarrow> tcp \<Rightarrow> usize \<Rightarrow> u8 list \<Rightarrow> ((str + usize) \<times> tcp) option" where
  "tcp_send nic st sock_id data =
     (if sock_id \<ge> length (tcp_sockets st) then Some (Inl ''invalid socket id'', st)
      else let sock = tcp_sockets st ! sock_id in
        if tk_state sock \<noteq> Established then Some (Inl ''socket not established'', st)
        else do {
          (ok, ns1) \<leftarrow> sock_send nic (tcp_stack st) sock (TCP_PSH OR TCP_ACK) data;
          let st1 = st\<lparr>tcp_stack := ns1\<rparr>;
          if \<not> ok then Some (Inl ''failed to transmit segment'', st1)
          else Some (Inr (length data),
            st1\<lparr>tcp_sockets := (tcp_sockets st)[sock_id := sock\<lparr>tk_seq_num := tk_seq_num sock + of_nat (length data)\<rparr>]\<rparr>)
        })"

definition tcp_recv :: "tcp \<Rightarrow> usize \<Rightarrow> (str + u8 list) \<times> tcp" where
  "tcp_recv st sock_id =
     (if sock_id \<ge> length (tcp_sockets st) then (Inl ''invalid socket id'', st)
      else let sock = tcp_sockets st ! sock_id in
        if tk_state sock = Closed then (Inl ''socket closed'', st)
        else (Inr (tk_recv_buf sock), st\<lparr>tcp_sockets := (tcp_sockets st)[sock_id := sock\<lparr>tk_recv_buf := []\<rparr>]\<rparr>))"

section \<open>Closing\<close>

text \<open>One segment of the closing handshake; the flag says whether the loop goes on.\<close>

definition close_segment :: "card \<Rightarrow> netstack \<Rightarrow> tcp_socket \<Rightarrow> tcp_header \<Rightarrow> (bool \<times> tcp_socket \<times> netstack) option" where
  "close_segment nic ns sock hdr =
     (let flags = header_flags hdr; acked = sock\<lparr>tk_ack_num := th_seq hdr + 1\<rparr>;
          finish = map_option (\<lambda>r. (False, acked\<lparr>tk_state := TimeWait\<rparr>, snd r)) (sock_ack nic ns acked)
      in case tk_state sock of
           FinWait1 \<Rightarrow>
             if flags AND TCP_ACK \<noteq> 0 \<and> flags AND TCP_FIN \<noteq> 0 then finish
             else if flags AND TCP_ACK \<noteq> 0 then Some (True, sock\<lparr>tk_state := FinWait2\<rparr>, ns)
             else Some (True, sock, ns)
         | FinWait2 \<Rightarrow> if flags AND TCP_FIN \<noteq> 0 then finish else Some (True, sock, ns)
         | _ \<Rightarrow> Some (True, sock, ns))"

fun close_loop :: "card \<Rightarrow> (nat \<Rightarrow> u8 list list) \<Rightarrow> u16 \<Rightarrow> nat \<Rightarrow> nat \<Rightarrow> tcp_socket \<Rightarrow> netstack \<Rightarrow> (tcp_socket \<times> netstack) option" where
  "close_loop nic arrive local_port 0 k sock ns = Some (sock, ns)"
| "close_loop nic arrive local_port (Suc n) k sock ns =
     (case poll_tcp_segment ns local_port of
        (None, ns1) \<Rightarrow> close_loop nic arrive local_port n (Suc k) sock (wait_tick arrive k ns1)
      | (Some (hdr, _, _), ns1) \<Rightarrow> do {
          (more, sock1, ns2) \<leftarrow> close_segment nic ns1 sock hdr;
          if more then close_loop nic arrive local_port n (Suc k) sock1 (wait_tick arrive k ns2) else Some (sock1, ns2)
        })"

definition tcp_close :: "card \<Rightarrow> (nat \<Rightarrow> u8 list list) \<Rightarrow> tcp \<Rightarrow> usize \<Rightarrow> ((str + unit) \<times> tcp) option" where
  "tcp_close nic arrive st sock_id =
     (if sock_id \<ge> length (tcp_sockets st) then Some (Inl ''invalid socket id'', st)
      else let sock = tcp_sockets st ! sock_id in
        if tk_state sock = Closed then Some (Inr (), st)
        else do {
          (_, ns1) \<leftarrow> sock_send nic (tcp_stack st) sock (TCP_FIN OR TCP_ACK) [];
          (sock2, ns2) \<leftarrow> close_loop nic arrive (tk_local_port sock) MAX_RETRIES 0
             (sock\<lparr>tk_seq_num := tk_seq_num sock + 1, tk_state := FinWait1\<rparr>) ns1;
          Some (Inr (), st\<lparr>tcp_stack := ns2, tcp_sockets := (tcp_sockets st)[sock_id := sock2\<lparr>tk_state := Closed\<rparr>]\<rparr>)
        })"

section \<open>Receiving\<close>

text \<open>The state machine: what a segment with header \<open>hdr\<close> and payload does to the socket.\<close>

definition established_segment :: "card \<Rightarrow> netstack \<Rightarrow> tcp_socket \<Rightarrow> tcp_header \<Rightarrow> u8 list \<Rightarrow> (tcp_socket \<times> netstack) option" where
  "established_segment nic ns sock hdr payload =
     (let flags = header_flags hdr in
      if flags AND TCP_FIN \<noteq> 0
      then sock_ack nic ns (sock\<lparr>tk_ack_num := th_seq hdr + of_nat (length payload) + 1, tk_state := CloseWait\<rparr>)
      else if payload \<noteq> [] \<and> flags AND TCP_ACK \<noteq> 0
      then sock_ack nic ns
        (if th_seq hdr = tk_ack_num sock
         then (if length (tk_recv_buf sock) + length payload \<le> RECV_BUF_CAP then sock\<lparr>tk_recv_buf := tk_recv_buf sock @ payload\<rparr> else sock)
                \<lparr>tk_ack_num := tk_ack_num sock + of_nat (length payload)\<rparr>
         else sock)
      else Some (sock, ns))"

definition sock_incoming :: "card \<Rightarrow> netstack \<Rightarrow> tcp_socket \<Rightarrow> tcp_header \<Rightarrow> u8 list \<Rightarrow> (tcp_socket \<times> netstack) option" where
  "sock_incoming nic ns sock hdr payload =
     (let flags = header_flags hdr; fin = flags AND TCP_FIN \<noteq> 0; ack = flags AND TCP_ACK \<noteq> 0;
          acked = sock\<lparr>tk_ack_num := th_seq hdr + 1\<rparr>
      in if flags AND TCP_RST \<noteq> 0 then Some (sock\<lparr>tk_state := Closed\<rparr>, ns)
         else case tk_state sock of
             SynSent \<Rightarrow>
               if flags AND (TCP_SYN OR TCP_ACK) = TCP_SYN OR TCP_ACK then sock_ack nic ns (acked\<lparr>tk_state := Established\<rparr>)
               else Some (sock, ns)
           | SynReceived \<Rightarrow> Some (if ack then sock\<lparr>tk_state := Established\<rparr> else sock, ns)
           | Established \<Rightarrow> established_segment nic ns sock hdr payload
           | FinWait1 \<Rightarrow>
               if fin \<and> ack then sock_ack nic ns (acked\<lparr>tk_state := TimeWait\<rparr>)
               else if ack then Some (sock\<lparr>tk_state := FinWait2\<rparr>, ns)
               else if fin then sock_ack nic ns (acked\<lparr>tk_state := Closing\<rparr>)
               else Some (sock, ns)
           | FinWait2 \<Rightarrow> if fin then sock_ack nic ns (acked\<lparr>tk_state := TimeWait\<rparr>) else Some (sock, ns)
           | CloseWait \<Rightarrow> Some (sock, ns)
           | Closing \<Rightarrow> Some (if ack then sock\<lparr>tk_state := TimeWait\<rparr> else sock, ns)
           | LastAck \<Rightarrow> Some (if ack then sock\<lparr>tk_state := Closed\<rparr> else sock, ns)
           | TimeWait \<Rightarrow> Some (sock, ns)
           | Listen \<Rightarrow> Some (sock, ns)
           | Closed \<Rightarrow> Some (sock, ns))"

definition process_incoming :: "card \<Rightarrow> tcp \<Rightarrow> usize \<Rightarrow> u8 list \<Rightarrow> tcp option" where
  "process_incoming nic st sock_id segment =
     (case parse_tcp_header segment of
        None \<Rightarrow> Some st
      | Some hdr \<Rightarrow>
          if sock_id \<ge> length (tcp_sockets st) then Some st
          else do {
            (sock1, ns1) \<leftarrow> sock_incoming nic (tcp_stack st) (tcp_sockets st ! sock_id) hdr (segment_payload segment);
            Some (st\<lparr>tcp_stack := ns1, tcp_sockets := (tcp_sockets st)[sock_id := sock1]\<rparr>)
          })"

text \<open>Which socket an IP packet is for, if any, and the segment it carries.\<close>

definition segment_target :: "tcp_socket list \<Rightarrow> received_frame \<Rightarrow> (usize \<times> u8 list) option" where
  "segment_target socks frame =
     (let ip = rf_payload frame; ihl = unat (ip ! 0 AND 0x0F) * 4; tcp_data = drop ihl ip in
      if rf_ethertype frame \<noteq> ETH_TYPE_IP \<or> length ip < 20 \<or> ip ! 9 \<noteq> IP_PROTO_TCP \<or> length ip < ihl + TCP_HEADER_LEN then None
      else map_option (\<lambda>i. (i, tcp_data))
        (List.find (\<lambda>i. tk_local_port (socks ! i) = u16_from_be (tcp_data ! 2) (tcp_data ! 3) \<and>
            ip_bytes (tk_remote_ip (socks ! i)) = slice 12 4 ip \<and> tk_state (socks ! i) \<noteq> Closed) [0..<length socks]))"

function poll_incoming :: "card \<Rightarrow> tcp \<Rightarrow> usize \<Rightarrow> (usize \<times> tcp) option" where
  "poll_incoming nic st dispatched =
     (case poll_rx (tcp_stack st) of
        (None, ns1) \<Rightarrow> Some (dispatched, st\<lparr>tcp_stack := ns1\<rparr>)
      | (Some frame, ns1) \<Rightarrow>
          (case segment_target (tcp_sockets st) frame of
             None \<Rightarrow> poll_incoming nic (st\<lparr>tcp_stack := ns1\<rparr>) dispatched
           | Some (sock_id, tcp_data) \<Rightarrow>
               (case process_incoming nic (st\<lparr>tcp_stack := ns1\<rparr>) sock_id tcp_data of
                  None \<Rightarrow> None
                | Some st1 \<Rightarrow> poll_incoming nic st1 (dispatched + 1))))"
  by pat_completeness auto

lemma st_rx_send [simp]: "st_rx (snd (send_ethernet nic ns mac ty p)) = st_rx ns"
  by (simp add: send_ethernet_def Let_def)

lemma sock_send_keeps:
  "sock_send nic ns sock flags payload = Some (ok, ns') \<Longrightarrow> st_rx ns' = st_rx ns"
  unfolding sock_send_def send_segment_def send_ipv4_def Let_def
  by (auto split: bind_splits option.splits) (metis snd_conv st_rx_send)

lemma sock_ack_keeps: "sock_ack nic ns sock = Some (sock', ns') \<Longrightarrow> st_rx ns' = st_rx ns \<and> sock' = sock"
  by (auto simp: sock_ack_def dest: sock_send_keeps)

lemma sock_incoming_keeps: "sock_incoming nic ns sock hdr payload = Some (sock', ns') \<Longrightarrow> st_rx ns' = st_rx ns"
  unfolding sock_incoming_def established_segment_def Let_def
  by (auto split: if_splits tcp_state.splits dest: sock_ack_keeps)

lemma process_incoming_keeps: "process_incoming nic st i seg = Some st' \<Longrightarrow> st_rx (tcp_stack st') = st_rx (tcp_stack st)"
  by (auto simp: process_incoming_def dest: sock_incoming_keeps split: option.splits if_splits bind_splits)

lemma poll_rx_less: "poll_rx ns = (Some f, ns') \<Longrightarrow> length (st_rx ns') < length (st_rx ns)"
  by (auto simp: poll_rx_def Let_def split: list.splits if_splits)

termination poll_incoming
  by (relation "measure (\<lambda>(nic, st, d). length (st_rx (tcp_stack st)))")
    (auto dest!: poll_rx_less [OF sym] process_incoming_keeps)

declare poll_incoming.simps [simp del]

section \<open>Queries\<close>

definition tcp_socket_state :: "tcp \<Rightarrow> usize \<Rightarrow> tcp_state option" where
  "tcp_socket_state st sock_id = (if sock_id < length (tcp_sockets st) then Some (tk_state (tcp_sockets st ! sock_id)) else None)"

definition list_sockets :: "tcp \<Rightarrow> (usize \<times> ip_addr \<times> u16 \<times> ip_addr \<times> u16 \<times> tcp_state) list" where
  "list_sockets st =
     map (\<lambda>(i, s). (i, tk_local_ip s, tk_local_port s, tk_remote_ip s, tk_remote_port s, tk_state s))
       (filter (\<lambda>(i, s). tk_state s \<noteq> Closed) (enumerate 0 (tcp_sockets st)))"

end
