(* ===== verification/Tcp_props.thy ===== *)
theory Tcp_props
  imports Tcp "HOL-Library.Sublist"
begin

text \<open>
  Theorems on the TCP implementation: segments parse back and verify, the handshake synchronises the
  numbers, the state machine only takes transitions of RFC 793, and over a network that loses,
  duplicates and reorders frames a receiver's stream is a prefix of what the sender sent.
\<close>

section \<open>Segments\<close>

definition tcp_prefix :: "u16 \<Rightarrow> u16 \<Rightarrow> u32 \<Rightarrow> u32 \<Rightarrow> u8 \<Rightarrow> u8 list" where
  "tcp_prefix sp dp seq ack flags = u16_to_be sp @ u16_to_be dp @ u32_to_be seq @ u32_to_be ack @ [0x50, flags] @ u16_to_be 8192"

lemma length_tcp_prefix [simp]: "length (tcp_prefix sp dp seq ack flags) = 16"
  by (simp add: tcp_prefix_def)

lemma build_segment:
  assumes "length payload \<le> 90000"
  obtains c where "build_tcp_packet src dst sp dp seq ack flags payload = Some (tcp_prefix sp dp seq ack flags @ u16_to_be c @ u16_to_be 0 @ payload)"
    and "tcp_checksum src dst (tcp_prefix sp dp seq ack flags @ u16_to_be c @ u16_to_be 0 @ payload) = Some 0"
proof -
  let ?pre = "tcp_prefix sp dp seq ack flags" and ?post = "u16_to_be 0 @ payload"
  define ph where "ph = ip_bytes src @ ip_bytes dst @ [0, IP_PROTO_TCP] @ u16_to_be (of_nat (20 + length payload))"
  have len: "length (?pre @ u16_to_be c @ ?post) = 20 + length payload" for c by simp
  have ck: "tcp_checksum src dst (?pre @ u16_to_be c @ ?post) = ip_checksum ((ph @ ?pre) @ u16_to_be c @ ?post)" for c
    unfolding tcp_checksum_def len ph_def by simp
  obtain c where c: "ip_checksum ((ph @ ?pre) @ u16_to_be 0 @ ?post) = Some c"
    using checksum_defined [of "(ph @ ?pre) @ u16_to_be 0 @ ?post"] assms by (auto simp: ph_def)
  have "build_tcp_packet src dst sp dp seq ack flags payload =
      map_option (\<lambda>ck. splice 16 (u16_to_be ck) (?pre @ u16_to_be 0 @ ?post)) (tcp_checksum src dst (?pre @ u16_to_be 0 @ ?post))"
    by (simp add: build_tcp_packet_def tcp_prefix_def TCP_HEADER_LEN_def DEFAULT_WINDOW_def Let_def)
  also have "\<dots> = Some (?pre @ u16_to_be c @ ?post)"
    using splice_u16 [of ?pre c 0 ?post] by (simp only: ck c option.map length_tcp_prefix)
  finally show ?thesis
  proof (rule that)
    show "tcp_checksum src dst (?pre @ u16_to_be c @ ?post) = Some 0"
      unfolding ck by (rule checksum_verifies [OF c]) (use assms in \<open>simp_all add: ph_def\<close>)
  qed
qed

lemma prefix_nth:
  "(tcp_prefix sp dp seq ack flags @ xs) ! 0 = ucast (drop_bit 8 sp)" "(tcp_prefix sp dp seq ack flags @ xs) ! Suc 0 = ucast sp"
  "(tcp_prefix sp dp seq ack flags @ xs) ! 2 = ucast (drop_bit 8 dp)" "(tcp_prefix sp dp seq ack flags @ xs) ! 3 = ucast dp"
  "(tcp_prefix sp dp seq ack flags @ xs) ! 12 = 0x50"
  by (simp_all add: tcp_prefix_def u16_to_be_def u32_to_be_def)

definition built_header :: "u16 \<Rightarrow> u16 \<Rightarrow> u32 \<Rightarrow> u32 \<Rightarrow> u8 \<Rightarrow> u16 \<Rightarrow> tcp_header" where
  "built_header sp dp seq ack flags c =
     \<lparr>th_src_port = sp, th_dst_port = dp, th_seq = seq, th_ack = ack, th_data_offset_flags = u16_from_be 0x50 flags,
      th_window = 8192, th_checksum = c, th_urgent = 0\<rparr>"

lemma parse_built:
  "parse_tcp_header (tcp_prefix sp dp seq ack flags @ u16_to_be c @ u16_to_be 0 @ payload) = Some (built_header sp dp seq ack flags c)"
  by (simp add: parse_tcp_header_def tcp_prefix_def u16_to_be_def u32_to_be_def TCP_HEADER_LEN_def built_header_def)
    (simp add: u16_from_be_def)

lemma payload_built: "segment_payload (tcp_prefix sp dp seq ack flags @ u16_to_be c @ u16_to_be 0 @ payload) = payload"
  unfolding segment_payload_def prefix_nth by (simp add: TCP_HEADER_LEN_def)

lemma flags_low: "ucast (u16_from_be b0 b1 AND 0x3F) = b1 AND 0x3F"
  unfolding u16_from_be_def by (rule bit_word_eqI) (auto simp: bit_simps)

lemma offset_high: "drop_bit 12 (u16_from_be b0 b1) = ucast (drop_bit 4 b0)"
  unfolding u16_from_be_def by (rule bit_word_eqI) (auto simp: bit_simps dest: bit_imp_le_length)

lemma flags_built: "header_flags (built_header sp dp seq ack flags c) = flags AND 0x3F"
  by (simp add: header_flags_def built_header_def flags_low)

lemma offset_built: "header_data_offset (built_header sp dp seq ack flags c) = 20"
  by (simp add: header_data_offset_def built_header_def offset_high)

text \<open>
  A built segment parses back: for every payload an IPv4 packet can carry, the builder does not panic, the
  parser returns the ports, the numbers, the flags and a 20-byte header from it, the payload comes back
  unchanged, and the receiver's checksum over segment and pseudo-header is zero.\<close>

lemma tcp_segment_roundtrip:
  assumes "length payload \<le> 65495"
  shows "\<exists>seg hdr. build_tcp_packet src dst sp dp seq ack flags payload = Some seg \<and> parse_tcp_header seg = Some hdr \<and>
    th_src_port hdr = sp \<and> th_dst_port hdr = dp \<and> th_seq hdr = seq \<and> th_ack hdr = ack \<and> header_flags hdr = flags AND 0x3F \<and>
    header_data_offset hdr = 20 \<and> segment_payload seg = payload \<and> tcp_checksum src dst seg = Some 0"
proof -
  obtain c where "build_tcp_packet src dst sp dp seq ack flags payload = Some (tcp_prefix sp dp seq ack flags @ u16_to_be c @ u16_to_be 0 @ payload)"
      "tcp_checksum src dst (tcp_prefix sp dp seq ack flags @ u16_to_be c @ u16_to_be 0 @ payload) = Some 0"
    by (rule build_segment [of payload src dst sp dp seq ack flags]) (use assms in simp_all)
  then show ?thesis using parse_built [of sp dp seq ack flags c payload] payload_built [of sp dp seq ack flags c payload]
    by (intro exI conjI) (assumption | simp only: flags_built offset_built | simp add: built_header_def)+
qed

lemma tcp_segment_roundtrip_instance:
  "\<exists>seg hdr. build_tcp_packet (10, 0, 2, 15) (10, 0, 2, 2) 49153 80 7 9 0x18 [1, 2, 3] = Some seg \<and> parse_tcp_header seg = Some hdr \<and>
    th_src_port hdr = 49153 \<and> th_dst_port hdr = 80 \<and> th_seq hdr = 7 \<and> th_ack hdr = 9 \<and> header_flags hdr = 0x18 AND 0x3F \<and>
    header_data_offset hdr = 20 \<and> segment_payload seg = [1, 2, 3] \<and> tcp_checksum (10, 0, 2, 15) (10, 0, 2, 2) seg = Some 0"
  by (rule tcp_segment_roundtrip) simp

section \<open>Frames on the wire\<close>

text \<open>A frame that carries the segment with the given header and payload.\<close>

definition carries :: "ip_addr \<Rightarrow> ip_addr \<Rightarrow> u16 \<Rightarrow> u16 \<Rightarrow> u32 \<Rightarrow> u32 \<Rightarrow> u8 \<Rightarrow> u8 list \<Rightarrow> u8 list \<Rightarrow> bool" where
  "carries src dst sp dp seq ack flags payload f \<longleftrightarrow>
     (\<exists>h c p. length h = 12 \<and> f = h @ u16_to_be ETH_TYPE_IP @ p \<and>
        ipv4_receive p = Some (src, dst, IP_PROTO_TCP, tcp_prefix sp dp seq ack flags @ u16_to_be c @ u16_to_be 0 @ payload))"

lemma send_segment_frame:
  assumes len: "length payload \<le> 65495"
  obtains f where "carries (ns_ip (st_net ns)) rip lp rp seq ack flags payload f" and "length f = 54 + length payload"
    and "send_segment nic ns lip rip lp rp seq ack flags payload =
      Some (if nic (st_tx ns) f then (True, ns\<lparr>st_tx := st_tx ns @ [f], st_net := count_tx (length f) (st_net ns)\<rparr>) else (False, ns))"
proof -
  let ?pre = "tcp_prefix lp rp seq ack flags"
  obtain c where b: "build_tcp_packet lip rip lp rp seq ack flags payload = Some (?pre @ u16_to_be c @ u16_to_be 0 @ payload)"
    by (rule build_segment [of payload lip rip lp rp seq ack flags]) (use len in simp_all)
  let ?seg = "?pre @ u16_to_be c @ u16_to_be 0 @ payload"
  obtain p where p: "ipv4_receive p = Some (ns_ip (st_net ns), rip, IP_PROTO_TCP, ?seg)"
      "send_ipv4 nic ns rip IP_PROTO_TCP ?seg = Some (send_ethernet nic ns (resolve_dst_mac ns rip) ETH_TYPE_IP p)"
      "length p = 20 + length ?seg"
    by (rule send_ipv4_frame [of ?seg ns rip IP_PROTO_TCP nic]) (use len in simp_all)
  let ?h = "mac_bytes (resolve_dst_mac ns rip) @ mac_bytes (ns_mac (st_net ns))"
  let ?f = "?h @ u16_to_be ETH_TYPE_IP @ p"
  show ?thesis
  proof (rule that [of ?f])
    show "carries (ns_ip (st_net ns)) rip lp rp seq ack flags payload ?f"
      unfolding carries_def using p(1) by (intro exI [of _ ?h] exI [of _ c] exI [of _ p]) simp
    show "send_segment nic ns lip rip lp rp seq ack flags payload =
      Some (if nic (st_tx ns) ?f then (True, ns\<lparr>st_tx := st_tx ns @ [?f], st_net := count_tx (length ?f) (st_net ns)\<rparr>) else (False, ns))"
      unfolding send_segment_def b bind.bind_lunit p(2) by (simp add: send_ethernet_def)
  qed (simp add: p(3))
qed

lemma sock_send_frame:
  assumes "length payload \<le> 65495"
  obtains f where "carries (ns_ip (st_net ns)) (tk_remote_ip sock) (tk_local_port sock) (tk_remote_port sock) (tk_seq_num sock) (tk_ack_num sock) flags payload f"
    and "length f = 54 + length payload"
    and "sock_send nic ns sock flags payload =
      Some (if nic (st_tx ns) f then (True, ns\<lparr>st_tx := st_tx ns @ [f], st_net := count_tx (length f) (st_net ns)\<rparr>) else (False, ns))"
  unfolding sock_send_def using send_segment_frame [OF assms] .

lemma poll_incoming_invariant:
  assumes "poll_incoming nic st d = Some (n, st')" and "P st"
    and "\<And>st ns1. P st \<Longrightarrow> poll_rx (tcp_stack st) = (None, ns1) \<Longrightarrow> P (st\<lparr>tcp_stack := ns1\<rparr>)"
    and "\<And>st f ns1. P st \<Longrightarrow> poll_rx (tcp_stack st) = (Some f, ns1) \<Longrightarrow> segment_target (tcp_sockets st) f = None \<Longrightarrow> P (st\<lparr>tcp_stack := ns1\<rparr>)"
    and "\<And>st f ns1 i seg st1. P st \<Longrightarrow> poll_rx (tcp_stack st) = (Some f, ns1) \<Longrightarrow> segment_target (tcp_sockets st) f = Some (i, seg) \<Longrightarrow>
      process_incoming nic (st\<lparr>tcp_stack := ns1\<rparr>) i seg = Some st1 \<Longrightarrow> P st1"
  shows "P st'"
  using assms(1, 2, 5)
proof (induction nic st d rule: poll_incoming.induct)
  case (1 nic st d)
  show ?case
  proof (cases "poll_rx (tcp_stack st)")
    case (Pair r ns1)
    show ?thesis
    proof (cases r)
      case None
      then show ?thesis using 1(3, 4) Pair assms(3) by (auto simp: poll_incoming.simps [of nic st d])
    next
      case (Some f)
      have rx: "poll_rx (tcp_stack st) = (Some f, ns1)" using Pair Some by simp
      show ?thesis
      proof (cases "segment_target (tcp_sockets st) f")
        case None
        then show ?thesis using 1(1) [OF rx [symmetric] refl None] 1(3, 5) assms(4) [OF 1(4) rx None] rx
          by (simp add: poll_incoming.simps [of nic st d])
      next
        case (Some t)
        obtain i seg where t: "segment_target (tcp_sockets st) f = Some (i, seg)" using Some by (cases t) simp
        then obtain st1 where p: "process_incoming nic (st\<lparr>tcp_stack := ns1\<rparr>) i seg = Some st1"
          using 1(3) rx by (auto simp: poll_incoming.simps [of nic st d] split: option.splits)
        then show ?thesis using 1(2) [OF rx [symmetric] refl t refl p] 1(3, 5) 1(5) [OF 1(4) rx t p] rx t
          by (simp add: poll_incoming.simps [of nic st d])
      qed
    qed
  qed
qed

section \<open>What each operation puts on the wire\<close>

definition control_only :: "u8 list list \<Rightarrow> u8 list list \<Rightarrow> bool" where
  "control_only tx tx' \<longleftrightarrow>
     (\<exists>fs. tx' = tx @ fs \<and> (\<forall>f\<in>set fs. \<exists>src dst sp dp seq ack flags. carries src dst sp dp seq ack flags [] f))"

lemma control_only_refl [simp]: "control_only tx tx"
  by (simp add: control_only_def)

lemma control_only_trans [trans]: "control_only a b \<Longrightarrow> control_only b c \<Longrightarrow> control_only a c"
  unfolding control_only_def by (metis Un_iff append.assoc set_append)

lemma sock_send_control: "\<exists>ok ns'. sock_send nic ns sock flags [] = Some (ok, ns') \<and> control_only (st_tx ns) (st_tx ns')"
proof -
  obtain f where f: "carries (ns_ip (st_net ns)) (tk_remote_ip sock) (tk_local_port sock) (tk_remote_port sock) (tk_seq_num sock) (tk_ack_num sock) flags [] f"
      "sock_send nic ns sock flags [] =
        Some (if nic (st_tx ns) f then (True, ns\<lparr>st_tx := st_tx ns @ [f], st_net := count_tx (length f) (st_net ns)\<rparr>) else (False, ns))"
    by (rule sock_send_frame [of "[]" ns sock flags nic]) simp_all
  have "control_only (st_tx ns) (st_tx ns @ [f])" unfolding control_only_def using f(1) by (intro exI [of _ "[f]"]) (simp del: split_paired_Ex, blast)
  then show ?thesis unfolding f(2) by auto
qed

lemma sock_ack_control: "\<exists>ns'. sock_ack nic ns sock = Some (sock, ns') \<and> control_only (st_tx ns) (st_tx ns')"
  using sock_send_control [of nic ns sock TCP_ACK] by (auto simp: sock_ack_def)

lemma sock_ack_controlD: "sock_ack nic ns sock = Some (sock', ns') \<Longrightarrow> sock' = sock \<and> control_only (st_tx ns) (st_tx ns')"
  using sock_ack_control [of nic ns sock] by auto

text \<open>The states from which no segment leads back to \<open>Established\<close>.\<close>

definition synchronized :: "tcp_state \<Rightarrow> bool" where
  "synchronized s \<longleftrightarrow> s \<noteq> SynSent \<and> s \<noteq> SynReceived"

lemma sock_incoming_defined: "\<exists>sock' ns'. sock_incoming nic ns sock hdr payload = Some (sock', ns')"
  using sock_ack_control unfolding sock_incoming_def established_segment_def Let_def
  by (fastforce split: tcp_state.split)

lemma sock_incoming_control:
  assumes "sock_incoming nic ns sock hdr payload = Some (sock', ns')"
  shows "control_only (st_tx ns) (st_tx ns')" and "tk_seq_num sock' = tk_seq_num sock"
  using assms unfolding sock_incoming_def established_segment_def Let_def
  by (auto split: if_splits tcp_state.splits dest!: sock_ack_controlD)

lemma sock_incoming_synchronized:
  assumes "sock_incoming nic ns sock hdr payload = Some (sock', ns')" and "synchronized (tk_state sock)"
  shows "synchronized (tk_state sock')"
  using assms unfolding sock_incoming_def established_segment_def Let_def synchronized_def
  by (auto split: if_splits tcp_state.splits dest!: sock_ack_controlD)

text \<open>A segment leaves the buffer alone, unless the connection is established and stays so and the
  segment's data starts exactly at the next expected byte.\<close>

lemma sock_incoming_effect:
  assumes "sock_incoming nic ns sock hdr payload = Some (sock', ns')" and "synchronized (tk_state sock)"
  shows "tk_recv_buf sock' = tk_recv_buf sock \<and> (tk_state sock' = Established \<longrightarrow> tk_state sock = Established \<and> tk_ack_num sock' = tk_ack_num sock) \<or>
    tk_state sock = Established \<and> payload \<noteq> [] \<and> th_seq hdr = tk_ack_num sock \<and> tk_ack_num sock' = tk_ack_num sock + of_nat (length payload) \<and>
    tk_recv_buf sock' = (if length (tk_recv_buf sock) + length payload \<le> RECV_BUF_CAP then tk_recv_buf sock @ payload else tk_recv_buf sock)"
  using assms unfolding sock_incoming_def established_segment_def Let_def synchronized_def
  by (auto split: if_splits tcp_state.splits dest!: sock_ack_controlD)

lemma close_segment_control:
  "\<exists>more sock' ns'. close_segment nic ns sock hdr = Some (more, sock', ns') \<and> control_only (st_tx ns) (st_tx ns') \<and>
     tk_recv_buf sock' = tk_recv_buf sock"
  using sock_ack_control [of nic ns "sock\<lparr>tk_ack_num := th_seq hdr + 1\<rparr>"]
  by (auto simp: close_segment_def Let_def split: tcp_state.split)

lemma poll_rx_tx [simp]: "st_tx (snd (poll_rx ns)) = st_tx ns"
  by (auto simp: poll_rx_def Let_def split: list.split)

lemma poll_rx_txD: "poll_rx ns = (r, ns1) \<Longrightarrow> st_tx ns1 = st_tx ns"
  by (metis poll_rx_tx snd_conv)

lemma poll_tcp_segment_tx: "poll_tcp_segment ns port = (r, ns1) \<Longrightarrow> st_tx ns1 = st_tx ns"
  by (auto simp: poll_tcp_segment_def Let_def split: prod.splits option.splits dest!: poll_rx_txD)

lemma close_loop_control:
  "\<exists>sock' ns'. close_loop nic arrive port n k sock ns = Some (sock', ns') \<and> control_only (st_tx ns) (st_tx ns') \<and>
     tk_recv_buf sock' = tk_recv_buf sock"
proof (induction n arbitrary: k sock ns)
  case (Suc n)
  obtain r ns1 where p: "poll_tcp_segment ns port = (r, ns1)" by (cases "poll_tcp_segment ns port")
  note tx = poll_tcp_segment_tx [OF p]
  show ?case
  proof (cases r)
    case None
    then show ?thesis using Suc.IH [of "Suc k" sock "wait_tick arrive k ns1"] p tx by (simp add: wait_tick_def)
  next
    case (Some x)
    obtain hdr raw ip where x: "r = Some (hdr, raw, ip)" using Some by (cases x) simp
    obtain more sock1 ns2 where c: "close_segment nic ns1 sock hdr = Some (more, sock1, ns2)" "control_only (st_tx ns) (st_tx ns2)"
        "tk_recv_buf sock1 = tk_recv_buf sock"
      using close_segment_control [of nic ns1 sock hdr] tx by auto
    have w: "st_tx (wait_tick arrive k ns2) = st_tx ns2" by (simp add: wait_tick_def)
    show ?thesis using Suc.IH [of "Suc k" sock1 "wait_tick arrive k ns2"] p x c
      by (auto simp: w intro: control_only_trans)
  qed
qed simp

section \<open>Two hosts and a network between them\<close>

text \<open>
  A sends on its socket 0, B receives on its socket 0. The network hands B any selection, in any order and
  any number of times, of the frames A's card accepted; A itself may be handed any bytes at all. The application on B
  drains its buffer often enough that what arrives fits.\<close>

record world =
  w_a :: tcp
  w_b :: tcp
  w_sent :: "u8 list"
  w_got :: "u8 list"

definition with_rx :: "tcp \<Rightarrow> u8 list list \<Rightarrow> tcp" where
  "with_rx st fs = st\<lparr>tcp_stack := (tcp_stack st)\<lparr>st_rx := fs\<rparr>\<rparr>"

inductive tcp_step :: "card \<Rightarrow> card \<Rightarrow> world \<Rightarrow> world \<Rightarrow> bool" for na nb where
  a_send: "tcp_send na (w_a w) 0 data = Some (Inr n, a') \<Longrightarrow> length data \<le> 65495 \<Longrightarrow> length (w_sent w) + length data < 2 ^ 32 \<Longrightarrow>
    tcp_step na nb w (w\<lparr>w_a := a', w_sent := w_sent w @ data\<rparr>)"
| a_send_error: "tcp_send na (w_a w) 0 data = Some (Inl e, a') \<Longrightarrow> length data \<le> 65495 \<Longrightarrow> tcp_step na nb w (w\<lparr>w_a := a'\<rparr>)"
| a_poll: "poll_incoming na (with_rx (w_a w) fs) 0 = Some (n, a') \<Longrightarrow> tcp_step na nb w (w\<lparr>w_a := a'\<rparr>)"
| a_recv: "tcp_recv (w_a w) 0 = (r, a') \<Longrightarrow> tcp_step na nb w (w\<lparr>w_a := a'\<rparr>)"
| a_close: "tcp_close na arrive (w_a w) 0 = Some (r, a') \<Longrightarrow> tcp_step na nb w (w\<lparr>w_a := a'\<rparr>)"
| b_deliver: "set fs \<subseteq> set (st_tx (tcp_stack (w_a w))) \<Longrightarrow>
    length (tk_recv_buf (tcp_sockets (w_b w) ! 0)) + sum_list (map length fs) \<le> RECV_BUF_CAP \<Longrightarrow>
    poll_incoming nb (with_rx (w_b w) fs) 0 = Some (n, b') \<Longrightarrow> tcp_step na nb w (w\<lparr>w_b := b'\<rparr>)"
| b_recv: "tcp_recv (w_b w) 0 = (Inr data, b') \<Longrightarrow> tcp_step na nb w (w\<lparr>w_b := b', w_got := w_got w @ data\<rparr>)"
| b_send: "tcp_send nb (w_b w) 0 data = Some (r, b') \<Longrightarrow> length data \<le> 65495 \<Longrightarrow> tcp_step na nb w (w\<lparr>w_b := b'\<rparr>)"
| b_close: "tcp_close nb arrive (w_b w) 0 = Some (r, b') \<Longrightarrow> tcp_step na nb w (w\<lparr>w_b := b'\<rparr>)"

text \<open>A connection just established: the receiver expects the sender's next byte, and nothing was sent.\<close>

definition connected :: "world \<Rightarrow> bool" where
  "connected w \<longleftrightarrow>
     (case (tcp_sockets (w_a w), tcp_sockets (w_b w)) of
        ([sa], [sb]) \<Rightarrow> tk_state sa = Established \<and> tk_state sb = Established \<and> tk_ack_num sb = tk_seq_num sa \<and> tk_recv_buf sb = [] \<and>
          st_tx (tcp_stack (w_a w)) = [] \<and> w_sent w = [] \<and> w_got w = []
      | _ \<Rightarrow> False)"

text \<open>A frame on the wire: its data, if any, are the bytes of the stream from the offset its sequence
  number stands for.\<close>

definition at_position :: "u32 \<Rightarrow> u8 list \<Rightarrow> u32 \<Rightarrow> u8 list \<Rightarrow> bool" where
  "at_position isn sent seq payload \<longleftrightarrow> (\<exists>pre post. seq = isn + of_nat (length pre) \<and> sent = pre @ payload @ post)"

definition stream_frame :: "u32 \<Rightarrow> u8 list \<Rightarrow> u8 list \<Rightarrow> bool" where
  "stream_frame isn sent f \<longleftrightarrow>
     (\<exists>src dst sp dp seq ack flags payload. carries src dst sp dp seq ack flags payload f \<and> length f \<ge> length payload \<and>
        (payload \<noteq> [] \<longrightarrow> at_position isn sent seq payload))"

definition sender_inv :: "u32 \<Rightarrow> u8 list \<Rightarrow> tcp \<Rightarrow> bool" where
  "sender_inv isn sent a \<longleftrightarrow> length sent < 2 ^ 32 \<and>
     (\<exists>sa. tcp_sockets a = [sa] \<and> synchronized (tk_state sa) \<and> (tk_state sa = Established \<longrightarrow> tk_seq_num sa = isn + of_nat (length sent))) \<and>
     (\<forall>f\<in>set (st_tx (tcp_stack a)). stream_frame isn sent f)"

definition receiver_inv :: "u32 \<Rightarrow> u8 list \<Rightarrow> u8 list \<Rightarrow> tcp \<Rightarrow> bool" where
  "receiver_inv isn sent got b \<longleftrightarrow>
     (\<exists>sb. tcp_sockets b = [sb] \<and> synchronized (tk_state sb) \<and> prefix (got @ tk_recv_buf sb) sent \<and>
        (tk_state sb = Established \<longrightarrow> tk_ack_num sb = isn + of_nat (length (got @ tk_recv_buf sb))))"

lemma control_stream: "carries src dst sp dp seq ack flags [] f \<Longrightarrow> stream_frame isn sent f"
  unfolding stream_frame_def by (intro exI conjI impI) (assumption | simp)+

lemma control_only_stream:
  "control_only tx tx' \<Longrightarrow> \<forall>f\<in>set tx. stream_frame isn sent f \<Longrightarrow> \<forall>f\<in>set tx'. stream_frame isn sent f"
  unfolding control_only_def by (elim exE conjE) (use control_stream in \<open>metis Un_iff set_append\<close>)

lemma at_position_mono: "at_position isn sent seq payload \<Longrightarrow> at_position isn (sent @ data) seq payload"
  unfolding at_position_def by (metis append.assoc)

lemma at_position_end: "at_position isn (sent @ data) (isn + of_nat (length sent)) data"
  unfolding at_position_def by (intro exI [of _ sent] exI [of _ "[]"]) simp

lemma stream_frame_mono: "stream_frame isn sent f \<Longrightarrow> stream_frame isn (sent @ data) f"
  unfolding stream_frame_def using at_position_mono by blast

lemma sender_send:
  assumes inv: "sender_inv isn sent a" and snd: "tcp_send nic a 0 data = Some (r, a')" and len: "length data \<le> 65495"
    and total: "\<not> isl r \<Longrightarrow> length sent + length data < 2 ^ 32"
  shows "sender_inv isn (if isl r then sent else sent @ data) a'"
proof -
  obtain sa where sa: "tcp_sockets a = [sa]" "synchronized (tk_state sa)" "tk_state sa = Established \<Longrightarrow> tk_seq_num sa = isn + of_nat (length sent)"
      and fr: "\<forall>f\<in>set (st_tx (tcp_stack a)). stream_frame isn sent f" and short: "length sent < 2 ^ 32"
    using inv by (auto simp: sender_inv_def)
  show ?thesis
  proof (cases "tk_state sa = Established")
    case False
    then show ?thesis using snd sa inv by (auto simp: tcp_send_def)
  next
    case True
    obtain f where f: "carries (ns_ip (st_net (tcp_stack a))) (tk_remote_ip sa) (tk_local_port sa) (tk_remote_port sa) (tk_seq_num sa) (tk_ack_num sa) (TCP_PSH OR TCP_ACK) data f"
        "length f = 54 + length data"
        "sock_send nic (tcp_stack a) sa (TCP_PSH OR TCP_ACK) data = Some (if nic (st_tx (tcp_stack a)) f
           then (True, (tcp_stack a)\<lparr>st_tx := st_tx (tcp_stack a) @ [f], st_net := count_tx (length f) (st_net (tcp_stack a))\<rparr>) else (False, tcp_stack a))"
      by (rule sock_send_frame [OF len])
    have "stream_frame isn (sent @ data) f" unfolding stream_frame_def
      using f(1, 2) sa(3) [OF True]
      by (intro exI conjI impI) (assumption | simp add: at_position_end)+
    then have new: "\<forall>g\<in>set (st_tx (tcp_stack a) @ [f]). stream_frame isn (sent @ data) g" using fr stream_frame_mono by auto
    show ?thesis
    proof (cases "nic (st_tx (tcp_stack a)) f")
      case yes: True
      then have "isl r = False" "tcp_sockets a' = [sa\<lparr>tk_seq_num := tk_seq_num sa + of_nat (length data)\<rparr>]"
          "st_tx (tcp_stack a') = st_tx (tcp_stack a) @ [f]"
        using snd f(3) True sa(1) by (auto simp: tcp_send_def)
      then show ?thesis using new sa(2) sa(3) [OF True] total by (simp add: sender_inv_def)
    next
      case no: False
      then have "isl r" "tcp_sockets a' = [sa]" "tcp_stack a' = tcp_stack a"
        using snd f(3) True sa(1) by (auto simp: tcp_send_def)
      then show ?thesis using inv sa(1) by (simp add: sender_inv_def)
    qed
  qed
qed

lemma process_single:
  assumes "process_incoming nic st i seg = Some st'" and "tcp_sockets st = [s]"
  obtains "st' = st"
  | hdr s' ns where "parse_tcp_header seg = Some hdr" and "sock_incoming nic (tcp_stack st) s hdr (segment_payload seg) = Some (s', ns)"
      and "st' = st\<lparr>tcp_stack := ns, tcp_sockets := [s']\<rparr>"
proof (cases "i = 0")
  case True
  then show ?thesis using assms that by (auto simp: process_incoming_def split: option.splits bind_splits)
next
  case False
  then show ?thesis using assms that(1) by (auto simp: process_incoming_def split: option.splits)
qed

lemma sender_process:
  assumes inv: "sender_inv isn sent a" and ns: "st_tx ns1 = st_tx (tcp_stack a)"
    and p: "process_incoming nic (a\<lparr>tcp_stack := ns1\<rparr>) i seg = Some a'"
  shows "sender_inv isn sent a'"
proof -
  obtain sa where sa: "tcp_sockets a = [sa]" "synchronized (tk_state sa)" "tk_state sa = Established \<Longrightarrow> tk_seq_num sa = isn + of_nat (length sent)"
    using inv by (auto simp: sender_inv_def)
  have sk: "tcp_sockets (a\<lparr>tcp_stack := ns1\<rparr>) = [sa]" using sa(1) by simp
  show ?thesis using p sk
  proof (cases rule: process_single)
    case 1
    then show ?thesis using inv ns by (simp add: sender_inv_def)
  next
    case (2 hdr sa' ns2)
    then have s: "sock_incoming nic ns1 sa hdr (segment_payload seg) = Some (sa', ns2)" by simp
    have "tk_state sa' = Established \<longrightarrow> tk_seq_num sa' = isn + of_nat (length sent)"
      using sock_incoming_effect [OF s sa(2)] sock_incoming_control(2) [OF s] sa(3) by auto
    then show ?thesis
      using control_only_stream [OF sock_incoming_control(1) [OF s], of isn sent] inv ns sock_incoming_synchronized [OF s sa(2)] 2(3)
      by (simp add: sender_inv_def)
  qed
qed

lemma sender_poll:
  assumes "sender_inv isn sent a" and "poll_incoming nic (with_rx a fs) 0 = Some (n, a')"
  shows "sender_inv isn sent a'"
  using assms(2)
proof (rule poll_incoming_invariant)
  show "sender_inv isn sent (with_rx a fs)" using assms(1) by (simp add: sender_inv_def with_rx_def)
qed (simp add: sender_inv_def poll_rx_txD, simp add: sender_inv_def poll_rx_txD, erule sender_process, rule poll_rx_txD)

lemma tcp_close_effect:
  assumes "tcp_close nic arrive st 0 = Some (r, st')" and "tcp_sockets st = [s]"
  shows "control_only (st_tx (tcp_stack st)) (st_tx (tcp_stack st')) \<and>
    (\<exists>s'. tcp_sockets st' = [s'] \<and> tk_state s' = Closed \<and> tk_recv_buf s' = tk_recv_buf s)"
proof (cases "tk_state s = Closed")
  case True
  then show ?thesis using assms by (auto simp: tcp_close_def)
next
  case False
  let ?s = "s\<lparr>tk_seq_num := tk_seq_num s + 1, tk_state := FinWait1\<rparr>"
  obtain ok ns1 where 1: "sock_send nic (tcp_stack st) s (TCP_FIN OR TCP_ACK) [] = Some (ok, ns1)" "control_only (st_tx (tcp_stack st)) (st_tx ns1)"
    using sock_send_control by blast
  obtain s2 ns2 where 2: "close_loop nic arrive (tk_local_port s) MAX_RETRIES 0 ?s ns1 = Some (s2, ns2)" "control_only (st_tx ns1) (st_tx ns2)"
      "tk_recv_buf s2 = tk_recv_buf s"
    using close_loop_control [of nic arrive "tk_local_port s" MAX_RETRIES 0 ?s ns1] by auto
  show ?thesis using assms False 1 2 control_only_trans [OF 1(2) 2(2)] by (auto simp: tcp_close_def Let_def)
qed

lemma sender_close:
  assumes "sender_inv isn sent a" and "tcp_close nic arrive a 0 = Some (r, a')"
  shows "sender_inv isn sent a'"
proof -
  obtain sa where "tcp_sockets a = [sa]" using assms(1) by (auto simp: sender_inv_def)
  from tcp_close_effect [OF assms(2) this] show ?thesis
    using assms(1) control_only_stream [of "st_tx (tcp_stack a)" "st_tx (tcp_stack a')" isn sent]
    by (auto simp: sender_inv_def synchronized_def)
qed

section \<open>What the receiver makes of a frame\<close>

lemma carries_target:
  assumes "carries src dst sp dp seq ack flags payload f" and "st_rx ns = f # rest" and "poll_rx ns = (Some fr, ns1)"
  obtains c where "segment_target socks fr = map_option (\<lambda>i. (i, tcp_prefix sp dp seq ack flags @ u16_to_be c @ u16_to_be 0 @ payload))
      (List.find (\<lambda>i. tk_local_port (socks ! i) = dp \<and> tk_remote_ip (socks ! i) = src \<and> tk_state (socks ! i) \<noteq> Closed) [0..<length socks])"
    and "st_rx ns1 = rest"
proof -
  obtain h c p where f: "length h = 12" "f = h @ u16_to_be ETH_TYPE_IP @ p"
      and p: "ipv4_receive p = Some (src, dst, IP_PROTO_TCP, tcp_prefix sp dp seq ack flags @ u16_to_be c @ u16_to_be 0 @ payload)"
    using assms(1) by (auto simp: carries_def)
  let ?seg = "tcp_prefix sp dp seq ack flags @ u16_to_be c @ u16_to_be 0 @ payload"
  have nth: "f ! 12 = u16_to_be ETH_TYPE_IP ! 0" "f ! 13 = u16_to_be ETH_TYPE_IP ! 1" using f by (simp_all add: nth_append)
  have fr: "rf_payload fr = p" "rf_ethertype fr = ETH_TYPE_IP" "st_rx ns1 = rest"
    using assms(2, 3) f nth by (auto simp: poll_rx_def Let_def ETH_HEADER_LEN_def u16_to_be_def)
  have len: "length p \<ge> 20" and p0: "p ! 0 = 0x45" and p9: "p ! 9 = IP_PROTO_TCP" and seg: "drop 20 p = ?seg"
      and src: "src = (p ! 12, p ! 13, p ! 14, p ! 15)"
    using p by (auto simp: ipv4_receive_def split: if_splits)
  have "length p = 20 + length (drop 20 p)" using len by simp
  then have len': "length p = 40 + length payload" unfolding seg by simp
  have "slice 12 4 p = [p ! 12, p ! 13, p ! 14, p ! 15]" using len by (intro slice_eqI) (auto simp: less_Suc_eq numeral_eq_Suc)
  then have ips: "ip_bytes ip = slice 12 4 p \<longleftrightarrow> ip = src" for ip using src by (cases ip) simp
  have dp: "u16_from_be (?seg ! 2) (?seg ! 3) = dp" unfolding prefix_nth by simp
  have "segment_target socks fr = map_option (\<lambda>i. (i, ?seg))
      (List.find (\<lambda>i. tk_local_port (socks ! i) = dp \<and> tk_remote_ip (socks ! i) = src \<and> tk_state (socks ! i) \<noteq> Closed) [0..<length socks])"
    unfolding segment_target_def Let_def fr(1, 2) p0 p9 ips using len' by (simp add: TCP_HEADER_LEN_def seg dp)
  then show ?thesis using fr(3) by (rule that)
qed

lemma of_nat_inj_u32: "(of_nat a :: u32) = of_nat b \<Longrightarrow> a < 2 ^ 32 \<Longrightarrow> b < 2 ^ 32 \<Longrightarrow> a = b"
  by (simp add: word_of_nat_eq_iff take_bit_nat_eq_self)

text \<open>Data that starts at the expected sequence number are the next bytes of the stream.\<close>

lemma next_bytes:
  assumes "at_position isn sent seq payload" and "seq = isn + of_nat (length got)" and "prefix got sent" and "length sent < 2 ^ 32"
  shows "prefix (got @ payload) sent"
proof -
  obtain pre post where s: "seq = isn + of_nat (length pre)" "sent = pre @ payload @ post" using assms(1) by (auto simp: at_position_def)
  have "length pre = length got"
    by (rule of_nat_inj_u32) (use s assms(2, 4) prefix_length_le [OF assms(3)] in simp_all)
  then have "got = pre" using assms(3) s(2) by (auto simp: prefix_def)
  then show ?thesis using s(2) by (simp add: prefix_def)
qed

definition receiving :: "u32 \<Rightarrow> u8 list \<Rightarrow> u8 list \<Rightarrow> tcp \<Rightarrow> bool" where
  "receiving isn sent got b \<longleftrightarrow> receiver_inv isn sent got b \<and> (\<forall>f\<in>set (st_rx (tcp_stack b)). stream_frame isn sent f) \<and>
     length (tk_recv_buf (tcp_sockets b ! 0)) + sum_list (map length (st_rx (tcp_stack b))) \<le> RECV_BUF_CAP"

lemma poll_rx_tail: "poll_rx ns = (r, ns1) \<Longrightarrow> st_rx ns1 = tl (st_rx ns)"
  by (auto simp: poll_rx_def Let_def split: list.splits if_splits)

lemma receiving_skip:
  assumes "receiving isn sent got b" and "poll_rx (tcp_stack b) = (r, ns1)"
  shows "receiving isn sent got (b\<lparr>tcp_stack := ns1\<rparr>)"
  using assms poll_rx_tail [OF assms(2)]
  by (cases "st_rx (tcp_stack b)") (auto simp: receiving_def receiver_inv_def)

lemma receiver_segment:
  assumes inv: "receiver_inv isn sent got b" and short: "length sent < 2 ^ 32" and sk: "tcp_sockets b = [sb]"
    and s: "sock_incoming nic ns sb hdr payload = Some (sb', ns')"
    and pos: "payload \<noteq> [] \<Longrightarrow> at_position isn sent (th_seq hdr) payload" and fits: "length (tk_recv_buf sb) + length payload \<le> RECV_BUF_CAP"
  shows "receiver_inv isn sent got (b\<lparr>tcp_stack := ns', tcp_sockets := [sb']\<rparr>)" and "length (tk_recv_buf sb') \<le> length (tk_recv_buf sb) + length payload"
proof -
  have sb: "synchronized (tk_state sb)" "prefix (got @ tk_recv_buf sb) sent" "tk_state sb = Established \<Longrightarrow> tk_ack_num sb = isn + of_nat (length (got @ tk_recv_buf sb))"
    using inv sk by (auto simp: receiver_inv_def)
  have "prefix (got @ tk_recv_buf sb') sent \<and> (tk_state sb' = Established \<longrightarrow> tk_ack_num sb' = isn + of_nat (length (got @ tk_recv_buf sb'))) \<and>
      length (tk_recv_buf sb') \<le> length (tk_recv_buf sb) + length payload"
    using sock_incoming_effect [OF s sb(1)]
  proof (elim disjE conjE)
    assume "tk_recv_buf sb' = tk_recv_buf sb" "tk_state sb' = Established \<longrightarrow> tk_state sb = Established \<and> tk_ack_num sb' = tk_ack_num sb"
    then show ?thesis using sb(2, 3) by simp
  next
    assume e: "tk_state sb = Established" "payload \<noteq> []" "th_seq hdr = tk_ack_num sb" "tk_ack_num sb' = tk_ack_num sb + of_nat (length payload)"
      "tk_recv_buf sb' = (if length (tk_recv_buf sb) + length payload \<le> RECV_BUF_CAP then tk_recv_buf sb @ payload else tk_recv_buf sb)"
    have "prefix ((got @ tk_recv_buf sb) @ payload) sent"
      by (rule next_bytes [OF pos [OF e(2)] _ sb(2) short]) (simp only: e(3) sb(3) [OF e(1)])
    then show ?thesis using e(4, 5) fits sb(3) [OF e(1)] by (simp add: add.assoc)
  qed
  then show "receiver_inv isn sent got (b\<lparr>tcp_stack := ns', tcp_sockets := [sb']\<rparr>)" "length (tk_recv_buf sb') \<le> length (tk_recv_buf sb) + length payload"
    using sock_incoming_synchronized [OF s sb(1)] by (simp_all add: receiver_inv_def)
qed

lemma receiving_process:
  assumes r: "receiving isn sent got b" and short: "length sent < 2 ^ 32" and rx: "poll_rx (tcp_stack b) = (Some fr, ns1)"
    and t: "segment_target (tcp_sockets b) fr = Some (i, seg)" and p: "process_incoming nic (b\<lparr>tcp_stack := ns1\<rparr>) i seg = Some b'"
  shows "receiving isn sent got b'"
proof -
  obtain f rest where fs: "st_rx (tcp_stack b) = f # rest" using poll_rx_less [OF rx] by (cases "st_rx (tcp_stack b)") auto
  obtain sb where sb: "tcp_sockets b = [sb]" and inv: "receiver_inv isn sent got b" using r by (auto simp: receiving_def receiver_inv_def)
  have "stream_frame isn sent f" using r fs by (simp add: receiving_def)
  then obtain src dst sp dp seq ack flags payload where f: "carries src dst sp dp seq ack flags payload f" "length payload \<le> length f"
      "payload \<noteq> [] \<Longrightarrow> at_position isn sent seq payload"
    unfolding stream_frame_def by blast
  obtain c where sg: "seg = tcp_prefix sp dp seq ack flags @ u16_to_be c @ u16_to_be 0 @ payload" and rest: "st_rx ns1 = rest"
    using carries_target [OF f(1) fs rx, of "tcp_sockets b" thesis] t by (fastforce simp: eq_commute [of "Some _"])
  have sk: "tcp_sockets (b\<lparr>tcp_stack := ns1\<rparr>) = [sb]" using sb by simp
  show ?thesis using p sk
  proof (cases rule: process_single)
    case 1
    then show ?thesis using receiving_skip [OF r rx] by simp
  next
    case (2 hdr sb' ns2)
    have h: "th_seq hdr = seq" using 2(1) unfolding sg parse_built by (auto simp: built_header_def)
    have pl: "segment_payload seg = payload" unfolding sg by (rule payload_built)
    have s: "sock_incoming nic ns1 sb hdr payload = Some (sb', ns2)" using 2(2) pl by simp
    have fits: "length (tk_recv_buf sb) + length payload \<le> RECV_BUF_CAP" using r fs sb f(2) by (simp add: receiving_def)
    have pos: "payload \<noteq> [] \<Longrightarrow> at_position isn sent (th_seq hdr) payload" using f(3) h by simp
    note step = receiver_segment [OF inv short sb s pos fits]
    have "st_rx ns2 = rest" using sock_incoming_keeps [OF s] rest by simp
    then show ?thesis using step r fs sb f(2) 2(3) by (simp add: receiving_def receiver_inv_def)
  qed
qed

lemma receiver_deliver:
  assumes "receiver_inv isn sent got b" and "length sent < 2 ^ 32" and "\<forall>f\<in>set fs. stream_frame isn sent f"
    and "length (tk_recv_buf (tcp_sockets b ! 0)) + sum_list (map length fs) \<le> RECV_BUF_CAP"
    and "poll_incoming nic (with_rx b fs) 0 = Some (n, b')"
  shows "receiver_inv isn sent got b'"
proof -
  have "receiving isn sent got b'" using assms(5)
  proof (rule poll_incoming_invariant)
    show "receiving isn sent got (with_rx b fs)" using assms(1, 3, 4) by (simp add: receiving_def receiver_inv_def with_rx_def)
  qed (erule (1) receiving_skip, erule (1) receiving_skip, erule receiving_process [OF _ assms(2)])
  then show ?thesis by (simp add: receiving_def)
qed

lemma tcp_recv_effect:
  assumes "tcp_recv st 0 = (r, st')" and "tcp_sockets st = [s]"
  shows "tcp_stack st' = tcp_stack st \<and> tcp_sockets st' = [if isl r then s else s\<lparr>tk_recv_buf := []\<rparr>] \<and> (\<forall>data. r = Inr data \<longrightarrow> data = tk_recv_buf s)"
  using assms by (auto simp: tcp_recv_def Let_def split: if_splits)

lemma tcp_send_keeps_buffer:
  assumes "tcp_send nic st 0 data = Some (r, st')" and "tcp_sockets st = [s]"
  shows "\<exists>s'. tcp_sockets st' = [s'] \<and> tk_state s' = tk_state s \<and> tk_recv_buf s' = tk_recv_buf s \<and> tk_ack_num s' = tk_ack_num s"
  using assms by (auto simp: tcp_send_def Let_def split: if_splits bind_splits prod.splits)

definition tcp_inv :: "u32 \<Rightarrow> world \<Rightarrow> bool" where
  "tcp_inv isn w \<longleftrightarrow> sender_inv isn (w_sent w) (w_a w) \<and> receiver_inv isn (w_sent w) (w_got w) (w_b w)"

lemma receiver_more: "receiver_inv isn sent got b \<Longrightarrow> receiver_inv isn (sent @ data) got b"
  by (auto simp: receiver_inv_def)

lemma tcp_inv_step:
  assumes "tcp_step na nb w w'" and "tcp_inv isn w" shows "tcp_inv isn w'"
  using assms
proof (induction rule: tcp_step.induct)
  case (a_send w data n a')
  then show ?case using sender_send [of isn "w_sent w" "w_a w" na data "Inr n" a'] receiver_more by (simp add: tcp_inv_def)
next
  case (a_send_error w data e a')
  then show ?case using sender_send [of isn "w_sent w" "w_a w" na data "Inl e" a'] by (simp add: tcp_inv_def)
next
  case (a_poll w fs n a')
  then show ?case using sender_poll by (auto simp: tcp_inv_def)
next
  case (a_recv w r a')
  then show ?case by (auto simp: tcp_inv_def sender_inv_def dest!: tcp_recv_effect)
next
  case (a_close arrive w r a')
  then show ?case using sender_close by (auto simp: tcp_inv_def)
next
  case (b_deliver fs w n b')
  have "length (w_sent w) < 2 ^ 32" "\<forall>f\<in>set fs. stream_frame isn (w_sent w) f"
    using b_deliver(1, 4) by (auto simp: tcp_inv_def sender_inv_def)
  then show ?case using receiver_deliver b_deliver(2, 3, 4) by (auto simp: tcp_inv_def)
next
  case (b_recv w data b')
  then show ?case by (auto simp: tcp_inv_def receiver_inv_def dest!: tcp_recv_effect)
next
  case (b_send w data r b')
  then show ?case by (auto simp: tcp_inv_def receiver_inv_def dest!: tcp_send_keeps_buffer)
next
  case (b_close arrive w r b')
  then show ?case by (auto simp: tcp_inv_def receiver_inv_def synchronized_def dest!: tcp_close_effect)
qed


section \<open>Delivery in order\<close>

text \<open>Both ends idle, all that was sent having been read.\<close>

definition idle :: "world \<Rightarrow> bool" where
  "idle w \<longleftrightarrow>
     (case (tcp_sockets (w_a w), tcp_sockets (w_b w)) of
        ([sa], [sb]) \<Rightarrow> tk_state sa = Established \<and> tk_state sb = Established \<and> tk_ack_num sb = tk_seq_num sa \<and> tk_recv_buf sb = [] \<and>
          tk_local_port sb = tk_remote_port sa \<and> tk_remote_ip sb = ns_ip (st_net (tcp_stack (w_a w))) \<and> w_got w = w_sent w
      | _ \<Rightarrow> False)"

lemma established_data:
  assumes "tk_state sb = Established" and "th_seq hdr = tk_ack_num sb" and "header_flags hdr = TCP_PSH OR TCP_ACK" and "payload \<noteq> []"
    and "tk_recv_buf sb = []" and "length payload \<le> RECV_BUF_CAP"
  shows "\<exists>ns'. sock_incoming nic ns sb hdr payload =
    Some (sb\<lparr>tk_recv_buf := payload, tk_ack_num := tk_ack_num sb + of_nat (length payload)\<rparr>, ns') \<and> st_rx ns' = st_rx ns"
proof -
  let ?s = "sb\<lparr>tk_recv_buf := payload, tk_ack_num := tk_ack_num sb + of_nat (length payload)\<rparr>"
  obtain ns' where a: "sock_ack nic ns ?s = Some (?s, ns')" using sock_ack_control by blast
  then have "sock_incoming nic ns sb hdr payload = Some (?s, ns')"
    using assms by (simp add: sock_incoming_def established_segment_def Let_def tcp_flags)
  then show ?thesis using sock_incoming_keeps by blast
qed

lemma deliver_one:
  assumes f: "carries src dst sp dp seq ack (TCP_PSH OR TCP_ACK) data f" "length f \<ge> 14" and sk: "tcp_sockets b = [sb]"
    and sb: "tk_state sb = Established" "seq = tk_ack_num sb" "tk_recv_buf sb = []" "tk_local_port sb = dp" "tk_remote_ip sb = src"
    and data: "data \<noteq> []" "length data \<le> RECV_BUF_CAP"
  shows "\<exists>b'. poll_incoming nic (with_rx b [f]) 0 = Some (1, b') \<and>
    tcp_sockets b' = [sb\<lparr>tk_recv_buf := data, tk_ack_num := tk_ack_num sb + of_nat (length data)\<rparr>]"
proof -
  let ?b = "with_rx b [f]"
  have rx0: "st_rx (tcp_stack ?b) = [f]" by (simp add: with_rx_def)
  obtain fr ns1 where rx: "poll_rx (tcp_stack ?b) = (Some fr, ns1)"
    using f(2) unfolding poll_rx_def rx0 by (simp add: ETH_HEADER_LEN_def Let_def)
  obtain c where t: "segment_target (tcp_sockets ?b) fr = map_option (\<lambda>i. (i, tcp_prefix sp dp seq ack (TCP_PSH OR TCP_ACK) @ u16_to_be c @ u16_to_be 0 @ data))
      (List.find (\<lambda>i. tk_local_port (tcp_sockets ?b ! i) = dp \<and> tk_remote_ip (tcp_sockets ?b ! i) = src \<and> tk_state (tcp_sockets ?b ! i) \<noteq> Closed) [0..<length (tcp_sockets ?b)])"
      and rest: "st_rx ns1 = []"
    by (rule carries_target [OF f(1) rx0 rx])
  let ?seg = "tcp_prefix sp dp seq ack (TCP_PSH OR TCP_ACK) @ u16_to_be c @ u16_to_be 0 @ data"
  let ?hdr = "built_header sp dp seq ack (TCP_PSH OR TCP_ACK) c"
  have sk': "tcp_sockets ?b = [sb]" using sk by (simp add: with_rx_def)
  have t': "segment_target [sb] fr = Some (0, ?seg)" using t sb unfolding sk' by simp
  have h: "th_seq ?hdr = tk_ack_num sb" "header_flags ?hdr = TCP_PSH OR TCP_ACK"
    using sb(2) by (simp add: built_header_def) (simp add: flags_built tcp_flags)
  obtain ns2 where s: "sock_incoming nic ns1 sb ?hdr data = Some (sb\<lparr>tk_recv_buf := data, tk_ack_num := tk_ack_num sb + of_nat (length data)\<rparr>, ns2)" "st_rx ns2 = []"
    using established_data [OF sb(1) h data(1) sb(3) data(2), of nic ns1] rest by auto
  let ?b1 = "?b\<lparr>tcp_stack := ns2, tcp_sockets := [sb\<lparr>tk_recv_buf := data, tk_ack_num := tk_ack_num sb + of_nat (length data)\<rparr>]\<rparr>"
  have p: "process_incoming nic (?b\<lparr>tcp_stack := ns1\<rparr>) 0 ?seg = Some ?b1"
    unfolding process_incoming_def parse_built payload_built using sk' s(1) by simp
  have "poll_incoming nic ?b1 1 = Some (1, ?b1)"
    by (subst poll_incoming.simps) (simp add: poll_rx_def s(2))
  then show ?thesis using rx t' p sk' by (subst poll_incoming.simps) simp
qed

lemma idle_transfer:
  assumes w: "idle w" and cards: "\<forall>tx f. na tx f" and data: "data \<noteq> []" "length data \<le> 65482" and total: "length (w_sent w) + length data < 2 ^ 32"
  shows "\<exists>w'. (tcp_step na nb)\<^sup>*\<^sup>* w w' \<and> idle w' \<and> w_sent w' = w_sent w @ data"
proof -
  obtain sa sb where sk: "tcp_sockets (w_a w) = [sa]" "tcp_sockets (w_b w) = [sb]"
      and i: "tk_state sa = Established" "tk_state sb = Established" "tk_ack_num sb = tk_seq_num sa" "tk_recv_buf sb = []"
        "tk_local_port sb = tk_remote_port sa" "tk_remote_ip sb = ns_ip (st_net (tcp_stack (w_a w)))" "w_got w = w_sent w"
    using w by (auto simp: idle_def split: list.splits)
  let ?ns = "tcp_stack (w_a w)"
  obtain f where f: "carries (ns_ip (st_net ?ns)) (tk_remote_ip sa) (tk_local_port sa) (tk_remote_port sa) (tk_seq_num sa) (tk_ack_num sa) (TCP_PSH OR TCP_ACK) data f"
      "length f = 54 + length data"
      "sock_send na ?ns sa (TCP_PSH OR TCP_ACK) data = Some (if na (st_tx ?ns) f
         then (True, ?ns\<lparr>st_tx := st_tx ?ns @ [f], st_net := count_tx (length f) (st_net ?ns)\<rparr>) else (False, ?ns))"
    by (rule sock_send_frame [of data ?ns sa "TCP_PSH OR TCP_ACK" na]) (use data in simp_all)
  let ?sa = "sa\<lparr>tk_seq_num := tk_seq_num sa + of_nat (length data)\<rparr>"
  let ?a = "(w_a w)\<lparr>tcp_stack := ?ns\<lparr>st_tx := st_tx ?ns @ [f], st_net := count_tx (length f) (st_net ?ns)\<rparr>, tcp_sockets := [?sa]\<rparr>"
  let ?w1 = "w\<lparr>w_a := ?a, w_sent := w_sent w @ data\<rparr>"
  have "tcp_send na (w_a w) 0 data = Some (Inr (length data), ?a)"
    using f(3) sk(1) i(1) by (simp add: tcp_send_def cards)
  then have 1: "tcp_step na nb w ?w1" by (rule tcp_step.a_send) (use data total in simp_all)
  obtain b1 where b1: "poll_incoming nb (with_rx (w_b w) [f]) 0 = Some (1, b1)"
      "tcp_sockets b1 = [sb\<lparr>tk_recv_buf := data, tk_ack_num := tk_ack_num sb + of_nat (length data)\<rparr>]"
    using deliver_one [OF f(1) _ sk(2) i(2) i(3) [symmetric] i(4, 5, 6) data(1), of nb] f(2) data(2) by (auto simp: RECV_BUF_CAP_def)
  have 2: "tcp_step na nb ?w1 (?w1\<lparr>w_b := b1\<rparr>)"
    by (rule tcp_step.b_deliver [of "[f]"]) (use b1(1) sk(2) i(4) f(2) data(2) in \<open>simp_all add: RECV_BUF_CAP_def\<close>)
  let ?b2 = "b1\<lparr>tcp_sockets := [sb\<lparr>tk_ack_num := tk_ack_num sb + of_nat (length data), tk_recv_buf := []\<rparr>]\<rparr>"
  let ?w3 = "?w1\<lparr>w_b := ?b2, w_got := w_got w @ data\<rparr>"
  have "tcp_recv b1 0 = (Inr data, ?b2)" using b1(2) i(2) by (simp add: tcp_recv_def)
  then have 3: "tcp_step na nb (?w1\<lparr>w_b := b1\<rparr>) ?w3" using tcp_step.b_recv [of "?w1\<lparr>w_b := b1\<rparr>" data ?b2 na nb] by simp
  have "idle ?w3" using i sk by (simp add: idle_def count_tx_def)
  moreover have "(tcp_step na nb)\<^sup>*\<^sup>* w ?w3" using 1 2 3 by (meson converse_rtranclp_into_rtranclp rtranclp.rtrancl_refl)
  ultimately show ?thesis by (intro exI [of _ ?w3]) simp
qed


definition sample_socket :: "u16 \<Rightarrow> u16 \<Rightarrow> ip_addr \<Rightarrow> u32 \<Rightarrow> u32 \<Rightarrow> tcp_socket" where
  "sample_socket lp rp rip seq ack = \<lparr>tk_state = Established, tk_seq_num = seq, tk_ack_num = ack, tk_local_ip = (10, 0, 2, 15), tk_local_port = lp,
     tk_remote_ip = rip, tk_remote_port = rp, tk_send_buf = [], tk_recv_buf = []\<rparr>"

definition sample_world :: world where
  "sample_world = \<lparr>w_a = \<lparr>tcp_stack = netstack_init, tcp_sockets = [sample_socket 49153 80 (10, 0, 2, 3) 0xFFFFFFFF 5]\<rparr>,
     w_b = \<lparr>tcp_stack = netstack_init, tcp_sockets = [sample_socket 80 49153 (10, 0, 2, 15) 5 0xFFFFFFFF]\<rparr>, w_sent = [], w_got = []\<rparr>"

lemma sample_idle: "idle sample_world" and sample_connected: "connected sample_world"
  by (simp_all add: idle_def connected_def sample_world_def sample_socket_def netstack_init_def network_new_def)



section \<open>The state machine\<close>

text \<open>The transitions of RFC 793 on the arrival of a segment with the given flags.\<close>

inductive rfc793 :: "u8 \<Rightarrow> tcp_state \<Rightarrow> tcp_state \<Rightarrow> bool" where
  stay: "rfc793 flags s s"
| reset: "flags AND TCP_RST \<noteq> 0 \<Longrightarrow> rfc793 flags s Closed"
| syn_ack: "flags AND TCP_SYN \<noteq> 0 \<Longrightarrow> flags AND TCP_ACK \<noteq> 0 \<Longrightarrow> rfc793 flags SynSent Established"
| ack_of_syn: "flags AND TCP_ACK \<noteq> 0 \<Longrightarrow> rfc793 flags SynReceived Established"
| fin: "flags AND TCP_FIN \<noteq> 0 \<Longrightarrow> rfc793 flags Established CloseWait"
| ack_of_fin: "flags AND TCP_ACK \<noteq> 0 \<Longrightarrow> rfc793 flags FinWait1 FinWait2"
| simultaneous: "flags AND TCP_FIN \<noteq> 0 \<Longrightarrow> rfc793 flags FinWait1 Closing"
| fin_ack: "flags AND TCP_FIN \<noteq> 0 \<Longrightarrow> flags AND TCP_ACK \<noteq> 0 \<Longrightarrow> rfc793 flags FinWait1 TimeWait"
| late_fin: "flags AND TCP_FIN \<noteq> 0 \<Longrightarrow> rfc793 flags FinWait2 TimeWait"
| closing: "flags AND TCP_ACK \<noteq> 0 \<Longrightarrow> rfc793 flags Closing TimeWait"
| last_ack: "flags AND TCP_ACK \<noteq> 0 \<Longrightarrow> rfc793 flags LastAck Closed"

lemma syn_ack_flags: "flags AND (TCP_SYN OR TCP_ACK) = TCP_SYN OR TCP_ACK \<Longrightarrow> flags AND TCP_SYN \<noteq> 0 \<and> flags AND TCP_ACK \<noteq> 0"
proof -
  assume h: "flags AND (TCP_SYN OR TCP_ACK) = TCP_SYN OR TCP_ACK"
  have "flags AND TCP_SYN = (flags AND (TCP_SYN OR TCP_ACK)) AND TCP_SYN" "flags AND TCP_ACK = (flags AND (TCP_SYN OR TCP_ACK)) AND TCP_ACK"
    by (simp_all add: and.assoc tcp_flags)
  then show ?thesis unfolding h by (simp add: tcp_flags)
qed

lemma sock_incoming_edge:
  assumes "sock_incoming nic ns sock hdr payload = Some (sock', ns')"
  shows "rfc793 (header_flags hdr) (tk_state sock) (tk_state sock')"
  using assms unfolding sock_incoming_def established_segment_def Let_def
  by (auto split: if_splits tcp_state.splits dest!: sock_ack_controlD syn_ack_flags intro: rfc793.intros)


definition fin_segment :: "u8 list" where
  "fin_segment = [0xC0, 1, 0, 80, 0, 0, 0, 0, 0, 0, 0, 5, 0x50, 0x11, 0, 0, 0, 0, 0, 0]"


section \<open>Opening\<close>

lemma carries_poll:
  assumes f: "carries src dst sp dp seq ack flags payload f" and rx: "st_rx ns = f # rest"
  obtains c ns1 raw ip where "poll_tcp_segment ns dp = (Some (built_header sp dp seq ack flags c, raw, ip), ns1)" and "st_rx ns1 = rest"
    and "st_net ns1 = count_rx (length f) (st_net ns)"
proof -
  obtain h c p where fr: "length h = 12" "f = h @ u16_to_be ETH_TYPE_IP @ p"
      and p: "ipv4_receive p = Some (src, dst, IP_PROTO_TCP, tcp_prefix sp dp seq ack flags @ u16_to_be c @ u16_to_be 0 @ payload)"
    using f by (auto simp: carries_def)
  have nth: "f ! 12 = u16_to_be ETH_TYPE_IP ! 0" "f ! 13 = u16_to_be ETH_TYPE_IP ! 1" using fr by (simp_all add: nth_append)
  obtain g ns1 where g: "poll_rx ns = (Some g, ns1)" "rf_payload g = p" "rf_ethertype g = ETH_TYPE_IP" "st_rx ns1 = rest"
      "st_net ns1 = count_rx (length f) (st_net ns)"
    using rx fr nth by (auto simp: poll_rx_def Let_def ETH_HEADER_LEN_def u16_to_be_def)
  have "p ! 0 = 0x45" "p ! 9 = IP_PROTO_TCP" "length p \<ge> 20" "drop 20 p = tcp_prefix sp dp seq ack flags @ u16_to_be c @ u16_to_be 0 @ payload"
    using p by (auto simp: ipv4_receive_def split: if_splits)
  then have "poll_tcp_segment ns dp = (Some (built_header sp dp seq ack flags c, drop 20 p, slice 12 4 p), ns1)"
    using g(1, 2, 3) by (simp add: poll_tcp_segment_def Let_def parse_built) (simp add: built_header_def)
  then show ?thesis using g(4, 5) by (rule that)
qed

lemma await_quiet:
  assumes "st_rx ns = []" and "\<forall>j<k. arrive (m + j) = []" and "k \<le> n"
  shows "await_synack arrive port isn n m ns = await_synack arrive port isn (n - k) (m + k) ns"
  using assms
proof (induction k arbitrary: n m)
  case (Suc k)
  obtain n' where n: "n = Suc n'" using Suc.prems(3) by (cases n) auto
  have "arrive m = []" using Suc.prems(2) by (metis add_0_right zero_less_Suc)
  then have "wait_tick arrive m ns = ns" using Suc.prems(1) by (simp add: wait_tick_def)
  then have "await_synack arrive port isn n m ns = await_synack arrive port isn n' (Suc m) ns"
    using Suc.prems(1) by (simp add: n poll_tcp_segment_def poll_rx_def)
  also have "\<dots> = await_synack arrive port isn (n' - k) (Suc m + k) ns"
  proof (rule Suc.IH)
    show "\<forall>j<k. arrive (Suc m + j) = []" using Suc.prems(2) by (metis Suc_less_eq add_Suc_shift)
  qed (use Suc.prems n in auto)
  finally show ?case using n by simp
qed simp

lemma await_synack_arrives:
  assumes rx: "st_rx ns = []" and quiet: "\<forall>j<k. arrive j = []" and f: "arrive k = [f]" and k: "Suc k < n"
    and syn: "carries src dst sp port peer (isn + 1) (TCP_SYN OR TCP_ACK) [] f"
  obtains ns1 where "await_synack arrive port isn n 0 ns = (Inr peer, ns1)" and "st_tx ns1 = st_tx ns" and "ns_ip (st_net ns1) = ns_ip (st_net ns)"
proof -
  obtain r where r: "n - k = Suc (Suc r)" using k by (metis Suc_diff_Suc Suc_lessD)
  have "await_synack arrive port isn n 0 ns = await_synack arrive port isn (Suc (Suc r)) k ns"
    using await_quiet [OF rx, of k arrive 0 n port isn] quiet k r by simp
  also have "\<dots> = await_synack arrive port isn (Suc r) (Suc k) (ns\<lparr>st_rx := [f]\<rparr>)"
    using rx f by (simp add: poll_tcp_segment_def poll_rx_def wait_tick_def)
  finally have a: "await_synack arrive port isn n 0 ns = await_synack arrive port isn (Suc r) (Suc k) (ns\<lparr>st_rx := [f]\<rparr>)" .
  obtain c ns1 raw ip where p: "poll_tcp_segment (ns\<lparr>st_rx := [f]\<rparr>) port = (Some (built_header sp port peer (isn + 1) (TCP_SYN OR TCP_ACK) c, raw, ip), ns1)"
      "st_net ns1 = count_rx (length f) (st_net (ns\<lparr>st_rx := [f]\<rparr>))"
    by (rule carries_poll [OF syn, of "ns\<lparr>st_rx := [f]\<rparr>" "[]"]) simp_all
  have fl: "header_flags (built_header sp port peer (isn + 1) (TCP_SYN OR TCP_ACK) c) = TCP_SYN OR TCP_ACK" by (simp add: flags_built tcp_flags)
  have "await_synack arrive port isn n 0 ns = (Inr peer, ns1)"
    unfolding a using p(1) fl by (simp add: Let_def tcp_flags) (simp add: built_header_def)
  then show ?thesis by (rule that) (use poll_tcp_segment_tx [OF p(1)] p(2) in \<open>simp_all add: count_rx_def\<close>)
qed

text \<open>
  C22. The three-way handshake: when the card takes our frames and the peer's SYN-ACK for our initial sequence number
  arrives within the retry limit, \<^verbatim>\<open>connect\<close> returns a new socket, established, whose numbers are
  one past our and the peer's initial numbers, and what it sent are exactly a SYN with our number and
  an ACK with both.\<close>

theorem tcp_connect_establishes:
  assumes "st_rx (tcp_stack st) = []" and "\<forall>tx f. nic tx f" and "length (tcp_sockets st) < MAX_SOCKETS"
    and "\<forall>j<k. arrive j = []" and "arrive k = [f]" and "Suc k < MAX_RETRIES"
    and "carries src dst sp (alloc_ephemeral_port pt st) peer (generate_isn it + 1) (TCP_SYN OR TCP_ACK) [] f"
  shows "\<exists>st' sock f1 f2. tcp_connect nic arrive pt it st dst_ip dst_port = Some (Inr (length (tcp_sockets st)), st') \<and>
    tcp_sockets st' = tcp_sockets st @ [sock] \<and> tk_state sock = Established \<and> tk_seq_num sock = generate_isn it + 1 \<and> tk_ack_num sock = peer + 1 \<and>
    tk_local_port sock = alloc_ephemeral_port pt st \<and> tk_remote_ip sock = dst_ip \<and> tk_remote_port sock = dst_port \<and> tk_recv_buf sock = [] \<and>
    st_tx (tcp_stack st') = st_tx (tcp_stack st) @ [f1, f2] \<and>
    carries (ns_ip (st_net (tcp_stack st))) dst_ip (alloc_ephemeral_port pt st) dst_port (generate_isn it) 0 TCP_SYN [] f1 \<and>
    carries (ns_ip (st_net (tcp_stack st))) dst_ip (alloc_ephemeral_port pt st) dst_port (generate_isn it + 1) (peer + 1) TCP_ACK [] f2"
proof -
  let ?ns = "tcp_stack st" and ?port = "alloc_ephemeral_port pt st" and ?isn = "generate_isn it"
  let ?ip = "ns_ip (st_net ?ns)"
  obtain f1 where f1: "carries ?ip dst_ip ?port dst_port ?isn 0 TCP_SYN [] f1"
      "send_segment nic ?ns ?ip dst_ip ?port dst_port ?isn 0 TCP_SYN [] =
        Some (if nic (st_tx ?ns) f1 then (True, ?ns\<lparr>st_tx := st_tx ?ns @ [f1], st_net := count_tx (length f1) (st_net ?ns)\<rparr>) else (False, ?ns))"
    by (rule send_segment_frame [of "[]" ?ns dst_ip ?port dst_port ?isn 0 TCP_SYN nic ?ip]) simp_all
  let ?ns1 = "?ns\<lparr>st_tx := st_tx ?ns @ [f1], st_net := count_tx (length f1) (st_net ?ns)\<rparr>"
  obtain ns2 where ns2: "await_synack arrive ?port ?isn MAX_RETRIES 0 ?ns1 = (Inr peer, ns2)" "st_tx ns2 = st_tx ?ns1" "ns_ip (st_net ns2) = ns_ip (st_net ?ns1)"
    by (rule await_synack_arrives [OF _ assms(4, 5, 6, 7), of ?ns1]) (use assms(1) in simp_all)
  then have ip2: "ns_ip (st_net ns2) = ?ip" by (simp add: count_tx_def)
  obtain f2 where f2: "carries ?ip dst_ip ?port dst_port (?isn + 1) (peer + 1) TCP_ACK [] f2"
      "send_segment nic ns2 ?ip dst_ip ?port dst_port (?isn + 1) (peer + 1) TCP_ACK [] =
        Some (if nic (st_tx ns2) f2 then (True, ns2\<lparr>st_tx := st_tx ns2 @ [f2], st_net := count_tx (length f2) (st_net ns2)\<rparr>) else (False, ns2))"
    using send_segment_frame [of "[]" ns2 dst_ip ?port dst_port "?isn + 1" "peer + 1" TCP_ACK nic ?ip thesis] ip2 by auto
  have "tcp_connect nic arrive pt it st dst_ip dst_port = Some (Inr (length (tcp_sockets st)),
      st\<lparr>tcp_stack := ns2\<lparr>st_tx := st_tx ns2 @ [f2], st_net := count_tx (length f2) (st_net ns2)\<rparr>, tcp_sockets := tcp_sockets st @
        [\<lparr>tk_state = Established, tk_seq_num = ?isn + 1, tk_ack_num = peer + 1, tk_local_ip = ?ip, tk_local_port = ?port,
          tk_remote_ip = dst_ip, tk_remote_port = dst_port, tk_send_buf = [], tk_recv_buf = []\<rparr>]\<rparr>)"
    using f1(2) f2(2) ns2(1) assms(2, 3) by (simp add: tcp_connect_def Let_def)
  then show ?thesis using f1(1) f2(1) ns2(2) by (intro exI conjI) (assumption | simp)+
qed

definition sample_host :: tcp where
  "sample_host = \<lparr>tcp_stack = netstack_init, tcp_sockets = []\<rparr>"

theorem tcp_connect_establishes_witness:
  "\<exists>f st' sock f1 f2. tcp_connect (\<lambda>tx f. True) (\<lambda>j. if j = 3 then [f] else []) 100 101 sample_host (10, 0, 2, 3) 80 =
      Some (Inr (length (tcp_sockets sample_host)), st') \<and>
    tcp_sockets st' = tcp_sockets sample_host @ [sock] \<and> tk_state sock = Established \<and> tk_seq_num sock = generate_isn 101 + 1 \<and> tk_ack_num sock = 77 + 1 \<and>
    tk_local_port sock = alloc_ephemeral_port 100 sample_host \<and> tk_remote_ip sock = (10, 0, 2, 3) \<and> tk_remote_port sock = 80 \<and> tk_recv_buf sock = [] \<and>
    st_tx (tcp_stack st') = st_tx (tcp_stack sample_host) @ [f1, f2] \<and>
    carries (ns_ip (st_net (tcp_stack sample_host))) (10, 0, 2, 3) (alloc_ephemeral_port 100 sample_host) 80 (generate_isn 101) 0 TCP_SYN [] f1 \<and>
    carries (ns_ip (st_net (tcp_stack sample_host))) (10, 0, 2, 3) (alloc_ephemeral_port 100 sample_host) 80 (generate_isn 101 + 1) (77 + 1) TCP_ACK [] f2"
proof -
  obtain f where f: "carries (ns_ip (st_net netstack_init)) (10, 0, 2, 15) 80 (alloc_ephemeral_port 100 sample_host) 77 (generate_isn 101 + 1) (TCP_SYN OR TCP_ACK) [] f"
    by (rule send_segment_frame [of "[]" netstack_init "(10, 0, 2, 15)" 80 "alloc_ephemeral_port 100 sample_host" 77 "generate_isn 101 + 1" "TCP_SYN OR TCP_ACK"]) simp_all
  show ?thesis
    by (rule exI [of _ f], rule tcp_connect_establishes [of sample_host _ 3 _ f, OF _ _ _ _ _ _ f])
      (simp_all add: sample_host_def netstack_init_def MAX_SOCKETS_def MAX_RETRIES_def)
qed

section \<open>Where data is lost\<close>

text \<open>Data that does not fit into the receive buffer is dropped, yet acknowledged.\<close>

lemma overflow_acknowledged:
  assumes "sock_incoming nic ns sock hdr payload = Some (sock', ns')" and "tk_state sock = Established" and "payload \<noteq> []"
    and "header_flags hdr = TCP_PSH OR TCP_ACK" and "th_seq hdr = tk_ack_num sock" and "length (tk_recv_buf sock) + length payload > RECV_BUF_CAP"
  shows "tk_recv_buf sock' = tk_recv_buf sock \<and> tk_ack_num sock' = tk_ack_num sock + of_nat (length payload)"
  using assms by (auto simp: sock_incoming_def established_segment_def Let_def tcp_flags dest!: sock_ack_controlD)

text \<open>Data in a segment that carries FIN is dropped, yet acknowledged, wherever the segment stands in the stream.\<close>

lemma fin_data_acknowledged:
  assumes "sock_incoming nic ns sock hdr payload = Some (sock', ns')" and "tk_state sock = Established"
    and "header_flags hdr = TCP_FIN OR TCP_ACK"
  shows "tk_recv_buf sock' = tk_recv_buf sock \<and> tk_ack_num sock' = th_seq hdr + of_nat (length payload) + 1 \<and> tk_state sock' = CloseWait"
  using assms by (auto simp: sock_incoming_def established_segment_def Let_def tcp_flags dest!: sock_ack_controlD)

end
