(* ===== verification/Crypto.thy ===== *)
theory Crypto
  imports Be_Bytes Rust_Str
begin

text \<open>
  The hash functions of \<^verbatim>\<open>crypto.rs\<close>: SHA-256, HMAC, the repeating-key cipher, the byte generator seeded by the time
  stamp counter (whose readings are a parameter) and the hexadecimal digest.
\<close>

section \<open>SHA-256\<close>

text \<open>The round constants, row by row as the source lists them.\<close>

definition K :: "u32 list" where
  "K = concat
    [[0x428a2f98, 0x71374491, 0xb5c0fbcf, 0xe9b5dba5],
     [0x3956c25b, 0x59f111f1, 0x923f82a4, 0xab1c5ed5],
     [0xd807aa98, 0x12835b01, 0x243185be, 0x550c7dc3],
     [0x72be5d74, 0x80deb1fe, 0x9bdc06a7, 0xc19bf174],
     [0xe49b69c1, 0xefbe4786, 0x0fc19dc6, 0x240ca1cc],
     [0x2de92c6f, 0x4a7484aa, 0x5cb0a9dc, 0x76f988da],
     [0x983e5152, 0xa831c66d, 0xb00327c8, 0xbf597fc7],
     [0xc6e00bf3, 0xd5a79147, 0x06ca6351, 0x14292967],
     [0x27b70a85, 0x2e1b2138, 0x4d2c6dfc, 0x53380d13],
     [0x650a7354, 0x766a0abb, 0x81c2c92e, 0x92722c85],
     [0xa2bfe8a1, 0xa81a664b, 0xc24b8b70, 0xc76c51a3],
     [0xd192e819, 0xd6990624, 0xf40e3585, 0x106aa070],
     [0x19a4c116, 0x1e376c08, 0x2748774c, 0x34b0bcb5],
     [0x391c0cb3, 0x4ed8aa4a, 0x5b9cca4f, 0x682e6ff3],
     [0x748f82ee, 0x78a5636f, 0x84c87814, 0x8cc70208],
     [0x90befffa, 0xa4506ceb, 0xbef9a3f7, 0xc67178f2]]"

definition H_INIT :: "u32 list" where
  "H_INIT = [0x6a09e667, 0xbb67ae85, 0x3c6ef372, 0xa54ff53a, 0x510e527f, 0x9b05688c, 0x1f83d9ab, 0x5be0cd19]"

definition rotr :: "u32 \<Rightarrow> nat \<Rightarrow> u32" where
  "rotr x n = drop_bit n x OR push_bit (32 - n) x"

definition ch :: "u32 \<Rightarrow> u32 \<Rightarrow> u32 \<Rightarrow> u32" where
  "ch x y z = (x AND y) XOR (NOT x AND z)"

definition maj :: "u32 \<Rightarrow> u32 \<Rightarrow> u32 \<Rightarrow> u32" where
  "maj x y z = (x AND y) XOR (x AND z) XOR (y AND z)"

definition big_sigma0 :: "u32 \<Rightarrow> u32" where
  "big_sigma0 x = rotr x 2 XOR rotr x 13 XOR rotr x 22"

definition big_sigma1 :: "u32 \<Rightarrow> u32" where
  "big_sigma1 x = rotr x 6 XOR rotr x 11 XOR rotr x 25"

definition small_sigma0 :: "u32 \<Rightarrow> u32" where
  "small_sigma0 x = rotr x 7 XOR rotr x 18 XOR drop_bit 3 x"

definition small_sigma1 :: "u32 \<Rightarrow> u32" where
  "small_sigma1 x = rotr x 17 XOR rotr x 19 XOR drop_bit 10 x"

function pad_zeros :: "u8 list \<Rightarrow> u8 list" where
  "pad_zeros buf = (if length buf mod 64 \<noteq> 56 then pad_zeros (buf @ [0]) else buf)"
  by pat_completeness auto
termination
  by (relation "measure (\<lambda>buf. let r = length buf mod 64 in if r \<le> 56 then 56 - r else 120 - r)")
    (auto simp: Let_def mod_Suc)

declare pad_zeros.simps [simp del]

definition u64_to_be :: "u64 \<Rightarrow> u8 list" where
  "u64_to_be w = map (\<lambda>i. ucast (drop_bit (8 * (7 - i)) w)) [0..<8]"

definition sha256_pad :: "u8 list \<Rightarrow> u8 list" where
  "sha256_pad data = pad_zeros (data @ [0x80]) @ u64_to_be (of_nat (length data) * 8)"

definition block_words :: "u8 list \<Rightarrow> u32 list" where
  "block_words block = map (\<lambda>i. u32_from_be (block ! (4 * i)) (block ! (4 * i + 1)) (block ! (4 * i + 2)) (block ! (4 * i + 3))) [0..<16]"

definition message_schedule :: "u8 list \<Rightarrow> u32 list" where
  "message_schedule block =
     foldl (\<lambda>w i. w @ [small_sigma1 (w ! (i - 2)) + w ! (i - 7) + small_sigma0 (w ! (i - 15)) + w ! (i - 16)]) (block_words block) [16..<64]"

type_synonym working = "u32 \<times> u32 \<times> u32 \<times> u32 \<times> u32 \<times> u32 \<times> u32 \<times> u32"

definition sha256_round :: "u32 list \<Rightarrow> working \<Rightarrow> nat \<Rightarrow> working" where
  "sha256_round w = (\<lambda>(a, b, c, d, e, f, g, h) i.
     let t1 = h + big_sigma1 e + ch e f g + K ! i + w ! i; t2 = big_sigma0 a + maj a b c
     in (t1 + t2, a, b, c, d + t1, e, f, g))"

definition sha256_compress :: "u32 list \<Rightarrow> u8 list \<Rightarrow> u32 list" where
  "sha256_compress state block =
     (let w = message_schedule block;
          (a, b, c, d, e, f, g, h) = foldl (sha256_round w)
            (state ! 0, state ! 1, state ! 2, state ! 3, state ! 4, state ! 5, state ! 6, state ! 7) [0..<64]
      in [state ! 0 + a, state ! 1 + b, state ! 2 + c, state ! 3 + d, state ! 4 + e, state ! 5 + f, state ! 6 + g, state ! 7 + h])"

text \<open>\<^verbatim>\<open>chunks_exact\<close> leaves out a shorter rest.\<close>

function chunks_exact :: "nat \<Rightarrow> 'a list \<Rightarrow> 'a list list" where
  "chunks_exact n xs = (if n = 0 \<or> length xs < n then [] else take n xs # chunks_exact n (drop n xs))"
  by pat_completeness auto
termination by (relation "measure (\<lambda>(n, xs). length xs)") auto

declare chunks_exact.simps [simp del]

definition sha256 :: "u8 list \<Rightarrow> u8 list" where
  "sha256 data = concat (map u32_to_be (foldl sha256_compress H_INIT (chunks_exact 64 (sha256_pad data))))"

section \<open>HMAC\<close>

definition HMAC_BLOCK_SIZE :: nat where "HMAC_BLOCK_SIZE = 64"

definition hmac_key_block :: "u8 list \<Rightarrow> u8 list" where
  "hmac_key_block key =
     (let k = (if length key > HMAC_BLOCK_SIZE then sha256 key else key) in k @ replicate (HMAC_BLOCK_SIZE - length k) 0)"

definition hmac_sha256 :: "u8 list \<Rightarrow> u8 list \<Rightarrow> u8 list" where
  "hmac_sha256 key data =
     (let key_block = hmac_key_block key;
          i_key_pad = map ((XOR) 0x36) key_block; o_key_pad = map ((XOR) 0x5c) key_block
      in sha256 (o_key_pad @ sha256 (i_key_pad @ data)))"

section \<open>The repeating-key cipher, random bytes and digests\<close>

definition xor_cipher :: "u8 list \<Rightarrow> u8 list \<Rightarrow> u8 list" where
  "xor_cipher data key = (if key = [] then data else map (\<lambda>(i, byte). byte XOR key ! (i mod length key)) (enumerate 0 data))"

definition mix64 :: "u64 \<Rightarrow> u64" where
  "mix64 x0 = (let x1 = x0 XOR drop_bit 12 x0; x2 = x1 XOR push_bit 25 x1; x3 = x2 XOR drop_bit 27 x2 in x3 * 0x2545f4914f6cdd1d)"

text \<open>The counter is a static; \<open>rdtsc t\<close> is the reading at the \<open>t\<close>-th call.\<close>

fun random_loop :: "(nat \<Rightarrow> u64) \<Rightarrow> nat \<Rightarrow> u64 \<Rightarrow> u64 \<Rightarrow> nat \<Rightarrow> u8 list \<times> u64" where
  "random_loop rdtsc t counter state 0 = ([], counter)"
| "random_loop rdtsc t counter state (Suc n) =
     (let count = counter; s1 = mix64 (state XOR count); byte = ucast (s1 AND 0xff);
          (t', s2) = (if count AND 7 = 0 then (Suc t, s1 XOR rdtsc t) else (t, s1));
          (rest, counter') = random_loop rdtsc t' (counter + 1) s2 n
      in (byte # rest, counter'))"

definition random_bytes :: "(nat \<Rightarrow> u64) \<Rightarrow> u64 \<Rightarrow> nat \<Rightarrow> u8 list \<times> u64" where
  "random_bytes rdtsc counter n = random_loop rdtsc 1 counter (rdtsc 0) n"

definition hex_low :: "u8 \<Rightarrow> char" where
  "hex_low d = ''0123456789abcdef'' ! unat d"

definition hex_digest :: "u8 list \<Rightarrow> str" where
  "hex_digest hash = concat (map (\<lambda>b. [hex_low (drop_bit 4 b), hex_low (b AND 0x0f)]) hash)"

section \<open>The constants\<close>

text \<open>
  The two tables are what the comments of the source say: the first 32 bits of the fractional parts of the cube roots of the
  first 64 primes, and of the square roots of the first 8. The integer part of such a root is at most 6.
\<close>

definition first_primes :: "int list" where
  "first_primes = filter (\<lambda>p. list_all (\<lambda>d. p < d * d \<or> p mod d \<noteq> 0) [2..17]) [2..311]"

definition is_root_fraction :: "nat \<Rightarrow> int \<Rightarrow> u32 \<Rightarrow> bool" where
  "is_root_fraction n p k \<longleftrightarrow>
     list_ex (\<lambda>i. let r = i * 2 ^ 32 + uint k in r ^ n \<le> p * 2 ^ (32 * n) \<and> p * 2 ^ (32 * n) < (r + 1) ^ n) [1, 2, 3, 4, 5, 6]"

lemma K_cube_roots: "list_all2 (is_root_fraction 3) first_primes K"
  by code_simp

lemma H_INIT_square_roots: "list_all2 (is_root_fraction 2) (take 8 first_primes) H_INIT"
  by (simp add: first_primes_def H_INIT_def is_root_fraction_def)

section \<open>Padding\<close>

lemma pad_zeros_form:
  "\<exists>n. pad_zeros buf = buf @ replicate n 0 \<and> (length buf + n) mod 64 = 56 \<and> (\<forall>k<n. (length buf + k) mod 64 \<noteq> 56)"
proof (induction buf rule: pad_zeros.induct)
  case (1 buf)
  show ?case
  proof (cases "length buf mod 64 = 56")
    case True
    then show ?thesis by (intro exI [of _ 0]) (simp add: pad_zeros.simps [of buf])
  next
    case False
    then obtain n where n: "pad_zeros (buf @ [0]) = (buf @ [0]) @ replicate n 0" "(length (buf @ [0]) + n) mod 64 = 56"
        "\<forall>k<n. (length (buf @ [0]) + k) mod 64 \<noteq> 56"
      using 1 by auto
    have "\<forall>k<Suc n. (length buf + k) mod 64 \<noteq> 56"
    proof (intro allI impI)
      fix k assume "k < Suc n"
      then show "(length buf + k) mod 64 \<noteq> 56" using False n(3) by (cases k) auto
    qed
    then show ?thesis using False n(1, 2) by (intro exI [of _ "Suc n"]) (simp add: pad_zeros.simps [of buf])
  qed
qed

lemma length_u64_to_be [simp]: "length (u64_to_be w) = 8"
  by (simp add: u64_to_be_def)

lemma sha256_pad_length: "length (sha256_pad data) mod 64 = 0"
proof -
  obtain n where n: "pad_zeros (data @ [0x80]) = (data @ [0x80]) @ replicate n 0" "(length (data @ [0x80]) + n) mod 64 = 56"
    using pad_zeros_form by blast
  have "length (sha256_pad data) = (length (data @ [0x80]) + n) + 8" by (simp add: sha256_pad_def n(1))
  then have "length (sha256_pad data) mod 64 = ((length (data @ [0x80]) + n) mod 64 + 8) mod 64" by (simp only: mod_add_left_eq)
  then show ?thesis unfolding n(2) by simp
qed

lemma u64_to_be_inject: "u64_to_be v = u64_to_be w \<Longrightarrow> v = w"
proof (rule bit_word_eqI)
  fix k :: nat
  assume eq: "u64_to_be v = u64_to_be w" and k: "k < LENGTH(64)"
  let ?i = "7 - k div 8"
  have i: "?i < 8" "8 * (7 - ?i) + k mod 8 = k" using k by auto
  have "u64_to_be v ! ?i = u64_to_be w ! ?i" using eq by simp
  then have "(ucast (drop_bit (8 * (7 - ?i)) v) :: u8) = ucast (drop_bit (8 * (7 - ?i)) w)" using i(1) by (simp add: u64_to_be_def)
  then have "bit (ucast (drop_bit (8 * (7 - ?i)) v) :: u8) (k mod 8) = bit (ucast (drop_bit (8 * (7 - ?i)) w) :: u8) (k mod 8)" by simp
  then show "bit v k = bit w k" using i(2) by (simp add: bit_simps)
qed

text \<open>The padding loses nothing: two messages with the same padded form are the same.\<close>

lemma sha256_pad_inject:
  assumes "sha256_pad a = sha256_pad b" and "length a < 2 ^ 61" and "length b < 2 ^ 61"
  shows "a = b"
proof -
  obtain m n where mn: "pad_zeros (a @ [0x80]) = (a @ [0x80]) @ replicate m 0" "pad_zeros (b @ [0x80]) = (b @ [0x80]) @ replicate n 0"
    using pad_zeros_form by metis
  have eq: "(a @ [0x80]) @ replicate m 0 = (b @ [0x80]) @ replicate n 0" "u64_to_be (of_nat (length a) * 8) = u64_to_be (of_nat (length b) * 8)"
    using assms(1) unfolding sha256_pad_def mn by (subst (asm) append_eq_append_conv; simp)+
  then have "(of_nat (8 * length a) :: u64) = of_nat (8 * length b)" using u64_to_be_inject by (fastforce simp: mult.commute)
  then have "8 * length a = 8 * length b" using assms(2, 3) by (simp only: word_of_nat_eq_iff) (simp add: take_bit_nat_eq_self)
  then have "length a = length b" by simp
  then show ?thesis using eq(1) by simp
qed

section \<open>Lengths, inverses and test vectors\<close>

lemma sha256_compress_length: "length (sha256_compress st block) = 8"
  by (simp add: sha256_compress_def Let_def split: prod.split)

lemma length_sha256 [simp]: "length (sha256 data) = 32"
proof -
  have "length (foldl sha256_compress st bs) = 8" if "length st = 8" for st bs
    using that by (induction bs arbitrary: st) (simp_all add: sha256_compress_length)
  then have 8: "length (foldl sha256_compress H_INIT bs) = 8" for bs by (simp add: H_INIT_def)
  have "length (concat (map u32_to_be ws)) = 4 * length ws" for ws by (induction ws) simp_all
  then show ?thesis by (simp add: sha256_def 8)
qed

lemma length_hmac [simp]: "length (hmac_sha256 key data) = 32"
  by (simp add: hmac_sha256_def Let_def)

lemma length_hmac_key_block: "length (hmac_key_block key) = HMAC_BLOCK_SIZE"
  by (auto simp: hmac_key_block_def HMAC_BLOCK_SIZE_def Let_def)

lemma xor_cipher_involution: "xor_cipher (xor_cipher data key) key = data"
  by (rule nth_equalityI) (auto simp: xor_cipher_def nth_enumerate_eq xor.assoc)

lemma hex_low_inject: "a < 16 \<Longrightarrow> b < 16 \<Longrightarrow> hex_low a = hex_low b \<Longrightarrow> a = b"
proof -
  assume ab: "a < 16" "b < 16" "hex_low a = hex_low b"
  have "distinct ''0123456789abcdef''" by simp
  then have "unat a = unat b" using ab nth_eq_iff_index_eq [of "''0123456789abcdef''" "unat a" "unat b"]
    by (simp add: hex_low_def word_less_nat_alt)
  then show ?thesis by (simp add: word_eq_iff_unsigned [where 'a = nat])
qed

text \<open>The test vectors of the repository.\<close>

lemma sha256_abc:
  "hex_digest (sha256 (map of_char ''abc'')) = ''ba7816bf8f01cfea414140de5dae2223b00361a396177a9cb410ff61f20015ad''"
  by code_simp

end
