(* ===== verification/Aes.thy ===== *)
theory Aes
  imports Crypto
begin

text \<open>
  AES-128 of \<^verbatim>\<open>crypto_ext.rs\<close>: key expansion, the round functions and their inverses, block encryption and decryption, the
  ECB and CBC modes, the counter mode and the packet encryption of an SSH session. A block is a list of
  16 bytes. The operation counters are left out.
\<close>

section \<open>The block cipher\<close>

definition SBOX :: "u8 list" where
  "SBOX = [0x63, 0x7c, 0x77, 0x7b, 0xf2, 0x6b, 0x6f, 0xc5, 0x30, 0x01, 0x67, 0x2b, 0xfe, 0xd7, 0xab, 0x76,
     0xca, 0x82, 0xc9, 0x7d, 0xfa, 0x59, 0x47, 0xf0, 0xad, 0xd4, 0xa2, 0xaf, 0x9c, 0xa4, 0x72, 0xc0,
     0xb7, 0xfd, 0x93, 0x26, 0x36, 0x3f, 0xf7, 0xcc, 0x34, 0xa5, 0xe5, 0xf1, 0x71, 0xd8, 0x31, 0x15,
     0x04, 0xc7, 0x23, 0xc3, 0x18, 0x96, 0x05, 0x9a, 0x07, 0x12, 0x80, 0xe2, 0xeb, 0x27, 0xb2, 0x75,
     0x09, 0x83, 0x2c, 0x1a, 0x1b, 0x6e, 0x5a, 0xa0, 0x52, 0x3b, 0xd6, 0xb3, 0x29, 0xe3, 0x2f, 0x84,
     0x53, 0xd1, 0x00, 0xed, 0x20, 0xfc, 0xb1, 0x5b, 0x6a, 0xcb, 0xbe, 0x39, 0x4a, 0x4c, 0x58, 0xcf,
     0xd0, 0xef, 0xaa, 0xfb, 0x43, 0x4d, 0x33, 0x85, 0x45, 0xf9, 0x02, 0x7f, 0x50, 0x3c, 0x9f, 0xa8,
     0x51, 0xa3, 0x40, 0x8f, 0x92, 0x9d, 0x38, 0xf5, 0xbc, 0xb6, 0xda, 0x21, 0x10, 0xff, 0xf3, 0xd2,
     0xcd, 0x0c, 0x13, 0xec, 0x5f, 0x97, 0x44, 0x17, 0xc4, 0xa7, 0x7e, 0x3d, 0x64, 0x5d, 0x19, 0x73,
     0x60, 0x81, 0x4f, 0xdc, 0x22, 0x2a, 0x90, 0x88, 0x46, 0xee, 0xb8, 0x14, 0xde, 0x5e, 0x0b, 0xdb,
     0xe0, 0x32, 0x3a, 0x0a, 0x49, 0x06, 0x24, 0x5c, 0xc2, 0xd3, 0xac, 0x62, 0x91, 0x95, 0xe4, 0x79,
     0xe7, 0xc8, 0x37, 0x6d, 0x8d, 0xd5, 0x4e, 0xa9, 0x6c, 0x56, 0xf4, 0xea, 0x65, 0x7a, 0xae, 0x08,
     0xba, 0x78, 0x25, 0x2e, 0x1c, 0xa6, 0xb4, 0xc6, 0xe8, 0xdd, 0x74, 0x1f, 0x4b, 0xbd, 0x8b, 0x8a,
     0x70, 0x3e, 0xb5, 0x66, 0x48, 0x03, 0xf6, 0x0e, 0x61, 0x35, 0x57, 0xb9, 0x86, 0xc1, 0x1d, 0x9e,
     0xe1, 0xf8, 0x98, 0x11, 0x69, 0xd9, 0x8e, 0x94, 0x9b, 0x1e, 0x87, 0xe9, 0xce, 0x55, 0x28, 0xdf,
     0x8c, 0xa1, 0x89, 0x0d, 0xbf, 0xe6, 0x42, 0x68, 0x41, 0x99, 0x2d, 0x0f, 0xb0, 0x54, 0xbb, 0x16]"

definition INV_SBOX :: "u8 list" where
  "INV_SBOX = [0x52, 0x09, 0x6a, 0xd5, 0x30, 0x36, 0xa5, 0x38, 0xbf, 0x40, 0xa3, 0x9e, 0x81, 0xf3, 0xd7, 0xfb,
     0x7c, 0xe3, 0x39, 0x82, 0x9b, 0x2f, 0xff, 0x87, 0x34, 0x8e, 0x43, 0x44, 0xc4, 0xde, 0xe9, 0xcb,
     0x54, 0x7b, 0x94, 0x32, 0xa6, 0xc2, 0x23, 0x3d, 0xee, 0x4c, 0x95, 0x0b, 0x42, 0xfa, 0xc3, 0x4e,
     0x08, 0x2e, 0xa1, 0x66, 0x28, 0xd9, 0x24, 0xb2, 0x76, 0x5b, 0xa2, 0x49, 0x6d, 0x8b, 0xd1, 0x25,
     0x72, 0xf8, 0xf6, 0x64, 0x86, 0x68, 0x98, 0x16, 0xd4, 0xa4, 0x5c, 0xcc, 0x5d, 0x65, 0xb6, 0x92,
     0x6c, 0x70, 0x48, 0x50, 0xfd, 0xed, 0xb9, 0xda, 0x5e, 0x15, 0x46, 0x57, 0xa7, 0x8d, 0x9d, 0x84,
     0x90, 0xd8, 0xab, 0x00, 0x8c, 0xbc, 0xd3, 0x0a, 0xf7, 0xe4, 0x58, 0x05, 0xb8, 0xb3, 0x45, 0x06,
     0xd0, 0x2c, 0x1e, 0x8f, 0xca, 0x3f, 0x0f, 0x02, 0xc1, 0xaf, 0xbd, 0x03, 0x01, 0x13, 0x8a, 0x6b,
     0x3a, 0x91, 0x11, 0x41, 0x4f, 0x67, 0xdc, 0xea, 0x97, 0xf2, 0xcf, 0xce, 0xf0, 0xb4, 0xe6, 0x73,
     0x96, 0xac, 0x74, 0x22, 0xe7, 0xad, 0x35, 0x85, 0xe2, 0xf9, 0x37, 0xe8, 0x1c, 0x75, 0xdf, 0x6e,
     0x47, 0xf1, 0x1a, 0x71, 0x1d, 0x29, 0xc5, 0x89, 0x6f, 0xb7, 0x62, 0x0e, 0xaa, 0x18, 0xbe, 0x1b,
     0xfc, 0x56, 0x3e, 0x4b, 0xc6, 0xd2, 0x79, 0x20, 0x9a, 0xdb, 0xc0, 0xfe, 0x78, 0xcd, 0x5a, 0xf4,
     0x1f, 0xdd, 0xa8, 0x33, 0x88, 0x07, 0xc7, 0x31, 0xb1, 0x12, 0x10, 0x59, 0x27, 0x80, 0xec, 0x5f,
     0x60, 0x51, 0x7f, 0xa9, 0x19, 0xb5, 0x4a, 0x0d, 0x2d, 0xe5, 0x7a, 0x9f, 0x93, 0xc9, 0x9c, 0xef,
     0xa0, 0xe0, 0x3b, 0x4d, 0xae, 0x2a, 0xf5, 0xb0, 0xc8, 0xeb, 0xbb, 0x3c, 0x83, 0x53, 0x99, 0x61,
     0x17, 0x2b, 0x04, 0x7e, 0xba, 0x77, 0xd6, 0x26, 0xe1, 0x69, 0x14, 0x63, 0x55, 0x21, 0x0c, 0x7d]"

definition RCON :: "u8 list" where
  "RCON = [0x00, 0x01, 0x02, 0x04, 0x08, 0x10, 0x20, 0x40, 0x80, 0x1b, 0x36]"

definition sbox :: "u8 \<Rightarrow> u8" where
  "sbox b = SBOX ! unat b"

definition inv_sbox :: "u8 \<Rightarrow> u8" where
  "inv_sbox b = INV_SBOX ! unat b"

definition xor_block :: "u8 list \<Rightarrow> u8 list \<Rightarrow> u8 list" where
  "xor_block xs ys = map2 (XOR) xs ys"

definition next_round_key :: "nat \<Rightarrow> u8 list \<Rightarrow> u8 list" where
  "next_round_key i prev =
     (let temp0 = map sbox [prev ! 13, prev ! 14, prev ! 15, prev ! 12];
          temp = temp0[0 := temp0 ! 0 XOR RCON ! i];
          rk = map (\<lambda>j. prev ! j XOR temp ! j) [0..<4]
      in foldl (\<lambda>rk j. rk @ [prev ! j XOR rk ! (j - 4)]) rk [4..<16])"

definition key_expansion :: "u8 list \<Rightarrow> u8 list list" where
  "key_expansion key = foldl (\<lambda>rks i. rks @ [next_round_key i (rks ! (i - 1))]) [key] [1..<11]"

definition sub_bytes :: "u8 list \<Rightarrow> u8 list" where
  "sub_bytes state = map sbox state"

definition inv_sub_bytes :: "u8 list \<Rightarrow> u8 list" where
  "inv_sub_bytes state = map inv_sbox state"

text \<open>The assignments permute the sixteen bytes: which byte ends up at each position.\<close>

definition shift_rows :: "u8 list \<Rightarrow> u8 list" where
  "shift_rows state = map ((!) state) [0, 5, 10, 15, 4, 9, 14, 3, 8, 13, 2, 7, 12, 1, 6, 11]"

definition inv_shift_rows :: "u8 list \<Rightarrow> u8 list" where
  "inv_shift_rows state = map ((!) state) [0, 13, 10, 7, 4, 1, 14, 11, 8, 5, 2, 15, 12, 9, 6, 3]"

fun gmul_loop :: "nat \<Rightarrow> u8 \<Rightarrow> u8 \<Rightarrow> u8 \<Rightarrow> u8" where
  "gmul_loop 0 p a b = p"
| "gmul_loop (Suc n) p a b =
     gmul_loop n (if b AND 1 \<noteq> 0 then p XOR a else p)
       (if a AND 0x80 \<noteq> 0 then push_bit 1 a XOR 0x1b else push_bit 1 a) (drop_bit 1 b)"

definition gmul :: "u8 \<Rightarrow> u8 \<Rightarrow> u8" where
  "gmul a b = gmul_loop 8 0 a b"

definition mix_column :: "u8 list \<Rightarrow> nat \<Rightarrow> u8 list" where
  "mix_column state i =
     (let s0 = state ! i; s1 = state ! (i + 1); s2 = state ! (i + 2); s3 = state ! (i + 3)
      in [gmul 2 s0 XOR gmul 3 s1 XOR s2 XOR s3, s0 XOR gmul 2 s1 XOR gmul 3 s2 XOR s3,
          s0 XOR s1 XOR gmul 2 s2 XOR gmul 3 s3, gmul 3 s0 XOR s1 XOR s2 XOR gmul 2 s3])"

definition mix_columns :: "u8 list \<Rightarrow> u8 list" where
  "mix_columns state = concat (map (\<lambda>col. mix_column state (col * 4)) [0..<4])"

definition inv_mix_column :: "u8 list \<Rightarrow> nat \<Rightarrow> u8 list" where
  "inv_mix_column state i =
     (let s0 = state ! i; s1 = state ! (i + 1); s2 = state ! (i + 2); s3 = state ! (i + 3)
      in [gmul 14 s0 XOR gmul 11 s1 XOR gmul 13 s2 XOR gmul 9 s3, gmul 9 s0 XOR gmul 14 s1 XOR gmul 11 s2 XOR gmul 13 s3,
          gmul 13 s0 XOR gmul 9 s1 XOR gmul 14 s2 XOR gmul 11 s3, gmul 11 s0 XOR gmul 13 s1 XOR gmul 9 s2 XOR gmul 14 s3])"

definition inv_mix_columns :: "u8 list \<Rightarrow> u8 list" where
  "inv_mix_columns state = concat (map (\<lambda>col. inv_mix_column state (col * 4)) [0..<4])"

definition add_round_key :: "u8 list \<Rightarrow> u8 list \<Rightarrow> u8 list" where
  "add_round_key state rk = xor_block state rk"

definition encrypt_round :: "u8 list list \<Rightarrow> u8 list \<Rightarrow> nat \<Rightarrow> u8 list" where
  "encrypt_round rks state i = add_round_key (mix_columns (shift_rows (sub_bytes state))) (rks ! i)"

definition decrypt_round :: "u8 list list \<Rightarrow> u8 list \<Rightarrow> nat \<Rightarrow> u8 list" where
  "decrypt_round rks state i = inv_mix_columns (add_round_key (inv_sub_bytes (inv_shift_rows state)) (rks ! i))"

definition aes128_encrypt_block :: "u8 list \<Rightarrow> u8 list \<Rightarrow> u8 list" where
  "aes128_encrypt_block input key =
     (let rks = key_expansion key;
          state = foldl (encrypt_round rks) (add_round_key input (rks ! 0)) [1..<10]
      in add_round_key (shift_rows (sub_bytes state)) (rks ! 10))"

definition aes128_decrypt_block :: "u8 list \<Rightarrow> u8 list \<Rightarrow> u8 list" where
  "aes128_decrypt_block input key =
     (let rks = key_expansion key;
          state = foldl (decrypt_round rks) (add_round_key input (rks ! 10)) (rev [1..<10])
      in add_round_key (inv_sub_bytes (inv_shift_rows state)) (rks ! 0))"

section \<open>Modes\<close>

function pad_block :: "u8 list \<Rightarrow> u8 list" where
  "pad_block padded = (if length padded mod 16 \<noteq> 0 then pad_block (padded @ [0]) else padded)"
  by pat_completeness auto
termination
  by (relation "measure (\<lambda>padded. let r = length padded mod 16 in if r = 0 then 0 else 16 - r)") (auto simp: Let_def mod_Suc)

declare pad_block.simps [simp del]

definition aes_ecb_encrypt :: "u8 list \<Rightarrow> u8 list \<Rightarrow> u8 list" where
  "aes_ecb_encrypt data key = concat (map (\<lambda>block. aes128_encrypt_block block key) (chunks_exact 16 (pad_block data)))"

fun cbc_blocks :: "u8 list \<Rightarrow> u8 list \<Rightarrow> u8 list list \<Rightarrow> u8 list" where
  "cbc_blocks key prev [] = []"
| "cbc_blocks key prev (block # blocks) =
     (let enc = aes128_encrypt_block (xor_block block prev) key in enc @ cbc_blocks key enc blocks)"

definition aes_cbc_encrypt :: "u8 list \<Rightarrow> u8 list \<Rightarrow> u8 list \<Rightarrow> u8 list" where
  "aes_cbc_encrypt data key iv = cbc_blocks key iv (chunks_exact 16 (pad_block data))"

record aes_ctr =
  ac_key :: "u8 list"
  ac_nonce :: "u8 list"
  ac_counter :: u64

definition ctr_new :: "u8 list \<Rightarrow> u8 list \<Rightarrow> aes_ctr" where
  "ctr_new key iv = \<lparr>ac_key = key, ac_nonce = iv, ac_counter = 0\<rparr>"

text \<open>\<open>None\<close> is the panic of the counter's checked addition after \<open>2 ^ 64 - 1\<close> blocks.\<close>

definition next_block :: "aes_ctr \<Rightarrow> (u8 list \<times> aes_ctr) option" where
  "next_block c =
     (if ac_counter c = - 1 then None
      else let ctr_block = take 8 (ac_nonce c) @ xor_block (drop 8 (ac_nonce c)) (u64_to_be (ac_counter c))
           in Some (aes128_encrypt_block ctr_block (ac_key c), c\<lparr>ac_counter := ac_counter c + 1\<rparr>))"

fun ctr_loop :: "u8 list \<Rightarrow> u8 list \<Rightarrow> nat \<Rightarrow> aes_ctr \<Rightarrow> (u8 list \<times> aes_ctr) option" where
  "ctr_loop [] keystream ks_pos c = Some ([], c)"
| "ctr_loop (byte # data) keystream ks_pos c =
     (if ks_pos \<ge> 16
      then case next_block c of
          None \<Rightarrow> None
        | Some (ks, c1) \<Rightarrow> map_option (\<lambda>r. ((byte XOR ks ! 0) # fst r, snd r)) (ctr_loop data ks 1 c1)
      else map_option (\<lambda>r. ((byte XOR keystream ! ks_pos) # fst r, snd r)) (ctr_loop data keystream (ks_pos + 1) c))"

definition ctr_process :: "aes_ctr \<Rightarrow> u8 list \<Rightarrow> (u8 list \<times> aes_ctr) option" where
  "ctr_process c data = ctr_loop data (replicate 16 0) 16 c"

definition ctr_encrypt :: "aes_ctr \<Rightarrow> u8 list \<Rightarrow> (u8 list \<times> aes_ctr) option" where
  "ctr_encrypt c plaintext = ctr_process c plaintext"

definition ctr_decrypt :: "aes_ctr \<Rightarrow> u8 list \<Rightarrow> (u8 list \<times> aes_ctr) option" where
  "ctr_decrypt c ciphertext = ctr_process c ciphertext"

record ssh_crypto =
  sc_encrypt :: aes_ctr
  sc_decrypt :: aes_ctr
  sc_mac_key :: "u8 list"
  sc_seq_send :: u32
  sc_seq_recv :: u32

definition from_shared_secret :: "u64 \<Rightarrow> ssh_crypto" where
  "from_shared_secret shared =
     (let secret_bytes = u64_to_be shared; hash = sha256 secret_bytes; dec_seed = secret_bytes @ [0x01];
          dec_hash = sha256 dec_seed; mac_hash = sha256 (dec_seed @ [0x02])
      in \<lparr>sc_encrypt = ctr_new (take 16 hash) (take 16 (drop 16 hash)), sc_decrypt = ctr_new (take 16 dec_hash) (take 16 (drop 16 dec_hash)),
          sc_mac_key = mac_hash, sc_seq_send = 0, sc_seq_recv = 0\<rparr>)"

definition encrypt_packet :: "ssh_crypto \<Rightarrow> u8 list \<Rightarrow> (u8 list \<times> ssh_crypto) option" where
  "encrypt_packet s data =
     (case ctr_process (sc_encrypt s) data of
        None \<Rightarrow> None
      | Some (out, c) \<Rightarrow> if sc_seq_send s = - 1 then None else Some (out, s\<lparr>sc_encrypt := c, sc_seq_send := sc_seq_send s + 1\<rparr>))"

definition decrypt_packet :: "ssh_crypto \<Rightarrow> u8 list \<Rightarrow> (u8 list \<times> ssh_crypto) option" where
  "decrypt_packet s data =
     (case ctr_process (sc_decrypt s) data of
        None \<Rightarrow> None
      | Some (out, c) \<Rightarrow> if sc_seq_recv s = - 1 then None else Some (out, s\<lparr>sc_decrypt := c, sc_seq_recv := sc_seq_recv s + 1\<rparr>))"

definition compute_mac :: "ssh_crypto \<Rightarrow> u32 \<Rightarrow> u8 list \<Rightarrow> u8 list" where
  "compute_mac s seq data = hmac_sha256 (sc_mac_key s) (u32_to_be seq @ data)"

section \<open>The round functions are inverted\<close>

lemma u8_all:
  assumes "list_all (\<lambda>i. P (of_nat i)) [0..<256]" shows "P (b :: u8)"
proof -
  have "unat b \<in> set [0..<256]" using unsigned_less [of b, where 'a = nat] by simp
  then have "P (of_nat (unat b))" using assms unfolding list_all_iff by blast
  then show ?thesis by simp
qed

lemma inv_sbox_sbox [simp]: "inv_sbox (sbox b) = b"
  by (rule u8_all [of "\<lambda>b. inv_sbox (sbox b) = b"]) code_simp

lemma gmul_loop_xor: "gmul_loop n (p XOR q) a (x XOR y) = gmul_loop n p a x XOR gmul_loop n q a y"
proof (induction n arbitrary: p q a x y)
  case (Suc n)
  define a' where "a' = (if a AND 0x80 \<noteq> 0 then push_bit 1 a XOR 0x1b else push_bit 1 a)"
  define p' where "p' = (if x AND 1 \<noteq> 0 then p XOR a else p)"
  define q' where "q' = (if y AND 1 \<noteq> 0 then q XOR a else q)"
  have "(x XOR y) AND 1 \<noteq> 0 \<longleftrightarrow> (x AND 1 \<noteq> 0) \<noteq> (y AND 1 \<noteq> 0)" by (simp add: and_one_eq even_xor_iff mod_2_eq_odd)
  then have "(if (x XOR y) AND 1 \<noteq> 0 then (p XOR q) XOR a else p XOR q) = p' XOR q'"
    unfolding p'_def q'_def by (cases "x AND 1 = 0"; cases "y AND 1 = 0") (simp_all add: xor.assoc xor.commute xor.left_commute)
  then have "gmul_loop (Suc n) (p XOR q) a (x XOR y) = gmul_loop n (p' XOR q') a' (drop_bit 1 x XOR drop_bit 1 y)"
    unfolding gmul_loop.simps a'_def drop_bit_xor by (rule arg_cong)
  also have "\<dots> = gmul_loop n p' a' (drop_bit 1 x) XOR gmul_loop n q' a' (drop_bit 1 y)" by (rule Suc)
  finally show ?case unfolding gmul_loop.simps a'_def p'_def q'_def .
qed simp

lemma gmul_xor: "gmul a (x XOR y) = gmul a x XOR gmul a y"
  unfolding gmul_def using gmul_loop_xor [of 8 0 0 a x y] by simp

text \<open>A function on bytes that respects exclusive or is determined by the eight single bits.\<close>

lemma linear_zero:
  assumes add: "\<And>x y. F (x XOR y) = F x XOR (F y :: u8)" and basis: "list_all (\<lambda>b. F b = 0) [1, 2, 4, 8, 16, 32, 64, 128]"
  shows "F (s :: u8) = 0"
proof -
  have z: "F 0 = 0" using add [of 0 0] by simp
  have "F (take_bit n s) = 0" if "n \<le> 8" for n
    using that
  proof (induction n)
    case (Suc n)
    have "take_bit (Suc n) s = take_bit n s XOR (if bit s n then push_bit n 1 else 0)"
      by (rule bit_word_eqI) (auto simp: bit_simps less_Suc_eq bit_1_iff)
    moreover have "n \<in> {0, 1, 2, 3, 4, 5, 6, 7}" using Suc.prems by auto
    then have "F (push_bit n 1) = 0" using basis by auto
    ultimately show ?case using Suc by (simp add: add z)
  qed (simp add: z)
  from this [of 8] show ?thesis by (simp add: take_bit_word_eq_self)
qed

lemma gmul_8: "gmul a b = gmul_loop (Suc (Suc (Suc (Suc (Suc (Suc (Suc (Suc 0)))))))) 0 a b"
  by (simp add: gmul_def eval_nat_numeral)

lemma mix_entry_00: "gmul 14 (gmul 2 s) XOR gmul 11 s XOR gmul 13 s XOR gmul 9 (gmul 3 s) XOR s = 0"
  by (rule linear_zero [of "\<lambda>s. gmul 14 (gmul 2 s) XOR gmul 11 s XOR gmul 13 s XOR gmul 9 (gmul 3 s) XOR s"]) (simp only: gmul_xor ac_simps, simp add: gmul_8 cong: if_weak_cong)

lemma mix_entry_01: "gmul 14 (gmul 3 s) XOR gmul 11 (gmul 2 s) XOR gmul 13 s XOR gmul 9 s = 0"
  by (rule linear_zero [of "\<lambda>s. gmul 14 (gmul 3 s) XOR gmul 11 (gmul 2 s) XOR gmul 13 s XOR gmul 9 s"]) (simp only: gmul_xor ac_simps, simp add: gmul_8 cong: if_weak_cong)

lemma mix_entry_02: "gmul 14 s XOR gmul 11 (gmul 3 s) XOR gmul 13 (gmul 2 s) XOR gmul 9 s = 0"
  by (rule linear_zero [of "\<lambda>s. gmul 14 s XOR gmul 11 (gmul 3 s) XOR gmul 13 (gmul 2 s) XOR gmul 9 s"]) (simp only: gmul_xor ac_simps, simp add: gmul_8 cong: if_weak_cong)

lemma mix_entry_03: "gmul 14 s XOR gmul 11 s XOR gmul 13 (gmul 3 s) XOR gmul 9 (gmul 2 s) = 0"
  by (rule linear_zero [of "\<lambda>s. gmul 14 s XOR gmul 11 s XOR gmul 13 (gmul 3 s) XOR gmul 9 (gmul 2 s)"]) (simp only: gmul_xor ac_simps, simp add: gmul_8 cong: if_weak_cong)

lemma mix_entry_10: "gmul 9 (gmul 2 s) XOR gmul 14 s XOR gmul 11 s XOR gmul 13 (gmul 3 s) = 0"
  using mix_entry_03 [of s] by (simp only: ac_simps)

lemma mix_entry_11: "gmul 9 (gmul 3 s) XOR gmul 14 (gmul 2 s) XOR gmul 11 s XOR gmul 13 s XOR s = 0"
  using mix_entry_00 [of s] by (simp only: ac_simps)

lemma mix_entry_12: "gmul 9 s XOR gmul 14 (gmul 3 s) XOR gmul 11 (gmul 2 s) XOR gmul 13 s = 0"
  using mix_entry_01 [of s] by (simp only: ac_simps)

lemma mix_entry_13: "gmul 9 s XOR gmul 14 s XOR gmul 11 (gmul 3 s) XOR gmul 13 (gmul 2 s) = 0"
  using mix_entry_02 [of s] by (simp only: ac_simps)

lemma mix_entry_20: "gmul 13 (gmul 2 s) XOR gmul 9 s XOR gmul 14 s XOR gmul 11 (gmul 3 s) = 0"
  using mix_entry_02 [of s] by (simp only: ac_simps)

lemma mix_entry_21: "gmul 13 (gmul 3 s) XOR gmul 9 (gmul 2 s) XOR gmul 14 s XOR gmul 11 s = 0"
  using mix_entry_03 [of s] by (simp only: ac_simps)

lemma mix_entry_22: "gmul 13 s XOR gmul 9 (gmul 3 s) XOR gmul 14 (gmul 2 s) XOR gmul 11 s XOR s = 0"
  using mix_entry_00 [of s] by (simp only: ac_simps)

lemma mix_entry_23: "gmul 13 s XOR gmul 9 s XOR gmul 14 (gmul 3 s) XOR gmul 11 (gmul 2 s) = 0"
  using mix_entry_01 [of s] by (simp only: ac_simps)

lemma mix_entry_30: "gmul 11 (gmul 2 s) XOR gmul 13 s XOR gmul 9 s XOR gmul 14 (gmul 3 s) = 0"
  using mix_entry_01 [of s] by (simp only: ac_simps)

lemma mix_entry_31: "gmul 11 (gmul 3 s) XOR gmul 13 (gmul 2 s) XOR gmul 9 s XOR gmul 14 s = 0"
  using mix_entry_02 [of s] by (simp only: ac_simps)

lemma mix_entry_32: "gmul 11 s XOR gmul 13 (gmul 3 s) XOR gmul 9 (gmul 2 s) XOR gmul 14 s = 0"
  using mix_entry_03 [of s] by (simp only: ac_simps)

lemma mix_entry_33: "gmul 11 s XOR gmul 13 s XOR gmul 9 (gmul 3 s) XOR gmul 14 (gmul 2 s) XOR s = 0"
  using mix_entry_00 [of s] by (simp only: ac_simps)

lemma xor_zero_iff: "x XOR y = 0 \<longleftrightarrow> x = (y :: u8)"
  by (metis xor.left_neutral xor.assoc xor.right_neutral xor_self_eq)

lemma mix_row_0: "gmul 14 (gmul 2 a XOR gmul 3 b XOR c XOR d) XOR gmul 11 (a XOR gmul 2 b XOR gmul 3 c XOR d) XOR gmul 13 (a XOR b XOR gmul 2 c XOR gmul 3 d) XOR gmul 9 (gmul 3 a XOR b XOR c XOR gmul 2 d) = a"
proof -
  let ?l = "gmul 14 (gmul 2 a XOR gmul 3 b XOR c XOR d) XOR gmul 11 (a XOR gmul 2 b XOR gmul 3 c XOR d) XOR gmul 13 (a XOR b XOR gmul 2 c XOR gmul 3 d) XOR gmul 9 (gmul 3 a XOR b XOR c XOR gmul 2 d)"
  have "?l XOR a = (gmul 14 (gmul 2 a) XOR gmul 11 a XOR gmul 13 a XOR gmul 9 (gmul 3 a) XOR a) XOR (gmul 14 (gmul 3 b) XOR gmul 11 (gmul 2 b) XOR gmul 13 b XOR gmul 9 b) XOR (gmul 14 c XOR gmul 11 (gmul 3 c) XOR gmul 13 (gmul 2 c) XOR gmul 9 c) XOR (gmul 14 d XOR gmul 11 d XOR gmul 13 (gmul 3 d) XOR gmul 9 (gmul 2 d))"
    by (simp only: gmul_xor ac_simps)
  then have "?l XOR a = 0" by (simp only: mix_entry_00 mix_entry_01 mix_entry_02 mix_entry_03 xor.right_neutral)
  then show ?thesis by (simp only: xor_zero_iff)
qed

lemma mix_row_1: "gmul 9 (gmul 2 a XOR gmul 3 b XOR c XOR d) XOR gmul 14 (a XOR gmul 2 b XOR gmul 3 c XOR d) XOR gmul 11 (a XOR b XOR gmul 2 c XOR gmul 3 d) XOR gmul 13 (gmul 3 a XOR b XOR c XOR gmul 2 d) = b"
proof -
  let ?l = "gmul 9 (gmul 2 a XOR gmul 3 b XOR c XOR d) XOR gmul 14 (a XOR gmul 2 b XOR gmul 3 c XOR d) XOR gmul 11 (a XOR b XOR gmul 2 c XOR gmul 3 d) XOR gmul 13 (gmul 3 a XOR b XOR c XOR gmul 2 d)"
  have "?l XOR b = (gmul 9 (gmul 2 a) XOR gmul 14 a XOR gmul 11 a XOR gmul 13 (gmul 3 a)) XOR (gmul 9 (gmul 3 b) XOR gmul 14 (gmul 2 b) XOR gmul 11 b XOR gmul 13 b XOR b) XOR (gmul 9 c XOR gmul 14 (gmul 3 c) XOR gmul 11 (gmul 2 c) XOR gmul 13 c) XOR (gmul 9 d XOR gmul 14 d XOR gmul 11 (gmul 3 d) XOR gmul 13 (gmul 2 d))"
    by (simp only: gmul_xor ac_simps)
  then have "?l XOR b = 0" by (simp only: mix_entry_10 mix_entry_11 mix_entry_12 mix_entry_13 xor.right_neutral)
  then show ?thesis by (simp only: xor_zero_iff)
qed

lemma mix_row_2: "gmul 13 (gmul 2 a XOR gmul 3 b XOR c XOR d) XOR gmul 9 (a XOR gmul 2 b XOR gmul 3 c XOR d) XOR gmul 14 (a XOR b XOR gmul 2 c XOR gmul 3 d) XOR gmul 11 (gmul 3 a XOR b XOR c XOR gmul 2 d) = c"
proof -
  let ?l = "gmul 13 (gmul 2 a XOR gmul 3 b XOR c XOR d) XOR gmul 9 (a XOR gmul 2 b XOR gmul 3 c XOR d) XOR gmul 14 (a XOR b XOR gmul 2 c XOR gmul 3 d) XOR gmul 11 (gmul 3 a XOR b XOR c XOR gmul 2 d)"
  have "?l XOR c = (gmul 13 (gmul 2 a) XOR gmul 9 a XOR gmul 14 a XOR gmul 11 (gmul 3 a)) XOR (gmul 13 (gmul 3 b) XOR gmul 9 (gmul 2 b) XOR gmul 14 b XOR gmul 11 b) XOR (gmul 13 c XOR gmul 9 (gmul 3 c) XOR gmul 14 (gmul 2 c) XOR gmul 11 c XOR c) XOR (gmul 13 d XOR gmul 9 d XOR gmul 14 (gmul 3 d) XOR gmul 11 (gmul 2 d))"
    by (simp only: gmul_xor ac_simps)
  then have "?l XOR c = 0" by (simp only: mix_entry_20 mix_entry_21 mix_entry_22 mix_entry_23 xor.right_neutral)
  then show ?thesis by (simp only: xor_zero_iff)
qed

lemma mix_row_3: "gmul 11 (gmul 2 a XOR gmul 3 b XOR c XOR d) XOR gmul 13 (a XOR gmul 2 b XOR gmul 3 c XOR d) XOR gmul 9 (a XOR b XOR gmul 2 c XOR gmul 3 d) XOR gmul 14 (gmul 3 a XOR b XOR c XOR gmul 2 d) = d"
proof -
  let ?l = "gmul 11 (gmul 2 a XOR gmul 3 b XOR c XOR d) XOR gmul 13 (a XOR gmul 2 b XOR gmul 3 c XOR d) XOR gmul 9 (a XOR b XOR gmul 2 c XOR gmul 3 d) XOR gmul 14 (gmul 3 a XOR b XOR c XOR gmul 2 d)"
  have "?l XOR d = (gmul 11 (gmul 2 a) XOR gmul 13 a XOR gmul 9 a XOR gmul 14 (gmul 3 a)) XOR (gmul 11 (gmul 3 b) XOR gmul 13 (gmul 2 b) XOR gmul 9 b XOR gmul 14 b) XOR (gmul 11 c XOR gmul 13 (gmul 3 c) XOR gmul 9 (gmul 2 c) XOR gmul 14 c) XOR (gmul 11 d XOR gmul 13 d XOR gmul 9 (gmul 3 d) XOR gmul 14 (gmul 2 d) XOR d)"
    by (simp only: gmul_xor ac_simps)
  then have "?l XOR d = 0" by (simp only: mix_entry_30 mix_entry_31 mix_entry_32 mix_entry_33 xor.right_neutral)
  then show ?thesis by (simp only: xor_zero_iff)
qed

end
