(* ===== verification/Bignum.thy ===== *)
theory Bignum
  imports Be_Bytes
begin

text \<open>
  The 2048-bit integers of \<^verbatim>\<open>crypto_ext.rs\<close> (\<^verbatim>\<open>BigUint\<close>): 32 limbs of 64 bits, least significant first, with
  addition, subtraction, comparison, shifts, reduction, modular multiplication and exponentiation,
  and the conversion from and to big-endian bytes. Each operation is proved against the natural number the
  limbs stand for.
\<close>

section \<open>Operations\<close>

record big_uint = limbs :: "u64 list"

definition overflowing_add :: "u64 \<Rightarrow> u64 \<Rightarrow> u64 \<times> bool" where
  "overflowing_add a b = (a + b, unat a + unat b \<ge> 2 ^ 64)"

definition overflowing_sub :: "u64 \<Rightarrow> u64 \<Rightarrow> u64 \<times> bool" where
  "overflowing_sub a b = (a - b, a < b)"

definition leading_zeros :: "u64 \<Rightarrow> nat" where
  "leading_zeros x = length (takeWhile (\<lambda>i. \<not> bit x i) (rev [0..<64]))"

definition big_zero :: big_uint where
  "big_zero = \<lparr>limbs = replicate 32 0\<rparr>"

definition from_u64 :: "u64 \<Rightarrow> big_uint" where
  "from_u64 v = \<lparr>limbs = (limbs big_zero)[0 := v]\<rparr>"

definition or_byte :: "u64 list \<Rightarrow> nat \<times> u8 \<Rightarrow> u64 list" where
  "or_byte ls = (\<lambda>(i, b). if i div 8 < 32 then ls[i div 8 := ls ! (i div 8) OR push_bit (i mod 8 * 8) (ucast b)] else ls)"

definition big_from_be :: "u8 list \<Rightarrow> big_uint" where
  "big_from_be bytes = \<lparr>limbs = foldl or_byte (limbs big_zero) (enumerate 0 (rev (take 256 bytes)))\<rparr>"

definition limb_byte :: "u64 list \<Rightarrow> nat \<Rightarrow> u8" where
  "limb_byte ls i = ucast (drop_bit (i mod 8 * 8) (ls ! (i div 8)))"

definition big_to_be :: "big_uint \<Rightarrow> u8 list" where
  "big_to_be n =
     (let out = rev (map (limb_byte (limbs n)) [0..<256]);
          first_nonzero = (case position (\<lambda>b. b \<noteq> 0) out of Some i \<Rightarrow> i | None \<Rightarrow> 255)
      in drop first_nonzero out)"

definition big_is_zero :: "big_uint \<Rightarrow> bool" where
  "big_is_zero n \<longleftrightarrow> list_all (\<lambda>l. l = 0) (limbs n)"

definition big_bit :: "big_uint \<Rightarrow> nat \<Rightarrow> bool" where
  "big_bit n i = (if i div 64 \<ge> 32 then False else drop_bit (i mod 64) (limbs n ! (i div 64)) AND 1 = 1)"

fun bit_len_loop :: "u64 list \<Rightarrow> nat \<Rightarrow> nat" where
  "bit_len_loop ls 0 = 0"
| "bit_len_loop ls (Suc i) = (if ls ! i \<noteq> 0 then i * 64 + (64 - leading_zeros (ls ! i)) else bit_len_loop ls i)"

definition bit_len :: "big_uint \<Rightarrow> nat" where
  "bit_len n = bit_len_loop (limbs n) 32"

fun add_limbs :: "u64 \<Rightarrow> u64 list \<Rightarrow> u64 list \<Rightarrow> u64 list" where
  "add_limbs carry (x # xs) (y # ys) =
     (let (s1, c1) = overflowing_add x y; (s2, c2) = overflowing_add s1 carry
      in s2 # add_limbs (of_bool c1 + of_bool c2) xs ys)"
| "add_limbs carry _ _ = []"

definition big_add :: "big_uint \<Rightarrow> big_uint \<Rightarrow> big_uint" where
  "big_add a b = \<lparr>limbs = add_limbs 0 (limbs a) (limbs b)\<rparr>"

fun sub_limbs :: "u64 \<Rightarrow> u64 list \<Rightarrow> u64 list \<Rightarrow> u64 list" where
  "sub_limbs borrow (x # xs) (y # ys) =
     (let (s1, b1) = overflowing_sub x y; (s2, b2) = overflowing_sub s1 borrow
      in s2 # sub_limbs (of_bool b1 + of_bool b2) xs ys)"
| "sub_limbs borrow _ _ = []"

definition big_sub :: "big_uint \<Rightarrow> big_uint \<Rightarrow> big_uint" where
  "big_sub a b = \<lparr>limbs = sub_limbs 0 (limbs a) (limbs b)\<rparr>"

fun cmp_loop :: "u64 list \<Rightarrow> u64 list \<Rightarrow> nat \<Rightarrow> int" where
  "cmp_loop xs ys 0 = 0"
| "cmp_loop xs ys (Suc i) = (if xs ! i > ys ! i then 1 else if xs ! i < ys ! i then - 1 else cmp_loop xs ys i)"

definition big_cmp :: "big_uint \<Rightarrow> big_uint \<Rightarrow> int" where
  "big_cmp a b = cmp_loop (limbs a) (limbs b) 32"

fun shl_limbs :: "u64 \<Rightarrow> u64 list \<Rightarrow> u64 list" where
  "shl_limbs carry (x # xs) = (push_bit 1 x OR carry) # shl_limbs (drop_bit 63 x) xs"
| "shl_limbs carry [] = []"

definition shl1 :: "big_uint \<Rightarrow> big_uint" where
  "shl1 a = \<lparr>limbs = shl_limbs 0 (limbs a)\<rparr>"

text \<open>From the most significant limb down, the list reversed.\<close>

fun shr_limbs :: "u64 \<Rightarrow> u64 list \<Rightarrow> u64 list" where
  "shr_limbs carry (x # xs) = (drop_bit 1 x OR push_bit 63 carry) # shr_limbs (x AND 1) xs"
| "shr_limbs carry [] = []"

definition shr1 :: "big_uint \<Rightarrow> big_uint" where
  "shr1 a = \<lparr>limbs = rev (shr_limbs 0 (rev (limbs a)))\<rparr>"

fun reduce_loop :: "big_uint \<Rightarrow> big_uint \<Rightarrow> nat \<Rightarrow> big_uint \<Rightarrow> big_uint" where
  "reduce_loop self modulus 0 remainder = remainder"
| "reduce_loop self modulus (Suc i) remainder =
     (let r1 = shl1 remainder;
          r2 = (if big_bit self i then r1\<lparr>limbs := (limbs r1)[0 := limbs r1 ! 0 OR 1]\<rparr> else r1);
          r3 = (if big_cmp r2 modulus \<ge> 0 then big_sub r2 modulus else r2)
      in reduce_loop self modulus i r3)"

definition mod_reduce :: "big_uint \<Rightarrow> big_uint \<Rightarrow> big_uint" where
  "mod_reduce self modulus =
     (if big_cmp self modulus < 0 then self else reduce_loop self modulus (bit_len self) big_zero)"

text \<open>The loops over the bits of an exponent or a factor go from bit \<open>i\<close> up, \<open>k\<close> bits being left.\<close>

fun mul_loop :: "big_uint \<Rightarrow> big_uint \<Rightarrow> nat \<Rightarrow> nat \<Rightarrow> big_uint \<Rightarrow> big_uint \<Rightarrow> big_uint" where
  "mul_loop b m 0 i result a_shifted = result"
| "mul_loop b m (Suc k) i result a_shifted =
     mul_loop b m k (Suc i) (if big_bit b i then mod_reduce (big_add result a_shifted) m else result) (mod_reduce (shl1 a_shifted) m)"

definition big_mul_mod :: "big_uint \<Rightarrow> big_uint \<Rightarrow> big_uint \<Rightarrow> big_uint" where
  "big_mul_mod a b m = mul_loop b m (bit_len b) 0 big_zero (mod_reduce a m)"

fun pow_loop :: "big_uint \<Rightarrow> big_uint \<Rightarrow> nat \<Rightarrow> nat \<Rightarrow> big_uint \<Rightarrow> big_uint \<Rightarrow> big_uint" where
  "pow_loop e modulus 0 i result b = result"
| "pow_loop e modulus (Suc k) i result b =
     pow_loop e modulus k (Suc i) (if big_bit e i then big_mul_mod result b modulus else result) (big_mul_mod b b modulus)"

definition big_mod_pow :: "big_uint \<Rightarrow> big_uint \<Rightarrow> big_uint \<Rightarrow> big_uint" where
  "big_mod_pow base e modulus =
     (if big_is_zero modulus then big_zero
      else pow_loop e modulus (bit_len e) 0 (from_u64 1) (mod_reduce base modulus))"

section \<open>The number the limbs stand for\<close>

fun limbs_val :: "u64 list \<Rightarrow> nat" where
  "limbs_val [] = 0"
| "limbs_val (x # xs) = unat x + 2 ^ 64 * limbs_val xs"

definition big_ok :: "big_uint \<Rightarrow> bool" where
  "big_ok a \<longleftrightarrow> length (limbs a) = 32"

definition big_val :: "big_uint \<Rightarrow> nat" where
  "big_val a = limbs_val (limbs a)"

lemma unat_u64_less: "unat (x :: u64) < 2 ^ 64"
  using unsigned_less [of x, where 'a = nat] by simp

lemma limbs_val_less: "limbs_val xs < 2 ^ (64 * length xs)"
proof (induction xs)
  case (Cons x xs)
  have "limbs_val xs + 1 \<le> 2 ^ (64 * length xs)" using Cons by simp
  then have "2 ^ 64 * (limbs_val xs + 1) \<le> (2 :: nat) ^ 64 * 2 ^ (64 * length xs)" by (rule mult_le_mono2)
  then show ?case using unat_u64_less [of x] by (simp add: power_add)
qed simp

lemma limb_mod: "s < w \<Longrightarrow> (s + w * t) mod (w * n) = s + w * (t mod n :: nat)"
  by (simp add: mod_mult2_eq add.commute)

lemma add_limbs_val:
  "length xs = length ys \<Longrightarrow> c \<le> 1 \<Longrightarrow>
   length (add_limbs c xs ys) = length xs \<and> limbs_val (add_limbs c xs ys) = (limbs_val xs + limbs_val ys + unat c) mod 2 ^ (64 * length xs)"
proof (induction c xs ys rule: add_limbs.induct)
  case (1 c x xs y ys)
  let ?W = "2 ^ 64 :: nat"
  define s1 s2 where "s1 = x + y" and "s2 = s1 + c"
  define c1 c2 where "c1 = (unat x + unat y \<ge> ?W)" and "c2 = (unat s1 + unat c \<ge> ?W)"
  define c' :: u64 where "c' = of_bool c1 + of_bool c2"
  have uc: "unat c \<le> 1" using 1(3) by (simp add: word_le_nat_alt)
  have s1: "unat s1 + ?W * of_bool c1 = unat x + unat y"
    unfolding s1_def c1_def using unat_u64_less [of x] unat_u64_less [of y] by (auto simp: unat_word_ariths mod_if)
  have s2: "unat s2 + ?W * of_bool c2 = unat s1 + unat c"
    unfolding s2_def c2_def using unat_u64_less [of s1] uc by (auto simp: unat_word_ariths mod_if)
  have "unat s1 + 1 < ?W" if c1 using s1 that unat_u64_less [of x] unat_u64_less [of y] by simp
  then have nb: "\<not> (c1 \<and> c2)" using uc by (auto simp: c2_def)
  have c': "unat c' = of_bool c1 + of_bool c2" "c' \<le> 1" unfolding c'_def using nb by auto
  have sum: "unat s2 + ?W * unat c' = unat x + unat y + unat c" using s1 s2 c'(1) by (simp add: distrib_left)
  let ?n = "64 * length xs"
  have ih: "length (add_limbs c' xs ys) = length xs" "limbs_val (add_limbs c' xs ys) = (limbs_val xs + limbs_val ys + unat c') mod 2 ^ ?n"
    using 1(1) [of "(s1, c1)" s1 c1 "(s2, c2)" s2 c2] 1(2) c'(2)
    by (simp_all add: overflowing_add_def s1_def s2_def c1_def c2_def c'_def)
  have "add_limbs c (x # xs) (y # ys) = s2 # add_limbs c' xs ys"
    by (simp add: overflowing_add_def s1_def s2_def c1_def c2_def c'_def)
  moreover have "unat s2 + ?W * ((limbs_val xs + limbs_val ys + unat c') mod 2 ^ ?n) =
      (unat x + ?W * limbs_val xs + (unat y + ?W * limbs_val ys) + unat c) mod 2 ^ (64 + ?n)"
  proof -
    let ?t = "limbs_val xs + limbs_val ys + unat c'"
    have eq: "unat x + ?W * limbs_val xs + (unat y + ?W * limbs_val ys) + unat c = unat s2 + ?W * ?t"
      using sum by (simp add: distrib_left)
    show ?thesis unfolding eq power_add by (rule limb_mod [OF unat_u64_less, symmetric])
  qed
  ultimately show ?case using ih 1(2) by (simp add: algebra_simps)
qed simp_all

lemma sub_limbs_val:
  "length xs = length ys \<Longrightarrow> b \<le> 1 \<Longrightarrow>
   length (sub_limbs b xs ys) = length xs \<and> (limbs_val (sub_limbs b xs ys) + limbs_val ys + unat b) mod 2 ^ (64 * length xs) = limbs_val xs"
proof (induction b xs ys rule: sub_limbs.induct)
  case (1 b x xs y ys)
  let ?W = "2 ^ 64 :: nat"
  define s1 s2 where "s1 = x - y" and "s2 = s1 - b"
  define b1 b2 where "b1 = (x < y)" and "b2 = (s1 < b)"
  define b' :: u64 where "b' = of_bool b1 + of_bool b2"
  have ub: "unat b \<le> 1" using 1(3) by (simp add: word_le_nat_alt)
  have s1: "unat s1 + unat y = unat x + ?W * of_bool b1"
    unfolding s1_def b1_def using unat_u64_less [of x] unat_u64_less [of y] by (auto simp: unat_sub_if_size word_size word_less_nat_alt)
  have s2: "unat s2 + unat b = unat s1 + ?W * of_bool b2"
    unfolding s2_def b2_def using unat_u64_less [of s1] ub by (auto simp: unat_sub_if_size word_size word_less_nat_alt)
  have "unat s1 \<ge> 1" if b1 using s1 that unat_u64_less [of x] unat_u64_less [of y] by simp
  then have nb: "\<not> (b1 \<and> b2)" using ub by (auto simp: b2_def word_less_nat_alt)
  have b': "unat b' = of_bool b1 + of_bool b2" "b' \<le> 1" unfolding b'_def using nb by auto
  have sum: "unat s2 + unat y + unat b = unat x + ?W * unat b'" using s1 s2 b'(1) by (simp add: distrib_left)
  let ?r = "sub_limbs b' xs ys"
  have ih: "length ?r = length xs" "(limbs_val ?r + limbs_val ys + unat b') mod 2 ^ (64 * length xs) = limbs_val xs"
    using 1(1) [of "(s1, b1)" s1 b1 "(s2, b2)" s2 b2] 1(2) b'(2)
    by (simp_all add: overflowing_sub_def s1_def s2_def b1_def b2_def b'_def)
  have r: "sub_limbs b (x # xs) (y # ys) = s2 # ?r"
    by (simp add: overflowing_sub_def s1_def s2_def b1_def b2_def b'_def)
  have eq: "unat s2 + ?W * limbs_val ?r + (unat y + ?W * limbs_val ys) + unat b = unat x + ?W * (limbs_val ?r + limbs_val ys + unat b')"
    using sum by (simp add: distrib_left)
  have "(unat s2 + ?W * limbs_val ?r + (unat y + ?W * limbs_val ys) + unat b) mod (?W * 2 ^ (64 * length xs)) = unat x + ?W * limbs_val xs"
    unfolding eq limb_mod [OF unat_u64_less] ih(2) ..
  then show ?case unfolding r using ih(1) by (simp add: power_add)
qed simp_all

lemma word_le_1: "c \<le> 1 \<Longrightarrow> c = 0 \<or> c = (1 :: u64)"
  by (auto simp: word_le_nat_alt word_eq_iff_unsigned [where 'a = nat] le_Suc_eq)

lemma shl_limbs_val:
  "c \<le> 1 \<Longrightarrow> length (shl_limbs c xs) = length xs \<and> limbs_val (shl_limbs c xs) = (2 * limbs_val xs + unat c) mod 2 ^ (64 * length xs)"
proof (induction c xs rule: shl_limbs.induct)
  case (1 c x xs)
  let ?W = "2 ^ 64 :: nat"
  have c: "c = 0 \<or> c = 1" by (rule word_le_1 [OF 1(2)])
  then have uc: "unat c \<le> 1" by auto
  have or: "push_bit 1 x OR c = 2 * x + c"
  proof -
    have "push_bit 1 x + c = push_bit 1 x OR c"
      by (rule disjunctive_add) (use c in \<open>auto simp: bit_simps bit_0\<close>)
    then show ?thesis by (simp add: push_bit_eq_mult mult.commute)
  qed
  have d: "unat (drop_bit 63 x) = unat x div 2 ^ 63" by (subst unat_drop_bit_eq) (rule drop_bit_eq_div)
  have "unat x div 2 ^ 63 < 2" using unat_u64_less [of x] by (simp add: less_mult_imp_div_less)
  then have d1: "drop_bit 63 x \<le> 1" by (simp add: word_le_nat_alt d)
  have "(2 * unat x + unat c) div ?W = (2 * unat x + unat c) div 2 div 2 ^ 63" by (simp only: div_mult2_eq [symmetric]) simp
  also have "(2 * unat x + unat c) div 2 = unat x" using uc by simp
  finally have "(2 * unat x + unat c) div ?W = unat (drop_bit 63 x)" by (simp add: d)
  moreover have "unat (2 * x + c) = (2 * unat x + unat c) mod ?W" by (simp add: unat_word_ariths mod_simps)
  ultimately have v: "unat (2 * x + c) + ?W * unat (drop_bit 63 x) = 2 * unat x + unat c"
    by (metis mod_mult_div_eq)
  let ?d = "drop_bit 63 x" and ?n = "64 * length xs"
  have ih: "length (shl_limbs ?d xs) = length xs" "limbs_val (shl_limbs ?d xs) = (2 * limbs_val xs + unat ?d) mod 2 ^ ?n"
    using 1(1) d1 by simp_all
  have eq: "2 * (unat x + ?W * limbs_val xs) + unat c = unat (2 * x + c) + ?W * (2 * limbs_val xs + unat ?d)"
    using v by (simp add: distrib_left)
  have "unat (2 * x + c) + ?W * ((2 * limbs_val xs + unat ?d) mod 2 ^ ?n) = (2 * (unat x + ?W * limbs_val xs) + unat c) mod (?W * 2 ^ ?n)"
    unfolding eq limb_mod [OF unat_u64_less] ..
  then show ?case unfolding shl_limbs.simps or using ih by (simp add: power_add)
qed simp

lemma limbs_val_append: "limbs_val (xs @ ys) = limbs_val xs + 2 ^ (64 * length xs) * limbs_val ys"
  by (induction xs) (simp_all add: power_add algebra_simps)

lemma digit_less:
  assumes "a < m" "b < (m :: nat)" shows "a + m * x < b + m * y \<longleftrightarrow> x < y \<or> x = y \<and> a < b"
proof (cases x y rule: linorder_cases)
  case less
  then have "m * (x + 1) \<le> m * y" by (intro mult_le_mono2) simp
  then show ?thesis using assms less by simp
next
  case greater
  then have "m * (y + 1) \<le> m * x" by (intro mult_le_mono2) simp
  then show ?thesis using assms greater by simp
qed simp

lemma cmp_loop_sign:
  "i \<le> length xs \<Longrightarrow> i \<le> length ys \<Longrightarrow>
   cmp_loop xs ys i = (if limbs_val (take i ys) < limbs_val (take i xs) then 1 else if limbs_val (take i xs) < limbs_val (take i ys) then - 1 else 0)"
proof (induction i)
  case (Suc i)
  have less: "limbs_val (take (Suc i) us) < limbs_val (take (Suc i) vs) \<longleftrightarrow> us ! i < vs ! i \<or> us ! i = vs ! i \<and> limbs_val (take i us) < limbs_val (take i vs)"
    if "i < length us" "i < length vs" for us vs
    using that digit_less [of "limbs_val (take i us)" "2 ^ (64 * i)" "limbs_val (take i vs)" "unat (us ! i)" "unat (vs ! i)"]
      limbs_val_less [of "take i us"] limbs_val_less [of "take i vs"]
    by (simp add: take_Suc_conv_app_nth limbs_val_append word_less_nat_alt word_eq_iff_unsigned [where 'a = nat])
  show ?case using Suc less [of xs ys] less [of ys xs] by auto
qed simp

section \<open>The operations on numbers\<close>

named_theorems big "the 2048-bit operations as operations on natural numbers"

definition BIG :: nat where "BIG = 2 ^ (64 * 32)"

lemma BIG_pos [simp]: "0 < BIG"
  by (simp only: BIG_def zero_less_power zero_less_numeral)

lemma big_val_less [big]: "big_ok a \<Longrightarrow> big_val a < BIG"
  using limbs_val_less [of "limbs a"] by (simp only: big_ok_def big_val_def BIG_def)

lemma big_add_val [big]: "big_ok a \<Longrightarrow> big_ok b \<Longrightarrow> big_ok (big_add a b) \<and> big_val (big_add a b) = (big_val a + big_val b) mod BIG"
  using add_limbs_val [of "limbs a" "limbs b" 0]
  by (simp only: big_ok_def big_val_def big_add_def BIG_def big_uint.select_convs) simp

lemma big_sub_val [big]:
  assumes "big_ok a" "big_ok b" "big_val b \<le> big_val a"
  shows "big_ok (big_sub a b) \<and> big_val (big_sub a b) = big_val a - big_val b"
proof -
  let ?r = "big_val (big_sub a b)"
  have r: "big_ok (big_sub a b)" "(?r + big_val b) mod BIG = big_val a"
    using sub_limbs_val [of "limbs a" "limbs b" 0] assms(1, 2)
    by (simp_all only: big_ok_def big_val_def big_sub_def BIG_def big_uint.select_convs) simp_all
  have less: "?r < BIG" "big_val b < BIG" using big_val_less r(1) assms(2) by auto
  have "?r + big_val b < BIG"
  proof (rule ccontr)
    assume "\<not> ?thesis"
    then have "(?r + big_val b) mod BIG = ?r + big_val b - BIG" using less by (subst mod_if, subst mod_less) auto
    then show False using r(2) assms(3) less \<open>\<not> ?r + big_val b < BIG\<close> by linarith
  qed
  then show ?thesis using r by simp
qed

lemma big_cmp_sign [big]:
  assumes "big_ok a" "big_ok b"
  shows "big_cmp a b \<ge> 0 \<longleftrightarrow> big_val b \<le> big_val a" and "big_cmp a b < 0 \<longleftrightarrow> big_val a < big_val b"
  using cmp_loop_sign [of 32 "limbs a" "limbs b"] assms by (auto simp: big_ok_def big_val_def big_cmp_def)

lemma shl1_val [big]: "big_ok a \<Longrightarrow> big_ok (shl1 a) \<and> big_val (shl1 a) = 2 * big_val a mod BIG"
  using shl_limbs_val [of 0 "limbs a"]
  by (simp only: big_ok_def big_val_def shl1_def BIG_def big_uint.select_convs) simp

lemma limbs_val_zeros [simp]: "limbs_val (replicate n 0) = 0"
  by (induction n) simp_all

lemma big_zero_val [big]: "big_ok big_zero" "big_val big_zero = 0"
  by (simp_all add: big_ok_def big_val_def big_zero_def)

lemma from_u64_val [big]: "big_ok (from_u64 v)" "big_val (from_u64 v) = unat v"
proof -
  have "limbs (from_u64 v) = v # replicate 31 0"
    unfolding from_u64_def big_zero_def using replicate_Suc [of 31 "0 :: u64"] by simp
  then show "big_ok (from_u64 v)" "big_val (from_u64 v) = unat v" by (simp_all add: big_ok_def big_val_def)
qed

lemma limbs_val_drop: "limbs_val xs div 2 ^ (64 * l) = limbs_val (drop l xs)"
proof (induction l arbitrary: xs)
  case (Suc l)
  show ?case
  proof (cases xs)
    case (Cons x ys)
    have "limbs_val xs div 2 ^ (64 * Suc l) = limbs_val xs div 2 ^ 64 div 2 ^ (64 * l)" by (simp only: mult_Suc_right power_add div_mult2_eq)
    also have "limbs_val xs div 2 ^ 64 = limbs_val ys" using unat_u64_less [of x] by (simp add: Cons)
    finally show ?thesis using Suc [of ys] by (simp add: Cons)
  qed simp
qed simp

lemma bit_limb: "p < 64 \<Longrightarrow> bit (unat (x :: u64) + 2 ^ 64 * t) p = bit x p"
proof -
  assume p: "p < 64"
  have "take_bit 64 (unat x + 2 ^ 64 * t) = unat x" using unat_u64_less [of x] by (simp add: take_bit_eq_mod)
  then have "bit (unat x + 2 ^ 64 * t) p = bit (unat x) p" using p by (metis bit_take_bit_iff)
  then show ?thesis by (simp add: bit_unsigned_iff)
qed

lemma big_bit_val [big]: "big_ok a \<Longrightarrow> big_bit a i \<longleftrightarrow> bit (big_val a) i"
proof -
  assume ok: "big_ok a"
  let ?l = "i div 64" and ?p = "i mod 64"
  have i: "i = 64 * ?l + ?p" by simp
  have b: "bit (big_val a) i = bit (limbs_val (drop ?l (limbs a))) ?p"
    by (subst i) (simp only: bit_iff_odd power_add div_mult2_eq big_val_def limbs_val_drop)
  show ?thesis
  proof (cases "?l < 32")
    case True
    then obtain x xs where "drop ?l (limbs a) = x # xs" "limbs a ! ?l = x"
      using ok by (metis Cons_nth_drop_Suc big_ok_def)
    then show ?thesis using True bit_limb [of ?p x "limbs_val xs"]
      by (simp add: big_bit_def b) (simp add: and_one_eq odd_iff_mod_2_eq_one bit_iff_odd_drop_bit)
  next
    case False
    then show ?thesis using ok b by (simp add: big_bit_def big_ok_def)
  qed
qed

lemma leading_zeros_bound: "unat x < 2 ^ (64 - leading_zeros x)"
proof -
  let ?k = "leading_zeros x" and ?xs = "rev [0..<64 :: nat]"
  have nb: "\<not> bit x i" if "64 - ?k \<le> i" for i
  proof (cases "i < 64")
    case True
    then have j: "63 - i < ?k" using that by simp
    then have "takeWhile (\<lambda>i. \<not> bit x i) ?xs ! (63 - i) = ?xs ! (63 - i)" unfolding leading_zeros_def by (rule takeWhile_nth)
    moreover have "takeWhile (\<lambda>i. \<not> bit x i) ?xs ! (63 - i) \<in> set (takeWhile (\<lambda>i. \<not> bit x i) ?xs)"
      using j unfolding leading_zeros_def by (rule nth_mem)
    moreover have "?xs ! (63 - i) = i" using True by (simp add: rev_nth)
    ultimately show ?thesis using set_takeWhileD by metis
  next
    case False
    then show ?thesis using bit_imp_le_length [of x i] by auto
  qed
  have "take_bit (64 - ?k) x = x" by (rule bit_word_eqI) (use nb not_le in \<open>auto simp: bit_take_bit_iff\<close>)
  then have "take_bit (64 - ?k) (unat x) = unat x" by (metis unsigned_take_bit_eq)
  then show ?thesis by (metis take_bit_nat_less_exp)
qed

lemma bit_len_loop_bound: "i \<le> length ls \<Longrightarrow> limbs_val (take i ls) < 2 ^ bit_len_loop ls i"
proof (induction i)
  case (Suc i)
  let ?x = "ls ! i"
  have v: "limbs_val (take (Suc i) ls) = limbs_val (take i ls) + 2 ^ (64 * i) * unat ?x"
    using Suc.prems by (simp add: take_Suc_conv_app_nth limbs_val_append)
  show ?case
  proof (cases "?x = 0")
    case False
    let ?e = "64 - leading_zeros ?x"
    have "limbs_val (take i ls) < 2 ^ (64 * i)" using limbs_val_less [of "take i ls"] Suc.prems by simp
    moreover have "2 ^ (64 * i) * (unat ?x + 1) \<le> (2 :: nat) ^ (64 * i) * 2 ^ ?e"
      using leading_zeros_bound [of ?x] by (intro mult_le_mono2) simp
    ultimately have "limbs_val (take (Suc i) ls) < 2 ^ (64 * i + ?e)" unfolding v power_add by simp
    then show ?thesis using False by (simp add: mult.commute)
  qed (use Suc v in simp)
qed simp

lemma bit_len_bound [big]: "big_ok a \<Longrightarrow> big_val a < 2 ^ bit_len a"
  using bit_len_loop_bound [of 32 "limbs a"] by (simp add: big_ok_def big_val_def bit_len_def)

lemma set_low_bit:
  assumes "big_ok r" and "even (big_val r)"
  shows "big_ok (r\<lparr>limbs := (limbs r)[0 := limbs r ! 0 OR 1]\<rparr>) \<and> big_val (r\<lparr>limbs := (limbs r)[0 := limbs r ! 0 OR 1]\<rparr>) = big_val r + 1"
proof -
  obtain x xs where r: "limbs r = x # xs" using assms(1) by (cases "limbs r") (auto simp: big_ok_def)
  have even: "even (unat x)" using assms(2) by (simp add: big_val_def r)
  then have "\<not> bit x 0" using bit_unsigned_iff [of x 0, where 'a = nat] by (simp add: bit_0)
  then have "x OR 1 = x + 1" by (simp add: or_one_eq bit_0)
  moreover have "unat x + 1 < 2 ^ 64" using even unat_u64_less [of x] by (elim evenE) simp
  then have "unat (x + 1) = unat x + 1" by (simp add: unat_word_ariths)
  ultimately show ?thesis using assms(1) by (simp add: big_ok_def big_val_def r)
qed

lemma binary_digit: "n div 2 ^ i = 2 * (n div 2 ^ Suc i) + of_bool (bit (n :: nat) i)"
proof -
  have "n div 2 ^ Suc i = n div 2 ^ i div 2" by (simp only: power_Suc2 div_mult2_eq)
  then show ?thesis using div_mult_mod_eq [of "n div 2 ^ i" 2] by (auto simp: bit_iff_odd mod_2_eq_odd mult.commute)
qed

text \<open>One step of the long division: the shift cannot lose a bit because the remainder is at most the
  part of the dividend seen so far.\<close>

lemma reduce_step:
  assumes ok: "big_ok s" "big_ok m" "big_ok r" and m: "big_val m > 0" and r: "big_val r = (big_val s div 2 ^ Suc i) mod big_val m"
  defines "r1 \<equiv> shl1 r"
  defines "r2 \<equiv> (if big_bit s i then r1\<lparr>limbs := (limbs r1)[0 := limbs r1 ! 0 OR 1]\<rparr> else r1)"
  defines "r3 \<equiv> (if big_cmp r2 m \<ge> 0 then big_sub r2 m else r2)"
  shows "big_ok r3 \<and> big_val r3 = (big_val s div 2 ^ i) mod big_val m"
proof -
  let ?S = "big_val s" and ?M = "big_val m"
  note digit = binary_digit [of ?S i]
  have le: "big_val r \<le> ?S div 2 ^ Suc i" unfolding r by (rule mod_less_eq_dividend)
  have "2 * big_val r + of_bool (bit ?S i) \<le> ?S div 2 ^ i" unfolding digit using le by simp
  also have "\<dots> \<le> ?S" by (rule div_le_dividend)
  finally have fits: "2 * big_val r + of_bool (bit ?S i) < BIG" using big_val_less [OF ok(1)] by linarith
  have r1: "big_ok r1" "big_val r1 = 2 * big_val r" unfolding r1_def using shl1_val [OF ok(3)] fits by auto
  have r2: "big_ok r2" "big_val r2 = 2 * big_val r + of_bool (bit ?S i)"
    unfolding r2_def using set_low_bit [OF r1(1)] r1 big_bit_val [OF ok(1), of i] by auto
  have lt: "big_val r < ?M" unfolding r using m by simp
  have "(?S div 2 ^ i) mod ?M = (2 * big_val r + of_bool (bit ?S i)) mod ?M"
    unfolding digit r by (metis mod_add_left_eq mod_mult_right_eq)
  also have "\<dots> = (if ?M \<le> big_val r2 then big_val r2 - ?M else big_val r2)"
  proof (cases "?M \<le> big_val r2")
    case True
    then show ?thesis using lt r2(2) by (simp add: le_mod_geq)
  qed (simp add: r2(2))
  finally show ?thesis unfolding r3_def using big_cmp_sign(1) [OF r2(1) ok(2)] big_sub_val [OF r2(1) ok(2)] r2(1) by auto
qed

lemma reduce_loop_val:
  assumes "big_ok s" "big_ok m" "big_val m > 0" "big_ok r" "big_val r = (big_val s div 2 ^ n) mod big_val m"
  shows "big_ok (reduce_loop s m n r) \<and> big_val (reduce_loop s m n r) = big_val s mod big_val m"
  using assms(4, 5)
proof (induction n arbitrary: r)
  case (Suc n)
  show ?case using Suc.IH reduce_step [OF assms(1, 2) Suc.prems(1) assms(3) Suc.prems(2)] by (simp add: Let_def)
qed simp

lemma mod_reduce_val [big]:
  assumes "big_ok a" "big_ok m" "big_val m > 0"
  shows "big_ok (mod_reduce a m) \<and> big_val (mod_reduce a m) = big_val a mod big_val m"
proof (cases "big_val a < big_val m")
  case True
  then show ?thesis using assms big_cmp_sign(2) [OF assms(1, 2)] by (simp add: mod_reduce_def)
next
  case False
  have "big_val a div 2 ^ bit_len a = 0" using bit_len_bound [OF assms(1)] by simp
  then show ?thesis using False reduce_loop_val [OF assms big_zero_val(1), of "bit_len a"] big_cmp_sign(2) [OF assms(1, 2)]
    by (simp add: mod_reduce_def big_zero_val)
qed

section \<open>Modular multiplication and exponentiation\<close>

text \<open>Doubling a residue fits into 2048 bits only when the modulus has at most 2047.\<close>

definition modulus_ok :: "big_uint \<Rightarrow> bool" where
  "modulus_ok m \<longleftrightarrow> big_ok m \<and> 1 < big_val m \<and> 2 * big_val m \<le> BIG"

lemma low_digits:
  "(a * of_bool (bit b i) + (2 * a) mod m * (b div 2 ^ Suc i)) mod m = a * (b div 2 ^ i) mod (m :: nat)"
proof -
  have "(a * of_bool (bit b i) + (2 * a) mod m * (b div 2 ^ Suc i)) mod m = (a * of_bool (bit b i) + 2 * a * (b div 2 ^ Suc i)) mod m"
    by (metis mod_add_right_eq mod_mult_left_eq)
  also have "a * of_bool (bit b i) + 2 * a * (b div 2 ^ Suc i) = a * (b div 2 ^ i)"
    unfolding binary_digit [of b i] by (simp only: distrib_left mult.assoc mult.left_commute add.commute)
  finally show ?thesis .
qed

lemma mod_mult_power: "x mod m * (y mod m) ^ n mod m = x * y ^ n mod (m :: nat)"
  by (metis mod_mult_eq [of x m] mod_mult_left_eq [of x m] mod_mult_right_eq [of x "(y mod m) ^ n" m] power_mod [of y m n])

lemma mul_loop_val:
  assumes m: "modulus_ok m" and b: "big_ok b" "big_val b < 2 ^ (i + k)"
    and r: "big_ok r" "big_val r < big_val m" and a: "big_ok a" "big_val a < big_val m"
  shows "big_ok (mul_loop b m k i r a) \<and> big_val (mul_loop b m k i r a) = (big_val r + big_val a * (big_val b div 2 ^ i)) mod big_val m"
  using b(2) r a
proof (induction k arbitrary: i r a)
  case 0
  then show ?case by simp
next
  case (Suc k)
  let ?M = "big_val m" and ?B = "big_val b"
  have mo: "big_ok m" "?M > 0" "2 * ?M \<le> BIG" using m by (auto simp: modulus_ok_def)
  let ?a = "mod_reduce (shl1 a) m"
  let ?r = "if big_bit b i then mod_reduce (big_add r a) m else r"
  have lt: "2 * big_val a < BIG" "big_val r + big_val a < BIG" using Suc.prems(3, 5) mo(3) by linarith+
  have sh: "big_ok (shl1 a)" "big_val (shl1 a) = 2 * big_val a" using shl1_val [OF Suc.prems(4)] mod_less [OF lt(1)] by simp_all
  have a: "big_ok ?a" "big_val ?a = (2 * big_val a) mod ?M" using mod_reduce_val [OF sh(1) mo(1, 2)] sh(2) by simp_all
  have ad: "big_ok (big_add r a)" "big_val (big_add r a) = big_val r + big_val a"
    using big_add_val [OF Suc.prems(2, 4)] mod_less [OF lt(2)] by simp_all
  have r: "big_ok ?r" "big_val ?r = (big_val r + big_val a * of_bool (bit ?B i)) mod ?M"
    using mod_reduce_val [OF ad(1) mo(1, 2)] ad(2) Suc.prems(2, 3) big_bit_val [OF b(1), of i] by simp_all
  have ih: "big_ok (mul_loop b m k (Suc i) ?r ?a)" "big_val (mul_loop b m k (Suc i) ?r ?a) = (big_val ?r + big_val ?a * (?B div 2 ^ Suc i)) mod ?M"
    using Suc.IH [of "Suc i" ?r ?a] Suc.prems(1) a r mo(2) by simp_all
  have "(big_val ?r + big_val ?a * (?B div 2 ^ Suc i)) mod ?M = (big_val r + (big_val a * of_bool (bit ?B i) + (2 * big_val a) mod ?M * (?B div 2 ^ Suc i))) mod ?M"
    unfolding r(2) a(2) by (simp only: mod_add_left_eq add.assoc)
  also have "\<dots> = (big_val r + (big_val a * of_bool (bit ?B i) + (2 * big_val a) mod ?M * (?B div 2 ^ Suc i)) mod ?M) mod ?M"
    by (simp only: mod_add_right_eq)
  also have "\<dots> = (big_val r + big_val a * (?B div 2 ^ i)) mod ?M"
    unfolding low_digits by (simp only: mod_add_right_eq)
  finally show ?case using ih by simp
qed

lemma big_mul_mod_val [big]:
  assumes "modulus_ok m" "big_ok a" "big_ok b"
  shows "big_ok (big_mul_mod a b m) \<and> big_val (big_mul_mod a b m) = big_val a * big_val b mod big_val m"
proof -
  have mo: "big_ok m" "big_val m > 0" using assms(1) by (auto simp: modulus_ok_def)
  show ?thesis
    using mul_loop_val [OF assms(1, 3), of 0 "bit_len b" big_zero "mod_reduce a m"] bit_len_bound [OF assms(3)]
      mod_reduce_val [OF assms(2) mo] mo(2) by (simp add: big_mul_mod_def big_zero_val mod_simps)
qed

lemma pow_loop_val:
  assumes m: "modulus_ok m" and e: "big_ok e" "big_val e < 2 ^ (i + k)" and r: "big_ok r" "big_val r < big_val m" and b: "big_ok b"
  shows "big_ok (pow_loop e m k i r b) \<and> big_val (pow_loop e m k i r b) = big_val r * big_val b ^ (big_val e div 2 ^ i) mod big_val m"
  using e(2) r b
proof (induction k arbitrary: i r b)
  case 0
  then show ?case by simp
next
  case (Suc k)
  let ?M = "big_val m" and ?E = "big_val e"
  have m0: "?M > 0" using m by (simp add: modulus_ok_def)
  let ?b = "big_mul_mod b b m" and ?r = "if big_bit e i then big_mul_mod r b m else r"
  have b: "big_ok ?b" "big_val ?b = big_val b * big_val b mod ?M" using big_mul_mod_val [OF m Suc.prems(4) Suc.prems(4)] by auto
  have r: "big_ok ?r" "big_val ?r = big_val r * big_val b ^ of_bool (bit ?E i) mod ?M"
    using big_mul_mod_val [OF m Suc.prems(2, 4)] Suc.prems(2, 3) big_bit_val [OF e(1), of i] by auto
  have ih: "big_ok (pow_loop e m k (Suc i) ?r ?b)" "big_val (pow_loop e m k (Suc i) ?r ?b) = big_val ?r * big_val ?b ^ (?E div 2 ^ Suc i) mod ?M"
    using Suc.IH [of "Suc i" ?r ?b] Suc.prems(1) b r m0 by auto
  have "big_val ?r * big_val ?b ^ (?E div 2 ^ Suc i) mod ?M = big_val r * big_val b ^ of_bool (bit ?E i) * (big_val b * big_val b) ^ (?E div 2 ^ Suc i) mod ?M"
    unfolding r(2) b(2) by (rule mod_mult_power)
  also have "\<dots> = big_val r * big_val b ^ (?E div 2 ^ i) mod ?M"
    by (simp only: binary_digit [of ?E i] power_add power_mult power2_eq_square mult.assoc mult.commute [of "(big_val b * big_val b) ^ _"])
  finally show ?case using ih by simp
qed

lemma big_is_zero_val [big]: "big_ok a \<Longrightarrow> big_is_zero a \<longleftrightarrow> big_val a = 0"
proof -
  have "list_all (\<lambda>l. l = 0) xs \<longleftrightarrow> limbs_val xs = 0" for xs by (induction xs) (auto simp: unat_eq_0)
  then show ?thesis by (simp add: big_is_zero_def big_val_def)
qed


lemma modulus_ok_from_u64: "1 < unat v \<Longrightarrow> modulus_ok (from_u64 v)"
proof -
  assume v: "1 < unat v"
  have "2 * unat v \<le> 2 ^ 65" using unat_u64_less [of v] by simp
  also have "(2 :: nat) ^ 65 \<le> BIG" unfolding BIG_def by (rule power_increasing) simp_all
  finally show ?thesis using v by (simp add: modulus_ok_def from_u64_val)
qed


text \<open>With a modulus that uses the highest bit the same multiplication is wrong: the doubled residue is cut
  off at 2048 bits.\<close>

lemma bit_len_single: "k \<le> n \<Longrightarrow> v \<noteq> 0 \<Longrightarrow> bit_len_loop (v # replicate n 0) (Suc k) = 64 - leading_zeros v"
  by (induction k) (simp_all add: nth_Cons')

lemma limbs_from_u64: "limbs (from_u64 v) = v # replicate 31 0"
  unfolding from_u64_def big_zero_def using replicate_Suc [of 31 "0 :: u64"] by simp

lemma bit_len_2: "bit_len (from_u64 2) = 2"
proof -
  have "leading_zeros 2 = 62" by code_simp
  then show ?thesis using bit_len_single [of 31 31 2] unfolding bit_len_def limbs_from_u64 by simp
qed

lemma mul_mod_overflows:
  assumes "big_ok m" and "big_ok a" and "big_val a = big_val m - 1" and "BIG < 2 * (big_val m - 1)"
  shows "big_val (big_mul_mod a (from_u64 2) m) = 2 * (big_val m - 1) - BIG"
    and "big_val (big_mul_mod a (from_u64 2) m) \<noteq> big_val a * 2 mod big_val m"
proof -
  let ?M = "big_val m"
  have M: "0 < ?M" "?M < BIG" using assms(4) big_val_less [OF assms(1)] by auto
  note reduce = mod_reduce_val [OF _ assms(1) M(1)]
  let ?a0 = "mod_reduce a m" and ?a1 = "mod_reduce (shl1 (mod_reduce a m)) m"
  have a0: "big_ok ?a0" "big_val ?a0 = ?M - 1" using reduce [OF assms(2)] assms(3) M by auto
  have "2 * (?M - 1) mod BIG = 2 * (?M - 1) - BIG" using assms(4) M(2) by (simp add: le_mod_geq)
  then have sh: "big_ok (shl1 ?a0)" "big_val (shl1 ?a0) = 2 * (?M - 1) - BIG" using shl1_val [OF a0(1)] a0(2) by auto
  have lt: "2 * (?M - 1) - BIG < ?M" using M by linarith
  have a1: "big_ok ?a1" "big_val ?a1 = 2 * (?M - 1) - BIG" using reduce [OF sh(1)] unfolding sh(2) mod_less [OF lt] by auto
  have ad: "big_ok (big_add big_zero ?a1)" "big_val (big_add big_zero ?a1) = 2 * (?M - 1) - BIG"
    using big_add_val [OF big_zero_val(1) a1(1)] a1(2) M(2) by (auto simp: big_zero_val)
  have bits: "\<not> big_bit (from_u64 2) 0" "big_bit (from_u64 2) 1"
    by (simp_all add: big_bit_val from_u64_val bit_iff_odd)
  have "big_mul_mod a (from_u64 2) m = mod_reduce (big_add big_zero ?a1) m"
    unfolding big_mul_mod_def bit_len_2 using bits by (simp add: numeral_2_eq_2)
  then show v: "big_val (big_mul_mod a (from_u64 2) m) = 2 * (?M - 1) - BIG" using reduce [OF ad(1)] unfolding ad(2) mod_less [OF lt] by simp
  have "big_val a * 2 = (?M - 2) + ?M" using assms(3, 4) by simp
  then have "big_val a * 2 mod ?M = ?M - 2" using M(1) by simp
  then show "big_val (big_mul_mod a (from_u64 2) m) \<noteq> big_val a * 2 mod ?M" unfolding v using M(2) assms(4) by simp
qed

section \<open>Bytes\<close>

lemma length_or_bytes: "length (foldl or_byte ls bs) = length ls"
  by (induction bs arbitrary: ls) (auto simp: or_byte_def split: prod.splits)

lemma or_byte_bit:
  assumes "length ls = 32" "l < 32" "j < 64"
  shows "bit (or_byte ls (i, b) ! l) j \<longleftrightarrow> bit (ls ! l) j \<or> i = 8 * l + j div 8 \<and> bit b (j mod 8)"
proof (cases "i div 8 = l")
  case True
  have "bit (push_bit (i mod 8 * 8) (ucast b :: u64)) j \<longleftrightarrow> i = 8 * l + j div 8 \<and> bit b (j mod 8)"
  proof (cases "i mod 8 = j div 8")
    case eq: True
    then have "i = 8 * l + j div 8" using True by (metis mult_div_mod_eq)
    moreover have "j - i mod 8 * 8 = j mod 8" "i mod 8 * 8 \<le> j" unfolding eq by (simp_all only: minus_div_mult_eq_mod div_times_less_eq_dividend)
    ultimately show ?thesis using assms(3) by (auto simp: bit_simps)
  next
    case False
    then have "i \<noteq> 8 * l + j div 8" using assms(3) by auto
    moreover have "\<not> (i mod 8 * 8 \<le> j \<and> j - i mod 8 * 8 < 8)"
    proof
      assume "i mod 8 * 8 \<le> j \<and> j - i mod 8 * 8 < 8"
      then have "j div 8 = i mod 8" by (intro div_nat_eqI) auto
      then show False using False by simp
    qed
    ultimately show ?thesis by (auto simp: bit_simps dest: bit_imp_le_length)
  qed
  then show ?thesis using assms True by (simp add: or_byte_def bit_or_iff)
next
  case False
  then have "i \<noteq> 8 * l + j div 8" using assms(3) by auto
  then show ?thesis using assms False by (simp add: or_byte_def)
qed

lemma or_bytes_bit:
  assumes "length ls = 32" "l < 32" "j < 64"
  shows "bit (foldl or_byte ls (enumerate k bs) ! l) j \<longleftrightarrow>
    bit (ls ! l) j \<or> k \<le> 8 * l + j div 8 \<and> 8 * l + j div 8 < k + length bs \<and> bit (bs ! (8 * l + j div 8 - k)) (j mod 8)"
  using assms(1)
proof (induction bs arbitrary: ls k)
  case (Cons b bs)
  let ?i = "8 * l + j div 8"
  have len: "length (or_byte ls (k, b)) = 32" using length_or_bytes [of ls "[(k, b)]"] Cons.prems by simp
  show ?case using Cons.IH [OF len, of "Suc k"] or_byte_bit [OF Cons.prems assms(2, 3), of k b]
    by (cases "k = ?i") (auto simp: nth_Cons' Suc_le_eq)
qed auto

lemma big_from_be_bit:
  assumes "l < 32" "j < 64"
  shows "bit (limbs (big_from_be bytes) ! l) j \<longleftrightarrow>
    8 * l + j div 8 < length (take 256 bytes) \<and> bit (rev (take 256 bytes) ! (8 * l + j div 8)) (j mod 8)"
  using or_bytes_bit [of "limbs big_zero" l j 0 "rev (take 256 bytes)"] assms
  by (simp add: big_from_be_def big_zero_def)

lemma big_from_be_ok: "big_ok (big_from_be bytes)"
  by (simp add: big_ok_def big_from_be_def length_or_bytes big_zero_def)

lemma limb_byte_bit: "l < 32 \<Longrightarrow> j < 64 \<Longrightarrow> bit (limb_byte ls (8 * l + j div 8)) (j mod 8) \<longleftrightarrow> bit (ls ! l) j"
proof -
  assume "l < 32" "j < 64"
  then have "(8 * l + j div 8) mod 8 = j div 8" "(8 * l + j div 8) div 8 = l" "j div 8 * 8 + j mod 8 = j" by auto
  then show ?thesis by (simp add: limb_byte_def bit_simps)
qed

text \<open>
  The big-endian bytes of a 2048-bit integer, which are stripped of leading zeros, are read back to the same integer.\<close>

lemma big_bytes_roundtrip:
  assumes "big_ok n" shows "big_from_be (big_to_be n) = n"
proof -
  let ?ls = "limbs n" and ?out = "rev (map (limb_byte (limbs n)) [0..<256])"
  define f where "f = (case position (\<lambda>b. b \<noteq> 0) ?out of Some i \<Rightarrow> i | None \<Rightarrow> 255)"
  have out: "big_to_be n = drop f ?out" by (simp only: big_to_be_def f_def Let_def)
  have lead: "limb_byte ?ls i = 0" if "i < 256" "256 - f \<le> i" for i
  proof -
    have nth: "?out ! (255 - i) = limb_byte ?ls i" using that(1) by (simp add: rev_nth)
    show ?thesis
    proof (cases "position (\<lambda>b. b \<noteq> 0) ?out")
      case None
      then have "\<forall>x\<in>set ?out. x = 0" unfolding position_None by simp
      then show ?thesis using that(1) by simp
    next
      case (Some p)
      then have "255 - i < p" using that by (simp add: f_def)
      then show ?thesis using Some nth unfolding position_Some by simp
    qed
  qed
  have b: "rev (take 256 (big_to_be n)) = take (256 - f) (map (limb_byte ?ls) [0..<256])"
    unfolding out by (simp add: drop_rev)
  have len: "length (take 256 (big_to_be n)) = 256 - f" using arg_cong [OF b, of length] by simp
  have "bit (limbs (big_from_be (big_to_be n)) ! l) j = bit (?ls ! l) j" if lj: "l < 32" "j < 64" for l j
  proof -
    let ?i = "8 * l + j div 8"
    have i: "?i < 256" using lj by simp
    have "bit (limbs (big_from_be (big_to_be n)) ! l) j \<longleftrightarrow> ?i < 256 - f \<and> bit (limb_byte ?ls ?i) (j mod 8)"
      unfolding big_from_be_bit [OF lj] len b using i by auto
    also have "\<dots> \<longleftrightarrow> bit (limb_byte ?ls ?i) (j mod 8)" using lead [OF i] by (metis bit_0_eq bot_apply bot_bool_def not_le)
    finally show ?thesis using limb_byte_bit [OF lj] by simp
  qed
  then have "limbs (big_from_be (big_to_be n)) = ?ls"
    using assms big_from_be_ok [of "big_to_be n"] by (intro nth_equalityI bit_word_eqI) (auto simp: big_ok_def)
  then show ?thesis by simp
qed

lemma big_bytes_roundtrip_instance: "big_from_be (big_to_be (from_u64 258)) = from_u64 258"
  by (rule big_bytes_roundtrip) (rule from_u64_val)

end
