(* ===== verification/Crypto_ext.thy ===== *)
theory Crypto_ext
  imports Aes Bignum Le_Bytes "HOL-Library.Signed_Division"
begin

text \<open>
  The rest of \<^verbatim>\<open>crypto_ext.rs\<close>: 64-bit modular arithmetic and RSA, certificates, the ChaCha20 generator, PBKDF2 and the
  Diffie-Hellman exchange. The operation counters and the texts that report them are left out, and so is
  \<^verbatim>\<open>extended_gcd\<close>, which nothing calls.
\<close>

section \<open>RSA\<close>

record rsa_key_pair =
  rk_n :: u64
  rk_e :: u64
  rk_d :: u64
  rk_p :: u32
  rk_q :: u32

definition add_reduce :: "u64 \<Rightarrow> u64 \<Rightarrow> u64 \<Rightarrow> u64" where
  "add_reduce m x y = (let s = x + y in if s \<ge> m then s - m else s)"

function mul_mod_loop :: "u64 \<Rightarrow> u64 \<Rightarrow> u64 \<Rightarrow> u64 \<Rightarrow> u64" where
  "mul_mod_loop m result a b =
     (if b > 0 then mul_mod_loop m (if b AND 1 = 1 then add_reduce m result a else result) (add_reduce m a a) (drop_bit 1 b)
      else result)"
  by pat_completeness auto

lemma drop_bit_less: "b > 0 \<Longrightarrow> unat (drop_bit 1 b) < unat (b :: u64)"
  by (simp only: unat_drop_bit_eq drop_bit_eq_div [where 'a = nat]) (simp add: word_less_nat_alt unat_gt_0)

termination mul_mod_loop
  by (relation "measure (\<lambda>(m, r, a, b). unat b)") (auto simp only: in_measure prod.case drop_bit_less)

declare mul_mod_loop.simps [simp del]

text \<open>\<open>None\<close> is the panic of a remainder by zero.\<close>

definition mul_mod :: "u64 \<Rightarrow> u64 \<Rightarrow> u64 \<Rightarrow> u64 option" where
  "mul_mod a b m = (if m = 0 then None else Some (mul_mod_loop m 0 (a mod m) (b mod m)))"

function mod_pow_loop :: "u64 \<Rightarrow> u64 \<Rightarrow> u64 \<Rightarrow> u64 \<Rightarrow> u64 option" where
  "mod_pow_loop modulus result base e =
     (if e > 0
      then case (if e AND 1 = 1 then mul_mod result base modulus else Some result) of
          None \<Rightarrow> None
        | Some r \<Rightarrow> (case mul_mod base base modulus of None \<Rightarrow> None | Some b \<Rightarrow> mod_pow_loop modulus r b (drop_bit 1 e))
      else Some result)"
  by pat_completeness auto
termination mod_pow_loop
  by (relation "measure (\<lambda>(m, r, b, e). unat e)") (auto simp only: in_measure prod.case drop_bit_less)

declare mod_pow_loop.simps [simp del]

definition mod_pow :: "u64 \<Rightarrow> u64 \<Rightarrow> u64 \<Rightarrow> u64 option" where
  "mod_pow base e modulus =
     (if modulus = 1 then Some 0 else if modulus = 0 then None else mod_pow_loop modulus 1 (base mod modulus) e)"

definition check_i64 :: "int \<Rightarrow> int option" where
  "check_i64 x = (if - (2 ^ 63) \<le> x \<and> x < 2 ^ 63 then Some x else None)"

text \<open>The checked arithmetic on \<^verbatim>\<open>i64\<close>: every product and difference must be in range.\<close>

definition quot_step :: "int \<Rightarrow> int \<Rightarrow> int \<Rightarrow> int option" where
  "quot_step q x y = Option.bind (check_i64 (q * y)) (\<lambda>p. check_i64 (x - p))"

function inverse_loop :: "int \<Rightarrow> int \<Rightarrow> int \<Rightarrow> int \<Rightarrow> (int \<times> int) option" where
  "inverse_loop old_r r old_s s =
     (if r \<noteq> 0
      then case check_i64 (old_r sdiv r) of
          None \<Rightarrow> None
        | Some q \<Rightarrow> (case quot_step q old_r r of
              None \<Rightarrow> None
            | Some r1 \<Rightarrow> (case quot_step q old_s s of None \<Rightarrow> None | Some s1 \<Rightarrow> inverse_loop r r1 s s1))
      else Some (old_r, old_s))"
  by pat_completeness auto

lemma quot_step_smod: "check_i64 (x sdiv y) = Some q \<Longrightarrow> quot_step q x y = Some z \<Longrightarrow> z = x smod y"
  by (auto simp: quot_step_def check_i64_def minus_sdiv_mult_eq_smod [symmetric] split: if_splits bind_splits)

lemma smod_less: "y \<noteq> 0 \<Longrightarrow> \<bar>x smod y\<bar> < \<bar>y :: int\<bar>"
  using smod_int_range [of y x] by auto

termination inverse_loop
  by (relation "measure (\<lambda>(old_r, r, old_s, s). nat \<bar>r\<bar>)") (auto dest!: quot_step_smod smod_less)

declare inverse_loop.simps [simp del]

text \<open>The arguments are cast to \<^verbatim>\<open>i64\<close>; the outer option is a panic, the inner one the result.\<close>

definition mod_inverse :: "u64 \<Rightarrow> u64 \<Rightarrow> u64 option option" where
  "mod_inverse a m =
     (case inverse_loop (sint a) (sint m) 1 0 of
        None \<Rightarrow> None
      | Some (old_r, old_s) \<Rightarrow>
          if old_r \<noteq> 1 then Some None
          else if old_s < 0 then map_option (\<lambda>x. Some (word_of_int x)) (check_i64 (old_s + sint m))
          else Some (Some (word_of_int old_s)))"

text \<open>Trial division by numbers of the form \<open>6 k - 1\<close> and \<open>6 k + 1\<close>; the counter is a \<^verbatim>\<open>u32\<close>, so it stays below
  \<open>2 ^ 32\<close>.\<close>

definition saturating_mul32 :: "nat \<Rightarrow> nat \<Rightarrow> nat" where
  "saturating_mul32 a b = min (a * b) (2 ^ 32 - 1)"

function prime_loop :: "nat \<Rightarrow> nat \<Rightarrow> bool" where
  "prime_loop n i =
     (if saturating_mul32 i i \<le> n \<and> i < 2 ^ 32 then if n mod i = 0 \<or> n mod (i + 2) = 0 then False else prime_loop n (i + 6) else True)"
  by pat_completeness auto
termination by (relation "measure (\<lambda>(n, i). 2 ^ 32 - i)") auto

declare prime_loop.simps [simp del]

definition is_prime :: "u32 \<Rightarrow> bool" where
  "is_prime n =
     (if n < 2 then False else if n < 4 then True else if n mod 2 = 0 \<or> n mod 3 = 0 then False else prime_loop (unat n) 5)"

definition SMALL_PRIMES :: "u32 list" where
  "SMALL_PRIMES = [251, 257, 263, 269, 271, 277, 281, 283, 293, 307, 311, 313, 317, 331, 337, 347, 349, 353, 359, 367,
     373, 379, 383, 389, 397, 401, 409, 419, 421, 431, 433, 439, 443, 449, 457, 461, 463, 467, 479, 487,
     491, 499, 503, 509, 521, 523, 541, 547, 557, 563, 569, 571, 577, 587, 593, 599, 601, 607, 613, 617,
     619, 631, 641, 643, 647, 653, 659, 661, 673, 677, 683, 691, 701, 709, 719, 727, 733, 739, 743, 751]"

section \<open>The ChaCha20 generator\<close>

record csprng_state =
  cs_state :: "u32 list"
  cs_counter :: u64
  cs_bytes_generated :: u64

definition csprng_new :: csprng_state where
  "csprng_new = \<lparr>cs_state = [0x61707865, 0x3320646e, 0x79622d32, 0x6b206574, 0, 0, 0, 0, 0, 0, 0, 0, 0, 0, 0, 0], cs_counter = 0, cs_bytes_generated = 0\<rparr>"

definition rotate_left :: "u32 \<Rightarrow> nat \<Rightarrow> u32" where
  "rotate_left x n = push_bit n x OR drop_bit (32 - n) x"

definition quarter_round :: "nat \<Rightarrow> nat \<Rightarrow> nat \<Rightarrow> nat \<Rightarrow> u32 list \<Rightarrow> u32 list" where
  "quarter_round a b c d s0 =
     (let s1 = s0[a := s0 ! a + s0 ! b]; s2 = s1[d := rotate_left (s1 ! d XOR s1 ! a) 16];
          s3 = s2[c := s2 ! c + s2 ! d]; s4 = s3[b := rotate_left (s3 ! b XOR s3 ! c) 12];
          s5 = s4[a := s4 ! a + s4 ! b]; s6 = s5[d := rotate_left (s5 ! d XOR s5 ! a) 8];
          s7 = s6[c := s6 ! c + s6 ! d]; s8 = s7[b := rotate_left (s7 ! b XOR s7 ! c) 7]
      in s8)"

definition double_round :: "u32 list \<Rightarrow> u32 list" where
  "double_round w =
     (quarter_round 3 4 9 14 \<circ> quarter_round 2 7 8 13 \<circ> quarter_round 1 6 11 12 \<circ> quarter_round 0 5 10 15 \<circ>
      quarter_round 3 7 11 15 \<circ> quarter_round 2 6 10 14 \<circ> quarter_round 1 5 9 13 \<circ> quarter_round 0 4 8 12) w"

definition chacha20_block :: "u32 list \<Rightarrow> u32 list" where
  "chacha20_block state = map2 (+) ((double_round ^^ 10) state) state"

text \<open>A key word from up to four bytes of the seed; without bytes the old word stays.\<close>

definition seed_word :: "u8 list \<Rightarrow> u32 list \<Rightarrow> nat \<Rightarrow> u32 list" where
  "seed_word seed st i =
     (let offset = i * 4; bytes = take 4 (drop offset seed @ replicate 4 0)
      in if offset < length seed then st[4 + i := u32_from_le (bytes ! 0) (bytes ! 1) (bytes ! 2) (bytes ! 3)] else st)"

definition csprng_init :: "csprng_state \<Rightarrow> u8 list \<Rightarrow> csprng_state" where
  "csprng_init rng seed =
     rng\<lparr>cs_state := (foldl (seed_word seed) (cs_state rng) [0..<8])[12 := 0, 13 := 0], cs_counter := 0\<rparr>"

text \<open>The state with the counter written into it, and the 64 bytes of its block; \<open>None\<close> is the overflow of the
  block counter.\<close>

definition with_counter :: "csprng_state \<Rightarrow> csprng_state" where
  "with_counter rng = rng\<lparr>cs_state := (cs_state rng)[12 := ucast (cs_counter rng), 13 := ucast (drop_bit 32 (cs_counter rng))]\<rparr>"

definition block_bytes :: "csprng_state \<Rightarrow> u8 list" where
  "block_bytes rng = concat (map u32_to_le (chacha20_block (cs_state rng)))"

function csprng_fill :: "nat \<Rightarrow> csprng_state \<Rightarrow> (u8 list \<times> csprng_state) option" where
  "csprng_fill n rng =
     (if n = 0 then Some ([], rng)
      else let rng1 = with_counter rng in
        if cs_counter rng1 = - 1 then None
        else map_option (\<lambda>r. (take n (block_bytes rng1) @ fst r, snd r))
          (csprng_fill (n - 64) (rng1\<lparr>cs_counter := cs_counter rng1 + 1\<rparr>)))"
  by pat_completeness auto
termination by (relation "measure (\<lambda>(n, rng). n)") auto

declare csprng_fill.simps [simp del]

definition csprng_bytes :: "csprng_state \<Rightarrow> nat \<Rightarrow> (u8 list \<times> csprng_state) option" where
  "csprng_bytes rng n =
     map_option (\<lambda>r. (fst r, (snd r)\<lparr>cs_bytes_generated := cs_bytes_generated (snd r) + of_nat n\<rparr>)) (csprng_fill n rng)"

definition u64_from_le_bytes :: "u8 list \<Rightarrow> u64" where
  "u64_from_le_bytes bs = foldr (\<lambda>b v. push_bit 8 v OR ucast b) bs 0"

definition csprng_u64 :: "csprng_state \<Rightarrow> (u64 \<times> csprng_state) option" where
  "csprng_u64 rng = map_option (\<lambda>r. (u64_from_le_bytes (fst r), snd r)) (csprng_bytes rng 8)"

definition DEFAULT_SEED :: "u8 list" where
  "DEFAULT_SEED = [0xde, 0xad, 0xbe, 0xef, 0xca, 0xfe, 0xba, 0xbe, 0x01, 0x23, 0x45, 0x67, 0x89, 0xab, 0xcd, 0xef,
     0xfe, 0xdc, 0xba, 0x98, 0x76, 0x54, 0x32, 0x10, 0x0f, 0x1e, 0x2d, 0x3c, 0x4b, 0x5a, 0x69, 0x78]"

definition crypto_ext_init :: "csprng_state \<Rightarrow> csprng_state" where
  "crypto_ext_init rng = csprng_init rng DEFAULT_SEED"

text \<open>Two primes of the table chosen by the generator's counter; the bit size is ignored.\<close>

definition generate_keypair :: "csprng_state \<Rightarrow> rsa_key_pair option" where
  "generate_keypair rng =
     (let idx_p = unat (cs_counter rng) mod length SMALL_PRIMES; idx_q = (idx_p + 7) mod length SMALL_PRIMES;
          p = SMALL_PRIMES ! idx_p; q = SMALL_PRIMES ! idx_q; n = ucast p * ucast q; phi = (ucast p - 1) * (ucast q - 1); e = 65537
      in case mod_inverse e phi of
           None \<Rightarrow> None
         | Some r \<Rightarrow> Some \<lparr>rk_n = n, rk_e = e, rk_d = (case r of Some d \<Rightarrow> d | None \<Rightarrow> 3), rk_p = p, rk_q = q\<rparr>)"

definition rsa_encrypt :: "u64 \<Rightarrow> u64 \<Rightarrow> u64 \<Rightarrow> u64 option" where
  "rsa_encrypt msg e n = mod_pow msg e n"

definition rsa_decrypt :: "u64 \<Rightarrow> u64 \<Rightarrow> u64 \<Rightarrow> u64 option" where
  "rsa_decrypt cipher d n = mod_pow cipher d n"

section \<open>Certificates\<close>

record x509_cert =
  xc_subject :: str
  xc_issuer :: str
  xc_serial :: u64
  xc_not_before :: str
  xc_not_after :: str
  xc_pub_key_type :: str
  xc_fingerprint :: "u8 list"

definition parse_der_length :: "u8 list \<Rightarrow> str + nat \<times> nat" where
  "parse_der_length data =
     (case data of
        [] \<Rightarrow> Inl ''empty length''
      | b # rest \<Rightarrow>
          if b < 0x80 then Inr (unat b, 1)
          else let num_bytes = unat (b AND 0x7f) in
            if num_bytes = 0 \<or> num_bytes > 4 \<or> length data < 1 + num_bytes then Inl ''invalid length encoding''
            else Inr (foldl (\<lambda>len d. len * 256 + unat d) 0 (take num_bytes rest), 1 + num_bytes))"

fun serial_from :: "u8 list \<Rightarrow> nat \<Rightarrow> nat \<Rightarrow> u64" where
  "serial_from data i 0 = 0"
| "serial_from data i (Suc k) =
     (if data ! i = 0x02 \<and> unat (data ! (i + 1)) < 20
      then foldl (\<lambda>serial d. push_bit 8 serial OR ucast d) 0 (take (min (unat (data ! (i + 1))) 8) (drop (i + 2) data))
      else serial_from data (i + 1) k)"

definition extract_serial :: "u8 list \<Rightarrow> nat \<Rightarrow> u64" where
  "extract_serial data start = serial_from data start (length data - 4 - start)"

definition cn_char :: "u8 \<Rightarrow> bool" where
  "cn_char b \<longleftrightarrow> b \<noteq> 0 \<and> b \<noteq> 0x2C \<and> b \<ge> 0x20"

fun cn_from :: "u8 list \<Rightarrow> u8 list \<Rightarrow> nat \<Rightarrow> nat \<Rightarrow> str option" where
  "cn_from data prefix i 0 = None"
| "cn_from data prefix i (Suc k) =
     (let name = takeWhile cn_char (drop (i + length prefix) data)
      in if slice i (length prefix) data = prefix \<and> name \<noteq> [] \<and> from_utf8 name \<noteq> None then from_utf8 name
         else cn_from data prefix (i + 1) k)"

definition extract_cn :: "u8 list \<Rightarrow> u8 list \<Rightarrow> str option" where
  "extract_cn data prefix = cn_from data prefix 0 (length data - length prefix)"

definition parse_x509 :: "u8 list \<Rightarrow> str + x509_cert" where
  "parse_x509 data =
     (if length data < 10 then Inl ''certificate too short''
      else if data ! 0 \<noteq> 0x30 then Inl ''not a DER SEQUENCE''
      else case parse_der_length (drop 1 data) of
          Inl e \<Rightarrow> Inl e
        | Inr (_, content_start) \<Rightarrow>
            let pos = 1 + content_start in
            if pos \<ge> length data \<or> data ! pos \<noteq> 0x30 then Inl ''missing tbsCertificate''
            else Inr \<lparr>xc_subject = (case extract_cn data (map of_char ''CN='') of Some s \<Rightarrow> s | None \<Rightarrow> ''Unknown''),
              xc_issuer = (case extract_cn data (map of_char ''O='') of Some s \<Rightarrow> s | None \<Rightarrow> ''Unknown CA''),
              xc_serial = extract_serial data pos, xc_not_before = ''2024-01-01'', xc_not_after = ''2025-12-31'',
              xc_pub_key_type = ''RSA'', xc_fingerprint = sha256 data\<rparr>)"

section \<open>PBKDF2\<close>

fun pbkdf2_rounds :: "u8 list \<Rightarrow> nat \<Rightarrow> u8 list \<Rightarrow> u8 list \<Rightarrow> u8 list" where
  "pbkdf2_rounds password 0 u result = result"
| "pbkdf2_rounds password (Suc n) u result =
     (let u1 = hmac_sha256 password u in pbkdf2_rounds password n u1 (xor_block result u1))"

definition pbkdf2_block :: "u8 list \<Rightarrow> u8 list \<Rightarrow> u32 \<Rightarrow> u32 \<Rightarrow> u8 list" where
  "pbkdf2_block password salt iterations block_idx =
     (let u = hmac_sha256 password (salt @ u32_to_be block_idx) in pbkdf2_rounds password (unat iterations - 1) u u)"

definition pbkdf2_sha256 :: "u8 list \<Rightarrow> u8 list \<Rightarrow> u32 \<Rightarrow> u8 list \<Rightarrow> u8 list" where
  "pbkdf2_sha256 password salt iterations output =
     (let dk_len = length output; blocks_needed = (dk_len + 32 - 1) div 32
      in foldl (\<lambda>out i. let offset = (i - 1) * 32; copy_len = min (dk_len - offset) 32
                        in splice offset (take copy_len (pbkdf2_block password salt iterations (of_nat i))) out)
           output [1..<Suc blocks_needed])"

section \<open>Diffie-Hellman\<close>

definition DH_GROUP14_PRIME_BYTES :: "u8 list" where
  "DH_GROUP14_PRIME_BYTES = [0xFF, 0xFF, 0xFF, 0xFF, 0xFF, 0xFF, 0xFF, 0xFF, 0xC9, 0x0F, 0xDA, 0xA2, 0x21, 0x68, 0xC2, 0x34,
     0xC4, 0xC6, 0x62, 0x8B, 0x80, 0xDC, 0x1C, 0xD1, 0x29, 0x02, 0x4E, 0x08, 0x8A, 0x67, 0xCC, 0x74,
     0x02, 0x0B, 0xBE, 0xA6, 0x3B, 0x13, 0x9B, 0x22, 0x51, 0x4A, 0x08, 0x79, 0x8E, 0x34, 0x04, 0xDD,
     0xEF, 0x95, 0x19, 0xB3, 0xCD, 0x3A, 0x43, 0x1B, 0x30, 0x2B, 0x0A, 0x6D, 0xF2, 0x5F, 0x14, 0x37,
     0x4F, 0xE1, 0x35, 0x6D, 0x6D, 0x51, 0xC2, 0x45, 0xE4, 0x85, 0xB5, 0x76, 0x62, 0x5E, 0x7E, 0xC6,
     0xF4, 0x4C, 0x42, 0xE9, 0xA6, 0x37, 0xED, 0x6B, 0x0B, 0xFF, 0x5C, 0xB6, 0xF4, 0x06, 0xB7, 0xED,
     0xEE, 0x38, 0x6B, 0xFB, 0x5A, 0x89, 0x9F, 0xA5, 0xAE, 0x9F, 0x24, 0x11, 0x7C, 0x4B, 0x1F, 0xE6,
     0x49, 0x28, 0x66, 0x51, 0xEC, 0xE4, 0x5B, 0x3D, 0xC2, 0x00, 0x7C, 0xB8, 0xA1, 0x63, 0xBF, 0x05,
     0x98, 0xDA, 0x48, 0x36, 0x1C, 0x55, 0xD3, 0x9A, 0x69, 0x16, 0x3F, 0xA8, 0xFD, 0x24, 0xCF, 0x5F,
     0x83, 0x65, 0x5D, 0x23, 0xDC, 0xA3, 0xAD, 0x96, 0x1C, 0x62, 0xF3, 0x56, 0x20, 0x85, 0x52, 0xBB,
     0x9E, 0xD5, 0x29, 0x07, 0x70, 0x96, 0x96, 0x6D, 0x67, 0x0C, 0x35, 0x4E, 0x4A, 0xBC, 0x98, 0x04,
     0xF1, 0x74, 0x6C, 0x08, 0xCA, 0x18, 0x21, 0x7C, 0x32, 0x90, 0x5E, 0x46, 0x2E, 0x36, 0xCE, 0x3B,
     0xE3, 0x9E, 0x77, 0x2C, 0x18, 0x0E, 0x86, 0x03, 0x9B, 0x27, 0x83, 0xA2, 0xEC, 0x07, 0xA2, 0x8F,
     0xB5, 0xC5, 0x5D, 0xF0, 0x6F, 0x4C, 0x52, 0xC9, 0xDE, 0x2B, 0xCB, 0xF6, 0x95, 0x58, 0x17, 0x18,
     0x39, 0x95, 0x49, 0x7C, 0xEA, 0x95, 0x6A, 0xE5, 0x15, 0xD2, 0x26, 0x18, 0x98, 0xFA, 0x05, 0x10,
     0x15, 0x72, 0x8E, 0x5A, 0x8A, 0xAC, 0xAA, 0x68, 0xFF, 0xFF, 0xFF, 0xFF, 0xFF, 0xFF, 0xFF, 0xFF]"

definition DH_GENERATOR_VAL :: u64 where "DH_GENERATOR_VAL = 2"

record dh_keypair =
  dk_private_key :: big_uint
  dk_public_key :: big_uint
  dk_public_bytes :: "u8 list"

definition dh_generate_keypair :: "csprng_state \<Rightarrow> (dh_keypair \<times> csprng_state) option" where
  "dh_generate_keypair rng =
     map_option (\<lambda>(priv_bytes, rng1).
       let p = big_from_be DH_GROUP14_PRIME_BYTES; g = from_u64 DH_GENERATOR_VAL;
           private_key = big_from_be (priv_bytes[0 := priv_bytes ! 0 OR 0x80]); public_key = big_mod_pow g private_key p
       in (\<lparr>dk_private_key = private_key, dk_public_key = public_key, dk_public_bytes = big_to_be public_key\<rparr>, rng1))
     (csprng_bytes rng 32)"

definition dh_shared_secret :: "big_uint \<Rightarrow> big_uint \<Rightarrow> big_uint" where
  "dh_shared_secret our_private peer_public = big_mod_pow peer_public our_private (big_from_be DH_GROUP14_PRIME_BYTES)"

definition dh_derive_key :: "big_uint \<Rightarrow> u8 list" where
  "dh_derive_key shared_secret = take 16 (sha256 (big_to_be shared_secret))"

definition dh_derive_iv :: "big_uint \<Rightarrow> u8 list" where
  "dh_derive_iv shared_secret = take 16 (drop 16 (sha256 (big_to_be shared_secret)))"

end
