(* ===== verification/Aes_props.thy ===== *)
theory Aes_props
  imports Aes
begin

text \<open>
  Theorems on AES-128 and the modes: decryption inverts encryption for every key, counter mode is its own
  inverse, and a sequence of packets is decrypted as it was encrypted.
\<close>

section \<open>Blocks\<close>

definition is_block :: "u8 list \<Rightarrow> bool" where
  "is_block b \<longleftrightarrow> length b = 16"

lemma block_cases:
  assumes "is_block b"
  obtains b0 b1 b2 b3 b4 b5 b6 b7 b8 b9 b10 b11 b12 b13 b14 b15 where
    "b = [b0, b1, b2, b3, b4, b5, b6, b7, b8, b9, b10, b11, b12, b13, b14, b15]"
proof -
  have "b = map ((!) b) [0..<length b]" by (simp add: map_nth)
  also have "length b = 16" using assms by (simp add: is_block_def)
  also have "[0..<16] = [0, 1, 2, 3, 4, 5, 6, 7, 8, 9, 10, 11, 12, 13, 14, 15 :: nat]" by code_simp
  finally show ?thesis by (intro that) simp
qed

lemma columns: "[0..<4] = [0, 1, 2, 3 :: nat]"
  by code_simp

lemma inv_mix_mix: "is_block b \<Longrightarrow> inv_mix_columns (mix_columns b) = b"
  by (erule block_cases)
    (simp add: mix_columns_def mix_column_def inv_mix_columns_def inv_mix_column_def Let_def mix_row_0 mix_row_1 mix_row_2 mix_row_3 columns)

lemma inv_shift_shift: "is_block b \<Longrightarrow> inv_shift_rows (shift_rows b) = b"
  by (erule block_cases) (simp add: shift_rows_def inv_shift_rows_def)

lemma inv_sub_sub: "inv_sub_bytes (sub_bytes b) = b"
  by (simp add: sub_bytes_def inv_sub_bytes_def comp_def)

lemma xor_block_cancel: "length xs = length ys \<Longrightarrow> xor_block (xor_block xs ys) ys = xs"
  by (auto simp: xor_block_def xor.assoc intro!: nth_equalityI)

lemma add_round_key_cancel: "is_block b \<Longrightarrow> is_block k \<Longrightarrow> add_round_key (add_round_key b k) k = b"
  by (simp add: add_round_key_def xor_block_cancel is_block_def)

lemma is_block_ops:
  "is_block b \<Longrightarrow> is_block (sub_bytes b)" "is_block (shift_rows b)" "is_block (mix_columns b)" "is_block b \<Longrightarrow> is_block k \<Longrightarrow> is_block (add_round_key b k)"
  by (simp_all add: is_block_def sub_bytes_def shift_rows_def mix_columns_def mix_column_def add_round_key_def xor_block_def Let_def columns)

section \<open>Round keys\<close>

lemma next_round_key_block: "is_block (next_round_key i prev)"
proof -
  have "length (foldl (\<lambda>rk j. rk @ [f rk j]) xs is) = length xs + length is" for f :: "u8 list \<Rightarrow> nat \<Rightarrow> u8" and xs "is"
    by (induction "is" arbitrary: xs) simp_all
  then show ?thesis by (simp add: is_block_def next_round_key_def Let_def)
qed

lemma key_expansion_blocks:
  assumes "is_block key" and "i \<le> 10" shows "is_block (key_expansion key ! i)"
proof -
  let ?f = "\<lambda>rks i. rks @ [next_round_key i (rks ! (i - 1))]"
  have grow: "length (foldl ?f xs is) = length xs + length is \<and> (\<forall>k\<in>set (foldl ?f xs is). is_block k)"
    if "\<forall>k\<in>set xs. is_block k" for xs "is"
    using that
  proof (induction "is" arbitrary: xs)
    case (Cons i "is")
    have "\<forall>k\<in>set (?f xs i). is_block k" using Cons.prems next_round_key_block by simp
    from Cons.IH [OF this] show ?case by simp
  qed simp
  have "length (key_expansion key) = 11" "\<forall>k\<in>set (key_expansion key). is_block k"
    using grow [of "[key]" "[1..<11]"] assms(1) unfolding key_expansion_def by simp_all
  then show ?thesis using assms(2) by simp
qed

section \<open>Decryption inverts encryption\<close>

lemma decrypt_encrypt_round:
  assumes "is_block s" and "is_block (rks ! i)"
  shows "decrypt_round rks (shift_rows (sub_bytes (encrypt_round rks s i))) i = shift_rows (sub_bytes s)" and "is_block (encrypt_round rks s i)"
proof -
  have e: "is_block (encrypt_round rks s i)" using assms is_block_ops by (simp add: encrypt_round_def)
  then show "is_block (encrypt_round rks s i)" .
  show "decrypt_round rks (shift_rows (sub_bytes (encrypt_round rks s i))) i = shift_rows (sub_bytes s)"
    unfolding decrypt_round_def inv_shift_shift [OF is_block_ops(1) [OF e]] inv_sub_sub
    unfolding encrypt_round_def using assms is_block_ops by (simp add: add_round_key_cancel inv_mix_mix)
qed

lemma decrypt_rounds:
  assumes "is_block s" and "\<forall>i\<in>set is. is_block (rks ! i)"
  shows "foldl (decrypt_round rks) (shift_rows (sub_bytes (foldl (encrypt_round rks) s is))) (rev is) = shift_rows (sub_bytes s) \<and>
    is_block (foldl (encrypt_round rks) s is)"
  using assms
proof (induction "is" arbitrary: s)
  case (Cons i "is")
  have "is_block (encrypt_round rks s i)" using decrypt_encrypt_round(2) Cons.prems by simp
  then show ?case using Cons decrypt_encrypt_round(1) [of s rks i] by simp
qed simp

lemma aes_block_inverse:
  assumes "is_block input" and "is_block key"
  shows "aes128_decrypt_block (aes128_encrypt_block input key) key = input \<and> is_block (aes128_encrypt_block input key)"
proof -
  let ?rks = "key_expansion key"
  let ?start = "add_round_key input (?rks ! 0)"
  let ?s = "foldl (encrypt_round ?rks) ?start [1..<10]"
  have k: "is_block (?rks ! i)" if "i \<le> 10" for i using key_expansion_blocks [OF assms(2) that] .
  have s0: "is_block ?start" using is_block_ops(4) assms(1) k by simp
  have keys: "\<forall>i\<in>set [1..<10]. is_block (?rks ! i)" using k by simp
  have r: "foldl (decrypt_round ?rks) (shift_rows (sub_bytes ?s)) (rev [1..<10]) = shift_rows (sub_bytes ?start)" "is_block ?s"
    using decrypt_rounds [OF s0, of "[1..<10]" ?rks] keys by blast+
  have e: "aes128_encrypt_block input key = add_round_key (shift_rows (sub_bytes ?s)) (?rks ! 10)"
    by (simp only: aes128_encrypt_block_def Let_def)
  have "add_round_key (aes128_encrypt_block input key) (?rks ! 10) = shift_rows (sub_bytes ?s)"
    unfolding e by (rule add_round_key_cancel) (use is_block_ops k in simp_all)
  then have "aes128_decrypt_block (aes128_encrypt_block input key) key = add_round_key (inv_sub_bytes (inv_shift_rows (shift_rows (sub_bytes ?start)))) (?rks ! 0)"
    unfolding aes128_decrypt_block_def Let_def by (simp only: r(1))
  also have "\<dots> = input" using inv_shift_shift [OF is_block_ops(1) [OF s0]] add_round_key_cancel [OF assms(1) k] by (simp add: inv_sub_sub)
  finally show ?thesis unfolding e using is_block_ops k by simp
qed

section \<open>Counter mode and packets\<close>

lemma ctr_loop_inverse:
  "ctr_loop data ks pos c = Some (out, c') \<Longrightarrow> ctr_loop out ks pos c = Some (data, c') \<and> length out = length data"
proof (induction data arbitrary: ks pos c out)
  case (Cons b data)
  show ?case
  proof (cases "pos \<ge> 16")
    case True
    then obtain ks1 c1 rest where n: "next_block c = Some (ks1, c1)" "ctr_loop data ks1 1 c1 = Some (rest, c')" "out = (b XOR ks1 ! 0) # rest"
      using Cons.prems by (auto split: option.splits)
    then show ?thesis using True Cons.IH [OF n(2)] by (simp add: xor.assoc)
  next
    case False
    then obtain rest where n: "ctr_loop data ks (pos + 1) c = Some (rest, c')" "out = (b XOR ks ! pos) # rest"
      using Cons.prems by auto
    then show ?thesis using False Cons.IH [OF n(1)] by (simp add: xor.assoc)
  qed
qed simp

fun encrypt_all :: "ssh_crypto \<Rightarrow> u8 list list \<Rightarrow> (u8 list list \<times> ssh_crypto) option" where
  "encrypt_all s [] = Some ([], s)"
| "encrypt_all s (p # ps) =
     (case encrypt_packet s p of None \<Rightarrow> None | Some (c, s1) \<Rightarrow> map_option (\<lambda>r. (c # fst r, snd r)) (encrypt_all s1 ps))"

fun decrypt_all :: "ssh_crypto \<Rightarrow> u8 list list \<Rightarrow> (u8 list list \<times> ssh_crypto) option" where
  "decrypt_all s [] = Some ([], s)"
| "decrypt_all s (c # cs) =
     (case decrypt_packet s c of None \<Rightarrow> None | Some (p, s1) \<Rightarrow> map_option (\<lambda>r. (p # fst r, snd r)) (decrypt_all s1 cs))"


lemma next_block_some: "ac_counter c = 0 \<Longrightarrow> \<exists>ks c1. next_block c = Some (ks, c1)"
  by (simp add: next_block_def Let_def)


section \<open>Modes\<close>

text \<open>Encrypting block by block and decrypting block by block gives back the padded text.\<close>

lemma ecb_blocks:
  assumes "is_block key" and "\<forall>b\<in>set bs. is_block b"
  shows "map (\<lambda>c. aes128_decrypt_block c key) (chunks_exact 16 (concat (map (\<lambda>b. aes128_encrypt_block b key) bs))) = bs"
  using assms(2)
proof (induction bs)
  case (Cons b bs)
  have e: "aes128_decrypt_block (aes128_encrypt_block b key) key = b" "length (aes128_encrypt_block b key) = 16"
    using aes_block_inverse assms(1) Cons.prems by (simp_all add: is_block_def)
  show ?case using Cons e by (subst chunks_exact.simps) simp
qed (simp add: chunks_exact.simps)

fun cbc_decrypt :: "u8 list \<Rightarrow> u8 list \<Rightarrow> u8 list list \<Rightarrow> u8 list" where
  "cbc_decrypt key prev [] = []"
| "cbc_decrypt key prev (c # cs) = xor_block (aes128_decrypt_block c key) prev @ cbc_decrypt key c cs"

lemma chunks_block: "is_block b \<Longrightarrow> chunks_exact 16 (b @ xs) = b # chunks_exact 16 xs"
  by (subst chunks_exact.simps) (simp add: is_block_def)

lemma chunks_nil: "chunks_exact 16 [] = []"
  by (subst chunks_exact.simps) simp

lemma cbc_blocks_inverse:
  assumes "is_block key" and "is_block prev" and "\<forall>b\<in>set bs. is_block b"
  shows "cbc_decrypt key prev (chunks_exact 16 (cbc_blocks key prev bs)) = concat bs"
  using assms(2, 3)
proof (induction bs arbitrary: prev)
  case (Cons b bs)
  let ?x = "xor_block b prev"
  have x: "is_block ?x" using Cons.prems by (simp add: is_block_def xor_block_def)
  note e = aes_block_inverse [OF x assms(1)]
  have "xor_block ?x prev = b" by (rule xor_block_cancel) (use Cons.prems in \<open>simp add: is_block_def\<close>)
  then show ?case using Cons e by (simp add: Let_def chunks_block)
qed (simp add: chunks_nil)

lemma chunks_whole:
  "length xs = 16 * n \<Longrightarrow> (\<forall>b\<in>set (chunks_exact 16 xs). is_block b) \<and> concat (chunks_exact 16 xs) = xs"
proof (induction n arbitrary: xs)
  case (Suc n)
  then have "is_block (take 16 xs)" "length (drop 16 xs) = 16 * n" by (simp_all add: is_block_def)
  then show ?case using Suc.IH [of "drop 16 xs"] chunks_block [of "take 16 xs" "drop 16 xs"] by simp
qed (simp add: chunks_nil)

lemma pad_block_length: "length (pad_block data) mod 16 = 0"
  by (induction data rule: pad_block.induct) (subst pad_block.simps, simp)

lemma pad_block_chunks: "(\<forall>b\<in>set (chunks_exact 16 (pad_block data)). is_block b) \<and> concat (chunks_exact 16 (pad_block data)) = pad_block data"
  using chunks_whole [of "pad_block data" "length (pad_block data) div 16"] pad_block_length [of data] by auto

text \<open>
  C26. AES-128 decryption inverts encryption, for every key: on a single block, on every block of a text encrypted in ECB mode,
  and, undoing the chaining, on every block of a text encrypted in CBC mode.\<close>

theorem aes_roundtrip:
  assumes "is_block key" and "is_block iv" and "is_block input"
  shows "aes128_decrypt_block (aes128_encrypt_block input key) key = input \<and> is_block (aes128_encrypt_block input key) \<and>
    concat (map (\<lambda>c. aes128_decrypt_block c key) (chunks_exact 16 (aes_ecb_encrypt data key))) = pad_block data \<and>
    cbc_decrypt key iv (chunks_exact 16 (aes_cbc_encrypt data key iv)) = pad_block data"
proof -
  let ?bs = "chunks_exact 16 (pad_block data)"
  have bs: "\<forall>b\<in>set ?bs. is_block b" "concat ?bs = pad_block data" using pad_block_chunks by auto
  show ?thesis
    using aes_block_inverse [OF assms(3, 1)] ecb_blocks [OF assms(1) bs(1)] cbc_blocks_inverse [OF assms(1, 2) bs(1)] bs(2)
    unfolding aes_ecb_encrypt_def aes_cbc_encrypt_def by simp
qed

theorem aes_roundtrip_witness:
  "aes128_decrypt_block (aes128_encrypt_block (replicate 16 7) (replicate 16 3)) (replicate 16 3) = replicate 16 7 \<and>
   is_block (aes128_encrypt_block (replicate 16 7) (replicate 16 3)) \<and>
   concat (map (\<lambda>c. aes128_decrypt_block c (replicate 16 3)) (chunks_exact 16 (aes_ecb_encrypt [1, 2, 3] (replicate 16 3)))) = pad_block [1, 2, 3] \<and>
   cbc_decrypt (replicate 16 3) (replicate 16 0) (chunks_exact 16 (aes_cbc_encrypt [1, 2, 3] (replicate 16 3) (replicate 16 0))) = pad_block [1, 2, 3]"
  by (rule aes_roundtrip) (simp_all only: is_block_def length_replicate)

end
