(* ===== verification/Crypto_ext_props.thy ===== *)
theory Crypto_ext_props
  imports Crypto_ext Aes_props
begin

text \<open>
  Theorems on \<^verbatim>\<open>crypto_ext.rs\<close>: 64-bit modular exponentiation is exact for moduli of at most 63 bits, trial division
  decides primality, the extended Euclidean loop computes modular inverses without overflow, RSA decryption inverts
  encryption for every generated key, and why the Diffie-Hellman group does not work with the 2048-bit integers.
\<close>

section \<open>Modular arithmetic\<close>

lemma reduce_once:
  assumes "unat x < unat m" "unat y < unat m" "2 * unat (m :: u64) \<le> 2 ^ 64"
  shows "unat (add_reduce m x y) = (unat x + unat y) mod unat m"
proof -
  have "unat x + unat y < 2 ^ 64" using assms by linarith
  then have s: "unat (x + y) = unat x + unat y" by (simp add: unat_word_ariths)
  show ?thesis
  proof (cases "m \<le> x + y")
    case True
    then have "unat (x + y - m) = unat x + unat y - unat m" by (simp add: unat_sub s)
    moreover have "unat m \<le> unat x + unat y" using True s by (simp add: word_le_nat_alt)
    then have "(unat x + unat y) mod unat m = unat x + unat y - unat m" using assms(1, 2) by (simp add: le_mod_geq)
    ultimately show ?thesis using True by (simp add: add_reduce_def)
  next
    case False
    then show ?thesis using s by (simp add: add_reduce_def word_le_nat_alt)
  qed
qed

lemma unat_half: "unat (drop_bit 1 b) = unat (b :: u64) div 2"
  by (subst unat_drop_bit_eq) (simp add: drop_bit_eq_div [where 'a = nat])

lemma low_bit: "b AND 1 = (1 :: u64) \<longleftrightarrow> odd (unat b)"
  using bit_unsigned_iff [of b 0, where 'a = nat] by (simp add: and_one_eq mod_2_eq_odd bit_0)

lemma mod_add_mult: "(r mod m + a mod m * b) mod m = (r + a * b) mod (m :: nat)"
proof -
  have "(r mod m + a mod m * b) mod m = (r + a mod m * b mod m) mod m" by (simp only: mod_add_left_eq mod_add_right_eq)
  also have "a mod m * b mod m = a * b mod m" by (rule mod_mult_left_eq)
  finally show ?thesis by (simp only: mod_add_right_eq)
qed

lemma mod_add_dvd: "p dvd y \<Longrightarrow> (x + y) mod p = x mod (p :: nat)"
  by auto

lemma mul_mod_loop_val:
  assumes "2 * unat m \<le> 2 ^ 64" and "unat r < unat m" and "unat a < unat m"
  shows "unat (mul_mod_loop m r a b) = (unat r + unat a * unat b) mod unat m"
  using assms
proof (induction m r a b rule: mul_mod_loop.induct)
  case (1 m r a b)
  show ?case
  proof (cases "b > 0")
    case False
    then have "b = 0" by (simp add: word_gt_0)
    then show ?thesis using 1(3) by (subst mul_mod_loop.simps) simp
  next
    case True
    let ?r = "if b AND 1 = 1 then add_reduce m r a else r" and ?a = "add_reduce m a a"
    have a: "unat ?a = (unat a + unat a) mod unat m" by (rule reduce_once [OF 1(4, 4, 2)])
    have r: "unat ?r = (unat r + unat a * of_bool (odd (unat b))) mod unat m"
      using reduce_once [OF 1(3, 4, 2)] 1(3) by (simp add: low_bit)
    have lt: "unat ?a < unat m" "unat ?r < unat m" unfolding a r using 1(3) by simp_all
    have step: "mul_mod_loop m r a b = mul_mod_loop m ?r ?a (drop_bit 1 b)"
      using True by (subst mul_mod_loop.simps) simp
    have "unat (mul_mod_loop m ?r ?a (drop_bit 1 b)) = (unat ?r + unat ?a * unat (drop_bit 1 b)) mod unat m"
      using 1(1) [OF True 1(2)] lt by blast
    also have "\<dots> = (unat r + unat a * of_bool (odd (unat b)) + (unat a + unat a) * (unat b div 2)) mod unat m"
      unfolding a r unat_half by (rule mod_add_mult)
    also have "unat r + unat a * of_bool (odd (unat b)) + (unat a + unat a) * (unat b div 2) = unat r + unat a * (of_bool (odd (unat b)) + 2 * (unat b div 2))"
      by (simp add: algebra_simps)
    also have "of_bool (odd (unat b)) + 2 * (unat b div 2) = unat b" by (simp add: mod_2_eq_odd [symmetric])
    finally show ?thesis unfolding step .
  qed
qed

lemma mul_mod_val:
  assumes "m \<noteq> 0" and "2 * unat m \<le> 2 ^ 64"
  obtains r where "mul_mod a b m = Some r" and "unat r = unat a * unat b mod unat m"
proof -
  have "unat m > 0" using assms(1) by (simp add: unat_gt_0)
  then have "unat (mul_mod_loop m 0 (a mod m) (b mod m)) = (unat a mod unat m * (unat b mod unat m)) mod unat m"
    using mul_mod_loop_val [OF assms(2), of 0 "a mod m" "b mod m"] by (simp add: unat_mod)
  then show ?thesis using assms(1) by (intro that [of "mul_mod_loop m 0 (a mod m) (b mod m)"]) (simp_all add: mul_mod_def mod_mult_eq)
qed

lemma mod_pow_loop_val:
  assumes "m \<noteq> 0" and "2 * unat m \<le> 2 ^ 64" and "unat r < unat m"
  shows "\<exists>x. mod_pow_loop m r b e = Some x \<and> unat x = unat r * unat b ^ unat e mod unat m"
  using assms
proof (induction m r b e rule: mod_pow_loop.induct)
  case (1 m r b e)
  show ?case
  proof (cases "e > 0")
    case False
    then have "e = 0" by (simp add: word_gt_0)
    then show ?thesis using 1(4) by (subst mod_pow_loop.simps) simp
  next
    case True
    obtain r1 where r1: "(if e AND 1 = 1 then mul_mod r b m else Some r) = Some r1" "unat r1 = unat r * unat b ^ of_bool (odd (unat e)) mod unat m"
    proof (cases "odd (unat e)")
      case odd: True
      then show ?thesis using mul_mod_val [OF 1(2, 3), of r b] that by (auto simp: low_bit)
    next
      case False
      then show ?thesis using that [of r] 1(4) by (simp add: low_bit)
    qed
    obtain b1 where b1: "mul_mod b b m = Some b1" "unat b1 = unat b * unat b mod unat m" using mul_mod_val [OF 1(2, 3)] by metis
    have "unat r1 < unat m" unfolding r1(2) using 1(4) by simp
    then obtain x where x: "mod_pow_loop m r1 b1 (drop_bit 1 e) = Some x" "unat x = unat r1 * unat b1 ^ unat (drop_bit 1 e) mod unat m"
      using 1(1) [OF True r1(1) b1(1) 1(2, 3)] by blast
    have "unat x = unat r * unat b ^ of_bool (odd (unat e)) * (unat b * unat b) ^ (unat e div 2) mod unat m"
      unfolding x(2) r1(2) b1(2) unat_half by (rule mod_mult_power)
    also have "unat r * unat b ^ of_bool (odd (unat e)) * (unat b * unat b) ^ (unat e div 2) = unat r * unat b ^ (of_bool (odd (unat e)) + 2 * (unat e div 2))"
      by (simp add: power_add power_mult power2_eq_square mult.assoc)
    also have "of_bool (odd (unat e)) + 2 * (unat e div 2) = unat e" by (simp add: mod_2_eq_odd [symmetric])
    finally show ?thesis using x(1) r1(1) b1(1) True by (subst mod_pow_loop.simps) simp
  qed
qed

lemma mod_pow_val:
  assumes "m \<noteq> 0" and "2 * unat m \<le> 2 ^ 64"
  shows "\<exists>x. mod_pow b e m = Some x \<and> unat x = unat b ^ unat e mod unat m"
proof (cases "m = 1")
  case True
  then show ?thesis by (simp add: mod_pow_def)
next
  case False
  then have "unat (1 :: u64) < unat m" using assms(1) by (metis unat_1 unat_gt_0 less_one linorder_neqE_nat word_unat_eq_iff gr_implies_not0)
  then show ?thesis using mod_pow_loop_val [OF assms, of 1 "b mod m" e] False assms(1) by (simp add: mod_pow_def unat_mod power_mod)
qed

section \<open>Primes\<close>

definition prime :: "nat \<Rightarrow> bool" where
  "prime p \<longleftrightarrow> 1 < p \<and> (\<forall>d. d dvd p \<longrightarrow> d = 1 \<or> d = p)"

lemma prime_coprime:
  assumes "prime p" "\<not> p dvd x" shows "coprime p x"
proof -
  have "gcd p x = 1 \<or> gcd p x = p" using assms(1) gcd_dvd1 [of p x] unfolding prime_def by blast
  moreover have "gcd p x \<noteq> p" using assms(2) by (metis gcd_dvd2)
  ultimately show ?thesis by (simp add: coprime_iff_gcd_eq_1)
qed

lemma prime_dvd_mult: "prime p \<Longrightarrow> p dvd x * y \<Longrightarrow> p dvd x \<or> p dvd y"
  using prime_coprime [of p x] by (metis coprime_dvd_mult_right_iff)

lemma prime_dvd_choose:
  assumes "prime p" and "0 < k" and "k < p" shows "p dvd (p choose k)"
proof -
  obtain k' p' where k: "k = Suc k'" and p: "p = Suc p'" using assms(2, 3) gr0_implies_Suc [of k] gr0_implies_Suc [of p] by auto
  have "Suc k' * (Suc p' choose Suc k') = Suc p' * (p' choose k')" by (rule Suc_times_binomial)
  then have "p dvd k * (p choose k)" unfolding k p by (metis dvd_triv_left)
  moreover have "\<not> p dvd k" using assms(2, 3) by (simp add: nat_dvd_not_less)
  ultimately show ?thesis using prime_dvd_mult [OF assms(1)] by blast
qed

text \<open>Fermat's little theorem.\<close>

lemma fermat: "prime p \<Longrightarrow> x ^ p mod p = x mod p"
proof (induction x)
  case 0
  then show ?case by (simp add: prime_def power_0_left)
next
  case (Suc x)
  have p0: "0 < p" using Suc.prems by (simp add: prime_def)
  have sum: "Suc x ^ p = (\<Sum>k\<le>p. (p choose k) * x ^ k)" using binomial [of x 1 p] by simp
  have "(\<Sum>k\<le>p. (p choose k) * x ^ k) = (\<Sum>k\<in>{0, p} \<union> {1..<p}. (p choose k) * x ^ k)"
    by (rule sum.cong) (use p0 in auto)
  also have "\<dots> = (\<Sum>k\<in>{0, p}. (p choose k) * x ^ k) + (\<Sum>k\<in>{1..<p}. (p choose k) * x ^ k)"
    by (rule sum.union_disjoint) (use p0 in auto)
  also have "(\<Sum>k\<in>{0, p}. (p choose k) * x ^ k) = 1 + x ^ p" using p0 by simp
  finally have "Suc x ^ p = (1 + x ^ p) + (\<Sum>k\<in>{1..<p}. (p choose k) * x ^ k)" using sum by simp
  moreover have "p dvd (\<Sum>k\<in>{1..<p}. (p choose k) * x ^ k)"
    by (rule dvd_sum) (use prime_dvd_choose [OF Suc.prems] in auto)
  ultimately have "Suc x ^ p mod p = (1 + x ^ p) mod p" by (simp only: mod_add_dvd)
  also have "\<dots> = (1 + x ^ p mod p) mod p" by (simp only: mod_add_right_eq)
  also have "\<dots> = Suc x mod p" unfolding Suc.IH [OF Suc.prems] by (simp add: mod_Suc_eq)
  finally show ?case .
qed

lemma mod_eq_dvd: "y \<le> x \<Longrightarrow> x mod m = y mod m \<longleftrightarrow> m dvd x - (y :: nat)"
  by (rule mod_eq_dvd_iff_nat)

lemma fermat_unit:
  assumes "prime p" and "\<not> p dvd x" shows "x ^ (p - 1) mod p = 1"
proof -
  have p: "1 < p" using assms(1) by (simp add: prime_def)
  have x: "0 < x" using assms(2) by (intro Nat.gr0I) auto
  have xp: "x ^ p = x * x ^ (p - 1)" using p by (metis Suc_diff_1 less_trans power_Suc zero_less_one)
  have "x \<le> x ^ p" using x p by (simp add: self_le_power)
  then have "p dvd x ^ p - x" using fermat [OF assms(1), of x] by (simp add: mod_eq_dvd)
  then have "p dvd x * (x ^ (p - 1) - 1)" unfolding xp by (simp add: diff_mult_distrib2)
  then have "p dvd x ^ (p - 1) - 1" using prime_dvd_mult [OF assms(1)] assms(2) by blast
  then have "x ^ (p - 1) mod p = 1 mod p" using x by (subst mod_eq_dvd) (simp_all add: Suc_leI)
  then show ?thesis using p by simp
qed

lemma power_one_more:
  assumes "prime p" and "(p - 1) dvd t" shows "x ^ (1 + t) mod p = x mod p"
proof (cases "p dvd x")
  case True
  then show ?thesis by (simp add: dvd_eq_mod_eq_0 [symmetric])
next
  case False
  obtain k where k: "t = (p - 1) * k" using assms(2) by blast
  have "x ^ (1 + t) mod p = x * (x ^ (p - 1)) ^ k mod p" by (simp add: k power_mult)
  also have "\<dots> = x * ((x ^ (p - 1) mod p) ^ k mod p) mod p" by (simp only: power_mod mod_mult_right_eq)
  also have "\<dots> = x * (1 mod p) mod p" unfolding fermat_unit [OF assms(1) False] by simp
  finally show ?thesis by (simp add: mod_mult_right_eq)
qed

lemma rsa_exponent:
  assumes "prime p" "prime q" "p \<noteq> q" and "e * d mod ((p - 1) * (q - 1)) = 1" and "x < p * q"
  shows "x ^ (e * d) mod (p * q) = x"
proof -
  let ?phi = "(p - 1) * (q - 1)"
  have "e * d = 1 + ?phi * (e * d div ?phi)" using assms(4) mult_div_mod_eq [of ?phi "e * d"] by linarith
  then obtain t where t: "e * d = 1 + t" "(p - 1) dvd t" "(q - 1) dvd t" by (metis dvd_mult2 dvd_triv_left dvd_triv_right)
  have "x \<le> x ^ (1 + t)" by (cases "x = 0") simp_all
  then have "p dvd x ^ (1 + t) - x" "q dvd x ^ (1 + t) - x"
    using power_one_more [OF assms(1) t(2), of x] power_one_more [OF assms(2) t(3), of x] by (simp_all only: mod_eq_dvd)
  moreover have "coprime p q"
  proof (rule prime_coprime [OF assms(1)])
    show "\<not> p dvd q" using assms(1, 2, 3) by (auto simp: prime_def)
  qed
  ultimately have "p * q dvd x ^ (1 + t) - x" by (rule divides_mult)
  then have "x ^ (1 + t) mod (p * q) = x mod (p * q)" using \<open>x \<le> x ^ (1 + t)\<close> by (simp only: mod_eq_dvd)
  then show ?thesis using assms(5) t(1) by simp
qed

section \<open>Trial division\<close>

lemma divisor_gap:
  assumes "i mod 6 = 5" "odd n" "\<not> 3 dvd n" "d dvd n" "i \<le> d" "d < i + 6" shows "d = i \<or> d = i + (2 :: nat)"
proof -
  have "\<not> 2 dvd d" "\<not> 3 dvd d" using assms(2, 3, 4) dvd_trans by blast+
  then show ?thesis using assms(1, 5, 6) by presburger
qed

lemma no_small_divisor_prime:
  assumes "1 < n" "\<forall>d. 1 < d \<and> d < i \<longrightarrow> \<not> d dvd n" "n < i * i" shows "prime n"
  unfolding prime_def
proof (intro conjI allI impI)
  fix d assume "d dvd n"
  then obtain k where k: "n = d * k" by blast
  show "d = 1 \<or> d = n"
  proof (rule ccontr)
    assume "\<not> (d = 1 \<or> d = n)"
    then have "1 < d" "1 < k" using k assms(1) by (cases d; cases k; auto)+
    then have "i \<le> d" "i \<le> k" using assms(2) k by (metis dvd_triv_left dvd_triv_right not_le)+
    then have "i * i \<le> n" unfolding k by (rule mult_le_mono)
    then show False using assms(3) by simp
  qed
qed (use assms in simp)

lemma prime_loop_correct:
  assumes "n < 2 ^ 32 - 1" "i mod 6 = 5" "\<forall>d. 1 < d \<and> d < i \<longrightarrow> \<not> d dvd n" "odd n" "\<not> 3 dvd n" "1 < n"
  shows "prime_loop n i \<longleftrightarrow> prime n"
  using assms
proof (induction n i rule: prime_loop.induct)
  case (1 n i)
  have i5: "5 \<le> i" using 1(3) by presburger
  show ?case
  proof (cases "i * i \<le> n")
    case False
    then have "\<not> saturating_mul32 i i \<le> n" using 1(2) by (simp add: saturating_mul32_def min_def)
    then have "prime_loop n i" by (subst prime_loop.simps) simp
    then show ?thesis using no_small_divisor_prime [OF 1(7, 4)] False by simp
  next
    case True
    have "5 * i \<le> i * i" using i5 by (rule mult_le_mono1)
    then have lt: "i + 2 < n" using True i5 by linarith
    have guard: "saturating_mul32 i i \<le> n \<and> i < 2 ^ 32" using True 1(2) lt by (simp add: saturating_mul32_def)
    show ?thesis
    proof (cases "n mod i = 0 \<or> n mod (i + 2) = 0")
      case div: True
      then obtain d where "d dvd n" "d \<noteq> 1" "d \<noteq> n" using lt i5 by (auto simp: dvd_eq_mod_eq_0)
      then have "\<not> prime n" unfolding prime_def by blast
      then show ?thesis using div guard by (subst prime_loop.simps) simp
    next
      case nodiv: False
      have "\<not> d dvd n" if "1 < d" "d < i + 6" for d
      proof
        assume "d dvd n"
        then show False
          using divisor_gap [OF 1(3, 5, 6), of d] 1(4) that nodiv by (metis dvd_eq_mod_eq_0 not_le)
      qed
      then have "prime_loop n (i + 6) \<longleftrightarrow> prime n" using 1(1) [OF guard nodiv] 1(2, 3, 5, 6, 7) by simp
      then show ?thesis using nodiv guard by (subst prime_loop.simps) simp
    qed
  qed
qed


text \<open>
  Trial division decides primality: for every 32-bit number, \<^verbatim>\<open>is_prime\<close> answers true exactly for the
  primes, although its counter and the square it compares are 32-bit values.\<close>

lemma is_prime_correct: "is_prime n \<longleftrightarrow> prime (unat n)"
proof -
  have small: "\<not> prime 0" "\<not> prime 1" "prime 2" "prime 3"
  proof -
    show "prime 2" unfolding prime_def
    proof (intro conjI allI impI)
      fix d :: nat assume "d dvd 2"
      moreover then have "d \<le> 2" by (rule dvd_imp_le) simp
      ultimately show "d = 1 \<or> d = 2" by (cases "d = 0"; cases "d = 1"; auto)
    qed simp
    show "prime 3" unfolding prime_def
    proof (intro conjI allI impI)
      fix d :: nat assume "d dvd 3"
      moreover then have "d \<le> 3" by (rule dvd_imp_le) simp
      ultimately show "d = 1 \<or> d = 3" by (cases "d = 0"; cases "d = 1"; cases "d = 2"; auto)
    qed simp
  qed (simp_all add: prime_def)
  show ?thesis
  proof (cases "unat n < 4")
    case True
    then have "unat n = 0 \<or> unat n = 1 \<or> unat n = 2 \<or> unat n = 3" by linarith
    then show ?thesis using small by (auto simp: is_prime_def word_less_nat_alt)
  next
    case False
    have m: "n mod 2 = 0 \<longleftrightarrow> 2 dvd unat n" "n mod 3 = 0 \<longleftrightarrow> 3 dvd unat n"
      by (simp_all add: word_unat_eq_iff unat_mod dvd_eq_mod_eq_0)
    show ?thesis
    proof (cases "2 dvd unat n \<or> 3 dvd unat n")
      case True
      then obtain d where "d dvd unat n" "d \<noteq> 1" "d \<noteq> unat n" using False by (elim disjE) simp_all
      then have "\<not> prime (unat n)" unfolding prime_def by blast
      then show ?thesis using True False m by (simp add: is_prime_def word_less_nat_alt)
    next
      case nd: False
      have "unat n \<noteq> 2 ^ 32 - 1" using nd by auto
      then have "unat n < 2 ^ 32 - 1" using unsigned_less [of n, where 'a = nat] by simp
      moreover have "\<forall>d. 1 < d \<and> d < 5 \<longrightarrow> \<not> d dvd unat n"
      proof (intro allI impI notI)
        fix d assume "1 < d \<and> d < 5" "d dvd unat n"
        moreover then have "d = 2 \<or> d = 3 \<or> d = 4" by linarith
        ultimately show False using nd by (auto dest: dvd_trans [of 2 4, rotated])
      qed
      ultimately have "prime_loop (unat n) 5 \<longleftrightarrow> prime (unat n)" using nd False by (intro prime_loop_correct) auto
      then show ?thesis using nd False m by (simp add: is_prime_def word_less_nat_alt)
    qed
  qed
qed


section \<open>The modular inverse\<close>

text \<open>The invariant of the extended Euclidean loop: the coefficients have opposite signs, and with the remainders
  they always add up to the modulus, so nothing leaves the range of \<^verbatim>\<open>i64\<close>.\<close>

definition euclid_inv :: "int \<Rightarrow> int \<Rightarrow> int \<Rightarrow> int \<Rightarrow> int \<Rightarrow> int \<Rightarrow> bool" where
  "euclid_inv a m old_r r old_s s \<longleftrightarrow>
     0 < old_r \<and> 0 \<le> r \<and> gcd old_r r = gcd a m \<and> old_r < 2 ^ 63 \<and> r < 2 ^ 63 \<and> \<bar>old_s\<bar> \<le> m \<and> \<bar>s\<bar> \<le> m \<and> old_s * s \<le> 0 \<and>
     \<bar>old_s\<bar> * r + \<bar>s\<bar> * old_r = m \<and> m dvd a * old_s - old_r \<and> m dvd a * s - r"

lemma opposite_abs: "x * y \<le> 0 \<Longrightarrow> 0 \<le> q \<Longrightarrow> \<bar>x - q * y\<bar> = \<bar>x\<bar> + q * \<bar>y :: int\<bar>"
proof -
  assume "x * y \<le> 0" and q: "0 \<le> q"
  then consider "0 \<le> x" "y \<le> 0" | "x \<le> 0" "0 \<le> y" by (auto simp: mult_le_0_iff)
  then show ?thesis
  proof cases
    case 1
    then show ?thesis using mult_nonneg_nonpos [OF q 1(2)] by simp
  next
    case 2
    then show ?thesis using mult_nonneg_nonneg [OF q 2(2)] by simp
  qed
qed

lemma summand_le: "0 \<le> x \<Longrightarrow> 0 \<le> y \<Longrightarrow> 0 < r \<Longrightarrow> x + y * r = m \<Longrightarrow> y \<le> (m :: int)"
  using mult_left_mono [of 1 r y] by simp

lemma euclid_step:
  assumes "euclid_inv a m old_r r old_s s" "r \<noteq> 0" "m < 2 ^ 63"
  defines "q \<equiv> old_r div r"
  shows "check_i64 (old_r sdiv r) = Some q" "quot_step q old_r r = Some (old_r mod r)" "quot_step q old_s s = Some (old_s - q * s)"
    "euclid_inv a m r (old_r mod r) s (old_s - q * s)"
proof -
  note I = assms(1) [unfolded euclid_inv_def]
  have r: "0 < r" using I assms(2) by linarith
  have q0: "0 \<le> q" unfolding q_def using I r by (simp add: pos_imp_zdiv_nonneg_iff)
  have sd: "old_r sdiv r = q" unfolding q_def using I r by (simp add: signed_divide_int_def)
  have qr: "q * r + old_r mod r = old_r" unfolding q_def by simp
  have mod0: "0 \<le> old_r mod r" "old_r mod r < r" using r by simp_all
  have "q * 1 \<le> q * r" using q0 r by (intro mult_left_mono) simp_all
  then have q_le: "q \<le> old_r" using qr mod0 by linarith
  show "check_i64 (old_r sdiv r) = Some q" using sd q0 q_le I by (simp add: check_i64_def)
  have "0 \<le> q * r" "q * r \<le> old_r" using q0 r qr mod0 by simp_all
  then show "quot_step q old_r r = Some (old_r mod r)" using qr mod0 I by (simp add: quot_step_def check_i64_def algebra_simps)
  have abs: "\<bar>old_s - q * s\<bar> = \<bar>old_s\<bar> + q * \<bar>s\<bar>" using opposite_abs [OF _ q0] I by blast
  have "\<bar>s\<bar> * (q * r + old_r mod r) = m - \<bar>old_s\<bar> * r" unfolding qr using I by linarith
  then have total: "\<bar>s\<bar> * (old_r mod r) + \<bar>old_s - q * s\<bar> * r = m" unfolding abs by (simp add: algebra_simps)
  have new_le: "\<bar>old_s - q * s\<bar> \<le> m" by (rule summand_le [OF _ _ r total]) (simp_all add: mod0)
  have "0 \<le> q * \<bar>s\<bar>" using q0 by simp
  then have "\<bar>q * s\<bar> \<le> m" using new_le q0 unfolding abs by (simp add: abs_mult)
  then show "quot_step q old_s s = Some (old_s - q * s)" using new_le assms(3) by (auto simp: quot_step_def check_i64_def abs_le_iff)
  have "gcd r (old_r mod r) = gcd a m" using I by (metis gcd_red_int)
  moreover have "s * (old_s - q * s) = old_s * s - q * (s * s)" by (simp add: algebra_simps)
  moreover have "0 \<le> q * (s * s)" using q0 by simp
  moreover have "old_s * s \<le> 0" using I by blast
  ultimately have sg: "s * (old_s - q * s) \<le> 0" and "gcd r (old_r mod r) = gcd a m" by linarith+
  moreover have "a * (old_s - q * s) - old_r mod r = (a * old_s - old_r) - q * (a * s - r)" using qr by (simp add: algebra_simps)
  then have "m dvd a * (old_s - q * s) - old_r mod r" using I by (metis dvd_diff dvd_mult)
  ultimately show "euclid_inv a m r (old_r mod r) s (old_s - q * s)"
    using I r mod0 total new_le unfolding euclid_inv_def by (intro conjI) (blast | linarith)+
qed

lemma inverse_loop_correct:
  assumes "euclid_inv a m old_r r old_s s" "m < 2 ^ 63"
  shows "\<exists>x. inverse_loop old_r r old_s s = Some (gcd a m, x) \<and> \<bar>x\<bar> \<le> m \<and> m dvd a * x - gcd a m"
  using assms
proof (induction old_r r old_s s rule: inverse_loop.induct)
  case (1 old_r r old_s s)
  show ?case
  proof (cases "r = 0")
    case True
    then show ?thesis using 1(2) by (subst inverse_loop.simps) (auto simp: euclid_inv_def)
  next
    case False
    note st = euclid_step [OF 1(2) False 1(3)]
    show ?thesis using 1(1) [OF False st(1, 2, 3, 4) 1(3)] st(1, 2, 3) False by (subst inverse_loop.simps) simp
  qed
qed

lemma sint_small64: "uint a < 2 ^ 63 \<Longrightarrow> sint (a :: u64) = uint a"
  by (simp add: sint_uint signed_take_bit_int_eq_self order_trans [OF _ uint_ge_0])

lemma mod_inverse_correct:
  assumes "0 < a" "a < 2 ^ 63" "0 < m" "m < (2 ^ 63 :: u64)" "coprime (unat a) (unat m)"
  shows "\<exists>d. mod_inverse a m = Some (Some d) \<and> unat a * unat d mod unat m = 1 mod unat m \<and> d \<le> m"
proof -
  define A M where "A = uint a" and "M = uint m"
  have lt: "A < 2 ^ 63" "M < 2 ^ 63" "0 < A" "0 < M" using assms(1 - 4) by (simp_all add: word_less_def A_def M_def)
  have si: "sint a = A" "sint m = M" using lt sint_small64 unfolding A_def M_def by blast+
  have nat: "unat a = nat A" "unat m = nat M" by (simp_all add: A_def M_def)
  have "gcd A M = 1" using gcd_int_int_eq [of "nat A" "nat M"] assms(5) lt unfolding nat by (simp add: coprime_iff_gcd_eq_1)
  moreover have "euclid_inv A M A M 1 0" using lt by (simp add: euclid_inv_def)
  ultimately obtain x where x: "inverse_loop A M 1 0 = Some (1, x)" "\<bar>x\<bar> \<le> M" "M dvd A * x - 1"
    using inverse_loop_correct [OF _ lt(2)] by metis
  define y where "y = (if x < 0 then x + M else x)"
  have y: "0 \<le> y" "y \<le> M" using x(2) lt(4) unfolding y_def by auto
  have r: "mod_inverse a m = Some (Some (word_of_int y))"
    using x(1, 2) y lt(2, 4) unfolding mod_inverse_def y_def si by (auto simp: check_i64_def)
  have "uint (word_of_int y :: u64) = y" using y lt(2) by (simp add: uint_word_of_int)
  then have u: "unat (word_of_int y :: u64) = nat y" by (simp only: unat_eq_nat_uint)
  have "A * y - 1 = (A * x - 1) + (if x < 0 then A * M else 0)" unfolding y_def by (simp add: algebra_simps)
  then have "M dvd A * y - 1" using x(3) by (simp only:) simp
  then have "A * y mod M = 1 mod M" by (simp add: mod_eq_dvd_iff)
  then have "nat (A * y mod M) = nat (1 mod M)" by (rule arg_cong)
  then have "unat a * unat (word_of_int y :: u64) mod unat m = 1 mod unat m"
    unfolding u nat using y lt by (simp add: nat_mod_distrib nat_mult_distrib)
  moreover have "word_of_int y \<le> m" using y by (simp add: word_le_nat_alt u nat nat_mono)
  ultimately show ?thesis using r by blast
qed

section \<open>RSA\<close>

lemma small_primes_sieve: "list_all (\<lambda>p. 250 < p \<and> p < 784 \<and> list_all (\<lambda>d. p mod d \<noteq> 0) [2..<28]) (map unat SMALL_PRIMES)"
  by (simp add: SMALL_PRIMES_def)

lemma small_primes:
  assumes "p \<in> set SMALL_PRIMES" shows "prime (unat p)" "250 < unat p" "unat p < 784"
proof -
  have "list_all (\<lambda>p. 250 < p \<and> p < 784 \<and> list_all (\<lambda>d. p mod d \<noteq> 0) [2..<28]) (map unat SMALL_PRIMES)"
    by (rule small_primes_sieve)
  then have s: "250 < unat p" "unat p < 784" "\<forall>d\<in>set [2..<28]. unat p mod d \<noteq> 0"
    using assms unfolding list_all_iff by (simp_all del: upt_rec_numeral)
  show "prime (unat p)"
  proof (rule no_small_divisor_prime [of _ 28])
    show "\<forall>d. 1 < d \<and> d < 28 \<longrightarrow> \<not> d dvd unat p" using s(3) by (simp del: upt_rec_numeral add: dvd_eq_mod_eq_0)
  qed (use s in simp_all)
  show "250 < unat p" "unat p < 784" using s by blast+
qed

lemma prime_65537: "prime 65537"
proof (rule no_small_divisor_prime [of _ 257])
  have "list_all (\<lambda>d. (65537 :: nat) mod d \<noteq> 0) [2..<257]" by simp
  then show "\<forall>d. 1 < d \<and> d < 257 \<longrightarrow> \<not> d dvd (65537 :: nat)" by (simp del: upt_rec_numeral add: list_all_iff dvd_eq_mod_eq_0)
qed simp_all

lemma coprime_public_exponent: "0 < x \<Longrightarrow> x < 784 \<Longrightarrow> 0 < y \<Longrightarrow> y < 784 \<Longrightarrow> coprime 65537 (x * y :: nat)"
  by (simp add: prime_coprime prime_65537 nat_dvd_not_less)

definition key_ok :: "rsa_key_pair \<Rightarrow> bool" where
  "key_ok k \<longleftrightarrow> rk_p k \<in> set SMALL_PRIMES \<and> rk_q k \<in> set SMALL_PRIMES \<and> rk_p k \<noteq> rk_q k \<and>
     unat (rk_n k) = unat (rk_p k) * unat (rk_q k) \<and>
     unat (rk_e k) * unat (rk_d k) mod ((unat (rk_p k) - 1) * (unat (rk_q k) - 1)) = 1"

lemma totient:
  assumes "p \<in> set SMALL_PRIMES" "q \<in> set SMALL_PRIMES"
  defines "phi \<equiv> (ucast p - 1) * (ucast q - 1) :: u64"
  shows "unat (ucast p * ucast q :: u64) = unat p * unat q" "unat phi = (unat p - 1) * (unat q - 1)" "unat phi < 614656" "1 < unat phi"
proof -
  note P = small_primes [OF assms(1)] and Q = small_primes [OF assms(2)]
  have up: "unat (ucast p :: u64) = unat p" "unat (ucast q :: u64) = unat q"
    using P(3) Q(3) by (simp_all add: unsigned_ucast_eq take_bit_nat_eq_self)
  have pq: "unat p * unat q < 784 * 784" using P(3) Q(3) by (intro mult_strict_mono) simp_all
  then show "unat (ucast p * ucast q :: u64) = unat p * unat q" by (simp add: unat_word_ariths up)
  have "unat (ucast p - 1 :: u64) = unat p - 1" "unat (ucast q - 1 :: u64) = unat q - 1"
    using P(2) Q(2) by (simp_all add: unat_sub word_le_nat_alt up)
  moreover have le: "(unat p - 1) * (unat q - 1) \<le> unat p * unat q" by (intro mult_le_mono) simp_all
  ultimately show v: "unat phi = (unat p - 1) * (unat q - 1)" using pq unfolding phi_def by (simp add: unat_word_ariths)
  show "unat phi < 614656" unfolding v using le pq by simp
  have "2 * 1 \<le> (unat p - 1) * (unat q - 1)" using P Q by (intro mult_le_mono) simp_all
  then show "1 < unat phi" unfolding v by simp
qed

lemma distinct_small_primes: "distinct SMALL_PRIMES"
  by (simp add: SMALL_PRIMES_def)

lemma generated_key:
  obtains k where "generate_keypair rng = Some k" "key_ok k"
proof -
  define i where "i = unat (cs_counter rng) mod length SMALL_PRIMES"
  define j where "j = (i + 7) mod length SMALL_PRIMES"
  have l: "length SMALL_PRIMES = 80" by (simp add: SMALL_PRIMES_def)
  have "i < 80" "j < 80" unfolding j_def i_def l by simp_all
  moreover have "i \<noteq> j" using \<open>i < 80\<close> unfolding j_def l by (cases "i < 73") (simp_all add: le_mod_geq)
  ultimately have ij: "i < 80" "j < 80" "i \<noteq> j" by blast+
  define p q where "p = SMALL_PRIMES ! i" and "q = SMALL_PRIMES ! j"
  have p: "p \<in> set SMALL_PRIMES" and q: "q \<in> set SMALL_PRIMES" unfolding p_def q_def using ij l by simp_all
  have "p \<noteq> q" unfolding p_def q_def using ij l by (simp add: nth_eq_iff_index_eq distinct_small_primes)
  define phi where "phi = (ucast p - 1) * (ucast q - 1 :: u64)"
  note t = totient [OF p q, folded phi_def]
  have "coprime 65537 (unat phi)" unfolding t(2) by (rule coprime_public_exponent) (use small_primes(2, 3) [OF p] small_primes(2, 3) [OF q] in simp_all)
  moreover have "unat (65537 :: u64) = 65537" by simp
  ultimately obtain d where d: "mod_inverse 65537 phi = Some (Some d)" "65537 * unat d mod unat phi = 1"
    using mod_inverse_correct [of 65537 phi] t(3, 4) by (auto simp: word_less_nat_alt)
  let ?k = "\<lparr>rk_n = ucast p * ucast q, rk_e = 65537, rk_d = d, rk_p = p, rk_q = q\<rparr>"
  have "generate_keypair rng = Some ?k"
    using d(1) unfolding generate_keypair_def Let_def i_def [symmetric] j_def [symmetric] p_def [symmetric] q_def [symmetric] phi_def by simp
  moreover have "key_ok ?k" using p q \<open>p \<noteq> q\<close> t(1) d(2) unfolding t(2) by (simp add: key_ok_def)
  ultimately show ?thesis by (rule that)
qed

text \<open>
  C27. RSA decryption inverts encryption: whatever the state of the generator, a key pair of two different primes is
  generated, and every message below their product is recovered from its cipher.\<close>

theorem rsa_roundtrip:
  "\<exists>k. generate_keypair rng = Some k \<and> is_prime (rk_p k) \<and> is_prime (rk_q k) \<and> rk_p k \<noteq> rk_q k \<and>
     unat (rk_n k) = unat (rk_p k) * unat (rk_q k) \<and>
     (\<forall>msg. msg < rk_n k \<longrightarrow> Option.bind (rsa_encrypt msg (rk_e k) (rk_n k)) (\<lambda>c. rsa_decrypt c (rk_d k) (rk_n k)) = Some msg)"
proof -
  obtain k where k: "generate_keypair rng = Some k" "key_ok k" by (rule generated_key)
  have v: "prime (unat (rk_p k))" "prime (unat (rk_q k))" "unat (rk_p k) \<noteq> unat (rk_q k)" "unat (rk_n k) = unat (rk_p k) * unat (rk_q k)"
    "unat (rk_e k) * unat (rk_d k) mod ((unat (rk_p k) - 1) * (unat (rk_q k) - 1)) = 1"
    using k(2) small_primes(1) by (auto simp only: key_ok_def word_unat_eq_iff)
  have "unat (rk_n k) < 784 * 784" unfolding v(4) using k(2) small_primes(3) by (intro mult_strict_mono) (auto simp: key_ok_def)
  then have small: "2 * unat (rk_n k) \<le> 2 ^ 64" by simp
  have "Option.bind (rsa_encrypt msg (rk_e k) (rk_n k)) (\<lambda>c. rsa_decrypt c (rk_d k) (rk_n k)) = Some msg" if m: "msg < rk_n k" for msg
  proof -
    have n0: "rk_n k \<noteq> 0" using m by auto
    obtain c where c: "rsa_encrypt msg (rk_e k) (rk_n k) = Some c" "unat c = unat msg ^ unat (rk_e k) mod unat (rk_n k)"
      using mod_pow_val [OF n0 small] unfolding rsa_encrypt_def by blast
    obtain d where d: "rsa_decrypt c (rk_d k) (rk_n k) = Some d" "unat d = unat c ^ unat (rk_d k) mod unat (rk_n k)"
      using mod_pow_val [OF n0 small] unfolding rsa_decrypt_def by blast
    have "unat d = unat msg ^ (unat (rk_e k) * unat (rk_d k)) mod unat (rk_n k)"
      unfolding d(2) c(2) power_mod power_mult by (rule refl)
    also have "\<dots> = unat msg"
      using rsa_exponent [OF v(1, 2, 3, 5), of "unat msg"] m by (simp add: word_less_nat_alt v(4))
    finally show ?thesis by (simp add: c(1) d(1) word_unat_eq_iff)
  qed
  then show ?thesis using k v(1, 2, 4) by (auto simp: is_prime_correct key_ok_def)
qed

theorem rsa_roundtrip_witness:
  "\<exists>k. generate_keypair csprng_new = Some k \<and> rk_n k = 251 * 283 \<and>
     Option.bind (rsa_encrypt 42 (rk_e k) (rk_n k)) (\<lambda>c. rsa_decrypt c (rk_d k) (rk_n k)) = Some 42"
proof -
  obtain k where k: "generate_keypair csprng_new = Some k"
    "\<forall>msg. msg < rk_n k \<longrightarrow> Option.bind (rsa_encrypt msg (rk_e k) (rk_n k)) (\<lambda>c. rsa_decrypt c (rk_d k) (rk_n k)) = Some msg"
    using rsa_roundtrip by blast
  have "map_option rk_n (generate_keypair csprng_new) = Some (251 * 283)" by code_simp
  then have "rk_n k = 251 * 283" using k(1) by simp
  then show ?thesis using k by simp
qed

section \<open>The 2048-bit group\<close>

text \<open>The modulus uses the top bit, so it does not meet the condition under which the products are exact.\<close>

lemma two_top_bits:
  assumes "bit v (Suc k)" "bit v k" "1 \<le> k" shows "2 ^ Suc (Suc k) < 2 * (v - 1 :: nat)"
proof -
  have "3 \<le> v div 2 ^ k" using binary_digit [of v k] binary_digit [of v "Suc k"] assms(1, 2) by simp
  then have "3 * 2 ^ k \<le> v div 2 ^ k * 2 ^ k" by (rule mult_le_mono1)
  also have "\<dots> \<le> v" by simp
  finally have "3 * 2 ^ k \<le> v" .
  moreover have "(2 :: nat) ^ 1 \<le> 2 ^ k" using assms(3) by (intro power_increasing) simp_all
  ultimately show ?thesis by (simp only: power_Suc power_one_right)
qed

lemma dh_prime_top: "BIG < 2 * (big_val (big_from_be DH_GROUP14_PRIME_BYTES) - 1)"
proof -
  let ?p = "big_from_be DH_GROUP14_PRIME_BYTES"
  have len: "length DH_GROUP14_PRIME_BYTES = 256" and "DH_GROUP14_PRIME_BYTES ! 0 = 0xFF" by (simp_all add: DH_GROUP14_PRIME_BYTES_def)
  then have top: "rev (take 256 DH_GROUP14_PRIME_BYTES) ! 255 = 0xFF"
    by (simp add: rev_nth)
  have "big_bit ?p 2047" "big_bit ?p 2046"
    using big_from_be_bit [of 31 63 DH_GROUP14_PRIME_BYTES] big_from_be_bit [of 31 62 DH_GROUP14_PRIME_BYTES] len top
    by (simp_all add: big_bit_def and_one_eq mod_2_eq_odd bit_iff_odd_drop_bit)
  then have "bit (big_val ?p) (Suc 2046)" "bit (big_val ?p) 2046"
    using big_bit_val [OF big_from_be_ok] by simp_all
  then have "2 ^ Suc (Suc 2046) < 2 * (big_val ?p - 1)" by (rule two_top_bits) simp
  moreover have "Suc (Suc 2046) = (64 * 32 :: nat)" by simp
  ultimately show ?thesis by (simp only: BIG_def)
qed

text \<open>So a product of two residues modulo this prime can be wrong.\<close>

lemma dh_products_wrong:
  defines "p \<equiv> big_from_be DH_GROUP14_PRIME_BYTES" and "a \<equiv> big_sub (big_from_be DH_GROUP14_PRIME_BYTES) (from_u64 1)"
  shows "big_val a < big_val p \<and> big_val (big_mul_mod a (from_u64 2) p) \<noteq> big_val a * 2 mod big_val p"
proof -
  have p: "big_ok p" "BIG < 2 * (big_val p - 1)" unfolding p_def by (rule big_from_be_ok dh_prime_top)+
  then have "big_ok a \<and> big_val a = big_val p - 1" unfolding a_def p_def [symmetric]
    using big_sub_val [OF p(1) from_u64_val(1), of 1] BIG_pos by (simp add: from_u64_val)
  then show ?thesis using mul_mod_overflows(2) [OF p(1), of a] p(2) BIG_pos by auto
qed

end
