(* ===== verification/Spec2Isabelle.thy ===== *)
theory Spec2Isabelle
  imports Ipc Access Pipefs Slab Memory Scheduler Capability Signals Pqueue Firewall Ratelimit Locks
    Cow Proc_mgr Compress Encoding Diskfs Bpf Raid Diff Tar Regex Json Ipc_ext_props
    Syscall_props Tcp_props Crypto_ext_props
begin

text \<open>
  \<^bold>\<open>MerlionOS kernel: a verification library.\<close>

  MerlionOS (\<^verbatim>\<open>src/src/*.rs\<close>) is a single-address-space hobby kernel in Rust. Each module keeps its
  state in a static behind a spin lock and offers functions on it; a call therefore runs
  atomically on the module's state, and a history of the kernel is a sequence of calls. The
  theories model the modules that hold the kernel's own logic, one definition per function,
  with the state passed explicitly. Calls that go from one module into another (\<^verbatim>\<open>fd\<close> into
  \<^verbatim>\<open>vfs\<close>, \<^verbatim>\<open>vfs\<close> into \<^verbatim>\<open>security\<close>, \<^verbatim>\<open>pipefs\<close> into \<^verbatim>\<open>fd\<close> and \<^verbatim>\<open>vfs\<close>, \<^verbatim>\<open>scheduler\<close>,
  \<^verbatim>\<open>signal\<close> and \<^verbatim>\<open>sighandler\<close> into \<^verbatim>\<open>task\<close>, \<^verbatim>\<open>kvdb\<close> into \<^verbatim>\<open>diskfs\<close> and \<^verbatim>\<open>diskfs\<close> into \<^verbatim>\<open>fat\<close>, and
  \<^verbatim>\<open>syscall\<close> into most of them) are calls of the model's definitions.

  \<^bold>\<open>Conventions.\<close> Machine integers are words of their width where they wrap, are masks or
  identifiers; indices into tables are natural numbers. A string is its list of UTF-8 bytes.
  \<^verbatim>\<open>Result<T, &str>\<close> is \<open>string + 'a\<close>, the error message on the left; \<^verbatim>\<open>Option\<close> is \<open>option\<close>. Where
  the code can panic (an index or a slice out of range, a checked overflow) the result is in an
  option whose \<open>None\<close> is the panic, and the theorems show when it cannot happen. A
  \<^verbatim>\<open>while\<close> loop is a recursive function with a termination proof; no definition uses fuel
  except \<open>Vfs.path_parts\<close>, whose fuel is the number of inodes and is enough because a parent
  has a smaller index (\<open>Vfs.path_parts_fuel\<close>). The counter of
  \<open>Bpf.bpf_fuel\<close> belongs to a specification: it states how many steps a run takes. Output to the serial line is part of the state
  where a module's contract mentions it. Every definition can be executed.

  \<^bold>\<open>Theories.\<close>
    \<^item> \<open>Prelude\<close>, \<open>Rust_Str\<close>, \<open>Btree\<close>, \<open>Fifo\<close>: Rust's integers and results, linear
      searches of tables, runs of operations, strings and UTF-8, \<^verbatim>\<open>BTreeMap\<close>, and the interface
      \<open>bounded_fifo\<close> of a bounded byte queue with the ring buffer that implements it.
    \<^item> \<open>Ipc\<close> (\<^verbatim>\<open>ipc.rs\<close>): channels; they refine a map of bounded queues, and ASCII strings make the
      round trip.
    \<^item> \<open>Security\<close>, \<open>Access\<close> (\<^verbatim>\<open>security.rs\<close>): users, groups, passwords, permissions; the user database
      stays consistent, only the password lets an ordinary user become somebody else, the
      permission check reads the bits of one class, who may \<^verbatim>\<open>chmod\<close> and \<^verbatim>\<open>chown\<close>.
    \<^item> \<open>Vfs\<close> (\<^verbatim>\<open>vfs.rs\<close>): the inode vector is a tree in every reachable state, the path cache never
      changes what a path names, \<^verbatim>\<open>cat\<close> returns what was written, \<^verbatim>\<open>rm\<close> removes exactly one file,
      failed writes.
    \<^item> \<open>Fd\<close> (\<^verbatim>\<open>fd.rs\<close>): descriptors over any store with \<^verbatim>\<open>cat\<close> and \<^verbatim>\<open>write\<close>, interpreted by \<open>Vfs\<close>.
    \<^item> \<open>Pipefs\<close> (\<^verbatim>\<open>pipefs.rs\<close>): pipes are first-in first-out under any interleaving of calls; the result
      of every call on every branch.
    \<^item> \<open>Slab\<close> (\<^verbatim>\<open>slab.rs\<close>) and \<open>Memory\<close> (\<^verbatim>\<open>memory.rs\<close>): live objects and frames never overlap; user page
      tables; the page-table walker of the \<^verbatim>\<open>x86_64\<close> crate is a parameter.
    \<^item> \<open>Shmem\<close> (\<^verbatim>\<open>shmem.rs\<close>), \<open>Cow\<close> (\<^verbatim>\<open>cow.rs\<close>), \<open>Proc_mgr\<close> (\<^verbatim>\<open>proc_mgr.rs\<close>): shared regions are isolated; a copy-on-write
      fault gives the writer a private copy; processes form a tree under the kernel in every
      reachable state, what fork copies and marks, and how an exit meets a wait.
    \<^item> \<open>Task\<close> (\<^verbatim>\<open>task.rs\<close>) and \<open>Scheduler\<close> (\<^verbatim>\<open>scheduler.rs\<close>): one running task, round-robin fairness with its bound,
      what a context switch saves and loads; what each policy picks; tick accounting.
    \<^item> \<open>Capability\<close> (\<^verbatim>\<open>capability.rs\<close>) and \<open>Signals\<close> (\<^verbatim>\<open>signal.rs\<close>, \<^verbatim>\<open>sighandler.rs\<close>): capability sets only shrink
      along inheritance, system-call filters, signal queues and handlers.
    \<^item> \<open>Pqueue\<close> (\<^verbatim>\<open>pqueue.rs\<close>): the binary heap behind the interface \<open>min_queue\<close>; draining is a stable
      sort; timers fire exactly when due.
    \<^item> \<open>Firewall\<close> (\<^verbatim>\<open>firewall.rs\<close>) and \<open>Ratelimit\<close> (\<^verbatim>\<open>ratelimit.rs\<close>): first match by priority as a refinement; token
      buckets never exceed burst plus rate; connection counters.
    \<^item> \<open>Locks\<close> (\<^verbatim>\<open>locks.rs\<close>): spinlock and ticket lock behind the interface \<open>mutex\<close>, as atomic steps of any
      number of threads: mutual exclusion, first come first served, no deadlock.
    \<^item> \<open>Compress\<close> (\<^verbatim>\<open>compress.rs\<close>) and \<open>Encoding\<close> (\<^verbatim>\<open>encoding.rs\<close>): LZ77 compression loses nothing and finds the
      longest match; base64, hexadecimal and URL codecs invert each other, the table-driven
      CRC-32 is the bit-serial one.
    \<^item> \<open>Le_Bytes\<close>, \<open>Kvdb\<close> (\<^verbatim>\<open>kvdb.rs\<close>), \<open>Fat\<close> (\<^verbatim>\<open>fat.rs\<close>), \<open>Diskfs\<close> (\<^verbatim>\<open>diskfs.rs\<close>): a sorted vector with binary search
      implements a finite map; the MF16 file system keeps its invariant (disjoint cluster chains
      that match the sizes), reads back what was written and deletes exactly one file; a database
      saved to the disk is loaded back, through all three layers and the sector driver, which
      is a parameter.
    \<^item> \<open>Rust_Parse\<close>, \<open>Bpf\<close> (\<^verbatim>\<open>bpf.rs\<close>): validated packet filters stay inside their program and memory and
      finish within one step per instruction; the filter compiler produces programs that accept
      exactly the packets the expression describes.
    \<^item> \<open>Raid\<close> (\<^verbatim>\<open>raid.rs\<close>): levels 0, 1 and 5; the parity invariant of level 5, reading with a disk
      lost, and rebuilding it.
    \<^item> \<open>Diff\<close> (\<^verbatim>\<open>diff.rs\<close>) and \<open>Tar\<close> (\<^verbatim>\<open>tar.rs\<close>): edit scripts are right and minimal, and applying one gives the
      new text; archives give back what was put in.
    \<^item> \<open>Id_Table\<close>, \<open>Ipc_ext\<close>, \<open>Ipc_ext_props\<close> (\<^verbatim>\<open>ipc_ext.rs\<close>): tables of objects with fresh identifiers behind the
      interface \<open>id_objects\<close>; Unix sockets, message queues, semaphores, shared segments, event,
      signal and timer descriptors, epoll sets and namespaces. Under any history of calls
      sockets deliver in order, message queues refine priority queues, semaphores count right,
      and all tables keep their invariant.
    \<^item> \<open>Regex\<close> (\<^verbatim>\<open>regex.rs\<close>) and \<open>Json\<close> (\<^verbatim>\<open>json.rs\<close>): the backtracking matcher finds a match exactly when the
      language of the pattern has one; JSON values are parsed back from their text.
    \<^item> \<open>Elf_Load\<close>, \<open>Userspace\<close>, \<open>Userspace_props\<close> (\<^verbatim>\<open>userspace.rs\<close>): ELF images are parsed back, a created process finds
      its image in memory, the process table keeps its invariant and never reuses an identifier,
      descriptor tables refine one private map per process.
    \<^item> \<open>Env\<close> (\<^verbatim>\<open>env.rs\<close>) and \<open>Syscall\<close>, \<open>Syscall_props\<close> (\<^verbatim>\<open>syscall.rs\<close>): the dispatch of system calls over the state
      of all these modules. The locales \<open>kernel_pred\<close> and \<open>kernel_step\<close> state what a predicate on that state
      needs so that every call keeps it; the invariant of the whole kernel and the isolation of
      credentials are interpretations.
    \<^item> \<open>Be_Bytes\<close>, \<open>Netstack\<close> (\<^verbatim>\<open>net.rs\<close>, \<^verbatim>\<open>netproto.rs\<close>, \<^verbatim>\<open>netstack.rs\<close>), \<open>Tcp\<close>, \<open>Tcp_props\<close> (\<^verbatim>\<open>tcp_real.rs\<close>): network byte order, the Internet
      checksum, Ethernet, ARP, IPv4, UDP and ICMP frames, and TCP over them, with the network card as
      a parameter. UDP datagrams and TCP segments arrive as they were sent with checksums a conforming receiver
      verifies; the handshake synchronises the numbers; the state machine follows RFC 793; a
      TCP stream is never corrupted by a network that loses, duplicates and reorders frames, and arrives
      completely when frames are delivered in order.
    \<^item> \<open>Crypto\<close> (\<^verbatim>\<open>crypto.rs\<close>), \<open>Aes\<close>, \<open>Aes_props\<close>, \<open>Bignum\<close>, \<open>Crypto_ext\<close>, \<open>Crypto_ext_props\<close> (\<^verbatim>\<open>crypto_ext.rs\<close>): SHA-256 and HMAC, with
      a test vector, injective padding, and constant tables that are the roots of primes the source says they
      are; AES-128 decryption inverts encryption in each mode, packets make the
      round trip; 2048-bit modular exponentiation is exact up to 2047 bits and why it fails for the
      Diffie-Hellman prime; the modular inverse, trial division, and RSA for every generated key; certificates,
      the ChaCha20 generator and PBKDF2 are modelled without further theorems.

  \<^bold>\<open>Not modelled.\<close> Drivers and architecture code (port and memory-mapped I/O, assembly), the
  protocols above UDP and TCP, the remaining file systems and cryptographic primitives, the user-space tools and
  the applications; in
  modelled modules, texts that only report (\<^verbatim>\<open>diskfs::info\<close>), floating point
  (\<^verbatim>\<open>compress::compression_ratio\<close>) and demonstrations (\<^verbatim>\<open>raid::init\<close>); in \<^verbatim>\<open>userspace\<close> the page table per process
  and the assembly, in \<^verbatim>\<open>syscall\<close> the arms that forward to modules that are not modelled.
\<close>

end
